(* ===== verification/Prelude.thy ===== *)
theory Prelude
  imports Main "HOL-Library.Word"
begin

text \<open>
  Shared vocabulary of the development.

  \<^item> The scalar types of the sources: \<open>key_t\<close> and \<open>val_t\<close> are the \<open>uint64_t\<close> instances the
    benchmarks use (\<open>common/util.h\<close>, \<open>key_type\<close>, \<open>val_type\<close>); an index or a \<open>size_t\<close> is a
    \<open>nat\<close> and its wrap-around is written out by \<open>sz_add\<close> and \<open>sz_sub\<close>.
  \<^item> The error values of the model. A C++ program point with undefined behaviour (null
    dereference, index out of range, a non-void function that falls off its end), a failed
    \<open>assert\<close> and a loop that does not end are values of \<open>err\<close>; a computation that may meet one
    has type \<open>'a res\<close>, with \<open>Inr\<close> for a normal result.
  \<^item> Generic facts on lists, strictly sorted keys and options that the components share, and
    the named collections \<open>res_simps\<close>, \<open>ptr_simps\<close> and \<open>heap_simps\<close>.
\<close>

named_theorems res_simps \<open>unfolding of the result monad\<close>
named_theorems ptr_simps \<open>tag bits of pointers\<close>
named_theorems heap_simps \<open>reads and writes of node stores\<close>

section \<open>Scalars\<close>

type_synonym key_t = "64 word"
type_synonym val_t = "64 word"
type_synonym addr = nat

abbreviation key_max :: key_t where
  "key_max \<equiv> - 1"

lemma one_less_key_max [simp]: "1 < key_max"
  by (simp add: word_less_alt uint_word_ariths)

text \<open>The tombstone: the source writes \<open>-1\<close> where a \<open>uint64_t\<close> value is expected.\<close>

abbreviation tombstone :: val_t where
  "tombstone \<equiv> - 1"

definition sz_add :: "nat \<Rightarrow> nat \<Rightarrow> nat" where
  "sz_add a b = (a + b) mod 2 ^ 64"

definition sz_sub :: "nat \<Rightarrow> nat \<Rightarrow> nat" where
  "sz_sub a b = (a + 2 ^ 64 - b) mod 2 ^ 64"

lemma sz_add_small [simp]: "a + b < 2 ^ 64 \<Longrightarrow> sz_add a b = a + b"
  by (simp add: sz_add_def)

lemma sz_sub_small [simp]: "b \<le> a \<Longrightarrow> a < 2 ^ 64 \<Longrightarrow> sz_sub a b = a - b"
  by (simp add: sz_sub_def mod_if)

lemma sz_sub_bound: "sz_sub a b < 2 ^ 64"
  by (simp add: sz_sub_def)

lemma sz_sub_wraps: "0 < b \<Longrightarrow> b \<le> 2 ^ 64 \<Longrightarrow> sz_sub 0 b = 2 ^ 64 - b"
  by (simp add: sz_sub_def)

text \<open>Conversions between the integer types: a \<open>uint32_t\<close>, an \<open>int\<close> and a \<open>size_t\<close> made from
  another integer keep the low bits.\<close>

definition to_u32 :: "int \<Rightarrow> nat" where
  "to_u32 x = nat (x mod 2 ^ 32)"

definition to_i32 :: "int \<Rightarrow> int" where
  "to_i32 x = (x + 2 ^ 31) mod 2 ^ 32 - 2 ^ 31"

definition sz_of_int :: "int \<Rightarrow> nat" where
  "sz_of_int x = nat (x mod 2 ^ 64)"

lemma to_u32_small [simp]: "0 \<le> x \<Longrightarrow> x < 2 ^ 32 \<Longrightarrow> to_u32 x = nat x"
  by (simp add: to_u32_def)

lemma to_i32_small [simp]: "- (2 ^ 31) \<le> x \<Longrightarrow> x < 2 ^ 31 \<Longrightarrow> to_i32 x = x"
  by (simp add: to_i32_def)

lemma sz_of_int_small [simp]: "0 \<le> x \<Longrightarrow> x < 2 ^ 64 \<Longrightarrow> sz_of_int x = nat x"
  by (simp add: sz_of_int_def)

lemma to_i32_u32: "to_i32 (int (to_u32 x) - y) = to_i32 (x - y)"
proof -
  have "(x mod 2 ^ 32 - y + 2 ^ 31) mod 2 ^ 32 = (x mod 2 ^ 32 + (2 ^ 31 - y)) mod 2 ^ 32"
    by (simp only: algebra_simps)
  also have "\<dots> = (x + (2 ^ 31 - y)) mod 2 ^ 32" by (rule mod_add_left_eq)
  finally have "(x mod 2 ^ 32 - y + 2 ^ 31) mod 2 ^ 32 = (x - y + 2 ^ 31) mod 2 ^ 32"
    by (simp only: algebra_simps)
  then show ?thesis by (simp add: to_i32_def to_u32_def)
qed

lemma to_i32_bounds: "- (2 ^ 31) \<le> to_i32 x" "to_i32 x < 2 ^ 31"
  using pos_mod_bound [of "2 ^ 32" "x + 2 ^ 31"] pos_mod_sign [of "2 ^ 32" "x + 2 ^ 31"]
  by (simp_all add: to_i32_def)

section \<open>Errors and results\<close>

datatype err =
    NullDeref      \<comment> \<open>load or store through a null or dangling pointer\<close>
  | OutOfRange     \<comment> \<open>array or vector access outside its bounds\<close>
  | EmptyPop       \<comment> \<open>\<open>pop_back\<close> on an empty vector\<close>
  | NoReturn       \<comment> \<open>control reaches the end of a non-void function\<close>
  | AssertFail     \<comment> \<open>a failed \<open>assert\<close>\<close>
  | Overflow       \<comment> \<open>a value out of the range of its signed type\<close>
  | Throw          \<comment> \<open>an exception thrown by the code\<close>
  | OutOfFuel      \<comment> \<open>the loop did not end within its fuel\<close>

type_synonym 'a res = "err + 'a"

definition bind_res :: "'a res \<Rightarrow> ('a \<Rightarrow> 'b res) \<Rightarrow> 'b res" where
  "bind_res m f = (case m of Inl e \<Rightarrow> Inl e | Inr x \<Rightarrow> f x)"

definition assert_res :: "bool \<Rightarrow> 'a res \<Rightarrow> 'a res" where
  "assert_res P m = (if P then m else Inl AssertFail)"

definition nth_res :: "'a list \<Rightarrow> nat \<Rightarrow> 'a res" where
  "nth_res xs i = (if i < length xs then Inr (xs ! i) else Inl OutOfRange)"

text \<open>An access with an \<open>int\<close> index.\<close>

definition nth_int :: "'a list \<Rightarrow> int \<Rightarrow> 'a res" where
  "nth_int xs i = (if i < 0 then Inl OutOfRange else nth_res xs (nat i))"

definition upd_res :: "'a list \<Rightarrow> nat \<Rightarrow> 'a \<Rightarrow> 'a list res" where
  "upd_res xs i v = (if i < length xs then Inr (xs[i := v]) else Inl OutOfRange)"

lemma bind_res_simps [simp, res_simps]:
  "bind_res (Inr x) f = f x"
  "bind_res (Inl e) f = Inl e"
  by (simp_all add: bind_res_def)

lemma bind_res_Inr_iff [res_simps]:
  "bind_res m f = Inr y \<longleftrightarrow> (\<exists>x. m = Inr x \<and> f x = Inr y)"
  by (cases m) auto

lemma bind_res_InrE:
  assumes "bind_res m f = Inr y"
  obtains x where "m = Inr x" and "f x = Inr y"
  using assms by (auto simp: bind_res_Inr_iff)

lemma bind_res_assoc [res_simps]:
  "bind_res (bind_res m f) g = bind_res m (\<lambda>x. bind_res (f x) g)"
  by (cases m) auto

lemma bind_res_cong [fundef_cong]:
  "m = m' \<Longrightarrow> (\<And>x. m' = Inr x \<Longrightarrow> f x = f' x) \<Longrightarrow> bind_res m f = bind_res m' f'"
  by (cases m') auto

lemma assert_res_simps [simp, res_simps]:
  "assert_res True m = m"
  "assert_res False m = Inl AssertFail"
  by (simp_all add: assert_res_def)

lemma assert_res_Inr_iff [res_simps]: "assert_res P m = Inr y \<longleftrightarrow> P \<and> m = Inr y"
  by (auto simp: assert_res_def)

lemma assert_res_cong [fundef_cong]:
  "P = P' \<Longrightarrow> (P' \<Longrightarrow> m = m') \<Longrightarrow> assert_res P m = assert_res P' m'"
  by (auto simp: assert_res_def)

lemma nth_res_Inr [simp]: "i < length xs \<Longrightarrow> nth_res xs i = Inr (xs ! i)"
  by (simp add: nth_res_def)

lemma nth_res_Inr_iff [res_simps]: "nth_res xs i = Inr v \<longleftrightarrow> i < length xs \<and> xs ! i = v"
  by (auto simp: nth_res_def)

lemma nth_int_Inr [simp]: "0 \<le> i \<Longrightarrow> i < int (length xs) \<Longrightarrow> nth_int xs i = Inr (xs ! nat i)"
  by (simp add: nth_int_def nth_res_def nat_less_iff)

lemma upd_res_Inr [simp]: "i < length xs \<Longrightarrow> upd_res xs i v = Inr (xs[i := v])"
  by (simp add: upd_res_def)

lemma upd_res_Inr_iff [res_simps]:
  "upd_res xs i v = Inr ys \<longleftrightarrow> i < length xs \<and> ys = xs[i := v]"
  by (auto simp: upd_res_def)

section \<open>Strictly sorted keys\<close>

abbreviation ssorted :: "'a::linorder list \<Rightarrow> bool" where
  "ssorted \<equiv> sorted_wrt (<)"

lemma ssorted_nth_less: "ssorted xs \<Longrightarrow> i < j \<Longrightarrow> j < length xs \<Longrightarrow> xs ! i < xs ! j"
  by (simp add: sorted_wrt_iff_nth_less)

lemma ssorted_nth_le_iff:
  "ssorted xs \<Longrightarrow> i < length xs \<Longrightarrow> j < length xs \<Longrightarrow> xs ! i \<le> xs ! j \<longleftrightarrow> i \<le> j"
  by (metis linorder_neqE_nat not_less order_less_imp_le order_refl ssorted_nth_less)

lemma ssorted_nth_less_iff:
  "ssorted xs \<Longrightarrow> i < length xs \<Longrightarrow> j < length xs \<Longrightarrow> xs ! i < xs ! j \<longleftrightarrow> i < j"
  by (meson not_less ssorted_nth_le_iff)

lemma ssorted_nth_eq_iff:
  "ssorted xs \<Longrightarrow> i < length xs \<Longrightarrow> j < length xs \<Longrightarrow> xs ! i = xs ! j \<longleftrightarrow> i = j"
  by (metis nat_neq_iff order_less_irrefl ssorted_nth_less)

lemma ssorted_distinct: "ssorted (xs :: 'a::linorder list) \<Longrightarrow> distinct xs"
  by (simp add: strict_sorted_iff)

lemma sorted_takeWhile_less_nth:
  assumes "sorted xs"
  shows "length (takeWhile (\<lambda>k. k < x) xs) \<le> length xs"
    and "i < length (takeWhile (\<lambda>k. k < x) xs) \<Longrightarrow> xs ! i < x"
    and "length (takeWhile (\<lambda>k. k < x) xs) \<le> i \<Longrightarrow> i < length xs \<Longrightarrow> x \<le> xs ! i"
proof -
  let ?n = "length (takeWhile (\<lambda>k. k < x) xs)"
  show "?n \<le> length xs" by (rule length_takeWhile_le)
  show "xs ! i < x" if "i < ?n"
    using that by (metis nth_mem set_takeWhileD takeWhile_nth)
  show "x \<le> xs ! i" if "?n \<le> i" "i < length xs"
  proof -
    from that have "?n < length xs" by simp
    then have "\<not> xs ! ?n < x" by (rule nth_length_takeWhile)
    moreover have "xs ! ?n \<le> xs ! i"
      using assms that by (simp add: sorted_nth_mono)
    ultimately show ?thesis by simp
  qed
qed

lemma takeWhile_less_length_eqI:
  fixes xs :: "'a::linorder list"
  assumes "n \<le> length xs"
    and "\<And>i. i < n \<Longrightarrow> xs ! i < x" and "n < length xs \<Longrightarrow> \<not> xs ! n < x"
  shows "length (takeWhile (\<lambda>k. k < x) xs) = n"
proof (cases "n = length xs")
  case True
  with assms(2) have "\<forall>k \<in> set xs. k < x"
    by (metis in_set_conv_nth)
  then have "takeWhile (\<lambda>k. k < x) xs = xs"
    by (simp only: takeWhile_eq_all_conv)
  with True show ?thesis by (simp only:)
next
  case False
  with assms(1) have "n < length xs" by simp
  with assms(2,3) show ?thesis
    by (metis length_take min.absorb2 assms(1) takeWhile_eq_take_P_nth)
qed

lemma sorted_concatI:
  assumes "\<And>i. i < length xss \<Longrightarrow> sorted (xss ! i)"
    and "\<And>i j x y. i < j \<Longrightarrow> j < length xss \<Longrightarrow> x \<in> set (xss ! i) \<Longrightarrow> y \<in> set (xss ! j) \<Longrightarrow> x \<le> y"
  shows "sorted (concat xss)"
  using assms
proof (induction xss)
  case Nil
  then show ?case by simp
next
  case (Cons xs xss)
  have "sorted xs" using Cons.prems(1) [of 0] by simp
  moreover have "sorted (concat xss)"
    using Cons.prems(1) [of "Suc _"] Cons.prems(2) [of "Suc _" "Suc _"] by (intro Cons.IH) auto
  moreover have "x \<le> y" if "x \<in> set xs" "y \<in> set (concat xss)" for x y
  proof -
    from that(2) obtain ys where "ys \<in> set xss" "y \<in> set ys" by auto
    then obtain j where "j < length xss" "y \<in> set (xss ! j)" by (metis in_set_conv_nth)
    then show ?thesis using Cons.prems(2) [of 0 "Suc j" x y] that(1) by simp
  qed
  ultimately show ?case by (simp add: sorted_append)
qed

lemma restrict_map_all [simp]: "m |` UNIV = m"
  by (simp add: restrict_map_def)

section \<open>Inserting into a list by position\<close>

lemma nth_insert_at:
  assumes "p \<le> length xs" and "j \<le> length xs"
  shows "(take p xs @ x # drop p xs) ! j = (if j < p then xs ! j else if j = p then x else xs ! (j - 1))"
proof (cases "j \<le> p")
  case True
  then show ?thesis using assms by (auto simp: nth_append)
next
  case False
  then obtain d where "j = Suc (p + d)" using less_imp_Suc_add [of p j] by auto
  then show ?thesis using assms by (simp add: nth_append)
qed

lemma nth_replace2:
  "p < length xs \<Longrightarrow> j \<le> length xs \<Longrightarrow>
    (take p xs @ [x, y] @ drop (Suc p) xs) ! j =
      (if j < p then xs ! j else if j = p then x else if j = Suc p then y else xs ! (j - 1))"
  using nth_insert_at [of "Suc p" "xs[p := x]" j y]
  by (auto simp: take_Suc_conv_app_nth take_update_cancel nth_list_update)

section \<open>Sequences of operations\<close>

text \<open>A component is used through a sequence of operations, each of which returns a value and the
  next state, or an error that ends the run. \<open>run_spec\<close> is the same for a specification, which
  never fails.\<close>

fun run_ops :: "('o \<Rightarrow> 's \<Rightarrow> ('r \<times> 's) res) \<Rightarrow> 'o list \<Rightarrow> 's \<Rightarrow> ('r list \<times> 's) res" where
  "run_ops step [] s = Inr ([], s)"
| "run_ops step (x # xs) s =
     bind_res (step x s) (\<lambda>(r, s1). bind_res (run_ops step xs s1) (\<lambda>(rs, s2). Inr (r # rs, s2)))"

fun run_spec :: "('o \<Rightarrow> 'a \<Rightarrow> 'r \<times> 'a) \<Rightarrow> 'o list \<Rightarrow> 'a \<Rightarrow> 'r list \<times> 'a" where
  "run_spec spec [] a = ([], a)"
| "run_spec spec (x # xs) a =
     (let (r, a1) = spec x a; (rs, a2) = run_spec spec xs a1 in (r # rs, a2))"

text \<open>An implementation whose every step agrees with the specification under an abstraction
  relation agrees with it on every sequence of admissible operations.\<close>

locale op_refinement =
  fixes R :: "'s \<Rightarrow> 'a \<Rightarrow> bool"
    and step :: "'o \<Rightarrow> 's \<Rightarrow> ('r \<times> 's) res"
    and spec :: "'o \<Rightarrow> 'a \<Rightarrow> 'r \<times> 'a"
    and ok :: "'o \<Rightarrow> bool"
  assumes step_refines:
    "R s a \<Longrightarrow> ok x \<Longrightarrow> \<exists>s'. step x s = Inr (fst (spec x a), s') \<and> R s' (snd (spec x a))"
begin

lemma run_refines:
  "R s a \<Longrightarrow> list_all ok xs \<Longrightarrow>
    \<exists>s'. run_ops step xs s = Inr (fst (run_spec spec xs a), s') \<and> R s' (snd (run_spec spec xs a))"
proof (induction xs arbitrary: s a)
  case Nil
  then show ?case by simp
next
  case (Cons x xs)
  then obtain s1 where s1: "step x s = Inr (fst (spec x a), s1)" "R s1 (snd (spec x a))"
    using step_refines [of s a x] by auto
  with Cons.IH [of s1 "snd (spec x a)"] Cons.prems(2) show ?case
    by (auto simp: split_beta Let_def)
qed

end

text \<open>A component whose operations keep an invariant or stop with one of some errors does so on every
  sequence of admissible operations.\<close>

locale op_safety =
  fixes inv :: "'s \<Rightarrow> bool" and step :: "'o \<Rightarrow> 's \<Rightarrow> ('r \<times> 's) res"
    and ok :: "'o \<Rightarrow> bool" and stops :: "err \<Rightarrow> bool"
  assumes step_safe:
    "inv s \<Longrightarrow> ok x \<Longrightarrow> (\<exists>e. step x s = Inl e \<and> stops e) \<or> (\<exists>r s'. step x s = Inr (r, s') \<and> inv s')"
begin

lemma run_safe:
  "inv s \<Longrightarrow> list_all ok xs \<Longrightarrow> (\<exists>e. run_ops step xs s = Inl e \<and> stops e)
    \<or> (\<exists>rs s'. run_ops step xs s = Inr (rs, s') \<and> inv s' \<and> length rs = length xs)"
proof (induction xs arbitrary: s)
  case Nil
  then show ?case by simp
next
  case (Cons x xs)
  then consider e where "step x s = Inl e" "stops e" | r s1 where "step x s = Inr (r, s1)" "inv s1"
    using step_safe [of s x] by auto
  then show ?case
  proof cases
    case (2 r s1)
    then show ?thesis using Cons.IH [of s1] Cons.prems(2) by auto
  qed auto
qed

end

end
