(* ===== verification/Tagged_Ptr.thy ===== *)
theory Tagged_Ptr
  imports Prelude
begin

text \<open>
  Tagged pointers: \<open>Kanva_impl/Bin_LL/util1.h\<close> (the same functions are in
  \<open>Kanva_RS/Uruv/util.h\<close>).

  The lock-free lists keep two flags in the low bits of a node's \<open>next\<close> word: bit 0, the
  \<^emph>\<open>mark\<close>, says that the node that holds the word is logically deleted; bit 1, the \<^emph>\<open>freeze\<close>,
  says that the node is being collected and must not change any more. The first section
  translates the bit operations on \<open>uintptr_t\<close>/\<open>long\<close> words. The list models use the decoded form
  \<open>tptr\<close> (address, mark, freeze); the second section defines its operations, the locale
  \<open>tagged_pointer\<close> states the laws a client of the flags relies on, both forms interpret it, and
  \<open>enc\<close> maps the decoded form to the words: every operation commutes with it.
\<close>

unbundle bit_operations_syntax

section \<open>The bit operations\<close>

definition is_freeze :: "64 word \<Rightarrow> 64 word" where
  "is_freeze i = i AND 2"

definition is_marked :: "64 word \<Rightarrow> 64 word" where
  "is_marked i = i AND 1"

definition set_freeze :: "64 word \<Rightarrow> 64 word" where
  "set_freeze i = i OR 2"

definition set_mark :: "64 word \<Rightarrow> 64 word" where
  "set_mark i = i OR 1"

definition unset_freeze :: "64 word \<Rightarrow> 64 word" where
  "unset_freeze i = i AND NOT 2"

definition unset_freeze_mark :: "64 word \<Rightarrow> 64 word" where
  "unset_freeze_mark i = i AND NOT 3"

definition unset_mark :: "64 word \<Rightarrow> 64 word" where
  "unset_mark i = i AND NOT 1"

definition is_marked_ref :: "64 word \<Rightarrow> 64 word" where
  "is_marked_ref i = i AND 1"

definition get_unmarked_ref :: "64 word \<Rightarrow> 64 word" where
  "get_unmarked_ref w = w AND NOT 1"

definition get_unfreezed_unmarked_ref :: "64 word \<Rightarrow> 64 word" where
  "get_unfreezed_unmarked_ref w = w AND NOT 3"

lemmas tag_op_defs =
  is_freeze_def is_marked_def set_freeze_def set_mark_def unset_freeze_def
  unset_freeze_mark_def unset_mark_def is_marked_ref_def get_unmarked_ref_def
  get_unfreezed_unmarked_ref_def

section \<open>The decoded form\<close>

datatype tptr = TP (tp_addr: addr) (tp_mark: bool) (tp_freeze: bool)

abbreviation null_ptr :: tptr where
  "null_ptr \<equiv> TP 0 False False"

abbreviation clean :: "addr \<Rightarrow> tptr" where
  "clean a \<equiv> TP a False False"

definition tp_set_mark :: "tptr \<Rightarrow> tptr" where
  "tp_set_mark p = TP (tp_addr p) True (tp_freeze p)"

definition tp_unset_mark :: "tptr \<Rightarrow> tptr" where
  "tp_unset_mark p = TP (tp_addr p) False (tp_freeze p)"

definition tp_set_freeze :: "tptr \<Rightarrow> tptr" where
  "tp_set_freeze p = TP (tp_addr p) (tp_mark p) True"

definition tp_unset_freeze :: "tptr \<Rightarrow> tptr" where
  "tp_unset_freeze p = TP (tp_addr p) (tp_mark p) False"

definition tp_unset_freeze_mark :: "tptr \<Rightarrow> tptr" where
  "tp_unset_freeze_mark p = TP (tp_addr p) False False"

text \<open>The truth value of a pointer word in a condition: any bit set.\<close>

definition tp_true :: "tptr \<Rightarrow> bool" where
  "tp_true p \<longleftrightarrow> tp_addr p \<noteq> 0 \<or> tp_mark p \<or> tp_freeze p"

lemmas tp_defs [ptr_simps] =
  tp_set_mark_def tp_unset_mark_def tp_set_freeze_def tp_unset_freeze_def
  tp_unset_freeze_mark_def tp_true_def

text \<open>Node addresses are multiples of 8, so an address is the word's upper 61 bits.\<close>

definition enc :: "tptr \<Rightarrow> 64 word" where
  "enc p = push_bit 3 (of_nat (tp_addr p)) OR (if tp_mark p then 1 else 0)
     OR (if tp_freeze p then 2 else 0)"

definition dec :: "64 word \<Rightarrow> tptr" where
  "dec w = TP (unat (drop_bit 3 w)) (bit w 0) (bit w 1)"

section \<open>The contract of the flags\<close>

locale tagged_pointer =
  fixes marked :: "'p \<Rightarrow> bool"
    and frozen :: "'p \<Rightarrow> bool"
    and mark_it :: "'p \<Rightarrow> 'p"
    and unmark_it :: "'p \<Rightarrow> 'p"
    and freeze_it :: "'p \<Rightarrow> 'p"
    and unfreeze_it :: "'p \<Rightarrow> 'p"
    and strip :: "'p \<Rightarrow> 'p"
  assumes marked_mark: "marked (mark_it p)"
    and marked_unmark: "\<not> marked (unmark_it p)"
    and frozen_mark: "frozen (mark_it p) = frozen p"
    and frozen_unmark: "frozen (unmark_it p) = frozen p"
    and frozen_freeze: "frozen (freeze_it p)"
    and frozen_unfreeze: "\<not> frozen (unfreeze_it p)"
    and marked_freeze: "marked (freeze_it p) = marked p"
    and marked_unfreeze: "marked (unfreeze_it p) = marked p"
    and strip_eq: "strip p = unmark_it (unfreeze_it p)"
    and unmark_mark: "unmark_it (mark_it p) = unmark_it p"
    and unfreeze_freeze: "unfreeze_it (freeze_it p) = unfreeze_it p"
    and unmark_id: "\<not> marked p \<Longrightarrow> unmark_it p = p"
    and unfreeze_id: "\<not> frozen p \<Longrightarrow> unfreeze_it p = p"
    and unmark_unfreeze: "unmark_it (unfreeze_it p) = unfreeze_it (unmark_it p)"
begin

lemma strip_flags: "\<not> marked (strip p)" "\<not> frozen (strip p)"
  by (simp_all add: strip_eq marked_unmark frozen_unmark frozen_unfreeze)

lemma strip_idem: "strip (strip p) = strip p"
  by (metis strip_eq strip_flags unfreeze_id unmark_id)

lemma strip_mark: "strip (mark_it p) = strip p"
  by (simp add: strip_eq unmark_unfreeze unmark_mark)

lemma strip_freeze: "strip (freeze_it p) = strip p"
  by (simp add: strip_eq unfreeze_freeze)

lemma strip_untagged: "\<not> marked p \<Longrightarrow> \<not> frozen p \<Longrightarrow> strip p = p"
  by (simp add: strip_eq unmark_id unfreeze_id)

lemma tags_never_redirect:
  "strip (freeze_it (mark_it p)) = strip p" "strip (mark_it (freeze_it p)) = strip p"
  by (simp_all add: strip_mark strip_freeze)

end

lemma bit_two_word: "bit (2 :: 64 word) n \<longleftrightarrow> n = 1"
proof -
  have "bit (push_bit 1 1 :: 64 word) n \<longleftrightarrow> n = 1"
    by (auto simp: bit_simps)
  then show ?thesis by simp
qed

lemma bit_three_word: "bit (3 :: 64 word) n \<longleftrightarrow> n = 0 \<or> n = 1"
proof -
  have "(3 :: 64 word) = 1 OR 2" by simp
  then show ?thesis by (simp only: bit_or_iff bit_two_word bit_1_iff)
qed

lemma bit_not_word64: "bit (NOT w :: 64 word) n \<longleftrightarrow> n < 64 \<and> \<not> bit w n"
  by (simp add: bit_not_iff)

lemma word64_eqI: "(\<And>n. n < 64 \<Longrightarrow> bit a n = bit b n) \<Longrightarrow> a = (b :: 64 word)"
  by (rule bit_word_eqI) simp

lemma bit_tag_ops:
  "bit (set_mark w) n \<longleftrightarrow> bit w n \<or> n = 0"
  "bit (set_freeze w) n \<longleftrightarrow> bit w n \<or> n = 1"
  "bit (unset_mark w) n \<longleftrightarrow> n < 64 \<and> bit w n \<and> n \<noteq> 0"
  "bit (unset_freeze w) n \<longleftrightarrow> n < 64 \<and> bit w n \<and> n \<noteq> 1"
  "bit (unset_freeze_mark w) n \<longleftrightarrow> n < 64 \<and> bit w n \<and> n \<noteq> 0 \<and> n \<noteq> 1"
  "bit (get_unmarked_ref w) n \<longleftrightarrow> n < 64 \<and> bit w n \<and> n \<noteq> 0"
  "bit (get_unfreezed_unmarked_ref w) n \<longleftrightarrow> n < 64 \<and> bit w n \<and> n \<noteq> 0 \<and> n \<noteq> 1"
  by (simp_all only: tag_op_defs bit_and_iff bit_or_iff bit_not_word64 bit_two_word
      bit_three_word bit_1_iff) auto

lemma tag_tests:
  "is_freeze w \<noteq> 0 \<longleftrightarrow> bit w 1" "is_marked w \<noteq> 0 \<longleftrightarrow> bit w 0" "is_marked_ref w \<noteq> 0 \<longleftrightarrow> bit w 0"
proof -
  have *: "w AND m \<noteq> 0 \<longleftrightarrow> bit w k" if "\<And>n. bit m n \<longleftrightarrow> n = k" for m :: "64 word" and k
  proof
    assume "w AND m \<noteq> 0"
    then obtain n where "bit (w AND m) n" by (metis bit_0_eq bit_word_eqI bot_apply bot_bool_def)
    then show "bit w k" by (auto simp: bit_and_iff that)
  next
    assume "bit w k"
    then have "bit (w AND m) k" by (simp add: bit_and_iff that)
    then show "w AND m \<noteq> 0" by fastforce
  qed
  show "is_freeze w \<noteq> 0 \<longleftrightarrow> bit w 1" "is_marked w \<noteq> 0 \<longleftrightarrow> bit w 0" "is_marked_ref w \<noteq> 0 \<longleftrightarrow> bit w 0"
    unfolding tag_op_defs by (rule *, simp only: bit_two_word bit_1_iff)+
qed

interpretation word_tags: tagged_pointer
  "\<lambda>i. is_marked i \<noteq> 0" "\<lambda>i. is_freeze i \<noteq> 0" set_mark unset_mark set_freeze unset_freeze
  unset_freeze_mark
proof (unfold_locales, unfold tag_tests)
  fix p :: "64 word"
  show "unset_freeze_mark p = unset_mark (unset_freeze p)"
    "unset_mark (set_mark p) = unset_mark p" "unset_freeze (set_freeze p) = unset_freeze p"
    "unset_mark (unset_freeze p) = unset_freeze (unset_mark p)"
    by (rule word64_eqI, auto simp: bit_tag_ops)+
  show "unset_mark p = p" if "\<not> bit p 0"
    using that by (intro word64_eqI) (auto simp: bit_tag_ops intro!: gr0I)
  show "unset_freeze p = p" if "\<not> bit p 1"
    using that by (intro word64_eqI) (auto simp: bit_tag_ops)
qed (auto simp: bit_tag_ops)

interpretation tptr_tags: tagged_pointer
  tp_mark tp_freeze tp_set_mark tp_unset_mark tp_set_freeze tp_unset_freeze tp_unset_freeze_mark
  by unfold_locales (auto simp: tp_defs intro: tptr.expand)

section \<open>The decoded form represents the words\<close>

lemma bit_enc:
  "bit (enc p) n \<longleftrightarrow> (n = 0 \<and> tp_mark p) \<or> (n = 1 \<and> tp_freeze p)
     \<or> (3 \<le> n \<and> n < 64 \<and> bit (of_nat (tp_addr p) :: 64 word) (n - 3))"
  by (simp only: enc_def bit_or_iff bit_push_bit_iff bit_two_word bit_1_iff split: if_split) auto

lemma enc_flags [ptr_simps]:
  "is_marked (enc p) \<noteq> 0 \<longleftrightarrow> tp_mark p" "is_freeze (enc p) \<noteq> 0 \<longleftrightarrow> tp_freeze p"
  "is_marked_ref (enc p) \<noteq> 0 \<longleftrightarrow> tp_mark p"
  unfolding tag_tests by (simp_all add: bit_enc)

lemma enc_ops [ptr_simps]:
  "enc (tp_set_mark p) = set_mark (enc p)"
  "enc (tp_unset_mark p) = unset_mark (enc p)"
  "enc (tp_set_freeze p) = set_freeze (enc p)"
  "enc (tp_unset_freeze p) = unset_freeze (enc p)"
  "enc (tp_unset_freeze_mark p) = unset_freeze_mark (enc p)"
  by (rule word64_eqI, auto simp: bit_tag_ops bit_enc tp_defs)+

lemma drop_bit_enc:
  assumes "tp_addr p < 2 ^ 61"
  shows "drop_bit 3 (enc p) = of_nat (tp_addr p)"
proof (rule bit_eqI)
  fix n
  have "bit (tp_addr p) n \<Longrightarrow> n < 61"
    using assms by (metis bit_take_bit_iff take_bit_nat_eq_self)
  then show "bit (drop_bit 3 (enc p)) n \<longleftrightarrow> bit (of_nat (tp_addr p) :: 64 word) n"
    by (auto simp: bit_drop_bit_eq bit_enc bit_of_nat_iff)
qed

lemma enc_zero_iff:
  assumes "tp_addr p < 2 ^ 61"
  shows "enc p = 0 \<longleftrightarrow> \<not> tp_true p"
proof
  assume "enc p = 0"
  then have "\<not> tp_mark p" "\<not> tp_freeze p"
    using bit_enc [of p 0] bit_enc [of p 1] by simp_all
  moreover have "of_nat (tp_addr p) = (0 :: 64 word)"
    using drop_bit_enc [OF assms] \<open>enc p = 0\<close> by simp
  then have "tp_addr p = 0"
    using assms by (simp add: word_of_nat_eq_0_iff nat_dvd_not_less) (auto dest: dvd_imp_le)
  ultimately show "\<not> tp_true p" by (simp add: tp_true_def)
next
  assume "\<not> tp_true p"
  then show "enc p = 0" by (simp add: tp_true_def enc_def)
qed

text \<open>The word-level tag operations of util1.h, applied to the encoding of a decoded pointer
  (an address below 2 to the 61, its mark and its freeze flag), are exactly the operations on the
  decoded form; the tests read the flags, a condition on the word tests for null, and decoding
  gives the pointer back.\<close>

theorem tag_encoding_faithful:
  assumes "tp_addr p < 2 ^ 61"
  shows "dec (enc p) = p
    \<and> set_mark (enc p) = enc (tp_set_mark p)
    \<and> unset_mark (enc p) = enc (tp_unset_mark p)
    \<and> get_unmarked_ref (enc p) = enc (tp_unset_mark p)
    \<and> set_freeze (enc p) = enc (tp_set_freeze p)
    \<and> unset_freeze (enc p) = enc (tp_unset_freeze p)
    \<and> unset_freeze_mark (enc p) = enc (clean (tp_addr p))
    \<and> get_unfreezed_unmarked_ref (enc p) = enc (clean (tp_addr p))
    \<and> (is_marked (enc p) \<noteq> 0) = tp_mark p
    \<and> (is_marked_ref (enc p) \<noteq> 0) = tp_mark p
    \<and> (is_freeze (enc p) \<noteq> 0) = tp_freeze p
    \<and> (enc p \<noteq> 0) = tp_true p"
proof -
  have "unat (of_nat (tp_addr p) :: 64 word) = tp_addr p"
    using assms by (simp add: unat_of_nat)
  then have "dec (enc p) = p"
    by (simp add: dec_def drop_bit_enc [OF assms] bit_enc)
  moreover have "get_unmarked_ref w = unset_mark w"
    "get_unfreezed_unmarked_ref w = unset_freeze_mark w" for w
    by (simp_all add: tag_op_defs)
  moreover have "clean (tp_addr p) = tp_unset_freeze_mark p"
    by (simp add: tp_unset_freeze_mark_def)
  ultimately show ?thesis
    by (simp only: enc_ops enc_flags enc_zero_iff [OF assms]) simp
qed

theorem tag_encoding_faithful_witness:
  "unset_freeze_mark (enc (TP 5 True True)) = enc (clean 5) \<and> enc (TP 5 True True) = 43"
  using tag_encoding_faithful [of "TP 5 True True"] by (simp add: enc_def)

end
