(* ===== verification/LF_LL.thy ===== *)
theory LF_LL
  imports Tagged_Ptr
begin

text \<open>
  The lock-free linked list of a Kanva bin: \<open>Kanva_impl/Bin_LL/LF_LL.h\<close>, with its node type from
  \<open>util1.h\<close>.

  A \<open>Linked_List\<close> is a sorted singly linked list between two sentinels, deleted from by marking a
  node's \<open>next\<close> word and closed to updates by freezing every \<open>next\<close> word. The model keeps the list's
  nodes in an explicit store from addresses to nodes; every \<open>load\<close>, \<open>store\<close> and
  \<open>compare_exchange_strong\<close> of the source is a read or a conditional write of that store, and the
  operations run as one thread executes them. A pointer that is not allocated gives
  \<open>Inl NullDeref\<close>. The \<open>while (true)\<close> loops take fuel; \<open>ll_brk\<close> units are enough because every
  iteration moves past or unlinks a node.

  \<open>lseg\<close> relates a stretch of the store to the nodes on it, \<open>ll_inv\<close> is the invariant of a list
  (with possibly marked nodes still linked), \<open>ll_abs\<close> its abstract content and \<open>ll_q\<close> the invariant
  of a quiescent list. The lemmas show, for every branch, what each operation returns and what
  it does to the content.
\<close>

section \<open>Nodes and the store\<close>

record ll_Node =
  ll_key :: key_t
  ll_value :: val_t
  ll_next :: tptr

record Linked_List =
  ll_head :: addr
  ll_count :: "32 word"
  ll_heap :: "addr \<rightharpoonup> ll_Node"
  ll_brk :: addr

definition ll_Node_new :: "key_t \<Rightarrow> val_t \<Rightarrow> tptr \<Rightarrow> ll_Node" where
  "ll_Node_new k v nx = \<lparr>ll_key = k, ll_value = v, ll_next = nx\<rparr>"

text \<open>\<open>new ll_Node\<close>: the next unused address; address 0 is the null pointer.\<close>

definition ll_alloc :: "ll_Node \<Rightarrow> Linked_List \<Rightarrow> addr \<times> Linked_List" where
  "ll_alloc nd l =
     (ll_brk l, l\<lparr>ll_heap := (ll_heap l)(ll_brk l \<mapsto> nd), ll_brk := Suc (ll_brk l)\<rparr>)"

definition ll_load :: "Linked_List \<Rightarrow> addr \<Rightarrow> ll_Node res" where
  "ll_load l a = (case ll_heap l a of None \<Rightarrow> Inl NullDeref | Some nd \<Rightarrow> Inr nd)"

definition ll_store_next :: "Linked_List \<Rightarrow> addr \<Rightarrow> tptr \<Rightarrow> Linked_List res" where
  "ll_store_next l a p =
     bind_res (ll_load l a)
       (\<lambda>nd. Inr (l\<lparr>ll_heap := (ll_heap l)(a \<mapsto> nd\<lparr>ll_next := p\<rparr>)\<rparr>))"

text \<open>\<open>a->next.compare_exchange_strong(expected, desired)\<close>.\<close>

definition ll_cas_next :: "Linked_List \<Rightarrow> addr \<Rightarrow> tptr \<Rightarrow> tptr \<Rightarrow> (bool \<times> Linked_List) res" where
  "ll_cas_next l a expected desired =
     bind_res (ll_load l a)
       (\<lambda>nd. if ll_next nd = expected
             then bind_res (ll_store_next l a desired) (\<lambda>l'. Inr (True, l'))
             else Inr (False, l))"

text \<open>The constructor. The atomic \<open>count\<close> has no initialiser, so its start value is an argument.\<close>

definition Linked_List_new :: "32 word \<Rightarrow> Linked_List" where
  "Linked_List_new c0 =
     (let l0 = \<lparr>ll_head = 0, ll_count = c0, ll_heap = Map.empty, ll_brk = 1\<rparr>;
          (mx, l1) = ll_alloc (ll_Node_new key_max 0 null_ptr) l0;
          (mn, l2) = ll_alloc (ll_Node_new 0 0 null_ptr) l1
      in l2\<lparr>ll_heap := (ll_heap l2)(mn \<mapsto> ll_Node_new 0 0 (clean mx)), ll_head := mn\<rparr>)"

section \<open>Operations\<close>

text \<open>\<open>find\<close>: the first node with a key not below \<open>key\<close> and its predecessor; marked nodes on the way
  are unlinked; \<open>None\<close> is the null pointer that reports a frozen node.\<close>

fun ll_find :: "nat \<Rightarrow> key_t \<Rightarrow> Linked_List \<Rightarrow> (addr option \<times> addr \<times> Linked_List) res"
  and ll_find_inner ::
    "nat \<Rightarrow> key_t \<Rightarrow> Linked_List \<Rightarrow> addr \<Rightarrow> addr \<Rightarrow> (addr option \<times> addr \<times> Linked_List) res" where
  "ll_find 0 key l = Inl OutOfFuel"
| "ll_find (Suc n) key l =
     bind_res (ll_load l (ll_head l)) (\<lambda>hd.
       if tp_freeze (ll_next hd) then Inr (None, ll_head l, l)
       else ll_find_inner n key l (ll_head l) (tp_addr (tp_unset_freeze_mark (ll_next hd))))"
| "ll_find_inner 0 key l left right = Inl OutOfFuel"
| "ll_find_inner (Suc n) key l left right =
     bind_res (ll_load l right) (\<lambda>rn.
       let right_next = ll_next rn in
       if tp_freeze right_next then Inr (None, left, l)
       else if tp_mark right_next then
         bind_res (ll_cas_next l left (clean right) (tp_unset_mark right_next)) (\<lambda>(ok, l').
           if \<not> ok then ll_find n key l'
           else ll_find_inner n key l' left (tp_addr (tp_unset_freeze_mark right_next)))
       else if ll_key rn \<ge> key then Inr (Some right, left, l)
       else ll_find_inner n key l right (tp_addr (tp_unset_mark right_next)))"

text \<open>\<open>search\<close>: no help, no writes.\<close>

fun ll_search_loop :: "nat \<Rightarrow> key_t \<Rightarrow> Linked_List \<Rightarrow> addr \<Rightarrow> bool res" where
  "ll_search_loop 0 key l cur = Inl OutOfFuel"
| "ll_search_loop (Suc n) key l cur =
     bind_res (ll_load l cur) (\<lambda>nd.
       if ll_key nd < key
       then ll_search_loop n key l (tp_addr (tp_unset_freeze_mark (ll_next nd)))
       else Inr (ll_key nd = key \<and> \<not> tp_mark (ll_next nd)))"

definition ll_search :: "key_t \<Rightarrow> Linked_List \<Rightarrow> bool res" where
  "ll_search key l = ll_search_loop (ll_brk l) key l (ll_head l)"

text \<open>\<open>insert\<close>: -1 the list is frozen, 0 the key is there (or the value is the tombstone),
  1 inserted.\<close>

fun ll_insert_loop :: "nat \<Rightarrow> key_t \<Rightarrow> val_t \<Rightarrow> Linked_List \<Rightarrow> (int \<times> Linked_List) res" where
  "ll_insert_loop 0 key val l = Inl OutOfFuel"
| "ll_insert_loop (Suc n) key val l =
     bind_res (ll_find (ll_brk l) key l) (\<lambda>(right, prev, l1).
       case right of None \<Rightarrow> Inr (- 1, l1)
       | Some right_node \<Rightarrow>
           bind_res (ll_load l1 right_node) (\<lambda>rn.
             if ll_key rn = key then Inr (0, l1)
             else if val = tombstone then Inr (0, l1)
             else
               let (new_node, l2) = ll_alloc (ll_Node_new key val null_ptr) l1 in
               bind_res (ll_store_next l2 new_node (clean right_node)) (\<lambda>l3.
               bind_res (ll_cas_next l3 prev (clean right_node) (clean new_node)) (\<lambda>(ok, l4).
                 if ok then Inr (1, l4\<lparr>ll_count := ll_count l4 + 1\<rparr>)
                 else ll_insert_loop n key val l4))))"

definition ll_insert :: "key_t \<Rightarrow> val_t \<Rightarrow> Linked_List \<Rightarrow> (int \<times> Linked_List) res" where
  "ll_insert key val l = ll_insert_loop (ll_brk l) key val l"

text \<open>\<open>remove\<close>: -1 the list is frozen, -2 no such key, otherwise the removed value cut to \<open>int\<close>.\<close>

definition to_int32 :: "val_t \<Rightarrow> int" where
  "to_int32 v = sint (ucast v :: 32 word)"

text \<open>A failed \<open>compare_exchange_strong\<close> writes the current word into \<open>right_node\<close>, and the value is
  then read through that word, tags included.\<close>

definition ll_load_expected :: "Linked_List \<Rightarrow> addr \<Rightarrow> ll_Node res" where
  "ll_load_expected l prev =
     bind_res (ll_load l prev) (\<lambda>pn.
       let p = ll_next pn in
       if tp_mark p \<or> tp_freeze p then Inl NullDeref else ll_load l (tp_addr p))"

fun ll_remove_loop :: "nat \<Rightarrow> key_t \<Rightarrow> Linked_List \<Rightarrow> (int \<times> Linked_List) res" where
  "ll_remove_loop 0 key l = Inl OutOfFuel"
| "ll_remove_loop (Suc n) key l =
     bind_res (ll_find (ll_brk l) key l) (\<lambda>(right, prev, l1).
       case right of None \<Rightarrow> Inr (- 1, l1)
       | Some right_node \<Rightarrow>
           bind_res (ll_load l1 right_node) (\<lambda>rn.
             if ll_key rn \<noteq> key then Inr (- 2, l1)
             else
               let right_next = ll_next rn in
               bind_res
                 (if \<not> tp_mark right_next
                  then ll_cas_next l1 right_node right_next (tp_set_mark right_next)
                  else Inr (True, l1))
                 (\<lambda>(ok, l2).
                   if \<not> ok then ll_remove_loop n key l2
                   else bind_res
                     (ll_cas_next l2 prev (clean right_node) (tp_unset_mark right_next))
                     (\<lambda>(ok', l3).
                       if ok' then Inr (to_int32 (ll_value rn), l3)
                       else bind_res (ll_load_expected l3 prev)
                              (\<lambda>m. Inr (to_int32 (ll_value m), l3))))))"

definition ll_remove :: "key_t \<Rightarrow> Linked_List \<Rightarrow> (int \<times> Linked_List) res" where
  "ll_remove key l = ll_remove_loop (ll_brk l) key l"

text \<open>\<open>collect\<close>: freeze the \<open>next\<close> word of every node but the last, and gather what follows each
  word that is not marked; the last entry, the upper sentinel, is popped.\<close>

fun ll_collect_loop ::
    "nat \<Rightarrow> Linked_List \<Rightarrow> addr \<Rightarrow> (key_t \<times> val_t) list \<Rightarrow> ((key_t \<times> val_t) list \<times> Linked_List) res" where
  "ll_collect_loop 0 l left acc = Inl OutOfFuel"
| "ll_collect_loop (Suc n) l left acc =
     bind_res (ll_load l left) (\<lambda>nd.
       if \<not> tp_true (ll_next nd) then Inr (acc, l)
       else
         bind_res
           (if \<not> tp_freeze (ll_next nd)
            then bind_res (ll_cas_next l left (ll_next nd) (tp_set_freeze (ll_next nd)))
                   (\<lambda>(_, l'). Inr l')
            else Inr l) (\<lambda>l1.
         bind_res (ll_load l1 left) (\<lambda>nd1.
           let ln = tp_unset_freeze (ll_next nd1) in
           if \<not> tp_mark ln
           then bind_res (ll_load l1 (tp_addr ln)) (\<lambda>m.
                  ll_collect_loop n l1 (tp_addr ln) (acc @ [(ll_key m, ll_value m)]))
           else ll_collect_loop n l1 (tp_addr (tp_unset_mark ln)) acc)))"

definition ll_collect :: "Linked_List \<Rightarrow> ((key_t \<times> val_t) list \<times> Linked_List) res" where
  "ll_collect l =
     bind_res (ll_collect_loop (ll_brk l) l (ll_head l) []) (\<lambda>(acc, l').
       if acc = [] then Inl EmptyPop else Inr (butlast acc, l'))"

declare ll_find.simps(2) [simp del] ll_find_inner.simps(2) [simp del]
  ll_search_loop.simps(2) [simp del] ll_insert_loop.simps(2) [simp del]
  ll_remove_loop.simps(2) [simp del] ll_collect_loop.simps(2) [simp del]

lemmas ll_access_defs = ll_load_def ll_store_next_def ll_cas_next_def ll_alloc_def
  ll_Node_new_def

section \<open>List segments in the store\<close>

type_synonym lnode = "addr \<times> key_t \<times> val_t \<times> bool"

abbreviation ln_addr :: "lnode \<Rightarrow> addr" where "ln_addr n \<equiv> fst n"
abbreviation ln_key :: "lnode \<Rightarrow> key_t" where "ln_key n \<equiv> fst (snd n)"
abbreviation ln_kv :: "lnode \<Rightarrow> key_t \<times> val_t" where "ln_kv n \<equiv> (fst (snd n), fst (snd (snd n)))"
abbreviation ln_marked :: "lnode \<Rightarrow> bool" where "ln_marked n \<equiv> snd (snd (snd n))"

text \<open>\<open>lseg f h a ns t\<close>: from address \<open>a\<close> the nodes \<open>ns\<close> (address, key, value, mark) follow each
  other up to address \<open>t\<close>, all their \<open>next\<close> words with freeze flag \<open>f\<close>.\<close>

fun lseg :: "bool \<Rightarrow> (addr \<rightharpoonup> ll_Node) \<Rightarrow> addr \<Rightarrow> lnode list \<Rightarrow> addr \<Rightarrow> bool" where
  "lseg f h a [] t \<longleftrightarrow> a = t"
| "lseg f h a ((a', k, v, m) # ns) t \<longleftrightarrow>
     a = a' \<and> (\<exists>b. h a = Some \<lparr>ll_key = k, ll_value = v, ll_next = TP b m f\<rparr> \<and> lseg f h b ns t)"

lemma lseg_append:
  "lseg f h a (xs @ ys) t \<longleftrightarrow> (\<exists>b. lseg f h a xs b \<and> lseg f h b ys t)"
  by (induction f h a xs t rule: lseg.induct) auto

lemma lseg_upd [simp]:
  "c \<notin> ln_addr ` set ns \<Longrightarrow> lseg f (h(c := x)) a ns t = lseg f h a ns t"
  by (induction f h a ns t rule: lseg.induct) auto

lemma lseg_upd_if [simp]:
  "c \<notin> ln_addr ` set ns \<Longrightarrow> lseg f (\<lambda>a. if a = c then x else h a) b ns t = lseg f h b ns t"
  using lseg_upd [of c ns f h x b t] by (simp add: fun_upd_def)

lemma lseg_alloc: "lseg f h a ns t \<Longrightarrow> c \<in> ln_addr ` set ns \<Longrightarrow> c \<in> dom h"
  by (induction f h a ns t rule: lseg.induct) auto

lemma lseg_relink:
  assumes "lseg f h a (xs @ [(p, k, v, m)]) r" and "p \<notin> ln_addr ` set xs"
  shows "lseg f (h(p \<mapsto> \<lparr>ll_key = k, ll_value = v, ll_next = TP c m f\<rparr>)) a (xs @ [(p, k, v, m)]) c"
  using assms by (auto simp: lseg_append)

text \<open>The invariant of a list: the lower sentinel (never marked), the nodes, the upper sentinel;
  keys strictly increasing, marked nodes included; addresses allocated and distinct.\<close>

definition ll_tail :: "(addr \<rightharpoonup> ll_Node) \<Rightarrow> addr \<Rightarrow> bool" where
  "ll_tail h t \<longleftrightarrow> (\<exists>v. h t = Some \<lparr>ll_key = key_max, ll_value = v, ll_next = null_ptr\<rparr>)"

definition ll_rep :: "bool \<Rightarrow> Linked_List \<Rightarrow> lnode list \<Rightarrow> addr \<Rightarrow> val_t \<Rightarrow> bool" where
  "ll_rep f l ns t v0 \<longleftrightarrow>
     lseg f (ll_heap l) (ll_head l) ((ll_head l, 0, v0, False) # ns) t
     \<and> ll_tail (ll_heap l) t
     \<and> distinct (t # ll_head l # map ln_addr ns)
     \<and> ssorted (map ln_key ns) \<and> (\<forall>n \<in> set ns. ln_key n < key_max)
     \<and> dom (ll_heap l) \<subseteq> {1..<ll_brk l}"

definition ll_inv :: "bool \<Rightarrow> Linked_List \<Rightarrow> lnode list \<Rightarrow> bool" where
  "ll_inv f l ns \<longleftrightarrow> (\<exists>t v0. ll_rep f l ns t v0)"

text \<open>The content: the nodes that are not marked.\<close>

definition ll_abs :: "lnode list \<Rightarrow> (key_t \<times> val_t) list" where
  "ll_abs ns = map ln_kv (filter (\<lambda>n. \<not> ln_marked n) ns)"

text \<open>A quiescent list: no operation is in the middle of a deletion, so no node is marked.\<close>

definition ll_q :: "bool \<Rightarrow> Linked_List \<Rightarrow> (key_t \<times> val_t) list \<Rightarrow> bool" where
  "ll_q f l kvs \<longleftrightarrow> (\<exists>ns. ll_inv f l ns \<and> (\<forall>n \<in> set ns. \<not> ln_marked n) \<and> kvs = ll_abs ns)"

lemma ll_inv_new: "ll_inv False (Linked_List_new c0) []"
  by (auto simp: ll_inv_def ll_rep_def ll_tail_def Linked_List_new_def ll_access_defs)

lemma ll_q_new: "ll_q False (Linked_List_new c0) []"
  unfolding ll_q_def using ll_inv_new by (fastforce simp: ll_abs_def)

text \<open>Enough fuel: the nodes are allocated, so there are fewer of them than addresses.\<close>

lemma ll_inv_fuel:
  assumes "ll_inv f l ns"
  shows "length ns + 2 < ll_brk l"
proof -
  from assms obtain t v0 where
    s: "lseg f (ll_heap l) (ll_head l) ((ll_head l, 0, v0, False) # ns) t"
    and t: "ll_tail (ll_heap l) t"
    and d: "distinct (t # ll_head l # map ln_addr ns)"
    and dom: "dom (ll_heap l) \<subseteq> {1..<ll_brk l}"
    unfolding ll_inv_def ll_rep_def by blast
  have "t \<in> dom (ll_heap l)" using t by (auto simp: ll_tail_def)
  moreover have "a \<in> dom (ll_heap l)" if "a \<in> set (ll_head l # map ln_addr ns)" for a
    using lseg_alloc [OF s, of a] that by auto
  ultimately have "set (t # ll_head l # map ln_addr ns) \<subseteq> {1..<ll_brk l}"
    using dom by (metis (no_types, lifting) set_ConsD subset_iff)
  then have "card (set (t # ll_head l # map ln_addr ns)) \<le> card {1..<ll_brk l}"
    by (intro card_mono) auto
  with d have "length ns + 2 \<le> ll_brk l - 1"
    by (simp only: distinct_card length_Cons length_map card_atLeastLessThan)
  then show ?thesis by simp
qed

section \<open>find\<close>

lemma le_key_max [simp]: "k \<le> key_max" by (rule word_n1_ge)

text \<open>What \<open>find\<close> leaves of the nodes it walks over, and where it stops.\<close>

definition passed :: "key_t \<Rightarrow> lnode list \<Rightarrow> lnode list" where
  "passed key ns =
     filter (\<lambda>n. \<not> ln_marked n) (takeWhile (\<lambda>n. ln_marked n \<or> ln_key n < key) ns)"

definition ahead :: "key_t \<Rightarrow> lnode list \<Rightarrow> lnode list" where
  "ahead key ns = dropWhile (\<lambda>n. ln_marked n \<or> ln_key n < key) ns"

definition seg_start :: "lnode list \<Rightarrow> addr \<Rightarrow> addr" where
  "seg_start ns t = (case ns of [] \<Rightarrow> t | n # _ \<Rightarrow> ln_addr n)"

lemma lseg_start: "lseg f h a ns t \<Longrightarrow> a = seg_start ns t"
  by (cases ns) (auto simp: seg_start_def)

text \<open>One iteration of the inner loop: unlink a marked node, advance, or stop.\<close>

lemma find_inner_unlink:
  assumes "ll_heap l left = Some \<lparr>ll_key = k0, ll_value = v0, ll_next = clean a\<rparr>"
    and "ll_heap l a = Some \<lparr>ll_key = k, ll_value = v, ll_next = TP b True False\<rparr>"
  shows "ll_find_inner (Suc n) key l left a =
    ll_find_inner n key
      (l\<lparr>ll_heap := (ll_heap l)(left \<mapsto> \<lparr>ll_key = k0, ll_value = v0, ll_next = clean b\<rparr>)\<rparr>) left b"
  using assms
  by (simp add: ll_find_inner.simps(2) ll_load_def ll_cas_next_def ll_store_next_def tp_defs)

lemma find_inner_advance:
  assumes "ll_heap l a = Some \<lparr>ll_key = k, ll_value = v, ll_next = clean b\<rparr>" and "k < key"
  shows "ll_find_inner (Suc n) key l left a = ll_find_inner n key l a b"
  using assms by (auto simp: ll_find_inner.simps(2) ll_load_def tp_defs)

lemma find_inner_stop:
  assumes "ll_heap l a = Some \<lparr>ll_key = k, ll_value = v, ll_next = clean b\<rparr>" and "\<not> k < key"
  shows "ll_find_inner (Suc n) key l left a = Inr (Some a, left, l)"
  using assms by (simp add: ll_find_inner.simps(2) ll_load_def tp_defs not_le not_less)

lemma passed_ahead_simps:
  "passed key [] = []" "ahead key [] = []"
  "passed key ((a, k, v, True) # ns) = passed key ns"
  "ahead key ((a, k, v, True) # ns) = ahead key ns"
  "k < key \<Longrightarrow> passed key ((a, k, v, False) # ns) = (a, k, v, False) # passed key ns"
  "k < key \<Longrightarrow> ahead key ((a, k, v, False) # ns) = ahead key ns"
  "\<not> k < key \<Longrightarrow> passed key ((a, k, v, False) # ns) = []"
  "\<not> k < key \<Longrightarrow> ahead key ((a, k, v, False) # ns) = (a, k, v, False) # ns"
  by (simp_all add: passed_def ahead_def)

definition find_post ::
    "key_t \<Rightarrow> Linked_List \<Rightarrow> addr \<Rightarrow> key_t \<Rightarrow> val_t \<Rightarrow> lnode list \<Rightarrow> addr \<Rightarrow>
     (addr option \<times> addr \<times> Linked_List) res \<Rightarrow> bool" where
  "find_post key l left k0 v0 ns t r \<longleftrightarrow> (\<exists>h.
     r = Inr (Some (seg_start (ahead key ns) t), last (left # map ln_addr (passed key ns)),
              l\<lparr>ll_heap := h\<rparr>)
     \<and> lseg False h left ((left, k0, v0, False) # passed key ns @ ahead key ns) t
     \<and> (\<forall>a. a \<notin> set (left # map ln_addr ns) \<longrightarrow> h a = ll_heap l a) \<and> dom h = dom (ll_heap l))"

lemma ll_find_inner_spec:
  assumes "lseg False (ll_heap l) left ((left, k0, v0, False) # ns) t"
    and "ll_tail (ll_heap l) t" and "distinct (t # left # map ln_addr ns)"
    and "length ns < n"
  shows "find_post key l left k0 v0 ns t (ll_find_inner n key l left (seg_start ns t))"
  using assms
proof (induction ns arbitrary: l left n k0 v0)
  case Nil
  then obtain n' where "n = Suc n'" by (cases n) auto
  with Nil show ?case
    unfolding find_post_def
    by (intro exI [of _ "ll_heap l"])
      (auto simp: seg_start_def passed_ahead_simps ll_tail_def find_inner_stop)
next
  case (Cons x ns)
  obtain a k v m where x: "x = (a, k, v, m)" by (cases x)
  from Cons.prems obtain n' where n: "n = Suc n'" and n': "length ns < n'" by (cases n) auto
  from Cons.prems(1) x obtain b where
    hl: "ll_heap l left = Some \<lparr>ll_key = k0, ll_value = v0, ll_next = clean a\<rparr>"
    and ha: "ll_heap l a = Some \<lparr>ll_key = k, ll_value = v, ll_next = TP b m False\<rparr>"
    and sb: "lseg False (ll_heap l) b ns t"
    by auto
  have b: "b = seg_start ns t" using sb by (rule lseg_start)
  have right: "seg_start (x # ns) t = a" by (simp add: seg_start_def x)
  note d = Cons.prems(3)
  consider "m" | "\<not> m" "k < key" | "\<not> m" "\<not> k < key" by blast
  then show ?case
  proof cases
    case 1
    let ?h = "(ll_heap l)(left \<mapsto> \<lparr>ll_key = k0, ll_value = v0, ll_next = clean b\<rparr>)"
    have "find_post key (l\<lparr>ll_heap := ?h\<rparr>) left k0 v0 ns t
        (ll_find_inner n' key (l\<lparr>ll_heap := ?h\<rparr>) left (seg_start ns t))"
      using sb d x Cons.prems(2) by (intro Cons.IH n') (auto simp: ll_tail_def)
    moreover have "dom ?h = dom (ll_heap l)" using hl by auto
    moreover have "ll_find_inner n key l left (seg_start (x # ns) t) =
        ll_find_inner n' key (l\<lparr>ll_heap := ?h\<rparr>) left (seg_start ns t)"
      unfolding right n using 1 ha hl b by (simp add: find_inner_unlink)
    moreover have "passed key (x # ns) = passed key ns" "ahead key (x # ns) = ahead key ns"
      using 1 x by (simp_all add: passed_ahead_simps)
    ultimately show ?thesis using x by (auto simp: find_post_def)
  next
    case 2
    have "find_post key l a k v ns t (ll_find_inner n' key l a (seg_start ns t))"
      using ha sb d x 2(1) Cons.prems(2) by (intro Cons.IH n') auto
    then obtain h where h: "ll_find_inner n' key l a (seg_start ns t) =
          Inr (Some (seg_start (ahead key ns) t), last (a # map ln_addr (passed key ns)), l\<lparr>ll_heap := h\<rparr>)"
        "lseg False h a ((a, k, v, False) # passed key ns @ ahead key ns) t"
        "\<forall>c. c \<notin> set (a # map ln_addr ns) \<longrightarrow> h c = ll_heap l c" "dom h = dom (ll_heap l)"
      unfolding find_post_def by blast
    moreover have "h left = ll_heap l left" using h(3) d x by auto
    moreover have "ll_find_inner n key l left (seg_start (x # ns) t) =
        ll_find_inner n' key l a (seg_start ns t)"
      unfolding right n using 2 ha b by (simp add: find_inner_advance)
    moreover have "passed key (x # ns) = (a, k, v, False) # passed key ns"
      "ahead key (x # ns) = ahead key ns"
      using 2 x by (simp_all add: passed_ahead_simps)
    ultimately show ?thesis
      unfolding find_post_def using x hl by (intro exI [of _ h]) auto
  next
    case 3
    then show ?thesis
      using ha Cons.prems(1) unfolding find_post_def right n x
      by (intro exI [of _ "ll_heap l"]) (simp add: find_inner_stop passed_ahead_simps seg_start_def)
  qed
qed

lemma passed_sub: "set (passed key ns) \<subseteq> set ns" "set (ahead key ns) \<subseteq> set ns"
  by (auto simp: passed_def ahead_def dest: set_takeWhileD set_dropWhileD)

lemma passed_ahead_subseq:
  "\<exists>ys. ns = ys @ ahead key ns \<and> passed key ns = filter (\<lambda>n. \<not> ln_marked n) ys"
  by (rule exI [of _ "takeWhile (\<lambda>n. ln_marked n \<or> ln_key n < key) ns"])
    (simp add: passed_def ahead_def)

lemma passed_ahead_sorted:
  assumes "ssorted (map ln_key ns)" and "distinct (map ln_addr ns)"
  shows "ssorted (map ln_key (passed key ns @ ahead key ns))"
    and "distinct (map ln_addr (passed key ns @ ahead key ns))"
proof -
  obtain ys where ys: "ns = ys @ ahead key ns" "passed key ns = filter (\<lambda>n. \<not> ln_marked n) ys"
    using passed_ahead_subseq by blast
  have "ssorted (map ln_key (ys @ ahead key ns))" "distinct (map ln_addr (ys @ ahead key ns))"
    using assms ys(1) by simp_all
  then show "ssorted (map ln_key (passed key ns @ ahead key ns))"
    "distinct (map ln_addr (passed key ns @ ahead key ns))"
    unfolding ys(2)
    by (auto simp: sorted_wrt_append sorted_wrt_map sorted_wrt_filter distinct_map_filter)
qed

lemma ll_abs_passed_ahead: "ll_abs (passed key ns @ ahead key ns) = ll_abs ns"
proof -
  obtain ys where ys: "ns = ys @ ahead key ns" "passed key ns = filter (\<lambda>n. \<not> ln_marked n) ys"
    using passed_ahead_subseq by blast
  have "ll_abs (passed key ns @ ahead key ns) = ll_abs (ys @ ahead key ns)"
    unfolding ys(2) ll_abs_def by (simp del: map_append)
  then show ?thesis using ys(1) by simp
qed

lemma passed_less: "n \<in> set (passed key ns) \<Longrightarrow> \<not> ln_marked n \<and> ln_key n < key"
  by (auto simp: passed_def dest!: set_takeWhileD)

lemma ahead_ge:
  assumes "ssorted (map ln_key ns)" and "n \<in> set (ahead key ns)"
  shows "key \<le> ln_key n"
proof -
  from assms(2) obtain x xs where x: "ahead key ns = x # xs" by (cases "ahead key ns") auto
  then have "\<not> (ln_marked x \<or> ln_key x < key)"
    unfolding ahead_def dropWhile_eq_Cons_conv by simp
  moreover have "ssorted (map ln_key (ahead key ns))"
  proof -
    obtain ys where "ns = ys @ ahead key ns" using passed_ahead_subseq by blast
    with assms(1) have "ssorted (map ln_key (ys @ ahead key ns))" by simp
    then show ?thesis by (simp add: sorted_wrt_append)
  qed
  then have "ln_key x \<le> ln_key n" using assms(2) x by (auto simp: less_imp_le)
  ultimately show ?thesis by (meson not_le order_less_le_trans)
qed

text \<open>\<open>find\<close> on a list that is not frozen: it returns, never reports null, unlinks the marked nodes
  it passes, and stops between the nodes below the key and the first node not below it.\<close>

lemma ll_find_spec:
  assumes "ll_rep False l ns t v0"
  shows "\<exists>h. ll_find (ll_brk l) key l =
      Inr (Some (seg_start (ahead key ns) t), last (ll_head l # map ln_addr (passed key ns)), l\<lparr>ll_heap := h\<rparr>)
    \<and> ll_rep False (l\<lparr>ll_heap := h\<rparr>) (passed key ns @ ahead key ns) t v0"
proof -
  let ?h = "ll_heap l"
  note r = assms [unfolded ll_rep_def]
  have fuel: "length ns + 2 < ll_brk l"
    by (rule ll_inv_fuel [of False]) (use assms in \<open>auto simp: ll_inv_def\<close>)
  then obtain n where n: "ll_brk l = Suc n" "length ns < n" by (cases "ll_brk l") auto
  from r obtain b where hd: "?h (ll_head l) = Some \<lparr>ll_key = 0, ll_value = v0, ll_next = clean b\<rparr>"
    and b: "b = seg_start ns t" by (auto dest: lseg_start)
  have "find_post key l (ll_head l) 0 v0 ns t (ll_find_inner n key l (ll_head l) (seg_start ns t))"
    using r n(2) by (intro ll_find_inner_spec) auto
  then obtain h where
    h: "ll_find_inner n key l (ll_head l) (seg_start ns t) = Inr (Some (seg_start (ahead key ns) t),
          last (ll_head l # map ln_addr (passed key ns)), l\<lparr>ll_heap := h\<rparr>)"
      "lseg False h (ll_head l) ((ll_head l, 0, v0, False) # passed key ns @ ahead key ns) t"
      "\<forall>a. a \<notin> set (ll_head l # map ln_addr ns) \<longrightarrow> h a = ?h a" "dom h = dom ?h"
    unfolding find_post_def by blast
  have "h t = ?h t" using h(3) r by auto
  then have "ll_tail h t" using r by (simp add: ll_tail_def)
  moreover have "distinct (t # ll_head l # map ln_addr (passed key ns @ ahead key ns))"
    using r passed_ahead_sorted(2) [of ns key] passed_sub [of key ns] by auto
  ultimately have "ll_rep False (l\<lparr>ll_heap := h\<rparr>) (passed key ns @ ahead key ns) t v0"
    using h(2,4) r passed_ahead_sorted(1) [of ns key] passed_sub [of key ns]
    by (auto simp: ll_rep_def)
  moreover have "ll_find (ll_brk l) key l = ll_find_inner n key l (ll_head l) (seg_start ns t)"
    using hd b by (simp add: n(1) ll_find.simps ll_load_def tp_defs)
  ultimately show ?thesis using h(1) by auto
qed

text \<open>A frozen list is reported as such and left as it is.\<close>

lemma ll_find_frozen:
  assumes "ll_inv True l ns"
  shows "ll_find (ll_brk l) key l = Inr (None, ll_head l, l)"
proof -
  have "length ns + 2 < ll_brk l" using assms by (rule ll_inv_fuel)
  then obtain n where "ll_brk l = Suc n" by (cases "ll_brk l") auto
  with assms show ?thesis
    by (auto simp: ll_inv_def ll_rep_def ll_find.simps ll_load_def)
qed

section \<open>Linking and unlinking a node\<close>

lemma last_not_out: "a \<notin> set (x # xs) \<Longrightarrow> last (x # xs) \<noteq> a"
  by (metis last_in_set list.distinct(1))

lemma ll_rep_last:
  assumes "ll_rep f l (xs @ ys) t v0" and "\<forall>n \<in> set xs. \<not> ln_marked n"
    and "p = last (ll_head l # map ln_addr xs)"
  obtains zs k v where "(ll_head l, 0, v0, False) # xs = zs @ [(p, k, v, False)]"
    "lseg f (ll_heap l) (ll_head l) zs p"
    "ll_heap l p = Some \<lparr>ll_key = k, ll_value = v, ll_next = TP (seg_start ys t) False f\<rparr>"
    "lseg f (ll_heap l) (seg_start ys t) ys t"
proof -
  obtain zs z where z: "(ll_head l, 0, v0, False) # xs = zs @ [z]"
    by (metis append_butlast_last_id list.distinct(1))
  obtain q k v m where q: "z = (q, k, v, m)" by (cases z)
  have "map ln_addr ((ll_head l, 0, v0, False) # xs) = map ln_addr (zs @ [z])" by (simp only: z)
  then have "p = q" using assms(3) q by simp
  moreover have "z \<in> set ((ll_head l, 0, v0, False) # xs)" by (simp only: z) simp
  then have "\<not> m" using assms(2) q by auto
  moreover have "lseg f (ll_heap l) (ll_head l) ((zs @ [z]) @ ys) t"
    using assms(1) unfolding ll_rep_def z [symmetric] by simp
  ultimately show ?thesis
    using that [of zs k v] q z unfolding lseg_append
    by (auto dest: lseg_start)
qed

lemma ll_rep_link:
  assumes rep: "ll_rep False l (xs @ ys) t v0" and xs: "\<forall>n \<in> set xs. \<not> ln_marked n \<and> ln_key n < k"
    and ys: "\<forall>n \<in> set ys. k < ln_key n" and "k < key_max"
    and p: "ll_heap l (last (ll_head l # map ln_addr xs)) = Some nd"
  shows "ll_rep False (l\<lparr>ll_heap := (ll_heap l)
        (ll_brk l \<mapsto> \<lparr>ll_key = k, ll_value = v, ll_next = clean (seg_start ys t)\<rparr>,
         last (ll_head l # map ln_addr xs) \<mapsto> nd\<lparr>ll_next := clean (ll_brk l)\<rparr>),
        ll_brk := Suc (ll_brk l), ll_count := c\<rparr>)
      (xs @ (ll_brk l, k, v, False) # ys) t v0"
proof -
  let ?p = "last (ll_head l # map ln_addr xs)" and ?c = "ll_brk l" and ?h = "ll_heap l"
  obtain zs k1 v1 where
    z: "(ll_head l, 0, v0, False) # xs = zs @ [(?p, k1, v1, False)]"
    and sz: "lseg False ?h (ll_head l) zs ?p"
    and hp: "?h ?p = Some \<lparr>ll_key = k1, ll_value = v1, ll_next = clean (seg_start ys t)\<rparr>"
    and sy: "lseg False ?h (seg_start ys t) ys t"
    using ll_rep_last [OF rep] xs by blast
  note r = rep [unfolded ll_rep_def]
  have t_out: "t \<notin> set (ll_head l # map ln_addr xs)" using r by auto
  have fresh: "?c \<notin> dom ?h" using r by auto
  have addrs: "ln_addr ` set ((ll_head l, 0, v0, False) # xs @ ys) \<subseteq> dom ?h" "t \<in> dom ?h"
    using r lseg_alloc by (blast, auto simp: ll_tail_def)
  have d: "distinct (map ln_addr ((ll_head l, 0, v0, False) # xs) @ map ln_addr ys)" using r by auto
  have pz: "?p \<notin> ln_addr ` set zs" "?p \<notin> ln_addr ` set ys"
    using d unfolding z by auto
  let ?h' = "?h(?c \<mapsto> \<lparr>ll_key = k, ll_value = v, ll_next = clean (seg_start ys t)\<rparr>,
         ?p \<mapsto> nd\<lparr>ll_next := clean ?c\<rparr>)"
  have cz: "?c \<notin> ln_addr ` set zs" "?c \<notin> ln_addr ` set ys" "?c \<noteq> ?p" "?c \<noteq> t" "?c \<noteq> ll_head l"
    "?c \<notin> ln_addr ` set xs"
    using fresh addrs hp lseg_alloc [OF sz, of ?c] by auto
  have "lseg False ?h' (ll_head l) ((zs @ [(?p, k1, v1, False)]) @ (?c, k, v, False) # ys) t"
    using sz sy pz cz p hp unfolding lseg_append by auto
  then have "lseg False ?h' (ll_head l) ((ll_head l, 0, v0, False) # xs @ (?c, k, v, False) # ys) t"
    unfolding z [symmetric] by simp
  moreover have "?p \<noteq> t" using t_out by (rule last_not_out)
  then have "ll_tail ?h' t" using r cz by (simp add: ll_tail_def)
  moreover have "dom ?h' \<subseteq> {1..<Suc ?c}"
  proof -
    have "0 < ?c" using r addrs by fastforce
    moreover have "dom ?h \<subseteq> {1..<?c}" using r by blast
    ultimately show ?thesis using hp by (auto 0 3)
  qed
  moreover have "distinct (t # ll_head l # map ln_addr (xs @ (?c, k, v, False) # ys))"
    using r cz by auto
  moreover have "ssorted (map ln_key (xs @ (?c, k, v, False) # ys))"
    using r xs ys by (auto simp: sorted_wrt_append)
  ultimately show ?thesis
    using r \<open>k < key_max\<close> by (auto simp: ll_rep_def)
qed

lemma ll_rep_unlink:
  assumes rep: "ll_rep False l (xs @ (a, k, v, False) # ys) t v0"
    and xs: "\<forall>n \<in> set xs. \<not> ln_marked n"
    and p: "ll_heap l (last (ll_head l # map ln_addr xs)) = Some nd"
  shows "ll_rep False (l\<lparr>ll_heap := (ll_heap l)
        (a \<mapsto> \<lparr>ll_key = k, ll_value = v, ll_next = TP (seg_start ys t) True False\<rparr>,
         last (ll_head l # map ln_addr xs) \<mapsto> nd\<lparr>ll_next := clean (seg_start ys t)\<rparr>)\<rparr>)
      (xs @ ys) t v0"
proof -
  let ?p = "last (ll_head l # map ln_addr xs)" and ?h = "ll_heap l"
  obtain zs k1 v1 where
    z: "(ll_head l, 0, v0, False) # xs = zs @ [(?p, k1, v1, False)]"
    and sz: "lseg False ?h (ll_head l) zs ?p"
    and hp: "?h ?p = Some \<lparr>ll_key = k1, ll_value = v1,
        ll_next = clean (seg_start ((a, k, v, False) # ys) t)\<rparr>"
    and sy: "lseg False ?h (seg_start ((a, k, v, False) # ys) t) ((a, k, v, False) # ys) t"
    using ll_rep_last [OF rep xs] by blast
  note r = rep [unfolded ll_rep_def]
  have t_out: "t \<notin> set (ll_head l # map ln_addr xs)" using r by auto
  have sy': "lseg False ?h (seg_start ys t) ys t" using sy by (auto dest: lseg_start)
  have d: "distinct (map ln_addr ((ll_head l, 0, v0, False) # xs) @ a # map ln_addr ys)"
    using r by auto
  have neq: "?p \<notin> ln_addr ` set zs" "?p \<notin> ln_addr ` set ys" "?p \<noteq> a"
      "a \<notin> ln_addr ` set zs" "a \<notin> ln_addr ` set ys"
    using d unfolding z by auto
  let ?h' = "?h(a \<mapsto> \<lparr>ll_key = k, ll_value = v, ll_next = TP (seg_start ys t) True False\<rparr>,
      ?p \<mapsto> nd\<lparr>ll_next := clean (seg_start ys t)\<rparr>)"
  have "lseg False ?h' (ll_head l) ((zs @ [(?p, k1, v1, False)]) @ ys) t"
    using sz sy' neq p hp unfolding lseg_append by auto
  then have "lseg False ?h' (ll_head l) ((ll_head l, 0, v0, False) # xs @ ys) t"
    unfolding z [symmetric] by simp
  moreover have "?p \<noteq> t" using t_out by (rule last_not_out)
  then have "ll_tail ?h' t" using r by (auto simp: ll_tail_def)
  moreover have "a \<in> dom ?h" using sy by auto
  then have "dom ?h' = dom ?h" using p by auto
  ultimately show ?thesis using r by (auto simp: ll_rep_def sorted_wrt_append)
qed

section \<open>The reference operations and the contract\<close>

text \<open>The abstract view of a list or a bin: key-value pairs sorted by key.\<close>

definition kv_insert :: "key_t \<Rightarrow> val_t \<Rightarrow> (key_t \<times> val_t) list \<Rightarrow> (key_t \<times> val_t) list" where
  "kv_insert k v kvs = filter (\<lambda>p. fst p < k) kvs @ (k, v) # filter (\<lambda>p. k < fst p) kvs"

definition kv_delete :: "key_t \<Rightarrow> (key_t \<times> val_t) list \<Rightarrow> (key_t \<times> val_t) list" where
  "kv_delete k kvs = filter (\<lambda>p. fst p \<noteq> k) kvs"

lemma kv_delete_absent: "k \<notin> fst ` set kvs \<Longrightarrow> kv_delete k kvs = kvs"
  by (auto simp: kv_delete_def intro!: filter_True)

lemma set_kv_insert: "set (kv_insert k v kvs) = insert (k, v) {p \<in> set kvs. fst p \<noteq> k}"
  by (auto simp: kv_insert_def)

lemma kv_insert_sorted: "ssorted (map fst kvs) \<Longrightarrow> ssorted (map fst (kv_insert k v kvs))"
  unfolding kv_insert_def
  by (auto simp: sorted_wrt_append sorted_wrt_map sorted_wrt_filter)

lemma kv_delete_sorted: "ssorted (map fst kvs) \<Longrightarrow> ssorted (map fst (kv_delete k kvs))"
  unfolding kv_delete_def by (auto simp: sorted_wrt_map sorted_wrt_filter)

lemma map_of_kv_insert:
  assumes "ssorted (map fst kvs)"
  shows "map_of (kv_insert k v kvs) = (map_of kvs)(k \<mapsto> v)"
proof
  fix x
  have "distinct (map fst kvs)" "distinct (map fst (kv_insert k v kvs))"
    using assms kv_insert_sorted ssorted_distinct by blast+
  then have "map_of (kv_insert k v kvs) x = Some y \<longleftrightarrow> ((map_of kvs)(k \<mapsto> v)) x = Some y" for y
    by (auto simp: set_kv_insert)
  then show "map_of (kv_insert k v kvs) x = ((map_of kvs)(k \<mapsto> v)) x"
    by (metis not_None_eq)
qed

lemma map_of_kv_delete: "map_of (kv_delete k kvs) = (map_of kvs)(k := None)"
  by (induction kvs) (auto simp: kv_delete_def fun_eq_iff)

lemma length_kv_insert:
  assumes "k \<notin> fst ` set kvs" shows "length (kv_insert k v kvs) = Suc (length kvs)"
proof -
  have "length kvs = length (filter (\<lambda>p. fst p < k) kvs) + length (filter (\<lambda>p. \<not> fst p < k) kvs)"
    by (rule sum_length_filter_compl [symmetric])
  moreover have "filter (\<lambda>p. \<not> fst p < k) kvs = filter (\<lambda>p. k < fst p) kvs"
    using assms by (intro filter_cong) (auto simp: not_less order.order_iff_strict)
  ultimately show ?thesis by (simp add: kv_insert_def)
qed

lemma fst_ln_kv [simp]: "map fst (ll_abs ns) = map ln_key (filter (\<lambda>n. \<not> ln_marked n) ns)"
  by (simp add: ll_abs_def)

lemma ll_abs_append: "ll_abs (xs @ ys) = ll_abs xs @ ll_abs ys"
  by (simp add: ll_abs_def)

lemma ll_abs_passed: "ll_abs (passed key ns) = map ln_kv (passed key ns)"
  unfolding ll_abs_def by (rule arg_cong [of _ _ "map ln_kv"]) (auto simp: passed_less intro: filter_True)

text \<open>The node \<open>find\<close> stops at decides whether the key is in the content.\<close>

lemma ahead_key_iff:
  assumes "ssorted (map ln_key ns)"
  shows "key \<in> fst ` set (ll_abs ns) \<longleftrightarrow> (\<exists>n ys. ahead key ns = n # ys \<and> ln_key n = key)"
proof -
  have eq: "ll_abs ns = map ln_kv (passed key ns) @ ll_abs (ahead key ns)"
    using ll_abs_passed_ahead [of key ns] by (simp add: ll_abs_append ll_abs_passed)
  have nin: "key \<notin> fst ` set (map ln_kv (passed key ns))"
    using passed_less [of _ key ns] by (auto simp: image_iff)
  show ?thesis
  proof (cases "ahead key ns")
    case Nil
    then show ?thesis using eq nin by (simp add: ll_abs_def)
  next
    case (Cons n ys)
    then have "\<not> ln_marked n" unfolding ahead_def dropWhile_eq_Cons_conv by simp
    have "ssorted (map ln_key (n # ys))"
      using passed_ahead_subseq [of ns key] assms Cons
      by (metis map_append sorted_wrt_append)
    moreover have "key \<le> ln_key n" using ahead_ge [OF assms, of n key] Cons by simp
    ultimately have "key \<notin> fst ` set (ll_abs ys)"
      by (auto simp: ll_abs_def)
    moreover have "ll_abs ns = map ln_kv (passed key ns) @ ln_kv n # ll_abs ys"
      using eq Cons \<open>\<not> ln_marked n\<close> by (simp add: ll_abs_def)
    ultimately have "key \<in> fst ` set (ll_abs ns) \<longleftrightarrow> key = ln_key n"
      using nin by (simp add: image_Un)
    then show ?thesis using Cons by auto
  qed
qed

section \<open>insert, remove, search, collect\<close>

lemma ll_load_seg_start:
  assumes "ll_rep f l (xs @ ys) t v0"
  shows "ll_load l (seg_start ys t) =
    (case ys of [] \<Rightarrow> Inr (the (ll_heap l t))
     | (a, k, v, m) # zs \<Rightarrow> Inr \<lparr>ll_key = k, ll_value = v, ll_next = TP (seg_start zs t) m f\<rparr>)"
  using assms
  by (auto simp: ll_rep_def ll_load_def seg_start_def ll_tail_def lseg_append split: list.split
      dest: lseg_start)

lemma ll_rep_last_alloc:
  assumes "ll_rep f l (xs @ ys) t v0"
  shows "\<exists>nd. ll_heap l (last (ll_head l # map ln_addr xs)) = Some nd
    \<and> last (ll_head l # map ln_addr xs) < ll_brk l"
proof -
  have "last (ll_head l # map ln_addr xs) \<in> set (ll_head l # map ln_addr xs)"
    by (rule last_in_set) simp
  also have "set (ll_head l # map ln_addr xs) \<subseteq> ln_addr ` set ((ll_head l, 0, v0, False) # xs @ ys)"
    by auto
  finally have "last (ll_head l # map ln_addr xs) \<in> dom (ll_heap l)"
    using assms lseg_alloc unfolding ll_rep_def by blast
  then show ?thesis using assms unfolding ll_rep_def by auto
qed

lemma ll_rep_pred:
  assumes "ll_rep f l (xs @ ys) t v0" and "\<forall>n \<in> set xs. \<not> ln_marked n"
  shows "\<exists>nd. ll_heap l (last (ll_head l # map ln_addr xs)) = Some nd
    \<and> ll_next nd = TP (seg_start ys t) False f \<and> last (ll_head l # map ln_addr xs) < ll_brk l"
proof -
  obtain k v where "ll_heap l (last (ll_head l # map ln_addr xs)) =
      Some \<lparr>ll_key = k, ll_value = v, ll_next = TP (seg_start ys t) False f\<rparr>"
    using ll_rep_last [OF assms refl] by blast
  then show ?thesis using ll_rep_last_alloc [OF assms(1)] by auto
qed

text \<open>The store transformations of a successful insertion and a successful removal.\<close>

lemma ll_insert_run:
  assumes "ll_find (ll_brk l) key l = Inr (Some r, p, l1)" and "ll_load l1 r = Inr rn"
    and "ll_key rn \<noteq> key" and "val \<noteq> tombstone" and "0 < ll_brk l"
    and "ll_heap l1 p = Some nd" and "ll_next nd = clean r" and "p \<noteq> ll_brk l1"
  shows "ll_insert key val l =
    Inr (1, l1\<lparr>ll_heap := (ll_heap l1)
          (ll_brk l1 \<mapsto> \<lparr>ll_key = key, ll_value = val, ll_next = clean r\<rparr>,
           p \<mapsto> nd\<lparr>ll_next := clean (ll_brk l1)\<rparr>),
        ll_brk := Suc (ll_brk l1), ll_count := ll_count l1 + 1\<rparr>)"
proof -
  obtain n where "ll_brk l = Suc n" using assms(5) by (cases "ll_brk l") auto
  then show ?thesis
    using assms by (simp add: ll_insert_def ll_insert_loop.simps ll_access_defs)
qed

lemma ll_remove_run:
  assumes "ll_find (ll_brk l) key l = Inr (Some r, p, l1)" and "0 < ll_brk l"
    and "ll_heap l1 r = Some \<lparr>ll_key = key, ll_value = v, ll_next = clean b\<rparr>"
    and "ll_heap l1 p = Some nd" and "ll_next nd = clean r" and "p \<noteq> r"
  shows "ll_remove key l =
    Inr (to_int32 v, l1\<lparr>ll_heap := (ll_heap l1)
          (r \<mapsto> \<lparr>ll_key = key, ll_value = v, ll_next = TP b True False\<rparr>,
           p \<mapsto> nd\<lparr>ll_next := clean b\<rparr>)\<rparr>)"
proof -
  obtain n where "ll_brk l = Suc n" using assms(2) by (cases "ll_brk l") auto
  then show ?thesis
    using assms by (simp add: ll_remove_def ll_remove_loop.simps ll_access_defs tp_defs)
qed

text \<open>The result of running an update: the new list satisfies the invariant, its content is \<open>kvs\<close>,
  and no node became marked on the way.\<close>

definition ll_post :: "lnode list \<Rightarrow> (key_t \<times> val_t) list \<Rightarrow> Linked_List \<Rightarrow> bool" where
  "ll_post ns kvs l' \<longleftrightarrow> (\<exists>ns'. ll_inv False l' ns' \<and> ll_abs ns' = kvs
     \<and> (\<forall>n \<in> set ns'. ln_marked n \<longrightarrow> n \<in> set ns))"

lemma ll_post_iff:
  "ll_post ns kvs l' \<longleftrightarrow> (\<exists>ns'. ll_inv False l' ns' \<and> ll_abs ns' = kvs
     \<and> {n \<in> set ns'. ln_marked n} \<subseteq> {n \<in> set ns. ln_marked n})"
  unfolding ll_post_def by blast

lemma ll_postI:
  "ll_rep False l' ns' t v0 \<Longrightarrow> ll_abs ns' = kvs \<Longrightarrow> (\<And>n. n \<in> set ns' \<Longrightarrow> ln_marked n \<Longrightarrow> n \<in> set ns)
    \<Longrightarrow> ll_post ns kvs l'"
  unfolding ll_post_def ll_inv_def by blast

lemma ll_post_find:
  assumes "ll_rep False l' (passed key ns @ ahead key ns) t v0"
  shows "ll_post ns (ll_abs ns) l'"
  using assms ll_abs_passed_ahead [of key ns]
  by (rule ll_postI) (use passed_sub [of key ns] in auto)

lemma ahead_gt:
  assumes "ssorted (map ln_key ns)" and "key \<notin> fst ` set (ll_abs ns)" and "m \<in> set (ahead key ns)"
  shows "key < ln_key m"
proof -
  from assms(3) obtain x xs where x: "ahead key ns = x # xs" by (cases "ahead key ns") auto
  have "key \<le> ln_key x" using ahead_ge [OF assms(1), of x key] x by simp
  moreover have "ln_key x \<noteq> key" using ahead_key_iff [OF assms(1), of key] assms(2) x by blast
  moreover obtain ys where "ns = ys @ ahead key ns" using passed_ahead_subseq by blast
  then have "ssorted (map ln_key (ys @ x # xs))" using assms(1) x by simp
  then have "ln_key x \<le> ln_key m" using assms(3) x by (auto simp: sorted_wrt_append less_imp_le)
  ultimately show ?thesis by order
qed

lemma ll_abs_split:
  assumes "ssorted (map ln_key ns)" and "key \<notin> fst ` set (ll_abs ns)"
  shows "filter (\<lambda>p. fst p < key) (ll_abs ns) = map ln_kv (passed key ns)"
    and "filter (\<lambda>p. key < fst p) (ll_abs ns) = ll_abs (ahead key ns)"
proof -
  have eq: "ll_abs ns = map ln_kv (passed key ns) @ ll_abs (ahead key ns)"
    using ll_abs_passed_ahead [of key ns] by (simp add: ll_abs_append ll_abs_passed)
  have lo: "\<forall>p \<in> set (map ln_kv (passed key ns)). fst p < key"
    by (auto dest: passed_less)
  have hi: "\<forall>p \<in> set (ll_abs (ahead key ns)). key < fst p"
  proof
    fix p assume p: "p \<in> set (ll_abs (ahead key ns))"
    then have "key \<le> fst p" by (auto simp: ll_abs_def dest: ahead_ge [OF assms(1)])
    moreover have "fst p \<noteq> key" using p assms(2) eq by auto
    ultimately show "key < fst p" by simp
  qed
  show "filter (\<lambda>p. fst p < key) (ll_abs ns) = map ln_kv (passed key ns)"
    unfolding eq using lo hi by (auto simp: filter_empty_conv intro!: filter_True)
  show "filter (\<lambda>p. key < fst p) (ll_abs ns) = ll_abs (ahead key ns)"
    unfolding eq using lo hi by (fastforce simp: filter_empty_conv intro: filter_True)
qed

lemma ll_insert_spec:
  assumes inv: "ll_inv False l ns" and key: "key < key_max"
  shows "\<exists>l'. ll_insert key val l =
      Inr (if key \<in> fst ` set (ll_abs ns) \<or> val = tombstone then 0 else 1, l')
    \<and> ll_post ns (if key \<in> fst ` set (ll_abs ns) \<or> val = tombstone then ll_abs ns
                  else kv_insert key val (ll_abs ns)) l'"
proof -
  from inv obtain t v0 where rep: "ll_rep False l ns t v0" by (auto simp: ll_inv_def)
  then have srt: "ssorted (map ln_key ns)" by (simp add: ll_rep_def)
  obtain h where find: "ll_find (ll_brk l) key l = Inr (Some (seg_start (ahead key ns) t),
        last (ll_head l # map ln_addr (passed key ns)), l\<lparr>ll_heap := h\<rparr>)"
      and rep1: "ll_rep False (l\<lparr>ll_heap := h\<rparr>) (passed key ns @ ahead key ns) t v0"
    using ll_find_spec [OF rep] by blast
  let ?l = "l\<lparr>ll_heap := h\<rparr>" and ?p = "last (ll_head l # map ln_addr (passed key ns))"
    and ?r = "seg_start (ahead key ns) t"
  obtain n where n: "ll_brk l = Suc n" using ll_inv_fuel [OF inv] by (cases "ll_brk l") auto
  obtain rn where rn: "ll_load ?l ?r = Inr rn"
      and rk: "ll_key rn = key \<longleftrightarrow> key \<in> fst ` set (ll_abs ns)"
    using ll_load_seg_start [OF rep1] rep1 key
    by (fastforce simp: ahead_key_iff [OF srt] ll_rep_def ll_tail_def split: list.splits prod.splits)
  show ?thesis
  proof (cases "key \<in> fst ` set (ll_abs ns) \<or> val = tombstone")
    case True
    then have "ll_insert key val l = Inr (0, ?l)"
      using find rn rk n by (auto simp: ll_insert_def ll_insert_loop.simps)
    then show ?thesis using True ll_post_find [OF rep1] by auto
  next
    case False
    obtain nd where nd: "h ?p = Some nd" "ll_next nd = clean ?r" "?p < ll_brk l"
      using ll_rep_pred [OF rep1] passed_less [of _ key ns] by auto
    let ?l' = "?l\<lparr>ll_heap := h(ll_brk ?l \<mapsto> \<lparr>ll_key = key, ll_value = val, ll_next = clean ?r\<rparr>,
        ?p \<mapsto> nd\<lparr>ll_next := clean (ll_brk ?l)\<rparr>), ll_brk := Suc (ll_brk ?l), ll_count := ll_count l + 1\<rparr>"
    have "ll_rep False ?l' (passed key ns @ (ll_brk ?l, key, val, False) # ahead key ns) t v0"
      using ll_rep_link [OF rep1, where k = key and v = val] nd key passed_less [of _ key ns] ahead_gt [OF srt, of key] False
      by simp
    moreover have "ll_abs (passed key ns @ (ll_brk ?l, key, val, False) # ahead key ns) =
        kv_insert key val (ll_abs ns)"
      using False ll_abs_split [OF srt, of key] ll_abs_passed [of key ns]
      by (simp add: kv_insert_def ll_abs_append) (simp add: ll_abs_def)
    ultimately have "ll_post ns (kv_insert key val (ll_abs ns)) ?l'"
      by (rule ll_postI) (use passed_sub [of key ns] in auto)
    moreover have "ll_insert key val l = Inr (1, ?l')"
      using ll_insert_run [OF find rn] rk False nd n by simp
    ultimately show ?thesis using False by auto
  qed
qed

lemma ll_remove_absent:
  assumes inv: "ll_inv False l ns" and key: "key < key_max" and abs: "key \<notin> fst ` set (ll_abs ns)"
  shows "\<exists>l'. ll_remove key l = Inr (- 2, l') \<and> ll_post ns (ll_abs ns) l'"
proof -
  from inv obtain t v0 where rep: "ll_rep False l ns t v0" by (auto simp: ll_inv_def)
  then have srt: "ssorted (map ln_key ns)" by (simp add: ll_rep_def)
  obtain h where find: "ll_find (ll_brk l) key l = Inr (Some (seg_start (ahead key ns) t),
        last (ll_head l # map ln_addr (passed key ns)), l\<lparr>ll_heap := h\<rparr>)"
      and rep1: "ll_rep False (l\<lparr>ll_heap := h\<rparr>) (passed key ns @ ahead key ns) t v0"
    using ll_find_spec [OF rep] by blast
  obtain n where n: "ll_brk l = Suc n" using ll_inv_fuel [OF inv] by (cases "ll_brk l") auto
  obtain rn where "ll_load (l\<lparr>ll_heap := h\<rparr>) (seg_start (ahead key ns) t) = Inr rn" "ll_key rn \<noteq> key"
    using ll_load_seg_start [OF rep1] rep1 key abs
    by (fastforce simp: ahead_key_iff [OF srt] ll_rep_def ll_tail_def split: list.splits prod.splits)
  then have "ll_remove key l = Inr (- 2, l\<lparr>ll_heap := h\<rparr>)"
    using find n by (auto simp: ll_remove_def ll_remove_loop.simps)
  then show ?thesis using ll_post_find [OF rep1] by auto
qed

lemma ll_remove_present:
  assumes inv: "ll_inv False l ns" and pres: "key \<in> fst ` set (ll_abs ns)"
  shows "\<exists>l' v. ll_remove key l = Inr (to_int32 v, l') \<and> map_of (ll_abs ns) key = Some v
    \<and> ll_post ns (kv_delete key (ll_abs ns)) l'"
proof -
  from inv obtain t v0 where rep: "ll_rep False l ns t v0" by (auto simp: ll_inv_def)
  then have srt: "ssorted (map ln_key ns)" by (simp add: ll_rep_def)
  obtain h where find: "ll_find (ll_brk l) key l = Inr (Some (seg_start (ahead key ns) t),
        last (ll_head l # map ln_addr (passed key ns)), l\<lparr>ll_heap := h\<rparr>)"
      and rep1: "ll_rep False (l\<lparr>ll_heap := h\<rparr>) (passed key ns @ ahead key ns) t v0"
    using ll_find_spec [OF rep] by blast
  let ?l = "l\<lparr>ll_heap := h\<rparr>" and ?p = "last (ll_head l # map ln_addr (passed key ns))"
  obtain a v m ys where ah: "ahead key ns = (a, key, v, m) # ys"
    using ahead_key_iff [OF srt, of key] pres by (auto simp: prod_eq_iff)
  then have m: "\<not> m" unfolding ahead_def dropWhile_eq_Cons_conv by simp
  have r: "seg_start (ahead key ns) t = a" using ah by (simp add: seg_start_def)
  obtain nd where nd: "h ?p = Some nd" "ll_next nd = clean a"
    using ll_rep_pred [OF rep1] passed_less [of _ key ns] r by auto
  have ha: "h a = Some \<lparr>ll_key = key, ll_value = v, ll_next = clean (seg_start ys t)\<rparr>"
    using ll_load_seg_start [OF rep1] ah m r by (auto simp: ll_load_def split: option.splits)
  have "?p \<noteq> a" using rep1 ah by (intro last_not_out) (auto simp: ll_rep_def)
  moreover have "0 < ll_brk l" using ll_inv_fuel [OF inv] by simp
  ultimately have run: "ll_remove key l = Inr (to_int32 v, ?l\<lparr>ll_heap := h
        (a \<mapsto> \<lparr>ll_key = key, ll_value = v, ll_next = TP (seg_start ys t) True False\<rparr>,
         ?p \<mapsto> nd\<lparr>ll_next := clean (seg_start ys t)\<rparr>)\<rparr>)"
    using ll_remove_run [OF find] ha nd r by simp
  have rep2: "ll_rep False (?l\<lparr>ll_heap := h
        (a \<mapsto> \<lparr>ll_key = key, ll_value = v, ll_next = TP (seg_start ys t) True False\<rparr>,
         ?p \<mapsto> nd\<lparr>ll_next := clean (seg_start ys t)\<rparr>)\<rparr>) (passed key ns @ ys) t v0"
    using ll_rep_unlink [of ?l "passed key ns" a key v ys t v0 nd] rep1 ah m nd
      passed_less [of _ key ns] by simp
  have eq: "ll_abs ns = map ln_kv (passed key ns) @ (key, v) # ll_abs ys"
    using ll_abs_passed_ahead [of key ns] ah m
    by (simp add: ll_abs_append ll_abs_passed) (simp add: ll_abs_def)
  have out: "key \<notin> fst ` set (map ln_kv (passed key ns))" "key \<notin> fst ` set (ll_abs ys)"
    using rep1 ah by (auto simp: ll_rep_def ll_abs_def sorted_wrt_append dest: passed_less)
  have "ll_abs (passed key ns @ ys) = kv_delete key (ll_abs ns)"
    using kv_delete_absent [OF out(1)] kv_delete_absent [OF out(2)]
    unfolding eq ll_abs_append ll_abs_passed by (simp add: kv_delete_def)
  then have "ll_post ns (kv_delete key (ll_abs ns)) (?l\<lparr>ll_heap := h
        (a \<mapsto> \<lparr>ll_key = key, ll_value = v, ll_next = TP (seg_start ys t) True False\<rparr>,
         ?p \<mapsto> nd\<lparr>ll_next := clean (seg_start ys t)\<rparr>)\<rparr>)"
    by (intro ll_postI [OF rep2]) (use passed_sub [of key ns] ah in auto)
  moreover have "map_of (ll_abs ns) key = Some v"
  proof -
    have "map_of (map ln_kv (passed key ns)) key = None"
      using out(1) unfolding map_of_eq_None_iff by assumption
    then show ?thesis unfolding eq by (simp add: map_add_def)
  qed
  ultimately show ?thesis using run by auto
qed

lemma ll_search_loop_spec:
  assumes "lseg f (ll_heap l) a ns t" and "ll_tail (ll_heap l) t" and "ssorted (map ln_key ns)"
    and "length ns < n" and "key < key_max"
  shows "ll_search_loop n key l a = Inr (key \<in> fst ` set (ll_abs ns))"
  using assms
proof (induction ns arbitrary: a n)
  case Nil
  then obtain n' where "n = Suc n'" by (cases n) auto
  with Nil show ?case by (auto simp: ll_search_loop.simps ll_tail_def ll_load_def ll_abs_def)
next
  case (Cons x ns)
  obtain c k v m where x: "x = (c, k, v, m)" by (cases x)
  from Cons.prems obtain n' where n: "n = Suc n'" and n': "length ns < n'" by (cases n) auto
  from Cons.prems(1) x obtain b where
    h: "ll_heap l a = Some \<lparr>ll_key = k, ll_value = v, ll_next = TP b m f\<rparr>"
    and s: "lseg f (ll_heap l) b ns t" by auto
  show ?case
  proof (cases "k < key")
    case True
    then have "ll_search_loop n key l a = ll_search_loop n' key l b"
      using h n by (simp add: ll_search_loop.simps ll_load_def tp_defs)
    moreover have "key \<in> fst ` set (ll_abs (x # ns)) \<longleftrightarrow> key \<in> fst ` set (ll_abs ns)"
      using True x by (auto simp: ll_abs_def)
    ultimately show ?thesis using Cons.IH [OF s _ _ n'] Cons.prems by simp
  next
    case False
    then have "key \<notin> fst ` set (ll_abs ns)" using Cons.prems(3) x by (auto simp: ll_abs_def)
    moreover have "ll_search_loop n key l a = Inr (k = key \<and> \<not> m)"
      using h n False by (simp add: ll_search_loop.simps ll_load_def)
    ultimately show ?thesis using x by (auto simp: ll_abs_def)
  qed
qed

text \<open>The search sees exactly the content, frozen or not. Key 0 is the lower sentinel's own key:
  searching it always succeeds (\<open>ll_search_zero\<close>).\<close>

lemma ll_search_spec:
  assumes inv: "ll_inv f l ns" and "0 < key" and "key < key_max"
  shows "ll_search key l = Inr (key \<in> fst ` set (ll_abs ns))"
proof -
  obtain n where n: "ll_brk l = Suc n" "length ns < n"
    using ll_inv_fuel [OF inv] by (cases "ll_brk l") auto
  from inv obtain t v0 b where rep: "ll_rep f l ns t v0"
      and hd: "ll_heap l (ll_head l) = Some \<lparr>ll_key = 0, ll_value = v0, ll_next = TP b False f\<rparr>"
      and s: "lseg f (ll_heap l) b ns t"
    by (auto simp: ll_inv_def ll_rep_def)
  have "ll_search key l = ll_search_loop n key l b"
    using hd n(1) \<open>0 < key\<close> by (simp add: ll_search_def ll_search_loop.simps ll_load_def tp_defs)
  then show ?thesis
    using ll_search_loop_spec [OF s _ _ n(2) assms(3)] rep by (simp add: ll_rep_def)
qed

lemma ll_search_zero:
  assumes "ll_inv f l ns" shows "ll_search 0 l = Inr True"
proof -
  obtain n where "ll_brk l = Suc n" using ll_inv_fuel [OF assms] by (cases "ll_brk l") auto
  then show ?thesis
    using assms by (auto simp: ll_inv_def ll_rep_def ll_search_def ll_search_loop.simps ll_load_def)
qed

text \<open>What \<open>collect\<close> gathers: the node after every word that is not marked. The mark of a word says
  that the node holding it is deleted, so it is the successor of a deleted node that is left out.\<close>

fun gather :: "bool \<Rightarrow> lnode list \<Rightarrow> (key_t \<times> val_t) list" where
  "gather m [] = []"
| "gather m (x # xs) = (if m then [] else [ln_kv x]) @ gather (ln_marked x) xs"

lemma gather_unmarked:
  "\<forall>n \<in> set ns. \<not> ln_marked n \<Longrightarrow> gather False (ns @ [z]) = map ln_kv ns @ [ln_kv z]"
  by (induction ns) auto

text \<open>One round of \<open>collect\<close>: the word is frozen and, if it is not marked, its target gathered.\<close>

lemma collect_step:
  assumes "ll_heap l left = Some \<lparr>ll_key = k0, ll_value = v0, ll_next = TP b m f\<rparr>"
    and "ll_heap l b = Some nd" and "b \<noteq> 0" and "b \<noteq> left"
  shows "ll_collect_loop (Suc n) l left acc = ll_collect_loop n
      (l\<lparr>ll_heap := (ll_heap l)(left \<mapsto> \<lparr>ll_key = k0, ll_value = v0, ll_next = TP b m True\<rparr>)\<rparr>)
      b (acc @ (if m then [] else [(ll_key nd, ll_value nd)]))"
proof (cases f)
  case True
  then have "(ll_heap l)(left \<mapsto> \<lparr>ll_key = k0, ll_value = v0, ll_next = TP b m True\<rparr>) = ll_heap l"
    using assms(1) by (simp add: fun_upd_idem)
  then show ?thesis using True assms by (simp add: ll_collect_loop.simps ll_access_defs tp_defs)
next
  case False
  then show ?thesis using assms by (simp add: ll_collect_loop.simps ll_access_defs tp_defs)
qed

lemma ll_collect_loop_spec:
  assumes "lseg f (ll_heap l) left ((left, k0, v0, m0) # ns) t"
    and "ll_heap l t = Some \<lparr>ll_key = key_max, ll_value = vt, ll_next = null_ptr\<rparr>"
    and "distinct (t # left # map ln_addr ns)" and "ll_heap l 0 = None"
    and "length ns + 1 < n"
  shows "\<exists>h. ll_collect_loop n l left acc =
      Inr (acc @ gather m0 (ns @ [(t, key_max, vt, False)]), l\<lparr>ll_heap := h\<rparr>)
    \<and> lseg True h left ((left, k0, v0, m0) # ns) t
    \<and> (\<forall>a. a \<notin> set (left # map ln_addr ns) \<longrightarrow> h a = ll_heap l a) \<and> dom h = dom (ll_heap l)"
  using assms
proof (induction ns arbitrary: l left n k0 v0 m0 acc)
  case Nil
  then obtain n' where n: "n = Suc (Suc n')" by (cases n; cases "n - 1") auto
  define h where "h = (ll_heap l)(left \<mapsto> \<lparr>ll_key = k0, ll_value = v0, ll_next = TP t m0 True\<rparr>)"
  have h: "h left = Some \<lparr>ll_key = k0, ll_value = v0, ll_next = TP t m0 True\<rparr>"
    "\<And>a. a \<noteq> left \<Longrightarrow> h a = ll_heap l a" "dom h = dom (ll_heap l)"
    using Nil.prems(1) by (auto simp: h_def)
  have "t \<noteq> 0" using Nil.prems(2,4) by (metis option.distinct(1))
  then have "ll_collect_loop n l left acc =
      ll_collect_loop (Suc n') (l\<lparr>ll_heap := h\<rparr>) t (acc @ (if m0 then [] else [(key_max, vt)]))"
    unfolding n h_def using Nil by (subst collect_step [where b = t and f = f]) auto
  also have "\<dots> = Inr (acc @ (if m0 then [] else [(key_max, vt)]), l\<lparr>ll_heap := h\<rparr>)"
    using Nil.prems(2,3) h(2) by (simp add: ll_collect_loop.simps ll_load_def tp_defs)
  finally show ?case using h by (intro exI [of _ h]) auto
next
  case (Cons x ns)
  obtain a k v m where x: "x = (a, k, v, m)" by (cases x)
  from Cons.prems obtain n' where n: "n = Suc n'" and n': "length ns + 1 < n'" by (cases n) auto
  from Cons.prems(1) x obtain b where
    hl: "ll_heap l left = Some \<lparr>ll_key = k0, ll_value = v0, ll_next = TP a m0 f\<rparr>"
    and ha: "ll_heap l a = Some \<lparr>ll_key = k, ll_value = v, ll_next = TP b m f\<rparr>"
    and sb: "lseg f (ll_heap l) b ns t" by auto
  define g where "g = (ll_heap l)(left \<mapsto> \<lparr>ll_key = k0, ll_value = v0, ll_next = TP a m0 True\<rparr>)"
  note d = Cons.prems(3)
  let ?acc = "acc @ (if m0 then [] else [(k, v)])"
  have g: "g left = Some \<lparr>ll_key = k0, ll_value = v0, ll_next = TP a m0 True\<rparr>"
    "\<And>c. c \<noteq> left \<Longrightarrow> g c = ll_heap l c" "dom g = dom (ll_heap l)" "lseg f g b ns t"
    using hl sb d unfolding g_def by auto
  have nz: "a \<noteq> 0" "left \<noteq> 0" using ha hl Cons.prems(4) by (metis option.distinct(1))+
  have run: "ll_collect_loop n l left acc = ll_collect_loop n' (l\<lparr>ll_heap := g\<rparr>) a ?acc"
    unfolding n g_def using hl ha d x nz by (subst collect_step) auto
  have "lseg f g a ((a, k, v, m) # ns) t" "g t = ll_heap l t" "g 0 = None"
    using g ha d x nz Cons.prems(4) by auto
  then obtain h where
    h: "ll_collect_loop n' (l\<lparr>ll_heap := g\<rparr>) a ?acc =
          Inr (?acc @ gather m (ns @ [(t, key_max, vt, False)]), l\<lparr>ll_heap := g, ll_heap := h\<rparr>)"
      "lseg True h a ((a, k, v, m) # ns) t"
      "\<forall>c. c \<notin> set (a # map ln_addr ns) \<longrightarrow> h c = g c" "dom h = dom g"
    using Cons.IH [of "l\<lparr>ll_heap := g\<rparr>" a k v m n' ?acc] d x Cons.prems(2) n'
    by auto
  have "h left = g left" using h(3) d x by auto
  then show ?case
    unfolding run h(1) using h(2-4) x g(1-3) by (intro exI [of _ h]) auto
qed

lemma ll_collect_spec:
  assumes inv: "ll_inv f l ns"
  shows "\<exists>t vt l'. ll_collect l =
      (let g = gather False (ns @ [(t, key_max, vt, False)])
       in if g = [] then Inl EmptyPop else Inr (butlast g, l'))
    \<and> ll_inv True l' ns"
proof -
  from inv obtain t v0 where rep: "ll_rep f l ns t v0" by (auto simp: ll_inv_def)
  then obtain vt where
    t: "ll_heap l t = Some \<lparr>ll_key = key_max, ll_value = vt, ll_next = null_ptr\<rparr>"
    by (auto simp: ll_rep_def ll_tail_def)
  have "0 \<notin> dom (ll_heap l)" using rep by (auto simp: ll_rep_def)
  then obtain h where
    h: "ll_collect_loop (ll_brk l) l (ll_head l) [] =
          Inr ([] @ gather False (ns @ [(t, key_max, vt, False)]), l\<lparr>ll_heap := h\<rparr>)"
      "lseg True h (ll_head l) ((ll_head l, 0, v0, False) # ns) t"
      "\<forall>a. a \<notin> set (ll_head l # map ln_addr ns) \<longrightarrow> h a = ll_heap l a" "dom h = dom (ll_heap l)"
    using ll_collect_loop_spec [of f l "ll_head l" 0 v0 False ns t vt "ll_brk l" "[]"] rep t
      ll_inv_fuel [OF inv] by (auto simp: ll_rep_def domIff)
  have "h t = ll_heap l t" using h(3) rep by (auto simp: ll_rep_def)
  then have "ll_rep True (l\<lparr>ll_heap := h\<rparr>) ns t v0"
    using h rep t by (auto simp: ll_rep_def ll_tail_def)
  then show ?thesis
    using h(1)
    by (intro exI [of _ t] exI [of _ vt] exI [of _ "l\<lparr>ll_heap := h\<rparr>"])
      (auto simp: ll_collect_def ll_inv_def Let_def)
qed

section \<open>The quiescent list\<close>

text \<open>Between two operations of one thread no node is marked; the operations then act on the sorted
  key-value list \<open>kvs\<close>.\<close>

lemma ll_q_sorted:
  assumes "ll_q f l kvs"
  shows "ssorted (map fst kvs)" and "\<forall>p \<in> set kvs. fst p < key_max"
proof -
  obtain ns where ns: "ll_inv f l ns" "kvs = ll_abs ns" using assms by (auto simp: ll_q_def)
  then have "ssorted (map ln_key ns)" "\<forall>n \<in> set ns. ln_key n < key_max"
    by (auto simp: ll_inv_def ll_rep_def)
  then show "ssorted (map fst kvs)" "\<forall>p \<in> set kvs. fst p < key_max"
    using ns(2) by (auto simp: ll_abs_def sorted_wrt_map sorted_wrt_filter)
qed

lemma ll_post_q:
  "ll_post ns kvs l' \<Longrightarrow> \<forall>n \<in> set ns. \<not> ln_marked n \<Longrightarrow> ll_q False l' kvs"
  unfolding ll_post_def ll_q_def by blast

lemma ll_q_insert:
  assumes "ll_q False l kvs" and "key < key_max"
  shows "\<exists>l'. ll_insert key val l = Inr (if key \<in> fst ` set kvs \<or> val = tombstone then 0 else 1, l')
    \<and> ll_q False l' (if key \<in> fst ` set kvs \<or> val = tombstone then kvs else kv_insert key val kvs)"
proof -
  obtain ns where ns: "ll_inv False l ns" "\<forall>n \<in> set ns. \<not> ln_marked n" "kvs = ll_abs ns"
    using assms(1) by (auto simp: ll_q_def)
  from ll_insert_spec [OF ns(1) assms(2), of val] ll_post_q [OF _ ns(2)] show ?thesis
    unfolding ns(3) by blast
qed

lemma ll_inv_insert_frozen:
  assumes ns: "ll_inv True l ns" shows "ll_insert key val l = Inr (- 1, l)"
proof -
  obtain n where "ll_brk l = Suc n" using ll_inv_fuel [OF ns] by (cases "ll_brk l") auto
  then show ?thesis
    using ll_find_frozen [OF ns, of key] by (simp add: ll_insert_def ll_insert_loop.simps)
qed

lemma ll_q_remove:
  assumes "ll_q False l kvs" and "key < key_max"
  shows "\<exists>l'. ll_remove key l =
      Inr (case map_of kvs key of None \<Rightarrow> - 2 | Some v \<Rightarrow> to_int32 v, l')
    \<and> ll_q False l' (kv_delete key kvs)"
proof -
  obtain ns where ns: "ll_inv False l ns" "\<forall>n \<in> set ns. \<not> ln_marked n" "kvs = ll_abs ns"
    using assms(1) by (auto simp: ll_q_def)
  show ?thesis
  proof (cases "key \<in> fst ` set kvs")
    case True
    with ll_remove_present [OF ns(1), of key] ll_post_q [OF _ ns(2)] show ?thesis
      unfolding ns(3) by fastforce
  next
    case False
    then have "map_of kvs key = None" by (simp add: map_of_eq_None_iff)
    with False ll_remove_absent [OF ns(1) assms(2)] ll_post_q [OF _ ns(2)] kv_delete_absent [of key]
    show ?thesis unfolding ns(3) by fastforce
  qed
qed

lemma ll_inv_remove_frozen:
  assumes ns: "ll_inv True l ns" shows "ll_remove key l = Inr (- 1, l)"
proof -
  obtain n where "ll_brk l = Suc n" using ll_inv_fuel [OF ns] by (cases "ll_brk l") auto
  then show ?thesis
    using ll_find_frozen [OF ns, of key] by (simp add: ll_remove_def ll_remove_loop.simps)
qed

lemma ll_q_frozen:
  assumes "ll_q True l kvs"
  shows "ll_insert key val l = Inr (- 1, l)" and "ll_remove key l = Inr (- 1, l)"
  using assms ll_inv_insert_frozen ll_inv_remove_frozen by (auto simp: ll_q_def)

lemma ll_q_search:
  "ll_q f l kvs \<Longrightarrow> 0 < key \<Longrightarrow> key < key_max \<Longrightarrow> ll_search key l = Inr (key \<in> fst ` set kvs)"
  by (auto simp: ll_q_def ll_search_spec)

lemma ll_q_collect:
  assumes "ll_q f l kvs"
  shows "\<exists>l'. ll_collect l = Inr (kvs, l') \<and> ll_q True l' kvs"
proof -
  obtain ns where ns: "ll_inv f l ns" "\<forall>n \<in> set ns. \<not> ln_marked n" "kvs = ll_abs ns"
    using assms by (auto simp: ll_q_def)
  have "kvs = map ln_kv ns" unfolding ns(3) ll_abs_def using ns(2) by (simp add: filter_True)
  then have "butlast (gather False (ns @ [(t, key_max, vt, False)])) = kvs"
    "gather False (ns @ [(t, key_max, vt, False)]) \<noteq> []" for t vt
    using gather_unmarked [OF ns(2)] by (simp_all add: butlast_append)
  then show ?thesis
    using ll_collect_spec [OF ns(1)] ns by (auto simp: ll_q_def Let_def)
qed

section \<open>The interface of the list\<close>

text \<open>The operations a bin calls on a list, and what the specification answers: the state of the
  specification is the frozen flag and the sorted content.\<close>

datatype lop = LInsert key_t val_t | LRemove key_t | LSearch key_t | LCollect

datatype lret = RInt int | RBool bool | RList "(key_t \<times> val_t) list"

fun lop_ok :: "lop \<Rightarrow> bool" where
  "lop_ok (LInsert k v) \<longleftrightarrow> k < key_max"
| "lop_ok (LRemove k) \<longleftrightarrow> k < key_max"
| "lop_ok (LSearch k) \<longleftrightarrow> 0 < k \<and> k < key_max"
| "lop_ok LCollect \<longleftrightarrow> True"

fun kv_step :: "lop \<Rightarrow> bool \<times> (key_t \<times> val_t) list \<Rightarrow> lret \<times> bool \<times> (key_t \<times> val_t) list" where
  "kv_step (LInsert k v) (f, kvs) =
     (if f then (RInt (- 1), f, kvs)
      else if k \<in> fst ` set kvs \<or> v = tombstone then (RInt 0, f, kvs)
      else (RInt 1, f, kv_insert k v kvs))"
| "kv_step (LRemove k) (f, kvs) =
     (if f then (RInt (- 1), f, kvs)
      else (RInt (case map_of kvs k of None \<Rightarrow> - 2 | Some v \<Rightarrow> to_int32 v), f, kv_delete k kvs))"
| "kv_step (LSearch k) (f, kvs) = (RBool (k \<in> fst ` set kvs), f, kvs)"
| "kv_step LCollect (f, kvs) = (RList kvs, True, kvs)"

definition list_step ::
    "(key_t \<Rightarrow> val_t \<Rightarrow> 's \<Rightarrow> (int \<times> 's) res) \<Rightarrow> (key_t \<Rightarrow> 's \<Rightarrow> (int \<times> 's) res) \<Rightarrow>
     (key_t \<Rightarrow> 's \<Rightarrow> bool res) \<Rightarrow> ('s \<Rightarrow> ((key_t \<times> val_t) list \<times> 's) res) \<Rightarrow>
     lop \<Rightarrow> 's \<Rightarrow> (lret \<times> 's) res" where
  "list_step ins rem srch coll x l = (case x of
     LInsert k v \<Rightarrow> bind_res (ins k v l) (\<lambda>(r, l'). Inr (RInt r, l'))
   | LRemove k \<Rightarrow> bind_res (rem k l) (\<lambda>(r, l'). Inr (RInt r, l'))
   | LSearch k \<Rightarrow> bind_res (srch k l) (\<lambda>r. Inr (RBool r, l))
   | LCollect \<Rightarrow> bind_res (coll l) (\<lambda>(r, l'). Inr (RList r, l')))"

definition ll_step :: "lop \<Rightarrow> Linked_List \<Rightarrow> (lret \<times> Linked_List) res" where
  "ll_step = list_step ll_insert ll_remove ll_search ll_collect"

text \<open>The contract between a list and its clients.\<close>

locale freezable_list =
  fixes q :: "bool \<Rightarrow> 's \<Rightarrow> (key_t \<times> val_t) list \<Rightarrow> bool"
    and ins :: "key_t \<Rightarrow> val_t \<Rightarrow> 's \<Rightarrow> (int \<times> 's) res"
    and rem :: "key_t \<Rightarrow> 's \<Rightarrow> (int \<times> 's) res"
    and srch :: "key_t \<Rightarrow> 's \<Rightarrow> bool res"
    and coll :: "'s \<Rightarrow> ((key_t \<times> val_t) list \<times> 's) res"
  assumes q_sorted: "q f l kvs \<Longrightarrow> ssorted (map fst kvs)"
    and ins_live: "q False l kvs \<Longrightarrow> key < key_max \<Longrightarrow>
      \<exists>l'. ins key val l = Inr (if key \<in> fst ` set kvs \<or> val = tombstone then 0 else 1, l')
        \<and> q False l' (if key \<in> fst ` set kvs \<or> val = tombstone then kvs else kv_insert key val kvs)"
    and ins_frozen: "q True l kvs \<Longrightarrow> ins key val l = Inr (- 1, l)"
    and rem_live: "q False l kvs \<Longrightarrow> key < key_max \<Longrightarrow>
      \<exists>l'. rem key l = Inr (case map_of kvs key of None \<Rightarrow> - 2 | Some v \<Rightarrow> to_int32 v, l')
        \<and> q False l' (kv_delete key kvs)"
    and rem_frozen: "q True l kvs \<Longrightarrow> rem key l = Inr (- 1, l)"
    and srch_q: "q f l kvs \<Longrightarrow> 0 < key \<Longrightarrow> key < key_max \<Longrightarrow> srch key l = Inr (key \<in> fst ` set kvs)"
    and coll_q: "q f l kvs \<Longrightarrow> \<exists>l'. coll l = Inr (kvs, l') \<and> q True l' kvs"
begin

lemma list_step_refines:
  assumes "q f l kvs" and "lop_ok x"
  shows "\<exists>l'. list_step ins rem srch coll x l = Inr (fst (kv_step x (f, kvs)), l')
    \<and> q (fst (snd (kv_step x (f, kvs)))) l' (snd (snd (kv_step x (f, kvs))))"
proof (cases x)
  case (LInsert k v)
  show ?thesis
  proof (cases f)
    case True
    then show ?thesis using LInsert assms by (simp add: list_step_def ins_frozen)
  next
    case False
    then show ?thesis
      using LInsert assms ins_live [of l kvs k v] by (auto simp: list_step_def split: if_splits)
  qed
next
  case (LRemove k)
  show ?thesis
  proof (cases f)
    case True
    then show ?thesis using LRemove assms by (simp add: list_step_def rem_frozen)
  next
    case False
    then show ?thesis
      using LRemove assms rem_live [of l kvs k] by (auto simp: list_step_def)
  qed
next
  case (LSearch k)
  then show ?thesis using assms by (simp add: list_step_def srch_q)
next
  case LCollect
  then show ?thesis using assms coll_q [of f l kvs] by (auto simp: list_step_def)
qed

end

sublocale freezable_list \<subseteq> lref: op_refinement "\<lambda>l (f, kvs). q f l kvs" "list_step ins rem srch coll" kv_step lop_ok
proof unfold_locales
  fix s a x
  assume "case a of (f, kvs) \<Rightarrow> q f s kvs" and "lop_ok x"
  then show "\<exists>s'. list_step ins rem srch coll x s = Inr (fst (kv_step x a), s')
      \<and> (case snd (kv_step x a) of (f, kvs) \<Rightarrow> q f s' kvs)"
    using list_step_refines [of "fst a" s "snd a" x] by (auto simp: split_beta)
qed

interpretation lfl: freezable_list ll_q ll_insert ll_remove ll_search ll_collect
  using ll_q_sorted(1) ll_q_insert ll_q_remove ll_q_frozen ll_q_search
    ll_q_collect
  by unfold_locales

section \<open>Correctness of the list\<close>

text \<open>C39. Any sequence of inserts, removes, searches and collects on a new list, with keys strictly
  between the sentinels' keys (key 0 may be inserted and removed), returns exactly what the
  specification returns on a sorted key-value list with a frozen flag, and no operation fails or
  runs out of fuel; the resulting list represents the specification's final content.\<close>

theorem ll_run_refines:
  assumes "list_all lop_ok ops"
  shows "\<exists>l'. run_ops ll_step ops (Linked_List_new c0) =
      Inr (fst (run_spec kv_step ops (False, [])), l')
    \<and> ll_q (fst (snd (run_spec kv_step ops (False, [])))) l'
        (snd (snd (run_spec kv_step ops (False, []))))"
  unfolding ll_step_def
  using lfl.lref.run_refines [of "Linked_List_new c0" "(False, [])" ops] assms ll_q_new [of c0]
  by (simp add: case_prod_beta)

theorem ll_run_refines_witness:
  "\<exists>l'. run_ops ll_step
      [LInsert 9 1, LInsert 4 2, LInsert 9 3, LSearch 4, LRemove 9, LRemove 9, LCollect,
       LInsert 6 5, LSearch 6] (Linked_List_new 0) =
    Inr ([RInt 1, RInt 1, RInt 0, RBool True, RInt 1, RInt (- 2), RList [(4, 2)], RInt (- 1),
       RBool False], l')
    \<and> ll_q True l' [(4, 2)]"
  using ll_run_refines [of "[LInsert 9 1, LInsert 4 2, LInsert 9 3, LSearch 4, LRemove 9, LRemove 9,
      LCollect, LInsert 6 5, LSearch 6]" 0]
  by (simp add: kv_insert_def kv_delete_def to_int32_def)

text \<open>On a list that is not frozen, with any number of marked nodes still linked, find returns
  within its fuel, never null; it changes the store only by unlinking marked nodes, so that the
  content stays; the predecessor is the last node with a smaller key (or the head), and the node
  returned is the first unmarked one with a key not below the wanted key (or the tail).\<close>

theorem ll_find_correct:
  assumes "ll_rep False l ns t v0"
  shows "\<exists>xs ys l'. ll_find (ll_brk l) key l =
      Inr (Some (seg_start ys t), last (ll_head l # map ln_addr xs), l')
    \<and> ll_rep False l' (xs @ ys) t v0 \<and> ll_abs (xs @ ys) = ll_abs ns
    \<and> set (xs @ ys) \<subseteq> set ns
    \<and> (\<forall>n \<in> set xs. \<not> ln_marked n \<and> ln_key n < key) \<and> (\<forall>n \<in> set ys. key \<le> ln_key n)
    \<and> (ys \<noteq> [] \<longrightarrow> \<not> ln_marked (hd ys))"
proof -
  have srt: "ssorted (map ln_key ns)" using assms by (simp add: ll_rep_def)
  have "ahead key ns \<noteq> [] \<longrightarrow> \<not> ln_marked (hd (ahead key ns))"
    unfolding ahead_def using hd_dropWhile by blast
  then show ?thesis
    using ll_find_spec [OF assms, of key] ll_abs_passed_ahead [of key ns] passed_sub [of key ns]
      passed_less [of _ key ns] ahead_ge [OF srt, of _ key]
    by (intro exI [of _ "passed key ns"] exI [of _ "ahead key ns"]) auto
qed

text \<open>A list with the nodes 3 (marked, still linked) and 7 between the sentinels.\<close>

definition ll_example :: Linked_List where
  "ll_example = \<lparr>ll_head = 2, ll_count = 2,
     ll_heap = [1 \<mapsto> \<lparr>ll_key = key_max, ll_value = 0, ll_next = null_ptr\<rparr>,
                2 \<mapsto> \<lparr>ll_key = 0, ll_value = 0, ll_next = clean 3\<rparr>,
                3 \<mapsto> \<lparr>ll_key = 3, ll_value = 30, ll_next = TP 4 True False\<rparr>,
                4 \<mapsto> \<lparr>ll_key = 7, ll_value = 70, ll_next = clean 1\<rparr>], ll_brk = 5\<rparr>"

lemma ll_example_rep: "ll_rep False ll_example [(3, 3, 30, True), (4, 7, 70, False)] 1 0"
  by (auto simp: ll_rep_def ll_example_def ll_tail_def)

lemma ll_example_inv: "ll_inv False ll_example [(3, 3, 30, True), (4, 7, 70, False)]"
  using ll_example_rep ll_inv_def by blast

lemma ll_example_abs: "ll_abs [(3, 3, 30, True), (4, 7, 70, False)] = [(7, 70)]"
  by (simp add: ll_abs_def)

theorem ll_find_correct_witness:
  "\<exists>xs ys l'. ll_find (ll_brk ll_example) 5 ll_example =
      Inr (Some (seg_start ys 1), last (ll_head ll_example # map ln_addr xs), l')
    \<and> ll_abs (xs @ ys) = [(7, 70)] \<and> (\<forall>n \<in> set xs. ln_key n < 5)"
proof -
  obtain xs ys l' where "ll_find (ll_brk ll_example) 5 ll_example =
      Inr (Some (seg_start ys 1), last (ll_head ll_example # map ln_addr xs), l')"
    "ll_abs (xs @ ys) = [(7, 70)]" "\<forall>n \<in> set xs. \<not> ln_marked n \<and> ln_key n < 5"
    using ll_find_correct [OF ll_example_rep, of 5] unfolding ll_example_abs by (elim exE conjE)
  then show ?thesis by (intro exI conjI) auto
qed

text \<open>Inserting into a list that is not frozen, marked nodes included: the code is 0 exactly
  when the key is in the content or the value is the tombstone, and then the content stays;
  otherwise it is 1 and the content gains the pair at its place. The invariant is kept and no
  node becomes marked.\<close>

theorem ll_insert_correct:
  assumes "ll_inv False l ns" and "key < key_max"
  shows "\<exists>l' ns'. ll_insert key val l =
      Inr (if key \<in> fst ` set (ll_abs ns) \<or> val = tombstone then 0 else 1, l')
    \<and> ll_inv False l' ns'
    \<and> ll_abs ns' = (if key \<in> fst ` set (ll_abs ns) \<or> val = tombstone then ll_abs ns
                    else kv_insert key val (ll_abs ns))
    \<and> {n \<in> set ns'. ln_marked n} \<subseteq> {n \<in> set ns. ln_marked n}"
  using ll_insert_spec [OF assms, of val] unfolding ll_post_iff by blast

theorem ll_insert_correct_witness:
  "\<exists>l' ns'. ll_insert 5 50 ll_example = Inr (1, l') \<and> ll_abs ns' = [(5, 50), (7, 70)]
    \<and> ll_inv False l' ns'"
  using ll_insert_correct [OF ll_example_inv, of 5 50] unfolding ll_example_abs
  by (simp add: kv_insert_def) blast

text \<open>Removing from a list that is not frozen, marked nodes included: -2 and an unchanged
  content when the key is absent (also when only a marked node has it); otherwise the removed
  value cut to 32 bits, and the content without the key.\<close>

theorem ll_remove_correct:
  assumes "ll_inv False l ns" and "key < key_max"
  shows "\<exists>l' ns'. ll_remove key l =
      Inr (case map_of (ll_abs ns) key of None \<Rightarrow> - 2 | Some v \<Rightarrow> to_int32 v, l')
    \<and> ll_inv False l' ns' \<and> ll_abs ns' = kv_delete key (ll_abs ns)
    \<and> {n \<in> set ns'. ln_marked n} \<subseteq> {n \<in> set ns. ln_marked n}"
proof (cases "key \<in> fst ` set (ll_abs ns)")
  case True
  then show ?thesis
    using ll_remove_present [OF assms(1), of key] unfolding ll_post_iff by fastforce
next
  case False
  then have "map_of (ll_abs ns) key = None" by (simp add: map_of_eq_None_iff)
  then show ?thesis
    using False ll_remove_absent [OF assms] kv_delete_absent [of key "ll_abs ns"]
    unfolding ll_post_iff by fastforce
qed

theorem ll_remove_correct_witness:
  "\<exists>l' ns'. ll_remove 7 ll_example = Inr (70, l') \<and> ll_abs ns' = [] \<and> ll_inv False l' ns'"
  using ll_remove_correct [OF ll_example_inv, of 7] unfolding ll_example_abs
  by (simp add: kv_delete_def to_int32_def) blast

text \<open>Collect returns and freezes every word, so the list rejects later updates; it tests the
  mark of the word it follows instead of the mark of the node it reaches, so what it gathers is,
  for every node and the tail, the pair of that node unless the node before it is marked (the
  last pair gathered is dropped). With no marked node that is the content.\<close>

theorem ll_collect_correct:
  assumes "ll_inv f l ns"
  shows "\<exists>t vt l'. ll_collect l =
      (let g = gather False (ns @ [(t, key_max, vt, False)])
       in if g = [] then Inl EmptyPop else Inr (butlast g, l'))
    \<and> ll_inv True l' ns
    \<and> (\<forall>key val. ll_insert key val l' = Inr (- 1, l') \<and> ll_remove key l' = Inr (- 1, l'))
    \<and> ((\<forall>n \<in> set ns. \<not> ln_marked n) \<longrightarrow> ll_collect l = Inr (ll_abs ns, l'))"
proof -
  obtain t vt l' where c: "ll_collect l =
      (let g = gather False (ns @ [(t, key_max, vt, False)])
       in if g = [] then Inl EmptyPop else Inr (butlast g, l'))" "ll_inv True l' ns"
    using ll_collect_spec [OF assms] by blast
  have "ll_collect l = Inr (ll_abs ns, l')" if "\<forall>n \<in> set ns. \<not> ln_marked n"
    using c(1) gather_unmarked [OF that] that
    by (simp add: ll_abs_def butlast_append filter_True)
  then show ?thesis using c ll_inv_insert_frozen [OF c(2)] ll_inv_remove_frozen [OF c(2)] by blast
qed

theorem ll_collect_correct_witness:
  "\<exists>l'. ll_collect ll_example = Inr ([(3, 30)], l')"
  using ll_collect_correct [OF ll_example_inv] by (auto simp: Let_def)

text \<open>The sentinels are visible to callers: key 0 is always reported as found, and removing the
  greatest key on an empty list unlinks the upper sentinel, after which any search for a key
  above 0 follows a null pointer.\<close>

theorem ll_sentinels_exposed:
  "ll_search 0 (Linked_List_new c0) = Inr True
   \<and> (\<exists>l'. ll_remove key_max (Linked_List_new c0) = Inr (0, l')
        \<and> (\<forall>key. ll_search key l' = (if key = 0 then Inr True else Inl NullDeref)))"
proof -
  have "ll_search 0 (Linked_List_new c0) = Inr True" by (rule ll_search_zero [OF ll_inv_new])
  moreover have "\<exists>l'. ll_remove key_max (Linked_List_new c0) = Inr (0, l')
        \<and> (\<forall>key. ll_search key l' = (if key = 0 then Inr True else Inl NullDeref))"
    by (simp add: ll_remove_def Linked_List_new_def ll_access_defs numeral_eq_Suc ll_remove_loop.simps
        ll_find.simps ll_find_inner.simps ll_search_def ll_search_loop.simps tp_defs to_int32_def
        word_neq_0_conv)
  ultimately show ?thesis by blast
qed

end
