(* ===== verification/Search.thy ===== *)
theory Search
  imports Prelude
begin

text \<open>
  Searches in a sorted array: \<open>binary_search_branchless\<close> and \<open>bsr\<close> of \<open>common/util.h\<close>, and the
  library's \<open>std::lower_bound\<close> as the sources call it.

  The reference is the number of leading entries below the key. The locale \<open>lower_bound_search\<close>
  states what a caller relies on: the index lies in the array or at its end, what is before it
  is smaller and what is at or after it is not; both searches interpret it on sorted arrays.
\<close>

section \<open>std::lower\_bound\<close>

text \<open>\<open>std::lower_bound(a.begin(), a.begin() + count, key) - a.begin()\<close>; forming an iterator past the
  end of the vector is an error.\<close>

definition lb :: "'a::linorder list \<Rightarrow> 'a \<Rightarrow> nat" where
  "lb xs key = length (takeWhile (\<lambda>k. k < key) xs)"

definition std_lower_bound :: "'a::linorder list \<Rightarrow> int \<Rightarrow> 'a \<Rightarrow> nat res" where
  "std_lower_bound a count key =
     (if 0 \<le> count \<and> nat count \<le> length a then Inr (lb (take (nat count) a) key)
      else Inl OutOfRange)"

lemma lb_le: "lb xs key \<le> length xs"
  by (simp add: lb_def length_takeWhile_le)

lemma lb_less: "sorted xs \<Longrightarrow> i < lb xs key \<Longrightarrow> xs ! i < key"
  unfolding lb_def by (rule sorted_takeWhile_less_nth(2))

lemma lb_ge: "sorted xs \<Longrightarrow> lb xs key \<le> i \<Longrightarrow> i < length xs \<Longrightarrow> key \<le> xs ! i"
  unfolding lb_def by (rule sorted_takeWhile_less_nth(3))

lemma lb_eqI:
  assumes "sorted xs" and "n \<le> length xs" and "0 < n \<Longrightarrow> xs ! (n - 1) < key"
    and "n < length xs \<Longrightarrow> key \<le> xs ! n"
  shows "lb xs key = n"
  unfolding lb_def
proof (rule takeWhile_less_length_eqI [OF assms(2)])
  fix i assume "i < n"
  then have "xs ! i \<le> xs ! (n - 1)" using assms(1,2) by (intro sorted_nth_mono) auto
  then show "xs ! i < key" using assms(3) \<open>i < n\<close> by (simp add: order_le_less_trans)
qed (use assms(4) in \<open>simp add: not_less\<close>)

lemma std_lower_bound_Inr [simp]:
  "0 \<le> count \<Longrightarrow> nat count \<le> length a \<Longrightarrow> std_lower_bound a count key = Inr (lb (take (nat count) a) key)"
  by (simp add: std_lower_bound_def)

section \<open>binary\_search\_branchless\<close>

text \<open>\<open>31 - __builtin_clz(x)\<close>: the index of the highest set bit of \<open>x > 0\<close>.\<close>

fun bsr :: "nat \<Rightarrow> nat" where
  "bsr x = (if x < 2 then 0 else Suc (bsr (x div 2)))"

declare bsr.simps [simp del]

function bsb_loop :: "'a::linorder list \<Rightarrow> 'a \<Rightarrow> nat \<Rightarrow> int \<Rightarrow> int res" where
  "bsb_loop arr key step pos =
     (if 0 < step
      then bind_res (nth_int arr (pos + int step)) (\<lambda>x.
             bsb_loop arr key (step div 2) (if x < key then pos + int step else pos))
      else Inr pos)"
  by pat_completeness auto
termination by (relation "measure (\<lambda>(_, _, step, _). step)") auto

declare bsb_loop.simps [simp del]

definition binary_search_branchless :: "'a::linorder list \<Rightarrow> nat \<Rightarrow> 'a \<Rightarrow> nat res" where
  "binary_search_branchless arr n key =
     (if n = 0 then Inr 0
      else if n = 1 then bind_res (nth_res arr 0) (\<lambda>x. Inr (if key \<le> x then 0 else 1))
      else
        let step = 2 ^ bsr (n - 1) in
        bind_res (nth_int arr (- 1 + int n - int step)) (\<lambda>x.
        bind_res (bsb_loop arr key (step div 2)
                    (if x < key then - 1 + int n - int step else - 1)) (\<lambda>pos.
        bind_res (nth_int arr (pos + 1)) (\<lambda>y.
          Inr (if key \<le> y then nat (pos + 1) else n)))))"

lemma bsr_bounds: "0 < x \<Longrightarrow> 2 ^ bsr x \<le> x \<and> x < 2 * 2 ^ bsr x"
proof (induction x rule: bsr.induct)
  case (1 x)
  show ?case
  proof (cases "x < 2")
    case True
    with 1 show ?thesis by (simp add: bsr.simps)
  next
    case False
    with 1 have "2 ^ bsr (x div 2) \<le> x div 2 \<and> x div 2 < 2 * 2 ^ bsr (x div 2)" by simp
    then show ?thesis using False by (auto simp: bsr.simps [of x])
  qed
qed

text \<open>The window of the loop: \<open>w\<close> candidates are left, and the last of them only if it is the end of
  the array.\<close>

lemma bsb_loop_spec:
  assumes "sorted xs" and "- 1 \<le> pos" and "pos + 1 \<le> int (lb xs key)"
    and "pos + 1 + 2 ^ w \<le> int (length xs)"
    and "int (lb xs key) < pos + 1 + 2 ^ w \<or> pos + 1 + 2 ^ w = int (length xs)"
  shows "\<exists>p. bsb_loop xs key (2 ^ w div 2) pos = Inr p \<and> - 1 \<le> p \<and> p + 1 < int (length xs)
    \<and> (p + 1 = int (lb xs key) \<or> lb xs key = length xs \<and> p + 2 = int (length xs))"
  using assms
proof (induction w arbitrary: pos)
  case 0
  then show ?case using lb_le [of xs key] by (auto simp: bsb_loop.simps)
next
  case (Suc w)
  let ?s = "2 ^ w :: int"
  have "0 < ?s" "(2 :: int) ^ Suc w = 2 * ?s" by simp_all
  then have idx: "0 \<le> pos + ?s" "pos + ?s < int (length xs)" using Suc.prems(2,4) by linarith+
  have half: "2 ^ Suc w div 2 = (2 ^ w :: nat)" by simp
  have run: "bsb_loop xs key (2 ^ Suc w div 2) pos =
      bsb_loop xs key (2 ^ w div 2) (if xs ! nat (pos + ?s) < key then pos + ?s else pos)"
    unfolding half using idx by (subst bsb_loop.simps) (simp add: nth_int_def nat_less_iff)
  show ?case
  proof (cases "xs ! nat (pos + ?s) < key")
    case True
    then have "\<not> lb xs key \<le> nat (pos + ?s)"
      using lb_ge [OF \<open>sorted xs\<close>, of key "nat (pos + ?s)"] idx by (auto simp: nat_less_iff not_less)
    then have "pos + ?s + 1 \<le> int (lb xs key)" using idx by linarith
    then show ?thesis
      unfolding run using True Suc.prems idx
      by (simp del: power_Suc, intro Suc.IH) (auto simp: algebra_simps)
  next
    case False
    then have "lb xs key \<le> nat (pos + ?s)"
      using lb_less [OF \<open>sorted xs\<close>, of "nat (pos + ?s)" key] by (meson not_less)
    then have "int (lb xs key) < pos + 1 + ?s" using idx by linarith
    moreover have "pos + 1 + ?s \<le> int (length xs)" using idx by linarith
    ultimately show ?thesis
      unfolding run using False Suc.prems(1-3) Suc.IH [of pos] by simp
  qed
qed

lemma binary_search_branchless_lb:
  assumes srt: "sorted xs"
  shows "binary_search_branchless xs (length xs) key = Inr (lb xs key)"
proof -
  consider "xs = []" | x where "xs = [x]" | "2 \<le> length xs"
    by (cases xs; cases "tl xs") (auto simp: Suc_le_eq)
  then show ?thesis
  proof cases
    case 3
    define n where "n = length xs"
    define k where "k = bsr (n - 1)"
    have k: "2 ^ k \<le> n - 1" "n - 1 < 2 * 2 ^ k" using bsr_bounds [of "n - 1"] 3
      by (simp_all add: k_def n_def)
    let ?q = "- 1 + int n - 2 ^ k"
    have k': "2 ^ k \<le> int n - 1" "int n - 1 < 2 * 2 ^ k"
    proof -
      have "int (2 ^ k) \<le> int (n - 1)" "int (n - 1) < int (2 * 2 ^ k)"
        using k by (simp_all only: of_nat_le_iff of_nat_less_iff)
      then show "2 ^ k \<le> int n - 1" "int n - 1 < 2 * 2 ^ k" using 3 by (simp_all add: n_def of_nat_diff)
    qed
    have q: "0 \<le> ?q" "?q < int n" using k' zero_less_power [of "2 :: int" k] by linarith+
    let ?p = "if xs ! nat ?q < key then ?q else - 1"
    have inv: "- 1 \<le> ?p \<and> ?p + 1 \<le> int (lb xs key) \<and> ?p + 1 + 2 ^ k \<le> int (length xs)
      \<and> (int (lb xs key) < ?p + 1 + 2 ^ k \<or> ?p + 1 + 2 ^ k = int (length xs))"
    proof (cases "xs ! nat ?q < key")
      case True
      then have "\<not> lb xs key \<le> nat ?q"
        using lb_ge [OF srt, of key "nat ?q"] q by (auto simp: n_def nat_less_iff not_less)
      then have "?q + 1 \<le> int (lb xs key)" using q by linarith
      then show ?thesis using True q by (simp add: n_def)
    next
      case False
      then have "lb xs key \<le> nat ?q"
        using lb_less [OF srt, of "nat ?q" key] by (meson not_less)
      then have "int (lb xs key) < 2 ^ k" using q k' by linarith
      then show ?thesis using False k' by (simp add: n_def)
    qed
    then obtain p where p: "bsb_loop xs key (2 ^ k div 2) ?p = Inr p" "- 1 \<le> p"
        "p + 1 < int (length xs)"
        "p + 1 = int (lb xs key) \<or> lb xs key = length xs \<and> p + 2 = int (length xs)"
      using bsb_loop_spec [OF srt, of ?p key k] by blast
    have "key \<le> xs ! nat (p + 1)" if "p + 1 = int (lb xs key)"
      using that p(3) by (intro lb_ge [OF srt]) auto
    moreover have "xs ! nat (p + 1) < key" if "lb xs key = length xs"
      using that p(2,3) by (intro lb_less [OF srt]) (auto simp: nat_less_iff)
    ultimately have last: "(if key \<le> xs ! nat (p + 1) then nat (p + 1) else length xs) = lb xs key"
      using p(4) by auto
    have "nth_int xs ?q = Inr (xs ! nat ?q)" using q by (intro nth_int_Inr) (simp_all only: n_def)
    moreover have "nth_int xs (p + 1) = Inr (xs ! nat (p + 1))"
      using p by (simp add: nth_int_def nat_less_iff)
    moreover have "binary_search_branchless xs n key =
        bind_res (nth_int xs ?q) (\<lambda>x.
        bind_res (bsb_loop xs key (2 ^ k div 2) (if x < key then ?q else - 1)) (\<lambda>pos.
        bind_res (nth_int xs (pos + 1)) (\<lambda>y. Inr (if key \<le> y then nat (pos + 1) else n))))"
    proof -
      have "n \<noteq> 0" "n \<noteq> 1" "int (2 ^ k) = 2 ^ k" using 3 by (auto simp: n_def)
      then show ?thesis
        unfolding binary_search_branchless_def Let_def k_def [symmetric] by (simp only: if_False)
    qed
    ultimately show ?thesis
      using p(1) last unfolding n_def by (simp only: bind_res_simps)
  qed (auto simp: binary_search_branchless_def lb_def)
qed

section \<open>The contract of a lower-bound search\<close>

locale lower_bound_search =
  fixes search :: "'a::linorder list \<Rightarrow> 'a \<Rightarrow> nat res"
  assumes search_lb: "sorted xs \<Longrightarrow> search xs key = Inr (lb xs key)"
begin

lemma search_total: "sorted xs \<Longrightarrow> \<exists>i \<le> length xs. search xs key = Inr i"
  using search_lb lb_le by blast

lemma search_split:
  "sorted xs \<Longrightarrow> search xs key = Inr i \<Longrightarrow>
    (\<forall>j < i. xs ! j < key) \<and> (\<forall>j. i \<le> j \<and> j < length xs \<longrightarrow> key \<le> xs ! j)"
  using search_lb lb_less lb_ge by fastforce

lemma search_finds:
  assumes "sorted xs" and "key \<in> set xs"
  shows "\<exists>i < length xs. search xs key = Inr i \<and> xs ! i = key"
proof -
  obtain j where j: "j < length xs" "xs ! j = key" using assms(2) by (auto simp: in_set_conv_nth)
  have "lb xs key \<le> j" using lb_less [OF assms(1), of j key] j(2) by (meson less_irrefl not_less)
  moreover have "xs ! lb xs key \<le> xs ! j" using assms(1) calculation j(1) by (rule sorted_nth_mono)
  moreover have "key \<le> xs ! lb xs key" using lb_ge [OF assms(1)] calculation(1) j(1) by simp
  ultimately show ?thesis using search_lb [OF assms(1)] j by (intro exI [of _ "lb xs key"]) auto
qed

end

interpretation std_lb: lower_bound_search "\<lambda>xs. std_lower_bound xs (int (length xs))"
  by unfold_locales simp

interpretation bsb: lower_bound_search "\<lambda>xs. binary_search_branchless xs (length xs)"
  by unfold_locales (rule binary_search_branchless_lb)

section \<open>Correctness\<close>

section \<open>Routing by the last key of a part\<close>

lemma ssorted_concat_parts: "ssorted (concat xss) \<Longrightarrow> xs \<in> set xss \<Longrightarrow> ssorted xs"
  by (induction xss) (auto simp: sorted_wrt_append)

lemma ssorted_map_last:
  assumes "ssorted (concat xss)" and "[] \<notin> set xss"
  shows "ssorted (map last xss)"
  using assms
proof (induction xss)
  case (Cons xs xss)
  have "last xs < last ys" if "ys \<in> set xss" for ys
  proof -
    have "ys \<noteq> []" using that Cons.prems(2) by auto
    then have "last ys \<in> set (concat xss)" using that by (auto intro: bexI [of _ ys])
    moreover have "last xs \<in> set xs" using Cons.prems(2) by auto
    ultimately show ?thesis using Cons.prems(1) by (auto simp: sorted_wrt_append)
  qed
  then show ?case using Cons by (simp add: sorted_wrt_append)
qed simp

text \<open>A key of one of the parts is routed to its part.\<close>

lemma lb_last_parts:
  assumes srt: "ssorted (concat xss)" and ne: "[] \<notin> set xss" and i: "i < length xss" and key: "key \<in> set (xss ! i)"
  shows "lb (map last xss) key = i"
  using assms
proof (induction xss arbitrary: i)
  case (Cons xs xss)
  have part: "ssorted xs" "ssorted (concat xss)" "\<forall>x \<in> set xs. \<forall>y \<in> set (concat xss). x < y" "[] \<notin> set xss" "xs \<noteq> []"
    using Cons.prems by (auto simp add: sorted_wrt_append)
  show ?case
  proof (cases i)
    case 0
    then obtain j where j: "j < length xs" "xs ! j = key" using Cons.prems(4) by (auto simp: in_set_conv_nth)
    have "\<not> last xs < key"
      using j part(1,5) ssorted_nth_le_iff [OF part(1), of j "length xs - 1"] by (simp add: last_conv_nth not_less)
    then show ?thesis using 0 by (simp add: lb_def)
  next
    case (Suc i')
    then have "key \<in> set (concat xss)" using Cons.prems(3,4) by (auto intro!: bexI [of _ "xss ! i'"])
    then have "last xs < key" using part(3,5) last_in_set by blast
    moreover have "lb (map last xss) key = i'" using Suc Cons.prems part by (intro Cons.IH) auto
    ultimately show ?thesis using Suc by (simp add: lb_def)
  qed
qed simp

text \<open>Position \<open>j\<close> of a concatenation lies in one part, the same one in two concatenations of parts of
  equal lengths.\<close>

lemma nth_concat_parts:
  assumes "map length xss = map length yss" and "j < length (concat xss)"
  shows "\<exists>i r. i < length xss \<and> r < length (xss ! i) \<and> concat xss ! j = xss ! i ! r \<and> concat yss ! j = yss ! i ! r"
  using assms
proof (induction xss arbitrary: yss j)
  case (Cons xs xss)
  then obtain ys yss' where yss: "yss = ys # yss'" "length ys = length xs" "map length yss' = map length xss" by auto
  show ?case
  proof (cases "j < length xs")
    case True
    then show ?thesis using yss by (intro exI [of _ 0] exI [of _ j]) (simp add: nth_append)
  next
    case False
    then have "j - length xs < length (concat xss)" using Cons.prems(2) by auto
    then obtain i r where "i < length xss" "r < length (xss ! i)"
        "concat xss ! (j - length xs) = xss ! i ! r" "concat yss' ! (j - length xs) = yss' ! i ! r"
      using Cons.IH [of yss' "j - length xs"] yss(3) by auto
    then show ?thesis using False yss by (intro exI [of _ "Suc i"] exI [of _ r]) (simp add: nth_append)
  qed
qed simp

text \<open>On a sorted array, the branchless binary search never reads outside the array and returns
  the same index as std::lower_bound: every entry before it is below the key and no entry from
  it on is; a key of the array is found at that index.\<close>

theorem branchless_search_correct:
  assumes "sorted (xs :: key_t list)"
  shows "\<exists>i. binary_search_branchless xs (length xs) key = Inr i
    \<and> std_lower_bound xs (int (length xs)) key = Inr i \<and> i \<le> length xs
    \<and> (\<forall>j < i. xs ! j < key) \<and> (\<forall>j < length xs. i \<le> j \<longrightarrow> key \<le> xs ! j)
    \<and> (key \<in> set xs \<longrightarrow> i < length xs \<and> xs ! i = key)"
proof -
  obtain i where i: "i \<le> length xs" "binary_search_branchless xs (length xs) key = Inr i"
    using bsb.search_total [OF assms] by blast
  moreover have "std_lower_bound xs (int (length xs)) key = Inr i"
    using i(2) bsb.search_lb [OF assms] std_lb.search_lb [OF assms] by simp
  moreover have "key \<in> set xs \<longrightarrow> i < length xs \<and> xs ! i = key"
    using bsb.search_finds [OF assms, of key] i(2) by auto
  ultimately show ?thesis using bsb.search_split [OF assms i(2)] by blast
qed

theorem branchless_search_correct_witness:
  "binary_search_branchless [2, 5, 9, 12, 40 :: key_t] (length [2, 5, 9, 12, 40 :: key_t]) 12 = Inr 3"
proof -
  have srt: "sorted [2, 5, 9, 12, 40 :: key_t]" by simp
  obtain i where i: "binary_search_branchless [2, 5, 9, 12, 40 :: key_t] (length [2, 5, 9, 12, 40 :: key_t]) 12 = Inr i"
    "12 \<in> set [2, 5, 9, 12, 40 :: key_t] \<longrightarrow>
      i < length [2, 5, 9, 12, 40 :: key_t] \<and> [2, 5, 9, 12, 40 :: key_t] ! i = 12"
    using branchless_search_correct [OF srt, of 12] by (elim exE conjE)
  then have "i < 5" "[2, 5, 9, 12, 40 :: key_t] ! i = 12" by simp_all
  moreover from \<open>i < 5\<close> have "i = 0 \<or> i = 1 \<or> i = 2 \<or> i = 3 \<or> i = 4" by linarith
  ultimately have "i = 3" by auto
  with i show ?thesis by simp
qed

end
