(* ===== verification/Bin.thy ===== *)
theory Bin
  imports LF_LL Search
begin

text \<open>
  The bin of a Kanva model: \<open>Kanva_impl/Bin_LL/Bin.h\<close> with its node classes (\<open>Node.h\<close>,
  \<open>Leaf_Node.h\<close>, \<open>Root_Node.h\<close>).

  A bin is a two-level tree: its root is a leaf (one list) or an internal node with up to
  \<open>root_max\<close> separators and a leaf per gap. A full leaf is collected, which freezes it, and split
  in two; when the root is full, the root word is marked and the bin accepts no more updates.
  Nodes live in a store of the bin, because a new root shares its leaves with the old one; the
  root is a tagged pointer. Fields the constructors leave uninitialised take their value from
  the argument \<open>u\<close>, the content of fresh memory.

  \<open>bin_rep\<close> relates a bin to its view, the separators and the leaves' counts and contents;
  \<open>v_insert\<close> is the bin's insertion on views. The lemmas show that every operation on a bin is
  the operation on its view, and what the view's operations do to the keys a search can see.
\<close>

section \<open>Nodes\<close>

definition child_max :: int where "child_max = 32"

definition root_max :: nat where "root_max = 32"

record leaf_node =
  lf_count :: int
  lf_list :: Linked_List

record Internal_Node =
  in_count :: int
  in_key :: "key_t list"
  in_ptr :: "addr list"

datatype Node = LeafN leaf_node | InternalN Internal_Node

record Bin =
  bin_root :: tptr
  bin_size :: int
  bin_store :: "addr \<rightharpoonup> Node"
  bin_brk :: addr

definition leaf_node_new :: "int \<Rightarrow> leaf_node" where
  "leaf_node_new c0 = \<lparr>lf_count = c0, lf_list = Linked_List_new (of_int c0)\<rparr>"

definition Internal_Node_new :: "int \<Rightarrow> Internal_Node" where
  "Internal_Node_new c0 =
     \<lparr>in_count = c0, in_key = replicate root_max 0, in_ptr = replicate (root_max + 1) 0\<rparr>"

definition bin_alloc :: "Node \<Rightarrow> Bin \<Rightarrow> addr \<times> Bin" where
  "bin_alloc nd b =
     (bin_brk b, b\<lparr>bin_store := (bin_store b)(bin_brk b \<mapsto> nd), bin_brk := Suc (bin_brk b)\<rparr>)"

definition bin_load :: "Bin \<Rightarrow> addr \<Rightarrow> Node res" where
  "bin_load b a = (case bin_store b a of None \<Rightarrow> Inl NullDeref | Some nd \<Rightarrow> Inr nd)"

text \<open>A load through a pointer cast to one of the node classes.\<close>

definition load_leaf :: "Bin \<Rightarrow> addr \<Rightarrow> leaf_node res" where
  "load_leaf b a = (case bin_store b a of Some (LeafN lf) \<Rightarrow> Inr lf | _ \<Rightarrow> Inl NullDeref)"

definition load_internal :: "Bin \<Rightarrow> addr \<Rightarrow> Internal_Node res" where
  "load_internal b a = (case bin_store b a of Some (InternalN nd) \<Rightarrow> Inr nd | _ \<Rightarrow> Inl NullDeref)"

definition store_leaf :: "addr \<Rightarrow> leaf_node \<Rightarrow> Bin \<Rightarrow> Bin" where
  "store_leaf a lf b = b\<lparr>bin_store := (bin_store b)(a \<mapsto> LeafN lf)\<rparr>"

definition Bin_new :: "(addr \<Rightarrow> int) \<Rightarrow> Bin" where
  "Bin_new u =
     (let b0 = \<lparr>bin_root = null_ptr, bin_size = 0, bin_store = Map.empty, bin_brk = 1\<rparr>;
          (a, b1) = bin_alloc (LeafN (leaf_node_new (u (bin_brk b0)))) b0
      in b1\<lparr>bin_root := clean a\<rparr>)"

section \<open>Search and collect\<close>

definition bin_search :: "key_t \<Rightarrow> Bin \<Rightarrow> val_t res" where
  "bin_search key b =
     (let curr_root = tp_unset_mark (bin_root b) in
      if \<not> tp_true curr_root then Inr 0
      else
        bind_res (bin_load b (tp_addr curr_root)) (\<lambda>nd.
          case nd of
            LeafN lf \<Rightarrow> bind_res (ll_search key (lf_list lf)) (\<lambda>r. Inr (if r then 1 else 0))
          | InternalN node \<Rightarrow>
              bind_res (std_lower_bound (in_key node) (in_count node) key) (\<lambda>ptr_idx.
              bind_res (nth_res (in_ptr node) ptr_idx) (\<lambda>a.
              bind_res (load_leaf b a) (\<lambda>lf.
              bind_res (ll_search key (lf_list lf)) (\<lambda>r. Inr (if r then 1 else 0)))))))"

text \<open>Collecting one leaf appends its pairs to the vectors; the keys and the values vector always
  grow together and are one list of pairs here.\<close>

definition collect_leaf ::
    "addr \<Rightarrow> Bin \<Rightarrow> (key_t \<times> val_t) list \<Rightarrow> ((key_t \<times> val_t) list \<times> Bin) res" where
  "collect_leaf a b acc =
     bind_res (load_leaf b a) (\<lambda>lf.
     bind_res (ll_collect (lf_list lf)) (\<lambda>(kvs, l').
       Inr (acc @ kvs, store_leaf a (lf\<lparr>lf_list := l'\<rparr>) b)))"

fun collect_children ::
    "addr list \<Rightarrow> Bin \<Rightarrow> (key_t \<times> val_t) list \<Rightarrow> ((key_t \<times> val_t) list \<times> Bin) res" where
  "collect_children [] b acc = Inr (acc, b)"
| "collect_children (a # as) b acc =
     bind_res (collect_leaf a b acc) (\<lambda>(acc', b'). collect_children as b' acc')"

definition bin_collect :: "Bin \<Rightarrow> ((key_t \<times> val_t) list \<times> Bin) res" where
  "bin_collect b =
     (let curr_root = tp_unset_mark (bin_root b) in
      bind_res (bin_load b (tp_addr curr_root)) (\<lambda>nd.
        case nd of
          LeafN lf \<Rightarrow> collect_leaf (tp_addr curr_root) b []
        | InternalN node \<Rightarrow>
            if int (length (in_ptr node)) < in_count node + 1 then Inl OutOfRange
            else collect_children (take (nat (in_count node + 1)) (in_ptr node)) b []))"

section \<open>Splitting\<close>

text \<open>The loops of \<open>split_root\<close> link the pairs one after the other behind \<open>cur\<close>; every new node
  points to the upper sentinel \<open>last_node\<close>.\<close>

fun ll_fill :: "(key_t \<times> val_t) list \<Rightarrow> addr \<Rightarrow> tptr \<Rightarrow> Linked_List \<Rightarrow> Linked_List res" where
  "ll_fill [] cur last_node l = Inr l"
| "ll_fill ((k, v) # kvs) cur last_node l =
     (let (new_node, l1) = ll_alloc (ll_Node_new k v last_node) l in
      bind_res (ll_store_next l1 cur (clean new_node)) (\<lambda>l2. ll_fill kvs new_node last_node l2))"

definition filled_leaf :: "int \<Rightarrow> (key_t \<times> val_t) list \<Rightarrow> leaf_node res" where
  "filled_leaf c0 kvs =
     (let lf = leaf_node_new c0; l = lf_list lf in
      bind_res (ll_load l (ll_head l)) (\<lambda>hd.
      bind_res (ll_fill kvs (ll_head l) (ll_next hd) l) (\<lambda>l'.
        Inr (lf\<lparr>lf_count := int (length kvs), lf_list := l'\<rparr>))))"

definition split_root ::
    "(addr \<Rightarrow> int) \<Rightarrow> (key_t \<times> val_t) list \<Rightarrow> Bin \<Rightarrow> (addr \<times> Bin) res" where
  "split_root u kvs b =
     (let left_count = length kvs div 2 in
      bind_res (filled_leaf (u (bin_brk b)) (take left_count kvs)) (\<lambda>left.
      let (left_child, b1) = bin_alloc (LeafN left) b in
      bind_res (filled_leaf (u (bin_brk b1)) (drop left_count kvs)) (\<lambda>right.
      let (right_child, b2) = bin_alloc (LeafN right) b1 in
      bind_res (nth_res kvs left_count) (\<lambda>(k, _).
      let nr = Internal_Node_new (u (bin_brk b2));
          nr' = nr\<lparr>in_count := 1, in_key := (in_key nr)[0 := k],
                   in_ptr := (in_ptr nr)[0 := left_child, 1 := right_child]\<rparr> in
      Inr (bin_alloc (InternalN nr') b2)))))"

section \<open>Insertion\<close>

text \<open>The two copy loops of the new root: the entries before the split child, and the entries after
  it, shifted by one.\<close>

function copy_below :: "nat \<Rightarrow> nat \<Rightarrow> Internal_Node \<Rightarrow> Internal_Node \<Rightarrow> Internal_Node res" where
  "copy_below i ptr_idx cur nw =
     (if i < ptr_idx then
        bind_res (nth_res (in_key cur) i) (\<lambda>k.
        bind_res (upd_res (in_key nw) i k) (\<lambda>ks.
        bind_res (nth_res (in_ptr cur) i) (\<lambda>p.
        bind_res (upd_res (in_ptr nw) i p) (\<lambda>ps.
          copy_below (Suc i) ptr_idx cur (nw\<lparr>in_key := ks, in_ptr := ps\<rparr>)))))
      else Inr nw)"
  by pat_completeness auto
termination by (relation "measure (\<lambda>(i, n, _, _). n - i)") auto

function copy_above :: "nat \<Rightarrow> Internal_Node \<Rightarrow> Internal_Node \<Rightarrow> Internal_Node res" where
  "copy_above i cur nw =
     (if int i \<le> in_count cur then
        bind_res (nth_res (in_key cur) (i - 1)) (\<lambda>k.
        bind_res (upd_res (in_key nw) i k) (\<lambda>ks.
        bind_res (nth_res (in_ptr cur) i) (\<lambda>p.
        bind_res (upd_res (in_ptr nw) (i + 1) p) (\<lambda>ps.
          copy_above (Suc i) cur (nw\<lparr>in_key := ks, in_ptr := ps\<rparr>)))))
      else Inr nw)"
  by pat_completeness auto
termination by (relation "measure (\<lambda>(i, cur, _). nat (in_count cur + 1) - i)") auto

declare copy_below.simps [simp del] copy_above.simps [simp del]

text \<open>Collect and split the leaf at \<open>ptr_idx\<close> and build the new root.\<close>

definition split_child ::
    "(addr \<Rightarrow> int) \<Rightarrow> addr \<Rightarrow> nat \<Rightarrow> Internal_Node \<Rightarrow> Bin \<Rightarrow> (tptr \<times> Bin) res" where
  "split_child u current_child ptr_idx current_root b =
     bind_res (collect_leaf current_child b []) (\<lambda>(kvs, b1).
     bind_res (split_root u kvs b1) (\<lambda>(ra, b2).
     bind_res (load_internal b2 ra) (\<lambda>new_root.
     bind_res (copy_below 0 ptr_idx current_root (Internal_Node_new (u (bin_brk b2)))) (\<lambda>n1.
     bind_res (nth_res (in_key new_root) 0) (\<lambda>k.
     bind_res (upd_res (in_key n1) ptr_idx k) (\<lambda>ks.
     bind_res (nth_res (in_ptr new_root) 0) (\<lambda>p0.
     bind_res (upd_res (in_ptr n1) ptr_idx p0) (\<lambda>ps.
     bind_res (nth_res (in_ptr new_root) 1) (\<lambda>p1.
     bind_res (upd_res ps (ptr_idx + 1) p1) (\<lambda>ps'.
     bind_res (copy_above (ptr_idx + 1) current_root (n1\<lparr>in_key := ks, in_ptr := ps'\<rparr>)) (\<lambda>n2.
     let (a, b3) = bin_alloc (InternalN (n2\<lparr>in_count := in_count current_root + 1\<rparr>)) b2 in
     Inr (clean a, b3))))))))))))"

text \<open>\<open>insert_leaf\<close>. The list's code is stored in a \<open>bool\<close>, so the comparison with -1 compares 0 or
  1 with -1.\<close>

definition insert_leaf ::
    "(addr \<Rightarrow> int) \<Rightarrow> key_t \<Rightarrow> val_t \<Rightarrow> addr \<Rightarrow> Bin \<Rightarrow> (tptr \<times> Bin) res" where
  "insert_leaf u key val current_child b =
     bind_res (load_leaf b current_child) (\<lambda>lf.
       if lf_count lf < child_max then
         bind_res (ll_insert key val (lf_list lf)) (\<lambda>(r, l').
         let res = (if r \<noteq> 0 then 1 else 0 :: int);
             b1 = store_leaf current_child (lf\<lparr>lf_list := l'\<rparr>) b in
         if res = - 1 then
           bind_res (collect_leaf current_child b1 []) (\<lambda>(kvs, b2).
           bind_res (split_root u kvs b2) (\<lambda>(ra, b3). Inr (clean ra, b3)))
         else if res = 1 then
           Inr (null_ptr, store_leaf current_child (lf\<lparr>lf_list := l', lf_count := lf_count lf + 1\<rparr>) b)
         else Inr (null_ptr, b1))
       else
         bind_res (collect_leaf current_child b []) (\<lambda>(kvs, b2).
         bind_res (split_root u kvs b2) (\<lambda>(ra, b3). Inr (clean ra, b3))))"

definition insert_internal ::
    "(addr \<Rightarrow> int) \<Rightarrow> key_t \<Rightarrow> val_t \<Rightarrow> addr \<Rightarrow> Bin \<Rightarrow> (tptr \<times> Bin) res" where
  "insert_internal u key val root_addr b =
     bind_res (load_internal b root_addr) (\<lambda>current_root.
     bind_res (std_lower_bound (in_key current_root) (in_count current_root) key) (\<lambda>ptr_idx.
     bind_res (nth_res (in_ptr current_root) ptr_idx) (\<lambda>current_child.
     bind_res (load_leaf b current_child) (\<lambda>lf.
       if lf_count lf < child_max then
         bind_res (ll_insert key val (lf_list lf)) (\<lambda>(res, l').
         let b1 = store_leaf current_child (lf\<lparr>lf_list := l'\<rparr>) b in
         if res = - 1 then
           if in_count current_root < int root_max
           then split_child u current_child ptr_idx current_root b1
           else Inr (tp_set_mark (clean root_addr), b1)
         else if res = 1 then
           Inr (null_ptr, store_leaf current_child (lf\<lparr>lf_list := l', lf_count := lf_count lf + 1\<rparr>) b)
         else Inr (null_ptr, b1))
       else if in_count current_root < int root_max
       then split_child u current_child ptr_idx current_root b
       else Inr (tp_set_mark (clean root_addr), b)))))"

text \<open>The compare-exchange of the root word.\<close>

definition cas_root :: "tptr \<Rightarrow> tptr \<Rightarrow> Bin \<Rightarrow> Bin" where
  "cas_root expected desired b = (if bin_root b = expected then b\<lparr>bin_root := desired\<rparr> else b)"

fun bin_insert_loop ::
    "nat \<Rightarrow> (addr \<Rightarrow> int) \<Rightarrow> key_t \<Rightarrow> val_t \<Rightarrow> Bin \<Rightarrow> (bool \<times> Bin) res" where
  "bin_insert_loop 0 u key val b = Inl OutOfFuel"
| "bin_insert_loop (Suc n) u key val b =
     (let curr_root = bin_root b in
      if tp_mark curr_root then Inr (False, b)
      else
        bind_res (bin_load b (tp_addr curr_root)) (\<lambda>nd.
        bind_res (case nd of LeafN _ \<Rightarrow> insert_leaf u key val (tp_addr curr_root) b
                  | InternalN _ \<Rightarrow> insert_internal u key val (tp_addr curr_root) b) (\<lambda>(new_node, b1).
          if tp_true new_node then bin_insert_loop n u key val (cas_root curr_root new_node b1)
          else Inr (True, b1\<lparr>bin_size := bin_size b1 + 1\<rparr>))))"

text \<open>A retry adds a separator, of which there are at most \<open>root_max\<close>, or marks the root.\<close>

definition bin_insert :: "(addr \<Rightarrow> int) \<Rightarrow> key_t \<Rightarrow> val_t \<Rightarrow> Bin \<Rightarrow> (bool \<times> Bin) res" where
  "bin_insert u key val b = bin_insert_loop (root_max + 3) u key val b"

section \<open>Removal\<close>

definition remove_leaf ::
    "(addr \<Rightarrow> int) \<Rightarrow> key_t \<Rightarrow> addr \<Rightarrow> Bin \<Rightarrow> (tptr \<times> Bin) res" where
  "remove_leaf u key current_child b =
     bind_res (load_leaf b current_child) (\<lambda>lf.
     bind_res (ll_remove key (lf_list lf)) (\<lambda>(r, l').
     let res = (if r \<noteq> 0 then 1 else 0 :: int) in
     if res = - 1 then
       bind_res (collect_leaf current_child (store_leaf current_child (lf\<lparr>lf_list := l'\<rparr>) b) [])
         (\<lambda>(kvs, b2). bind_res (split_root u kvs b2) (\<lambda>(ra, b3). Inr (clean ra, b3)))
     else
       Inr (null_ptr, store_leaf current_child (lf\<lparr>lf_list := l', lf_count := lf_count lf - 1\<rparr>) b)))"

text \<open>The loops of \<open>remove_internal\<close>, which differ from those of \<open>insert_internal\<close>: the keys are
  pushed behind the \<open>root_max\<close> zeros of the new node, and the children after the split one are
  taken one place too low.\<close>

function push_below :: "nat \<Rightarrow> nat \<Rightarrow> Internal_Node \<Rightarrow> Internal_Node \<Rightarrow> Internal_Node res" where
  "push_below i ptr_idx cur nw =
     (if i < ptr_idx then
        bind_res (nth_res (in_key cur) i) (\<lambda>k.
        bind_res (nth_res (in_ptr cur) i) (\<lambda>p.
        bind_res (upd_res (in_ptr nw) i p) (\<lambda>ps.
          push_below (Suc i) ptr_idx cur (nw\<lparr>in_key := in_key nw @ [k], in_ptr := ps\<rparr>))))
      else Inr nw)"
  by pat_completeness auto
termination by (relation "measure (\<lambda>(i, n, _, _). n - i)") auto

function shift_above :: "nat \<Rightarrow> Internal_Node \<Rightarrow> Internal_Node \<Rightarrow> Internal_Node res" where
  "shift_above i cur nw =
     (if int i \<le> in_count cur then
        bind_res (nth_res (in_key cur) (i - 1)) (\<lambda>k.
        bind_res (upd_res (in_key nw) i k) (\<lambda>ks.
        bind_res (nth_res (in_ptr cur) (i - 1)) (\<lambda>p.
        bind_res (upd_res (in_ptr nw) (i + 1) p) (\<lambda>ps.
          shift_above (Suc i) cur (nw\<lparr>in_key := ks, in_ptr := ps\<rparr>)))))
      else Inr nw)"
  by pat_completeness auto
termination by (relation "measure (\<lambda>(i, cur, _). nat (in_count cur + 1) - i)") auto

declare push_below.simps [simp del] shift_above.simps [simp del]

definition remove_internal ::
    "(addr \<Rightarrow> int) \<Rightarrow> key_t \<Rightarrow> addr \<Rightarrow> Bin \<Rightarrow> (tptr \<times> Bin) res" where
  "remove_internal u key root_addr b =
     bind_res (load_internal b root_addr) (\<lambda>current_root.
     bind_res (std_lower_bound (in_key current_root) (in_count current_root) key) (\<lambda>ptr_idx.
     bind_res (nth_res (in_ptr current_root) ptr_idx) (\<lambda>current_child.
     bind_res (load_leaf b current_child) (\<lambda>lf.
     bind_res (ll_remove key (lf_list lf)) (\<lambda>(res, l').
     let b0 = store_leaf current_child (lf\<lparr>lf_list := l'\<rparr>) b in
     if res = - 1 then
       if in_count current_root < int root_max then
         bind_res (collect_leaf current_child b0 []) (\<lambda>(kvs, b1).
         bind_res (split_root u kvs b1) (\<lambda>(ra, b2).
         bind_res (load_internal b2 ra) (\<lambda>new_root.
         bind_res (push_below 0 ptr_idx current_root (Internal_Node_new (u (bin_brk b2)))) (\<lambda>n1.
         bind_res (nth_res (in_key new_root) 0) (\<lambda>k.
         bind_res (nth_res (in_ptr new_root) 0) (\<lambda>p0.
         bind_res (upd_res (in_ptr n1) ptr_idx p0) (\<lambda>ps.
         bind_res (nth_res (in_ptr new_root) 1) (\<lambda>p1.
         bind_res (upd_res ps (ptr_idx + 1) p1) (\<lambda>ps'.
         bind_res (shift_above (ptr_idx + 1) current_root
                     (n1\<lparr>in_key := in_key n1 @ [k], in_ptr := ps'\<rparr>)) (\<lambda>n2.
         let (a, b3) = bin_alloc (InternalN (n2\<lparr>in_count := in_count current_root + 1\<rparr>)) b2 in
         Inr (clean a, b3)))))))))))
       else Inr (tp_set_mark (clean root_addr), b0)
     else Inl NoReturn)))))"

fun bin_remove_loop :: "nat \<Rightarrow> (addr \<Rightarrow> int) \<Rightarrow> key_t \<Rightarrow> Bin \<Rightarrow> (bool \<times> Bin) res" where
  "bin_remove_loop 0 u key b = Inl OutOfFuel"
| "bin_remove_loop (Suc n) u key b =
     (let curr_root = bin_root b in
      if tp_mark curr_root then Inr (False, b)
      else
        bind_res (bin_load b (tp_addr curr_root)) (\<lambda>nd.
        bind_res (case nd of LeafN _ \<Rightarrow> remove_leaf u key (tp_addr curr_root) b
                  | InternalN _ \<Rightarrow> remove_internal u key (tp_addr curr_root) b) (\<lambda>(new_node, b1).
          if tp_true new_node then bin_remove_loop n u key (cas_root curr_root new_node b1)
          else Inr (True, b1\<lparr>bin_size := bin_size b1 + 1\<rparr>))))"

definition bin_remove :: "(addr \<Rightarrow> int) \<Rightarrow> key_t \<Rightarrow> Bin \<Rightarrow> (bool \<times> Bin) res" where
  "bin_remove u key b = bin_remove_loop (root_max + 3) u key b"

section \<open>Filling a new leaf\<close>

lemma ll_fill_step:
  "ll_heap l p = Some nd \<Longrightarrow> p \<noteq> ll_brk l \<Longrightarrow>
    ll_fill ((k, v) # kvs) p (clean t) l = ll_fill kvs (ll_brk l) (clean t)
      (l\<lparr>ll_heap := (ll_heap l)
        (ll_brk l \<mapsto> \<lparr>ll_key = k, ll_value = v, ll_next = clean t\<rparr>,
         p \<mapsto> nd\<lparr>ll_next := clean (ll_brk l)\<rparr>), ll_brk := Suc (ll_brk l), ll_count := ll_count l\<rparr>)"
  by (cases l) (simp add: ll_access_defs)

lemma ll_fill_spec:
  assumes "ll_rep False l ns t v0" and "\<forall>n \<in> set ns. \<not> ln_marked n"
    and "ssorted (map ln_key ns @ map fst kvs)" and "\<forall>p \<in> set kvs. fst p < key_max"
  shows "\<exists>l' ms. ll_fill kvs (last (ll_head l # map ln_addr ns)) (clean t) l = Inr l'
    \<and> ll_rep False l' (ns @ ms) t v0 \<and> (\<forall>n \<in> set ms. \<not> ln_marked n) \<and> map ln_kv ms = kvs"
  using assms
proof (induction kvs arbitrary: l ns)
  case Nil
  then show ?case by (intro exI [of _ l] exI [of _ "[]"]) simp
next
  case (Cons x kvs)
  obtain k v where x: "x = (k, v)" by (cases x)
  let ?p = "last (ll_head l # map ln_addr ns)" and ?n = "(ll_brk l, k, v, False)"
  obtain nd where nd: "ll_heap l ?p = Some nd" "?p < ll_brk l"
    using ll_rep_pred [of False l ns "[]" t v0] Cons.prems by auto
  let ?l = "l\<lparr>ll_heap := (ll_heap l)
      (ll_brk l \<mapsto> \<lparr>ll_key = k, ll_value = v, ll_next = clean t\<rparr>,
       ?p \<mapsto> nd\<lparr>ll_next := clean (ll_brk l)\<rparr>), ll_brk := Suc (ll_brk l), ll_count := ll_count l\<rparr>"
  have less: "\<forall>n \<in> set ns. \<not> ln_marked n \<and> ln_key n < k"
    using Cons.prems(2,3) x by (auto simp: sorted_wrt_append)
  then have rep: "ll_rep False ?l (ns @ [?n]) t v0"
    using ll_rep_link [where l = l and xs = ns and ys = "[]" and k = k and v = v and nd = nd
        and c = "ll_count l"] Cons.prems(1,4) nd(1) x
    by (simp add: seg_start_def)
  have run: "ll_fill (x # kvs) ?p (clean t) l = ll_fill kvs (ll_brk l) (clean t) ?l"
    unfolding x using nd by (intro ll_fill_step) (auto simp del: last.simps)
  have lst: "last (ll_head ?l # map ln_addr (ns @ [?n])) = ll_brk l" by simp
  obtain l' ms where "ll_fill kvs (ll_brk l) (clean t) ?l = Inr l'"
      "ll_rep False l' ((ns @ [?n]) @ ms) t v0" "\<forall>n \<in> set ms. \<not> ln_marked n" "map ln_kv ms = kvs"
    using Cons.IH [OF rep, unfolded lst] Cons.prems x by auto
  then show ?case
    unfolding run using x by (intro exI [of _ l'] exI [of _ "?n # ms"]) auto
qed

lemma filled_leaf_spec:
  assumes "ssorted (map fst kvs)" and "\<forall>p \<in> set kvs. fst p < key_max"
  shows "\<exists>l'. filled_leaf c0 kvs = Inr \<lparr>lf_count = int (length kvs), lf_list = l'\<rparr> \<and> ll_q False l' kvs"
proof -
  let ?l = "Linked_List_new (of_int c0)"
  have rep: "ll_rep False ?l [] 1 0"
    by (auto simp: ll_rep_def ll_tail_def Linked_List_new_def ll_access_defs)
  have hd: "ll_load ?l (ll_head ?l) = Inr \<lparr>ll_key = 0, ll_value = 0, ll_next = clean 1\<rparr>"
    by (simp add: Linked_List_new_def ll_access_defs)
  obtain l' ms where "ll_fill kvs (ll_head ?l) (clean 1) ?l = Inr l'"
      "ll_rep False l' ms 1 0" "\<forall>n \<in> set ms. \<not> ln_marked n" "map ln_kv ms = kvs"
    using ll_fill_spec [OF rep, of kvs] assms by auto
  then have "filled_leaf c0 kvs = Inr \<lparr>lf_count = int (length kvs), lf_list = l'\<rparr> \<and> ll_q False l' kvs"
    using hd unfolding ll_q_def ll_inv_def ll_abs_def
    by (auto simp: filled_leaf_def leaf_node_new_def filter_True intro!: exI [of _ ms])
  then show ?thesis by blast
qed

section \<open>The view of a bin\<close>

type_synonym kid = "int \<times> (key_t \<times> val_t) list"

record bview =
  v_seps :: "key_t list"
  v_kids :: "kid list"
  v_mark :: bool
  v_frz :: bool

definition leaf_rep :: "Bin \<Rightarrow> bool \<Rightarrow> addr \<Rightarrow> kid \<Rightarrow> bool" where
  "leaf_rep b f a kid \<longleftrightarrow> (\<exists>lf. bin_store b a = Some (LeafN lf) \<and> lf_count lf = fst kid
     \<and> ll_q f (lf_list lf) (snd kid))"

definition root_rep :: "Bin \<Rightarrow> addr \<Rightarrow> key_t list \<Rightarrow> addr list \<Rightarrow> bool" where
  "root_rep b a seps as \<longleftrightarrow> (\<exists>nd. bin_store b a = Some (InternalN nd)
     \<and> in_count nd = int (length seps) \<and> length (in_key nd) = root_max
     \<and> length (in_ptr nd) = Suc root_max \<and> length seps \<le> root_max
     \<and> take (length seps) (in_key nd) = seps \<and> take (Suc (length seps)) (in_ptr nd) = as)"

definition bin_rep :: "Bin \<Rightarrow> bview \<Rightarrow> bool" where
  "bin_rep b v \<longleftrightarrow> dom (bin_store b) \<subseteq> {1..<bin_brk b} \<and> 0 < bin_brk b \<and>
     (\<exists>a. bin_root b = TP a (v_mark v) False \<and>
       (if v_seps v = [] then list_all2 (leaf_rep b (v_frz v)) [a] (v_kids v)
        else \<exists>as. root_rep b a (v_seps v) as \<and> distinct as
               \<and> list_all2 (leaf_rep b (v_frz v)) as (v_kids v)))"

text \<open>Well-formed views: separators sorted, every leaf's keys between its separators (both ends
  included), no leaf counter above the number of pairs, and only a full root marked.\<close>

definition kid_ok :: "key_t list \<Rightarrow> nat \<Rightarrow> kid \<Rightarrow> bool" where
  "kid_ok seps i kid \<longleftrightarrow> ssorted (map fst (snd kid)) \<and> fst kid \<le> int (length (snd kid))
     \<and> (\<forall>p \<in> set (snd kid). fst p < key_max \<and> (0 < i \<longrightarrow> seps ! (i - 1) \<le> fst p)
          \<and> (i < length seps \<longrightarrow> fst p \<le> seps ! i))"

definition v_ok :: "bview \<Rightarrow> bool" where
  "v_ok v \<longleftrightarrow> length (v_kids v) = Suc (length (v_seps v)) \<and> length (v_seps v) \<le> root_max
     \<and> ssorted (v_seps v) \<and> (\<forall>i < length (v_kids v). kid_ok (v_seps v) i (v_kids v ! i))
     \<and> (v_mark v \<longrightarrow> length (v_seps v) = root_max)"

text \<open>The keys a search can see: route by the separators, then look in that leaf only.\<close>

definition v_route :: "key_t \<Rightarrow> bview \<Rightarrow> nat" where
  "v_route key v = lb (v_seps v) key"

definition v_map :: "bview \<Rightarrow> key_t \<rightharpoonup> val_t" where
  "v_map v key = map_of (snd (v_kids v ! v_route key v)) key"

text \<open>All pairs stored in the bin, in the order of the leaves.\<close>

definition v_all :: "bview \<Rightarrow> (key_t \<times> val_t) list" where
  "v_all v = concat (map snd (v_kids v))"

definition v_split :: "nat \<Rightarrow> bview \<Rightarrow> bview" where
  "v_split i v =
     (let kvs = snd (v_kids v ! i); n = length kvs div 2 in
      v\<lparr>v_seps := take i (v_seps v) @ fst (kvs ! n) # drop i (v_seps v),
        v_kids := take i (v_kids v)
          @ [(int n, take n kvs), (int (length kvs - n), drop n kvs)] @ drop (Suc i) (v_kids v)\<rparr>)"

function v_insert :: "key_t \<Rightarrow> val_t \<Rightarrow> bview \<Rightarrow> bool \<times> bview" where
  "v_insert key val v =
     (if v_mark v then (False, v)
      else
        let i = v_route key v; c = fst (v_kids v ! i); kvs = snd (v_kids v ! i) in
        if c < child_max then
          (True, if key \<in> fst ` set kvs \<or> val = tombstone then v
                 else v\<lparr>v_kids := (v_kids v)[i := (c + 1, kv_insert key val kvs)]\<rparr>)
        else if length (v_seps v) < root_max then v_insert key val (v_split i v)
        else v_insert key val (v\<lparr>v_mark := True\<rparr>))"
  by pat_completeness auto
termination
  by (relation "measure (\<lambda>(_, _, v). (Suc root_max - length (v_seps v)) + (if v_mark v then 0 else 1))")
    (auto simp: v_split_def Let_def min_def root_max_def)

declare v_insert.simps [simp del]

section \<open>Stores of a bin\<close>

lemmas bin_access_defs [heap_simps] = bin_alloc_def bin_load_def load_leaf_def load_internal_def
  store_leaf_def

lemma leaf_rep_cong: "bin_store b' a = bin_store b a \<Longrightarrow> leaf_rep b' f a kid = leaf_rep b f a kid"
  by (simp add: leaf_rep_def)

lemma leaf_reps_cong:
  "(\<And>a. a \<in> set as \<Longrightarrow> bin_store b' a = bin_store b a) \<Longrightarrow>
    list_all2 (leaf_rep b' f) as kids = list_all2 (leaf_rep b f) as kids"
  by (auto simp: list_all2_conv_all_nth leaf_rep_def)

lemma leaf_reps_alloc: "list_all2 (leaf_rep b f) as kids \<Longrightarrow> a \<in> set as \<Longrightarrow> a \<in> dom (bin_store b)"
  by (auto simp: list_all2_conv_all_nth in_set_conv_nth leaf_rep_def)

lemma rep_fields [simp]:
  "leaf_rep (b\<lparr>bin_size := n\<rparr>) = leaf_rep b" "leaf_rep (b\<lparr>bin_root := r\<rparr>) = leaf_rep b"
  "root_rep (b\<lparr>bin_size := n\<rparr>) = root_rep b" "root_rep (b\<lparr>bin_root := r\<rparr>) = root_rep b"
  by (simp_all add: leaf_rep_def root_rep_def fun_eq_iff)

lemma store_leaf_fields [simp]:
  "bin_root (store_leaf a lf b) = bin_root b" "bin_brk (store_leaf a lf b) = bin_brk b"
  "bin_size (store_leaf a lf b) = bin_size b"
  by (simp_all add: store_leaf_def)

lemma bin_rep_size [simp]: "bin_rep (b\<lparr>bin_size := n\<rparr>) v = bin_rep b v"
  by (simp add: bin_rep_def)

lemma leaf_repE:
  assumes "leaf_rep b f a kid"
  obtains lf where "bin_store b a = Some (LeafN lf)" "lf_count lf = fst kid"
    "ll_q f (lf_list lf) (snd kid)"
  using assms by (auto simp: leaf_rep_def)

lemma collect_leaf_spec:
  assumes "leaf_rep b f a (c, kvs)"
  shows "\<exists>lf. collect_leaf a b acc = Inr (acc @ kvs, store_leaf a lf b)
    \<and> lf_count lf = c \<and> ll_q True (lf_list lf) kvs"
proof -
  obtain lf where lf: "bin_store b a = Some (LeafN lf)" "lf_count lf = c" "ll_q f (lf_list lf) kvs"
    using assms by (auto elim: leaf_repE)
  obtain l' where l': "ll_collect (lf_list lf) = Inr (kvs, l')" "ll_q True l' kvs"
    using lfl.coll_q [OF lf(3)] by blast
  then have "collect_leaf a b acc = Inr (acc @ kvs, store_leaf a (lf\<lparr>lf_list := l'\<rparr>) b)"
    using lf(1) by (simp add: collect_leaf_def load_leaf_def)
  then show ?thesis using l'(2) lf(2) by (intro exI [of _ "lf\<lparr>lf_list := l'\<rparr>"]) simp
qed

text \<open>Splitting: three fresh nodes, the halves and their parent.\<close>

lemma split_root_spec:
  assumes "ssorted (map fst kvs)" and "\<forall>p \<in> set kvs. fst p < key_max" and "kvs \<noteq> []"
    and dom: "dom (bin_store b) \<subseteq> {1..<bin_brk b}" "0 < bin_brk b"
  defines "n \<equiv> length kvs div 2" and "a \<equiv> bin_brk b"
  shows "\<exists>b' nr. split_root u kvs b = Inr (a + 2, b')
    \<and> leaf_rep b' False a (int n, take n kvs)
    \<and> leaf_rep b' False (a + 1) (int (length kvs - n), drop n kvs)
    \<and> bin_store b' (a + 2) = Some (InternalN nr) \<and> in_count nr = 1
    \<and> in_key nr = (replicate root_max 0)[0 := fst (kvs ! n)]
    \<and> in_ptr nr = (replicate (root_max + 1) 0)[0 := a, 1 := a + 1]
    \<and> (\<forall>x < a. bin_store b' x = bin_store b x) \<and> dom (bin_store b') \<subseteq> {1..<bin_brk b'}
    \<and> bin_brk b' = a + 3 \<and> bin_root b' = bin_root b \<and> bin_size b' = bin_size b"
proof -
  have n: "n < length kvs" using assms(3) by (simp add: n_def)
  have srt: "ssorted (map fst (take n kvs))" "ssorted (map fst (drop n kvs))"
    using assms(1) by (metis sorted_wrt_take take_map, metis sorted_wrt_drop drop_map)
  have mx: "\<forall>p \<in> set (take n kvs). fst p < key_max" "\<forall>p \<in> set (drop n kvs). fst p < key_max"
    using assms(2) by (auto dest: in_set_takeD in_set_dropD)
  obtain l where l: "filled_leaf (u a) (take n kvs) = Inr \<lparr>lf_count = int (length (take n kvs)), lf_list = l\<rparr>"
      "ll_q False l (take n kvs)"
    using filled_leaf_spec [OF srt(1) mx(1)] by blast
  obtain r where r: "filled_leaf (u (Suc a)) (drop n kvs) = Inr \<lparr>lf_count = int (length (drop n kvs)), lf_list = r\<rparr>"
      "ll_q False r (drop n kvs)"
    using filled_leaf_spec [OF srt(2) mx(2)] by blast
  obtain k v where kv: "kvs ! n = (k, v)" by (cases "kvs ! n")
  let ?nr = "(Internal_Node_new (u (Suc (Suc a))))\<lparr>in_count := 1,
      in_key := (replicate root_max 0)[0 := k], in_ptr := (replicate (root_max + 1) 0)[0 := a, 1 := Suc a]\<rparr>"
  let ?b = "b\<lparr>bin_store := (bin_store b)
      (a \<mapsto> LeafN \<lparr>lf_count = int (length (take n kvs)), lf_list = l\<rparr>,
       Suc a \<mapsto> LeafN \<lparr>lf_count = int (length (drop n kvs)), lf_list = r\<rparr>,
       Suc (Suc a) \<mapsto> InternalN ?nr), bin_brk := Suc (Suc (Suc a))\<rparr>"
  have "split_root u kvs b = Inr (a + 2, ?b)"
    using l(1) r(1) n kv
    by (cases b) (simp add: split_root_def Let_def bin_alloc_def n_def [symmetric] a_def Internal_Node_new_def)
  moreover have "leaf_rep ?b False a (int n, take n kvs)"
    "leaf_rep ?b False (a + 1) (int (length kvs - n), drop n kvs)"
    using l(2) r(2) n by (auto simp: leaf_rep_def)
  moreover have "dom (bin_store ?b) \<subseteq> {1..<bin_brk ?b}" using dom by (auto simp: a_def)
  ultimately show ?thesis using kv by (intro exI [of _ ?b] exI [of _ ?nr]) auto
qed

text \<open>The copy loops, entry by entry.\<close>

lemma copy_below_spec:
  assumes "ptr_idx \<le> length (in_key cur)" "ptr_idx \<le> length (in_ptr cur)"
    "ptr_idx \<le> length (in_key nw)" "ptr_idx \<le> length (in_ptr nw)"
  shows "\<exists>ks ps. copy_below i ptr_idx cur nw = Inr (nw\<lparr>in_key := ks, in_ptr := ps\<rparr>)
    \<and> length ks = length (in_key nw) \<and> length ps = length (in_ptr nw)
    \<and> (\<forall>j < length ks. ks ! j = (if i \<le> j \<and> j < ptr_idx then in_key cur ! j else in_key nw ! j))
    \<and> (\<forall>j < length ps. ps ! j = (if i \<le> j \<and> j < ptr_idx then in_ptr cur ! j else in_ptr nw ! j))"
  using assms
proof (induction "ptr_idx - i" arbitrary: i nw)
  case 0
  then show ?case
    by (intro exI [of _ "in_key nw"] exI [of _ "in_ptr nw"]) (auto simp: copy_below.simps [of i])
next
  case (Suc d)
  let ?nw = "nw\<lparr>in_key := (in_key nw)[i := in_key cur ! i], in_ptr := (in_ptr nw)[i := in_ptr cur ! i]\<rparr>"
  have i: "i < ptr_idx" and d: "d = ptr_idx - Suc i" using Suc.hyps(2) by simp_all
  have pre: "ptr_idx \<le> length (in_key ?nw)" "ptr_idx \<le> length (in_ptr ?nw)"
    using Suc.prems by simp_all
  have run: "copy_below i ptr_idx cur nw = copy_below (Suc i) ptr_idx cur ?nw"
    using i Suc.prems by (simp add: copy_below.simps [of i])
  obtain ks ps where
    "copy_below (Suc i) ptr_idx cur ?nw = Inr (?nw\<lparr>in_key := ks, in_ptr := ps\<rparr>)"
    "length ks = length (in_key ?nw)" "length ps = length (in_ptr ?nw)"
    "\<forall>j < length ks. ks ! j = (if Suc i \<le> j \<and> j < ptr_idx then in_key cur ! j else in_key ?nw ! j)"
    "\<forall>j < length ps. ps ! j = (if Suc i \<le> j \<and> j < ptr_idx then in_ptr cur ! j else in_ptr ?nw ! j)"
    using Suc.hyps(1) [OF d Suc.prems(1,2) pre] by blast
  then show ?case
    unfolding run using i Suc.prems
    by (intro exI [of _ ks] exI [of _ ps]) (auto simp: nth_list_update Suc_le_eq)
qed

lemma copy_above_spec:
  assumes "in_count cur = int m" "m \<le> length (in_key cur)" "m < length (in_ptr cur)"
    "m < length (in_key nw)" "m + 1 < length (in_ptr nw)" "0 < i"
  shows "\<exists>ks ps. copy_above i cur nw = Inr (nw\<lparr>in_key := ks, in_ptr := ps\<rparr>)
    \<and> length ks = length (in_key nw) \<and> length ps = length (in_ptr nw)
    \<and> (\<forall>j < length ks. ks ! j = (if i \<le> j \<and> j \<le> m then in_key cur ! (j - 1) else in_key nw ! j))
    \<and> (\<forall>j < length ps. ps ! j = (if i < j \<and> j \<le> m + 1 then in_ptr cur ! (j - 1) else in_ptr nw ! j))"
  using assms
proof (induction "Suc m - i" arbitrary: i nw)
  case 0
  then show ?case
    by (intro exI [of _ "in_key nw"] exI [of _ "in_ptr nw"]) (auto simp: copy_above.simps [of i])
next
  case (Suc d)
  let ?nw = "nw\<lparr>in_key := (in_key nw)[i := in_key cur ! (i - 1)],
               in_ptr := (in_ptr nw)[i + 1 := in_ptr cur ! i]\<rparr>"
  have i: "i \<le> m" and d: "d = Suc m - Suc i" using Suc.hyps(2) by simp_all
  have pre: "m < length (in_key ?nw)" "m + 1 < length (in_ptr ?nw)" "0 < Suc i"
    using Suc.prems by simp_all
  have run: "copy_above i cur nw = copy_above (Suc i) cur ?nw"
    using i Suc.prems by (simp add: copy_above.simps [of i])
  obtain ks ps where
    "copy_above (Suc i) cur ?nw = Inr (?nw\<lparr>in_key := ks, in_ptr := ps\<rparr>)"
    "length ks = length (in_key ?nw)" "length ps = length (in_ptr ?nw)"
    "\<forall>j < length ks. ks ! j = (if Suc i \<le> j \<and> j \<le> m then in_key cur ! (j - 1) else in_key ?nw ! j)"
    "\<forall>j < length ps. ps ! j = (if Suc i < j \<and> j \<le> m + 1 then in_ptr cur ! (j - 1) else in_ptr ?nw ! j)"
    using Suc.hyps(1) [OF d Suc.prems(1-3) pre] by blast
  then show ?case
    unfolding run using i Suc.prems
    by (intro exI [of _ ks] exI [of _ ps]) (auto simp: nth_list_update Suc_le_eq intro!: arg_cong [of _ _ "(!) (in_ptr cur)"])
qed

text \<open>The keys and children of the new root, assembled from the loops.\<close>

lemma new_root_entries:
  assumes "in_count cur = int m" "m < root_max" "length (in_key cur) = root_max"
    "length (in_ptr cur) = Suc root_max" "p \<le> m"
  shows "\<exists>n1 n2 ks ps. copy_below 0 p cur (Internal_Node_new c0) = Inr n1
    \<and> length (in_key n1) = root_max \<and> length (in_ptr n1) = Suc root_max
    \<and> copy_above (p + 1) cur (n1\<lparr>in_key := (in_key n1)[p := k], in_ptr := (in_ptr n1)[p := x, p + 1 := y]\<rparr>)
        = Inr n2
    \<and> n2 = n1\<lparr>in_key := ks, in_ptr := ps\<rparr> \<and> length ks = root_max \<and> length ps = Suc root_max
    \<and> take (Suc m) ks = take p (take m (in_key cur)) @ k # drop p (take m (in_key cur))
    \<and> take (Suc (Suc m)) ps =
        take p (take (Suc m) (in_ptr cur)) @ [x, y] @ drop (Suc p) (take (Suc m) (in_ptr cur))"
proof -
  let ?nw = "Internal_Node_new c0"
  obtain ks ps where n1: "copy_below 0 p cur ?nw = Inr (?nw\<lparr>in_key := ks, in_ptr := ps\<rparr>)"
    "length ks = root_max" "length ps = Suc root_max"
    "\<forall>j < length ks. ks ! j = (if 0 \<le> j \<and> j < p then in_key cur ! j else in_key ?nw ! j)"
    "\<forall>j < length ps. ps ! j = (if 0 \<le> j \<and> j < p then in_ptr cur ! j else in_ptr ?nw ! j)"
    using copy_below_spec [of p cur ?nw 0] assms by (auto simp: Internal_Node_new_def)
  let ?n1 = "?nw\<lparr>in_key := ks, in_ptr := ps\<rparr>"
  let ?n1' = "?n1\<lparr>in_key := ks[p := k], in_ptr := ps[p := x, p + 1 := y]\<rparr>"
  have pre: "m \<le> length (in_key cur)" "m < length (in_ptr cur)" "m < length (in_key ?n1')"
    "m + 1 < length (in_ptr ?n1')" "0 < p + 1"
    using assms n1(2,3) by simp_all
  obtain ks' ps' where n2: "copy_above (p + 1) cur ?n1' = Inr (?n1'\<lparr>in_key := ks', in_ptr := ps'\<rparr>)"
    "length ks' = length (in_key ?n1')" "length ps' = length (in_ptr ?n1')"
    "\<forall>j < length ks'. ks' ! j = (if p + 1 \<le> j \<and> j \<le> m then in_key cur ! (j - 1) else in_key ?n1' ! j)"
    "\<forall>j < length ps'. ps' ! j = (if p + 1 < j \<and> j \<le> m + 1 then in_ptr cur ! (j - 1) else in_ptr ?n1' ! j)"
    using copy_above_spec [OF assms(1) pre] by blast
  have len: "length ks' = root_max" "length ps' = Suc root_max" using n2(2,3) n1(2,3) by simp_all
  define S where "S = take m (in_key cur)"
  define A where "A = take (Suc m) (in_ptr cur)"
  have S: "length S = m" "\<And>j. j < m \<Longrightarrow> S ! j = in_key cur ! j"
    and A: "length A = Suc m" "\<And>j. j < Suc m \<Longrightarrow> A ! j = in_ptr cur ! j"
    using assms by (simp_all add: S_def A_def)
  have "take (Suc m) ks' = take p S @ k # drop p S"
    using assms n1 n2(4) len S
    by (intro nth_equalityI) (auto simp: nth_insert_at nth_list_update not_less Suc_le_eq)
  moreover have "take (Suc (Suc m)) ps' = take p A @ [x, y] @ drop (Suc p) A"
    using assms n1 n2(5) len A
    by (intro nth_equalityI) (auto simp: nth_replace2 [simplified] nth_list_update not_less Suc_le_eq)
  ultimately show ?thesis
    using n1(1-3) n2(1) len unfolding S_def [symmetric] A_def [symmetric]
    by (intro exI [of _ ?n1] exI [of _ "?n1\<lparr>in_key := ks', in_ptr := ps'\<rparr>"] exI [of _ ks'] exI [of _ ps'])
      simp
qed

lemma split_child_spec:
  assumes dom: "dom (bin_store b) \<subseteq> {1..<bin_brk b}" "0 < bin_brk b"
    and cur: "in_count cur = int m" "m < root_max" "length (in_key cur) = root_max"
      "length (in_ptr cur) = Suc root_max" "p \<le> m"
    and as: "as = take (Suc m) (in_ptr cur)" "distinct as" "list_all2 (leaf_rep b f) as kids"
    and kvs: "snd (kids ! p) = kvs" "ssorted (map fst kvs)" "\<forall>q \<in> set kvs. fst q < key_max" "kvs \<noteq> []"
    and f: "\<not> f"
  defines "n \<equiv> length kvs div 2"
  shows "\<exists>a b' as'. split_child u (as ! p) p cur b = Inr (clean a, b') \<and> a \<noteq> 0
    \<and> root_rep b' a (take p (take m (in_key cur)) @ fst (kvs ! n) # drop p (take m (in_key cur))) as'
    \<and> distinct as'
    \<and> list_all2 (leaf_rep b' f) as'
        (take p kids @ [(int n, take n kvs), (int (length kvs - n), drop n kvs)] @ drop (Suc p) kids)
    \<and> dom (bin_store b') \<subseteq> {1..<bin_brk b'} \<and> 0 < bin_brk b' \<and> bin_root b' = bin_root b"
proof -
  have len: "length as = Suc m" "length kids = Suc m" using cur as by (auto dest: list_all2_lengthD)
  let ?c = "as ! p" and ?x = "bin_brk b"
  have "leaf_rep b f ?c (kids ! p)" using as(3) len cur(5) by (simp add: list_all2_nthD)
  then obtain lf where b1: "collect_leaf ?c b [] = Inr (kvs, store_leaf ?c lf b)"
    using collect_leaf_spec [of b f ?c "fst (kids ! p)" kvs "[]"] kvs(1) by auto
  let ?b1 = "store_leaf ?c lf b"
  have lt: "a < ?x" if "a \<in> set as" for a
    using leaf_reps_alloc [OF as(3) that] dom by auto
  have cm: "?c \<in> set as" using len cur(5) by simp
  have dom1: "dom (bin_store ?b1) \<subseteq> {1..<bin_brk ?b1}" "0 < bin_brk ?b1"
    using dom lt [OF cm] leaf_reps_alloc [OF as(3) cm] by (auto simp: store_leaf_def)
  obtain b2 nr where b2: "split_root u kvs ?b1 = Inr (?x + 2, b2)"
      "leaf_rep b2 False ?x (int n, take n kvs)"
      "leaf_rep b2 False (?x + 1) (int (length kvs - n), drop n kvs)"
      "bin_store b2 (?x + 2) = Some (InternalN nr)"
      "in_key nr = (replicate root_max 0)[0 := fst (kvs ! n)]"
      "in_ptr nr = (replicate (root_max + 1) 0)[0 := ?x, 1 := ?x + 1]"
      "\<forall>a < ?x. bin_store b2 a = bin_store ?b1 a" "dom (bin_store b2) \<subseteq> {1..<bin_brk b2}"
      "bin_brk b2 = ?x + 3" "bin_root b2 = bin_root b"
    using split_root_spec [OF kvs(2-4) dom1, of u] unfolding n_def by (auto simp: store_leaf_def)
  obtain n1 n2 ks ps where nw: "copy_below 0 p cur (Internal_Node_new (u (bin_brk b2))) = Inr n1"
      "length (in_key n1) = root_max" "length (in_ptr n1) = Suc root_max"
      "copy_above (p + 1) cur (n1\<lparr>in_key := (in_key n1)[p := fst (kvs ! n)],
          in_ptr := (in_ptr n1)[p := ?x, p + 1 := ?x + 1]\<rparr>) = Inr n2"
      "n2 = n1\<lparr>in_key := ks, in_ptr := ps\<rparr>" "length ks = root_max" "length ps = Suc root_max"
      "take (Suc m) ks = take p (take m (in_key cur)) @ fst (kvs ! n) # drop p (take m (in_key cur))"
      "take (Suc (Suc m)) ps = take p as @ [?x, ?x + 1] @ drop (Suc p) as"
    using new_root_entries [OF cur, of "u (bin_brk b2)"] unfolding as(1) by blast
  let ?as = "take p as @ [?x, ?x + 1] @ drop (Suc p) as"
  let ?nd = "n2\<lparr>in_count := in_count cur + 1\<rparr>"
  let ?b3 = "b2\<lparr>bin_store := (bin_store b2)(bin_brk b2 \<mapsto> InternalN ?nd), bin_brk := Suc (bin_brk b2)\<rparr>"
  have "split_child u ?c p cur b = Inr (clean (bin_brk b2), ?b3)"
    using b1 b2(1,4-6) nw(1-4) cur
    by (simp add: split_child_def load_internal_def bin_alloc_def root_max_def)
  moreover have "root_rep ?b3 (bin_brk b2)
      (take p (take m (in_key cur)) @ fst (kvs ! n) # drop p (take m (in_key cur))) ?as"
    using nw(5-9) cur by (auto simp: root_rep_def min_def)
  moreover have sub: "set (take p as) \<subseteq> set as" "set (drop (Suc p) as) \<subseteq> set as"
    by (auto dest: in_set_takeD in_set_dropD)
  have dist: "distinct (take p as @ ?c # drop (Suc p) as)"
    using as(2) len cur(5) by (simp add: id_take_nth_drop [symmetric])
  then have "distinct ?as" using sub lt by fastforce
  moreover have "list_all2 (leaf_rep ?b3 f) ?as
      (take p kids @ [(int n, take n kvs), (int (length kvs - n), drop n kvs)] @ drop (Suc p) kids)"
  proof -
    have same: "bin_store ?b3 a = bin_store b a" if "a \<in> set (take p as) \<union> set (drop (Suc p) as)" for a
      using that lt sub dist b2(7,9) by (auto simp: store_leaf_def)
    have "list_all2 (leaf_rep ?b3 f) (take p as) (take p kids)"
      using as(3) same by (subst leaf_reps_cong [of _ _ b]) (auto simp: list_all2_takeI)
    moreover have "list_all2 (leaf_rep ?b3 f) (drop (Suc p) as) (drop (Suc p) kids)"
      using as(3) same by (subst leaf_reps_cong [of _ _ b]) (auto simp: list_all2_dropI)
    moreover have "leaf_rep ?b3 f ?x (int n, take n kvs)"
      "leaf_rep ?b3 f (?x + 1) (int (length kvs - n), drop n kvs)"
      using b2(2,3,9) f by (auto simp: leaf_rep_def)
    ultimately show ?thesis by (intro list_all2_appendI) auto
  qed
  moreover have "dom (bin_store ?b3) \<subseteq> {1..<bin_brk ?b3}" "0 < bin_brk ?b3" "bin_brk b2 \<noteq> 0"
    "bin_root ?b3 = bin_root b"
    using b2(8-10) by auto
  ultimately show ?thesis by blast
qed

section \<open>Insertion refines the insertion on views\<close>

lemma store_leaf_reps:
  assumes "list_all2 (leaf_rep b f) as kids" "distinct as" "p < length as"
    "lf_count lf = c" "ll_q f (lf_list lf) kvs"
  shows "list_all2 (leaf_rep (store_leaf (as ! p) lf b) f) as (kids[p := (c, kvs)])"
  using assms by (auto simp: list_all2_conv_all_nth leaf_rep_def store_leaf_def nth_list_update
      nth_eq_iff_index_eq)

lemma bin_rep_leafE:
  assumes "bin_rep b v" and "v_seps v = []"
  obtains a c kvs where "bin_root b = TP a (v_mark v) False" "v_kids v = [(c, kvs)]"
    "leaf_rep b (v_frz v) a (c, kvs)" "dom (bin_store b) \<subseteq> {1..<bin_brk b}" "0 < bin_brk b"
  using assms by (auto simp: bin_rep_def list_all2_Cons1)

lemma bin_rep_rootE:
  assumes "bin_rep b v" and "v_seps v \<noteq> []"
  obtains a as where "bin_root b = TP a (v_mark v) False" "root_rep b a (v_seps v) as" "distinct as"
    "list_all2 (leaf_rep b (v_frz v)) as (v_kids v)" "dom (bin_store b) \<subseteq> {1..<bin_brk b}"
    "0 < bin_brk b"
  using assms by (auto simp: bin_rep_def)

lemma root_repE:
  assumes "root_rep b a seps as"
  obtains nd where "bin_store b a = Some (InternalN nd)" "in_count nd = int (length seps)"
    "length (in_key nd) = root_max" "length (in_ptr nd) = Suc root_max" "length seps \<le> root_max"
    "take (length seps) (in_key nd) = seps" "take (Suc (length seps)) (in_ptr nd) = as"
    "length as = Suc (length seps)"
    "\<And>key. std_lower_bound (in_key nd) (in_count nd) key = Inr (lb seps key)"
    "\<And>i. i \<le> length seps \<Longrightarrow> nth_res (in_ptr nd) i = Inr (as ! i)"
  using assms by (auto simp: root_rep_def)

lemma v_route_less: "v_ok v \<Longrightarrow> v_route key v < length (v_kids v)"
  using lb_le [of "v_seps v" key] by (simp add: v_ok_def v_route_def)

lemma v_route_nil [simp]: "v_seps v = [] \<Longrightarrow> v_route key v = 0"
  by (simp add: v_route_def lb_def)

text \<open>The leaf the key is routed to has room.\<close>

lemma insert_step_room:
  assumes rep: "bin_rep b v" "v_ok v" "\<not> v_frz v" "\<not> v_mark v" and key: "key < key_max"
    and kid: "v_kids v ! v_route key v = (c, kvs)" "c < child_max"
  shows "\<exists>b'. bin_insert_loop (Suc k) u key val b = Inr (True, b')
    \<and> bin_rep b' (if key \<in> fst ` set kvs \<or> val = tombstone then v
        else v\<lparr>v_kids := (v_kids v)[v_route key v := (c + 1, kv_insert key val kvs)]\<rparr>)"
proof -
  define dup where "dup \<longleftrightarrow> key \<in> fst ` set kvs \<or> val = tombstone"
  have step: "\<exists>lf lf'. bin_store b a = Some (LeafN lf) \<and> lf_count lf < child_max
      \<and> (\<exists>l'. ll_insert key val (lf_list lf) = Inr (if dup then 0 else 1, l')
          \<and> lf' = (if dup then lf\<lparr>lf_list := l'\<rparr> else lf\<lparr>lf_list := l', lf_count := lf_count lf + 1\<rparr>))
      \<and> lf_count lf' = (if dup then c else c + 1)
      \<and> ll_q False (lf_list lf') (if dup then kvs else kv_insert key val kvs)"
    if "leaf_rep b (v_frz v) a (c, kvs)" for a
    using that rep(3) kid(2) lfl.ins_live [OF _ key, of _ kvs val]
    unfolding dup_def [symmetric] by (fastforce elim!: leaf_repE split: if_splits)
  show ?thesis
  proof (cases "v_seps v = []")
    case True
    then obtain a where a: "bin_root b = TP a (v_mark v) False" "v_kids v = [(c, kvs)]"
      "leaf_rep b (v_frz v) a (c, kvs)" "dom (bin_store b) \<subseteq> {1..<bin_brk b}" "0 < bin_brk b"
      using bin_rep_leafE [OF rep(1)] kid(1) by (metis nth_Cons_0 v_route_nil)
    obtain lf lf' l' where lf: "bin_store b a = Some (LeafN lf)" "lf_count lf < child_max"
      "ll_insert key val (lf_list lf) = Inr (if dup then 0 else 1, l')"
      "lf' = (if dup then lf\<lparr>lf_list := l'\<rparr> else lf\<lparr>lf_list := l', lf_count := lf_count lf + 1\<rparr>)"
      "lf_count lf' = (if dup then c else c + 1)"
      "ll_q False (lf_list lf') (if dup then kvs else kv_insert key val kvs)"
      using step [OF a(3)] by blast
    have "insert_leaf u key val a b = Inr (null_ptr, store_leaf a lf' b)"
      using lf(1-4) by (auto simp: insert_leaf_def load_leaf_def Let_def)
    then have "bin_insert_loop (Suc k) u key val b =
        Inr (True, (store_leaf a lf' b)\<lparr>bin_size := bin_size (store_leaf a lf' b) + 1\<rparr>)"
      using a(1) lf(1) rep(4) by (simp add: bin_load_def tp_true_def)
    moreover have "bin_rep ((store_leaf a lf' b)\<lparr>bin_size := bin_size (store_leaf a lf' b) + 1\<rparr>)
       (if dup then v else v\<lparr>v_kids := (v_kids v)[v_route key v := (c + 1, kv_insert key val kvs)]\<rparr>)"
    proof -
      have "dom (bin_store (store_leaf a lf' b)) \<subseteq> {1..<bin_brk b}"
        using a(4) lf(1) by (auto simp: store_leaf_def)
      then show ?thesis
        using True a(1,2,5) lf(5,6) rep(3)
        by (cases dup) (simp_all add: bin_rep_def leaf_rep_def, simp_all add: store_leaf_def)
    qed
    ultimately show ?thesis unfolding dup_def by (intro exI conjI)
  next
    case False
    then obtain a as where a: "bin_root b = TP a (v_mark v) False" "root_rep b a (v_seps v) as"
      "distinct as" "list_all2 (leaf_rep b (v_frz v)) as (v_kids v)"
      "dom (bin_store b) \<subseteq> {1..<bin_brk b}" "0 < bin_brk b"
      using bin_rep_rootE [OF rep(1)] by blast
    obtain nd where nd: "bin_store b a = Some (InternalN nd)"
      "std_lower_bound (in_key nd) (in_count nd) key = Inr (v_route key v)"
      "nth_res (in_ptr nd) (v_route key v) = Inr (as ! v_route key v)" "v_route key v < length as"
      using root_repE [OF a(2)] lb_le [of "v_seps v" key] unfolding v_route_def
      by (metis le_imp_less_Suc)
    let ?x = "as ! v_route key v"
    have "leaf_rep b (v_frz v) ?x (c, kvs)"
      using a(4) nd(4) kid(1) by (metis list_all2_nthD)
    then obtain lf lf' l' where lf: "bin_store b ?x = Some (LeafN lf)" "lf_count lf < child_max"
      "ll_insert key val (lf_list lf) = Inr (if dup then 0 else 1, l')"
      "lf' = (if dup then lf\<lparr>lf_list := l'\<rparr> else lf\<lparr>lf_list := l', lf_count := lf_count lf + 1\<rparr>)"
      "lf_count lf' = (if dup then c else c + 1)"
      "ll_q False (lf_list lf') (if dup then kvs else kv_insert key val kvs)"
      using step by blast
    have "insert_internal u key val a b = Inr (null_ptr, store_leaf ?x lf' b)"
      using nd lf(1-4) by (auto simp: insert_internal_def load_leaf_def load_internal_def Let_def)
    then have "bin_insert_loop (Suc k) u key val b =
        Inr (True, (store_leaf ?x lf' b)\<lparr>bin_size := bin_size (store_leaf ?x lf' b) + 1\<rparr>)"
      using a(1) nd(1) rep(4) by (simp add: bin_load_def tp_true_def)
    moreover have "bin_rep ((store_leaf ?x lf' b)\<lparr>bin_size := bin_size (store_leaf ?x lf' b) + 1\<rparr>)
       (if dup then v else v\<lparr>v_kids := (v_kids v)[v_route key v := (c + 1, kv_insert key val kvs)]\<rparr>)"
    proof -
      let ?kid = "if dup then (c, kvs) else (c + 1, kv_insert key val kvs)"
      have reps: "list_all2 (leaf_rep (store_leaf ?x lf' b) (v_frz v)) as
          ((v_kids v)[v_route key v := ?kid])"
        using store_leaf_reps [OF a(4,3) nd(4)] lf(5,6) rep(3) by (cases dup) simp_all
      have "(v_kids v)[v_route key v := (c, kvs)] = v_kids v"
        using kid(1) by (metis list_update_id)
      moreover have "dom (bin_store (store_leaf ?x lf' b)) \<subseteq> {1..<bin_brk b}"
        using a(5) lf(1) by (auto simp: store_leaf_def)
      moreover have "root_rep (store_leaf ?x lf' b) a (v_seps v) as"
        using a(2) nd(1) lf(1) by (auto simp: root_rep_def store_leaf_def)
      ultimately show ?thesis
        using False a(1,3,6) reps by (cases dup) (auto simp: bin_rep_def)
    qed
    ultimately show ?thesis unfolding dup_def by (intro exI conjI)
  qed
qed

text \<open>The leaf is full and the root is not: the leaf is split and the insertion starts again.\<close>

lemma insert_step_split:
  assumes rep: "bin_rep b v" "v_ok v" "\<not> v_frz v" "\<not> v_mark v"
    and kid: "v_kids v ! v_route key v = (c, kvs)" "\<not> c < child_max"
    and room: "length (v_seps v) < root_max"
  shows "\<exists>b'. bin_insert_loop (Suc k) u key val b = bin_insert_loop k u key val b'
    \<and> bin_rep b' (v_split (v_route key v) v)"
proof -
  have "kid_ok (v_seps v) (v_route key v) (c, kvs)"
    using rep(2) kid(1) v_route_less [OF rep(2), of key] unfolding v_ok_def by metis
  then have kvs: "ssorted (map fst kvs)" "\<forall>q \<in> set kvs. fst q < key_max" "kvs \<noteq> []"
    using kid(2) by (auto simp: kid_ok_def child_max_def)
  show ?thesis
  proof (cases "v_seps v = []")
    case True
    then obtain a where a: "bin_root b = TP a (v_mark v) False" "v_kids v = [(c, kvs)]"
      "leaf_rep b (v_frz v) a (c, kvs)" "dom (bin_store b) \<subseteq> {1..<bin_brk b}" "0 < bin_brk b"
      using bin_rep_leafE [OF rep(1)] kid(1) by (metis nth_Cons_0 v_route_nil)
    from a(3) obtain lf where lf: "bin_store b a = Some (LeafN lf)" "lf_count lf = c"
      by (auto elim: leaf_repE)
    obtain lf' where c: "collect_leaf a b [] = Inr (kvs, store_leaf a lf' b)"
      using collect_leaf_spec [OF a(3), of "[]"] by auto
    have dom: "dom (bin_store (store_leaf a lf' b)) \<subseteq> {1..<bin_brk (store_leaf a lf' b)}"
      "0 < bin_brk (store_leaf a lf' b)"
      using a(4,5) lf(1) by (auto simp: store_leaf_def)
    let ?x = "bin_brk b" and ?n = "length kvs div 2"
    obtain b2 nr where b2: "split_root u kvs (store_leaf a lf' b) = Inr (?x + 2, b2)"
      "leaf_rep b2 False ?x (int ?n, take ?n kvs)"
      "leaf_rep b2 False (?x + 1) (int (length kvs - ?n), drop ?n kvs)"
      "bin_store b2 (?x + 2) = Some (InternalN nr)" "in_count nr = 1"
      "in_key nr = (replicate root_max 0)[0 := fst (kvs ! ?n)]"
      "in_ptr nr = (replicate (root_max + 1) 0)[0 := ?x, 1 := ?x + 1]"
      "dom (bin_store b2) \<subseteq> {1..<bin_brk b2}" "bin_brk b2 = ?x + 3" "bin_root b2 = bin_root b"
      using split_root_spec [OF kvs dom, of u] by auto
    have "insert_leaf u key val a b = Inr (clean (?x + 2), b2)"
      using lf kid(2) c b2(1) by (simp add: insert_leaf_def load_leaf_def)
    then have "bin_insert_loop (Suc k) u key val b =
        bin_insert_loop k u key val (b2\<lparr>bin_root := clean (?x + 2)\<rparr>)"
      using a(1) lf(1) rep(4) b2(10) by (simp add: bin_load_def tp_true_def cas_root_def)
    moreover have "root_rep b2 (?x + 2) [fst (kvs ! ?n)] [?x, ?x + 1]"
      using b2(4-7) by (auto simp: root_rep_def root_max_def numeral_eq_Suc)
    then have "bin_rep (b2\<lparr>bin_root := clean (?x + 2)\<rparr>) (v_split (v_route key v) v)"
      using True a(2) b2(2,3,8,9) rep(3,4)
      by (auto simp: bin_rep_def v_split_def Let_def intro!: exI [of _ "[?x, ?x + 1]"])
    ultimately show ?thesis by (intro exI conjI)
  next
    case False
    then obtain a as where a: "bin_root b = TP a (v_mark v) False" "root_rep b a (v_seps v) as"
      "distinct as" "list_all2 (leaf_rep b (v_frz v)) as (v_kids v)"
      "dom (bin_store b) \<subseteq> {1..<bin_brk b}" "0 < bin_brk b"
      using bin_rep_rootE [OF rep(1)] by blast
    obtain nd where nd: "bin_store b a = Some (InternalN nd)" "in_count nd = int (length (v_seps v))"
      "length (in_key nd) = root_max" "length (in_ptr nd) = Suc root_max"
      "take (length (v_seps v)) (in_key nd) = v_seps v"
      "take (Suc (length (v_seps v))) (in_ptr nd) = as"
      "std_lower_bound (in_key nd) (in_count nd) key = Inr (v_route key v)"
      "nth_res (in_ptr nd) (v_route key v) = Inr (as ! v_route key v)" "v_route key v < length as"
      using root_repE [OF a(2)] lb_le [of "v_seps v" key] unfolding v_route_def
      by (metis le_imp_less_Suc)
    let ?p = "v_route key v"
    have p: "?p \<le> length (v_seps v)" by (simp add: v_route_def lb_le)
    have "leaf_rep b (v_frz v) (as ! ?p) (c, kvs)" using a(4) nd(9) kid(1) by (metis list_all2_nthD)
    then obtain lf where lf: "bin_store b (as ! ?p) = Some (LeafN lf)" "lf_count lf = c"
      by (auto elim: leaf_repE)
    obtain x b' as' where b': "split_child u (as ! ?p) ?p nd b = Inr (clean x, b')" "x \<noteq> 0"
      "root_rep b' x (v_seps (v_split ?p v)) as'" "distinct as'"
      "list_all2 (leaf_rep b' (v_frz v)) as' (v_kids (v_split ?p v))"
      "dom (bin_store b') \<subseteq> {1..<bin_brk b'}" "0 < bin_brk b'" "bin_root b' = bin_root b"
      using split_child_spec [OF a(5,6) nd(2) room nd(3,4) p nd(6) [symmetric] a(3,4) _ kvs rep(3), of u]
        kid(1) nd(5)
      by (auto simp: v_split_def Let_def)
    have "insert_internal u key val a b = Inr (clean x, b')"
      using nd lf kid(2) room b'(1)
      by (simp add: insert_internal_def load_leaf_def load_internal_def)
    then have "bin_insert_loop (Suc k) u key val b = bin_insert_loop k u key val (b'\<lparr>bin_root := clean x\<rparr>)"
      using a(1) nd(1) rep(4) b'(2,8) by (simp add: bin_load_def tp_true_def cas_root_def)
    moreover have "bin_rep (b'\<lparr>bin_root := clean x\<rparr>) (v_split ?p v)"
      using b'(3-7) rep(4) by (auto simp: bin_rep_def v_split_def Let_def)
    ultimately show ?thesis by (intro exI conjI)
  qed
qed

text \<open>The leaf and the root are full: the root is marked.\<close>

lemma insert_step_mark:
  assumes rep: "bin_rep b v" "\<not> v_mark v"
    and kid: "v_kids v ! v_route key v = (c, kvs)" "\<not> c < child_max"
    and full: "length (v_seps v) = root_max"
  shows "\<exists>b'. bin_insert_loop (Suc k) u key val b = bin_insert_loop k u key val b'
    \<and> bin_rep b' (v\<lparr>v_mark := True\<rparr>)"
proof -
  have ne: "v_seps v \<noteq> []" using full by (auto simp: root_max_def)
  obtain a as where a: "bin_root b = TP a (v_mark v) False" "root_rep b a (v_seps v) as"
    "distinct as" "list_all2 (leaf_rep b (v_frz v)) as (v_kids v)"
    "dom (bin_store b) \<subseteq> {1..<bin_brk b}" "0 < bin_brk b"
    using bin_rep_rootE [OF rep(1) ne] by blast
  obtain nd where nd: "bin_store b a = Some (InternalN nd)" "in_count nd = int (length (v_seps v))"
    "std_lower_bound (in_key nd) (in_count nd) key = Inr (v_route key v)"
    "nth_res (in_ptr nd) (v_route key v) = Inr (as ! v_route key v)" "v_route key v < length as"
    using root_repE [OF a(2)] lb_le [of "v_seps v" key] unfolding v_route_def
    by (metis le_imp_less_Suc)
  have "leaf_rep b (v_frz v) (as ! v_route key v) (c, kvs)"
    using a(4) nd(5) kid(1) by (metis list_all2_nthD)
  then obtain lf where lf: "bin_store b (as ! v_route key v) = Some (LeafN lf)" "lf_count lf = c"
    by (auto elim: leaf_repE)
  have "insert_internal u key val a b = Inr (TP a True False, b)"
    using nd lf kid(2) full
    by (simp add: insert_internal_def load_leaf_def load_internal_def tp_set_mark_def)
  then have "bin_insert_loop (Suc k) u key val b =
      bin_insert_loop k u key val (b\<lparr>bin_root := TP a True False\<rparr>)"
    using a(1) nd(1) rep(2) by (simp add: bin_load_def tp_true_def cas_root_def)
  moreover have "bin_rep (b\<lparr>bin_root := TP a True False\<rparr>) (v\<lparr>v_mark := True\<rparr>)"
    using a ne by (auto simp: bin_rep_def)
  ultimately show ?thesis by (intro exI conjI)
qed

end
