(* ===== verification/Bin_Spec.thy ===== *)
theory Bin_Spec
  imports Bin
begin

text \<open>
  What the operations of a bin do to its content.

  The view of a bin (theory \<open>Bin\<close>) keeps every leaf's content between its separators; a split cuts
  a leaf at its middle key, which becomes a separator. The keys a search can see are \<open>v_map\<close>: it
  routes a key to one leaf with \<open>std::lower_bound\<close>, which sends a key equal to a separator to the
  left, whereas the split leaves the pair of the separator in the right leaf. The lemmas describe
  insertion, search, collection and removal exactly, this loss included.
\<close>

section \<open>Well-formed views\<close>

lemma kid_okD:
  assumes "kid_ok seps i (c, kvs)"
  shows "ssorted (map fst kvs)" "c \<le> int (length kvs)"
    "\<And>p. p \<in> set kvs \<Longrightarrow> fst p < key_max"
    "\<And>p. p \<in> set kvs \<Longrightarrow> 0 < i \<Longrightarrow> seps ! (i - 1) \<le> fst p"
    "\<And>p. p \<in> set kvs \<Longrightarrow> i < length seps \<Longrightarrow> fst p \<le> seps ! i"
  using assms by (auto simp: kid_ok_def)

lemma v_ok_kid: "v_ok v \<Longrightarrow> i < length (v_kids v) \<Longrightarrow> kid_ok (v_seps v) i (v_kids v ! i)"
  by (simp add: v_ok_def)

text \<open>The middle key of a leaf with at least three pairs lies strictly between its separators.\<close>

lemma mid_key:
  assumes "kid_ok seps i (c, kvs)" and "3 \<le> length kvs"
  defines "n \<equiv> length kvs div 2"
  shows "n < length kvs" and "\<And>p. p \<in> set (take n kvs) \<Longrightarrow> fst p < fst (kvs ! n)"
    and "\<And>p. p \<in> set (drop n kvs) \<Longrightarrow> fst (kvs ! n) \<le> fst p"
    and "0 < i \<Longrightarrow> seps ! (i - 1) < fst (kvs ! n)" and "i < length seps \<Longrightarrow> fst (kvs ! n) < seps ! i"
proof -
  note ok = kid_okD [OF assms(1)]
  show n: "n < length kvs" using assms(2) by (simp add: n_def)
  have srt: "fst (kvs ! a) < fst (kvs ! b)" if "a < b" "b < length kvs" for a b
    using ssorted_nth_less [OF ok(1), of a b] that by simp
  show "fst p < fst (kvs ! n)" if "p \<in> set (take n kvs)" for p
    using that srt n by (auto simp: in_set_conv_nth)
  show "fst (kvs ! n) \<le> fst p" if "p \<in> set (drop n kvs)" for p
  proof -
    obtain j where "j < length kvs - n" "p = kvs ! (n + j)" using \<open>p \<in> set (drop n kvs)\<close>
      by (auto simp: in_set_conv_nth)
    then show ?thesis using srt [of n "n + j"] by (cases "j = 0") (auto simp: less_imp_le)
  qed
  have "0 < length kvs" "length kvs - 1 < length kvs" "0 < n" "n < length kvs - 1"
    using assms(2) unfolding n_def by linarith+
  note ends = this
  show "seps ! (i - 1) < fst (kvs ! n)" if "0 < i"
    using ok(4) [OF nth_mem [OF ends(1)] that] srt [OF ends(3) n] by (rule order_le_less_trans)
  show "fst (kvs ! n) < seps ! i" if "i < length seps"
    using srt [OF ends(4,2)] ok(5) [OF nth_mem [OF ends(2)] that] by (rule order_less_le_trans)
qed

lemma v_split_fields:
  "v_mark (v_split i v) = v_mark v" "v_frz (v_split i v) = v_frz v"
  by (simp_all add: v_split_def Let_def)

lemma v_split_nth:
  assumes "v_ok v" and "i < length (v_kids v)" and "v_kids v ! i = (c, kvs)"
  defines "n \<equiv> length kvs div 2"
  shows "length (v_seps (v_split i v)) = Suc (length (v_seps v))"
    and "length (v_kids (v_split i v)) = Suc (length (v_kids v))"
    and "\<And>j. j \<le> length (v_seps v) \<Longrightarrow> v_seps (v_split i v) ! j =
      (if j < i then v_seps v ! j else if j = i then fst (kvs ! n) else v_seps v ! (j - 1))"
    and "\<And>j. j \<le> length (v_kids v) \<Longrightarrow> v_kids (v_split i v) ! j =
      (if j < i then v_kids v ! j else if j = i then (int n, take n kvs)
       else if j = Suc i then (int (length kvs - n), drop n kvs) else v_kids v ! (j - 1))"
proof -
  have i: "i \<le> length (v_seps v)" using assms(1,2) by (simp add: v_ok_def)
  show "length (v_seps (v_split i v)) = Suc (length (v_seps v))"
    "length (v_kids (v_split i v)) = Suc (length (v_kids v))"
    using i assms(2) by (simp_all add: v_split_def Let_def)
  show "v_seps (v_split i v) ! j =
      (if j < i then v_seps v ! j else if j = i then fst (kvs ! n) else v_seps v ! (j - 1))"
    if "j \<le> length (v_seps v)" for j
    using nth_insert_at [OF i that] assms(3) by (simp add: v_split_def Let_def n_def)
  show "v_kids (v_split i v) ! j =
      (if j < i then v_kids v ! j else if j = i then (int n, take n kvs)
       else if j = Suc i then (int (length kvs - n), drop n kvs) else v_kids v ! (j - 1))"
    if "j \<le> length (v_kids v)" for j
    using nth_replace2 [OF assms(2) that] assms(3) by (simp add: v_split_def Let_def n_def)
qed

lemma v_split_seps_sorted:
  assumes "v_ok v" and i: "i < length (v_kids v)" and kid: "v_kids v ! i = (c, kvs)" and "3 \<le> length kvs"
  shows "ssorted (v_seps (v_split i v))"
proof -
  have ok: "kid_ok (v_seps v) i (c, kvs)" using v_ok_kid [OF assms(1,2)] kid by simp
  let ?k = "fst (kvs ! (length kvs div 2))"
  note srt = assms(1) [unfolded v_ok_def]
  have len: "i \<le> length (v_seps v)" using assms(1,2) by (simp add: v_ok_def)
  have "x < ?k" if "x \<in> set (take i (v_seps v))" for x
  proof -
    from that obtain j where "j < i" "x = v_seps v ! j" using len by (auto simp: in_set_conv_nth)
    then have "x \<le> v_seps v ! (i - 1)"
      using srt len by (simp add: ssorted_nth_le_iff)
    then show ?thesis using mid_key(4) [OF ok assms(4)] \<open>j < i\<close> by fastforce
  qed
  moreover have "?k < x" if "x \<in> set (drop i (v_seps v))" for x
  proof -
    from that obtain j where j: "i + j < length (v_seps v)" "x = v_seps v ! (i + j)"
      using len by (auto simp: in_set_conv_nth less_diff_conv add.commute)
    then have "v_seps v ! i \<le> x" using srt by (simp add: ssorted_nth_le_iff)
    then show ?thesis using mid_key(5) [OF ok assms(4)] j(1) by fastforce
  qed
  ultimately show ?thesis
    using srt kid
    by (simp add: v_split_def Let_def sorted_wrt_append sorted_wrt_take sorted_wrt_drop)
      (meson order.strict_trans)
qed

lemma v_split_ok:
  assumes "v_ok v" and "i < length (v_kids v)" and kid: "v_kids v ! i = (c, kvs)" and "3 \<le> length kvs"
    and "length (v_seps v) < root_max" and "\<not> v_mark v"
  shows "v_ok (v_split i v)"
proof -
  have ok: "kid_ok (v_seps v) i (c, kvs)" using v_ok_kid [OF assms(1,2)] kid by simp
  note len = assms(1) [unfolded v_ok_def] and nths = v_split_nth [OF assms(1-3)]
    and mid = mid_key [OF ok assms(4)]
  have halves: "ssorted (map fst (take m kvs))" "ssorted (map fst (drop m kvs))" for m
    using kid_okD(1) [OF ok] by (metis sorted_wrt_take take_map, metis sorted_wrt_drop drop_map)
  have "kid_ok (v_seps (v_split i v)) j (v_kids (v_split i v) ! j)"
    if j: "j < length (v_kids (v_split i v))" for j
  proof -
    have j': "j \<le> length (v_kids v)" using j nths(2) by simp
    consider "j < i" | "j = i" | "j = Suc i" | "Suc i < j" by linarith
    then show ?thesis
    proof cases
      case 1
      then show ?thesis
        using v_ok_kid [OF assms(1), of j] assms(2) len nths(1,3,4)
        by (simp add: kid_ok_def less_imp_diff_less)
    next
      case 2
      then show ?thesis
        using nths len assms(2) kid_okD [OF ok] mid halves
        by (auto simp: kid_ok_def dest: in_set_takeD intro: order.strict_implies_order)
    next
      case 3
      then show ?thesis
        using nths len assms(2) kid_okD [OF ok] mid halves
        by (auto simp: kid_ok_def of_nat_diff dest: in_set_dropD)
    next
      case 4
      then have "j - 1 < length (v_kids v)" using j' by simp
      then have "kid_ok (v_seps v) (j - 1) (v_kids v ! (j - 1))" by (rule v_ok_kid [OF assms(1)])
      then show ?thesis
        using 4 len nths(1,3) nths(4) [OF j'] j' by (auto simp: kid_ok_def)
    qed
  qed
  then show ?thesis
    using v_split_seps_sorted [OF assms(1-4)] nths(1,2) len assms(5,6)
    by (simp add: v_ok_def v_split_fields)
qed

section \<open>Routing\<close>

lemma v_routeD:
  assumes "v_ok v"
  shows "v_route x v \<le> length (v_seps v)"
    and "0 < v_route x v \<Longrightarrow> v_seps v ! (v_route x v - 1) < x"
    and "v_route x v < length (v_seps v) \<Longrightarrow> x \<le> v_seps v ! v_route x v"
proof -
  have srt: "sorted (v_seps v)" using assms by (simp add: v_ok_def strict_sorted_iff)
  show "v_route x v \<le> length (v_seps v)" by (simp add: v_route_def lb_le)
  show "v_seps v ! (v_route x v - 1) < x" if "0 < v_route x v"
    using lb_less [OF srt, of "v_route x v - 1" x] that by (simp add: v_route_def)
  show "x \<le> v_seps v ! v_route x v" if "v_route x v < length (v_seps v)"
    using lb_ge [OF srt, of x "v_route x v"] that by (simp add: v_route_def)
qed

lemma v_route_eqI:
  assumes "ssorted (v_seps v)" and "j \<le> length (v_seps v)"
    and "0 < j \<Longrightarrow> v_seps v ! (j - 1) < x" and "j < length (v_seps v) \<Longrightarrow> x \<le> v_seps v ! j"
  shows "v_route x v = j"
  unfolding v_route_def using assms by (intro lb_eqI) (simp_all add: strict_sorted_iff)

lemma map_of_halves:
  assumes "ssorted (map fst kvs)"
  shows "fst (kvs ! n) \<le> x \<Longrightarrow> n < length kvs \<Longrightarrow> map_of (drop n kvs) x = map_of kvs x"
    and "x < fst (kvs ! n) \<Longrightarrow> n < length kvs \<Longrightarrow> map_of (take n kvs) x = map_of kvs x"
proof -
  have d: "distinct (map fst kvs)" using assms by (rule ssorted_distinct)
  have less: "fst (kvs ! a) < fst (kvs ! b)" if "a < b" "b < length kvs" for a b
    using ssorted_nth_less [OF assms, of a b] that by simp
  show "map_of (drop n kvs) x = map_of kvs x" if "fst (kvs ! n) \<le> x" "n < length kvs"
  proof -
    have "x \<notin> fst ` set (take n kvs)"
      using less [of _ n] that by (fastforce simp: in_set_conv_nth)
    then have "map_of (take n kvs) x = None" by (simp add: map_of_eq_None_iff)
    then have "map_of (take n kvs @ drop n kvs) x = map_of (drop n kvs) x"
      by (simp only: map_of_append map_add_def) (simp split: option.split)
    then show ?thesis by simp
  qed
  show "map_of (take n kvs) x = map_of kvs x" if "x < fst (kvs ! n)" "n < length kvs"
  proof -
    have "x \<notin> fst ` set (drop n kvs)"
    proof
      assume "x \<in> fst ` set (drop n kvs)"
      then obtain p where p: "p \<in> set (drop n kvs)" "x = fst p" by blast
      then obtain j where j: "j < length (drop n kvs)" "p = drop n kvs ! j"
        by (metis in_set_conv_nth)
      with p have j: "n + j < length kvs" "x = fst (kvs ! (n + j))" by simp_all
      then show False using less [of n "n + j"] that by (cases "j = 0") auto
    qed
    then have "map_of (drop n kvs) x = None" by (simp add: map_of_eq_None_iff)
    then have "map_of (take n kvs @ drop n kvs) x = map_of (take n kvs) x"
      by (simp only: map_of_append map_add_def) (simp split: option.split)
    then show ?thesis by simp
  qed
qed

text \<open>A split hides exactly the new separator's key.\<close>

lemma v_map_split:
  assumes ok: "v_ok v" and i: "i < length (v_kids v)" and kid: "v_kids v ! i = (c, kvs)"
    and n3: "3 \<le> length kvs"
  shows "v_map (v_split i v) = (v_map v)(fst (kvs ! (length kvs div 2)) := None)"
proof
  fix x
  let ?n = "length kvs div 2" and ?w = "v_split i v"
  let ?k = "fst (kvs ! ?n)"
  have kok: "kid_ok (v_seps v) i (c, kvs)" using v_ok_kid [OF ok i] kid by simp
  note len = ok [unfolded v_ok_def] and nths = v_split_nth [OF ok i kid] and mid = mid_key [OF kok n3]
    and r = v_routeD [OF ok, of x] and srt = v_split_seps_sorted [OF ok i kid n3]
    and half = map_of_halves [OF kid_okD(1) [OF kok], where n = ?n and x = x]
  let ?r = "v_route x v"
  have rl: "?r < length (v_kids v)" using v_route_less [OF ok] .
  have keq: "v_seps v ! j \<le> v_seps v ! l" if "j \<le> l" "l < length (v_seps v)" for j l
    using len that by (simp add: ssorted_nth_le_iff)
  consider "?r < i" | "i \<le> ?r" "?k < x" | "i \<le> ?r" "x \<le> ?k" by fastforce
  then show "v_map ?w x = ((v_map v)(?k := None)) x"
  proof cases
    case 1
    have "v_route x ?w = ?r"
      using r nths(1,3) 1 i len by (intro v_route_eqI srt) (auto simp: less_imp_diff_less)
    moreover have "x < ?k"
      using r(3) keq [of ?r "i - 1"] mid(4) 1 i len by fastforce
    ultimately show ?thesis using 1 nths(4) [of ?r] rl by (auto simp: v_map_def)
  next
    case 2
    have "v_route x ?w = Suc ?r"
      using r nths(1,3) 2 i len by (intro v_route_eqI srt) auto
    moreover have "map_of (drop ?n kvs) x = map_of kvs x" using half(1) 2 mid(1) by simp
    ultimately show ?thesis using 2 nths(4) [of "Suc ?r"] rl kid by (auto simp: v_map_def)
  next
    case 3
    have "?r = i"
    proof (rule ccontr)
      assume "?r \<noteq> i"
      then have "i < ?r" using 3 by simp
      then have "v_seps v ! i < x"
        using r(2) keq [of i "?r - 1"] r(1) by fastforce
      moreover have "i < length (v_seps v)" using \<open>i < ?r\<close> r(1) by simp
      ultimately show False using mid(5) 3 by simp
    qed
    have "v_route x ?w = i"
      using r nths(1,3) 3 \<open>?r = i\<close> i len by (intro v_route_eqI srt) (auto simp: less_imp_diff_less)
    then have "v_map ?w x = map_of (take ?n kvs) x" using nths(4) [of i] i by (simp add: v_map_def)
    moreover have "map_of (take ?n kvs) ?k = None"
      using mid(2) by (force simp: map_of_eq_None_iff)
    ultimately show ?thesis
      using half(2) 3 mid(1) \<open>?r = i\<close> kid by (auto simp: v_map_def)
  qed
qed

section \<open>Insertion on views\<close>

definition v_put :: "key_t \<Rightarrow> val_t \<Rightarrow> bview \<Rightarrow> bview" where
  "v_put key val v =
     (let i = v_route key v; (c, kvs) = v_kids v ! i
      in v\<lparr>v_kids := (v_kids v)[i := (c + 1, kv_insert key val kvs)]\<rparr>)"

lemma v_put_ok:
  assumes "v_ok v" and "key < key_max" and "v_map v key = None"
  shows "v_ok (v_put key val v)" and "v_map (v_put key val v) = (v_map v)(key \<mapsto> val)"
proof -
  let ?i = "v_route key v"
  obtain c kvs where kid: "v_kids v ! ?i = (c, kvs)" by (cases "v_kids v ! ?i")
  have i: "?i < length (v_kids v)" using v_route_less [OF assms(1)] .
  have kok: "kid_ok (v_seps v) ?i (c, kvs)" using v_ok_kid [OF assms(1) i] kid by simp
  have new: "key \<notin> fst ` set kvs" using assms(3) kid by (simp add: v_map_def map_of_eq_None_iff)
  have "kid_ok (v_seps v) ?i (c + 1, kv_insert key val kvs)"
    using kok kv_insert_sorted [of kvs key val] length_kv_insert [OF new] v_routeD [OF assms(1), of key]
      assms(2) by (auto simp: kid_ok_def set_kv_insert)
  then show "v_ok (v_put key val v)"
    using assms(1) kid i by (auto simp: v_ok_def v_put_def nth_list_update)
  have route: "v_route x (v_put key val v) = v_route x v" for x
    using kid by (simp add: v_route_def v_put_def)
  show "v_map (v_put key val v) = (v_map v)(key \<mapsto> val)"
  proof
    fix x
    have "v_map (v_put key val v) x = map_of (snd ((v_kids v)[?i := (c + 1, kv_insert key val kvs)] ! v_route x v)) x"
      unfolding v_map_def route using kid by (simp add: v_put_def)
    also have "\<dots> = ((v_map v)(key \<mapsto> val)) x"
      using i kid map_of_kv_insert [OF kid_okD(1) [OF kok], of key val]
      by (auto simp: v_map_def nth_list_update)
    finally show "v_map (v_put key val v) x = ((v_map v)(key \<mapsto> val)) x" .
  qed
qed

text \<open>All pairs: a split keeps them, in order; they are sorted by key.\<close>

lemma v_all_split:
  assumes "i < length (v_kids v)" shows "v_all (v_split i v) = v_all v"
proof -
  obtain c kvs where kid: "v_kids v ! i = (c, kvs)" by (cases "v_kids v ! i")
  have "v_all v = concat (map snd (take i (v_kids v) @ v_kids v ! i # drop (Suc i) (v_kids v)))"
    using assms by (simp add: v_all_def id_take_nth_drop [symmetric])
  then show ?thesis using kid by (simp add: v_all_def v_split_def Let_def)
qed

lemma v_all_sorted: assumes "v_ok v" shows "sorted (map fst (v_all v))"
proof -
  note ok = assms [unfolded v_ok_def]
  have "sorted (concat (map (\<lambda>k. map fst (snd k)) (v_kids v)))"
  proof (rule sorted_concatI)
    show "sorted (map (\<lambda>k. map fst (snd k)) (v_kids v) ! i)"
      if "i < length (map (\<lambda>k. map fst (snd k)) (v_kids v))" for i
      using v_ok_kid [OF assms, of i] that by (simp add: kid_ok_def strict_sorted_iff)
  next
    fix i j x y
    assume ij: "i < j" "j < length (map (\<lambda>k. map fst (snd k)) (v_kids v))"
      and x: "x \<in> set (map (\<lambda>k. map fst (snd k)) (v_kids v) ! i)"
      and y: "y \<in> set (map (\<lambda>k. map fst (snd k)) (v_kids v) ! j)"
    have "kid_ok (v_seps v) i (v_kids v ! i)" "kid_ok (v_seps v) j (v_kids v ! j)"
      using ij v_ok_kid [OF assms] by simp_all
    moreover obtain p q where "p \<in> set (snd (v_kids v ! i))" "x = fst p"
        "q \<in> set (snd (v_kids v ! j))" "y = fst q"
      using x y ij by auto
    moreover have "i < length (v_seps v)" using ij ok by simp
    ultimately have "x \<le> v_seps v ! i" "v_seps v ! (j - 1) \<le> y"
      using ij(1) by (simp_all add: kid_ok_def)
    moreover have "v_seps v ! i \<le> v_seps v ! (j - 1)"
      using ok ij by (simp add: ssorted_nth_le_iff)
    ultimately show "x \<le> y" by simp
  qed
  then show ?thesis by (simp add: v_all_def map_concat comp_def)
qed

lemma v_all_put:
  assumes "v_ok v" and "v_map v key = None"
  shows "set (v_all (v_put key val v)) = insert (key, val) (set (v_all v))"
proof -
  let ?i = "v_route key v"
  obtain c kvs where kid: "v_kids v ! ?i = (c, kvs)" by (cases "v_kids v ! ?i")
  have i: "?i < length (v_kids v)" using v_route_less [OF assms(1)] .
  have "key \<notin> fst ` set kvs" using assms(2) kid by (simp add: v_map_def map_of_eq_None_iff)
  then have new: "set (kv_insert key val kvs) = insert (key, val) (set kvs)"
    by (force simp: set_kv_insert)
  obtain A B where AB: "v_kids v = A @ (c, kvs) # B" "length A = ?i"
    using id_take_nth_drop [OF i] kid i by (metis length_take min.absorb4)
  then have "v_kids (v_put key val v) = A @ (c + 1, kv_insert key val kvs) # B"
    using kid by (simp add: v_put_def list_update_append)
  then show ?thesis using AB new by (simp add: v_all_def Un_left_commute)
qed

text \<open>The steps of an insertion.\<close>

lemma v_insert_cases [consumes 2, case_names marked room split full]:
  assumes ok: "v_ok v" and key: "key < key_max"
  obtains "v_mark v" "v_insert key val v = (False, v)"
  | "\<not> v_mark v"
      "v_insert key val v =
        (True, if v_map v key \<noteq> None \<or> val = tombstone then v else v_put key val v)"
  | c kvs where "\<not> v_mark v" "v_kids v ! v_route key v = (c, kvs)" "3 \<le> length kvs"
      "\<not> c < child_max" "length (v_seps v) < root_max"
      "v_insert key val v = v_insert key val (v_split (v_route key v) v)"
  | "\<not> v_mark v" "length (v_seps v) = root_max"
      "v_insert key val v = (False, v\<lparr>v_mark := True\<rparr>)"
proof -
  let ?i = "v_route key v"
  obtain c kvs where kid: "v_kids v ! ?i = (c, kvs)" by (cases "v_kids v ! ?i")
  have kok: "kid_ok (v_seps v) ?i (c, kvs)"
    using v_ok_kid [OF ok v_route_less [OF ok, of key]] kid by simp
  have dup: "v_map v key \<noteq> None \<longleftrightarrow> key \<in> fst ` set kvs"
    using kid map_of_eq_None_iff [of kvs key] by (simp add: v_map_def)
  note unf = v_insert.simps [of key val v]
  consider "v_mark v" | "\<not> v_mark v" "c < child_max"
    | "\<not> v_mark v" "\<not> c < child_max" "length (v_seps v) < root_max"
    | "\<not> v_mark v" "\<not> c < child_max" "\<not> length (v_seps v) < root_max" by blast
  then show ?thesis
  proof cases
    case 1
    then show ?thesis using that(1) unf by simp
  next
    case 2
    then show ?thesis using that(2) unf kid dup by (simp add: v_put_def Let_def)
  next
    case 3
    moreover have "3 \<le> length kvs" using 3 kok by (auto simp: kid_ok_def child_max_def)
    ultimately show ?thesis using that(3) unf kid by (simp add: Let_def)
  next
    case 4
    moreover have "length (v_seps v) = root_max" using 4 ok by (simp add: v_ok_def)
    moreover have "v_insert key val (v\<lparr>v_mark := True\<rparr>) = (False, v\<lparr>v_mark := True\<rparr>)"
      by (simp add: v_insert.simps)
    ultimately show ?thesis using that(4) unf kid by (simp add: Let_def)
  qed
qed

text \<open>The effect of an insertion: the keys that become separators are hidden; if the bin is not
  closed and the key is not visible after that, the pair is added.\<close>

definition insert_effect :: "key_t \<Rightarrow> val_t \<Rightarrow> bview \<Rightarrow> bool \<times> bview \<Rightarrow> bool" where
  "insert_effect key val v rw \<longleftrightarrow>
     (let r = fst rw; w = snd rw; m = v_map v |` (- (set (v_seps w) - set (v_seps v))) in
      v_ok w \<and> v_frz w = v_frz v \<and> r = (\<not> v_mark w) \<and> set (v_seps v) \<subseteq> set (v_seps w)
      \<and> v_map w = (if r \<and> m key = None \<and> val \<noteq> tombstone then m(key \<mapsto> val) else m)
      \<and> set (v_all w) = (if r \<and> m key = None \<and> val \<noteq> tombstone
                          then insert (key, val) (set (v_all v)) else set (v_all v)))"

lemma v_split_seps_set:
  assumes "v_ok v" and "i < length (v_kids v)" and "v_kids v ! i = (c, kvs)" and "3 \<le> length kvs"
  defines "k \<equiv> fst (kvs ! (length kvs div 2))"
  shows "set (v_seps (v_split i v)) = insert k (set (v_seps v))" and "k \<notin> set (v_seps v)"
proof -
  have eq: "v_seps (v_split i v) = take i (v_seps v) @ k # drop i (v_seps v)"
    using assms(3) by (simp add: v_split_def Let_def k_def)
  show "set (v_seps (v_split i v)) = insert k (set (v_seps v))"
    unfolding eq by (metis append_take_drop_id insert_is_Un list.simps(15) set_append sup_left_commute)
  have "distinct (take i (v_seps v) @ k # drop i (v_seps v))"
    using v_split_seps_sorted [OF assms(1-4)] ssorted_distinct unfolding eq by blast
  then have "k \<notin> set (take i (v_seps v) @ drop i (v_seps v))"
    by (simp del: append_take_drop_id)
  then show "k \<notin> set (v_seps v)" by simp
qed

lemma insert_effect_split:
  assumes "v_ok v" and "i < length (v_kids v)" and "v_kids v ! i = (c, kvs)" and "3 \<le> length kvs"
    and eff: "insert_effect key val (v_split i v) rw"
  shows "insert_effect key val v rw"
proof -
  let ?k = "fst (kvs ! (length kvs div 2))" and ?S = "set (v_seps (snd rw)) - set (v_seps v)"
  note k = v_split_seps_set [OF assms(1-4)]
  have "?k \<in> ?S" "set (v_seps (snd rw)) - set (v_seps (v_split i v)) = ?S - {?k}"
    using eff k by (auto simp: insert_effect_def Let_def)
  then have "v_map (v_split i v) |` (- (set (v_seps (snd rw)) - set (v_seps (v_split i v))))
      = v_map v |` (- ?S)"
    unfolding v_map_split [OF assms(1-4)] by (auto simp: restrict_map_def fun_eq_iff)
  then show ?thesis
    using eff k(1) by (simp add: insert_effect_def Let_def v_split_fields v_all_split [OF assms(2)])
qed

lemma v_insert_effect: "v_ok v \<Longrightarrow> key < key_max \<Longrightarrow> insert_effect key val v (v_insert key val v)"
proof (induction key val v rule: v_insert.induct)
  case (1 key val v)
  note ok = 1(3) and key = 1(4)
  from ok key show ?case
  proof (cases rule: v_insert_cases [where val = val])
    case marked
    then show ?thesis using ok by (simp add: insert_effect_def)
  next
    case room
    then show ?thesis
      using ok v_put_ok [OF ok key, of val] v_all_put [OF ok, of key val]
      by (auto simp: insert_effect_def v_put_def split_beta Let_def)
  next
    case (split c kvs)
    let ?w = "v_split (v_route key v) v"
    have r: "v_route key v < length (v_kids v)" using v_route_less [OF ok] .
    have "v_ok ?w" using v_split_ok [OF ok r split(2,3,5,1)] .
    then have "insert_effect key val ?w (v_insert key val ?w)"
      using 1(1) [OF split(1) refl refl refl] key split by simp
    then show ?thesis using insert_effect_split [OF ok r split(2,3)] split(6) by simp
  next
    case full
    then show ?thesis using ok 
      by (simp add: insert_effect_def v_ok_def v_map_def v_route_def v_all_def fun_eq_iff)
  qed
qed

section \<open>The bin's operations on its view\<close>

lemma bin_rep_marked:
  assumes "bin_rep b v" and "v_mark v"
  shows "bin_insert_loop (Suc n) u key val b = Inr (False, b)"
    and "bin_remove_loop (Suc n) u key b = Inr (False, b)"
  using assms by (auto simp: bin_rep_def)

text \<open>Enough fuel: every round before the last one adds a separator or marks the root.\<close>

lemma bin_insert_loop_refines:
  assumes "bin_rep b v" and "v_ok v" and "\<not> v_frz v" and "key < key_max"
    and "root_max - length (v_seps v) + (if v_mark v then 1 else 2) \<le> n"
  shows "\<exists>b'. bin_insert_loop n u key val b = Inr (fst (v_insert key val v), b')
    \<and> bin_rep b' (snd (v_insert key val v))"
  using assms
proof (induction n arbitrary: b v)
  case 0
  then show ?case by (simp split: if_splits)
next
  case (Suc n)
  note ok = Suc.prems(2) and key = Suc.prems(4)
  let ?i = "v_route key v"
  obtain c kvs where kid: "v_kids v ! ?i = (c, kvs)" by (cases "v_kids v ! ?i")
  note unf = v_insert.simps [of key val v]
  consider "v_mark v" | "\<not> v_mark v" "c < child_max"
    | "\<not> v_mark v" "\<not> c < child_max" "length (v_seps v) < root_max"
    | "\<not> v_mark v" "\<not> c < child_max" "\<not> length (v_seps v) < root_max" by blast
  then show ?case
  proof cases
    case 1
    then show ?thesis using bin_rep_marked(1) [OF Suc.prems(1)] unf Suc.prems(1) by simp
  next
    case 2
    have "v_insert key val v = (True, if key \<in> fst ` set kvs \<or> val = tombstone then v
        else v\<lparr>v_kids := (v_kids v)[?i := (c + 1, kv_insert key val kvs)]\<rparr>)"
      using 2 kid by (simp add: unf Let_def)
    then show ?thesis
      using insert_step_room [OF Suc.prems(1-3) 2(1) key kid 2(2), of n u val] by simp
  next
    case 3
    obtain b' where b': "bin_insert_loop (Suc n) u key val b = bin_insert_loop n u key val b'"
        "bin_rep b' (v_split ?i v)"
      using insert_step_split [OF Suc.prems(1-3) 3(1) kid 3(2,3)] by blast
    have "kid_ok (v_seps v) ?i (c, kvs)" using v_ok_kid [OF ok v_route_less [OF ok, of key]] kid by simp
    then have "3 \<le> length kvs" using 3 by (auto simp: kid_ok_def child_max_def)
    then have "v_ok (v_split ?i v)" using v_split_ok [OF ok v_route_less [OF ok] kid] 3 by simp
    moreover have "v_insert key val v = v_insert key val (v_split ?i v)"
      using 3 kid by (simp add: unf Let_def)
    ultimately show ?thesis
      using Suc.IH [OF b'(2)] b'(1) Suc.prems 3 v_split_nth(1) [OF ok v_route_less [OF ok] kid]
      by (simp add: v_split_fields)
  next
    case 4
    then have full: "length (v_seps v) = root_max" using ok by (simp add: v_ok_def)
    obtain b' where b': "bin_insert_loop (Suc n) u key val b = bin_insert_loop n u key val b'"
        "bin_rep b' (v\<lparr>v_mark := True\<rparr>)"
      using insert_step_mark [OF Suc.prems(1) 4(1) kid 4(2) full] by blast
    obtain n' where "n = Suc n'" using Suc.prems(5) 4(1) by (cases n) auto
    then have "bin_insert_loop n u key val b' = Inr (False, b')"
      using bin_rep_marked(1) [OF b'(2)] by simp
    moreover have "v_insert key val v = (False, v\<lparr>v_mark := True\<rparr>)"
      using 4 kid by (simp add: unf Let_def v_insert.simps [of key val "v\<lparr>v_mark := True\<rparr>"])
    ultimately show ?thesis using b' by simp
  qed
qed

lemma bin_insert_refines:
  assumes "bin_rep b v" and "v_ok v" and "\<not> v_frz v" and "key < key_max"
  shows "\<exists>b'. bin_insert u key val b = Inr (fst (v_insert key val v), b')
    \<and> bin_rep b' (snd (v_insert key val v))"
  unfolding bin_insert_def using assms by (intro bin_insert_loop_refines) auto

text \<open>The leaf a key is routed to, in a bin with a leaf root and in one with an internal root.\<close>

lemma bin_rep_addr: "bin_rep b v \<Longrightarrow> bin_store b a = Some nd \<Longrightarrow> a \<noteq> 0"
  by (auto simp: bin_rep_def dom_def)

lemma bin_rep_routeE [consumes 3, case_names leaf internal]:
  assumes rep: "bin_rep b v" and ok: "v_ok v" and kid: "v_kids v ! v_route key v = (c, kvs)"
  obtains a lf where "v_seps v = []" "bin_root b = TP a (v_mark v) False" "v_kids v = [(c, kvs)]"
    "bin_store b a = Some (LeafN lf)" "lf_count lf = c" "ll_q (v_frz v) (lf_list lf) kvs"
  | a as nd lf where "v_seps v \<noteq> []" "bin_root b = TP a (v_mark v) False"
    "root_rep b a (v_seps v) as" "distinct as" "list_all2 (leaf_rep b (v_frz v)) as (v_kids v)"
    "bin_store b a = Some (InternalN nd)" "v_route key v < length as"
    "std_lower_bound (in_key nd) (in_count nd) key = Inr (v_route key v)"
    "nth_res (in_ptr nd) (v_route key v) = Inr (as ! v_route key v)"
    "bin_store b (as ! v_route key v) = Some (LeafN lf)" "lf_count lf = c"
    "ll_q (v_frz v) (lf_list lf) kvs"
proof (cases "v_seps v = []")
  case True
  obtain a c' kvs' where a: "bin_root b = TP a (v_mark v) False" "v_kids v = [(c', kvs')]"
    "leaf_rep b (v_frz v) a (c', kvs')"
    by (rule bin_rep_leafE [OF rep True]) (rule that, assumption+)
  then have "c' = c" "kvs' = kvs" using kid True by simp_all
  with a True show ?thesis using that(1) by (auto elim!: leaf_repE)
next
  case False
  obtain a as where a: "bin_root b = TP a (v_mark v) False" "root_rep b a (v_seps v) as" "distinct as"
    "list_all2 (leaf_rep b (v_frz v)) as (v_kids v)"
    by (rule bin_rep_rootE [OF rep False]) (rule that, assumption+)
  obtain nd where nd: "bin_store b a = Some (InternalN nd)" "length as = Suc (length (v_seps v))"
    "std_lower_bound (in_key nd) (in_count nd) key = Inr (lb (v_seps v) key)"
    "\<And>i. i \<le> length (v_seps v) \<Longrightarrow> nth_res (in_ptr nd) i = Inr (as ! i)"
    by (rule root_repE [OF a(2)]) (rule that, assumption+)
  have r: "v_route key v \<le> length (v_seps v)" by (rule v_routeD [OF ok])
  then have "leaf_rep b (v_frz v) (as ! v_route key v) (c, kvs)"
    using list_all2_nthD [OF a(4), of "v_route key v"] nd(2) kid by simp
  then obtain lf where "bin_store b (as ! v_route key v) = Some (LeafN lf)" "lf_count lf = c"
      "ll_q (v_frz v) (lf_list lf) kvs"
    by (auto elim: leaf_repE)
  then show ?thesis using that(2) False a nd r by (simp add: v_route_def)
qed

lemma bin_search_view:
  assumes rep: "bin_rep b v" and ok: "v_ok v" and key: "0 < key" "key < key_max"
  shows "bin_search key b = Inr (if v_map v key = None then 0 else 1)"
proof -
  obtain c kvs where kid: "v_kids v ! v_route key v = (c, kvs)" by (cases "v_kids v ! v_route key v")
  then have m: "v_map v key = None \<longleftrightarrow> key \<notin> fst ` set kvs"
    by (simp add: v_map_def map_of_eq_None_iff)
  note defs = bin_search_def Let_def tp_true_def tp_unset_mark_def bin_load_def load_leaf_def
  from rep ok kid show ?thesis
  proof (cases rule: bin_rep_routeE)
    case (leaf a lf)
    then show ?thesis
      using bin_rep_addr [OF rep] lfl.srch_q [OF leaf(6) key] m by (simp add: defs)
  next
    case (internal a as nd lf)
    then show ?thesis
      using bin_rep_addr [OF rep] lfl.srch_q [OF internal(12) key] m by (simp add: defs)
  qed
qed

section \<open>Collecting and removing\<close>

lemma collect_children_spec:
  assumes "list_all2 (leaf_rep b f) as kids" and "distinct as"
  shows "\<exists>b'. collect_children as b acc = Inr (acc @ concat (map snd kids), b')
    \<and> list_all2 (leaf_rep b' True) as kids \<and> (\<forall>a. a \<notin> set as \<longrightarrow> bin_store b' a = bin_store b a)
    \<and> dom (bin_store b') = dom (bin_store b) \<and> bin_brk b' = bin_brk b \<and> bin_root b' = bin_root b"
  using assms
proof (induction as arbitrary: kids b acc)
  case Nil
  then show ?case by simp
next
  case (Cons a as)
  then obtain c kvs kids' where k: "kids = (c, kvs) # kids'" "leaf_rep b f a (c, kvs)"
      "list_all2 (leaf_rep b f) as kids'"
    by (cases kids) auto
  obtain lf where lf: "collect_leaf a b acc = Inr (acc @ kvs, store_leaf a lf b)" "lf_count lf = c"
      "ll_q True (lf_list lf) kvs"
    using collect_leaf_spec [OF k(2), of acc] by blast
  let ?b = "store_leaf a lf b"
  have "list_all2 (leaf_rep ?b f) as kids'"
    using k(3) Cons.prems(2) by (subst leaf_reps_cong [of _ _ b]) (auto simp: store_leaf_def)
  then obtain b' where b': "collect_children as ?b (acc @ kvs) = Inr ((acc @ kvs) @ concat (map snd kids'), b')"
      "list_all2 (leaf_rep b' True) as kids'" "\<forall>x. x \<notin> set as \<longrightarrow> bin_store b' x = bin_store ?b x"
      "dom (bin_store b') = dom (bin_store ?b)" "bin_brk b' = bin_brk b" "bin_root b' = bin_root b"
    using Cons.IH [of ?b kids' "acc @ kvs"] Cons.prems(2) by auto
  have "bin_store b' a = Some (LeafN lf)" using b'(3) Cons.prems(2) by (simp add: store_leaf_def)
  then have "leaf_rep b' True a (c, kvs)" using lf(2,3) by (simp add: leaf_rep_def)
  moreover have "dom (bin_store ?b) = dom (bin_store b)"
    using k(2) by (auto simp: store_leaf_def leaf_rep_def)
  ultimately show ?case
    using k lf(1) b' by (intro exI [of _ b']) (auto simp: store_leaf_def)
qed

lemma bin_collect_view:
  assumes rep: "bin_rep b v"
  shows "\<exists>b'. bin_collect b = Inr (v_all v, b') \<and> bin_rep b' (v\<lparr>v_frz := True\<rparr>)"
proof (cases "v_seps v = []")
  case True
  obtain a c kvs where a: "bin_root b = TP a (v_mark v) False" "v_kids v = [(c, kvs)]"
    "leaf_rep b (v_frz v) a (c, kvs)" "dom (bin_store b) \<subseteq> {1..<bin_brk b}" "0 < bin_brk b"
    by (rule bin_rep_leafE [OF rep True])
  obtain b' where b': "collect_children [a] b [] = Inr ([] @ concat (map snd [(c, kvs)]), b')"
      "list_all2 (leaf_rep b' True) [a] [(c, kvs)]" "dom (bin_store b') = dom (bin_store b)"
      "bin_brk b' = bin_brk b" "bin_root b' = bin_root b"
    using collect_children_spec [of b "v_frz v" "[a]" "[(c, kvs)]" "[]"] a(3) by auto
  obtain lf where "bin_store b a = Some (LeafN lf)" using a(3) by (auto elim: leaf_repE)
  then have "bin_collect b = collect_leaf a b []"
    using a(1) by (simp add: bin_collect_def tp_unset_mark_def bin_load_def)
  also have "\<dots> = Inr (v_all v, b')"
    using b'(1) a(2) by (cases "collect_leaf a b []") (auto simp: v_all_def split_beta)
  finally show ?thesis using True a b' by (auto simp: bin_rep_def)
next
  case False
  obtain a as where a: "bin_root b = TP a (v_mark v) False" "root_rep b a (v_seps v) as" "distinct as"
    "list_all2 (leaf_rep b (v_frz v)) as (v_kids v)" "dom (bin_store b) \<subseteq> {1..<bin_brk b}" "0 < bin_brk b"
    by (rule bin_rep_rootE [OF rep False])
  obtain nd where nd: "bin_store b a = Some (InternalN nd)" "in_count nd = int (length (v_seps v))"
    "length (in_ptr nd) = Suc root_max" "length (v_seps v) \<le> root_max"
    "take (Suc (length (v_seps v))) (in_ptr nd) = as"
    by (rule root_repE [OF a(2)]) (rule that, assumption+)
  obtain b' where b': "collect_children as b [] = Inr ([] @ concat (map snd (v_kids v)), b')"
      "list_all2 (leaf_rep b' True) as (v_kids v)" "\<forall>x. x \<notin> set as \<longrightarrow> bin_store b' x = bin_store b x"
      "dom (bin_store b') = dom (bin_store b)" "bin_brk b' = bin_brk b" "bin_root b' = bin_root b"
    using collect_children_spec [OF a(4,3), of "[]"] by blast
  have eq: "nat (int (length (v_seps v)) + 1) = Suc (length (v_seps v))" by simp
  have "bin_collect b = collect_children as b []"
    using a(1) nd by (simp add: bin_collect_def tp_unset_mark_def bin_load_def eq)
  moreover have "a \<notin> set as"
    using nd(1) a(4) by (auto simp: list_all2_conv_all_nth leaf_rep_def in_set_conv_nth)
  then have "root_rep b' a (v_seps v) as" using a(2) b'(3) by (simp add: root_rep_def)
  ultimately show ?thesis
    using False a b' by (auto simp: bin_rep_def v_all_def)
qed

text \<open>Removal from a bin whose root is a leaf.\<close>

lemma bin_remove_leaf_view:
  assumes rep: "bin_rep b v" and ok: "v_ok v" and flags: "\<not> v_mark v" "\<not> v_frz v"
    and leaf: "v_seps v = []" and key: "key < key_max" and kid: "v_kids v = [(c, kvs)]"
  defines "w \<equiv> v\<lparr>v_kids := [(c - 1, kv_delete key kvs)]\<rparr>"
  shows "\<exists>b'. bin_remove u key b = Inr (True, b') \<and> bin_rep b' w" and "v_ok w"
    and "v_map w = (v_map v)(key := None)"
proof -
  have kok: "kid_ok (v_seps v) 0 (c, kvs)" using v_ok_kid [OF ok, of 0] kid by simp
  have del: "length kvs \<le> Suc (length (kv_delete key kvs))" if "key \<in> fst ` set kvs"
  proof -
    have "card (fst ` set kvs) \<le> Suc (card (fst ` set (kv_delete key kvs)))"
    proof -
      have "fst ` set kvs \<subseteq> insert key (fst ` set (kv_delete key kvs))" by (auto simp: kv_delete_def)
      then have "card (fst ` set kvs) \<le> card (insert key (fst ` set (kv_delete key kvs)))"
        by (intro card_mono) auto
      also have "\<dots> \<le> Suc (card (fst ` set (kv_delete key kvs)))" by (rule card_insert_le_m1) auto
      finally show ?thesis .
    qed
    moreover have "card (fst ` set kvs) = length kvs"
      using ssorted_distinct [OF kid_okD(1) [OF kok]] by (metis distinct_card length_map list.set_map)
    moreover have "card (fst ` set (kv_delete key kvs)) \<le> length (kv_delete key kvs)"
      by (metis card_length length_map list.set_map)
    ultimately show ?thesis by linarith
  qed
  have "c - 1 \<le> int (length (kv_delete key kvs))"
    using kid_okD(2) [OF kok] del kv_delete_absent [of key kvs] by (cases "key \<in> fst ` set kvs") auto
  then have "kid_ok (v_seps v) 0 (c - 1, kv_delete key kvs)"
    using kok kv_delete_sorted [of kvs key] by (auto simp: kid_ok_def kv_delete_def)
  then show "v_ok w" using ok leaf kid flags by (simp add: v_ok_def w_def)
  show "v_map w = (v_map v)(key := None)"
    using leaf kid by (auto simp: v_map_def w_def map_of_kv_delete fun_eq_iff)
  obtain a c' kvs' where a: "bin_root b = TP a (v_mark v) False" "v_kids v = [(c', kvs')]"
    "leaf_rep b (v_frz v) a (c', kvs')" "dom (bin_store b) \<subseteq> {1..<bin_brk b}" "0 < bin_brk b"
    by (rule bin_rep_leafE [OF rep leaf])
  then obtain lf where lf: "bin_store b a = Some (LeafN lf)" "lf_count lf = c" "ll_q False (lf_list lf) kvs"
    using kid flags by (auto elim: leaf_repE)
  obtain l' r where l': "ll_remove key (lf_list lf) = Inr (r, l')" "ll_q False l' (kv_delete key kvs)"
    using lfl.rem_live [OF lf(3) key] by auto
  let ?lf = "lf\<lparr>lf_list := l', lf_count := lf_count lf - 1\<rparr>"
  let ?b = "(store_leaf a ?lf b)\<lparr>bin_size := bin_size b + 1\<rparr>"
  have "remove_leaf u key a b = Inr (null_ptr, store_leaf a ?lf b)"
    using lf(1) l'(1) by (simp add: remove_leaf_def load_leaf_def Let_def)
  then have "bin_remove u key b = Inr (True, ?b)"
    using a(1) lf(1) flags by (simp add: bin_remove_def bin_load_def tp_true_def root_max_def numeral_eq_Suc)
  moreover have "leaf_rep (store_leaf a ?lf b) False a (c - 1, kv_delete key kvs)"
    using lf(2) l'(2) by (simp add: leaf_rep_def store_leaf_def)
  then have "bin_rep ?b w"
    using a(1,4,5) lf(1) leaf flags by (auto simp: bin_rep_def w_def store_leaf_def)
  ultimately show "\<exists>b'. bin_remove u key b = Inr (True, b') \<and> bin_rep b' w" by blast
qed

text \<open>With an internal root, a removal that does not report a frozen list runs off the end of
  \<open>remove_internal\<close>.\<close>

lemma bin_remove_internal_view:
  assumes rep: "bin_rep b v" and ok: "v_ok v" and flags: "\<not> v_mark v" "\<not> v_frz v"
    and int: "v_seps v \<noteq> []" and key: "key < key_max"
    and val: "\<And>x. v_map v key = Some x \<Longrightarrow> to_int32 x \<noteq> - 1"
  shows "bin_remove u key b = Inl NoReturn"
proof -
  obtain c kvs where kid: "v_kids v ! v_route key v = (c, kvs)" by (cases "v_kids v ! v_route key v")
  from rep ok kid show ?thesis
  proof (cases rule: bin_rep_routeE)
    case (leaf a lf)
    then show ?thesis using int by simp
  next
    case (internal a as nd lf)
    obtain l' where l': "ll_remove key (lf_list lf) =
        Inr (case map_of kvs key of None \<Rightarrow> - 2 | Some x \<Rightarrow> to_int32 x, l')"
      using lfl.rem_live [OF _ key, of "lf_list lf" kvs] internal(12) flags by auto
    have "(case map_of kvs key of None \<Rightarrow> - 2 | Some x \<Rightarrow> to_int32 x) \<noteq> - 1"
      using val kid by (auto simp: v_map_def split: option.split)
    then have "remove_internal u key a b = Inl NoReturn"
      using internal l' by (simp add: remove_internal_def load_internal_def load_leaf_def Let_def)
    then show ?thesis
      using internal flags by (simp add: bin_remove_def bin_load_def root_max_def numeral_eq_Suc)
  qed
qed

section \<open>Sequences of operations on a bin\<close>

definition v_new :: "int \<Rightarrow> bview" where
  "v_new c = \<lparr>v_seps = [], v_kids = [(c, [])], v_mark = False, v_frz = False\<rparr>"

lemma bin_rep_new: "bin_rep (Bin_new u) (v_new (u 1))"
  using ll_q_new [of "of_int (u 1)"]
  by (auto simp: bin_rep_def v_new_def Bin_new_def bin_alloc_def leaf_rep_def leaf_node_new_def)

lemma v_ok_new: "c \<le> 0 \<Longrightarrow> v_ok (v_new c)"
  by (simp add: v_ok_def v_new_def kid_ok_def)

datatype bop = BInsert key_t val_t | BSearch key_t

datatype bret = BBool bool | BVal val_t

fun bop_ok :: "bop \<Rightarrow> bool" where
  "bop_ok (BInsert k v) \<longleftrightarrow> k < key_max"
| "bop_ok (BSearch k) \<longleftrightarrow> 0 < k \<and> k < key_max"

fun bin_step :: "(addr \<Rightarrow> int) \<Rightarrow> bop \<Rightarrow> Bin \<Rightarrow> (bret \<times> Bin) res" where
  "bin_step u (BInsert k v) b = bind_res (bin_insert u k v b) (\<lambda>(r, b'). Inr (BBool r, b'))"
| "bin_step u (BSearch k) b = bind_res (bin_search k b) (\<lambda>r. Inr (BVal r, b))"

fun v_step :: "bop \<Rightarrow> bview \<Rightarrow> bret \<times> bview" where
  "v_step (BInsert k x) v = (BBool (fst (v_insert k x v)), snd (v_insert k x v))"
| "v_step (BSearch k) v = (BVal (if v_map v k = None then 0 else 1), v)"

interpretation bin_ops: op_refinement "\<lambda>b v. bin_rep b v \<and> v_ok v \<and> \<not> v_frz v" "bin_step u" v_step bop_ok
proof
  fix s a x
  assume a: "bin_rep s a \<and> v_ok a \<and> \<not> v_frz a" and "bop_ok x"
  then show "\<exists>s'. bin_step u x s = Inr (fst (v_step x a), s')
      \<and> bin_rep s' (snd (v_step x a)) \<and> v_ok (snd (v_step x a)) \<and> \<not> v_frz (snd (v_step x a))"
  proof (cases x)
    case (BInsert k v)
    then show ?thesis
      using a \<open>bop_ok x\<close> bin_insert_refines [of s a k u v] v_insert_effect [of a k v]
      by (auto simp: insert_effect_def Let_def)
  next
    case (BSearch k)
    then show ?thesis using a \<open>bop_ok x\<close> bin_search_view [of s a k] by simp
  qed
qed

section \<open>Correctness of the bin\<close>

text \<open>C38. A sequence of inserts and searches on a new bin (whose leaf counter starts at most at
  zero) never fails and never runs out of fuel, and returns what the view specification
  returns: the bin refines its view, splits and the closing of a full bin included.\<close>

theorem bin_run_refines:
  assumes "list_all bop_ok ops" and "u 1 \<le> 0"
  shows "\<exists>b'. run_ops (bin_step u) ops (Bin_new u) = Inr (fst (run_spec v_step ops (v_new (u 1))), b')
    \<and> bin_rep b' (snd (run_spec v_step ops (v_new (u 1))))
    \<and> v_ok (snd (run_spec v_step ops (v_new (u 1))))"
  using bin_ops.run_refines [of "Bin_new u" "v_new (u 1)" ops u] assms bin_rep_new v_ok_new
  by (auto simp: v_new_def)

theorem bin_run_refines_witness:
  "\<exists>b'. run_ops (bin_step (\<lambda>_. 0)) [BInsert 7 1, BSearch 7, BSearch 8] (Bin_new (\<lambda>_. 0)) =
    Inr ([BBool True, BVal 1, BVal 0], b')"
  using bin_run_refines [of "[BInsert 7 1, BSearch 7, BSearch 8]" "\<lambda>_. 0"]
  by (simp add: v_new_def v_insert.simps v_map_def v_route_def lb_def kv_insert_def child_max_def
      split_beta) blast

text \<open>Inserting a key below the greatest one into a well-formed bin returns; the invariant is
  kept; the result is false exactly when the bin is closed afterwards. The keys that became
  separators during the call are hidden from searches; if the bin is open and the key is not
  visible, the pair is added (unless the value is the tombstone); every other visible pair stays,
  and no stored pair is lost for a later collect.\<close>

theorem bin_insert_correct:
  assumes "bin_rep b v" and "v_ok v" and "\<not> v_frz v" and "key < key_max"
  shows "\<exists>r b' w. bin_insert u key val b = Inr (r, b') \<and> bin_rep b' w \<and> v_ok w
    \<and> r = (\<not> v_mark w) \<and> set (v_seps v) \<subseteq> set (v_seps w)
    \<and> (let m = v_map v |` (- (set (v_seps w) - set (v_seps v)));
           new = (r \<and> m key = None \<and> val \<noteq> tombstone)
       in v_map w = (if new then m(key \<mapsto> val) else m)
          \<and> set (v_all w) = (if new then insert (key, val) (set (v_all v)) else set (v_all v)))"
proof -
  obtain b' where b': "bin_insert u key val b = Inr (fst (v_insert key val v), b')"
      "bin_rep b' (snd (v_insert key val v))"
    using bin_insert_refines [OF assms, of u val] by blast
  obtain r w where rw: "v_insert key val v = (r, w)" by (cases "v_insert key val v")
  have "insert_effect key val v (r, w)" using v_insert_effect [OF assms(2,4), of val] rw by simp
  then show ?thesis
    using b' unfolding rw insert_effect_def Let_def fst_conv snd_conv
    by (elim conjE, intro exI [of _ r] exI [of _ b'] exI [of _ w] conjI) assumption+
qed

theorem bin_insert_correct_witness:
  "\<exists>r b'. bin_insert (\<lambda>_. 0) 5 6 (Bin_new (\<lambda>_. 0)) = Inr (r, b')"
  using bin_insert_correct [of "Bin_new (\<lambda>_. 0)" "v_new 0" 5 "\<lambda>_. 0" 6]
    bin_rep_new [of "\<lambda>_. 0"] v_ok_new [of 0]
  by (auto simp: v_new_def)

text \<open>Searching a well-formed bin, frozen, closed or not, returns 1 exactly when the key is in the
  leaf it is routed to and 0 otherwise: the result tells presence, never the stored value.\<close>

theorem bin_search_correct:
  assumes "bin_rep b v" and "v_ok v" and "0 < key" and "key < key_max"
  shows "bin_search key b = Inr (if v_map v key = None then 0 else 1)"
  using assms by (rule bin_search_view)

theorem bin_search_correct_witness: "bin_search 5 (Bin_new (\<lambda>_. 0)) = Inr 0"
  using bin_search_correct [of "Bin_new (\<lambda>_. 0)" "v_new 0" 5] bin_rep_new [of "\<lambda>_. 0"] v_ok_new [of 0]
  by (simp add: v_map_def v_new_def v_route_def lb_def)

text \<open>Collecting a well-formed bin returns all its pairs sorted by key, every visible pair among
  them, and freezes every leaf.\<close>

theorem bin_collect_correct:
  assumes "bin_rep b v" and "v_ok v"
  shows "\<exists>b'. bin_collect b = Inr (v_all v, b') \<and> bin_rep b' (v\<lparr>v_frz := True\<rparr>)
    \<and> sorted (map fst (v_all v)) \<and> (\<forall>k x. v_map v k = Some x \<longrightarrow> (k, x) \<in> set (v_all v))"
proof -
  have "(k, x) \<in> set (v_all v)" if "v_map v k = Some x" for k x
  proof -
    have "(k, x) \<in> set (snd (v_kids v ! v_route k v))"
      using that by (simp add: v_map_def map_of_SomeD)
    then show ?thesis using v_route_less [OF assms(2), of k] by (force simp: v_all_def)
  qed
  then show ?thesis using bin_collect_view [OF assms(1)] v_all_sorted [OF assms(2)] by blast
qed

theorem bin_collect_correct_witness: "\<exists>b'. bin_collect (Bin_new (\<lambda>_. 0)) = Inr ([], b')"
  using bin_collect_correct [of "Bin_new (\<lambda>_. 0)" "v_new 0"] bin_rep_new [of "\<lambda>_. 0"] v_ok_new [of 0]
  by (auto simp: v_all_def v_new_def)

text \<open>When an insert finds the root leaf full, the leaf is split and its middle key, found by a
  search before, is not found any more (unless it is the key being inserted), although collect
  still returns it.\<close>

theorem split_hides_separator:
  assumes rep: "bin_rep b v" "v_ok v" "\<not> v_frz v" "\<not> v_mark v"
    and leaf: "v_seps v = []" "v_kids v = [(c, kvs)]" "child_max \<le> c"
    and key: "key < key_max" "key \<noteq> fst (kvs ! (length kvs div 2))"
  shows "\<exists>r b' w. bin_insert u key val b = Inr (r, b') \<and> bin_rep b' w
    \<and> bin_search (fst (kvs ! (length kvs div 2))) b = Inr 1
    \<and> bin_search (fst (kvs ! (length kvs div 2))) b' = Inr 0
    \<and> kvs ! (length kvs div 2) \<in> set (v_all w)"
proof -
  let ?n = "length kvs div 2" and ?k = "fst (kvs ! (length kvs div 2))"
  have kok: "kid_ok (v_seps v) 0 (c, kvs)" using v_ok_kid [OF rep(2), of 0] leaf(2) by simp
  have len: "3 \<le> length kvs" using kid_okD(2) [OF kok] leaf(3) by (simp add: child_max_def)
  note mid = mid_key [OF kok len]
  have k0: "0 < ?k"
  proof -
    have "kvs ! 0 \<in> set (take ?n kvs)" using len by (auto simp: in_set_conv_nth intro!: exI [of _ 0])
    from mid(2) [OF this] show ?thesis by (rule order_le_less_trans [OF word_zero_le])
  qed
  have kmax: "?k < key_max" using kid_okD(3) [OF kok nth_mem [OF mid(1)]] .
  have i0: "0 < length (v_kids v)" "v_kids v ! 0 = (c, kvs)" "v_route key v = 0"
    using leaf by simp_all
  obtain r w where rw: "v_insert key val v = (r, w)" by (cases "v_insert key val v")
  obtain b' where b': "bin_insert u key val b = Inr (r, b')" "bin_rep b' w"
    using bin_insert_refines [OF rep(1-3) key(1), of u val] rw by auto
  have room: "length (v_seps v) < root_max" using leaf(1) by (simp add: root_max_def)
  have okw: "v_ok (v_split 0 v)" by (rule v_split_ok [OF rep(2) i0(1,2) len room rep(4)])
  have "v_insert key val v = v_insert key val (v_split 0 v)"
    using leaf(3) rep(4) room unfolding v_insert.simps [of key val v] i0(2,3) Let_def
    by (simp add: not_less)
  then have "insert_effect key val (v_split 0 v) (r, w)"
    using v_insert_effect [OF okw key(1), of val] rw by simp
  then have "?k \<in> set (v_seps w)"
    using v_split_seps_set(1) [OF rep(2) i0(1,2) len] by (auto simp: insert_effect_def Let_def)
  moreover have eff: "insert_effect key val v (r, w)"
    using v_insert_effect [OF rep(2) key(1), of val] rw by simp
  ultimately have "v_map w ?k = None"
    using leaf(1) key(2) by (auto simp: insert_effect_def Let_def restrict_map_def)
  then have "bin_search ?k b' = Inr 0"
    using bin_search_view [OF b'(2) _ k0 kmax] eff by (simp add: insert_effect_def Let_def)
  moreover have "map_of kvs ?k \<noteq> None"
    using nth_mem [OF mid(1)] unfolding map_of_eq_None_iff by blast
  then have "bin_search ?k b = Inr 1"
    using bin_search_view [OF rep(1,2) k0 kmax] leaf i0 by (simp add: v_map_def)
  moreover have "kvs ! ?n \<in> set (v_all w)"
    using eff leaf(2) nth_mem [OF mid(1)] by (auto simp: insert_effect_def Let_def v_all_def split: if_splits)
  ultimately show ?thesis using b' by blast
qed

text \<open>A bin whose root leaf holds the pairs 1, ..., 32.\<close>

definition full_kvs :: "(key_t \<times> val_t) list" where
  "full_kvs = map (\<lambda>i. (of_nat i, 1)) [1..<33]"

definition leaf_bin :: "(key_t \<times> val_t) list \<Rightarrow> leaf_node \<Rightarrow> Bin" where
  "leaf_bin kvs lf = \<lparr>bin_root = clean 1, bin_size = 0, bin_store = [1 \<mapsto> LeafN lf], bin_brk = 2\<rparr>"

definition leaf_view :: "(key_t \<times> val_t) list \<Rightarrow> bool \<Rightarrow> bview" where
  "leaf_view kvs f = \<lparr>v_seps = [], v_kids = [(int (length kvs), kvs)], v_mark = False, v_frz = f\<rparr>"

lemma full_kvs_sorted: "ssorted (map fst full_kvs)" "\<forall>p \<in> set full_kvs. fst p < key_max"
  by (simp_all add: full_kvs_def upt_conv_Cons)

lemma leaf_bin_rep:
  assumes "ssorted (map fst kvs)" and "\<forall>p \<in> set kvs. fst p < key_max"
  obtains lf where "bin_rep (leaf_bin kvs lf) (leaf_view kvs False)" "v_ok (leaf_view kvs False)"
proof -
  obtain l where "ll_q False l kvs" using filled_leaf_spec [OF assms, of 0] by blast
  then have "bin_rep (leaf_bin kvs \<lparr>lf_count = int (length kvs), lf_list = l\<rparr>) (leaf_view kvs False)"
    by (simp add: bin_rep_def leaf_bin_def leaf_view_def leaf_rep_def)
  moreover have "v_ok (leaf_view kvs False)"
    using assms by (simp add: v_ok_def leaf_view_def kid_ok_def)
  ultimately show ?thesis by (rule that)
qed

theorem split_hides_separator_witness:
  "\<exists>b r b'. bin_insert (\<lambda>_. 0) 40 1 b = Inr (r, b') \<and> bin_search 17 b = Inr 1 \<and> bin_search 17 b' = Inr 0"
proof -
  obtain lf where rep: "bin_rep (leaf_bin full_kvs lf) (leaf_view full_kvs False)"
      "v_ok (leaf_view full_kvs False)"
    using leaf_bin_rep [OF full_kvs_sorted] by blast
  have len: "length full_kvs = 32" by (simp add: full_kvs_def)
  have "fst (full_kvs ! (length full_kvs div 2)) = 17" by (simp add: full_kvs_def)
  then show ?thesis
    using split_hides_separator [OF rep, of "int (length full_kvs)" full_kvs 40 "\<lambda>_. 0" 1] len
    by (fastforce simp: leaf_view_def child_max_def)
qed

text \<open>Removing from an open bin whose root is a leaf always reports true; the key is gone
  afterwards and every other visible pair stays, whether the key was there or not.\<close>

theorem bin_remove_leaf_correct:
  assumes "bin_rep b v" and "v_ok v" and "\<not> v_mark v" and "\<not> v_frz v" and "v_seps v = []"
    and "key < key_max"
  shows "\<exists>b' w. bin_remove u key b = Inr (True, b') \<and> bin_rep b' w \<and> v_ok w
    \<and> v_seps w = [] \<and> v_map w = (v_map v)(key := None)"
proof -
  obtain a c kvs where "v_kids v = [(c, kvs)]"
    by (rule bin_rep_leafE [OF assms(1,5)]) (rule that, assumption+)
  from bin_remove_leaf_view(1) [OF assms this, of u] bin_remove_leaf_view(2,3) [OF assms this]
  show ?thesis using assms(5) by fastforce
qed

theorem bin_remove_leaf_correct_witness:
  "\<exists>b'. bin_remove (\<lambda>_. 0) 9 (Bin_new (\<lambda>_. 0)) = Inr (True, b')"
  using bin_remove_leaf_correct [of "Bin_new (\<lambda>_. 0)" "v_new 0" 9 "\<lambda>_. 0"] bin_rep_new [of "\<lambda>_. 0"]
    v_ok_new [of 0]
  by (auto simp: v_new_def)

text \<open>Removing from an open bin whose root is an internal node, present key or not, reaches the
  end of remove_internal without a return value (the removed value's low 32 bits being -1
  excepted, which is read as a frozen list).\<close>

theorem bin_remove_internal_undefined:
  assumes "bin_rep b v" and "v_ok v" and "\<not> v_mark v" and "\<not> v_frz v" and "v_seps v \<noteq> []"
    and "key < key_max" and "\<forall>x. v_map v key = Some x \<longrightarrow> to_int32 x \<noteq> - 1"
  shows "bin_remove u key b = Inl NoReturn"
  using assms by (intro bin_remove_internal_view) auto

theorem bin_remove_internal_undefined_witness: "\<exists>b. bin_remove (\<lambda>_. 0) 3 b = Inl NoReturn"
proof -
  let ?v = "leaf_view full_kvs False"
  obtain lf where rep: "bin_rep (leaf_bin full_kvs lf) ?v" "v_ok ?v"
    using leaf_bin_rep [OF full_kvs_sorted] by blast
  have len: "length full_kvs = 32" by (simp add: full_kvs_def)
  have view: "\<not> v_frz ?v" "\<not> v_mark ?v" "v_kids ?v ! v_route 40 ?v = (int (length full_kvs), full_kvs)"
    "\<not> int (length full_kvs) < child_max" "length (v_seps ?v) < root_max" "v_route 40 ?v = 0"
    using len by (simp_all add: leaf_view_def child_max_def root_max_def)
  obtain b' where b': "bin_rep b' (v_split 0 ?v)"
    using insert_step_split [OF rep view(1-5)] unfolding view(6) by blast
  have "v_ok (v_split 0 ?v)"
    using v_split_ok [OF rep(2), of 0 "int (length full_kvs)" full_kvs] len
    by (simp add: leaf_view_def root_max_def)
  moreover have "\<forall>x. v_map (v_split 0 ?v) 3 = Some x \<longrightarrow> to_int32 x \<noteq> - 1"
    using v_map_split [OF rep(2), of 0 "int (length full_kvs)" full_kvs] len
    by (auto simp: leaf_view_def v_map_def v_route_def lb_def full_kvs_def to_int32_def dest!: map_of_SomeD)
  ultimately have "bin_remove (\<lambda>_. 0) 3 b' = Inl NoReturn"
    using b' by (intro bin_remove_internal_undefined [of b' "v_split 0 ?v"])
      (auto simp: v_split_def leaf_view_def Let_def)
  then show ?thesis by blast
qed

text \<open>An insert into an open bin whose root leaf is frozen (collected by another thread) with
  room left reports success and changes nothing but the leaf's counter: the pair is lost.\<close>

theorem frozen_insert_lost:
  assumes rep: "bin_rep b v" and "\<not> v_mark v" and "v_frz v" and "v_seps v = []"
    and kid: "v_kids v = [(c, kvs)]" "c < child_max"
  shows "\<exists>b'. bin_insert u key val b = Inr (True, b') \<and> bin_rep b' (v\<lparr>v_kids := [(c + 1, kvs)]\<rparr>)"
proof -
  obtain a c' kvs' where a: "bin_root b = TP a (v_mark v) False" "v_kids v = [(c', kvs')]"
    "leaf_rep b (v_frz v) a (c', kvs')" "dom (bin_store b) \<subseteq> {1..<bin_brk b}" "0 < bin_brk b"
    by (rule bin_rep_leafE [OF rep assms(4)])
  then obtain lf where lf: "bin_store b a = Some (LeafN lf)" "lf_count lf = c" "ll_q True (lf_list lf) kvs"
    using assms by (auto elim: leaf_repE)
  let ?lf = "lf\<lparr>lf_list := lf_list lf, lf_count := lf_count lf + 1\<rparr>"
  let ?b = "(store_leaf a ?lf b)\<lparr>bin_size := bin_size b + 1\<rparr>"
  have "insert_leaf u key val a b = Inr (null_ptr, store_leaf a ?lf b)"
    using lf(1,2) kid(2) lfl.ins_frozen [OF lf(3)] by (simp add: insert_leaf_def load_leaf_def Let_def)
  then have "bin_insert u key val b = Inr (True, ?b)"
    using a(1) lf(1) assms(2) by (simp add: bin_insert_def bin_load_def tp_true_def root_max_def numeral_eq_Suc)
  moreover have "leaf_rep (store_leaf a ?lf b) True a (c + 1, kvs)"
    using lf(2,3) by (simp add: leaf_rep_def store_leaf_def)
  then have "bin_rep ?b (v\<lparr>v_kids := [(c + 1, kvs)]\<rparr>)"
    using a(1,4,5) lf(1) assms(3,4) by (auto simp: bin_rep_def store_leaf_def)
  ultimately show ?thesis by blast
qed

theorem frozen_insert_lost_witness:
  "\<exists>b b'. bin_insert (\<lambda>_. 0) 5 6 b = Inr (True, b') \<and> bin_rep b' (v_new 1\<lparr>v_frz := True\<rparr>)"
proof -
  obtain b where b: "bin_rep b (v_new 0\<lparr>v_frz := True\<rparr>)"
    using bin_collect_view [OF bin_rep_new [of "\<lambda>_. 0"]] by auto
  show ?thesis
    using frozen_insert_lost [OF b, of 0 "[]" "\<lambda>_. 0" 5 6] by (auto simp: v_new_def child_max_def)
qed

text \<open>The leaf constructor leaves its counter uninitialised: if fresh memory holds a value of at
  least 32 there, the first insert splits an empty leaf and reads past the end of the empty key
  vector.\<close>

theorem uninitialised_count_fails:
  assumes "child_max \<le> u 1"
  shows "bin_insert u key val (Bin_new u) = Inl OutOfRange"
proof -
  let ?b = "Bin_new u"
  obtain lf where lf: "collect_leaf 1 ?b [] = Inr ([], store_leaf 1 lf ?b)"
    using collect_leaf_spec [of ?b False 1 "u 1" "[]" "[]"] bin_rep_new [of u]
    by (auto simp: bin_rep_def v_new_def Bin_new_def bin_alloc_def)
  have "split_root u [] b = Inl OutOfRange" for b
  proof -
    obtain l r where "filled_leaf (u (bin_brk b)) [] = Inr l" "filled_leaf (u (Suc (bin_brk b))) [] = Inr r"
      using filled_leaf_spec [of "[]"] by force
    then show ?thesis by (simp add: split_root_def bin_alloc_def nth_res_def)
  qed
  moreover have "bin_root ?b = clean 1" "bin_store ?b 1 = Some (LeafN (leaf_node_new (u 1)))"
    by (simp_all add: Bin_new_def bin_alloc_def)
  ultimately show ?thesis
    using assms lf
    by (simp add: bin_insert_def root_max_def numeral_eq_Suc bin_load_def insert_leaf_def load_leaf_def
        leaf_node_new_def)
qed

theorem uninitialised_count_fails_witness: "bin_insert (\<lambda>_. 99) 5 6 (Bin_new (\<lambda>_. 99)) = Inl OutOfRange"
  by (rule uninitialised_count_fails) (simp add: child_max_def)

end
