(* ===== verification/LR_Model.thy ===== *)
theory LR_Model
  imports Prelude
begin

text \<open>
  The linear regression model of a learned node: \<open>common/lr_model.h\<close> and
  \<open>common/lr_model_impl.h\<close>.

  The \<open>double\<close> arithmetic of the machine is an argument of the model, the record \<open>fp_ops\<close> of the
  operations the code uses; no theorem assumes anything of it, so rounding, infinities and the
  conversion of an out-of-range \<open>double\<close> are covered whatever they give. \<open>size_t\<close> results are
  64-bit words, \<open>int error\<close> is a 32-bit word and its comparison with a \<open>size_t\<close> sign-extends it.

  \<open>max_error_bound\<close> is what the search in a learned node relies on: after training, the predicted
  position of every training key is within \<open>maxErr\<close> of its real one.
\<close>

record 'd fp_ops =
  fp_zero :: 'd
  fp_of_key :: "key_t \<Rightarrow> 'd"
  fp_of_size :: "64 word \<Rightarrow> 'd"
  fp_add :: "'d \<Rightarrow> 'd \<Rightarrow> 'd"
  fp_sub :: "'d \<Rightarrow> 'd \<Rightarrow> 'd"
  fp_mul :: "'d \<Rightarrow> 'd \<Rightarrow> 'd"
  fp_div :: "'d \<Rightarrow> 'd \<Rightarrow> 'd"
  fp_pos :: "'d \<Rightarrow> bool"
  fp_to_size :: "'d \<Rightarrow> 64 word"

record 'd lr_model =
  lr_maxErr :: "64 word"
  lr_w0 :: 'd
  lr_w1 :: 'd

text \<open>The default constructor sets \<open>maxErr\<close> only; the weights are what memory holds.\<close>

definition lr_new :: "'d \<Rightarrow> 'd \<Rightarrow> 'd lr_model" where
  "lr_new w b = \<lparr>lr_maxErr = 0, lr_w0 = w, lr_w1 = b\<rparr>"

definition lr_predict :: "'d fp_ops \<Rightarrow> 'd lr_model \<Rightarrow> key_t \<Rightarrow> 64 word" where
  "lr_predict fp m key =
     (let r = fp_add fp (fp_mul fp (lr_w0 m) (fp_of_key fp key)) (lr_w1 m)
      in if fp_pos fp r then fp_to_size fp r else 0)"

definition lr_predict_all :: "'d fp_ops \<Rightarrow> 'd lr_model \<Rightarrow> key_t list \<Rightarrow> 64 word list res" where
  "lr_predict_all fp m keys = assert_res (keys \<noteq> []) (Inr (map (lr_predict fp m) keys))"

text \<open>\<open>int error = std::abs(pos_actual - pos_pred)\<close>, read back as a \<open>size_t\<close>.\<close>

definition err_size :: "64 word \<Rightarrow> 64 word \<Rightarrow> 64 word" where
  "err_size actual pred =
     (let d = actual - pred;
          a = (if sint d < 0 then - d else d);
          error = (ucast a :: 32 word)
      in scast error)"

fun max_error_loop ::
    "'d fp_ops \<Rightarrow> 'd lr_model \<Rightarrow> (key_t \<times> 64 word) list \<Rightarrow> 64 word \<Rightarrow> 64 word" where
  "max_error_loop fp m [] mx = mx"
| "max_error_loop fp m ((k, pos) # kps) mx =
     max_error_loop fp m kps
       (let error = err_size pos (lr_predict fp m k) in if mx < error then error else mx)"

definition max_error :: "'d fp_ops \<Rightarrow> 'd lr_model \<Rightarrow> key_t list \<Rightarrow> 64 word list \<Rightarrow> 64 word" where
  "max_error fp m keys positions = max_error_loop fp m (zip keys positions) 0"

text \<open>The overload over an iterator range takes the positions 0, 1, ...\<close>

definition positions_upto :: "nat \<Rightarrow> 64 word list" where
  "positions_upto n = map of_nat [0..<n]"

definition max_error_range :: "'d fp_ops \<Rightarrow> 'd lr_model \<Rightarrow> key_t list \<Rightarrow> 64 word" where
  "max_error_range fp m keys = max_error_loop fp m (zip keys (positions_upto (length keys))) 0"

text \<open>The sums of the training loop: x, y, x squared and x y.\<close>

fun train_sums ::
    "'d fp_ops \<Rightarrow> (key_t \<times> 64 word) list \<Rightarrow> 'd \<times> 'd \<times> 'd \<times> 'd \<Rightarrow> 'd \<times> 'd \<times> 'd \<times> 'd" where
  "train_sums fp [] s = s"
| "train_sums fp ((k, pos) # kps) (x, y, xx, xy) =
     (let key = fp_of_key fp k; p = fp_of_size fp pos in
      train_sums fp kps
        (fp_add fp x key, fp_add fp y p, fp_add fp xx (fp_mul fp key key), fp_add fp xy (fp_mul fp key p)))"

definition lr_train :: "'d fp_ops \<Rightarrow> 'd lr_model \<Rightarrow> key_t list \<Rightarrow> 64 word list \<Rightarrow> 'd lr_model res" where
  "lr_train fp m keys positions =
     assert_res (length keys = length positions)
      (if keys = [] then Inr m
       else if length positions = 1 then
         Inr (m\<lparr>lr_w0 := fp_zero fp, lr_w1 := fp_of_size fp (hd positions)\<rparr>)
       else
         let z = fp_zero fp; n = fp_of_size fp (of_nat (length positions));
             (x0, y0, xx0, xy0) = train_sums fp (zip keys positions) (z, z, z, z) in
         assert_res (fp_pos fp x0) (assert_res (fp_pos fp y0)
         (assert_res (fp_pos fp xx0) (assert_res (fp_pos fp xy0)
         (let x = fp_div fp x0 n; y = fp_div fp y0 n; xx = fp_div fp xx0 n; xy = fp_div fp xy0 n;
              den = fp_sub fp xx (fp_mul fp x x);
              m1 = m\<lparr>lr_w0 := fp_div fp (fp_sub fp xy (fp_mul fp x y)) den,
                     lr_w1 := fp_div fp (fp_sub fp (fp_mul fp xx y) (fp_mul fp x xy)) den\<rparr>
          in Inr (m1\<lparr>lr_maxErr := max_error fp m1 keys positions\<rparr>))))))"

definition lr_train_range :: "'d fp_ops \<Rightarrow> 'd lr_model \<Rightarrow> key_t list \<Rightarrow> 'd lr_model res" where
  "lr_train_range fp m keys = lr_train fp m keys (positions_upto (length keys))"

text \<open>Training returns a model or fails an assertion.\<close>

lemma lr_train_range_cases:
  "lr_train_range fp m ks = Inl AssertFail \<or> (\<exists>lr. lr_train_range fp m ks = Inr lr)"
  unfolding lr_train_range_def lr_train_def
  by (auto simp: assert_res_def Let_def split: prod.split)

section \<open>The error bound\<close>

lemma sint_small64: "- (2 ^ 63) \<le> z \<Longrightarrow> z < 2 ^ 63 \<Longrightarrow> sint (word_of_int z :: 64 word) = z"
  using signed_take_bit_int_eq_self [of 63 z] by (simp add: sint_sbintrunc')

lemma sint_small32: "- (2 ^ 31) \<le> z \<Longrightarrow> z < 2 ^ 31 \<Longrightarrow> sint (word_of_int z :: 32 word) = z"
  using signed_take_bit_int_eq_self [of 31 z] by (simp add: sint_sbintrunc')

lemma uint_small64: "0 \<le> z \<Longrightarrow> z < 2 ^ 64 \<Longrightarrow> uint (word_of_int z :: 64 word) = z"
  by (simp add: uint_word_of_int mod_pos_pos_trivial)

lemma err_size_small:
  assumes "\<bar>uint actual - uint pred\<bar> < 2 ^ 31"
  shows "uint (err_size actual pred) = \<bar>uint actual - uint pred\<bar>"
proof -
  define z where "z = uint actual - uint pred"
  have z: "- (2 ^ 31) < z" "z < 2 ^ 31" using assms unfolding z_def by linarith+
  define y where "y = (if z < 0 then - z else z)"
  have y: "0 \<le> y" "y < 2 ^ 31" using z by (auto simp: y_def)
  have d: "actual - pred = word_of_int z" by (simp add: z_def)
  have s: "sint (word_of_int z :: 64 word) = z" using z by (intro sint_small64) simp_all
  have a: "(if sint (word_of_int z :: 64 word) < 0 then - word_of_int z else word_of_int z)
      = (word_of_int y :: 64 word)"
    unfolding s y_def by simp
  have u: "(ucast (word_of_int y :: 64 word) :: 32 word) = word_of_int y"
    using uint_small64 [of y] y by (simp add: ucast_eq)
  have "err_size actual pred = word_of_int y"
    unfolding err_size_def Let_def d a u using sint_small32 [of y] y by (simp add: scast_eq)
  then have "uint (err_size actual pred) = y" using uint_small64 [of y] y by simp
  then show ?thesis by (simp add: y_def z_def abs_if)
qed

lemma max_error_loop_ge: "mx \<le> max_error_loop fp m kps mx"
proof (induction kps arbitrary: mx)
  case (Cons x kps)
  obtain k pos where x: "x = (k, pos)" by (cases x)
  let ?e = "err_size pos (lr_predict fp m k)"
  have "mx \<le> (if mx < ?e then ?e else mx)" by auto
  also have "\<dots> \<le> max_error_loop fp m kps (if mx < ?e then ?e else mx)" by (rule Cons.IH)
  finally show ?case using x by (simp add: Let_def)
qed simp

lemma max_error_loop_bound:
  "(k, pos) \<in> set kps \<Longrightarrow> err_size pos (lr_predict fp m k) \<le> max_error_loop fp m kps mx"
proof (induction kps arbitrary: mx)
  case (Cons x kps)
  obtain k' pos' where x: "x = (k', pos')" by (cases x)
  let ?e = "err_size pos' (lr_predict fp m k')"
  show ?case
  proof (cases "(k, pos) \<in> set kps")
    case True
    then show ?thesis using Cons.IH x by simp
  next
    case False
    then have "k = k'" "pos = pos'" using Cons.prems x by auto
    then have "err_size pos (lr_predict fp m k) \<le> (if mx < ?e then ?e else mx)" by auto
    also have "\<dots> \<le> max_error_loop fp m kps (if mx < ?e then ?e else mx)" by (rule max_error_loop_ge)
    finally show ?thesis using x by (simp add: Let_def)
  qed
qed simp

text \<open>After training on at least two keys, the recorded error bounds every key's prediction error
  below 2 to the 31.\<close>

lemma lr_predict_maxErr [simp]: "lr_predict fp (m\<lparr>lr_maxErr := e\<rparr>) k = lr_predict fp m k"
  by (simp add: lr_predict_def)

lemma lr_train_maxErr:
  assumes "lr_train fp m0 keys positions = Inr m" and "2 \<le> length keys"
  shows "length keys = length positions" and "lr_maxErr m = max_error fp m keys positions"
proof -
  show len: "length keys = length positions" using assms by (auto simp: lr_train_def res_simps)
  have loop: "max_error_loop fp (m1\<lparr>lr_maxErr := e\<rparr>) kps mx = max_error_loop fp m1 kps mx"
    for m1 e kps mx
    by (induction fp m1 kps mx rule: max_error_loop.induct) (simp_all add: Let_def)
  have "keys \<noteq> []" "length positions \<noteq> 1" using assms(2) len by auto
  then show "lr_maxErr m = max_error fp m keys positions"
    using assms(1) unfolding lr_train_def Let_def max_error_def
    by (cases "train_sums fp (zip keys positions) (fp_zero fp, fp_zero fp, fp_zero fp, fp_zero fp)")
      (auto simp: res_simps loop)
qed

lemma lr_train_error_bound:
  assumes "lr_train_range fp m0 keys = Inr m" and "2 \<le> length keys" and "length keys < 2 ^ 63"
    and "i < length keys" and "\<bar>int i - uint (lr_predict fp m (keys ! i))\<bar> < 2 ^ 31"
  shows "\<bar>int i - uint (lr_predict fp m (keys ! i))\<bar> \<le> uint (lr_maxErr m)"
proof -
  let ?ps = "positions_upto (length keys)"
  have "(keys ! i, of_nat i) \<in> set (zip keys ?ps)"
    using assms(4) by (auto simp: set_zip positions_upto_def)
  then have "err_size (of_nat i) (lr_predict fp m (keys ! i)) \<le> lr_maxErr m"
    using max_error_loop_bound lr_train_maxErr(2) [of fp m0 keys ?ps m] assms(1,2)
    by (simp add: lr_train_range_def max_error_def)
  then have "uint (err_size (of_nat i) (lr_predict fp m (keys ! i))) \<le> uint (lr_maxErr m)"
    by (simp add: word_le_def)
  moreover have "uint (of_nat i :: 64 word) = int i"
    using assms(3,4) uint_small64 [of "int i"] by simp
  ultimately show ?thesis using err_size_small [of "of_nat i"] assms(5) by simp
qed

lemma max_error_loop_le:
  "mx \<le> B \<Longrightarrow> (\<And>k pos. (k, pos) \<in> set kps \<Longrightarrow> err_size pos (lr_predict fp m k) \<le> B)
    \<Longrightarrow> max_error_loop fp m kps mx \<le> B"
  by (induction fp m kps mx rule: max_error_loop.induct) (auto simp: Let_def)

text \<open>If no prediction is off by 2 to the 31 or more, the recorded error is below that and bounds
  every one of them.\<close>

lemma lr_train_errors:
  assumes tr: "lr_train_range fp (lr_new w b) keys = Inr m" and "2 \<le> length keys" "length keys < 2 ^ 31"
    and err: "\<forall>i < length keys. \<bar>int i - uint (lr_predict fp m (keys ! i))\<bar> < 2 ^ 31"
  shows "uint (lr_maxErr m) < 2 ^ 31"
    and "\<forall>i < length keys. \<bar>int i - uint (lr_predict fp m (keys ! i))\<bar> \<le> uint (lr_maxErr m)"
proof -
  show "\<forall>i < length keys. \<bar>int i - uint (lr_predict fp m (keys ! i))\<bar> \<le> uint (lr_maxErr m)"
    using lr_train_error_bound [OF tr] assms(2,3) err by simp
  have "max_error fp m keys (positions_upto (length keys)) \<le> 2 ^ 31 - 1"
    unfolding max_error_def
  proof (rule max_error_loop_le)
    fix k pos assume "(k, pos) \<in> set (zip keys (positions_upto (length keys)))"
    then obtain i where i: "i < length keys" "k = keys ! i" "pos = of_nat i"
      by (auto simp: set_zip positions_upto_def)
    moreover have "uint (of_nat i :: 64 word) = int i"
      using assms(3) i(1) uint_small64 [of "int i"] by simp
    ultimately have "uint (err_size pos (lr_predict fp m k)) < 2 ^ 31"
      using err err_size_small [of pos "lr_predict fp m k"] by simp
    then show "err_size pos (lr_predict fp m k) \<le> 2 ^ 31 - 1" by (simp add: word_le_def)
  qed simp
  then show "uint (lr_maxErr m) < 2 ^ 31"
    using lr_train_maxErr(2) [of fp "lr_new w b" keys] tr assms(2) by (simp add: lr_train_range_def word_le_def)
qed

text \<open>Integer arithmetic as an instance of the arithmetic argument.\<close>

definition fp_int :: "int fp_ops" where
  "fp_int = \<lparr>fp_zero = 0, fp_of_key = uint, fp_of_size = uint, fp_add = (+), fp_sub = (-),
     fp_mul = (*), fp_div = (div), fp_pos = (\<lambda>x. 0 < x), fp_to_size = of_int\<rparr>"

text \<open>C40. When training on at least two keys succeeds, the recorded maximal error is at least the
  distance between the predicted and the real position of every training key whose distance is
  below 2 to the 31 (larger ones are cut to 32 bits), for any floating-point arithmetic.\<close>

theorem max_error_bound:
  assumes "lr_train_range fp m0 keys = Inr m" and "2 \<le> length keys" and "length keys < 2 ^ 63"
  shows "\<forall>i < length keys. \<bar>int i - uint (lr_predict fp m (keys ! i))\<bar> < 2 ^ 31 \<longrightarrow>
    \<bar>int i - uint (lr_predict fp m (keys ! i))\<bar> \<le> uint (lr_maxErr m)"
  using lr_train_error_bound [OF assms] by blast

lemma train_example:
  "lr_train_range fp_int (lr_new 0 0) [10, 20, 30] = Inr \<lparr>lr_maxErr = 2, lr_w0 = 0, lr_w1 = - 1\<rparr>"
  by code_simp

theorem max_error_bound_witness:
  "\<bar>2 - uint (lr_predict fp_int \<lparr>lr_maxErr = 2, lr_w0 = 0, lr_w1 = - 1\<rparr> 30)\<bar> \<le> (2 :: int)"
  using max_error_bound [OF train_example, THEN spec, of 2] by (simp add: lr_predict_def fp_int_def)

end
