(* ===== verification/Kanva_Model.thy ===== *)
theory Kanva_Model
  imports Bin_Spec LR_Model
begin

text \<open>
  The learned node of Kanva: \<open>Kanva_impl/kanva_model.h\<close> and \<open>Kanva_impl/kanva_model_impl.h\<close>.

  A \<open>KanvaModel\<close> keeps sorted training keys with their values, a linear model that predicts a
  key's position, and between any two keys (and at both ends) a slot that is empty, a bin, or,
  after the bin was full, another \<open>KanvaModel\<close> trained on the bin's pairs. A slot owns what it
  points to, so the tree of nodes is a value here; a compare-exchange of a slot finds what the
  same thread has just loaded from it. The array sizes fit an \<open>int\<close>, as the loops of the
  constructor require. Memory the code does not initialise and the floating-point arithmetic are
  in the environment \<open>env\<close>.

  \<open>km_ok\<close> is the invariant of a node. The recursions of insert and remove take fuel, since a bin
  may turn into a new node on the way; the depth of the tree plus one is enough.
\<close>

section \<open>Nodes\<close>

datatype 'd KanvaModel =
  KModel (km_w0: 'd) (km_w1: 'd) (km_maxErr: nat) (km_keys: "key_t list") (km_vals: "val_t list")
    (km_mobs: "'d model_or_bin option list")
and 'd model_or_bin = MBin Bin | MModel "'d KanvaModel"

record 'd env =
  e_fp :: "'d fp_ops"
  e_mem :: "addr \<Rightarrow> int"
  e_w :: 'd
  e_b :: 'd

definition KanvaModel_new ::
    "'d lr_model \<Rightarrow> key_t list \<Rightarrow> val_t list \<Rightarrow> nat \<Rightarrow> nat \<Rightarrow> 'd KanvaModel res" where
  "KanvaModel_new lr ks vs sz maxErr =
     (if length ks < sz \<or> length vs < sz then Inl OutOfRange
      else Inr (KModel (lr_w0 lr) (lr_w1 lr) maxErr (take sz ks) (take sz vs)
                  (replicate (sz + 1) None)))"

definition capacity :: "'d KanvaModel \<Rightarrow> nat" where
  "capacity m = length (km_keys m)"

text \<open>\<open>capacity-1\<close> in \<open>size_t\<close>: an empty node wraps around.\<close>

definition cap_minus1 :: "nat \<Rightarrow> nat" where
  "cap_minus1 n = (if n = 0 then 2 ^ 64 - 1 else n - 1)"

section \<open>Locating a key\<close>

definition km_predict :: "'d env \<Rightarrow> 'd KanvaModel \<Rightarrow> key_t \<Rightarrow> nat" where
  "km_predict env m key =
     (let index_pos = unat (lr_predict (e_fp env) (lr_new (km_w0 m) (km_w1 m)) key)
      in if index_pos < capacity m then index_pos else cap_minus1 (capacity m))"

text \<open>The binary search; after the assertion \<open>begin <= end\<close> its condition \<open>begin != end\<close> is \<open><\<close>.\<close>

function locate_loop :: "key_t list \<Rightarrow> key_t \<Rightarrow> nat \<Rightarrow> nat \<Rightarrow> nat res" where
  "locate_loop ks key bgn fin =
     (if bgn < fin then
        let mid = (fin + bgn + 2) div 2 in
        bind_res (nth_res ks mid) (\<lambda>k.
          if k \<le> key then locate_loop ks key mid fin else locate_loop ks key bgn (mid - 1))
      else Inr bgn)"
  by pat_completeness auto
termination by (relation "measure (\<lambda>(_, _, bgn, fin). fin - bgn)") auto

declare locate_loop.simps [simp del]

definition locate_window :: "key_t list \<Rightarrow> nat \<Rightarrow> key_t \<Rightarrow> nat \<Rightarrow> (nat \<times> nat) res" where
  "locate_window ks maxErr key index_pos =
     (let upbound = cap_minus1 (length ks) in
      bind_res (nth_res ks index_pos) (\<lambda>k.
        if k < key then
          let bgn = (if index_pos + 1 < upbound then index_pos + 1 else upbound)
          in Inr (bgn, if sz_add bgn maxErr < upbound then sz_add bgn maxErr else upbound)
        else Inr (if maxErr < index_pos then index_pos - maxErr else 0, index_pos)))"

definition locate_in_levelbin :: "'d KanvaModel \<Rightarrow> key_t \<Rightarrow> nat \<Rightarrow> nat res" where
  "locate_in_levelbin m key pos =
     bind_res (locate_window (km_keys m) (km_maxErr m) key pos) (\<lambda>(bgn, fin).
       assert_res (bgn \<le> fin) (locate_loop (km_keys m) key bgn fin))"

text \<open>The first steps of every operation: the located position and the key there.\<close>

definition km_pos :: "'d env \<Rightarrow> 'd KanvaModel \<Rightarrow> key_t \<Rightarrow> (nat \<times> key_t) res" where
  "km_pos env m key =
     bind_res (locate_in_levelbin m key (km_predict env m key)) (\<lambda>pos.
     bind_res (nth_res (km_keys m) pos) (\<lambda>k. Inr (pos, k)))"

definition bin_pos :: "key_t \<Rightarrow> nat \<times> key_t \<Rightarrow> nat" where
  "bin_pos key pk = (if key < snd pk then fst pk else fst pk + 1)"

section \<open>Operations\<close>

lemma slot_size:
  assumes "nth_res (km_mobs m) i = Inr (Some (MModel ai))"
  shows "size ai < size m"
proof -
  from assms have "Some (MModel ai) \<in> set (km_mobs m)"
    by (auto simp: nth_res_def split: if_splits) (metis nth_mem)
  then have "size_option size (Some (MModel ai)) \<le> size_list (size_option size) (km_mobs m)"
    by (rule size_list_estimation') simp
  then show ?thesis by (cases m) simp
qed

function find_retrain :: "'d env \<Rightarrow> 'd KanvaModel \<Rightarrow> key_t \<Rightarrow> val_t res" where
  "find_retrain env m key =
     bind_res (km_pos env m key) (\<lambda>pk.
       if key = snd pk then nth_res (km_vals m) (fst pk)
       else
         bind_res (nth_res (km_mobs m) (bin_pos key pk)) (\<lambda>mob.
           case mob of None \<Rightarrow> Inr (- 1)
           | Some (MBin b) \<Rightarrow> bin_search key b
           | Some (MModel ai) \<Rightarrow> find_retrain env ai key))"
  by pat_completeness auto
termination by (relation "measure (\<lambda>(_, m, _). size m)") (auto intro: slot_size)

declare find_retrain.simps [simp del]

definition set_slot :: "nat \<Rightarrow> 'd model_or_bin \<Rightarrow> 'd KanvaModel \<Rightarrow> 'd KanvaModel" where
  "set_slot i mob m =
     KModel (km_w0 m) (km_w1 m) (km_maxErr m) (km_keys m) (km_vals m) ((km_mobs m)[i := Some mob])"

text \<open>A new node from the pairs of a closed bin.\<close>

definition retrain :: "'d env \<Rightarrow> Bin \<Rightarrow> 'd KanvaModel res" where
  "retrain env b =
     bind_res (bin_collect b) (\<lambda>(kvs, _).
     bind_res (lr_train_range (e_fp env) (lr_new (e_w env) (e_b env)) (map fst kvs)) (\<lambda>lr.
       KanvaModel_new lr (map fst kvs) (map snd kvs) (length kvs) (unat (lr_maxErr lr))))"

fun insert_retrain :: "nat \<Rightarrow> 'd env \<Rightarrow> 'd KanvaModel \<Rightarrow> key_t \<Rightarrow> val_t \<Rightarrow> (bool \<times> 'd KanvaModel) res"
  and insert_model_or_bin ::
    "nat \<Rightarrow> 'd env \<Rightarrow> 'd KanvaModel \<Rightarrow> key_t \<Rightarrow> val_t \<Rightarrow> nat \<Rightarrow> (bool \<times> 'd KanvaModel) res" where
  "insert_retrain 0 env m key val = Inl OutOfFuel"
| "insert_retrain (Suc n) env m key val =
     bind_res (km_pos env m key) (\<lambda>pk.
       if key = snd pk then
         bind_res (nth_res (km_vals m) (fst pk)) (\<lambda>v. Inr (if v = tombstone then False else True, m))
       else insert_model_or_bin n env m key val (bin_pos key pk))"
| "insert_model_or_bin n env m key val i =
     bind_res (nth_res (km_mobs m) i) (\<lambda>slot.
       let mob = (case slot of None \<Rightarrow> MBin (Bin_new (e_mem env)) | Some mob \<Rightarrow> mob) in
       case mob of
         MBin b \<Rightarrow>
           bind_res (bin_insert (e_mem env) key val b) (\<lambda>(ok, b1).
             if \<not> ok then
               bind_res (retrain env b1) (\<lambda>ai.
               bind_res (insert_retrain n env ai key val) (\<lambda>(r, ai'). Inr (r, set_slot i (MModel ai') m)))
             else Inr (ok, set_slot i (MBin b1) m))
       | MModel ai \<Rightarrow>
           bind_res (insert_retrain n env ai key val) (\<lambda>(r, ai'). Inr (r, set_slot i (MModel ai') m)))"

text \<open>\<open>remove\<close>. The bin's \<open>bool\<close> is stored in an \<open>int\<close> and compared with -2 and -1.\<close>

fun km_remove :: "nat \<Rightarrow> 'd env \<Rightarrow> 'd KanvaModel \<Rightarrow> key_t \<Rightarrow> (bool \<times> 'd KanvaModel) res"
  and remove_model_or_bin ::
    "nat \<Rightarrow> 'd env \<Rightarrow> 'd KanvaModel \<Rightarrow> key_t \<Rightarrow> nat \<Rightarrow> (bool \<times> 'd KanvaModel) res" where
  "km_remove 0 env m key = Inl OutOfFuel"
| "km_remove (Suc n) env m key =
     bind_res (km_pos env m key) (\<lambda>pk.
       if key = snd pk then
         bind_res (upd_res (km_vals m) (fst pk) tombstone) (\<lambda>vs.
           Inr (True, KModel (km_w0 m) (km_w1 m) (km_maxErr m) (km_keys m) vs (km_mobs m)))
       else remove_model_or_bin n env m key (bin_pos key pk))"
| "remove_model_or_bin n env m key i =
     bind_res (nth_res (km_mobs m) i) (\<lambda>slot.
       case slot of
         None \<Rightarrow> Inr (False, m)
       | Some (MBin b) \<Rightarrow>
           bind_res (bin_remove (e_mem env) key b) (\<lambda>(ok, b1).
           let r = (if ok then 1 else 0 :: int) in
           if r = - 2 then Inr (False, set_slot i (MBin b1) m)
           else if r = - 1 then
             bind_res (retrain env b1) (\<lambda>ai.
             bind_res (km_remove n env ai key) (\<lambda>(r', ai'). Inr (r', set_slot i (MModel ai') m)))
           else Inr (True, set_slot i (MBin b1) m))
       | Some (MModel ai) \<Rightarrow>
           bind_res (km_remove n env ai key) (\<lambda>(r', ai'). Inr (r', set_slot i (MModel ai') m)))"

text \<open>The depth of the tree of nodes, and the operations with fuel that is enough.\<close>

fun km_depth :: "'d KanvaModel \<Rightarrow> nat" and mob_depth :: "'d model_or_bin \<Rightarrow> nat" where
  "km_depth (KModel w0 w1 e ks vs mobs) =
     Suc (fold max (map (\<lambda>s. case s of None \<Rightarrow> 0 | Some mob \<Rightarrow> mob_depth mob) mobs) 0)"
| "mob_depth (MBin b) = 0"
| "mob_depth (MModel ai) = km_depth ai"

definition km_insert :: "'d env \<Rightarrow> 'd KanvaModel \<Rightarrow> key_t \<Rightarrow> val_t \<Rightarrow> (bool \<times> 'd KanvaModel) res" where
  "km_insert env m key val = insert_retrain (km_depth m + 1) env m key val"

definition km_delete :: "'d env \<Rightarrow> 'd KanvaModel \<Rightarrow> key_t \<Rightarrow> (bool \<times> 'd KanvaModel) res" where
  "km_delete env m key = km_remove (km_depth m) env m key"

section \<open>Locating\<close>

lemma locate_loop_step:
  assumes "bgn < fin" and "fin < length ks"
  obtains mid where "bgn < mid" "mid \<le> fin" "locate_loop ks key bgn fin =
    (if ks ! mid \<le> key then locate_loop ks key mid fin else locate_loop ks key bgn (mid - 1))"
proof
  let ?mid = "Suc ((fin + bgn) div 2)"
  show "bgn < ?mid" "?mid \<le> fin" using assms by auto
  then show "locate_loop ks key bgn fin =
    (if ks ! ?mid \<le> key then locate_loop ks key ?mid fin else locate_loop ks key bgn (?mid - 1))"
    using assms by (simp add: locate_loop.simps [of ks key bgn fin])
qed

lemma locate_loop_spec:
  assumes "sorted ks" and "bgn \<le> fin" and "fin < length ks"
  shows "\<exists>r. locate_loop ks key bgn fin = Inr r \<and> bgn \<le> r \<and> r \<le> fin
    \<and> (bgn < r \<longrightarrow> ks ! r \<le> key) \<and> (\<forall>j. r < j \<and> j \<le> fin \<longrightarrow> key < ks ! j)"
  using assms
proof (induction "fin - bgn" arbitrary: bgn fin rule: less_induct)
  case less
  show ?case
  proof (cases "bgn < fin")
    case False
    then show ?thesis using less.prems by (auto simp: locate_loop.simps)
  next
    case True
    then obtain mid where mid: "bgn < mid" "mid \<le> fin" and run: "locate_loop ks key bgn fin =
        (if ks ! mid \<le> key then locate_loop ks key mid fin else locate_loop ks key bgn (mid - 1))"
      using locate_loop_step less.prems by blast
    show ?thesis
    proof (cases "ks ! mid \<le> key")
      case le: True
      have "\<exists>r. locate_loop ks key mid fin = Inr r \<and> mid \<le> r \<and> r \<le> fin
          \<and> (mid < r \<longrightarrow> ks ! r \<le> key) \<and> (\<forall>j. r < j \<and> j \<le> fin \<longrightarrow> key < ks ! j)"
        using less.prems mid True by (intro less.hyps) auto
      then show ?thesis unfolding run using le mid by (fastforce simp: order.order_iff_strict)
    next
      case gt: False
      have "\<exists>r. locate_loop ks key bgn (mid - 1) = Inr r \<and> bgn \<le> r \<and> r \<le> mid - 1
          \<and> (bgn < r \<longrightarrow> ks ! r \<le> key) \<and> (\<forall>j. r < j \<and> j \<le> mid - 1 \<longrightarrow> key < ks ! j)"
        using less.prems mid True by (intro less.hyps) auto
      then obtain r where r: "locate_loop ks key bgn (mid - 1) = Inr r" "bgn \<le> r" "r \<le> mid - 1"
          "bgn < r \<longrightarrow> ks ! r \<le> key" "\<forall>j. r < j \<and> j \<le> mid - 1 \<longrightarrow> key < ks ! j" by blast
      have "key < ks ! j" if "r < j" "j \<le> fin" for j
      proof (cases "j \<le> mid - 1")
        case False
        then have "ks ! mid \<le> ks ! j" using less.prems that by (intro sorted_nth_mono) auto
        then show ?thesis using gt by simp
      qed (use r(5) that in blast)
      then show ?thesis unfolding run using gt r mid by (intro exI [of _ r]) auto
    qed
  qed
qed

lemma locate_loop_range:
  assumes "bgn \<le> fin" and "fin < length ks"
  shows "\<exists>r. locate_loop ks key bgn fin = Inr r \<and> bgn \<le> r \<and> r \<le> fin"
  using assms
proof (induction "fin - bgn" arbitrary: bgn fin rule: less_induct)
  case less
  show ?case
  proof (cases "bgn < fin")
    case False
    then show ?thesis using less.prems by (auto simp: locate_loop.simps)
  next
    case True
    then obtain mid where mid: "bgn < mid" "mid \<le> fin" and run: "locate_loop ks key bgn fin =
        (if ks ! mid \<le> key then locate_loop ks key mid fin else locate_loop ks key bgn (mid - 1))"
      using locate_loop_step less.prems by blast
    have "\<exists>r. locate_loop ks key mid fin = Inr r \<and> mid \<le> r \<and> r \<le> fin"
      "\<exists>r. locate_loop ks key bgn (mid - 1) = Inr r \<and> bgn \<le> r \<and> r \<le> mid - 1"
      using less.prems mid True by (auto intro!: less.hyps)
    then show ?thesis unfolding run using mid by (fastforce split: if_split)
  qed
qed

lemma locate_window_spec:
  assumes "pos < length ks"
  shows "\<exists>bgn fin. locate_window ks maxErr key pos = Inr (bgn, fin) \<and> fin < length ks
    \<and> (sorted ks \<and> maxErr + length ks < 2 ^ 64 \<and> key \<in> set ks
       \<and> (\<forall>j < length ks. ks ! j = key \<longrightarrow> \<bar>int pos - int j\<bar> \<le> int maxErr)
       \<longrightarrow> (\<exists>j. bgn \<le> j \<and> j \<le> fin \<and> ks ! j = key))"
proof (cases "ks ! pos < key")
  case True
  let ?up = "length ks - 1"
  let ?b = "if pos + 1 < ?up then pos + 1 else ?up"
  let ?f = "if sz_add ?b maxErr < ?up then sz_add ?b maxErr else ?up"
  have win: "locate_window ks maxErr key pos = Inr (?b, ?f)"
    using True assms by (auto simp: locate_window_def cap_minus1_def Let_def)
  have "\<exists>j. ?b \<le> j \<and> j \<le> ?f \<and> ks ! j = key"
    if a: "sorted ks" "maxErr + length ks < 2 ^ 64" "key \<in> set ks"
      "\<forall>j < length ks. ks ! j = key \<longrightarrow> \<bar>int pos - int j\<bar> \<le> int maxErr"
  proof -
    obtain j where j: "j < length ks" "ks ! j = key" using a(3) by (auto simp: in_set_conv_nth)
    have "pos < j"
    proof (rule ccontr)
      assume "\<not> pos < j"
      then have "ks ! j \<le> ks ! pos" using a(1) assms by (intro sorted_nth_mono) auto
      then show False using True j by simp
    qed
    moreover have "int j - int pos \<le> int maxErr" using a(4) j by fastforce
    moreover have "sz_add ?b maxErr = ?b + maxErr" using a(2) assms by (intro sz_add_small) auto
    ultimately show ?thesis using j assms by (intro exI [of _ j]) auto
  qed
  then show ?thesis using win assms by (intro exI [of _ ?b] exI [of _ ?f]) auto
next
  case False
  let ?b = "if maxErr < pos then pos - maxErr else 0"
  have win: "locate_window ks maxErr key pos = Inr (?b, pos)"
    using False assms by (auto simp: locate_window_def Let_def)
  have "\<exists>j. ?b \<le> j \<and> j \<le> pos \<and> ks ! j = key"
    if a: "sorted ks" "key \<in> set ks"
      "\<forall>j < length ks. ks ! j = key \<longrightarrow> \<bar>int pos - int j\<bar> \<le> int maxErr"
  proof (cases "ks ! pos = key")
    case False
    obtain j where j: "j < length ks" "ks ! j = key" using a(2) by (auto simp: in_set_conv_nth)
    have "j \<le> pos"
    proof (rule ccontr)
      assume "\<not> j \<le> pos"
      then have "ks ! pos \<le> ks ! j" using a(1) j by (intro sorted_nth_mono) auto
      then show False using False \<open>\<not> ks ! pos < key\<close> j by simp
    qed
    moreover have "int pos - int j \<le> int maxErr" using a(3) j by fastforce
    ultimately show ?thesis using j by (intro exI [of _ j]) auto
  qed (auto intro!: exI [of _ pos])
  then show ?thesis using win assms by (intro exI [of _ ?b] exI [of _ pos]) auto
qed

text \<open>A located position is in range unless the assertion fails; a training key whose prediction is
  within the error is located at an occurrence of it.\<close>

lemma km_predict_less: "km_keys m \<noteq> [] \<Longrightarrow> km_predict env m key < length (km_keys m)"
  by (auto simp: km_predict_def Let_def capacity_def cap_minus1_def)

lemma km_pos_cases:
  assumes "km_keys m \<noteq> []"
  obtains (assert) "km_pos env m key = Inl AssertFail"
  | (pos) pos where "pos < length (km_keys m)" "km_pos env m key = Inr (pos, km_keys m ! pos)"
proof -
  obtain bgn fin where w: "locate_window (km_keys m) (km_maxErr m) key (km_predict env m key) = Inr (bgn, fin)"
      "fin < length (km_keys m)"
    using locate_window_spec [OF km_predict_less [OF assms]] by blast
  show ?thesis
  proof (cases "bgn \<le> fin")
    case True
    then obtain r where "locate_loop (km_keys m) key bgn fin = Inr r" "r \<le> fin"
      using locate_loop_range w(2) by blast
    then show ?thesis
      using that(2) [of r] w True by (simp add: km_pos_def locate_in_levelbin_def)
  next
    case False
    then show ?thesis using that(1) w by (simp add: km_pos_def locate_in_levelbin_def)
  qed
qed

lemma km_pos_trained:
  assumes "sorted (km_keys m)" and "km_maxErr m + length (km_keys m) < 2 ^ 64" and "key \<in> set (km_keys m)"
    and "\<forall>j < length (km_keys m). km_keys m ! j = key \<longrightarrow>
      \<bar>int (km_predict env m key) - int j\<bar> \<le> int (km_maxErr m)"
  shows "\<exists>r < length (km_keys m). km_pos env m key = Inr (r, key) \<and> km_keys m ! r = key"
proof -
  have ne: "km_keys m \<noteq> []" using assms(3) by auto
  obtain bgn fin j where w: "locate_window (km_keys m) (km_maxErr m) key (km_predict env m key) = Inr (bgn, fin)"
      "fin < length (km_keys m)" "bgn \<le> j" "j \<le> fin" "km_keys m ! j = key"
    using locate_window_spec [OF km_predict_less [OF ne], of "km_maxErr m" key] assms by blast
  obtain r where r: "locate_loop (km_keys m) key bgn fin = Inr r" "bgn \<le> r" "r \<le> fin"
      "bgn < r \<longrightarrow> km_keys m ! r \<le> key" "\<forall>j. r < j \<and> j \<le> fin \<longrightarrow> key < km_keys m ! j"
    using locate_loop_spec [OF assms(1), of bgn fin key] w by auto
  have "j \<le> r" using r(5) w(4,5) by (metis less_irrefl not_le)
  then have "key \<le> km_keys m ! r" using w(2,5) r(3) assms(1) sorted_nth_mono [of "km_keys m" j r] by simp
  moreover have "km_keys m ! r \<le> key" using r(4) w(3,5) \<open>j \<le> r\<close>
    by (cases "bgn < r") (auto dest!: leI le_antisym)
  ultimately have "km_keys m ! r = key" by simp
  then show ?thesis using r(1,3) w by (intro exI [of _ r]) (simp add: km_pos_def locate_in_levelbin_def)
qed

section \<open>Training keys are found\<close>

lemma lr_predict_weights: "lr_predict fp (lr_new (lr_w0 lr) (lr_w1 lr)) key = lr_predict fp lr key"
  by (simp add: lr_predict_def lr_new_def)

text \<open>Clamping a prediction into the array does not increase its error.\<close>

lemma clamp_error:
  assumes "j < n" and "\<bar>int j - int p\<bar> \<le> e"
  shows "\<bar>int (if p < n then p else n - 1) - int j\<bar> \<le> e"
  using assms by (auto simp: of_nat_diff split: if_splits)

text \<open>The predictions of a trained model are within 2 to the 31 of the positions: the only property
  of the arithmetic that the search relies on.\<close>

definition predictions_close :: "'d fp_ops \<Rightarrow> 'd lr_model \<Rightarrow> key_t list \<Rightarrow> bool" where
  "predictions_close fp lr ks \<longleftrightarrow>
     (\<forall>i < length ks. \<bar>int i - uint (lr_predict fp lr (ks ! i))\<bar> < 2 ^ 31)"

lemma trained_pos:
  assumes tr: "lr_train_range (e_fp env) (lr_new w b) ks = Inr lr" and close: "predictions_close (e_fp env) lr ks"
    and ks: "sorted ks" "length ks < 2 ^ 31" "length vs = length ks"
    and e: "unat (lr_maxErr lr) \<le> e" "e < 2 ^ 63"
    and new: "KanvaModel_new lr ks vs (length ks) e = Inr m" and key: "key \<in> set ks"
  shows "\<exists>r < length ks. km_pos env m key = Inr (r, key) \<and> ks ! r = key"
proof -
  have m: "m = KModel (lr_w0 lr) (lr_w1 lr) e ks vs (replicate (length ks + 1) None)"
    using new ks(3) by (simp add: KanvaModel_new_def)
  have sel: "km_keys m = ks" "km_maxErr m = e" by (simp_all add: m)
  have ne: "ks \<noteq> []" using key by auto
  have pred: "km_predict env m x = (if unat (lr_predict (e_fp env) lr x) < length ks
      then unat (lr_predict (e_fp env) lr x) else length ks - 1)" for x
    using ne by (simp add: m km_predict_def lr_predict_weights capacity_def cap_minus1_def)
  have "\<exists>r < length (km_keys m). km_pos env m key = Inr (r, key) \<and> km_keys m ! r = key"
  proof (rule km_pos_trained)
    show "sorted (km_keys m)" "key \<in> set (km_keys m)" using ks(1) key m by simp_all
    show "km_maxErr m + length (km_keys m) < 2 ^ 64" using ks(2) e(2) by (simp add: m)
    show "\<forall>j < length (km_keys m). km_keys m ! j = key \<longrightarrow>
        \<bar>int (km_predict env m key) - int j\<bar> \<le> int (km_maxErr m)"
    proof (cases "2 \<le> length ks")
      case True
      note err = lr_train_errors [OF tr True ks(2) close [unfolded predictions_close_def]]
      show ?thesis
      proof (intro allI impI)
        fix j assume j: "j < length (km_keys m)" "km_keys m ! j = key"
        then have "\<bar>int j - uint (lr_predict (e_fp env) lr key)\<bar> \<le> uint (lr_maxErr lr)"
          using err(2) sel(1) by auto
        also have "\<dots> \<le> int e" using e(1) by (metis of_nat_le_iff uint_nat)
        finally show "\<bar>int (km_predict env m key) - int j\<bar> \<le> int (km_maxErr m)"
          using clamp_error [of j "length ks" "unat (lr_predict (e_fp env) lr key)" "int e"] j
          unfolding pred sel by simp
      qed
    next
      case False
      then have "length ks = 1" using ne by (cases "length ks") auto
      then show ?thesis using pred sel by simp
    qed
  qed
  then show ?thesis using sel by simp
qed

lemma find_trained:
  assumes tr: "lr_train_range (e_fp env) (lr_new w b) ks = Inr lr" and close: "predictions_close (e_fp env) lr ks"
    and ks: "sorted ks" "length ks < 2 ^ 31" "length vs = length ks"
    and e: "unat (lr_maxErr lr) \<le> e" "e < 2 ^ 63"
    and new: "KanvaModel_new lr ks vs (length ks) e = Inr m" and key: "key \<in> set ks"
  shows "\<exists>r < length ks. ks ! r = key \<and> find_retrain env m key = Inr (vs ! r)"
proof -
  obtain r where r: "r < length ks" "km_pos env m key = Inr (r, key)" "ks ! r = key"
    using trained_pos [OF assms] by blast
  have "km_vals m = vs" using new ks(3) by (auto simp: KanvaModel_new_def split: if_splits)
  then have "find_retrain env m key = Inr (vs ! r)"
    using r ks(3) by (simp add: find_retrain.simps [of env m])
  then show ?thesis using r by blast
qed

text \<open>The recorded error of a model trained on close predictions is far from the top of a word.\<close>

lemma trained_error_small:
  assumes "lr_train_range fp (lr_new w b) ks = Inr lr" and "predictions_close fp lr ks"
    and "length ks < 2 ^ 31"
  shows "unat (lr_maxErr lr) < 2 ^ 31"
proof (cases "2 \<le> length ks")
  case True
  have "uint (lr_maxErr lr) < 2 ^ 31"
    using lr_train_errors(1) [OF assms(1) True assms(3)] assms(2) by (simp add: predictions_close_def)
  then show ?thesis unfolding unat_eq_nat_uint nat_less_numeral_power_cancel_iff .
next
  case False
  then have "length ks = 0 \<or> length ks = 1" by linarith
  then have "lr_maxErr lr = 0"
    using assms(1) by (auto simp: lr_train_range_def lr_train_def lr_new_def positions_upto_def
        split: if_splits)
  then show ?thesis by simp
qed

lemma find_trained_own:
  assumes "lr_train_range (e_fp env) (lr_new w b) ks = Inr lr" and "predictions_close (e_fp env) lr ks"
    and "sorted ks" "length ks < 2 ^ 31" "length vs = length ks"
    and "KanvaModel_new lr ks vs (length ks) (unat (lr_maxErr lr)) = Inr m" and "key \<in> set ks"
  shows "\<exists>r < length ks. ks ! r = key \<and> find_retrain env m key = Inr (vs ! r)"
  using find_trained [OF assms(1-5) order_refl _ assms(6,7)] trained_error_small [OF assms(1,2,4)]
  by simp

section \<open>The invariant\<close>

text \<open>The bins in the slots are open, live and well-formed.\<close>

definition open_bin :: "Bin \<Rightarrow> bool" where
  "open_bin b \<longleftrightarrow> (\<exists>v. bin_rep b v \<and> v_ok v \<and> \<not> v_frz v \<and> \<not> v_mark v)"

fun km_ok :: "'d KanvaModel \<Rightarrow> bool" and mob_ok :: "'d model_or_bin \<Rightarrow> bool" where
  "km_ok (KModel w0 w1 e ks vs mobs) \<longleftrightarrow>
     ks \<noteq> [] \<and> length vs = length ks \<and> length mobs = Suc (length ks)
     \<and> (\<forall>s \<in> set mobs. case s of None \<Rightarrow> True | Some mob \<Rightarrow> mob_ok mob)"
| "mob_ok (MBin b) \<longleftrightarrow> open_bin b"
| "mob_ok (MModel ai) \<longleftrightarrow> km_ok ai"

lemma km_okD:
  assumes "km_ok m"
  shows "km_keys m \<noteq> []" "length (km_vals m) = length (km_keys m)"
    "length (km_mobs m) = Suc (length (km_keys m))"
    "\<And>i mob. i < length (km_mobs m) \<Longrightarrow> km_mobs m ! i = Some mob \<Longrightarrow> mob_ok mob"
proof -
  obtain w0 w1 e ks vs mobs where m: "m = KModel w0 w1 e ks vs mobs" by (cases m)
  show "km_keys m \<noteq> []" "length (km_vals m) = length (km_keys m)"
    "length (km_mobs m) = Suc (length (km_keys m))"
    using assms m by auto
  fix i mob assume i: "i < length (km_mobs m)" "km_mobs m ! i = Some mob"
  then have "Some mob \<in> set (km_mobs m)" by (metis nth_mem)
  then show "mob_ok mob" using assms m by (auto split: option.splits)
qed

lemma km_ok_set_slot:
  assumes "km_ok m" and "mob_ok mob"
  shows "km_ok (set_slot i mob m)"
  using assms by (cases m) (auto simp: set_slot_def dest!: set_update_subset_insert [THEN subsetD])

lemma km_pos_set_slot [simp]: "km_pos env (set_slot i mob m) key = km_pos env m key"
  by (simp add: km_pos_def locate_in_levelbin_def km_predict_def capacity_def set_slot_def
      cong: if_cong)

lemma set_slot_sel [simp]:
  "km_keys (set_slot i mob m) = km_keys m" "km_vals (set_slot i mob m) = km_vals m"
  "km_mobs (set_slot i mob m) = (km_mobs m)[i := Some mob]"
  "km_w0 (set_slot i mob m) = km_w0 m" "km_w1 (set_slot i mob m) = km_w1 m"
  "km_maxErr (set_slot i mob m) = km_maxErr m"
  by (simp_all add: set_slot_def)

lemma bin_pos_less: "pos < n \<Longrightarrow> bin_pos key (pos, k) < Suc n"
  by (simp add: bin_pos_def)

text \<open>Depth of the tree below a slot.\<close>

lemma fold_max_le: "(x :: nat) \<in> set xs \<Longrightarrow> x \<le> fold max xs a"
proof (induction xs arbitrary: a)
  case (Cons y ys)
  have "b \<le> fold max ys b" for b :: nat
  proof (induction ys arbitrary: b)
    case (Cons z zs)
    have "b \<le> max z b" by simp
    also have "\<dots> \<le> fold max zs (max z b)" by (rule Cons.IH)
    finally show ?case by simp
  qed simp
  then have "y \<le> fold max ys (max y a)" by (meson max.bounded_iff order_trans max.cobounded1)
  then show ?case using Cons by auto
qed simp

lemma slot_depth:
  assumes "i < length (km_mobs m)" and "km_mobs m ! i = Some mob"
  shows "mob_depth mob < km_depth m"
proof -
  obtain w0 w1 e ks vs mobs where m: "m = KModel w0 w1 e ks vs mobs" by (cases m)
  have "Some mob \<in> set mobs" using assms m by (metis KanvaModel.sel(6) nth_mem)
  then have "mob_depth mob \<in> set (map (\<lambda>s. case s of None \<Rightarrow> 0 | Some mob \<Rightarrow> mob_depth mob) mobs)"
    by force
  then show ?thesis unfolding m km_depth.simps using fold_max_le less_Suc_eq_le by blast
qed

end
