(* ===== verification/Kanva_Model_Spec.thy ===== *)
theory Kanva_Model_Spec
  imports Kanva_Model
begin

text \<open>
  What the operations of a learned node do: safety and termination of insertion for every state
  that satisfies the invariant, the effect on the inserted key and on all others, the retraining
  of a full bin, and removal.

  An operation ends normally or with a failed assertion: those of the training loop
  (\<open>lr_model_impl.h\<close>) and of the search window (\<open>kanva_model_impl.h\<close>) depend on the arithmetic.
\<close>

section \<open>Presence of a key\<close>

text \<open>Whether a key is stored: the path of \<open>find_retrain\<close> with a yes or no answer.\<close>

function km_status :: "'d env \<Rightarrow> 'd KanvaModel \<Rightarrow> key_t \<Rightarrow> bool res" where
  "km_status env m key =
     bind_res (km_pos env m key) (\<lambda>pk.
       if key = snd pk then bind_res (nth_res (km_vals m) (fst pk)) (\<lambda>v. Inr (v \<noteq> tombstone))
       else
         bind_res (nth_res (km_mobs m) (bin_pos key pk)) (\<lambda>mob.
           case mob of None \<Rightarrow> Inr False
           | Some (MBin b) \<Rightarrow> bind_res (bin_search key b) (\<lambda>r. Inr (r = 1))
           | Some (MModel ai) \<Rightarrow> km_status env ai key))"
  by pat_completeness auto
termination by (relation "measure (\<lambda>(_, m, _). size m)") (auto intro: slot_size)

declare km_status.simps [simp del]

section \<open>Bins in slots\<close>

lemma open_bin_new: "u 1 \<le> 0 \<Longrightarrow> open_bin (Bin_new u)"
  unfolding open_bin_def using bin_rep_new [of u] v_ok_new [of "u 1"]
  by (intro exI [of _ "v_new (u 1)"]) (simp add: v_new_def)

lemma v_insert_False_nonempty:
  assumes "v_ok v" and "\<not> v_mark v" and "\<not> fst (v_insert key val v)"
  shows "v_all v \<noteq> []"
proof
  assume none: "v_all v = []"
  let ?i = "v_route key v"
  have "?i < length (v_kids v)" using v_route_less [OF assms(1)] .
  moreover have "snd (v_kids v ! ?i) = []"
    using none calculation by (auto simp: v_all_def)
  ultimately have "fst (v_kids v ! ?i) < child_max"
    using v_ok_kid [OF assms(1)] by (fastforce simp: kid_ok_def child_max_def)
  then show False using assms(2,3) by (simp add: v_insert.simps [of key val v] Let_def)
qed

definition closed_bin :: "Bin \<Rightarrow> bool" where
  "closed_bin b \<longleftrightarrow> (\<exists>v. bin_rep b v \<and> v_ok v \<and> v_all v \<noteq> [])"

lemma bin_insert_open:
  assumes "open_bin b" and key: "key < key_max"
  shows "\<exists>r b'. bin_insert u key val b = Inr (r, b') \<and> (if r then open_bin b' else closed_bin b')
    \<and> (r \<and> val \<noteq> tombstone \<and> 0 < key \<longrightarrow> bin_search key b' = Inr 1)"
proof -
  obtain v where v: "bin_rep b v" "v_ok v" "\<not> v_frz v" "\<not> v_mark v"
    using assms(1) by (auto simp: open_bin_def)
  obtain r w where rw: "v_insert key val v = (r, w)" by (cases "v_insert key val v")
  obtain b' where b': "bin_insert u key val b = Inr (r, b')" "bin_rep b' w"
    using bin_insert_refines [OF v(1-3) key, of u val] rw by auto
  have eff: "insert_effect key val v (r, w)" using v_insert_effect [OF v(2) key, of val] rw by simp
  then have w: "v_ok w" "\<not> v_frz w" "r = (\<not> v_mark w)" using v(3) by (auto simp: insert_effect_def Let_def)
  have "v_all w \<noteq> []" if "\<not> r"
  proof -
    have "v_all v \<noteq> []" using v_insert_False_nonempty [OF v(2,4), of key val] rw that by simp
    moreover have "set (v_all w) = set (v_all v)" using eff that by (simp add: insert_effect_def Let_def)
    ultimately show ?thesis by (metis set_empty)
  qed
  then have "if r then open_bin b' else closed_bin b'"
    using w b'(2) by (auto simp: open_bin_def closed_bin_def)
  moreover have "bin_search key b' = Inr 1" if "r" "val \<noteq> tombstone" "0 < key"
  proof -
    have "v_map w key \<noteq> None" using eff that by (auto simp: insert_effect_def Let_def split: if_splits)
    then show ?thesis using bin_search_view [OF b'(2) w(1) that(3) key] by simp
  qed
  ultimately show ?thesis using b'(1) by blast
qed

lemma bin_insert_new:
  assumes "u 1 \<le> 0" and "key < key_max"
  shows "\<exists>b'. bin_insert u key val (Bin_new u) = Inr (True, b')"
proof -
  have "fst (v_insert key val (v_new (u 1)))"
    using assms(1) by (simp add: v_insert.simps v_new_def child_max_def Let_def)
  then show ?thesis
    using bin_insert_refines [OF bin_rep_new [of u] v_ok_new [OF assms(1)] _ assms(2), of u val]
    by (auto simp: v_new_def)
qed

section \<open>Retraining\<close>

text \<open>A node whose slots are all empty.\<close>

definition fresh :: "'d KanvaModel \<Rightarrow> bool" where
  "fresh m \<longleftrightarrow> km_ok m \<and> km_mobs m = replicate (Suc (length (km_keys m))) None"

lemma KanvaModel_new_fresh:
  "ks \<noteq> [] \<Longrightarrow> length vs = length ks \<Longrightarrow>
    \<exists>m. KanvaModel_new lr ks vs (length ks) e = Inr m \<and> fresh m \<and> km_keys m = ks \<and> km_vals m = vs"
  by (auto simp: KanvaModel_new_def fresh_def)

lemma retrain_cases:
  assumes "bin_rep b v" and "v_all v \<noteq> []"
  obtains (assert) "retrain env b = Inl AssertFail"
  | (new) lr ai where "retrain env b = Inr ai" "fresh ai" "km_keys ai = map fst (v_all v)"
      "km_vals ai = map snd (v_all v)"
      "lr_train_range (e_fp env) (lr_new (e_w env) (e_b env)) (map fst (v_all v)) = Inr lr"
      "KanvaModel_new lr (map fst (v_all v)) (map snd (v_all v)) (length (map fst (v_all v)))
        (unat (lr_maxErr lr)) = Inr ai"
proof -
  obtain b' where b': "bin_collect b = Inr (v_all v, b')" using bin_collect_view [OF assms(1)] by blast
  show ?thesis
  proof (cases "lr_train_range (e_fp env) (lr_new (e_w env) (e_b env)) (map fst (v_all v))")
    case (Inl e)
    then have "e = AssertFail"
      using lr_train_range_cases [of "e_fp env" "lr_new (e_w env) (e_b env)" "map fst (v_all v)"] by auto
    then show ?thesis using that(1) Inl b' by (simp add: retrain_def)
  next
    case (Inr lr)
    obtain ai where ai: "KanvaModel_new lr (map fst (v_all v)) (map snd (v_all v))
        (length (map fst (v_all v))) (unat (lr_maxErr lr)) = Inr ai" "fresh ai"
        "km_keys ai = map fst (v_all v)" "km_vals ai = map snd (v_all v)"
      using KanvaModel_new_fresh [of "map fst (v_all v)" "map snd (v_all v)" lr "unat (lr_maxErr lr)"] assms(2)
      by auto
    have "retrain env b = Inr ai" using Inr b' ai(1) by (simp add: retrain_def)
    then show ?thesis using that(2) ai Inr by blast
  qed
qed

section \<open>Insertion\<close>

text \<open>What an insertion leaves: the node itself, or the node with the slot of the key changed.\<close>

definition insert_post :: "'d env \<Rightarrow> 'd KanvaModel \<Rightarrow> key_t \<Rightarrow> val_t \<Rightarrow> (bool \<times> 'd KanvaModel) res \<Rightarrow> bool" where
  "insert_post env m key val res \<longleftrightarrow> res = Inl AssertFail \<or>
     (\<exists>r m' pk. res = Inr (r, m') \<and> km_ok m' \<and> km_pos env m key = Inr pk
        \<and> (m' = m \<and> key = snd pk \<or> (\<exists>mob. m' = set_slot (bin_pos key pk) mob m \<and> key \<noteq> snd pk))
        \<and> (r \<and> val \<noteq> tombstone \<and> 0 < key \<longrightarrow> km_status env m' key = Inr True))"

lemma insert_post_trained:
  assumes "km_ok m" and "pos < length (km_keys m)" and "km_pos env m key = Inr (pos, key)"
  shows "insert_post env m key val (insert_retrain (Suc n) env m key val)"
  using assms km_okD(2) [OF assms(1)]
  by (auto simp: insert_post_def km_status.simps [of env m])

lemma insert_post_slot:
  assumes ok: "km_ok m" "mob_ok mob" and pos: "pos < length (km_keys m)"
    "km_pos env m key = Inr (pos, k)" "key \<noteq> k"
    and st: "r \<and> val \<noteq> tombstone \<and> 0 < key \<Longrightarrow>
      (case mob of MBin b \<Rightarrow> bin_search key b = Inr 1 | MModel ai \<Rightarrow> km_status env ai key = Inr True)"
  shows "insert_post env m key val (Inr (r, set_slot (bin_pos key (pos, k)) mob m))"
proof -
  let ?m = "set_slot (bin_pos key (pos, k)) mob m"
  have i: "bin_pos key (pos, k) < length (km_mobs m)"
    using bin_pos_less [OF pos(1)] km_okD(3) [OF ok(1)] by simp
  have "km_status env ?m key =
      (case mob of MBin b \<Rightarrow> bind_res (bin_search key b) (\<lambda>r. Inr (r = 1)) | MModel ai \<Rightarrow> km_status env ai key)"
    using pos i by (simp add: km_status.simps [of env ?m] split: model_or_bin.split)
  then show ?thesis
    using st pos km_ok_set_slot [OF ok] by (auto simp: insert_post_def split: model_or_bin.splits)
qed

text \<open>Insertion into a node with empty slots never needs more than one level.\<close>

lemma insert_fresh:
  assumes "fresh m" and key: "key < key_max" and u: "e_mem env 1 \<le> 0"
  shows "insert_post env m key val (insert_retrain (Suc n) env m key val)"
proof -
  have ok: "km_ok m" and none: "km_mobs m = replicate (Suc (length (km_keys m))) None"
    using assms(1) by (auto simp: fresh_def)
  show ?thesis
  proof (cases rule: km_pos_cases [OF km_okD(1) [OF ok], of env key])
    case 1
    then show ?thesis by (simp add: insert_post_def)
  next
    case (2 pos)
    show ?thesis
    proof (cases "key = km_keys m ! pos")
      case True
      then show ?thesis using insert_post_trained [OF ok 2(1)] 2(2) by simp
    next
      case False
      let ?i = "bin_pos key (pos, km_keys m ! pos)"
      have i: "?i < Suc (length (km_keys m))" using bin_pos_less [OF 2(1)] .
      obtain b' where b': "bin_insert (e_mem env) key val (Bin_new (e_mem env)) = Inr (True, b')"
        using bin_insert_new [of "e_mem env", OF u key] by blast
      have b'_ok: "open_bin b'" "val \<noteq> tombstone \<and> 0 < key \<Longrightarrow> bin_search key b' = Inr 1"
        using bin_insert_open [OF open_bin_new [of "e_mem env", OF u] key, of "e_mem env" val] b' by auto
      have "nth_res (km_mobs m) ?i = Inr None" using i none by (simp del: replicate_Suc)
      then have "insert_retrain (Suc n) env m key val = Inr (True, set_slot ?i (MBin b') m)"
        using 2 False b' by simp
      then show ?thesis
        using insert_post_slot [OF ok, of "MBin b'" pos env key "km_keys m ! pos" True val] 2 False b'_ok
        by simp
    qed
  qed
qed

text \<open>Insertion below a slot that holds a node, or that turns into one.\<close>

lemma insert_post_sub:
  assumes "km_ok m" "pos < length (km_keys m)" "km_pos env m key = Inr (pos, k)" "key \<noteq> k"
    and "insert_post env ai key val res"
  shows "insert_post env m key val
    (bind_res res (\<lambda>(r, ai'). Inr (r, set_slot (bin_pos key (pos, k)) (MModel ai') m)))"
proof -
  from assms(5) consider "res = Inl AssertFail"
    | r ai' where "res = Inr (r, ai')" "km_ok ai'"
      "r \<and> val \<noteq> tombstone \<and> 0 < key \<longrightarrow> km_status env ai' key = Inr True"
    unfolding insert_post_def by blast
  then show ?thesis
  proof cases
    case 1
    then show ?thesis by (simp add: insert_post_def)
  next
    case (2 r ai')
    then show ?thesis using insert_post_slot [OF assms(1) _ assms(2-4), of "MModel ai'" r val] by simp
  qed
qed

lemma insert_post_bin:
  assumes ok: "km_ok m" and pos: "pos < length (km_keys m)" "km_pos env m key = Inr (pos, k)" "key \<noteq> k"
    and key: "key < key_max" and u: "e_mem env 1 \<le> 0" and b: "open_bin b"
    and slot: "nth_res (km_mobs m) (bin_pos key (pos, k)) = Inr slot"
      "slot = None \<and> b = Bin_new (e_mem env) \<or> slot = Some (MBin b)"
  shows "insert_post env m key val (insert_model_or_bin (Suc n) env m key val (bin_pos key (pos, k)))"
proof -
  let ?i = "bin_pos key (pos, k)"
  obtain r b1 where b1: "bin_insert (e_mem env) key val b = Inr (r, b1)"
      "if r then open_bin b1 else closed_bin b1"
      "r \<and> val \<noteq> tombstone \<and> 0 < key \<longrightarrow> bin_search key b1 = Inr 1"
    using bin_insert_open [OF b key] by blast
  have unf: "insert_model_or_bin (Suc n) env m key val ?i =
      (if \<not> r then bind_res (retrain env b1) (\<lambda>ai.
         bind_res (insert_retrain (Suc n) env ai key val) (\<lambda>(r, ai'). Inr (r, set_slot ?i (MModel ai') m)))
       else Inr (r, set_slot ?i (MBin b1) m))"
    using slot b1(1) by (auto simp del: insert_retrain.simps)
  show ?thesis
  proof (cases r)
    case True
    then show ?thesis
      using insert_post_slot [OF ok _ pos, of "MBin b1" r val] b1 unfolding unf by simp
  next
    case False
    then obtain v where v: "bin_rep b1 v" "v_all v \<noteq> []" using b1(2) by (auto simp: closed_bin_def)
    from v show ?thesis
    proof (cases rule: retrain_cases [where env = env])
      case assert
      then show ?thesis using False unfolding unf by (simp add: insert_post_def)
    next
      case (new lr ai)
      show ?thesis
        using insert_post_sub [OF ok pos insert_fresh [OF new(2) key u]] new(1) False unfolding unf by simp
    qed
  qed
qed

lemma insert_safe:
  assumes "km_ok m" and key: "key < key_max" and u: "e_mem env 1 \<le> 0" and "km_depth m < n"
  shows "insert_post env m key val (insert_retrain n env m key val)"
  using assms(1,4)
proof (induction n arbitrary: m)
  case 0
  then show ?case by simp
next
  case (Suc n)
  note ok = Suc.prems(1)
  obtain n' where n: "n = Suc n'" using Suc.prems(2) by (cases n; cases m) auto
  show ?case
  proof (cases rule: km_pos_cases [OF km_okD(1) [OF ok], of env key])
    case 1
    then show ?thesis by (simp add: insert_post_def)
  next
    case (2 pos)
    let ?k = "km_keys m ! pos"
    let ?i = "bin_pos key (pos, ?k)"
    have i: "?i < length (km_mobs m)" using bin_pos_less [OF 2(1)] km_okD(3) [OF ok] by simp
    show ?thesis
    proof (cases "key = ?k")
      case True
      then show ?thesis using insert_post_trained [OF ok 2(1)] 2(2) by simp
    next
      case False
      define slot where "slot = km_mobs m ! ?i"
      have run: "insert_retrain (Suc n) env m key val = insert_model_or_bin n env m key val ?i"
        and slot: "nth_res (km_mobs m) ?i = Inr slot"
        using 2 False i by (simp_all add: slot_def)
      note bin = insert_post_bin [OF ok 2 False key u _ slot, of _ val n', folded n]
      show ?thesis
      proof (cases slot)
        case None
        then show ?thesis
          unfolding run using open_bin_new [of "e_mem env", OF u]
          by (intro bin [of "Bin_new (e_mem env)"]) simp_all
      next
        case (Some mob)
        then have mob: "mob_ok mob" "mob_depth mob < km_depth m"
          using km_okD(4) [OF ok i] slot_depth [OF i] by (simp_all add: slot_def)
        show ?thesis
        proof (cases mob)
          case (MBin b)
          then show ?thesis unfolding run using Some mob by (intro bin [of b]) simp_all
        next
          case (MModel ai)
          then have "insert_post env ai key val (insert_retrain n env ai key val)"
            using mob Suc.prems(2) by (intro Suc.IH) auto
          then show ?thesis
            using insert_post_sub [OF ok 2 False] slot Some MModel unfolding run by simp
        qed
      qed
    qed
  qed
qed

section \<open>Correctness of the learned node\<close>

text \<open>An environment with integer arithmetic and zeroed memory, and a node trained on three keys.\<close>

definition env_int :: "int env" where
  "env_int = \<lparr>e_fp = fp_int, e_mem = (\<lambda>_. 0), e_w = 0, e_b = 0\<rparr>"

definition node_ex :: "int KanvaModel" where
  "node_ex = KModel 0 (- 1) 2 [10, 20, 30] [1, 2, 3] [None, None, None, None]"

lemma node_ex_ok: "km_ok node_ex" by (simp add: node_ex_def)

lemma node_ex_pos: "km_pos env_int node_ex 20 = Inr (1, 20)" "km_pos env_int node_ex 25 = Inr (1, 20)"
  "km_pos env_int node_ex 5 = Inr (0, 10)"
  by (simp_all add: km_pos_def locate_in_levelbin_def locate_window_def km_predict_def capacity_def
      node_ex_def env_int_def lr_predict_def fp_int_def lr_new_def locate_loop.simps cap_minus1_def sz_add_def)

text \<open>C19. A node built from strictly increasing keys (fewer than 2 to the 31) and the linear model
  trained on them finds every one of these keys with its own value, whatever the floating-point
  arithmetic, as long as no prediction is off by 2 to the 31 positions or more.\<close>

theorem find_training_keys:
  assumes "lr_train_range (e_fp env) (lr_new w b) ks = Inr lr" and "predictions_close (e_fp env) lr ks"
    and "ssorted ks" and "length ks < 2 ^ 31" and "length vs = length ks"
    and "KanvaModel_new lr ks vs (length ks) (unat (lr_maxErr lr)) = Inr m"
  shows "\<forall>j < length ks. find_retrain env m (ks ! j) = Inr (vs ! j)"
proof (intro allI impI)
  fix j assume j: "j < length ks"
  have "sorted ks" using assms(3) by (simp add: strict_sorted_iff)
  then obtain r where r: "r < length ks" "ks ! r = ks ! j" "find_retrain env m (ks ! j) = Inr (vs ! r)"
    using find_trained_own [OF assms(1,2) _ assms(4-6), of "ks ! j"] j by auto
  then show "find_retrain env m (ks ! j) = Inr (vs ! j)"
    using ssorted_nth_eq_iff [OF assms(3), of r j] j by simp
qed

theorem find_training_keys_witness: "find_retrain env_int node_ex 20 = Inr 2"
proof -
  let ?lr = "\<lparr>lr_maxErr = 2, lr_w0 = 0, lr_w1 = - 1\<rparr> :: int lr_model"
  have tr: "lr_train_range (e_fp env_int) (lr_new 0 0) [10, 20, 30] = Inr ?lr"
    using train_example by (simp add: env_int_def)
  have close: "predictions_close (e_fp env_int) ?lr [10, 20, 30]"
    by (simp add: predictions_close_def env_int_def lr_predict_def fp_int_def)
  have new: "KanvaModel_new ?lr [10, 20, 30] [1, 2, 3] (length [10, 20, 30 :: key_t]) (unat (lr_maxErr ?lr))
      = Inr node_ex"
    by (simp add: KanvaModel_new_def node_ex_def)
  have srt: "ssorted [10, 20, 30 :: key_t]" by simp
  show ?thesis
    using find_training_keys [OF tr close srt _ _ new, THEN spec, of 1] by simp
qed

text \<open>Inserting a key below the greatest one into a node that satisfies the invariant never runs
  out of fuel and never reads out of range: it ends with a failed assertion or returns, with the
  invariant kept and the training keys, values and weights of the node unchanged; after a
  result true, the key (above 0, with a value other than the tombstone) is stored.\<close>

theorem km_insert_correct:
  assumes "km_ok m" and "key < key_max" and "e_mem env 1 \<le> 0"
  shows "km_insert env m key val = Inl AssertFail \<or>
    (\<exists>r m'. km_insert env m key val = Inr (r, m') \<and> km_ok m'
      \<and> km_keys m' = km_keys m \<and> km_vals m' = km_vals m \<and> km_maxErr m' = km_maxErr m
      \<and> km_w0 m' = km_w0 m \<and> km_w1 m' = km_w1 m
      \<and> (r \<and> val \<noteq> tombstone \<and> 0 < key \<longrightarrow> km_status env m' key = Inr True))"
  using insert_safe [where env = env and n = "km_depth m + 1" and val = val, OF assms]
  unfolding insert_post_def km_insert_def by fastforce

theorem km_insert_correct_witness:
  "km_insert env_int node_ex 25 7 = Inl AssertFail \<or>
    (\<exists>r m'. km_insert env_int node_ex 25 7 = Inr (r, m') \<and> km_ok m'
      \<and> (r \<longrightarrow> km_status env_int m' 25 = Inr True))"
  using km_insert_correct [OF node_ex_ok, of 25 env_int 7] by (auto simp: env_int_def)

text \<open>An insertion changes one slot only: routing of every key stays the same, and a search for a
  training key of the node or for a key routed to another slot returns the same as before.\<close>

theorem km_insert_frame:
  assumes "km_ok m" and "key < key_max" and "e_mem env 1 \<le> 0"
    and "km_insert env m key val = Inr (r, m')" and "km_pos env m key = Inr pk"
    and "km_pos env m key' = Inr pk'" and "key' = snd pk' \<or> bin_pos key' pk' \<noteq> bin_pos key pk"
  shows "km_pos env m' key' = Inr pk' \<and> find_retrain env m' key' = find_retrain env m key'"
proof -
  have "insert_post env m key val (km_insert env m key val)"
    unfolding km_insert_def using assms(1-3) by (intro insert_safe) auto
  then consider "m' = m" | mob where "m' = set_slot (bin_pos key pk) mob m"
    using assms(4,5) by (auto simp: insert_post_def)
  then show ?thesis
  proof cases
    case (2 mob)
    have "nth_res (km_mobs m') (bin_pos key' pk') = nth_res (km_mobs m) (bin_pos key' pk')"
      if "key' \<noteq> snd pk'" using that assms(7) 2 by (simp add: nth_res_def)
    then show ?thesis
      using 2 assms(6) by (cases "key' = snd pk'") (simp_all add: find_retrain.simps [of env])
  qed (use assms(6) in simp)
qed

theorem km_insert_frame_witness:
  "\<exists>r m'. km_insert env_int node_ex 25 7 = Inr (r, m') \<and>
     find_retrain env_int m' 5 = find_retrain env_int node_ex 5"
proof -
  have "\<exists>b'. bin_insert (\<lambda>_. 0) 25 7 (Bin_new (\<lambda>_. 0)) = Inr (True, b')"
    by (rule bin_insert_new) simp_all
  then have "\<exists>r m'. km_insert env_int node_ex 25 7 = Inr (r, m')"
    using node_ex_pos(2)
    by (auto simp: km_insert_def bin_pos_def node_ex_def env_int_def split: prod.splits)
  then obtain r m' where run: "km_insert env_int node_ex 25 7 = Inr (r, m')" by blast
  have "find_retrain env_int m' 5 = find_retrain env_int node_ex 5"
    using km_insert_frame [OF node_ex_ok _ _ run node_ex_pos(2) node_ex_pos(3)]
    by (simp add: env_int_def bin_pos_def)
  with run show ?thesis by blast
qed

text \<open>Retraining loses nothing: if the new node is built from a closed bin with fewer than 2 to
  the 31 pairs, whose predictions are not off by 2 to the 31 or more, a search in it for the key
  of any pair of the bin, hidden ones included, returns a value the bin had for that key.\<close>

theorem retrain_keeps_pairs:
  assumes "bin_rep b v" and "v_ok v" and "v_all v \<noteq> []" and "length (v_all v) < 2 ^ 31"
    and "retrain env b = Inr ai"
    and "predictions_close (e_fp env) (lr_new (km_w0 ai) (km_w1 ai)) (map fst (v_all v))"
  shows "\<forall>(k, x) \<in> set (v_all v). \<exists>y. find_retrain env ai k = Inr y \<and> (k, y) \<in> set (v_all v)"
proof (clarify)
  fix k x assume kx: "(k, x) \<in> set (v_all v)"
  from assms(1,3) show "\<exists>y. find_retrain env ai k = Inr y \<and> (k, y) \<in> set (v_all v)"
  proof (cases rule: retrain_cases [where env = env])
    case assert
    then show ?thesis using assms(5) by simp
  next
    case (new lr ai')
    have "km_w0 ai = lr_w0 lr" "km_w1 ai = lr_w1 lr"
      using new(1,6) assms(5) by (auto simp: KanvaModel_new_def split: if_splits)
    then have "predictions_close (e_fp env) lr (map fst (v_all v))"
      using assms(6) by (simp add: predictions_close_def lr_predict_weights)
    moreover have "k \<in> set (map fst (v_all v))" using kx by force
    ultimately obtain j where "j < length (v_all v)" "fst (v_all v ! j) = k"
        "find_retrain env ai k = Inr (snd (v_all v ! j))"
      using find_trained_own [OF new(5) _ v_all_sorted [OF assms(2)] _ _ new(6), of k] assms(4,5) new(1)
      by auto
    then show ?thesis by (metis nth_mem prod.collapse)
  qed
qed

theorem retrain_keeps_pairs_witness:
  "\<exists>b ai. retrain env_int b = Inr ai \<and> (\<exists>y. find_retrain env_int ai 20 = Inr y \<and> (20, y) \<in> set [(10, 1), (20, 2), (30, 3)])"
proof -
  let ?kvs = "[(10, 1), (20, 2), (30, 3)] :: (key_t \<times> val_t) list"
  obtain lf where rep: "bin_rep (leaf_bin ?kvs lf) (leaf_view ?kvs False)" "v_ok (leaf_view ?kvs False)"
    using leaf_bin_rep [of ?kvs] by auto
  have all: "v_all (leaf_view ?kvs False) = ?kvs" by (simp add: v_all_def leaf_view_def)
  obtain b' where "bin_collect (leaf_bin ?kvs lf) = Inr (?kvs, b')"
    using bin_collect_view [OF rep(1)] all by auto
  then have re: "retrain env_int (leaf_bin ?kvs lf) = Inr node_ex"
    using train_example by (simp add: retrain_def env_int_def KanvaModel_new_def node_ex_def)
  have close: "predictions_close (e_fp env_int) (lr_new (km_w0 node_ex) (km_w1 node_ex))
      (map fst (v_all (leaf_view ?kvs False)))"
    unfolding all by (simp add: predictions_close_def env_int_def lr_predict_def fp_int_def lr_new_def node_ex_def)
  show ?thesis
    using retrain_keeps_pairs [OF rep _ _ re close] re unfolding all by auto
qed

text \<open>Removing a training key writes the tombstone over its value and reports true; from then on
  a search for it returns the tombstone and every insertion of it reports false and changes
  nothing, so a removed training key can never be stored again in the node.\<close>

theorem removed_training_key_stays_removed:
  assumes "km_ok m" and "km_pos env m key = Inr (pos, key)" and "pos < length (km_keys m)"
  shows "\<exists>m'. km_delete env m key = Inr (True, m') \<and> km_ok m' \<and> find_retrain env m' key = Inr tombstone
    \<and> (\<forall>val. km_insert env m' key val = Inr (False, m'))"
proof -
  let ?m = "KModel (km_w0 m) (km_w1 m) (km_maxErr m) (km_keys m) ((km_vals m)[pos := tombstone]) (km_mobs m)"
  have len: "pos < length (km_vals m)" using km_okD(2) [OF assms(1)] assms(3) by simp
  have p: "km_pos env ?m key = Inr (pos, key)"
    using assms(2) by (simp add: km_pos_def locate_in_levelbin_def km_predict_def capacity_def cong: if_cong)
  obtain d where d: "km_depth m = Suc d" by (cases m) simp
  have "km_delete env m key = Inr (True, ?m)"
    using assms(2) len by (simp add: km_delete_def d)
  moreover have "km_ok ?m" using assms(1) by (cases m) simp
  moreover have "find_retrain env ?m key = Inr tombstone"
    using p len by (simp add: find_retrain.simps [of env ?m])
  moreover have "km_insert env ?m key val = Inr (False, ?m)" for val
    using p len by (simp add: km_insert_def)
  ultimately show ?thesis by blast
qed

theorem removed_training_key_stays_removed_witness:
  "\<exists>m'. km_delete env_int node_ex 20 = Inr (True, m') \<and> find_retrain env_int m' 20 = Inr tombstone
    \<and> km_insert env_int m' 20 5 = Inr (False, m')"
  using removed_training_key_stays_removed [OF node_ex_ok node_ex_pos(1)] by (auto simp: node_ex_def)

text \<open>A removal that is routed to a bin reports true whatever the bin answers: also when the bin
  refuses because it is closed, and when the key is not there.\<close>

theorem remove_ignores_bin_answer:
  assumes "km_ok m" and "km_pos env m key = Inr pk" and "key \<noteq> snd pk"
    and "nth_res (km_mobs m) (bin_pos key pk) = Inr (Some (MBin b))"
    and "bin_remove (e_mem env) key b = Inr (ok, b')"
  shows "km_delete env m key = Inr (True, set_slot (bin_pos key pk) (MBin b') m)"
proof -
  obtain d where "km_depth m = Suc d" by (cases m) simp
  then show ?thesis using assms(2-5) by (simp add: km_delete_def Let_def)
qed

theorem remove_ignores_bin_answer_witness:
  "\<exists>m'. km_delete env_int (set_slot 2 (MBin (Bin_new (\<lambda>_. 0))) node_ex) 25 = Inr (True, m')"
proof -
  let ?m = "set_slot 2 (MBin (Bin_new (\<lambda>_. 0))) node_ex"
  obtain b' where b': "bin_remove (e_mem env_int) 25 (Bin_new (\<lambda>_. 0)) = Inr (True, b')"
    using bin_remove_leaf_view(1) [OF bin_rep_new [of "\<lambda>_. 0"] v_ok_new, of 25 0 "[]"]
    by (auto simp: v_new_def env_int_def)
  have "km_ok ?m" using node_ex_ok open_bin_new [of "\<lambda>_. 0"] by (intro km_ok_set_slot) simp_all
  moreover have "km_pos env_int ?m 25 = Inr (1, 20)" using node_ex_pos(2) by simp
  ultimately show ?thesis
    using remove_ignores_bin_answer [OF _ _ _ _ b', of ?m "(1, 20)"] by (auto simp: bin_pos_def node_ex_def)
qed

end
