(* ===== verification/Kanva.thy ===== *)
theory Kanva
  imports Kanva_Model_Spec
begin

text \<open>
  The index: \<open>Kanva_impl/kanva.h\<close> and \<open>Kanva_impl/kanva_impl.h\<close>.

  Training cuts the sorted key array into consecutive chunks, each small enough that a linear model
  predicts the positions in it up to \<open>maxErr\<close>, and makes a learned node of each; \<open>model_keys\<close> has
  the last key of every node. An operation on a key searches \<open>model_keys\<close> for the node and calls
  the node's operation.

  \<open>maxErr\<close> and \<open>learning_step\<close> are C \<open>int\<close>s, and their comparisons with \<open>size_t\<close> and
  \<open>uint32_t\<close> values go through the conversions of the language. The \<open>float\<close> learning rate is used
  in \<open>int(step*learning_rate)\<close> only, which is the field \<open>k_rate\<close>; the theorems that need it assume
  that the rate is at most one half (\<open>rate_ok\<close>; the code's default is 0.1). The loops of the
  training take fuel; \<open>train_fuel\<close> and \<open>backward_fuel\<close> are shown to be enough.
\<close>

section \<open>State and training\<close>

record 'd Kanva =
  k_model_keys :: "key_t list"
  k_aimodels :: "'d KanvaModel list"
  k_maxErr :: int
  k_learning_step :: int
  k_rate :: "int \<Rightarrow> int"

definition Kanva_new :: "int \<Rightarrow> int \<Rightarrow> (int \<Rightarrow> int) \<Rightarrow> 'd Kanva" where
  "Kanva_new maxErr learning_step rate =
     \<lparr>k_model_keys = [], k_aimodels = [], k_maxErr = maxErr, k_learning_step = learning_step,
      k_rate = rate\<rparr>"

definition Kanva_default :: "(int \<Rightarrow> int) \<Rightarrow> 'd Kanva" where
  "Kanva_default rate = Kanva_new 64 1000 rate"

text \<open>\<open>model.train(keys_begin, n)\<close> on a new model.\<close>

definition train_iter :: "'d env \<Rightarrow> key_t list \<Rightarrow> nat \<Rightarrow> 'd lr_model res" where
  "train_iter env ks n =
     (if n \<le> length ks then lr_train_range (e_fp env) (lr_new (e_w env) (e_b env)) (take n ks)
      else Inl OutOfRange)"

text \<open>The loop that sets \<open>learning_step\<close> to the power of ten of the size; \<open>n/=10\<close> cuts towards 0.\<close>

function digits_step :: "int \<Rightarrow> int \<Rightarrow> int" where
  "digits_step n step =
     (if n = 0 then step else digits_step (sgn n * (\<bar>n\<bar> div 10)) (to_i32 (step * 10)))"
  by pat_completeness auto
termination
  by (relation "measure (\<lambda>(n, _). nat \<bar>n\<bar>)") (auto simp: abs_mult sgn_if)

declare digits_step.simps [simp del]

definition append_model ::
    "'d Kanva \<Rightarrow> 'd lr_model \<Rightarrow> key_t list \<Rightarrow> val_t list \<Rightarrow> nat \<Rightarrow> int \<Rightarrow> 'd Kanva res" where
  "append_model k lr ks vs sz er =
     bind_res (nth_int ks (int sz - 1)) (\<lambda>key.
       let step = digits_step (to_i32 (int (sz div 10))) 1 in
       assert_res (er \<le> k_maxErr k)
        (bind_res (KanvaModel_new lr ks vs sz (sz_of_int (k_maxErr k))) (\<lambda>aimodel.
           Inr (k\<lparr>k_model_keys := k_model_keys k @ [key], k_aimodels := k_aimodels k @ [aimodel],
                  k_learning_step := if step = 1 then 10 else step\<rparr>))))"

text \<open>The loops of \<open>backward_train\<close>: the step is made smaller than the size, then shorter and
  shorter prefixes are tried. The second returns the length of the prefix it made a node of, or
  the value of \<open>end\<close> the loop ends with.\<close>

fun shrink_step :: "nat \<Rightarrow> (int \<Rightarrow> int) \<Rightarrow> nat \<Rightarrow> int \<Rightarrow> int res" where
  "shrink_step 0 rate sz step = Inl OutOfFuel"
| "shrink_step (Suc n) rate sz step =
     (if sz \<le> to_u32 step then shrink_step n rate sz (rate step) else Inr step)"

function backward_loop ::
    "'d env \<Rightarrow> 'd Kanva \<Rightarrow> key_t list \<Rightarrow> val_t list \<Rightarrow> int \<Rightarrow> int \<Rightarrow> (nat \<times> 'd Kanva + int) res" where
  "backward_loop env k ks vs step fin =
     (if 0 < fin \<and> 0 < step then
        bind_res (train_iter env ks (nat fin)) (\<lambda>lr.
          if unat (lr_maxErr lr) \<le> sz_of_int (k_maxErr k) then
            bind_res (append_model k lr ks vs (nat fin) (to_i32 (uint (lr_maxErr lr))))
              (\<lambda>k'. Inr (Inl (nat fin, k')))
          else backward_loop env k ks vs step (fin - step))
      else Inr (Inr fin))"
  by pat_completeness auto
termination by (relation "measure (\<lambda>(_, _, _, _, _, fin). nat fin)") auto

declare backward_loop.simps [simp del]

definition backward_size :: "(int \<Rightarrow> int) \<Rightarrow> nat \<Rightarrow> int \<Rightarrow> (nat \<times> int) res" where
  "backward_size rate sz step =
     (if sz \<le> 10 then Inr (10, 1)
      else bind_res (shrink_step (nat \<bar>step\<bar> + 1) rate sz step) (\<lambda>step'. Inr (sz, step')))"

fun backward_train ::
    "nat \<Rightarrow> 'd env \<Rightarrow> 'd Kanva \<Rightarrow> key_t list \<Rightarrow> val_t list \<Rightarrow> nat \<Rightarrow> int \<Rightarrow> (nat \<times> 'd Kanva) res" where
  "backward_train 0 env k ks vs sz step = Inl OutOfFuel"
| "backward_train (Suc n) env k ks vs sz step =
     bind_res (backward_size (k_rate k) sz step) (\<lambda>(sz, step).
     assert_res (0 < step)
      (bind_res (backward_loop env k ks vs step (to_i32 (int sz - step))) (\<lambda>r.
         case r of Inl res \<Rightarrow> Inr res
         | Inr fin \<Rightarrow>
             bind_res (backward_train n env k ks vs (to_u32 fin) (k_rate k step)) (\<lambda>(r, k').
               Inr (sz_of_int (to_i32 (int r)), k')))))"

definition backward_fuel :: "int \<Rightarrow> nat" where
  "backward_fuel step = nat step + 3"

text \<open>The main loop: \<open>next_end\<close> is the clamped \<open>end += learning_step\<close>.\<close>

definition next_end :: "nat \<Rightarrow> 'd Kanva \<Rightarrow> nat \<Rightarrow> nat" where
  "next_end len k fin =
     (let fin' = sz_of_int (int fin + k_learning_step k) in if len < fin' then len else fin')"

fun train_loop ::
    "nat \<Rightarrow> 'd env \<Rightarrow> 'd Kanva \<Rightarrow> key_t list \<Rightarrow> val_t list \<Rightarrow> nat \<Rightarrow> nat \<Rightarrow> 'd Kanva res" where
  "train_loop 0 env k keys vals start fin = Inl OutOfFuel"
| "train_loop (Suc n) env k keys vals start fin =
     (if start < fin then
        let ks = drop start keys; vs = drop start vals; len = length keys in
        bind_res (train_iter env ks (fin - start)) (\<lambda>lr.
        let er = unat (lr_maxErr lr); me = sz_of_int (k_maxErr k) in
        if er = me then
          bind_res (append_model k lr ks vs (fin - start) (to_i32 (int er))) (\<lambda>k'.
            train_loop n env k' keys vals fin (next_end len k' fin))
        else if er < me then
          (if len \<le> fin then append_model k lr ks vs (fin - start) (to_i32 (int er))
           else train_loop n env k keys vals start (next_end len k fin))
        else
          bind_res (backward_train (backward_fuel (k_rate k (k_learning_step k))) env k ks vs
              (to_u32 (int (fin - start))) (k_rate k (k_learning_step k))) (\<lambda>(off, k').
            train_loop n env k' keys vals (start + off) (next_end len k' (start + off))))
      else Inr k)"

definition train_fuel :: "nat \<Rightarrow> nat" where
  "train_fuel len = (len + 1) * (len + 1) + 1"

definition Kanva_train :: "'d env \<Rightarrow> 'd Kanva \<Rightarrow> key_t list \<Rightarrow> val_t list \<Rightarrow> nat \<Rightarrow> 'd Kanva res" where
  "Kanva_train env k keys vals maxErr =
     assert_res (length keys = length vals)
      (let k1 = k\<lparr>k_maxErr := to_i32 (int maxErr)\<rparr>; step = sz_of_int (k_learning_step k1);
           fin = (if step < length keys then step else length keys) in
       bind_res (train_loop (train_fuel (length keys)) env k1 keys vals 0 fin) (\<lambda>k2.
         assert_res (length (k_model_keys k2) = length (k_aimodels k2)) (Inr k2)))"

section \<open>Operations\<close>

definition find_model :: "'d Kanva \<Rightarrow> key_t \<Rightarrow> nat res" where
  "find_model k key =
     bind_res (binary_search_branchless (k_model_keys k) (length (k_model_keys k)) key) (\<lambda>p.
       Inr (if length (k_aimodels k) \<le> p then sz_sub (length (k_aimodels k)) 1 else p))"

definition Kanva_find :: "'d env \<Rightarrow> 'd Kanva \<Rightarrow> key_t \<Rightarrow> val_t res" where
  "Kanva_find env k key =
     bind_res (find_model k key) (\<lambda>i.
     bind_res (nth_res (k_aimodels k) i) (\<lambda>m. find_retrain env m key))"

definition Kanva_insert :: "'d env \<Rightarrow> 'd Kanva \<Rightarrow> key_t \<Rightarrow> val_t \<Rightarrow> (bool \<times> 'd Kanva) res" where
  "Kanva_insert env k key val =
     bind_res (find_model k key) (\<lambda>i.
     bind_res (nth_res (k_aimodels k) i) (\<lambda>m.
     bind_res (km_insert env m key val) (\<lambda>(r, m').
       Inr (r, k\<lparr>k_aimodels := (k_aimodels k)[i := m']\<rparr>))))"

definition Kanva_remove :: "'d env \<Rightarrow> 'd Kanva \<Rightarrow> key_t \<Rightarrow> (bool \<times> 'd Kanva) res" where
  "Kanva_remove env k key =
     bind_res (find_model k key) (\<lambda>i.
     bind_res (nth_res (k_aimodels k) i) (\<lambda>m.
     bind_res (km_delete env m key) (\<lambda>(r, m').
       Inr (r, k\<lparr>k_aimodels := (k_aimodels k)[i := m']\<rparr>))))"

section \<open>The state during training\<close>

definition rate_ok :: "(int \<Rightarrow> int) \<Rightarrow> bool" where
  "rate_ok rate \<longleftrightarrow> (\<forall>s \<ge> 0. 0 \<le> rate s \<and> 2 * rate s \<le> s)"

text \<open>A node that \<open>append_model\<close> builds: trained on its own keys, with an error that the node's
  search window covers.\<close>

definition node_trained :: "'d env \<Rightarrow> nat \<Rightarrow> 'd KanvaModel \<Rightarrow> bool" where
  "node_trained env me m \<longleftrightarrow> km_keys m \<noteq> [] \<and> length (km_vals m) = length (km_keys m) \<and>
     (\<exists>lr. lr_train_range (e_fp env) (lr_new (e_w env) (e_b env)) (km_keys m) = Inr lr
        \<and> unat (lr_maxErr lr) \<le> me
        \<and> KanvaModel_new lr (km_keys m) (km_vals m) (length (km_keys m)) me = Inr m)"

definition trained_upto :: "'d env \<Rightarrow> 'd Kanva \<Rightarrow> key_t list \<Rightarrow> val_t list \<Rightarrow> nat \<Rightarrow> bool" where
  "trained_upto env k keys vals n \<longleftrightarrow>
     concat (map km_keys (k_aimodels k)) = take n keys \<and> concat (map km_vals (k_aimodels k)) = take n vals
     \<and> k_model_keys k = map (\<lambda>m. last (km_keys m)) (k_aimodels k)
     \<and> (\<forall>m \<in> set (k_aimodels k). node_trained env (nat (k_maxErr k)) m)"

definition params_ok :: "'d Kanva \<Rightarrow> bool" where
  "params_ok k \<longleftrightarrow> 0 \<le> k_maxErr k \<and> k_maxErr k < 2 ^ 31 \<and> 0 < k_learning_step k
     \<and> k_learning_step k < 2 ^ 31 \<and> rate_ok (k_rate k)"

text \<open>One node for the first \<open>n\<close> of the keys at the iterator.\<close>

definition appended :: "'d env \<Rightarrow> 'd Kanva \<Rightarrow> 'd Kanva \<Rightarrow> key_t list \<Rightarrow> val_t list \<Rightarrow> nat \<Rightarrow> bool" where
  "appended env k k' ks vs n \<longleftrightarrow> 0 < n \<and> n \<le> length ks \<and>
     (\<exists>m s. k' = k\<lparr>k_model_keys := k_model_keys k @ [last (take n ks)],
            k_aimodels := k_aimodels k @ [m], k_learning_step := s\<rparr>
        \<and> 0 < s \<and> s < 2 ^ 31 \<and> km_keys m = take n ks \<and> km_vals m = take n vs
        \<and> node_trained env (nat (k_maxErr k)) m)"

lemma digits_step_bounds:
  assumes "0 \<le> n" and "0 < s" and "10 * n * s < 2 ^ 31" "s < 2 ^ 31"
  shows "0 < digits_step n s \<and> digits_step n s < 2 ^ 31"
  using assms
proof (induction n s rule: digits_step.induct)
  case (1 n s)
  show ?case
  proof (cases "n = 0")
    case True
    then show ?thesis using "1.prems" by (simp add: digits_step.simps)
  next
    case False
    then have n: "1 \<le> n" using "1.prems" by simp
    have s10: "10 * s \<le> 10 * n * s" using n "1.prems"(2) by simp
    have mul: "10 * (n div 10) * (s * 10) \<le> 10 * n * s"
    proof -
      have "10 * (n div 10) \<le> n" by linarith
      then have "10 * (n div 10) * (s * 10) \<le> n * (s * 10)"
        using "1.prems"(2) by (intro mult_right_mono) auto
      then show ?thesis by (simp add: ac_simps)
    qed
    have "s * 10 < 2 ^ 31" using le_less_trans [OF s10 "1.prems"(3)] by simp
    then have small: "to_i32 (s * 10) = s * 10" using "1.prems"(2) by (intro to_i32_small) auto
    have step: "digits_step n s = digits_step (n div 10) (s * 10)"
      unfolding digits_step.simps [of n s] small using False n by simp
    have "sgn n * (\<bar>n\<bar> div 10) = n div 10" using n by simp
    then have "0 < digits_step (n div 10) (s * 10) \<and> digits_step (n div 10) (s * 10) < 2 ^ 31"
      using "1.IH" [OF False] small le_less_trans [OF mul "1.prems"(3)] \<open>s * 10 < 2 ^ 31\<close> n "1.prems"(2)
      by simp
    then show ?thesis unfolding step .
  qed
qed

lemma to_i32_nat: "int j < 2 ^ 31 \<Longrightarrow> to_i32 (int j) = int j"
  by simp

lemma append_model_trained:
  assumes k: "params_ok k" and lr: "train_iter env ks n = Inr lr" and n: "0 < n"
    and len: "length ks < 2 ^ 31" "length vs = length ks" and er: "unat (lr_maxErr lr) \<le> nat (k_maxErr k)"
  shows "\<exists>k'. append_model k lr ks vs n (to_i32 (int (unat (lr_maxErr lr)))) = Inr k' \<and> appended env k k' ks vs n"
proof -
  have nks: "n \<le> length ks" using lr by (simp add: train_iter_def split: if_splits)
  have me: "sz_of_int (k_maxErr k) = nat (k_maxErr k)" "int (unat (lr_maxErr lr)) \<le> k_maxErr k"
    using k er by (simp_all only: params_ok_def sz_of_int_small) (auto simp: nat_le_eq_zle le_nat_iff)
  define m where "m = KModel (lr_w0 lr) (lr_w1 lr) (nat (k_maxErr k)) (take n ks) (take n vs) (replicate (n + 1) None)"
  have new: "KanvaModel_new lr ks vs n (nat (k_maxErr k)) = Inr m"
    using nks len by (simp add: KanvaModel_new_def m_def)
  have d: "int (n div 10) < 2 ^ 31" "10 * int (n div 10) < 2 ^ 31" using nks len by simp_all
  define s where "s = (let d = digits_step (int (n div 10)) 1 in if d = 1 then 10 else d)"
  have s: "0 < s" "s < 2 ^ 31"
    using digits_step_bounds [of "int (n div 10)" 1] d by (auto simp: s_def Let_def)
  have key: "nth_int ks (int n - 1) = Inr (last (take n ks))"
  proof -
    have "last (take n ks) = ks ! (n - 1)" using n nks by (subst last_conv_nth) auto
    then show ?thesis using n nks nth_int_Inr [of "int n - 1" ks] by (simp add: nat_diff_distrib)
  qed
  have small: "to_i32 (int (unat (lr_maxErr lr))) = int (unat (lr_maxErr lr))"
    using me(2) k to_i32_nat [of "unat (lr_maxErr lr)"] by (simp add: params_ok_def)
  have "node_trained env (nat (k_maxErr k)) m"
    unfolding node_trained_def m_def using lr er n nks len
    by (auto simp: train_iter_def KanvaModel_new_def split: if_splits intro!: exI [of _ lr])
  moreover have "append_model k lr ks vs n (to_i32 (int (unat (lr_maxErr lr)))) =
      Inr (k\<lparr>k_model_keys := k_model_keys k @ [last (take n ks)], k_aimodels := k_aimodels k @ [m],
             k_learning_step := s\<rparr>)"
    using key me new d unfolding append_model_def small by (simp add: s_def Let_def assert_res_def)
  moreover have "km_keys m = take n ks" "km_vals m = take n vs" by (simp_all add: m_def)
  ultimately show ?thesis
    unfolding appended_def using n nks s by (intro exI conjI) (assumption | rule refl)+
qed

lemma appended_trained_upto:
  assumes "trained_upto env k keys vals start" and "appended env k k' (drop start keys) (drop start vals) n"
    and "length vals = length keys"
  shows "trained_upto env k' keys vals (start + n)" and "start + n \<le> length keys" and "0 < n"
    and "k_maxErr k' = k_maxErr k" and "k_rate k' = k_rate k" and "params_ok k \<Longrightarrow> params_ok k'"
proof -
  show "0 < n" "start + n \<le> length keys" using assms(2) by (auto simp: appended_def)
  obtain m s where k': "k' = k\<lparr>k_model_keys := k_model_keys k @ [last (take n (drop start keys))],
        k_aimodels := k_aimodels k @ [m], k_learning_step := s\<rparr>" "0 < s" "s < 2 ^ 31"
      "km_keys m = take n (drop start keys)" "km_vals m = take n (drop start vals)"
      "node_trained env (nat (k_maxErr k)) m"
    using assms(2) unfolding appended_def by blast
  show "k_maxErr k' = k_maxErr k" "k_rate k' = k_rate k" "params_ok k \<Longrightarrow> params_ok k'"
    using k'(1-3) by (simp_all add: params_ok_def)
  show "trained_upto env k' keys vals (start + n)"
    using assms(1) k' by (auto simp: trained_upto_def take_add)
qed

section \<open>Training ends\<close>

text \<open>The state and the iterator that \<open>backward_train\<close> works on.\<close>

definition slice_ok :: "'d Kanva \<Rightarrow> key_t list \<Rightarrow> val_t list \<Rightarrow> bool" where
  "slice_ok k ks vs \<longleftrightarrow> params_ok k \<and> length ks < 2 ^ 31 \<and> length vs = length ks \<and> ks \<noteq> []"

lemma train_iter_cases:
  assumes "n \<le> length ks"
  obtains (assert) "train_iter env ks n = Inl AssertFail" | (lr) lr where "train_iter env ks n = Inr lr"
  using lr_train_range_cases [of "e_fp env" "lr_new (e_w env) (e_b env)" "take n ks"] assms that
  by (auto simp: train_iter_def)

lemma train_iter_one:
  assumes "ks \<noteq> []"
  shows "\<exists>lr. train_iter env ks 1 = Inr lr \<and> lr_maxErr lr = 0"
proof -
  have "Suc 0 \<le> length ks" using assms by (cases ks) auto
  moreover have "positions_upto (length (take 1 ks)) = [0]" using assms by (cases ks) (auto simp: positions_upto_def)
  ultimately show ?thesis
    using assms by (auto simp: train_iter_def lr_train_range_def lr_train_def lr_new_def)
qed

definition backward_post ::
    "'d env \<Rightarrow> 'd Kanva \<Rightarrow> key_t list \<Rightarrow> val_t list \<Rightarrow> int \<Rightarrow> int \<Rightarrow> (nat \<times> 'd Kanva + int) res \<Rightarrow> bool" where
  "backward_post env k ks vs step fin r \<longleftrightarrow> r = Inl AssertFail
     \<or> (r = Inl OutOfRange \<and> int (length ks) < fin)
     \<or> (\<exists>n k'. r = Inr (Inl (n, k')) \<and> appended env k k' ks vs n)
     \<or> (\<exists>fin'. r = Inr (Inr fin') \<and> fin' \<le> 0 \<and> (0 < fin \<longrightarrow> - step < fin' \<and> step \<noteq> 1) \<and> (fin \<le> 0 \<longrightarrow> fin' = fin))"

lemma backward_loop_cases:
  assumes ok: "slice_ok k ks vs" and step: "0 < step"
  obtains (assert) "backward_loop env k ks vs step fin = Inl AssertFail"
  | (over) "backward_loop env k ks vs step fin = Inl OutOfRange" "int (length ks) < fin"
  | (node) n k' where "backward_loop env k ks vs step fin = Inr (Inl (n, k'))" "appended env k k' ks vs n"
  | (through) fin' where "backward_loop env k ks vs step fin = Inr (Inr fin')" "fin' \<le> 0"
      "0 < fin \<longrightarrow> - step < fin' \<and> step \<noteq> 1" "fin \<le> 0 \<longrightarrow> fin' = fin"
proof -
  have "backward_post env k ks vs step fin (backward_loop env k ks vs step fin)"
    using ok step
  proof (induction env k ks vs step fin rule: backward_loop.induct)
    case (1 env k ks vs step fin)
    let ?r = "backward_loop env k ks vs step fin"
    have me: "sz_of_int (k_maxErr k) = nat (k_maxErr k)" "0 \<le> k_maxErr k"
      using "1.prems" by (auto simp: slice_ok_def params_ok_def)
    show ?case
    proof (cases "0 < fin")
      case False
      then show ?thesis by (simp add: backward_loop.simps backward_post_def)
    next
      case pos: True
      show ?thesis
      proof (cases "nat fin \<le> length ks")
        case False
        then have "?r = Inl OutOfRange"
          using pos "1.prems"(2) by (simp add: backward_loop.simps [of _ _ _ _ _ fin] train_iter_def)
        then show ?thesis using False by (auto simp: backward_post_def)
      next
        case True
        show ?thesis
        proof (cases rule: train_iter_cases [OF True, of env])
          case 1
          then have "?r = Inl AssertFail"
            using pos "1.prems"(2) by (simp add: backward_loop.simps [of _ _ _ _ _ fin])
          then show ?thesis by (simp add: backward_post_def)
        next
          case (2 lr)
          show ?thesis
          proof (cases "unat (lr_maxErr lr) \<le> nat (k_maxErr k)")
            case er: True
            obtain k' where "append_model k lr ks vs (nat fin) (to_i32 (int (unat (lr_maxErr lr)))) = Inr k'"
                "appended env k k' ks vs (nat fin)"
              using append_model_trained [OF _ 2 _ _ _ er, of vs] pos "1.prems" by (auto simp: slice_ok_def)
            then show ?thesis
              using 2 pos er me "1.prems"(2) by (simp add: backward_loop.simps [of _ _ _ _ _ fin] backward_post_def)
          next
            case er: False
            have "fin \<noteq> 1"
              using er 2 train_iter_one [of ks env] "1.prems"(1) by (auto simp: slice_ok_def)
            moreover have "?r = backward_loop env k ks vs step (fin - step)"
              using 2 pos er me "1.prems"(2) by (simp add: backward_loop.simps [of _ _ _ _ _ fin])
            moreover have "backward_post env k ks vs step (fin - step) (backward_loop env k ks vs step (fin - step))"
              by (rule "1.IH" [of lr]) (use 2 pos er me "1.prems" in simp_all)
            ultimately show ?thesis
              unfolding backward_post_def using pos "1.prems"(2) by (cases "fin - step \<le> 0") auto
          qed
        qed
      qed
    qed
  qed
  then show ?thesis unfolding backward_post_def using that by blast
qed

lemma rate_okD: "rate_ok rate \<Longrightarrow> 0 \<le> s \<Longrightarrow> 0 \<le> rate s \<and> 2 * rate s \<le> s"
  by (simp add: rate_ok_def)

lemma shrink_step_ends:
  assumes "rate_ok rate" and "0 \<le> step" "step < 2 ^ 31" and "0 < sz" and "nat step < n"
  shows "\<exists>s. shrink_step n rate sz step = Inr s \<and> 0 \<le> s \<and> s \<le> step \<and> s < int sz"
  using assms
proof (induction n rate sz step rule: shrink_step.induct)
  case (2 n rate sz step)
  have r: "0 \<le> rate step" "2 * rate step \<le> step" using "2.prems" rate_okD by blast+
  show ?case
  proof (cases "sz \<le> to_u32 step")
    case True
    then have "nat (rate step) < n" using "2.prems" r by simp
    then show ?thesis using "2.IH" [OF True] "2.prems" True r by auto
  qed (use "2.prems" in auto)
qed simp

text \<open>A negative \<open>end\<close> becomes a large \<open>uint32_t\<close>: the recursion goes down to a step of 0 and the
  assertion on the step fails.\<close>

lemma backward_train_negative:
  assumes "rate_ok (k_rate k)" and "0 \<le> step" and "fin < 0" and "- (2 ^ 31) < fin - 2 * step" and "nat step < n"
  shows "backward_train n env k ks vs (to_u32 fin) step = Inl AssertFail"
  using assms(2-)
proof (induction n arbitrary: fin step)
  case (Suc n)
  have u: "to_u32 fin = nat (fin + 2 ^ 32)"
  proof -
    have "(fin + 2 ^ 32) mod 2 ^ 32 = fin + 2 ^ 32" using Suc.prems by (intro mod_pos_pos_trivial) simp_all
    then show ?thesis by (simp only: to_u32_def mod_add_self2)
  qed
  then have sz: "10 < to_u32 fin" "step < int (to_u32 fin)" using Suc.prems by simp_all
  have size: "backward_size (k_rate k) (to_u32 fin) step = Inr (to_u32 fin, step)"
    using sz Suc.prems by (simp add: backward_size_def)
  have fin: "to_i32 (int (to_u32 fin) - step) = fin - step"
    unfolding to_i32_u32 using Suc.prems by (intro to_i32_small) simp_all
  show ?case
  proof (cases "0 < step")
    case False
    then show ?thesis using size by simp
  next
    case True
    have r: "0 \<le> k_rate k step" "2 * k_rate k step \<le> step" using assms(1) Suc.prems rate_okD by blast+
    then have "backward_train n env k ks vs (to_u32 (fin - step)) (k_rate k step) = Inl AssertFail"
      using Suc.prems True by (intro Suc.IH) auto
    moreover have "backward_loop env k ks vs step (fin - step) = Inr (Inr (fin - step))"
      using Suc.prems by (simp add: backward_loop.simps)
    ultimately show ?thesis using True fin size by simp
  qed
qed simp

lemma appended_len: "appended env k k' ks vs n \<Longrightarrow> 0 < n \<and> n \<le> length ks"
  by (simp add: appended_def)

lemma backward_train_small:
  assumes ok: "slice_ok k ks vs" and "sz \<le> 10"
  obtains (assert) "backward_train (Suc n) env k ks vs sz step = Inl AssertFail"
  | (over) "backward_train (Suc n) env k ks vs sz step = Inl OutOfRange" "length ks < 9"
  | (node) r k' where "backward_train (Suc n) env k ks vs sz step = Inr (r, k')" "appended env k k' ks vs r"
proof -
  have size: "backward_size (k_rate k) sz step = Inr (10, 1)" using assms(2) by (simp add: backward_size_def)
  have nine: "to_i32 (int 10 - 1) = 9" by simp
  show ?thesis
  proof (cases rule: backward_loop_cases [OF ok zero_less_one, of env 9])
    case 4
    then show ?thesis by simp
  qed (use that size nine in auto)
qed

lemma backward_train_cases:
  assumes ok: "slice_ok k ks vs" and sz: "sz \<le> length ks" and step: "0 \<le> step" "step < 2 ^ 30"
    and n: "nat step + 2 < n"
  obtains (assert) "backward_train n env k ks vs sz step = Inl AssertFail"
  | (over) "backward_train n env k ks vs sz step = Inl OutOfRange" "length ks < 9"
  | (node) r k' where "backward_train n env k ks vs sz step = Inr (r, k')" "appended env k k' ks vs r"
proof -
  obtain n' where n': "n = Suc (Suc n')" "nat step < Suc n'" using n by (cases n; cases "n - 1") auto
  show ?thesis
  proof (cases "sz \<le> 10")
    case True
    show ?thesis using backward_train_small [OF ok True, of "Suc n'" env step] that unfolding n'(1) by blast
  next
    case False
    have rate: "rate_ok (k_rate k)" and len: "length ks < 2 ^ 31" using ok by (simp_all add: slice_ok_def params_ok_def)
    obtain s where s: "shrink_step (nat \<bar>step\<bar> + 1) (k_rate k) sz step = Inr s" "0 \<le> s" "s \<le> step" "s < int sz"
      using shrink_step_ends [OF rate step(1), of sz "nat \<bar>step\<bar> + 1"] step False by auto
    have size: "backward_size (k_rate k) sz step = Inr (sz, s)" using False s by (simp add: backward_size_def)
    have fin: "to_i32 (int sz - s) = int sz - s" using s sz len by (intro to_i32_small) simp_all
    show ?thesis
    proof (cases "0 < s")
      case False
      then show ?thesis using that(1) size n' by simp
    next
      case True
      note run = size fin True n'(1)
      have r: "0 \<le> k_rate k s" "2 * k_rate k s \<le> s" using rate s(2) rate_okD by blast+
      show ?thesis
      proof (cases rule: backward_loop_cases [OF ok True, of env "int sz - s"])
        case 2
        then show ?thesis using sz s by simp
      next
        case (4 fin')
        then have fin': "fin' \<le> 0" "- s < fin'" using s by auto
        have rec: "backward_train n env k ks vs sz step =
            bind_res (backward_train (Suc n') env k ks vs (to_u32 fin') (k_rate k s)) (\<lambda>(r, k').
              Inr (sz_of_int (to_i32 (int r)), k'))"
          using run 4(1) by simp
        show ?thesis
        proof (cases "fin' < 0")
          case neg: True
          have "backward_train (Suc n') env k ks vs (to_u32 fin') (k_rate k s) = Inl AssertFail"
            using rate r neg fin' s step n'(2) by (intro backward_train_negative) auto
          then show ?thesis using that(1) rec by simp
        next
          case False
          then have z: "to_u32 fin' = 0" using fin' by simp
          show ?thesis
          proof (cases rule: backward_train_small [OF ok, of "to_u32 fin'" n' env "k_rate k s"])
            case (4 r k')
            then have "sz_of_int (to_i32 (int r)) = r" using appended_len len by force
            then show ?thesis using that(3) rec 4 by simp
          qed (use z that rec in auto)
        qed
      qed (use that run in auto)
    qed
  qed
qed

text \<open>The state of the main loop: the nodes cover the keys before \<open>start\<close>, and the chunk is not
  empty as long as keys are left.\<close>

definition loop_ok :: "'d env \<Rightarrow> 'd Kanva \<Rightarrow> key_t list \<Rightarrow> val_t list \<Rightarrow> nat \<Rightarrow> nat \<Rightarrow> bool" where
  "loop_ok env k keys vals start fin \<longleftrightarrow> params_ok k \<and> trained_upto env k keys vals start
     \<and> length vals = length keys \<and> length keys < 2 ^ 31 \<and> start \<le> fin \<and> fin \<le> length keys
     \<and> (start < length keys \<longrightarrow> start < fin)"

definition loop_measure :: "nat \<Rightarrow> nat \<Rightarrow> nat \<Rightarrow> nat" where
  "loop_measure len start fin = (len - start) * (len + 1) + (len - fin)"

lemma loop_measure_start:
  "start < start' \<Longrightarrow> start' \<le> len \<Longrightarrow> loop_measure len start' fin' < loop_measure len start fin"
proof -
  assume a: "start < start'" "start' \<le> len"
  then have "Suc (len - start') * (len + 1) \<le> (len - start) * (len + 1)" by (intro mult_le_mono1) simp
  moreover have "(len - start') * (len + 1) + (len - fin') < Suc (len - start') * (len + 1)"
    by simp
  ultimately show ?thesis unfolding loop_measure_def by linarith
qed

lemma loop_measure_fin:
  "fin < fin' \<Longrightarrow> fin' \<le> len \<Longrightarrow> loop_measure len start fin' < loop_measure len start fin"
  by (simp add: loop_measure_def diff_less_mono2)

lemma next_end_bounds:
  assumes "params_ok k" and "len < 2 ^ 31" and "fin \<le> len"
  shows "fin \<le> next_end len k fin" and "next_end len k fin \<le> len" and "fin < len \<Longrightarrow> fin < next_end len k fin"
proof -
  have "sz_of_int (int fin + k_learning_step k) = fin + nat (k_learning_step k)"
    using assms by (subst sz_of_int_small) (auto simp: params_ok_def nat_add_distrib)
  then show "fin \<le> next_end len k fin" "next_end len k fin \<le> len" "fin < len \<Longrightarrow> fin < next_end len k fin"
    using assms by (auto simp: next_end_def Let_def params_ok_def)
qed

lemma loop_ok_appended:
  assumes "loop_ok env k keys vals start fin" and "appended env k k' (drop start keys) (drop start vals) n"
  shows "loop_ok env k' keys vals (start + n) (next_end (length keys) k' (start + n))"
    and "loop_measure (length keys) (start + n) fin' < loop_measure (length keys) start fin"
proof -
  note ok = assms(1) [unfolded loop_ok_def]
  have k': "trained_upto env k' keys vals (start + n)" "start + n \<le> length keys" "0 < n" "params_ok k'"
    using appended_trained_upto [OF _ assms(2)] ok by blast+
  then show "loop_ok env k' keys vals (start + n) (next_end (length keys) k' (start + n))"
    using next_end_bounds [OF k'(4), of "length keys" "start + n"] ok by (simp add: loop_ok_def)
  show "loop_measure (length keys) (start + n) fin' < loop_measure (length keys) start fin"
    using k' by (intro loop_measure_start) simp_all
qed

text \<open>The loop ends within its fuel; unless an assertion fails, or fewer than nine keys are left and
  the code reads past them, the nodes cover all keys.\<close>

lemma train_loop_ends:
  assumes "loop_ok env k keys vals start fin" and "loop_measure (length keys) start fin < n"
  shows "train_loop n env k keys vals start fin \<in> {Inl AssertFail, Inl OutOfRange} \<or>
    (\<exists>k'. train_loop n env k keys vals start fin = Inr k' \<and> trained_upto env k' keys vals (length keys)
       \<and> k_maxErr k' = k_maxErr k)"
  using assms
proof (induction n arbitrary: k start fin)
  case (Suc n)
  note ok = Suc.prems(1) [unfolded loop_ok_def]
  let ?ks = "drop start keys" and ?vs = "drop start vals" and ?len = "length keys"
  have next_chunk: ?case
    if "train_loop (Suc n) env k keys vals start fin = train_loop n env k' keys vals (start + r) (next_end ?len k' (start + r))"
      "appended env k k' ?ks ?vs r" for k' r
  proof -
    have "k_maxErr k' = k_maxErr k" using that(2) by (auto simp: appended_def)
    moreover have "loop_measure ?len (start + r) (next_end ?len k' (start + r)) < n"
      using Suc.prems(2) loop_ok_appended(2) [OF Suc.prems(1) that(2), of "next_end ?len k' (start + r)"]
      by linarith
    ultimately show ?thesis
      using Suc.IH [OF loop_ok_appended(1) [OF Suc.prems(1) that(2)]] unfolding that(1) by simp
  qed
  show ?case
  proof (cases "start < fin")
    case False
    then have "start = length keys" using ok by linarith
    then have "trained_upto env k keys vals (length keys)" using ok by blast
    then show ?thesis using False by simp
  next
    case chunk: True
    then have n: "fin - start \<le> length ?ks" "0 < fin - start" using ok by auto
    have slice: "slice_ok k ?ks ?vs" using ok chunk by (auto simp: slice_ok_def)
    have me: "sz_of_int (k_maxErr k) = nat (k_maxErr k)" using ok by (simp add: params_ok_def)
    show ?thesis
    proof (cases rule: train_iter_cases [OF n(1), of env])
      case 1
      then show ?thesis using chunk by (simp add: Let_def)
    next
      case (2 lr)
      let ?er = "unat (lr_maxErr lr)"
      consider "?er < nat (k_maxErr k)" "fin < ?len" | "?er \<le> nat (k_maxErr k)" "?er = nat (k_maxErr k) \<or> ?len \<le> fin"
        | "nat (k_maxErr k) < ?er" by linarith
      then show ?thesis
      proof cases
        case 1
        then have run: "train_loop (Suc n) env k keys vals start fin = train_loop n env k keys vals start (next_end ?len k fin)"
          using 2 chunk me by (simp add: Let_def)
        note b = next_end_bounds [of k ?len fin]
        have "loop_ok env k keys vals start (next_end ?len k fin)" using ok chunk b by (auto simp: loop_ok_def)
        moreover have "loop_measure ?len start (next_end ?len k fin) < n"
          using Suc.prems(2) loop_measure_fin [of fin "next_end ?len k fin" ?len start] b ok 1 by auto
        ultimately show ?thesis unfolding run by (rule Suc.IH)
      next
        case er: 2
        obtain k' where k': "append_model k lr ?ks ?vs (fin - start) (to_i32 (int ?er)) = Inr k'"
            "appended env k k' ?ks ?vs (fin - start)"
          using append_model_trained [OF _ 2 n(2) _ _ er(1), of ?vs] slice by (auto simp: slice_ok_def)
        show ?thesis
        proof (cases "?er = nat (k_maxErr k)")
          case True
          then show ?thesis using 2 chunk me k' by (intro next_chunk [OF _ k'(2)]) (simp add: Let_def)
        next
          case False
          then have "?er < nat (k_maxErr k)" "?len = fin" using er ok by auto
          then show ?thesis
            using 2 chunk me k' appended_trained_upto(1,4) [OF _ k'(2)] ok by (simp add: Let_def)
        qed
      next
        case 3
        let ?step = "k_rate k (k_learning_step k)"
        have "0 \<le> ?step \<and> 2 * ?step \<le> k_learning_step k" using ok rate_okD by (force simp: params_ok_def)
        then have step: "0 \<le> ?step" "?step < 2 ^ 30" using ok by (simp_all add: params_ok_def)
        have sz: "to_u32 (int (fin - start)) = fin - start" using ok by simp
        have run: "train_loop (Suc n) env k keys vals start fin =
            bind_res (backward_train (backward_fuel ?step) env k ?ks ?vs (fin - start) ?step) (\<lambda>(off, k').
              train_loop n env k' keys vals (start + off) (next_end ?len k' (start + off)))"
          using 2 3 chunk me sz by (simp add: Let_def)
        have fuel: "nat ?step + 2 < backward_fuel ?step" by (simp add: backward_fuel_def)
        show ?thesis
          by (cases rule: backward_train_cases [OF slice n(1) step fuel, of env])
            (use run in \<open>simp, simp, intro next_chunk, simp_all\<close>)
      qed
    qed
  qed
qed simp

section \<open>Routing\<close>

lemma find_model_lb:
  assumes "sorted (k_model_keys k)" and "length (k_model_keys k) = length (k_aimodels k)"
    and "k_aimodels k \<noteq> []" and "length (k_aimodels k) < 2 ^ 64"
  shows "find_model k key = Inr (min (lb (k_model_keys k) key) (length (k_aimodels k) - 1))"
proof -
  have "1 \<le> length (k_aimodels k)" using assms(3) by (cases "k_aimodels k") auto
  then have "sz_sub (length (k_aimodels k)) 1 = length (k_aimodels k) - 1"
    using assms(4) by (intro sz_sub_small) auto
  then show ?thesis
    unfolding find_model_def binary_search_branchless_lb [OF assms(1)]
    using lb_le [of "k_model_keys k" key] assms(2) \<open>1 \<le> length (k_aimodels k)\<close> by auto
qed

section \<open>Training and search together\<close>

text \<open>The invariant of the index: as many routing keys as nodes, in ascending order, and every node
  well-formed.\<close>

definition kanva_ok :: "'d Kanva \<Rightarrow> bool" where
  "kanva_ok k \<longleftrightarrow> sorted (k_model_keys k) \<and> length (k_model_keys k) = length (k_aimodels k)
     \<and> k_aimodels k \<noteq> [] \<and> length (k_aimodels k) < 2 ^ 64 \<and> (\<forall>m \<in> set (k_aimodels k). km_ok m)"

lemma node_trained_ok: "node_trained env me m \<Longrightarrow> km_ok m"
  by (cases m) (auto simp: node_trained_def KanvaModel_new_def split: if_splits)

lemma trained_parts:
  assumes "trained_upto env k keys vals (length keys)" and "ssorted keys"
  shows "ssorted (concat (map km_keys (k_aimodels k)))" and "[] \<notin> set (map km_keys (k_aimodels k))"
    and "k_model_keys k = map last (map km_keys (k_aimodels k))"
    and "length vals = length keys \<Longrightarrow> concat (map km_vals (k_aimodels k)) = vals"
  using assms by (auto simp: trained_upto_def node_trained_def)

lemma length_concat_ge: "[] \<notin> set xss \<Longrightarrow> length xss \<le> length (concat xss)"
proof (induction xss)
  case (Cons xs xss)
  then have "1 \<le> length xs" by (cases xs) auto
  then show ?case using Cons by (simp add: add_mono [of 1, simplified])
qed simp

lemma trained_kanva_ok:
  assumes "trained_upto env k keys vals (length keys)" and "ssorted keys" and "keys \<noteq> []" and "length keys < 2 ^ 31"
  shows "kanva_ok k"
proof -
  note p = trained_parts [OF assms(1,2)]
  have cat: "concat (map km_keys (k_aimodels k)) = keys" using assms(1) by (simp add: trained_upto_def)
  have "length (k_aimodels k) \<le> length keys" using length_concat_ge [OF p(2)] cat by simp
  moreover have "k_aimodels k \<noteq> []" using cat assms(3) by auto
  moreover have "\<forall>m \<in> set (k_aimodels k). km_ok m"
    using assms(1) node_trained_ok by (auto simp: trained_upto_def)
  moreover have "sorted (k_model_keys k)" using ssorted_map_last [OF p(1,2)] p(3) by (simp add: strict_sorted_iff)
  ultimately show ?thesis using assms(4) p(3) by (auto simp: kanva_ok_def)
qed

lemma trained_find:
  assumes tr: "trained_upto env k keys vals (length keys)" and keys: "ssorted keys" "length keys < 2 ^ 31"
    and vals: "length vals = length keys" and me: "0 \<le> k_maxErr k" "k_maxErr k < 2 ^ 31"
    and close: "\<forall>m \<in> set (k_aimodels k). predictions_close (e_fp env) (lr_new (km_w0 m) (km_w1 m)) (km_keys m)"
    and j: "j < length keys"
  shows "Kanva_find env k (keys ! j) = Inr (vals ! j)"
proof -
  let ?kss = "map km_keys (k_aimodels k)" and ?vss = "map km_vals (k_aimodels k)"
  note p = trained_parts [OF tr keys(1)]
  have cat: "concat ?kss = keys" "concat ?vss = vals" using tr vals by (simp_all add: trained_upto_def)
  have node: "node_trained env (nat (k_maxErr k)) m" if "m \<in> set (k_aimodels k)" for m
    using tr that by (simp add: trained_upto_def)
  then have "map length ?kss = map length ?vss" by (auto simp: node_trained_def)
  then obtain i r where ir: "i < length (k_aimodels k)" "r < length (km_keys (k_aimodels k ! i))"
      "keys ! j = km_keys (k_aimodels k ! i) ! r" "vals ! j = km_vals (k_aimodels k ! i) ! r"
    using nth_concat_parts [of ?kss ?vss j] cat j by auto
  define m where "m = k_aimodels k ! i"
  have m: "m \<in> set (k_aimodels k)" using ir(1) by (simp add: m_def)
  have key: "keys ! j \<in> set (km_keys m)" using ir(2,3) by (simp add: m_def)
  have "lb (k_model_keys k) (keys ! j) = i" unfolding p(3)
    using lb_last_parts [OF p(1,2), of i "keys ! j"] ir(1) key by (simp add: m_def)
  moreover have "kanva_ok k" using trained_kanva_ok [OF tr keys(1) _ keys(2)] j by (cases "keys = []") simp_all
  ultimately have route: "find_model k (keys ! j) = Inr i"
    using find_model_lb [of k "keys ! j"] ir(1) by (simp add: kanva_ok_def min_def)
  have "length (km_keys m) \<le> length keys" unfolding cat(1) [symmetric]
    using m by (simp add: length_concat member_le_sum_list)
  then have len: "length (km_keys m) < 2 ^ 31" using keys(2) by simp
  have srt: "ssorted (km_keys m)" using ssorted_concat_parts [OF p(1)] m by simp
  obtain lr where lr: "lr_train_range (e_fp env) (lr_new (e_w env) (e_b env)) (km_keys m) = Inr lr"
      "unat (lr_maxErr lr) \<le> nat (k_maxErr k)"
      "KanvaModel_new lr (km_keys m) (km_vals m) (length (km_keys m)) (nat (k_maxErr k)) = Inr m"
      "length (km_vals m) = length (km_keys m)"
    using node [OF m] by (auto simp: node_trained_def)
  have "km_w0 m = lr_w0 lr" "km_w1 m = lr_w1 lr"
    using lr(3,4) by (cases m; auto simp: KanvaModel_new_def)+
  then have "predictions_close (e_fp env) lr (km_keys m)"
    using bspec [OF close m] by (simp add: predictions_close_def lr_predict_weights)
  then obtain q where "q < length (km_keys m)" "km_keys m ! q = keys ! j" "find_retrain env m (keys ! j) = Inr (km_vals m ! q)"
    using find_trained [OF lr(1) _ _ len lr(4,2) _ lr(3) key] srt me nat_less_iff [of "k_maxErr k" "2 ^ 63"]
    by (auto simp: strict_sorted_iff)
  moreover have "q = r" using calculation ir(2,3) ssorted_nth_eq_iff [OF srt, of q r] by (simp add: m_def)
  ultimately show ?thesis using route ir(1,4) by (simp add: Kanva_find_def m_def)
qed

lemma Kanva_train_loop:
  assumes "length vals = length keys" and "length keys < 2 ^ 31" and "maxErr < 2 ^ 31"
    and "0 < step" "step < 2 ^ 31" and "rate_ok rate"
  obtains (fail) "Kanva_train env (Kanva_new e step rate) keys vals maxErr \<in> {Inl AssertFail, Inl OutOfRange}"
  | (index) k where "Kanva_train env (Kanva_new e step rate) keys vals maxErr = Inr k"
      "trained_upto env k keys vals (length keys)" "k_maxErr k = int maxErr"
proof -
  let ?k = "(Kanva_new e step rate)\<lparr>k_maxErr := int maxErr\<rparr> :: 'a Kanva"
  define fin where "fin = (if nat step < length keys then nat step else length keys)"
  have params: "params_ok ?k" using assms by (simp add: params_ok_def Kanva_new_def)
  have "loop_ok env ?k keys vals 0 fin"
    using params assms by (simp add: loop_ok_def fin_def trained_upto_def Kanva_new_def)
  moreover have "loop_measure (length keys) 0 fin < train_fuel (length keys)"
    by (simp add: loop_measure_def train_fuel_def)
  moreover have "to_i32 (int maxErr) = int maxErr" "sz_of_int step = nat step" using assms by simp_all
  then have run: "Kanva_train env (Kanva_new e step rate) keys vals maxErr =
      bind_res (train_loop (train_fuel (length keys)) env ?k keys vals 0 fin) (\<lambda>k2.
         assert_res (length (k_model_keys k2) = length (k_aimodels k2)) (Inr k2))"
    using assms(1) by (simp add: Kanva_train_def Kanva_new_def fin_def Let_def)
  ultimately consider "train_loop (train_fuel (length keys)) env ?k keys vals 0 fin \<in> {Inl AssertFail, Inl OutOfRange}"
    | k where "train_loop (train_fuel (length keys)) env ?k keys vals 0 fin = Inr k"
        "trained_upto env k keys vals (length keys)" "k_maxErr k = int maxErr"
    using train_loop_ends [of env ?k keys vals 0 fin "train_fuel (length keys)"] by auto
  then show ?thesis
  proof cases
    case 1
    then show ?thesis using that(1) unfolding run by auto
  next
    case (2 k)
    moreover have "length (k_model_keys k) = length (k_aimodels k)" using 2(2) by (simp add: trained_upto_def)
    ultimately show ?thesis using that(2) [of k] unfolding run by simp
  qed
qed

section \<open>Operations keep the invariant\<close>

lemma kanva_ok_route:
  assumes "kanva_ok k"
  obtains i where "find_model k key = Inr i" "i < length (k_aimodels k)" "km_ok (k_aimodels k ! i)"
proof -
  define i where "i = min (lb (k_model_keys k) key) (length (k_aimodels k) - 1)"
  have "i < length (k_aimodels k)" using assms by (auto simp: kanva_ok_def i_def min_less_iff_disj)
  then show ?thesis
    using that [of i] find_model_lb [of k key] assms by (auto simp: kanva_ok_def i_def)
qed

lemma kanva_ok_update: "kanva_ok k \<Longrightarrow> km_ok m \<Longrightarrow> kanva_ok (k\<lparr>k_aimodels := (k_aimodels k)[i := m]\<rparr>)"
  by (auto simp: kanva_ok_def dest!: set_update_subset_insert [THEN subsetD])

lemma find_model_update [simp]:
  "find_model (k\<lparr>k_aimodels := (k_aimodels k)[i := m]\<rparr>) key = find_model k key"
  by (simp add: find_model_def cong: if_cong)

lemma open_bin_search: "open_bin b \<Longrightarrow> 0 < key \<Longrightarrow> key < key_max \<Longrightarrow> \<exists>v. bin_search key b = Inr v"
  unfolding open_bin_def using bin_search_view by blast

lemma find_retrain_safe:
  assumes "km_ok m" and "0 < key" "key < key_max"
  shows "find_retrain env m key = Inl AssertFail \<or> (\<exists>v. find_retrain env m key = Inr v)"
  using assms
proof (induction env m key rule: find_retrain.induct)
  case (1 env m key)
  note ok = "1.prems"(1)
  show ?case
  proof (cases rule: km_pos_cases [OF km_okD(1) [OF ok], of env key])
    case 1
    then show ?thesis by (simp add: find_retrain.simps)
  next
    case (2 pos)
    let ?k = "km_keys m ! pos"
    let ?i = "bin_pos key (pos, ?k)"
    show ?thesis
    proof (cases "key = ?k")
      case True
      then show ?thesis using 2 km_okD(2) [OF ok] by (simp add: find_retrain.simps [of env m])
    next
      case False
      have i: "?i < length (km_mobs m)" using bin_pos_less [OF 2(1)] km_okD(3) [OF ok] by simp
      have run: "find_retrain env m key = (case km_mobs m ! ?i of None \<Rightarrow> Inr (- 1)
           | Some (MBin b) \<Rightarrow> bin_search key b | Some (MModel ai) \<Rightarrow> find_retrain env ai key)"
        using 2 False i by (simp add: find_retrain.simps [of env m])
      show ?thesis
      proof (cases "km_mobs m ! ?i")
        case (Some mob)
        show ?thesis
        proof (cases mob)
          case (MBin b)
          then show ?thesis using km_okD(4) [OF ok i Some] open_bin_search [of b key] "1.prems" Some run by auto
        next
          case (MModel ai)
          have "find_retrain env ai key = Inl AssertFail \<or> (\<exists>v. find_retrain env ai key = Inr v)"
            by (rule "1.IH" [OF 2(2) _ _ Some MModel]) (use False i Some MModel "1.prems" km_okD(4) [OF ok i Some] in simp_all)
          then show ?thesis using Some MModel run by simp
        qed
      qed (use run in simp)
    qed
  qed
qed

text \<open>Sequences of searches and insertions.\<close>

datatype kop = KFind key_t | KInsert key_t val_t

datatype kret = KVal val_t | KBool bool

fun kanva_step :: "'d env \<Rightarrow> kop \<Rightarrow> 'd Kanva \<Rightarrow> (kret \<times> 'd Kanva) res" where
  "kanva_step env (KFind key) k = bind_res (Kanva_find env k key) (\<lambda>v. Inr (KVal v, k))"
| "kanva_step env (KInsert key val) k = bind_res (Kanva_insert env k key val) (\<lambda>(r, k'). Inr (KBool r, k'))"

fun kop_ok :: "kop \<Rightarrow> bool" where
  "kop_ok (KFind key) = (0 < key \<and> key < key_max)"
| "kop_ok (KInsert key val) = (key < key_max)"

lemma Kanva_insert_cases:
  assumes ok: "kanva_ok k" and key: "key < key_max" and mem: "e_mem env 1 \<le> 0"
  obtains (assert) "Kanva_insert env k key val = Inl AssertFail"
  | (stored) i r m where "find_model k key = Inr i" "i < length (k_aimodels k)" "km_ok m"
      "Kanva_insert env k key val = Inr (r, k\<lparr>k_aimodels := (k_aimodels k)[i := m]\<rparr>)"
      "r \<and> val \<noteq> tombstone \<and> 0 < key \<longrightarrow> km_status env m key = Inr True"
proof -
  obtain i where i: "find_model k key = Inr i" "i < length (k_aimodels k)" "km_ok (k_aimodels k ! i)"
    using kanva_ok_route [OF ok] by blast
  have "insert_post env (k_aimodels k ! i) key val (km_insert env (k_aimodels k ! i) key val)"
    unfolding km_insert_def by (rule insert_safe [OF i(3) key mem]) simp
  then consider "km_insert env (k_aimodels k ! i) key val = Inl AssertFail"
    | r m where "km_insert env (k_aimodels k ! i) key val = Inr (r, m)" "km_ok m"
        "r \<and> val \<noteq> tombstone \<and> 0 < key \<longrightarrow> km_status env m key = Inr True"
    unfolding insert_post_def by blast
  then show ?thesis
  proof cases
    case 1
    then show ?thesis using that(1) i by (simp add: Kanva_insert_def)
  next
    case (2 r m)
    then have "Kanva_insert env k key val = Inr (r, k\<lparr>k_aimodels := (k_aimodels k)[i := m]\<rparr>)"
      using i by (simp add: Kanva_insert_def)
    then show ?thesis using that(2) [of i m r] i(1,2) 2(2,3) by blast
  qed
qed

lemma kanva_step_safe:
  assumes "kanva_ok k" and "kop_ok x" and "e_mem env 1 \<le> 0"
  shows "kanva_step env x k = Inl AssertFail \<or> (\<exists>r k'. kanva_step env x k = Inr (r, k') \<and> kanva_ok k'
    \<and> k_model_keys k' = k_model_keys k)"
proof (cases x)
  case (KFind key)
  obtain i where i: "find_model k key = Inr i" "i < length (k_aimodels k)" "km_ok (k_aimodels k ! i)"
    using kanva_ok_route [OF assms(1)] by blast
  then show ?thesis
    using find_retrain_safe [OF i(3), of key env] KFind assms by (auto simp: Kanva_find_def)
next
  case (KInsert key val)
  then have "key < key_max" using assms(2) by simp
  from assms(1) this assms(3) show ?thesis
    by (cases rule: Kanva_insert_cases [where val = val])
      (use KInsert assms kanva_ok_update in auto)
qed

interpretation kanva_ops: op_safety "\<lambda>k. kanva_ok k \<and> k_model_keys k = mks" "kanva_step env"
  "\<lambda>x. kop_ok x \<and> e_mem env 1 \<le> 0" "\<lambda>e. e = AssertFail" for env mks
  by unfold_locales (use kanva_step_safe in fastforce)

section \<open>Correctness of the index\<close>

text \<open>An index trained on three keys.\<close>

definition kanva_ex :: "int Kanva" where
  "kanva_ex = \<lparr>k_model_keys = [30], k_aimodels = [node_ex], k_maxErr = 2, k_learning_step = 10,
     k_rate = (\<lambda>s. s div 10)\<rparr>"

lemma rate_ok_tenth: "rate_ok (\<lambda>s. s div 10)"
  by (auto simp: rate_ok_def)

lemma kanva_ex_train:
  "Kanva_train env_int (Kanva_new 64 1000 (\<lambda>s. s div 10)) [10, 20, 30] [1, 2, 3] 2 = Inr kanva_ex"
proof -
  let ?k = "\<lparr>k_model_keys = [], k_aimodels = [], k_maxErr = 2, k_learning_step = 1000,
     k_rate = (\<lambda>s. s div 10)\<rparr> :: int Kanva"
  have tr: "train_iter env_int [10, 20, 30] (Suc (Suc (Suc 0))) = Inr \<lparr>lr_maxErr = 2, lr_w0 = 0, lr_w1 = - 1\<rparr>"
    using train_example by (simp add: train_iter_def env_int_def)
  have ap: "append_model ?k \<lparr>lr_maxErr = 2, lr_w0 = 0, lr_w1 = - 1\<rparr> [10, 20, 30] [1, 2, 3] (Suc (Suc (Suc 0))) 2
      = Inr kanva_ex"
    by (simp add: append_model_def nth_int_def nth_res_def digits_step.simps KanvaModel_new_def
        kanva_ex_def node_ex_def Let_def)
  have fuel: "train_fuel (length ([10, 20, 30] :: key_t list)) = Suc (Suc 15)" by (simp add: train_fuel_def)
  have "train_loop (Suc (Suc n)) env_int ?k [10, 20, 30] [1, 2, 3] 0 (Suc (Suc (Suc 0))) = Inr kanva_ex" for n
    using tr ap by (simp add: Let_def kanva_ex_def next_end_def)
  from this [of 15] show ?thesis
    unfolding Kanva_train_def fuel by (simp add: Kanva_new_def Let_def kanva_ex_def)
qed

text \<open>C22. Training on fewer than 2 to the 31 keys with a positive learning step and a learning rate of
  at most one half ends: within \<open>train_fuel\<close> iterations it returns an index, stops at a failed
  assertion, or reads past the end of the key array.\<close>

theorem train_terminates:
  assumes "length vals = length keys" and "length keys < 2 ^ 31" and "maxErr < 2 ^ 31"
    and "0 < step" "step < 2 ^ 31" and "rate_ok rate"
  shows "Kanva_train env (Kanva_new e step rate) keys vals maxErr \<in> {Inl AssertFail, Inl OutOfRange} \<or>
    (\<exists>k. Kanva_train env (Kanva_new e step rate) keys vals maxErr = Inr k)"
  by (cases rule: Kanva_train_loop [OF assms, of env e]) auto

theorem train_terminates_witness:
  "Kanva_train env_int (Kanva_new 64 1000 (\<lambda>s. s div 10)) [10, 20] [1, 2] 64 \<in> {Inl AssertFail, Inl OutOfRange} \<or>
    (\<exists>k. Kanva_train env_int (Kanva_new 64 1000 (\<lambda>s. s div 10)) [10, 20] [1, 2] 64 = Inr k)"
  using train_terminates [OF _ _ _ _ _ rate_ok_tenth, of "[1, 2]" "[10, 20]" 64 1000 env_int 64] by simp

text \<open>C7. An index that training returns has cut the keys and values into consecutive nodes, without
  loss and in order; its routing keys are the last keys of the nodes, and every node was trained on
  its own keys with an error of at most \<open>maxErr\<close>.\<close>

theorem train_partitions:
  assumes "length vals = length keys" and "length keys < 2 ^ 31" and "maxErr < 2 ^ 31"
    and "0 < step" "step < 2 ^ 31" and "rate_ok rate"
    and "Kanva_train env (Kanva_new e step rate) keys vals maxErr = Inr k"
  shows "concat (map km_keys (k_aimodels k)) = keys \<and> concat (map km_vals (k_aimodels k)) = vals
    \<and> k_model_keys k = map (\<lambda>m. last (km_keys m)) (k_aimodels k)
    \<and> (\<forall>m \<in> set (k_aimodels k). km_keys m \<noteq> [] \<and> km_maxErr m = maxErr
        \<and> (\<exists>lr. lr_train_range (e_fp env) (lr_new (e_w env) (e_b env)) (km_keys m) = Inr lr
              \<and> unat (lr_maxErr lr) \<le> maxErr \<and> km_w0 m = lr_w0 lr \<and> km_w1 m = lr_w1 lr))"
proof -
  have "km_keys m \<noteq> [] \<and> km_maxErr m = me
        \<and> (\<exists>lr. lr_train_range (e_fp env) (lr_new (e_w env) (e_b env)) (km_keys m) = Inr lr
              \<and> unat (lr_maxErr lr) \<le> me \<and> km_w0 m = lr_w0 lr \<and> km_w1 m = lr_w1 lr)"
    if "node_trained env me m" for m :: "'a KanvaModel" and me
    using that by (cases m) (auto simp: node_trained_def KanvaModel_new_def split: if_splits)
  then show ?thesis
    using assms(1,7) by (cases rule: Kanva_train_loop [OF assms(1-6), of env e]) (auto simp: trained_upto_def)
qed

theorem train_partitions_witness:
  "concat (map km_keys (k_aimodels kanva_ex)) = [10, 20, 30] \<and> k_model_keys kanva_ex = [30]"
  using train_partitions [OF _ _ _ _ _ rate_ok_tenth kanva_ex_train] by (simp add: kanva_ex_def node_ex_def)

text \<open>C1. End to end: after training on strictly increasing keys, searching the index for any of them
  returns its value, for every arithmetic whose predictions are less than 2 to the 31 off.\<close>

theorem trained_index_finds_keys:
  assumes "length vals = length keys" and "length keys < 2 ^ 31" and "maxErr < 2 ^ 31"
    and "0 < step" "step < 2 ^ 31" and "rate_ok rate"
    and "Kanva_train env (Kanva_new e step rate) keys vals maxErr = Inr k" and "ssorted keys"
    and "\<forall>m \<in> set (k_aimodels k). predictions_close (e_fp env) (lr_new (km_w0 m) (km_w1 m)) (km_keys m)"
  shows "\<forall>j < length keys. Kanva_find env k (keys ! j) = Inr (vals ! j)"
  by (cases rule: Kanva_train_loop [OF assms(1-6), of env e])
    (use trained_find [of env k keys vals] assms in auto)

lemma node_ex_close: "predictions_close (e_fp env_int) (lr_new (km_w0 node_ex) (km_w1 node_ex)) (km_keys node_ex)"
  by (auto simp: predictions_close_def node_ex_def env_int_def lr_predict_def fp_int_def lr_new_def)

theorem trained_index_finds_keys_witness: "Kanva_find env_int kanva_ex 20 = Inr 2"
  using trained_index_finds_keys [OF _ _ _ _ _ rate_ok_tenth kanva_ex_train, THEN spec, of 1] node_ex_close
  by (simp add: kanva_ex_def)

text \<open>C33. Insertion into a well-formed index stops at a failed assertion or returns; then the invariant
  holds, the routing keys and every node but the one the key is routed to are as before, every key is
  routed as before, and after the answer true the key is stored.\<close>

theorem kanva_insert_correct:
  assumes "kanva_ok k" and "key < key_max" and "e_mem env 1 \<le> 0"
  shows "Kanva_insert env k key val = Inl AssertFail \<or>
    (\<exists>i r k'. Kanva_insert env k key val = Inr (r, k') \<and> find_model k key = Inr i \<and> kanva_ok k'
      \<and> k_model_keys k' = k_model_keys k \<and> (\<forall>j. j \<noteq> i \<longrightarrow> k_aimodels k' ! j = k_aimodels k ! j)
      \<and> (\<forall>key'. find_model k' key' = find_model k key')
      \<and> (r \<and> val \<noteq> tombstone \<and> 0 < key \<longrightarrow> km_status env (k_aimodels k' ! i) key = Inr True))"
  using assms
proof (cases rule: Kanva_insert_cases [where val = val])
  case (stored i r m)
  then show ?thesis
    using kanva_ok_update [OF assms(1) stored(3), of i] by auto
qed auto

lemma kanva_ex_ok: "kanva_ok kanva_ex"
  using node_ex_ok by (simp add: kanva_ok_def kanva_ex_def)

theorem kanva_insert_correct_witness:
  "Kanva_insert env_int kanva_ex 25 7 = Inl AssertFail \<or>
    (\<exists>r k'. Kanva_insert env_int kanva_ex 25 7 = Inr (r, k') \<and> kanva_ok k' \<and> k_model_keys k' = [30])"
  using kanva_insert_correct [OF kanva_ex_ok, of 25 env_int 7] by (auto simp: env_int_def kanva_ex_def)

text \<open>C34. Every sequence of searches and insertions on a well-formed index answers all of them and
  keeps the invariant and the routing keys, or stops at a failed assertion: no access out of range,
  no null pointer, no unbounded recursion.\<close>

theorem kanva_run_safe:
  assumes "kanva_ok k" and "list_all kop_ok xs" and "e_mem env 1 \<le> 0"
  shows "run_ops (kanva_step env) xs k = Inl AssertFail \<or>
    (\<exists>rs k'. run_ops (kanva_step env) xs k = Inr (rs, k') \<and> length rs = length xs
      \<and> kanva_ok k' \<and> k_model_keys k' = k_model_keys k)"
  using kanva_ops.run_safe [of k "k_model_keys k" env xs] assms by (auto simp: list_all_iff)

theorem kanva_run_safe_witness:
  "run_ops (kanva_step env_int) [KInsert 25 7, KFind 20] kanva_ex = Inl AssertFail \<or>
    (\<exists>rs k'. run_ops (kanva_step env_int) [KInsert 25 7, KFind 20] kanva_ex = Inr (rs, k') \<and> length rs = 2
      \<and> kanva_ok k')"
  using kanva_run_safe [OF kanva_ex_ok, of "[KInsert 25 7, KFind 20]" env_int]
  by (auto simp: env_int_def)

text \<open>When the chunk that \<open>backward_train\<close> is called with has at most ten keys and fewer than nine
  keys are left in the array, it sets its size to ten and reads past the end of the array.\<close>

theorem backward_train_reads_past_end:
  assumes "sz \<le> 10" and "length ks < 9"
  shows "backward_train (backward_fuel step) env k ks vs sz step = Inl OutOfRange"
proof -
  have "\<not> 9 \<le> length ks" using assms(2) by simp
  then have "backward_loop env k ks vs 1 9 = Inl OutOfRange"
    by (simp add: backward_loop.simps [of _ _ _ _ 1 9] train_iter_def)
  then show ?thesis using assms(1) by (simp add: backward_fuel_def numeral_3_eq_3 backward_size_def)
qed

theorem backward_train_reads_past_end_witness:
  "backward_train (backward_fuel 100) env_int (Kanva_new 1 1000 (\<lambda>s. s div 10)) [10, 20, 30] [1, 2, 3] 3 100
    = Inl OutOfRange"
  using backward_train_reads_past_end [of 3 "[10, 20, 30]" 100 env_int _ "[1, 2, 3]"] by simp

lemma backward_loop_none:
  assumes "0 < step" and "fin \<le> int (length ks)"
    and "\<And>n. 0 < n \<Longrightarrow> int n \<le> fin \<Longrightarrow> int n mod step = fin mod step \<Longrightarrow>
      \<exists>lr. train_iter env ks n = Inr lr \<and> sz_of_int (k_maxErr k) < unat (lr_maxErr lr)"
  shows "backward_loop env k ks vs step fin = Inr (Inr (if 0 < fin then fin mod step - (if step dvd fin then 0 else step) else fin))"
  using assms
proof (induction env k ks vs step fin rule: backward_loop.induct)
  case (1 env k ks vs step fin)
  show ?case
  proof (cases "0 < fin")
    case False
    then show ?thesis by (simp add: backward_loop.simps)
  next
    case pos: True
    then obtain lr where lr: "train_iter env ks (nat fin) = Inr lr" "sz_of_int (k_maxErr k) < unat (lr_maxErr lr)"
      using "1.prems"(3) [of "nat fin"] by auto
    have md: "(fin - step) mod step = fin mod step" by (simp add: mod_diff_right_eq [symmetric])
    have "backward_loop env k ks vs step (fin - step) =
        Inr (Inr (if 0 < fin - step then (fin - step) mod step - (if step dvd fin - step then 0 else step) else fin - step))"
      by (rule "1.IH" [OF _ lr(1)]) (use pos lr(2) "1.prems" md in auto)
    moreover have "backward_loop env k ks vs step fin = backward_loop env k ks vs step (fin - step)"
      using pos lr "1.prems"(1) by (simp add: backward_loop.simps [of _ _ _ _ _ fin])
    moreover have "fin - step = fin mod step - (if step dvd fin then 0 else step)" if "\<not> 0 < fin - step"
    proof (cases "fin = step")
      case False
      then have "fin mod step = fin" using pos that by (intro mod_pos_pos_trivial) auto
      moreover have "\<not> step dvd fin" using zdvd_not_zless [of fin step] pos that False by auto
      ultimately show ?thesis by simp
    qed simp
    ultimately show ?thesis using pos md by (auto simp: dvd_diff_left_iff)
  qed
qed

text \<open>When the step does not divide the size of the chunk and none of the prefixes that
  \<open>backward_train\<close> tries is predicted well enough, \<open>end\<close> becomes negative, is passed on as a large
  \<open>uint32_t\<close>, and the assertion on the step fails: training is aborted although shorter prefixes,
  single keys among them, can be modelled.\<close>

theorem backward_train_aborts:
  assumes "rate_ok (k_rate k)" and "10 < sz" and "sz \<le> length ks" and "sz < 2 ^ 31"
    and "0 < step" and "step < int sz" and "step < 2 ^ 30" and "\<not> step dvd int sz"
    and "\<forall>n. 0 < n \<and> n < sz \<and> int n mod step = int sz mod step \<longrightarrow>
      (\<exists>lr. train_iter env ks n = Inr lr \<and> sz_of_int (k_maxErr k) < unat (lr_maxErr lr))"
  shows "backward_train (backward_fuel step) env k ks vs sz step = Inl AssertFail"
proof -
  have size: "backward_size (k_rate k) sz step = Inr (sz, step)"
    using assms by (simp add: backward_size_def)
  have fin: "to_i32 (int sz - step) = int sz - step" using assms by (intro to_i32_small) simp_all
  have md: "(int sz - step) mod step = int sz mod step" by (simp add: mod_diff_right_eq [symmetric])
  have nd: "\<not> step dvd int sz - step" using assms(8) by (simp add: dvd_diff_left_iff)
  define fin' where "fin' = int sz mod step - step"
  have "backward_loop env k ks vs step (int sz - step) = Inr (Inr (if 0 < int sz - step
      then (int sz - step) mod step - (if step dvd int sz - step then 0 else step) else int sz - step))"
  proof (rule backward_loop_none [OF assms(5)])
    show "int sz - step \<le> int (length ks)" using assms(3,5) by simp
    fix n assume "0 < n" "int n \<le> int sz - step" "int n mod step = (int sz - step) mod step"
    then show "\<exists>lr. train_iter env ks n = Inr lr \<and> sz_of_int (k_maxErr k) < unat (lr_maxErr lr)"
      using assms(5) md by (intro assms(9) [rule_format]) simp
  qed
  then have loop: "backward_loop env k ks vs step (int sz - step) = Inr (Inr fin')"
    unfolding md using assms(6) nd by (simp add: fin'_def)
  have "0 < int sz mod step" using assms(5,8) by (simp add: dvd_eq_mod_eq_0 order_less_le)
  then have f: "fin' < 0" "- step < fin'" using assms(5) by (simp_all add: fin'_def)
  have r: "0 \<le> k_rate k step" "2 * k_rate k step \<le> step" using rate_okD [OF assms(1)] assms(5) by auto
  have "backward_train (nat step + 2) env k ks vs (to_u32 fin') (k_rate k step) = Inl AssertFail"
    using assms(1,5,7) f r by (intro backward_train_negative) auto
  then show ?thesis using size fin loop assms(5) by (simp add: backward_fuel_def numeral_3_eq_3 numeral_2_eq_2)
qed

text \<open>An arithmetic whose predictions are always 100.\<close>

definition env_100 :: "int env" where
  "env_100 = env_int\<lparr>e_fp := fp_int\<lparr>fp_pos := (\<lambda>_. True), fp_to_size := (\<lambda>_. 100), fp_div := (\<lambda>_ _. 0)\<rparr>\<rparr>"

definition keys_11 :: "64 word list" where
  "keys_11 = [1, 2, 3, 4, 5, 6, 7, 8, 9, 10, 11]"

lemma env_100_err: "train_iter env_100 keys_11 5 = Inr \<lparr>lr_maxErr = 100, lr_w0 = 0, lr_w1 = 0\<rparr>"
proof -
  have "train_iter env_100 keys_11 5 =
      lr_train (e_fp env_100) (lr_new 0 0) [1, 2, 3, 4, 5] [0, 1, 2, 3, 4]"
    by (simp add: train_iter_def keys_11_def lr_train_range_def positions_upto_def env_100_def env_int_def
        numeral_eq_Suc)
  then show ?thesis
    by (simp add: lr_train_def env_100_def env_int_def fp_int_def lr_new_def max_error_def lr_predict_def
        err_size_def Let_def)
qed

theorem backward_train_aborts_witness:
  "backward_train (backward_fuel 6) env_100 (Kanva_new 64 1000 (\<lambda>s. s div 10)) keys_11 keys_11 11 6 = Inl AssertFail"
proof (rule backward_train_aborts)
  show "\<forall>n. 0 < n \<and> n < 11 \<and> int n mod 6 = int 11 mod 6 \<longrightarrow> (\<exists>lr. train_iter env_100 keys_11 n = Inr lr
      \<and> sz_of_int (k_maxErr (Kanva_new 64 1000 (\<lambda>s. s div 10))) < unat (lr_maxErr lr))"
  proof (intro allI impI)
    fix n :: nat assume "0 < n \<and> n < 11 \<and> int n mod 6 = int 11 mod 6"
    then have n: "n < 11" "int n mod 6 = 5" by simp_all
    then have "\<not> n < 5" by auto
    moreover have "int n div 6 < 1" using n div_mult_mod_eq [of "int n" 6] by linarith
    ultimately have "n = 5" using n div_mult_mod_eq [of "int n" 6] by linarith
    then show "\<exists>lr. train_iter env_100 keys_11 n = Inr lr
      \<and> sz_of_int (k_maxErr (Kanva_new 64 1000 (\<lambda>s. s div 10))) < unat (lr_maxErr lr)"
      using env_100_err by (simp add: Kanva_new_def)
  qed
qed (simp_all add: Kanva_new_def rate_ok_tenth keys_11_def)

end
