(* ===== verification/Version_Tracker.thy ===== *)
theory Version_Tracker
  imports Prelude
begin

text \<open>
  The timestamps of the range-query variant: \<open>Kanva_RS/Uruv/VersionTracker/TrackerNode.h\<close> and
  \<open>TrackerList.h\<close>.

  A \<open>TrackerList\<close> is a linked queue of nodes with consecutive timestamps that ends in a shared
  sentinel. \<open>add_timestamp\<close> appends a node for a new range query and is lock-free: a thread whose
  compare-exchange fails helps to move \<open>tail\<close> forward and tries again. \<open>remove_head\<close> moves \<open>head\<close>
  past finished queries.

  The store of nodes is explicit, address 0 is the null pointer, timestamps are integers (an
  \<open>int64_t\<close> would wrap after 2 to the 63 queries). \<open>tpc\<close> lists the points of the two methods between
  two accesses to shared words, and \<open>t_step\<close> makes one access: this is the program. \<open>t_run\<close> lets one
  thread run alone, which gives the sequential operations; \<open>tstep\<close> interleaves any number of
  threads. \<open>tinv\<close> holds in every reachable state (\<open>treach_inv\<close>).
\<close>

section \<open>State\<close>

record TrackerNode =
  tn_ts :: int
  tn_next :: addr
  tn_finish :: bool

record TrackerList =
  tl_head :: addr
  tl_tail :: addr
  tl_sentinel :: addr
  tl_heap :: "addr \<rightharpoonup> TrackerNode"
  tl_brk :: addr

definition TrackerNode_new :: "int \<Rightarrow> addr \<Rightarrow> TrackerNode" where
  "TrackerNode_new init_ts next_node = \<lparr>tn_ts = init_ts, tn_next = next_node, tn_finish = False\<rparr>"

definition TrackerList_new :: TrackerList where
  "TrackerList_new =
     \<lparr>tl_head = 2, tl_tail = 2, tl_sentinel = 1,
      tl_heap = [1 \<mapsto> TrackerNode_new (2 ^ 63 - 1) 0, 2 \<mapsto> TrackerNode_new 0 1], tl_brk = 3\<rparr>"

definition tl_load :: "TrackerList \<Rightarrow> addr \<Rightarrow> TrackerNode res" where
  "tl_load l a = (case tl_heap l a of None \<Rightarrow> Inl NullDeref | Some nd \<Rightarrow> Inr nd)"

definition get_latest_timestamp :: "TrackerList \<Rightarrow> int res" where
  "get_latest_timestamp l = bind_res (tl_load l (tl_tail l)) (\<lambda>nd. Inr (tn_ts nd))"

section \<open>The methods, one shared access at a time\<close>

datatype tpc =
    TIdle
  | TAdd0                  \<comment> \<open>before \<open>tail.load\<close>\<close>
  | TAdd1 addr addr        \<comment> \<open>\<open>curr_tail\<close>, \<open>new_tail\<close>: before the compare-exchange of \<open>next\<close>\<close>
  | TAdd2 addr addr        \<comment> \<open>before the compare-exchange of \<open>tail\<close>\<close>
  | TAdded addr            \<comment> \<open>returns \<open>new_tail\<close>\<close>
  | THelp0                 \<comment> \<open>helping: before \<open>tail.load\<close>\<close>
  | THelp1 addr            \<comment> \<open>before the test of \<open>next\<close>\<close>
  | THelp2 addr            \<comment> \<open>before the second load of \<open>next\<close>\<close>
  | THelp3 addr addr       \<comment> \<open>before the compare-exchange of \<open>tail\<close>\<close>
  | TRem0                  \<comment> \<open>\<open>remove_head\<close>: before \<open>head.load\<close>\<close>
  | TRem1 addr             \<comment> \<open>before the test of \<open>finish\<close> and \<open>next\<close>\<close>
  | TRem2 addr             \<comment> \<open>before the second load of \<open>next\<close>\<close>
  | TRem3 addr addr        \<comment> \<open>before the compare-exchange of \<open>head\<close>\<close>
  | TRemoved addr          \<comment> \<open>returns \<open>curr_head\<close>\<close>

fun t_step :: "tpc \<Rightarrow> TrackerList \<Rightarrow> (tpc \<times> TrackerList) res" where
  "t_step TIdle l = Inr (TIdle, l)"
| "t_step TAdd0 l =
     bind_res (tl_load l (tl_tail l)) (\<lambda>nd.
       let new_tail = tl_brk l in
       Inr (TAdd1 (tl_tail l) new_tail,
            l\<lparr>tl_heap := (tl_heap l)(new_tail \<mapsto> TrackerNode_new (tn_ts nd + 1) (tl_sentinel l)),
              tl_brk := Suc new_tail\<rparr>))"
| "t_step (TAdd1 curr_tail new_tail) l =
     bind_res (tl_load l curr_tail) (\<lambda>nd.
       if tn_next nd = tl_sentinel l
       then Inr (TAdd2 curr_tail new_tail, l\<lparr>tl_heap := (tl_heap l)(curr_tail \<mapsto> nd\<lparr>tn_next := new_tail\<rparr>)\<rparr>)
       else Inr (THelp0, l))"
| "t_step (TAdd2 curr_tail new_tail) l =
     Inr (TAdded new_tail, if tl_tail l = curr_tail then l\<lparr>tl_tail := new_tail\<rparr> else l)"
| "t_step (TAdded a) l = Inr (TAdded a, l)"
| "t_step THelp0 l = Inr (THelp1 (tl_tail l), l)"
| "t_step (THelp1 t) l =
     bind_res (tl_load l t) (\<lambda>nd. Inr (if tn_next nd = tl_sentinel l then TAdd0 else THelp2 t, l))"
| "t_step (THelp2 t) l = bind_res (tl_load l t) (\<lambda>nd. Inr (THelp3 t (tn_next nd), l))"
| "t_step (THelp3 t nx) l = Inr (THelp0, if tl_tail l = t then l\<lparr>tl_tail := nx\<rparr> else l)"
| "t_step TRem0 l = Inr (TRem1 (tl_head l), l)"
| "t_step (TRem1 h) l =
     bind_res (tl_load l h) (\<lambda>nd.
       Inr (if tn_finish nd \<and> tn_next nd \<noteq> tl_sentinel l then TRem2 h else TRemoved h, l))"
| "t_step (TRem2 h) l = bind_res (tl_load l h) (\<lambda>nd. Inr (TRem3 h (tn_next nd), l))"
| "t_step (TRem3 h nx) l = Inr (TRem0, if tl_head l = h then l\<lparr>tl_head := nx\<rparr> else l)"
| "t_step (TRemoved a) l = Inr (TRemoved a, l)"

text \<open>One thread alone: the sequential operations.\<close>

fun t_run :: "nat \<Rightarrow> tpc \<Rightarrow> TrackerList \<Rightarrow> (addr \<times> TrackerList) res" where
  "t_run 0 pc l = Inl OutOfFuel"
| "t_run (Suc n) pc l =
     (case pc of TAdded a \<Rightarrow> Inr (a, l) | TRemoved a \<Rightarrow> Inr (a, l)
      | _ \<Rightarrow> bind_res (t_step pc l) (\<lambda>(pc', l'). t_run n pc' l'))"

definition add_timestamp :: "TrackerList \<Rightarrow> (addr \<times> TrackerList) res" where
  "add_timestamp l = t_run (6 * tl_brk l + 10) TAdd0 l"

definition remove_head :: "TrackerList \<Rightarrow> (addr \<times> TrackerList) res" where
  "remove_head l = t_run (4 * tl_brk l + 3) TRem0 l"

definition get_oldest_timestamp :: "TrackerList \<Rightarrow> (int \<times> TrackerList) res" where
  "get_oldest_timestamp l =
     bind_res (remove_head l) (\<lambda>(a, l'). bind_res (tl_load l' a) (\<lambda>nd. Inr (tn_ts nd, l')))"

text \<open>\<open>tracker_node->finish = true\<close> at the end of a range query.\<close>

definition set_finish :: "addr \<Rightarrow> TrackerList \<Rightarrow> TrackerList res" where
  "set_finish a l =
     bind_res (tl_load l a) (\<lambda>nd. Inr (l\<lparr>tl_heap := (tl_heap l)(a \<mapsto> nd\<lparr>tn_finish := True\<rparr>)\<rparr>))"

section \<open>Interleavings\<close>

text \<open>The system: the list, the program counter of every thread, and the nodes that
  \<open>add_timestamp\<close> has returned so far.\<close>

record tsys =
  sy_list :: TrackerList
  sy_pc :: "nat \<Rightarrow> tpc"
  sy_log :: "addr list"

definition tsys_init :: tsys where
  "tsys_init = \<lparr>sy_list = TrackerList_new, sy_pc = (\<lambda>_. TIdle), sy_log = []\<rparr>"

inductive tstep :: "tsys \<Rightarrow> tsys \<Rightarrow> bool" where
  call_add: "sy_pc s i = TIdle \<Longrightarrow> tstep s (s\<lparr>sy_pc := (sy_pc s)(i := TAdd0)\<rparr>)"
| call_remove: "sy_pc s i = TIdle \<Longrightarrow> tstep s (s\<lparr>sy_pc := (sy_pc s)(i := TRem0)\<rparr>)"
| atomic: "t_step (sy_pc s i) (sy_list s) = Inr (pc', l') \<Longrightarrow>
    tstep s (s\<lparr>sy_list := l', sy_pc := (sy_pc s)(i := pc')\<rparr>)"
| ret_add: "sy_pc s i = TAdded a \<Longrightarrow>
    tstep s (s\<lparr>sy_pc := (sy_pc s)(i := TIdle), sy_log := a # sy_log s\<rparr>)"
| ret_remove: "sy_pc s i = TRemoved a \<Longrightarrow> tstep s (s\<lparr>sy_pc := (sy_pc s)(i := TIdle)\<rparr>)"
| query_done: "a \<in> set (sy_log s) \<Longrightarrow> set_finish a (sy_list s) = Inr l' \<Longrightarrow> tstep s (s\<lparr>sy_list := l'\<rparr>)"

inductive treach :: "tsys \<Rightarrow> bool" where
  init: "treach tsys_init"
| step: "treach s \<Longrightarrow> tstep s s' \<Longrightarrow> treach s'"

section \<open>The invariant\<close>

text \<open>\<open>ch\<close> are the nodes of the queue in order: timestamps 0, 1, 2, ..., each linked to the next one
  and the last to the sentinel; \<open>tail\<close> is the last or the last but one.\<close>

definition tnode :: "(addr \<rightharpoonup> TrackerNode) \<Rightarrow> addr \<Rightarrow> addr \<Rightarrow> addr list \<Rightarrow> nat \<Rightarrow> bool" where
  "tnode h z b ch i \<longleftrightarrow> ch ! i < b \<and> (\<exists>f. h (ch ! i) = Some \<lparr>tn_ts = int i,
     tn_next = (if Suc i < length ch then ch ! Suc i else z), tn_finish = f\<rparr>)"

definition tchain :: "TrackerList \<Rightarrow> addr list \<Rightarrow> bool" where
  "tchain l ch \<longleftrightarrow> ch \<noteq> [] \<and> distinct ch \<and> tl_sentinel l \<notin> set ch \<and> tl_sentinel l < tl_brk l
     \<and> (\<forall>i < length ch. tnode (tl_heap l) (tl_sentinel l) (tl_brk l) ch i)
     \<and> (\<exists>t < length ch. tl_tail l = ch ! t \<and> length ch \<le> t + 2) \<and> tl_head l \<in> set ch"

definition tail_index :: "TrackerList \<Rightarrow> addr list \<Rightarrow> nat" where
  "tail_index l ch = length (takeWhile (\<lambda>a. a \<noteq> tl_tail l) ch)"

definition tsucc :: "addr list \<Rightarrow> addr \<Rightarrow> addr \<Rightarrow> bool" where
  "tsucc ch a b \<longleftrightarrow> (\<exists>k. Suc k < length ch \<and> a = ch ! k \<and> b = ch ! Suc k)"

text \<open>What a thread knows at each point. \<open>k\<close> is the index of its \<open>curr_tail\<close>.\<close>

fun pc_ok :: "TrackerList \<Rightarrow> addr list \<Rightarrow> tpc \<Rightarrow> bool" where
  "pc_ok l ch (TAdd1 c n) \<longleftrightarrow> (\<exists>k < length ch. c = ch ! k \<and> k \<le> tail_index l ch
     \<and> n \<notin> set ch \<and> n < tl_brk l \<and> n \<noteq> tl_sentinel l \<and> tl_heap l n = Some (TrackerNode_new (int k + 1) (tl_sentinel l)))"
| "pc_ok l ch (TAdd2 c n) \<longleftrightarrow> tsucc ch c n"
| "pc_ok l ch (TAdded a) \<longleftrightarrow> a \<in> set ch"
| "pc_ok l ch (THelp1 t) \<longleftrightarrow> t \<in> set ch"
| "pc_ok l ch (THelp2 t) \<longleftrightarrow> (\<exists>b. tsucc ch t b)"
| "pc_ok l ch (THelp3 t nx) \<longleftrightarrow> tsucc ch t nx"
| "pc_ok l ch (TRem1 h) \<longleftrightarrow> h \<in> set ch"
| "pc_ok l ch (TRem2 h) \<longleftrightarrow> (\<exists>b. tsucc ch h b)"
| "pc_ok l ch (TRem3 h nx) \<longleftrightarrow> tsucc ch h nx"
| "pc_ok l ch (TRemoved a) \<longleftrightarrow> a \<in> set ch"
| "pc_ok l ch _ \<longleftrightarrow> True"

text \<open>The node a thread has made.\<close>

fun own :: "tpc \<Rightarrow> addr set" where
  "own (TAdd1 c n) = {n}"
| "own (TAdd2 c n) = {n}"
| "own (TAdded a) = {a}"
| "own _ = {}"

definition tinv :: "tsys \<Rightarrow> addr list \<Rightarrow> bool" where
  "tinv s ch \<longleftrightarrow> tchain (sy_list s) ch \<and> (\<forall>i. pc_ok (sy_list s) ch (sy_pc s i))
     \<and> (\<forall>i j. i \<noteq> j \<longrightarrow> own (sy_pc s i) \<inter> own (sy_pc s j) = {})
     \<and> (\<forall>i. own (sy_pc s i) \<inter> set (sy_log s) = {} \<and> hd ch \<notin> own (sy_pc s i))
     \<and> distinct (sy_log s) \<and> set (sy_log s) \<subseteq> set (tl ch)"

lemma tchainD:
  assumes "tchain l ch" and "i < length ch"
  shows "ch ! i < tl_brk l" and "\<exists>f. tl_heap l (ch ! i) = Some \<lparr>tn_ts = int i,
      tn_next = (if Suc i < length ch then ch ! Suc i else tl_sentinel l), tn_finish = f\<rparr>"
  using assms by (simp_all add: tchain_def tnode_def)

lemma tchain_load:
  assumes "tchain l ch" and "i < length ch"
  obtains nd where "tl_load l (ch ! i) = Inr nd" "tl_heap l (ch ! i) = Some nd" "tn_ts nd = int i"
    "tn_next nd = (if Suc i < length ch then ch ! Suc i else tl_sentinel l)"
  using tchainD(2) [OF assms] by (auto simp: tl_load_def)

lemma tchain_next_sentinel:
  assumes "tchain l ch" and "i < length ch" and "tl_heap l (ch ! i) = Some nd"
  shows "tn_next nd = tl_sentinel l \<longleftrightarrow> Suc i = length ch"
proof -
  have "ch ! Suc i \<noteq> tl_sentinel l" if "Suc i < length ch"
    using assms(1) that nth_mem by (force simp: tchain_def)
  then show ?thesis using tchainD(2) [OF assms(1,2)] assms(2,3) by (cases "Suc i < length ch") auto
qed

lemma tail_index_eq:
  assumes "distinct ch" and "t < length ch" and "tl_tail l = ch ! t"
  shows "tail_index l ch = t"
proof -
  have "tail_index l ch = length (take t ch)"
    unfolding tail_index_def using assms
    by (subst takeWhile_eq_take_P_nth [of t]) (auto simp: nth_eq_iff_index_eq)
  then show ?thesis using assms(2) by simp
qed

lemma tchain_tail:
  assumes "tchain l ch"
  shows "tail_index l ch < length ch" and "tl_tail l = ch ! tail_index l ch" and "length ch \<le> tail_index l ch + 2"
  using assms tail_index_eq [of ch _ l] by (auto simp: tchain_def)

lemma tsucc_nth: "Suc k < length ch \<Longrightarrow> tsucc ch (ch ! k) (ch ! Suc k)"
  by (auto simp: tsucc_def)

lemma tsucc_ex: "Suc k < length ch \<Longrightarrow> Ex (tsucc ch (ch ! k))"
  using tsucc_nth by blast

lemma tsucc_append: "tsucc ch a b \<Longrightarrow> tsucc (ch @ xs) a b"
  unfolding tsucc_def by (elim exE, rule_tac x = k in exI) (simp add: nth_append)

lemma tsucc_mem: "tsucc ch a b \<Longrightarrow> a \<in> set ch \<and> b \<in> set (tl ch)"
  by (cases ch) (auto simp: tsucc_def nth_Cons' nth_mem split: if_splits)

lemma pc_ok_mono:
  assumes "pc_ok l ch pc" and "tl_sentinel l' = tl_sentinel l" and "tl_brk l \<le> tl_brk l'"
    and "tail_index l ch \<le> tail_index l' (ch @ xs)"
    and "\<And>n. n \<in> own pc \<Longrightarrow> n \<notin> set ch \<Longrightarrow> n \<notin> set xs \<and> tl_heap l' n = tl_heap l n"
  shows "pc_ok l' (ch @ xs) pc"
proof (cases pc)
  case (TAdd1 c n)
  then obtain k where k: "k < length ch" "c = ch ! k" "k \<le> tail_index l ch" "n \<notin> set ch" "n < tl_brk l"
      "n \<noteq> tl_sentinel l" "tl_heap l n = Some (TrackerNode_new (int k + 1) (tl_sentinel l))"
    using assms(1) by auto
  then show ?thesis using assms(2-4) assms(5) [of n] TAdd1 by (auto intro!: exI [of _ k] simp: nth_append)
qed (use assms(1) in \<open>auto dest: tsucc_append [where xs = xs]\<close>)

lemma own_less: "tchain l ch \<Longrightarrow> pc_ok l ch pc \<Longrightarrow> n \<in> own pc \<Longrightarrow> n < tl_brk l"
  by (cases pc) (auto simp: in_set_conv_nth tsucc_def dest: tchainD(1))

text \<open>A step of thread \<open>i\<close> that may extend the queue by \<open>xs\<close>.\<close>

lemma tinv_step:
  assumes inv: "tinv s ch" and ch: "tchain l' (ch @ xs)" and pc: "pc_ok l' (ch @ xs) pc'"
    and l': "tl_sentinel l' = tl_sentinel (sy_list s)" "tl_brk (sy_list s) \<le> tl_brk l'"
      "tail_index (sy_list s) ch \<le> tail_index l' (ch @ xs)"
    and heap: "\<And>n. n \<notin> set ch \<Longrightarrow> n \<notin> own (sy_pc s i) \<Longrightarrow> n < tl_brk (sy_list s) \<Longrightarrow>
      n \<notin> set xs \<and> tl_heap l' n = tl_heap (sy_list s) n"
    and own: "own pc' \<subseteq> own (sy_pc s i) \<or> own pc' = {tl_brk (sy_list s)}"
  shows "tinv (s\<lparr>sy_list := l', sy_pc := (sy_pc s)(i := pc')\<rparr>) (ch @ xs)"
proof -
  let ?l = "sy_list s"
  have old: "tchain ?l ch" "\<And>j. pc_ok ?l ch (sy_pc s j)"
      "\<And>j k. j \<noteq> k \<Longrightarrow> own (sy_pc s j) \<inter> own (sy_pc s k) = {}"
      "\<And>j. own (sy_pc s j) \<inter> set (sy_log s) = {}" "\<And>j. hd ch \<notin> own (sy_pc s j)"
      "distinct (sy_log s)" "set (sy_log s) \<subseteq> set (tl ch)"
    using inv by (auto simp: tinv_def)
  have ne: "ch \<noteq> []" using old(1) by (simp add: tchain_def)
  have less: "n < tl_brk ?l" if "n \<in> own (sy_pc s j)" for n j using own_less [OF old(1,2) that] .
  have brk: "tl_brk ?l \<notin> set ch" using old(1) by (auto simp: in_set_conv_nth dest: tchainD(1))
  have "pc_ok l' (ch @ xs) (sy_pc s j)" if "j \<noteq> i" for j
    using old(3) [OF that] less by (intro pc_ok_mono [OF old(2) l'] heap) auto
  moreover have disj: "own pc' \<inter> own (sy_pc s j) = {}" if "j \<noteq> i" for j
    using own old(3) [OF that] less [of "tl_brk ?l" j] by auto
  moreover have "own pc' \<inter> set (sy_log s) = {}" "hd ch \<notin> own pc'"
  proof -
    have "set (sy_log s) \<subseteq> set ch" using old(7) by (meson list.set_sel(2) ne subset_iff)
    then show "own pc' \<inter> set (sy_log s) = {}" "hd ch \<notin> own pc'"
      using own old(4) [of i] old(5) [of i] brk ne by (auto dest: hd_in_set)
  qed
  ultimately show ?thesis
    using ch pc old ne by (auto simp: tinv_def)
qed

text \<open>Moving \<open>tail\<close> or \<open>head\<close> to the next node.\<close>

lemma tchain_advance_tail:
  assumes ch: "tchain l ch" and sc: "tsucc ch c n"
  shows "tchain (if tl_tail l = c then l\<lparr>tl_tail := n\<rparr> else l) ch"
    and "tail_index l ch \<le> tail_index (if tl_tail l = c then l\<lparr>tl_tail := n\<rparr> else l) ch"
proof -
  obtain k where k: "Suc k < length ch" "c = ch ! k" "n = ch ! Suc k" using sc by (auto simp: tsucc_def)
  have d: "distinct ch" using ch by (simp add: tchain_def)
  have "tchain (l\<lparr>tl_tail := n\<rparr>) ch \<and> tail_index l ch \<le> tail_index (l\<lparr>tl_tail := n\<rparr>) ch" if "tl_tail l = c"
  proof -
    have "tail_index l ch = k" using tail_index_eq [OF d, of k l] k that by simp
    moreover have "tail_index (l\<lparr>tl_tail := n\<rparr>) ch = Suc k" using tail_index_eq [OF d k(1)] k(3) by simp
    ultimately show ?thesis using ch k tchain_tail(3) [OF ch] by (auto simp: tchain_def intro!: exI [of _ "Suc k"])
  qed
  then show "tchain (if tl_tail l = c then l\<lparr>tl_tail := n\<rparr> else l) ch"
    "tail_index l ch \<le> tail_index (if tl_tail l = c then l\<lparr>tl_tail := n\<rparr> else l) ch"
    using ch by auto
qed

lemma tchain_advance_head:
  assumes "tchain l ch" and "tsucc ch h n"
  shows "tchain (if tl_head l = h then l\<lparr>tl_head := n\<rparr> else l) ch"
proof -
  have "n \<in> set ch" using tsucc_mem [OF assms(2)] by (cases ch) auto
  then show ?thesis using assms(1) by (simp add: tchain_def)
qed

text \<open>A fresh node, and linking it behind the last one.\<close>

lemma tchain_alloc:
  assumes "tchain l ch"
  shows "tchain (l\<lparr>tl_heap := (tl_heap l)(tl_brk l \<mapsto> nd), tl_brk := Suc (tl_brk l)\<rparr>) ch"
proof -
  have "tnode ((tl_heap l)(tl_brk l \<mapsto> nd)) (tl_sentinel l) (Suc (tl_brk l)) ch i" if "i < length ch" for i
    using tchainD [OF assms that] by (simp add: tnode_def)
  then show ?thesis using assms by (auto simp: tchain_def)
qed

lemma tchain_link:
  assumes ch: "tchain l ch" and n: "n \<notin> set ch" "n < tl_brk l" "n \<noteq> tl_sentinel l"
    "tl_heap l n = Some (TrackerNode_new (int (length ch)) (tl_sentinel l))"
    and nd: "tl_heap l (last ch) = Some nd" and tl: "tail_index l ch = length ch - 1"
  shows "tchain (l\<lparr>tl_heap := (tl_heap l)(last ch \<mapsto> nd\<lparr>tn_next := n\<rparr>)\<rparr>) (ch @ [n])"
proof -
  have ne: "ch \<noteq> []" and d: "distinct ch" using ch by (auto simp: tchain_def)
  then have last: "last ch = ch ! (length ch - 1)" by (simp add: last_conv_nth)
  have "last ch \<in> set ch" using ne by simp
  then have nl: "n \<noteq> last ch" using n(1) by blast
  have node: "tnode ((tl_heap l)(last ch \<mapsto> nd\<lparr>tn_next := n\<rparr>)) (tl_sentinel l) (tl_brk l) (ch @ [n]) i"
    if i: "i < length (ch @ [n])" for i
  proof (cases "i < length ch")
    case False
    then have "i = length ch" using i by simp
    then show ?thesis unfolding tnode_def using n nl
      by (intro conjI exI [of _ False]) (simp_all add: TrackerNode_new_def)
  next
    case True
    obtain f where f: "tl_heap l (ch ! i) = Some \<lparr>tn_ts = int i,
        tn_next = (if Suc i < length ch then ch ! Suc i else tl_sentinel l), tn_finish = f\<rparr>"
      using tchainD(2) [OF ch True] by blast
    show ?thesis
    proof (cases "Suc i = length ch")
      case last': True
      then have "last ch = ch ! i" using last by (metis diff_Suc_1)
      then show ?thesis using f nd last' True tchainD(1) [OF ch True] by (auto simp: tnode_def nth_append)
    next
      case False
      then have "Suc i < length ch" "ch ! i \<noteq> last ch"
        using True d last nth_eq_iff_index_eq [OF d True, of "length ch - 1"] by auto
      then show ?thesis using f True tchainD(1) [OF ch True] by (simp add: tnode_def nth_append)
    qed
  qed
  have "tl_tail l = (ch @ [n]) ! (length ch - 1)" using tchain_tail(2) [OF ch] tl ne by (simp add: nth_append)
  then show ?thesis
    unfolding tchain_def using ch node n ne
    by (auto simp: tchain_def intro!: exI [of _ "length ch - 1"])
qed

lemma tail_index_append: "tchain l ch \<Longrightarrow> tail_index l (ch @ xs) = tail_index l ch"
  unfolding tail_index_def using tchain_tail(1,2) [of l ch] nth_mem [of "tail_index l ch" ch]
  by (subst takeWhile_append1 [of "tl_tail l"]) auto

lemma tail_index_sel [simp]:
  "tail_index (l\<lparr>tl_heap := h\<rparr>) ch = tail_index l ch" "tail_index (l\<lparr>tl_brk := b\<rparr>) ch = tail_index l ch"
  "tail_index (l\<lparr>tl_head := a\<rparr>) ch = tail_index l ch"
  by (simp_all add: tail_index_def)

lemma tinv_atomic:
  assumes inv: "tinv s ch" and run: "t_step (sy_pc s i) (sy_list s) = Inr (pc', l')"
  shows "\<exists>xs. tinv (s\<lparr>sy_list := l', sy_pc := (sy_pc s)(i := pc')\<rparr>) (ch @ xs)"
proof -
  let ?l = "sy_list s" and ?pc = "sy_pc s i"
  have ch: "tchain ?l ch" and pc: "pc_ok ?l ch ?pc" using inv by (auto simp: tinv_def)
  have same: "tinv (s\<lparr>sy_list := l', sy_pc := (sy_pc s)(i := pc')\<rparr>) ch"
    if "tchain l' ch" "pc_ok l' ch pc'" "tail_index ?l ch \<le> tail_index l' ch" "own pc' \<subseteq> own ?pc"
      "tl_heap l' = tl_heap ?l" "tl_brk l' = tl_brk ?l" "tl_sentinel l' = tl_sentinel ?l"
    using tinv_step [OF inv, of l' "[]" pc' i] that by simp
  have read: ?thesis if "l' = ?l" "pc_ok ?l ch pc'" "own pc' \<subseteq> own ?pc"
    using same that ch by (intro exI [of _ "[]"]) simp
  show ?thesis
  proof (cases ?pc)
    case TAdd0
    define t where "t = tail_index ?l ch"
    note tl = tchain_tail [OF ch, folded t_def]
    obtain nd where nd: "tl_load ?l (ch ! t) = Inr nd" "tn_ts nd = int t" using tchain_load [OF ch tl(1)] by metis
    have res: "pc' = TAdd1 (ch ! t) (tl_brk ?l)"
        "l' = ?l\<lparr>tl_heap := (tl_heap ?l)(tl_brk ?l \<mapsto> TrackerNode_new (int t + 1) (tl_sentinel ?l)), tl_brk := Suc (tl_brk ?l)\<rparr>"
      using run TAdd0 nd tl(2) by (auto simp: Let_def)
    have "tl_brk ?l \<notin> set ch" using ch by (auto simp: in_set_conv_nth dest: tchainD(1))
    moreover have "tl_sentinel ?l \<noteq> tl_brk ?l" using ch by (auto simp: tchain_def)
    ultimately have "pc_ok l' ch pc'" using tl res t_def by auto
    then have "tinv (s\<lparr>sy_list := l', sy_pc := (sy_pc s)(i := pc')\<rparr>) (ch @ [])"
      using tchain_alloc [OF ch] res by (intro tinv_step [OF inv]) auto
    then show ?thesis by blast
  next
    case (TAdd1 c n)
    then obtain k where k: "k < length ch" "c = ch ! k" "k \<le> tail_index ?l ch" "n \<notin> set ch" "n < tl_brk ?l"
        "n \<noteq> tl_sentinel ?l" "tl_heap ?l n = Some (TrackerNode_new (int k + 1) (tl_sentinel ?l))"
      using pc by auto
    obtain nd where nd: "tl_load ?l (ch ! k) = Inr nd" "tl_heap ?l (ch ! k) = Some nd"
      using tchain_load [OF ch k(1)] by metis
    show ?thesis
    proof (cases "tn_next nd = tl_sentinel ?l")
      case False
      then have "pc' = THelp0" "l' = ?l" using run TAdd1 nd k by auto
      then show ?thesis by (intro read) auto
    next
      case True
      then have len: "Suc k = length ch" using tchain_next_sentinel [OF ch k(1) nd(2)] by simp
      then have last: "last ch = ch ! k" by (metis last_conv_nth diff_Suc_1 length_0_conv nat.distinct(1))
      have tl: "tail_index ?l ch = length ch - 1" using k(3) len tchain_tail(1) [OF ch] by simp
      have res: "pc' = TAdd2 (ch ! k) n" "l' = ?l\<lparr>tl_heap := (tl_heap ?l)(ch ! k \<mapsto> nd\<lparr>tn_next := n\<rparr>)\<rparr>"
        using run TAdd1 nd k True by auto
      have nts: "tl_heap ?l n = Some (TrackerNode_new (int (length ch)) (tl_sentinel ?l))"
        using k(7) unfolding len [symmetric] by (simp add: add.commute)
      have ch': "tchain l' (ch @ [n])"
        using tchain_link [OF ch k(4-6) nts _ tl, of nd] nd(2) last res(2) by simp
      have "tsucc (ch @ [n]) (ch ! k) n" using len k(1) unfolding tsucc_def
        by (intro exI [of _ k]) (simp add: nth_append)
      then have "tinv (s\<lparr>sy_list := l', sy_pc := (sy_pc s)(i := pc')\<rparr>) (ch @ [n])"
        using ch' res TAdd1 tail_index_append [OF ch] k nth_mem [OF k(1)] by (intro tinv_step [OF inv]) auto
      then show ?thesis by blast
    qed
  next
    case (TAdd2 c n)
    then have "tsucc ch c n" using pc by simp
    then show ?thesis
      using run TAdd2 same tchain_advance_tail [OF ch] tsucc_mem [of ch c n] by (intro exI [of _ "[]"]) (cases ch; auto)
  next
    case (THelp1 t)
    then obtain k where k: "k < length ch" "t = ch ! k" using pc by (auto simp: in_set_conv_nth)
    obtain nd where nd: "tl_load ?l t = Inr nd" "tl_heap ?l (ch ! k) = Some nd" using tchain_load [OF ch k(1)] k by metis
    have "Suc k < length ch" if "tn_next nd \<noteq> tl_sentinel ?l"
      using tchain_next_sentinel [OF ch k(1) nd(2)] that k(1) by auto
    then show ?thesis using run THelp1 nd k by (intro read) (auto intro: tsucc_ex tsucc_nth split: if_splits)
  next
    case (THelp2 t)
    then obtain k where k: "Suc k < length ch" "t = ch ! k" using pc by (auto simp: tsucc_def)
    obtain nd where nd: "tl_load ?l t = Inr nd" "tn_next nd = ch ! Suc k"
      using tchain_load [OF ch Suc_lessD [OF k(1)]] k by metis
    then show ?thesis using run THelp2 nd k by (intro read) (auto intro: tsucc_ex tsucc_nth split: if_splits)
  next
    case (THelp3 t nx)
    then have "tsucc ch t nx" using pc by simp
    then show ?thesis
      using run THelp3 same tchain_advance_tail [OF ch] by (intro exI [of _ "[]"]) auto
  next
    case (TRem1 h)
    then obtain k where k: "k < length ch" "h = ch ! k" using pc by (auto simp: in_set_conv_nth)
    obtain nd where nd: "tl_load ?l h = Inr nd" "tl_heap ?l (ch ! k) = Some nd" using tchain_load [OF ch k(1)] k by metis
    have "Suc k < length ch" if "tn_next nd \<noteq> tl_sentinel ?l"
      using tchain_next_sentinel [OF ch k(1) nd(2)] that k(1) by auto
    then show ?thesis using run TRem1 nd k by (intro read) (auto intro: tsucc_ex tsucc_nth split: if_splits)
  next
    case (TRem2 h)
    then obtain k where k: "Suc k < length ch" "h = ch ! k" using pc by (auto simp: tsucc_def)
    obtain nd where nd: "tl_load ?l h = Inr nd" "tn_next nd = ch ! Suc k"
      using tchain_load [OF ch Suc_lessD [OF k(1)]] k by metis
    then show ?thesis using run TRem2 nd k by (intro read) (auto intro: tsucc_ex tsucc_nth split: if_splits)
  next
    case (TRem3 h nx)
    then have "tsucc ch h nx" using pc by simp
    then show ?thesis
      using run TRem3 same tchain_advance_head [OF ch, of h nx] ch by (intro exI [of _ "[]"]) (auto split: if_splits)
  next
    case THelp0
    then show ?thesis using run tchain_tail(1,2) [OF ch] by (intro read) auto
  next
    case TRem0
    then show ?thesis using run ch by (intro read) (auto simp: tchain_def)
  qed (use run pc in \<open>intro read; auto\<close>)+
qed

lemma tinv_call:
  assumes "tinv s ch" and "own pc = {}" and "pc_ok (sy_list s) ch pc"
  shows "tinv (s\<lparr>sy_pc := (sy_pc s)(i := pc)\<rparr>) ch"
  using assms by (auto simp: tinv_def)

lemma tinv_ret:
  assumes inv: "tinv s ch" and pc: "sy_pc s i = TAdded a"
  shows "tinv (s\<lparr>sy_pc := (sy_pc s)(i := TIdle), sy_log := a # sy_log s\<rparr>) ch"
proof -
  have ne: "ch \<noteq> []" and mem: "a \<in> set ch" "a \<noteq> hd ch" "a \<notin> set (sy_log s)"
    using inv pc by (auto simp: tinv_def tchain_def dest: spec [of _ i])
  have "a \<notin> own (sy_pc s j)" if "j \<noteq> i" for j
    using inv pc that unfolding tinv_def by (metis Int_iff empty_iff own.simps(3) singletonI)
  moreover have "a \<in> set (tl ch)" using mem ne by (cases ch) auto
  ultimately show ?thesis using inv mem by (auto simp: tinv_def)
qed

lemma tchain_finish:
  assumes "tchain l ch" and "tl_heap l a = Some nd"
  shows "tchain (l\<lparr>tl_heap := (tl_heap l)(a \<mapsto> nd\<lparr>tn_finish := True\<rparr>)\<rparr>) ch"
proof -
  have "tnode ((tl_heap l)(a \<mapsto> nd\<lparr>tn_finish := True\<rparr>)) (tl_sentinel l) (tl_brk l) ch i" if "i < length ch" for i
    using tchainD [OF assms(1) that] assms(2) by (cases "ch ! i = a") (auto simp: tnode_def)
  then show ?thesis using assms(1) by (simp add: tchain_def)
qed

lemma tinv_finish:
  assumes inv: "tinv s ch" and a: "a \<in> set (sy_log s)" and run: "set_finish a (sy_list s) = Inr l'"
  shows "tinv (s\<lparr>sy_list := l'\<rparr>) ch"
proof -
  let ?l = "sy_list s"
  obtain nd where nd: "tl_heap ?l a = Some nd" "l' = ?l\<lparr>tl_heap := (tl_heap ?l)(a \<mapsto> nd\<lparr>tn_finish := True\<rparr>)\<rparr>"
    using run by (auto simp: set_finish_def tl_load_def split: option.splits)
  have ch: "tchain ?l ch" and log: "set (sy_log s) \<subseteq> set (tl ch)" using inv by (auto simp: tinv_def)
  have "a \<in> set ch" using a log by (cases ch) auto
  then have "pc_ok l' (ch @ []) (sy_pc s j)" for j
    using inv nd by (intro pc_ok_mono [of ?l]) (auto simp: tinv_def)
  then show ?thesis using inv tchain_finish [OF ch nd(1)] nd(2) by (simp add: tinv_def)
qed

lemma tinv_tstep:
  assumes "tstep s s'" and "tinv s ch"
  shows "\<exists>xs. tinv s' (ch @ xs)"
  using assms
proof (cases rule: tstep.cases)
  case (atomic i pc' l')
  then show ?thesis using tinv_atomic [OF assms(2)] by simp
next
  case (ret_add i a)
  then show ?thesis using tinv_ret [OF assms(2)] by (intro exI [of _ "[]"]) simp
next
  case (query_done a l')
  then show ?thesis using tinv_finish [OF assms(2)] by (intro exI [of _ "[]"]) simp
qed (use tinv_call [OF assms(2)] in \<open>auto intro!: exI [of _ "[]"]\<close>)

lemma tinv_init: "tinv tsys_init [2]"
  by (auto simp: tinv_def tsys_init_def tchain_def tnode_def TrackerList_new_def TrackerNode_new_def)

lemma treach_inv: "treach s \<Longrightarrow> \<exists>ch. tinv s ch"
proof (induction rule: treach.induct)
  case init
  then show ?case using tinv_init by blast
next
  case (step s s')
  then show ?case using tinv_tstep by blast
qed

lemma bind_total:
  "\<exists>x. m = Inr x \<Longrightarrow> (\<And>x. \<exists>y z. f x = Inr (y, z)) \<Longrightarrow> \<exists>y z. bind_res m f = Inr (y, z)"
  by auto

lemma tinv_safe:
  assumes "tinv s ch"
  shows "\<exists>pc' l'. t_step (sy_pc s i) (sy_list s) = Inr (pc', l')"
proof -
  let ?l = "sy_list s"
  have ch: "tchain ?l ch" and pc: "pc_ok ?l ch (sy_pc s i)" using assms by (auto simp: tinv_def)
  have ld: "\<exists>nd. tl_load ?l a = Inr nd" if "a \<in> set ch" for a
    using that tchain_load [OF ch] by (metis in_set_conv_nth)
  have "tl_tail ?l \<in> set ch" using tchain_tail [OF ch] by simp
  then show ?thesis
    using pc ld tsucc_mem [of ch]
    by (cases "sy_pc s i") (fastforce simp: Let_def intro!: bind_total)+
qed

text \<open>The timestamp of a node of the queue is its index.\<close>

lemma tchain_ts: "tchain l ch \<Longrightarrow> k < length ch \<Longrightarrow> \<exists>nd. tl_heap l (ch ! k) = Some nd \<and> tn_ts nd = int k"
  using tchain_load by metis

lemma tinv_latest: "tinv s ch \<Longrightarrow> get_latest_timestamp (sy_list s) = Inr (int (tail_index (sy_list s) ch))"
  using tchain_tail [of "sy_list s" ch] tchain_ts [of "sy_list s" ch]
  by (fastforce simp: tinv_def get_latest_timestamp_def tl_load_def)

section \<open>A thread running alone\<close>

text \<open>From any reachable list the operation returns a new node: at once when \<open>tail\<close> is the last
  node, after one round of helping when it is the last but one.\<close>

lemma t_run_add_last:
  assumes ch: "tchain l ch" and tl: "tail_index l ch + 1 = length ch"
  shows "\<exists>a l'. t_run (Suc (Suc (Suc (Suc n)))) TAdd0 l = Inr (a, l') \<and> tl_tail l' = a
    \<and> (\<exists>nd. tl_heap l' a = Some nd \<and> tn_ts nd = int (length ch))"
proof -
  define t where "t = tail_index l ch"
  note tt = tchain_tail [OF ch, folded t_def]
  obtain nd where nd: "tl_load l (ch ! t) = Inr nd" "tl_heap l (ch ! t) = Some nd" "tn_ts nd = int t"
      "tn_next nd = (if Suc t < length ch then ch ! Suc t else tl_sentinel l)"
    using tchain_load [OF ch tt(1)] by metis
  have lt: "ch ! t < tl_brk l" using tchainD(1) [OF ch tt(1)] .
  have "tn_next nd = tl_sentinel l" "int (length ch) = int t + 1" using nd(4) tl t_def by auto
  then show ?thesis
    using nd tt(2) lt by (simp add: Let_def tl_load_def TrackerNode_new_def)
qed

lemma t_run_help:
  assumes ch: "tchain l ch" and tl: "tail_index l ch + 2 = length ch"
  shows "\<exists>l'. t_run (Suc (Suc (Suc (Suc (Suc (Suc (Suc (Suc n)))))))) TAdd0 l = t_run n TAdd0 l'
    \<and> tchain l' ch \<and> tail_index l' ch + 1 = length ch"
proof -
  define t where "t = tail_index l ch"
  note tt = tchain_tail [OF ch, folded t_def]
  have t: "Suc t < length ch" using tl t_def by simp
  obtain nd where nd: "tl_load l (ch ! t) = Inr nd" "tl_heap l (ch ! t) = Some nd" "tn_ts nd = int t"
      "tn_next nd = ch ! Suc t"
    using tchain_load [OF ch tt(1)] t by metis
  obtain nd2 where nd2: "tl_heap l (ch ! Suc t) = Some nd2" "tn_next nd2 = tl_sentinel l"
    using tchain_load [OF ch t] tl t_def by (metis Suc_eq_plus1 add_2_eq_Suc' less_irrefl)
  have lt: "ch ! t < tl_brk l" "ch ! Suc t < tl_brk l" using tchainD(1) [OF ch] t by auto
  have ns: "ch ! Suc t \<noteq> tl_sentinel l" using ch t nth_mem by (force simp: tchain_def)
  define l0 where "l0 = l\<lparr>tl_heap := (tl_heap l)(tl_brk l \<mapsto> TrackerNode_new (int t + 1) (tl_sentinel l)), tl_brk := Suc (tl_brk l)\<rparr>"
  define l' where "l' = l0\<lparr>tl_tail := ch ! Suc t\<rparr>"
  have ch0: "tchain l0 ch" unfolding l0_def by (rule tchain_alloc [OF ch])
  have tl0: "tl_tail l0 = ch ! t" using tt(2) by (simp add: l0_def)
  have "tchain l' ch" using tchain_advance_tail(1) [OF ch0 tsucc_nth [OF t]] tl0 by (simp add: l'_def)
  moreover have "tail_index l' ch = Suc t"
    using ch t by (intro tail_index_eq) (auto simp: l'_def tchain_def)
  moreover have "t_run (Suc (Suc (Suc (Suc (Suc (Suc (Suc (Suc n)))))))) TAdd0 l = t_run n TAdd0 l'"
    using nd nd2 tt(2) lt ns by (simp add: Let_def tl_load_def l0_def l'_def)
  ultimately show ?thesis using tl t_def by auto
qed

lemma add_timestamp_returns:
  assumes ch: "tchain l ch"
  shows "\<exists>a l' nd. add_timestamp l = Inr (a, l') \<and> tl_tail l' = a \<and> tl_heap l' a = Some nd \<and> tn_ts nd = int (length ch)"
proof -
  obtain n where n: "6 * tl_brk l + 10 = Suc (Suc (Suc (Suc (Suc (Suc (Suc (Suc (Suc (Suc (Suc (Suc n)))))))))))"
  proof -
    have "0 < tl_brk l" using ch by (auto simp: tchain_def)
    then have "6 * tl_brk l + 10 = 12 + (6 * tl_brk l - 2)" by simp
    then show ?thesis using that [of "6 * tl_brk l - 2"] by simp
  qed
  have "tail_index l ch + 1 = length ch \<or> tail_index l ch + 2 = length ch"
    using tchain_tail(1,3) [OF ch] by linarith
  then show ?thesis
  proof
    assume "tail_index l ch + 1 = length ch"
    from t_run_add_last [OF ch this] show ?thesis unfolding add_timestamp_def n by blast
  next
    assume "tail_index l ch + 2 = length ch"
    from t_run_help [OF ch this] obtain l' where l':
        "t_run (6 * tl_brk l + 10) TAdd0 l = t_run (Suc (Suc (Suc (Suc n)))) TAdd0 l'"
        "tchain l' ch" "tail_index l' ch + 1 = length ch"
      unfolding n by blast
    from t_run_add_last [OF l'(2,3)] l'(1) show ?thesis unfolding add_timestamp_def by metis
  qed
qed

section \<open>The head never moves\<close>

text \<open>The first node is not the node of any query, so nothing ever finishes it and \<open>remove_head\<close>
  always stops at it.\<close>

fun rem_ok :: "tpc \<Rightarrow> bool" where
  "rem_ok (TRem1 h) \<longleftrightarrow> h = 2"
| "rem_ok (TRem2 h) \<longleftrightarrow> False"
| "rem_ok (TRem3 h nx) \<longleftrightarrow> False"
| "rem_ok _ \<longleftrightarrow> True"

definition stuck_list :: "TrackerList \<Rightarrow> bool" where
  "stuck_list l \<longleftrightarrow> tl_head l = 2 \<and> 2 < tl_brk l \<and> (\<exists>nd. tl_heap l 2 = Some nd \<and> \<not> tn_finish nd \<and> tn_ts nd = 0)"

lemma stuck_step:
  assumes "stuck_list l" and "rem_ok pc" and "t_step pc l = Inr (pc', l')"
  shows "stuck_list l' \<and> rem_ok pc'"
  using assms
  by (cases pc) (auto simp: stuck_list_def tl_load_def Let_def split: option.splits if_splits)

lemma stuck_oldest:
  assumes "stuck_list l"
  shows "get_oldest_timestamp l = Inr (0, l)"
proof -
  obtain nd where nd: "tl_head l = 2" "tl_heap l 2 = Some nd" "\<not> tn_finish nd" "tn_ts nd = 0"
    using assms by (auto simp: stuck_list_def)
  have "4 * tl_brk l + 3 = Suc (Suc (Suc (4 * tl_brk l)))" by simp
  then have "remove_head l = Inr (2, l)"
    unfolding remove_head_def using nd by (simp only: t_run.simps) (simp add: tl_load_def)
  then show ?thesis using nd by (simp add: get_oldest_timestamp_def tl_load_def)
qed

lemma treach_stuck:
  assumes "treach s"
  shows "\<exists>ch. tinv s ch \<and> hd ch = 2 \<and> stuck_list (sy_list s) \<and> (\<forall>i. rem_ok (sy_pc s i))"
  using assms
proof (induction rule: treach.induct)
  case init
  show ?case
    by (intro exI [of _ "[2]"])
      (use tinv_init in \<open>simp add: stuck_list_def tsys_init_def TrackerList_new_def TrackerNode_new_def\<close>)
next
  case (step s s')
  then obtain ch where ch: "tinv s ch" "hd ch = 2" "stuck_list (sy_list s)" "\<forall>i. rem_ok (sy_pc s i)" by blast
  obtain xs where "tinv s' (ch @ xs)" using tinv_tstep [OF step(2) ch(1)] by blast
  moreover have ne: "ch \<noteq> []" using ch(1) by (auto simp: tinv_def tchain_def)
  moreover have "stuck_list (sy_list s') \<and> (\<forall>i. rem_ok (sy_pc s' i))"
    using step(2)
  proof (cases rule: tstep.cases)
    case (atomic i pc' l')
    then show ?thesis using stuck_step [OF ch(3), of "sy_pc s i"] ch(4) by auto
  next
    case (query_done a l')
    have "distinct ch" "set (sy_log s) \<subseteq> set (tl ch)" using ch(1) by (auto simp: tinv_def tchain_def)
    then have "a \<noteq> 2" using query_done(2) ch(2) ne by (cases ch) auto
    then show ?thesis using query_done ch by (auto simp: stuck_list_def set_finish_def tl_load_def split: option.splits)
  qed (use ch in auto)
  ultimately show ?case using ch(2) by (intro exI [of _ "ch @ xs"]) simp
qed

text \<open>The operations of one thread, with no other thread active, keep the list well-formed.\<close>

definition tracker_ok :: "TrackerList \<Rightarrow> bool" where
  "tracker_ok l \<longleftrightarrow> (\<exists>ch. tchain l ch) \<and> stuck_list l"

definition alone :: "TrackerList \<Rightarrow> tpc \<Rightarrow> tsys" where
  "alone l pc = \<lparr>sy_list = l, sy_pc = (\<lambda>_. TIdle)(0 := pc), sy_log = []\<rparr>"

lemma tinv_alone: "tchain l ch \<Longrightarrow> own pc = {} \<Longrightarrow> pc_ok l ch pc \<Longrightarrow> tinv (alone l pc) ch"
  by (auto simp: tinv_def alone_def)

lemma t_run_alone:
  assumes "t_run n pc l = Inr (a, l')" and "tinv (alone l pc) ch" and "stuck_list l" and "rem_ok pc"
  shows "\<exists>ch'. tchain l' ch' \<and> stuck_list l'"
  using assms
proof (induction n arbitrary: pc l ch)
  case (Suc n)
  show ?case
  proof (cases "\<exists>b. pc = TAdded b \<or> pc = TRemoved b")
    case True
    then show ?thesis using Suc.prems by (auto simp: tinv_def alone_def)
  next
    case False
    then have "t_run (Suc n) pc l = bind_res (t_step pc l) (\<lambda>(pc', l'). t_run n pc' l')" by (cases pc) auto
    then obtain pc1 l1 where s: "t_step pc l = Inr (pc1, l1)" "t_run n pc1 l1 = Inr (a, l')"
      using Suc.prems(1) by (auto simp: bind_res_Inr_iff)
    have "tstep (alone l pc) (alone l1 pc1)"
      using tstep.atomic [of "alone l pc" 0 pc1 l1] s(1) by (simp add: alone_def)
    then obtain xs where "tinv (alone l1 pc1) (ch @ xs)" using tinv_tstep Suc.prems(2) by blast
    moreover have "stuck_list l1 \<and> rem_ok pc1" using stuck_step [OF Suc.prems(3,4) s(1)] .
    ultimately show ?thesis using Suc.IH [OF s(2)] by blast
  qed
qed simp

lemma tracker_ok_new: "tracker_ok TrackerList_new"
proof -
  have "tchain TrackerList_new [2]" using tinv_init by (simp add: tinv_def tsys_init_def)
  then show ?thesis by (auto simp: tracker_ok_def stuck_list_def TrackerList_new_def TrackerNode_new_def)
qed

lemma tracker_ok_latest:
  assumes "tracker_ok l"
  shows "\<exists>g. get_latest_timestamp l = Inr g \<and> 0 \<le> g"
proof -
  obtain ch where ch: "tchain l ch" using assms by (auto simp: tracker_ok_def)
  show ?thesis using tchain_tail [OF ch] tchain_ts [OF ch] by (fastforce simp: get_latest_timestamp_def tl_load_def)
qed

text \<open>A range query from beginning to end: a new timestamp, larger than the latest, and its node, which
  is finished at the end.\<close>

lemma tracker_query:
  assumes ok: "tracker_ok l" and g: "get_latest_timestamp l = Inr g"
  obtains a l' nd l'' where "add_timestamp l = Inr (a, l')" "tl_load l' a = Inr nd" "get_latest_timestamp l' = Inr (tn_ts nd)"
    "g < tn_ts nd" "tracker_ok l'" "set_finish a l' = Inr l''" "tracker_ok l''" "get_latest_timestamp l'' = Inr (tn_ts nd)"
proof -
  obtain ch where ch: "tchain l ch" "stuck_list l" using ok by (auto simp: tracker_ok_def)
  obtain a l' nd where r: "add_timestamp l = Inr (a, l')" "tl_tail l' = a" "tl_heap l' a = Some nd" "tn_ts nd = int (length ch)"
    using add_timestamp_returns [OF ch(1)] by blast
  have "g = int (tail_index l ch)" using tchain_tail [OF ch(1)] tchain_ts [OF ch(1)] g by (fastforce simp: get_latest_timestamp_def tl_load_def)
  then have lt: "g < tn_ts nd" using tchain_tail(1) [OF ch(1)] r(4) by simp
  obtain ch' where ch': "tchain l' ch'" "stuck_list l'"
    using t_run_alone [OF r(1) [unfolded add_timestamp_def] tinv_alone [OF ch(1)] ch(2)] by auto
  have "a \<noteq> 2" using ch'(2) r(3,4) ch(1) by (auto simp: stuck_list_def tchain_def)
  let ?l = "l'\<lparr>tl_heap := (tl_heap l')(a \<mapsto> nd\<lparr>tn_finish := True\<rparr>)\<rparr>"
  have "set_finish a l' = Inr ?l" using r(3) by (simp add: set_finish_def tl_load_def)
  moreover have "tracker_ok ?l" using tchain_finish [OF ch'(1) r(3)] ch'(2) \<open>a \<noteq> 2\<close> by (auto simp: tracker_ok_def stuck_list_def)
  moreover have "get_latest_timestamp l' = Inr (tn_ts nd)" "get_latest_timestamp ?l = Inr (tn_ts nd)"
    using r(2,3) by (simp_all add: get_latest_timestamp_def tl_load_def)
  ultimately show ?thesis using that [of a l' nd ?l] r(1,3) lt ch' by (auto simp: tracker_ok_def tl_load_def)
qed

text \<open>No step moves \<open>tail\<close> back.\<close>

lemma tail_index_cong: "tl_tail l' = tl_tail l \<Longrightarrow> tail_index l' ch = tail_index l ch"
  by (simp add: tail_index_def)

lemma t_step_tail:
  assumes ch: "tchain l ch" and pc: "pc_ok l ch pc" and run: "t_step pc l = Inr (pc', l')"
  shows "tail_index l ch \<le> tail_index l' (ch @ xs)"
proof -
  have keep: "tail_index l ch \<le> tail_index l' (ch @ xs)" if "tl_tail l' = tl_tail l"
    using tail_index_append [OF ch] tail_index_cong [OF that] by simp
  have adv: "tail_index l ch \<le> tail_index l' (ch @ xs)"
    if "tsucc ch c n" "l' = (if tl_tail l = c then l\<lparr>tl_tail := n\<rparr> else l)" for c n
    using tchain_advance_tail [OF ch that(1)] tail_index_append [of l' ch xs] unfolding that(2) by simp
  show ?thesis
  proof (cases pc)
    case (TAdd2 c n)
    then show ?thesis using pc run adv [of c n] by auto
  next
    case (THelp3 c n)
    then show ?thesis using pc run adv [of c n] by auto
  qed (use run in \<open>intro keep; auto simp: Let_def tl_load_def split: option.splits if_splits\<close>)+
qed

section \<open>Properties of the tracker\<close>

text \<open>A concrete run: thread 0 adds a timestamp.\<close>

definition tsys_ex :: tsys where
  "tsys_ex = \<lparr>sy_list = \<lparr>tl_head = 2, tl_tail = 3, tl_sentinel = 1,
      tl_heap = [1 \<mapsto> TrackerNode_new (2 ^ 63 - 1) 0, 2 \<mapsto> TrackerNode_new 0 3, 3 \<mapsto> TrackerNode_new 1 1],
      tl_brk = 4\<rparr>, sy_pc = (\<lambda>_. TIdle), sy_log = [3]\<rparr>"

lemma treach_call: "treach s \<Longrightarrow> sy_pc s i = TIdle \<Longrightarrow> treach (s\<lparr>sy_pc := (sy_pc s)(i := TAdd0)\<rparr>)"
  by (blast intro: treach.step tstep.call_add)

lemma treach_atomic:
  "treach s \<Longrightarrow> t_step (sy_pc s i) (sy_list s) = Inr (pc', l') \<Longrightarrow>
    treach (s\<lparr>sy_list := l', sy_pc := (sy_pc s)(i := pc')\<rparr>)"
  by (blast intro: treach.step tstep.atomic)

lemma treach_ret:
  "treach s \<Longrightarrow> sy_pc s i = TAdded a \<Longrightarrow>
    treach (s\<lparr>sy_pc := (sy_pc s)(i := TIdle), sy_log := a # sy_log s\<rparr>)"
  by (blast intro: treach.step tstep.ret_add)

lemma tsys_ex_reach: "treach tsys_ex"
proof -
  define l1 where "l1 = TrackerList_new\<lparr>tl_heap := (tl_heap TrackerList_new)(3 \<mapsto> TrackerNode_new 1 1), tl_brk := 4\<rparr>"
  define l2 where "l2 = l1\<lparr>tl_heap := (tl_heap l1)(2 \<mapsto> TrackerNode_new 0 3)\<rparr>"
  define l3 where "l3 = l2\<lparr>tl_tail := 3\<rparr>"
  define st where "st = (\<lambda>l pc lg. \<lparr>sy_list = l, sy_pc = (\<lambda>_. TIdle)(0 := pc), sy_log = lg\<rparr>)"
  have s0: "treach (st TrackerList_new TAdd0 [])"
    using treach_call [OF treach.init, of 0] by (simp add: tsys_init_def st_def)
  have s1: "treach (st l1 (TAdd1 2 3) [])"
    using treach_atomic [OF s0, of 0 "TAdd1 2 3" l1]
    by (simp add: st_def l1_def TrackerList_new_def TrackerNode_new_def tl_load_def Let_def)
  have s2: "treach (st l2 (TAdd2 2 3) [])"
    using treach_atomic [OF s1, of 0 "TAdd2 2 3" l2]
    by (simp add: st_def l1_def l2_def TrackerList_new_def TrackerNode_new_def tl_load_def)
  have s3: "treach (st l3 (TAdded 3) [])"
    using treach_atomic [OF s2, of 0 "TAdded 3" l3]
    by (simp add: st_def l1_def l2_def l3_def TrackerList_new_def)
  have "treach (st l3 TIdle [3])"
    using treach_ret [OF s3, of 0 3] by (simp add: st_def)
  moreover have "st l3 TIdle [3] = tsys_ex"
    by (auto simp: st_def tsys_ex_def l1_def l2_def l3_def TrackerList_new_def TrackerNode_new_def fun_eq_iff)
  ultimately show ?thesis by simp
qed

text \<open>C11. Whatever the interleaving of the threads, the nodes that \<open>add_timestamp\<close> has returned have
  pairwise different, positive timestamps.\<close>

theorem timestamps_unique:
  assumes "treach s"
  shows "distinct (map (\<lambda>a. map_option tn_ts (tl_heap (sy_list s) a)) (sy_log s))
    \<and> (\<forall>a \<in> set (sy_log s). \<exists>nd. tl_heap (sy_list s) a = Some nd \<and> 0 < tn_ts nd)"
proof -
  obtain ch where inv: "tinv s ch" using treach_inv [OF assms] by blast
  have ch: "tchain (sy_list s) ch" and log: "distinct (sy_log s)" "set (sy_log s) \<subseteq> set (tl ch)"
    using inv by (auto simp: tinv_def)
  have ix: "\<exists>k nd. 0 < k \<and> k < length ch \<and> a = ch ! k \<and> tl_heap (sy_list s) a = Some nd \<and> tn_ts nd = int k"
    if "a \<in> set (sy_log s)" for a
  proof -
    have "a \<in> set (tl ch)" using that log(2) by blast
    then obtain k where "k < length (tl ch)" "a = tl ch ! k" by (auto simp: in_set_conv_nth)
    then show ?thesis using tchain_ts [OF ch, of "Suc k"] by (auto simp: nth_tl intro!: exI [of _ "Suc k"])
  qed
  have "inj_on (\<lambda>a. map_option tn_ts (tl_heap (sy_list s) a)) (set (sy_log s))"
  proof (rule inj_onI)
    fix a b assume "a \<in> set (sy_log s)" "b \<in> set (sy_log s)"
      and eq: "map_option tn_ts (tl_heap (sy_list s) a) = map_option tn_ts (tl_heap (sy_list s) b)"
    with ix [of a] ix [of b] show "a = b" by auto
  qed
  moreover have "\<exists>nd. tl_heap (sy_list s) a = Some nd \<and> 0 < tn_ts nd" if "a \<in> set (sy_log s)" for a
    using ix [OF that] by auto
  ultimately show ?thesis using log(1) by (simp add: distinct_map)
qed

theorem timestamps_unique_witness:
  "sy_log tsys_ex = [3] \<and> (\<exists>nd. tl_heap (sy_list tsys_ex) 3 = Some nd \<and> 0 < tn_ts nd)"
  using timestamps_unique [OF tsys_ex_reach] by (simp add: tsys_ex_def)

text \<open>In every reachable state every thread can take its next step (no access through a null
  pointer), and no step of any thread lowers the latest timestamp.\<close>

theorem latest_timestamp_monotone:
  assumes "treach s" and "tstep s s'"
  shows "(\<forall>i. \<exists>pc' l'. t_step (sy_pc s i) (sy_list s) = Inr (pc', l')) \<and>
    (\<exists>m m'. get_latest_timestamp (sy_list s) = Inr m \<and> get_latest_timestamp (sy_list s') = Inr m' \<and> 0 \<le> m \<and> m \<le> m')"
proof -
  obtain ch where inv: "tinv s ch" using treach_inv [OF assms(1)] by blast
  obtain xs where inv': "tinv s' (ch @ xs)" using tinv_tstep [OF assms(2) inv] by blast
  have ch: "tchain (sy_list s) ch" and pc: "\<And>i. pc_ok (sy_list s) ch (sy_pc s i)" using inv by (auto simp: tinv_def)
  have "tail_index (sy_list s) ch \<le> tail_index (sy_list s') (ch @ xs)"
    using assms(2)
  proof (cases rule: tstep.cases)
    case (atomic i pc' l')
    then show ?thesis using t_step_tail [OF ch pc [of i]] by simp
  next
    case (query_done a l')
    then show ?thesis using tail_index_append [OF ch]
      by (auto simp: set_finish_def tl_load_def split: option.splits)
  qed (use tail_index_append [OF ch] in auto)
  then show ?thesis using tinv_safe [OF inv] tinv_latest [OF inv] tinv_latest [OF inv'] by auto
qed

theorem latest_timestamp_monotone_witness:
  "\<exists>m m'. get_latest_timestamp (sy_list tsys_ex) = Inr m \<and> m \<le> m'
    \<and> get_latest_timestamp (sy_list (tsys_ex\<lparr>sy_pc := (sy_pc tsys_ex)(0 := TAdd0)\<rparr>)) = Inr m'"
  using latest_timestamp_monotone [OF tsys_ex_reach tstep.call_add [of tsys_ex 0]] by (auto simp: tsys_ex_def)

text \<open>From every state that any interleaving can reach, a thread that calls \<open>add_timestamp\<close> and
  runs alone returns, helping an unfinished append of another thread if there is one; its timestamp
  is above the latest one of before and is the latest one afterwards.\<close>

theorem add_timestamp_fresh:
  assumes "treach s"
  shows "\<exists>a l' nd m. add_timestamp (sy_list s) = Inr (a, l') \<and> tl_heap l' a = Some nd
    \<and> get_latest_timestamp (sy_list s) = Inr m \<and> m < tn_ts nd \<and> get_latest_timestamp l' = Inr (tn_ts nd)"
proof -
  obtain ch where inv: "tinv s ch" using treach_inv [OF assms] by blast
  then have ch: "tchain (sy_list s) ch" by (simp add: tinv_def)
  obtain a l' nd where "add_timestamp (sy_list s) = Inr (a, l')" "tl_tail l' = a" "tl_heap l' a = Some nd"
      "tn_ts nd = int (length ch)"
    using add_timestamp_returns [OF ch] by blast
  then show ?thesis
    using tinv_latest [OF inv] tchain_tail(1) [OF ch]
    by (intro exI [of _ a] exI [of _ l'] exI [of _ nd] exI [of _ "int (tail_index (sy_list s) ch)"]) (simp add: get_latest_timestamp_def tl_load_def)
qed

theorem add_timestamp_fresh_witness:
  "\<exists>a l' nd. add_timestamp (sy_list tsys_ex) = Inr (a, l') \<and> tl_heap l' a = Some nd \<and> 1 < tn_ts nd"
  using add_timestamp_fresh [OF tsys_ex_reach]
  by (auto simp: tsys_ex_def get_latest_timestamp_def tl_load_def TrackerNode_new_def)

text \<open>The first node has timestamp 0, belongs to no range query and is therefore never finished:
  in every reachable state \<open>get_oldest_timestamp\<close> returns 0, so the threshold for reclaiming old
  versions never advances.\<close>

theorem oldest_timestamp_stuck:
  assumes "treach s"
  shows "get_oldest_timestamp (sy_list s) = Inr (0, sy_list s)"
  using treach_stuck [OF assms] stuck_oldest by blast

theorem oldest_timestamp_stuck_witness: "get_oldest_timestamp (sy_list tsys_ex) = Inr (0, sy_list tsys_ex)"
  using oldest_timestamp_stuck [OF tsys_ex_reach] .

end
