(* ===== verification/Versions.thy ===== *)
theory Versions
  imports Tagged_Ptr Version_Tracker
begin

text \<open>
  Versioned values of the range-query variant: \<open>Vnode\<close> of \<open>Kanva_RS/Uruv/util.h\<close> and
  \<open>VersionedArray\<close> of \<open>Kanva_RS/util.h\<close>.

  A value is a chain of versions, newest first; a version gets the latest timestamp of the tracker
  when it is first looked at (\<open>init_ts\<close>, -1 before). The store of versions and the tracker are one
  record, \<open>vmem\<close>, that every operation passes on: the chains of a bin become the chains of the node
  it is retrained into, so their addresses matter. \<open>vm_retired\<close> records the versions handed to the
  record manager for reclamation. A load through a word with a tag, through null or through an
  address that was never allocated is \<open>Inl NullDeref\<close>.

  \<open>vseg\<close> relates a chain to the list of its versions, and \<open>version_at\<close> is the specification of what a
  range query with a timestamp has to see.
\<close>

section \<open>Versions\<close>

record Vnode =
  vn_value :: val_t
  vn_ts :: int
  vn_nextv :: tptr

record vmem =
  vm_heap :: "addr \<rightharpoonup> Vnode"
  vm_brk :: addr
  vm_retired :: "addr list"
  vm_tracker :: TrackerList

definition vmem_new :: vmem where
  "vmem_new = \<lparr>vm_heap = Map.empty, vm_brk = 1, vm_retired = [], vm_tracker = TrackerList_new\<rparr>"

definition vn_load :: "vmem \<Rightarrow> tptr \<Rightarrow> Vnode res" where
  "vn_load m p =
     (if tp_mark p \<or> tp_freeze p then Inl NullDeref
      else case vm_heap m (tp_addr p) of None \<Rightarrow> Inl NullDeref | Some nd \<Rightarrow> Inr nd)"

definition Vnode_new :: "val_t \<Rightarrow> tptr \<Rightarrow> vmem \<Rightarrow> tptr \<times> vmem" where
  "Vnode_new val n m =
     (clean (vm_brk m),
      m\<lparr>vm_heap := (vm_heap m)(vm_brk m \<mapsto> \<lparr>vn_value = val, vn_ts = - 1, vn_nextv = n\<rparr>),
        vm_brk := Suc (vm_brk m)\<rparr>)"

definition init_ts :: "tptr \<Rightarrow> vmem \<Rightarrow> vmem res" where
  "init_ts p m =
     bind_res (vn_load m p) (\<lambda>nd.
       if vn_ts nd = - 1 then
         bind_res (get_latest_timestamp (vm_tracker m)) (\<lambda>global_ts.
           Inr (m\<lparr>vm_heap := (vm_heap m)(tp_addr p \<mapsto> nd\<lparr>vn_ts := global_ts\<rparr>)\<rparr>))
       else Inr m)"

text \<open>The compare-exchange on the head of a chain: the answer, the head word and the store. A marked
  head word differs from the unmarked one that is expected.\<close>

definition vCAS :: "tptr \<Rightarrow> val_t \<Rightarrow> val_t \<Rightarrow> vmem \<Rightarrow> (bool \<times> tptr \<times> vmem) res" where
  "vCAS vhead old_value new_value m =
     (let hd = tp_unset_mark vhead in
      bind_res (init_ts hd m) (\<lambda>m1.
      bind_res (vn_load m1 hd) (\<lambda>nd.
        if vn_value nd \<noteq> old_value then Inr (False, vhead, m1)
        else if vn_value nd = new_value then Inr (True, vhead, m1)
        else
          let (new_node, m2) = Vnode_new new_value hd m1 in
          if vhead = hd then bind_res (init_ts new_node m2) (\<lambda>m3. Inr (True, new_node, m3))
          else Inr (False, vhead, m2))))"

definition vread :: "tptr \<Rightarrow> vmem \<Rightarrow> (val_t \<times> vmem) res" where
  "vread vhead m =
     bind_res (init_ts vhead m) (\<lambda>m1. bind_res (vn_load m1 vhead) (\<lambda>nd. Inr (vn_value nd, m1)))"

text \<open>The walk of a range query: to the first version older than its timestamp.\<close>

fun walk_versions :: "nat \<Rightarrow> tptr \<Rightarrow> int \<Rightarrow> vmem \<Rightarrow> tptr res" where
  "walk_versions 0 p curr_ts m = Inl OutOfFuel"
| "walk_versions (Suc n) p curr_ts m =
     (if \<not> tp_true p then Inr p
      else bind_res (vn_load m p) (\<lambda>nd.
        if vn_ts nd \<ge> curr_ts then walk_versions n (vn_nextv nd) curr_ts m else Inr p))"

section \<open>The cells of a node's array\<close>

record VersionedArray =
  va_key :: key_t
  va_vhead :: tptr

definition VersionedArray_new :: "key_t \<Rightarrow> val_t \<Rightarrow> vmem \<Rightarrow> VersionedArray \<times> vmem" where
  "VersionedArray_new key value m =
     (let (temp, m1) = Vnode_new value null_ptr m in (\<lparr>va_key = key, va_vhead = temp\<rparr>, m1))"

definition VersionedArray_of :: "key_t \<Rightarrow> tptr \<Rightarrow> VersionedArray" where
  "VersionedArray_of key vhead = \<lparr>va_key = key, va_vhead = vhead\<rparr>"

definition getValue :: "VersionedArray \<Rightarrow> vmem \<Rightarrow> val_t res" where
  "getValue c m = bind_res (vn_load m (va_vhead c)) (\<lambda>nd. Inr (vn_value nd))"

definition va_read :: "VersionedArray \<Rightarrow> vmem \<Rightarrow> (val_t \<times> vmem) res" where
  "va_read c m = vread (va_vhead c) m"

definition va_vCAS :: "VersionedArray \<Rightarrow> val_t \<Rightarrow> val_t \<Rightarrow> vmem \<Rightarrow> (bool \<times> VersionedArray \<times> vmem) res" where
  "va_vCAS c old_value new_value m =
     bind_res (vCAS (va_vhead c) old_value new_value m) (\<lambda>(ok, vh, m'). Inr (ok, c\<lparr>va_vhead := vh\<rparr>, m'))"

text \<open>\<open>insert\<close>: the value 0 that the source returns after the loop is \<open>false\<close>.\<close>

fun va_insert_loop :: "nat \<Rightarrow> VersionedArray \<Rightarrow> val_t \<Rightarrow> vmem \<Rightarrow> (bool \<times> VersionedArray \<times> vmem) res" where
  "va_insert_loop 0 c value m = Inl OutOfFuel"
| "va_insert_loop (Suc n) c value m =
     bind_res (va_read c m) (\<lambda>(curr_value, m1).
       if curr_value = value then Inr (False, c, m1)
       else bind_res (va_vCAS c curr_value value m1) (\<lambda>(ok, c', m2).
         if ok then Inr (False, c', m2) else va_insert_loop n c' value m2))"

definition va_insert :: "VersionedArray \<Rightarrow> val_t \<Rightarrow> vmem \<Rightarrow> (bool \<times> VersionedArray \<times> vmem) res" where
  "va_insert c value m = va_insert_loop 1 c value m"

definition getVersionedValue :: "VersionedArray \<Rightarrow> int \<Rightarrow> vmem \<Rightarrow> (val_t \<times> vmem) res" where
  "getVersionedValue c curr_ts m =
     (let p = tp_unset_mark (va_vhead c) in
      bind_res (init_ts p m) (\<lambda>m1.
      bind_res (walk_versions (Suc (vm_brk m1)) p curr_ts m1) (\<lambda>q.
        if tp_true q then
          bind_res (vn_load m1 q) (\<lambda>nd. Inr (if vn_value nd \<noteq> tombstone then vn_value nd else - 1, m1))
        else Inr (- 1, m1))))"

section \<open>Chains\<close>

type_synonym version = "addr \<times> val_t \<times> int"

abbreviation ver_addr :: "version \<Rightarrow> addr" where "ver_addr v \<equiv> fst v"
abbreviation ver_value :: "version \<Rightarrow> val_t" where "ver_value v \<equiv> fst (snd v)"
abbreviation ver_ts :: "version \<Rightarrow> int" where "ver_ts v \<equiv> snd (snd v)"

fun vseg :: "(addr \<rightharpoonup> Vnode) \<Rightarrow> tptr \<Rightarrow> version list \<Rightarrow> bool" where
  "vseg h p [] \<longleftrightarrow> p = null_ptr"
| "vseg h p ((a, v, t) # vs) \<longleftrightarrow>
     p = clean a \<and> 0 < a \<and> (\<exists>q. h a = Some \<lparr>vn_value = v, vn_ts = t, vn_nextv = q\<rparr> \<and> vseg h q vs)"

text \<open>What a query with timestamp \<open>ts\<close> has to see: the newest version before \<open>ts\<close>, unless it is a
  deletion.\<close>

fun version_at :: "int \<Rightarrow> version list \<Rightarrow> version option" where
  "version_at ts [] = None"
| "version_at ts (v # vs) = (if ts \<le> ver_ts v then version_at ts vs else Some v)"

definition value_at :: "int \<Rightarrow> version list \<Rightarrow> val_t option" where
  "value_at ts vs =
     (case version_at ts vs of None \<Rightarrow> None | Some v \<Rightarrow> if ver_value v = tombstone then None else Some (ver_value v))"

text \<open>The chain after \<open>init_ts\<close> and after a new version.\<close>

fun stamp :: "int \<Rightarrow> version list \<Rightarrow> version list" where
  "stamp g [] = []"
| "stamp g ((a, v, t) # vs) = (a, v, if t = - 1 then g else t) # vs"

lemma vseg_upd [simp]: "c \<notin> ver_addr ` set vs \<Longrightarrow> vseg (h(c := x)) p vs = vseg h p vs"
  by (induction h p vs rule: vseg.induct) auto

lemma vseg_alloc: "vseg h p vs \<Longrightarrow> c \<in> ver_addr ` set vs \<Longrightarrow> c \<in> dom h"
  by (induction h p vs rule: vseg.induct) auto

lemma stamp_addr [simp]: "map ver_addr (stamp g vs) = map ver_addr vs"
  by (cases vs) auto

lemma stamp_addr_set [simp]: "ver_addr ` set (stamp g vs) = ver_addr ` set vs"
  by (cases vs) auto

lemma stamp_Nil_iff [simp]: "stamp g vs = [] \<longleftrightarrow> vs = []"
  by (cases vs) auto

lemma stamp_value [simp]: "vs \<noteq> [] \<Longrightarrow> ver_value (hd (stamp g vs)) = ver_value (hd vs)"
  by (cases vs) auto

text \<open>A well-formed store: addresses below the next one, the tracker's latest timestamp is \<open>g\<close>.\<close>

definition vmem_ok :: "vmem \<Rightarrow> int \<Rightarrow> bool" where
  "vmem_ok m g \<longleftrightarrow> 0 < vm_brk m \<and> dom (vm_heap m) \<subseteq> {1..<vm_brk m} \<and> get_latest_timestamp (vm_tracker m) = Inr g \<and> 0 \<le> g"

lemma vmem_ok_new: "vmem_ok vmem_new 0"
  by (simp add: vmem_ok_def vmem_new_def get_latest_timestamp_def TrackerList_new_def tl_load_def TrackerNode_new_def)

lemma vn_load_clean [simp]: "vn_load m (clean a) = (case vm_heap m a of None \<Rightarrow> Inl NullDeref | Some nd \<Rightarrow> Inr nd)"
  by (simp add: vn_load_def)

text \<open>\<open>init_ts\<close> stamps the head of the chain and touches nothing else.\<close>

lemma init_ts_spec:
  assumes seg: "vseg (vm_heap m) p vs" and "vs \<noteq> []" and ok: "vmem_ok m g" and d: "distinct (map ver_addr vs)"
  shows "\<exists>m'. init_ts p m = Inr m' \<and> vseg (vm_heap m') p (stamp g vs) \<and> vmem_ok m' g
    \<and> vm_brk m' = vm_brk m \<and> vm_tracker m' = vm_tracker m \<and> vm_retired m' = vm_retired m
    \<and> (\<forall>a. a \<notin> ver_addr ` set vs \<longrightarrow> vm_heap m' a = vm_heap m a)"
proof -
  obtain a v t vs' where vs: "vs = (a, v, t) # vs'" using assms(2) by (cases vs) auto
  obtain q where q: "p = clean a" "0 < a" "vm_heap m a = Some \<lparr>vn_value = v, vn_ts = t, vn_nextv = q\<rparr>"
      "vseg (vm_heap m) q vs'"
    using seg vs by auto
  have a: "a \<notin> ver_addr ` set vs'" using d vs by simp
  show ?thesis
  proof (cases "t = - 1")
    case True
    let ?m = "m\<lparr>vm_heap := (vm_heap m)(a \<mapsto> \<lparr>vn_value = v, vn_ts = g, vn_nextv = q\<rparr>)\<rparr>"
    have "init_ts p m = Inr ?m"
      using q True ok by (simp add: init_ts_def vmem_ok_def)
    moreover have "vmem_ok ?m g" using ok q(3) by (auto simp: vmem_ok_def)
    ultimately show ?thesis using vs True q a by auto
  next
    case False
    then have "init_ts p m = Inr m" using q by (simp add: init_ts_def)
    then show ?thesis using vs False seg ok by auto
  qed
qed

lemma Vnode_new_spec:
  assumes "vmem_ok m g" and "vseg (vm_heap m) n vs" and "Vnode_new val n m = (p, m')"
  shows "vseg (vm_heap m') p ((vm_brk m, val, - 1) # vs) \<and> vmem_ok m' g \<and> p = clean (vm_brk m)
    \<and> vm_brk m' = Suc (vm_brk m) \<and> vm_tracker m' = vm_tracker m \<and> vm_retired m' = vm_retired m
    \<and> vm_brk m \<notin> ver_addr ` set vs \<and> (\<forall>a. a \<noteq> vm_brk m \<longrightarrow> vm_heap m' a = vm_heap m a) \<and> 0 < vm_brk m"
proof -
  have "vm_brk m \<notin> dom (vm_heap m)" using assms(1) by (force simp: vmem_ok_def)
  then have "vm_brk m \<notin> ver_addr ` set vs" using vseg_alloc [OF assms(2), of "vm_brk m"] by blast
  moreover have "vmem_ok m' g"
  proof -
    have "dom (vm_heap m') = insert (vm_brk m) (dom (vm_heap m))" using assms(3) by (auto simp: Vnode_new_def)
    then show ?thesis using assms(1,3) by (auto simp: vmem_ok_def Vnode_new_def subset_iff less_Suc_eq)
  qed
  moreover have "0 < vm_brk m" using assms(1) by (simp add: vmem_ok_def)
  ultimately show ?thesis using assms(2,3) by (auto simp: Vnode_new_def)
qed

text \<open>A frame: everything outside the chain and the new addresses is as before.\<close>

definition vframe :: "vmem \<Rightarrow> vmem \<Rightarrow> addr set \<Rightarrow> bool" where
  "vframe m m' A \<longleftrightarrow> vm_brk m \<le> vm_brk m' \<and> vm_tracker m' = vm_tracker m \<and> vm_retired m' = vm_retired m
     \<and> (\<forall>a < vm_brk m. a \<notin> A \<longrightarrow> vm_heap m' a = vm_heap m a)"

lemma vframe_refl [simp]: "vframe m m A"
  by (simp add: vframe_def)

lemma vframe_trans: "vframe m m' A \<Longrightarrow> vframe m' m'' A \<Longrightarrow> vframe m m'' A"
  by (simp add: vframe_def)

lemma vframe_mono: "vframe m m' A \<Longrightarrow> A \<subseteq> B \<Longrightarrow> vframe m m' B"
  by (auto simp: vframe_def)

lemma vseg_cong: "(\<And>a. a \<in> ver_addr ` set vs \<Longrightarrow> h' a = h a) \<Longrightarrow> vseg h' p vs = vseg h p vs"
  by (induction h p vs rule: vseg.induct) auto

lemma vseg_less: "vseg (vm_heap m) p vs \<Longrightarrow> vmem_ok m g \<Longrightarrow> a \<in> ver_addr ` set vs \<Longrightarrow> a < vm_brk m"
  using vseg_alloc by (fastforce simp: vmem_ok_def)

lemma vseg_frame:
  assumes "vframe m m' A" and "vmem_ok m g" and "vseg (vm_heap m) p vs" and "ver_addr ` set vs \<inter> A = {}"
  shows "vseg (vm_heap m') p vs"
proof -
  have "vm_heap m' a = vm_heap m a" if "a \<in> ver_addr ` set vs" for a
    using assms that vseg_less [OF assms(3,2) that] by (auto simp: vframe_def)
  then show ?thesis using assms(3) vseg_cong [of vs "vm_heap m'" "vm_heap m"] by blast
qed

lemma init_ts_frame:
  assumes "vseg (vm_heap m) p vs" and "vs \<noteq> []" and "vmem_ok m g" and "distinct (map ver_addr vs)"
  shows "\<exists>m'. init_ts p m = Inr m' \<and> vseg (vm_heap m') p (stamp g vs) \<and> vmem_ok m' g \<and> vframe m m' (ver_addr ` set vs)"
  using init_ts_spec [OF assms] by (auto simp: vframe_def)

text \<open>The value read from a chain and the chain after a compare-exchange with the value just read.\<close>

lemma vseg_head: "vseg h p vs \<Longrightarrow> vs \<noteq> [] \<Longrightarrow> \<exists>nd. p = clean (ver_addr (hd vs)) \<and> h (ver_addr (hd vs)) = Some nd
    \<and> vn_value nd = ver_value (hd vs) \<and> vn_ts nd = ver_ts (hd vs)"
  by (cases vs) auto

lemma vread_spec:
  assumes "vseg (vm_heap m) p vs" and "vs \<noteq> []" and "vmem_ok m g" and "distinct (map ver_addr vs)"
  shows "\<exists>m'. vread p m = Inr (ver_value (hd vs), m') \<and> vseg (vm_heap m') p (stamp g vs) \<and> vmem_ok m' g
    \<and> vframe m m' (ver_addr ` set vs) \<and> vm_brk m' = vm_brk m"
proof -
  obtain m' where m': "init_ts p m = Inr m'" "vseg (vm_heap m') p (stamp g vs)" "vmem_ok m' g"
      "vframe m m' (ver_addr ` set vs)" "vm_brk m' = vm_brk m"
    using init_ts_spec [OF assms] by (auto simp: vframe_def)
  then show ?thesis using vseg_head [OF m'(2)] assms(2) by (auto simp: vread_def)
qed

definition push_version :: "addr \<Rightarrow> val_t \<Rightarrow> int \<Rightarrow> version list \<Rightarrow> version list" where
  "push_version a val g vs = (a, val, g) # stamp g vs"

lemma vCAS_spec:
  assumes seg: "vseg (vm_heap m) p vs" and ne: "vs \<noteq> []" and ok: "vmem_ok m g" and d: "distinct (map ver_addr vs)"
    and new: "new \<noteq> ver_value (hd vs)"
  shows "\<exists>q m'. vCAS p (ver_value (hd vs)) new m = Inr (True, q, m')
    \<and> vseg (vm_heap m') q (push_version (vm_brk m) new g vs) \<and> vmem_ok m' g
    \<and> vframe m m' (ver_addr ` set vs) \<and> vm_brk m \<notin> ver_addr ` set vs"
proof -
  obtain m1 where m1: "init_ts p m = Inr m1" "vseg (vm_heap m1) p (stamp g vs)" "vmem_ok m1 g"
      "vframe m m1 (ver_addr ` set vs)" "vm_brk m1 = vm_brk m"
    using init_ts_spec [OF seg ne ok d] by (auto simp: vframe_def)
  obtain nd where nd: "p = clean (ver_addr (hd vs))" "vm_heap m1 (ver_addr (hd (stamp g vs))) = Some nd"
      "vn_value nd = ver_value (hd vs)"
    using vseg_head [OF m1(2)] vseg_head [OF seg] ne by auto
  obtain q m2 where q: "Vnode_new new p m1 = (q, m2)" by (cases "Vnode_new new p m1")
  note al = Vnode_new_spec [OF m1(3,2) q]
  let ?vs = "(vm_brk m1, new, - 1) # stamp g vs"
  have "distinct (map ver_addr ?vs)" using al d by auto
  then obtain m3 where m3: "init_ts q m2 = Inr m3" "vseg (vm_heap m3) q (stamp g ?vs)" "vmem_ok m3 g"
      "vm_brk m3 = vm_brk m2" "vm_tracker m3 = vm_tracker m2" "vm_retired m3 = vm_retired m2"
      "\<forall>a. a \<notin> ver_addr ` set ?vs \<longrightarrow> vm_heap m3 a = vm_heap m2 a"
    using init_ts_spec [of m2 q ?vs g] al by auto
  have "vm_heap m1 (ver_addr (hd vs)) = Some nd" using nd(2) ne by (cases vs) auto
  then have "vCAS p (ver_value (hd vs)) new m = Inr (True, q, m3)"
    using m1(1) nd(1,3) q m3(1) new by (simp add: vCAS_def tp_defs Let_def)
  moreover have "vframe m m3 (ver_addr ` set vs)"
    using m1(4,5) al m3(4-7) by (auto simp: vframe_def)
  ultimately show ?thesis
    using m3(2,3) al m1(5) by (intro exI [of _ q] exI [of _ m3]) (simp add: push_version_def)
qed

lemma walk_versions_spec:
  assumes "vseg (vm_heap m) p vs" and "length vs < n"
  shows "walk_versions n p ts m = Inr (case version_at ts vs of None \<Rightarrow> null_ptr | Some v \<Rightarrow> clean (ver_addr v))"
  using assms
proof (induction n p ts m arbitrary: vs rule: walk_versions.induct)
  case (2 n p curr_ts m)
  show ?case
  proof (cases vs)
    case Nil
    then show ?thesis using "2.prems" by (simp add: tp_true_def)
  next
    case (Cons v vs')
    then obtain a w t q where v: "v = (a, w, t)" "p = clean a" "0 < a"
        "vm_heap m a = Some \<lparr>vn_value = w, vn_ts = t, vn_nextv = q\<rparr>" "vseg (vm_heap m) q vs'"
      using "2.prems"(1) by (cases v) auto
    show ?thesis
    proof (cases "curr_ts \<le> t")
      case True
      have "walk_versions n (vn_nextv \<lparr>vn_value = w, vn_ts = t, vn_nextv = q\<rparr>) curr_ts m =
          Inr (case version_at curr_ts vs' of None \<Rightarrow> null_ptr | Some v \<Rightarrow> clean (ver_addr v))"
        by (rule "2.IH") (use v True Cons "2.prems"(2) in \<open>simp_all add: tp_true_def\<close>)
      then show ?thesis using v Cons True by (simp add: tp_true_def)
    qed (use v Cons in \<open>simp add: tp_true_def\<close>)
  qed
qed simp

lemma version_at_mem: "version_at ts vs = Some v \<Longrightarrow> v \<in> set vs \<and> ver_ts v < ts"
  by (induction vs) (auto split: if_splits)

lemma vseg_mem: "vseg h p vs \<Longrightarrow> (a, v, t) \<in> set vs \<Longrightarrow> 0 < a \<and> (\<exists>q. h a = Some \<lparr>vn_value = v, vn_ts = t, vn_nextv = q\<rparr>)"
  by (induction h p vs rule: vseg.induct) auto

lemma vseg_length:
  assumes "vseg (vm_heap m) p vs" and "vmem_ok m g" and "distinct (map ver_addr vs)"
  shows "length vs < vm_brk m"
proof -
  have "set (map ver_addr vs) \<subseteq> {1..<vm_brk m}"
    using vseg_less [OF assms(1,2)] vseg_mem [OF assms(1)] by (force simp: Suc_le_eq)
  then have "card (set (map ver_addr vs)) \<le> card {1..<vm_brk m}" by (intro card_mono) auto
  moreover have "card (set (map ver_addr vs)) = length vs" using distinct_card [OF assms(3)] by simp
  ultimately show ?thesis using assms(2) by (auto simp: vmem_ok_def simp del: set_map)
qed

section \<open>The cells\<close>

definition va_rep :: "vmem \<Rightarrow> int \<Rightarrow> VersionedArray \<Rightarrow> version list \<Rightarrow> bool" where
  "va_rep m g c vs \<longleftrightarrow> vmem_ok m g \<and> vs \<noteq> [] \<and> distinct (map ver_addr vs) \<and> vseg (vm_heap m) (va_vhead c) vs"

lemma va_vhead_clean: "va_rep m g c vs \<Longrightarrow> tp_unset_mark (va_vhead c) = va_vhead c"
  by (cases vs) (auto simp: va_rep_def tp_defs)

lemma va_rep_new:
  assumes "vmem_ok m g" and "VersionedArray_new key value m = (c, m')"
  shows "va_rep m' g c [(vm_brk m, value, - 1)] \<and> va_key c = key \<and> vm_tracker m' = vm_tracker m"
proof -
  obtain p m1 where p: "Vnode_new value null_ptr m = (p, m1)" by (cases "Vnode_new value null_ptr m")
  then show ?thesis
    using Vnode_new_spec [of m g null_ptr "[]" "value" p m1] assms by (auto simp: VersionedArray_new_def va_rep_def)
qed

lemma walk_mem:
  assumes "vseg (vm_heap m) p vs" and "version_at ts vs = Some v"
  shows "tp_true (clean (ver_addr v))" and "\<exists>nd. vm_heap m (ver_addr v) = Some nd \<and> vn_value nd = ver_value v"
  using vseg_mem [OF assms(1), of "ver_addr v" "ver_value v" "ver_ts v"] version_at_mem [OF assms(2)]
  by (auto simp: tp_true_def)

lemma va_insert_spec:
  assumes "va_rep m g c vs" and "value \<noteq> ver_value (hd vs)"
  shows "\<exists>c' m'. va_insert c value m = Inr (False, c', m') \<and> va_key c' = va_key c
    \<and> va_rep m' g c' ((vm_brk m, value, g) # stamp g vs) \<and> vframe m m' (ver_addr ` set vs)"
proof -
  have r: "vseg (vm_heap m) (va_vhead c) vs" "vs \<noteq> []" "vmem_ok m g" "distinct (map ver_addr vs)"
    using assms(1) by (auto simp: va_rep_def)
  obtain m1 where m1: "vread (va_vhead c) m = Inr (ver_value (hd vs), m1)" "vseg (vm_heap m1) (va_vhead c) (stamp g vs)"
      "vmem_ok m1 g" "vframe m m1 (ver_addr ` set vs)" "vm_brk m1 = vm_brk m"
    using vread_spec [OF r] by blast
  have d: "distinct (map ver_addr (stamp g vs))" using r(4) by simp
  have st: "stamp g (stamp g vs) = stamp g vs" by (cases vs) auto
  obtain q m2 where m2: "vCAS (va_vhead c) (ver_value (hd vs)) value m1 = Inr (True, q, m2)"
      "vseg (vm_heap m2) q (push_version (vm_brk m1) value g (stamp g vs))" "vmem_ok m2 g"
      "vframe m1 m2 (ver_addr ` set vs)" "vm_brk m1 \<notin> ver_addr ` set vs"
    using vCAS_spec [OF m1(2) _ m1(3) d, of "value"] assms(2) r(2) by auto
  then have "va_insert c value m = Inr (False, c\<lparr>va_vhead := q\<rparr>, m2)"
    using m1 assms(2) by (simp add: va_insert_def va_read_def va_vCAS_def)
  moreover have "va_rep m2 g (c\<lparr>va_vhead := q\<rparr>) ((vm_brk m, value, g) # stamp g vs)"
    using m2 m1(5) d st by (auto simp: va_rep_def push_version_def)
  moreover have "vframe m m2 (ver_addr ` set vs)" using vframe_trans m1(4) m2(4) by blast
  ultimately show ?thesis by (intro exI [of _ "c\<lparr>va_vhead := q\<rparr>"] exI [of _ m2]) simp
qed

text \<open>Updating a cell whose value differs adds a version stamped with the latest timestamp in front
  of the old ones, which stay as they are (the head is stamped if it was not yet), and nothing outside
  the chain changes; but the answer is false, as it is when the value was there already.\<close>

theorem va_insert_correct:
  assumes "va_rep m g c vs" and "value \<noteq> ver_value (hd vs)"
  shows "\<exists>c' m'. va_insert c value m = Inr (False, c', m') \<and> va_key c' = va_key c
    \<and> va_rep m' g c' ((vm_brk m, value, g) # stamp g vs) \<and> vframe m m' (ver_addr ` set vs)"
  by (rule va_insert_spec [OF assms])

definition cell_ex :: VersionedArray where
  "cell_ex = fst (VersionedArray_new 10 5 vmem_new)"

definition mem_ex :: vmem where
  "mem_ex = snd (VersionedArray_new 10 5 vmem_new)"

lemma cell_ex_rep: "va_rep mem_ex 0 cell_ex [(1, 5, - 1)]"
proof -
  have "VersionedArray_new 10 5 vmem_new = (cell_ex, mem_ex)" by (simp add: cell_ex_def mem_ex_def)
  from va_rep_new [OF vmem_ok_new this] show ?thesis by (simp add: vmem_new_def)
qed

theorem va_insert_correct_witness:
  "\<exists>c' m'. va_insert cell_ex 7 mem_ex = Inr (False, c', m') \<and> va_rep m' 0 c' [(vm_brk mem_ex, 7, 0), (1, 5, 0)]"
  using va_insert_correct [OF cell_ex_rep, of 7] by auto

lemma getVersionedValue_spec:
  assumes "va_rep m g c vs"
  shows "\<exists>m'. getVersionedValue c ts m = Inr (case value_at ts (stamp g vs) of None \<Rightarrow> - 1 | Some v \<Rightarrow> v, m')
    \<and> va_rep m' g c (stamp g vs) \<and> vframe m m' (ver_addr ` set vs)"
proof -
  have r: "vseg (vm_heap m) (va_vhead c) vs" "vs \<noteq> []" "vmem_ok m g" "distinct (map ver_addr vs)"
    using assms(1) by (auto simp: va_rep_def)
  obtain m1 where m1: "init_ts (va_vhead c) m = Inr m1" "vseg (vm_heap m1) (va_vhead c) (stamp g vs)" "vmem_ok m1 g"
      "vframe m m1 (ver_addr ` set vs)"
    using init_ts_frame [OF r] by blast
  have "length (stamp g vs) < Suc (vm_brk m1)" using vseg_length [OF m1(2,3)] r(4) by simp
  note walk = walk_versions_spec [OF m1(2) this, of ts]
  have "getVersionedValue c ts m = Inr (case value_at ts (stamp g vs) of None \<Rightarrow> - 1 | Some v \<Rightarrow> v, m1)"
  proof (cases "version_at ts (stamp g vs)")
    case None
    then show ?thesis using m1(1) walk va_vhead_clean [OF assms] by (simp add: getVersionedValue_def value_at_def tp_true_def)
  next
    case (Some v)
    then show ?thesis
      using m1(1) walk va_vhead_clean [OF assms] walk_mem [OF m1(2) Some]
      by (auto simp: getVersionedValue_def value_at_def)
  qed
  then show ?thesis using m1 r by (auto simp: va_rep_def)
qed

text \<open>A range query with timestamp \<open>ts\<close> reads from a cell the newest version stamped before \<open>ts\<close>
  (after the head was stamped with the latest timestamp if it had none), -1 when there is none or it
  is a deletion; only the stamp of the head changes.\<close>

theorem getVersionedValue_correct:
  assumes "va_rep m g c vs"
  shows "\<exists>m'. getVersionedValue c ts m = Inr (case value_at ts (stamp g vs) of None \<Rightarrow> - 1 | Some v \<Rightarrow> v, m')
    \<and> va_rep m' g c (stamp g vs) \<and> vframe m m' (ver_addr ` set vs)"
  by (rule getVersionedValue_spec [OF assms])

theorem getVersionedValue_correct_witness:
  "\<exists>m'. getVersionedValue cell_ex 1 mem_ex = Inr (5, m')"
  using getVersionedValue_correct [OF cell_ex_rep, of 1] by (auto simp: value_at_def)

text \<open>The first range query does not see the trained value of a cell that nothing has looked at
  before: its version has no timestamp yet, gets the latest one, which is the query's own, and is
  skipped as too new.\<close>

theorem first_query_misses_untouched_cell:
  assumes "VersionedArray_new key value m = (c, m1)" and "vmem_ok m g" and "add_timestamp (vm_tracker m1) = Inr (a, tr)"
    and "get_latest_timestamp tr = Inr ts" and "0 \<le> ts"
  shows "\<exists>m2. getVersionedValue c ts (m1\<lparr>vm_tracker := tr\<rparr>) = Inr (- 1, m2) \<and> getValue c m2 = Inr value"
proof -
  have "va_rep m1 g c [(vm_brk m, value, - 1)]" using va_rep_new [OF assms(2,1)] by simp
  then have rep: "va_rep (m1\<lparr>vm_tracker := tr\<rparr>) ts c [(vm_brk m, value, - 1)]"
    using assms(4,5) by (auto simp: va_rep_def vmem_ok_def)
  then obtain m2 where "getVersionedValue c ts (m1\<lparr>vm_tracker := tr\<rparr>) = Inr (- 1, m2)"
      "va_rep m2 ts c (stamp ts [(vm_brk m, value, - 1)])"
    using getVersionedValue_spec [OF rep, of ts] by (auto simp: value_at_def)
  then show ?thesis by (auto simp: va_rep_def getValue_def)
qed

theorem first_query_misses_untouched_cell_witness:
  "\<exists>a tr ts m2. add_timestamp TrackerList_new = Inr (a, tr) \<and> get_latest_timestamp tr = Inr ts
    \<and> getVersionedValue cell_ex ts (mem_ex\<lparr>vm_tracker := tr\<rparr>) = Inr (- 1, m2) \<and> getValue cell_ex m2 = Inr 5"
proof -
  have new: "VersionedArray_new 10 5 vmem_new = (cell_ex, mem_ex)" by (simp add: cell_ex_def mem_ex_def)
  have "vm_tracker mem_ex = TrackerList_new" using va_rep_new [OF vmem_ok_new new] by (simp add: vmem_new_def)
  moreover have "tchain TrackerList_new [2]" using tinv_init by (simp add: tinv_def tsys_init_def)
  then obtain a tr nd where "add_timestamp TrackerList_new = Inr (a, tr)" "tl_tail tr = a" "tl_heap tr a = Some nd"
      "tn_ts nd = 1"
    using add_timestamp_returns [of TrackerList_new "[2]"] by auto
  ultimately show ?thesis
    using first_query_misses_untouched_cell [OF new vmem_ok_new, of a tr 1]
    by (auto simp: get_latest_timestamp_def tl_load_def)
qed

end
