(* ===== verification/Uruv_LL.thy ===== *)
theory Uruv_LL
  imports Versions
begin

text \<open>
  The versioned list of the range-query variant: \<open>Kanva_RS/Uruv/LF_LL.h\<close>, with its node type from
  \<open>Kanva_RS/Uruv/util.h\<close>.

  A bin of \<open>Kanva_RS\<close> is one sorted list between two sentinels; a node holds a chain of versions.
  Nothing is ever unlinked: a removal adds the version -1. A list with ten keys refuses updates, and
  its owner collects it (freezing the \<open>next\<close> words), builds a node from the keys and their chains
  and retires the list. The operations pass the list and the version store; the store of list nodes
  is part of the list. As in the other list, operations run as one thread executes them, loops take
  fuel: \<open>rl_brk\<close> units are enough for a walk, and one for a loop around a compare-exchange. The record managers appear as allocation of a new address
  and as the lists of retired addresses; \<open>getGuard\<close> and the randomised sleep of experiments have no
  effect on the state.

  \<open>rl_rep\<close> is the representation invariant, \<open>av_insert\<close>, \<open>av_search\<close> and \<open>av_range\<close> the specification
  on a sorted association list from keys to versions.
\<close>

section \<open>Nodes and lists\<close>

record rl_Node =
  rn_key :: key_t
  rn_vhead :: tptr
  rn_next :: tptr
  rn_del :: int

record RList =
  rl_head :: addr
  rl_size :: nat
  rl_isReclaimed :: bool
  rl_heap :: "addr \<rightharpoonup> rl_Node"
  rl_brk :: addr
  rl_retired :: "addr list"

definition rl_load :: "RList \<Rightarrow> addr \<Rightarrow> rl_Node res" where
  "rl_load l a = (case rl_heap l a of None \<Rightarrow> Inl NullDeref | Some nd \<Rightarrow> Inr nd)"

definition rl_deref :: "RList \<Rightarrow> tptr \<Rightarrow> rl_Node res" where
  "rl_deref l p = (if tp_mark p \<or> tp_freeze p then Inl NullDeref else rl_load l (tp_addr p))"

definition rl_set :: "RList \<Rightarrow> addr \<Rightarrow> rl_Node \<Rightarrow> RList" where
  "rl_set l a nd = l\<lparr>rl_heap := (rl_heap l)(a \<mapsto> nd)\<rparr>"

text \<open>\<open>allocate\<close> and \<open>init\<close>.\<close>

definition rl_Node_init :: "key_t \<Rightarrow> val_t \<Rightarrow> RList \<times> vmem \<Rightarrow> addr \<times> RList \<times> vmem" where
  "rl_Node_init key val lm =
     (let (l, m) = lm; (temp, m1) = Vnode_new val null_ptr m in
      (rl_brk l,
       l\<lparr>rl_heap := (rl_heap l)(rl_brk l \<mapsto> \<lparr>rn_key = key, rn_vhead = temp, rn_next = null_ptr, rn_del = 0\<rparr>),
         rl_brk := Suc (rl_brk l)\<rparr>, m1))"

definition RList_new :: "vmem \<Rightarrow> RList \<times> vmem" where
  "RList_new m =
     (let l0 = \<lparr>rl_head = 0, rl_size = 0, rl_isReclaimed = False, rl_heap = Map.empty, rl_brk = 1, rl_retired = []\<rparr>;
          (mx, l1, m1) = rl_Node_init key_max 0 (l0, m);
          (mn, l2, m2) = rl_Node_init 0 0 (l1, m1)
      in (case rl_heap l2 mn of None \<Rightarrow> l2
          | Some nd \<Rightarrow> (rl_set l2 mn (nd\<lparr>rn_next := clean mx\<rparr>))\<lparr>rl_head := mn\<rparr>, m2))"

section \<open>Operations\<close>

definition rl_read :: "addr \<Rightarrow> RList \<times> vmem \<Rightarrow> (val_t \<times> RList \<times> vmem) res" where
  "rl_read a lm =
     bind_res (rl_load (fst lm) a) (\<lambda>nd.
     bind_res (vread (rn_vhead nd) (snd lm)) (\<lambda>(v, m'). Inr (v, fst lm, m')))"

definition rl_vCAS :: "addr \<Rightarrow> val_t \<Rightarrow> val_t \<Rightarrow> RList \<times> vmem \<Rightarrow> (bool \<times> RList \<times> vmem) res" where
  "rl_vCAS a old_value new_value lm =
     bind_res (rl_load (fst lm) a) (\<lambda>nd.
     bind_res (vCAS (rn_vhead nd) old_value new_value (snd lm)) (\<lambda>(ok, vh, m').
       Inr (ok, rl_set (fst lm) a (nd\<lparr>rn_vhead := vh\<rparr>), m')))"

definition rl_cas_next :: "RList \<Rightarrow> addr \<Rightarrow> tptr \<Rightarrow> tptr \<Rightarrow> (bool \<times> RList) res" where
  "rl_cas_next l a expected desired =
     bind_res (rl_load l a) (\<lambda>nd.
       Inr (if rn_next nd = expected then (True, rl_set l a (nd\<lparr>rn_next := desired\<rparr>)) else (False, l)))"

fun rl_find_inner :: "nat \<Rightarrow> key_t \<Rightarrow> RList \<Rightarrow> addr \<Rightarrow> addr \<Rightarrow> (addr option \<times> addr) res" where
  "rl_find_inner 0 key l left right = Inl OutOfFuel"
| "rl_find_inner (Suc n) key l left right =
     bind_res (rl_load l right) (\<lambda>rn.
       if tp_freeze (rn_next rn) then Inr (None, left)
       else if key \<le> rn_key rn then Inr (Some right, left)
       else rl_find_inner n key l right (tp_addr (tp_unset_mark (rn_next rn))))"

definition rl_find :: "key_t \<Rightarrow> RList \<Rightarrow> (addr option \<times> addr) res" where
  "rl_find key l =
     bind_res (rl_load l (rl_head l)) (\<lambda>hd.
       if tp_freeze (rn_next hd) then Inr (None, rl_head l)
       else rl_find_inner (rl_brk l) key l (rl_head l) (tp_addr (tp_unset_freeze_mark (rn_next hd))))"

text \<open>The update of the versions of a node that is there.\<close>

fun rl_update_loop :: "nat \<Rightarrow> addr \<Rightarrow> val_t \<Rightarrow> RList \<times> vmem \<Rightarrow> (int \<times> RList \<times> vmem) res" where
  "rl_update_loop 0 right_node val lm = Inl OutOfFuel"
| "rl_update_loop (Suc n) right_node val lm =
     bind_res (rl_read right_node lm) (\<lambda>(curr_value, lm1).
       if curr_value = val then Inr (0, lm1)
       else bind_res (rl_vCAS right_node curr_value val lm1) (\<lambda>(ok, lm2).
         if ok then Inr (0, lm2)
         else bind_res (rl_load (fst lm2) right_node) (\<lambda>nd.
           if tp_mark (rn_vhead nd) then Inr (- 1, lm2) else rl_update_loop n right_node val lm2)))"

fun rl_insert_loop :: "nat \<Rightarrow> key_t \<Rightarrow> val_t \<Rightarrow> RList \<times> vmem \<Rightarrow> (int \<times> RList \<times> vmem) res" where
  "rl_insert_loop 0 key val lm = Inl OutOfFuel"
| "rl_insert_loop (Suc n) key val lm =
     bind_res (rl_find key (fst lm)) (\<lambda>(right, prev_node).
       case right of None \<Rightarrow> Inr (- 1, lm)
       | Some right_node \<Rightarrow>
           bind_res (rl_load (fst lm) right_node) (\<lambda>rn.
             if rn_key rn = key then rl_update_loop 1 right_node val lm
             else if val = tombstone then Inr (0, lm)
             else
               let (new_node, l1, m1) = rl_Node_init key val lm in
               bind_res (rl_load l1 new_node) (\<lambda>nn.
               let l2 = rl_set l1 new_node (nn\<lparr>rn_next := clean right_node\<rparr>) in
               bind_res (rl_cas_next l2 prev_node (clean right_node) (clean new_node)) (\<lambda>(ok, l3).
                 if ok then
                   bind_res (init_ts (rn_vhead nn) m1) (\<lambda>m2. Inr (1, l3\<lparr>rl_size := rl_size l3 + 1\<rparr>, m2))
                 else rl_insert_loop n key val (l3, m1)))))"

definition threshhold :: nat where
  "threshhold = 10"

definition rl_insert :: "key_t \<Rightarrow> val_t \<Rightarrow> RList \<times> vmem \<Rightarrow> (int \<times> RList \<times> vmem) res" where
  "rl_insert key val lm =
     (if threshhold \<le> rl_size (fst lm) then Inr (- 2, lm) else rl_insert_loop 1 key val lm)"

definition rl_remove :: "key_t \<Rightarrow> RList \<times> vmem \<Rightarrow> (int \<times> RList \<times> vmem) res" where
  "rl_remove key lm = rl_insert key tombstone lm"

fun rl_search_loop :: "nat \<Rightarrow> key_t \<Rightarrow> val_t \<Rightarrow> RList \<times> vmem \<Rightarrow> addr \<Rightarrow> bool res" where
  "rl_search_loop 0 key val lm cur = Inl OutOfFuel"
| "rl_search_loop (Suc n) key val lm cur =
     bind_res (rl_load (fst lm) cur) (\<lambda>nd.
       if rn_key nd < key then rl_search_loop n key val lm (tp_addr (tp_unset_freeze_mark (rn_next nd)))
       else if rn_key nd = key then
         bind_res (vn_load (snd lm) (rn_vhead nd)) (\<lambda>vn.
           Inr (vn_value vn = val \<and> \<not> tp_mark (rn_next nd)))
       else Inr False)"

definition rl_search :: "key_t \<Rightarrow> val_t \<Rightarrow> RList \<times> vmem \<Rightarrow> bool res" where
  "rl_search key val lm = rl_search_loop (rl_brk (fst lm)) key val lm (rl_head (fst lm))"

text \<open>\<open>collect\<close>: one node is frozen with its \<open>next\<close> word first; the test that guards the freezing of
  \<open>vhead\<close> is on the same word again.\<close>

definition rl_freeze_node :: "RList \<Rightarrow> addr \<Rightarrow> RList res" where
  "rl_freeze_node l a =
     bind_res (rl_load l a) (\<lambda>nd.
     bind_res (if \<not> tp_freeze (rn_next nd)
               then bind_res (rl_cas_next l a (rn_next nd) (tp_set_freeze (rn_next nd))) (\<lambda>(_, l'). Inr l')
               else Inr l) (\<lambda>l1.
     bind_res (rl_load l1 a) (\<lambda>nd1.
       if \<not> tp_freeze (rn_next nd1)
       then Inr (rl_set l1 a (nd1\<lparr>rn_vhead := tp_set_freeze (rn_vhead nd1)\<rparr>)) else Inr l1)))"

fun rl_collect_loop :: "nat \<Rightarrow> RList \<Rightarrow> tptr \<Rightarrow> (key_t \<times> tptr) list \<Rightarrow> (bool \<times> (key_t \<times> tptr) list \<times> RList) res" where
  "rl_collect_loop 0 l left acc = Inl OutOfFuel"
| "rl_collect_loop (Suc n) l left acc =
     bind_res (rl_deref l left) (\<lambda>nd0.
       if \<not> tp_true (tp_unset_mark (rn_next nd0)) then Inr (True, acc, l)
       else
         bind_res (rl_freeze_node l (tp_addr left)) (\<lambda>l1.
         bind_res (rl_load l1 (tp_addr left)) (\<lambda>nd.
           if rl_isReclaimed l1 then Inr (False, acc, l1)
           else rl_collect_loop n l1 (tp_unset_freeze (rn_next nd))
                  (acc @ [(rn_key nd, tp_unset_mark (rn_vhead nd))]))))"

definition rl_collect :: "RList \<Rightarrow> (bool \<times> (key_t \<times> tptr) list \<times> RList) res" where
  "rl_collect l =
     (if rl_isReclaimed l then Inr (False, [], l)
      else
        bind_res (rl_freeze_node l (rl_head l)) (\<lambda>l1.
        bind_res (rl_load l1 (rl_head l)) (\<lambda>nd.
          rl_collect_loop (rl_brk l) l1 (tp_unset_freeze (rn_next nd)) [])))"

text \<open>\<open>range_query\<close>: pointers are stripped of both flags; the walk skips to the lower bound first.\<close>

fun rl_skip :: "nat \<Rightarrow> key_t \<Rightarrow> RList \<Rightarrow> addr \<Rightarrow> addr \<Rightarrow> (addr \<times> addr) res" where
  "rl_skip 0 low l left nxt = Inl OutOfFuel"
| "rl_skip (Suc n) low l left nxt =
     (if nxt = 0 then Inr (left, nxt)
      else bind_res (rl_load l left) (\<lambda>nd.
        if rn_key nd < low then
          bind_res (rl_load l nxt) (\<lambda>nn. rl_skip n low l nxt (tp_addr (tp_unset_freeze_mark (rn_next nn))))
        else Inr (left, nxt)))"

fun rl_range_loop ::
    "nat \<Rightarrow> int \<Rightarrow> int \<Rightarrow> RList \<Rightarrow> vmem \<Rightarrow> addr \<Rightarrow> addr \<Rightarrow> (key_t \<times> val_t) list
      \<Rightarrow> (int \<times> (key_t \<times> val_t) list \<times> vmem) res" where
  "rl_range_loop 0 remaining curr_ts l m left nxt acc = Inl OutOfFuel"
| "rl_range_loop (Suc n) remaining curr_ts l m left nxt acc =
     (if nxt = 0 \<or> remaining \<le> 0 then Inr (remaining, acc, m)
      else
        bind_res (rl_load l left) (\<lambda>nd.
        let p = tp_unset_freeze_mark (rn_vhead nd) in
        bind_res (init_ts p m) (\<lambda>m1.
        bind_res (walk_versions (Suc (vm_brk m1)) p curr_ts m1) (\<lambda>q.
        bind_res (if tp_true q then bind_res (vn_load m1 q) (\<lambda>vn. Inr (Some (vn_value vn))) else Inr None) (\<lambda>found.
          let hit = (found \<noteq> None \<and> found \<noteq> Some tombstone);
              acc1 = (case found of Some v \<Rightarrow> if v \<noteq> tombstone then acc @ [(rn_key nd, v)] else acc | None \<Rightarrow> acc);
              remaining1 = (if hit then remaining - 1 else remaining) in
          if hit \<and> remaining1 \<le> 0 then Inr (remaining1, acc1, m1)
          else bind_res (rl_load l nxt) (\<lambda>nn.
            rl_range_loop n remaining1 curr_ts l m1 nxt (tp_addr (tp_unset_freeze_mark (rn_next nn))) acc1))))))"

definition rl_range_query ::
    "key_t \<Rightarrow> int \<Rightarrow> int \<Rightarrow> (key_t \<times> val_t) list \<Rightarrow> RList \<times> vmem \<Rightarrow> (int \<times> (key_t \<times> val_t) list \<times> RList \<times> vmem) res" where
  "rl_range_query low remaining curr_ts acc lm =
     (let (l, m) = lm in
      bind_res (rl_load l (rl_head l)) (\<lambda>hd.
      let left = tp_addr (tp_unset_freeze_mark (rn_next hd)) in
      bind_res (rl_load l left) (\<lambda>nd.
      bind_res (rl_skip (rl_brk l) low l left (tp_addr (tp_unset_freeze_mark (rn_next nd)))) (\<lambda>(left, nxt).
      bind_res (rl_range_loop (rl_brk l) remaining curr_ts l m left nxt acc) (\<lambda>(r, acc', m').
        Inr (to_i32 r, acc', l, m'))))))"

text \<open>\<open>reclaimMem\<close>: the versions behind the head of a chain that are not newer than the threshold, and
  every list node, are handed to the record manager.\<close>

fun retire_versions :: "nat \<Rightarrow> int \<Rightarrow> tptr \<Rightarrow> vmem \<Rightarrow> vmem res" where
  "retire_versions 0 tstamp_threshold left_vnode m = Inl OutOfFuel"
| "retire_versions (Suc n) tstamp_threshold left_vnode m =
     bind_res (vn_load m left_vnode) (\<lambda>vn.
       let cur = tp_unset_freeze (vn_nextv vn) in
       if \<not> tp_true cur then Inr m
       else bind_res (vn_load m cur) (\<lambda>cn.
         retire_versions n tstamp_threshold cur
           (if vn_ts cn \<le> tstamp_threshold then m\<lparr>vm_retired := vm_retired m @ [tp_addr cur]\<rparr> else m)))"

fun rl_reclaim_loop :: "nat \<Rightarrow> int \<Rightarrow> RList \<times> vmem \<Rightarrow> tptr \<Rightarrow> (RList \<times> vmem) res" where
  "rl_reclaim_loop 0 tstamp_threshold lm left = Inl OutOfFuel"
| "rl_reclaim_loop (Suc n) tstamp_threshold lm left =
     bind_res (rl_deref (fst lm) left) (\<lambda>nd.
       if \<not> tp_true (tp_unset_mark (rn_next nd)) then Inr lm
       else assert_res (tp_freeze (rn_next nd))
         (bind_res (retire_versions (Suc (vm_brk (snd lm))) tstamp_threshold (tp_unset_mark (rn_vhead nd)) (snd lm)) (\<lambda>m1.
            rl_reclaim_loop n tstamp_threshold
              ((fst lm)\<lparr>rl_retired := rl_retired (fst lm) @ [tp_addr left]\<rparr>, m1) (tp_unset_freeze (rn_next nd)))))"

definition rl_reclaimMem :: "int \<Rightarrow> RList \<times> vmem \<Rightarrow> (RList \<times> vmem) res" where
  "rl_reclaimMem tstamp_threshold lm =
     bind_res (rl_load (fst lm) (rl_head (fst lm))) (\<lambda>nd.
       assert_res (tp_freeze (rn_next nd))
        (rl_reclaim_loop (rl_brk (fst lm)) tstamp_threshold lm (tp_unset_freeze (rn_next nd))))"

end
