(* ===== verification/Uruv_Spec.thy ===== *)
theory Uruv_Spec
  imports Uruv_LL
begin

text \<open>
  Correctness of the versioned list (\<open>Uruv_LL\<close>).

  \<open>nseg\<close> relates a stretch of the node store to the nodes on it, \<open>rl_rep f l m g ns\<close> says that the
  list \<open>l\<close> with the version store \<open>m\<close> holds the nodes \<open>ns\<close> (address, key, head word of the chain,
  versions), frozen or not, while the tracker's latest timestamp is \<open>g\<close>. \<open>rl_abs\<close> forgets the
  addresses. The specification works on the sorted association list from keys to versions.
\<close>

section \<open>Representation\<close>

type_synonym rnode = "addr \<times> key_t \<times> tptr \<times> version list"

abbreviation rd_addr :: "rnode \<Rightarrow> addr" where "rd_addr n \<equiv> fst n"
abbreviation rd_key :: "rnode \<Rightarrow> key_t" where "rd_key n \<equiv> fst (snd n)"
abbreviation rd_ptr :: "rnode \<Rightarrow> tptr" where "rd_ptr n \<equiv> fst (snd (snd n))"
abbreviation rd_vers :: "rnode \<Rightarrow> version list" where "rd_vers n \<equiv> snd (snd (snd n))"

fun nseg :: "bool \<Rightarrow> (addr \<rightharpoonup> rl_Node) \<Rightarrow> addr \<Rightarrow> rnode list \<Rightarrow> addr \<Rightarrow> bool" where
  "nseg f h a [] t \<longleftrightarrow> a = t"
| "nseg f h a ((a', k, p, vs) # ns) t \<longleftrightarrow>
     a = a' \<and> (\<exists>b. h a = Some \<lparr>rn_key = k, rn_vhead = p, rn_next = TP b False f, rn_del = 0\<rparr> \<and> nseg f h b ns t)"

definition node_ok :: "(addr \<rightharpoonup> Vnode) \<Rightarrow> rnode \<Rightarrow> bool" where
  "node_ok vh n \<longleftrightarrow> rd_vers n \<noteq> [] \<and> vseg vh (rd_ptr n) (rd_vers n) \<and> (\<forall>v \<in> set (rd_vers n). 0 \<le> ver_ts v)"

definition ver_addrs :: "rnode \<Rightarrow> addr list" where
  "ver_addrs n = map ver_addr (rd_vers n)"

definition rl_tail :: "(addr \<rightharpoonup> rl_Node) \<Rightarrow> addr \<Rightarrow> bool" where
  "rl_tail h t \<longleftrightarrow> 0 < t \<and> (\<exists>p. h t = Some \<lparr>rn_key = key_max, rn_vhead = p, rn_next = null_ptr, rn_del = 0\<rparr>)"

definition rl_rep :: "bool \<Rightarrow> RList \<Rightarrow> vmem \<Rightarrow> int \<Rightarrow> rnode list \<Rightarrow> bool" where
  "rl_rep f l m g ns \<longleftrightarrow> (\<exists>t hp.
     nseg f (rl_heap l) (rl_head l) ((rl_head l, 0, hp, []) # ns) t \<and> rl_tail (rl_heap l) t
     \<and> distinct (t # rl_head l # map rd_addr ns) \<and> 0 \<notin> set (map rd_addr ns)
     \<and> ssorted (map rd_key ns) \<and> (\<forall>n \<in> set ns. rd_key n < key_max)
     \<and> dom (rl_heap l) \<subseteq> {1..<rl_brk l} \<and> rl_size l = length ns
     \<and> (\<forall>n \<in> set ns. node_ok (vm_heap m) n) \<and> distinct (concat (map ver_addrs ns)) \<and> vmem_ok m g)"

type_synonym alist = "(key_t \<times> (val_t \<times> int) list) list"

definition rl_abs :: "rnode list \<Rightarrow> alist" where
  "rl_abs ns = map (\<lambda>n. (rd_key n, map snd (rd_vers n))) ns"

section \<open>Specification\<close>

definition av_insert :: "key_t \<Rightarrow> val_t \<Rightarrow> int \<Rightarrow> alist \<Rightarrow> int \<times> alist" where
  "av_insert key val g al =
     (if threshhold \<le> length al then (- 2, al)
      else case map_of al key of
        Some vs \<Rightarrow> (0, if fst (hd vs) = val then al
                       else map (\<lambda>(k, ws). (k, if k = key then (val, g) # ws else ws)) al)
      | None \<Rightarrow>
          if val = tombstone then (0, al)
          else (1, takeWhile (\<lambda>kv. fst kv < key) al @ (key, [(val, g)]) # dropWhile (\<lambda>kv. fst kv < key) al))"

definition av_search :: "key_t \<Rightarrow> val_t \<Rightarrow> alist \<Rightarrow> bool" where
  "av_search key val al = (case map_of al key of None \<Rightarrow> False | Some vs \<Rightarrow> fst (hd vs) = val)"

text \<open>The versions before \<open>ts\<close> of the keys from \<open>low\<close> on.\<close>

fun at_ts :: "int \<Rightarrow> (val_t \<times> int) list \<Rightarrow> val_t option" where
  "at_ts ts [] = None"
| "at_ts ts ((v, t) # vs) = (if ts \<le> t then at_ts ts vs else if v = tombstone then None else Some v)"

definition av_range :: "key_t \<Rightarrow> int \<Rightarrow> alist \<Rightarrow> (key_t \<times> val_t) list" where
  "av_range low ts al =
     List.map_filter (\<lambda>(k, vs). map_option (Pair k) (at_ts ts vs)) (dropWhile (\<lambda>kv. fst kv < low) al)"

lemma at_ts_value_at: "at_ts ts (map snd vs) = value_at ts vs"
  by (induction vs) (auto simp: value_at_def)

section \<open>Segments\<close>

lemma nseg_append: "nseg f h a (xs @ ys) t \<longleftrightarrow> (\<exists>b. nseg f h a xs b \<and> nseg f h b ys t)"
  by (induction f h a xs t rule: nseg.induct) auto

lemma nseg_upd [simp]: "c \<notin> rd_addr ` set ns \<Longrightarrow> nseg f (h(c := x)) a ns t = nseg f h a ns t"
  by (induction f h a ns t rule: nseg.induct) auto

lemma nseg_alloc: "nseg f h a ns t \<Longrightarrow> c \<in> rd_addr ` set ns \<Longrightarrow> c \<in> dom h"
  by (induction f h a ns t rule: nseg.induct) auto

definition rstart :: "rnode list \<Rightarrow> addr \<Rightarrow> addr" where
  "rstart ns t = (case ns of [] \<Rightarrow> t | n # _ \<Rightarrow> rd_addr n)"

lemma nseg_start: "nseg f h a ns t \<Longrightarrow> a = rstart ns t"
  by (cases ns) (auto simp: rstart_def)

lemma nseg_node:
  assumes "nseg f h a (xs @ (b, k, p, vs) # ys) t"
  shows "h b = Some \<lparr>rn_key = k, rn_vhead = p, rn_next = TP (rstart ys t) False f, rn_del = 0\<rparr>"
  using assms by (auto simp: nseg_append dest: nseg_start)

lemma nseg_relink:
  assumes "nseg f h a (xs @ [(b, k, p, vs)]) r" and "b \<notin> rd_addr ` set xs"
  shows "nseg f (h(b \<mapsto> \<lparr>rn_key = k, rn_vhead = p, rn_next = TP c False f, rn_del = 0\<rparr>)) a (xs @ [(b, k, p, vs)]) c"
  using assms by (auto simp: nseg_append)

lemma rl_rep_fuel:
  assumes "rl_rep f l m g ns"
  shows "length ns + 2 < rl_brk l"
proof -
  obtain t hp where s: "nseg f (rl_heap l) (rl_head l) ((rl_head l, 0, hp, []) # ns) t" "rl_tail (rl_heap l) t"
      "distinct (t # rl_head l # map rd_addr ns)" "dom (rl_heap l) \<subseteq> {1..<rl_brk l}"
    using assms unfolding rl_rep_def by blast
  have "a \<in> dom (rl_heap l)" if "a \<in> set (t # rl_head l # map rd_addr ns)" for a
    using nseg_alloc [OF s(1), of a] s(2) that by (auto simp: rl_tail_def)
  then have "set (t # rl_head l # map rd_addr ns) \<subseteq> {1..<rl_brk l}" using s(4) by blast
  then have "card (set (t # rl_head l # map rd_addr ns)) \<le> card {1..<rl_brk l}" by (intro card_mono) auto
  then have "length ns + 2 \<le> rl_brk l - 1"
    using s(3) by (simp only: distinct_card length_Cons length_map card_atLeastLessThan)
  then show ?thesis by simp
qed

text \<open>The nodes before and from a key on.\<close>

abbreviation before :: "key_t \<Rightarrow> rnode list \<Rightarrow> rnode list" where
  "before key \<equiv> takeWhile (\<lambda>n. rd_key n < key)"

abbreviation from_key :: "key_t \<Rightarrow> rnode list \<Rightarrow> rnode list" where
  "from_key key \<equiv> dropWhile (\<lambda>n. rd_key n < key)"

lemma rl_find_inner_spec:
  assumes "nseg False (rl_heap l) a ns t" and "rl_tail (rl_heap l) t" and "length ns < n"
  shows "rl_find_inner n key l left a =
    Inr (Some (rstart (from_key key ns) t), if before key ns = [] then left else rd_addr (last (before key ns)))"
  using assms
proof (induction ns arbitrary: a left n)
  case Nil
  then obtain n' where "n = Suc n'" by (cases n) auto
  then show ?case using Nil by (auto simp: rl_load_def rl_tail_def rstart_def)
next
  case (Cons nd ns)
  obtain b k p vs where nd: "nd = (b, k, p, vs)" by (cases nd)
  obtain n' where n: "n = Suc n'" "length ns < n'" using Cons.prems(3) by (cases n) auto
  obtain c where c: "a = b" "rl_heap l b = Some \<lparr>rn_key = k, rn_vhead = p, rn_next = TP c False False, rn_del = 0\<rparr>"
      "nseg False (rl_heap l) c ns t"
    using Cons.prems(1) nd by auto
  show ?case
  proof (cases "k < key")
    case True
    then have "\<not> key \<le> k" by simp
    then show ?thesis
      using Cons.IH [OF c(3) Cons.prems(2) n(2), of b] True c(1,2) nd n(1) by (simp add: rl_load_def tp_defs)
  next
    case False
    then have "key \<le> k" by simp
    then show ?thesis using False c nd n(1) by (simp add: rl_load_def rstart_def)
  qed
qed

text \<open>The parts of the representation.\<close>

lemma rl_repE:
  assumes "rl_rep f l m g ns"
  obtains t hp where "nseg f (rl_heap l) (rl_head l) ((rl_head l, 0, hp, []) # ns) t" "rl_tail (rl_heap l) t"
    "distinct (t # rl_head l # map rd_addr ns)" "0 \<notin> set (map rd_addr ns)"
  using assms unfolding rl_rep_def by blast

lemma rl_repD:
  assumes "rl_rep f l m g ns"
  shows "ssorted (map rd_key ns)" "\<forall>n \<in> set ns. rd_key n < key_max" "dom (rl_heap l) \<subseteq> {1..<rl_brk l}"
    "rl_size l = length ns" "\<forall>n \<in> set ns. node_ok (vm_heap m) n" "distinct (concat (map ver_addrs ns))" "vmem_ok m g"
  using assms unfolding rl_rep_def by auto

lemma rl_repI:
  assumes "nseg f (rl_heap l) (rl_head l) ((rl_head l, 0, hp, []) # ns) t" "rl_tail (rl_heap l) t"
    "distinct (t # rl_head l # map rd_addr ns)" "0 \<notin> set (map rd_addr ns)"
    "ssorted (map rd_key ns)" "\<forall>n \<in> set ns. rd_key n < key_max" "dom (rl_heap l) \<subseteq> {1..<rl_brk l}"
    "rl_size l = length ns" "\<forall>n \<in> set ns. node_ok (vm_heap m) n" "distinct (concat (map ver_addrs ns))" "vmem_ok m g"
  shows "rl_rep f l m g ns"
  using assms unfolding rl_rep_def by blast

lemma rl_find_spec:
  assumes rep: "rl_rep False l m g ns"
    and s: "nseg False (rl_heap l) (rl_head l) ((rl_head l, 0, hp, []) # ns) t" "rl_tail (rl_heap l) t"
  shows "rl_find key l = Inr (Some (rstart (from_key key ns) t), rd_addr (last ((rl_head l, 0, hp, []) # before key ns)))"
proof -
  obtain b where b: "rl_heap l (rl_head l) = Some \<lparr>rn_key = 0, rn_vhead = hp, rn_next = TP b False False, rn_del = 0\<rparr>"
      "nseg False (rl_heap l) b ns t"
    using s(1) by auto
  then show ?thesis
    using rl_find_inner_spec [OF b(2) s(2), of "rl_brk l" key "rl_head l"] rl_rep_fuel [OF rep]
    by (auto simp: rl_find_def rl_load_def tp_defs)
qed

lemma frozen_find:
  assumes "rl_rep True l m g ns"
  shows "\<exists>a. rl_find key l = Inr (None, a)"
  using assms unfolding rl_rep_def by (auto simp: rl_find_def rl_load_def)

section \<open>Inserting a new key\<close>

lemma from_key_ge: "ssorted (map rd_key ns) \<Longrightarrow> n \<in> set (from_key key ns) \<Longrightarrow> key \<le> rd_key n"
proof (induction ns)
  case (Cons x ns)
  then show ?case by (auto split: if_splits)
qed simp

lemma before_less: "n \<in> set (before key ns) \<Longrightarrow> rd_key n < key \<and> n \<in> set ns"
  by (meson set_takeWhileD)

lemma nseg_insert:
  assumes seg: "nseg False h a (xs @ (pr, k, p, vs) # ys) t" and d: "distinct (map rd_addr (xs @ (pr, k, p, vs) # ys))"
    and c: "c \<notin> rd_addr ` set (xs @ (pr, k, p, vs) # ys)"
  shows "nseg False (h(c \<mapsto> \<lparr>rn_key = k', rn_vhead = q, rn_next = clean (rstart ys t), rn_del = 0\<rparr>,
      pr \<mapsto> \<lparr>rn_key = k, rn_vhead = p, rn_next = clean c, rn_del = 0\<rparr>)) a
      (xs @ (pr, k, p, vs) # (c, k', q, ws) # ys) t"
  using assms by (auto simp: nseg_append image_Un dest: nseg_start)

lemma concat_ver_less:
  assumes "\<forall>n \<in> set ns. node_ok (vm_heap m) n" and "vmem_ok m g" and "a \<in> set (concat (map ver_addrs ns))"
  shows "a < vm_brk m"
  using assms vseg_less by (fastforce simp: ver_addrs_def node_ok_def)

lemma node_ok_frame:
  assumes "vframe m m' A" and "vmem_ok m g" and "node_ok (vm_heap m) n" and "set (ver_addrs n) \<inter> A = {}"
  shows "node_ok (vm_heap m') n"
  using assms vseg_frame [OF assms(1,2), of "rd_ptr n" "rd_vers n"] by (auto simp: node_ok_def ver_addrs_def)

lemma ssorted_insert_key:
  assumes "ssorted (map rd_key ns)" and "key \<notin> set (map rd_key ns)"
  shows "ssorted (map rd_key (before key ns @ (a, key, p, vs) # from_key key ns))"
proof -
  have "ssorted (map rd_key (before key ns @ from_key key ns))" using assms(1) by simp
  then have srt: "ssorted (map rd_key (before key ns))" "ssorted (map rd_key (from_key key ns))"
    "\<forall>x \<in> set (before key ns). \<forall>y \<in> set (from_key key ns). rd_key x < rd_key y"
    unfolding map_append sorted_wrt_append by auto
  have "key < rd_key n" if n: "n \<in> set (from_key key ns)" for n
  proof -
    have "rd_key n \<noteq> key" using assms(2) set_dropWhileD [OF n] by auto
    then show ?thesis using from_key_ge [OF assms(1) n] by simp
  qed
  then show ?thesis using srt before_less [of _ key ns] by (auto simp: sorted_wrt_append)
qed

lemma distinct_middle:
  "distinct (X @ V @ Y) \<Longrightarrow> distinct W \<Longrightarrow> set W \<subseteq> insert b (set V) \<Longrightarrow> b \<notin> set (X @ V @ Y) \<Longrightarrow> distinct (X @ W @ Y)"
  by auto

lemma ver_addrs_node [simp]: "ver_addrs (a, k, p, vs) = map ver_addr vs"
  by (simp add: ver_addrs_def)

lemma vnode_insert:
  assumes ok: "vmem_ok m g" and al: "Vnode_new val null_ptr m = (p, m1)"
  shows "\<exists>m2. init_ts p m1 = Inr m2 \<and> vframe m m2 {} \<and> vmem_ok m2 g \<and> p = clean (vm_brk m)
    \<and> node_ok (vm_heap m2) (a, key, p, [(vm_brk m, val, g)])"
proof -
  note n = Vnode_new_spec [OF ok _ al, of "[]"]
  obtain m2 where m2: "init_ts p m1 = Inr m2" "vseg (vm_heap m2) p [(vm_brk m, val, g)]" "vmem_ok m2 g"
      "vframe m1 m2 {vm_brk m}"
    using init_ts_frame [of m1 p "[(vm_brk m, val, - 1)]" g] n by auto
  moreover have "vframe m m2 {}" using m2(4) n by (auto simp: vframe_def)
  ultimately show ?thesis using n ok by (auto simp: node_ok_def vmem_ok_def)
qed

lemma rl_insert_new:
  assumes rep: "rl_rep False l m g ns" and room: "length ns < threshhold" and key: "key \<notin> set (map rd_key ns)" "key < key_max"
    and val: "val \<noteq> tombstone"
  shows "\<exists>l' m'. rl_insert key val (l, m) = Inr (1, l', m') \<and> rl_isReclaimed l' = rl_isReclaimed l
    \<and> rl_rep False l' m' g (before key ns @ (rl_brk l, key, clean (vm_brk m), [(vm_brk m, val, g)]) # from_key key ns)"
proof -
  note r = rl_repD [OF rep]
  obtain t hp where s: "nseg False (rl_heap l) (rl_head l) ((rl_head l, 0, hp, []) # ns) t" "rl_tail (rl_heap l) t"
      "distinct (t # rl_head l # map rd_addr ns)" "0 \<notin> set (map rd_addr ns)"
    using rl_repE [OF rep] by blast
  let ?ys = "from_key key ns" and ?right = "rstart (from_key key ns) t" and ?c = "rl_brk l"
  obtain xs pr k p vs where pre: "(rl_head l, 0, hp, []) # before key ns = xs @ [(pr, k, p, vs)]"
    by (metis list.distinct(1) prod_cases4 rev_exhaust)
  then have split: "(rl_head l, 0, hp, []) # ns = xs @ (pr, k, p, vs) # ?ys"
    using takeWhile_dropWhile_id [of "\<lambda>n. rd_key n < key" ns] by (metis append_Cons append_assoc append_Nil)
  have find: "rl_find key l = Inr (Some ?right, pr)" using rl_find_spec [OF rep s(1,2), of key] unfolding pre by simp
  have prn: "rl_heap l pr = Some \<lparr>rn_key = k, rn_vhead = p, rn_next = clean ?right, rn_del = 0\<rparr>"
    using nseg_node s(1) unfolding split by blast
  obtain rn where rn: "rl_heap l ?right = Some rn" "rn_key rn \<noteq> key"
  proof (cases ?ys)
    case Nil
    then show ?thesis using that s(2) key(2) by (auto simp: rl_tail_def rstart_def simp del: dropWhile_eq_Nil_conv)
  next
    case (Cons y ys')
    obtain a1 k1 p1 vs1 where y: "y = (a1, k1, p1, vs1)" by (cases y)
    have "nseg False (rl_heap l) (rl_head l) ((xs @ [(pr, k, p, vs)]) @ (a1, k1, p1, vs1) # ys') t"
      using s(1) unfolding split Cons y by simp
    from nseg_node [OF this] have "rl_heap l a1 = Some \<lparr>rn_key = k1, rn_vhead = p1, rn_next = TP (rstart ys' t) False False, rn_del = 0\<rparr>" .
    moreover have "y \<in> set ns" using Cons by (metis list.set_intros(1) set_dropWhileD)
    then have "rd_key y \<in> set (map rd_key ns)" by simp
    then have "k1 \<noteq> key" using key(1) y by auto
    ultimately show ?thesis using that Cons y by (simp add: rstart_def)
  qed
  have fresh: "?c \<notin> dom (rl_heap l)" using r(3) by auto
  then have c: "?c \<notin> rd_addr ` set ((rl_head l, 0, hp, []) # ns)" "?c \<noteq> t" "?c \<noteq> pr"
    using nseg_alloc [OF s(1), of ?c] s(2) prn by (auto simp: rl_tail_def)
  obtain q m1 where q: "Vnode_new val null_ptr m = (q, m1)" by (cases "Vnode_new val null_ptr m")
  obtain m2 where m2: "init_ts q m1 = Inr m2" "vframe m m2 {}" "vmem_ok m2 g" "q = clean (vm_brk m)"
      "node_ok (vm_heap m2) (?c, key, q, [(vm_brk m, val, g)])"
    using vnode_insert [OF r(7) q] by blast
  define h where "h = (rl_heap l)(?c \<mapsto> \<lparr>rn_key = key, rn_vhead = q, rn_next = clean ?right, rn_del = 0\<rparr>,
      pr \<mapsto> \<lparr>rn_key = k, rn_vhead = p, rn_next = clean ?c, rn_del = 0\<rparr>)"
  define l' where "l' = l\<lparr>rl_heap := h, rl_brk := Suc ?c, rl_size := Suc (rl_size l)\<rparr>"
  have run: "rl_insert key val (l, m) = Inr (1, l', m2)"
    using room r(4) find rn val q prn m2(1) c(3) unfolding rl_insert_def
    by (simp add: rl_load_def rl_Node_init_def rl_cas_next_def rl_set_def Let_def l'_def h_def fun_upd_twist)
  let ?ns = "before key ns @ (?c, key, q, [(vm_brk m, val, g)]) # ?ys"
  have "rl_rep False l' m2 g ?ns"
  proof (rule rl_repI [where t = t and hp = hp])
    have "distinct (map rd_addr (xs @ (pr, k, p, vs) # ?ys))" using s(3) unfolding split [symmetric] by auto
    from nseg_insert [OF _ this, of "rl_heap l" "rl_head l" t ?c key q "[(vm_brk m, val, g)]"] s(1) c(1)
    have "nseg False h (rl_head l) (xs @ (pr, k, p, vs) # (?c, key, q, [(vm_brk m, val, g)]) # ?ys) t"
      unfolding split h_def by simp
    moreover have eq: "(rl_head l, 0, hp, []) # ?ns = xs @ (pr, k, p, vs) # (?c, key, q, [(vm_brk m, val, g)]) # ?ys"
    proof -
      have "(rl_head l, 0, hp, []) # ?ns = ((rl_head l, 0, hp, []) # before key ns) @ (?c, key, q, [(vm_brk m, val, g)]) # ?ys"
        by simp
      then show ?thesis unfolding pre by simp
    qed
    moreover have l': "rl_heap l' = h" "rl_head l' = rl_head l" by (simp_all add: l'_def)
    ultimately show "nseg False (rl_heap l') (rl_head l') ((rl_head l', 0, hp, []) # ?ns) t"
      unfolding l' eq by blast
    have "rd_addr (pr, k, p, vs) \<in> set (map rd_addr ((rl_head l, 0, hp, []) # ns))" unfolding split by simp
    then have "pr \<noteq> t" using s(3) by auto
    then show "rl_tail (rl_heap l') t" using s(2) c(2) by (auto simp: rl_tail_def l'_def h_def)
    obtain bs fs where bf: "before key ns = bs" "?ys = fs" and old: "ns = bs @ fs"
      using takeWhile_dropWhile_id [of "\<lambda>n. rd_key n < key" ns, symmetric] by blast
    have "0 < ?c" using rl_rep_fuel [OF rep] by simp
    show "distinct (t # rl_head l' # map rd_addr ?ns)" using s(3) [unfolded old] c [unfolded old] unfolding bf by (auto simp: l'_def image_Un)
    show "0 \<notin> set (map rd_addr ?ns)" using s(4) [unfolded old] \<open>0 < ?c\<close> unfolding bf by auto
    show "ssorted (map rd_key ?ns)" by (rule ssorted_insert_key [OF r(1) key(1)])
    show "\<forall>n \<in> set ?ns. rd_key n < key_max" using r(2) [unfolded old] key(2) unfolding bf by auto
    have "dom h = insert ?c (insert pr (dom (rl_heap l)))" by (auto simp: h_def)
    moreover have "pr \<in> dom (rl_heap l)" using prn by auto
    ultimately show "dom (rl_heap l') \<subseteq> {1..<rl_brk l'}" using r(3) \<open>0 < ?c\<close> by (auto simp: l'_def subset_iff less_Suc_eq)
    show "rl_size l' = length ?ns" using r(4) [unfolded old] unfolding bf by (simp add: l'_def)
    have "\<forall>n \<in> set ns. node_ok (vm_heap m2) n" using node_ok_frame [OF m2(2) r(7)] r(5) by simp
    from this [unfolded old] show "\<forall>n \<in> set ?ns. node_ok (vm_heap m2) n" using m2(5) unfolding bf by auto
    have vb: "concat (map ver_addrs ns) = concat (map ver_addrs bs) @ [] @ concat (map ver_addrs fs)"
      unfolding bf [symmetric] concat_append [symmetric] map_append [symmetric] append_Nil takeWhile_dropWhile_id ..
    have "vm_brk m \<notin> set (concat (map ver_addrs ns))" using concat_ver_less [OF r(5,7)] by blast
    from distinct_middle [OF r(6) [unfolded vb] _ _ this [unfolded vb], of "[vm_brk m]"]
    have "distinct (concat (map ver_addrs bs) @ [vm_brk m] @ concat (map ver_addrs fs))" by simp
    then show "distinct (concat (map ver_addrs ?ns))" unfolding bf by simp
    show "vmem_ok m2 g" by (rule m2(3))
  qed
  then show ?thesis using run m2(4) by (intro exI [of _ l'] exI [of _ m2]) (simp add: l'_def)
qed

section \<open>Updating a key that is there\<close>

lemma split_at_key:
  assumes "ssorted (map rd_key ns)" and "key \<in> set (map rd_key ns)"
  obtains a p vs ys where "ns = before key ns @ (a, key, p, vs) # ys" "from_key key ns = (a, key, p, vs) # ys"
proof -
  obtain n where n: "n \<in> set ns" "rd_key n = key" using assms(2) by auto
  then have "n \<notin> set (before key ns)" using before_less [of n key ns] by auto
  moreover have "n \<in> set (before key ns @ from_key key ns)" using n(1) by simp
  ultimately have "n \<in> set (from_key key ns)" unfolding set_append by blast
  then obtain y ys where y: "from_key key ns = y # ys" by (cases "from_key key ns") auto
  have "ssorted (map rd_key (before key ns @ from_key key ns))" using assms(1) by simp
  then have "ssorted (map rd_key (y # ys))" unfolding y map_append sorted_wrt_append by simp
  moreover have "key \<le> rd_key y" using from_key_ge [OF assms(1)] y by simp
  ultimately have "rd_key y = key" using \<open>n \<in> set (from_key key ns)\<close> n(2) y by auto
  then have "y = (rd_addr y, key, rd_ptr y, rd_vers y)" by (cases y) simp
  moreover have "ns = before key ns @ y # ys" using takeWhile_dropWhile_id [of "\<lambda>n. rd_key n < key" ns] unfolding y by simp
  ultimately show ?thesis using that y by metis
qed

text \<open>Replacing the chain of one node.\<close>

lemma nseg_set_vhead:
  assumes "nseg f h a (xs @ (b, k, p, vs) # ys) t" and "distinct (map rd_addr (xs @ (b, k, p, vs) # ys))"
    and "h b = Some nd"
  shows "nseg f (h(b \<mapsto> nd\<lparr>rn_vhead := q\<rparr>)) a (xs @ (b, k, q, ws) # ys) t"
  using assms by (auto simp: nseg_append)

lemma rl_rep_update:
  assumes rep: "rl_rep f l m g (xs @ (a, k, p, vs) # ys)" and nd: "rl_heap l a = Some nd"
    and fr: "vframe m m' (ver_addr ` set vs)" and ok: "vmem_ok m' g"
    and new: "node_ok (vm_heap m') (a, k, q, ws)" "distinct (map ver_addr ws)" "ver_addr ` set ws \<subseteq> insert (vm_brk m) (ver_addr ` set vs)"
  shows "rl_rep f (rl_set l a (nd\<lparr>rn_vhead := q\<rparr>)) m' g (xs @ (a, k, q, ws) # ys)"
proof -
  note r = rl_repD [OF rep]
  obtain t hp where s: "nseg f (rl_heap l) (rl_head l) ((rl_head l, 0, hp, []) # xs @ (a, k, p, vs) # ys) t"
      "rl_tail (rl_heap l) t" "distinct (t # rl_head l # map rd_addr (xs @ (a, k, p, vs) # ys))"
      "0 \<notin> set (map rd_addr (xs @ (a, k, p, vs) # ys))"
    using rl_repE [OF rep] by blast
  let ?l = "rl_set l a (nd\<lparr>rn_vhead := q\<rparr>)"
  let ?X = "concat (map ver_addrs xs)" and ?V = "map ver_addr vs" and ?Y = "concat (map ver_addrs ys)"
  have dv: "distinct (?X @ ?V @ ?Y)" using r(6) by simp
  have "vm_brk m \<notin> set (concat (map ver_addrs (xs @ (a, k, p, vs) # ys)))"
    using concat_ver_less [OF r(5,7)] by blast
  then have brk: "vm_brk m \<notin> set (?X @ ?V @ ?Y)" by simp
  show ?thesis
  proof (rule rl_repI [where t = t and hp = hp])
    have "distinct (map rd_addr (((rl_head l, 0, hp, []) # xs) @ (a, k, p, vs) # ys))" using s(3) by auto
    from nseg_set_vhead [where xs = "(rl_head l, 0, hp, []) # xs" and h = "rl_heap l" and a = "rl_head l"
        and f = f and t = t and q = q and ws = ws, OF _ this nd] s(1)
    show "nseg f (rl_heap ?l) (rl_head ?l) ((rl_head ?l, 0, hp, []) # xs @ (a, k, q, ws) # ys) t"
      by (simp add: rl_set_def)
    show "rl_tail (rl_heap ?l) t" using s(2,3) by (auto simp: rl_tail_def rl_set_def)
    show "distinct (t # rl_head ?l # map rd_addr (xs @ (a, k, q, ws) # ys))" using s(3) by (simp add: rl_set_def)
    show "0 \<notin> set (map rd_addr (xs @ (a, k, q, ws) # ys))" using s(4) by simp
    show "ssorted (map rd_key (xs @ (a, k, q, ws) # ys))" using r(1) by simp
    show "\<forall>n \<in> set (xs @ (a, k, q, ws) # ys). rd_key n < key_max" using r(2) by simp
    show "dom (rl_heap ?l) \<subseteq> {1..<rl_brk ?l}" using r(3) nd by (auto simp: rl_set_def)
    show "rl_size ?l = length (xs @ (a, k, q, ws) # ys)" using r(4) by (simp add: rl_set_def)
    have "node_ok (vm_heap m') n" if n: "n \<in> set xs \<union> set ys" for n
    proof -
      have "set (ver_addrs n) \<subseteq> set ?X \<union> set ?Y" using n by auto
      moreover have "(set ?X \<union> set ?Y) \<inter> set ?V = {}" using dv by (simp only: distinct_append set_append) blast
      ultimately have "set (ver_addrs n) \<inter> set ?V = {}" by (meson disjoint_iff subsetD)
      moreover have "node_ok (vm_heap m) n" using bspec [OF r(5), of n] n by simp
      ultimately show ?thesis using node_ok_frame [OF fr r(7), of n] by simp
    qed
    then show "\<forall>n \<in> set (xs @ (a, k, q, ws) # ys). node_ok (vm_heap m') n" using new(1) by auto
    have "distinct (?X @ map ver_addr ws @ ?Y)"
      by (rule distinct_middle [OF dv new(2) _ brk]) (use new(3) in simp)
    then show "distinct (concat (map ver_addrs (xs @ (a, k, q, ws) # ys)))" by simp
    show "vmem_ok m' g" by (rule ok)
  qed
qed

lemma stamp_id: "\<forall>v \<in> set vs. 0 \<le> ver_ts v \<Longrightarrow> stamp g vs = vs"
  by (cases vs) auto

lemma rl_update:
  assumes rep: "rl_rep False l m g (xs @ (a, k, p, vs) # ys)"
  shows "\<exists>l' m' q ws. rl_update_loop 1 a val (l, m) = Inr (0, l', m') \<and> rl_isReclaimed l' = rl_isReclaimed l
    \<and> rl_rep False l' m' g (xs @ (a, k, q, ws) # ys)
    \<and> map snd ws = (if ver_value (hd vs) = val then map snd vs else (val, g) # map snd vs)"
proof -
  note r = rl_repD [OF rep]
  have n: "vs \<noteq> []" "vseg (vm_heap m) p vs" "\<forall>v \<in> set vs. 0 \<le> ver_ts v" "distinct (map ver_addr vs)"
    using r(5,6) by (auto simp: node_ok_def ver_addrs_def)
  obtain hp t where "nseg False (rl_heap l) (rl_head l) (((rl_head l, 0, hp, []) # xs) @ (a, k, p, vs) # ys) t"
    using rl_repE [OF rep] by (metis append_Cons)
  from nseg_node [OF this] obtain nd where nd: "rl_heap l a = Some nd" "rn_vhead nd = p" by auto
  note st = stamp_id [OF n(3), of g]
  obtain m1 where m1: "vread p m = Inr (ver_value (hd vs), m1)" "vseg (vm_heap m1) p vs" "vmem_ok m1 g"
      "vframe m m1 (ver_addr ` set vs)" "vm_brk m1 = vm_brk m"
    using vread_spec [OF n(2,1) r(7) n(4)] st by auto
  have rep1: "rl_rep False l m1 g (xs @ (a, k, p, vs) # ys)"
  proof -
    have "rl_set l a (nd\<lparr>rn_vhead := p\<rparr>) = l" using nd by (cases nd) (auto simp: rl_set_def fun_upd_idem)
    then show ?thesis
      using rl_rep_update [OF rep nd(1) m1(4,3), of p vs] n m1(2) by (auto simp: node_ok_def)
  qed
  show ?thesis
  proof (cases "ver_value (hd vs) = val")
    case True
    then have "rl_update_loop 1 a val (l, m) = Inr (0, l, m1)"
      using nd m1 by (simp add: rl_read_def rl_load_def)
    then show ?thesis using rep1 True by (intro exI [of _ l] exI [of _ m1] exI [of _ p] exI [of _ vs]) simp
  next
    case False
    obtain q m2 where m2: "vCAS p (ver_value (hd vs)) val m1 = Inr (True, q, m2)"
        "vseg (vm_heap m2) q ((vm_brk m1, val, g) # vs)" "vmem_ok m2 g" "vframe m1 m2 (ver_addr ` set vs)"
        "vm_brk m1 \<notin> ver_addr ` set vs"
      using vCAS_spec [OF m1(2) n(1) m1(3) n(4), of val] False st by (auto simp: push_version_def)
    let ?l = "rl_set l a (nd\<lparr>rn_vhead := q\<rparr>)"
    have "rl_update_loop 1 a val (l, m) = Inr (0, ?l, m2)"
      using nd m1 m2 False by (simp add: rl_read_def rl_load_def rl_vCAS_def)
    moreover have "rl_rep False ?l m2 g (xs @ (a, k, q, (vm_brk m1, val, g) # vs) # ys)"
      using rl_rep_update [OF rep1 nd(1) m2(4,3), of q "(vm_brk m1, val, g) # vs"] n m2 r(7)
      by (auto simp: node_ok_def vmem_ok_def)
    ultimately show ?thesis using False
      by (intro exI [of _ ?l] exI [of _ m2] exI [of _ q] exI [of _ "(vm_brk m1, val, g) # vs"]) (simp add: rl_set_def)
  qed
qed

end
