(* ===== verification/Uruv_Refine.thy ===== *)
theory Uruv_Refine
  imports Uruv_Spec
begin

text \<open>
  The operations of the versioned list refine the specification on association lists (\<open>Uruv_Spec\<close>):
  updates, searches and range queries, single operations and sequences of them. Collecting a list
  returns its keys and chains in order and leaves it frozen, and a frozen list refuses updates.
\<close>

section \<open>Insertion and removal\<close>

lemma rl_abs_append [simp]: "rl_abs (xs @ ys) = rl_abs xs @ rl_abs ys"
  by (simp add: rl_abs_def)

lemma rl_abs_simps [simp]: "rl_abs [] = []" "rl_abs (n # ns) = (rd_key n, map snd (rd_vers n)) # rl_abs ns"
  by (simp_all add: rl_abs_def)

lemma length_rl_abs [simp]: "length (rl_abs ns) = length ns"
  by (simp add: rl_abs_def)

lemma rl_abs_keys [simp]: "fst ` set (rl_abs ns) = rd_key ` set ns"
  by (force simp: rl_abs_def)

lemma rl_abs_before: "takeWhile (\<lambda>kv. fst kv < key) (rl_abs ns) = rl_abs (before key ns)"
  by (simp add: rl_abs_def takeWhile_map comp_def)

lemma rl_abs_from: "dropWhile (\<lambda>kv. fst kv < key) (rl_abs ns) = rl_abs (from_key key ns)"
  by (simp add: rl_abs_def dropWhile_map comp_def)

lemma rl_abs_None: "map_of (rl_abs ns) key = None \<longleftrightarrow> key \<notin> set (map rd_key ns)"
  by (simp add: map_of_eq_None_iff)

lemma rl_abs_Some:
  assumes "ssorted (map rd_key (xs @ (a, key, p, vs) # ys))"
  shows "map_of (rl_abs (xs @ (a, key, p, vs) # ys)) key = Some (map snd vs)"
    and "map (\<lambda>(k, ws). (k, if k = key then u else ws)) (rl_abs (xs @ (a, key, p, vs) # ys))
      = rl_abs xs @ (key, u) # rl_abs ys"
proof -
  have ne: "key \<notin> rd_key ` set xs" "key \<notin> rd_key ` set ys" using ssorted_distinct [OF assms] by auto
  then have "map_of (rl_abs xs) key = None" using rl_abs_None [of xs key] by simp
  then show "map_of (rl_abs (xs @ (a, key, p, vs) # ys)) key = Some (map snd vs)" by (simp add: map_add_def)
  have "map (\<lambda>(k, ws). (k, if k = key then u else ws)) (rl_abs zs) = rl_abs zs" if "key \<notin> rd_key ` set zs" for zs
    using that by (induction zs) auto
  then show "map (\<lambda>(k, ws). (k, if k = key then u else ws)) (rl_abs (xs @ (a, key, p, vs) # ys))
      = rl_abs xs @ (key, u) # rl_abs ys" using ne by simp
qed

lemma av_insert_there:
  assumes "ssorted (map rd_key (xs @ (a, key, p, vs) # ys))" and "length (xs @ (a, key, p, vs) # ys) < threshhold"
    and "vs \<noteq> []"
  shows "av_insert key val g (rl_abs (xs @ (a, key, p, vs) # ys)) =
    (0, rl_abs xs @ (key, if ver_value (hd vs) = val then map snd vs else (val, g) # map snd vs) # rl_abs ys)"
proof -
  let ?al = "rl_abs (xs @ (a, key, p, vs) # ys)"
  note s = rl_abs_Some [OF assms(1)]
  let ?f = "\<lambda>(k, ws). (k, if k = key then (val, g) # ws else ws)"
    and ?f' = "\<lambda>(k, ws). (k, if k = key then (val, g) # map snd vs else ws)"
  have d: "distinct (map fst ?al)" using ssorted_distinct [OF assms(1)] by (simp add: rl_abs_def comp_def)
  have "map ?f ?al = map ?f' ?al"
  proof (rule map_cong [OF refl])
    fix kv assume "kv \<in> set ?al"
    then have "map_of ?al (fst kv) = Some (snd kv)" using d by (intro map_of_is_SomeI) simp_all
    then have "snd kv = map snd vs" if "fst kv = key" using that s(1) by (metis option.inject)
    then show "?f kv = ?f' kv" by (cases kv) simp
  qed
  then have "map ?f ?al = rl_abs xs @ (key, (val, g) # map snd vs) # rl_abs ys"
    using s(2) [of "(val, g) # map snd vs"] by (rule trans)
  moreover have "length ?al < threshhold" using assms(2) by simp
  moreover have "fst (hd (map snd vs)) = ver_value (hd vs)" using assms(3) by (cases vs) auto
  ultimately show ?thesis using s(1) by (simp add: av_insert_def)
qed

lemma rl_insert_here:
  assumes rep: "rl_rep False l m g (xs @ (a, key, p, vs) # ys)" and room: "length (xs @ (a, key, p, vs) # ys) < threshhold"
    and from_k: "from_key key (xs @ (a, key, p, vs) # ys) = (a, key, p, vs) # ys"
  shows "rl_insert key val (l, m) = rl_update_loop 1 a val (l, m)"
proof -
  let ?ns = "xs @ (a, key, p, vs) # ys"
  obtain t hp where s: "nseg False (rl_heap l) (rl_head l) ((rl_head l, 0, hp, []) # ?ns) t" "rl_tail (rl_heap l) t"
    using rl_repE [OF rep] by blast
  obtain pr where "rl_find key l = Inr (Some a, pr)"
    using rl_find_spec [OF rep s, of key] from_k by (simp add: rstart_def)
  moreover have "rl_heap l a = Some \<lparr>rn_key = key, rn_vhead = p, rn_next = TP (rstart ys t) False False, rn_del = 0\<rparr>"
    using nseg_node [of False "rl_heap l" "rl_head l" "(rl_head l, 0, hp, []) # xs" a key p vs ys t] s(1) by simp
  ultimately show ?thesis using rl_repD(4) [OF rep] room by (simp add: rl_insert_def rl_load_def)
qed

lemma rl_insert_tombstone:
  assumes rep: "rl_rep False l m g ns" and "length ns < threshhold" and key: "key \<notin> set (map rd_key ns)" "key < key_max"
  shows "rl_insert key tombstone (l, m) = Inr (0, l, m)"
proof -
  obtain t hp where s: "nseg False (rl_heap l) (rl_head l) ((rl_head l, 0, hp, []) # ns) t" "rl_tail (rl_heap l) t"
    using rl_repE [OF rep] by blast
  obtain pr where find: "rl_find key l = Inr (Some (rstart (from_key key ns) t), pr)" using rl_find_spec [OF rep s, of key] by simp
  have "\<exists>rn. rl_heap l (rstart (from_key key ns) t) = Some rn \<and> rn_key rn \<noteq> key"
  proof (cases "from_key key ns")
    case Nil
    then show ?thesis using s(2) key(2) by (auto simp: rl_tail_def rstart_def simp del: dropWhile_eq_Nil_conv)
  next
    case (Cons y ys)
    obtain a1 k1 p1 vs1 where y: "y = (a1, k1, p1, vs1)" by (cases y)
    have "(rl_head l, 0, hp, []) # ns = ((rl_head l, 0, hp, []) # before key ns) @ (a1, k1, p1, vs1) # ys"
      using takeWhile_dropWhile_id [of "\<lambda>n. rd_key n < key" ns, symmetric] unfolding Cons y by simp
    from nseg_node [OF s(1) [unfolded this]] have "rl_heap l a1 = Some \<lparr>rn_key = k1, rn_vhead = p1, rn_next = TP (rstart ys t) False False, rn_del = 0\<rparr>" .
    moreover have "y \<in> set ns" using Cons by (metis list.set_intros(1) set_dropWhileD)
    then have "rd_key y \<in> set (map rd_key ns)" by simp
    then have "k1 \<noteq> key" using key(1) y by auto
    ultimately show ?thesis using Cons y by (simp add: rstart_def)
  qed
  then show ?thesis using find rl_repD(4) [OF rep] assms(2) by (auto simp: rl_insert_def rl_load_def)
qed

lemma rl_insert_refines:
  assumes rep: "rl_rep False l m g ns" and key: "key < key_max"
  shows "\<exists>l' m' ns'. rl_insert key val (l, m) = Inr (fst (av_insert key val g (rl_abs ns)), l', m')
    \<and> rl_isReclaimed l' = rl_isReclaimed l \<and> rl_rep False l' m' g ns' \<and> rl_abs ns' = snd (av_insert key val g (rl_abs ns))"
proof (cases "threshhold \<le> length ns")
  case True
  then show ?thesis using rep rl_repD(4) [OF rep]
    by (intro exI [of _ l] exI [of _ m] exI [of _ ns]) (simp add: rl_insert_def av_insert_def)
next
  case False
  then have room: "length ns < threshhold" by simp
  note r = rl_repD [OF rep]
  show ?thesis
  proof (cases "key \<in> set (map rd_key ns)")
    case True
    obtain a p vs ys where sp: "ns = before key ns @ (a, key, p, vs) # ys" "from_key key ns = (a, key, p, vs) # ys"
      by (rule split_at_key [OF r(1) True])
    obtain xs where ns: "ns = xs @ (a, key, p, vs) # ys" using sp(1) by blast
    have ne: "vs \<noteq> []" using bspec [OF r(5), of "(a, key, p, vs)"] ns by (auto simp: node_ok_def)
    show ?thesis
      using rl_update [OF rep [unfolded ns], of val] rl_insert_here [OF rep [unfolded ns] room [unfolded ns] sp(2) [unfolded ns], of val]
        av_insert_there [OF r(1) [unfolded ns] room [unfolded ns] ne, of val g] unfolding ns by fastforce
  next
    case absent: False
    then have none: "map_of (rl_abs ns) key = None" by (simp add: rl_abs_None)
    show ?thesis
    proof (cases "val = tombstone")
      case True
      then show ?thesis using rl_insert_tombstone [OF rep room absent key] rep none room by (auto simp: av_insert_def)
    next
      case False
      obtain l' m' where "rl_insert key val (l, m) = Inr (1, l', m')" "rl_isReclaimed l' = rl_isReclaimed l"
          "rl_rep False l' m' g (before key ns @ (rl_brk l, key, clean (vm_brk m), [(vm_brk m, val, g)]) # from_key key ns)"
        using rl_insert_new [OF rep room absent key False] by blast
      moreover have "av_insert key val g (rl_abs ns) =
          (1, rl_abs (before key ns @ (rl_brk l, key, clean (vm_brk m), [(vm_brk m, val, g)]) # from_key key ns))"
        using none room False by (simp add: av_insert_def rl_abs_before rl_abs_from)
      ultimately show ?thesis by auto
    qed
  qed
qed

section \<open>Search\<close>

lemma rl_search_loop_spec:
  assumes "nseg f (rl_heap l) a ns t" and "rl_tail (rl_heap l) t" and "length ns < n" and "key < key_max"
    and "ssorted (map rd_key ns)" and "\<forall>nd \<in> set ns. node_ok (vm_heap m) nd"
  shows "rl_search_loop n key val (l, m) a = Inr (av_search key val (rl_abs ns))"
  using assms
proof (induction ns arbitrary: a n)
  case Nil
  then obtain n' where "n = Suc n'" by (cases n) auto
  then show ?case using Nil by (auto simp: rl_load_def rl_tail_def av_search_def)
next
  case (Cons nd ns)
  obtain b k p vs where nd: "nd = (b, k, p, vs)" by (cases nd)
  obtain n' where n: "n = Suc n'" "length ns < n'" using Cons.prems(3) by (cases n) auto
  obtain c where c: "a = b" "rl_heap l b = Some \<lparr>rn_key = k, rn_vhead = p, rn_next = TP c False f, rn_del = 0\<rparr>"
      "nseg f (rl_heap l) c ns t"
    using Cons.prems(1) nd by auto
  have IH: "rl_search_loop n' key val (l, m) c = Inr (av_search key val (rl_abs ns))"
    using Cons.IH [OF c(3) Cons.prems(2) n(2) Cons.prems(4)] Cons.prems(5,6) by simp
  obtain nv where nv: "vn_load m p = Inr nv" "vn_value nv = fst (hd (map snd vs))"
    using Cons.prems(6) nd vseg_head [of "vm_heap m" p vs] by (auto simp: node_ok_def hd_map)
  consider "k < key" | "k = key" | "key < k" by (rule linorder_cases)
  then show ?case
  proof cases
    case 1
    then have "k \<noteq> key" by simp
    then show ?thesis using 1 IH c nd n(1) by (simp add: rl_load_def tp_defs av_search_def)
  next
    case 2
    then show ?thesis using c nd n(1) nv by (simp add: rl_load_def av_search_def)
  next
    case 3
    have "key \<notin> set (map rd_key ns)"
    proof
      assume "key \<in> set (map rd_key ns)"
      then have "k < key" using Cons.prems(5) nd by auto
      then show False using 3 by simp
    qed
    then have "map_of (rl_abs (nd # ns)) key = None" using 3 nd rl_abs_None [of ns key] by simp
    moreover have "\<not> k < key" "k \<noteq> key" using 3 by simp_all
    ultimately show ?thesis using 3 c nd n(1) by (simp add: rl_load_def av_search_def)
  qed
qed

lemma rl_search_refines:
  assumes rep: "rl_rep f l m g ns" and key: "0 < key" "key < key_max"
  shows "rl_search key val (l, m) = Inr (av_search key val (rl_abs ns))"
proof -
  obtain t hp where s: "nseg f (rl_heap l) (rl_head l) ((rl_head l, 0, hp, []) # ns) t" "rl_tail (rl_heap l) t"
    using rl_repE [OF rep] by blast
  obtain b where b: "rl_heap l (rl_head l) = Some \<lparr>rn_key = 0, rn_vhead = hp, rn_next = TP b False f, rn_del = 0\<rparr>"
      "nseg f (rl_heap l) b ns t"
    using s(1) by auto
  obtain n where n: "rl_brk l = Suc n" "length ns < n" using rl_rep_fuel [OF rep] by (cases "rl_brk l") auto
  show ?thesis
    using rl_search_loop_spec [OF b(2) s(2) n(2) key(2) rl_repD(1,5) [OF rep], of val] b(1) key(1) n(1)
    by (simp add: rl_search_def rl_load_def tp_defs)
qed

section \<open>Range queries\<close>

text \<open>The pointer a walk keeps next to the node it is at.\<close>

definition after :: "RList \<Rightarrow> addr \<Rightarrow> addr" where
  "after l a = (case rl_heap l a of None \<Rightarrow> 0 | Some nd \<Rightarrow> tp_addr (rn_next nd))"

lemma after_node:
  assumes "nseg f (rl_heap l) a (nd # ns) t" and "rl_tail (rl_heap l) t" and "0 \<notin> set (map rd_addr ns)"
  shows "0 < after l a" and "nseg f (rl_heap l) (after l a) ns t"
    and "\<exists>rn. rl_heap l (after l a) = Some rn \<and> tp_addr (tp_unset_freeze_mark (rn_next rn)) = after l (after l a)"
    and "rl_heap l a = Some \<lparr>rn_key = rd_key nd, rn_vhead = rd_ptr nd, rn_next = TP (after l a) False f, rn_del = 0\<rparr>"
proof -
  obtain b where b: "rl_heap l a = Some \<lparr>rn_key = rd_key nd, rn_vhead = rd_ptr nd, rn_next = TP b False f, rn_del = 0\<rparr>"
      "nseg f (rl_heap l) b ns t"
    using assms(1) by (cases nd) auto
  then have a: "after l a = b" by (simp add: after_def)
  show "nseg f (rl_heap l) (after l a) ns t" using a b by simp
  show "rl_heap l a = Some \<lparr>rn_key = rd_key nd, rn_vhead = rd_ptr nd, rn_next = TP (after l a) False f, rn_del = 0\<rparr>"
    using a b(1) by simp
  have "b = t \<or> b \<in> set (map rd_addr ns)" using nseg_start [OF b(2)] by (cases ns) (auto simp: rstart_def)
  moreover have "t \<noteq> 0" using assms(2) by (simp add: rl_tail_def)
  ultimately have "b \<noteq> 0" using assms(3) by metis
  then show "0 < after l a" using a by simp
  have "\<exists>rn. rl_heap l b = Some rn"
    using \<open>b = t \<or> b \<in> set (map rd_addr ns)\<close> nseg_alloc [OF b(2), of b] assms(2) by (auto simp: rl_tail_def)
  then show "\<exists>rn. rl_heap l (after l a) = Some rn \<and> tp_addr (tp_unset_freeze_mark (rn_next rn)) = after l (after l a)"
    using a by (auto simp: after_def tp_defs)
qed

lemma after_tail: "rl_tail (rl_heap l) t \<Longrightarrow> after l t = 0"
  by (auto simp: rl_tail_def after_def)

lemma rl_skip_spec:
  assumes "nseg f (rl_heap l) a ns t" and "rl_tail (rl_heap l) t" and "length ns < n" and "0 \<notin> set (map rd_addr ns)"
  shows "rl_skip n low l a (after l a) = Inr (rstart (from_key low ns) t, after l (rstart (from_key low ns) t))"
  using assms
proof (induction ns arbitrary: a n)
  case Nil
  then obtain n' where "n = Suc n'" by (cases n) auto
  then show ?case using Nil after_tail [OF Nil(2)] by (simp add: rstart_def)
next
  case (Cons nd ns)
  obtain n' where n: "n = Suc n'" "length ns < n'" using Cons.prems(3) by (cases n) auto
  have z: "0 \<notin> set (map rd_addr ns)" using Cons.prems(4) by simp
  note a = after_node [OF Cons.prems(1,2) z]
  show ?case
  proof (cases "rd_key nd < low")
    case True
    then show ?thesis using Cons.IH [OF a(2) Cons.prems(2) n(2) z] a n(1) by (auto simp: rl_load_def)
  next
    case False
    moreover have "a = rd_addr nd" using Cons.prems(1) by (cases nd) simp
    ultimately show ?thesis using a n(1) by (simp add: rl_load_def rstart_def)
  qed
qed

definition hits :: "int \<Rightarrow> rnode list \<Rightarrow> (key_t \<times> val_t) list" where
  "hits ts ns = List.map_filter (\<lambda>(k, vs). map_option (Pair k) (at_ts ts vs)) (rl_abs ns)"

lemma hits_simps [simp]:
  "hits ts [] = []"
  "hits ts (n # ns) = (case value_at ts (rd_vers n) of None \<Rightarrow> hits ts ns | Some v \<Rightarrow> (rd_key n, v) # hits ts ns)"
  by (auto simp: hits_def List.map_filter_simps at_ts_value_at split: option.splits)

lemma node_lookup:
  assumes "node_ok (vm_heap m) nd" and "vmem_ok m g" and "distinct (ver_addrs nd)"
  shows "tp_unset_freeze_mark (rd_ptr nd) = rd_ptr nd" and "init_ts (rd_ptr nd) m = Inr m"
    and "\<exists>q. walk_versions (Suc (vm_brk m)) (rd_ptr nd) ts m = Inr q
      \<and> (value_at ts (rd_vers nd) = None \<longrightarrow> tp_true q \<longrightarrow> (\<exists>vn. vn_load m q = Inr vn \<and> vn_value vn = tombstone))
      \<and> (\<forall>v. value_at ts (rd_vers nd) = Some v \<longrightarrow> tp_true q \<and> v \<noteq> tombstone \<and> (\<exists>vn. vn_load m q = Inr vn \<and> vn_value vn = v))"
proof -
  have n: "rd_vers nd \<noteq> []" "vseg (vm_heap m) (rd_ptr nd) (rd_vers nd)" "\<forall>v \<in> set (rd_vers nd). 0 \<le> ver_ts v"
    using assms(1) by (auto simp: node_ok_def)
  obtain vn where vn: "rd_ptr nd = clean (ver_addr (hd (rd_vers nd)))" "vm_heap m (ver_addr (hd (rd_vers nd))) = Some vn"
      "vn_ts vn = ver_ts (hd (rd_vers nd))"
    using vseg_head [OF n(2,1)] by blast
  moreover have "0 \<le> ver_ts (hd (rd_vers nd))" using n(1,3) by simp
  ultimately show "tp_unset_freeze_mark (rd_ptr nd) = rd_ptr nd" "init_ts (rd_ptr nd) m = Inr m"
    by (simp_all add: tp_defs init_ts_def)
  have "length (rd_vers nd) < Suc (vm_brk m)"
    using vseg_length [OF n(2) assms(2)] assms(3) by (simp add: ver_addrs_def)
  note walk = walk_versions_spec [OF n(2) this, of ts]
  show "\<exists>q. walk_versions (Suc (vm_brk m)) (rd_ptr nd) ts m = Inr q
      \<and> (value_at ts (rd_vers nd) = None \<longrightarrow> tp_true q \<longrightarrow> (\<exists>vn. vn_load m q = Inr vn \<and> vn_value vn = tombstone))
      \<and> (\<forall>v. value_at ts (rd_vers nd) = Some v \<longrightarrow> tp_true q \<and> v \<noteq> tombstone \<and> (\<exists>vn. vn_load m q = Inr vn \<and> vn_value vn = v))"
  proof (cases "version_at ts (rd_vers nd)")
    case None
    then show ?thesis using walk by (simp add: value_at_def tp_true_def)
  next
    case (Some v)
    then show ?thesis using walk walk_mem [OF n(2) Some] by (auto simp: value_at_def)
  qed
qed

lemma rl_range_loop_spec:
  assumes "nseg f (rl_heap l) a ns t" and "rl_tail (rl_heap l) t" and "length ns < n" and "0 \<notin> set (map rd_addr ns)"
    and "\<forall>nd \<in> set ns. node_ok (vm_heap m) nd" and "vmem_ok m g" and "distinct (concat (map ver_addrs ns))" and "0 \<le> r"
  shows "rl_range_loop n r ts l m a (after l a) acc =
    Inr (r - int (length (take (nat r) (hits ts ns))), acc @ take (nat r) (hits ts ns), m)"
  using assms
proof (induction ns arbitrary: a n r acc)
  case Nil
  then obtain n' where "n = Suc n'" by (cases n) auto
  then show ?case using Nil after_tail [OF Nil(2)] by simp
next
  case (Cons nd ns)
  obtain n' where n: "n = Suc n'" "length ns < n'" using Cons.prems(3) by (cases n) auto
  have z: "0 \<notin> set (map rd_addr ns)" using Cons.prems(4) by simp
  note a = after_node [OF Cons.prems(1,2) z]
  have IH: "rl_range_loop n' r' ts l m (after l a) (after l (after l a)) acc' =
      Inr (r' - int (length (take (nat r') (hits ts ns))), acc' @ take (nat r') (hits ts ns), m)" if "0 \<le> r'" for r' acc'
    using Cons.IH [OF a(2) Cons.prems(2) n(2) z _ Cons.prems(6) _ that] Cons.prems(5,7) by simp
  note look = node_lookup [of m nd g, OF _ Cons.prems(6)]
  have nd: "node_ok (vm_heap m) nd" "distinct (ver_addrs nd)" using Cons.prems(5,7) by auto
  show ?case
  proof (cases "r = 0")
    case True
    then show ?thesis using n by simp
  next
    case False
    then have r: "0 < r" using Cons.prems(8) by simp
    obtain q where q: "walk_versions (Suc (vm_brk m)) (rd_ptr nd) ts m = Inr q"
        "value_at ts (rd_vers nd) = None \<longrightarrow> tp_true q \<longrightarrow> (\<exists>vn. vn_load m q = Inr vn \<and> vn_value vn = tombstone)"
        "\<forall>v. value_at ts (rd_vers nd) = Some v \<longrightarrow> tp_true q \<and> v \<noteq> tombstone \<and> (\<exists>vn. vn_load m q = Inr vn \<and> vn_value vn = v)"
      using look(3) [OF nd, of ts] by (elim exE conjE) (rule that)
    obtain rn where rn: "rl_heap l (after l a) = Some rn" "tp_addr (tp_unset_freeze_mark (rn_next rn)) = after l (after l a)"
      using a(3) by blast
    show ?thesis
    proof (cases "value_at ts (rd_vers nd)")
      case None
      have "rl_range_loop n r ts l m a (after l a) acc = rl_range_loop n' r ts l m (after l a) (after l (after l a)) acc"
      proof (cases "tp_true q")
        case True
        then obtain vn where "vn_load m q = Inr vn" "vn_value vn = tombstone" using q(2) None by blast
        then show ?thesis using True q(1) a(1,4) rn n(1) r look(1,2) [OF nd] by (simp add: rl_load_def del: walk_versions.simps)
      next
        case False
        then show ?thesis using q(1) a(1,4) rn n(1) r look(1,2) [OF nd] by (simp add: rl_load_def del: walk_versions.simps)
      qed
      then show ?thesis using IH [of r acc] r None by simp
    next
      case (Some v)
      obtain j where j: "nat r = Suc j" using r by (cases "nat r") auto
      then have rj: "r = int j + 1" "nat (r - 1) = j" by auto
      have "rl_range_loop n r ts l m a (after l a) acc = (if r - 1 \<le> 0 then Inr (r - 1, acc @ [(rd_key nd, v)], m)
          else rl_range_loop n' (r - 1) ts l m (after l a) (after l (after l a)) (acc @ [(rd_key nd, v)]))"
      proof -
        obtain vn where "tp_true q" "v \<noteq> tombstone" "vn_load m q = Inr vn" "vn_value vn = v" using q(3) Some by blast
        then show ?thesis using q(1) a(1,4) rn n(1) r look(1,2) [OF nd] by (simp add: rl_load_def del: walk_versions.simps)
      qed
      then show ?thesis using IH [of "r - 1" "acc @ [(rd_key nd, v)]"] r Some j rj by (auto simp: take_Suc_Cons)
    qed
  qed
qed

lemma from_key_suffix: "\<exists>xs. ns = xs @ from_key low ns"
  using takeWhile_dropWhile_id [of "\<lambda>n. rd_key n < low" ns] by metis

lemma av_range_hits: "av_range low ts (rl_abs ns) = hits ts (from_key low ns)"
  by (simp add: av_range_def hits_def rl_abs_from)

lemma rl_range_refines:
  assumes rep: "rl_rep f l m g ns" and r: "0 \<le> r"
  shows "rl_range_query low r ts acc (l, m) =
    Inr (to_i32 (r - int (length (take (nat r) (av_range low ts (rl_abs ns))))), acc @ take (nat r) (av_range low ts (rl_abs ns)), l, m)"
proof -
  note d = rl_repD [OF rep]
  obtain t hp where s: "nseg f (rl_heap l) (rl_head l) ((rl_head l, 0, hp, []) # ns) t" "rl_tail (rl_heap l) t"
      "0 \<notin> set (map rd_addr ns)"
    using rl_repE [OF rep] by blast
  note h = after_node [OF s]
  have n: "length ns < rl_brk l" using rl_rep_fuel [OF rep] by simp
  note skip = rl_skip_spec [OF h(2) s(2) n s(3), of low]
  obtain xs where xs: "ns = xs @ from_key low ns" using from_key_suffix by blast
  let ?fs = "from_key low ns"
  obtain b where b: "nseg f (rl_heap l) b ?fs t" using h(2) nseg_append [of f "rl_heap l" "after l (rl_head l)" xs ?fs t] xs by metis
  then have start: "b = rstart ?fs t" by (rule nseg_start)
  have sub: "set ?fs \<subseteq> set ns" using set_dropWhileD by fast
  have "concat (map ver_addrs ns) = concat (map ver_addrs xs) @ concat (map ver_addrs ?fs)"
    using arg_cong [OF xs, of "\<lambda>ns. concat (map ver_addrs ns)"] by (simp only: map_append concat_append)
  then have dist: "distinct (concat (map ver_addrs ?fs))" using d(6) by simp
  have "length ?fs < rl_brk l" using n length_dropWhile_le [of "\<lambda>n. rd_key n < low" ns] by linarith
  from rl_range_loop_spec [OF b s(2) this _ _ d(7) dist r, of ts acc]
  have "rl_range_loop (rl_brk l) r ts l m b (after l b) acc =
      Inr (r - int (length (take (nat r) (hits ts ?fs))), acc @ take (nat r) (hits ts ?fs), m)"
    using sub s(3) d(5) by auto
  then show ?thesis using skip h(3,4) start by (auto simp: rl_range_query_def rl_load_def tp_defs av_range_hits)
qed

section \<open>Collecting\<close>

lemma nseg_cong: "(\<And>c. c \<in> rd_addr ` set ns \<Longrightarrow> h' c = h c) \<Longrightarrow> nseg f h' a ns t = nseg f h a ns t"
  by (induction f h a ns t rule: nseg.induct) auto

lemma rl_freeze_node_spec:
  assumes "rl_heap l a = Some nd" and "rn_next nd = TP b False f"
  shows "rl_freeze_node l a = Inr (rl_set l a (nd\<lparr>rn_next := TP b False True\<rparr>))"
proof (cases f)
  case True
  then have "rl_set l a (nd\<lparr>rn_next := TP b False True\<rparr>) = l" using assms by (cases nd) (auto simp: rl_set_def fun_upd_idem)
  then show ?thesis using assms True by (simp add: rl_freeze_node_def rl_load_def)
next
  case False
  then show ?thesis using assms by (simp add: rl_freeze_node_def rl_load_def rl_cas_next_def rl_set_def tp_defs)
qed

lemma rl_collect_loop_spec:
  assumes "nseg f (rl_heap l) a ns t" and "rl_tail (rl_heap l) t" and "length ns < n" and "distinct (map rd_addr ns)"
    and "0 \<notin> set (map rd_addr ns)" and "t \<notin> rd_addr ` set ns" and "\<not> rl_isReclaimed l"
    and "\<forall>nd \<in> set ns. node_ok vh nd"
  shows "\<exists>h. rl_collect_loop n l (clean a) acc = Inr (True, acc @ map (\<lambda>nd. (rd_key nd, rd_ptr nd)) ns, l\<lparr>rl_heap := h\<rparr>)
    \<and> nseg True h a ns t \<and> (\<forall>c. c \<notin> rd_addr ` set ns \<longrightarrow> h c = rl_heap l c) \<and> dom h = dom (rl_heap l)"
  using assms
proof (induction ns arbitrary: a l n acc)
  case Nil
  then obtain n' where "n = Suc n'" by (cases n) auto
  then show ?case using Nil by (intro exI [of _ "rl_heap l"]) (auto simp: rl_deref_def rl_load_def rl_tail_def tp_defs)
next
  case (Cons nd ns)
  obtain n' where n: "n = Suc n'" "length ns < n'" using Cons.prems(3) by (cases n) auto
  have z: "0 \<notin> set (map rd_addr ns)" using Cons.prems(5) by simp
  note a = after_node [OF Cons.prems(1,2) z]
  let ?b = "after l a" and ?nd = "\<lparr>rn_key = rd_key nd, rn_vhead = rd_ptr nd, rn_next = TP (after l a) False True, rn_del = 0\<rparr>"
  let ?l = "rl_set l a ?nd"
  have ad: "a = rd_addr nd" "a \<noteq> t" "a \<notin> rd_addr ` set ns" using Cons.prems(1,4,6) by (cases nd; auto)+
  have p: "tp_unset_mark (rd_ptr nd) = rd_ptr nd"
    using Cons.prems(8) vseg_head [of vh "rd_ptr nd" "rd_vers nd"] by (auto simp: node_ok_def tp_defs)
  have step: "rl_collect_loop n l (clean a) acc = rl_collect_loop n' ?l (clean ?b) (acc @ [(rd_key nd, rd_ptr nd)])"
    using n(1) a(1,4) rl_freeze_node_spec [OF a(4), of ?b f] Cons.prems(7) p
    by (simp add: rl_deref_def rl_load_def rl_set_def tp_defs)
  have "nseg f (rl_heap ?l) ?b ns t" "rl_tail (rl_heap ?l) t" "distinct (map rd_addr ns)" "t \<notin> rd_addr ` set ns"
    "\<not> rl_isReclaimed ?l" "\<forall>nd \<in> set ns. node_ok vh nd"
    using Cons.prems a(2) ad by (auto simp: rl_set_def rl_tail_def)
  note IH = Cons.IH [OF this(1,2) n(2) this(3) z this(4,5,6), of "acc @ [(rd_key nd, rd_ptr nd)]"]
  obtain h where h: "rl_collect_loop n' ?l (clean ?b) (acc @ [(rd_key nd, rd_ptr nd)]) =
        Inr (True, (acc @ [(rd_key nd, rd_ptr nd)]) @ map (\<lambda>nd. (rd_key nd, rd_ptr nd)) ns, ?l\<lparr>rl_heap := h\<rparr>)"
      "nseg True h ?b ns t" "\<forall>c. c \<notin> rd_addr ` set ns \<longrightarrow> h c = rl_heap ?l c" "dom h = dom (rl_heap ?l)"
    using IH by (elim exE conjE) (rule that)
  have "h a = Some ?nd" using h(3) ad(3) by (simp add: rl_set_def)
  then have "nseg True h a (nd # ns) t" using h(2) ad(1) by (cases nd) auto
  moreover have "?l\<lparr>rl_heap := h\<rparr> = l\<lparr>rl_heap := h\<rparr>" by (simp add: rl_set_def)
  moreover have "dom h = dom (rl_heap l)" using h(4) a(4) by (auto simp: rl_set_def)
  moreover have "\<forall>c. c \<notin> rd_addr ` set (nd # ns) \<longrightarrow> h c = rl_heap l c" using h(3) ad(1) by (auto simp: rl_set_def)
  ultimately show ?case using step h(1) by (intro exI [of _ h]) simp
qed

lemma rl_collect_correct:
  assumes rep: "rl_rep f l m g ns" and nr: "\<not> rl_isReclaimed l"
  shows "\<exists>l'. rl_collect l = Inr (True, map (\<lambda>nd. (rd_key nd, rd_ptr nd)) ns, l') \<and> rl_rep True l' m g ns \<and> \<not> rl_isReclaimed l'"
proof -
  note d = rl_repD [OF rep]
  obtain t hp where s: "nseg f (rl_heap l) (rl_head l) ((rl_head l, 0, hp, []) # ns) t" "rl_tail (rl_heap l) t"
      "distinct (t # rl_head l # map rd_addr ns)" "0 \<notin> set (map rd_addr ns)"
    using rl_repE [OF rep] by blast
  note a = after_node [OF s(1,2,4)]
  let ?b = "after l (rl_head l)"
  let ?nd = "\<lparr>rn_key = 0, rn_vhead = hp, rn_next = TP ?b False True, rn_del = 0\<rparr>"
  let ?l = "rl_set l (rl_head l) ?nd"
  have fr: "rl_freeze_node l (rl_head l) = Inr ?l" using rl_freeze_node_spec [OF a(4), of ?b f] by simp
  have len: "length ns < rl_brk l" using rl_rep_fuel [OF rep] by simp
  have "nseg f (rl_heap ?l) ?b ns t" "rl_tail (rl_heap ?l) t" "distinct (map rd_addr ns)" "t \<notin> rd_addr ` set ns"
    "\<not> rl_isReclaimed ?l"
    using s a(2) nr by (auto simp: rl_set_def rl_tail_def)
  note loop = rl_collect_loop_spec [OF this(1,2) len this(3) s(4) this(4,5) d(5), of "[]"]
  obtain h where h: "rl_collect_loop (rl_brk l) ?l (clean ?b) [] =
        Inr (True, [] @ map (\<lambda>nd. (rd_key nd, rd_ptr nd)) ns, ?l\<lparr>rl_heap := h\<rparr>)"
      "nseg True h ?b ns t" "\<forall>c. c \<notin> rd_addr ` set ns \<longrightarrow> h c = rl_heap ?l c" "dom h = dom (rl_heap ?l)"
    using loop by (elim exE conjE) (rule that)
  have hh: "h (rl_head l) = Some ?nd" using h(3) s(3) by (auto simp: rl_set_def)
  have ht: "h t = rl_heap l t" using h(3) s(3) by (auto simp: rl_set_def)
  have "rl_collect l = Inr (True, map (\<lambda>nd. (rd_key nd, rd_ptr nd)) ns, ?l\<lparr>rl_heap := h\<rparr>)"
    using fr h(1) nr by (simp add: rl_collect_def rl_load_def rl_set_def tp_defs)
  moreover have "rl_rep True (?l\<lparr>rl_heap := h\<rparr>) m g ns"
  proof (rule rl_repI [where t = t and hp = hp, OF _ _ _ s(4) d(1,2) _ _ d(5,6,7)])
    show "rl_tail (rl_heap (?l\<lparr>rl_heap := h\<rparr>)) t" using s(2) ht by (simp add: rl_tail_def)
    show "dom (rl_heap (?l\<lparr>rl_heap := h\<rparr>)) \<subseteq> {1..<rl_brk (?l\<lparr>rl_heap := h\<rparr>)}"
      using d(3) h(4) a(4) by (auto simp: rl_set_def)
  qed (use hh h(2) s(3) d(4) in \<open>simp_all add: rl_set_def\<close>)
  ultimately show ?thesis using nr by (auto simp: rl_set_def)
qed

text \<open>A collected list refuses updates.\<close>

lemma frozen_insert:
  assumes "rl_rep True l m g ns" and "length ns < threshhold"
  shows "rl_insert key val (l, m) = Inr (- 1, l, m)"
  using frozen_find [OF assms(1), of key] rl_repD(4) [OF assms(1)] assms(2) by (auto simp: rl_insert_def)

section \<open>Reclamation\<close>

lemma retire_versions_spec:
  assumes "vseg (vm_heap m) (clean a) ((a, v, t) # vs)" and "length vs < n"
  shows "retire_versions n thr (clean a) m =
    Inr (m\<lparr>vm_retired := vm_retired m @ map ver_addr (filter (\<lambda>v. ver_ts v \<le> thr) vs)\<rparr>)"
  using assms
proof (induction vs arbitrary: n a v t m)
  case Nil
  then obtain n' where "n = Suc n'" by (cases n) auto
  then show ?case using Nil by (auto simp: tp_defs)
next
  case (Cons w vs)
  obtain b u s where w: "w = (b, u, s)" by (cases w)
  obtain n' where n: "n = Suc n'" "length vs < n'" using Cons.prems(2) by (cases n) auto
  obtain q where q: "vm_heap m a = Some \<lparr>vn_value = v, vn_ts = t, vn_nextv = clean b\<rparr>" "0 < b"
      "vm_heap m b = Some \<lparr>vn_value = u, vn_ts = s, vn_nextv = q\<rparr>" "vseg (vm_heap m) (clean b) ((b, u, s) # vs)"
    using Cons.prems(1) w by auto
  let ?m = "if s \<le> thr then m\<lparr>vm_retired := vm_retired m @ [b]\<rparr> else m"
  have "vseg (vm_heap ?m) (clean b) ((b, u, s) # vs)" using q(4) by (cases "s \<le> thr") simp_all
  note IH = Cons.IH [OF this n(2)]
  have "retire_versions n thr (clean a) m = retire_versions n' thr (clean b) ?m"
    using q n(1) by (simp add: tp_defs Let_def)
  then show ?case using IH w by (simp split: if_split)
qed

lemma rl_reclaim_loop_spec:
  assumes "nseg True (rl_heap l) a ns t" and "rl_tail (rl_heap l) t" and "length ns < n" and "0 \<notin> set (map rd_addr ns)"
    and "\<forall>nd \<in> set ns. node_ok (vm_heap m) nd" and "vmem_ok m g" and "distinct (concat (map ver_addrs ns))"
  shows "rl_reclaim_loop n thr (l, m) (clean a) = Inr (l\<lparr>rl_retired := rl_retired l @ map rd_addr ns\<rparr>,
    m\<lparr>vm_retired := vm_retired m @ concat (map (\<lambda>nd. map ver_addr (filter (\<lambda>v. ver_ts v \<le> thr) (tl (rd_vers nd)))) ns)\<rparr>)"
  using assms
proof (induction ns arbitrary: a l m n)
  case Nil
  then obtain n' where "n = Suc n'" by (cases n) auto
  then show ?case using Nil by (auto simp: rl_deref_def rl_load_def rl_tail_def tp_defs)
next
  case (Cons nd ns)
  obtain n' where n: "n = Suc n'" "length ns < n'" using Cons.prems(3) by (cases n) auto
  have z: "0 \<notin> set (map rd_addr ns)" using Cons.prems(4) by simp
  note a = after_node [OF Cons.prems(1,2) z]
  have ad: "rd_addr nd = a" using Cons.prems(1) by (cases nd) simp
  have ok: "node_ok (vm_heap m) nd" "distinct (map ver_addr (rd_vers nd))" using Cons.prems(5,7) by (auto simp: ver_addrs_def)
  then obtain b v s vs where vs: "rd_vers nd = (b, v, s) # vs" "rd_ptr nd = clean b" "vseg (vm_heap m) (clean b) ((b, v, s) # vs)"
    by (cases "rd_vers nd") (auto simp: node_ok_def)
  have "length vs < Suc (vm_brk m)" using vseg_length [OF vs(3) Cons.prems(6)] ok(2) vs(1) by simp
  note ret = retire_versions_spec [OF vs(3) this, of thr]
  let ?l = "l\<lparr>rl_retired := rl_retired l @ [a]\<rparr>"
  let ?m = "m\<lparr>vm_retired := vm_retired m @ map ver_addr (filter (\<lambda>v. ver_ts v \<le> thr) vs)\<rparr>"
  have pre: "nseg True (rl_heap ?l) (after l a) ns t" "rl_tail (rl_heap ?l) t" "\<forall>nd \<in> set ns. node_ok (vm_heap ?m) nd"
    "vmem_ok ?m g" "distinct (concat (map ver_addrs ns))"
    using Cons.prems a(2) by (auto simp: vmem_ok_def)
  have "rl_reclaim_loop n thr (l, m) (clean a) = rl_reclaim_loop n' thr (?l, ?m) (clean (after l a))"
    using n(1) a(1,4) vs(2) ret by (simp add: rl_deref_def rl_load_def tp_defs del: retire_versions.simps)
  then show ?case using Cons.IH [OF pre(1,2) n(2) z pre(3-5)] vs(1) ad by simp
qed

lemma rl_reclaim_spec:
  assumes rep: "rl_rep True l m g ns"
  shows "rl_reclaimMem thr (l, m) = Inr (l\<lparr>rl_retired := rl_retired l @ map rd_addr ns\<rparr>,
    m\<lparr>vm_retired := vm_retired m @ concat (map (\<lambda>nd. map ver_addr (filter (\<lambda>v. ver_ts v \<le> thr) (tl (rd_vers nd)))) ns)\<rparr>)"
proof -
  note d = rl_repD [OF rep]
  obtain t hp where s: "nseg True (rl_heap l) (rl_head l) ((rl_head l, 0, hp, []) # ns) t" "rl_tail (rl_heap l) t"
      "0 \<notin> set (map rd_addr ns)"
    using rl_repE [OF rep] by blast
  note a = after_node [OF s]
  have "length ns < rl_brk l" using rl_rep_fuel [OF rep] by simp
  from rl_reclaim_loop_spec [OF a(2) s(2) this s(3) d(5,7,6), of thr] show ?thesis
    using a(4) by (simp add: rl_reclaimMem_def rl_load_def tp_defs)
qed

section \<open>Sequences of operations\<close>

datatype rl_op = RInsert key_t val_t | RRemove key_t | RSearch key_t val_t | RRange key_t nat int

datatype rl_ret = RInt int | RBool bool | RList "(key_t \<times> val_t) list"

definition rl_step :: "rl_op \<Rightarrow> RList \<times> vmem \<Rightarrow> (rl_ret \<times> RList \<times> vmem) res" where
  "rl_step x lm = (case x of
     RInsert k v \<Rightarrow> bind_res (rl_insert k v lm) (\<lambda>(r, lm'). Inr (RInt r, lm'))
   | RRemove k \<Rightarrow> bind_res (rl_remove k lm) (\<lambda>(r, lm'). Inr (RInt r, lm'))
   | RSearch k v \<Rightarrow> bind_res (rl_search k v lm) (\<lambda>b. Inr (RBool b, lm))
   | RRange low n ts \<Rightarrow> bind_res (rl_range_query low (int n) ts [] lm) (\<lambda>(_, xs, lm'). Inr (RList xs, lm')))"

definition av_step :: "int \<Rightarrow> rl_op \<Rightarrow> alist \<Rightarrow> rl_ret \<times> alist" where
  "av_step g x al = (case x of
     RInsert k v \<Rightarrow> (RInt (fst (av_insert k v g al)), snd (av_insert k v g al))
   | RRemove k \<Rightarrow> (RInt (fst (av_insert k tombstone g al)), snd (av_insert k tombstone g al))
   | RSearch k v \<Rightarrow> (RBool (av_search k v al), al)
   | RRange low n ts \<Rightarrow> (RList (take n (av_range low ts al)), al))"

definition rl_op_ok :: "rl_op \<Rightarrow> bool" where
  "rl_op_ok x = (case x of RInsert k v \<Rightarrow> k < key_max | RRemove k \<Rightarrow> k < key_max
     | RSearch k v \<Rightarrow> 0 < k \<and> k < key_max | RRange low n ts \<Rightarrow> True)"

definition rl_sim :: "int \<Rightarrow> RList \<times> vmem \<Rightarrow> alist \<Rightarrow> bool" where
  "rl_sim g lm al \<longleftrightarrow> \<not> rl_isReclaimed (fst lm) \<and> (\<exists>ns. rl_rep False (fst lm) (snd lm) g ns \<and> rl_abs ns = al)"

interpretation uruv: op_refinement "rl_sim g" rl_step "av_step g" rl_op_ok for g
proof
  fix lm al x
  assume R: "rl_sim g lm al" and ok: "rl_op_ok x"
  obtain l m ns where lm: "lm = (l, m)" "rl_rep False l m g ns" "al = rl_abs ns" "\<not> rl_isReclaimed l"
    using R by (cases lm) (auto simp: rl_sim_def)
  have ins: "\<exists>lm'. rl_insert k v lm = Inr (fst (av_insert k v g al), lm') \<and> rl_sim g lm' (snd (av_insert k v g al))"
    if "k < key_max" for k v
    using rl_insert_refines [OF lm(2) that, of v] lm(1,3,4) by (fastforce simp: rl_sim_def)
  show "\<exists>lm'. rl_step x lm = Inr (fst (av_step g x al), lm') \<and> rl_sim g lm' (snd (av_step g x al))"
  proof (cases x)
    case (RInsert k v)
    then show ?thesis using ins [of k v] ok by (auto simp: rl_op_ok_def rl_step_def av_step_def)
  next
    case (RRemove k)
    then show ?thesis using ins [of k tombstone] ok by (auto simp: rl_op_ok_def rl_step_def av_step_def rl_remove_def)
  next
    case (RSearch k v)
    then show ?thesis
      using rl_search_refines [OF lm(2), of k v] ok R lm(1,3) by (auto simp: rl_op_ok_def rl_step_def av_step_def)
  next
    case (RRange low n ts)
    then show ?thesis
      using rl_range_refines [OF lm(2), of "int n" low ts "[]"] R lm(1,3) by (auto simp: rl_step_def av_step_def)
  qed
qed

lemma RList_new_rep:
  assumes "vmem_ok m g"
  shows "rl_sim g (RList_new m) []"
proof -
  obtain p1 m1 where 1: "Vnode_new 0 null_ptr m = (p1, m1)" by (cases "Vnode_new 0 null_ptr m")
  obtain p2 m2 where 2: "Vnode_new 0 null_ptr m1 = (p2, m2)" by (cases "Vnode_new 0 null_ptr m1")
  have "vmem_ok m1 g" using Vnode_new_spec [OF assms _ 1, of "[]"] by simp
  then have ok: "vmem_ok m2 g" using Vnode_new_spec [OF _ _ 2, of g "[]"] by simp
  show ?thesis
    using 1 2 ok unfolding rl_sim_def rl_rep_def
    by (auto simp: RList_new_def rl_Node_init_def rl_set_def rl_tail_def)
qed

text \<open>C23. Every sequence of insertions, removals, searches and range queries on a new list gives the
  answers of the specification: a sorted association list from keys to versions in which an update
  adds the version stamped with the latest timestamp, a removal adds a deletion, a list of ten keys
  answers -2, a search compares the newest value, and a range query returns the first \<open>n\<close> keys from
  \<open>low\<close> on whose newest version before its timestamp is not a deletion, with that version's value.\<close>

theorem uruv_run_refines:
  assumes "vmem_ok m g" and "list_all rl_op_ok xs"
  shows "\<exists>l' m' ns. run_ops rl_step xs (RList_new m) = Inr (fst (run_spec (av_step g) xs []), l', m')
    \<and> rl_rep False l' m' g ns \<and> rl_abs ns = snd (run_spec (av_step g) xs [])"
proof -
  from uruv.run_refines [OF RList_new_rep [OF assms(1)] assms(2)] show ?thesis by (auto simp: rl_sim_def)
qed

theorem uruv_run_refines_witness:
  "\<exists>l' m' ns. run_ops rl_step [RInsert 5 50, RInsert 3 30, RRemove 5, RSearch 3 30, RRange 1 9 1] (RList_new vmem_new)
      = Inr ([RInt 1, RInt 1, RInt 0, RBool True, RList [(3, 30)]], l', m')
    \<and> rl_rep False l' m' 0 ns \<and> rl_abs ns = [(3, [(30, 0)]), (5, [(- 1, 0), (50, 0)])]"
proof -
  have "run_spec (av_step 0) [RInsert 5 50, RInsert 3 30, RRemove 5, RSearch 3 30, RRange 1 9 1] [] =
      ([RInt 1, RInt 1, RInt 0, RBool True, RList [(3, 30)]], [(3, [(30, 0)]), (5, [(- 1, 0), (50, 0)])])"
    by (simp add: av_step_def av_insert_def av_search_def av_range_def threshhold_def List.map_filter_simps)
  moreover have "list_all rl_op_ok [RInsert 5 50, RInsert 3 30, RRemove 5, RSearch 3 30, RRange 1 9 1]"
    by (simp add: rl_op_ok_def word_less_alt uint_word_ariths)
  ultimately show ?thesis using uruv_run_refines [OF vmem_ok_new] by fastforce
qed

text \<open>Collecting a list that was not reclaimed returns its keys in order with the heads of their
  chains, freezes it, and changes neither the keys nor the versions: range queries on the frozen
  list answer as before, and an insertion is refused with -1 (or -2 when the list is full).\<close>

theorem collect_freezes:
  assumes "rl_rep f l m g ns" and "\<not> rl_isReclaimed l"
  shows "\<exists>l'. rl_collect l = Inr (True, map (\<lambda>nd. (rd_key nd, rd_ptr nd)) ns, l') \<and> rl_rep True l' m g ns
    \<and> (\<forall>key val. rl_insert key val (l', m) = Inr (if threshhold \<le> length ns then - 2 else - 1, l', m))
    \<and> (\<forall>low n ts. \<exists>r xs. rl_range_query low (int n) ts [] (l', m) = Inr (r, xs, l', m)
             \<and> rl_range_query low (int n) ts [] (l, m) = Inr (r, xs, l, m))"
proof -
  obtain l' where l': "rl_collect l = Inr (True, map (\<lambda>nd. (rd_key nd, rd_ptr nd)) ns, l')" "rl_rep True l' m g ns"
    using rl_collect_correct [OF assms] by blast
  have "rl_insert key val (l', m) = Inr (if threshhold \<le> length ns then - 2 else - 1, l', m)" for key val
    using frozen_insert [OF l'(2)] rl_repD(4) [OF l'(2)] by (cases "threshhold \<le> length ns") (auto simp: rl_insert_def)
  then show ?thesis using l' rl_range_refines [OF l'(2)] rl_range_refines [OF assms(1)] by auto
qed

lemma rl_rep_tracker:
  "rl_rep f l m g ns \<Longrightarrow> get_latest_timestamp tr = Inr g' \<Longrightarrow> 0 \<le> g' \<Longrightarrow> rl_rep f l (m\<lparr>vm_tracker := tr\<rparr>) g' ns"
  unfolding rl_rep_def by (auto simp: vmem_ok_def)

text \<open>An example: a key is inserted, a range query starts, the key is updated.\<close>

definition tracker_ex :: TrackerList where
  "tracker_ex = (case add_timestamp TrackerList_new of Inr (_, tr) \<Rightarrow> tr | Inl _ \<Rightarrow> TrackerList_new)"

definition rlist_ex :: "(RList \<times> vmem) res" where
  "rlist_ex =
     bind_res (rl_insert 5 50 (RList_new vmem_new)) (\<lambda>(_, l, m).
     bind_res (rl_insert 5 60 (l, m\<lparr>vm_tracker := tracker_ex\<rparr>)) (\<lambda>(_, lm). Inr lm))"

lemma tracker_ex_latest: "get_latest_timestamp tracker_ex = Inr 1"
proof -
  have "tchain TrackerList_new [2]" using tinv_init by (simp add: tinv_def tsys_init_def)
  then obtain a tr nd where "add_timestamp TrackerList_new = Inr (a, tr)" "tl_tail tr = a" "tl_heap tr a = Some nd" "tn_ts nd = 1"
    using add_timestamp_returns [of TrackerList_new "[2]"] by auto
  then show ?thesis by (auto simp: tracker_ex_def get_latest_timestamp_def tl_load_def)
qed

lemma rl_abs_single: "rl_abs ns = [(k, ws)] \<Longrightarrow> \<exists>a p vs. ns = [(a, k, p, vs)] \<and> map snd vs = ws"
  by (cases ns) (auto simp: rl_abs_def)

lemma rlist_ex_rep:
  "\<exists>l m a p vs. rlist_ex = Inr (l, m) \<and> \<not> rl_isReclaimed l \<and> rl_rep False l m 1 [(a, 5, p, vs)] \<and> map snd vs = [(60, 1), (50, 0)]"
proof -
  have k: "(5 :: key_t) < key_max" by (simp add: word_less_alt uint_word_ariths)
  obtain l m where new: "RList_new vmem_new = (l, m)" "\<not> rl_isReclaimed l" "rl_rep False l m 0 []"
    using RList_new_rep [OF vmem_ok_new] by (cases "RList_new vmem_new") (auto simp: rl_sim_def rl_abs_def)
  obtain l1 m1 n1 where 1: "rl_insert 5 50 (l, m) = Inr (1, l1, m1)" "\<not> rl_isReclaimed l1" "rl_rep False l1 m1 0 n1"
      "rl_abs n1 = [(5, [(50, 0)])]"
    using rl_insert_refines [OF new(3) k, of 50] new(2) by (auto simp: av_insert_def threshhold_def)
  obtain l2 m2 n2 where 2: "rl_insert 5 60 (l1, m1\<lparr>vm_tracker := tracker_ex\<rparr>) = Inr (0, l2, m2)" "\<not> rl_isReclaimed l2"
      "rl_rep False l2 m2 1 n2" "rl_abs n2 = [(5, [(60, 1), (50, 0)])]"
    using rl_insert_refines [OF rl_rep_tracker [OF 1(3) tracker_ex_latest] k, of 60] 1(2,4)
    by (auto simp: av_insert_def threshhold_def)
  obtain a p vs where "n2 = [(a, 5, p, vs)]" "map snd vs = [(60, 1), (50, 0)]" 
    using rl_abs_single [OF 2(4)] by (elim exE conjE) (rule that)
  moreover have "rlist_ex = Inr (l2, m2)" unfolding rlist_ex_def new(1) 1(1) bind_res_simps prod.case 2(1) ..
  ultimately show ?thesis using 2(2,3) by (metis (no_types))
qed

theorem collect_freezes_witness:
  "\<exists>l m p l'. rlist_ex = Inr (l, m) \<and> rl_collect l = Inr (True, [(5, p)], l') \<and> rl_insert 7 70 (l', m) = Inr (- 1, l', m)"
proof -
  obtain l m a p vs where "rlist_ex = Inr (l, m)" "\<not> rl_isReclaimed l" "rl_rep False l m 1 [(a, 5, p, vs)]"
    using rlist_ex_rep by blast
  moreover from collect_freezes [OF this(3,2)] obtain l' where "rl_collect l = Inr (True, [(5, p)], l')"
      "rl_insert 7 70 (l', m) = Inr (- 1, l', m)"
    by (auto simp: threshhold_def)
  ultimately show ?thesis by blast
qed

lemma getVersionedValue_node:
  assumes "node_ok (vm_heap m) (a, k, p, vs)" and "vmem_ok m g" and "distinct (ver_addrs (a, k, p, vs))"
    and "value_at ts vs = Some w"
  shows "getVersionedValue (VersionedArray_of k p) ts m = Inr (w, m)"
proof -
  note look = node_lookup [OF assms(1-3)]
  obtain q where q: "walk_versions (Suc (vm_brk m)) p ts m = Inr q"
      "\<forall>v. value_at ts vs = Some v \<longrightarrow> tp_true q \<and> v \<noteq> tombstone \<and> (\<exists>vn. vn_load m q = Inr vn \<and> vn_value vn = v)"
    using look(3) [of ts] by auto
  then obtain vn where "tp_true q" "w \<noteq> tombstone" "vn_load m q = Inr vn" "vn_value vn = w" using assms(4) by blast
  moreover have "tp_unset_mark p = p" using look(1) by (cases p) (auto simp: tp_defs)
  ultimately show ?thesis
    using q(1) look(2) by (simp add: getVersionedValue_def VersionedArray_of_def del: walk_versions.simps)
qed

text \<open>Reclaiming a collected list hands every list node to the record manager and of each chain the
  versions behind the head that are not newer than the threshold. The chain itself is not cut and is
  the chain of the node the keys moved to: a range query with timestamp \<open>ts\<close> there still reads the
  newest version before \<open>ts\<close>, which has been handed over when it is old enough and not the head.\<close>

theorem reclaim_retires_visible_version:
  assumes "rl_rep True l m g ns" and "(a, k, p, vs) \<in> set ns" and "version_at ts vs = Some v" and "v \<in> set (tl vs)"
    and "ver_ts v \<le> threshold" and "ver_value v \<noteq> tombstone"
  shows "\<exists>l' m'. rl_reclaimMem threshold (l, m) = Inr (l', m') \<and> rl_retired l' = rl_retired l @ map rd_addr ns
    \<and> ver_addr v \<in> set (vm_retired m')
    \<and> getVersionedValue (VersionedArray_of k p) ts m' = Inr (ver_value v, m')"
proof -
  note d = rl_repD [OF assms(1)]
  let ?m = "m\<lparr>vm_retired := vm_retired m @ concat (map (\<lambda>nd. map ver_addr (filter (\<lambda>v. ver_ts v \<le> threshold) (tl (rd_vers nd)))) ns)\<rparr>"
  have "ver_addr v \<in> set (vm_retired ?m)" using assms(2,4,5) by (force intro!: bexI [of _ "(a, k, p, vs)"])
  moreover have "node_ok (vm_heap ?m) (a, k, p, vs)" "vmem_ok ?m g" using d(5,7) assms(2) by (auto simp: vmem_ok_def)
  moreover have "distinct (ver_addrs (a, k, p, vs))" using d(6) assms(2) by (auto simp: distinct_concat_iff)
  moreover have "value_at ts vs = Some (ver_value v)" using assms(3,6) by (simp add: value_at_def)
  ultimately show ?thesis
    using rl_reclaim_spec [OF assms(1), of threshold] getVersionedValue_node [of ?m a k p vs g ts "ver_value v"]
    by (intro exI [of _ "l\<lparr>rl_retired := rl_retired l @ map rd_addr ns\<rparr>"] exI [of _ ?m]) simp
qed

theorem reclaim_retires_visible_version_witness:
  "\<exists>l m l1 l2 m2 a p. rlist_ex = Inr (l, m) \<and> rl_collect l = Inr (True, [(5, p)], l1)
    \<and> rl_reclaimMem 0 (l1, m) = Inr (l2, m2) \<and> a \<in> set (vm_retired m2)
    \<and> getVersionedValue (VersionedArray_of 5 p) 1 m2 = Inr (50, m2)"
proof -
  obtain l m a p vs where ex: "rlist_ex = Inr (l, m)" "\<not> rl_isReclaimed l" "rl_rep False l m 1 [(a, 5, p, vs)]"
      "map snd vs = [(60, 1), (50, 0)]"
    using rlist_ex_rep by (elim exE conjE) (rule that)
  then obtain b c where vs: "vs = [(b, 60, 1), (c, 50, 0)]" by auto
  obtain l1 where l1: "rl_collect l = Inr (True, [(5, p)], l1)" "rl_rep True l1 m 1 [(a, 5, p, vs)]"
    using rl_collect_correct [OF ex(3,2)] by auto
  have "(50 :: val_t) \<noteq> - 1" by (simp add: word_eq_iff_unsigned)
  then obtain l2 m2 where "rl_reclaimMem 0 (l1, m) = Inr (l2, m2)" "c \<in> set (vm_retired m2)"
      "getVersionedValue (VersionedArray_of 5 p) 1 m2 = Inr (50, m2)"
    using reclaim_retires_visible_version [OF l1(2), of a 5 p vs 1 "(c, 50, 0)" 0] vs by auto
  then show ?thesis using ex(1) l1(1) by blast
qed

end
