(* ===== verification/Kanva_RS_Model.thy ===== *)
theory Kanva_RS_Model
  imports Uruv_Refine LR_Model
begin

text \<open>
  The learned node of the range-query variant: \<open>Kanva_RS/kanva_RS_model.h\<close> and
  \<open>Kanva_RS/kanva_RS_model_impl.h\<close>.

  A node keeps an array of versioned cells, sorted by key, a linear model, and between the keys slots
  that are empty, a versioned list, or a node trained from a full list. The tree of nodes is a value;
  the version store \<open>vmem\<close> is passed along, since cells take over the chains of a list. As in the
  sources, \<open>valid_flag\<close> and \<open>err\<close> are never read and the error bound \<open>maxErr\<close> is stored only.

  The search in the array gallops up and down from the predicted position and ends with a binary
  search, in \<open>int\<close>: an addition of a power of two that leaves the range of \<open>int\<close> is
  \<open>Inl Overflow\<close>. It returns 0 for a key that is not in the array.

  Insertion, removal and the range query take fuel (a list may turn into a node on the way); the bounds
  \<open>rs_depth\<close> and \<open>rs_scan_fuel\<close> are enough.
\<close>

section \<open>Nodes\<close>

datatype 'd RSModel =
  RSModel (rm_w0: 'd) (rm_w1: 'd) (rm_maxErr: nat) (rm_arr: "VersionedArray list")
    (rm_mobs: "'d rs_mob option list")
and 'd rs_mob = RBin RList | RNode "'d RSModel"

record 'd rs_env =
  re_fp :: "'d fp_ops"
  re_w :: 'd
  re_b :: 'd

text \<open>The constructor from a list's keys and the heads of their chains.\<close>

definition RSModel_of :: "'d lr_model \<Rightarrow> key_t list \<Rightarrow> nat \<Rightarrow> nat \<Rightarrow> tptr list \<Rightarrow> 'd RSModel res" where
  "RSModel_of lr ks sz maxErr version_lists =
     (if length ks < sz \<or> length version_lists < sz then Inl OutOfRange
      else Inr (RSModel (lr_w0 lr) (lr_w1 lr) maxErr
                  (map2 VersionedArray_of (take sz ks) (take sz version_lists)) (replicate (sz + 1) None)))"

text \<open>The constructor from keys and values allocates one version for each cell.\<close>

fun new_cells :: "(key_t \<times> val_t) list \<Rightarrow> vmem \<Rightarrow> VersionedArray list \<times> vmem" where
  "new_cells [] m = ([], m)"
| "new_cells ((k, v) # kvs) m =
     (let (c, m1) = VersionedArray_new k v m; (cs, m2) = new_cells kvs m1 in (c # cs, m2))"

definition RSModel_new ::
    "'d lr_model \<Rightarrow> key_t list \<Rightarrow> val_t list \<Rightarrow> nat \<Rightarrow> nat \<Rightarrow> vmem \<Rightarrow> ('d RSModel \<times> vmem) res" where
  "RSModel_new lr ks vs sz maxErr m =
     (if length ks < sz \<or> length vs < sz then Inl OutOfRange
      else let (cs, m') = new_cells (zip (take sz ks) (take sz vs)) m
           in Inr (RSModel (lr_w0 lr) (lr_w1 lr) maxErr cs (replicate (sz + 1) None), m'))"

definition rs_capacity :: "'d RSModel \<Rightarrow> nat" where
  "rs_capacity m = length (rm_arr m)"

section \<open>Locating a key\<close>

definition rs_predict :: "'d rs_env \<Rightarrow> 'd RSModel \<Rightarrow> key_t \<Rightarrow> nat" where
  "rs_predict env m key =
     (let index_pos = unat (lr_predict (re_fp env) (lr_new (rm_w0 m) (rm_w1 m)) key)
      in if index_pos < rs_capacity m then index_pos else sz_sub (rs_capacity m) 1)"

function gallop_up :: "VersionedArray list \<Rightarrow> key_t \<Rightarrow> int \<Rightarrow> int \<Rightarrow> nat \<Rightarrow> int res" where
  "gallop_up arr key upbound i e =
     (if i \<le> upbound then
        bind_res (nth_int arr i) (\<lambda>c.
          if va_key c < key then
            (if i + 2 ^ e < 2 ^ 31 then gallop_up arr key upbound (i + 2 ^ e) (Suc e) else Inl Overflow)
          else Inr i)
      else Inr i)"
  by pat_completeness auto
termination by (relation "measure (\<lambda>(_, _, up, i, _). nat (up + 1 - i))") auto

function gallop_down :: "VersionedArray list \<Rightarrow> key_t \<Rightarrow> int \<Rightarrow> nat \<Rightarrow> int res" where
  "gallop_down arr key i e =
     (if 0 < i then
        bind_res (nth_int arr i) (\<lambda>c.
          if key < va_key c then
            (if - (2 ^ 31) \<le> i - 2 ^ e then gallop_down arr key (i - 2 ^ e) (Suc e) else Inl Overflow)
          else Inr i)
      else Inr i)"
  by pat_completeness auto
termination by (relation "measure (\<lambda>(_, _, i, _). nat i)") auto

function find_exact :: "VersionedArray list \<Rightarrow> key_t \<Rightarrow> int \<Rightarrow> int \<Rightarrow> nat res" where
  "find_exact arr key left right =
     (if left \<le> right then
        let m = left + (right - left) div 2 in
        bind_res (nth_int arr m) (\<lambda>c.
          if va_key c = key then Inr (nat m)
          else if va_key c < key then find_exact arr key (m + 1) right
          else find_exact arr key left (m - 1))
      else Inr 0)"
  by pat_completeness auto
termination by (relation "measure (\<lambda>(_, _, left, right). nat (right + 1 - left))") auto

declare gallop_up.simps [simp del] gallop_down.simps [simp del] find_exact.simps [simp del]

text \<open>\<open>return -1\<close> as a \<open>size_t\<close>.\<close>

definition rs_locate :: "'d RSModel \<Rightarrow> key_t \<Rightarrow> nat \<Rightarrow> nat res" where
  "rs_locate m key pos =
     (let arr = rm_arr m; index_pos = to_i32 (int pos); upbound = to_i32 (int (sz_sub (rs_capacity m) 1)) in
      if index_pos < 0 \<or> upbound < index_pos then Inr (2 ^ 64 - 1)
      else
        bind_res (gallop_up arr key upbound index_pos 0) (\<lambda>i.
        let right = (if upbound < i then upbound else i) in
        if right < 0 \<or> upbound < right then Inr (2 ^ 64 - 1)
        else bind_res (gallop_down arr key right 1) (\<lambda>j. find_exact arr key (if j < 0 then 0 else j) right)))"

text \<open>The first steps of the operations: the position and the cell there; the slot for another key.\<close>

definition rs_pos :: "'d rs_env \<Rightarrow> 'd RSModel \<Rightarrow> key_t \<Rightarrow> (nat \<times> VersionedArray) res" where
  "rs_pos env m key =
     bind_res (rs_locate m key (rs_predict env m key)) (\<lambda>pos.
     bind_res (nth_res (rm_arr m) pos) (\<lambda>c. Inr (pos, c)))"

definition rs_bin_pos :: "key_t \<Rightarrow> nat \<times> VersionedArray \<Rightarrow> nat" where
  "rs_bin_pos key pc = (if key < va_key (snd pc) then fst pc else fst pc + 1)"

section \<open>Operations\<close>

lemma rs_slot_size:
  assumes "nth_res (rm_mobs m) i = Inr (Some (RNode ai))"
  shows "size ai < size m"
proof -
  from assms have "Some (RNode ai) \<in> set (rm_mobs m)"
    by (auto simp: nth_res_def split: if_splits) (metis nth_mem)
  then have "size_option size (Some (RNode ai)) \<le> size_list (size_option size) (rm_mobs m)"
    by (rule size_list_estimation') simp
  then show ?thesis by (cases m) simp
qed

text \<open>\<open>find_retrain\<close>: the answer and the caller's \<open>val\<close> afterwards.\<close>

function rs_find :: "'d rs_env \<Rightarrow> 'd RSModel \<Rightarrow> key_t \<Rightarrow> val_t \<Rightarrow> vmem \<Rightarrow> (bool \<times> val_t) res" where
  "rs_find env m key val vm =
     bind_res (rs_pos env m key) (\<lambda>pc.
       if key = va_key (snd pc) then
         bind_res (getValue (snd pc) vm) (\<lambda>retrieved_val.
           if retrieved_val \<noteq> tombstone then Inr (True, retrieved_val) else Inr (False, val))
       else
         bind_res (nth_res (rm_mobs m) (rs_bin_pos key pc)) (\<lambda>mob.
           case mob of None \<Rightarrow> Inr (False, val)
           | Some (RBin l) \<Rightarrow> bind_res (rl_search key val (l, vm)) (\<lambda>b. Inr (b, val))
           | Some (RNode ai) \<Rightarrow> rs_find env ai key val vm))"
  by pat_completeness auto
termination by (relation "measure (\<lambda>(_, m, _). size m)") (auto intro: rs_slot_size)

declare rs_find.simps [simp del]

definition rs_set_slot :: "nat \<Rightarrow> 'd rs_mob \<Rightarrow> 'd RSModel \<Rightarrow> 'd RSModel" where
  "rs_set_slot i mob m = RSModel (rm_w0 m) (rm_w1 m) (rm_maxErr m) (rm_arr m) ((rm_mobs m)[i := Some mob])"

definition rs_set_cell :: "nat \<Rightarrow> VersionedArray \<Rightarrow> 'd RSModel \<Rightarrow> 'd RSModel" where
  "rs_set_cell i c m = RSModel (rm_w0 m) (rm_w1 m) (rm_maxErr m) ((rm_arr m)[i := c]) (rm_mobs m)"

text \<open>A full list is collected and a node trained from its keys and chains; afterwards the list is
  marked as reclaimed and its memory retired up to the oldest timestamp. \<open>None\<close> is \<open>goto retry\<close>.\<close>

definition rs_retrain :: "'d rs_env \<Rightarrow> RList \<Rightarrow> vmem \<Rightarrow> ((RList \<times> 'd RSModel option) \<times> vmem) res" where
  "rs_retrain env l vm =
     bind_res (rl_collect l) (\<lambda>(collectResult, kps, l1).
       if \<not> collectResult then Inr ((l1, None), vm)
       else
         bind_res (lr_train_range (re_fp env) (lr_new (re_w env) (re_b env)) (map fst kps)) (\<lambda>lr.
         bind_res (RSModel_of lr (map fst kps) (length kps) (unat (lr_maxErr lr)) (map snd kps)) (\<lambda>ai.
           if rl_isReclaimed l1 then Inr ((l1, None), vm)
           else
             bind_res (get_oldest_timestamp (vm_tracker vm)) (\<lambda>(ts, tr).
             bind_res (rl_reclaimMem ts (l1\<lparr>rl_isReclaimed := True\<rparr>, vm\<lparr>vm_tracker := tr\<rparr>)) (\<lambda>(l2, vm1).
               Inr ((l2, Some ai), vm1))))))"

fun rs_insert ::
    "nat \<Rightarrow> 'd rs_env \<Rightarrow> 'd RSModel \<Rightarrow> key_t \<Rightarrow> val_t \<Rightarrow> vmem \<Rightarrow> (bool \<times> 'd RSModel \<times> vmem) res"
  and rs_insert_mob ::
    "nat \<Rightarrow> 'd rs_env \<Rightarrow> 'd RSModel \<Rightarrow> key_t \<Rightarrow> val_t \<Rightarrow> nat \<Rightarrow> vmem \<Rightarrow> (bool \<times> 'd RSModel \<times> vmem) res" where
  "rs_insert 0 env m key val vm = Inl OutOfFuel"
| "rs_insert (Suc n) env m key val vm =
     bind_res (rs_pos env m key) (\<lambda>pc.
       if key = va_key (snd pc) then
         bind_res (getValue (snd pc) vm) (\<lambda>v.
           if v \<noteq> tombstone then Inr (False, m, vm)
           else bind_res (va_insert (snd pc) val vm) (\<lambda>(r, c, vm1). Inr (r, rs_set_cell (fst pc) c m, vm1)))
       else rs_insert_mob n env m key val (rs_bin_pos key pc) vm)"
| "rs_insert_mob 0 env m key val i vm = Inl OutOfFuel"
| "rs_insert_mob (Suc n) env m key val i vm =
     bind_res (nth_res (rm_mobs m) i) (\<lambda>slot.
       let (mob, vm0) = (case slot of None \<Rightarrow> (let (l, vm') = RList_new vm in (RBin l, vm')) | Some mob \<Rightarrow> (mob, vm)) in
       case mob of
         RBin l \<Rightarrow>
           bind_res (rl_insert key val (l, vm0)) (\<lambda>(res, l1, vm1).
             if res = - 2 then
               bind_res (rs_retrain env l1 vm1) (\<lambda>((l2, new_ai), vm2).
                 case new_ai of
                   None \<Rightarrow> rs_insert_mob n env (rs_set_slot i (RBin l2) m) key val i vm2
                 | Some ai \<Rightarrow>
                     bind_res (rs_insert n env ai key val vm2) (\<lambda>(r, ai', vm3). Inr (r, rs_set_slot i (RNode ai') m, vm3)))
             else Inr (res \<ge> 0, rs_set_slot i (RBin l1) m, vm1))
       | RNode ai \<Rightarrow>
           bind_res (rs_insert n env ai key val vm0) (\<lambda>(r, ai', vm1). Inr (r, rs_set_slot i (RNode ai') m, vm1)))"

fun rs_remove :: "nat \<Rightarrow> 'd rs_env \<Rightarrow> 'd RSModel \<Rightarrow> key_t \<Rightarrow> vmem \<Rightarrow> (bool \<times> 'd RSModel \<times> vmem) res"
  and rs_remove_mob :: "nat \<Rightarrow> 'd rs_env \<Rightarrow> 'd RSModel \<Rightarrow> key_t \<Rightarrow> nat \<Rightarrow> vmem \<Rightarrow> (bool \<times> 'd RSModel \<times> vmem) res" where
  "rs_remove 0 env m key vm = Inl OutOfFuel"
| "rs_remove (Suc n) env m key vm =
     bind_res (rs_pos env m key) (\<lambda>pc.
       if key = va_key (snd pc) then
         bind_res (getValue (snd pc) vm) (\<lambda>v.
           if v \<noteq> tombstone then
             bind_res (va_insert (snd pc) tombstone vm) (\<lambda>(r, c, vm1). Inr (r, rs_set_cell (fst pc) c m, vm1))
           else Inr (False, m, vm))
       else rs_remove_mob n env m key (rs_bin_pos key pc) vm)"
| "rs_remove_mob n env m key i vm =
     bind_res (nth_res (rm_mobs m) i) (\<lambda>slot.
       case slot of
         None \<Rightarrow> Inr (False, m, vm)
       | Some (RBin l) \<Rightarrow>
           bind_res (rl_remove key (l, vm)) (\<lambda>(res, l1, vm1).
             Inr (if res = - 2 then False else res \<ge> 0, rs_set_slot i (RBin l1) m, vm1))
       | Some (RNode ai) \<Rightarrow>
           bind_res (rs_remove n env ai key vm) (\<lambda>(r, ai', vm1). Inr (r, rs_set_slot i (RNode ai') m, vm1)))"

text \<open>\<open>update\<close> is not implemented: it reports success and changes nothing.\<close>

definition rs_update :: "'d RSModel \<Rightarrow> key_t \<Rightarrow> val_t \<Rightarrow> vmem \<Rightarrow> bool \<times> 'd RSModel \<times> vmem" where
  "rs_update m key val vm = (True, m, vm)"

text \<open>\<open>scan\<close>: \<open>remaining\<close> is a \<open>size_t\<close>, the lists and nodes return an \<open>int\<close>. The value of a cell is
  taken first, then the slot behind it; only the stamps of versions change.\<close>

definition scan_cell ::
    "'d RSModel \<Rightarrow> key_t \<Rightarrow> nat \<Rightarrow> nat \<times> (key_t \<times> val_t) list \<Rightarrow> int \<Rightarrow> vmem
      \<Rightarrow> ((nat \<times> (key_t \<times> val_t) list) \<times> vmem) res" where
  "scan_cell m key pos rr ts vm =
     (if pos < rs_capacity m \<and> key \<le> va_key (rm_arr m ! pos) then
        bind_res (getVersionedValue (rm_arr m ! pos) ts vm) (\<lambda>(v, vm1).
          Inr (if v \<noteq> tombstone then (fst rr - 1, snd rr @ [(va_key (rm_arr m ! pos), v)]) else rr, vm1))
      else Inr (rr, vm))"

fun rs_scan ::
    "nat \<Rightarrow> 'd rs_env \<Rightarrow> 'd RSModel \<Rightarrow> key_t \<Rightarrow> nat \<times> (key_t \<times> val_t) list \<Rightarrow> int \<Rightarrow> vmem
      \<Rightarrow> ((int \<times> (key_t \<times> val_t) list) \<times> vmem) res"
  and rs_scan_loop ::
    "nat \<Rightarrow> 'd rs_env \<Rightarrow> 'd RSModel \<Rightarrow> key_t \<Rightarrow> nat \<times> (key_t \<times> val_t) list \<Rightarrow> int \<Rightarrow> vmem \<Rightarrow> nat
      \<Rightarrow> ((int \<times> (key_t \<times> val_t) list) \<times> vmem) res" where
  "rs_scan 0 env m key rr ts vm = Inl OutOfFuel"
| "rs_scan (Suc f) env m key rr ts vm =
     bind_res (rs_locate m key (rs_predict env m key)) (\<lambda>pos. rs_scan_loop f env m key rr ts vm pos)"
| "rs_scan_loop 0 env m key rr ts vm pos = Inl OutOfFuel"
| "rs_scan_loop (Suc f) env m key rr ts vm pos =
     (if fst rr = 0 \<or> rs_capacity m < pos then Inr ((to_i32 (int (fst rr)), snd rr), vm)
      else
        bind_res (scan_cell m key pos rr ts vm) (\<lambda>(rr1, vm1).
          if fst rr1 = 0 \<or> rs_capacity m < pos + 1 then Inr ((to_i32 (int (fst rr1)), snd rr1), vm1)
          else
            bind_res (nth_res (rm_mobs m) (pos + 1)) (\<lambda>slot.
              case slot of
                None \<Rightarrow> rs_scan_loop f env m key rr1 ts vm1 (pos + 1)
              | Some (RBin l) \<Rightarrow>
                  bind_res (rl_range_query key (int (fst rr1)) ts (snd rr1) (l, vm1)) (\<lambda>(r, result, l1, vm2).
                    rs_scan_loop f env m key (sz_of_int r, result) ts vm2 (pos + 1))
              | Some (RNode ai) \<Rightarrow>
                  bind_res (rs_scan f env ai key rr1 ts vm1) (\<lambda>(rr2, vm2).
                    rs_scan_loop f env m key (sz_of_int (fst rr2), snd rr2) ts vm2 (pos + 1)))))"

text \<open>\<open>self_check\<close>: the keys are strictly increasing, here and in every node below.\<close>

function rs_self_check :: "'d RSModel \<Rightarrow> bool" where
  "rs_self_check m \<longleftrightarrow>
     (\<forall>i \<in> {1..<rs_capacity m}. va_key (rm_arr m ! (i - 1)) < va_key (rm_arr m ! i))
     \<and> (\<forall>i \<in> {0..rs_capacity m}. case nth_res (rm_mobs m) i of Inr (Some (RNode ai)) \<Rightarrow> rs_self_check ai | _ \<Rightarrow> True)"
  by pat_completeness auto
termination by (relation "measure size") (auto dest: rs_slot_size)

declare rs_self_check.simps [simp del]

fun rs_depth :: "'d RSModel \<Rightarrow> nat" and rs_mob_depth :: "'d rs_mob \<Rightarrow> nat" where
  "rs_depth (RSModel w0 w1 e arr mobs) =
     Suc (fold max (map (\<lambda>s. case s of None \<Rightarrow> 0 | Some mob \<Rightarrow> rs_mob_depth mob) mobs) 0)"
| "rs_mob_depth (RBin l) = 0"
| "rs_mob_depth (RNode ai) = rs_depth ai"

fun rs_scan_fuel :: "'d RSModel \<Rightarrow> nat" and rs_mob_fuel :: "'d rs_mob \<Rightarrow> nat" where
  "rs_scan_fuel (RSModel w0 w1 e arr mobs) =
     2 * length arr + 5 + fold max (map (\<lambda>s. case s of None \<Rightarrow> 0 | Some mob \<Rightarrow> rs_mob_fuel mob) mobs) 0"
| "rs_mob_fuel (RBin l) = 0"
| "rs_mob_fuel (RNode ai) = rs_scan_fuel ai"

end
