(* ===== verification/Kanva_RS_Model_Spec.thy ===== *)
theory Kanva_RS_Model_Spec
  imports Kanva_RS_Model
begin

text \<open>
  What the operations of a node of the range-query variant do. The search in the array is exact for
  every prediction, so nothing here depends on the floating-point arithmetic, except that the
  assertions of the training loop may fail.

  The store of versions only grows: an operation adds versions and stamps unstamped ones (\<open>vext\<close>).
  Cells and lists are therefore unaffected by what happens elsewhere in the tree.
\<close>

section \<open>Locating a key\<close>

abbreviation arr_keys :: "VersionedArray list \<Rightarrow> key_t list" where
  "arr_keys arr \<equiv> map va_key arr"

lemma gallop_up_spec:
  assumes "upbound < int (length arr)" and "int (length arr) \<le> 2 ^ 30" and "0 \<le> i" and "2 ^ e \<le> i + 1"
  shows "\<exists>r. gallop_up arr key upbound i e = Inr r \<and> i \<le> r \<and> (r \<le> upbound \<longrightarrow> key \<le> va_key (arr ! nat r))"
  using assms
proof (induction arr key upbound i e rule: gallop_up.induct)
  case (1 arr key upbound i e)
  show ?case
  proof (cases "i \<le> upbound \<and> va_key (arr ! nat i) < key")
    case True
    have "i + 2 ^ e < 2 ^ 31" using True 1(2,3,5) by simp
    moreover have "nth_int arr i = Inr (arr ! nat i)" using True "1.prems" by simp
    moreover have "(2 :: int) ^ Suc e \<le> i + 2 ^ e + 1" "0 \<le> i + 2 ^ e" using "1.prems"(3,4) by simp_all
    ultimately obtain r where "gallop_up arr key upbound (i + 2 ^ e) (Suc e) = Inr r" "i + 2 ^ e \<le> r"
        "r \<le> upbound \<longrightarrow> key \<le> va_key (arr ! nat r)"
      using "1.IH" [of "arr ! nat i"] True "1.prems"(1,2) by auto
    moreover from this(2) have "i \<le> r" using order_trans [of i "i + 2 ^ e" r] by simp
    ultimately show ?thesis
      using True \<open>nth_int arr i = _\<close> \<open>i + 2 ^ e < 2 ^ 31\<close> by (auto simp: gallop_up.simps [of arr key upbound i e])
  next
    case False
    then show ?thesis using "1.prems" by (auto simp: gallop_up.simps [of arr key upbound i e] not_less)
  qed
qed

lemma gallop_down_spec:
  assumes "i < int (length arr)" and "c \<le> 2 ^ 30 + 2" and "2 ^ e \<le> c - i"
  shows "\<exists>r. gallop_down arr key i e = Inr r \<and> r \<le> i \<and> (0 < r \<longrightarrow> va_key (arr ! nat r) \<le> key)"
  using assms
proof (induction arr key i e rule: gallop_down.induct)
  case (1 arr key i e)
  show ?case
  proof (cases "0 < i \<and> key < va_key (arr ! nat i)")
    case True
    have "- (2 ^ 31) \<le> i - 2 ^ e" using True 1(3,4) by simp
    moreover have "nth_int arr i = Inr (arr ! nat i)" using True "1.prems" by simp
    moreover have "(2 :: int) ^ Suc e \<le> c - (i - 2 ^ e)" "i - 2 ^ e < int (length arr)"
      using "1.prems"(1,3) by (simp_all add: diff_less_eq order.strict_trans)
    ultimately obtain r where "gallop_down arr key (i - 2 ^ e) (Suc e) = Inr r" "r \<le> i - 2 ^ e"
        "0 < r \<longrightarrow> va_key (arr ! nat r) \<le> key"
      using "1.IH" [of "arr ! nat i"] True "1.prems"(2) by auto
    moreover from this(2) have "r \<le> i" using order_trans [of r "i - 2 ^ e" i] by simp
    ultimately show ?thesis
      using True \<open>nth_int arr i = _\<close> \<open>- (2 ^ 31) \<le> i - 2 ^ e\<close> by (auto simp: gallop_down.simps [of arr key i e])
  next
    case False
    then show ?thesis using "1.prems" by (auto simp: gallop_down.simps [of arr key i e] not_less)
  qed
qed

lemma find_exact_absent:
  assumes "key \<notin> set (arr_keys arr)" and "0 \<le> left" and "right < int (length arr)"
  shows "find_exact arr key left right = Inr 0"
  using assms
proof (induction arr key left right rule: find_exact.induct)
  case (1 arr key left right)
  let ?m = "left + (right - left) div 2"
  show ?case
  proof (cases "left \<le> right")
    case True
    then have m: "0 \<le> ?m" "?m < int (length arr)" "?m \<le> right" using "1.prems" by linarith+
    then have "arr ! nat ?m \<in> set arr" by (intro nth_mem) (simp add: nat_less_iff)
    then have "va_key (arr ! nat ?m) \<noteq> key" using "1.prems"(1) by auto
    then show ?thesis
      using "1.IH" [OF True refl, of "arr ! nat ?m"] m "1.prems" by (simp add: find_exact.simps [of arr key left right] Let_def)
  next
    case False
    then show ?thesis by (simp add: find_exact.simps [of arr key left right])
  qed
qed

lemma find_exact_present:
  assumes "ssorted (arr_keys arr)" and "j < length arr" and "va_key (arr ! j) = key"
    and "0 \<le> left" and "left \<le> int j" and "int j \<le> right" and "right < int (length arr)"
  shows "find_exact arr key left right = Inr j"
  using assms
proof (induction arr key left right rule: find_exact.induct)
  case (1 arr key left right)
  define m where "m = left + (right - left) div 2"
  have lr: "left \<le> right" using "1.prems" by linarith
  have m: "0 \<le> m" "m < int (length arr)" "m \<le> right" "left \<le> m" using "1.prems" lr unfolding m_def by linarith+
  then have mn: "nat m < length arr" by linarith
  have ord: "va_key (arr ! nat m) < va_key (arr ! j) \<longleftrightarrow> nat m < j" "va_key (arr ! nat m) = va_key (arr ! j) \<longleftrightarrow> nat m = j"
    using ssorted_nth_less_iff [OF "1.prems"(1), of "nat m" j] ssorted_nth_eq_iff [OF "1.prems"(1), of "nat m" j] mn "1.prems"(2)
    by simp_all
  have unf: "find_exact arr key left right = (if va_key (arr ! nat m) = key then Inr (nat m)
      else if va_key (arr ! nat m) < key then find_exact arr key (m + 1) right else find_exact arr key left (m - 1))"
    using lr m by (simp add: find_exact.simps [of arr key left right] Let_def m_def [symmetric])
  consider "nat m = j" | "nat m < j" | "j < nat m" by linarith
  then show ?case
  proof cases
    case 1
    then show ?thesis using unf "1.prems"(3) by simp
  next
    case 2
    then have "m + 1 \<le> int j" by linarith
    then show ?thesis using 2 unf ord "1.prems" m "1.IH"(1) [OF lr m_def, of "arr ! nat m"] by simp
  next
    case 3
    then have "int j \<le> m - 1" "\<not> va_key (arr ! nat m) < key" "va_key (arr ! nat m) \<noteq> key" using ord "1.prems"(3) by auto
    then show ?thesis using unf "1.prems" m "1.IH"(2) [OF lr m_def, of "arr ! nat m"] by simp
  qed
qed

definition arr_ok :: "VersionedArray list \<Rightarrow> bool" where
  "arr_ok arr \<longleftrightarrow> arr \<noteq> [] \<and> ssorted (arr_keys arr) \<and> length arr \<le> 2 ^ 30"

lemma rs_locate_spec:
  assumes ok: "arr_ok (rm_arr m)" and pos: "pos < length (rm_arr m)"
  shows "key \<notin> set (arr_keys (rm_arr m)) \<Longrightarrow> rs_locate m key pos = Inr 0"
    and "j < length (rm_arr m) \<Longrightarrow> va_key (rm_arr m ! j) = key \<Longrightarrow> rs_locate m key pos = Inr j"
proof -
  let ?arr = "rm_arr m" and ?up = "int (length (rm_arr m)) - 1"
  have len: "?arr \<noteq> []" "length ?arr \<le> 2 ^ 30" and srt: "ssorted (arr_keys ?arr)" using ok by (auto simp: arr_ok_def)
  have up: "to_i32 (int (sz_sub (rs_capacity m) 1)) = ?up" using len by (simp add: rs_capacity_def Suc_le_eq of_nat_diff)
  have ip: "to_i32 (int pos) = int pos" using pos len(2) by simp
  obtain i where i: "gallop_up ?arr key ?up (int pos) 0 = Inr i" "int pos \<le> i" "i \<le> ?up \<longrightarrow> key \<le> va_key (?arr ! nat i)"
    using gallop_up_spec [of ?up ?arr "int pos" 0 key] len(2) by auto
  define right where "right = (if ?up < i then ?up else i)"
  have r: "0 \<le> right" "right \<le> ?up" "right < int (length ?arr)" using i(2) pos unfolding right_def by auto
  obtain k where k: "gallop_down ?arr key right 1 = Inr k" "k \<le> right" "0 < k \<longrightarrow> va_key (?arr ! nat k) \<le> key"
    using gallop_down_spec [OF r(3), of "right + 2" 1 key] r len(2) by auto
  have unf: "rs_locate m key pos = find_exact ?arr key (if k < 0 then 0 else k) right"
    unfolding rs_locate_def Let_def up ip i(1) bind_res_simps right_def [symmetric] k(1) using r pos by simp
  show "rs_locate m key pos = Inr 0" if "key \<notin> set (arr_keys ?arr)"
    unfolding unf using find_exact_absent [OF that] r(3) by simp
  show "rs_locate m key pos = Inr j" if j: "j < length ?arr" "va_key (?arr ! j) = key"
    unfolding unf
  proof (rule find_exact_present [OF srt j])
    show "int j \<le> right"
    proof (cases "i \<le> ?up")
      case True
      then have "\<not> va_key (?arr ! nat i) < va_key (?arr ! j)" using i(3) j(2) by (simp add: not_less)
      then have "\<not> nat i < j" using ssorted_nth_less [OF srt, of "nat i" j] j(1) by auto
      then show ?thesis using True i(2) unfolding right_def by auto
    next
      case False
      then show ?thesis using j(1) unfolding right_def by auto
    qed
    show "(if k < 0 then 0 else k) \<le> int j"
    proof (cases "0 < k")
      case True
      then have "\<not> va_key (?arr ! j) < va_key (?arr ! nat k)" using k(3) j(2) by (simp add: not_less)
      moreover have "nat k < length ?arr" using True k(2) r(3) by linarith
      ultimately have "\<not> j < nat k" using ssorted_nth_less [OF srt, of j "nat k"] by auto
      then show ?thesis by auto
    qed auto
  qed (use r in auto)
qed

lemma rs_predict_less: "rm_arr m \<noteq> [] \<Longrightarrow> length (rm_arr m) \<le> 2 ^ 30 \<Longrightarrow> rs_predict env m key < length (rm_arr m)"
  using sz_sub_small [of 1 "length (rm_arr m)"] by (cases "rm_arr m") (auto simp: rs_predict_def Let_def rs_capacity_def)

lemma rs_pos_cases:
  assumes "arr_ok (rm_arr m)"
  obtains (here) pos where "pos < length (rm_arr m)" "va_key (rm_arr m ! pos) = key" "rs_pos env m key = Inr (pos, rm_arr m ! pos)"
      "rs_locate m key (rs_predict env m key) = Inr pos"
  | (absent) "key \<notin> set (arr_keys (rm_arr m))" "rs_pos env m key = Inr (0, rm_arr m ! 0)" "va_key (rm_arr m ! 0) \<noteq> key"
      "rs_locate m key (rs_predict env m key) = Inr 0"
proof -
  have pr: "rs_predict env m key < length (rm_arr m)" using rs_predict_less [of m env key] assms by (simp add: arr_ok_def)
  note loc = rs_locate_spec [OF assms pr]
  show ?thesis
  proof (cases "key \<in> set (arr_keys (rm_arr m))")
    case True
    then obtain pos where "pos < length (rm_arr m)" "va_key (rm_arr m ! pos) = key" by (auto simp: in_set_conv_nth)
    then show ?thesis using that(1) loc(2) by (simp add: rs_pos_def)
  next
    case False
    have "va_key (rm_arr m ! 0) \<in> set (arr_keys (rm_arr m))" using assms by (simp add: arr_ok_def)
    then have "va_key (rm_arr m ! 0) \<noteq> key" using False by metis
    then show ?thesis using that(2) loc(1) False assms by (simp add: rs_pos_def arr_ok_def)
  qed
qed

section \<open>The store of versions only grows\<close>

lemma vn_ts_self [simp]: "nd\<lparr>vn_ts := vn_ts nd\<rparr> = nd" for nd :: Vnode
  by (cases nd) simp

definition vext :: "vmem \<Rightarrow> vmem \<Rightarrow> bool" where
  "vext m m' \<longleftrightarrow> vm_tracker m' = vm_tracker m \<and>
     (\<forall>a nd. vm_heap m a = Some nd \<longrightarrow> (\<exists>t. vm_heap m' a = Some (nd\<lparr>vn_ts := t\<rparr>) \<and> (t = vn_ts nd \<or> vn_ts nd = - 1 \<and> 0 \<le> t)))"

lemma vext_same: "vm_heap m' = vm_heap m \<Longrightarrow> vm_tracker m' = vm_tracker m \<Longrightarrow> vext m m'"
  unfolding vext_def by (metis vn_ts_self)

lemma vext_refl [simp]: "vext m m"
  by (simp add: vext_same)

lemma vext_trans [trans]:
  assumes "vext m m'" and "vext m' m''"
  shows "vext m m''"
  unfolding vext_def
proof (intro conjI allI impI)
  show "vm_tracker m'' = vm_tracker m" using assms by (auto simp: vext_def)
  fix a nd assume "vm_heap m a = Some nd"
  then obtain t where t: "vm_heap m' a = Some (nd\<lparr>vn_ts := t\<rparr>)" "t = vn_ts nd \<or> vn_ts nd = - 1 \<and> 0 \<le> t"
    using assms(1) unfolding vext_def by blast
  then obtain t' where "vm_heap m'' a = Some (nd\<lparr>vn_ts := t, vn_ts := t'\<rparr>)" "t' = vn_ts (nd\<lparr>vn_ts := t\<rparr>) \<or> vn_ts (nd\<lparr>vn_ts := t\<rparr>) = - 1 \<and> 0 \<le> t'"
    using assms(2) unfolding vext_def by blast
  then show "\<exists>t. vm_heap m'' a = Some (nd\<lparr>vn_ts := t\<rparr>) \<and> (t = vn_ts nd \<or> vn_ts nd = - 1 \<and> 0 \<le> t)"
    using t by (intro exI [of _ t']) auto
qed

text \<open>A step of the store: it only grows and stays well-formed.\<close>

definition vgrow :: "int \<Rightarrow> vmem \<Rightarrow> vmem \<Rightarrow> bool" where
  "vgrow g m m' \<longleftrightarrow> (vmem_ok m g \<longrightarrow> vext m m' \<and> vmem_ok m' g)"

lemma vgrow_refl [simp]: "vgrow g m m"
  by (simp add: vgrow_def)

lemma vgrow_trans [trans]: "vgrow g m m' \<Longrightarrow> vgrow g m' m'' \<Longrightarrow> vgrow g m m''"
  by (auto simp: vgrow_def intro: vext_trans)

lemma vgrow_init_ts:
  assumes "init_ts p m = Inr m'"
  shows "vgrow g m m'"
proof -
  obtain nd where nd: "vm_heap m (tp_addr p) = Some nd"
    using assms by (auto simp: init_ts_def vn_load_def split: if_splits option.splits)
  show ?thesis
  proof (cases "vn_ts nd = - 1")
    case True
    then obtain t where m': "m' = m\<lparr>vm_heap := (vm_heap m)(tp_addr p \<mapsto> nd\<lparr>vn_ts := t\<rparr>)\<rparr>" "get_latest_timestamp (vm_tracker m) = Inr t"
      using assms nd by (auto simp: init_ts_def vn_load_def bind_res_Inr_iff split: if_splits)
    show ?thesis unfolding vgrow_def
    proof (intro impI conjI)
      assume ok: "vmem_ok m g"
      then have "0 \<le> t" using m'(2) by (simp add: vmem_ok_def)
      then have "\<exists>t. vm_heap m' a = Some (n\<lparr>vn_ts := t\<rparr>) \<and> (t = vn_ts n \<or> vn_ts n = - 1 \<and> 0 \<le> t)" if "vm_heap m a = Some n" for a n
        using that nd True m'(1) by (cases "a = tp_addr p") (auto intro: exI [of _ t] exI [of _ "vn_ts n"])
      then show "vext m m'" using m'(1) unfolding vext_def by simp
      show "vmem_ok m' g" using ok nd m'(1) by (auto simp: vmem_ok_def)
    qed
  next
    case False
    then show ?thesis using assms nd by (auto simp: init_ts_def vn_load_def split: if_splits)
  qed
qed

lemma vgrow_Vnode_new:
  assumes "Vnode_new v n m = (p, m')"
  shows "vgrow g m m'"
proof -
  have m': "m' = m\<lparr>vm_heap := (vm_heap m)(vm_brk m \<mapsto> \<lparr>vn_value = v, vn_ts = - 1, vn_nextv = n\<rparr>), vm_brk := Suc (vm_brk m)\<rparr>"
    using assms by (simp add: Vnode_new_def)
  have "vext m m' \<and> vmem_ok m' g" if ok: "vmem_ok m g"
  proof
    have "vm_heap m (vm_brk m) = None" using ok by (force simp: vmem_ok_def)
    then have "vm_heap m' a = Some (nd\<lparr>vn_ts := vn_ts nd\<rparr>)" if "vm_heap m a = Some nd" for a nd
      using that m' by (cases "a = vm_brk m") simp_all
    moreover have "vm_tracker m' = vm_tracker m" using m' by simp
    ultimately show "vext m m'" unfolding vext_def by blast
    have "dom (vm_heap m') = insert (vm_brk m) (dom (vm_heap m))" using m' by simp
    then show "vmem_ok m' g" using ok m' by (auto simp: vmem_ok_def subset_iff less_Suc_eq)
  qed
  then show ?thesis by (simp add: vgrow_def)
qed

lemma vgrow_vread: "vread p m = Inr (v, m') \<Longrightarrow> vgrow g m m'"
  by (auto simp: vread_def bind_res_Inr_iff intro: vgrow_init_ts)

lemma vgrow_vCAS:
  assumes "vCAS vh old new m = Inr (ok, vh', m')"
  shows "vgrow g m m'"
proof -
  obtain m1 nd where m1: "init_ts (tp_unset_mark vh) m = Inr m1"
    using assms by (auto simp: vCAS_def Let_def bind_res_Inr_iff)
  obtain q m2 where q: "Vnode_new new (tp_unset_mark vh) m1 = (q, m2)" by (cases "Vnode_new new (tp_unset_mark vh) m1")
  have "vgrow g m1 m2" "vgrow g m m1" using vgrow_Vnode_new [OF q] vgrow_init_ts [OF m1] by auto
  moreover have "m' = m1 \<or> m' = m2 \<or> init_ts q m2 = Inr m'"
    using assms m1 q by (auto simp: vCAS_def Let_def bind_res_Inr_iff split: if_splits)
  ultimately show ?thesis using vgrow_init_ts [of q m2 m' g] by (meson vgrow_trans)
qed

lemma vgrow_va_insert_loop: "va_insert_loop n c v m = Inr (r, c', m') \<Longrightarrow> vgrow g m m'"
proof (induction n c v m rule: va_insert_loop.induct)
  case (2 n c "value" m)
  obtain v m1 where v: "vread (va_vhead c) m = Inr (v, m1)"
    using "2.prems" by (auto simp: va_read_def bind_res_Inr_iff)
  show ?case
  proof (cases "v = value")
    case True
    then show ?thesis using "2.prems" v vgrow_vread [OF v] by (simp add: va_read_def)
  next
    case False
    obtain ok vh m2 where c: "vCAS (va_vhead c) v value m1 = Inr (ok, vh, m2)"
      using "2.prems" v False by (auto simp: va_read_def va_vCAS_def bind_res_Inr_iff)
    have g: "vgrow g m m2" using vgrow_vread [OF v] vgrow_vCAS [OF c] by (rule vgrow_trans)
    have "m' = m2 \<or> vgrow g m2 m'"
      using "2.prems" "2.IH" [of "(v, m1)" v m1 "(ok, c\<lparr>va_vhead := vh\<rparr>, m2)" ok "(c\<lparr>va_vhead := vh\<rparr>, m2)" "c\<lparr>va_vhead := vh\<rparr>" m2] v c False
      by (auto simp: va_read_def va_vCAS_def split: if_splits)
    then show ?thesis using g vgrow_trans by blast
  qed
qed simp

lemma vgrow_va_insert: "va_insert c v m = Inr (r, c', m') \<Longrightarrow> vgrow g m m'"
  unfolding va_insert_def by (rule vgrow_va_insert_loop)

text \<open>Operations on a list that satisfies its invariant.\<close>

lemma vgrow_rl_update: "rl_update_loop 1 a val (l, m) = Inr (r, l', m') \<Longrightarrow> vgrow g m m'"
proof -
  assume run: "rl_update_loop 1 a val (l, m) = Inr (r, l', m')"
  then obtain nd v m1 where nd: "rl_load l a = Inr nd" "vread (rn_vhead nd) m = Inr (v, m1)"
    by (auto simp: rl_read_def bind_res_Inr_iff)
  show ?thesis
  proof (cases "v = val")
    case True
    then show ?thesis using run nd vgrow_vread [OF nd(2)] by (simp add: rl_read_def)
  next
    case False
    obtain ok vh m2 where c: "vCAS (rn_vhead nd) v val m1 = Inr (ok, vh, m2)"
      using run nd False by (auto simp: rl_read_def rl_vCAS_def bind_res_Inr_iff)
    have "m' = m2"
      using run nd c False by (auto simp: rl_read_def rl_vCAS_def bind_res_Inr_iff split: if_splits)
    then show ?thesis using vgrow_trans [OF vgrow_vread [OF nd(2)] vgrow_vCAS [OF c]] by simp
  qed
qed

lemma vgrow_rl_insert:
  assumes "rl_insert key val (l, m) = Inr (r, l', m')"
  shows "vgrow g m m'"
proof (cases "threshhold \<le> rl_size l")
  case True
  then show ?thesis using assms by (simp add: rl_insert_def)
next
  case False
  obtain right pr where f: "rl_find key l = Inr (right, pr)" using assms False by (auto simp: rl_insert_def bind_res_Inr_iff)
  show ?thesis
  proof (cases right)
    case None
    then show ?thesis using assms False f by (simp add: rl_insert_def)
  next
    case (Some rg)
    obtain rn where rn: "rl_load l rg = Inr rn" using assms False f Some by (auto simp: rl_insert_def bind_res_Inr_iff)
    obtain q m1 where q: "Vnode_new val null_ptr m = (q, m1)" by (cases "Vnode_new val null_ptr m")
    note g1 = vgrow_Vnode_new [OF q, of g]
    show ?thesis
    proof (cases "rn_key rn = key")
      case True
      then have "rl_update_loop 1 rg val (l, m) = Inr (r, l', m')"
        using assms False f Some rn by (simp add: rl_insert_def del: rl_update_loop.simps)
      then show ?thesis by (rule vgrow_rl_update)
    next
      case ne: False
      then have "m' = m \<or> (\<exists>nn. init_ts q m1 = Inr m')"
        using assms False f Some rn q
        by (auto simp: rl_insert_def rl_Node_init_def rl_load_def rl_set_def rl_cas_next_def bind_res_Inr_iff Let_def
            split: if_splits option.splits)
      then show ?thesis using g1 vgrow_init_ts [of q m1 m' g] vgrow_trans by (metis vgrow_refl)
    qed
  qed
qed

lemma vgrow_RList_new: "RList_new m = (l, m') \<Longrightarrow> vgrow g m m'"
proof -
  assume new: "RList_new m = (l, m')"
  obtain p1 m1 where 1: "Vnode_new 0 null_ptr m = (p1, m1)" by (cases "Vnode_new 0 null_ptr m")
  obtain p2 m2 where 2: "Vnode_new 0 null_ptr m1 = (p2, m2)" by (cases "Vnode_new 0 null_ptr m1")
  have "m' = m2" using new 1 2 by (simp add: RList_new_def rl_Node_init_def)
  then show ?thesis using vgrow_trans [OF vgrow_Vnode_new [OF 1] vgrow_Vnode_new [OF 2]] by simp
qed

text \<open>Chains and lists in a store that has grown.\<close>

lemma vseg_vext:
  assumes "vext m m'" and "vseg (vm_heap m) p vs"
  shows "\<exists>vs'. vseg (vm_heap m') p vs' \<and> map ver_addr vs' = map ver_addr vs \<and> map ver_value vs' = map ver_value vs
    \<and> list_all2 (\<lambda>v w. ver_ts w = ver_ts v \<or> ver_ts v = - 1 \<and> 0 \<le> ver_ts w) vs vs'"
  using assms(2)
proof (induction vs arbitrary: p)
  case (Cons v vs)
  obtain a w t where v: "v = (a, w, t)" by (cases v)
  obtain q where q: "p = clean a" "0 < a" "vm_heap m a = Some \<lparr>vn_value = w, vn_ts = t, vn_nextv = q\<rparr>" "vseg (vm_heap m) q vs"
    using Cons.prems v by auto
  obtain t' where t': "vm_heap m' a = Some \<lparr>vn_value = w, vn_ts = t', vn_nextv = q\<rparr>" "t' = t \<or> t = - 1 \<and> 0 \<le> t'"
    using assms(1) q(3) by (fastforce simp: vext_def)
  obtain vs' where "vseg (vm_heap m') q vs'" "map ver_addr vs' = map ver_addr vs" "map ver_value vs' = map ver_value vs"
      "list_all2 (\<lambda>v w. ver_ts w = ver_ts v \<or> ver_ts v = - 1 \<and> 0 \<le> ver_ts w) vs vs'"
    using Cons.IH [OF q(4)] by blast
  then show ?case using v q t' by (intro exI [of _ "(a, w, t') # vs'"]) simp
qed simp

lemma vseg_vext_stamped:
  assumes "vext m m'" and "vseg (vm_heap m) p vs" and "\<forall>v \<in> set vs. 0 \<le> ver_ts v"
  shows "vseg (vm_heap m') p vs"
proof -
  obtain vs' where vs': "vseg (vm_heap m') p vs'" "map ver_addr vs' = map ver_addr vs" "map ver_value vs' = map ver_value vs"
      "list_all2 (\<lambda>v w. ver_ts w = ver_ts v \<or> ver_ts v = - 1 \<and> 0 \<le> ver_ts w) vs vs'"
    using vseg_vext [OF assms(1,2)] by blast
  have "vs' = vs"
  proof (rule nth_equalityI)
    show len: "length vs' = length vs" using vs'(4) by (simp add: list_all2_lengthD)
    fix i assume i: "i < length vs'"
    have "ver_addr (vs' ! i) = ver_addr (vs ! i)" using arg_cong [OF vs'(2), of "\<lambda>xs. xs ! i"] i len by simp
    moreover have "ver_value (vs' ! i) = ver_value (vs ! i)" using arg_cong [OF vs'(3), of "\<lambda>xs. xs ! i"] i len by simp
    moreover have "ver_ts (vs' ! i) = ver_ts (vs ! i)"
      using list_all2_nthD [OF vs'(4), of i] assms(3) nth_mem [of i vs] i len by fastforce
    ultimately show "vs' ! i = vs ! i" by (simp add: prod_eq_iff)
  qed
  then show ?thesis using vs'(1) by simp
qed

lemma rl_rep_vext:
  assumes "rl_rep f l m g ns" and "vext m m'" and "vmem_ok m' g"
  shows "rl_rep f l m' g ns"
proof -
  note d = rl_repD [OF assms(1)]
  have "\<forall>n \<in> set ns. node_ok (vm_heap m') n"
    using d(5) vseg_vext_stamped [OF assms(2)] by (auto simp: node_ok_def)
  then show ?thesis using assms(1,3) unfolding rl_rep_def by blast
qed

section \<open>The invariant\<close>

definition cell_ok :: "vmem \<Rightarrow> VersionedArray \<Rightarrow> bool" where
  "cell_ok vm c \<longleftrightarrow> (\<exists>vs. vs \<noteq> [] \<and> vseg (vm_heap vm) (va_vhead c) vs \<and> distinct (map ver_addr vs)
     \<and> - 1 \<le> ver_ts (hd vs) \<and> (\<forall>v \<in> set (tl vs). 0 \<le> ver_ts v))"

lemma cell_ok_vext:
  assumes "cell_ok vm c" and "vext vm vm'"
  shows "cell_ok vm' c" and "getValue c vm' = getValue c vm" and "\<exists>v. getValue c vm = Inr v"
proof -
  obtain vs where vs: "vs \<noteq> []" "vseg (vm_heap vm) (va_vhead c) vs" "distinct (map ver_addr vs)" "\<forall>v \<in> set (tl vs). 0 \<le> ver_ts v"
      "- 1 \<le> ver_ts (hd vs)"
    using assms(1) by (auto simp: cell_ok_def)
  obtain vs' where vs': "vseg (vm_heap vm') (va_vhead c) vs'" "map ver_addr vs' = map ver_addr vs" "map ver_value vs' = map ver_value vs"
      "list_all2 (\<lambda>v w. ver_ts w = ver_ts v \<or> ver_ts v = - 1 \<and> 0 \<le> ver_ts w) vs vs'"
    using vseg_vext [OF assms(2) vs(2)] by blast
  obtain a ws where aw: "vs = a # ws" using vs(1) by (cases vs) auto
  obtain a' ws' where aw': "vs' = a' # ws'" "list_all2 (\<lambda>v w. ver_ts w = ver_ts v \<or> ver_ts v = - 1 \<and> 0 \<le> ver_ts w) ws ws'"
    using vs'(4) aw by (cases vs') auto
  have "0 \<le> ver_ts w" if "w \<in> set ws'" for w
  proof -
    obtain i where i: "i < length ws'" "w = ws' ! i" using \<open>w \<in> set ws'\<close> by (metis in_set_conv_nth)
    then have "i < length ws" using aw'(2) by (simp add: list_all2_lengthD)
    moreover from this have "0 \<le> ver_ts (ws ! i)" using vs(4) aw by simp
    ultimately show ?thesis using list_all2_nthD [OF aw'(2), of i] i(2) by auto
  qed
  moreover have "- 1 \<le> ver_ts a'" using vs'(4) vs(5) aw aw'(1) by auto
  ultimately show "cell_ok vm' c" using vs' aw aw' vs(3) by (auto simp: cell_ok_def intro!: exI [of _ vs'])
  have hd: "va_vhead c = clean (ver_addr a)" "\<exists>nd. vm_heap vm (ver_addr a) = Some nd \<and> vn_value nd = ver_value a"
    "\<exists>nd. vm_heap vm' (ver_addr a) = Some nd \<and> vn_value nd = ver_value a"
    using vseg_head [OF vs(2,1)] vseg_head [OF vs'(1)] vs'(2,3) aw aw' by auto
  then show "getValue c vm' = getValue c vm" "\<exists>v. getValue c vm = Inr v" by (auto simp: getValue_def)
qed

definition list_ok :: "int \<Rightarrow> vmem \<Rightarrow> RList \<Rightarrow> bool" where
  "list_ok g vm l \<longleftrightarrow> \<not> rl_isReclaimed l \<and> (\<exists>ns. rl_rep False l vm g ns \<and> length ns \<le> threshhold)"

text \<open>A key that is not in the array goes to the first or the second slot: the others stay empty.\<close>

fun rs_ok :: "int \<Rightarrow> vmem \<Rightarrow> 'd RSModel \<Rightarrow> bool" and rs_mob_ok :: "int \<Rightarrow> vmem \<Rightarrow> 'd rs_mob \<Rightarrow> bool" where
  "rs_ok g vm (RSModel w0 w1 e arr mobs) \<longleftrightarrow>
     arr_ok arr \<and> (\<forall>c \<in> set arr. cell_ok vm c) \<and> length mobs = Suc (length arr)
     \<and> (\<forall>s \<in> set mobs. case s of None \<Rightarrow> True | Some mob \<Rightarrow> rs_mob_ok g vm mob)
     \<and> (\<forall>i < length mobs. 1 < i \<longrightarrow> mobs ! i = None)"
| "rs_mob_ok g vm (RBin l) \<longleftrightarrow> list_ok g vm l"
| "rs_mob_ok g vm (RNode ai) \<longleftrightarrow> rs_ok g vm ai"

lemma rs_okD:
  assumes "rs_ok g vm m"
  shows "arr_ok (rm_arr m)" "\<forall>c \<in> set (rm_arr m). cell_ok vm c" "length (rm_mobs m) = Suc (length (rm_arr m))"
    "\<And>i mob. i < length (rm_mobs m) \<Longrightarrow> rm_mobs m ! i = Some mob \<Longrightarrow> rs_mob_ok g vm mob"
    "\<And>i. i < length (rm_mobs m) \<Longrightarrow> 1 < i \<Longrightarrow> rm_mobs m ! i = None"
proof -
  obtain w0 w1 e arr mobs where m: "m = RSModel w0 w1 e arr mobs" by (cases m)
  show "arr_ok (rm_arr m)" "\<forall>c \<in> set (rm_arr m). cell_ok vm c" "length (rm_mobs m) = Suc (length (rm_arr m))"
    "\<And>i. i < length (rm_mobs m) \<Longrightarrow> 1 < i \<Longrightarrow> rm_mobs m ! i = None"
    using assms m by auto
  fix i mob assume i: "i < length (rm_mobs m)" "rm_mobs m ! i = Some mob"
  then have "Some mob \<in> set (rm_mobs m)" by (metis nth_mem)
  then show "rs_mob_ok g vm mob" using assms m by (auto split: option.splits)
qed

lemma rs_okI:
  assumes "arr_ok (rm_arr m)" "\<forall>c \<in> set (rm_arr m). cell_ok vm c" "length (rm_mobs m) = Suc (length (rm_arr m))"
    "\<And>mob. Some mob \<in> set (rm_mobs m) \<Longrightarrow> rs_mob_ok g vm mob"
    "\<And>i. i < length (rm_mobs m) \<Longrightarrow> 1 < i \<Longrightarrow> rm_mobs m ! i = None"
  shows "rs_ok g vm m"
  using assms by (cases m) (auto split: option.split)

text \<open>Induction over the tree of nodes.\<close>

lemma rs_induct:
  assumes "\<And>m. (\<And>ai. Some (RNode ai) \<in> set (rm_mobs m) \<Longrightarrow> P ai) \<Longrightarrow> P m"
  shows "P m"
proof (induction "size m" arbitrary: m rule: less_induct)
  case less
  show ?case
  proof (rule assms)
    fix ai assume "Some (RNode ai) \<in> set (rm_mobs m)"
    then obtain i where "nth_res (rm_mobs m) i = Inr (Some (RNode ai))" by (metis in_set_conv_nth nth_res_Inr)
    then show "P ai" using less rs_slot_size by blast
  qed
qed

lemma list_ok_vext: "list_ok g vm l \<Longrightarrow> vext vm vm' \<Longrightarrow> vmem_ok vm' g \<Longrightarrow> list_ok g vm' l"
  unfolding list_ok_def using rl_rep_vext by metis

lemma rs_ok_vext:
  assumes "rs_ok g vm m" and "vext vm vm'" and "vmem_ok vm' g"
  shows "rs_ok g vm' m"
  using assms(1)
proof (induction m rule: rs_induct)
  case (1 m)
  note d = rs_okD [OF "1.prems"]
  show ?case
  proof (rule rs_okI [OF d(1) _ d(3) _ d(5)])
    show "\<forall>c \<in> set (rm_arr m). cell_ok vm' c" using d(2) cell_ok_vext(1) [OF _ assms(2)] by blast
    fix mob assume mob: "Some mob \<in> set (rm_mobs m)"
    then have "rs_mob_ok g vm mob" using d(4) by (metis in_set_conv_nth)
    then show "rs_mob_ok g vm' mob" using "1.IH" mob list_ok_vext [OF _ assms(2,3)] by (cases mob) auto
  qed
qed

lemma rs_mob_ok_vext: "rs_mob_ok g vm mob \<Longrightarrow> vext vm vm' \<Longrightarrow> vmem_ok vm' g \<Longrightarrow> rs_mob_ok g vm' mob"
  using rs_ok_vext list_ok_vext by (cases mob) auto

section \<open>The newest value of a key\<close>

text \<open>What the tree stores for a key: nothing, or the newest value (a deletion is the tombstone).\<close>

fun rl_value_loop :: "nat \<Rightarrow> key_t \<Rightarrow> RList \<Rightarrow> vmem \<Rightarrow> addr \<Rightarrow> val_t option" where
  "rl_value_loop 0 key l vm a = None"
| "rl_value_loop (Suc n) key l vm a =
     (case rl_heap l a of None \<Rightarrow> None
      | Some nd \<Rightarrow>
          if rn_key nd < key then rl_value_loop n key l vm (tp_addr (rn_next nd))
          else if rn_key nd = key then map_option vn_value (vm_heap vm (tp_addr (rn_vhead nd))) else None)"

definition rl_value :: "key_t \<Rightarrow> RList \<Rightarrow> vmem \<Rightarrow> val_t option" where
  "rl_value key l vm = rl_value_loop (rl_brk l) key l vm (after l (rl_head l))"

lemma rl_value_loop_spec:
  assumes "nseg f (rl_heap l) a ns t" and "rl_tail (rl_heap l) t" and "length ns < n" and "key < key_max"
    and "ssorted (map rd_key ns)" and "\<forall>nd \<in> set ns. node_ok (vm_heap m) nd"
  shows "rl_value_loop n key l m a = map_option (\<lambda>vs. fst (hd vs)) (map_of (rl_abs ns) key)"
  using assms
proof (induction ns arbitrary: a n)
  case Nil
  then obtain n' where "n = Suc n'" by (cases n) auto
  then show ?case using Nil by (auto simp: rl_tail_def)
next
  case (Cons nd ns)
  obtain b k p vs where nd: "nd = (b, k, p, vs)" by (cases nd)
  obtain n' where n: "n = Suc n'" "length ns < n'" using Cons.prems(3) by (cases n) auto
  obtain c where c: "a = b" "rl_heap l b = Some \<lparr>rn_key = k, rn_vhead = p, rn_next = TP c False f, rn_del = 0\<rparr>"
      "nseg f (rl_heap l) c ns t"
    using Cons.prems(1) nd by auto
  have IH: "rl_value_loop n' key l m c = map_option (\<lambda>vs. fst (hd vs)) (map_of (rl_abs ns) key)"
    using Cons.IH [OF c(3) Cons.prems(2) n(2) Cons.prems(4)] Cons.prems(5,6) by simp
  obtain nv where nv: "vm_heap m (tp_addr p) = Some nv" "vn_value nv = fst (hd (map snd vs))"
    using Cons.prems(6) nd vseg_head [of "vm_heap m" p vs] by (auto simp: node_ok_def hd_map)
  consider "k < key" | "k = key" | "key < k" by (rule linorder_cases)
  then show ?case
  proof cases
    case 1
    then have "k \<noteq> key" by simp
    then show ?thesis using 1 IH c nd n(1) by simp
  next
    case 2
    then show ?thesis using c nd n(1) nv by simp
  next
    case 3
    have "key \<notin> set (map rd_key ns)"
    proof
      assume "key \<in> set (map rd_key ns)"
      then have "k < key" using Cons.prems(5) nd by auto
      then show False using 3 by simp
    qed
    then have "map_of (rl_abs (nd # ns)) key = None" using 3 nd rl_abs_None [of ns key] by simp
    moreover have "\<not> k < key" "k \<noteq> key" using 3 by simp_all
    ultimately show ?thesis using c nd n(1) by simp
  qed
qed

lemma rl_value_spec:
  assumes "rl_rep f l m g ns" and "key < key_max"
  shows "rl_value key l m = map_option (\<lambda>vs. fst (hd vs)) (map_of (rl_abs ns) key)"
proof -
  note d = rl_repD [OF assms(1)]
  obtain t hp where s: "nseg f (rl_heap l) (rl_head l) ((rl_head l, 0, hp, []) # ns) t" "rl_tail (rl_heap l) t"
      "0 \<notin> set (map rd_addr ns)"
    using rl_repE [OF assms(1)] by blast
  have "length ns < rl_brk l" using rl_rep_fuel [OF assms(1)] by simp
  from rl_value_loop_spec [OF after_node(2) [OF s] s(2) this assms(2) d(1,5)] show ?thesis by (simp add: rl_value_def)
qed

definition rs_slot :: "'d RSModel \<Rightarrow> key_t \<Rightarrow> nat" where
  "rs_slot m key = (if key < va_key (rm_arr m ! 0) then 0 else 1)"

function rs_value :: "'d RSModel \<Rightarrow> vmem \<Rightarrow> key_t \<Rightarrow> val_t option" where
  "rs_value m vm key =
     (case find (\<lambda>c. va_key c = key) (rm_arr m) of
        Some c \<Rightarrow> (case getValue c vm of Inl _ \<Rightarrow> None | Inr v \<Rightarrow> Some v)
      | None \<Rightarrow>
          (case nth_res (rm_mobs m) (rs_slot m key) of
             Inl _ \<Rightarrow> None
           | Inr None \<Rightarrow> None
           | Inr (Some (RBin l)) \<Rightarrow> rl_value key l vm
           | Inr (Some (RNode ai)) \<Rightarrow> rs_value ai vm key))"
  by pat_completeness auto
termination by (relation "measure (\<lambda>(m, _, _). size m)") (auto intro: rs_slot_size)

declare rs_value.simps [simp del]

lemma find_cell:
  assumes "ssorted (arr_keys arr)" and "i < length arr"
  shows "find (\<lambda>c. va_key c = va_key (arr ! i)) arr = Some (arr ! i)"
proof -
  have "va_key (arr ! j) \<noteq> va_key (arr ! i)" if "j < i" for j
    using ssorted_nth_eq_iff [OF assms(1), of j i] that assms(2) by auto
  then show ?thesis using assms(2) by (auto simp: find_Some_iff)
qed

lemma find_cell_None: "key \<notin> set (arr_keys arr) \<Longrightarrow> find (\<lambda>c. va_key c = key) arr = None"
  by (auto simp: find_None_iff)

lemma rs_value_here:
  "arr_ok (rm_arr m) \<Longrightarrow> i < length (rm_arr m) \<Longrightarrow> va_key (rm_arr m ! i) = key \<Longrightarrow>
    rs_value m vm key = (case getValue (rm_arr m ! i) vm of Inl _ \<Rightarrow> None | Inr v \<Rightarrow> Some v)"
  using find_cell [of "rm_arr m" i] by (simp add: rs_value.simps [of m] arr_ok_def)

definition mob_value :: "'d rs_mob option \<Rightarrow> vmem \<Rightarrow> key_t \<Rightarrow> val_t option" where
  "mob_value s vm key = (case s of None \<Rightarrow> None | Some (RBin l) \<Rightarrow> rl_value key l vm | Some (RNode ai) \<Rightarrow> rs_value ai vm key)"

lemma rs_value_absent:
  assumes "rs_ok g vm0 m" and "key \<notin> set (arr_keys (rm_arr m))"
  shows "rs_value m vm key = mob_value (rm_mobs m ! rs_slot m key) vm key" and "rs_slot m key < length (rm_mobs m)"
proof -
  show i: "rs_slot m key < length (rm_mobs m)" using rs_okD(1,3) [OF assms(1)] by (simp add: rs_slot_def arr_ok_def)
  then show "rs_value m vm key = mob_value (rm_mobs m ! rs_slot m key) vm key"
    using find_cell_None [OF assms(2)]
    by (simp add: rs_value.simps [of m vm] mob_value_def split: option.splits rs_mob.splits)
qed

lemma mob_value_vext_aux:
  assumes "vext vm vm'" and "vmem_ok vm' g" and "key < key_max"
    and "rs_mob_ok g vm mob" and "\<And>ai. mob = RNode ai \<Longrightarrow> rs_value ai vm' key = rs_value ai vm key"
  shows "mob_value (Some mob) vm' key = mob_value (Some mob) vm key"
proof (cases mob)
  case (RBin l)
  then obtain ns where ns: "rl_rep False l vm g ns" using assms(4) by (auto simp: list_ok_def)
  from rl_value_spec [OF this assms(3)] rl_value_spec [OF rl_rep_vext [OF this assms(1,2)] assms(3)]
  show ?thesis using RBin by (simp add: mob_value_def)
next
  case (RNode ai)
  then show ?thesis using assms(5) by (simp add: mob_value_def)
qed

lemma rs_value_vext:
  assumes "rs_ok g vm m" and "vext vm vm'" and "vmem_ok vm' g" and "key < key_max"
  shows "rs_value m vm' key = rs_value m vm key"
  using assms(1)
proof (induction m rule: rs_induct)
  case (1 m)
  note d = rs_okD [OF "1.prems"]
  show ?case
  proof (cases "key \<in> set (arr_keys (rm_arr m))")
    case True
    then obtain i where i: "i < length (rm_arr m)" "va_key (rm_arr m ! i) = key" by (auto simp: in_set_conv_nth)
    then have "getValue (rm_arr m ! i) vm' = getValue (rm_arr m ! i) vm" using d(2) cell_ok_vext(2) [OF _ assms(2)] by simp
    then show ?thesis using rs_value_here [OF d(1) i] by simp
  next
    case False
    note v = rs_value_absent [OF "1.prems" False]
    show ?thesis
    proof (cases "rm_mobs m ! rs_slot m key")
      case None
      then show ?thesis using v by (simp add: mob_value_def)
    next
      case (Some mob)
      then have "Some mob \<in> set (rm_mobs m)" using v(2) by (metis nth_mem)
      moreover have ok: "rs_mob_ok g vm mob" using d(4) v(2) Some by blast
      ultimately have "rs_value ai vm' key = rs_value ai vm key" if "mob = RNode ai" for ai using "1.IH" that by auto
      then show ?thesis using mob_value_vext_aux [OF assms(2-4) ok] v(1) Some by simp
    qed
  qed
qed

lemma mob_value_vext:
  assumes "rs_mob_ok g vm mob" and "vext vm vm'" and "vmem_ok vm' g" and "key < key_max"
  shows "mob_value (Some mob) vm' key = mob_value (Some mob) vm key"
  by (rule mob_value_vext_aux [OF assms(2-4,1)]) (use assms rs_value_vext in \<open>auto\<close>)

section \<open>Changing a slot or a cell\<close>

lemma rs_set_slot_sel [simp]:
  "rm_arr (rs_set_slot i mob m) = rm_arr m" "rm_mobs (rs_set_slot i mob m) = (rm_mobs m)[i := Some mob]"
  "rs_slot (rs_set_slot i mob m) key = rs_slot m key"
  by (simp_all add: rs_set_slot_def rs_slot_def)

lemma rs_set_cell_sel [simp]:
  "rm_arr (rs_set_cell i c m) = (rm_arr m)[i := c]" "rm_mobs (rs_set_cell i c m) = rm_mobs m"
  by (simp_all add: rs_set_cell_def)

lemma slot_change:
  assumes ok: "rs_ok g vm m" and vm': "vext vm vm'" "vmem_ok vm' g" and mob: "rs_mob_ok g vm' mob"
    and key: "key \<notin> set (arr_keys (rm_arr m))"
    and same: "\<And>k. k < key_max \<Longrightarrow> k \<noteq> key \<Longrightarrow> mob_value (Some mob) vm' k = mob_value (rm_mobs m ! rs_slot m key) vm k"
  shows "rs_ok g vm' (rs_set_slot (rs_slot m key) mob m)"
    and "\<And>k. k < key_max \<Longrightarrow> k \<noteq> key \<Longrightarrow> rs_value (rs_set_slot (rs_slot m key) mob m) vm' k = rs_value m vm k"
    and "rs_value (rs_set_slot (rs_slot m key) mob m) vm' key = mob_value (Some mob) vm' key"
proof -
  let ?m = "rs_set_slot (rs_slot m key) mob m"
  note ok' = rs_ok_vext [OF ok vm']
  note d = rs_okD [OF ok']
  have i: "rs_slot m key < length (rm_mobs m)" "rs_slot m key \<le> 1" using rs_value_absent(2) [OF ok key] by (simp_all add: rs_slot_def)
  show ok2: "rs_ok g vm' ?m"
  proof (rule rs_okI)
    show "arr_ok (rm_arr ?m)" "\<forall>c \<in> set (rm_arr ?m). cell_ok vm' c" "length (rm_mobs ?m) = Suc (length (rm_arr ?m))"
      using d(1-3) by simp_all
    fix mb assume "Some mb \<in> set (rm_mobs ?m)"
    then have "mb = mob \<or> Some mb \<in> set (rm_mobs m)" using set_update_subset_insert [of "rm_mobs m" "rs_slot m key" "Some mob"] by auto
    then show "rs_mob_ok g vm' mb" using mob d(4) by (metis in_set_conv_nth)
  next
    fix j assume "j < length (rm_mobs ?m)" "1 < j"
    then show "rm_mobs ?m ! j = None" using d(5) [of j] i(2) by simp
  qed
  show "rs_value ?m vm' key = mob_value (Some mob) vm' key"
    using rs_value_absent(1) [OF ok2, of key vm'] key i(1) by simp
  fix k assume k: "k < key_max" "k \<noteq> key"
  show "rs_value ?m vm' k = rs_value m vm k"
  proof (cases "k \<in> set (arr_keys (rm_arr m))")
    case True
    then obtain j where j: "j < length (rm_arr m)" "va_key (rm_arr m ! j) = k" by (auto simp: in_set_conv_nth)
    have "rs_value ?m vm' k = rs_value m vm' k"
      using rs_value_here [of ?m j k vm'] rs_value_here [OF d(1) j, of vm'] d(1) j by simp
    then show ?thesis using rs_value_vext [OF ok vm' k(1)] by simp
  next
    case False
    have v: "rs_value ?m vm' k = mob_value (rm_mobs ?m ! rs_slot m k) vm' k" using rs_value_absent(1) [OF ok2, of k vm'] False by simp
    show ?thesis
    proof (cases "rs_slot m k = rs_slot m key")
      case True
      then show ?thesis using v same [OF k] i(1) rs_value_absent(1) [OF ok False, of vm] by simp
    next
      case ne: False
      then have "rs_value ?m vm' k = rs_value m vm' k" using v rs_value_absent(1) [OF ok' False, of vm'] by simp
      then show ?thesis using rs_value_vext [OF ok vm' k(1)] by simp
    qed
  qed
qed

lemma cell_change:
  assumes ok: "rs_ok g vm m" and vm': "vext vm vm'" "vmem_ok vm' g" and i: "i < length (rm_arr m)"
    and c: "cell_ok vm' c" "va_key c = va_key (rm_arr m ! i)"
  shows "rs_ok g vm' (rs_set_cell i c m)"
    and "\<And>k. k < key_max \<Longrightarrow> k \<noteq> va_key c \<Longrightarrow> rs_value (rs_set_cell i c m) vm' k = rs_value m vm k"
    and "rs_value (rs_set_cell i c m) vm' (va_key c) = (case getValue c vm' of Inl _ \<Rightarrow> None | Inr v \<Rightarrow> Some v)"
proof -
  let ?m = "rs_set_cell i c m"
  note ok' = rs_ok_vext [OF ok vm']
  note d = rs_okD [OF ok']
  have keys: "arr_keys (rm_arr ?m) = arr_keys (rm_arr m)" using c(2) i by (simp add: map_update list_update_same_conv)
  show ok2: "rs_ok g vm' ?m"
  proof (rule rs_okI)
    show "arr_ok (rm_arr ?m)" using d(1) keys by (simp add: arr_ok_def)
    show "\<forall>c \<in> set (rm_arr ?m). cell_ok vm' c" using d(2) c(1) by (auto dest!: set_update_subset_insert [THEN subsetD])
    show "length (rm_mobs ?m) = Suc (length (rm_arr ?m))" using d(3) by simp
    show "rs_mob_ok g vm' mb" if "Some mb \<in> set (rm_mobs ?m)" for mb using that d(4) by (metis in_set_conv_nth rs_set_cell_sel(2))
    show "rm_mobs ?m ! j = None" if "j < length (rm_mobs ?m)" "1 < j" for j using that d(5) by simp
  qed
  note ar = rs_okD(1) [OF ok2]
  show "rs_value ?m vm' (va_key c) = (case getValue c vm' of Inl _ \<Rightarrow> None | Inr v \<Rightarrow> Some v)"
    using rs_value_here [OF ar, of i "va_key c" vm'] i by simp
  fix k assume k: "k < key_max" "k \<noteq> va_key c"
  have "rs_value ?m vm' k = rs_value m vm' k"
  proof (cases "k \<in> set (arr_keys (rm_arr m))")
    case True
    then obtain j where j: "j < length (rm_arr m)" "va_key (rm_arr m ! j) = k" by (auto simp: in_set_conv_nth)
    then have "j \<noteq> i" using k(2) c(2) by auto
    then show ?thesis using rs_value_here [OF ar, of j k vm'] rs_value_here [OF d(1) j, of vm'] j by simp
  next
    case False
    have ne: "rm_arr m \<noteq> []" using d(1) by (simp add: arr_ok_def)
    have "va_key (rm_arr ?m ! 0) = va_key (rm_arr m ! 0)" using arg_cong [OF keys, of "\<lambda>xs. xs ! 0"] ne by simp
    then have "rs_slot ?m k = rs_slot m k" unfolding rs_slot_def by simp
    moreover have "k \<notin> set (arr_keys (rm_arr ?m))" unfolding keys by (rule False)
    ultimately show ?thesis
      using rs_value_absent(1) [OF ok' False, of vm'] rs_value_absent(1) [OF ok2, of k vm'] by simp
  qed
  then show "rs_value ?m vm' k = rs_value m vm k" using rs_value_vext [OF ok vm' k(1)] by simp
qed

section \<open>Insertion into a list\<close>

lemma map_of_map_snd: "map_of (map (\<lambda>(k, w). (k, f k w)) al) x = map_option (f x) (map_of al x)"
  by (induction al) auto

lemma map_of_insert_at:
  assumes "map_of al key = None"
  shows "map_of (takeWhile P al @ (key, w) # dropWhile P al) x = (if x = key then Some w else map_of al x)"
proof -
  have al: "map_of al x = (case map_of (takeWhile P al) x of None \<Rightarrow> map_of (dropWhile P al) x | Some v \<Rightarrow> Some v)" for x
    using map_of_append [of "takeWhile P al" "dropWhile P al"] by (simp add: map_add_def)
  then have "map_of (takeWhile P al) key = None" using assms by (auto split: option.splits)
  then show ?thesis using al [of x] by (auto simp: map_add_def split: option.splits)
qed

lemma av_insert_value:
  assumes "length al < threshhold" and "val \<noteq> tombstone"
  shows "0 \<le> fst (av_insert key val g al)"
    and "map_option (\<lambda>vs. fst (hd vs)) (map_of (snd (av_insert key val g al)) x) =
      (if x = key then Some val else map_option (\<lambda>vs. fst (hd vs)) (map_of al x))"
proof -
  show "0 \<le> fst (av_insert key val g al)" using assms by (auto simp: av_insert_def split: option.split)
  show "map_option (\<lambda>vs. fst (hd vs)) (map_of (snd (av_insert key val g al)) x) =
      (if x = key then Some val else map_option (\<lambda>vs. fst (hd vs)) (map_of al x))"
  proof (cases "map_of al key")
    case None
    then show ?thesis using assms map_of_insert_at [OF None, of "\<lambda>kv. fst kv < key" "[(val, g)]" x] by (simp add: av_insert_def)
  next
    case (Some vs)
    then show ?thesis
      using assms map_of_map_snd [of "\<lambda>k ws. if k = key then (val, g) # ws else ws" al x]
      by (auto simp: av_insert_def option.map_comp comp_def)
  qed
qed

lemma av_insert_length: "length al \<le> threshhold \<Longrightarrow> length (snd (av_insert key val g al)) \<le> threshhold"
proof -
  have "length (takeWhile P al @ x # dropWhile P al) = Suc (length al)" for P and x :: "key_t \<times> (val_t \<times> int) list"
    by (simp, metis length_append takeWhile_dropWhile_id)
  then show "length al \<le> threshhold \<Longrightarrow> length (snd (av_insert key val g al)) \<le> threshhold"
    by (auto simp: av_insert_def not_le split: option.split simp del: length_append)
qed

lemma list_insert:
  assumes l: "list_ok g vm l" and key: "key < key_max" and val: "val \<noteq> tombstone" and vm: "vmem_ok vm g"
  obtains (full) ns where "rl_insert key val (l, vm) = Inr (- 2, l, vm)" "rl_rep False l vm g ns" "length ns = threshhold"
  | (stored) res l' vm' where "rl_insert key val (l, vm) = Inr (res, l', vm')" "0 \<le> res" "list_ok g vm' l'" "vext vm vm'"
      "vmem_ok vm' g" "\<And>x. x < key_max \<Longrightarrow> rl_value x l' vm' = (if x = key then Some val else rl_value x l vm)"
proof -
  obtain ns where ns: "rl_rep False l vm g ns" "length ns \<le> threshhold" "\<not> rl_isReclaimed l" using l by (auto simp: list_ok_def)
  show ?thesis
  proof (cases "length ns = threshhold")
    case True
    then show ?thesis using that(1) ns(1) rl_repD(4) [OF ns(1)] by (simp add: rl_insert_def)
  next
    case False
    then have len: "length (rl_abs ns) < threshhold" using ns(2) by simp
    obtain l' vm' ns' where i: "rl_insert key val (l, vm) = Inr (fst (av_insert key val g (rl_abs ns)), l', vm')"
        "rl_isReclaimed l' = rl_isReclaimed l" "rl_rep False l' vm' g ns'" "rl_abs ns' = snd (av_insert key val g (rl_abs ns))"
      using rl_insert_refines [OF ns(1) key, of val] by blast
    have gr: "vext vm vm'" "vmem_ok vm' g" using vgrow_rl_insert [OF i(1), of g] vm by (auto simp: vgrow_def)
    have "length ns' \<le> threshhold" using av_insert_length [of "rl_abs ns" key val g] i(4) ns(2) by (metis length_rl_abs)
    then have "list_ok g vm' l'" using i(2,3) ns(3) by (auto simp: list_ok_def)
    moreover have "rl_value x l' vm' = (if x = key then Some val else rl_value x l vm)" if "x < key_max" for x
      using rl_value_spec [OF i(3) that] rl_value_spec [OF ns(1) that] av_insert_value(2) [OF len val, of key g x] i(4) by simp
    ultimately show ?thesis using that(2) [OF i(1) av_insert_value(1) [OF len val] _ gr] by blast
  qed
qed

lemma list_ok_new:
  assumes "vmem_ok vm g" and "RList_new vm = (l, vm')"
  shows "list_ok g vm' l" "vext vm vm'" "vmem_ok vm' g" "x < key_max \<Longrightarrow> rl_value x l vm' = None" "rl_size l = 0"
proof -
  have s: "rl_sim g (l, vm') []" using RList_new_rep [OF assms(1)] assms(2) by simp
  then obtain ns where ns: "rl_rep False l vm' g ns" "rl_abs ns = []" "\<not> rl_isReclaimed l" by (auto simp: rl_sim_def)
  then show "list_ok g vm' l" by (auto simp: list_ok_def rl_abs_def)
  show "vext vm vm'" "vmem_ok vm' g" using vgrow_RList_new [OF assms(2), of g] assms(1) by (auto simp: vgrow_def)
  show "x < key_max \<Longrightarrow> rl_value x l vm' = None" using rl_value_spec [OF ns(1)] ns(2) by simp
  show "rl_size l = 0" using rl_repD(4) [OF ns(1)] ns(2) by (simp add: rl_abs_def)
qed

section \<open>Retraining\<close>

text \<open>A node whose slots are all empty.\<close>

definition rs_fresh :: "'d RSModel \<Rightarrow> bool" where
  "rs_fresh m \<longleftrightarrow> rm_mobs m = replicate (Suc (length (rm_arr m))) None"

lemma rs_retrain_spec:
  assumes rep: "rl_rep False l vm g ns" and len: "length ns = threshhold" and nr: "\<not> rl_isReclaimed l"
    and st: "stuck_list (vm_tracker vm)"
  obtains (assert) "rs_retrain env l vm = Inl AssertFail"
  | (node) l' ai vm' where "rs_retrain env l vm = Inr ((l', Some ai), vm')" "rs_ok g vm' ai" "rs_fresh ai" "vext vm vm'" "vmem_ok vm' g"
      "\<And>x. x < key_max \<Longrightarrow> rs_value ai vm' x = rl_value x l vm"
proof -
  let ?kps = "map (\<lambda>nd. (rd_key nd, rd_ptr nd)) ns"
  obtain l1 where l1: "rl_collect l = Inr (True, ?kps, l1)" "rl_rep True l1 vm g ns" "\<not> rl_isReclaimed l1"
    using rl_collect_correct [OF rep nr] by blast
  have ks: "map fst ?kps = map rd_key ns" "map snd ?kps = map rd_ptr ns" by simp_all
  show ?thesis
  proof (cases "lr_train_range (re_fp env) (lr_new (re_w env) (re_b env)) (map rd_key ns)")
    case (Inl e)
    then have "e = AssertFail" using lr_train_range_cases [of "re_fp env" "lr_new (re_w env) (re_b env)" "map rd_key ns"] by auto
    then show ?thesis using that(1) l1(1) Inl by (simp add: rs_retrain_def comp_def)
  next
    case (Inr lr)
    let ?arr = "map2 VersionedArray_of (map rd_key ns) (map rd_ptr ns)"
    define ai where "ai = RSModel (lr_w0 lr) (lr_w1 lr) (unat (lr_maxErr lr)) ?arr (replicate (Suc (length ns)) None)"
    have new: "RSModel_of lr (map rd_key ns) (length ns) (unat (lr_maxErr lr)) (map rd_ptr ns) = Inr ai"
      by (simp add: RSModel_of_def ai_def)
    have "rl_rep True (l1\<lparr>rl_isReclaimed := True\<rparr>) vm g ns" using l1(2) unfolding rl_rep_def by simp
    from rl_reclaim_spec [OF this, of 0] obtain l2 rs where rec: "rl_reclaimMem 0 (l1\<lparr>rl_isReclaimed := True\<rparr>, vm) = Inr (l2, vm\<lparr>vm_retired := rs\<rparr>)"
      by blast
    let ?vm = "vm\<lparr>vm_retired := rs\<rparr>"
    have tr: "vm\<lparr>vm_tracker := vm_tracker vm\<rparr> = vm" by simp
    have run: "rs_retrain env l vm = Inr ((l2, Some ai), ?vm)"
      using l1 Inr new rec stuck_oldest [OF st] by (simp add: rs_retrain_def comp_def tr)
    note d = rl_repD [OF rep]
    have ext: "vext vm ?vm" "vmem_ok ?vm g" using d(7) by (auto simp: vmem_ok_def intro: vext_same)
    have arr: "?arr = map (\<lambda>nd. \<lparr>va_key = rd_key nd, va_vhead = rd_ptr nd\<rparr>) ns"
      by (simp add: zip_map_map VersionedArray_of_def comp_def zip_same_conv_map)
    have ok: "rs_ok g ?vm ai"
    proof (rule rs_okI)
      have "arr_keys ?arr = map rd_key ns" unfolding arr by (simp add: comp_def)
      then show "arr_ok (rm_arr ai)" using d(1) len by (auto simp: ai_def arr_ok_def threshhold_def)
      have "cell_ok ?vm \<lparr>va_key = rd_key nd, va_vhead = rd_ptr nd\<rparr>" if nd: "nd \<in> set ns" for nd
      proof -
        have "node_ok (vm_heap vm) nd" using d(5) nd by blast
        moreover have "distinct (ver_addrs nd)" using d(6) nd by (auto simp: distinct_concat_iff)
        ultimately show ?thesis
          by (auto simp: cell_ok_def node_ok_def ver_addrs_def intro!: exI [of _ "rd_vers nd"] dest: list.set_sel(2) bspec [OF _ hd_in_set])
      qed
      then show "\<forall>c \<in> set (rm_arr ai). cell_ok ?vm c" unfolding ai_def RSModel.sel arr by auto
      show "length (rm_mobs ai) = Suc (length (rm_arr ai))" by (simp add: ai_def)
      show "rs_mob_ok g ?vm mob" if "Some mob \<in> set (rm_mobs ai)" for mob using that by (simp add: ai_def split: if_splits)
      show "rm_mobs ai ! i = None" if "i < length (rm_mobs ai)" for i using that by (simp add: ai_def del: replicate_Suc)
    qed
    have "rs_value ai ?vm x = rl_value x l vm" if x: "x < key_max" for x
    proof -
      have val: "rl_value x l vm = map_option (\<lambda>vs. fst (hd vs)) (map_of (rl_abs ns) x)" by (rule rl_value_spec [OF rep x])
      show ?thesis
      proof (cases "x \<in> set (map rd_key ns)")
        case True
        then obtain i where i: "i < length ns" "rd_key (ns ! i) = x" by (auto simp: in_set_conv_nth)
        obtain a p vs where nd: "ns ! i = (a, x, p, vs)" using i(2) by (cases "ns ! i") auto
        have nk: "node_ok (vm_heap vm) (ns ! i)" using d(5) i(1) by simp
        obtain nv where nv: "p = clean (ver_addr (hd vs))" "vm_heap vm (ver_addr (hd vs)) = Some nv" "vn_value nv = ver_value (hd vs)" "vs \<noteq> []"
          using nk nd vseg_head [of "vm_heap vm" p vs] by (auto simp: node_ok_def)
        have "distinct (map fst (rl_abs ns))" using ssorted_distinct [OF d(1)] by (simp add: rl_abs_def comp_def)
        moreover have "(x, map snd vs) \<in> set (rl_abs ns)" using nth_mem [OF i(1)] nd by (force simp: rl_abs_def)
        ultimately have "map_of (rl_abs ns) x = Some (map snd vs)" by (rule map_of_is_SomeI)
        moreover have "rm_arr ai ! i = \<lparr>va_key = x, va_vhead = p\<rparr>" using i nd unfolding ai_def RSModel.sel arr by simp
        ultimately show ?thesis
          using rs_value_here [OF rs_okD(1) [OF ok], of i x ?vm] i(1) nv val by (simp add: ai_def getValue_def hd_map)
      next
        case False
        moreover have "arr_keys (rm_arr ai) = map rd_key ns" unfolding ai_def RSModel.sel arr by (simp add: comp_def)
        ultimately have no: "x \<notin> set (arr_keys (rm_arr ai))" by simp
        have "rm_mobs ai ! rs_slot ai x = None" using rs_value_absent(2) [OF ok no] by (simp add: ai_def del: replicate_Suc)
        then show ?thesis using rs_value_absent(1) [OF ok no, of ?vm] False val rl_abs_None [of ns x] by (simp add: mob_value_def)
      qed
    qed
    then show ?thesis using that(2) [OF run ok _ ext] by (simp add: rs_fresh_def ai_def)
  qed
qed

section \<open>Insertion\<close>

definition ins_post :: "int \<Rightarrow> 'd RSModel \<Rightarrow> vmem \<Rightarrow> key_t \<Rightarrow> val_t \<Rightarrow> (bool \<times> 'd RSModel \<times> vmem) res \<Rightarrow> bool" where
  "ins_post g m vm key val res \<longleftrightarrow> res = Inl AssertFail \<or>
     (\<exists>r m' vm'. res = Inr (r, m', vm') \<and> rs_ok g vm' m' \<and> vext vm vm' \<and> vmem_ok vm' g
        \<and> (\<forall>k. k < key_max \<and> k \<noteq> key \<longrightarrow> rs_value m' vm' k = rs_value m vm k)
        \<and> (r \<longrightarrow> rs_value m' vm' key = Some val)
        \<and> (\<not> r \<longrightarrow> (\<exists>old. rs_value m vm key = Some old \<and> rs_value m' vm' key = Some (if old = tombstone then val else old))))"

lemma va_insert_cell:
  assumes c: "cell_ok vm c" and vm: "vmem_ok vm g" and v: "getValue c vm = Inr v" "v \<noteq> val"
  shows "\<exists>c' vm'. va_insert c val vm = Inr (False, c', vm') \<and> va_key c' = va_key c \<and> cell_ok vm' c' \<and> vext vm vm'
    \<and> vmem_ok vm' g \<and> getValue c' vm' = Inr val"
proof -
  obtain vs where vs: "vs \<noteq> []" "vseg (vm_heap vm) (va_vhead c) vs" "distinct (map ver_addr vs)" "\<forall>v \<in> set (tl vs). 0 \<le> ver_ts v"
      "- 1 \<le> ver_ts (hd vs)"
    using c by (auto simp: cell_ok_def)
  have rep: "va_rep vm g c vs" using vs vm by (simp add: va_rep_def)
  have hd: "ver_value (hd vs) = v" using vseg_head [OF vs(2,1)] v(1) by (auto simp: getValue_def)
  obtain c' vm' where c': "va_insert c val vm = Inr (False, c', vm')" "va_key c' = va_key c"
      "va_rep vm' g c' ((vm_brk vm, val, g) # stamp g vs)"
    using va_insert_spec [OF rep, of val] hd v(2) by auto
  have gr: "vext vm vm'" "vmem_ok vm' g" using vgrow_va_insert [OF c'(1), of g] vm by (auto simp: vgrow_def)
  have "0 \<le> g" using vm by (simp add: vmem_ok_def)
  have "0 \<le> ver_ts w" if "w \<in> set (stamp g vs)" for w
    using that vs(1,4,5) \<open>0 \<le> g\<close> by (cases vs) (auto split: if_splits)
  then have "cell_ok vm' c'" using c'(3) \<open>0 \<le> g\<close> by (auto simp: va_rep_def cell_ok_def intro!: exI [of _ "(vm_brk vm, val, g) # stamp g vs"])
  moreover have "getValue c' vm' = Inr val" using c'(3) vseg_head [of "vm_heap vm'" "va_vhead c'" "(vm_brk vm, val, g) # stamp g vs"]
    by (auto simp: va_rep_def getValue_def)
  ultimately show ?thesis using c' gr by blast
qed

lemma ins_post_here:
  assumes ok: "rs_ok g vm m" and vm: "vmem_ok vm g" and i: "i < length (rm_arr m)" "va_key (rm_arr m ! i) = key"
    and pos: "rs_pos env m key = Inr (i, rm_arr m ! i)" and val: "val \<noteq> tombstone"
  shows "ins_post g m vm key val (rs_insert (Suc n) env m key val vm)"
proof -
  let ?c = "rm_arr m ! i"
  note d = rs_okD [OF ok]
  have c: "cell_ok vm ?c" using d(2) i(1) by simp
  obtain v where v: "getValue ?c vm = Inr v" using cell_ok_vext(3) [OF c vext_refl] by blast
  then have old: "rs_value m vm key = Some v" using rs_value_here [OF d(1) i, of vm] by simp
  show ?thesis
  proof (cases "v = tombstone")
    case False
    then have "rs_insert (Suc n) env m key val vm = Inr (False, m, vm)" using pos i(2) v by simp
    then show ?thesis using ok vm old False unfolding ins_post_def by (auto simp del: rs_insert.simps)
  next
    case True
    obtain c' vm' where c': "va_insert ?c val vm = Inr (False, c', vm')" "va_key c' = va_key ?c" "cell_ok vm' c'" "vext vm vm'"
        "vmem_ok vm' g" "getValue c' vm' = Inr val"
      using va_insert_cell [OF c vm v, of val] True val by auto
    have run: "rs_insert (Suc n) env m key val vm = Inr (False, rs_set_cell i c' m, vm')" using pos i(2) v True c'(1) by simp
    note ch = cell_change [OF ok c'(4,5) i(1) c'(3,2)]
    show ?thesis using run ch c'(2,4-6) i(2) old True unfolding ins_post_def by auto
  qed
qed

lemma ins_post_slot:
  assumes ok: "rs_ok g vm m" and key: "key \<notin> set (arr_keys (rm_arr m))" and vm': "vext vm vm'" "vmem_ok vm' g"
    and mob: "rs_mob_ok g vm' mob"
    and same: "\<And>k. k < key_max \<Longrightarrow> k \<noteq> key \<Longrightarrow> mob_value (Some mob) vm' k = mob_value (rm_mobs m ! rs_slot m key) vm k"
    and r: "r \<Longrightarrow> mob_value (Some mob) vm' key = Some val"
      "\<not> r \<Longrightarrow> \<exists>old. mob_value (rm_mobs m ! rs_slot m key) vm key = Some old
        \<and> mob_value (Some mob) vm' key = Some (if old = tombstone then val else old)"
  shows "ins_post g m vm key val (Inr (r, rs_set_slot (rs_slot m key) mob m, vm'))"
  using slot_change [OF ok vm' mob key same] r vm' rs_value_absent(1) [OF ok key, of vm]
  unfolding ins_post_def by auto

text \<open>Insertion below a slot that holds a node, or that turns into one.\<close>

lemma ins_post_sub:
  assumes ok: "rs_ok g vm m" and key: "key \<notin> set (arr_keys (rm_arr m))" and ext: "vext vm vm1"
    and same: "\<And>k. k < key_max \<Longrightarrow> rs_value ai vm1 k = mob_value (rm_mobs m ! rs_slot m key) vm k" and km: "key < key_max"
    and sub: "ins_post g ai vm1 key val res"
  shows "ins_post g m vm key val (bind_res res (\<lambda>(r, ai', vm2). Inr (r, rs_set_slot (rs_slot m key) (RNode ai') m, vm2)))"
proof (cases "res = Inl AssertFail")
  case False
  then obtain r ai' vm2 where s: "res = Inr (r, ai', vm2)" "rs_ok g vm2 ai'" "vext vm1 vm2" "vmem_ok vm2 g"
      "\<forall>k. k < key_max \<and> k \<noteq> key \<longrightarrow> rs_value ai' vm2 k = rs_value ai vm1 k" "r \<longrightarrow> rs_value ai' vm2 key = Some val"
      "\<not> r \<longrightarrow> (\<exists>old. rs_value ai vm1 key = Some old \<and> rs_value ai' vm2 key = Some (if old = tombstone then val else old))"
    using sub unfolding ins_post_def by auto
  have "ins_post g m vm key val (Inr (r, rs_set_slot (rs_slot m key) (RNode ai') m, vm2))"
    by (rule ins_post_slot [OF ok key vext_trans [OF ext s(3)] s(4)]) (use s same km in \<open>auto simp: mob_value_def\<close>)
  then show ?thesis using s(1) by simp
qed (simp add: ins_post_def)

text \<open>The list an insertion finds or makes in its slot.\<close>

definition slot_list :: "int \<Rightarrow> 'd rs_mob option \<Rightarrow> vmem \<Rightarrow> RList \<Rightarrow> vmem \<Rightarrow> bool" where
  "slot_list g slot vm l vm0 \<longleftrightarrow> (slot = None \<and> RList_new vm = (l, vm0) \<or> slot = Some (RBin l) \<and> vm0 = vm)
     \<and> list_ok g vm0 l \<and> vext vm vm0 \<and> vmem_ok vm0 g \<and> (\<forall>k < key_max. rl_value k l vm0 = mob_value slot vm k)"

lemma rs_fold_max_le: "(x :: nat) \<in> set xs \<Longrightarrow> x \<le> fold max xs a"
proof (induction xs arbitrary: a)
  case (Cons y ys)
  have "b \<le> fold max ys b" for b :: nat
  proof (induction ys arbitrary: b)
    case (Cons z zs)
    have "b \<le> max z b" by simp
    also have "\<dots> \<le> fold max zs (max z b)" by (rule Cons.IH)
    finally show ?case by simp
  qed simp
  then have "y \<le> fold max ys (max y a)" by (meson max.bounded_iff order_trans max.cobounded1)
  then show ?case using Cons by auto
qed simp

lemma rs_slot_depth:
  assumes "Some mob \<in> set (rm_mobs m)"
  shows "rs_mob_depth mob < rs_depth m" and "rs_mob_fuel mob + 2 * length (rm_arr m) + 5 \<le> rs_scan_fuel m"
proof -
  obtain w0 w1 e arr mobs where m: "m = RSModel w0 w1 e arr mobs" by (cases m)
  have "rs_mob_depth mob \<in> set (map (\<lambda>s. case s of None \<Rightarrow> 0 | Some mob \<Rightarrow> rs_mob_depth mob) mobs)"
    "rs_mob_fuel mob \<in> set (map (\<lambda>s. case s of None \<Rightarrow> 0 | Some mob \<Rightarrow> rs_mob_fuel mob) mobs)"
    using assms m by force+
  then show "rs_mob_depth mob < rs_depth m" "rs_mob_fuel mob + 2 * length (rm_arr m) + 5 \<le> rs_scan_fuel m"
    unfolding m rs_depth.simps rs_scan_fuel.simps RSModel.sel using rs_fold_max_le by (fastforce simp: less_Suc_eq_le)+
qed

lemma slot_list_cases:
  assumes ok: "rs_ok g vm m" and vm: "vmem_ok vm g" and key: "key \<notin> set (arr_keys (rm_arr m))"
  obtains (list) l vm0 where "slot_list g (rm_mobs m ! rs_slot m key) vm l vm0"
      "rm_mobs m ! rs_slot m key = None \<Longrightarrow> rl_size l = 0"
  | (node) ai where "rm_mobs m ! rs_slot m key = Some (RNode ai)" "rs_ok g vm ai" "rs_depth ai < rs_depth m"
proof (cases "rm_mobs m ! rs_slot m key")
  case None
  obtain l vm0 where new: "RList_new vm = (l, vm0)" by (cases "RList_new vm")
  show ?thesis
    by (rule that(1) [of l vm0]) (use list_ok_new [OF vm new] None new in \<open>auto simp: slot_list_def mob_value_def\<close>)
next
  case (Some mob)
  have i: "rs_slot m key < length (rm_mobs m)" by (rule rs_value_absent(2) [OF ok key])
  then have mem: "Some mob \<in> set (rm_mobs m)" using Some by (metis nth_mem)
  have mok: "rs_mob_ok g vm mob" using rs_okD(4) [OF ok i Some] .
  show ?thesis
  proof (cases mob)
    case (RBin l)
    show ?thesis by (rule that(1) [of l vm]) (use mok Some RBin vm in \<open>auto simp: slot_list_def mob_value_def\<close>)
  next
    case (RNode ai)
    then show ?thesis using that(2) [of ai] mok Some rs_slot_depth(1) [OF mem] by simp
  qed
qed

lemma ins_mob_list:
  assumes ok: "rs_ok g vm m" and st: "stuck_list (vm_tracker vm)" and key: "key \<notin> set (arr_keys (rm_arr m))" "key < key_max"
    and val: "val \<noteq> tombstone" and sl: "slot_list g (rm_mobs m ! rs_slot m key) vm l vm0"
    and sub: "rl_size l = 0 \<or> (\<forall>ai vm'. rs_ok g vm' ai \<and> rs_fresh ai \<and> vmem_ok vm' g \<and> stuck_list (vm_tracker vm') \<longrightarrow> ins_post g ai vm' key val (rs_insert n env ai key val vm'))"
  shows "ins_post g m vm key val (rs_insert_mob (Suc n) env m key val (rs_slot m key) vm)"
proof -
  let ?i = "rs_slot m key"
  have i: "nth_res (rm_mobs m) ?i = Inr (rm_mobs m ! ?i)" using rs_value_absent(2) [OF ok key(1)] by simp
  have l: "list_ok g vm0 l" "vext vm vm0" "vmem_ok vm0 g" "\<And>k. k < key_max \<Longrightarrow> rl_value k l vm0 = mob_value (rm_mobs m ! ?i) vm k"
    using sl unfolding slot_list_def by blast+
  have st0: "stuck_list (vm_tracker vm0)" using st l(2) by (simp add: vext_def)
  define rest where "rest = (\<lambda>(res :: int, l1, vm1). if res = - 2 then
               bind_res (rs_retrain env l1 vm1) (\<lambda>((l2, new_ai), vm2).
                 case new_ai of
                   None \<Rightarrow> rs_insert_mob n env (rs_set_slot ?i (RBin l2) m) key val ?i vm2
                 | Some ai \<Rightarrow>
                     bind_res (rs_insert n env ai key val vm2) (\<lambda>(r, ai', vm3). Inr (r, rs_set_slot ?i (RNode ai') m, vm3)))
             else Inr (res \<ge> 0, rs_set_slot ?i (RBin l1) m, vm1))"
  have run: "rs_insert_mob (Suc n) env m key val ?i vm = bind_res (rl_insert key val (l, vm0)) rest"
    using sl i unfolding slot_list_def rest_def by auto
  from l(1) key(2) val l(3) show ?thesis
  proof (cases rule: list_insert)
    case (full ns)
    have "length ns = rl_size l" using rl_repD(4) [OF full(2)] by simp
    then have "rl_size l \<noteq> 0" using full(3) by (simp add: threshhold_def)
    then have sub': "ins_post g ai vm' key val (rs_insert n env ai key val vm')" if "rs_ok g vm' ai" "rs_fresh ai" "vmem_ok vm' g" "vext vm0 vm'" for ai vm'
    proof -
      have "stuck_list (vm_tracker vm')" using st0 that(4) by (simp add: vext_def)
      then show ?thesis using sub that \<open>rl_size l \<noteq> 0\<close> by blast
    qed
    have nr: "\<not> rl_isReclaimed l" using l(1) by (simp add: list_ok_def)
    from full(2,3) nr st0 show ?thesis
    proof (cases rule: rs_retrain_spec [where env = env])
      case assert
      then show ?thesis unfolding run using full(1) by (simp add: rest_def ins_post_def)
    next
      case (node l' ai vm')
      have "rs_insert_mob (Suc n) env m key val ?i vm =
          bind_res (rs_insert n env ai key val vm') (\<lambda>(r, ai', vm3). Inr (r, rs_set_slot ?i (RNode ai') m, vm3))"
        unfolding run using full(1) node(1) by (simp add: rest_def)
      then show ?thesis
        using ins_post_sub [OF ok key(1) vext_trans [OF l(2) node(4)] _ key(2) sub' [OF node(2,3,5,4)]] node(6) l(4) by simp
    qed
  next
    case (stored res l' vm')
    then have "rs_insert_mob (Suc n) env m key val ?i vm = Inr (True, rs_set_slot ?i (RBin l') m, vm')"
      unfolding run by (simp add: rest_def)
    moreover have "ins_post g m vm key val (Inr (True, rs_set_slot ?i (RBin l') m, vm'))"
      by (rule ins_post_slot [OF ok key(1) vext_trans [OF l(2) stored(4)] stored(5)])
        (use stored(3,6) l(4) key(2) in \<open>simp_all add: mob_value_def\<close>)
    ultimately show ?thesis by (simp only:)
  qed
qed

text \<open>The slot of a key that is not in the array is the one the code computes from position 0.\<close>

lemma rs_bin_pos_0 [simp]: "rs_bin_pos key (0, rm_arr m ! 0) = rs_slot m key"
  by (simp add: rs_bin_pos_def rs_slot_def)

lemma rs_insert_fresh:
  assumes ok: "rs_ok g vm m" "rs_fresh m" and vm: "vmem_ok vm g" and st: "stuck_list (vm_tracker vm)"
    and key: "key < key_max" and val: "val \<noteq> tombstone"
  shows "ins_post g m vm key val (rs_insert (Suc (Suc n)) env m key val vm)"
proof (cases rule: rs_pos_cases [OF rs_okD(1) [OF ok(1)], of key env])
  case (1 pos)
  then show ?thesis using ins_post_here [OF ok(1) vm 1(1,2) _ val] by blast
next
  case 2
  have none: "rm_mobs m ! rs_slot m key = None"
    using ok(2) rs_value_absent(2) [OF ok(1) 2(1)] unfolding rs_fresh_def by (metis length_replicate nth_replicate)
  have run: "rs_insert (Suc (Suc n)) env m key val vm = rs_insert_mob (Suc n) env m key val (rs_slot m key) vm"
    using 2 by (simp del: rs_insert_mob.simps)
  from ok(1) vm 2(1) show ?thesis
  proof (cases rule: slot_list_cases)
    case (list l vm0)
    then show ?thesis unfolding run using ins_mob_list [OF ok(1) st 2(1) key val list(1)] none by blast
  next
    case (node ai)
    then show ?thesis using none by simp
  qed
qed

lemma rs_insert_safe:
  assumes "rs_ok g vm m" and "vmem_ok vm g" and "stuck_list (vm_tracker vm)" and key: "key < key_max" and val: "val \<noteq> tombstone"
    and "2 * rs_depth m + 2 \<le> n"
  shows "ins_post g m vm key val (rs_insert n env m key val vm)"
  using assms(1-3,6)
proof (induction "rs_depth m" arbitrary: m vm n rule: less_induct)
  case less
  have "1 \<le> rs_depth m" by (cases m) simp
  then have "4 \<le> n" using less.prems(4) by simp
  then obtain n1 where "n = 4 + n1" using le_Suc_ex by blast
  then have n: "n = Suc (Suc (Suc (Suc n1)))" by simp
  show ?case
  proof (cases rule: rs_pos_cases [OF rs_okD(1) [OF less.prems(1)], of key env])
    case (1 pos)
    then show ?thesis unfolding n using ins_post_here [OF less.prems(1,2) 1(1,2) _ val] by blast
  next
    case 2
    have run: "rs_insert n env m key val vm = rs_insert_mob (Suc (Suc (Suc n1))) env m key val (rs_slot m key) vm"
      unfolding n using 2 by (simp del: rs_insert_mob.simps)
    from less.prems(1,2) 2(1) show ?thesis
    proof (cases rule: slot_list_cases)
      case (list l vm0)
      show ?thesis unfolding run
        by (rule ins_mob_list [OF less.prems(1,3) 2(1) key val list(1)]) (use rs_insert_fresh key val in blast)
    next
      case (node ai)
      have i: "nth_res (rm_mobs m) (rs_slot m key) = Inr (Some (RNode ai))" using rs_value_absent(2) [OF less.prems(1) 2(1)] node(1) by simp
      have "rs_insert_mob (Suc (Suc (Suc n1))) env m key val (rs_slot m key) vm =
          bind_res (rs_insert (Suc (Suc n1)) env ai key val vm) (\<lambda>(r, ai', vm1). Inr (r, rs_set_slot (rs_slot m key) (RNode ai') m, vm1))"
        using i by (simp del: rs_insert.simps)
      moreover have "ins_post g ai vm key val (rs_insert (Suc (Suc n1)) env ai key val vm)"
        by (rule less.hyps [OF node(3,2) less.prems(2,3)]) (use less.prems(4) n node(3) in simp)
      ultimately show ?thesis unfolding run
        using ins_post_sub [OF less.prems(1) 2(1) vext_refl _ key, of ai val] node(1) by (simp add: mob_value_def)
    qed
  qed
qed

end
