(* ===== verification/Kanva_RS_Ops.thy ===== *)
theory Kanva_RS_Ops
  imports Kanva_RS_Model_Spec
begin

text \<open>
  Properties of the operations of a node of the range-query variant: search, insertion, removal and the
  range query, against the newest value of a key (\<open>rs_value\<close>) and the versions of a key.
\<close>

section \<open>Search\<close>

lemma rl_search_value:
  assumes "list_ok g vm l" and "0 < key" and "key < key_max"
  shows "rl_search key val (l, vm) = Inr (rl_value key l vm = Some val)"
proof -
  obtain ns where ns: "rl_rep False l vm g ns" using assms(1) by (auto simp: list_ok_def)
  show ?thesis
    using rl_search_refines [OF ns assms(2,3), of val] rl_value_spec [OF ns assms(3)]
    by (auto simp: av_search_def split: option.splits)
qed

definition find_post :: "val_t option \<Rightarrow> val_t \<Rightarrow> (bool \<times> val_t) res \<Rightarrow> bool" where
  "find_post stored val res \<longleftrightarrow> (\<exists>b w. res = Inr (b, w) \<and> (b \<longrightarrow> stored = Some w) \<and> (\<not> b \<longrightarrow> w = val)
     \<and> (stored = Some val \<and> val \<noteq> tombstone \<longrightarrow> b))"

lemma rs_find_post:
  assumes "rs_ok g vm m" and "0 < key" and "key < key_max"
  shows "find_post (rs_value m vm key) val (rs_find env m key val vm)"
  using assms(1)
proof (induction m rule: rs_induct)
  case (1 m)
  note d = rs_okD [OF "1.prems"]
  show ?case
  proof (cases rule: rs_pos_cases [OF d(1), of key env])
    case (1 pos)
    obtain v where v: "getValue (rm_arr m ! pos) vm = Inr v" using d(2) 1(1) cell_ok_vext(3) [OF _ vext_refl] by (meson nth_mem)
    then have "rs_value m vm key = Some v" using rs_value_here [OF d(1) 1(1,2), of vm] by simp
    then show ?thesis using 1 v by (auto simp: rs_find.simps [of env m] find_post_def)
  next
    case 2
    note val = rs_value_absent [OF "1.prems" 2(1)]
    have i: "nth_res (rm_mobs m) (rs_slot m key) = Inr (rm_mobs m ! rs_slot m key)" using val(2) by simp
    show ?thesis
    proof (cases "rm_mobs m ! rs_slot m key")
      case None
      then show ?thesis using 2 i val(1) by (auto simp: rs_find.simps [of env m] find_post_def mob_value_def)
    next
      case (Some mob)
      have mem: "Some mob \<in> set (rm_mobs m)" using val(2) Some by (metis nth_mem)
      have mok: "rs_mob_ok g vm mob" using d(4) [OF val(2) Some] .
      show ?thesis
      proof (cases mob)
        case (RBin l)
        then show ?thesis using 2 i val(1) Some mok rl_search_value [OF _ assms(2,3), of g vm l val]
          by (auto simp: rs_find.simps [of env m] find_post_def mob_value_def)
      next
        case (RNode ai)
        have "find_post (rs_value ai vm key) val (rs_find env ai key val vm)" using "1.IH" [of ai] mem mok RNode by simp
        then show ?thesis using 2 i val(1) Some RNode by (simp add: rs_find.simps [of env m] mob_value_def)
      qed
    qed
  qed
qed

section \<open>Removal\<close>

definition rem_post :: "int \<Rightarrow> 'd RSModel \<Rightarrow> vmem \<Rightarrow> key_t \<Rightarrow> (bool \<times> 'd RSModel \<times> vmem) res \<Rightarrow> bool" where
  "rem_post g m vm key res \<longleftrightarrow>
     (\<exists>r m' vm'. res = Inr (r, m', vm') \<and> rs_ok g vm' m' \<and> vext vm vm' \<and> vmem_ok vm' g
        \<and> (\<forall>k. k < key_max \<and> k \<noteq> key \<longrightarrow> rs_value m' vm' k = rs_value m vm k)
        \<and> (r \<longrightarrow> rs_value m' vm' key = map_option (\<lambda>_. tombstone) (rs_value m vm key))
        \<and> (\<not> r \<longrightarrow> rs_value m' vm' key = rs_value m vm key \<or> rs_value m' vm' key = Some tombstone))"

lemma av_remove_value:
  assumes "length al < threshhold"
  shows "0 \<le> fst (av_insert key tombstone g al)"
    and "map_option (\<lambda>vs. fst (hd vs)) (map_of (snd (av_insert key tombstone g al)) x) =
      (if x = key then map_option (\<lambda>_. tombstone) (map_of al key) else map_option (\<lambda>vs. fst (hd vs)) (map_of al x))"
proof -
  show "0 \<le> fst (av_insert key tombstone g al)" using assms by (auto simp: av_insert_def split: option.split)
  show "map_option (\<lambda>vs. fst (hd vs)) (map_of (snd (av_insert key tombstone g al)) x) =
      (if x = key then map_option (\<lambda>_. tombstone) (map_of al key) else map_option (\<lambda>vs. fst (hd vs)) (map_of al x))"
  proof (cases "map_of al key")
    case None
    then show ?thesis using assms by (simp add: av_insert_def)
  next
    case (Some vs)
    then show ?thesis
      using assms map_of_map_snd [of "\<lambda>k ws. if k = key then (tombstone, g) # ws else ws" al x]
      by (auto simp: av_insert_def option.map_comp comp_def)
  qed
qed

lemma list_remove:
  assumes l: "list_ok g vm l" and key: "key < key_max" and vm: "vmem_ok vm g"
  obtains (full) "rl_remove key (l, vm) = Inr (- 2, l, vm)"
  | (removed) res l' vm' where "rl_remove key (l, vm) = Inr (res, l', vm')" "0 \<le> res" "list_ok g vm' l'" "vext vm vm'"
      "vmem_ok vm' g" "\<And>x. x < key_max \<Longrightarrow> rl_value x l' vm' =
        (if x = key then map_option (\<lambda>_. tombstone) (rl_value key l vm) else rl_value x l vm)"
proof -
  obtain ns where ns: "rl_rep False l vm g ns" "length ns \<le> threshhold" "\<not> rl_isReclaimed l" using l by (auto simp: list_ok_def)
  show ?thesis
  proof (cases "length ns = threshhold")
    case True
    then show ?thesis using that(1) rl_repD(4) [OF ns(1)] by (simp add: rl_insert_def rl_remove_def)
  next
    case False
    then have len: "length (rl_abs ns) < threshhold" using ns(2) by simp
    obtain l' vm' ns' where i: "rl_insert key tombstone (l, vm) = Inr (fst (av_insert key tombstone g (rl_abs ns)), l', vm')"
        "rl_isReclaimed l' = rl_isReclaimed l" "rl_rep False l' vm' g ns'" "rl_abs ns' = snd (av_insert key tombstone g (rl_abs ns))"
      using rl_insert_refines [OF ns(1) key, of tombstone] by blast
    have gr: "vext vm vm'" "vmem_ok vm' g" using vgrow_rl_insert [OF i(1), of g] vm by (auto simp: vgrow_def)
    have "length ns' \<le> threshhold" using av_insert_length [of "rl_abs ns" key tombstone g] i(4) ns(2) by (metis length_rl_abs)
    then have "list_ok g vm' l'" using i(2,3) ns(3) by (auto simp: list_ok_def)
    moreover have "rl_value x l' vm' = (if x = key then map_option (\<lambda>_. tombstone) (rl_value key l vm) else rl_value x l vm)"
      if "x < key_max" for x
      using rl_value_spec [OF i(3) that] rl_value_spec [OF ns(1) that] rl_value_spec [OF ns(1) key]
        av_remove_value(2) [OF len, of key g x] i(4) by (simp add: option.map_comp comp_def)
    ultimately show ?thesis using that(2) [of "fst (av_insert key tombstone g (rl_abs ns))" l' vm'] i(1) av_remove_value(1) [OF len] gr
      by (simp add: rl_remove_def)
  qed
qed

lemma rem_post_slot:
  assumes ok: "rs_ok g vm m" and key: "key \<notin> set (arr_keys (rm_arr m))" "key < key_max" and vm': "vext vm vm'" "vmem_ok vm' g"
    and mob: "rs_mob_ok g vm' mob"
    and same: "\<And>k. k < key_max \<Longrightarrow> k \<noteq> key \<Longrightarrow> mob_value (Some mob) vm' k = mob_value (rm_mobs m ! rs_slot m key) vm k"
    and r: "r \<Longrightarrow> mob_value (Some mob) vm' key = map_option (\<lambda>_. tombstone) (mob_value (rm_mobs m ! rs_slot m key) vm key)"
      "\<not> r \<Longrightarrow> mob_value (Some mob) vm' key = mob_value (rm_mobs m ! rs_slot m key) vm key \<or> mob_value (Some mob) vm' key = Some tombstone"
  shows "rem_post g m vm key (Inr (r, rs_set_slot (rs_slot m key) mob m, vm'))"
  using slot_change [OF ok vm' mob key(1) same] r vm' rs_value_absent(1) [OF ok key(1), of vm]
  unfolding rem_post_def by auto

lemma rem_post_here:
  assumes ok: "rs_ok g vm m" and vm: "vmem_ok vm g" and i: "i < length (rm_arr m)" "va_key (rm_arr m ! i) = key"
    and pos: "rs_pos env m key = Inr (i, rm_arr m ! i)"
  shows "rem_post g m vm key (rs_remove (Suc n) env m key vm)"
proof -
  let ?c = "rm_arr m ! i"
  note d = rs_okD [OF ok]
  have c: "cell_ok vm ?c" using d(2) i(1) by simp
  obtain v where v: "getValue ?c vm = Inr v" using cell_ok_vext(3) [OF c vext_refl] by blast
  then have old: "rs_value m vm key = Some v" using rs_value_here [OF d(1) i, of vm] by simp
  show ?thesis
  proof (cases "v = tombstone")
    case True
    then have "rs_remove (Suc n) env m key vm = Inr (False, m, vm)" using pos i(2) v by simp
    then show ?thesis using ok vm unfolding rem_post_def by (auto simp del: rs_remove.simps)
  next
    case False
    obtain c' vm' where c': "va_insert ?c tombstone vm = Inr (False, c', vm')" "va_key c' = va_key ?c" "cell_ok vm' c'" "vext vm vm'"
        "vmem_ok vm' g" "getValue c' vm' = Inr tombstone"
      using va_insert_cell [OF c vm v, of tombstone] False by auto
    have run: "rs_remove (Suc n) env m key vm = Inr (False, rs_set_cell i c' m, vm')" using pos i(2) v False c'(1) by simp
    note ch = cell_change [OF ok c'(4,5) i(1) c'(3,2)]
    show ?thesis using run ch c'(2,4-6) i(2) unfolding rem_post_def by auto
  qed
qed

lemma rs_remove_safe:
  assumes "rs_ok g vm m" and vm: "vmem_ok vm g" and key: "key < key_max" and "rs_depth m \<le> n"
  shows "rem_post g m vm key (rs_remove n env m key vm)"
  using assms(1,4)
proof (induction "rs_depth m" arbitrary: m n rule: less_induct)
  case less
  note d = rs_okD [OF less.prems(1)]
  have "1 \<le> rs_depth m" by (cases m) simp
  then obtain n1 where n: "n = Suc n1" using less.prems(2) by (cases n) auto
  show ?case
  proof (cases rule: rs_pos_cases [OF d(1), of key env])
    case (1 pos)
    then show ?thesis unfolding n using rem_post_here [OF less.prems(1) vm 1(1,2)] by blast
  next
    case 2
    note v = rs_value_absent [OF less.prems(1) 2(1)]
    let ?i = "rs_slot m key"
    have i: "nth_res (rm_mobs m) ?i = Inr (rm_mobs m ! ?i)" using v(2) by simp
    have run: "rs_remove n env m key vm = rs_remove_mob n1 env m key ?i vm" unfolding n using 2 by simp
    show ?thesis
    proof (cases "rm_mobs m ! ?i")
      case None
      then have "rs_remove n env m key vm = Inr (False, m, vm)" unfolding run using i by simp
      then show ?thesis using less.prems(1) vm by (auto simp: rem_post_def)
    next
      case (Some mob)
      have mok: "rs_mob_ok g vm mob" using d(4) [OF v(2) Some] .
      have mem: "Some mob \<in> set (rm_mobs m)" using v(2) Some by (metis nth_mem)
      show ?thesis
      proof (cases mob)
        case (RBin l)
        from mok RBin have "list_ok g vm l" by simp
        from this key vm show ?thesis
        proof (cases rule: list_remove)
          case full
          then have "rs_remove n env m key vm = Inr (False, rs_set_slot ?i (RBin l) m, vm)" unfolding run using i Some RBin by simp
          moreover have "rem_post g m vm key (Inr (False, rs_set_slot ?i (RBin l) m, vm))"
            by (rule rem_post_slot [OF less.prems(1) 2(1) key vext_refl vm]) (use mok Some RBin in simp_all)
          ultimately show ?thesis by (simp only:)
        next
          case (removed res l' vm')
          then have "rs_remove n env m key vm = Inr (True, rs_set_slot ?i (RBin l') m, vm')" unfolding run using i Some RBin by simp
          moreover have "rem_post g m vm key (Inr (True, rs_set_slot ?i (RBin l') m, vm'))"
            by (rule rem_post_slot [OF less.prems(1) 2(1) key removed(4,5)])
              (use removed(3,6) key Some RBin in \<open>simp_all add: mob_value_def\<close>)
          ultimately show ?thesis by (simp only:)
        qed
      next
        case (RNode ai)
        have dep: "rs_depth ai < rs_depth m" using rs_slot_depth(1) [OF mem] RNode by simp
        have "rem_post g ai vm key (rs_remove n1 env ai key vm)"
          by (rule less.hyps [OF dep]) (use mok RNode dep less.prems(2) n in simp_all)
        then obtain r ai' vm' where s: "rs_remove n1 env ai key vm = Inr (r, ai', vm')" "rs_ok g vm' ai'" "vext vm vm'" "vmem_ok vm' g"
            "\<forall>k. k < key_max \<and> k \<noteq> key \<longrightarrow> rs_value ai' vm' k = rs_value ai vm k"
            "r \<longrightarrow> rs_value ai' vm' key = map_option (\<lambda>_. tombstone) (rs_value ai vm key)"
            "\<not> r \<longrightarrow> rs_value ai' vm' key = rs_value ai vm key \<or> rs_value ai' vm' key = Some tombstone"
          unfolding rem_post_def by auto
        have "rs_remove n env m key vm = Inr (r, rs_set_slot ?i (RNode ai') m, vm')" unfolding run using i Some RNode s(1) by simp
        moreover have "rem_post g m vm key (Inr (r, rs_set_slot ?i (RNode ai') m, vm'))"
          by (rule rem_post_slot [OF less.prems(1) 2(1) key s(3,4)]) (use s Some RNode in \<open>auto simp: mob_value_def\<close>)
        ultimately show ?thesis by (simp only:)
      qed
    qed
  qed
qed

section \<open>Range queries\<close>

text \<open>A pair a range query may report: the newest version before \<open>ts\<close> of a cell, or of a key of a list.\<close>

definition cell_holds :: "vmem \<Rightarrow> VersionedArray \<Rightarrow> int \<Rightarrow> val_t \<Rightarrow> bool" where
  "cell_holds vm c ts v \<longleftrightarrow> (\<exists>vs. vseg (vm_heap vm) (va_vhead c) vs \<and> (\<forall>w \<in> set vs. 0 \<le> ver_ts w) \<and> value_at ts vs = Some v)"

definition list_holds :: "int \<Rightarrow> vmem \<Rightarrow> RList \<Rightarrow> key_t \<Rightarrow> int \<Rightarrow> val_t \<Rightarrow> bool" where
  "list_holds g vm l k ts v \<longleftrightarrow> (\<exists>ns vs. rl_rep False l vm g ns \<and> (k, vs) \<in> set (rl_abs ns) \<and> at_ts ts vs = Some v)"

inductive rs_holds :: "int \<Rightarrow> 'd RSModel \<Rightarrow> vmem \<Rightarrow> key_t \<Rightarrow> int \<Rightarrow> val_t \<Rightarrow> bool" for g where
  cell: "c \<in> set (rm_arr m) \<Longrightarrow> va_key c = k \<Longrightarrow> cell_holds vm c ts v \<Longrightarrow> rs_holds g m vm k ts v"
| list: "Some (RBin l) \<in> set (rm_mobs m) \<Longrightarrow> list_holds g vm l k ts v \<Longrightarrow> rs_holds g m vm k ts v"
| node: "Some (RNode ai) \<in> set (rm_mobs m) \<Longrightarrow> rs_holds g ai vm k ts v \<Longrightarrow> rs_holds g m vm k ts v"

lemma cell_holds_vext: "cell_holds vm c ts v \<Longrightarrow> vext vm vm' \<Longrightarrow> cell_holds vm' c ts v"
  unfolding cell_holds_def using vseg_vext_stamped by blast

lemma list_holds_vext: "list_holds g vm l k ts v \<Longrightarrow> vext vm vm' \<Longrightarrow> vmem_ok vm' g \<Longrightarrow> list_holds g vm' l k ts v"
  unfolding list_holds_def using rl_rep_vext by metis

lemma rs_holds_vext: "rs_holds g m vm k ts v \<Longrightarrow> vext vm vm' \<Longrightarrow> vmem_ok vm' g \<Longrightarrow> rs_holds g m vm' k ts v"
  by (induction rule: rs_holds.induct) (auto intro: rs_holds.intros cell_holds_vext list_holds_vext)

definition scan_post ::
    "int \<Rightarrow> 'd RSModel \<Rightarrow> vmem \<Rightarrow> key_t \<Rightarrow> int \<Rightarrow> nat \<times> (key_t \<times> val_t) list \<Rightarrow> ((int \<times> (key_t \<times> val_t) list) \<times> vmem) res \<Rightarrow> bool" where
  "scan_post g m vm key ts rr res \<longleftrightarrow>
     (\<exists>xs vm'. res = Inr ((int (fst rr - length xs), snd rr @ xs), vm') \<and> length xs \<le> fst rr \<and> vext vm vm' \<and> vmem_ok vm' g
        \<and> (\<forall>kv \<in> set xs. key \<le> fst kv \<and> rs_holds g m vm' (fst kv) ts (snd kv)))"

lemma scan_post_stop:
  assumes "vmem_ok vm g" and "fst rr < 2 ^ 31"
  shows "scan_post g m vm key ts rr (Inr ((to_i32 (int (fst rr)), snd rr), vm))"
  using assms unfolding scan_post_def by (intro exI [of _ "[]"] exI [of _ vm]) simp

text \<open>What was reported so far stays valid.\<close>

lemma scan_post_append:
  assumes xs: "length xs \<le> fst rr" "\<forall>kv \<in> set xs. key \<le> fst kv \<and> rs_holds g m vm1 (fst kv) ts (snd kv)" and ext: "vext vm vm1"
    and rest: "scan_post g m vm1 key ts (fst rr - length xs, snd rr @ xs) res"
  shows "scan_post g m vm key ts rr res"
proof -
  obtain ys vm' where ys: "res = Inr ((int (fst rr - length xs - length ys), (snd rr @ xs) @ ys), vm')" "length ys \<le> fst rr - length xs"
      "vext vm1 vm'" "vmem_ok vm' g" "\<forall>kv \<in> set ys. key \<le> fst kv \<and> rs_holds g m vm' (fst kv) ts (snd kv)"
    using rest unfolding scan_post_def by auto
  have "key \<le> fst kv \<and> rs_holds g m vm' (fst kv) ts (snd kv)" if "kv \<in> set xs" for kv
    using bspec [OF xs(2) that] rs_holds_vext [OF _ ys(3,4)] by blast
  then have "\<forall>kv \<in> set (xs @ ys). key \<le> fst kv \<and> rs_holds g m vm' (fst kv) ts (snd kv)"
    using ys(5) unfolding set_append by blast
  then show ?thesis using xs(1) ys(1,2,4) vext_trans [OF ext ys(3)] unfolding scan_post_def
    by (intro exI [of _ "xs @ ys"] exI [of _ vm']) simp
qed

lemma scan_cell_spec:
  assumes ok: "rs_ok g vm m" and vm: "vmem_ok vm g" and rr: "0 < fst rr"
  shows "\<exists>xs vm'. scan_cell m key pos rr ts vm = Inr ((fst rr - length xs, snd rr @ xs), vm') \<and> length xs \<le> fst rr \<and> vext vm vm'
    \<and> vmem_ok vm' g \<and> (\<forall>kv \<in> set xs. key \<le> fst kv \<and> rs_holds g m vm' (fst kv) ts (snd kv))"
proof (cases "pos < rs_capacity m \<and> key \<le> va_key (rm_arr m ! pos)")
  case False
  then show ?thesis using vm unfolding scan_cell_def by (intro exI [of _ "[]"] exI [of _ vm]) (auto simp: prod_eq_iff)
next
  case True
  let ?c = "rm_arr m ! pos"
  have mem: "?c \<in> set (rm_arr m)" using True by (simp add: rs_capacity_def)
  then obtain vs where vs: "vs \<noteq> []" "vseg (vm_heap vm) (va_vhead ?c) vs" "distinct (map ver_addr vs)" "- 1 \<le> ver_ts (hd vs)"
      "\<forall>v \<in> set (tl vs). 0 \<le> ver_ts v"
    using rs_okD(2) [OF ok] by (auto simp: cell_ok_def)
  have rep: "va_rep vm g ?c vs" using vs vm by (simp add: va_rep_def)
  obtain vm' where vm': "getVersionedValue ?c ts vm = Inr (case value_at ts (stamp g vs) of None \<Rightarrow> - 1 | Some v \<Rightarrow> v, vm')"
      "va_rep vm' g ?c (stamp g vs)"
    using getVersionedValue_spec [OF rep, of ts] by blast
  obtain p where "init_ts p vm = Inr vm'"
    using vm'(1) by (auto simp: getVersionedValue_def Let_def bind_res_Inr_iff split: if_splits)
  then have gr: "vext vm vm'" "vmem_ok vm' g" using vgrow_init_ts [of p vm vm' g] vm by (auto simp: vgrow_def)
  have "0 \<le> g" using vm by (simp add: vmem_ok_def)
  have st: "\<forall>w \<in> set (stamp g vs). 0 \<le> ver_ts w" using vs(1,4,5) \<open>0 \<le> g\<close> by (cases vs) (auto split: if_splits)
  show ?thesis
  proof (cases "value_at ts (stamp g vs)")
    case None
    then show ?thesis using True vm'(1) gr unfolding scan_cell_def by (intro exI [of _ "[]"] exI [of _ vm']) (auto simp: prod_eq_iff)
  next
    case (Some v)
    then have "v \<noteq> tombstone" by (auto simp: value_at_def split: option.splits if_splits)
    moreover have "cell_holds vm' ?c ts v" using vm'(2) st Some by (auto simp: va_rep_def cell_holds_def)
    then have "rs_holds g m vm' (va_key ?c) ts v" using mem by (auto intro: rs_holds.cell)
    ultimately show ?thesis using True vm'(1) gr rr Some unfolding scan_cell_def
      by (intro exI [of _ "[(va_key ?c, v)]"] exI [of _ vm']) auto
  qed
qed

lemma map_filter_mem: "y \<in> set (List.map_filter f xs) \<Longrightarrow> \<exists>x \<in> set xs. f x = Some y"
  by (auto simp: List.map_filter_def)

lemma av_range_mem:
  assumes "rl_rep f l vm g ns" and kv: "kv \<in> set (av_range low ts (rl_abs ns))"
  shows "low \<le> fst kv" and "\<exists>vs. (fst kv, vs) \<in> set (rl_abs ns) \<and> at_ts ts vs = Some (snd kv)"
proof -
  from map_filter_mem [OF kv [unfolded av_range_def]]
  obtain x where x: "x \<in> set (dropWhile (\<lambda>kv. fst kv < low) (rl_abs ns))"
      "(case x of (k, vs) \<Rightarrow> map_option (Pair k) (at_ts ts vs)) = Some kv" by blast
  obtain vs where vs: "x = (fst kv, vs)" "at_ts ts vs = Some (snd kv)" using x(2) by (cases x) auto
  then show "\<exists>vs. (fst kv, vs) \<in> set (rl_abs ns) \<and> at_ts ts vs = Some (snd kv)" using x(1) set_dropWhileD by fast
  have "x \<in> set (rl_abs (from_key low ns))" using x(1) unfolding rl_abs_from .
  then have "fst x \<in> fst ` set (rl_abs (from_key low ns))" by (rule imageI)
  then have "fst kv \<in> rd_key ` set (from_key low ns)" unfolding rl_abs_keys vs(1) by simp
  then obtain n where "fst kv = rd_key n" "n \<in> set (from_key low ns)" by (rule imageE)
  then show "low \<le> fst kv" using from_key_ge [OF rl_repD(1) [OF assms(1)]] by metis
qed

lemma scan_list:
  assumes l: "list_ok g vm l" and rr: "fst rr < 2 ^ 31" and vm: "vmem_ok vm g" and mem: "Some (RBin l) \<in> set (rm_mobs m)"
  shows "\<exists>xs. rl_range_query key (int (fst rr)) ts (snd rr) (l, vm) = Inr (int (fst rr - length xs), snd rr @ xs, l, vm)
    \<and> length xs \<le> fst rr \<and> (\<forall>kv \<in> set xs. key \<le> fst kv \<and> rs_holds g m vm (fst kv) ts (snd kv))"
proof -
  obtain ns where ns: "rl_rep False l vm g ns" using l by (auto simp: list_ok_def)
  let ?xs = "take (fst rr) (av_range key ts (rl_abs ns))"
  have len: "length ?xs \<le> fst rr" by simp
  then have "to_i32 (int (fst rr) - int (length ?xs)) = int (fst rr - length ?xs)"
    using rr by (simp add: of_nat_diff del: length_take)
  then have "rl_range_query key (int (fst rr)) ts (snd rr) (l, vm) = Inr (int (fst rr - length ?xs), snd rr @ ?xs, l, vm)"
    using rl_range_refines [OF ns, of "int (fst rr)" key ts "snd rr"] by (simp del: length_take)
  moreover have "key \<le> fst kv \<and> rs_holds g m vm (fst kv) ts (snd kv)" if "kv \<in> set ?xs" for kv
  proof -
    have kv: "kv \<in> set (av_range key ts (rl_abs ns))" using that by (rule in_set_takeD)
    then have "list_holds g vm l (fst kv) ts (snd kv)" using av_range_mem(2) [OF ns kv] ns by (auto simp: list_holds_def)
    then show ?thesis using av_range_mem(1) [OF ns kv] rs_holds.list [OF mem] by blast
  qed
  ultimately show ?thesis using len by blast
qed

lemma sz_of_int_nat: "x < 2 ^ 31 \<Longrightarrow> sz_of_int (int x) = x"
  by (subst sz_of_int_small) auto

lemma rs_scan_loop_post:
  assumes IH: "\<And>ai f rr vm. Some (RNode ai) \<in> set (rm_mobs m) \<Longrightarrow> rs_ok g vm ai \<Longrightarrow> vmem_ok vm g \<Longrightarrow> fst rr < 2 ^ 31 \<Longrightarrow>
      rs_scan_fuel ai \<le> f \<Longrightarrow> scan_post g ai vm key ts rr (rs_scan f env ai key rr ts vm)"
  shows "rs_ok g vm m \<Longrightarrow> vmem_ok vm g \<Longrightarrow> fst rr < 2 ^ 31 \<Longrightarrow> rs_scan_fuel m + (length (rm_arr m) + 1 - pos) \<le> f + 2 * length (rm_arr m) + 3 \<Longrightarrow>
    scan_post g m vm key ts rr (rs_scan_loop f env m key rr ts vm pos)"
proof (induction f arbitrary: vm rr pos)
  case 0
  have "2 * length (rm_arr m) + 5 \<le> rs_scan_fuel m" by (cases m) simp
  then show ?case using "0.prems"(4) by simp
next
  case (Suc f)
  note ok = Suc.prems(1) and vm = Suc.prems(2)
  let ?cap = "rs_capacity m"
  show ?case
  proof (cases "fst rr = 0 \<or> ?cap < pos")
    case True
    then show ?thesis using scan_post_stop [OF vm Suc.prems(3)] by (simp only: rs_scan_loop.simps if_True)
  next
    case False
    obtain xs vm1 where c: "scan_cell m key pos rr ts vm = Inr ((fst rr - length xs, snd rr @ xs), vm1)" "length xs \<le> fst rr" "vext vm vm1"
        "vmem_ok vm1 g" "\<forall>kv \<in> set xs. key \<le> fst kv \<and> rs_holds g m vm1 (fst kv) ts (snd kv)"
      using scan_cell_spec [OF ok vm, of rr key pos ts] False by auto
    define rr1 where "rr1 = (fst rr - length xs, snd rr @ xs)"
    have rr1: "fst rr1 < 2 ^ 31" using Suc.prems(3) by (simp add: rr1_def)
    note ok1 = rs_ok_vext [OF ok c(3,4)]
    define res where "res = (if fst rr1 = 0 \<or> ?cap < pos + 1 then Inr ((to_i32 (int (fst rr1)), snd rr1), vm1)
          else
            bind_res (nth_res (rm_mobs m) (pos + 1)) (\<lambda>slot.
              case slot of
                None \<Rightarrow> rs_scan_loop f env m key rr1 ts vm1 (pos + 1)
              | Some (RBin l) \<Rightarrow>
                  bind_res (rl_range_query key (int (fst rr1)) ts (snd rr1) (l, vm1)) (\<lambda>(r, result, l1, vm2).
                    rs_scan_loop f env m key (sz_of_int r, result) ts vm2 (pos + 1))
              | Some (RNode ai) \<Rightarrow>
                  bind_res (rs_scan f env ai key rr1 ts vm1) (\<lambda>(rr2, vm2).
                    rs_scan_loop f env m key (sz_of_int (fst rr2), snd rr2) ts vm2 (pos + 1))))"
    have run: "rs_scan_loop (Suc f) env m key rr ts vm pos = res"
      using False c(1) unfolding rs_scan_loop.simps res_def rr1_def by simp
    have "scan_post g m vm1 key ts rr1 res"
    proof (cases "fst rr1 = 0 \<or> ?cap < pos + 1")
      case True
      then show ?thesis unfolding res_def using scan_post_stop [OF c(4) rr1] by simp
    next
      case go: False
      have i: "pos + 1 < length (rm_mobs m)" using go rs_okD(3) [OF ok] by (simp add: rs_capacity_def)
      then have slot: "nth_res (rm_mobs m) (pos + 1) = Inr (rm_mobs m ! (pos + 1))" by simp
      have loop: "scan_post g m vm2 key ts rr2 (rs_scan_loop f env m key rr2 ts vm2 (pos + 1))"
        if "rs_ok g vm2 m" "vmem_ok vm2 g" "fst rr2 < 2 ^ 31" for vm2 rr2
        by (rule Suc.IH [OF that]) (use Suc.prems(4) go in \<open>simp add: rs_capacity_def\<close>)
      show ?thesis
      proof (cases "rm_mobs m ! (pos + 1)")
        case None
        then show ?thesis unfolding res_def using go slot loop [OF ok1 c(4) rr1] by simp
      next
        case (Some mob)
        have mem: "Some mob \<in> set (rm_mobs m)" using i Some by (metis nth_mem)
        have mok: "rs_mob_ok g vm1 mob" using rs_okD(4) [OF ok1 i Some] .
        show ?thesis
        proof (cases mob)
          case (RBin l)
          obtain ys where y: "rl_range_query key (int (fst rr1)) ts (snd rr1) (l, vm1) = Inr (int (fst rr1 - length ys), snd rr1 @ ys, l, vm1)"
              "length ys \<le> fst rr1" "\<forall>kv \<in> set ys. key \<le> fst kv \<and> rs_holds g m vm1 (fst kv) ts (snd kv)"
            using scan_list [of g vm1 l rr1 m key ts] mok mem RBin rr1 c(4) by auto
          have sz: "sz_of_int (int (fst rr1 - length ys)) = fst rr1 - length ys" using rr1 by (intro sz_of_int_nat) simp
          have "res = rs_scan_loop f env m key (fst rr1 - length ys, snd rr1 @ ys) ts vm1 (pos + 1)"
            unfolding res_def using go slot Some RBin y(1) sz by simp
          then show ?thesis
            using scan_post_append [OF y(2,3) vext_refl loop [OF ok1 c(4)]] rr1 by simp
        next
          case (RNode ai)
          have "rs_scan_fuel ai + 2 * length (rm_arr m) + 5 \<le> rs_scan_fuel m" using rs_slot_depth(2) [OF mem] RNode by simp
          then have "rs_scan_fuel ai \<le> f" using Suc.prems(4) by simp
          then have "scan_post g ai vm1 key ts rr1 (rs_scan f env ai key rr1 ts vm1)"
            using IH [of ai vm1 rr1 f] mem mok RNode c(4) rr1 by simp
          then obtain ys vm2 where y: "rs_scan f env ai key rr1 ts vm1 = Inr ((int (fst rr1 - length ys), snd rr1 @ ys), vm2)"
              "length ys \<le> fst rr1" "vext vm1 vm2" "vmem_ok vm2 g" "\<forall>kv \<in> set ys. key \<le> fst kv \<and> rs_holds g ai vm2 (fst kv) ts (snd kv)"
            unfolding scan_post_def by (elim exE conjE) (rule that)
          have hold: "\<forall>kv \<in> set ys. key \<le> fst kv \<and> rs_holds g m vm2 (fst kv) ts (snd kv)"
            using y(5) rs_holds.node mem RNode by blast
          have sz: "sz_of_int (int (fst rr1 - length ys)) = fst rr1 - length ys" using rr1 by (intro sz_of_int_nat) simp
          have "res = rs_scan_loop f env m key (fst rr1 - length ys, snd rr1 @ ys) ts vm2 (pos + 1)"
            unfolding res_def using go slot Some RNode y(1) sz by simp
          then show ?thesis
            using scan_post_append [OF y(2) hold y(3) loop [OF rs_ok_vext [OF ok1 y(3,4)] y(4)]] rr1 by simp
        qed
      qed
    qed
    then show ?thesis unfolding run using scan_post_append [OF c(2,5,3)] by (simp add: rr1_def)
  qed
qed

lemma rs_scan_post:
  assumes "rs_ok g vm m" and "vmem_ok vm g" and "fst rr < 2 ^ 31" and "rs_scan_fuel m \<le> f"
  shows "scan_post g m vm key ts rr (rs_scan f env m key rr ts vm)"
  using assms
proof (induction m arbitrary: f rr vm rule: rs_induct)
  case (1 m)
  have "5 \<le> rs_scan_fuel m" by (cases m) simp
  then obtain f' where f: "f = Suc f'" using "1.prems"(4) by (cases f) auto
  obtain pos where pos: "rs_locate m key (rs_predict env m key) = Inr pos"
    using rs_pos_cases [OF rs_okD(1) [OF "1.prems"(1)], of key env] by metis
  have "scan_post g m vm key ts rr (rs_scan_loop f' env m key rr ts vm pos)"
    by (rule rs_scan_loop_post [OF "1.IH" "1.prems"(1-3)]) (use "1.prems"(4) f in auto)
  then show ?case using pos by (simp add: f)
qed

end
