(* ===== verification/Kanva_RS.thy ===== *)
theory Kanva_RS
  imports Kanva_RS_Ops Search
begin

text \<open>
  The index of the range-query variant: \<open>Kanva_RS/kanva_RS.h\<close> and \<open>Kanva_RS/kanva_RS_impl.h\<close>.

  Training cuts the sorted keys into parts of \<open>learning_step\<close> keys, one node for each, whatever the
  error of its linear model (the error-driven loop of the other variant is commented out, and so is the
  only call of \<open>backward_train\<close>). An operation goes to the node that a binary search over the last keys of
  the parts selects; a range query takes a timestamp, asks the nodes in turn and finishes the timestamp.
  The global tracker and the version store are one value \<open>vmem\<close> next to the index.

  Training loops end after one round for each part: \<open>length keys + 1\<close> units of fuel are enough.
\<close>

section \<open>Index and training\<close>

record 'd KanvaRS =
  ks_model_keys :: "key_t list"
  ks_aimodels :: "'d RSModel list"
  ks_maxErr :: int
  ks_learning_step :: int

definition KanvaRS_new :: "'d KanvaRS" where
  "KanvaRS_new = \<lparr>ks_model_keys = [], ks_aimodels = [], ks_maxErr = 64, ks_learning_step = 1000\<rparr>"

definition rs_append_model ::
    "'d lr_model \<Rightarrow> key_t list \<Rightarrow> val_t list \<Rightarrow> nat \<Rightarrow> int \<Rightarrow> 'd KanvaRS \<times> vmem \<Rightarrow> ('d KanvaRS \<times> vmem) res" where
  "rs_append_model lr ks vs sz er kv =
     bind_res (nth_int ks (int sz - 1)) (\<lambda>key.
       assert_res (er \<le> ks_maxErr (fst kv))
        (bind_res (RSModel_new lr ks vs sz 0 (snd kv)) (\<lambda>(aimodel, vm).
           Inr ((fst kv)\<lparr>ks_model_keys := ks_model_keys (fst kv) @ [key],
                         ks_aimodels := ks_aimodels (fst kv) @ [aimodel]\<rparr>, vm))))"

fun rs_train_loop ::
    "nat \<Rightarrow> 'd rs_env \<Rightarrow> key_t list \<Rightarrow> val_t list \<Rightarrow> nat \<Rightarrow> nat \<Rightarrow> 'd KanvaRS \<times> vmem \<Rightarrow> ('d KanvaRS \<times> vmem) res" where
  "rs_train_loop 0 env keys vals start fin kv = Inl OutOfFuel"
| "rs_train_loop (Suc n) env keys vals start fin kv =
     (if start < fin then
        bind_res (lr_train_range (re_fp env) (lr_new (re_w env) (re_b env)) (take (fin - start) (drop start keys))) (\<lambda>lr.
        bind_res (rs_append_model lr (drop start keys) (drop start vals) (fin - start) 0 kv) (\<lambda>kv1.
          let fin1 = sz_add fin (sz_of_int (ks_learning_step (fst kv1))) in
          rs_train_loop n env keys vals fin (if length keys \<le> fin1 then length keys else fin1) kv1))
      else Inr kv)"

definition rs_train ::
    "'d rs_env \<Rightarrow> key_t list \<Rightarrow> val_t list \<Rightarrow> nat \<Rightarrow> 'd KanvaRS \<times> vmem \<Rightarrow> ('d KanvaRS \<times> vmem) res" where
  "rs_train env keys vals maxErr kv =
     assert_res (length keys = length vals)
      (let k1 = (fst kv)\<lparr>ks_maxErr := to_i32 (int maxErr)\<rparr>; step = sz_of_int (ks_learning_step k1);
           fin = (if step < length keys then step else length keys) in
       bind_res (rs_train_loop (length keys + 1) env keys vals 0 fin (k1, snd kv)) (\<lambda>kv2.
         assert_res (length (ks_model_keys (fst kv2)) = length (ks_aimodels (fst kv2))) (Inr kv2)))"

section \<open>Operations\<close>

definition rs_find_model :: "'d KanvaRS \<Rightarrow> key_t \<Rightarrow> nat res" where
  "rs_find_model k key =
     bind_res (binary_search_branchless (ks_model_keys k) (length (ks_model_keys k)) key) (\<lambda>p.
       Inr (if length (ks_aimodels k) \<le> p then sz_sub (length (ks_aimodels k)) 1 else p))"

definition krs_find :: "'d rs_env \<Rightarrow> key_t \<Rightarrow> val_t \<Rightarrow> 'd KanvaRS \<times> vmem \<Rightarrow> (bool \<times> val_t) res" where
  "krs_find env key val kv =
     bind_res (rs_find_model (fst kv) key) (\<lambda>i.
     bind_res (nth_res (ks_aimodels (fst kv)) i) (\<lambda>m. rs_find env m key val (snd kv)))"

definition krs_insert :: "'d rs_env \<Rightarrow> key_t \<Rightarrow> val_t \<Rightarrow> 'd KanvaRS \<times> vmem \<Rightarrow> (bool \<times> 'd KanvaRS \<times> vmem) res" where
  "krs_insert env key val kv =
     bind_res (rs_find_model (fst kv) key) (\<lambda>i.
     bind_res (nth_res (ks_aimodels (fst kv)) i) (\<lambda>m.
     bind_res (rs_insert (2 * rs_depth m + 2) env m key val (snd kv)) (\<lambda>(r, m', vm).
       Inr (r, (fst kv)\<lparr>ks_aimodels := (ks_aimodels (fst kv))[i := m']\<rparr>, vm))))"

definition krs_update :: "key_t \<Rightarrow> val_t \<Rightarrow> 'd KanvaRS \<times> vmem \<Rightarrow> (bool \<times> 'd KanvaRS \<times> vmem) res" where
  "krs_update key val kv =
     bind_res (rs_find_model (fst kv) key) (\<lambda>i.
     bind_res (nth_res (ks_aimodels (fst kv)) i) (\<lambda>m.
       let (r, m', vm) = rs_update m key val (snd kv) in
       Inr (r, (fst kv)\<lparr>ks_aimodels := (ks_aimodels (fst kv))[i := m']\<rparr>, vm)))"

definition krs_remove :: "'d rs_env \<Rightarrow> key_t \<Rightarrow> 'd KanvaRS \<times> vmem \<Rightarrow> (bool \<times> 'd KanvaRS \<times> vmem) res" where
  "krs_remove env key kv =
     bind_res (rs_find_model (fst kv) key) (\<lambda>i.
     bind_res (nth_res (ks_aimodels (fst kv)) i) (\<lambda>m.
     bind_res (rs_remove (rs_depth m) env m key (snd kv)) (\<lambda>(r, m', vm).
       Inr (r, (fst kv)\<lparr>ks_aimodels := (ks_aimodels (fst kv))[i := m']\<rparr>, vm))))"

text \<open>The loop of \<open>rangequery\<close> over the nodes from the selected one on.\<close>

fun rangequery_loop ::
    "'d rs_env \<Rightarrow> key_t \<Rightarrow> int \<Rightarrow> 'd RSModel list \<Rightarrow> nat \<times> (key_t \<times> val_t) list \<Rightarrow> vmem
      \<Rightarrow> ((nat \<times> (key_t \<times> val_t) list) \<times> vmem) res" where
  "rangequery_loop env key ts [] rr vm = Inr (rr, vm)"
| "rangequery_loop env key ts (m # ms) rr vm =
     (if fst rr = 0 then Inr (rr, vm)
      else bind_res (rs_scan (rs_scan_fuel m) env m key rr ts vm) (\<lambda>(rr1, vm1).
        rangequery_loop env key ts ms (sz_of_int (fst rr1), snd rr1) vm1))"

definition rangequery ::
    "'d rs_env \<Rightarrow> key_t \<Rightarrow> nat \<Rightarrow> 'd KanvaRS \<times> vmem \<Rightarrow> (int \<times> (key_t \<times> val_t) list \<times> 'd KanvaRS \<times> vmem) res" where
  "rangequery env key n kv =
     bind_res (add_timestamp (vm_tracker (snd kv))) (\<lambda>(tracker_node, tr).
     bind_res (tl_load tr tracker_node) (\<lambda>nd.
     let ts = to_i32 (tn_ts nd); vm = (snd kv)\<lparr>vm_tracker := tr\<rparr> in
     bind_res (rs_find_model (fst kv) key) (\<lambda>i.
     bind_res (rangequery_loop env key ts (drop i (ks_aimodels (fst kv))) (n, []) vm) (\<lambda>(rr, vm1).
     bind_res (set_finish tracker_node (vm_tracker vm1)) (\<lambda>tr1.
       Inr (to_i32 (int (fst rr)), snd rr, fst kv, vm1\<lparr>vm_tracker := tr1\<rparr>))))))"

definition krs_self_check :: "'d KanvaRS \<Rightarrow> bool" where
  "krs_self_check k \<longleftrightarrow> (\<forall>i < length (ks_model_keys k). case nth_res (ks_aimodels k) i of Inr m \<Rightarrow> rs_self_check m | Inl _ \<Rightarrow> False)"

section \<open>Routing and invariant\<close>

definition krs_ok :: "int \<Rightarrow> 'd KanvaRS \<times> vmem \<Rightarrow> bool" where
  "krs_ok g kv \<longleftrightarrow> sorted (ks_model_keys (fst kv)) \<and> length (ks_model_keys (fst kv)) = length (ks_aimodels (fst kv))
     \<and> ks_aimodels (fst kv) \<noteq> [] \<and> length (ks_aimodels (fst kv)) < 2 ^ 64
     \<and> (\<forall>m \<in> set (ks_aimodels (fst kv)). rs_ok g (snd kv) m) \<and> vmem_ok (snd kv) g \<and> tracker_ok (vm_tracker (snd kv))"

definition route :: "'d KanvaRS \<Rightarrow> key_t \<Rightarrow> nat" where
  "route k key = min (lb (ks_model_keys k) key) (length (ks_aimodels k) - 1)"

definition krs_value :: "'d KanvaRS \<times> vmem \<Rightarrow> key_t \<Rightarrow> val_t option" where
  "krs_value kv key = rs_value (ks_aimodels (fst kv) ! route (fst kv) key) (snd kv) key"

lemma rs_find_model_route:
  assumes "krs_ok g kv"
  shows "rs_find_model (fst kv) key = Inr (route (fst kv) key)" and "route (fst kv) key < length (ks_aimodels (fst kv))"
proof -
  let ?k = "fst kv"
  have len: "1 \<le> length (ks_aimodels ?k)" "length (ks_aimodels ?k) < 2 ^ 64" "length (ks_model_keys ?k) = length (ks_aimodels ?k)"
    and srt: "sorted (ks_model_keys ?k)"
    using assms by (auto simp: krs_ok_def Suc_le_eq)
  have "sz_sub (length (ks_aimodels ?k)) 1 = length (ks_aimodels ?k) - 1" using len by (intro sz_sub_small) auto
  then show "rs_find_model ?k key = Inr (route ?k key)"
    unfolding rs_find_model_def binary_search_branchless_lb [OF srt] route_def
    using lb_le [of "ks_model_keys ?k" key] len by auto
  show "route ?k key < length (ks_aimodels ?k)" using len(1) by (auto simp: route_def min_less_iff_disj)
qed

lemma krs_ok_node:
  assumes "krs_ok g kv"
  shows "rs_ok g (snd kv) (ks_aimodels (fst kv) ! route (fst kv) key)"
    "nth_res (ks_aimodels (fst kv)) (route (fst kv) key) = Inr (ks_aimodels (fst kv) ! route (fst kv) key)"
    "vmem_ok (snd kv) g" "stuck_list (vm_tracker (snd kv))"
  using assms rs_find_model_route(2) [OF assms, of key] by (auto simp: krs_ok_def tracker_ok_def)

text \<open>A node replaced by one that agrees on all keys but one.\<close>

lemma krs_change:
  fixes k :: "'d KanvaRS"
  assumes ok: "krs_ok g (k, vm)" and m': "rs_ok g vm' m'" "vext vm vm'" "vmem_ok vm' g"
    and same: "\<forall>x. x < key_max \<and> x \<noteq> key \<longrightarrow> rs_value m' vm' x = rs_value (ks_aimodels k ! route k key) vm x"
  defines "k' \<equiv> k\<lparr>ks_aimodels := (ks_aimodels k)[route k key := m']\<rparr>"
  shows "krs_ok g (k', vm')" and "krs_value (k', vm') key = rs_value m' vm' key"
    and "\<And>x. x < key_max \<Longrightarrow> x \<noteq> key \<Longrightarrow> krs_value (k', vm') x = krs_value (k, vm) x"
proof -
  have r: "route k' x = route k x" for x by (simp add: route_def k'_def)
  have i: "route k x < length (ks_aimodels k)" for x using rs_find_model_route(2) [OF ok] by simp
  have all: "rs_ok g vm' m" if "m \<in> set (ks_aimodels k)" for m
    using ok that rs_ok_vext [OF _ m'(2,3)] by (auto simp: krs_ok_def)
  show "krs_ok g (k', vm')"
    using ok m' all by (auto simp: krs_ok_def k'_def vext_def dest!: set_update_subset_insert [THEN subsetD])
  show "krs_value (k', vm') key = rs_value m' vm' key" using i by (simp add: krs_value_def r) (simp add: k'_def)
  fix x assume x: "x < key_max" "x \<noteq> key"
  show "krs_value (k', vm') x = krs_value (k, vm) x"
  proof (cases "route k x = route k key")
    case True
    then have "krs_value (k', vm') x = rs_value m' vm' x" using i by (simp add: krs_value_def r) (simp add: k'_def)
    then show ?thesis using same x True by (simp add: krs_value_def)
  next
    case False
    then have "krs_value (k', vm') x = rs_value (ks_aimodels k ! route k x) vm' x" by (simp add: krs_value_def r) (simp add: k'_def)
    moreover have "rs_ok g vm (ks_aimodels k ! route k x)" using krs_ok_node(1) [OF ok] by simp
    ultimately show ?thesis using rs_value_vext [OF _ m'(2,3) x(1)] by (simp add: krs_value_def)
  qed
qed

end
