(* ===== verification/Kanva_RS_Spec.thy ===== *)
theory Kanva_RS_Spec
  imports Kanva_RS
begin

text \<open>
  Correctness of the index of the range-query variant: what training builds, that trained keys are
  found, and what insertion, search, removal and range queries do to and report of every key. No theorem
  assumes anything of the floating-point arithmetic.
\<close>

section \<open>Search, insertion and removal\<close>

lemma krs_find_post:
  assumes "krs_ok g kv" and "0 < key" and "key < key_max"
  shows "find_post (krs_value kv key) val (krs_find env key val kv)"
  using rs_find_post [OF krs_ok_node(1) [OF assms(1)] assms(2,3), of key val env]
    rs_find_model_route(1) [OF assms(1), of key] krs_ok_node(2) [OF assms(1), of key]
  by (simp add: krs_find_def krs_value_def)

lemma krs_insert_post:
  assumes ok: "krs_ok g (k, vm)" and key: "key < key_max" and val: "val \<noteq> tombstone"
  obtains (assert) "krs_insert env key val (k, vm) = Inl AssertFail"
  | (returned) r k' vm' where "krs_insert env key val (k, vm) = Inr (r, k', vm')" "krs_ok g (k', vm')"
      "\<And>x. x < key_max \<Longrightarrow> x \<noteq> key \<Longrightarrow> krs_value (k', vm') x = krs_value (k, vm) x"
      "r \<longrightarrow> krs_value (k', vm') key = Some val"
      "\<not> r \<longrightarrow> (\<exists>old. krs_value (k, vm) key = Some old \<and> krs_value (k', vm') key = Some (if old = tombstone then val else old))"
proof -
  let ?i = "route k key"
  let ?m = "ks_aimodels k ! ?i"
  note nd = krs_ok_node(1,2) [OF ok, of key, unfolded fst_conv snd_conv] krs_ok_node(3,4) [OF ok, unfolded snd_conv]
  have rt: "rs_find_model k key = Inr ?i" using rs_find_model_route(1) [OF ok, of key] by simp
  have "ins_post g ?m vm key val (rs_insert (2 * rs_depth ?m + 2) env ?m key val vm)"
    by (rule rs_insert_safe [OF nd(1,3,4) key val order_refl])
  then consider "rs_insert (2 * rs_depth ?m + 2) env ?m key val vm = Inl AssertFail"
    | r m' vm' where "rs_insert (2 * rs_depth ?m + 2) env ?m key val vm = Inr (r, m', vm')" "rs_ok g vm' m'" "vext vm vm'" "vmem_ok vm' g"
      "\<forall>x. x < key_max \<and> x \<noteq> key \<longrightarrow> rs_value m' vm' x = rs_value ?m vm x" "r \<longrightarrow> rs_value m' vm' key = Some val"
      "\<not> r \<longrightarrow> (\<exists>old. rs_value ?m vm key = Some old \<and> rs_value m' vm' key = Some (if old = tombstone then val else old))"
    unfolding ins_post_def by (elim disjE exE conjE)
  then show ?thesis
  proof cases
    case 1
    then show ?thesis using that(1) rt nd(2) by (simp add: krs_insert_def)
  next
    case (2 r m' vm')
    note ch = krs_change [OF ok 2(2-5)]
    have "krs_insert env key val (k, vm) = Inr (r, k\<lparr>ks_aimodels := (ks_aimodels k)[?i := m']\<rparr>, vm')"
      using rt nd(2) 2(1) by (simp add: krs_insert_def)
    moreover have "krs_value (k, vm) key = rs_value ?m vm key" by (simp add: krs_value_def)
    ultimately show ?thesis using that(2) ch 2(6,7) by simp
  qed
qed

lemma krs_remove_post:
  assumes ok: "krs_ok g (k, vm)" and key: "key < key_max"
  obtains r k' vm' where "krs_remove env key (k, vm) = Inr (r, k', vm')" "krs_ok g (k', vm')"
    "\<And>x. x < key_max \<Longrightarrow> x \<noteq> key \<Longrightarrow> krs_value (k', vm') x = krs_value (k, vm) x"
    "r \<longrightarrow> krs_value (k', vm') key = map_option (\<lambda>_. tombstone) (krs_value (k, vm) key)"
    "\<not> r \<longrightarrow> krs_value (k', vm') key = krs_value (k, vm) key \<or> krs_value (k', vm') key = Some tombstone"
proof -
  let ?i = "route k key"
  let ?m = "ks_aimodels k ! ?i"
  note nd = krs_ok_node(1,2) [OF ok, of key, unfolded fst_conv snd_conv] krs_ok_node(3,4) [OF ok, unfolded snd_conv]
  have rt: "rs_find_model k key = Inr ?i" using rs_find_model_route(1) [OF ok, of key] by simp
  have "rem_post g ?m vm key (rs_remove (rs_depth ?m) env ?m key vm)" by (rule rs_remove_safe [OF nd(1,3) key order_refl])
  then obtain r m' vm' where r: "rs_remove (rs_depth ?m) env ?m key vm = Inr (r, m', vm')" "rs_ok g vm' m'" "vext vm vm'" "vmem_ok vm' g"
      "\<forall>x. x < key_max \<and> x \<noteq> key \<longrightarrow> rs_value m' vm' x = rs_value ?m vm x"
      "r \<longrightarrow> rs_value m' vm' key = map_option (\<lambda>_. tombstone) (rs_value ?m vm key)"
      "\<not> r \<longrightarrow> rs_value m' vm' key = rs_value ?m vm key \<or> rs_value m' vm' key = Some tombstone"
    unfolding rem_post_def by (elim exE conjE) (rule that)
  note ch = krs_change [OF ok r(2-5)]
  have "krs_remove env key (k, vm) = Inr (r, k\<lparr>ks_aimodels := (ks_aimodels k)[?i := m']\<rparr>, vm')"
    using rt nd(2) r(1) by (simp add: krs_remove_def)
  moreover have "krs_value (k, vm) key = rs_value ?m vm key" by (simp add: krs_value_def)
  ultimately show ?thesis using that ch r(6,7) by simp
qed

section \<open>Range queries\<close>

lemma list_ok_tracker:
  "list_ok g vm l \<Longrightarrow> get_latest_timestamp tr = Inr g' \<Longrightarrow> 0 \<le> g' \<Longrightarrow> list_ok g' (vm\<lparr>vm_tracker := tr\<rparr>) l"
  unfolding list_ok_def using rl_rep_tracker by metis

lemma rs_ok_tracker:
  assumes "rs_ok g vm m" and "get_latest_timestamp tr = Inr g'" and "0 \<le> g'"
  shows "rs_ok g' (vm\<lparr>vm_tracker := tr\<rparr>) m"
  using assms(1)
proof (induction m rule: rs_induct)
  case (1 m)
  note d = rs_okD [OF "1.prems"]
  show ?case
  proof (rule rs_okI [OF d(1) _ d(3) _ d(5)])
    show "\<forall>c \<in> set (rm_arr m). cell_ok (vm\<lparr>vm_tracker := tr\<rparr>) c" using d(2) by (simp add: cell_ok_def)
    fix mob assume mob: "Some mob \<in> set (rm_mobs m)"
    then have "rs_mob_ok g vm mob" using d(4) by (metis in_set_conv_nth)
    then show "rs_mob_ok g' (vm\<lparr>vm_tracker := tr\<rparr>) mob"
      using "1.IH" mob list_ok_tracker [OF _ assms(2,3)] by (cases mob) auto
  qed
qed

lemma rs_holds_tracker:
  assumes "rs_holds g m vm k ts v" and "get_latest_timestamp tr = Inr g'" and "0 \<le> g'"
  shows "rs_holds g' m (vm\<lparr>vm_tracker := tr\<rparr>) k ts v"
  using assms(1)
proof (induction rule: rs_holds.induct)
  case (cell c m k vm ts v)
  then show ?case by (intro rs_holds.cell) (auto simp: cell_holds_def)
next
  case (list l m vm k ts v)
  then have "list_holds g' (vm\<lparr>vm_tracker := tr\<rparr>) l k ts v"
    using rl_rep_tracker [OF _ assms(2,3)] unfolding list_holds_def by metis
  then show ?case using list(1) by (rule rs_holds.list [rotated])
next
  case (node ai m vm k ts v)
  then show ?case by (auto intro: rs_holds.node)
qed

lemma rl_value_heap: "vm_heap vm' = vm_heap vm \<Longrightarrow> rl_value_loop n key l vm' a = rl_value_loop n key l vm a"
  by (induction n arbitrary: a) (auto split: option.split)

lemma rs_value_heap:
  assumes "vm_heap vm' = vm_heap vm"
  shows "rs_value m vm' key = rs_value m vm key"
proof (induction m rule: rs_induct)
  case (1 m)
  have "getValue c vm' = getValue c vm" for c using assms by (simp add: getValue_def vn_load_def)
  moreover have "rs_value ai vm' key = rs_value ai vm key" if "nth_res (rm_mobs m) i = Inr (Some (RNode ai))" for i ai
  proof -
    have "Some (RNode ai) \<in> set (rm_mobs m)" using that by (auto simp: nth_res_def split: if_splits) (metis nth_mem)
    then show ?thesis by (rule "1.IH")
  qed
  ultimately show ?case
    unfolding rs_value.simps [of m vm'] rs_value.simps [of m vm] rl_value_def rl_value_heap [OF assms]
    by (auto split: option.split sum.split rs_mob.split)
qed

lemma rangequery_loop_post:
  assumes "\<forall>m \<in> set ms. rs_ok g vm m" and "vmem_ok vm g" and "fst rr < 2 ^ 31"
  shows "\<exists>xs vm'. rangequery_loop env key ts ms rr vm = Inr ((fst rr - length xs, snd rr @ xs), vm') \<and> length xs \<le> fst rr
    \<and> vext vm vm' \<and> vmem_ok vm' g \<and> (\<forall>kv \<in> set xs. key \<le> fst kv \<and> (\<exists>m \<in> set ms. rs_holds g m vm' (fst kv) ts (snd kv)))"
  using assms
proof (induction ms arbitrary: rr vm)
  case Nil
  then show ?case by (intro exI [of _ "[]"] exI [of _ vm]) simp
next
  case (Cons m ms)
  show ?case
  proof (cases "fst rr = 0")
    case True
    then show ?thesis using Cons.prems by (intro exI [of _ "[]"] exI [of _ vm]) (simp add: prod_eq_iff)
  next
    case False
    have "scan_post g m vm key ts rr (rs_scan (rs_scan_fuel m) env m key rr ts vm)"
      by (rule rs_scan_post) (use Cons.prems in auto)
    then obtain xs vm1 where x: "rs_scan (rs_scan_fuel m) env m key rr ts vm = Inr ((int (fst rr - length xs), snd rr @ xs), vm1)"
        "length xs \<le> fst rr" "vext vm vm1" "vmem_ok vm1 g" "\<forall>kv \<in> set xs. key \<le> fst kv \<and> rs_holds g m vm1 (fst kv) ts (snd kv)"
      unfolding scan_post_def by (elim exE conjE) (rule that)
    let ?rr = "(fst rr - length xs, snd rr @ xs)"
    have "\<forall>m \<in> set ms. rs_ok g vm1 m" using Cons.prems(1) rs_ok_vext [OF _ x(3,4)] by auto
    then obtain ys vm2 where y: "rangequery_loop env key ts ms ?rr vm1 = Inr ((fst ?rr - length ys, snd ?rr @ ys), vm2)"
        "length ys \<le> fst ?rr" "vext vm1 vm2" "vmem_ok vm2 g"
        "\<forall>kv \<in> set ys. key \<le> fst kv \<and> (\<exists>m \<in> set ms. rs_holds g m vm2 (fst kv) ts (snd kv))"
      using Cons.IH [of vm1 ?rr] x(4) Cons.prems(3) by (elim exE conjE meta_impE) (simp_all)
    have "sz_of_int (int (fst rr - length xs)) = fst rr - length xs" using Cons.prems(3) by (intro sz_of_int_nat) simp
    then have run: "rangequery_loop env key ts (m # ms) rr vm = Inr ((fst rr - length (xs @ ys), snd rr @ xs @ ys), vm2)"
      using False x(1) y(1) by simp
    have "key \<le> fst kv \<and> (\<exists>m' \<in> set (m # ms). rs_holds g m' vm2 (fst kv) ts (snd kv))" if "kv \<in> set (xs @ ys)" for kv
      using that x(5) y(5) rs_holds_vext [OF _ y(3,4)] by (metis Un_iff list.set_intros set_append)
    then show ?thesis using run x(2) y(2,4) vext_trans [OF x(3) y(3)] by (intro exI [of _ "xs @ ys"] exI [of _ vm2]) simp
  qed
qed

lemma rangequery_post:
  assumes ok: "krs_ok g (k, vm)" and n: "n < 2 ^ 31"
  shows "\<exists>xs g' vm'. rangequery env key n (k, vm) = Inr (int (n - length xs), xs, k, vm') \<and> length xs \<le> n \<and> g < g'
    \<and> krs_ok g' (k, vm')
    \<and> (\<forall>kv \<in> set xs. key \<le> fst kv \<and> (\<exists>m \<in> set (ks_aimodels k). rs_holds g' m vm' (fst kv) (to_i32 g') (snd kv)))
    \<and> (\<forall>x < key_max. krs_value (k, vm') x = krs_value (k, vm) x)"
proof -
  have tr: "tracker_ok (vm_tracker vm)" "get_latest_timestamp (vm_tracker vm) = Inr g" "0 \<le> g"
    and all: "\<forall>m \<in> set (ks_aimodels k). rs_ok g vm m" and vm: "vmem_ok vm g"
    using ok by (auto simp: krs_ok_def vmem_ok_def)
  obtain a l' nd l'' where q: "add_timestamp (vm_tracker vm) = Inr (a, l')" "tl_load l' a = Inr nd" "get_latest_timestamp l' = Inr (tn_ts nd)"
      "g < tn_ts nd" "tracker_ok l'" "set_finish a l' = Inr l''" "tracker_ok l''" "get_latest_timestamp l'' = Inr (tn_ts nd)"
    by (rule tracker_query [OF tr(1,2)])
  define g' where "g' = tn_ts nd"
  define vm0 where "vm0 = vm\<lparr>vm_tracker := l'\<rparr>"
  let ?i = "route k key"
  have g': "0 \<le> g'" using q(4) tr(3) by (simp add: g'_def)
  have vm0: "vmem_ok vm0 g'" using vm q(3) g' by (simp add: vmem_ok_def vm0_def g'_def)
  have "rs_ok g' vm0 m" if "m \<in> set (ks_aimodels k)" for m
    using rs_ok_tracker [OF bspec [OF all that] q(3)] g' by (simp add: vm0_def g'_def)
  then have all0: "\<forall>m \<in> set (ks_aimodels k). rs_ok g' vm0 m" by blast
  then have "\<forall>m \<in> set (drop ?i (ks_aimodels k)). rs_ok g' vm0 m" by (meson in_set_dropD)
  from rangequery_loop_post [OF this vm0, of "(n, [])" env key "to_i32 g'"] n
  obtain xs vm1 where x: "rangequery_loop env key (to_i32 g') (drop ?i (ks_aimodels k)) (n, []) vm0 = Inr ((n - length xs, xs), vm1)"
      "length xs \<le> n" "vext vm0 vm1" "vmem_ok vm1 g'"
      "\<forall>kv \<in> set xs. key \<le> fst kv \<and> (\<exists>m \<in> set (drop ?i (ks_aimodels k)). rs_holds g' m vm1 (fst kv) (to_i32 g') (snd kv))"
    by auto
  have vt: "vm_tracker vm1 = l'" using x(3) by (simp add: vext_def vm0_def)
  define vm2 where "vm2 = vm1\<lparr>vm_tracker := l''\<rparr>"
  have rt: "rs_find_model k key = Inr ?i" using rs_find_model_route(1) [OF ok, of key] by simp
  have "to_i32 (int (n - length xs)) = int (n - length xs)" using n by simp
  then have run: "rangequery env key n (k, vm) = Inr (int (n - length xs), xs, k, vm2)"
    unfolding rangequery_def using q(1,2,6) rt x(1) vt by (simp add: Let_def vm0_def [symmetric] g'_def [symmetric] vm2_def)
  have lat: "get_latest_timestamp l'' = Inr g'" using q(8) by (simp add: g'_def)
  have "krs_ok g' (k, vm2)"
    using ok all0 rs_ok_tracker [OF rs_ok_vext [OF _ x(3,4)] lat g'] x(4) q(7) lat by (auto simp: krs_ok_def vm2_def vmem_ok_def)
  moreover have "key \<le> fst kv \<and> (\<exists>m \<in> set (ks_aimodels k). rs_holds g' m vm2 (fst kv) (to_i32 g') (snd kv))" if kv: "kv \<in> set xs" for kv
  proof -
    obtain m where m: "m \<in> set (drop ?i (ks_aimodels k))" "rs_holds g' m vm1 (fst kv) (to_i32 g') (snd kv)" and le: "key \<le> fst kv"
      using bspec [OF x(5) kv] by blast
    have "rs_holds g' m vm2 (fst kv) (to_i32 g') (snd kv)" unfolding vm2_def by (rule rs_holds_tracker [OF m(2) lat g'])
    then show ?thesis using le in_set_dropD [OF m(1)] by blast
  qed
  moreover have "krs_value (k, vm2) y = krs_value (k, vm) y" if y: "y < key_max" for y
  proof -
    let ?m = "ks_aimodels k ! route k y"
    have "?m \<in> set (ks_aimodels k)" using rs_find_model_route(2) [OF ok, of y] by simp
    then have "rs_value ?m vm1 y = rs_value ?m vm0 y" using all0 rs_value_vext [OF _ x(3,4) y] by blast
    then show ?thesis using rs_value_heap [of vm2 vm1 ?m y] rs_value_heap [of vm0 vm ?m y] by (simp add: krs_value_def vm2_def vm0_def)
  qed
  ultimately show ?thesis using run x(2) q(4) by (intro exI [of _ xs] exI [of _ g'] exI [of _ vm2]) (simp add: g'_def)
qed

section \<open>Training\<close>

lemma cell_new:
  assumes vm: "vmem_ok vm g" and new: "VersionedArray_new k v vm = (c, vm')"
  shows "cell_ok vm' c" "va_key c = k" "getValue c vm' = Inr v" "vext vm vm'" "vmem_ok vm' g"
proof -
  have rep: "va_rep vm' g c [(vm_brk vm, v, - 1)]" "va_key c = k" using va_rep_new [OF vm new] by auto
  then show "cell_ok vm' c" "va_key c = k" by (auto simp: va_rep_def cell_ok_def intro!: exI [of _ "[(vm_brk vm, v, - 1)]"])
  show "getValue c vm' = Inr v" using rep(1) by (auto simp: va_rep_def getValue_def)
  obtain p where "Vnode_new v null_ptr vm = (p, vm')" using new by (auto simp: VersionedArray_new_def split: prod.splits)
  then show "vext vm vm'" "vmem_ok vm' g" using vgrow_Vnode_new [of v null_ptr vm p vm' g] vm by (auto simp: vgrow_def)
qed

lemma new_cells_spec:
  assumes "vmem_ok vm g" and "new_cells kvs vm = (cs, vm')"
  shows "arr_keys cs = map fst kvs \<and> map (\<lambda>c. getValue c vm') cs = map (\<lambda>kv. Inr (snd kv)) kvs \<and> (\<forall>c \<in> set cs. cell_ok vm' c)
    \<and> vext vm vm' \<and> vmem_ok vm' g"
  using assms
proof (induction kvs arbitrary: vm cs)
  case (Cons kv kvs)
  obtain k v where kv: "kv = (k, v)" by (cases kv)
  obtain c vm1 cs' where c: "VersionedArray_new k v vm = (c, vm1)" "new_cells kvs vm1 = (cs', vm')" "cs = c # cs'"
    using Cons.prems(2) kv by (auto split: prod.splits)
  note n = cell_new [OF Cons.prems(1) c(1)]
  note IH = Cons.IH [OF n(5) c(2)]
  have "vext vm1 vm'" using IH by blast
  then show ?case using n IH c(3) kv cell_ok_vext(1,2) [OF n(1), of vm'] vext_trans [OF n(4)] by auto
qed simp

text \<open>The nodes of a trained index: consecutive parts of the keys with their values, last keys as routing
  keys.\<close>

definition part_keys :: "'d RSModel list \<Rightarrow> key_t list list" where
  "part_keys ms = map (\<lambda>m. arr_keys (rm_arr m)) ms"

definition part_vals :: "vmem \<Rightarrow> 'd RSModel list \<Rightarrow> val_t res list list" where
  "part_vals vm ms = map (\<lambda>m. map (\<lambda>c. getValue c vm) (rm_arr m)) ms"

definition rs_trained :: "int \<Rightarrow> 'd KanvaRS \<times> vmem \<Rightarrow> key_t list \<Rightarrow> val_t list \<Rightarrow> nat \<Rightarrow> bool" where
  "rs_trained g kv keys vals n \<longleftrightarrow> concat (part_keys (ks_aimodels (fst kv))) = take n keys
     \<and> concat (part_vals (snd kv) (ks_aimodels (fst kv))) = map Inr (take n vals)
     \<and> ks_model_keys (fst kv) = map last (part_keys (ks_aimodels (fst kv)))
     \<and> (\<forall>m \<in> set (ks_aimodels (fst kv)). rs_ok g (snd kv) m \<and> rs_fresh m)
     \<and> vmem_ok (snd kv) g \<and> tracker_ok (vm_tracker (snd kv))"

lemma rs_append_model_cases:
  assumes tr: "rs_trained g kv keys vals start" and keys: "ssorted keys" "length keys \<le> 2 ^ 30" "length vals = length keys"
    and fin: "start < fin" "fin \<le> length keys"
  obtains (assert) "rs_append_model lr (drop start keys) (drop start vals) (fin - start) 0 kv = Inl AssertFail"
  | (node) kv1 where "rs_append_model lr (drop start keys) (drop start vals) (fin - start) 0 kv = Inr kv1"
      "rs_trained g kv1 keys vals fin" "ks_learning_step (fst kv1) = ks_learning_step (fst kv)"
      "\<exists>m. ks_aimodels (fst kv1) = ks_aimodels (fst kv) @ [m] \<and> length (rm_arr m) = fin - start"
proof -
  let ?ks = "take (fin - start) (drop start keys)" and ?vs = "take (fin - start) (drop start vals)"
  have ne: "?ks \<noteq> []" and len: "length ?ks = fin - start" "length ?vs = fin - start" using fin keys(3) by auto
  have last: "nth_int (drop start keys) (int (fin - start) - 1) = Inr (last ?ks)"
  proof -
    have "last ?ks = ?ks ! (fin - start - 1)" using ne len(1) by (simp add: last_conv_nth)
    then show ?thesis using fin by (simp add: nat_diff_distrib)
  qed
  obtain cs vm1 where c: "new_cells (zip ?ks ?vs) (snd kv) = (cs, vm1)" by (cases "new_cells (zip ?ks ?vs) (snd kv)")
  define m where "m = RSModel (lr_w0 lr) (lr_w1 lr) 0 cs (replicate (fin - start + 1) None)"
  have new: "RSModel_new lr (drop start keys) (drop start vals) (fin - start) 0 (snd kv) = Inr (m, vm1)"
    using fin keys(3) c by (simp add: RSModel_new_def m_def)
  show ?thesis
  proof (cases "0 \<le> ks_maxErr (fst kv)")
    case False
    then show ?thesis using that(1) last by (simp add: rs_append_model_def)
  next
    case True
    let ?k = "(fst kv)\<lparr>ks_model_keys := ks_model_keys (fst kv) @ [last ?ks], ks_aimodels := ks_aimodels (fst kv) @ [m]\<rparr>"
    have run: "rs_append_model lr (drop start keys) (drop start vals) (fin - start) 0 kv = Inr (?k, vm1)"
      using True last new by (simp add: rs_append_model_def)
    have t: "vmem_ok (snd kv) g" "\<forall>m \<in> set (ks_aimodels (fst kv)). rs_ok g (snd kv) m \<and> rs_fresh m" using tr by (auto simp: rs_trained_def)
    note cells = new_cells_spec [OF t(1) c]
    have ck: "arr_keys cs = ?ks" "map (\<lambda>c. getValue c vm1) cs = map Inr ?vs" "vext (snd kv) vm1" "vmem_ok vm1 g" "\<forall>c \<in> set cs. cell_ok vm1 c"
    proof -
      have "map (\<lambda>kv. Inr (snd kv)) (zip ?ks ?vs) = map Inr (map snd (zip ?ks ?vs))" by simp
      also have "\<dots> = map Inr ?vs" using len by (simp only: map_snd_zip)
      finally show "map (\<lambda>c. getValue c vm1) cs = map Inr ?vs" using cells by metis
      show "arr_keys cs = ?ks" using cells len by (simp add: map_fst_zip)
    qed (use cells in auto)
    have lcs: "length cs = fin - start" using arg_cong [OF ck(1), of length] len(1) by simp
    have srt: "ssorted ?ks" using keys(1) by (simp add: sorted_wrt_take sorted_wrt_drop)
    have "rs_ok g vm1 m"
    proof (rule rs_okI)
      have "cs \<noteq> []" "length cs \<le> 2 ^ 30" using lcs fin keys(2) by auto
      then show "arr_ok (rm_arr m)" using ck(1) srt by (simp add: arr_ok_def m_def)
      show "\<forall>c \<in> set (rm_arr m). cell_ok vm1 c" using ck(5) by (simp add: m_def)
      show "length (rm_mobs m) = Suc (length (rm_arr m))" using lcs by (simp add: m_def)
      show "rs_mob_ok g vm1 mob" if "Some mob \<in> set (rm_mobs m)" for mob using that by (simp add: m_def split: if_splits)
      show "rm_mobs m ! i = None" if "i < length (rm_mobs m)" for i using that by (simp add: m_def del: replicate_Suc)
    qed
    moreover have "rs_fresh m" using lcs by (simp add: rs_fresh_def m_def)
    ultimately have all: "\<forall>m \<in> set (ks_aimodels ?k). rs_ok g vm1 m \<and> rs_fresh m" using t(2) rs_ok_vext [OF _ ck(3,4)] by auto
    have old: "part_vals vm1 (ks_aimodels (fst kv)) = part_vals (snd kv) (ks_aimodels (fst kv))"
      unfolding part_vals_def using t(2) rs_okD(2) cell_ok_vext(2) [OF _ ck(3)] by (auto simp: map_eq_conv) blast
    have app: "take start xs @ take (fin - start) (drop start xs) = take fin xs" for xs :: "'x list"
      using fin(1) take_add [of start "fin - start" xs] by simp
    have pk: "part_keys (ks_aimodels ?k) = part_keys (ks_aimodels (fst kv)) @ [?ks]" using ck(1) by (simp add: part_keys_def m_def)
    have pv: "part_vals vm1 (ks_aimodels ?k) = part_vals vm1 (ks_aimodels (fst kv)) @ [map Inr ?vs]"
      using ck(2) by (simp add: part_vals_def m_def)
    have t2: "concat (part_keys (ks_aimodels (fst kv))) = take start keys" "concat (part_vals (snd kv) (ks_aimodels (fst kv))) = map Inr (take start vals)"
      "ks_model_keys (fst kv) = map last (part_keys (ks_aimodels (fst kv)))" "tracker_ok (vm_tracker (snd kv))"
      using tr by (auto simp: rs_trained_def)
    have cv: "concat (part_vals vm1 (ks_aimodels ?k)) = map Inr (take fin vals)"
      unfolding pv concat_append old t2(2) using app [of vals] by (metis append_Nil2 concat.simps map_append)
    have "vm_tracker vm1 = vm_tracker (snd kv)" using ck(3) by (simp add: vext_def)
    then have "rs_trained g (?k, vm1) keys vals fin"
      unfolding rs_trained_def fst_conv snd_conv cv pk using t2 ck(4) all app [of keys] by simp
    then show ?thesis using that(2) [OF run] lcs by (simp add: m_def)
  qed
qed

definition parts_upto :: "int \<Rightarrow> 'd RSModel list \<Rightarrow> bool" where
  "parts_upto step ms \<longleftrightarrow> (\<forall>m \<in> set ms. int (length (rm_arr m)) \<le> step)"

lemma rs_train_loop_cases:
  assumes "rs_trained g kv keys vals start" and keys: "ssorted keys" "length keys \<le> 2 ^ 30" "length vals = length keys"
    and "start \<le> fin" "fin \<le> length keys" "start = fin \<longrightarrow> fin = length keys" "length keys - start < n"
    and step: "0 < step" "step < 2 ^ 31" "ks_learning_step (fst kv) = step" "int (fin - start) \<le> step"
    and "parts_upto step (ks_aimodels (fst kv))"
  shows "rs_train_loop n env keys vals start fin kv = Inl AssertFail
    \<or> (\<exists>kv'. rs_train_loop n env keys vals start fin kv = Inr kv' \<and> rs_trained g kv' keys vals (length keys)
        \<and> parts_upto step (ks_aimodels (fst kv')))"
  using assms(1,5-8,11-)
proof (induction n arbitrary: start fin kv)
  case (Suc n)
  show ?case
  proof (cases "start < fin")
    case False
    then have "start = length keys" "start = fin" using Suc.prems by auto
    then show ?thesis using Suc.prems by simp
  next
    case True
    let ?ks = "take (fin - start) (drop start keys)"
    from lr_train_range_cases [of "re_fp env" "lr_new (re_w env) (re_b env)" ?ks]
    show ?thesis
    proof (elim disjE exE)
      fix lr assume lr: "lr_train_range (re_fp env) (lr_new (re_w env) (re_b env)) ?ks = Inr lr"
      show ?thesis
      proof (rule rs_append_model_cases [OF Suc.prems(1) keys True Suc.prems(3), of lr])
        assume "rs_append_model lr (drop start keys) (drop start vals) (fin - start) 0 kv = Inl AssertFail"
        then show ?thesis using True lr by simp
      next
        fix kv1
        assume node: "rs_append_model lr (drop start keys) (drop start vals) (fin - start) 0 kv = Inr kv1"
          "rs_trained g kv1 keys vals fin" "ks_learning_step (fst kv1) = ks_learning_step (fst kv)"
          "\<exists>m. ks_aimodels (fst kv1) = ks_aimodels (fst kv) @ [m] \<and> length (rm_arr m) = fin - start"
        have st: "sz_of_int step = nat step" using sz_of_int_nat [of "nat step"] step by simp
        have add: "sz_add fin (nat step) = fin + nat step" using Suc.prems(3) keys(2) step by simp
        define fin' where "fin' = (if length keys \<le> fin + nat step then length keys else fin + nat step)"
        have "rs_train_loop n env keys vals fin fin' kv1 = Inl AssertFail
          \<or> (\<exists>kv'. rs_train_loop n env keys vals fin fin' kv1 = Inr kv' \<and> rs_trained g kv' keys vals (length keys)
              \<and> parts_upto step (ks_aimodels (fst kv')))"
        proof (rule Suc.IH [OF node(2)])
          show "fin \<le> fin'" "fin' \<le> length keys" "fin = fin' \<longrightarrow> fin' = length keys" "int (fin' - fin) \<le> step"
            using Suc.prems(3) step(1) by (auto simp: fin'_def)
          show "length keys - fin < n" using True Suc.prems(3,5) by linarith
          show "ks_learning_step (fst kv1) = step" using node(3) Suc.prems(6) by simp
          show "parts_upto step (ks_aimodels (fst kv1))" using node(4) Suc.prems(7,8) by (auto simp: parts_upto_def)
        qed
        moreover have "rs_train_loop (Suc n) env keys vals start fin kv = rs_train_loop n env keys vals fin fin' kv1"
          using True lr node(1,3) Suc.prems(6) by (simp add: st add fin'_def)
        ultimately show ?thesis by simp
      qed
    qed (use True in simp)
  qed
qed simp

lemma rs_trained_ok:
  assumes "rs_trained g kv keys vals (length keys)" and "keys \<noteq> []" "ssorted keys" "length keys \<le> 2 ^ 30"
  shows "krs_ok g kv"
proof -
  let ?ms = "ks_aimodels (fst kv)"
  have t: "concat (part_keys ?ms) = keys" "ks_model_keys (fst kv) = map last (part_keys ?ms)" "\<forall>m \<in> set ?ms. rs_ok g (snd kv) m"
    "vmem_ok (snd kv) g" "tracker_ok (vm_tracker (snd kv))"
    using assms(1) by (auto simp: rs_trained_def)
  have ne: "[] \<notin> set (part_keys ?ms)" using t(3) rs_okD(1) by (fastforce simp: part_keys_def arr_ok_def)
  have "sorted (ks_model_keys (fst kv))" unfolding t(2) using ssorted_map_last [OF _ ne] t(1) assms(3) strict_sorted_imp_sorted by auto
  moreover have "length ?ms \<le> length keys"
  proof -
    have "length xss \<le> length (concat xss)" if "[] \<notin> set xss" for xss :: "key_t list list"
      using that
    proof (induction xss)
      case (Cons xs xss)
      then show ?case by (cases xs) auto
    qed simp
    from this [OF ne] show ?thesis using t(1) by (simp add: part_keys_def)
  qed
  moreover have "?ms \<noteq> []" using t(1) assms(2) by (auto simp: part_keys_def)
  ultimately show ?thesis using t assms(4) by (simp add: krs_ok_def part_keys_def)
qed

text \<open>Where a training key is: node, cell and value.\<close>

lemma rs_trained_at:
  assumes tr: "rs_trained g kv keys vals (length keys)" and keys: "ssorted keys" "length vals = length keys" and j: "j < length keys"
  obtains i r where "i < length (ks_aimodels (fst kv))" "route (fst kv) (keys ! j) = i"
    "r < length (rm_arr (ks_aimodels (fst kv) ! i))" "va_key (rm_arr (ks_aimodels (fst kv) ! i) ! r) = keys ! j"
    "getValue (rm_arr (ks_aimodels (fst kv) ! i) ! r) (snd kv) = Inr (vals ! j)"
proof -
  let ?ms = "ks_aimodels (fst kv)"
  have t: "concat (part_keys ?ms) = keys" "ks_model_keys (fst kv) = map last (part_keys ?ms)" "\<forall>m \<in> set ?ms. rs_ok g (snd kv) m"
    "concat (part_vals (snd kv) ?ms) = map Inr vals"
    using tr keys(2) by (auto simp: rs_trained_def)
  have ne: "[] \<notin> set (part_keys ?ms)" using t(3) rs_okD(1) by (fastforce simp: part_keys_def arr_ok_def)
  have len: "map length (part_keys ?ms) = map length (part_vals (snd kv) ?ms)" by (simp add: part_keys_def part_vals_def)
  from nth_concat_parts [OF len, of j] j t(1,4)
  obtain i r where ir: "i < length (part_keys ?ms)" "r < length (part_keys ?ms ! i)" "keys ! j = part_keys ?ms ! i ! r"
      "map Inr vals ! j = part_vals (snd kv) ?ms ! i ! r" by auto
  have i: "i < length ?ms" and r: "r < length (rm_arr (?ms ! i))" using ir(1,2) by (auto simp: part_keys_def)
  have k: "keys ! j = va_key (rm_arr (?ms ! i) ! r)" using ir(3) i r by (simp add: part_keys_def)
  have v: "getValue (rm_arr (?ms ! i) ! r) (snd kv) = Inr (vals ! j)" using ir(4) i r j keys(2) by (simp add: part_vals_def)
  have "lb (map last (part_keys ?ms)) (keys ! j) = i"
    by (rule lb_last_parts) (use t(1) keys(1) ne ir(1-3) nth_mem [OF ir(2)] in auto)
  then have "route (fst kv) (keys ! j) = i" using i by (simp add: route_def t(2))
  then show ?thesis using that [OF i _ r k [symmetric] v] by simp
qed

end
