(* ===== verification/Kanva_RS_Correct.thy ===== *)
theory Kanva_RS_Correct
  imports Kanva_RS_Spec
begin

text \<open>
  The properties of the range-query variant's nodes and index: exact location of keys, training, search,
  insertion, removal, range queries, sequences of operations, and the slot a scan does not read. No
  theorem assumes anything of the floating-point arithmetic: \<open>rs_env\<close> is arbitrary.
\<close>

section \<open>Training from an empty index\<close>

lemma rs_trained_new:
  assumes "vmem_ok vm g" and "tracker_ok (vm_tracker vm)"
  shows "rs_trained g (KanvaRS_new\<lparr>ks_maxErr := e\<rparr>, vm) keys vals 0"
  using assms by (simp add: rs_trained_def KanvaRS_new_def part_keys_def part_vals_def)

lemma rs_train_new:
  assumes keys: "ssorted keys" "keys \<noteq> []" "length keys \<le> 2 ^ 30" "length vals = length keys"
    and vm: "vmem_ok vm g" "tracker_ok (vm_tracker vm)"
  obtains (assert) "rs_train env keys vals maxErr (KanvaRS_new, vm) = Inl AssertFail"
  | (trained) kv where "rs_train env keys vals maxErr (KanvaRS_new, vm) = Inr kv" "rs_trained g kv keys vals (length keys)"
      "parts_upto 1000 (ks_aimodels (fst kv))" "krs_ok g kv"
proof -
  let ?k = "KanvaRS_new\<lparr>ks_maxErr := to_i32 (int maxErr)\<rparr> :: 'a KanvaRS"
  let ?fin = "if 1000 < length keys then 1000 else length keys"
  have st: "sz_of_int 1000 = 1000" using sz_of_int_nat [of 1000] by simp
  have "rs_train_loop (length keys + 1) env keys vals 0 ?fin (?k, vm) = Inl AssertFail
    \<or> (\<exists>kv'. rs_train_loop (length keys + 1) env keys vals 0 ?fin (?k, vm) = Inr kv' \<and> rs_trained g kv' keys vals (length keys)
        \<and> parts_upto 1000 (ks_aimodels (fst kv')))"
    by (rule rs_train_loop_cases [OF rs_trained_new [OF vm] keys(1,3,4)]) (use keys(2) in \<open>auto simp: KanvaRS_new_def parts_upto_def\<close>)
  moreover have run: "rs_train env keys vals maxErr (KanvaRS_new, vm) =
    bind_res (rs_train_loop (length keys + 1) env keys vals 0 ?fin (?k, vm))
      (\<lambda>kv2. assert_res (length (ks_model_keys (fst kv2)) = length (ks_aimodels (fst kv2))) (Inr kv2))"
  proof -
    have "ks_learning_step ?k = 1000" by (simp add: KanvaRS_new_def)
    then show ?thesis unfolding rs_train_def Let_def fst_conv snd_conv using keys(4) st by simp
  qed
  ultimately show ?thesis
  proof (elim disjE exE conjE)
    assume "rs_train_loop (length keys + 1) env keys vals 0 ?fin (?k, vm) = Inl AssertFail"
    then show ?thesis using that(1) run by (simp del: rs_train_loop.simps)
  next
    fix kv' assume kv': "rs_train_loop (length keys + 1) env keys vals 0 ?fin (?k, vm) = Inr kv'" "rs_trained g kv' keys vals (length keys)"
      "parts_upto 1000 (ks_aimodels (fst kv'))"
    have ok: "krs_ok g kv'" by (rule rs_trained_ok [OF kv'(2) keys(2,1,3)])
    then have "length (ks_model_keys (fst kv')) = length (ks_aimodels (fst kv'))" by (simp add: krs_ok_def)
    then have "rs_train env keys vals maxErr (KanvaRS_new, vm) = Inr kv'"
      using kv'(1) run by (simp del: rs_train_loop.simps)
    then show ?thesis using that(2) kv'(2,3) ok by blast
  qed
qed

lemma rs_trained_find:
  assumes tr: "rs_trained g kv keys vals (length keys)" "krs_ok g kv" and keys: "ssorted keys" "length vals = length keys"
    and j: "j < length keys" "vals ! j \<noteq> tombstone"
  shows "krs_find env (keys ! j) val kv = Inr (True, vals ! j)" and "krs_value kv (keys ! j) = Some (vals ! j)"
proof -
  obtain i r where ir: "i < length (ks_aimodels (fst kv))" "route (fst kv) (keys ! j) = i"
    "r < length (rm_arr (ks_aimodels (fst kv) ! i))" "va_key (rm_arr (ks_aimodels (fst kv) ! i) ! r) = keys ! j"
    "getValue (rm_arr (ks_aimodels (fst kv) ! i) ! r) (snd kv) = Inr (vals ! j)"
    by (rule rs_trained_at [OF tr(1) keys j(1)])
  let ?m = "ks_aimodels (fst kv) ! i"
  have ok: "arr_ok (rm_arr ?m)" using rs_okD(1) krs_ok_node(1) [OF tr(2), of "keys ! j"] ir(2) by metis
  then have "rs_predict env ?m (keys ! j) < length (rm_arr ?m)" by (simp add: rs_predict_less arr_ok_def)
  then have "rs_locate ?m (keys ! j) (rs_predict env ?m (keys ! j)) = Inr r" by (rule rs_locate_spec(2) [OF ok _ ir(3,4)])
  then have "rs_find env ?m (keys ! j) val (snd kv) = Inr (True, vals ! j)"
    using ir(3-5) j(2) by (simp add: rs_find.simps [of env ?m] rs_pos_def)
  then show "krs_find env (keys ! j) val kv = Inr (True, vals ! j)"
    using rs_find_model_route(1) [OF tr(2), of "keys ! j"] krs_ok_node(2) [OF tr(2), of "keys ! j"] ir(2) by (simp add: krs_find_def)
  show "krs_value kv (keys ! j) = Some (vals ! j)"
    using rs_value_here [OF ok ir(3,4), of "snd kv"] ir(2,5) by (simp add: krs_value_def)
qed

section \<open>Sequences of operations\<close>

datatype krs_op = RInsert key_t val_t | RFind key_t val_t | RRemove key_t | RUpdate key_t val_t | RRange key_t nat

datatype krs_ret = RBool bool | RFound "bool \<times> val_t" | RPairs int "(key_t \<times> val_t) list"

fun krs_op_ok :: "krs_op \<Rightarrow> bool" where
  "krs_op_ok (RInsert key val) \<longleftrightarrow> key < key_max \<and> val \<noteq> tombstone"
| "krs_op_ok (RFind key val) \<longleftrightarrow> 0 < key \<and> key < key_max"
| "krs_op_ok (RRemove key) \<longleftrightarrow> key < key_max"
| "krs_op_ok (RUpdate key val) \<longleftrightarrow> True"
| "krs_op_ok (RRange key n) \<longleftrightarrow> n < 2 ^ 31"

fun krs_step :: "'d rs_env \<Rightarrow> krs_op \<Rightarrow> 'd KanvaRS \<times> vmem \<Rightarrow> (krs_ret \<times> 'd KanvaRS \<times> vmem) res" where
  "krs_step env (RInsert key val) kv = bind_res (krs_insert env key val kv) (\<lambda>(r, kv'). Inr (RBool r, kv'))"
| "krs_step env (RFind key val) kv = bind_res (krs_find env key val kv) (\<lambda>r. Inr (RFound r, kv))"
| "krs_step env (RRemove key) kv = bind_res (krs_remove env key kv) (\<lambda>(r, kv'). Inr (RBool r, kv'))"
| "krs_step env (RUpdate key val) kv = bind_res (krs_update key val kv) (\<lambda>(r, kv'). Inr (RBool r, kv'))"
| "krs_step env (RRange key n) kv = bind_res (rangequery env key n kv) (\<lambda>(r, xs, kv'). Inr (RPairs r xs, kv'))"

lemma krs_update_same: "krs_ok g kv \<Longrightarrow> krs_update key val kv = Inr (True, kv)"
  using rs_find_model_route(1) [of g kv key] krs_ok_node(2) [of g kv key]
  by (cases kv) (simp add: krs_update_def rs_update_def)

lemma krs_step_safe:
  assumes "krs_ok g kv" and "krs_op_ok x"
  shows "krs_step env x kv = Inl AssertFail \<or> (\<exists>r kv' g'. krs_step env x kv = Inr (r, kv') \<and> krs_ok g' kv')"
proof -
  obtain k vm where kv: "kv = (k, vm)" by (cases kv)
  note ok = assms(1) [unfolded kv]
  show ?thesis unfolding kv
  proof (cases x)
    case (RInsert key val)
    then show "krs_step env x (k, vm) = Inl AssertFail \<or> (\<exists>r kv' g'. krs_step env x (k, vm) = Inr (r, kv') \<and> krs_ok g' kv')"
      using assms(2) by (cases rule: krs_insert_post [OF ok, of key val env]) auto
  next
    case (RFind key val)
    then show "krs_step env x (k, vm) = Inl AssertFail \<or> (\<exists>r kv' g'. krs_step env x (k, vm) = Inr (r, kv') \<and> krs_ok g' kv')"
      using krs_find_post [OF ok, of key val env] assms(2) ok by (auto simp: find_post_def)
  next
    case (RRemove key)
    then show "krs_step env x (k, vm) = Inl AssertFail \<or> (\<exists>r kv' g'. krs_step env x (k, vm) = Inr (r, kv') \<and> krs_ok g' kv')"
      using assms(2) by (cases rule: krs_remove_post [OF ok, of key env]) auto
  next
    case (RUpdate key val)
    then show "krs_step env x (k, vm) = Inl AssertFail \<or> (\<exists>r kv' g'. krs_step env x (k, vm) = Inr (r, kv') \<and> krs_ok g' kv')"
      using krs_update_same [OF ok] ok by auto
  next
    case (RRange key n)
    then show "krs_step env x (k, vm) = Inl AssertFail \<or> (\<exists>r kv' g'. krs_step env x (k, vm) = Inr (r, kv') \<and> krs_ok g' kv')"
      using rangequery_post [OF ok, of n env key] assms(2) by fastforce
  qed
qed

interpretation krs_ops: op_safety "\<lambda>kv. \<exists>g. krs_ok g kv" "krs_step env" krs_op_ok "\<lambda>e. e = AssertFail" for env :: "'d rs_env"
  by unfold_locales (use krs_step_safe in blast)

section \<open>A trained index to evaluate on\<close>

definition rs_env_int :: "int rs_env" where
  "rs_env_int = \<lparr>re_fp = fp_int, re_w = 0, re_b = 0\<rparr>"

definition krs_ex :: "int KanvaRS \<times> vmem" where
  "krs_ex = (case rs_train rs_env_int [10, 20, 30] [1, 2, 3] 4 (KanvaRS_new, vmem_new) of
     Inr kv \<Rightarrow> kv | Inl _ \<Rightarrow> (KanvaRS_new, vmem_new))"

lemma krs_ex_train: "rs_train rs_env_int [10, 20, 30] [1, 2, 3] 4 (KanvaRS_new, vmem_new) = Inr krs_ex"
proof -
  have "\<exists>kv. rs_train rs_env_int [10, 20, 30] [1, 2, 3] 4 (KanvaRS_new, vmem_new) = Inr kv"
    using train_example
    by (simp add: rs_train_def rs_append_model_def RSModel_new_def KanvaRS_new_def rs_env_int_def sz_of_int_nat [of 1000, simplified]
        split: prod.split)
  then show ?thesis by (auto simp: krs_ex_def)
qed

lemma krs_ex_trained: "rs_trained 0 krs_ex [10, 20, 30] [1, 2, 3] (length [10, 20, 30 :: key_t]) \<and> krs_ok 0 krs_ex"
proof (rule rs_train_new [of "[10, 20, 30]" "[1, 2, 3]" vmem_new 0 rs_env_int 4])
  show "tracker_ok (vm_tracker vmem_new)" using tracker_ok_new by (simp add: vmem_new_def)
  show "vmem_ok vmem_new 0" by (rule vmem_ok_new)
next
  assume "rs_train rs_env_int [10, 20, 30] [1, 2, 3] 4 (KanvaRS_new, vmem_new) = Inl AssertFail"
  then show ?thesis unfolding krs_ex_train by (simp only: sum.distinct)
next
  fix kv :: "int KanvaRS \<times> vmem"
  assume kv: "rs_train rs_env_int [10, 20, 30] [1, 2, 3] 4 (KanvaRS_new, vmem_new) = Inr kv"
    "rs_trained 0 kv [10, 20, 30] [1, 2, 3] (length [10, 20, 30 :: key_t])" "krs_ok 0 kv"
  from kv(1) have "kv = krs_ex" unfolding krs_ex_train by (simp only: sum.inject)
  then show ?thesis using kv(2,3) by blast
qed simp_all

section \<open>Properties\<close>

text \<open>C20. For every predicted position, the gallop and binary search of \<open>locate\<close> agree with a linear
  scan for the key: they return its index, or 0 when the key is not in the array.\<close>

theorem rs_locate_exact:
  assumes "arr_ok (rm_arr m)" and "pos < length (rm_arr m)"
  shows "rs_locate m key pos =
    Inr (let j = length (takeWhile (\<lambda>c. va_key c \<noteq> key) (rm_arr m)) in if j < length (rm_arr m) then j else 0)"
proof -
  let ?j = "length (takeWhile (\<lambda>c. va_key c \<noteq> key) (rm_arr m))"
  show ?thesis
  proof (cases "?j < length (rm_arr m)")
    case True
    then have "va_key (rm_arr m ! ?j) = key" using nth_length_takeWhile by fastforce
    then show ?thesis using rs_locate_spec(2) [OF assms True] True by (simp add: Let_def)
  next
    case False
    then have "takeWhile (\<lambda>c. va_key c \<noteq> key) (rm_arr m) = rm_arr m" using takeWhile_eq_take [of "\<lambda>c. va_key c \<noteq> key" "rm_arr m"] by simp
    then have "key \<notin> set (arr_keys (rm_arr m))" by (auto simp: takeWhile_eq_all_conv)
    then show ?thesis using rs_locate_spec(1) [OF assms] False by (simp add: Let_def)
  qed
qed

definition node5 :: "int RSModel" where
  "node5 = RSModel 0 0 0 (map (\<lambda>k. \<lparr>va_key = k, va_vhead = null_ptr\<rparr>) [2, 5, 9, 12, 40]) (replicate 6 None)"

theorem rs_locate_exact_witness: "rs_locate node5 12 1 = Inr 3 \<and> rs_locate node5 13 4 = Inr 0"
  using rs_locate_exact [of node5 1 12] rs_locate_exact [of node5 4 13] by (simp add: node5_def arr_ok_def)

text \<open>C10. Training an empty index on strictly increasing keys fails an assertion or ends, for every
  arithmetic, within its fuel: the nodes hold the keys in order and without loss, at most 1000 each, with
  their values; the routing keys are the last keys of the nodes, and the index is well formed.\<close>

theorem rs_train_partitions:
  assumes "ssorted keys" and "keys \<noteq> []" and "length keys \<le> 2 ^ 30" and "length vals = length keys"
    and "vmem_ok vm g" and "tracker_ok (vm_tracker vm)"
  shows "rs_train env keys vals maxErr (KanvaRS_new, vm) = Inl AssertFail
    \<or> (\<exists>k vm'. rs_train env keys vals maxErr (KanvaRS_new, vm) = Inr (k, vm') \<and> krs_ok g (k, vm')
        \<and> concat (map (\<lambda>m. arr_keys (rm_arr m)) (ks_aimodels k)) = keys
        \<and> concat (map (\<lambda>m. map (\<lambda>c. getValue c vm') (rm_arr m)) (ks_aimodels k)) = map Inr vals
        \<and> ks_model_keys k = map (\<lambda>m. last (arr_keys (rm_arr m))) (ks_aimodels k)
        \<and> (\<forall>m \<in> set (ks_aimodels k). length (rm_arr m) \<le> 1000))"
proof (rule rs_train_new [OF assms, of env maxErr])
  fix kv :: "'a KanvaRS \<times> vmem"
  assume 2: "rs_train env keys vals maxErr (KanvaRS_new, vm) = Inr kv" "rs_trained g kv keys vals (length keys)"
    "parts_upto 1000 (ks_aimodels (fst kv))" "krs_ok g kv"
  then obtain k vm' where kv: "kv = (k, vm')" by (cases kv) blast
  have "concat (map (\<lambda>m. arr_keys (rm_arr m)) (ks_aimodels k)) = keys"
    "concat (map (\<lambda>m. map (\<lambda>c. getValue c vm') (rm_arr m)) (ks_aimodels k)) = map Inr vals"
    "ks_model_keys k = map (\<lambda>m. last (arr_keys (rm_arr m))) (ks_aimodels k)"
    using 2(2) assms(4) kv by (auto simp: rs_trained_def part_keys_def part_vals_def)
  moreover have "\<forall>m \<in> set (ks_aimodels k). length (rm_arr m) \<le> 1000" using 2(3) kv by (auto simp: parts_upto_def)
  ultimately show ?thesis using 2(1,4) kv by blast
qed blast

theorem rs_train_partitions_witness:
  "rs_train rs_env_int [10, 20] [1, 2] 4 (KanvaRS_new, vmem_new) = Inl AssertFail
    \<or> (\<exists>k vm'. rs_train rs_env_int [10, 20] [1, 2] 4 (KanvaRS_new, vmem_new) = Inr (k, vm') \<and> krs_ok 0 (k, vm'))"
  using rs_train_partitions [of "[10, 20]" "[1, 2]" vmem_new 0 rs_env_int 4] vmem_ok_new tracker_ok_new
  by (force simp: vmem_new_def simp del: rs_train_loop.simps)

text \<open>C8. Round trip: a search after training finds every trained key with its value, whatever the
  arithmetic, since the search around the predicted position is exact.\<close>

theorem rs_trained_keys_found:
  assumes "rs_train env keys vals maxErr (KanvaRS_new, vm) = Inr kv" and "vmem_ok vm g" and "tracker_ok (vm_tracker vm)"
    and "ssorted keys" and "length keys \<le> 2 ^ 30" and "length vals = length keys"
    and "j < length keys" and "vals ! j \<noteq> tombstone"
  shows "krs_find env' (keys ! j) val kv = Inr (True, vals ! j)"
proof (cases rule: rs_train_new [OF assms(4) _ assms(5,6,2,3), of env maxErr])
  case (3 kv')
  then show ?thesis using rs_trained_find(1) [OF _ _ assms(4,6-8)] assms(1) by (metis sum.inject(2))
qed (use assms in auto)

theorem rs_trained_keys_found_witness: "krs_find rs_env_int 20 0 krs_ex = Inr (True, 2)"
  using rs_trained_keys_found [OF krs_ex_train vmem_ok_new, of 1 rs_env_int 0] tracker_ok_new by (simp add: vmem_new_def)

text \<open>C37. A search in a well-formed index ends without an error; the answer true comes with the value
  the index stores for the key, the answer false leaves the caller's value alone.\<close>

theorem krs_find_correct:
  assumes "krs_ok g kv" and "0 < key" and "key < key_max"
  shows "\<exists>b w. krs_find env key val kv = Inr (b, w) \<and> (b \<longrightarrow> krs_value kv key = Some w) \<and> (\<not> b \<longrightarrow> w = val)
    \<and> (krs_value kv key = Some val \<and> val \<noteq> tombstone \<longrightarrow> b)"
  using krs_find_post [OF assms, of val env] by (simp add: find_post_def)

theorem krs_find_correct_witness:
  "\<exists>b w. krs_find rs_env_int 25 7 krs_ex = Inr (b, w) \<and> (b \<longrightarrow> krs_value krs_ex 25 = Some w)"
  using krs_find_correct [OF conjunct2 [OF krs_ex_trained], of 25 rs_env_int 7] by auto

text \<open>C36. Insertion into a well-formed index fails an assertion of the training or returns; the index
  stays well formed and no other key changes. After the answer true the key has the new value; after the
  answer false it had one already, and it was overwritten if it was the tombstone.\<close>

theorem krs_insert_correct:
  assumes "krs_ok g (k, vm)" and "key < key_max" and "val \<noteq> tombstone"
  shows "krs_insert env key val (k, vm) = Inl AssertFail
    \<or> (\<exists>r k' vm'. krs_insert env key val (k, vm) = Inr (r, k', vm') \<and> krs_ok g (k', vm')
        \<and> (\<forall>x < key_max. x \<noteq> key \<longrightarrow> krs_value (k', vm') x = krs_value (k, vm) x)
        \<and> (r \<longrightarrow> krs_value (k', vm') key = Some val)
        \<and> (\<not> r \<longrightarrow> (\<exists>old. krs_value (k, vm) key = Some old
              \<and> krs_value (k', vm') key = Some (if old = tombstone then val else old))))"
  by (cases rule: krs_insert_post [OF assms, of env]) blast+

theorem krs_insert_correct_witness:
  "krs_insert rs_env_int 25 7 (fst krs_ex, snd krs_ex) = Inl AssertFail
    \<or> (\<exists>r k' vm'. krs_insert rs_env_int 25 7 (fst krs_ex, snd krs_ex) = Inr (r, k', vm') \<and> krs_ok 0 (k', vm'))"
  using krs_insert_correct [of 0 "fst krs_ex" "snd krs_ex" 25 7 rs_env_int] krs_ex_trained by auto

text \<open>Removal from a well-formed index returns, keeps it well formed and changes no other key; after
  the answer true the key holds the tombstone, after the answer false its value is as before or the
  tombstone: the answer is not reliable.\<close>

theorem krs_remove_correct:
  assumes "krs_ok g (k, vm)" and "key < key_max"
  shows "\<exists>r k' vm'. krs_remove env key (k, vm) = Inr (r, k', vm') \<and> krs_ok g (k', vm')
    \<and> (\<forall>x < key_max. x \<noteq> key \<longrightarrow> krs_value (k', vm') x = krs_value (k, vm) x)
    \<and> (r \<longrightarrow> krs_value (k', vm') key = map_option (\<lambda>_. tombstone) (krs_value (k, vm) key))
    \<and> (\<not> r \<longrightarrow> krs_value (k', vm') key = krs_value (k, vm) key \<or> krs_value (k', vm') key = Some tombstone)"
  by (rule krs_remove_post [OF assms, of env]) blast

theorem krs_remove_correct_witness:
  "\<exists>r k' vm'. krs_remove rs_env_int 20 (fst krs_ex, snd krs_ex) = Inr (r, k', vm')
    \<and> krs_value (k', vm') 20 \<in> {Some 2, Some tombstone}"
proof -
  have "krs_value krs_ex 20 = Some 2"
    using rs_trained_find(2) [OF conjunct1 [OF krs_ex_trained] conjunct2 [OF krs_ex_trained], of 1] by simp
  then show ?thesis using krs_remove_correct [of 0 "fst krs_ex" "snd krs_ex" 20 rs_env_int] krs_ex_trained by auto
qed

text \<open>C17. A range query on a well-formed index ends, takes a timestamp later than all before, changes no
  stored value, reports at most the requested number of pairs, returns how many are missing, and every
  reported pair is a key from the bound on with its newest version before the query's timestamp.\<close>

theorem rangequery_sound:
  assumes "krs_ok g (k, vm)" and "n < 2 ^ 31"
  shows "\<exists>xs g' vm'. rangequery env key n (k, vm) = Inr (int (n - length xs), xs, k, vm') \<and> length xs \<le> n \<and> g < g'
    \<and> krs_ok g' (k, vm')
    \<and> (\<forall>kv \<in> set xs. key \<le> fst kv \<and> (\<exists>m \<in> set (ks_aimodels k). rs_holds g' m vm' (fst kv) (to_i32 g') (snd kv)))
    \<and> (\<forall>x < key_max. krs_value (k, vm') x = krs_value (k, vm) x)"
  by (rule rangequery_post [OF assms])

theorem rangequery_sound_witness:
  "\<exists>xs g' vm'. rangequery rs_env_int 15 2 (fst krs_ex, snd krs_ex) = Inr (int (2 - length xs), xs, fst krs_ex, vm')
    \<and> length xs \<le> 2 \<and> 0 < g' \<and> krs_ok g' (fst krs_ex, vm')"
  using rangequery_sound [of 0 "fst krs_ex" "snd krs_ex" 2 rs_env_int 15] krs_ex_trained by auto

text \<open>C35. Every sequence of searches, insertions, removals, updates and range queries on a well-formed
  index answers all of them or stops at a failed assertion of the training: no null pointer, no access
  out of range, no lost loop.\<close>

theorem krs_run_safe:
  assumes "krs_ok g kv" and "list_all krs_op_ok xs"
  shows "run_ops (krs_step env) xs kv = Inl AssertFail
    \<or> (\<exists>rs kv' g'. run_ops (krs_step env) xs kv = Inr (rs, kv') \<and> length rs = length xs \<and> krs_ok g' kv')"
  using krs_ops.run_safe [of kv xs env] assms by blast

theorem krs_run_safe_witness:
  "run_ops (krs_step rs_env_int) [RInsert 25 7, RFind 20 0, RRange 5 10, RRemove 25] krs_ex = Inl AssertFail
    \<or> (\<exists>rs kv'. run_ops (krs_step rs_env_int) [RInsert 25 7, RFind 20 0, RRange 5 10, RRemove 25] krs_ex = Inr (rs, kv')
         \<and> length rs = 4)"
  using krs_run_safe [OF conjunct2 [OF krs_ex_trained], of "[RInsert 25 7, RFind 20 0, RRange 5 10, RRemove 25]" rs_env_int]
  by (auto simp del: krs_step.simps run_ops.simps)

text \<open>A scan never reads the first slot of a node, where keys below the node's first key are
  stored: whatever that slot holds, the result is the same, so range queries miss those keys.\<close>

theorem scan_ignores_first_slot: "rs_scan f env (rs_set_slot 0 mob m) key rr ts vm = rs_scan f env m key rr ts vm"
proof -
  have sel: "rs_capacity (rs_set_slot 0 mob m) = rs_capacity m" "rs_predict env (rs_set_slot 0 mob m) key = rs_predict env m key"
    "rs_locate (rs_set_slot 0 mob m) key pos = rs_locate m key pos"
    "scan_cell (rs_set_slot 0 mob m) key pos rr ts vm = scan_cell m key pos rr ts vm"
    "nth_res (rm_mobs (rs_set_slot 0 mob m)) (pos + 1) = nth_res (rm_mobs m) (pos + 1)" for pos rr vm
    by (simp_all only: rs_predict_def rs_capacity_def rs_locate_def scan_cell_def rs_set_slot_def RSModel.sel)
      (simp add: nth_res_def)
  have loop: "rs_scan_loop f env (rs_set_slot 0 mob m) key rr ts vm pos = rs_scan_loop f env m key rr ts vm pos" for f rr vm pos
  proof (induction f arbitrary: rr vm pos)
    case (Suc f)
    show ?case unfolding rs_scan_loop.simps sel Suc.IH ..
  qed simp
  show ?thesis
  proof (cases f)
    case (Suc f')
    show ?thesis unfolding Suc rs_scan.simps sel loop ..
  qed simp
qed

end
