(* ===== verification/Level_Bin.thy ===== *)
theory Level_Bin
  imports Search
begin

text \<open>
  The level bin of the Finedex baseline (\<open>Finedex/level_bin_con.h\<close>, class \<open>LevelBinCon\<close>): a root of at
  most 8 separators over at most 9 child bins of at most 16 pairs, the children linked to a list in both
  directions; before the first split there is one child and no root.

  Child bins live in a store, address 0 is \<open>NULL\<close>, a freed bin is not in the store any more. The locks
  and versions are part of the state. The model runs one thread: a lock that is already taken spins for
  ever (\<open>Inl OutOfFuel\<close>), and two reads of a version with no step between them agree. \<open>LONG_MAX\<close> is the
  greatest \<open>uint64_t\<close>, as the header defines it; \<open>new\<close> of a bin clears its members.

  The arrays keep their C++ lengths; \<open>std::copy\<close> and \<open>std::copy_backward\<close> fail outside of them.
\<close>

section \<open>Bins\<close>

datatype result_t = Res_ok | Res_failed | Res_retry | Res_retrain

definition rootslotmax :: nat where "rootslotmax = 8"

definition childslotmax :: nat where "childslotmax = 16"

record child_bin =
  cb_slotuse :: nat
  cb_locked :: bool
  cb_version :: "64 word"
  cb_slotkey :: "key_t list"
  cb_slotdata :: "val_t list"
  cb_prevbin :: addr
  cb_nextbin :: addr

record root_bin =
  rb_slotuse :: nat
  rb_locked :: bool
  rb_version :: "64 word"
  rb_slotkey :: "key_t list"
  rb_children :: "addr list"

record LevelBin =
  lb_root :: "root_bin option"
  lb_headbin :: addr
  lb_tailbin :: addr
  lb_retraining :: bool
  lb_heap :: "addr \<rightharpoonup> child_bin"
  lb_brk :: addr

definition child_bin_new :: child_bin where
  "child_bin_new =
     \<lparr>cb_slotuse = 0, cb_locked = False, cb_version = 0, cb_slotkey = replicate childslotmax key_max,
      cb_slotdata = replicate childslotmax 0, cb_prevbin = 0, cb_nextbin = 0\<rparr>"

definition root_bin_new :: root_bin where
  "root_bin_new =
     \<lparr>rb_slotuse = 0, rb_locked = False, rb_version = 0, rb_slotkey = replicate rootslotmax key_max,
      rb_children = replicate (rootslotmax + 1) 0\<rparr>"

definition allocate_childbin :: "LevelBin \<Rightarrow> addr \<times> LevelBin" where
  "allocate_childbin l =
     (lb_brk l, l\<lparr>lb_heap := (lb_heap l)(lb_brk l \<mapsto> child_bin_new), lb_brk := Suc (lb_brk l)\<rparr>)"

definition free_childbin :: "addr \<Rightarrow> LevelBin \<Rightarrow> LevelBin" where
  "free_childbin a l = l\<lparr>lb_heap := (lb_heap l)(a := None)\<rparr>"

definition LevelBin_new :: LevelBin where
  "LevelBin_new =
     (let (a, l) = allocate_childbin
        \<lparr>lb_root = None, lb_headbin = 0, lb_tailbin = 0, lb_retraining = False, lb_heap = Map.empty, lb_brk = 1\<rparr>
      in l\<lparr>lb_headbin := a, lb_tailbin := a\<rparr>)"

section \<open>Loads, stores and locks\<close>

definition cb_load :: "LevelBin \<Rightarrow> addr \<Rightarrow> child_bin res" where
  "cb_load l a = (case lb_heap l a of None \<Rightarrow> Inl NullDeref | Some c \<Rightarrow> Inr c)"

definition cb_upd :: "addr \<Rightarrow> (child_bin \<Rightarrow> child_bin res) \<Rightarrow> LevelBin \<Rightarrow> LevelBin res" where
  "cb_upd a f l =
     bind_res (cb_load l a) (\<lambda>c. bind_res (f c) (\<lambda>c'. Inr (l\<lparr>lb_heap := (lb_heap l)(a \<mapsto> c')\<rparr>)))"

definition cb_lock :: "child_bin \<Rightarrow> child_bin res" where
  "cb_lock c = (if cb_locked c then Inl OutOfFuel else Inr (c\<lparr>cb_locked := True\<rparr>))"

definition cb_unlock :: "child_bin \<Rightarrow> child_bin" where
  "cb_unlock c = c\<lparr>cb_locked := False\<rparr>"

text \<open>\<open>version++\<close> and the release of the lock, the end of every change.\<close>

definition cb_commit :: "child_bin \<Rightarrow> child_bin" where
  "cb_commit c = cb_unlock (c\<lparr>cb_version := cb_version c + 1\<rparr>)"

definition root_upd :: "(root_bin \<Rightarrow> root_bin res) \<Rightarrow> LevelBin \<Rightarrow> LevelBin res" where
  "root_upd f l =
     (case lb_root l of None \<Rightarrow> Inl NullDeref | Some r \<Rightarrow> bind_res (f r) (\<lambda>r'. Inr (l\<lparr>lb_root := Some r'\<rparr>)))"

definition rb_lock :: "root_bin \<Rightarrow> root_bin res" where
  "rb_lock r = (if rb_locked r then Inl OutOfFuel else Inr (r\<lparr>rb_locked := True\<rparr>))"

definition rb_commit :: "root_bin \<Rightarrow> root_bin" where
  "rb_commit r = r\<lparr>rb_version := rb_version r + 1, rb_locked := False\<rparr>"

text \<open>\<open>std::copy(src + first, src + lst, dst + d)\<close>, and the same with the end of the target given.\<close>

definition std_copy :: "'a list \<Rightarrow> nat \<Rightarrow> nat \<Rightarrow> 'a list \<Rightarrow> nat \<Rightarrow> 'a list res" where
  "std_copy src first lst dst d =
     (if first \<le> lst \<and> lst \<le> length src \<and> d + (lst - first) \<le> length dst
      then Inr (take d dst @ take (lst - first) (drop first src) @ drop (d + (lst - first)) dst)
      else Inl OutOfRange)"

definition copy_backward :: "'a list \<Rightarrow> nat \<Rightarrow> nat \<Rightarrow> nat \<Rightarrow> 'a list res" where
  "copy_backward arr first lst dlst =
     (if lst - first \<le> dlst then std_copy arr first lst arr (dlst - (lst - first)) else Inl OutOfRange)"

section \<open>Search in a bin\<close>

function find_lower_loop :: "key_t list \<Rightarrow> key_t \<Rightarrow> nat \<Rightarrow> nat \<Rightarrow> nat res" where
  "find_lower_loop arr key lo hi =
     (if lo < hi then
        let mid = (lo + hi) div 2 in
        bind_res (nth_res arr mid) (\<lambda>k.
          if key \<le> k then find_lower_loop arr key lo mid else find_lower_loop arr key (mid + 1) hi)
      else Inr lo)"
  by pat_completeness auto
termination by (relation "measure (\<lambda>(_, _, lo, hi). hi - lo)") auto

declare find_lower_loop.simps [simp del]

definition find_lower :: "key_t list \<Rightarrow> nat \<Rightarrow> key_t \<Rightarrow> nat res" where
  "find_lower arr slotuse key = (if slotuse = 0 then Inr 0 else find_lower_loop arr key 0 slotuse)"

abbreviation cb_find :: "child_bin \<Rightarrow> key_t \<Rightarrow> nat res" where
  "cb_find c key \<equiv> find_lower (cb_slotkey c) (cb_slotuse c) key"

definition cb_hit :: "child_bin \<Rightarrow> key_t \<Rightarrow> nat \<Rightarrow> bool" where
  "cb_hit c key cslot \<longleftrightarrow> cslot < cb_slotuse c \<and> cb_slotkey c ! cslot = key"

text \<open>The child to look into with its version, \<open>None\<close> when there is no bin at all. A locked root makes
  the caller start again.\<close>

definition lb_child :: "key_t \<Rightarrow> LevelBin \<Rightarrow> (addr \<times> 64 word) option res" where
  "lb_child key l =
     (case lb_root l of
        Some root \<Rightarrow>
          bind_res (find_lower (rb_slotkey root) (rb_slotuse root) key) (\<lambda>slot.
          if rb_locked root then Inl OutOfFuel
          else bind_res (nth_res (rb_children root) slot) (\<lambda>a.
               bind_res (cb_load l a) (\<lambda>child. Inr (Some (a, cb_version child)))))
      | None \<Rightarrow>
          if lb_headbin l \<noteq> 0 then bind_res (cb_load l (lb_headbin l)) (\<lambda>child. Inr (Some (lb_headbin l, cb_version child)))
          else Inr None)"

text \<open>After a change was noticed: on to the bin whose first key is the last not above the wanted one.\<close>

fun follow_next :: "nat \<Rightarrow> addr \<Rightarrow> key_t \<Rightarrow> LevelBin \<Rightarrow> (addr \<times> 64 word) res" where
  "follow_next 0 a key l = Inl OutOfFuel"
| "follow_next (Suc n) a key l =
     bind_res (cb_load l a) (\<lambda>c.
       if cb_nextbin c = 0 then Inr (a, cb_version c)
       else bind_res (cb_load l (cb_nextbin c)) (\<lambda>d.
            bind_res (nth_res (cb_slotkey d) 0) (\<lambda>k.
              if k \<le> key then follow_next n (cb_nextbin c) key l else Inr (a, cb_version c))))"

fun con_find_loop :: "nat \<Rightarrow> addr \<Rightarrow> 64 word \<Rightarrow> key_t \<Rightarrow> val_t \<Rightarrow> LevelBin \<Rightarrow> (result_t \<times> val_t) res" where
  "con_find_loop 0 a child_ver key val l = Inl OutOfFuel"
| "con_find_loop (Suc n) a child_ver key val l =
     bind_res (cb_load l a) (\<lambda>child.
     bind_res (cb_find child key) (\<lambda>cslot.
       let (res, val') = (if cb_hit child key cslot then (Res_ok, cb_slotdata child ! cslot) else (Res_failed, val)) in
       if \<not> cb_locked child \<and> child_ver = cb_version child then Inr (res, val')
       else bind_res (follow_next (lb_brk l) a key l) (\<lambda>(b, ver). con_find_loop n b ver key val' l)))"

definition con_find_retrain :: "key_t \<Rightarrow> val_t \<Rightarrow> LevelBin \<Rightarrow> (result_t \<times> val_t) res" where
  "con_find_retrain key val l =
     (if lb_retraining l then Inr (Res_retrain, val)
      else bind_res (lb_child key l) (\<lambda>ch.
        case ch of None \<Rightarrow> Inr (Res_failed, val)
        | Some (a, child_ver) \<Rightarrow> con_find_loop 1 a child_ver key val l))"

definition con_find :: "key_t \<Rightarrow> val_t \<Rightarrow> LevelBin \<Rightarrow> (bool \<times> val_t) res" where
  "con_find key val l =
     bind_res (lb_child key l) (\<lambda>ch.
       case ch of None \<Rightarrow> Inr (False, val)
       | Some (a, child_ver) \<Rightarrow>
           bind_res (con_find_loop 1 a child_ver key val l) (\<lambda>(res, val'). Inr (res = Res_ok, val')))"

text \<open>\<open>find\<close> returns an iterator: a bin and a slot, or \<open>end()\<close>.\<close>

definition it_end :: "LevelBin \<Rightarrow> (addr \<times> nat) res" where
  "it_end l =
     (if lb_tailbin l = 0 then Inr (0, 0)
      else bind_res (cb_load l (lb_tailbin l)) (\<lambda>c. Inr (lb_tailbin l, cb_slotuse c)))"

definition lb_find :: "key_t \<Rightarrow> LevelBin \<Rightarrow> (addr \<times> nat) res" where
  "lb_find key l =
     bind_res (case lb_root l of
        Some root \<Rightarrow>
          bind_res (find_lower (rb_slotkey root) (rb_slotuse root) key) (\<lambda>slot. nth_res (rb_children root) slot)
      | None \<Rightarrow> Inr (lb_headbin l)) (\<lambda>a.
     if lb_root l = None \<and> a = 0 then it_end l
     else bind_res (cb_load l a) (\<lambda>child.
          bind_res (cb_find child key) (\<lambda>cslot. if cb_hit child key cslot then Inr (a, cslot) else it_end l)))"

section \<open>Update\<close>

text \<open>The loop that locks the child; a changed version sends it on to the next bins.\<close>

fun update_lock_loop :: "nat \<Rightarrow> addr \<Rightarrow> 64 word \<Rightarrow> key_t \<Rightarrow> LevelBin \<Rightarrow> (addr \<times> LevelBin) res" where
  "update_lock_loop 0 a child_ver key l = Inl OutOfFuel"
| "update_lock_loop (Suc n) a child_ver key l =
     bind_res (cb_upd a cb_lock l) (\<lambda>l1.
     bind_res (cb_load l1 a) (\<lambda>child.
       if child_ver \<noteq> cb_version child then
         bind_res (cb_upd a (\<lambda>c. Inr (cb_unlock c)) l1) (\<lambda>l2.
         bind_res (follow_next (lb_brk l2) a key l2) (\<lambda>(b, ver). update_lock_loop n b ver key l2))
       else Inr (a, l1)))"

definition lb_update :: "key_t \<Rightarrow> val_t \<Rightarrow> LevelBin \<Rightarrow> (result_t \<times> LevelBin) res" where
  "lb_update key val l =
     (if lb_retraining l then Inr (Res_retrain, l)
      else bind_res (lb_child key l) (\<lambda>ch.
        case ch of None \<Rightarrow> Inr (Res_failed, l)
        | Some (a, child_ver) \<Rightarrow>
            bind_res (update_lock_loop 1 a child_ver key l) (\<lambda>(a, l1).
            bind_res (cb_load l1 a) (\<lambda>child.
            bind_res (cb_find child key) (\<lambda>cslot.
              if cb_hit child key cslot then
                bind_res (cb_upd a (\<lambda>c. bind_res (upd_res (cb_slotdata c) cslot val) (\<lambda>vs.
                  Inr (cb_commit (c\<lparr>cb_slotdata := vs\<rparr>)))) l1) (\<lambda>l2. Inr (Res_ok, l2))
              else bind_res (cb_upd a (\<lambda>c. Inr (cb_unlock c)) l1) (\<lambda>l2. Inr (Res_failed, l2)))))))"

section \<open>Insertion\<close>

text \<open>Room for a pair at a slot: both arrays are moved up by one from there.\<close>

definition cb_insert_at :: "nat \<Rightarrow> key_t \<Rightarrow> val_t \<Rightarrow> child_bin \<Rightarrow> child_bin res" where
  "cb_insert_at slot key val c =
     bind_res (copy_backward (cb_slotkey c) slot (cb_slotuse c) (cb_slotuse c + 1)) (\<lambda>ks.
     bind_res (copy_backward (cb_slotdata c) slot (cb_slotuse c) (cb_slotuse c + 1)) (\<lambda>vs.
     bind_res (upd_res ks slot key) (\<lambda>ks.
     bind_res (upd_res vs slot val) (\<lambda>vs.
       Inr (c\<lparr>cb_slotkey := ks, cb_slotdata := vs, cb_slotuse := cb_slotuse c + 1\<rparr>)))))"

text \<open>The new separator and the new child behind it.\<close>

definition rb_insert_at :: "nat \<Rightarrow> key_t \<Rightarrow> addr \<Rightarrow> root_bin \<Rightarrow> root_bin res" where
  "rb_insert_at slot newkey newchild r =
     bind_res (copy_backward (rb_slotkey r) slot (rb_slotuse r) (rb_slotuse r + 1)) (\<lambda>ks.
     bind_res (copy_backward (rb_children r) slot (rb_slotuse r + 1) (rb_slotuse r + 2)) (\<lambda>cs.
     bind_res (upd_res ks slot newkey) (\<lambda>ks.
     bind_res (upd_res cs (slot + 1) newchild) (\<lambda>cs.
       Inr (r\<lparr>rb_slotkey := ks, rb_children := cs, rb_slotuse := rb_slotuse r + 1\<rparr>)))))"

text \<open>The split of a full child: the separator and the new bin, which takes the upper half.\<close>

definition split_child_bin_retrain :: "addr \<Rightarrow> LevelBin \<Rightarrow> (key_t \<times> addr \<times> LevelBin) res" where
  "split_child_bin_retrain a l =
     bind_res (cb_load l a) (\<lambda>child.
     assert_res (cb_slotuse child = childslotmax)
      (let mid = cb_slotuse child div 2; (b, l1) = allocate_childbin l in
       bind_res (cb_upd b (\<lambda>c. Inr (c\<lparr>cb_slotuse := cb_slotuse child - mid, cb_nextbin := cb_nextbin child\<rparr>)) l1) (\<lambda>l2.
       bind_res (if cb_nextbin child = 0 then assert_res (a = lb_tailbin l2) (Inr (l2\<lparr>lb_tailbin := b\<rparr>))
                 else cb_upd (cb_nextbin child) (\<lambda>c. Inr (c\<lparr>cb_prevbin := b\<rparr>)) l2) (\<lambda>l3.
       bind_res (cb_upd b cb_lock l3) (\<lambda>l4.
       bind_res (cb_upd a cb_lock l4) (\<lambda>l5.
       bind_res (cb_upd b (\<lambda>c.
         bind_res (std_copy (cb_slotkey child) mid (cb_slotuse child) (cb_slotkey c) 0) (\<lambda>ks.
         bind_res (std_copy (cb_slotdata child) mid (cb_slotuse child) (cb_slotdata c) 0) (\<lambda>vs.
           Inr (cb_commit (c\<lparr>cb_slotkey := ks, cb_slotdata := vs, cb_prevbin := a\<rparr>))))) l5) (\<lambda>l6.
       bind_res (cb_upd a (\<lambda>c. Inr (cb_commit (c\<lparr>cb_slotuse := mid, cb_nextbin := b\<rparr>))) l6) (\<lambda>l7.
       bind_res (cb_load l7 a) (\<lambda>child.
       bind_res (nth_int (cb_slotkey child) (int (cb_slotuse child) - 1)) (\<lambda>newkey.
         Inr (newkey, b, l7)))))))))))"

text \<open>The answer, the separator and the new child (0 when there was no split).\<close>

definition insert_child_retrain :: "addr \<Rightarrow> key_t \<Rightarrow> val_t \<Rightarrow> LevelBin \<Rightarrow> (result_t \<times> key_t \<times> addr \<times> LevelBin) res" where
  "insert_child_retrain a key val l =
     bind_res (cb_load l a) (\<lambda>child.
     bind_res (cb_find child key) (\<lambda>slot.
       if cb_hit child key slot then Inr (Res_failed, 0, 0, l)
       else
         bind_res (if cb_slotuse child = childslotmax then
                     bind_res (split_child_bin_retrain a l) (\<lambda>(newkey, newchild, l1).
                     bind_res (cb_load l1 a) (\<lambda>child.
                       Inr (if cb_slotuse child \<le> slot then (newchild, slot - cb_slotuse child, newkey, newchild, l1)
                            else (a, slot, newkey, newchild, l1))))
                   else Inr (a, slot, 0, 0, l)) (\<lambda>(b, slot, newkey, newchild, l1).
         bind_res (cb_upd b cb_lock l1) (\<lambda>l2.
         bind_res (cb_upd b (\<lambda>c. bind_res (cb_insert_at slot key val c) (\<lambda>c. Inr (cb_commit c))) l2) (\<lambda>l3.
         bind_res (cb_load l3 b) (\<lambda>child.
           Inr (Res_ok, if b \<noteq> newchild \<and> slot = cb_slotuse child - 1 then key else newkey, newchild, l3)))))))"

text \<open>A full child gives its first pair, or the new one, to its left neighbour.\<close>

definition insert_prev_retrain :: "addr \<Rightarrow> addr \<Rightarrow> nat \<Rightarrow> key_t \<Rightarrow> val_t \<Rightarrow> LevelBin \<Rightarrow> (result_t \<times> LevelBin) res" where
  "insert_prev_retrain prev cur slot key val l =
     bind_res (cb_load l cur) (\<lambda>c.
     bind_res (nth_res (cb_slotkey c) 0) (\<lambda>first.
     bind_res (nth_res (cb_slotdata c) 0) (\<lambda>first_val.
     let push = (\<lambda>k v d. bind_res (upd_res (cb_slotkey d) (cb_slotuse d) k) (\<lambda>ks.
                         bind_res (upd_res (cb_slotdata d) (cb_slotuse d) v) (\<lambda>vs.
                           Inr (d\<lparr>cb_slotkey := ks, cb_slotdata := vs, cb_slotuse := cb_slotuse d + 1\<rparr>)))) in
       if key < first then
         bind_res (root_upd rb_lock l) (\<lambda>l1.
         bind_res (cb_upd prev cb_lock l1) (\<lambda>l2.
         bind_res (cb_upd prev (\<lambda>d. bind_res (push key val d) (\<lambda>d. Inr (cb_commit d))) l2) (\<lambda>l3.
         bind_res (root_upd (\<lambda>r. bind_res (upd_res (rb_slotkey r) (slot - 1) key) (\<lambda>ks.
           Inr (rb_commit (r\<lparr>rb_slotkey := ks\<rparr>)))) l3) (\<lambda>l4. Inr (Res_ok, l4)))))
       else if first < key then
         bind_res (cb_find c key) (\<lambda>curslot.
           if cb_hit c key curslot then Inr (Res_failed, l)
           else
             bind_res (root_upd rb_lock l) (\<lambda>l1.
             bind_res (cb_upd prev cb_lock l1) (\<lambda>l2.
             bind_res (cb_upd cur cb_lock l2) (\<lambda>l3.
             bind_res (cb_upd prev (\<lambda>d. bind_res (push first first_val d) (\<lambda>d. Inr (cb_commit d))) l3) (\<lambda>l4.
             bind_res (cb_upd cur (\<lambda>d.
               bind_res (std_copy (cb_slotkey d) 1 curslot (cb_slotkey d) 0) (\<lambda>ks.
               bind_res (std_copy (cb_slotdata d) 1 curslot (cb_slotdata d) 0) (\<lambda>vs.
               bind_res (upd_res ks (curslot - 1) key) (\<lambda>ks.
               bind_res (upd_res vs (curslot - 1) val) (\<lambda>vs.
                 Inr (cb_commit (d\<lparr>cb_slotkey := ks, cb_slotdata := vs\<rparr>))))))) l4) (\<lambda>l5.
             bind_res (root_upd (\<lambda>r.
               bind_res (upd_res (rb_slotkey r) (slot - 1) first) (\<lambda>ks.
               bind_res (if curslot = cb_slotuse c \<and> slot + 1 \<le> rb_slotuse r then upd_res ks slot key else Inr ks) (\<lambda>ks.
                 Inr (rb_commit (r\<lparr>rb_slotkey := ks\<rparr>))))) l5) (\<lambda>l6. Inr (Res_ok, l6))))))))
       else Inr (Res_failed, l))))"

definition con_insert_retrain :: "key_t \<Rightarrow> val_t \<Rightarrow> LevelBin \<Rightarrow> (result_t \<times> LevelBin) res" where
  "con_insert_retrain key val l =
     (if lb_retraining l then Inr (Res_failed, l)
      else case lb_root l of
        Some root \<Rightarrow>
          bind_res (find_lower (rb_slotkey root) (rb_slotuse root) key) (\<lambda>slot.
          bind_res (nth_res (rb_children root) slot) (\<lambda>a.
          bind_res (cb_load l a) (\<lambda>child.
            if cb_slotuse child < childslotmax then
              bind_res (insert_child_retrain a key val l) (\<lambda>(r, _, _, l1). Inr (r, l1))
            else
              bind_res (if 0 < slot then bind_res (nth_res (rb_children root) (slot - 1)) (\<lambda>p.
                          bind_res (cb_load l p) (\<lambda>prev. Inr (if cb_slotuse prev < rootslotmax then Some p else None)))
                        else Inr None) (\<lambda>room.
                case room of
                  Some p \<Rightarrow> insert_prev_retrain p a slot key val l
                | None \<Rightarrow>
                    if rb_slotuse root = rootslotmax then Inr (Res_retrain, l\<lparr>lb_retraining := True\<rparr>)
                    else
                      bind_res (insert_child_retrain a key val l) (\<lambda>(r, newkey, newchild, l1).
                        if newchild \<noteq> 0 then
                          bind_res (root_upd rb_lock l1) (\<lambda>l2.
                          bind_res (root_upd (\<lambda>rt. bind_res (rb_insert_at slot newkey newchild rt) (\<lambda>rt. Inr (rb_commit rt))) l2)
                            (\<lambda>l3. Inr (r, l3)))
                        else Inr (r, l1))))))
      | None \<Rightarrow>
          let l0 = (if lb_headbin l = 0 then let (b, l') = allocate_childbin l in l'\<lparr>lb_headbin := b, lb_tailbin := b\<rparr> else l) in
          bind_res (insert_child_retrain (lb_headbin l0) key val l0) (\<lambda>(r, newkey, newchild, l1).
            if newchild \<noteq> 0 then
              assert_res (lb_root l1 = None)
               (Inr (r, l1\<lparr>lb_root := Some (root_bin_new
                  \<lparr>rb_slotkey := (rb_slotkey root_bin_new)[0 := newkey],
                   rb_children := (rb_children root_bin_new)[0 := lb_headbin l0, 1 := newchild], rb_slotuse := 1\<rparr>)\<rparr>))
            else Inr (r, l1)))"

section \<open>Scan\<close>

text \<open>The pairs reported and the number still missing.\<close>

fun lb_scan_loop :: "nat \<Rightarrow> addr \<Rightarrow> nat \<Rightarrow> LevelBin \<Rightarrow> (nat \<times> (key_t \<times> val_t) list) res" where
  "lb_scan_loop 0 a cslot l = Inr (0, [])"
| "lb_scan_loop (Suc n) a cslot l =
     (if a = 0 then Inr (Suc n, [])
      else
        bind_res (cb_load l a) (\<lambda>child.
        bind_res (nth_res (cb_slotkey child) cslot) (\<lambda>k.
        bind_res (nth_res (cb_slotdata child) cslot) (\<lambda>v.
        bind_res (if cb_slotuse child \<le> cslot + 1 then lb_scan_loop n (cb_nextbin child) 0 l
                  else lb_scan_loop n a (cslot + 1) l) (\<lambda>(remaining, kvs). Inr (remaining, (k, v) # kvs))))))"

definition lb_scan :: "key_t \<Rightarrow> nat \<Rightarrow> LevelBin \<Rightarrow> (int \<times> (key_t \<times> val_t) list) res" where
  "lb_scan key n l =
     bind_res (case lb_root l of
        Some root \<Rightarrow>
          bind_res (find_lower (rb_slotkey root) (rb_slotuse root) key) (\<lambda>slot. nth_res (rb_children root) slot)
      | None \<Rightarrow> Inr (lb_headbin l)) (\<lambda>a.
     if a = 0 then (if lb_root l = None then Inr (to_i32 (int n), []) else Inl AssertFail)
     else bind_res (cb_load l a) (\<lambda>child.
          bind_res (cb_find child key) (\<lambda>cslot.
          bind_res (lb_scan_loop n a cslot l) (\<lambda>(remaining, kvs). Inr (to_i32 (int remaining), kvs)))))"

section \<open>Removal\<close>

text \<open>The slot's pair is overwritten by the ones above it.\<close>

definition cb_remove_at :: "nat \<Rightarrow> child_bin \<Rightarrow> child_bin res" where
  "cb_remove_at cslot c =
     bind_res (std_copy (cb_slotkey c) (cslot + 1) (cb_slotuse c) (cb_slotkey c) cslot) (\<lambda>ks.
     bind_res (std_copy (cb_slotdata c) (cslot + 1) (cb_slotuse c) (cb_slotdata c) cslot) (\<lambda>vs.
       Inr (c\<lparr>cb_slotkey := ks, cb_slotdata := vs, cb_slotuse := cb_slotuse c - 1\<rparr>)))"

text \<open>An empty child is unlinked, freed and taken out of the root; the arrays of the root are moved
  only when the child is not one of the last two.\<close>

definition unlink_child :: "addr \<Rightarrow> nat \<Rightarrow> LevelBin \<Rightarrow> (result_t \<times> LevelBin) res" where
  "unlink_child a slot l =
     bind_res (root_upd rb_lock l) (\<lambda>l1.
     bind_res (cb_load l1 a) (\<lambda>child.
     bind_res (if cb_prevbin child \<noteq> 0 then cb_upd (cb_prevbin child) (\<lambda>c. Inr (c\<lparr>cb_nextbin := cb_nextbin child\<rparr>)) l1
               else Inr (l1\<lparr>lb_headbin := cb_nextbin child\<rparr>)) (\<lambda>l2.
     bind_res (if cb_nextbin child \<noteq> 0 then cb_upd (cb_nextbin child) (\<lambda>c. Inr (c\<lparr>cb_prevbin := cb_prevbin child\<rparr>)) l2
               else Inr (l2\<lparr>lb_tailbin := cb_prevbin child\<rparr>)) (\<lambda>l3.
     bind_res (root_upd (\<lambda>r.
       if slot + 1 < rb_slotuse r then
         bind_res (std_copy (rb_slotkey r) (slot + 1) (rb_slotuse r) (rb_slotkey r) slot) (\<lambda>ks.
         bind_res (std_copy (rb_children r) (slot + 1) (rb_slotuse r + 1) (rb_children r) slot) (\<lambda>cs.
           Inr (r\<lparr>rb_slotkey := ks, rb_children := cs, rb_slotuse := rb_slotuse r - 1\<rparr>)))
       else Inr (r\<lparr>rb_slotuse := rb_slotuse r - 1\<rparr>)) (free_childbin a l3)) (\<lambda>l4.
       if map_option rb_slotuse (lb_root l4) = Some 0 then
         assert_res (lb_headbin l4 = lb_tailbin l4) (Inr (Res_ok, l4\<lparr>lb_root := None\<rparr>))
       else bind_res (root_upd (\<lambda>r. Inr (rb_commit r)) l4) (\<lambda>l5. Inr (Res_ok, l5)))))))"

definition lb_remove :: "key_t \<Rightarrow> LevelBin \<Rightarrow> (result_t \<times> LevelBin) res" where
  "lb_remove key l =
     (if lb_retraining l then Inr (Res_retrain, l)
      else case lb_root l of
        Some root \<Rightarrow>
          bind_res (find_lower (rb_slotkey root) (rb_slotuse root) key) (\<lambda>slot.
          bind_res (nth_res (rb_children root) slot) (\<lambda>a.
          bind_res (cb_load l a) (\<lambda>child.
          bind_res (cb_find child key) (\<lambda>cslot.
            if \<not> cb_hit child key cslot then Inr (Res_failed, l)
            else
              bind_res (cb_upd a cb_lock l) (\<lambda>l1.
              bind_res (cb_upd a (\<lambda>c. bind_res (cb_remove_at cslot c) (\<lambda>c. Inr (cb_commit c))) l1) (\<lambda>l2.
              bind_res (cb_load l2 a) (\<lambda>child.
                if cb_slotuse child = 0 then unlink_child a slot l2
                else if cslot = cb_slotuse child then
                  bind_res (root_upd rb_lock l2) (\<lambda>l3.
                  bind_res (root_upd (\<lambda>r.
                    bind_res (if slot < rootslotmax then
                                bind_res (nth_int (cb_slotkey child) (int (cb_slotuse child) - 1)) (upd_res (rb_slotkey r) slot)
                              else Inr (rb_slotkey r)) (\<lambda>ks. Inr (rb_commit (r\<lparr>rb_slotkey := ks\<rparr>)))) l3) (\<lambda>l4.
                    Inr (Res_ok, l4)))
                else Inr (Res_ok, l2))))))))
      | None \<Rightarrow>
          if lb_headbin l = 0 then Inr (Res_failed, l)
          else
            bind_res (cb_load l (lb_headbin l)) (\<lambda>child.
            bind_res (cb_find child key) (\<lambda>slot.
              if \<not> cb_hit child key slot then Inr (Res_failed, l)
              else
                bind_res (cb_upd (lb_headbin l) cb_lock l) (\<lambda>l1.
                bind_res (cb_upd (lb_headbin l) (\<lambda>c. bind_res (cb_remove_at slot c) (\<lambda>c. Inr (cb_commit c))) l1) (\<lambda>l2.
                bind_res (cb_load l2 (lb_headbin l)) (\<lambda>child.
                  Inr (Res_ok, if cb_slotuse child = 0
                               then (free_childbin (lb_headbin l2) l2)\<lparr>lb_headbin := 0, lb_tailbin := 0\<rparr> else l2)))))))"

section \<open>Collecting the pairs and the self check\<close>

fun resort_loop :: "addr list \<Rightarrow> LevelBin \<Rightarrow> (nat \<times> key_t list \<times> val_t list) res" where
  "resort_loop [] l = Inr (0, [], [])"
| "resort_loop (a # as) l =
     bind_res (cb_load l a) (\<lambda>c.
     bind_res (resort_loop as l) (\<lambda>(itemnum, keys, vals).
       if length (cb_slotkey c) < cb_slotuse c \<or> length (cb_slotdata c) < cb_slotuse c then Inl OutOfRange
       else Inr (cb_slotuse c + itemnum, take (cb_slotuse c) (cb_slotkey c) @ keys, take (cb_slotuse c) (cb_slotdata c) @ vals)))"

definition lb_resort :: "LevelBin \<Rightarrow> (key_t list \<times> val_t list) res" where
  "lb_resort l =
     (case lb_root l of None \<Rightarrow> Inl AssertFail
      | Some r \<Rightarrow>
          if length (rb_children r) < rb_slotuse r + 1 then Inl OutOfRange
          else bind_res (resort_loop (take (rb_slotuse r + 1) (rb_children r)) l) (\<lambda>(itemnum, keys, vals).
            assert_res (itemnum = length keys) (assert_res (ssorted keys) (Inr (keys, vals)))))"

definition cb_self_check :: "child_bin \<Rightarrow> bool" where
  "cb_self_check c \<longleftrightarrow> (\<forall>i \<in> {1..<cb_slotuse c}. cb_slotkey c ! (i - 1) < cb_slotkey c ! i)"

definition lb_self_check :: "LevelBin \<Rightarrow> bool" where
  "lb_self_check l \<longleftrightarrow>
     (case lb_root l of
        Some r \<Rightarrow>
          (\<forall>slot \<in> {0..<rb_slotuse r}.
             case lb_heap l (rb_children r ! slot) of None \<Rightarrow> False
             | Some c \<Rightarrow> cb_self_check c \<and> rb_slotkey r ! slot = cb_slotkey c ! (cb_slotuse c - 1))
          \<and> (case lb_heap l (rb_children r ! rb_slotuse r) of None \<Rightarrow> False | Some c \<Rightarrow> cb_self_check c)
          \<and> lb_headbin l = rb_children r ! 0 \<and> lb_tailbin l = rb_children r ! rb_slotuse r
      | None \<Rightarrow>
          lb_headbin l \<noteq> 0 \<longrightarrow>
            (case lb_heap l (lb_headbin l) of None \<Rightarrow> False | Some c \<Rightarrow> cb_self_check c) \<and> lb_tailbin l = lb_headbin l)"

end
