(* ===== verification/Level_Bin_Spec.thy ===== *)
theory Level_Bin_Spec
  imports Level_Bin
begin

text \<open>
  What a level bin stores and what its operations do. \<open>lb_rep l cs\<close> relates a bin to the list of its
  children with their pairs; \<open>lb_pairs cs\<close> are all pairs in the order of their keys. The structure
  (separators are last keys, links in both directions, free locks) is kept by every operation; the
  exceptions are stated as properties of their own.
\<close>

section \<open>The search in a bin\<close>

lemma find_lower_loop_lb:
  assumes srt: "sorted (take n arr)" and n: "n \<le> length arr"
    and "lo \<le> lb (take n arr) key" and "lb (take n arr) key \<le> hi" and "hi \<le> n"
  shows "find_lower_loop arr key lo hi = Inr (lb (take n arr) key)"
  using assms(3-)
proof (induction "hi - lo" arbitrary: lo hi rule: less_induct)
  case less
  show ?case
  proof (cases "lo < hi")
    case True
    define mid where "mid = (lo + hi) div 2"
    have mid: "lo \<le> mid" "mid < hi" "mid < n" "mid < length arr" using True less.prems(3) n by (auto simp: mid_def)
    show ?thesis
    proof (cases "key \<le> arr ! mid")
      case le: True
      have "\<not> mid < lb (take n arr) key" using lb_less [OF srt, of mid key] le mid(3) by (metis leD nth_take)
      then have "find_lower_loop arr key lo mid = Inr (lb (take n arr) key)" using less mid by (intro less.hyps) auto
      then show ?thesis using True le mid(4) by (simp add: find_lower_loop.simps [of arr key lo] mid_def [symmetric] Let_def)
    next
      case False
      have "\<not> lb (take n arr) key \<le> mid" using lb_ge [OF srt, of key mid] False mid(3) n by auto
      then have "find_lower_loop arr key (mid + 1) hi = Inr (lb (take n arr) key)" using less mid by (intro less.hyps) auto
      then show ?thesis using True False mid(4) by (simp add: find_lower_loop.simps [of arr key lo] mid_def [symmetric] Let_def)
    qed
  next
    case False
    then show ?thesis using less.prems by (simp add: find_lower_loop.simps)
  qed
qed

lemma find_lower_lb:
  assumes "sorted (take n arr)" and "n \<le> length arr"
  shows "find_lower arr n key = Inr (lb (take n arr) key)"
proof (cases "n = 0")
  case False
  then show ?thesis
    using find_lower_loop_lb [OF assms, of 0 key n] lb_le [of "take n arr" key] assms(2) by (simp add: find_lower_def)
qed (simp add: find_lower_def lb_def)

interpretation fl: lower_bound_search "\<lambda>xs. find_lower xs (length xs)"
  by unfold_locales (use find_lower_lb in force)

section \<open>Arrays with a live prefix\<close>

lemma copy_up:
  "slot \<le> n \<Longrightarrow> n < length arr \<Longrightarrow>
    copy_backward arr slot n (n + 1) = Inr (take (slot + 1) arr @ take (n - slot) (drop slot arr) @ drop (n + 1) arr)"
  by (simp add: copy_backward_def std_copy_def Suc_diff_le)

lemma copy_up_upd:
  assumes "slot \<le> n" and "n < length arr"
  defines "a \<equiv> take (slot + 1) arr @ take (n - slot) (drop slot arr) @ drop (n + 1) arr"
  shows "length a = length arr" and "take (Suc n) (a[slot := x]) = take slot (take n arr) @ x # drop slot (take n arr)"
proof -
  show "length a = length arr" using assms by simp
  have "take (slot + 1) arr = take slot arr @ [arr ! slot]" using assms(1,2) by (simp add: take_Suc_conv_app_nth)
  then have a: "a[slot := x] = (take slot arr @ x # take (n - slot) (drop slot arr)) @ drop (n + 1) arr"
    using assms by (simp add: a_def list_update_append)
  have "length (take slot arr @ x # take (n - slot) (drop slot arr)) = Suc n" using assms(1,2) by simp
  then have "take (Suc n) (a[slot := x]) = take slot arr @ x # take (n - slot) (drop slot arr)"
    unfolding a by (metis append_eq_conv_conj)
  then show "take (Suc n) (a[slot := x]) = take slot (take n arr) @ x # drop slot (take n arr)"
    using assms(1) by (simp add: min_def drop_take)
qed

text \<open>The live pairs of a child.\<close>

definition cb_arr :: "child_bin \<Rightarrow> (key_t \<times> val_t) list \<Rightarrow> bool" where
  "cb_arr c kvs \<longleftrightarrow> cb_slotuse c = length kvs \<and> length kvs \<le> childslotmax
     \<and> length (cb_slotkey c) = childslotmax \<and> length (cb_slotdata c) = childslotmax
     \<and> take (length kvs) (cb_slotkey c) = map fst kvs \<and> take (length kvs) (cb_slotdata c) = map snd kvs"

lemma cb_arr_new: "cb_arr child_bin_new []"
  by (simp add: cb_arr_def child_bin_new_def)

lemma cb_arr_nth:
  assumes "cb_arr c kvs" and "i < length kvs"
  shows "cb_slotkey c ! i = fst (kvs ! i)" and "cb_slotdata c ! i = snd (kvs ! i)" and "i < length (cb_slotkey c)" "i < length (cb_slotdata c)"
proof -
  have "take (length kvs) (cb_slotkey c) ! i = map fst kvs ! i" "take (length kvs) (cb_slotdata c) ! i = map snd kvs ! i"
    using assms(1) by (simp_all add: cb_arr_def)
  then show "cb_slotkey c ! i = fst (kvs ! i)" "cb_slotdata c ! i = snd (kvs ! i)" using assms(2) by simp_all
  show "i < length (cb_slotkey c)" "i < length (cb_slotdata c)" using assms by (auto simp: cb_arr_def)
qed

lemma cb_arr_find:
  assumes "cb_arr c kvs" and "ssorted (map fst kvs)"
  shows "cb_find c key = Inr (lb (map fst kvs) key)"
  using find_lower_lb [of "length kvs" "cb_slotkey c" key] strict_sorted_imp_sorted [OF assms(2)] assms(1) by (simp add: cb_arr_def)

lemma cb_arr_hit: "cb_arr c kvs \<Longrightarrow> cb_hit c key i \<longleftrightarrow> i < length kvs \<and> fst (kvs ! i) = key"
  using cb_arr_nth(1) by (auto simp: cb_hit_def cb_arr_def)

lemma cb_insert_at_arr:
  assumes "cb_arr c kvs" and "slot \<le> length kvs" and "length kvs < childslotmax"
  obtains ks vs where "cb_insert_at slot key val c = Inr (c\<lparr>cb_slotkey := ks, cb_slotdata := vs, cb_slotuse := Suc (length kvs)\<rparr>)"
    "cb_arr (c\<lparr>cb_slotkey := ks, cb_slotdata := vs, cb_slotuse := Suc (length kvs)\<rparr>) (take slot kvs @ (key, val) # drop slot kvs)"
proof -
  have c: "cb_slotuse c = length kvs" "length (cb_slotkey c) = childslotmax" "length (cb_slotdata c) = childslotmax"
    "take (length kvs) (cb_slotkey c) = map fst kvs" "take (length kvs) (cb_slotdata c) = map snd kvs"
    using assms(1) by (auto simp: cb_arr_def)
  have len: "length kvs < length (cb_slotkey c)" "length kvs < length (cb_slotdata c)" using assms(3) c by auto
  note k = copy_up [OF assms(2) len(1)] copy_up_upd(1) [OF assms(2) len(1)] copy_up_upd(2) [OF assms(2) len(1), of key]
  note v = copy_up [OF assms(2) len(2)] copy_up_upd(1) [OF assms(2) len(2)] copy_up_upd(2) [OF assms(2) len(2), of val]
  define a where "a = take (slot + 1) (cb_slotkey c) @ take (length kvs - slot) (drop slot (cb_slotkey c)) @ drop (length kvs + 1) (cb_slotkey c)"
  define b where "b = take (slot + 1) (cb_slotdata c) @ take (length kvs - slot) (drop slot (cb_slotdata c)) @ drop (length kvs + 1) (cb_slotdata c)"
  have sl: "slot < length a" "slot < length b" using k(2) v(2) assms(2) len by (simp_all only: a_def b_def)
  have 1: "cb_insert_at slot key val c = Inr (c\<lparr>cb_slotkey := a[slot := key], cb_slotdata := b[slot := val], cb_slotuse := Suc (length kvs)\<rparr>)"
      unfolding cb_insert_at_def c(1) k(1) v(1) a_def [symmetric] b_def [symmetric] using sl by simp
  have 2: "cb_arr (c\<lparr>cb_slotkey := a[slot := key], cb_slotdata := b[slot := val], cb_slotuse := Suc (length kvs)\<rparr>)
        (take slot kvs @ (key, val) # drop slot kvs)"
      using k(2,3) [folded a_def] v(2,3) [folded b_def] assms(2,3) c unfolding cb_arr_def by (simp add: take_map drop_map)
  show ?thesis by (rule that [OF 1 2])
qed

lemma cb_remove_at_arr:
  assumes "cb_arr c kvs" and "slot < length kvs"
  obtains ks vs where "cb_remove_at slot c = Inr (c\<lparr>cb_slotkey := ks, cb_slotdata := vs, cb_slotuse := length kvs - 1\<rparr>)"
    "cb_arr (c\<lparr>cb_slotkey := ks, cb_slotdata := vs, cb_slotuse := length kvs - 1\<rparr>) (take slot kvs @ drop (Suc slot) kvs)"
proof -
  have c: "cb_slotuse c = length kvs" "length (cb_slotkey c) = childslotmax" "length (cb_slotdata c) = childslotmax" "length kvs \<le> childslotmax"
    "take (length kvs) (cb_slotkey c) = map fst kvs" "take (length kvs) (cb_slotdata c) = map snd kvs"
    using assms(1) by (auto simp: cb_arr_def)
  have shift: "\<exists>ys. std_copy xs (slot + 1) (length kvs) xs slot = Inr ys \<and> length ys = length xs
      \<and> take (length kvs - 1) ys = take slot zs @ drop (Suc slot) zs"
    if "length xs = childslotmax" "take (length kvs) xs = zs" for xs zs :: "64 word list"
  proof -
    have "drop (Suc slot) zs = take (length kvs - Suc slot) (drop (Suc slot) xs)" unfolding that(2) [symmetric] by (simp add: drop_take)
    moreover have "take slot zs = take slot xs" unfolding that(2) [symmetric] using assms(2) by (simp add: min_def)
    ultimately have zs: "take slot zs @ drop (Suc slot) zs = take slot xs @ take (length kvs - Suc slot) (drop (Suc slot) xs)" by simp
    let ?ys = "take slot xs @ take (length kvs - Suc slot) (drop (Suc slot) xs) @ drop (slot + (length kvs - Suc slot)) xs"
    have "std_copy xs (slot + 1) (length kvs) xs slot = Inr ?ys" using that(1) assms(2) c(4) by (simp add: std_copy_def)
    moreover have "length ?ys = length xs" using that(1) assms(2) c(4) by simp
    moreover have "length (take slot xs @ take (length kvs - Suc slot) (drop (Suc slot) xs)) = length kvs - 1"
      using that(1) assms(2) c(4) by simp
    then have "take (length kvs - 1) ?ys = take slot xs @ take (length kvs - Suc slot) (drop (Suc slot) xs)"
      by (metis append_eq_conv_conj append_assoc)
    ultimately show ?thesis unfolding zs by blast
  qed
  obtain ks where ks: "std_copy (cb_slotkey c) (slot + 1) (length kvs) (cb_slotkey c) slot = Inr ks" "length ks = childslotmax"
      "take (length kvs - 1) ks = take slot (map fst kvs) @ drop (Suc slot) (map fst kvs)"
    using shift [OF c(2,5)] c(2) by auto
  obtain vs where vs: "std_copy (cb_slotdata c) (slot + 1) (length kvs) (cb_slotdata c) slot = Inr vs" "length vs = childslotmax"
      "take (length kvs - 1) vs = take slot (map snd kvs) @ drop (Suc slot) (map snd kvs)"
    using shift [OF c(3,6)] c(3) by auto
  have len: "length (take slot kvs @ drop (Suc slot) kvs) = length kvs - 1" using assms(2) by simp
  have 1: "cb_remove_at slot c = Inr (c\<lparr>cb_slotkey := ks, cb_slotdata := vs, cb_slotuse := length kvs - 1\<rparr>)"
      using ks(1) vs(1) c(1) by (simp add: cb_remove_at_def)
  have 2: "cb_arr (c\<lparr>cb_slotkey := ks, cb_slotdata := vs, cb_slotuse := length kvs - 1\<rparr>) (take slot kvs @ drop (Suc slot) kvs)"
      unfolding cb_arr_def len using ks(2,3) vs(2,3) c(4) by (simp add: take_map drop_map)
  show ?thesis by (rule that [OF 1 2])
qed

section \<open>Children in a row\<close>

type_synonym child = "addr \<times> (key_t \<times> val_t) list"

definition cb_rep :: "child_bin \<Rightarrow> (key_t \<times> val_t) list \<Rightarrow> bool" where
  "cb_rep c kvs \<longleftrightarrow> \<not> cb_locked c \<and> cb_arr c kvs"

definition first_addr :: "child list \<Rightarrow> addr \<Rightarrow> addr" where
  "first_addr cs d = (case cs of [] \<Rightarrow> d | c # _ \<Rightarrow> fst c)"

definition last_addr :: "child list \<Rightarrow> addr \<Rightarrow> addr" where
  "last_addr cs d = (if cs = [] then d else fst (last cs))"

lemma first_addr_simps [simp]: "first_addr [] d = d" "first_addr (c # cs) d = fst c"
  by (simp_all add: first_addr_def)

lemma last_addr_simps [simp]: "last_addr [] d = d" "last_addr (c # cs) d = last_addr cs (fst c)" "last_addr (cs @ [c]) d = fst c"
  by (simp_all add: last_addr_def)

lemma first_addr_append [simp]: "first_addr (xs @ ys) d = first_addr xs (first_addr ys d)"
  by (cases xs) auto

lemma last_addr_append [simp]: "last_addr (xs @ ys) d = last_addr ys (last_addr xs d)"
  by (induction xs arbitrary: d) auto

fun cchain :: "(addr \<rightharpoonup> child_bin) \<Rightarrow> addr \<Rightarrow> child list \<Rightarrow> addr \<Rightarrow> bool" where
  "cchain h prev [] nxt \<longleftrightarrow> True"
| "cchain h prev ((a, kvs) # cs) nxt \<longleftrightarrow> a \<noteq> 0 \<and>
     (\<exists>c. h a = Some c \<and> cb_rep c kvs \<and> cb_prevbin c = prev \<and> cb_nextbin c = first_addr cs nxt) \<and> cchain h a cs nxt"

lemma cchain_append: "cchain h prev (xs @ ys) nxt \<longleftrightarrow> cchain h prev xs (first_addr ys nxt) \<and> cchain h (last_addr xs prev) ys nxt"
proof (induction xs arbitrary: prev)
  case (Cons x xs)
  obtain a kvs where "x = (a, kvs)" by (cases x)
  then show ?case by (simp add: Cons.IH)
qed simp

lemma cchain_frame:
  "\<forall>a \<in> set (map fst cs). h' a = h a \<Longrightarrow> cchain h' prev cs nxt \<longleftrightarrow> cchain h prev cs nxt"
proof (induction cs arbitrary: prev)
  case (Cons c cs)
  obtain a kvs where c: "c = (a, kvs)" by (cases c)
  have "h' a = h a" "cchain h' a cs nxt = cchain h a cs nxt" using Cons c by auto
  then show ?case by (simp add: c)
qed simp

lemma cchain_upd [simp]: "b \<notin> set (map fst cs) \<Longrightarrow> cchain (h(b := x)) prev cs nxt \<longleftrightarrow> cchain h prev cs nxt"
  by (rule cchain_frame) auto

lemma cchain_mem:
  assumes "cchain h prev cs nxt" and "(a, kvs) \<in> set cs"
  shows "a \<noteq> 0 \<and> (\<exists>c. h a = Some c \<and> cb_rep c kvs)"
proof -
  obtain xs ys where "cs = xs @ (a, kvs) # ys" using split_list [OF assms(2)] by blast
  then show ?thesis using assms(1) by (auto simp: cchain_append)
qed

text \<open>All pairs, and the separator in front of a child: the greatest key of the child before it.\<close>

definition lb_pairs :: "child list \<Rightarrow> (key_t \<times> val_t) list" where
  "lb_pairs cs = concat (map snd cs)"

lemma lb_pairs_simps [simp]:
  "lb_pairs [] = []" "lb_pairs ((a, kvs) # cs) = kvs @ lb_pairs cs" "lb_pairs (xs @ ys) = lb_pairs xs @ lb_pairs ys"
  by (simp_all add: lb_pairs_def)

abbreviation lb_keys :: "child list \<Rightarrow> key_t list" where
  "lb_keys cs \<equiv> map fst (lb_pairs cs)"

definition seps :: "child list \<Rightarrow> key_t list" where
  "seps cs = map (\<lambda>c. fst (last (snd c))) (butlast cs)"

lemma seps_append: "ys \<noteq> [] \<Longrightarrow> seps (xs @ ys) = map (\<lambda>c. fst (last (snd c))) xs @ seps ys"
  by (simp add: seps_def butlast_append)

lemma seps_Cons: "seps (c # cs) = (if cs = [] then [] else fst (last (snd c)) # seps cs)"
  by (simp add: seps_def)

text \<open>Where a key belongs.\<close>

definition around :: "key_t \<Rightarrow> child list \<Rightarrow> child list \<Rightarrow> bool" where
  "around key xs ys \<longleftrightarrow> (\<forall>k \<in> set (lb_keys xs). k < key) \<and> (\<forall>k \<in> set (lb_keys ys). key < k)"

lemma ssorted_le_last: "ssorted xs \<Longrightarrow> x \<in> set xs \<Longrightarrow> x \<le> last xs" for x :: key_t
proof (induction xs)
  case (Cons y ys)
  show ?case
  proof (cases "ys = []")
    case False
    then have "last ys \<in> set ys" by simp
    then show ?thesis using Cons False by (cases "x = y") (auto simp: order_less_imp_le)
  qed (use Cons.prems in simp)
qed simp

lemma lb_route:
  assumes "ssorted (lb_keys cs)" and "\<forall>c \<in> set cs. snd c \<noteq> []" and "cs \<noteq> []"
  shows "\<exists>xs a kvs ys. cs = xs @ (a, kvs) # ys \<and> length xs = lb (seps cs) key \<and> around key xs ys
    \<and> (ys \<noteq> [] \<longrightarrow> key \<le> fst (last kvs))"
  using assms
proof (induction cs)
  case (Cons c cs)
  obtain a kvs where c: "c = (a, kvs)" by (cases c)
  have srt: "ssorted (map fst kvs)" "ssorted (lb_keys cs)" "\<forall>x \<in> set (map fst kvs). \<forall>y \<in> set (lb_keys cs). x < y"
    using Cons.prems(1) c by (auto simp: sorted_wrt_append)
  have ne: "kvs \<noteq> []" using Cons.prems(2) c by simp
  have last: "fst (last kvs) \<in> set (map fst kvs)" using ne by simp
  show ?case
  proof (cases "cs = []")
    case True
    then show ?thesis using c by (intro exI [of _ "[]"] exI [of _ a] exI [of _ kvs]) (simp add: lb_def seps_def around_def)
  next
    case False
    show ?thesis
    proof (cases "fst (last kvs) < key")
      case True
      obtain xs b kvs' ys where IH: "cs = xs @ (b, kvs') # ys" "length xs = lb (seps cs) key" "around key xs ys"
          "ys \<noteq> [] \<longrightarrow> key \<le> fst (last kvs')"
        using Cons.IH [OF srt(2)] Cons.prems(2) False by auto
      have "k < key" if "k \<in> set (map fst kvs)" for k
      proof -
        have "k \<le> last (map fst kvs)" by (rule ssorted_le_last [OF srt(1) that])
        then have "k \<le> fst (last kvs)" using ne by (simp add: last_map)
        then show ?thesis using True by simp
      qed
      then have "around key ((a, kvs) # xs) ys" using IH(3) by (auto simp: around_def)
      then show ?thesis using IH(1,2,4) c True False
        by (intro exI [of _ "(a, kvs) # xs"] exI [of _ b] exI [of _ kvs'] exI [of _ ys]) (simp add: seps_Cons lb_def)
    next
      case le: False
      then have "key < k" if "k \<in> set (lb_keys cs)" for k
      proof -
        have "fst (last kvs) < k" using srt(3) last that by blast
        then show ?thesis using le by (meson not_less order_le_less_trans)
      qed
      then have "around key [] cs" by (simp add: around_def)
      then show ?thesis using c le False
        by (intro exI [of _ "[]"] exI [of _ a] exI [of _ kvs] exI [of _ cs]) (simp add: seps_Cons lb_def not_less)
    qed
  qed
qed simp

section \<open>The representation\<close>

definition root_rep :: "root_bin \<Rightarrow> child list \<Rightarrow> bool" where
  "root_rep r cs \<longleftrightarrow> \<not> rb_locked r \<and> Suc (rb_slotuse r) = length cs \<and> 2 \<le> length cs \<and> rb_slotuse r \<le> rootslotmax
     \<and> length (rb_slotkey r) = rootslotmax \<and> length (rb_children r) = rootslotmax + 1
     \<and> take (rb_slotuse r) (rb_slotkey r) = seps cs \<and> take (length cs) (rb_children r) = map fst cs
     \<and> (\<forall>c \<in> set cs. snd c \<noteq> [])"

definition chain_ok :: "LevelBin \<Rightarrow> child list \<Rightarrow> bool" where
  "chain_ok l cs \<longleftrightarrow> cchain (lb_heap l) 0 cs 0 \<and> lb_headbin l = first_addr cs 0 \<and> lb_tailbin l = last_addr cs 0
     \<and> distinct (map fst cs) \<and> (\<forall>a \<in> set (map fst cs). a < lb_brk l) \<and> 0 < lb_brk l"

definition lb_rep :: "LevelBin \<Rightarrow> child list \<Rightarrow> bool" where
  "lb_rep l cs \<longleftrightarrow> chain_ok l cs \<and> ssorted (lb_keys cs)
     \<and> (case lb_root l of None \<Rightarrow> length cs \<le> 1 | Some r \<Rightarrow> root_rep r cs)"

lemma length_seps: "length (seps cs) = length cs - 1"
  by (simp add: seps_def)

lemma ssorted_map_last_keys:
  assumes "ssorted (lb_keys cs)" and "\<forall>c \<in> set cs. snd c \<noteq> []"
  shows "sorted (seps cs)"
proof -
  have "concat (map (map fst \<circ> snd) cs) = lb_keys cs" by (simp add: lb_pairs_def map_concat)
  then have "ssorted (concat (map (map fst \<circ> snd) cs))" using assms(1) by simp
  moreover have "[] \<notin> set (map (map fst \<circ> snd) cs)" using assms(2) by auto
  ultimately have "ssorted (map last (map (map fst \<circ> snd) cs))" by (rule ssorted_map_last)
  moreover have "map last (map (map fst \<circ> snd) cs) = map (\<lambda>c. fst (last (snd c))) cs" using assms(2) by (simp add: last_map)
  ultimately have "sorted (map (\<lambda>c. fst (last (snd c))) cs)" using strict_sorted_imp_sorted by metis
  then show ?thesis unfolding seps_def butlast_conv_take take_map [symmetric] by (rule sorted_wrt_take)
qed

lemma root_route:
  assumes "root_rep r cs" and "ssorted (lb_keys cs)"
  obtains xs a kvs ys where "cs = xs @ (a, kvs) # ys" "around key xs ys" "ys \<noteq> [] \<longrightarrow> key \<le> fst (last kvs)"
    "find_lower (rb_slotkey r) (rb_slotuse r) key = Inr (length xs)" "nth_res (rb_children r) (length xs) = Inr a"
proof -
  have r: "Suc (rb_slotuse r) = length cs" "rb_slotuse r \<le> length (rb_slotkey r)" "take (rb_slotuse r) (rb_slotkey r) = seps cs"
    "take (length cs) (rb_children r) = map fst cs" "\<forall>c \<in> set cs. snd c \<noteq> []" "length cs \<le> length (rb_children r)"
    using assms(1) by (auto simp: root_rep_def)
  have "cs \<noteq> []" using r(1) by auto
  then obtain xs a kvs ys where s: "cs = xs @ (a, kvs) # ys" "length xs = lb (seps cs) key" "around key xs ys" "ys \<noteq> [] \<longrightarrow> key \<le> fst (last kvs)"
    using lb_route [OF assms(2) r(5), of key] by blast
  have "find_lower (rb_slotkey r) (rb_slotuse r) key = Inr (length xs)"
    using find_lower_lb [of "rb_slotuse r" "rb_slotkey r" key] ssorted_map_last_keys [OF assms(2) r(5)] r(2,3) s(2) by simp
  moreover have "nth_res (rb_children r) (length xs) = Inr a"
  proof -
    have "length xs < length cs" using s(1) by simp
    then have "take (length cs) (rb_children r) ! length xs = rb_children r ! length xs" by simp
    moreover have "map fst cs ! length xs = a" using s(1) by (simp add: nth_append)
    ultimately show ?thesis using r(4,6) \<open>length xs < length cs\<close> by simp
  qed
  ultimately show ?thesis using that s by blast
qed

text \<open>The child for a key, with the bin in the store.\<close>

lemma chain_at:
  assumes "chain_ok l (xs @ (a, kvs) # ys)"
  obtains c where "lb_heap l a = Some c" "cb_rep c kvs" "cb_prevbin c = last_addr xs 0" "cb_nextbin c = first_addr ys 0"
    "a \<noteq> 0" "a < lb_brk l" "a \<notin> fst ` set xs" "a \<notin> fst ` set ys"
  using assms by (auto simp: chain_ok_def cchain_append)

lemma lb_cases:
  assumes rep: "lb_rep l cs"
  obtains (empty) "cs = []" "lb_root l = None" "lb_headbin l = 0"
  | (single) a kvs c where "cs = [(a, kvs)]" "lb_root l = None" "lb_headbin l = a" "a \<noteq> 0" "lb_heap l a = Some c" "cb_rep c kvs"
  | (root) r xs a kvs ys c where "lb_root l = Some r" "root_rep r cs" "cs = xs @ (a, kvs) # ys" "around key xs ys" "ys \<noteq> [] \<longrightarrow> key \<le> fst (last kvs)"
      "find_lower (rb_slotkey r) (rb_slotuse r) key = Inr (length xs)" "nth_res (rb_children r) (length xs) = Inr a" "a \<noteq> 0"
      "lb_heap l a = Some c" "cb_rep c kvs" "cb_prevbin c = last_addr xs 0" "cb_nextbin c = first_addr ys 0"
proof (cases "lb_root l")
  case None
  have ch: "chain_ok l cs" and len: "length cs \<le> 1" using rep None by (auto simp: lb_rep_def)
  show ?thesis
  proof (cases cs)
    case Nil
    then show ?thesis using that(1) None ch by (simp add: chain_ok_def)
  next
    case (Cons x xs)
    then obtain a kvs where x: "cs = [(a, kvs)]" using len by (cases x) auto
    then obtain c where "lb_heap l a = Some c" "cb_rep c kvs" "a \<noteq> 0" using ch by (auto simp: chain_ok_def)
    then show ?thesis using that(2) [OF x None] ch x by (simp add: chain_ok_def)
  qed
next
  case (Some r)
  have ch: "chain_ok l cs" and r: "root_rep r cs" and srt: "ssorted (lb_keys cs)" using rep Some by (auto simp: lb_rep_def)
  obtain xs a kvs ys where s: "cs = xs @ (a, kvs) # ys" "around key xs ys" "ys \<noteq> [] \<longrightarrow> key \<le> fst (last kvs)"
    "find_lower (rb_slotkey r) (rb_slotuse r) key = Inr (length xs)" "nth_res (rb_children r) (length xs) = Inr a"
    by (rule root_route [OF r srt, of key])
  obtain c where "lb_heap l a = Some c" "cb_rep c kvs" "cb_prevbin c = last_addr xs 0" "cb_nextbin c = first_addr ys 0" "a \<noteq> 0"
    by (rule chain_at [OF ch [unfolded s(1)]])
  then show ?thesis using that(3) [OF Some r s] by blast
qed

section \<open>Pairs of a sorted child\<close>

lemma lb_split_pairs:
  assumes "ssorted (map fst kvs)"
  shows "lb (map fst kvs) key \<le> length kvs" and "\<forall>k \<in> set (map fst (take (lb (map fst kvs) key) kvs)). k < key"
    and "\<forall>k \<in> set (map fst (drop (lb (map fst kvs) key) kvs)). key \<le> k"
proof -
  let ?p = "lb (map fst kvs) key"
  have srt: "sorted (map fst kvs)" using assms by (rule strict_sorted_imp_sorted)
  show le: "?p \<le> length kvs" using lb_le [of "map fst kvs" key] by simp
  show "\<forall>k \<in> set (map fst (take ?p kvs)). k < key"
    using lb_less [OF srt] le by (fastforce simp: in_set_conv_nth)
  show "\<forall>k \<in> set (map fst (drop ?p kvs)). key \<le> k"
  proof
    fix k assume "k \<in> set (map fst (drop ?p kvs))"
    then have "k \<in> set (drop ?p (map fst kvs))" by (simp add: drop_map)
    then obtain i where "i < length kvs - ?p" "k = map fst kvs ! (?p + i)" by (auto simp: in_set_conv_nth)
    then show "key \<le> k" using lb_ge [OF srt, of key "?p + i"] by simp
  qed
qed

lemma map_of_at_lb:
  fixes key :: key_t
  assumes srt: "ssorted (map fst kvs)"
  defines "p \<equiv> lb (map fst kvs) key"
  shows "map_of kvs key = (if p < length kvs \<and> fst (kvs ! p) = key then Some (snd (kvs ! p)) else None)"
proof (cases "p < length kvs \<and> fst (kvs ! p) = key")
  case True
  then have "(key, snd (kvs ! p)) \<in> set kvs" by (metis nth_mem prod.collapse)
  moreover have "distinct (map fst kvs)" using srt by (rule ssorted_distinct)
  ultimately show ?thesis using True by (simp add: map_of_eq_Some_iff)
next
  case False
  have "key \<notin> set (map fst kvs)"
  proof
    assume "key \<in> set (map fst kvs)"
    then obtain i where i: "lb (map fst kvs) key = i" "i < length kvs" "fst (kvs ! i) = key"
      using std_lb.search_finds [OF strict_sorted_imp_sorted [OF srt], of key] by auto
    then show False using False by (simp add: p_def)
  qed
  then have "map_of kvs key = None" by (simp add: map_of_eq_None_iff)
  then show ?thesis using False by auto
qed

lemma around_notin: "around key xs ys \<Longrightarrow> key \<notin> set (lb_keys xs) \<and> key \<notin> set (lb_keys ys)"
  unfolding around_def using order_less_irrefl by blast

lemma around_map_of:
  assumes "around key xs ys"
  shows "map_of (lb_pairs (xs @ (a, kvs) # ys)) key = map_of kvs key"
proof -
  have "map_of (lb_pairs xs) key = None" "map_of (lb_pairs ys) key = None"
    using around_notin [OF assms] by (simp_all add: map_of_eq_None_iff)
  then show ?thesis by (simp add: map_add_def split: option.split)
qed

section \<open>Search\<close>

lemma child_sorted: "ssorted (lb_keys (xs @ (a, kvs) # ys)) \<Longrightarrow> ssorted (map fst kvs)"
  by (simp add: sorted_wrt_append)

lemma con_find_loop_map:
  assumes "lb_heap l a = Some c" and "cb_rep c kvs" and srt: "ssorted (map fst kvs)"
  shows "con_find_loop 1 a (cb_version c) key val l =
    Inr (case map_of kvs key of None \<Rightarrow> (Res_failed, val) | Some v \<Rightarrow> (Res_ok, v))"
proof -
  have arr: "cb_arr c kvs" "\<not> cb_locked c" using assms(2) by (auto simp: cb_rep_def)
  show ?thesis
    using cb_arr_find [OF arr(1) srt, of key] cb_arr_hit [OF arr(1), of key] cb_arr_nth(2) [OF arr(1)] arr(2) assms(1)
    by (auto simp: cb_load_def map_of_at_lb [OF srt, of key] Let_def)
qed

lemma con_find_child:
  assumes rep: "lb_rep l cs"
  shows "bind_res (lb_child key l) (\<lambda>ch. case ch of None \<Rightarrow> Inr (Res_failed, val)
      | Some (a, child_ver) \<Rightarrow> con_find_loop 1 a child_ver key val l) =
    Inr (case map_of (lb_pairs cs) key of None \<Rightarrow> (Res_failed, val) | Some v \<Rightarrow> (Res_ok, v))"
proof -
  have srt: "ssorted (lb_keys cs)" using rep by (simp add: lb_rep_def)
  show ?thesis
  proof (cases rule: lb_cases [OF rep, where key = key])
    case 1
    then show ?thesis by (simp add: lb_child_def)
  next
    case (2 a kvs c)
    have "ssorted (map fst kvs)" using srt 2(1) by simp
    then show ?thesis using 2 con_find_loop_map [OF 2(5,6), of key val] by (simp add: lb_child_def cb_load_def del: con_find_loop.simps)
  next
    case (3 r xs a kvs ys c)
    have "ssorted (map fst kvs)" by (rule child_sorted [of xs a kvs ys]) (use srt 3(3) in simp)
    moreover have "\<not> rb_locked r" using 3(2) by (simp add: root_rep_def)
    ultimately show ?thesis
      using 3(1,6,7,9) con_find_loop_map [OF 3(9,10), of key val] around_map_of [OF 3(4), of a kvs] unfolding 3(3)
      by (simp add: lb_child_def cb_load_def del: con_find_loop.simps lb_pairs_simps)
  qed
qed

end
