(* ===== verification/Level_Bin_Ops.thy ===== *)
theory Level_Bin_Ops
  imports Level_Bin_Spec
begin

text \<open>
  The operations of the level bin that change it: update, insertion with its splits and the move of a
  pair to the left neighbour, removal; and scan, collection and self check.
\<close>

section \<open>One child changes\<close>

lemma lb_upd_heap: "lb_heap l a = Some c \<Longrightarrow> f c = Inr c' \<Longrightarrow> cb_upd a f l = Inr (l\<lparr>lb_heap := (lb_heap l)(a \<mapsto> c')\<rparr>)"
  by (simp add: cb_upd_def cb_load_def)

lemma chain_change:
  assumes ok: "chain_ok l (xs @ (a, kvs) # ys)" and c: "lb_heap l a = Some c"
    and c': "cb_rep c' kvs'" "cb_prevbin c' = cb_prevbin c" "cb_nextbin c' = cb_nextbin c"
  shows "chain_ok (l\<lparr>lb_heap := (lb_heap l)(a \<mapsto> c')\<rparr>) (xs @ (a, kvs') # ys)"
  using assms by (auto simp: chain_ok_def cchain_append)

text \<open>The pairs after an insertion.\<close>

definition pairs_ins :: "key_t \<Rightarrow> val_t \<Rightarrow> (key_t \<times> val_t) list \<Rightarrow> (key_t \<times> val_t) list \<Rightarrow> bool" where
  "pairs_ins key val kvs kvs' \<longleftrightarrow> (\<exists>A B. kvs = A @ B \<and> kvs' = A @ (key, val) # B
     \<and> (\<forall>k \<in> set (map fst A). k < key) \<and> (\<forall>k \<in> set (map fst B). key < k))"

lemma pairs_ins_map:
  assumes "pairs_ins key val kvs kvs'" and "ssorted (map fst kvs)"
  shows "ssorted (map fst kvs')" and "map_of kvs' = (map_of kvs)(key \<mapsto> val)" and "key \<notin> set (map fst kvs)"
proof -
  obtain A B where AB: "kvs = A @ B" "kvs' = A @ (key, val) # B" "\<forall>k \<in> set (map fst A). k < key" "\<forall>k \<in> set (map fst B). key < k"
    using assms(1) by (auto simp: pairs_ins_def)
  show "ssorted (map fst kvs')"
    using assms(2) AB(3,4) unfolding AB(1,2) by (auto simp: sorted_wrt_append)
  have no: "key \<notin> set (map fst A)" "key \<notin> set (map fst B)" using AB(3,4) order_less_irrefl by blast+
  then show "key \<notin> set (map fst kvs)" by (simp add: AB(1))
  have "map_of A key = None" using no(1) by (simp add: map_of_eq_None_iff)
  then show "map_of kvs' = (map_of kvs)(key \<mapsto> val)"
    unfolding AB(1,2) by (auto simp: map_add_def fun_eq_iff split: option.split) 
qed

lemma pairs_ins_child:
  assumes srt: "ssorted (map fst kvs)" and ar: "around key xs ys" and new: "key \<notin> set (map fst kvs)"
  defines "p \<equiv> lb (map fst kvs) key"
  shows "pairs_ins key val (lb_pairs (xs @ (a, kvs) # ys)) (lb_pairs (xs @ (a, take p kvs @ (key, val) # drop p kvs) # ys))"
proof -
  have "\<forall>k \<in> set (map fst (drop p kvs)). key < k"
  proof
    fix k assume k: "k \<in> set (map fst (drop p kvs))"
    then have "key \<le> k" using lb_split_pairs(3) [OF srt, of key] unfolding p_def by blast
    moreover have "k \<noteq> key" using k new by (auto dest: in_set_dropD)
    ultimately show "key < k" by (simp add: order_less_le)
  qed
  then have "\<forall>k \<in> set (map fst (drop p kvs @ lb_pairs ys)). key < k" using ar by (auto simp: around_def)
  moreover have "\<forall>k \<in> set (map fst (lb_pairs xs @ take p kvs)). k < key"
    using ar lb_split_pairs(2) [OF srt, of key] by (auto simp: around_def p_def)
  ultimately show ?thesis unfolding pairs_ins_def
    by (intro exI [of _ "lb_pairs xs @ take p kvs"] exI [of _ "drop p kvs @ lb_pairs ys"]) simp
qed

lemma lb_last_less:
  assumes "ssorted (map fst kvs)" and "kvs \<noteq> []" and "key \<notin> set (map fst kvs)" and "key \<le> fst (last kvs)"
  shows "lb (map fst kvs) key < length kvs"
proof (rule ccontr)
  assume "\<not> lb (map fst kvs) key < length kvs"
  then have "take (lb (map fst kvs) key) kvs = kvs" by simp
  then have "\<forall>k \<in> set (map fst kvs). k < key" using lb_split_pairs(2) [OF assms(1), of key] by simp
  moreover have "fst (last kvs) \<in> set (map fst kvs)" using assms(2) by simp
  ultimately show False using assms(4) by (metis leD)
qed

lemma last_insert_at: "p < length kvs \<Longrightarrow> last (take p kvs @ x # drop p kvs) = last kvs"
  by (simp add: last_append last_drop)

lemma mem_at_lb:
  fixes key :: key_t
  assumes "ssorted (map fst kvs)"
  shows "key \<in> set (map fst kvs) \<longleftrightarrow> lb (map fst kvs) key < length kvs \<and> fst (kvs ! lb (map fst kvs) key) = key"
proof -
  have "key \<in> set (map fst kvs) \<longleftrightarrow> map_of kvs key \<noteq> None" by (simp add: map_of_eq_None_iff)
  then show ?thesis unfolding map_of_at_lb [OF assms, of key] by simp
qed

lemma map_of_update_at:
  assumes "distinct (map fst kvs)" and "p < length kvs" and "fst (kvs ! p) = key"
  shows "map_of (kvs[p := (key, val)]) = (map_of kvs)(key \<mapsto> val)"
proof -
  have d: "kvs = take p kvs @ kvs ! p # drop (Suc p) kvs" by (rule id_take_nth_drop [OF assms(2)])
  have "distinct (map fst (take p kvs @ kvs ! p # drop (Suc p) kvs))" using assms(1) d by simp
  then have "key \<notin> set (map fst (take p kvs))" using assms(3) by auto
  then have no: "key \<notin> dom (map_of (take p kvs))" by (simp add: dom_map_of_conv_image_fst)
  have "map_of kvs = map_of (take p kvs @ kvs ! p # drop (Suc p) kvs)" using d by simp
  then show ?thesis using assms(2,3) no
    by (cases "kvs ! p") (simp add: upd_conv_take_nth_drop map_add_upd_left)
qed

section \<open>Update\<close>

lemma cb_rep_lock: "cb_rep c kvs \<Longrightarrow> cb_lock c = Inr (c\<lparr>cb_locked := True\<rparr>)"
  by (simp add: cb_rep_def cb_lock_def)

lemma cb_rep_commit: "cb_rep (cb_commit c) kvs \<longleftrightarrow> cb_arr c kvs"
  by (simp add: cb_rep_def cb_commit_def cb_unlock_def cb_arr_def)

lemma cb_commit_links [simp]: "cb_prevbin (cb_commit c) = cb_prevbin c" "cb_nextbin (cb_commit c) = cb_nextbin c"
    "cb_slotuse (cb_commit c) = cb_slotuse c" "cb_slotkey (cb_commit c) = cb_slotkey c" "cb_slotdata (cb_commit c) = cb_slotdata c"
  by (simp_all add: cb_commit_def cb_unlock_def)

lemma root_rep_child:
  assumes "root_rep r (xs @ (a, kvs) # ys)" and "kvs' \<noteq> []" and "ys \<noteq> [] \<longrightarrow> fst (last kvs') = fst (last kvs)"
  shows "root_rep r (xs @ (a, kvs') # ys)"
  using assms by (cases "ys = []") (auto simp: root_rep_def seps_append seps_Cons)

lemma lb_child_cases:
  assumes rep: "lb_rep l cs"
  obtains (none) "cs = []" "lb_child key l = Inr None"
  | (some) xs a kvs ys c where "cs = xs @ (a, kvs) # ys" "around key xs ys" "lb_child key l = Inr (Some (a, cb_version c))"
      "lb_heap l a = Some c" "cb_rep c kvs" "ssorted (map fst kvs)" "ys \<noteq> [] \<longrightarrow> key \<le> fst (last kvs)"
proof (cases rule: lb_cases [OF rep, where key = key])
  case 1
  then show ?thesis using that(1) by (simp add: lb_child_def)
next
  case (2 a kvs c)
  moreover have "ssorted (map fst kvs)" using rep 2(1) by (simp add: lb_rep_def)
  ultimately show ?thesis using that(2) [of "[]" a kvs "[]" c] by (simp add: lb_child_def cb_load_def around_def)
next
  case (3 r xs a kvs ys c)
  moreover have "ssorted (map fst kvs)" using rep 3(3) by (simp add: lb_rep_def sorted_wrt_append)
  moreover have "\<not> rb_locked r" using 3(2) by (simp add: root_rep_def)
  ultimately show ?thesis using that(2) [of xs a kvs ys c] by (simp add: lb_child_def cb_load_def)
qed

lemma lb_rep_change:
  assumes rep: "lb_rep l (xs @ (a, kvs) # ys)" and c: "lb_heap l a = Some c"
    and c': "cb_rep c' kvs'" "cb_prevbin c' = cb_prevbin c" "cb_nextbin c' = cb_nextbin c"
    and srt: "ssorted (lb_keys (xs @ (a, kvs') # ys))"
    and root: "lb_root l \<noteq> None \<longrightarrow> kvs' \<noteq> [] \<and> (ys \<noteq> [] \<longrightarrow> fst (last kvs') = fst (last kvs))"
  shows "lb_rep (l\<lparr>lb_heap := (lb_heap l)(a \<mapsto> c')\<rparr>) (xs @ (a, kvs') # ys)"
proof -
  let ?l = "l\<lparr>lb_heap := (lb_heap l)(a \<mapsto> c')\<rparr>" and ?cs = "xs @ (a, kvs') # ys"
  have "chain_ok l (xs @ (a, kvs) # ys)" using rep unfolding lb_rep_def by blast
  then have ch: "chain_ok ?l ?cs" by (rule chain_change [OF _ c c'])
  have "case lb_root l of None \<Rightarrow> length ?cs \<le> 1 | Some r \<Rightarrow> root_rep r ?cs"
  proof (cases "lb_root l")
    case None
    then show ?thesis using rep by (simp add: lb_rep_def)
  next
    case (Some r)
    then have "root_rep r (xs @ (a, kvs) # ys)" using rep by (simp add: lb_rep_def)
    then have "root_rep r ?cs" by (rule root_rep_child) (use root Some in auto)
    then show ?thesis using Some by simp
  qed
  then show ?thesis using ch srt unfolding lb_rep_def by simp
qed

lemma lb_update_spec:
  assumes rep: "lb_rep l cs" and nr: "\<not> lb_retraining l"
  obtains l' cs' where "lb_update key val l = Inr (if key \<in> set (lb_keys cs) then Res_ok else Res_failed, l')" "lb_rep l' cs'"
    "lb_keys cs' = lb_keys cs" "map_of (lb_pairs cs') = (if key \<in> set (lb_keys cs) then (map_of (lb_pairs cs))(key \<mapsto> val) else map_of (lb_pairs cs))"
    "\<not> lb_retraining l'"
proof (cases rule: lb_child_cases [OF rep, where key = key])
  case 1
  then show ?thesis using that [of l cs] nr rep by (simp add: lb_update_def)
next
  case (2 xs a kvs ys c)
  let ?p = "lb (map fst kvs) key"
  have arr: "cb_arr c kvs" "\<not> cb_locked c" using 2(5) by (auto simp: cb_rep_def)
  let ?lc = "c\<lparr>cb_locked := True\<rparr>"
  define l1 where "l1 = l\<lparr>lb_heap := (lb_heap l)(a \<mapsto> ?lc)\<rparr>"
  have l1: "update_lock_loop 1 a (cb_version c) key l = Inr (a, l1)" "lb_heap l1 a = Some ?lc"
    using lb_upd_heap [where f = cb_lock, OF 2(4) cb_rep_lock [OF 2(5)]] by (simp_all add: l1_def cb_load_def)
  have find: "cb_find ?lc key = Inr ?p" using cb_arr_find [OF arr(1) 2(6), of key] by simp
  have hit: "cb_hit ?lc key ?p \<longleftrightarrow> ?p < length kvs \<and> fst (kvs ! ?p) = key" using cb_arr_hit [OF arr(1)] by (simp add: cb_hit_def)
  have mem: "key \<in> set (lb_keys cs) \<longleftrightarrow> key \<in> set (map fst kvs)" using around_notin [OF 2(2)] 2(1) by auto
  have inkvs: "key \<in> set (map fst kvs) \<longleftrightarrow> ?p < length kvs \<and> fst (kvs ! ?p) = key"
    using mem_at_lb [OF 2(6)] .
  have upd: "lb_update key val l = (if cb_hit ?lc key ?p then
      bind_res (cb_upd a (\<lambda>c. bind_res (upd_res (cb_slotdata c) ?p val) (\<lambda>vs. Inr (cb_commit (c\<lparr>cb_slotdata := vs\<rparr>)))) l1) (\<lambda>l2. Inr (Res_ok, l2))
    else bind_res (cb_upd a (\<lambda>c. Inr (cb_unlock c)) l1) (\<lambda>l2. Inr (Res_failed, l2)))"
    using nr 2(3) l1 find by (simp add: lb_update_def cb_load_def del: update_lock_loop.simps)
  show ?thesis
  proof (cases "?p < length kvs \<and> fst (kvs ! ?p) = key")
    case True
    let ?kvs = "kvs[?p := (key, val)]" and ?c = "cb_commit (?lc\<lparr>cb_slotdata := (cb_slotdata c)[?p := val]\<rparr>)"
    have keys: "map fst ?kvs = map fst kvs" using True by (metis fst_conv list_update_id map_update nth_map)
    have crep: "cb_rep ?c ?kvs" using arr(1) keys unfolding cb_rep_commit by (auto simp: cb_arr_def map_update take_update_swap)
    have keys': "lb_keys (xs @ (a, ?kvs) # ys) = lb_keys cs" using keys 2(1) by simp
    have ne: "kvs \<noteq> []" "?kvs \<noteq> []" using True by auto
    have last: "fst (last ?kvs) = fst (last kvs)" using arg_cong [OF keys, of last] by (simp only: last_map ne not_False_eq_True)
    have srt: "ssorted (lb_keys (xs @ (a, ?kvs) # ys))" unfolding keys' using rep by (simp only: lb_rep_def)
    have rep': "lb_rep (l\<lparr>lb_heap := (lb_heap l)(a \<mapsto> ?c)\<rparr>) (xs @ (a, ?kvs) # ys)"
      by (rule lb_rep_change [OF rep [unfolded 2(1)] 2(4) crep _ _ srt]) (use last ne in \<open>simp_all only: cb_commit_links, simp_all\<close>)
    have "?p < length (cb_slotdata c)" using arr(1) True by (simp add: cb_arr_def)
    then have "lb_update key val l = Inr (Res_ok, l\<lparr>lb_heap := (lb_heap l)(a \<mapsto> ?c)\<rparr>)"
      using upd hit True lb_upd_heap [OF l1(2)] by (simp add: l1_def)
    moreover have "map_of (lb_pairs (xs @ (a, ?kvs) # ys)) = (map_of (lb_pairs cs))(key \<mapsto> val)"
      using map_of_update_at [OF ssorted_distinct [OF 2(6)], of ?p key val] True around_notin [OF 2(2)]
      by (simp add: 2(1) map_add_upd_left dom_map_of_conv_image_fst)
    ultimately show ?thesis using that [OF _ rep' keys'] nr mem inkvs True by simp
  next
    case False
    let ?c = "cb_unlock ?lc"
    have "cb_rep ?c kvs" using arr by (simp add: cb_rep_def cb_arr_def cb_unlock_def)
    then have crep: "cb_rep ?c kvs" .
    have rep': "lb_rep (l\<lparr>lb_heap := (lb_heap l)(a \<mapsto> ?c)\<rparr>) cs"
      unfolding 2(1) by (rule lb_rep_change [OF rep [unfolded 2(1)] 2(4) crep])
        (use rep 2(1) in \<open>simp_all add: cb_unlock_def lb_rep_def root_rep_def split: option.splits\<close>)
    have "lb_update key val l = Inr (Res_failed, l\<lparr>lb_heap := (lb_heap l)(a \<mapsto> ?c)\<rparr>)"
      using upd hit False lb_upd_heap [OF l1(2)] by (simp add: l1_def)
    then show ?thesis using that [OF _ rep'] nr mem inkvs False by simp
  qed
qed

section \<open>Insertion into a child\<close>

lemma insert_room:
  assumes ok: "chain_ok l (xs @ (b, kvs) # ys)" and len: "length kvs < childslotmax" and slot: "slot \<le> length kvs"
  obtains h c where "bind_res (cb_upd b cb_lock l) (\<lambda>l2.
      cb_upd b (\<lambda>c. bind_res (cb_insert_at slot key val c) (\<lambda>c. Inr (cb_commit c))) l2) = Inr (l\<lparr>lb_heap := h\<rparr>)"
    "chain_ok (l\<lparr>lb_heap := h\<rparr>) (xs @ (b, take slot kvs @ (key, val) # drop slot kvs) # ys)"
    "h b = Some c" "cb_slotuse c = Suc (length kvs)"
proof -
  obtain c where c: "lb_heap l b = Some c" "cb_rep c kvs" by (rule chain_at [OF ok])
  let ?lc = "c\<lparr>cb_locked := True\<rparr>" and ?kvs = "take slot kvs @ (key, val) # drop slot kvs"
  have "cb_arr ?lc kvs" using c(2) by (simp add: cb_rep_def cb_arr_def)
  then obtain ks vs where ins: "cb_insert_at slot key val ?lc = Inr (?lc\<lparr>cb_slotkey := ks, cb_slotdata := vs, cb_slotuse := Suc (length kvs)\<rparr>)"
      "cb_arr (?lc\<lparr>cb_slotkey := ks, cb_slotdata := vs, cb_slotuse := Suc (length kvs)\<rparr>) ?kvs"
    using slot len by (rule cb_insert_at_arr)
  define c' where "c' = cb_commit (?lc\<lparr>cb_slotkey := ks, cb_slotdata := vs, cb_slotuse := Suc (length kvs)\<rparr>)"
  have crep: "cb_rep c' ?kvs" unfolding c'_def cb_rep_commit by (rule ins(2))
  have links: "cb_prevbin c' = cb_prevbin c" "cb_nextbin c' = cb_nextbin c" "cb_slotuse c' = Suc (length kvs)" by (simp_all add: c'_def)
  define h where "h = (lb_heap l)(b \<mapsto> c')"
  have "cb_upd b cb_lock l = Inr (l\<lparr>lb_heap := (lb_heap l)(b \<mapsto> ?lc)\<rparr>)"
    using c(1) cb_rep_lock [OF c(2)] by (rule lb_upd_heap)
  moreover have "cb_upd b (\<lambda>c. bind_res (cb_insert_at slot key val c) (\<lambda>c. Inr (cb_commit c))) (l\<lparr>lb_heap := (lb_heap l)(b \<mapsto> ?lc)\<rparr>)
      = Inr (l\<lparr>lb_heap := h\<rparr>)"
    using ins(1) by (simp add: cb_upd_def cb_load_def h_def c'_def)
  moreover have "chain_ok (l\<lparr>lb_heap := h\<rparr>) (xs @ (b, ?kvs) # ys)"
    unfolding h_def by (rule chain_change [OF ok c(1) crep links(1,2)])
  ultimately show ?thesis using that [of h c'] links(3) by (simp add: h_def)
qed

lemma insert_child_hit:
  assumes "lb_heap l a = Some c" and "cb_rep c kvs" and "ssorted (map fst kvs)" and "key \<in> set (map fst kvs)"
  shows "insert_child_retrain a key val l = Inr (Res_failed, 0, 0, l)"
proof -
  have arr: "cb_arr c kvs" using assms(2) by (simp add: cb_rep_def)
  have "cb_hit c key (lb (map fst kvs) key)" using assms(4) unfolding cb_arr_hit [OF arr] mem_at_lb [OF assms(3)] .
  then show ?thesis using assms(1) cb_arr_find [OF arr assms(3), of key] by (simp add: insert_child_retrain_def cb_load_def)
qed

text \<open>The last steps of an insertion into a child, after the split of a full one.\<close>

lemma insert_child_miss:
  assumes "lb_heap l a = Some c" and "cb_rep c kvs" and "ssorted (map fst kvs)" and "key \<notin> set (map fst kvs)"
  defines "p \<equiv> lb (map fst kvs) key"
  shows "insert_child_retrain a key val l =
    bind_res (if length kvs = childslotmax then
                bind_res (split_child_bin_retrain a l) (\<lambda>(newkey, newchild, l1).
                bind_res (cb_load l1 a) (\<lambda>child.
                  Inr (if cb_slotuse child \<le> p then (newchild, p - cb_slotuse child, newkey, newchild, l1)
                       else (a, p, newkey, newchild, l1))))
              else Inr (a, p, 0, 0, l)) (\<lambda>(b, slot, newkey, newchild, l1).
    bind_res (bind_res (cb_upd b cb_lock l1) (\<lambda>l2.
      cb_upd b (\<lambda>c. bind_res (cb_insert_at slot key val c) (\<lambda>c. Inr (cb_commit c))) l2)) (\<lambda>l3.
    bind_res (cb_load l3 b) (\<lambda>child.
      Inr (Res_ok, if b \<noteq> newchild \<and> slot = cb_slotuse child - 1 then key else newkey, newchild, l3))))"
proof -
  have arr: "cb_arr c kvs" using assms(2) by (simp add: cb_rep_def)
  have hit: "\<not> cb_hit c key p" using assms(4) unfolding cb_arr_hit [OF arr] mem_at_lb [OF assms(3)] p_def .
  have "cb_slotuse c = length kvs" using arr by (simp add: cb_arr_def)
  then show ?thesis
    using assms(1) cb_arr_find [OF arr assms(3), of key] hit
    unfolding insert_child_retrain_def p_def [symmetric] by (simp only: cb_load_def option.case bind_res_simps if_False bind_res_assoc)
qed

lemma insert_child_room:
  assumes ok: "chain_ok l (xs @ (a, kvs) # ys)" and srt: "ssorted (map fst kvs)" and new: "key \<notin> set (map fst kvs)"
    and len: "length kvs < childslotmax"
  defines "p \<equiv> lb (map fst kvs) key"
  obtains h nk where "insert_child_retrain a key val l = Inr (Res_ok, nk, 0, l\<lparr>lb_heap := h\<rparr>)"
    "chain_ok (l\<lparr>lb_heap := h\<rparr>) (xs @ (a, take p kvs @ (key, val) # drop p kvs) # ys)"
proof -
  obtain c where c: "lb_heap l a = Some c" "cb_rep c kvs" by (rule chain_at [OF ok])
  have "p \<le> length kvs" using lb_split_pairs(1) [OF srt, of key] by (simp add: p_def)
  then obtain h c' where h: "bind_res (cb_upd a cb_lock l) (\<lambda>l2.
      cb_upd a (\<lambda>c. bind_res (cb_insert_at p key val c) (\<lambda>c. Inr (cb_commit c))) l2) = Inr (l\<lparr>lb_heap := h\<rparr>)"
    "chain_ok (l\<lparr>lb_heap := h\<rparr>) (xs @ (a, take p kvs @ (key, val) # drop p kvs) # ys)" "h a = Some c'"
    by (rule insert_room [OF ok len])
  show ?thesis
    using that [OF _ h(2)] len h(1,3) unfolding insert_child_miss [OF c srt new] p_def [symmetric]
    by (simp only: bind_res_simps if_False prod.case less_not_refl2 cb_load_def select_convs LevelBin.simps option.case) simp
qed

section \<open>The split of a child\<close>

text \<open>The two halves as bins.\<close>

definition lower_half :: "child_bin \<Rightarrow> addr \<Rightarrow> child_bin" where
  "lower_half c b = cb_commit (c\<lparr>cb_locked := True, cb_slotuse := 8, cb_nextbin := b\<rparr>)"

definition upper_half :: "child_bin \<Rightarrow> addr \<Rightarrow> child_bin" where
  "upper_half c a = cb_commit
     \<lparr>cb_slotuse = 8, cb_locked = True, cb_version = 0, cb_slotkey = take 8 (drop 8 (cb_slotkey c)) @ replicate 8 key_max,
      cb_slotdata = take 8 (drop 8 (cb_slotdata c)) @ replicate 8 0, cb_prevbin = a, cb_nextbin = cb_nextbin c\<rparr>"

lemma halves_rep:
  assumes "cb_rep c kvs" and "length kvs = childslotmax"
  shows "cb_rep (lower_half c b) (take 8 kvs)" and "cb_rep (upper_half c a) (drop 8 kvs)"
proof -
  have c: "cb_slotuse c = 16" "length (cb_slotkey c) = 16" "length (cb_slotdata c) = 16" "cb_slotkey c = map fst kvs" "cb_slotdata c = map snd kvs"
    "length kvs = 16"
    using assms by (auto simp: cb_rep_def cb_arr_def childslotmax_def)
  show "cb_rep (lower_half c b) (take 8 kvs)"
    using c unfolding lower_half_def cb_rep_commit by (simp add: cb_arr_def childslotmax_def take_map)
  show "cb_rep (upper_half c a) (drop 8 kvs)"
    using c unfolding upper_half_def cb_rep_commit by (simp add: cb_arr_def childslotmax_def drop_map)
qed

lemma half_links [simp]:
  "cb_prevbin (lower_half c b) = cb_prevbin c" "cb_nextbin (lower_half c b) = b" "cb_slotuse (lower_half c b) = 8"
  "cb_slotkey (lower_half c b) = cb_slotkey c"
  "cb_prevbin (upper_half c a) = a" "cb_nextbin (upper_half c a) = cb_nextbin c"
  by (simp_all add: lower_half_def upper_half_def)

lemma split_run:
  assumes c: "lb_heap l a = Some c" "cb_rep c kvs" "length kvs = childslotmax" and ab: "a < lb_brk l"
    and n: "cb_nextbin c = 0 \<and> a = lb_tailbin l \<and> h = lb_heap l \<and> t = lb_brk l
      \<or> cb_nextbin c \<noteq> 0 \<and> cb_nextbin c \<noteq> a \<and> cb_nextbin c < lb_brk l \<and> t = lb_tailbin l
        \<and> (\<exists>d. lb_heap l (cb_nextbin c) = Some d \<and> h = (lb_heap l)(cb_nextbin c \<mapsto> d\<lparr>cb_prevbin := lb_brk l\<rparr>))"
  shows "split_child_bin_retrain a l = Inr (fst (last (take 8 kvs)), lb_brk l,
    l\<lparr>lb_heap := h(lb_brk l \<mapsto> upper_half c a, a \<mapsto> lower_half c (lb_brk l)), lb_brk := Suc (lb_brk l), lb_tailbin := t\<rparr>)"
proof -
  let ?b = "lb_brk l"
  have arr: "cb_slotuse c = 16" "length (cb_slotkey c) = 16" "length (cb_slotdata c) = 16" "\<not> cb_locked c" "length kvs = 16"
    "cb_slotkey c = map fst kvs"
    using c(2,3) by (auto simp: cb_rep_def cb_arr_def childslotmax_def)
  have sep: "cb_slotkey c ! 7 = fst (last (take 8 kvs))" 
  proof -
    have "last (take 8 kvs) = take 8 kvs ! (length (take 8 kvs) - 1)" by (rule last_conv_nth) (use arr(5) in auto)
    then show ?thesis using arr(5,6) by simp
  qed
  have copy: "std_copy xs 8 16 (replicate 16 x) 0 = Inr (take 8 (drop 8 xs) @ replicate 8 x)" if "length xs = 16" for xs :: "64 word list" and x
    using that by (simp add: std_copy_def)
  note copy' = copy [OF arr(2)] copy [OF arr(3)]
  define u where "u = child_bin_new\<lparr>cb_slotuse := 8, cb_nextbin := cb_nextbin c\<rparr>"
  let ?l3 = "l\<lparr>lb_heap := h(?b \<mapsto> u), lb_brk := Suc ?b, lb_tailbin := t\<rparr>"
  have l3: "bind_res (cb_upd ?b (\<lambda>d. Inr (d\<lparr>cb_slotuse := 8, cb_nextbin := cb_nextbin c\<rparr>)) (snd (allocate_childbin l))) (\<lambda>l2.
      if cb_nextbin c = 0 then assert_res (a = lb_tailbin l2) (Inr (l2\<lparr>lb_tailbin := ?b\<rparr>))
      else cb_upd (cb_nextbin c) (\<lambda>d. Inr (d\<lparr>cb_prevbin := ?b\<rparr>)) l2) = Inr ?l3"
    using n by (auto simp: cb_upd_def cb_load_def allocate_childbin_def u_def fun_upd_twist)
  have ha: "h a = Some c" using n c(1) by auto
  have u: "cb_slotkey u = replicate 16 key_max" "cb_slotdata u = replicate 16 0" "\<not> cb_locked u" "cb_nextbin u = cb_nextbin c" "cb_slotuse u = 8" "cb_version u = 0"
    by (simp_all add: u_def child_bin_new_def childslotmax_def)
  have up: "cb_commit (u\<lparr>cb_locked := True, cb_slotkey := take 8 (drop 8 (cb_slotkey c)) @ replicate 8 key_max,
      cb_slotdata := take 8 (drop 8 (cb_slotdata c)) @ replicate 8 0, cb_prevbin := a\<rparr>) = upper_half c a"
    by (simp add: upper_half_def u_def child_bin_new_def)
  have lo: "cb_commit (c\<lparr>cb_locked := True, cb_slotuse := 8, cb_nextbin := ?b\<rparr>) = lower_half c ?b" by (simp add: lower_half_def)
  have "split_child_bin_retrain a l =
    bind_res (bind_res (cb_upd ?b (\<lambda>d. Inr (d\<lparr>cb_slotuse := 8, cb_nextbin := cb_nextbin c\<rparr>)) (snd (allocate_childbin l))) (\<lambda>l2.
      if cb_nextbin c = 0 then assert_res (a = lb_tailbin l2) (Inr (l2\<lparr>lb_tailbin := ?b\<rparr>))
      else cb_upd (cb_nextbin c) (\<lambda>d. Inr (d\<lparr>cb_prevbin := ?b\<rparr>)) l2)) (\<lambda>l3.
    bind_res (cb_upd ?b cb_lock l3) (\<lambda>l4.
    bind_res (cb_upd a cb_lock l4) (\<lambda>l5.
    bind_res (cb_upd ?b (\<lambda>d.
         bind_res (std_copy (cb_slotkey c) 8 16 (cb_slotkey d) 0) (\<lambda>ks.
         bind_res (std_copy (cb_slotdata c) 8 16 (cb_slotdata d) 0) (\<lambda>vs.
           Inr (cb_commit (d\<lparr>cb_slotkey := ks, cb_slotdata := vs, cb_prevbin := a\<rparr>))))) l5) (\<lambda>l6.
    bind_res (cb_upd a (\<lambda>d. Inr (cb_commit (d\<lparr>cb_slotuse := 8, cb_nextbin := ?b\<rparr>))) l6) (\<lambda>l7.
    bind_res (cb_load l7 a) (\<lambda>d.
    bind_res (nth_int (cb_slotkey d) (int (cb_slotuse d) - 1)) (\<lambda>newkey. Inr (newkey, ?b, l7))))))))"
    using c(1) arr(1) unfolding split_child_bin_retrain_def cb_load_def [of l a]
    by (simp add: childslotmax_def allocate_childbin_def bind_res_assoc)
  also have "\<dots> = Inr (fst (last (take 8 kvs)), ?b, l\<lparr>lb_heap := h(?b \<mapsto> upper_half c a, a \<mapsto> lower_half c ?b), lb_brk := Suc ?b, lb_tailbin := t\<rparr>)"
    unfolding l3 bind_res_simps using ab ha u(1-3) arr copy' up lo sep by (simp add: cb_upd_def cb_load_def cb_lock_def)
  finally show ?thesis .
qed

lemma split_chain:
  assumes ok: "chain_ok l (xs @ (a, kvs) # ys)" and len: "length kvs = childslotmax"
  obtains h t c where "split_child_bin_retrain a l = Inr (fst (last (take 8 kvs)), lb_brk l,
      l\<lparr>lb_heap := h, lb_brk := Suc (lb_brk l), lb_tailbin := t\<rparr>)"
    "chain_ok (l\<lparr>lb_heap := h, lb_brk := Suc (lb_brk l), lb_tailbin := t\<rparr>) (xs @ (a, take 8 kvs) # (lb_brk l, drop 8 kvs) # ys)"
    "h a = Some c" "cb_slotuse c = 8"
proof -
  obtain c where c: "lb_heap l a = Some c" "cb_rep c kvs" "cb_prevbin c = last_addr xs 0" "cb_nextbin c = first_addr ys 0"
    "a \<noteq> 0" "a < lb_brk l" "a \<notin> fst ` set xs" "a \<notin> fst ` set ys"
    by (rule chain_at [OF ok])
  note half = halves_rep(1) [OF c(2) len, of "lb_brk l"] halves_rep(2) [OF c(2) len, of a]
  have brk: "lb_brk l \<notin> fst ` set xs" "lb_brk l \<notin> fst ` set ys" "lb_brk l \<noteq> 0" using ok by (auto simp: chain_ok_def)
  have ch: "cchain (lb_heap l) 0 xs a" "cchain (lb_heap l) a ys 0" using ok by (auto simp: chain_ok_def cchain_append)
  have d: "distinct (map fst xs)" "distinct (map fst ys)" "fst ` set xs \<inter> fst ` set ys = {}" "\<forall>x \<in> fst ` set xs \<union> fst ` set ys. x < lb_brk l"
    "lb_headbin l = first_addr xs a" "lb_tailbin l = last_addr ys a"
    using ok by (auto simp: chain_ok_def)
  show ?thesis
  proof (cases ys)
    case Nil
    define h where "h = (lb_heap l)(lb_brk l \<mapsto> upper_half c a, a \<mapsto> lower_half c (lb_brk l))"
    have run: "split_child_bin_retrain a l = Inr (fst (last (take 8 kvs)), lb_brk l,
        l\<lparr>lb_heap := h, lb_brk := Suc (lb_brk l), lb_tailbin := lb_brk l\<rparr>)"
      unfolding h_def by (rule split_run [OF c(1,2) len c(6)]) (use c(4) d(6) Nil in simp)
    have "cchain h 0 (xs @ [(a, take 8 kvs), (lb_brk l, drop 8 kvs)]) 0"
      using ch(1) c(3-8) brk half Nil by (simp add: cchain_append h_def)
    then have "chain_ok (l\<lparr>lb_heap := h, lb_brk := Suc (lb_brk l), lb_tailbin := lb_brk l\<rparr>) (xs @ (a, take 8 kvs) # (lb_brk l, drop 8 kvs) # ys)"
      using d c(5-8) brk Nil by (auto simp: chain_ok_def less_SucI)
    then show ?thesis using that [OF run] by (simp add: h_def)
  next
    case (Cons y ys')
    obtain n kn where y: "y = (n, kn)" by (cases y)
    obtain dn where dn: "lb_heap l n = Some dn" "cb_rep dn kn" "cb_prevbin dn = a" "cb_nextbin dn = first_addr ys' 0" "n \<noteq> 0"
      using ch(2) Cons y by auto
    have n: "n \<noteq> a" "n < lb_brk l" "n \<notin> fst ` set xs" "n \<notin> fst ` set ys'" "n \<noteq> lb_brk l"
      using c(8) d(2,3,4) Cons y by auto
    define h where "h = ((lb_heap l)(n \<mapsto> dn\<lparr>cb_prevbin := lb_brk l\<rparr>))(lb_brk l \<mapsto> upper_half c a, a \<mapsto> lower_half c (lb_brk l))"
    have run: "split_child_bin_retrain a l = Inr (fst (last (take 8 kvs)), lb_brk l,
        l\<lparr>lb_heap := h, lb_brk := Suc (lb_brk l), lb_tailbin := lb_tailbin l\<rparr>)"
      unfolding h_def by (rule split_run [OF c(1,2) len c(6)]) (use c(4) dn n Cons y in simp)
    have "cb_rep (dn\<lparr>cb_prevbin := lb_brk l\<rparr>) kn" using dn(2) by (simp add: cb_rep_def cb_arr_def)
    then have "cchain h 0 (xs @ (a, take 8 kvs) # (lb_brk l, drop 8 kvs) # ys) 0"
      using ch c(3-8) brk half Cons y dn n by (simp add: cchain_append h_def)
    then have "chain_ok (l\<lparr>lb_heap := h, lb_brk := Suc (lb_brk l), lb_tailbin := lb_tailbin l\<rparr>) (xs @ (a, take 8 kvs) # (lb_brk l, drop 8 kvs) # ys)"
      using d c(5-8) brk Cons y by (auto simp: chain_ok_def less_SucI)
    then show ?thesis using that [OF run] by (simp add: h_def)
  qed
qed

lemma insert_child_full:
  assumes ok: "chain_ok l (xs @ (a, kvs) # ys)" and srt: "ssorted (map fst kvs)" and new: "key \<notin> set (map fst kvs)"
    and len: "length kvs = childslotmax"
  defines "p \<equiv> lb (map fst kvs) key"
  obtains h t b k1 k2 where
    "insert_child_retrain a key val l = Inr (Res_ok, fst (last k1), b, l\<lparr>lb_heap := h, lb_brk := Suc (lb_brk l), lb_tailbin := t\<rparr>)" "b \<noteq> 0"
    "chain_ok (l\<lparr>lb_heap := h, lb_brk := Suc (lb_brk l), lb_tailbin := t\<rparr>) (xs @ (a, k1) # (b, k2) # ys)"
    "k1 \<noteq> []" "k2 \<noteq> []" "k1 @ k2 = take p kvs @ (key, val) # drop p kvs"
proof -
  let ?b = "lb_brk l"
  obtain c where c: "lb_heap l a = Some c" "cb_rep c kvs" by (rule chain_at [OF ok])
  obtain h t d where s: "split_child_bin_retrain a l = Inr (fst (last (take 8 kvs)), ?b, l\<lparr>lb_heap := h, lb_brk := Suc ?b, lb_tailbin := t\<rparr>)"
    "chain_ok (l\<lparr>lb_heap := h, lb_brk := Suc ?b, lb_tailbin := t\<rparr>) (xs @ (a, take 8 kvs) # (?b, drop 8 kvs) # ys)"
    "h a = Some d" "cb_slotuse d = 8"
    by (rule split_chain [OF ok len])
  let ?l1 = "l\<lparr>lb_heap := h, lb_brk := Suc ?b, lb_tailbin := t\<rparr>"
  have swap: "?l1\<lparr>lb_heap := h'\<rparr> = l\<lparr>lb_heap := h', lb_brk := Suc ?b, lb_tailbin := t\<rparr>" for h' by simp
  have ple: "p \<le> length kvs" using lb_split_pairs(1) [OF srt, of key] by (simp add: p_def)
  have l16: "length kvs = 16" using len by (simp add: childslotmax_def)
  have ab: "a \<noteq> ?b" "?b \<noteq> 0" using chain_at [OF ok] ok by (auto simp: chain_ok_def)
  note run = insert_child_miss [OF c srt new, of val, folded p_def]
  show ?thesis
  proof (cases "8 \<le> p")
    case True
    have ok1: "chain_ok ?l1 ((xs @ [(a, take 8 kvs)]) @ (?b, drop 8 kvs) # ys)" using s(2) by simp
    have l8: "length (drop 8 kvs) < childslotmax" "p - 8 \<le> length (drop 8 kvs)" using l16 ple by (auto simp: childslotmax_def)
    obtain h' c' where i: "bind_res (cb_upd ?b cb_lock ?l1) (\<lambda>l2.
        cb_upd ?b (\<lambda>c. bind_res (cb_insert_at (p - 8) key val c) (\<lambda>c. Inr (cb_commit c))) l2) = Inr (?l1\<lparr>lb_heap := h'\<rparr>)"
      "chain_ok (?l1\<lparr>lb_heap := h'\<rparr>) ((xs @ [(a, take 8 kvs)]) @ (?b, take (p - 8) (drop 8 kvs) @ (key, val) # drop (p - 8) (drop 8 kvs)) # ys)"
      "h' ?b = Some c'"
      by (rule insert_room [OF ok1 l8])
    note i = i [unfolded swap]
    have "insert_child_retrain a key val l = Inr (Res_ok, fst (last (take 8 kvs)), ?b, l\<lparr>lb_heap := h', lb_brk := Suc ?b, lb_tailbin := t\<rparr>)"
      unfolding run using len s(1,3,4) True i(1,3) by (simp add: cb_load_def)
    moreover have "take 8 kvs @ take (p - 8) (drop 8 kvs) @ (key, val) # drop (p - 8) (drop 8 kvs) = take p kvs @ (key, val) # drop p kvs"
      using True take_add [of 8 "p - 8" kvs] by simp
    moreover have "take 8 kvs \<noteq> []" using l16 by auto
    ultimately show ?thesis using that [of "take 8 kvs" ?b t h' "take (p - 8) (drop 8 kvs) @ (key, val) # drop (p - 8) (drop 8 kvs)"] i(2) ab(2) by simp
  next
    case False
    have l8: "length (take 8 kvs) < childslotmax" "p \<le> length (take 8 kvs)" using l16 False by (auto simp: childslotmax_def)
    obtain h' c' where i: "bind_res (cb_upd a cb_lock ?l1) (\<lambda>l2.
        cb_upd a (\<lambda>c. bind_res (cb_insert_at p key val c) (\<lambda>c. Inr (cb_commit c))) l2) = Inr (?l1\<lparr>lb_heap := h'\<rparr>)"
      "chain_ok (?l1\<lparr>lb_heap := h'\<rparr>) (xs @ (a, take p (take 8 kvs) @ (key, val) # drop p (take 8 kvs)) # (?b, drop 8 kvs) # ys)"
      "h' a = Some c'" "cb_slotuse c' = Suc (length (take 8 kvs))"
      by (rule insert_room [OF s(2) l8])
    let ?k1 = "take p (take 8 kvs) @ (key, val) # drop p (take 8 kvs)"
    have last: "last ?k1 = last (take 8 kvs)" using l16 False by (intro last_insert_at) simp
    note i = i [unfolded swap]
    have "insert_child_retrain a key val l = Inr (Res_ok, fst (last ?k1), ?b, l\<lparr>lb_heap := h', lb_brk := Suc ?b, lb_tailbin := t\<rparr>)"
      unfolding run last using len s(1,3,4) False i(1,3,4) ab(1) l16 by (simp add: cb_load_def del: take_take)
    moreover have "?k1 @ drop 8 kvs = take p kvs @ (key, val) # drop p kvs"
    proof -
      have "drop p kvs = drop p (take 8 kvs) @ drop 8 kvs"
        using False l16 drop_append [of p "take 8 kvs" "drop 8 kvs"] by simp
      then show ?thesis using False by (simp add: min_def)
    qed
    moreover have "drop 8 kvs \<noteq> []" using l16 by auto
    ultimately show ?thesis using that [of ?k1 ?b t h' "drop 8 kvs"] i(2) ab(2) by (simp del: take_take)
  qed
qed

section \<open>The root after a split and after a move\<close>

lemma copy_up_upd_next:
  assumes "slot < n" and "n < length arr"
  defines "a \<equiv> take (slot + 1) arr @ take (n - slot) (drop slot arr) @ drop (n + 1) arr"
  shows "take (Suc n) (a[slot + 1 := x]) = take (slot + 1) (take n arr) @ x # drop (slot + 1) (take n arr)"
proof -
  have "take (n - slot) (drop slot arr) = arr ! slot # take (n - (slot + 1)) (drop (slot + 1) arr)"
    using assms(1,2) by (metis Cons_nth_drop_Suc Suc_diff_Suc Suc_eq_plus1 order_less_trans take_Suc_Cons)
  then have "a = take (slot + 1) arr @ arr ! slot # take (n - (slot + 1)) (drop (slot + 1) arr) @ drop (n + 1) arr" by (simp add: a_def)
  moreover have "length (take (slot + 1) arr) = slot + 1" using assms(1,2) by simp
  ultimately have "a[slot + 1 := x] = (take (slot + 1) arr @ x # take (n - (slot + 1)) (drop (slot + 1) arr)) @ drop (n + 1) arr"
    by (simp add: list_update_append)
  moreover have "length (take (slot + 1) arr @ x # take (n - (slot + 1)) (drop (slot + 1) arr)) = Suc n" using assms(1,2) by simp
  ultimately have "take (Suc n) (a[slot + 1 := x]) = take (slot + 1) arr @ x # take (n - (slot + 1)) (drop (slot + 1) arr)"
    by (metis append_eq_conv_conj)
  then show ?thesis using assms(1) by (simp add: min_def drop_take)
qed

lemma root_insert:
  assumes r: "root_rep r (xs @ (a, kvs) # ys)" and room: "rb_slotuse r < rootslotmax"
    and k: "k1 \<noteq> []" "k2 \<noteq> []" "ys \<noteq> [] \<longrightarrow> fst (last k2) = fst (last kvs)"
  obtains r' where "rb_insert_at (length xs) (fst (last k1)) b (r\<lparr>rb_locked := True\<rparr>) = Inr r'"
    "root_rep (rb_commit r') (xs @ (a, k1) # (b, k2) # ys)"
proof -
  let ?n = "rb_slotuse r" and ?s = "length xs" and ?nk = "fst (last k1)"
  have d: "?n = length xs + length ys" "length (rb_slotkey r) = 8" "length (rb_children r) = 9" "?n < 8"
    "take ?n (rb_slotkey r) = seps (xs @ (a, kvs) # ys)" "take (?n + 1) (rb_children r) = map fst (xs @ (a, kvs) # ys)"
    "\<forall>c \<in> set xs. snd c \<noteq> []" "\<forall>c \<in> set ys. snd c \<noteq> []"
    using r room by (auto simp: root_rep_def rootslotmax_def)
  define ks where "ks = take (?s + 1) (rb_slotkey r) @ take (?n - ?s) (drop ?s (rb_slotkey r)) @ drop (?n + 1) (rb_slotkey r)"
  define ch where "ch = take (?s + 1) (rb_children r) @ take (?n + 1 - ?s) (drop ?s (rb_children r)) @ drop (?n + 1 + 1) (rb_children r)"
  have le: "?s \<le> ?n" "?n < length (rb_slotkey r)" "?s < ?n + 1" "?n + 1 < length (rb_children r)" using d by auto
  note up1 = copy_up [OF le(1,2), folded ks_def] copy_up_upd(1) [OF le(1,2), folded ks_def] copy_up_upd(2) [OF le(1,2), folded ks_def, of ?nk]
  note up2 = copy_up [OF less_imp_le [OF le(3)] le(4), folded ch_def] copy_up_upd(1) [OF less_imp_le [OF le(3)] le(4), folded ch_def]
    copy_up_upd_next [OF le(3,4), folded ch_def, of b]
  define r' where "r' = r\<lparr>rb_locked := True, rb_slotkey := ks[?s := ?nk], rb_children := ch[?s + 1 := b], rb_slotuse := ?n + 1\<rparr>"
  have "?s < length ks" "?s + 1 < length ch" using up1(2) up2(2) d(1-4) by auto
  then have "rb_insert_at ?s ?nk b (r\<lparr>rb_locked := True\<rparr>) = Inr r'"
    using up1(1) up2(1) by (simp add: rb_insert_at_def r'_def)
  moreover have "root_rep (rb_commit r') (xs @ (a, k1) # (b, k2) # ys)"
  proof -
    have "take ?s (seps (xs @ (a, kvs) # ys)) = map (\<lambda>c. fst (last (snd c))) xs" by (simp add: seps_append)
    moreover have "drop ?s (seps (xs @ (a, kvs) # ys)) = seps ((b, k2) # ys)" using k(3) by (simp add: seps_append seps_Cons)
    ultimately have "take (Suc ?n) (ks[?s := ?nk]) = seps (xs @ (a, k1) # (b, k2) # ys)"
      using up1(3) d(5) by (simp add: seps_append seps_Cons)
    moreover have "take (Suc (?n + 1)) (ch[?s + 1 := b]) = map fst (xs @ (a, k1) # (b, k2) # ys)"
      unfolding up2(3) d(6) by simp
    ultimately show ?thesis using d up1(2) up2(2) k(1,2) by (simp add: root_rep_def rb_commit_def r'_def rootslotmax_def ball_Un)
  qed
  ultimately show ?thesis by (rule that)
qed

lemma root_move:
  assumes r: "root_rep r (xs @ (p, kp) # (a, kvs) # ys)"
    and k: "kp' \<noteq> []" "kvs' \<noteq> []" "ys \<noteq> [] \<longrightarrow> fst (last kvs') = fst (last kvs)"
  shows "length xs < length (rb_slotkey r)"
    and "root_rep (rb_commit (r\<lparr>rb_locked := True, rb_slotkey := (rb_slotkey r)[length xs := fst (last kp')]\<rparr>)) (xs @ (p, kp') # (a, kvs') # ys)"
proof -
  have d: "Suc (rb_slotuse r) = length xs + length ys + 2" "length (rb_slotkey r) = rootslotmax" "rb_slotuse r \<le> rootslotmax"
    "take (rb_slotuse r) (rb_slotkey r) = seps (xs @ (p, kp) # (a, kvs) # ys)"
    using r by (auto simp: root_rep_def)
  show "length xs < length (rb_slotkey r)" using d by linarith
  have "take (rb_slotuse r) ((rb_slotkey r)[length xs := fst (last kp')]) = (seps (xs @ (p, kp) # (a, kvs) # ys))[length xs := fst (last kp')]"
    by (simp add: take_update_swap d(4))
  also have "\<dots> = seps (xs @ (p, kp') # (a, kvs') # ys)"
    using k(3) by (simp add: seps_append seps_Cons list_update_append)
  finally show "root_rep (rb_commit (r\<lparr>rb_locked := True, rb_slotkey := (rb_slotkey r)[length xs := fst (last kp')]\<rparr>)) (xs @ (p, kp') # (a, kvs') # ys)"
    using r k(1,2) by (simp add: root_rep_def rb_commit_def)
qed

section \<open>Insertion into the left neighbour\<close>

lemma cb_push_arr:
  assumes "cb_arr c kvs" and "length kvs < childslotmax"
  shows "length kvs < length (cb_slotkey c)" "length kvs < length (cb_slotdata c)"
    and "cb_arr (c\<lparr>cb_slotkey := (cb_slotkey c)[length kvs := k], cb_slotdata := (cb_slotdata c)[length kvs := v], cb_slotuse := Suc (length kvs)\<rparr>)
      (kvs @ [(k, v)])"
  using assms by (auto simp: cb_arr_def take_Suc_conv_app_nth)

lemma cb_shift_arr:
  assumes "cb_arr c kvs" and "length kvs = childslotmax" and "0 < q" "q \<le> length kvs"
  obtains ks vs where "std_copy (cb_slotkey c) 1 q (cb_slotkey c) 0 = Inr ks" "std_copy (cb_slotdata c) 1 q (cb_slotdata c) 0 = Inr vs"
    "q - 1 < length ks" "q - 1 < length vs"
    "cb_arr (c\<lparr>cb_slotkey := ks[q - 1 := key], cb_slotdata := vs[q - 1 := val]\<rparr>) (take (q - 1) (drop 1 kvs) @ (key, val) # drop q kvs)"
proof -
  have c: "cb_slotkey c = map fst kvs" "cb_slotdata c = map snd kvs" "cb_slotuse c = length kvs" using assms(1,2) by (auto simp: cb_arr_def)
  have shift: "std_copy xs 1 q xs 0 = Inr (take (q - 1) (drop 1 xs) @ drop (q - 1) xs)"
    "(take (q - 1) (drop 1 xs) @ drop (q - 1) xs)[q - 1 := x] = take (q - 1) (drop 1 xs) @ x # drop q xs"
    "q - 1 < length (take (q - 1) (drop 1 xs) @ drop (q - 1) xs)"
    if "length xs = length kvs" for xs :: "64 word list" and x
  proof -
    show "std_copy xs 1 q xs 0 = Inr (take (q - 1) (drop 1 xs) @ drop (q - 1) xs)" using that assms(3,4) by (simp add: std_copy_def)
    have "length (take (q - 1) (drop 1 xs)) = q - 1" using that assms(3,4) by auto
    moreover have "drop (q - 1) xs = xs ! (q - 1) # drop q xs" using that assms(3,4) Cons_nth_drop_Suc [of "q - 1" xs] by simp
    ultimately show "(take (q - 1) (drop 1 xs) @ drop (q - 1) xs)[q - 1 := x] = take (q - 1) (drop 1 xs) @ x # drop q xs"
      by (simp add: list_update_append)
    show "q - 1 < length (take (q - 1) (drop 1 xs) @ drop (q - 1) xs)" using that assms(3,4) by auto
  qed
  have len: "length (take (q - 1) (drop 1 kvs) @ (key, val) # drop q kvs) = length kvs" using assms(3,4) by auto
  have lc: "length (cb_slotkey c) = length kvs" "length (cb_slotdata c) = length kvs" using c by simp_all
  note e = shift(2) [OF lc(1), of key] shift(2) [OF lc(2), of val]
  show ?thesis
  proof (rule that [OF shift(1) shift(1) shift(3) shift(3)])
    show "cb_arr (c\<lparr>cb_slotkey := (take (q - 1) (drop 1 (cb_slotkey c)) @ drop (q - 1) (cb_slotkey c))[q - 1 := key],
        cb_slotdata := (take (q - 1) (drop 1 (cb_slotdata c)) @ drop (q - 1) (cb_slotdata c))[q - 1 := val]\<rparr>)
      (take (q - 1) (drop 1 kvs) @ (key, val) # drop q kvs)"
      unfolding e cb_arr_def len using c assms(2-4) by (simp add: take_map drop_map)
  qed (simp_all add: c)
qed

text \<open>The left neighbour with one more pair at its end.\<close>

definition pushed :: "key_t \<Rightarrow> val_t \<Rightarrow> child_bin \<Rightarrow> child_bin" where
  "pushed k v c = cb_commit (c\<lparr>cb_locked := True, cb_slotkey := (cb_slotkey c)[cb_slotuse c := k],
     cb_slotdata := (cb_slotdata c)[cb_slotuse c := v], cb_slotuse := cb_slotuse c + 1\<rparr>)"

lemma pushed_rep:
  assumes "cb_rep c kvs" and "length kvs < childslotmax"
  shows "cb_rep (pushed k v c) (kvs @ [(k, v)])" and "cb_slotuse c < length (cb_slotkey c)" "cb_slotuse c < length (cb_slotdata c)"
    and "cb_prevbin (pushed k v c) = cb_prevbin c" "cb_nextbin (pushed k v c) = cb_nextbin c"
proof -
  have arr: "cb_arr (c\<lparr>cb_locked := True\<rparr>) kvs" "cb_slotuse c = length kvs" using assms(1) by (auto simp: cb_rep_def cb_arr_def)
  show "cb_rep (pushed k v c) (kvs @ [(k, v)])" using cb_push_arr(3) [OF arr(1) assms(2), where k = k and v = v] arr(2) by (simp add: pushed_def cb_rep_commit)
  show "cb_slotuse c < length (cb_slotkey c)" "cb_slotuse c < length (cb_slotdata c)" using cb_push_arr(1,2) [OF arr(1) assms(2)] arr(2) by simp_all
qed (simp_all add: pushed_def)

lemma chain_move:
  assumes ok: "chain_ok l (xs @ (p, kp) # (a, kvs) # ys)" and c: "lb_heap l p = Some cp" "lb_heap l a = Some ca"
    and cp': "cb_rep cp' kp'" "cb_prevbin cp' = cb_prevbin cp" "cb_nextbin cp' = cb_nextbin cp"
    and ca': "cb_rep ca' kvs'" "cb_prevbin ca' = cb_prevbin ca" "cb_nextbin ca' = cb_nextbin ca"
  shows "chain_ok (l\<lparr>lb_root := rt, lb_heap := (lb_heap l)(p \<mapsto> cp', a \<mapsto> ca')\<rparr>) (xs @ (p, kp') # (a, kvs') # ys)"
  using assms by (auto simp: chain_ok_def cchain_append)

lemma ssorted_hd_least: "ssorted (map fst kvs) \<Longrightarrow> kvs \<noteq> [] \<Longrightarrow> k \<in> set (map fst kvs) \<Longrightarrow> fst (kvs ! 0) \<le> k" for k :: key_t
  by (cases kvs) (auto simp: order_less_imp_le)

lemma insert_prev:
  assumes rep: "lb_rep l (xs @ (p, kp) # (a, kvs) # ys)" and root: "lb_root l = Some r"
    and ar: "around key (xs @ [(p, kp)]) ys" and last: "ys \<noteq> [] \<longrightarrow> key \<le> fst (last kvs)"
    and len: "length kvs = childslotmax" "length kp < rootslotmax"
  shows "key \<in> set (map fst kvs) \<Longrightarrow> insert_prev_retrain p a (length xs + 1) key val l = Inr (Res_failed, l)"
    and "key \<notin> set (map fst kvs) \<Longrightarrow> \<exists>l' cs'. insert_prev_retrain p a (length xs + 1) key val l = Inr (Res_ok, l') \<and> lb_rep l' cs'
      \<and> pairs_ins key val (lb_pairs (xs @ (p, kp) # (a, kvs) # ys)) (lb_pairs cs') \<and> lb_retraining l' = lb_retraining l"
proof -
  have ok: "chain_ok l (xs @ (p, kp) # (a, kvs) # ys)" and srt: "ssorted (lb_keys (xs @ (p, kp) # (a, kvs) # ys))"
    and rr: "root_rep r (xs @ (p, kp) # (a, kvs) # ys)"
    using rep root unfolding lb_rep_def by auto
  obtain cp where cp: "lb_heap l p = Some cp" "cb_rep cp kp" by (rule chain_at [OF ok])
  have ok': "chain_ok l ((xs @ [(p, kp)]) @ (a, kvs) # ys)" using ok by simp
  obtain ca where ca: "lb_heap l a = Some ca" "cb_rep ca kvs" by (rule chain_at [OF ok'])
  have pa: "p \<noteq> a" using ok by (auto simp: chain_ok_def)
  have sk: "ssorted (map fst kvs)" using srt by (simp add: sorted_wrt_append)
  have l16: "0 < length kvs" "length kp < childslotmax" using len by (auto simp: childslotmax_def rootslotmax_def)
  have arr: "cb_arr ca kvs" "\<not> cb_locked ca" "\<not> cb_locked cp" using ca(2) cp(2) by (auto simp: cb_rep_def)
  note c0 = cb_arr_nth [OF arr(1) l16(1)]
  define q where "q = lb (map fst kvs) key"
  have find: "cb_find ca key = Inr q" unfolding q_def by (rule cb_arr_find [OF arr(1) sk])
  have hit: "cb_hit ca key q \<longleftrightarrow> key \<in> set (map fst kvs)" unfolding cb_arr_hit [OF arr(1)] mem_at_lb [OF sk] q_def ..
  have loads: "cb_load l a = Inr ca" "nth_res (cb_slotkey ca) 0 = Inr (fst (kvs ! 0))" "nth_res (cb_slotdata ca) 0 = Inr (snd (kvs ! 0))"
    using ca(1) c0 by (auto simp: cb_load_def)
  have least: "fst (kvs ! 0) \<in> set (map fst kvs)" using l16(1) by (metis length_map nth_map nth_mem)
  show "insert_prev_retrain p a (length xs + 1) key val l = Inr (Res_failed, l)" if "key \<in> set (map fst kvs)"
  proof -
    have "\<not> key < fst (kvs ! 0)" using ssorted_hd_least [OF sk _ that] l16(1) by (auto simp: not_less)
    then show ?thesis using loads find hit that by (simp add: insert_prev_retrain_def Let_def)
  qed
  assume new: "key \<notin> set (map fst kvs)"
  have ne: "fst (kvs ! 0) \<noteq> key" using least new by metis
  let ?rl = "r\<lparr>rb_locked := True\<rparr>"
  have lock: "root_upd rb_lock l = Inr (l\<lparr>lb_root := Some ?rl\<rparr>)" using root rr by (simp add: root_upd_def rb_lock_def root_rep_def)
  show "\<exists>l' cs'. insert_prev_retrain p a (length xs + 1) key val l = Inr (Res_ok, l') \<and> lb_rep l' cs'
      \<and> pairs_ins key val (lb_pairs (xs @ (p, kp) # (a, kvs) # ys)) (lb_pairs cs') \<and> lb_retraining l' = lb_retraining l"
  proof (cases "key < fst (kvs ! 0)")
    case True
    let ?cs = "xs @ (p, kp @ [(key, val)]) # (a, kvs) # ys"
    note pu = pushed_rep(1) [OF cp(2) l16(2), of key val] pushed_rep(2,3) [OF cp(2) l16(2)] pushed_rep(4,5) [OF cp(2) l16(2), of key val]
    note mv = root_move [OF rr, of "kp @ [(key, val)]" kvs]
    let ?r = "rb_commit (r\<lparr>rb_locked := True, rb_slotkey := (rb_slotkey r)[length xs := key]\<rparr>)"
    define l' where "l' = l\<lparr>lb_root := Some ?r, lb_heap := (lb_heap l)(p \<mapsto> pushed key val cp)\<rparr>"
    have slot: "length xs < length (rb_slotkey r)" using mv(1) l16(1) by auto
    have run: "insert_prev_retrain p a (length xs + 1) key val l = Inr (Res_ok, l')"
      using True loads lock cp(1) arr(3) pu(2,3) slot
      by (simp add: insert_prev_retrain_def Let_def cb_upd_def cb_load_def cb_lock_def root_upd_def l'_def pushed_def)
    have "chain_ok (l\<lparr>lb_root := Some ?r, lb_heap := (lb_heap l)(p \<mapsto> pushed key val cp, a \<mapsto> ca)\<rparr>) ?cs"
      by (rule chain_move [OF ok cp(1) ca(1) pu(1,4,5) ca(2) refl refl])
    moreover have "(lb_heap l)(p \<mapsto> pushed key val cp, a \<mapsto> ca) = (lb_heap l)(p \<mapsto> pushed key val cp)" using ca(1) pa by (auto simp: fun_eq_iff)
    ultimately have ch: "chain_ok l' ?cs" by (simp add: l'_def)
    have "\<forall>k \<in> set (map fst (kvs @ lb_pairs ys)). key < k"
    proof
      fix k assume "k \<in> set (map fst (kvs @ lb_pairs ys))"
      then consider "k \<in> set (map fst kvs)" | "k \<in> set (lb_keys ys)" by auto
      then show "key < k"
      proof cases
        case 1
        then have "fst (kvs ! 0) \<le> k" using ssorted_hd_least [OF sk] l16(1) by auto
        then show ?thesis using True by (rule less_le_trans [rotated])
      next
        case 2
        then show ?thesis using ar unfolding around_def by blast
      qed
    qed
    moreover have "\<forall>k \<in> set (map fst (lb_pairs xs @ kp)). k < key" using ar by (simp add: around_def)
    ultimately have ins: "pairs_ins key val (lb_pairs (xs @ (p, kp) # (a, kvs) # ys)) (lb_pairs ?cs)" unfolding pairs_ins_def
      by (intro exI [of _ "lb_pairs xs @ kp"] exI [of _ "kvs @ lb_pairs ys"]) simp
    have "root_rep ?r ?cs" using mv(2) l16(1) by auto
    then have "lb_rep l' ?cs" using ch pairs_ins_map(1) [OF ins srt] by (simp add: lb_rep_def l'_def)
    then show ?thesis using run ins by (auto simp: l'_def)
  next
    case False
    then have gt: "fst (kvs ! 0) < key" using ne by (simp add: not_less order_less_le)
    have q: "0 < q" "q \<le> length kvs"
    proof -
      show "q \<le> length kvs" using lb_split_pairs(1) [OF sk, of key] by (simp add: q_def)
      show "0 < q"
      proof (rule ccontr)
        assume "\<not> 0 < q"
        then have "\<forall>k \<in> set (map fst kvs). key \<le> k" using lb_split_pairs(3) [OF sk, of key] by (simp add: q_def)
        then show False using least gt by (meson leD)
      qed
    qed
    have lock': "cb_arr (ca\<lparr>cb_locked := True\<rparr>) kvs" using arr(1) by (simp add: cb_arr_def)
    obtain ks vs where sh: "std_copy (cb_slotkey ca) 1 q (cb_slotkey ca) 0 = Inr ks" "std_copy (cb_slotdata ca) 1 q (cb_slotdata ca) 0 = Inr vs"
        "q - 1 < length ks" "q - 1 < length vs"
        "cb_arr (ca\<lparr>cb_locked := True, cb_slotkey := ks[q - 1 := key], cb_slotdata := vs[q - 1 := val]\<rparr>) (take (q - 1) (drop 1 kvs) @ (key, val) # drop q kvs)"
      by (rule cb_shift_arr [OF lock' len(1) q, where key = key and val = val]) auto
    let ?k2 = "take (q - 1) (drop 1 kvs) @ (key, val) # drop q kvs" and ?k1 = "kp @ [kvs ! 0]"
    let ?cs = "xs @ (p, ?k1) # (a, ?k2) # ys"
    define ca' where "ca' = cb_commit (ca\<lparr>cb_locked := True, cb_slotkey := ks[q - 1 := key], cb_slotdata := vs[q - 1 := val]\<rparr>)"
    have ca': "cb_rep ca' ?k2" "cb_prevbin ca' = cb_prevbin ca" "cb_nextbin ca' = cb_nextbin ca"
      using sh(5) by (simp_all add: ca'_def cb_rep_commit)
    note pu = pushed_rep(1) [OF cp(2) l16(2), of "fst (kvs ! 0)" "snd (kvs ! 0)", unfolded prod.collapse] pushed_rep(2,3) [OF cp(2) l16(2)]
      pushed_rep(4,5) [OF cp(2) l16(2), of "fst (kvs ! 0)" "snd (kvs ! 0)"]
    let ?cp = "pushed (fst (kvs ! 0)) (snd (kvs ! 0)) cp"
    have lastq: "ys \<noteq> [] \<longrightarrow> q < length kvs" using lb_last_less [OF sk _ new] last l16(1) by (auto simp: q_def)
    have last2: "ys \<noteq> [] \<longrightarrow> fst (last ?k2) = fst (last kvs)" using lastq by (auto simp: last_drop)
    note mv = root_move [OF rr _ _ last2, of ?k1]
    let ?r = "rb_commit (r\<lparr>rb_locked := True, rb_slotkey := (rb_slotkey r)[length xs := fst (kvs ! 0)]\<rparr>)"
    have slot: "length xs < length (rb_slotkey r)" using mv(1) by auto
    have special: "\<not> (q = cb_slotuse ca \<and> length xs + 1 + 1 \<le> rb_slotuse r)"
      using lastq arr(1) rr by (cases ys) (auto simp: cb_arr_def root_rep_def)
    define l' where "l' = l\<lparr>lb_root := Some ?r, lb_heap := (lb_heap l)(p \<mapsto> ?cp, a \<mapsto> ca')\<rparr>"
    have run: "insert_prev_retrain p a (length xs + 1) key val l = Inr (Res_ok, l')"
      using gt False loads lock cp(1) ca(1) pa arr(2,3) pu(2,3) slot find hit new sh(1-4) special
      by (cases "q = cb_slotuse ca")
        (simp_all add: insert_prev_retrain_def Let_def cb_upd_def cb_load_def cb_lock_def root_upd_def l'_def pushed_def ca'_def)
    have ch: "chain_ok l' ?cs" unfolding l'_def by (rule chain_move [OF ok cp(1) ca(1) pu(1,4,5) ca'])
    have tq: "kvs ! 0 # take (q - 1) (drop 1 kvs) = take q kvs" using q l16(1) by (cases kvs) (auto simp: take_Cons')
    have "pairs_ins key val (lb_pairs ((xs @ [(p, kp)]) @ (a, kvs) # ys)) (lb_pairs ((xs @ [(p, kp)]) @ (a, take q kvs @ (key, val) # drop q kvs) # ys))"
      using pairs_ins_child [OF sk ar new] by (simp add: q_def)
    then have ins: "pairs_ins key val (lb_pairs (xs @ (p, kp) # (a, kvs) # ys)) (lb_pairs ?cs)" using tq by (simp flip: tq)
    have "root_rep ?r ?cs" using mv(2) by auto
    then have "lb_rep l' ?cs" using ch pairs_ins_map(1) [OF ins srt] by (simp add: lb_rep_def l'_def)
    then show ?thesis using run ins by (auto simp: l'_def)
  qed
qed

section \<open>Insertion\<close>

text \<open>A child with room takes the pair.\<close>

lemma insert_into_room:
  assumes rep: "lb_rep l (xs @ (a, kvs) # ys)" and ar: "around key xs ys" and last: "ys \<noteq> [] \<longrightarrow> key \<le> fst (last kvs)"
    and len: "length kvs < childslotmax" and new: "key \<notin> set (map fst kvs)"
  obtains l' cs' nk where "insert_child_retrain a key val l = Inr (Res_ok, nk, 0, l')" "lb_rep l' cs'"
    "pairs_ins key val (lb_pairs (xs @ (a, kvs) # ys)) (lb_pairs cs')" "lb_retraining l' = lb_retraining l" "lb_root l' = lb_root l" "cs' \<noteq> []"
proof -
  have ok: "chain_ok l (xs @ (a, kvs) # ys)" and srt: "ssorted (lb_keys (xs @ (a, kvs) # ys))" using rep unfolding lb_rep_def by auto
  have sk: "ssorted (map fst kvs)" by (rule child_sorted [OF srt])
  let ?p = "lb (map fst kvs) key"
  let ?kvs = "take ?p kvs @ (key, val) # drop ?p kvs"
  obtain h nk where h: "insert_child_retrain a key val l = Inr (Res_ok, nk, 0, l\<lparr>lb_heap := h\<rparr>)"
    "chain_ok (l\<lparr>lb_heap := h\<rparr>) (xs @ (a, ?kvs) # ys)"
    by (rule insert_child_room [OF ok sk new len])
  have ins: "pairs_ins key val (lb_pairs (xs @ (a, kvs) # ys)) (lb_pairs (xs @ (a, ?kvs) # ys))" by (rule pairs_ins_child [OF sk ar new])
  have root: "case lb_root l of None \<Rightarrow> length (xs @ (a, ?kvs) # ys) \<le> 1 | Some r \<Rightarrow> root_rep r (xs @ (a, ?kvs) # ys)"
  proof (cases "lb_root l")
    case None
    then show ?thesis using rep by (simp add: lb_rep_def)
  next
    case (Some r)
    have r: "root_rep r (xs @ (a, kvs) # ys)" using rep Some by (simp add: lb_rep_def)
    then have ne: "kvs \<noteq> []" by (simp add: root_rep_def)
    have "ys \<noteq> [] \<longrightarrow> fst (last ?kvs) = fst (last kvs)"
      using lb_last_less [OF sk ne new] last last_insert_at by metis
    then have "root_rep r (xs @ (a, ?kvs) # ys)" by (intro root_rep_child [OF r]) auto
    then show ?thesis using Some by simp
  qed
  have "lb_rep (l\<lparr>lb_heap := h\<rparr>) (xs @ (a, ?kvs) # ys)"
    using h(2) root pairs_ins_map(1) [OF ins srt] unfolding lb_rep_def by simp
  then show ?thesis using that [OF h(1) _ ins] by simp
qed

text \<open>The outcomes of an insertion: \<open>Res_ok\<close> adds the pair, \<open>Res_failed\<close> finds the key present,
  \<open>Res_retrain\<close> sets the flag and changes nothing.\<close>

definition insert_outcome :: "key_t \<Rightarrow> val_t \<Rightarrow> LevelBin \<Rightarrow> child list \<Rightarrow> result_t \<times> LevelBin \<Rightarrow> bool" where
  "insert_outcome key val l cs res \<longleftrightarrow> (case res of
     (Res_ok, l') \<Rightarrow> \<not> lb_retraining l' \<and> (\<exists>cs'. lb_rep l' cs' \<and> pairs_ins key val (lb_pairs cs) (lb_pairs cs'))
   | (Res_failed, l') \<Rightarrow> l' = l \<and> key \<in> set (lb_keys cs)
   | (Res_retrain, l') \<Rightarrow> l' = l\<lparr>lb_retraining := True\<rparr> \<and> length cs = rootslotmax + 1
   | (Res_retry, l') \<Rightarrow> False)"

lemma insert_outcome_simps [simp]:
  "insert_outcome key val l cs (Res_ok, l') \<longleftrightarrow> \<not> lb_retraining l' \<and> (\<exists>cs'. lb_rep l' cs' \<and> pairs_ins key val (lb_pairs cs) (lb_pairs cs'))"
  "insert_outcome key val l cs (Res_failed, l') \<longleftrightarrow> l' = l \<and> key \<in> set (lb_keys cs)"
  "insert_outcome key val l cs (Res_retrain, l') \<longleftrightarrow> l' = l\<lparr>lb_retraining := True\<rparr> \<and> length cs = rootslotmax + 1"
  by (simp_all add: insert_outcome_def)

text \<open>The first split builds the root.\<close>

lemma root_of_two:
  assumes "k1 \<noteq> []" and "k2 \<noteq> []"
  shows "root_rep (root_bin_new\<lparr>rb_slotkey := (rb_slotkey root_bin_new)[0 := fst (last k1)],
      rb_children := (rb_children root_bin_new)[0 := a, 1 := b], rb_slotuse := 1\<rparr>) [(a, k1), (b, k2)]"
  using assms by (simp add: root_rep_def root_bin_new_def rootslotmax_def seps_def eval_nat_numeral)

lemma chain_lengths: "chain_ok l (xs @ (a, kvs) # ys) \<Longrightarrow> length kvs \<le> childslotmax"
  by (auto simp: chain_ok_def cchain_append cb_rep_def cb_arr_def)

lemma insert_single:
  assumes rep: "lb_rep l [(a, kvs)]" and root: "lb_root l = None" and nr: "\<not> lb_retraining l"
  obtains r nk nb l' where "insert_child_retrain a key val l = Inr (r, nk, nb, l')" "lb_root l' = None"
    "insert_outcome key val l [(a, kvs)]
      (r, if nb \<noteq> 0 then l'\<lparr>lb_root := Some (root_bin_new\<lparr>rb_slotkey := (rb_slotkey root_bin_new)[0 := nk],
          rb_children := (rb_children root_bin_new)[0 := a, 1 := nb], rb_slotuse := 1\<rparr>)\<rparr> else l')"
proof -
  have ok: "chain_ok l ([] @ (a, kvs) # [])" and sk: "ssorted (map fst kvs)" using rep by (auto simp: lb_rep_def)
  obtain c where c: "lb_heap l a = Some c" "cb_rep c kvs" by (rule chain_at [OF ok])
  have ar: "around key [] []" by (simp add: around_def)
  consider (hit) "key \<in> set (map fst kvs)" | (room) "key \<notin> set (map fst kvs)" "length kvs < childslotmax"
    | (full) "key \<notin> set (map fst kvs)" "length kvs = childslotmax"
    using chain_lengths [OF ok] by fastforce
  then show ?thesis
  proof cases
    case hit
    then show ?thesis using that [OF insert_child_hit [OF c sk hit] root] by simp
  next
    case room
    have rep': "lb_rep l ([] @ (a, kvs) # [])" using rep by simp
    obtain l' cs' nk where i: "insert_child_retrain a key val l = Inr (Res_ok, nk, 0, l')" "lb_rep l' cs'"
      "pairs_ins key val (lb_pairs ([] @ (a, kvs) # [])) (lb_pairs cs')" "lb_retraining l' = lb_retraining l" "lb_root l' = lb_root l"
      by (rule insert_into_room [OF rep' ar _ room(2,1)]) auto
    then show ?thesis using that [OF i(1)] nr root by auto
  next
    case full
    let ?p = "lb (map fst kvs) key"
    obtain h t b k1 k2 where i:
      "insert_child_retrain a key val l = Inr (Res_ok, fst (last k1), b, l\<lparr>lb_heap := h, lb_brk := Suc (lb_brk l), lb_tailbin := t\<rparr>)" "b \<noteq> 0"
      "chain_ok (l\<lparr>lb_heap := h, lb_brk := Suc (lb_brk l), lb_tailbin := t\<rparr>) ([] @ (a, k1) # (b, k2) # [])"
      "k1 \<noteq> []" "k2 \<noteq> []" "k1 @ k2 = take ?p kvs @ (key, val) # drop ?p kvs"
      by (rule insert_child_full [OF ok sk full])
    let ?l = "l\<lparr>lb_heap := h, lb_brk := Suc (lb_brk l), lb_tailbin := t\<rparr>"
    have ins: "pairs_ins key val (lb_pairs [(a, kvs)]) (lb_pairs [(a, k1), (b, k2)])"
      using pairs_ins_child [OF sk ar full(1), of val a] i(6) by simp
    have "ssorted (lb_keys [(a, kvs)])" using sk by simp
    then have "ssorted (lb_keys [(a, k1), (b, k2)])" by (rule pairs_ins_map(1) [OF ins])
    then have "lb_rep (?l\<lparr>lb_root := Some (root_bin_new\<lparr>rb_slotkey := (rb_slotkey root_bin_new)[0 := fst (last k1)],
          rb_children := (rb_children root_bin_new)[0 := a, 1 := b], rb_slotuse := 1\<rparr>)\<rparr>) [(a, k1), (b, k2)]"
      using i(3) root_of_two [OF i(4,5), of a b] unfolding lb_rep_def by (simp add: chain_ok_def)
    then have "\<exists>cs'. lb_rep (?l\<lparr>lb_root := Some (root_bin_new\<lparr>rb_slotkey := (rb_slotkey root_bin_new)[0 := fst (last k1)],
          rb_children := (rb_children root_bin_new)[0 := a, 1 := b], rb_slotuse := 1\<rparr>)\<rparr>) cs'
        \<and> pairs_ins key val (lb_pairs [(a, kvs)]) (lb_pairs cs')" using ins by blast
    then show ?thesis using that [OF i(1)] i(2) root nr by simp
  qed
qed

lemma insert_split_root:
  assumes rep: "lb_rep l (xs @ (a, kvs) # ys)" and root: "lb_root l = Some r" and room: "rb_slotuse r < rootslotmax"
    and ar: "around key xs ys" and last: "ys \<noteq> [] \<longrightarrow> key \<le> fst (last kvs)"
    and len: "length kvs = childslotmax" and new: "key \<notin> set (map fst kvs)"
  obtains nk nb l1 l' where "insert_child_retrain a key val l = Inr (Res_ok, nk, nb, l1)" "nb \<noteq> 0"
    "bind_res (root_upd rb_lock l1) (\<lambda>l2. root_upd (\<lambda>rt. bind_res (rb_insert_at (length xs) nk nb rt) (\<lambda>rt. Inr (rb_commit rt))) l2) = Inr l'"
    "\<exists>cs'. lb_rep l' cs' \<and> pairs_ins key val (lb_pairs (xs @ (a, kvs) # ys)) (lb_pairs cs')" "lb_retraining l' = lb_retraining l"
proof -
  have ok: "chain_ok l (xs @ (a, kvs) # ys)" and srt: "ssorted (lb_keys (xs @ (a, kvs) # ys))" and rr: "root_rep r (xs @ (a, kvs) # ys)"
    using rep root unfolding lb_rep_def by auto
  have sk: "ssorted (map fst kvs)" by (rule child_sorted [OF srt])
  let ?p = "lb (map fst kvs) key"
  obtain h t b k1 k2 where i:
    "insert_child_retrain a key val l = Inr (Res_ok, fst (last k1), b, l\<lparr>lb_heap := h, lb_brk := Suc (lb_brk l), lb_tailbin := t\<rparr>)" "b \<noteq> 0"
    "chain_ok (l\<lparr>lb_heap := h, lb_brk := Suc (lb_brk l), lb_tailbin := t\<rparr>) (xs @ (a, k1) # (b, k2) # ys)"
    "k1 \<noteq> []" "k2 \<noteq> []" "k1 @ k2 = take ?p kvs @ (key, val) # drop ?p kvs"
    by (rule insert_child_full [OF ok sk new len])
  let ?l = "l\<lparr>lb_heap := h, lb_brk := Suc (lb_brk l), lb_tailbin := t\<rparr>" and ?cs = "xs @ (a, k1) # (b, k2) # ys"
  have kne: "kvs \<noteq> []" using rr by (simp add: root_rep_def)
  have lst: "ys \<noteq> [] \<longrightarrow> fst (last k2) = fst (last kvs)"
  proof
    assume "ys \<noteq> []"
    then have "?p < length kvs" using lb_last_less [OF sk kne new] last by blast
    then have "last (k1 @ k2) = last kvs" unfolding i(6) by (rule last_insert_at)
    then show "fst (last k2) = fst (last kvs)" using i(5) by simp
  qed
  obtain r' where r': "rb_insert_at (length xs) (fst (last k1)) b (r\<lparr>rb_locked := True\<rparr>) = Inr r'" "root_rep (rb_commit r') ?cs"
    by (rule root_insert [OF rr room i(4,5) lst])
  define l' where "l' = ?l\<lparr>lb_root := Some (rb_commit r')\<rparr>"
  have "\<not> rb_locked r" using rr by (simp add: root_rep_def)
  then have run: "bind_res (root_upd rb_lock ?l) (\<lambda>l2. root_upd (\<lambda>rt. bind_res (rb_insert_at (length xs) (fst (last k1)) b rt) (\<lambda>rt. Inr (rb_commit rt))) l2) = Inr l'"
    using root r'(1) by (simp add: root_upd_def rb_lock_def l'_def)
  have "pairs_ins key val (lb_pairs (xs @ (a, kvs) # ys)) (lb_pairs (xs @ (a, k1 @ k2) # ys))"
    using pairs_ins_child [OF sk ar new, of val a] unfolding i(6) .
  then have ins: "pairs_ins key val (lb_pairs (xs @ (a, kvs) # ys)) (lb_pairs ?cs)" by simp
  have "chain_ok l' ?cs" using i(3) by (simp add: chain_ok_def l'_def)
  then have "lb_rep l' ?cs" using r'(2) pairs_ins_map(1) [OF ins srt] by (simp add: lb_rep_def l'_def)
  then have "\<exists>cs'. lb_rep l' cs' \<and> pairs_ins key val (lb_pairs (xs @ (a, kvs) # ys)) (lb_pairs cs')" using ins by blast
  then show ?thesis using that [OF i(1,2) run] by (simp add: l'_def)
qed

text \<open>A full child below a root.\<close>

lemma con_insert_full:
  assumes rep: "lb_rep l (xs @ (a, kvs) # ys)" and root: "lb_root l = Some r"
    and ar: "around key xs ys" and last: "ys \<noteq> [] \<longrightarrow> key \<le> fst (last kvs)"
    and find: "find_lower (rb_slotkey r) (rb_slotuse r) key = Inr (length xs)" "nth_res (rb_children r) (length xs) = Inr a"
    and len: "length kvs = childslotmax" and nr: "\<not> lb_retraining l"
  shows "\<exists>res. con_insert_retrain key val l = Inr res \<and> insert_outcome key val l (xs @ (a, kvs) # ys) res"
proof -
  let ?cs = "xs @ (a, kvs) # ys"
  have ok: "chain_ok l ?cs" and srt: "ssorted (lb_keys ?cs)" and rr: "root_rep r ?cs" using rep root unfolding lb_rep_def by auto
  have sk: "ssorted (map fst kvs)" by (rule child_sorted [OF srt])
  obtain c where c: "lb_heap l a = Some c" "cb_rep c kvs" by (rule chain_at [OF ok])
  have load: "cb_load l a = Inr c" "\<not> cb_slotuse c < childslotmax" using c len by (auto simp: cb_load_def cb_rep_def cb_arr_def)
  have count: "Suc (rb_slotuse r) = length ?cs" "rb_slotuse r \<le> rootslotmax" using rr unfolding root_rep_def by blast+
  define room where "room = (if 0 < length xs then bind_res (nth_res (rb_children r) (length xs - 1)) (\<lambda>p.
                          bind_res (cb_load l p) (\<lambda>prev. Inr (if cb_slotuse prev < rootslotmax then Some p else None)))
                        else Inr None)"
  have run: "con_insert_retrain key val l = bind_res room (\<lambda>room. case room of
                  Some p \<Rightarrow> insert_prev_retrain p a (length xs) key val l
                | None \<Rightarrow>
                    if rb_slotuse r = rootslotmax then Inr (Res_retrain, l\<lparr>lb_retraining := True\<rparr>)
                    else
                      bind_res (insert_child_retrain a key val l) (\<lambda>(r, newkey, newchild, l1).
                        if newchild \<noteq> 0 then
                          bind_res (root_upd rb_lock l1) (\<lambda>l2.
                          bind_res (root_upd (\<lambda>rt. bind_res (rb_insert_at (length xs) newkey newchild rt) (\<lambda>rt. Inr (rb_commit rt))) l2)
                            (\<lambda>l3. Inr (r, l3)))
                        else Inr (r, l1)))"
    using nr root find load unfolding con_insert_retrain_def room_def by (simp only: if_False option.case bind_res_simps)
  consider (none) "room = Inr None" | (some) xs' p kp where "xs = xs' @ [(p, kp)]" "room = Inr (Some p)" "length kp < rootslotmax"
  proof (cases xs rule: rev_cases)
    case Nil
    then show ?thesis using that(1) by (simp add: room_def)
  next
    case (snoc xs' x)
    obtain p kp where x: "x = (p, kp)" by (cases x)
    have ok': "chain_ok l (xs' @ (p, kp) # (a, kvs) # ys)" using ok snoc x by simp
    obtain d where d: "lb_heap l p = Some d" "cb_rep d kp" by (rule chain_at [OF ok'])
    have ch: "take (length ?cs) (rb_children r) = map fst ?cs" "length ?cs \<le> length (rb_children r)"
      using rr count unfolding root_rep_def by auto
    have "rb_children r ! length xs' = take (length ?cs) (rb_children r) ! length xs'" using snoc by simp
    also have "\<dots> = p" unfolding ch(1) using snoc x by (simp add: nth_append)
    finally have nth: "nth_res (rb_children r) (length xs') = Inr p" using ch(2) snoc by simp
    have "room = Inr (if length kp < rootslotmax then Some p else None)"
      using nth d snoc by (simp add: room_def cb_load_def cb_rep_def cb_arr_def)
    then show ?thesis using that snoc x by (cases "length kp < rootslotmax") auto
  qed
  then show ?thesis
  proof cases
    case none
    show ?thesis
    proof (cases "rb_slotuse r = rootslotmax")
      case True
      then have "con_insert_retrain key val l = Inr (Res_retrain, l\<lparr>lb_retraining := True\<rparr>)" using run none by simp
      then show ?thesis using count True by auto
    next
      case False
      then have rm: "rb_slotuse r < rootslotmax" using count(2) by simp
      show ?thesis
      proof (cases "key \<in> set (map fst kvs)")
        case hit: True
        then show ?thesis using run none False insert_child_hit [OF c sk hit] by auto
      next
        case new: False
        obtain nk nb l1 l' where i: "insert_child_retrain a key val l = Inr (Res_ok, nk, nb, l1)" "nb \<noteq> 0"
          "bind_res (root_upd rb_lock l1) (\<lambda>l2. root_upd (\<lambda>rt. bind_res (rb_insert_at (length xs) nk nb rt) (\<lambda>rt. Inr (rb_commit rt))) l2) = Inr l'"
          "\<exists>cs'. lb_rep l' cs' \<and> pairs_ins key val (lb_pairs ?cs) (lb_pairs cs')" "lb_retraining l' = lb_retraining l"
          by (rule insert_split_root [OF rep root rm ar last len new])
        have "con_insert_retrain key val l = Inr (Res_ok, l')"
          using run none False i(1,2) arg_cong [OF i(3), of "\<lambda>z. bind_res z (\<lambda>l3. Inr (Res_ok, l3))"] by (simp add: bind_res_assoc)
        then show ?thesis using i(4,5) nr by auto
      qed
    qed
  next
    case (some xs' p kp)
    have rep': "lb_rep l (xs' @ (p, kp) # (a, kvs) # ys)" and ar': "around key (xs' @ [(p, kp)]) ys" using rep ar some(1) by simp_all
    have run': "con_insert_retrain key val l = insert_prev_retrain p a (length xs' + 1) key val l" using run some by simp
    note prev = insert_prev [OF rep' root ar' last len some(3), of val]
    show ?thesis
    proof (cases "key \<in> set (map fst kvs)")
      case True
      then show ?thesis using prev(1) run' by auto
    next
      case False
      then obtain l' cs' where "insert_prev_retrain p a (length xs' + 1) key val l = Inr (Res_ok, l')" "lb_rep l' cs'"
        "pairs_ins key val (lb_pairs (xs' @ (p, kp) # (a, kvs) # ys)) (lb_pairs cs')" "lb_retraining l' = lb_retraining l" using prev(2) by blast
      then show ?thesis using run' nr some(1) by auto
    qed
  qed
qed

text \<open>The operation on a bin in a state of the representation.\<close>

lemma con_insert_spec:
  assumes rep: "lb_rep l cs" and nr: "\<not> lb_retraining l"
  shows "\<exists>res. con_insert_retrain key val l = Inr res \<and> insert_outcome key val l cs res"
proof (cases rule: lb_cases [OF rep, where key = key])
  case 1
  obtain b l0 where al: "allocate_childbin l = (b, l0)" by fastforce
  let ?l0 = "l0\<lparr>lb_headbin := b, lb_tailbin := b\<rparr>"
  have pos: "0 < lb_brk l" using rep by (simp add: lb_rep_def chain_ok_def)
  then have rep0: "lb_rep ?l0 [(b, [])]" and root0: "lb_root ?l0 = None" and nr0: "\<not> lb_retraining ?l0" and b0: "b \<noteq> 0"
    using al 1(2) nr by (auto simp: allocate_childbin_def lb_rep_def chain_ok_def cb_rep_def cb_arr_new child_bin_new_def cb_arr_def)
  obtain r nk nb l' where i: "insert_child_retrain b key val ?l0 = Inr (r, nk, nb, l')" "lb_root l' = None"
    "insert_outcome key val ?l0 [(b, [])]
      (r, if nb \<noteq> 0 then l'\<lparr>lb_root := Some (root_bin_new\<lparr>rb_slotkey := (rb_slotkey root_bin_new)[0 := nk],
          rb_children := (rb_children root_bin_new)[0 := b, 1 := nb], rb_slotuse := 1\<rparr>)\<rparr> else l')"
    by (rule insert_single [OF rep0 root0 nr0])
  let ?l' = "if nb \<noteq> 0 then l'\<lparr>lb_root := Some (root_bin_new\<lparr>rb_slotkey := (rb_slotkey root_bin_new)[0 := nk],
          rb_children := (rb_children root_bin_new)[0 := b, 1 := nb], rb_slotuse := 1\<rparr>)\<rparr> else l'"
  have run: "con_insert_retrain key val l = Inr (r, ?l')"
    using 1(2,3) nr al i(1,2) by (simp add: con_insert_retrain_def Let_def)
  have "insert_outcome key val l cs (r, ?l')"
    using i(3) 1(1) by (cases r) (auto simp: insert_outcome_def rootslotmax_def)
  then show ?thesis using run by blast
next
  case (2 a kvs c)
  obtain r nk nb l' where i: "insert_child_retrain a key val l = Inr (r, nk, nb, l')" "lb_root l' = None"
    "insert_outcome key val l [(a, kvs)]
      (r, if nb \<noteq> 0 then l'\<lparr>lb_root := Some (root_bin_new\<lparr>rb_slotkey := (rb_slotkey root_bin_new)[0 := nk],
          rb_children := (rb_children root_bin_new)[0 := a, 1 := nb], rb_slotuse := 1\<rparr>)\<rparr> else l')"
    by (rule insert_single [OF rep [unfolded 2(1)] 2(2) nr])
  then show ?thesis using 2(1-4) nr by (auto simp: con_insert_retrain_def Let_def)
next
  case (3 r xs a kvs ys c)
  have cuse: "cb_slotuse c = length kvs" "length kvs \<le> childslotmax" using 3(10) by (auto simp: cb_rep_def cb_arr_def)
  have rep': "lb_rep l (xs @ (a, kvs) # ys)" using rep 3(3) by simp
  have sk: "ssorted (map fst kvs)" by (rule child_sorted [of xs a kvs ys]) (use rep' in \<open>simp add: lb_rep_def\<close>)
  have load: "cb_load l a = Inr c" using 3(9) by (simp add: cb_load_def)
  show ?thesis
  proof (cases "length kvs < childslotmax")
    case True
    have run: "con_insert_retrain key val l = bind_res (insert_child_retrain a key val l) (\<lambda>(r, _, _, l1). Inr (r, l1))"
      using nr 3(1,6,7) load cuse True by (simp add: con_insert_retrain_def)
    show ?thesis
    proof (cases "key \<in> set (map fst kvs)")
      case hit: True
      then show ?thesis using run insert_child_hit [OF 3(9,10) sk hit] 3(3) by auto
    next
      case new: False
      obtain l' cs' nk where i: "insert_child_retrain a key val l = Inr (Res_ok, nk, 0, l')" "lb_rep l' cs'"
        "pairs_ins key val (lb_pairs (xs @ (a, kvs) # ys)) (lb_pairs cs')" "lb_retraining l' = lb_retraining l"
        by (rule insert_into_room [OF rep' 3(4,5) True new])
      then show ?thesis using run nr 3(3) by auto
    qed
  next
    case False
    then have len: "length kvs = childslotmax" using cuse(2) by simp
    show ?thesis by (rule con_insert_full [OF rep' 3(1,4,5,6,7) len nr, folded 3(3)])
  qed
qed

end
