(* ===== verification/Level_Bin_Remove.thy ===== *)
theory Level_Bin_Remove
  imports Level_Bin_Ops
begin

text \<open>
  Removal from a level bin: the pair leaves its child, an empty child leaves the list and the root, and
  a root with one child left is dropped. The exception is the last but one child of a root with three or
  more: its arrays are not moved.
\<close>

section \<open>A pair leaves a child\<close>

lemma remove_in_child:
  assumes c: "lb_heap l a = Some c" "cb_rep c kvs" and slot: "cslot < length kvs"
  obtains c' where "bind_res (cb_upd a cb_lock l) (\<lambda>l1.
      cb_upd a (\<lambda>c. bind_res (cb_remove_at cslot c) (\<lambda>c. Inr (cb_commit c))) l1) = Inr (l\<lparr>lb_heap := (lb_heap l)(a \<mapsto> c')\<rparr>)"
    "cb_rep c' (take cslot kvs @ drop (Suc cslot) kvs)" "cb_prevbin c' = cb_prevbin c" "cb_nextbin c' = cb_nextbin c"
proof -
  let ?lc = "c\<lparr>cb_locked := True\<rparr>" and ?kvs = "take cslot kvs @ drop (Suc cslot) kvs"
  have "cb_arr ?lc kvs" using c(2) by (simp add: cb_rep_def cb_arr_def)
  then obtain ks vs where rem: "cb_remove_at cslot ?lc = Inr (?lc\<lparr>cb_slotkey := ks, cb_slotdata := vs, cb_slotuse := length kvs - 1\<rparr>)"
      "cb_arr (?lc\<lparr>cb_slotkey := ks, cb_slotdata := vs, cb_slotuse := length kvs - 1\<rparr>) ?kvs"
    using slot by (rule cb_remove_at_arr)
  define c' where "c' = cb_commit (?lc\<lparr>cb_slotkey := ks, cb_slotdata := vs, cb_slotuse := length kvs - 1\<rparr>)"
  have crep: "cb_rep c' ?kvs" unfolding c'_def cb_rep_commit by (rule rem(2))
  have "cb_upd a cb_lock l = Inr (l\<lparr>lb_heap := (lb_heap l)(a \<mapsto> ?lc)\<rparr>)"
    using c(1) cb_rep_lock [OF c(2)] by (rule lb_upd_heap)
  moreover have "cb_upd a (\<lambda>c. bind_res (cb_remove_at cslot c) (\<lambda>c. Inr (cb_commit c))) (l\<lparr>lb_heap := (lb_heap l)(a \<mapsto> ?lc)\<rparr>)
      = Inr (l\<lparr>lb_heap := (lb_heap l)(a \<mapsto> c')\<rparr>)"
    using rem(1) by (simp add: cb_upd_def cb_load_def c'_def)
  ultimately show ?thesis using that [OF _ crep] by (simp add: c'_def)
qed

text \<open>The pairs without a key.\<close>

definition pairs_del :: "key_t \<Rightarrow> (key_t \<times> val_t) list \<Rightarrow> (key_t \<times> val_t) list" where
  "pairs_del key kvs = filter (\<lambda>kv. fst kv \<noteq> key) kvs"

lemma pairs_del_append: "pairs_del key (xs @ ys) = pairs_del key xs @ pairs_del key ys"
  by (simp add: pairs_del_def)

lemma pairs_del_notin: "key \<notin> set (map fst kvs) \<Longrightarrow> pairs_del key kvs = kvs"
  unfolding pairs_del_def by (rule filter_True) auto

lemma pairs_del_map: "map_of (pairs_del key kvs) = (map_of kvs)(key := None)"
  unfolding pairs_del_def by (induction kvs) (auto simp: fun_eq_iff)

lemma pairs_del_sorted: "ssorted (map fst kvs) \<Longrightarrow> ssorted (map fst (pairs_del key kvs))"
  unfolding pairs_del_def by (induction kvs) auto

lemma pairs_del_at:
  assumes "ssorted (map fst kvs)" and "p < length kvs" and "fst (kvs ! p) = key"
  shows "pairs_del key kvs = take p kvs @ drop (Suc p) kvs"
proof -
  have d: "kvs = take p kvs @ kvs ! p # drop (Suc p) kvs" by (rule id_take_nth_drop [OF assms(2)])
  have "distinct (map fst (take p kvs @ kvs ! p # drop (Suc p) kvs))" using ssorted_distinct [OF assms(1)] d by simp
  then have no: "key \<notin> set (map fst (take p kvs))" "key \<notin> set (map fst (drop (Suc p) kvs))" using assms(3) by auto
  have "pairs_del key kvs = pairs_del key (take p kvs @ kvs ! p # drop (Suc p) kvs)" using d by simp
  also have "\<dots> = pairs_del key (take p kvs) @ pairs_del key (drop (Suc p) kvs)" using assms(3) by (simp add: pairs_del_def)
  finally show ?thesis using pairs_del_notin [OF no(1)] pairs_del_notin [OF no(2)] by simp
qed

lemma pairs_del_child:
  assumes "around key xs ys"
  shows "pairs_del key (lb_pairs (xs @ (a, kvs) # ys)) = lb_pairs (xs @ (a, pairs_del key kvs) # ys)"
  using around_notin [OF assms] by (simp add: pairs_del_append pairs_del_notin)

section \<open>The list without a child\<close>

lemma cchain_set_next:
  assumes "cchain h prev (xs @ [(p, kp)]) n" and "h p = Some d" and "p \<notin> set (map fst xs)"
  shows "cchain (h(p \<mapsto> d\<lparr>cb_nextbin := n'\<rparr>)) prev (xs @ [(p, kp)]) n'"
  using assms by (auto simp: cchain_append cb_rep_def cb_arr_def)

lemma cchain_set_prev:
  assumes "cchain h q ((n, kn) # ys) nxt" and "h n = Some d" and "n \<notin> set (map fst ys)"
  shows "cchain (h(n \<mapsto> d\<lparr>cb_prevbin := q'\<rparr>)) q' ((n, kn) # ys) nxt"
  using assms by (auto simp: cb_rep_def cb_arr_def)

lemma unlink_prev:
  assumes ch: "cchain (lb_heap l) 0 xs a" and d: "distinct (map fst xs)"
  obtains h where "(if last_addr xs 0 \<noteq> 0 then cb_upd (last_addr xs 0) (\<lambda>c. Inr (c\<lparr>cb_nextbin := n\<rparr>)) l
      else Inr (l\<lparr>lb_headbin := n\<rparr>)) = Inr (l\<lparr>lb_heap := h, lb_headbin := if xs = [] then n else lb_headbin l\<rparr>)"
    "cchain h 0 xs n" "\<forall>b. b \<notin> set (map fst xs) \<longrightarrow> h b = lb_heap l b"
proof (cases xs rule: rev_cases)
  case Nil
  then show ?thesis using that [of "lb_heap l"] by simp
next
  case (snoc xs' x)
  obtain p kp where x: "x = (p, kp)" by (cases x)
  obtain dp where dp: "lb_heap l p = Some dp" "p \<noteq> 0" using ch snoc x by (auto simp: cchain_append)
  let ?h = "(lb_heap l)(p \<mapsto> dp\<lparr>cb_nextbin := n\<rparr>)"
  have "cchain ?h 0 xs n" unfolding snoc x by (rule cchain_set_next) (use ch d dp snoc x in auto)
  then show ?thesis using that [of ?h] dp snoc x by (simp add: cb_upd_def cb_load_def)
qed

lemma unlink_next:
  assumes ch: "cchain (lb_heap l) a ys 0" and d: "distinct (map fst ys)"
  obtains h where "(if first_addr ys 0 \<noteq> 0 then cb_upd (first_addr ys 0) (\<lambda>c. Inr (c\<lparr>cb_prevbin := p\<rparr>)) l
      else Inr (l\<lparr>lb_tailbin := p\<rparr>)) = Inr (l\<lparr>lb_heap := h, lb_tailbin := if ys = [] then p else lb_tailbin l\<rparr>)"
    "cchain h p ys 0" "\<forall>b. b \<notin> set (map fst ys) \<longrightarrow> h b = lb_heap l b"
proof (cases ys)
  case Nil
  then show ?thesis using that [of "lb_heap l"] by simp
next
  case (Cons y ys')
  obtain n kn where y: "y = (n, kn)" by (cases y)
  obtain dn where dn: "lb_heap l n = Some dn" "n \<noteq> 0" using ch Cons y by auto
  let ?h = "(lb_heap l)(n \<mapsto> dn\<lparr>cb_prevbin := p\<rparr>)"
  have "cchain ?h p ys 0" unfolding Cons y by (rule cchain_set_prev) (use ch d dn Cons y in auto)
  then show ?thesis using that [of ?h] dn Cons y by (simp add: cb_upd_def cb_load_def)
qed

text \<open>Both neighbours are linked past the child, and it is freed.\<close>

lemma chain_unlink:
  assumes ok: "chain_ok l (xs @ (a, kvs) # ys)"
  defines "p \<equiv> last_addr xs 0" and "n \<equiv> first_addr ys 0"
  obtains l' where "bind_res (if p \<noteq> 0 then cb_upd p (\<lambda>c. Inr (c\<lparr>cb_nextbin := n\<rparr>)) l else Inr (l\<lparr>lb_headbin := n\<rparr>)) (\<lambda>l2.
      if n \<noteq> 0 then cb_upd n (\<lambda>c. Inr (c\<lparr>cb_prevbin := p\<rparr>)) l2 else Inr (l2\<lparr>lb_tailbin := p\<rparr>)) = Inr l'"
    "chain_ok (free_childbin a l') (xs @ ys)" "lb_root l' = lb_root l" "lb_retraining l' = lb_retraining l"
    "lb_headbin l' = first_addr (xs @ ys) 0" "lb_tailbin l' = last_addr (xs @ ys) 0"
proof -
  have ch: "cchain (lb_heap l) 0 xs a" "cchain (lb_heap l) a ys 0" using ok by (auto simp: chain_ok_def cchain_append)
  have d: "distinct (map fst xs)" "distinct (map fst ys)" "fst ` set xs \<inter> fst ` set ys = {}" "a \<notin> fst ` set xs" "a \<notin> fst ` set ys"
    "\<forall>x \<in> fst ` set xs \<union> fst ` set ys. x < lb_brk l" "lb_headbin l = first_addr xs a" "lb_tailbin l = last_addr ys a" "0 < lb_brk l"
    using ok by (auto simp: chain_ok_def)
  obtain h where h: "(if p \<noteq> 0 then cb_upd p (\<lambda>c. Inr (c\<lparr>cb_nextbin := n\<rparr>)) l
      else Inr (l\<lparr>lb_headbin := n\<rparr>)) = Inr (l\<lparr>lb_heap := h, lb_headbin := if xs = [] then n else lb_headbin l\<rparr>)"
    "cchain h 0 xs n" "\<forall>b. b \<notin> set (map fst xs) \<longrightarrow> h b = lb_heap l b"
    by (rule unlink_prev [OF ch(1) d(1), where n = n, folded p_def])
  let ?l2 = "l\<lparr>lb_heap := h, lb_headbin := if xs = [] then n else lb_headbin l\<rparr>"
  have "\<forall>b \<in> set (map fst ys). h b = lb_heap l b" using h(3) d(3) by auto
  then have ch2: "cchain (lb_heap ?l2) a ys 0" using ch(2) cchain_frame [of ys h "lb_heap l" a 0] by simp
  obtain h' where h': "(if n \<noteq> 0 then cb_upd n (\<lambda>c. Inr (c\<lparr>cb_prevbin := p\<rparr>)) ?l2
      else Inr (?l2\<lparr>lb_tailbin := p\<rparr>)) = Inr (?l2\<lparr>lb_heap := h', lb_tailbin := if ys = [] then p else lb_tailbin ?l2\<rparr>)"
    "cchain h' p ys 0" "\<forall>b. b \<notin> set (map fst ys) \<longrightarrow> h' b = lb_heap ?l2 b"
    by (rule unlink_next [OF ch2 d(2), where p = p, folded n_def])
  let ?l' = "?l2\<lparr>lb_heap := h', lb_tailbin := if ys = [] then p else lb_tailbin ?l2\<rparr>"
  have "\<forall>b \<in> set (map fst xs). h' b = h b" using h'(3) d(3) by auto
  then have "cchain h' 0 xs n" using h(2) cchain_frame [of xs h' h 0 n] by simp
  then have "cchain h' 0 (xs @ ys) 0" using h'(2) by (simp add: cchain_append p_def n_def)
  then have chain: "cchain (h'(a := None)) 0 (xs @ ys) 0" using d(4,5) by simp
  have head: "lb_headbin ?l' = first_addr (xs @ ys) 0" using d(7) by (cases xs) (simp_all add: n_def)
  have tail: "lb_tailbin ?l' = last_addr (xs @ ys) 0" using d(8) by (cases ys) (simp_all add: p_def)
  have ok': "chain_ok (free_childbin a ?l') (xs @ ys)"
    unfolding chain_ok_def free_childbin_def using chain head tail d(1,2,3,6,9) by auto
  show ?thesis by (rule that [OF _ ok' _ _ head tail]) (use h(1) h'(1) in simp_all)
qed

section \<open>The root without a child\<close>

text \<open>A new greatest key of a child becomes its separator.\<close>

lemma root_shrink:
  assumes r: "root_rep r (xs @ (a, kvs) # ys)" and ne: "kvs' \<noteq> []"
  shows "root_rep (rb_commit (r\<lparr>rb_locked := True,
      rb_slotkey := if length xs < rootslotmax then (rb_slotkey r)[length xs := fst (last kvs')] else rb_slotkey r\<rparr>)) (xs @ (a, kvs') # ys)"
proof -
  have d: "Suc (rb_slotuse r) = length xs + length ys + 1" "length (rb_slotkey r) = rootslotmax" "rb_slotuse r \<le> rootslotmax"
    "take (rb_slotuse r) (rb_slotkey r) = seps (xs @ (a, kvs) # ys)"
    using r by (auto simp: root_rep_def)
  have "take (rb_slotuse r) (if length xs < rootslotmax then (rb_slotkey r)[length xs := fst (last kvs')] else rb_slotkey r)
      = (seps (xs @ (a, kvs) # ys))[length xs := fst (last kvs')]"
  proof (cases "length xs < rootslotmax")
    case True
    then show ?thesis using d(4) by (simp add: take_update_swap)
  next
    case False
    then have "length ys = 0" using d(1,3) by linarith
    then have "length (seps (xs @ (a, kvs) # ys)) \<le> length xs" by (simp add: length_seps)
    then show ?thesis using d(4) False by (simp add: list_update_beyond)
  qed
  also have "\<dots> = seps (xs @ (a, kvs') # ys)"
    by (cases "ys = []") (simp_all add: seps_append seps_Cons list_update_append list_update_beyond)
  finally show ?thesis using r ne by (simp add: root_rep_def rb_commit_def)
qed

lemma shift_down:
  assumes "slot < n" and "n \<le> length arr"
  shows "std_copy arr (slot + 1) n arr slot = Inr (take slot arr @ take (n - Suc slot) (drop (Suc slot) arr) @ drop (n - 1) arr)"
    and "length (take slot arr @ take (n - Suc slot) (drop (Suc slot) arr) @ drop (n - 1) arr) = length arr"
    and "take (n - 1) (take slot arr @ take (n - Suc slot) (drop (Suc slot) arr) @ drop (n - 1) arr) = take slot (take n arr) @ drop (Suc slot) (take n arr)"
proof -
  show "std_copy arr (slot + 1) n arr slot = Inr (take slot arr @ take (n - Suc slot) (drop (Suc slot) arr) @ drop (n - 1) arr)"
    using assms by (simp add: std_copy_def)
  show "length (take slot arr @ take (n - Suc slot) (drop (Suc slot) arr) @ drop (n - 1) arr) = length arr" using assms by simp
  have "length (take slot arr @ take (n - Suc slot) (drop (Suc slot) arr)) = n - 1" using assms by simp
  then have "take (n - 1) (take slot arr @ take (n - Suc slot) (drop (Suc slot) arr) @ drop (n - 1) arr) = take slot arr @ take (n - Suc slot) (drop (Suc slot) arr)"
    by (metis append_assoc append_eq_conv_conj)
  then show "take (n - 1) (take slot arr @ take (n - Suc slot) (drop (Suc slot) arr) @ drop (n - 1) arr) = take slot (take n arr) @ drop (Suc slot) (take n arr)"
    using assms by (simp add: min_def drop_take)
qed

text \<open>The step on the root when its child at a slot is gone.\<close>

definition root_drop :: "nat \<Rightarrow> root_bin \<Rightarrow> root_bin res" where
  "root_drop slot r =
     (if slot + 1 < rb_slotuse r then
         bind_res (std_copy (rb_slotkey r) (slot + 1) (rb_slotuse r) (rb_slotkey r) slot) (\<lambda>ks.
         bind_res (std_copy (rb_children r) (slot + 1) (rb_slotuse r + 1) (rb_children r) slot) (\<lambda>cs.
           Inr (r\<lparr>rb_slotkey := ks, rb_children := cs, rb_slotuse := rb_slotuse r - 1\<rparr>)))
       else Inr (r\<lparr>rb_slotuse := rb_slotuse r - 1\<rparr>))"

lemma root_drop_inner:
  assumes r: "root_rep r (xs @ (a, kvs) # ys)" and ys: "2 \<le> length ys"
  obtains r' where "root_drop (length xs) (r\<lparr>rb_locked := True\<rparr>) = Inr r'" "root_rep (rb_commit r') (xs @ ys)" "rb_slotuse r' = rb_slotuse r - 1"
proof -
  let ?n = "rb_slotuse r" and ?s = "length xs"
  have d: "?n = length xs + length ys" "length (rb_slotkey r) = 8" "length (rb_children r) = 9" "?n \<le> 8"
    "take ?n (rb_slotkey r) = seps (xs @ (a, kvs) # ys)" "take (?n + 1) (rb_children r) = map fst (xs @ (a, kvs) # ys)"
    "\<forall>c \<in> set xs. snd c \<noteq> []" "\<forall>c \<in> set ys. snd c \<noteq> []"
    using r by (auto simp: root_rep_def rootslotmax_def)
  have le: "?s < ?n" "?n \<le> length (rb_slotkey r)" "?s < ?n + 1" "?n + 1 \<le> length (rb_children r)" using d ys by auto
  define ks where "ks = take ?s (rb_slotkey r) @ take (?n - Suc ?s) (drop (Suc ?s) (rb_slotkey r)) @ drop (?n - 1) (rb_slotkey r)"
  define ch where "ch = take ?s (rb_children r) @ take (?n + 1 - Suc ?s) (drop (Suc ?s) (rb_children r)) @ drop (?n + 1 - 1) (rb_children r)"
  note k = shift_down [OF le(1,2), folded ks_def] and c = shift_down [OF le(3,4), folded ch_def]
  let ?r = "r\<lparr>rb_locked := True, rb_slotkey := ks, rb_children := ch, rb_slotuse := ?n - 1\<rparr>"
  have run: "root_drop ?s (r\<lparr>rb_locked := True\<rparr>) = Inr ?r" using k(1) c(1) d(1) ys by (simp add: root_drop_def)
  have "take ?s (seps (xs @ (a, kvs) # ys)) = map (\<lambda>c. fst (last (snd c))) xs" by (simp add: seps_append)
  moreover have "drop (Suc ?s) (seps (xs @ (a, kvs) # ys)) = seps ys" using ys by (auto simp: seps_append seps_Cons)
  moreover have "ys \<noteq> []" using ys by auto
  ultimately have s: "take (?n - 1) ks = seps (xs @ ys)" using k(3) d(5) by (simp add: seps_append)
  have t: "take ?n ch = map fst (xs @ ys)" using c(3) unfolding d(6) by simp
  have "root_rep (rb_commit ?r) (xs @ ys)"
    unfolding root_rep_def using s t d k(2) c(2) ys by (auto simp: rb_commit_def rootslotmax_def)
  then show ?thesis using that [OF run] by simp
qed

lemma root_drop_last:
  assumes r: "root_rep r (xs @ [(a, kvs)])" and xs: "2 \<le> length xs"
  obtains r' where "root_drop (length xs) (r\<lparr>rb_locked := True\<rparr>) = Inr r'" "root_rep (rb_commit r') xs" "rb_slotuse r' = rb_slotuse r - 1"
proof -
  let ?r = "r\<lparr>rb_locked := True, rb_slotuse := rb_slotuse r - 1\<rparr>"
  have d: "rb_slotuse r = length xs" "take (rb_slotuse r) (rb_slotkey r) = seps (xs @ [(a, kvs)])"
    "take (Suc (rb_slotuse r)) (rb_children r) = map fst xs @ [a]"
    using r by (auto simp: root_rep_def)
  have run: "root_drop (length xs) (r\<lparr>rb_locked := True\<rparr>) = Inr ?r" using d(1) by (simp add: root_drop_def)
  have "take (rb_slotuse r - 1) (rb_slotkey r) = take (rb_slotuse r - 1) (take (rb_slotuse r) (rb_slotkey r))" by (simp add: min_def)
  also have "\<dots> = seps xs" unfolding d(2) using d(1) by (simp add: seps_append seps_Cons) (simp add: seps_def butlast_conv_take take_map)
  finally have s: "take (rb_slotuse r - 1) (rb_slotkey r) = seps xs" .
  have "take (rb_slotuse r) (rb_children r) = take (rb_slotuse r) (take (Suc (rb_slotuse r)) (rb_children r))" by (simp add: min_def)
  then have t: "take (rb_slotuse r) (rb_children r) = map fst xs" unfolding d(3) using d(1) by simp
  have "root_rep (rb_commit ?r) xs"
    unfolding root_rep_def using s t d(1) r xs by (auto simp: rb_commit_def root_rep_def)
  then show ?thesis using that [OF run] by simp
qed

section \<open>An empty child\<close>

lemma unlink_child_run:
  assumes ok: "chain_ok l (xs @ (a, kvs) # ys)" and root: "lb_root l = Some r" "\<not> rb_locked r"
    and drop: "root_drop (length xs) (r\<lparr>rb_locked := True\<rparr>) = Inr r'"
  obtains l3 where "unlink_child a (length xs) l = (if rb_slotuse r' = 0
      then assert_res (lb_headbin l3 = lb_tailbin l3) (Inr (Res_ok, l3\<lparr>lb_root := None\<rparr>))
      else Inr (Res_ok, l3\<lparr>lb_root := Some (rb_commit r')\<rparr>))"
    "chain_ok l3 (xs @ ys)" "lb_retraining l3 = lb_retraining l" "lb_heap l3 a = None"
    "lb_headbin l3 = first_addr (xs @ ys) 0" "lb_tailbin l3 = last_addr (xs @ ys) 0"
proof -
  let ?l1 = "l\<lparr>lb_root := Some (r\<lparr>rb_locked := True\<rparr>)\<rparr>" and ?p = "last_addr xs 0" and ?n = "first_addr ys 0"
  have ok1: "chain_ok ?l1 (xs @ (a, kvs) # ys)" using ok by (simp add: chain_ok_def)
  obtain c where c: "lb_heap l a = Some c" "cb_prevbin c = ?p" "cb_nextbin c = ?n" by (rule chain_at [OF ok])
  obtain l' where l': "bind_res (if ?p \<noteq> 0 then cb_upd ?p (\<lambda>c. Inr (c\<lparr>cb_nextbin := ?n\<rparr>)) ?l1 else Inr (?l1\<lparr>lb_headbin := ?n\<rparr>)) (\<lambda>l2.
      if ?n \<noteq> 0 then cb_upd ?n (\<lambda>c. Inr (c\<lparr>cb_prevbin := ?p\<rparr>)) l2 else Inr (l2\<lparr>lb_tailbin := ?p\<rparr>)) = Inr l'"
    "chain_ok (free_childbin a l') (xs @ ys)" "lb_root l' = lb_root ?l1" "lb_retraining l' = lb_retraining ?l1"
    "lb_headbin l' = first_addr (xs @ ys) 0" "lb_tailbin l' = last_addr (xs @ ys) 0"
    by (rule chain_unlink [OF ok1])
  define l3 where "l3 = (free_childbin a l')\<lparr>lb_root := Some r'\<rparr>"
  have lock: "root_upd rb_lock l = Inr ?l1" using root by (simp add: root_upd_def rb_lock_def)
  have load: "cb_load ?l1 a = Inr c" using c(1) by (simp add: cb_load_def)
  have upd: "root_upd (root_drop (length xs)) (free_childbin a l') = Inr l3"
    using l'(3) drop by (simp add: root_upd_def l3_def free_childbin_def)
  have "unlink_child a (length xs) l = bind_res (bind_res (if ?p \<noteq> 0 then cb_upd ?p (\<lambda>c. Inr (c\<lparr>cb_nextbin := ?n\<rparr>)) ?l1 else Inr (?l1\<lparr>lb_headbin := ?n\<rparr>)) (\<lambda>l2.
      if ?n \<noteq> 0 then cb_upd ?n (\<lambda>c. Inr (c\<lparr>cb_prevbin := ?p\<rparr>)) l2 else Inr (l2\<lparr>lb_tailbin := ?p\<rparr>))) (\<lambda>l3.
      bind_res (root_upd (root_drop (length xs)) (free_childbin a l3)) (\<lambda>l4.
       if map_option rb_slotuse (lb_root l4) = Some 0 then
         assert_res (lb_headbin l4 = lb_tailbin l4) (Inr (Res_ok, l4\<lparr>lb_root := None\<rparr>))
       else bind_res (root_upd (\<lambda>r. Inr (rb_commit r)) l4) (\<lambda>l5. Inr (Res_ok, l5))))"
    unfolding unlink_child_def root_drop_def [abs_def] by (simp only: lock load bind_res_simps bind_res_assoc c(2,3))
  also have "\<dots> = (if rb_slotuse r' = 0
      then assert_res (lb_headbin l3 = lb_tailbin l3) (Inr (Res_ok, l3\<lparr>lb_root := None\<rparr>))
      else Inr (Res_ok, l3\<lparr>lb_root := Some (rb_commit r')\<rparr>))"
    unfolding l'(1) by (simp add: upd) (simp add: l3_def root_upd_def)
  finally show ?thesis using that l'(2,4,5,6) by (simp add: l3_def chain_ok_def free_childbin_def)
qed

text \<open>The case in which the arrays of the root stay as they are although the child goes.\<close>

definition stranded :: "child list \<Rightarrow> child list \<Rightarrow> bool" where
  "stranded xs ys \<longleftrightarrow> xs \<noteq> [] \<and> length ys = 1"

lemma unlink_child_rep:
  assumes ok: "chain_ok l (xs @ (a, kvs) # ys)" and root: "lb_root l = Some r" and rr: "root_rep r (xs @ (a, kvs0) # ys)"
    and srt: "ssorted (lb_keys (xs @ ys))" and ok2: "\<not> stranded xs ys"
  obtains l' where "unlink_child a (length xs) l = Inr (Res_ok, l')" "lb_rep l' (xs @ ys)" "lb_retraining l' = lb_retraining l"
proof -
  have nl: "\<not> rb_locked r" and cnt: "rb_slotuse r = length xs + length ys" "1 \<le> length xs + length ys" using rr by (auto simp: root_rep_def)
  show ?thesis
  proof (cases "length xs + length ys = 1")
    case True
    let ?r = "r\<lparr>rb_locked := True, rb_slotuse := rb_slotuse r - 1\<rparr>"
    have "root_drop (length xs) (r\<lparr>rb_locked := True\<rparr>) = Inr ?r" using cnt True by (simp add: root_drop_def)
    then obtain l3 where l3: "unlink_child a (length xs) l = (if rb_slotuse ?r = 0
        then assert_res (lb_headbin l3 = lb_tailbin l3) (Inr (Res_ok, l3\<lparr>lb_root := None\<rparr>))
        else Inr (Res_ok, l3\<lparr>lb_root := Some (rb_commit ?r)\<rparr>))"
      "chain_ok l3 (xs @ ys)" "lb_retraining l3 = lb_retraining l"
      "lb_headbin l3 = first_addr (xs @ ys) 0" "lb_tailbin l3 = last_addr (xs @ ys) 0"
      by (rule unlink_child_run [OF ok root nl])
    have "length (xs @ ys) = Suc 0" using True by simp
    then obtain x where x: "xs @ ys = [x]" unfolding length_Suc_conv by auto
    have same: "lb_headbin l3 = lb_tailbin l3" unfolding l3(4,5) x by simp
    have "lb_rep (l3\<lparr>lb_root := None\<rparr>) (xs @ ys)" using l3(2) srt unfolding lb_rep_def x by (simp add: chain_ok_def)
    then show ?thesis using that l3(1,3) same cnt True by simp
  next
    case False
    have "\<exists>r'. root_drop (length xs) (r\<lparr>rb_locked := True\<rparr>) = Inr r' \<and> root_rep (rb_commit r') (xs @ ys) \<and> rb_slotuse r' = rb_slotuse r - 1"
    proof (cases "ys = []")
      case Nil: True
      then have "root_rep r (xs @ [(a, kvs0)])" "2 \<le> length xs" using rr False cnt(2) by simp_all
      then obtain r' where "root_drop (length xs) (r\<lparr>rb_locked := True\<rparr>) = Inr r'" "root_rep (rb_commit r') xs" "rb_slotuse r' = rb_slotuse r - 1"
        by (rule root_drop_last)
      then show ?thesis using Nil by simp
    next
      case False2: False
      then have "2 \<le> length ys" using ok2 False by (cases ys; cases "tl ys") (auto simp: stranded_def)
      then obtain r' where "root_drop (length xs) (r\<lparr>rb_locked := True\<rparr>) = Inr r'" "root_rep (rb_commit r') (xs @ ys)" "rb_slotuse r' = rb_slotuse r - 1"
        by (rule root_drop_inner [OF rr])
      then show ?thesis by simp
    qed
    then obtain r' where r': "root_drop (length xs) (r\<lparr>rb_locked := True\<rparr>) = Inr r'" "root_rep (rb_commit r') (xs @ ys)" "rb_slotuse r' \<noteq> 0"
      using cnt False by auto
    obtain l3 where l3: "unlink_child a (length xs) l = (if rb_slotuse r' = 0
        then assert_res (lb_headbin l3 = lb_tailbin l3) (Inr (Res_ok, l3\<lparr>lb_root := None\<rparr>))
        else Inr (Res_ok, l3\<lparr>lb_root := Some (rb_commit r')\<rparr>))"
      "chain_ok l3 (xs @ ys)" "lb_retraining l3 = lb_retraining l"
      by (rule unlink_child_run [OF ok root nl r'(1)])
    have "lb_rep (l3\<lparr>lb_root := Some (rb_commit r')\<rparr>) (xs @ ys)" using l3(2) r'(2) srt by (simp add: lb_rep_def chain_ok_def)
    then show ?thesis using that l3(1,3) r'(3) by simp
  qed
qed

section \<open>Removal\<close>

text \<open>The pair is gone from the child, whose last key the root may still have to take over.\<close>

lemma remove_nonempty:
  assumes rep: "lb_rep l (xs @ (a, kvs) # ys)" and root: "lb_root l = Some r" and c: "lb_heap l a = Some c" "cb_rep c kvs"
    and slot: "cslot < length kvs" "fst (kvs ! cslot) = key"
    and c': "cb_rep c' (take cslot kvs @ drop (Suc cslot) kvs)" "cb_prevbin c' = cb_prevbin c" "cb_nextbin c' = cb_nextbin c"
    and ne: "take cslot kvs @ drop (Suc cslot) kvs \<noteq> []" and ar: "around key xs ys"
  defines "l2 \<equiv> l\<lparr>lb_heap := (lb_heap l)(a \<mapsto> c')\<rparr>"
  obtains l' where "(if cslot = cb_slotuse c' then
                  bind_res (root_upd rb_lock l2) (\<lambda>l3.
                  bind_res (root_upd (\<lambda>r.
                    bind_res (if length xs < rootslotmax then
                                bind_res (nth_int (cb_slotkey c') (int (cb_slotuse c') - 1)) (upd_res (rb_slotkey r) (length xs))
                              else Inr (rb_slotkey r)) (\<lambda>ks. Inr (rb_commit (r\<lparr>rb_slotkey := ks\<rparr>)))) l3) (\<lambda>l4.
                    Inr (Res_ok, l4)))
                else Inr (Res_ok, l2)) = Inr (Res_ok, l')"
    "lb_rep l' (xs @ (a, pairs_del key kvs) # ys)" "lb_retraining l' = lb_retraining l"
proof -
  have srt: "ssorted (lb_keys (xs @ (a, kvs) # ys))" and rr: "root_rep r (xs @ (a, kvs) # ys)" and ok: "chain_ok l (xs @ (a, kvs) # ys)"
    using rep root unfolding lb_rep_def by auto
  have sk: "ssorted (map fst kvs)" by (rule child_sorted [OF srt])
  let ?kvs = "take cslot kvs @ drop (Suc cslot) kvs"
  have del: "pairs_del key kvs = ?kvs" by (rule pairs_del_at [OF sk slot])
  have srt': "ssorted (lb_keys (xs @ (a, ?kvs) # ys))"
    using pairs_del_sorted [OF srt, of key] unfolding pairs_del_child [OF ar] del .
  have use: "cb_slotuse c' = length kvs - 1" using c'(1) slot(1) by (auto simp: cb_rep_def cb_arr_def)
  show ?thesis
  proof (cases "cslot = cb_slotuse c'")
    case False
    then have "drop (Suc cslot) kvs \<noteq> []" using use slot(1) by auto
    then have lst: "fst (last ?kvs) = fst (last kvs)" by (simp add: last_drop)
    have "lb_rep l2 (xs @ (a, ?kvs) # ys)" unfolding l2_def
      by (rule lb_rep_change [OF rep c(1) c' srt']) (use ne lst in auto)
    then show ?thesis using that [of l2] False del by (simp add: l2_def)
  next
    case True
    have kvs': "?kvs = take (length kvs - 1) kvs" "length ?kvs = length kvs - 1" "0 < length kvs - 1"
      using True use slot(1) ne by (auto simp: min_def)
    have arr: "cb_arr c' ?kvs" using c'(1) by (simp add: cb_rep_def)
    have nth: "nth_int (cb_slotkey c') (int (cb_slotuse c') - 1) = Inr (fst (last ?kvs))"
    proof -
      have i: "cb_slotuse c' - 1 < length ?kvs" using kvs'(2,3) use by simp
      have "cb_slotkey c' ! (cb_slotuse c' - 1) = fst (last ?kvs)"
        using cb_arr_nth(1) [OF arr i] ne use kvs'(2) by (simp add: last_conv_nth)
      moreover have "nat (int (cb_slotuse c') - 1) = cb_slotuse c' - 1" using use kvs'(3) by simp
      ultimately show ?thesis using cb_arr_nth(3) [OF arr i] use kvs'(3) by (simp add: nth_int_def)
    qed
    let ?r = "rb_commit (r\<lparr>rb_locked := True,
      rb_slotkey := if length xs < rootslotmax then (rb_slotkey r)[length xs := fst (last ?kvs)] else rb_slotkey r\<rparr>)"
    have "\<not> rb_locked r" "length (rb_slotkey r) = rootslotmax" using rr by (auto simp: root_rep_def)
    then have run: "bind_res (root_upd rb_lock l2) (\<lambda>l3.
                  bind_res (root_upd (\<lambda>r.
                    bind_res (if length xs < rootslotmax then
                                bind_res (nth_int (cb_slotkey c') (int (cb_slotuse c') - 1)) (upd_res (rb_slotkey r) (length xs))
                              else Inr (rb_slotkey r)) (\<lambda>ks. Inr (rb_commit (r\<lparr>rb_slotkey := ks\<rparr>)))) l3) (\<lambda>l4.
                    Inr (Res_ok, l4))) = Inr (Res_ok, l2\<lparr>lb_root := Some ?r\<rparr>)"
      unfolding nth using root by (simp add: l2_def root_upd_def rb_lock_def)
    have "root_rep ?r (xs @ (a, ?kvs) # ys)" by (rule root_shrink [OF rr ne])
    moreover have "chain_ok l2 (xs @ (a, ?kvs) # ys)" unfolding l2_def by (rule chain_change [OF ok c(1) c'])
    ultimately have "lb_rep (l2\<lparr>lb_root := Some ?r\<rparr>) (xs @ (a, ?kvs) # ys)" using srt' by (simp add: lb_rep_def chain_ok_def)
    then show ?thesis using that [of "l2\<lparr>lb_root := Some ?r\<rparr>"] True run del by (simp add: l2_def)
  qed
qed

text \<open>A key that is alone in the last but one of three or more children.\<close>

definition strands :: "key_t \<Rightarrow> child list \<Rightarrow> bool" where
  "strands key cs \<longleftrightarrow> (\<exists>xs a v y. xs \<noteq> [] \<and> cs = xs @ [(a, [(key, v)]), y])"

lemma not_strands: "\<not> strands key (xs @ (a, [(key, v)]) # ys) \<Longrightarrow> \<not> stranded xs ys"
  by (auto simp: strands_def stranded_def length_Suc_conv)

lemma pairs_del_single:
  assumes "take p kvs @ drop (Suc p) kvs = []" and "p < length kvs" and "fst (kvs ! p) = key"
  obtains v where "kvs = [(key, v)]"
proof -
  have "length (take p kvs @ drop (Suc p) kvs) = 0" using assms(1) by (simp only: list.size)
  then have "p = 0" "length kvs = 1" using assms(2) by (simp_all add: min_def)
  then obtain x where "kvs = [x]" by (metis One_nat_def Suc_length_conv length_0_conv)
  then show ?thesis using that [of "snd x"] assms(3) \<open>p = 0\<close> by (cases x) simp
qed

lemma lb_remove_single:
  assumes rep: "lb_rep l [(a, kvs)]" and root: "lb_root l = None" and nr: "\<not> lb_retraining l" and c: "lb_heap l a = Some c" "cb_rep c kvs"
    and key: "key \<in> set (map fst kvs)"
  shows "\<exists>l' cs'. lb_remove key l = Inr (Res_ok, l') \<and> lb_rep l' cs' \<and> lb_pairs cs' = pairs_del key kvs \<and> \<not> lb_retraining l'"
proof -
  have ok: "chain_ok l ([] @ (a, kvs) # [])" and sk: "ssorted (map fst kvs)" and hd: "lb_headbin l = a" "a \<noteq> 0"
    using rep by (auto simp: lb_rep_def chain_ok_def)
  let ?p = "lb (map fst kvs) key"
  have p: "?p < length kvs" "fst (kvs ! ?p) = key" using key mem_at_lb [OF sk, of key] by blast+
  let ?kvs = "take ?p kvs @ drop (Suc ?p) kvs"
  have del: "pairs_del key kvs = ?kvs" by (rule pairs_del_at [OF sk p])
  have arr: "cb_arr c kvs" using c(2) by (simp add: cb_rep_def)
  have hit: "cb_find c key = Inr ?p" "cb_hit c key ?p" using cb_arr_find [OF arr sk] cb_arr_hit [OF arr] p by auto
  obtain c' where c': "bind_res (cb_upd a cb_lock l) (\<lambda>l1.
      cb_upd a (\<lambda>c. bind_res (cb_remove_at ?p c) (\<lambda>c. Inr (cb_commit c))) l1) = Inr (l\<lparr>lb_heap := (lb_heap l)(a \<mapsto> c')\<rparr>)"
    "cb_rep c' ?kvs" "cb_prevbin c' = cb_prevbin c" "cb_nextbin c' = cb_nextbin c"
    by (rule remove_in_child [OF c p(1)])
  let ?l2 = "l\<lparr>lb_heap := (lb_heap l)(a \<mapsto> c')\<rparr>"
  have use: "cb_slotuse c' = length ?kvs" using c'(2) unfolding cb_rep_def cb_arr_def by blast
  have load: "cb_load l a = Inr c" "cb_load ?l2 a = Inr c'" using c(1) by (simp_all add: cb_load_def)
  have "lb_remove key l = bind_res (bind_res (cb_upd a cb_lock l) (\<lambda>l1.
      cb_upd a (\<lambda>c. bind_res (cb_remove_at ?p c) (\<lambda>c. Inr (cb_commit c))) l1)) (\<lambda>l2.
      bind_res (cb_load l2 a) (\<lambda>child. Inr (Res_ok, if cb_slotuse child = 0
                               then (free_childbin (lb_headbin l2) l2)\<lparr>lb_headbin := 0, lb_tailbin := 0\<rparr> else l2)))"
    using nr root hd hit unfolding lb_remove_def by (simp add: load(1) bind_res_assoc)
  also have "\<dots> = Inr (Res_ok, if ?kvs = [] then (free_childbin a ?l2)\<lparr>lb_headbin := 0, lb_tailbin := 0\<rparr> else ?l2)"
    unfolding c'(1) bind_res_simps load(2) use length_0_conv using hd(1) by simp
  finally have run: "lb_remove key l = Inr (Res_ok, if ?kvs = [] then (free_childbin a ?l2)\<lparr>lb_headbin := 0, lb_tailbin := 0\<rparr> else ?l2)" .
  have srt': "ssorted (lb_keys ([] @ (a, ?kvs) # []))" using pairs_del_sorted [OF sk, of key] del by simp
  show ?thesis
  proof (cases "?kvs = []")
    case True
    have "lb_rep ((free_childbin a ?l2)\<lparr>lb_headbin := 0, lb_tailbin := 0\<rparr>) []"
      using ok root by (simp add: lb_rep_def chain_ok_def free_childbin_def)
    then show ?thesis using run True del nr by (auto simp: free_childbin_def)
  next
    case False
    have "lb_rep ?l2 ([] @ (a, ?kvs) # [])"
      by (rule lb_rep_change [OF _ c(1) c'(2-4) srt']) (use rep root in auto)
    moreover have "lb_remove key l = Inr (Res_ok, ?l2)" using run False by (simp only: if_False)
    ultimately show ?thesis using del nr by (intro exI [of _ ?l2] exI [of _ "[(a, ?kvs)]"]) simp
  qed
qed

text \<open>The steps on a bin with a root.\<close>

lemma lb_remove_root:
  assumes rep: "lb_rep l (xs @ (a, kvs) # ys)" and root: "lb_root l = Some r" and nr: "\<not> lb_retraining l"
    and find: "find_lower (rb_slotkey r) (rb_slotuse r) key = Inr (length xs)" "nth_res (rb_children r) (length xs) = Inr a"
    and c: "lb_heap l a = Some c" "cb_rep c kvs" and key: "key \<in> set (map fst kvs)"
  defines "p \<equiv> lb (map fst kvs) key"
  obtains c' where "p < length kvs" "fst (kvs ! p) = key"
    "cb_rep c' (take p kvs @ drop (Suc p) kvs)" "cb_prevbin c' = cb_prevbin c" "cb_nextbin c' = cb_nextbin c"
    "lb_remove key l = (let l2 = l\<lparr>lb_heap := (lb_heap l)(a \<mapsto> c')\<rparr> in
       if take p kvs @ drop (Suc p) kvs = [] then unlink_child a (length xs) l2
       else if p = cb_slotuse c' then
                  bind_res (root_upd rb_lock l2) (\<lambda>l3.
                  bind_res (root_upd (\<lambda>r.
                    bind_res (if length xs < rootslotmax then
                                bind_res (nth_int (cb_slotkey c') (int (cb_slotuse c') - 1)) (upd_res (rb_slotkey r) (length xs))
                              else Inr (rb_slotkey r)) (\<lambda>ks. Inr (rb_commit (r\<lparr>rb_slotkey := ks\<rparr>)))) l3) (\<lambda>l4.
                    Inr (Res_ok, l4)))
                else Inr (Res_ok, l2))"
proof -
  have srt: "ssorted (lb_keys (xs @ (a, kvs) # ys))" using rep by (simp add: lb_rep_def)
  have sk: "ssorted (map fst kvs)" by (rule child_sorted [OF srt])
  have p: "p < length kvs" "fst (kvs ! p) = key" using key mem_at_lb [OF sk, of key] unfolding p_def by blast+
  have arr: "cb_arr c kvs" using c(2) by (simp add: cb_rep_def)
  have hit: "cb_find c key = Inr p" "cb_hit c key p" using cb_arr_find [OF arr sk] cb_arr_hit [OF arr] p by (auto simp: p_def)
  obtain c' where c': "bind_res (cb_upd a cb_lock l) (\<lambda>l1.
      cb_upd a (\<lambda>c. bind_res (cb_remove_at p c) (\<lambda>c. Inr (cb_commit c))) l1) = Inr (l\<lparr>lb_heap := (lb_heap l)(a \<mapsto> c')\<rparr>)"
    "cb_rep c' (take p kvs @ drop (Suc p) kvs)" "cb_prevbin c' = cb_prevbin c" "cb_nextbin c' = cb_nextbin c"
    by (rule remove_in_child [OF c p(1)])
  let ?l2 = "l\<lparr>lb_heap := (lb_heap l)(a \<mapsto> c')\<rparr>"
  have "cb_slotuse c' = length (take p kvs @ drop (Suc p) kvs)" using c'(2) unfolding cb_rep_def cb_arr_def by blast
  then have use: "cb_slotuse c' = 0 \<longleftrightarrow> take p kvs @ drop (Suc p) kvs = []" by (simp only: length_0_conv)
  have load: "cb_load l a = Inr c" "cb_load ?l2 a = Inr c'" using c(1) by (simp_all add: cb_load_def)
  let ?k = "\<lambda>l2. bind_res (cb_load l2 a) (\<lambda>child.
                if cb_slotuse child = 0 then unlink_child a (length xs) l2
                else if p = cb_slotuse child then
                  bind_res (root_upd rb_lock l2) (\<lambda>l3.
                  bind_res (root_upd (\<lambda>r.
                    bind_res (if length xs < rootslotmax then
                                bind_res (nth_int (cb_slotkey child) (int (cb_slotuse child) - 1)) (upd_res (rb_slotkey r) (length xs))
                              else Inr (rb_slotkey r)) (\<lambda>ks. Inr (rb_commit (r\<lparr>rb_slotkey := ks\<rparr>)))) l3) (\<lambda>l4.
                    Inr (Res_ok, l4)))
                else Inr (Res_ok, l2))"
  have "lb_remove key l = bind_res (bind_res (cb_upd a cb_lock l) (\<lambda>l1.
      cb_upd a (\<lambda>c. bind_res (cb_remove_at p c) (\<lambda>c. Inr (cb_commit c))) l1)) ?k"
    using nr unfolding lb_remove_def by (simp only: root find load(1) hit if_False option.case bind_res_simps bind_res_assoc not_True_eq_False)
  also have "\<dots> = ?k ?l2" unfolding c'(1) bind_res_simps ..
  finally have "lb_remove key l = ?k ?l2" .
  then show ?thesis using that [OF p c'(2-4)] unfolding load(2) bind_res_simps use Let_def by blast
qed

lemma lb_remove_spec:
  assumes rep: "lb_rep l cs" and nr: "\<not> lb_retraining l" and ns: "\<not> strands key cs"
  shows "\<exists>l' cs'. lb_remove key l = Inr (if key \<in> set (lb_keys cs) then Res_ok else Res_failed, l') \<and> lb_rep l' cs'
    \<and> lb_pairs cs' = pairs_del key (lb_pairs cs) \<and> \<not> lb_retraining l'"
proof (cases "key \<in> set (lb_keys cs)")
  case False
  have "lb_remove key l = Inr (Res_failed, l)"
  proof (cases rule: lb_cases [OF rep, where key = key])
    case 1
    then show ?thesis using nr by (simp add: lb_remove_def)
  next
    case (2 a kvs c)
    have arr: "cb_arr c kvs" and sk: "ssorted (map fst kvs)" using 2 rep by (auto simp: cb_rep_def lb_rep_def)
    have "\<not> cb_hit c key (lb (map fst kvs) key)" using False 2(1) mem_at_lb [OF sk, of key] cb_arr_hit [OF arr] by auto
    then show ?thesis using 2 nr cb_arr_find [OF arr sk, of key] by (simp add: lb_remove_def cb_load_def)
  next
    case (3 r xs a kvs ys c)
    have arr: "cb_arr c kvs" and sk: "ssorted (map fst kvs)" using 3 rep by (auto simp: cb_rep_def lb_rep_def sorted_wrt_append)
    have "\<not> cb_hit c key (lb (map fst kvs) key)" using False 3(3) mem_at_lb [OF sk, of key] cb_arr_hit [OF arr] by auto
    then show ?thesis using 3 nr cb_arr_find [OF arr sk, of key] by (simp add: lb_remove_def cb_load_def)
  qed
  then show ?thesis using False rep nr pairs_del_notin [OF False] by auto
next
  case True
  show ?thesis
  proof (cases rule: lb_cases [OF rep, where key = key])
    case 1
    then show ?thesis using True by simp
  next
    case (2 a kvs c)
    have "key \<in> set (map fst kvs)" using True 2(1) by simp
    then show ?thesis using lb_remove_single [OF rep [unfolded 2(1)] 2(2) nr 2(5,6)] 2(1) True by simp
  next
    case (3 r xs a kvs ys c)
    have rep': "lb_rep l (xs @ (a, kvs) # ys)" using rep 3(3) by simp
    have key: "key \<in> set (map fst kvs)" using True 3(3) around_notin [OF 3(4)] by auto
    let ?p = "lb (map fst kvs) key" and ?l2 = "\<lambda>c'. l\<lparr>lb_heap := (lb_heap l)(a \<mapsto> c')\<rparr>"
    let ?kvs = "take ?p kvs @ drop (Suc ?p) kvs"
    obtain c' where c': "?p < length kvs" "fst (kvs ! ?p) = key" "cb_rep c' ?kvs" "cb_prevbin c' = cb_prevbin c" "cb_nextbin c' = cb_nextbin c"
      "lb_remove key l = (let l2 = ?l2 c' in
       if ?kvs = [] then unlink_child a (length xs) l2
       else if ?p = cb_slotuse c' then
                  bind_res (root_upd rb_lock l2) (\<lambda>l3.
                  bind_res (root_upd (\<lambda>r.
                    bind_res (if length xs < rootslotmax then
                                bind_res (nth_int (cb_slotkey c') (int (cb_slotuse c') - 1)) (upd_res (rb_slotkey r) (length xs))
                              else Inr (rb_slotkey r)) (\<lambda>ks. Inr (rb_commit (r\<lparr>rb_slotkey := ks\<rparr>)))) l3) (\<lambda>l4.
                    Inr (Res_ok, l4)))
                else Inr (Res_ok, l2))"
      by (rule lb_remove_root [OF rep' 3(1) nr 3(6,7,9,10) key])
    have srt: "ssorted (lb_keys (xs @ (a, kvs) # ys))" using rep' by (simp add: lb_rep_def)
    have del: "pairs_del key kvs = ?kvs" by (rule pairs_del_at [OF child_sorted [OF srt] c'(1,2)])
    have dels: "pairs_del key (lb_pairs cs) = lb_pairs (xs @ (a, pairs_del key kvs) # ys)" unfolding 3(3) by (rule pairs_del_child [OF 3(4)])
    show ?thesis
    proof (cases "?kvs = []")
      case gone: True
      obtain v where kvs: "kvs = [(key, v)]" by (rule pairs_del_single [OF gone c'(1,2)])
      have nst: "\<not> stranded xs ys" by (rule not_strands) (use ns 3(3) kvs in simp)
      have ok: "chain_ok l (xs @ (a, kvs) # ys)" and rr: "root_rep r (xs @ (a, kvs) # ys)" using rep' 3(1) unfolding lb_rep_def by auto
      have ok2: "chain_ok (?l2 c') (xs @ (a, ?kvs) # ys)" by (rule chain_change [OF ok 3(9) c'(3-5)])
      have srt2: "ssorted (lb_keys (xs @ ys))" using srt unfolding kvs by (simp add: sorted_wrt_append)
      have root2: "lb_root (?l2 c') = Some r" using 3(1) by simp
      obtain l' where l': "unlink_child a (length xs) (?l2 c') = Inr (Res_ok, l')" "lb_rep l' (xs @ ys)" "lb_retraining l' = lb_retraining (?l2 c')"
        by (rule unlink_child_rep [OF ok2 root2 rr srt2 nst])
      have "lb_remove key l = unlink_child a (length xs) (?l2 c')" using c'(6) gone unfolding Let_def by (metis (full_types))
      then have "lb_remove key l = Inr (Res_ok, l')" using l'(1) by simp
      then show ?thesis using l'(2,3) True nr dels del gone by (intro exI [of _ l'] exI [of _ "xs @ ys"]) simp
    next
      case False
      obtain l' where l': "(if ?p = cb_slotuse c' then
                  bind_res (root_upd rb_lock (?l2 c')) (\<lambda>l3.
                  bind_res (root_upd (\<lambda>r.
                    bind_res (if length xs < rootslotmax then
                                bind_res (nth_int (cb_slotkey c') (int (cb_slotuse c') - 1)) (upd_res (rb_slotkey r) (length xs))
                              else Inr (rb_slotkey r)) (\<lambda>ks. Inr (rb_commit (r\<lparr>rb_slotkey := ks\<rparr>)))) l3) (\<lambda>l4.
                    Inr (Res_ok, l4)))
                else Inr (Res_ok, ?l2 c')) = Inr (Res_ok, l')"
        "lb_rep l' (xs @ (a, pairs_del key kvs) # ys)" "lb_retraining l' = lb_retraining l"
        by (rule remove_nonempty [OF rep' 3(1,9,10) c'(1-5) False 3(4)])
      have "lb_remove key l = Inr (Res_ok, l')" using c'(6) False l'(1) unfolding Let_def by (simp only: if_False)
      then show ?thesis using l'(2,3) True nr dels by auto
    qed
  qed
qed

text \<open>In the excepted case the root keeps the freed child as its last one.\<close>

lemma lb_remove_strands:
  assumes rep: "lb_rep l (xs @ [(a, [(key, v)]), (b, kvs)])" and nr: "\<not> lb_retraining l" and xs: "xs \<noteq> []"
  obtains l' where "lb_remove key l = Inr (Res_ok, l')" "\<not> lb_retraining l'"
    "\<And>k. \<forall>x \<in> set (lb_keys xs). x < k \<Longrightarrow> lb_child k l' = Inl NullDeref"
proof -
  let ?cs = "xs @ (a, [(key, v)]) # [(b, kvs)]"
  have rep': "lb_rep l ?cs" using rep by simp
  obtain r where root: "lb_root l = Some r" using rep' xs by (cases "lb_root l") (auto simp: lb_rep_def)
  have ok: "chain_ok l ?cs" and rr: "root_rep r ?cs" and srt: "ssorted (lb_keys ?cs)" using rep' root unfolding lb_rep_def by auto
  have ar: "around key xs [(b, kvs)]" using srt by (auto simp: around_def sorted_wrt_append)
  have use: "rb_slotuse r = length xs + 1" "length (rb_slotkey r) = rootslotmax" "length (rb_children r) = rootslotmax + 1" "rb_slotuse r \<le> rootslotmax"
    and sk: "take (rb_slotuse r) (rb_slotkey r) = seps ?cs" and ch: "take (length ?cs) (rb_children r) = map fst ?cs"
    and ne: "\<forall>c \<in> set xs. snd c \<noteq> []"
    using rr by (auto simp: root_rep_def)
  have seps: "seps ?cs = map (\<lambda>c. fst (last (snd c))) xs @ [key]" by (simp add: seps_def butlast_append)
  have srt': "sorted (seps ?cs)" by (rule ssorted_map_last_keys [OF srt]) (use rr in \<open>unfold root_rep_def, blast\<close>)
  let ?A = "map (\<lambda>c. fst (last (snd c))) xs"
  have lasts: "fst (last (snd c)) \<in> set (lb_keys xs)" if "c \<in> set xs" for c
  proof -
    have "last (snd c) \<in> set (lb_pairs xs)" using that ne by (force simp: lb_pairs_def)
    then show ?thesis by simp
  qed
  have less: "\<forall>x \<in> set ?A. x < k" if "\<forall>x \<in> set (lb_keys xs). x < k" for k
  proof
    fix x assume "x \<in> set ?A"
    then obtain c where "c \<in> set xs" "x = fst (last (snd c))" by auto
    then have "x \<in> set (lb_keys xs)" using lasts by blast
    then show "x < k" using that by blast
  qed
  have find: "find_lower (rb_slotkey r) (rb_slotuse r) key = Inr (length xs)"
  proof -
    have "\<forall>x \<in> set (lb_keys xs). x < key" using ar unfolding around_def by blast
    then have "\<forall>x \<in> set ?A. x < key" by (rule less)
    then have "lb (seps ?cs) key = length xs" unfolding seps lb_def by (simp only: takeWhile_append2) simp
    then show ?thesis using find_lower_lb [of "rb_slotuse r" "rb_slotkey r" key] srt' sk use by simp
  qed
  have chs: "take (length xs + 2) (rb_children r) = map fst xs @ [a, b]" using ch by simp
  have nth: "nth_res (rb_children r) (length xs) = Inr a"
  proof -
    have "rb_children r ! length xs = take (length xs + 2) (rb_children r) ! length xs" by simp
    then show ?thesis unfolding chs using use by (simp add: nth_append)
  qed
  obtain c where c: "lb_heap l a = Some c" "cb_rep c [(key, v)]" by (rule chain_at [OF ok])
  have p0: "lb (map fst [(key, v)]) key = 0" by (simp add: lb_def)
  obtain c' where c': "cb_rep c' []" "cb_prevbin c' = cb_prevbin c" "cb_nextbin c' = cb_nextbin c"
    and run: "lb_remove key l = unlink_child a (length xs) (l\<lparr>lb_heap := (lb_heap l)(a \<mapsto> c')\<rparr>)"
    by (rule lb_remove_root [OF rep' root nr find nth c]) (simp_all add: p0 Let_def)
  let ?l2 = "l\<lparr>lb_heap := (lb_heap l)(a \<mapsto> c')\<rparr>"
  have ok2: "chain_ok ?l2 (xs @ (a, []) # [(b, kvs)])" by (rule chain_change [OF ok c(1) c'])
  let ?r = "r\<lparr>rb_locked := True, rb_slotuse := rb_slotuse r - 1\<rparr>"
  have drop: "root_drop (length xs) (r\<lparr>rb_locked := True\<rparr>) = Inr ?r" using use(1) by (simp add: root_drop_def)
  have root2: "lb_root ?l2 = Some r" "\<not> rb_locked r" using root rr by (auto simp: root_rep_def)
  obtain l3 where l3: "unlink_child a (length xs) ?l2 = (if rb_slotuse ?r = 0
      then assert_res (lb_headbin l3 = lb_tailbin l3) (Inr (Res_ok, l3\<lparr>lb_root := None\<rparr>))
      else Inr (Res_ok, l3\<lparr>lb_root := Some (rb_commit ?r)\<rparr>))"
    "lb_retraining l3 = lb_retraining ?l2" "lb_heap l3 a = None"
    by (rule unlink_child_run [OF ok2 root2 drop])
  have "lb_child k (l3\<lparr>lb_root := Some (rb_commit ?r)\<rparr>) = Inl NullDeref" if k: "\<forall>x \<in> set (lb_keys xs). x < k" for k
  proof -
    have "take (rb_slotuse ?r) (rb_slotkey ?r) = take (length xs) (take (rb_slotuse r) (rb_slotkey r))" using use(1) by simp
    then have s: "take (rb_slotuse ?r) (rb_slotkey ?r) = ?A" unfolding sk seps by simp
    have "\<forall>x \<in> set ?A. x < k" using k by (rule less)
    then have "takeWhile (\<lambda>x. x < k) ?A = ?A" unfolding takeWhile_eq_all_conv .
    then have "lb ?A k = length xs" unfolding lb_def by (simp only: length_map)
    moreover have "sorted ?A" using srt' unfolding seps by (simp add: sorted_append)
    ultimately have "find_lower (rb_slotkey r) (length xs) k = Inr (length xs)"
      using find_lower_lb [of "length xs" "rb_slotkey r" k] s use by simp
    then show ?thesis using nth use(1) l3(3) by (simp add: lb_child_def rb_commit_def cb_load_def)
  qed
  then show ?thesis using that [of "l3\<lparr>lb_root := Some (rb_commit ?r)\<rparr>"] run l3(1,2) use(1) xs nr by simp
qed

end
