(* ===== verification/Level_Bin_Correct.thy ===== *)
theory Level_Bin_Correct
  imports Level_Bin_Remove
begin

text \<open>
  The level bin as a whole: scans, the collection for retraining and the self check on states of the
  representation; a run of operations against a map; the properties.
\<close>

section \<open>Scan\<close>

lemma root_children_nonempty: "lb_rep l cs \<Longrightarrow> 1 < length cs \<Longrightarrow> c \<in> set cs \<Longrightarrow> snd c \<noteq> []"
  by (auto simp: lb_rep_def root_rep_def split: option.splits)

lemma scan_loop_pairs:
  assumes "cchain (lb_heap l) prev ((a, kvs) # ys) 0" and "\<forall>c \<in> set ys. snd c \<noteq> []" and "slot < length kvs"
  shows "lb_scan_loop n a slot l = Inr (n - length (drop slot kvs @ lb_pairs ys), take n (drop slot kvs @ lb_pairs ys))"
  using assms
proof (induction n arbitrary: prev a kvs ys slot)
  case 0
  then show ?case by simp
next
  case (Suc n)
  obtain c where c: "a \<noteq> 0" "lb_heap l a = Some c" "cb_arr c kvs" "cb_nextbin c = first_addr ys 0" and ch: "cchain (lb_heap l) a ys 0"
    using Suc.prems(1) by (auto simp: cb_rep_def)
  have use: "cb_slotuse c = length kvs" using c(3) by (simp add: cb_arr_def)
  note nth = cb_arr_nth [OF c(3) Suc.prems(3)]
  have d: "drop slot kvs = kvs ! slot # drop (Suc slot) kvs" using Suc.prems(3) by (simp add: Cons_nth_drop_Suc)
  have step: "lb_scan_loop (Suc n) a slot l =
      bind_res (if length kvs \<le> slot + 1 then lb_scan_loop n (first_addr ys 0) 0 l else lb_scan_loop n a (slot + 1) l)
        (\<lambda>(remaining, kvs'). Inr (remaining, kvs ! slot # kvs'))"
    using c nth use by (simp add: cb_load_def)
  show ?case
  proof (cases "length kvs \<le> slot + 1")
    case True
    then have end_: "drop (Suc slot) kvs = []" by simp
    show ?thesis
    proof (cases ys)
      case Nil
      have "lb_scan_loop n 0 0 l = Inr (n, [])" by (cases n) simp_all
      then show ?thesis unfolding step d using True Nil end_ by simp
    next
      case (Cons y ys')
      obtain b kb where y: "y = (b, kb)" by (cases y)
      have "0 < length kb" using Suc.prems(2) Cons y by auto
      then have "lb_scan_loop n b 0 l = Inr (n - length (kb @ lb_pairs ys'), take n (kb @ lb_pairs ys'))"
        using Suc.IH [of a b kb ys' 0] ch Suc.prems(2) Cons y by auto
      then show ?thesis unfolding step d using True Cons y end_ by simp
    qed
  next
    case False
    then have "lb_scan_loop n a (slot + 1) l = Inr (n - length (drop (Suc slot) kvs @ lb_pairs ys), take n (drop (Suc slot) kvs @ lb_pairs ys))"
      using Suc.IH [OF Suc.prems(1,2), of "slot + 1"] by simp
    then show ?thesis unfolding step d using False by simp
  qed
qed

lemma filter_ge_around:
  assumes srt: "ssorted (map fst kvs)" and ar: "around key xs ys"
  shows "filter (\<lambda>kv. key \<le> fst kv) (lb_pairs (xs @ (a, kvs) # ys)) = drop (lb (map fst kvs) key) kvs @ lb_pairs ys"
proof -
  let ?p = "lb (map fst kvs) key"
  have "\<forall>kv \<in> set (lb_pairs xs). \<not> key \<le> fst kv" "\<forall>kv \<in> set (lb_pairs ys). key \<le> fst kv"
    using ar by (auto simp: around_def not_le order_less_imp_le)
  then have 1: "filter (\<lambda>kv. key \<le> fst kv) (lb_pairs xs) = []" "filter (\<lambda>kv. key \<le> fst kv) (lb_pairs ys) = lb_pairs ys"
    by (simp_all add: filter_empty_conv filter_True)
  have "\<forall>kv \<in> set (take ?p kvs). \<not> key \<le> fst kv" "\<forall>kv \<in> set (drop ?p kvs). key \<le> fst kv"
    using lb_split_pairs(2,3) [OF srt, of key] by (auto simp: not_le)
  then have "filter (\<lambda>kv. key \<le> fst kv) (take ?p kvs) = []" "filter (\<lambda>kv. key \<le> fst kv) (drop ?p kvs) = drop ?p kvs"
    by (simp_all add: filter_empty_conv filter_True)
  then have "filter (\<lambda>kv. key \<le> fst kv) (take ?p kvs @ drop ?p kvs) = drop ?p kvs" by (simp only: filter_append append_Nil)
  then show ?thesis using 1 by simp
qed

lemma lb_scan_spec:
  assumes rep: "lb_rep l cs" and k: "k \<in> set (lb_keys cs)" "key \<le> k"
  defines "rest \<equiv> filter (\<lambda>kv. key \<le> fst kv) (lb_pairs cs)"
  shows "lb_scan key n l = Inr (to_i32 (int (n - length rest)), take n rest)"
proof -
  have main: "lb_scan_loop n a p l = Inr (n - length rest, take n rest) \<and> cb_find c key = Inr p"
    if cs: "cs = xs @ (a, kvs) # ys" and ar: "around key xs ys" and c: "lb_heap l a = Some c" "cb_rep c kvs"
      and ne: "\<forall>c \<in> set ys. snd c \<noteq> []" and last: "ys \<noteq> [] \<longrightarrow> kvs \<noteq> [] \<and> key \<le> fst (last kvs)" and p: "p = lb (map fst kvs) key"
    for xs a kvs ys c p
  proof -
    have "chain_ok l cs" and srt: "ssorted (lb_keys cs)" using rep by (auto simp: lb_rep_def)
    then have ch: "cchain (lb_heap l) (last_addr xs 0) ((a, kvs) # ys) 0" unfolding cs by (simp add: chain_ok_def cchain_append)
    have sk: "ssorted (map fst kvs)" by (rule child_sorted [of xs a kvs ys]) (use srt cs in simp)
    have rest: "rest = drop p kvs @ lb_pairs ys" unfolding rest_def cs p by (rule filter_ge_around [OF sk ar])
    have "p < length kvs"
    proof (rule ccontr)
      assume "\<not> p < length kvs"
      then have tk: "take p kvs = kvs" "drop p kvs = []" by simp_all
      have below: "\<forall>x \<in> set (map fst kvs). x < key" using lb_split_pairs(2) [OF sk, of key] unfolding p [symmetric] tk .
      show False
      proof (cases "ys = []")
        case True
        then have "rest = []" using rest tk by simp
        moreover have "\<exists>kv \<in> set (lb_pairs cs). key \<le> fst kv" using k by auto
        ultimately show False by (auto simp: rest_def filter_empty_conv)
      next
        case False
        then have "fst (last kvs) < key" using below last by simp
        then show False using last False by (simp add: leD)
      qed
    qed
    then have "lb_scan_loop n a p l = Inr (n - length rest, take n rest)" unfolding rest by (rule scan_loop_pairs [OF ch ne])
    moreover have "cb_find c key = Inr p" using cb_arr_find [OF _ sk] c(2) p by (simp add: cb_rep_def)
    ultimately show ?thesis by blast
  qed
  show ?thesis
  proof (cases rule: lb_cases [OF rep, where key = key])
    case 1
    then show ?thesis using k by simp
  next
    case (2 a kvs c)
    note m = main [of "[]" a kvs "[]" c, OF _ _ 2(5,6) _ _ refl]
    show ?thesis using m 2 by (simp add: lb_scan_def around_def cb_load_def)
  next
    case (3 r xs a kvs ys c)
    have ne: "\<forall>c \<in> set cs. snd c \<noteq> []" using 3(2) unfolding root_rep_def by blast
    have "lb_scan_loop n a (lb (map fst kvs) key) l = Inr (n - length rest, take n rest) \<and> cb_find c key = Inr (lb (map fst kvs) key)"
      by (rule main [OF 3(3,4,9,10) _ _ refl]) (use ne 3(3,5) in auto)
    then show ?thesis using 3(1,6,7,8,9) by (simp add: lb_scan_def cb_load_def)
  qed
qed

section \<open>Collection and self check\<close>

lemma resort_loop_pairs:
  "cchain h prev cs nxt \<Longrightarrow> lb_heap l = h \<Longrightarrow>
    resort_loop (map fst cs) l = Inr (length (lb_pairs cs), lb_keys cs, map snd (lb_pairs cs))"
proof (induction cs arbitrary: prev)
  case (Cons x cs)
  obtain a kvs where x: "x = (a, kvs)" by (cases x)
  obtain c where c: "h a = Some c" "cb_arr c kvs" and ch: "cchain h a cs nxt" using Cons.prems(1) x by (auto simp: cb_rep_def)
  have "cb_slotuse c = length kvs" "length kvs \<le> length (cb_slotkey c)" "length kvs \<le> length (cb_slotdata c)"
    "take (length kvs) (cb_slotkey c) = map fst kvs" "take (length kvs) (cb_slotdata c) = map snd kvs"
    using c(2) by (auto simp: cb_arr_def)
  then show ?case using Cons.IH [OF ch Cons.prems(2)] c(1) Cons.prems(2) x by (simp add: cb_load_def)
qed simp

lemma lb_resort_spec:
  assumes rep: "lb_rep l cs" and root: "lb_root l \<noteq> None"
  shows "lb_resort l = Inr (lb_keys cs, map snd (lb_pairs cs))"
proof -
  obtain r where r: "lb_root l = Some r" using root by auto
  have rr: "root_rep r cs" and ch: "cchain (lb_heap l) 0 cs 0" and srt: "ssorted (lb_keys cs)"
    using rep r by (auto simp: lb_rep_def chain_ok_def)
  have "take (rb_slotuse r + 1) (rb_children r) = map fst cs" "rb_slotuse r + 1 \<le> length (rb_children r)"
    using rr by (auto simp: root_rep_def)
  then show ?thesis using r resort_loop_pairs [OF ch refl] srt by (simp add: lb_resort_def)
qed

lemma cb_self_check_rep:
  assumes "cb_rep c kvs" and "ssorted (map fst kvs)"
  shows "cb_self_check c"
proof -
  have arr: "cb_arr c kvs" using assms(1) by (simp add: cb_rep_def)
  have "cb_slotkey c ! (i - 1) < cb_slotkey c ! i" if i: "i \<in> {1..<cb_slotuse c}" for i
  proof -
    have il: "i < length kvs" "i - 1 < i" "i - 1 < length kvs" using i arr by (auto simp: cb_arr_def)
    have "map fst kvs ! (i - 1) < map fst kvs ! i" using sorted_wrt_nth_less [OF assms(2) il(2)] il(1) by simp
    then show ?thesis using cb_arr_nth(1) [OF arr il(1)] cb_arr_nth(1) [OF arr il(3)] il by simp
  qed
  then show ?thesis by (simp add: cb_self_check_def)
qed

lemma lb_self_check_rep:
  assumes rep: "lb_rep l cs"
  shows "lb_self_check l"
proof -
  have ch: "cchain (lb_heap l) 0 cs 0" and srt: "ssorted (lb_keys cs)" and ends: "lb_headbin l = first_addr cs 0" "lb_tailbin l = last_addr cs 0"
    using rep by (auto simp: lb_rep_def chain_ok_def)
  have at: "\<exists>c. lb_heap l (fst (cs ! i)) = Some c \<and> cb_self_check c \<and> cb_arr c (snd (cs ! i))" if "i < length cs" for i
  proof -
    obtain a kvs where x: "cs ! i = (a, kvs)" by (cases "cs ! i")
    have mem: "(a, kvs) \<in> set cs" using that x by (metis nth_mem)
    obtain xs ys where s: "cs = xs @ (a, kvs) # ys" using split_list [OF mem] by blast
    have sk: "ssorted (map fst kvs)" by (rule child_sorted [of xs a kvs ys]) (use srt s in simp)
    obtain c where "lb_heap l a = Some c" "cb_rep c kvs" using cchain_mem [OF ch mem] by auto
    then show ?thesis using cb_self_check_rep [OF _ sk] x by (auto simp: cb_rep_def)
  qed
  show ?thesis
  proof (cases "lb_root l")
    case None
    then have "length cs \<le> 1" using rep by (simp add: lb_rep_def)
    then consider "cs = []" | x where "cs = [x]" by (cases cs) auto
    then show ?thesis
    proof cases
      case 1
      then show ?thesis using None ends by (simp add: lb_self_check_def)
    next
      case (2 x)
      then show ?thesis using None ends at [of 0] by (auto simp: lb_self_check_def)
    qed
  next
    case (Some r)
    then have rr: "root_rep r cs" using rep by (simp add: lb_rep_def)
    let ?n = "rb_slotuse r"
    have d: "Suc ?n = length cs" "take ?n (rb_slotkey r) = seps cs" "take (length cs) (rb_children r) = map fst cs" "\<forall>c \<in> set cs. snd c \<noteq> []"
      using rr by (auto simp: root_rep_def)
    have child: "rb_children r ! i = fst (cs ! i)" if "i < length cs" for i
    proof -
      have "take (length cs) (rb_children r) ! i = rb_children r ! i" using that by simp
      then show ?thesis using d(3) that by simp
    qed
    have sep: "rb_slotkey r ! i = fst (last (snd (cs ! i)))" if "i < ?n" for i
    proof -
      have "take ?n (rb_slotkey r) ! i = rb_slotkey r ! i" using that by simp
      then show ?thesis using d(1,2) that by (simp add: seps_def nth_butlast)
    qed
    have "case lb_heap l (rb_children r ! i) of None \<Rightarrow> False
        | Some c \<Rightarrow> cb_self_check c \<and> rb_slotkey r ! i = cb_slotkey c ! (cb_slotuse c - 1)" if "i < ?n" for i
    proof -
      have i: "i < length cs" using that d(1) by simp
      obtain c where c: "lb_heap l (fst (cs ! i)) = Some c" "cb_self_check c" "cb_arr c (snd (cs ! i))" using at [OF i] by blast
      have ne: "snd (cs ! i) \<noteq> []" using d(4) i by simp
      then have "cb_slotkey c ! (length (snd (cs ! i)) - 1) = fst (last (snd (cs ! i)))"
        using cb_arr_nth(1) [OF c(3), of "length (snd (cs ! i)) - 1"] by (simp add: last_conv_nth)
      then show ?thesis using c sep [OF that] child [OF i] by (simp add: cb_arr_def)
    qed
    moreover have "case lb_heap l (rb_children r ! ?n) of None \<Rightarrow> False | Some c \<Rightarrow> cb_self_check c"
      using at [of ?n] child [of ?n] d(1) by auto
    moreover have "lb_headbin l = rb_children r ! 0" using ends(1) child [of 0] d(1) by (cases cs) auto
    moreover have "lb_tailbin l = rb_children r ! ?n"
    proof -
      have ne: "cs \<noteq> []" using d(1) by auto
      then have "last_addr cs 0 = fst (last cs)" by (cases cs rule: rev_cases) (auto simp: last_addr_def)
      moreover have "length cs - 1 = ?n" using d(1) by linarith
      ultimately show ?thesis using ends(2) child [of ?n] d(1) ne by (simp add: last_conv_nth)
    qed
    ultimately show ?thesis using Some by (simp add: lb_self_check_def)
  qed
qed

section \<open>Runs against a map\<close>

datatype lb_op = LFind key_t | LInsert key_t val_t | LUpdate key_t val_t | LRemove key_t

datatype lb_ans = LRes result_t | LVal result_t val_t

definition lb_step :: "lb_op \<Rightarrow> LevelBin \<Rightarrow> (lb_ans \<times> LevelBin) res" where
  "lb_step x l = (case x of
     LFind k \<Rightarrow> bind_res (con_find_retrain k 0 l) (\<lambda>(r, v). Inr (LVal r v, l))
   | LInsert k v \<Rightarrow> bind_res (con_insert_retrain k v l) (\<lambda>(r, l'). Inr (LRes r, l'))
   | LUpdate k v \<Rightarrow> bind_res (lb_update k v l) (\<lambda>(r, l'). Inr (LRes r, l'))
   | LRemove k \<Rightarrow> bind_res (lb_remove k l) (\<lambda>(r, l'). Inr (LRes r, l')))"

text \<open>The answers a map allows, and the map after them; the flag is that of a bin that waits for its
  retraining, which answers nothing any more.\<close>

definition lb_answer :: "bool \<Rightarrow> (key_t \<rightharpoonup> val_t) \<Rightarrow> lb_op \<Rightarrow> lb_ans \<Rightarrow> (bool \<times> (key_t \<rightharpoonup> val_t)) option" where
  "lb_answer rt m x a = (case x of
     LFind k \<Rightarrow>
       if a = (if rt then LVal Res_retrain 0 else case m k of None \<Rightarrow> LVal Res_failed 0 | Some w \<Rightarrow> LVal Res_ok w)
       then Some (rt, m) else None
   | LInsert k v \<Rightarrow>
       if rt then (if a = LRes Res_failed then Some (rt, m) else None)
       else if a = LRes Res_ok \<and> m k = None then Some (rt, m(k \<mapsto> v))
       else if a = LRes Res_failed \<and> m k \<noteq> None then Some (rt, m)
       else if a = LRes Res_retrain then Some (True, m) else None
   | LUpdate k v \<Rightarrow>
       if a = LRes (if rt then Res_retrain else if m k = None then Res_failed else Res_ok)
       then Some (rt, if \<not> rt \<and> m k \<noteq> None then m(k \<mapsto> v) else m) else None
   | LRemove k \<Rightarrow>
       if a = LRes (if rt then Res_retrain else if m k = None then Res_failed else Res_ok)
       then Some (rt, if \<not> rt then m(k := None) else m) else None)"

text \<open>The test for the removal that damages the root.\<close>

definition lb_strands :: "key_t \<Rightarrow> LevelBin \<Rightarrow> bool" where
  "lb_strands key l =
     (case lb_root l of None \<Rightarrow> False
      | Some r \<Rightarrow> 2 \<le> rb_slotuse r \<and> (case find_lower (rb_slotkey r) (rb_slotuse r) key of Inl _ \<Rightarrow> False
        | Inr slot \<Rightarrow> slot + 1 = rb_slotuse r \<and> (case lb_heap l (rb_children r ! slot) of None \<Rightarrow> False
          | Some c \<Rightarrow> cb_slotuse c = 1 \<and> cb_slotkey c ! 0 = key)))"

text \<open>A step beside the map: an answer the map does not allow is an error. The removal that damages the
  root is left out, with the answer \<open>Res_retry\<close> that the code never gives.\<close>

fun lb_track :: "lb_op \<Rightarrow> LevelBin \<times> bool \<times> (key_t \<rightharpoonup> val_t) \<Rightarrow> (lb_ans \<times> LevelBin \<times> bool \<times> (key_t \<rightharpoonup> val_t)) res" where
  "lb_track x (l, rt, m) =
     (if (case x of LRemove k \<Rightarrow> \<not> lb_retraining l \<and> lb_strands k l | _ \<Rightarrow> False) then Inr (LRes Res_retry, l, rt, m)
      else bind_res (lb_step x l) (\<lambda>(a, l').
        case lb_answer rt m x a of None \<Rightarrow> Inl AssertFail | Some (rt', m') \<Rightarrow> Inr (a, l', rt', m')))"

definition lb_tracked :: "LevelBin \<times> bool \<times> (key_t \<rightharpoonup> val_t) \<Rightarrow> bool" where
  "lb_tracked = (\<lambda>(l, rt, m). \<exists>cs. lb_rep l cs \<and> rt = lb_retraining l \<and> m = map_of (lb_pairs cs))"

lemma strands_lb_strands:
  assumes rep: "lb_rep l cs" and s: "strands key cs"
  shows "lb_strands key l"
proof -
  obtain xs a v y where cs: "cs = xs @ [(a, [(key, v)]), y]" "xs \<noteq> []" using s by (auto simp: strands_def)
  show ?thesis
  proof (cases rule: lb_cases [OF rep, where key = key])
    case (3 r xs' a' kvs ys c)
    have at: "cs ! length xs = (a, [(key, v)])" "length xs < length cs" using cs by (simp_all add: nth_append)
    have "\<not> length xs < length xs'"
    proof
      assume "length xs < length xs'"
      then have "(a, [(key, v)]) \<in> set xs'" using at(1) 3(3) by (metis nth_append nth_mem)
      then show False using around_notin [OF 3(4)] by (force simp: lb_pairs_def)
    qed
    moreover have "\<not> length xs' < length xs"
    proof
      assume l: "length xs' < length xs"
      then have "cs ! length xs = ys ! (length xs - length xs' - 1)" using 3(3) by (simp add: nth_append)
      moreover have "length xs - length xs' - 1 < length ys" using l at(2) 3(3) by simp
      ultimately have "(a, [(key, v)]) \<in> set ys" using at(1) by (metis nth_mem)
      then show False using around_notin [OF 3(4)] by (force simp: lb_pairs_def)
    qed
    ultimately have "length xs = length xs'" by simp
    then have e: "a' = a" "kvs = [(key, v)]" "ys = [y]" "length xs' = length xs" using 3(3) cs(1) by auto
    have arr: "cb_arr c kvs" using 3(10) by (simp add: cb_rep_def)
    then have "cb_slotuse c = 1" "cb_slotkey c ! 0 = key" using e cb_arr_nth(1) [OF arr, of 0] by (simp_all add: cb_arr_def)
    moreover have "rb_slotuse r = length xs + 1" using 3(2) cs(1) by (simp add: root_rep_def)
    moreover have "rb_children r ! length xs' = a'" using 3(7) by (simp add: nth_res_def split: if_splits)
    ultimately show ?thesis using 3(1,6,9) e cs(2) by (simp add: lb_strands_def Suc_le_eq)
  qed (use cs in auto)
qed

lemma lb_find_rep:
  assumes "lb_rep l cs" and "\<not> lb_retraining l"
  shows "con_find_retrain key val l = Inr (case map_of (lb_pairs cs) key of None \<Rightarrow> (Res_failed, val) | Some v \<Rightarrow> (Res_ok, v))"
  using con_find_child [OF assms(1), of key val] assms(2) by (simp only: con_find_retrain_def if_False)

lemma lb_mem: "map_of (lb_pairs cs) key = None \<longleftrightarrow> key \<notin> set (lb_keys cs)"
  by (simp add: map_of_eq_None_iff)

lemma lb_track_waiting:
  assumes "lb_retraining l"
  shows "\<exists>a. lb_track x (l, True, m) = Inr (a, l, True, m)"
  using assms by (cases x) (simp_all add: lb_step_def lb_answer_def con_find_retrain_def con_insert_retrain_def lb_update_def lb_remove_def)

lemma lb_track_insert:
  assumes rep: "lb_rep l cs" and nr: "\<not> lb_retraining l"
  shows "\<exists>a s. lb_track (LInsert k v) (l, False, map_of (lb_pairs cs)) = Inr (a, s) \<and> lb_tracked s"
proof -
  obtain r l' where run: "con_insert_retrain k v l = Inr (r, l')" and out: "insert_outcome k v l cs (r, l')"
    using con_insert_spec [OF rep nr, of k v] by (metis prod.exhaust)
  have srt: "ssorted (lb_keys cs)" using rep by (simp add: lb_rep_def)
  show ?thesis
  proof (cases r)
    case Res_ok
    then obtain cs' where "lb_rep l' cs'" "pairs_ins k v (lb_pairs cs) (lb_pairs cs')" "\<not> lb_retraining l'" using out by auto
    moreover from this have "map_of (lb_pairs cs') = (map_of (lb_pairs cs))(k \<mapsto> v)" "map_of (lb_pairs cs) k = None"
      using pairs_ins_map(2,3) [OF _ srt] by (auto simp: lb_mem)
    ultimately show ?thesis using run Res_ok by (auto simp: lb_step_def lb_answer_def lb_tracked_def)
  next
    case Res_failed
    then have "l' = l" "map_of (lb_pairs cs) k \<noteq> None" using out by (auto simp: lb_mem)
    then show ?thesis using run Res_failed rep nr by (auto simp: lb_step_def lb_answer_def lb_tracked_def)
  next
    case Res_retry
    then show ?thesis using out by (simp add: insert_outcome_def)
  next
    case Res_retrain
    then have l': "l' = l\<lparr>lb_retraining := True\<rparr>" using out by simp
    have "lb_rep l' cs" using rep by (simp add: l' lb_rep_def chain_ok_def)
    then show ?thesis using run Res_retrain l' by (auto simp: lb_step_def lb_answer_def lb_tracked_def)
  qed
qed

lemma lb_track_safe:
  assumes "lb_tracked s"
  shows "\<exists>a s'. lb_track x s = Inr (a, s') \<and> lb_tracked s'"
proof -
  obtain l cs where s: "s = (l, lb_retraining l, map_of (lb_pairs cs))" and rep: "lb_rep l cs"
    using assms by (cases s) (auto simp: lb_tracked_def)
  show ?thesis
  proof (cases "lb_retraining l")
    case True
    obtain a where "lb_track x s = Inr (a, s)" using lb_track_waiting [OF True, of x] True by (auto simp: s simp del: lb_track.simps)
    then show ?thesis using assms by blast
  next
    case nr: False
    show ?thesis
    proof (cases x)
      case (LFind k)
      then show ?thesis using lb_find_rep [OF rep nr, of k 0] assms nr s
        by (auto simp: lb_step_def lb_answer_def split: option.splits)
    next
      case (LInsert k v)
      then show ?thesis using lb_track_insert [OF rep nr] nr s by simp
    next
      case (LUpdate k v)
      obtain l' cs' where u: "lb_update k v l = Inr (if k \<in> set (lb_keys cs) then Res_ok else Res_failed, l')" "lb_rep l' cs'"
        "map_of (lb_pairs cs') = (if k \<in> set (lb_keys cs) then (map_of (lb_pairs cs))(k \<mapsto> v) else map_of (lb_pairs cs))" "\<not> lb_retraining l'"
        by (rule lb_update_spec [OF rep nr, of k v])
      have ans: "lb_answer False (map_of (lb_pairs cs)) x (LRes (if k \<in> set (lb_keys cs) then Res_ok else Res_failed))
          = Some (False, map_of (lb_pairs cs'))"
        unfolding LUpdate lb_answer_def u(3) by (auto simp: lb_mem)
      show ?thesis using u(1,2,4) ans nr s unfolding LUpdate
        by (auto simp: lb_step_def lb_tracked_def simp del: lb_pairs_simps)
    next
      case (LRemove k)
      show ?thesis
      proof (cases "lb_strands k l")
        case True
        then show ?thesis using assms nr s LRemove by auto
      next
        case False
        then have "\<not> strands k cs" using strands_lb_strands [OF rep] by blast
        then obtain l' cs' where u: "lb_remove k l = Inr (if k \<in> set (lb_keys cs) then Res_ok else Res_failed, l')" "lb_rep l' cs'"
          "lb_pairs cs' = pairs_del k (lb_pairs cs)" "\<not> lb_retraining l'"
          using lb_remove_spec [OF rep nr] by blast
        have ans: "lb_answer False (map_of (lb_pairs cs)) x (LRes (if k \<in> set (lb_keys cs) then Res_ok else Res_failed))
            = Some (False, map_of (lb_pairs cs'))"
          unfolding LRemove lb_answer_def u(3) pairs_del_map by (auto simp: lb_mem)
        show ?thesis using u(1,2,4) ans nr s False unfolding LRemove
          by (auto simp: lb_step_def lb_tracked_def simp del: lb_pairs_simps)
      qed
    qed
  qed
qed

interpretation lb_ops: op_safety lb_tracked lb_track "\<lambda>_. True" "\<lambda>_. False"
  by unfold_locales (use lb_track_safe in blast)

lemma LevelBin_new_rep: "lb_rep LevelBin_new [(1, [])]"
  by (simp add: lb_rep_def chain_ok_def LevelBin_new_def allocate_childbin_def cb_rep_def cb_arr_def child_bin_new_def)

lemma LevelBin_new_tracked: "lb_tracked (LevelBin_new, False, Map.empty)"
  unfolding lb_tracked_def using LevelBin_new_rep
  by (auto simp: LevelBin_new_def allocate_childbin_def intro!: exI [of _ "[(1, [])]"])

section \<open>Bins to evaluate on\<close>

definition bin_of :: "(key_t \<times> val_t) list \<Rightarrow> addr \<Rightarrow> addr \<Rightarrow> child_bin" where
  "bin_of kvs p n = \<lparr>cb_slotuse = length kvs, cb_locked = False, cb_version = 0,
     cb_slotkey = map fst kvs @ replicate (childslotmax - length kvs) key_max,
     cb_slotdata = map snd kvs @ replicate (childslotmax - length kvs) 0, cb_prevbin = p, cb_nextbin = n\<rparr>"

lemma bin_of_rep: "length kvs \<le> childslotmax \<Longrightarrow> cb_rep (bin_of kvs p n) kvs"
  by (simp add: bin_of_def cb_rep_def cb_arr_def)

lemma bin_of_links [simp]: "cb_prevbin (bin_of kvs p n) = p" "cb_nextbin (bin_of kvs p n) = n"
  by (simp_all add: bin_of_def)

definition lb_ex3 :: LevelBin where
  "lb_ex3 = \<lparr>lb_root = Some (root_bin_new\<lparr>rb_slotuse := 2, rb_slotkey := [10, 20] @ replicate 6 key_max,
       rb_children := [1, 2, 3] @ replicate 6 0\<rparr>),
     lb_headbin = 1, lb_tailbin = 3, lb_retraining = False,
     lb_heap = [1 \<mapsto> bin_of [(5, 50), (10, 100)] 0 2, 2 \<mapsto> bin_of [(20, 200)] 1 3, 3 \<mapsto> bin_of [(30, 300)] 2 0], lb_brk = 4\<rparr>"

lemma lb_ex3_rep: "lb_rep lb_ex3 [(1, [(5, 50), (10, 100)]), (2, [(20, 200)]), (3, [(30, 300)])]"
proof -
  have "cb_rep (bin_of [(5, 50), (10, 100)] 0 2) [(5, 50), (10, 100)]" "cb_rep (bin_of [(20, 200)] 1 3) [(20, 200)]"
    "cb_rep (bin_of [(30, 300)] 2 0) [(30, 300)]" by (simp_all add: bin_of_rep childslotmax_def)
  then show ?thesis
    by (simp add: lb_ex3_def lb_rep_def chain_ok_def root_rep_def root_bin_new_def rootslotmax_def seps_def)
qed

lemma lb_ex3_running: "\<not> lb_retraining lb_ex3"
  by (simp add: lb_ex3_def)

section \<open>Properties\<close>

text \<open>C21. Every sequence of searches, insertions, updates and removals on a new level bin answers all of
  them without an error and as a map does, up to the first answer that asks for retraining; from then on
  nothing changes. (A removal of the only pair of the last but one of three or more children is left out.)\<close>

theorem lb_run_as_map:
  "\<exists>as l rt m. run_ops lb_track xs (LevelBin_new, False, Map.empty) = Inr (as, l, rt, m) \<and> length as = length xs
    \<and> (\<exists>cs. lb_rep l cs \<and> rt = lb_retraining l \<and> m = map_of (lb_pairs cs))"
proof -
  have "list_all (\<lambda>_. True) xs" by (simp add: list_all_iff)
  then obtain as s where "run_ops lb_track xs (LevelBin_new, False, Map.empty) = Inr (as, s)" "lb_tracked s" "length as = length xs"
    using lb_ops.run_safe [OF LevelBin_new_tracked, of xs] by blast
  then show ?thesis by (cases s) (auto simp: lb_tracked_def)
qed

text \<open>Insertion into a well-formed level bin returns: \<open>ok\<close> for a new key, which is then in the map;
  \<open>failed\<close> for a present one, with nothing changed; \<open>retrain\<close> only when the root has all its nine
  children, with the flag set and nothing else changed.\<close>

theorem con_insert_correct:
  assumes "lb_rep l cs" and "\<not> lb_retraining l"
  shows "\<exists>r l'. con_insert_retrain key val l = Inr (r, l') \<and> (case r of
      Res_ok \<Rightarrow> map_of (lb_pairs cs) key = None \<and> \<not> lb_retraining l'
        \<and> (\<exists>cs'. lb_rep l' cs' \<and> map_of (lb_pairs cs') = (map_of (lb_pairs cs))(key \<mapsto> val))
    | Res_failed \<Rightarrow> l' = l \<and> map_of (lb_pairs cs) key \<noteq> None
    | Res_retrain \<Rightarrow> l' = l\<lparr>lb_retraining := True\<rparr> \<and> length cs = rootslotmax + 1
    | Res_retry \<Rightarrow> False)"
proof -
  obtain r l' where run: "con_insert_retrain key val l = Inr (r, l')" and out: "insert_outcome key val l cs (r, l')"
    using con_insert_spec [OF assms, of key val] by (metis prod.exhaust)
  have srt: "ssorted (lb_keys cs)" using assms(1) by (simp add: lb_rep_def)
  show ?thesis
  proof (cases r)
    case Res_ok
    then obtain cs' where cs': "lb_rep l' cs'" "pairs_ins key val (lb_pairs cs) (lb_pairs cs')" "\<not> lb_retraining l'" using out by auto
    then show ?thesis using run Res_ok pairs_ins_map(2,3) [OF cs'(2) srt] by (auto simp: lb_mem)
  qed (use run out in \<open>auto simp: insert_outcome_def lb_mem\<close>)
qed

theorem con_insert_correct_witness:
  "\<exists>r l'. con_insert_retrain 20 7 lb_ex3 = Inr (r, l') \<and> r \<notin> {Res_ok, Res_retry, Res_retrain}"
  using con_insert_correct [OF lb_ex3_rep lb_ex3_running, of 20 7] by (force simp: rootslotmax_def split: result_t.splits)

text \<open>Removal from a well-formed level bin returns \<open>ok\<close> exactly for a present key, which is then
  gone, and keeps the bin well formed; excepted is the only pair of the last but one of three or more
  children.\<close>

theorem lb_remove_correct:
  assumes "lb_rep l cs" and "\<not> lb_retraining l" and "\<not> strands key cs"
  shows "\<exists>l' cs'. lb_remove key l = Inr (if map_of (lb_pairs cs) key = None then Res_failed else Res_ok, l')
    \<and> lb_rep l' cs' \<and> \<not> lb_retraining l' \<and> map_of (lb_pairs cs') = (map_of (lb_pairs cs))(key := None)"
proof -
  obtain l' cs' where "lb_remove key l = Inr (if key \<in> set (lb_keys cs) then Res_ok else Res_failed, l')" "lb_rep l' cs'"
    "lb_pairs cs' = pairs_del key (lb_pairs cs)" "\<not> lb_retraining l'"
    using lb_remove_spec [OF assms] by blast
  then show ?thesis by (intro exI [of _ l'] exI [of _ cs']) (simp add: lb_mem pairs_del_map)
qed

theorem lb_remove_correct_witness:
  "\<exists>l' cs'. lb_remove 5 lb_ex3 = Inr (Res_ok, l') \<and> lb_rep l' cs' \<and> map_of (lb_pairs cs') 10 = Some 100"
proof -
  let ?cs = "[(1, [(5, 50), (10, 100)]), (2, [(20, 200)]), (3, [(30, 300)])]"
  have "\<not> strands 5 ?cs" by (auto simp: strands_def append_eq_Cons_conv Cons_eq_append_conv)
  from lb_remove_correct [OF lb_ex3_rep lb_ex3_running this] show ?thesis by force
qed

text \<open>Removing the only pair of the last but one of three or more children succeeds, but the root keeps
  the freed child as its last one and loses the last one: every later search for a greater key follows the
  freed child.\<close>

theorem lb_remove_strands_last:
  assumes "lb_rep l (xs @ [(a, [(key, v)]), (b, kvs)])" and "\<not> lb_retraining l" and "xs \<noteq> []" and "\<forall>x \<in> set (lb_keys xs). x < k"
  shows "\<exists>l'. lb_remove key l = Inr (Res_ok, l') \<and> con_find_retrain k val l' = Inl NullDeref"
proof -
  obtain l' where l': "lb_remove key l = Inr (Res_ok, l')" "\<not> lb_retraining l'" "lb_child k l' = Inl NullDeref"
    by (rule lb_remove_strands [OF assms(1-3)]) (use assms(4) in blast)
  then show ?thesis by (simp add: con_find_retrain_def)
qed

theorem lb_remove_strands_last_witness:
  "\<exists>l'. lb_remove 20 lb_ex3 = Inr (Res_ok, l') \<and> con_find_retrain 30 0 l' = Inl NullDeref"
  using lb_remove_strands_last [of lb_ex3 "[(1, [(5, 50), (10, 100)])]" 2 20 200 3 "[(30, 300)]" 30 0] lb_ex3_rep lb_ex3_running by simp

text \<open>A search in a well-formed level bin returns the value of the key, or reports it absent and leaves
  the caller's value alone.\<close>

theorem lb_find_correct:
  assumes "lb_rep l cs" and "\<not> lb_retraining l"
  shows "con_find_retrain key val l = Inr (case map_of (lb_pairs cs) key of None \<Rightarrow> (Res_failed, val) | Some v \<Rightarrow> (Res_ok, v))"
  by (rule lb_find_rep [OF assms])

theorem lb_find_correct_witness: "con_find_retrain 20 0 lb_ex3 = Inr (Res_ok, 200)"
  using lb_find_correct [OF lb_ex3_rep lb_ex3_running, of 20 0] by simp

text \<open>A scan from a bound that some key reaches reports the pairs from the bound on in order, as many as
  asked or as there are, and how many are missing.\<close>

theorem lb_scan_correct:
  assumes "lb_rep l cs" and "k \<in> set (lb_keys cs)" and "key \<le> k"
  shows "lb_scan key n l = Inr (to_i32 (int (n - length (filter (\<lambda>kv. key \<le> fst kv) (lb_pairs cs)))),
    take n (filter (\<lambda>kv. key \<le> fst kv) (lb_pairs cs)))"
  by (rule lb_scan_spec [OF assms])

theorem lb_scan_correct_witness: "lb_scan 7 2 lb_ex3 = Inr (0, [(10, 100), (20, 200)])"
  using lb_scan_correct [OF lb_ex3_rep, of 30 7 2] by (simp add: to_i32_def)

text \<open>A scan from a bound above every key does not stop there: it reports the unused slot behind the
  last pair, in a new bin the greatest key with the value 0.\<close>

theorem lb_scan_beyond: "lb_scan key (Suc n) LevelBin_new = Inr (to_i32 (int n), [(key_max, 0)])"
proof -
  have l: "lb_root LevelBin_new = None" "lb_headbin LevelBin_new = 1" "cb_load LevelBin_new 1 = Inr child_bin_new"
    by (simp_all add: LevelBin_new_def allocate_childbin_def cb_load_def)
  have c: "cb_slotuse child_bin_new = 0" "cb_nextbin child_bin_new = 0" "nth_res (cb_slotkey child_bin_new) 0 = Inr key_max"
    "nth_res (cb_slotdata child_bin_new) 0 = Inr 0"
    by (simp_all add: child_bin_new_def childslotmax_def)
  have "lb_scan_loop n 0 0 LevelBin_new = Inr (n, [])" by (cases n) simp_all
  then have "lb_scan_loop (Suc n) 1 0 LevelBin_new = Inr (n, [(key_max, 0)])" by (simp add: l(3) [simplified] c)
  then show ?thesis by (simp add: lb_scan_def l [simplified] c(1) find_lower_def del: lb_scan_loop.simps)
qed

text \<open>C0. In every well-formed level bin the self check holds, and with a root the collection for
  retraining returns all keys in order with their values.\<close>

theorem lb_check_and_resort:
  assumes "lb_rep l cs"
  shows "lb_self_check l" and "lb_root l \<noteq> None \<Longrightarrow> lb_resort l = Inr (lb_keys cs, map snd (lb_pairs cs))"
  using lb_self_check_rep [OF assms] lb_resort_spec [OF assms] by blast+

end
