(* ===== verification/Aidel_Model.thy ===== *)
theory Aidel_Model
  imports Level_Bin_Correct Kanva_Model
begin

text \<open>
  The learned node of the Finedex baseline: \<open>Finedex/aidel_model.h\<close> and \<open>Finedex/aidel_model_impl.h\<close>.

  As in a node of Kanva a linear model predicts a key's position in the array of training keys, and
  between any two keys there is a slot that is empty, a level bin, or, once the bin was full, another
  node. Removed training keys keep their place, with the flag \<open>valid_flag\<close> cleared. Every slot has a lock.

  The tree of nodes is a value. The code's second array of bins, \<open>levelbins\<close>, is filled only by
  \<open>con_insert\<close>, which nothing calls; the operations that work on it are not modelled, and in \<open>self_check\<close>
  its entries are \<open>nullptr\<close>. The model runs one thread: a lock that is taken spins for ever
  (\<open>Inl OutOfFuel\<close>).
\<close>

section \<open>Nodes\<close>

datatype 'd AidelModel =
  AModel (am_w0: 'd) (am_w1: 'd) (am_maxErr: nat) (am_keys: "key_t list") (am_vals: "val_t list")
    (am_valid: "bool list") (am_mobs: "'d ai_mob option list")
and 'd ai_mob = LBin (ab_locked: bool) LevelBin | LModel (ab_locked: bool) "'d AidelModel"

definition AidelModel_new ::
    "'d lr_model \<Rightarrow> key_t list \<Rightarrow> val_t list \<Rightarrow> nat \<Rightarrow> nat \<Rightarrow> 'd AidelModel res" where
  "AidelModel_new lr ks vs sz maxErr =
     (if length ks < sz \<or> length vs < sz then Inl OutOfRange
      else Inr (AModel (lr_w0 lr) (lr_w1 lr) maxErr (take sz ks) (take sz vs) (replicate sz True)
                  (replicate (sz + 1) None)))"

definition am_capacity :: "'d AidelModel \<Rightarrow> nat" where
  "am_capacity m = length (am_keys m)"

definition ai_lock :: "'d ai_mob \<Rightarrow> 'd ai_mob res" where
  "ai_lock mob =
     (if ab_locked mob then Inl OutOfFuel
      else Inr (case mob of LBin _ b \<Rightarrow> LBin True b | LModel _ ai \<Rightarrow> LModel True ai))"

definition ai_unlock :: "'d ai_mob \<Rightarrow> 'd ai_mob" where
  "ai_unlock mob = (case mob of LBin _ b \<Rightarrow> LBin False b | LModel _ ai \<Rightarrow> LModel False ai)"

section \<open>Locating a key\<close>

definition am_predict :: "'d env \<Rightarrow> 'd AidelModel \<Rightarrow> key_t \<Rightarrow> nat" where
  "am_predict env m key =
     (let index_pos = unat (lr_predict (e_fp env) (lr_new (am_w0 m) (am_w1 m)) key)
      in if index_pos < am_capacity m then index_pos else cap_minus1 (am_capacity m))"

definition am_locate :: "'d AidelModel \<Rightarrow> key_t \<Rightarrow> nat \<Rightarrow> nat res" where
  "am_locate m key pos =
     bind_res (locate_window (am_keys m) (am_maxErr m) key pos) (\<lambda>(bgn, fin).
       assert_res (bgn \<le> fin) (locate_loop (am_keys m) key bgn fin))"

definition am_pos :: "'d env \<Rightarrow> 'd AidelModel \<Rightarrow> key_t \<Rightarrow> (nat \<times> key_t) res" where
  "am_pos env m key =
     bind_res (am_locate m key (am_predict env m key)) (\<lambda>pos.
     bind_res (nth_res (am_keys m) pos) (\<lambda>k. Inr (pos, k)))"

section \<open>Operations\<close>

lemma ai_slot_size:
  assumes "nth_res (am_mobs m) i = Inr (Some (LModel lk ai))"
  shows "size ai < size m"
proof -
  from assms have "Some (LModel lk ai) \<in> set (am_mobs m)"
    by (auto simp: nth_res_def split: if_splits) (metis nth_mem)
  then have "size_option size (Some (LModel lk ai)) \<le> size_list (size_option size) (am_mobs m)"
    by (rule size_list_estimation') simp
  then show ?thesis by (cases m) simp
qed

function am_find :: "'d env \<Rightarrow> 'd AidelModel \<Rightarrow> key_t \<Rightarrow> val_t \<Rightarrow> (result_t \<times> val_t) res" where
  "am_find env m key val =
     bind_res (am_pos env m key) (\<lambda>pk.
       if key = snd pk then
         bind_res (nth_res (am_valid m) (fst pk)) (\<lambda>valid.
           if valid then bind_res (nth_res (am_vals m) (fst pk)) (\<lambda>v. Inr (Res_ok, v))
           else Inr (Res_failed, val))
       else
         bind_res (nth_res (am_mobs m) (bin_pos key pk)) (\<lambda>mob.
           case mob of None \<Rightarrow> Inr (Res_failed, val)
           | Some (LBin lk b) \<Rightarrow>
               bind_res (ai_lock (LBin lk b)) (\<lambda>_ :: 'd ai_mob.
               bind_res (con_find_retrain key val b) (\<lambda>(res, v). assert_res (res \<noteq> Res_retrain) (Inr (res, v))))
           | Some (LModel lk ai) \<Rightarrow>
               bind_res (ai_lock (LModel lk ai)) (\<lambda>_.
               bind_res (am_find env ai key val) (\<lambda>(res, v). assert_res (res \<noteq> Res_retrain) (Inr (res, v))))))"
  by pat_completeness auto
termination by (relation "measure (\<lambda>(_, m, _). size m)") (auto intro: ai_slot_size)

declare am_find.simps [simp del]

definition am_set_slot :: "nat \<Rightarrow> 'd ai_mob \<Rightarrow> 'd AidelModel \<Rightarrow> 'd AidelModel" where
  "am_set_slot i mob m =
     AModel (am_w0 m) (am_w1 m) (am_maxErr m) (am_keys m) (am_vals m) (am_valid m) ((am_mobs m)[i := Some mob])"

definition am_set_val :: "nat \<Rightarrow> val_t \<Rightarrow> 'd AidelModel \<Rightarrow> 'd AidelModel res" where
  "am_set_val pos val m =
     bind_res (upd_res (am_vals m) pos val) (\<lambda>vs.
       Inr (AModel (am_w0 m) (am_w1 m) (am_maxErr m) (am_keys m) vs (am_valid m) (am_mobs m)))"

definition am_set_valid :: "nat \<Rightarrow> bool \<Rightarrow> 'd AidelModel \<Rightarrow> 'd AidelModel res" where
  "am_set_valid pos valid m =
     bind_res (upd_res (am_valid m) pos valid) (\<lambda>fs.
       Inr (AModel (am_w0 m) (am_w1 m) (am_maxErr m) (am_keys m) (am_vals m) fs (am_mobs m)))"

function am_update :: "'d env \<Rightarrow> 'd AidelModel \<Rightarrow> key_t \<Rightarrow> val_t \<Rightarrow> (result_t \<times> 'd AidelModel) res" where
  "am_update env m key val =
     bind_res (am_pos env m key) (\<lambda>pk.
       if key = snd pk then
         bind_res (nth_res (am_valid m) (fst pk)) (\<lambda>valid.
           if valid then bind_res (am_set_val (fst pk) val m) (\<lambda>m'. Inr (Res_ok, m'))
           else Inr (Res_failed, m))
       else
         let i = bin_pos key pk in
         bind_res (nth_res (am_mobs m) i) (\<lambda>mob.
           case mob of None \<Rightarrow> Inr (Res_failed, m)
           | Some (LBin lk b) \<Rightarrow>
               bind_res (ai_lock (LBin lk b)) (\<lambda>_ :: 'd ai_mob.
               bind_res (lb_update key val b) (\<lambda>(res, b').
                 assert_res (res \<noteq> Res_retrain) (Inr (res, am_set_slot i (ai_unlock (LBin True b')) m))))
           | Some (LModel lk ai) \<Rightarrow>
               bind_res (ai_lock (LModel lk ai)) (\<lambda>_.
               bind_res (am_update env ai key val) (\<lambda>(res, ai').
                 assert_res (res \<noteq> Res_retrain) (Inr (res, am_set_slot i (ai_unlock (LModel True ai')) m))))))"
  by pat_completeness auto
termination by (relation "measure (\<lambda>(_, m, _). size m)") (auto intro: ai_slot_size)

declare am_update.simps [simp del]

function am_remove :: "'d env \<Rightarrow> 'd AidelModel \<Rightarrow> key_t \<Rightarrow> (result_t \<times> 'd AidelModel) res" where
  "am_remove env m key =
     bind_res (am_pos env m key) (\<lambda>pk.
       if key = snd pk then
         bind_res (nth_res (am_valid m) (fst pk)) (\<lambda>valid.
           if valid then bind_res (am_set_valid (fst pk) False m) (\<lambda>m'. Inr (Res_ok, m'))
           else Inr (Res_failed, m))
       else
         let i = bin_pos key pk in
         bind_res (nth_res (am_mobs m) i) (\<lambda>mob.
           case mob of None \<Rightarrow> Inr (Res_failed, m)
           | Some (LBin lk b) \<Rightarrow>
               bind_res (ai_lock (LBin lk b)) (\<lambda>_ :: 'd ai_mob.
               bind_res (lb_remove key b) (\<lambda>(res, b').
                 assert_res (res \<noteq> Res_retrain) (Inr (res, am_set_slot i (ai_unlock (LBin True b')) m))))
           | Some (LModel lk ai) \<Rightarrow>
               bind_res (ai_lock (LModel lk ai)) (\<lambda>_.
               bind_res (am_remove env ai key) (\<lambda>(res, ai').
                 assert_res (res \<noteq> Res_retrain) (Inr (res, am_set_slot i (ai_unlock (LModel True ai')) m))))))"
  by pat_completeness auto
termination by (relation "measure (\<lambda>(_, m, _). size m)") (auto intro: ai_slot_size)

declare am_remove.simps [simp del]

text \<open>A new node from the pairs of a full level bin.\<close>

definition am_retrain :: "'d env \<Rightarrow> LevelBin \<Rightarrow> 'd AidelModel res" where
  "am_retrain env b =
     bind_res (lb_resort b) (\<lambda>(ks, vs).
     bind_res (lr_train_range (e_fp env) (lr_new (e_w env) (e_b env)) ks) (\<lambda>lr.
       AidelModel_new lr ks vs (length ks) (unat (lr_maxErr lr))))"

fun am_insert :: "nat \<Rightarrow> 'd env \<Rightarrow> 'd AidelModel \<Rightarrow> key_t \<Rightarrow> val_t \<Rightarrow> (result_t \<times> 'd AidelModel) res"
  and am_insert_mob ::
    "nat \<Rightarrow> 'd env \<Rightarrow> 'd AidelModel \<Rightarrow> key_t \<Rightarrow> val_t \<Rightarrow> nat \<Rightarrow> (result_t \<times> 'd AidelModel) res" where
  "am_insert 0 env m key val = Inl OutOfFuel"
| "am_insert (Suc n) env m key val =
     bind_res (am_pos env m key) (\<lambda>pk.
       if key = snd pk then
         bind_res (nth_res (am_valid m) (fst pk)) (\<lambda>valid.
           if valid then Inr (Res_failed, m)
           else
             bind_res (am_set_valid (fst pk) True m) (\<lambda>m1.
             bind_res (am_set_val (fst pk) val m1) (\<lambda>m2. Inr (Res_ok, m2))))
       else am_insert_mob n env m key val (bin_pos key pk))"
| "am_insert_mob n env m key val i =
     bind_res (nth_res (am_mobs m) i) (\<lambda>slot.
     bind_res (ai_lock (case slot of None \<Rightarrow> LBin False LevelBin_new | Some mob \<Rightarrow> mob)) (\<lambda>mob.
       case mob of
         LBin _ b \<Rightarrow>
           bind_res (con_insert_retrain key val b) (\<lambda>(res, b').
             if res = Res_retrain then
               bind_res (am_retrain env b') (\<lambda>ai.
               bind_res (am_insert n env ai key val) (\<lambda>(r, ai'). Inr (r, am_set_slot i (ai_unlock (LModel True ai')) m)))
             else Inr (res, am_set_slot i (ai_unlock (LBin True b')) m))
       | LModel _ ai \<Rightarrow>
           bind_res (am_insert n env ai key val) (\<lambda>(r, ai'). Inr (r, am_set_slot i (ai_unlock (LModel True ai')) m))))"

text \<open>The loop of \<open>scan\<close> over positions, given the scans of the slots; their result, an \<open>int\<close>, becomes a
  \<open>size_t\<close> again.\<close>

function am_scan_loop ::
    "(nat \<Rightarrow> (int \<times> (key_t \<times> val_t) list) res) list \<Rightarrow> 'd AidelModel \<Rightarrow> key_t \<Rightarrow> nat \<Rightarrow> nat \<Rightarrow> (nat \<times> (key_t \<times> val_t) list) res" where
  "am_scan_loop slots m key pos remaining =
     (if 0 < remaining \<and> pos \<le> am_capacity m then
        bind_res (if pos < am_capacity m then
            bind_res (nth_res (am_keys m) pos) (\<lambda>k.
              if key \<le> k then bind_res (nth_res (am_vals m) pos) (\<lambda>v. Inr [(k, v)]) else Inr [])
          else Inr []) (\<lambda>here.
        let remaining1 = remaining - length here in
        if remaining1 = 0 then Inr (0, here)
        else
          bind_res (nth_res slots pos) (\<lambda>scan_slot.
          bind_res (scan_slot remaining1) (\<lambda>(r, kvs).
          bind_res (am_scan_loop slots m key (pos + 1) (sz_of_int r)) (\<lambda>(r', kvs'). Inr (r', here @ kvs @ kvs')))))
      else Inr (remaining, []))"
  by pat_completeness auto
termination by (relation "measure (\<lambda>(_, m, _, pos, _). am_capacity m + 1 - pos)") auto

declare am_scan_loop.simps [simp del]

lemma ai_mob_size:
  assumes "Some (LModel lk ai) \<in> set (am_mobs m)"
  shows "size ai < size m"
proof -
  have "size_option size (Some (LModel lk ai)) \<le> size_list (size_option size) (am_mobs m)"
    by (rule size_list_estimation' [OF assms]) simp
  then show ?thesis by (cases m) simp
qed

function am_scan :: "'d env \<Rightarrow> 'd AidelModel \<Rightarrow> key_t \<Rightarrow> nat \<Rightarrow> (int \<times> (key_t \<times> val_t) list) res" where
  "am_scan env m key n =
     bind_res (am_locate m key (am_predict env m key)) (\<lambda>pos.
     bind_res (am_scan_loop (map (\<lambda>slot r. case slot of None \<Rightarrow> Inr (int r, [])
         | Some (LBin _ b) \<Rightarrow> lb_scan key r b
         | Some (LModel _ ai) \<Rightarrow> am_scan env ai key r) (am_mobs m)) m key pos n)
       (\<lambda>(r, kvs). Inr (to_i32 (int r), kvs)))"
  by pat_completeness auto
termination by (relation "measure (\<lambda>(_, m, _, _). size m)") (auto intro: ai_mob_size)

declare am_scan.simps [simp del]

definition am_self_check :: "'d AidelModel \<Rightarrow> bool" where
  "am_self_check m \<longleftrightarrow> (\<forall>i \<in> {1..<am_capacity m}. am_keys m ! (i - 1) < am_keys m ! i)"

fun am_self_check_retrain :: "'d AidelModel \<Rightarrow> bool" and ai_self_check :: "'d ai_mob \<Rightarrow> bool" where
  "am_self_check_retrain (AModel w0 w1 e ks vs fs mobs) \<longleftrightarrow>
     (\<forall>i \<in> {1..<length ks}. ks ! (i - 1) < ks ! i)
     \<and> list_all (\<lambda>s. case s of None \<Rightarrow> True | Some mob \<Rightarrow> ai_self_check mob) mobs"
| "ai_self_check (LBin lk b) \<longleftrightarrow> lb_self_check b"
| "ai_self_check (LModel lk ai) \<longleftrightarrow> am_self_check_retrain ai"

text \<open>The depth of the tree of nodes and bins, and the insertion with fuel that is enough.\<close>

fun am_depth :: "'d AidelModel \<Rightarrow> nat" and ai_depth :: "'d ai_mob \<Rightarrow> nat" where
  "am_depth (AModel w0 w1 e ks vs fs mobs) =
     Suc (fold max (map (\<lambda>s. case s of None \<Rightarrow> 0 | Some mob \<Rightarrow> ai_depth mob) mobs) 0)"
| "ai_depth (LBin lk b) = 1"
| "ai_depth (LModel lk ai) = am_depth ai"

definition am_con_insert :: "'d env \<Rightarrow> 'd AidelModel \<Rightarrow> key_t \<Rightarrow> val_t \<Rightarrow> (result_t \<times> 'd AidelModel) res" where
  "am_con_insert env m key val = am_insert (am_depth m) env m key val"

end
