(* ===== verification/Aidel_Model_Spec.thy ===== *)
theory Aidel_Model_Spec
  imports Aidel_Model
begin

text \<open>
  The learned node of Finedex as a map. \<open>am_ok\<close> is its invariant, \<open>am_value\<close> the value a node stores for a
  key. Searches return that value, and insertions, updates and removals change it at their key only; a
  retraining changes nothing as long as the predictions of the new model are within 2 to the 31 of the
  positions (\<open>env_close\<close>).
\<close>

section \<open>The invariant\<close>

fun am_ok :: "'d AidelModel \<Rightarrow> bool" and ai_ok :: "'d ai_mob \<Rightarrow> bool" where
  "am_ok (AModel w0 w1 e ks vs fs mobs) \<longleftrightarrow>
     ks \<noteq> [] \<and> ssorted ks \<and> length vs = length ks \<and> length fs = length ks \<and> length mobs = Suc (length ks)
     \<and> e + length ks < 2 ^ 64 \<and> (\<forall>s \<in> set mobs. case s of None \<Rightarrow> True | Some mob \<Rightarrow> ai_ok mob)"
| "ai_ok (LBin lk b) \<longleftrightarrow> \<not> lk \<and> \<not> lb_retraining b \<and> (\<exists>cs. lb_rep b cs)"
| "ai_ok (LModel lk ai) \<longleftrightarrow> \<not> lk \<and> am_ok ai"

lemma am_okD:
  assumes "am_ok m"
  shows "am_keys m \<noteq> []" "ssorted (am_keys m)" "length (am_vals m) = length (am_keys m)" "length (am_valid m) = length (am_keys m)"
    "length (am_mobs m) = Suc (length (am_keys m))" "am_maxErr m + length (am_keys m) < 2 ^ 64"
    "\<And>i mob. i < length (am_mobs m) \<Longrightarrow> am_mobs m ! i = Some mob \<Longrightarrow> ai_ok mob"
proof -
  obtain w0 w1 e ks vs fs mobs where m: "m = AModel w0 w1 e ks vs fs mobs" by (cases m)
  show "am_keys m \<noteq> []" "ssorted (am_keys m)" "length (am_vals m) = length (am_keys m)" "length (am_valid m) = length (am_keys m)"
    "length (am_mobs m) = Suc (length (am_keys m))" "am_maxErr m + length (am_keys m) < 2 ^ 64"
    using assms m by auto
  fix i mob assume i: "i < length (am_mobs m)" "am_mobs m ! i = Some mob"
  then have "Some mob \<in> set (am_mobs m)" by (metis nth_mem)
  then show "ai_ok mob" using assms m by (auto split: option.splits)
qed

text \<open>The part of a node that locates keys is that of a Kanva node.\<close>

definition km_view :: "'d AidelModel \<Rightarrow> 'd KanvaModel" where
  "km_view m = KModel (am_w0 m) (am_w1 m) (am_maxErr m) (am_keys m) (am_vals m) []"

lemma am_pos_view: "am_pos env m key = km_pos env (km_view m) key"
  by (simp add: am_pos_def km_pos_def am_locate_def locate_in_levelbin_def am_predict_def km_predict_def km_view_def
      am_capacity_def capacity_def cong: if_cong)

lemma window_ordered:
  assumes "pos < length ks" and "maxErr + length ks < 2 ^ 64"
  shows "\<exists>bgn fin. locate_window ks maxErr key pos = Inr (bgn, fin) \<and> bgn \<le> fin \<and> fin < length ks"
proof (cases "ks ! pos < key")
  case True
  let ?b = "if pos + 1 < length ks - 1 then pos + 1 else length ks - 1"
  have "sz_add ?b maxErr = ?b + maxErr" using assms by (intro sz_add_small) auto
  then show ?thesis using True assms by (auto simp: locate_window_def cap_minus1_def Let_def)
qed (use assms in \<open>auto simp: locate_window_def Let_def\<close>)

lemma am_pos_total:
  assumes "am_ok m"
  obtains pos where "pos < length (am_keys m)" "am_pos env m key = Inr (pos, am_keys m ! pos)"
    "am_locate m key (am_predict env m key) = Inr pos"
proof -
  note ok = am_okD [OF assms]
  have pred: "am_predict env m key < length (am_keys m)"
    using ok(1) by (auto simp: am_predict_def Let_def am_capacity_def cap_minus1_def)
  obtain bgn fin where w: "locate_window (am_keys m) (am_maxErr m) key (am_predict env m key) = Inr (bgn, fin)"
      "bgn \<le> fin" "fin < length (am_keys m)"
    using window_ordered [OF pred ok(6)] by blast
  then obtain r where "locate_loop (am_keys m) key bgn fin = Inr r" "r \<le> fin" using locate_loop_range by blast
  then show ?thesis using that [of r] w by (simp add: am_pos_def am_locate_def)
qed

section \<open>Values\<close>

definition lb_value :: "LevelBin \<Rightarrow> key_t \<Rightarrow> val_t option" where
  "lb_value b key = (case con_find_retrain key 0 b of Inr (Res_ok, v) \<Rightarrow> Some v | _ \<Rightarrow> None)"

lemma lb_value_rep: "lb_rep b cs \<Longrightarrow> \<not> lb_retraining b \<Longrightarrow> lb_value b = map_of (lb_pairs cs)"
  using lb_find_rep [of b cs _ 0] by (auto simp: lb_value_def fun_eq_iff split: option.split)

function am_value :: "'d env \<Rightarrow> 'd AidelModel \<Rightarrow> key_t \<Rightarrow> val_t option" where
  "am_value env m key =
     (case am_pos env m key of Inl _ \<Rightarrow> None
      | Inr pk \<Rightarrow>
          if key = snd pk then (if am_valid m ! fst pk then Some (am_vals m ! fst pk) else None)
          else case nth_res (am_mobs m) (bin_pos key pk) of
            Inr (Some (LBin _ b)) \<Rightarrow> lb_value b key
          | Inr (Some (LModel _ ai)) \<Rightarrow> am_value env ai key
          | _ \<Rightarrow> None)"
  by pat_completeness auto
termination by (relation "measure (\<lambda>(_, m, _). size m)") (auto intro: ai_slot_size)

declare am_value.simps [simp del]

definition mob_value :: "'d env \<Rightarrow> 'd ai_mob option \<Rightarrow> key_t \<Rightarrow> val_t option" where
  "mob_value env s key =
     (case s of None \<Rightarrow> None | Some (LBin _ b) \<Rightarrow> lb_value b key | Some (LModel _ ai) \<Rightarrow> am_value env ai key)"

lemma mob_value_simps [simp]:
  "mob_value env None key = None" "mob_value env (Some (LBin lk b)) key = lb_value b key"
  "mob_value env (Some (LModel lk ai)) key = am_value env ai key"
  by (simp_all add: mob_value_def)

lemma am_value_at:
  assumes "am_ok m" and "pos < length (am_keys m)" and "am_pos env m key = Inr (pos, am_keys m ! pos)"
  shows "am_value env m key = (if key = am_keys m ! pos then (if am_valid m ! pos then Some (am_vals m ! pos) else None)
    else mob_value env (am_mobs m ! bin_pos key (pos, am_keys m ! pos)) key)"
proof -
  have "bin_pos key (pos, am_keys m ! pos) < length (am_mobs m)" using bin_pos_less [OF assms(2)] am_okD(5) [OF assms(1)] by simp
  then show ?thesis unfolding am_value.simps [of env m key] assms(3)
    by (auto simp: mob_value_def split: option.splits ai_mob.splits)
qed

text \<open>The slot of a key.\<close>

lemma am_slot:
  assumes "am_ok m"
  obtains (key) pos where "pos < length (am_keys m)" "am_pos env m key = Inr (pos, key)" "am_keys m ! pos = key"
      "am_value env m key = (if am_valid m ! pos then Some (am_vals m ! pos) else None)"
  | (slot) pos where "pos < length (am_keys m)" "am_pos env m key = Inr (pos, am_keys m ! pos)" "am_keys m ! pos \<noteq> key"
      "bin_pos key (pos, am_keys m ! pos) < length (am_mobs m)"
      "am_value env m key = mob_value env (am_mobs m ! bin_pos key (pos, am_keys m ! pos)) key"
proof -
  obtain pos where pos: "pos < length (am_keys m)" "am_pos env m key = Inr (pos, am_keys m ! pos)"
    by (rule am_pos_total [OF assms])
  show ?thesis
  proof (cases "am_keys m ! pos = key")
    case True
    then show ?thesis using that(1) [of pos] pos am_value_at [OF assms pos] by simp
  next
    case False
    then show ?thesis using that(2) [of pos] pos am_value_at [OF assms pos] bin_pos_less [OF pos(1)] am_okD(5) [OF assms] by simp
  qed
qed

section \<open>Changes of a node\<close>

lemma am_set_slot_sel [simp]:
  "am_keys (am_set_slot i mob m) = am_keys m" "am_vals (am_set_slot i mob m) = am_vals m" "am_valid (am_set_slot i mob m) = am_valid m"
  "am_mobs (am_set_slot i mob m) = (am_mobs m)[i := Some mob]" "am_maxErr (am_set_slot i mob m) = am_maxErr m"
  by (simp_all add: am_set_slot_def)

lemma am_pos_set_slot [simp]: "am_pos env (am_set_slot i mob m) key = am_pos env m key"
  by (simp add: am_pos_view km_view_def am_set_slot_def)

lemma am_ok_set_slot:
  assumes "am_ok m" and "ai_ok mob"
  shows "am_ok (am_set_slot i mob m)"
  using assms by (cases m) (auto simp: am_set_slot_def dest!: set_update_subset_insert [THEN subsetD])

text \<open>A slot's new content that differs at one key changes the node at that key.\<close>

lemma am_value_set_slot:
  assumes ok: "am_ok m" "ai_ok mob" and pos: "pos < length (am_keys m)" "am_pos env m key = Inr (pos, am_keys m ! pos)" "am_keys m ! pos \<noteq> key"
    and v: "mob_value env (Some mob) = (mob_value env (am_mobs m ! bin_pos key (pos, am_keys m ! pos)))(key := r)"
  shows "am_value env (am_set_slot (bin_pos key (pos, am_keys m ! pos)) mob m) = (am_value env m)(key := r)"
proof
  let ?i = "bin_pos key (pos, am_keys m ! pos)"
  let ?m = "am_set_slot ?i mob m"
  have ok': "am_ok ?m" by (rule am_ok_set_slot [OF ok])
  have i: "?i < length (am_mobs m)" using bin_pos_less [OF pos(1)] am_okD(5) [OF ok(1)] by simp
  fix x
  show "am_value env ?m x = ((am_value env m)(key := r)) x"
  proof (cases "x = key")
    case True
    then show ?thesis using am_value_at [OF ok', of pos env key] pos v i by simp
  next
    case False
    obtain q where q: "q < length (am_keys m)" "am_pos env m x = Inr (q, am_keys m ! q)" by (rule am_pos_total [OF ok(1)])
    have "am_value env ?m x = am_value env m x"
      using am_value_at [OF ok', of q env x] am_value_at [OF ok(1) q] q v i False
      by (cases "bin_pos x (q, am_keys m ! q) = ?i") auto
    then show ?thesis using False by simp
  qed
qed

lemma am_set_val_spec:
  assumes ok: "am_ok m" and pos: "pos < length (am_keys m)" "am_pos env m key = Inr (pos, key)" "am_keys m ! pos = key"
  obtains m' where "am_set_val pos val m = Inr m'" "am_ok m'" "am_keys m' = am_keys m" "am_valid m' = am_valid m"
    "\<And>x. am_pos env m' x = am_pos env m x"
    "am_value env m' = (if am_valid m ! pos then (am_value env m)(key \<mapsto> val) else am_value env m)"
proof -
  obtain w0 w1 e ks vs fs mobs where m: "m = AModel w0 w1 e ks vs fs mobs" by (cases m)
  let ?m = "AModel w0 w1 e ks (vs[pos := val]) fs mobs"
  have run: "am_set_val pos val m = Inr ?m" using pos(1) am_okD(3) [OF ok] by (simp add: am_set_val_def m)
  have ok': "am_ok ?m" using ok by (auto simp: m)
  have p: "am_pos env ?m x = am_pos env m x" for x by (simp add: am_pos_def am_locate_def am_predict_def am_capacity_def m cong: if_cong)
  have "am_value env ?m x = (if am_valid m ! pos then (am_value env m)(key \<mapsto> val) else am_value env m) x" for x
  proof -
    obtain q where q: "q < length (am_keys m)" "am_pos env m x = Inr (q, am_keys m ! q)" by (rule am_pos_total [OF ok])
    have q': "am_pos env ?m x = Inr (q, am_keys ?m ! q)" "q < length (am_keys ?m)" using p q by (simp_all add: m)
    note at = am_value_at [OF ok' q'(2,1)] am_value_at [OF ok q]
    have len: "length vs = length ks" using ok by (simp add: m)
    show ?thesis
    proof (cases "x = key")
      case True
      then have "q = pos" using q(2) pos(2) by simp
      then show ?thesis using at True pos len by (simp add: m)
    next
      case False
      then have "x = am_keys m ! q \<Longrightarrow> pos \<noteq> q" using pos(3) by blast
      then show ?thesis using at False by (cases "x = am_keys m ! q") (simp_all add: m)
    qed
  qed
  then show ?thesis using that [OF run ok' _ _ p] by (auto simp: m fun_eq_iff)
qed

lemma am_set_valid_spec:
  assumes ok: "am_ok m" and pos: "pos < length (am_keys m)" "am_pos env m key = Inr (pos, key)" "am_keys m ! pos = key"
  obtains m' where "am_set_valid pos f m = Inr m'" "am_ok m'" "am_keys m' = am_keys m" "am_valid m' = (am_valid m)[pos := f]"
    "\<And>x. am_pos env m' x = am_pos env m x"
    "am_value env m' = (am_value env m)(key := if f then Some (am_vals m ! pos) else None)"
proof -
  obtain w0 w1 e ks vs fs mobs where m: "m = AModel w0 w1 e ks vs fs mobs" by (cases m)
  let ?m = "AModel w0 w1 e ks vs (fs[pos := f]) mobs"
  have run: "am_set_valid pos f m = Inr ?m" using pos(1) am_okD(4) [OF ok] by (simp add: am_set_valid_def m)
  have ok': "am_ok ?m" using ok by (auto simp: m)
  have p: "am_pos env ?m x = am_pos env m x" for x by (simp add: am_pos_def am_locate_def am_predict_def am_capacity_def m cong: if_cong)
  have "am_value env ?m x = ((am_value env m)(key := if f then Some (am_vals m ! pos) else None)) x" for x
  proof -
    obtain q where q: "q < length (am_keys m)" "am_pos env m x = Inr (q, am_keys m ! q)" by (rule am_pos_total [OF ok])
    have q': "am_pos env ?m x = Inr (q, am_keys ?m ! q)" "q < length (am_keys ?m)" using p q by (simp_all add: m)
    note at = am_value_at [OF ok' q'(2,1)] am_value_at [OF ok q]
    have len: "length fs = length ks" using ok by (simp add: m)
    show ?thesis
    proof (cases "x = key")
      case True
      then have "q = pos" using q(2) pos(2) by simp
      then show ?thesis using at True pos len by (simp add: m)
    next
      case False
      then have "x = am_keys m ! q \<Longrightarrow> pos \<noteq> q" using pos(3) by blast
      then show ?thesis using at False by (cases "x = am_keys m ! q") (simp_all add: m)
    qed
  qed
  then show ?thesis using that [OF run ok' _ _ p] by (auto simp: m fun_eq_iff)
qed

section \<open>Search\<close>

lemma ai_lock_ok: "ai_ok mob \<Longrightarrow> \<not> ab_locked mob"
  by (cases mob) auto

lemma am_find_value:
  "am_ok m \<Longrightarrow> am_find env m key val = Inr (case am_value env m key of None \<Rightarrow> (Res_failed, val) | Some v \<Rightarrow> (Res_ok, v))"
proof (induction m rule: measure_induct_rule [of size])
  case (less m)
  note ok = am_okD [OF less.prems]
  show ?case
  proof (cases rule: am_slot [OF less.prems, of env key])
    case (1 pos)
    then show ?thesis using ok(3,4) by (simp add: am_find.simps [of env m])
  next
    case (2 pos)
    let ?i = "bin_pos key (pos, am_keys m ! pos)"
    have nth: "nth_res (am_mobs m) ?i = Inr (am_mobs m ! ?i)" using 2(4) by simp
    show ?thesis
    proof (cases "am_mobs m ! ?i")
      case None
      then show ?thesis using 2 nth by (simp add: am_find.simps [of env m])
    next
      case (Some mob)
      have mob: "ai_ok mob" by (rule ok(7) [OF 2(4) Some])
      show ?thesis
      proof (cases mob)
        case (LBin lk b)
        then obtain cs where b: "\<not> lk" "\<not> lb_retraining b" "lb_rep b cs" using mob by auto
        have "con_find_retrain key val b = Inr (case am_value env m key of None \<Rightarrow> (Res_failed, val) | Some v \<Rightarrow> (Res_ok, v))"
          using lb_find_rep [OF b(3,2)] 2(5) Some LBin by (simp add: lb_value_rep [OF b(3,2)])
        then show ?thesis using 2 nth Some LBin b(1) by (auto simp: am_find.simps [of env m] ai_lock_def split: option.splits)
      next
        case (LModel lk ai)
        then have ai: "\<not> lk" "am_ok ai" using mob by auto
        have "size ai < size m" using nth Some LModel by (intro ai_slot_size) simp
        then have "am_find env ai key val = Inr (case am_value env m key of None \<Rightarrow> (Res_failed, val) | Some v \<Rightarrow> (Res_ok, v))"
          using less.IH [of ai] ai(2) 2(5) Some LModel by simp
        then show ?thesis using 2 nth Some LModel ai(1) by (auto simp: am_find.simps [of env m] ai_lock_def split: option.splits)
      qed
    qed
  qed
qed

section \<open>Update and removal\<close>

text \<open>The outcome of an operation that changes the value of one key.\<close>

definition am_post :: "'d env \<Rightarrow> 'd AidelModel \<Rightarrow> key_t \<Rightarrow> result_t \<Rightarrow> val_t option \<Rightarrow> (result_t \<times> 'd AidelModel) res \<Rightarrow> bool" where
  "am_post env m key r v res \<longleftrightarrow> (\<exists>m'. res = Inr (r, m') \<and> am_ok m' \<and> am_value env m' = (am_value env m)(key := v))"

lemma am_post_same: "am_ok m \<Longrightarrow> am_value env m key = v \<Longrightarrow> am_post env m key r v (Inr (r, m))"
  by (auto simp: am_post_def)

lemma am_post_slot:
  assumes "am_ok m" and "ai_ok mob" and "pos < length (am_keys m)" "am_pos env m key = Inr (pos, am_keys m ! pos)" "am_keys m ! pos \<noteq> key"
    and "mob_value env (Some mob) = (mob_value env (am_mobs m ! bin_pos key (pos, am_keys m ! pos)))(key := v)"
  shows "am_post env m key r v (Inr (r, am_set_slot (bin_pos key (pos, am_keys m ! pos)) mob m))"
  unfolding am_post_def using am_value_set_slot [OF assms] am_ok_set_slot [OF assms(1,2)] by blast

lemma bin_post:
  assumes "lb_rep b cs" "\<not> lb_retraining b" and "lb_rep b' cs'" "\<not> lb_retraining b'"
    and "map_of (lb_pairs cs') = (map_of (lb_pairs cs))(key := v)"
  shows "ai_ok (LBin False b')" and "mob_value env (Some (LBin False b')) = (mob_value env (Some (LBin lk b)))(key := v)"
  using assms lb_value_rep [OF assms(1,2)] lb_value_rep [OF assms(3,4)] by (auto simp: fun_eq_iff)

lemma node_post:
  assumes "am_ok ai'" and "am_value env ai' = (am_value env ai)(key := v)"
  shows "ai_ok (LModel False ai')" and "mob_value env (Some (LModel False ai')) = (mob_value env (Some (LModel lk ai)))(key := v)"
  using assms by (auto simp: fun_eq_iff)

lemma am_update_post:
  "am_ok m \<Longrightarrow> am_post env m key (if am_value env m key = None then Res_failed else Res_ok)
    (if am_value env m key = None then None else Some val) (am_update env m key val)"
proof (induction m rule: measure_induct_rule [of size])
  case (less m)
  note ok = am_okD [OF less.prems]
  show ?case
  proof (cases rule: am_slot [OF less.prems, of env key])
    case (1 pos)
    show ?thesis
    proof (cases "am_valid m ! pos")
      case True
      obtain m' where "am_set_val pos val m = Inr m'" "am_ok m'" "am_value env m' = (am_value env m)(key \<mapsto> val)"
        using am_set_val_spec [OF less.prems 1(1-3), of val] True by metis
      then show ?thesis using 1 True ok(4) by (simp add: am_update.simps [of env m] am_post_def)
    next
      case False
      then show ?thesis using 1 ok(4) am_post_same [OF less.prems] by (simp add: am_update.simps [of env m])
    qed
  next
    case (2 pos)
    let ?i = "bin_pos key (pos, am_keys m ! pos)"
    have nth: "nth_res (am_mobs m) ?i = Inr (am_mobs m ! ?i)" using 2(4) by simp
    show ?thesis
    proof (cases "am_mobs m ! ?i")
      case None
      then show ?thesis using 2 nth am_post_same [OF less.prems] by (simp add: am_update.simps [of env m])
    next
      case (Some mob)
      have mob: "ai_ok mob" by (rule ok(7) [OF 2(4) Some])
      note slot = am_post_slot [OF less.prems _ 2(1-3), unfolded Some]
      show ?thesis
      proof (cases mob)
        case (LBin lk b)
        then obtain cs where b: "\<not> lk" "\<not> lb_retraining b" "lb_rep b cs" using mob by auto
        have v: "am_value env m key = map_of (lb_pairs cs) key" using 2(5) Some LBin by (simp add: lb_value_rep [OF b(3,2)])
        let ?r = "if am_value env m key = None then Res_failed else Res_ok" and ?v = "if am_value env m key = None then None else Some val"
        obtain b' cs' where b': "lb_update key val b = Inr (if key \<in> set (lb_keys cs) then Res_ok else Res_failed, b')" "lb_rep b' cs'"
          "map_of (lb_pairs cs') = (if key \<in> set (lb_keys cs) then (map_of (lb_pairs cs))(key \<mapsto> val) else map_of (lb_pairs cs))"
          "\<not> lb_retraining b'"
          by (rule lb_update_spec [OF b(3,2)])
        have "map_of (lb_pairs cs') = (map_of (lb_pairs cs))(key := ?v)" unfolding b'(3) v using lb_mem [of cs key] by (cases "map_of (lb_pairs cs) key") (auto simp: fun_eq_iff)
        note bp = bin_post [OF b(3,2) b'(2,4) this]
        have "am_update env m key val = Inr (?r, am_set_slot ?i (LBin False b') m)"
          using 2(2,3) nth Some LBin b(1) b'(1) v by (simp add: am_update.simps [of env m] ai_lock_def ai_unlock_def lb_mem Let_def)
        moreover have "am_post env m key ?r ?v (Inr (?r, am_set_slot ?i (LBin False b') m))"
          by (rule slot [OF bp(1)]) (simp only: LBin bp(2))
        ultimately show ?thesis by (simp only:)
      next
        case (LModel lk ai)
        then have ai: "\<not> lk" "am_ok ai" using mob by auto
        let ?r = "if am_value env m key = None then Res_failed else Res_ok" and ?v = "if am_value env m key = None then None else Some val"
        have "size ai < size m" using nth Some LModel by (intro ai_slot_size) simp
        moreover have "am_value env m key = am_value env ai key" using 2(5) Some LModel by simp
        ultimately obtain ai' where ai': "am_update env ai key val = Inr (?r, ai')" "am_ok ai'" "am_value env ai' = (am_value env ai)(key := ?v)"
          using less.IH [of ai] ai(2) by (auto simp: am_post_def)
        note np = node_post [OF ai'(2,3)]
        have "am_update env m key val = Inr (?r, am_set_slot ?i (LModel False ai') m)"
          using 2(2,3) nth Some LModel ai(1) ai'(1) by (simp add: am_update.simps [of env m] ai_lock_def ai_unlock_def Let_def)
        moreover have "am_post env m key ?r ?v (Inr (?r, am_set_slot ?i (LModel False ai') m))"
          by (rule slot [OF np(1)]) (simp only: LModel np(2))
        ultimately show ?thesis by (simp only:)
      qed
    qed
  qed
qed

text \<open>The bin a removal ends in would lose its last child.\<close>

function am_strands :: "'d env \<Rightarrow> 'd AidelModel \<Rightarrow> key_t \<Rightarrow> bool" where
  "am_strands env m key =
     (case am_pos env m key of Inl _ \<Rightarrow> False
      | Inr pk \<Rightarrow>
          if key = snd pk then False
          else case nth_res (am_mobs m) (bin_pos key pk) of
            Inr (Some (LBin _ b)) \<Rightarrow> lb_strands key b
          | Inr (Some (LModel _ ai)) \<Rightarrow> am_strands env ai key
          | _ \<Rightarrow> False)"
  by pat_completeness auto
termination by (relation "measure (\<lambda>(_, m, _). size m)") (auto intro: ai_slot_size)

declare am_strands.simps [simp del]

lemma am_remove_post:
  "am_ok m \<Longrightarrow> \<not> am_strands env m key \<Longrightarrow>
    am_post env m key (if am_value env m key = None then Res_failed else Res_ok) None (am_remove env m key)"
proof (induction m rule: measure_induct_rule [of size])
  case (less m)
  note ok = am_okD [OF less.prems(1)]
  let ?r = "if am_value env m key = None then Res_failed else Res_ok"
  show ?case
  proof (cases rule: am_slot [OF less.prems(1), of env key])
    case (1 pos)
    show ?thesis
    proof (cases "am_valid m ! pos")
      case True
      obtain m' where "am_set_valid pos False m = Inr m'" "am_ok m'" "am_value env m' = (am_value env m)(key := None)"
        using am_set_valid_spec [OF less.prems(1) 1(1-3), of False] by auto
      then show ?thesis using 1 True ok(4) by (simp add: am_remove.simps [of env m] am_post_def)
    next
      case False
      then show ?thesis using 1 ok(4) am_post_same [OF less.prems(1)] by (simp add: am_remove.simps [of env m])
    qed
  next
    case (2 pos)
    let ?i = "bin_pos key (pos, am_keys m ! pos)"
    have nth: "nth_res (am_mobs m) ?i = Inr (am_mobs m ! ?i)" using 2(4) by simp
    show ?thesis
    proof (cases "am_mobs m ! ?i")
      case None
      then show ?thesis using 2 nth am_post_same [OF less.prems(1)] by (simp add: am_remove.simps [of env m])
    next
      case (Some mob)
      have mob: "ai_ok mob" by (rule ok(7) [OF 2(4) Some])
      note slot = am_post_slot [OF less.prems(1) _ 2(1-3), unfolded Some]
      show ?thesis
      proof (cases mob)
        case (LBin lk b)
        then obtain cs where b: "\<not> lk" "\<not> lb_retraining b" "lb_rep b cs" using mob by auto
        have "\<not> lb_strands key b" using less.prems(2) 2(2,3) nth Some LBin by (simp add: am_strands.simps [of env m])
        then have ns: "\<not> strands key cs" using strands_lb_strands [OF b(3)] by blast
        have v: "am_value env m key = map_of (lb_pairs cs) key" using 2(5) Some LBin by (simp add: lb_value_rep [OF b(3,2)])
        obtain b' cs' where b': "lb_remove key b = Inr (if key \<in> set (lb_keys cs) then Res_ok else Res_failed, b')" "lb_rep b' cs'"
          "lb_pairs cs' = pairs_del key (lb_pairs cs)" "\<not> lb_retraining b'"
          using lb_remove_spec [OF b(3,2) ns] by blast
        have "map_of (lb_pairs cs') = (map_of (lb_pairs cs))(key := None)" unfolding b'(3) pairs_del_map ..
        note bp = bin_post [OF b(3,2) b'(2,4) this]
        have "am_remove env m key = Inr (?r, am_set_slot ?i (LBin False b') m)"
          using 2(2,3) nth Some LBin b(1) b'(1) v by (simp add: am_remove.simps [of env m] ai_lock_def ai_unlock_def lb_mem Let_def)
        moreover have "am_post env m key ?r None (Inr (?r, am_set_slot ?i (LBin False b') m))"
          by (rule slot [OF bp(1)]) (simp only: LBin bp(2))
        ultimately show ?thesis by (simp only:)
      next
        case (LModel lk ai)
        then have ai: "\<not> lk" "am_ok ai" using mob by auto
        have "size ai < size m" using nth Some LModel by (intro ai_slot_size) simp
        moreover have "am_value env m key = am_value env ai key" using 2(5) Some LModel by simp
        moreover have "\<not> am_strands env ai key" using less.prems(2) 2(2,3) nth Some LModel by (simp add: am_strands.simps [of env m])
        ultimately obtain ai' where ai': "am_remove env ai key = Inr (?r, ai')" "am_ok ai'" "am_value env ai' = (am_value env ai)(key := None)"
          using less.IH [of ai] ai(2) by (auto simp: am_post_def)
        note np = node_post [OF ai'(2,3)]
        have "am_remove env m key = Inr (?r, am_set_slot ?i (LModel False ai') m)"
          using 2(2,3) nth Some LModel ai(1) ai'(1) by (simp add: am_remove.simps [of env m] ai_lock_def ai_unlock_def Let_def)
        moreover have "am_post env m key ?r None (Inr (?r, am_set_slot ?i (LModel False ai') m))"
          by (rule slot [OF np(1)]) (simp only: LModel np(2))
        ultimately show ?thesis by (simp only:)
      qed
    qed
  qed
qed

section \<open>A new node\<close>

text \<open>The one property of the arithmetic: after a training on the at most 144 pairs of a full level bin the
  predictions are within 2 to the 31 of the positions.\<close>

definition env_close :: "'d env \<Rightarrow> bool" where
  "env_close env \<longleftrightarrow> (\<forall>ks lr. ssorted ks \<longrightarrow> length ks \<le> 144 \<longrightarrow>
     lr_train_range (e_fp env) (lr_new (e_w env) (e_b env)) ks = Inr lr \<longrightarrow> predictions_close (e_fp env) lr ks)"

text \<open>No assertion of the training fails: the sums over the pairs of a bin, distinct unsigned keys at the
  positions 0, 1, ..., are positive.\<close>

definition env_trains :: "'d env \<Rightarrow> bool" where
  "env_trains env \<longleftrightarrow> (\<forall>ks. ssorted ks \<longrightarrow> ks \<noteq> [] \<longrightarrow> length ks \<le> 144 \<longrightarrow>
     (\<exists>lr. lr_train_range (e_fp env) (lr_new (e_w env) (e_b env)) ks = Inr lr))"

lemma AidelModel_new_ok:
  assumes "ssorted ks" and "ks \<noteq> []" and "length vs = length ks" and "e + length ks < 2 ^ 64"
    and "AidelModel_new lr ks vs (length ks) e = Inr m"
  shows "am_ok m" and "km_view m = KModel (lr_w0 lr) (lr_w1 lr) e ks vs []" and "am_mobs m = replicate (Suc (length ks)) None"
    and "am_keys m = ks" "am_vals m = vs" "am_valid m = replicate (length ks) True"
proof -
  have m: "m = AModel (lr_w0 lr) (lr_w1 lr) e ks vs (replicate (length ks) True) (None # replicate (length ks) None)"
    using assms(3,5) by (simp add: AidelModel_new_def)
  show "am_ok m" using assms(1-4) by (simp add: m)
  show "km_view m = KModel (lr_w0 lr) (lr_w1 lr) e ks vs []" "am_mobs m = replicate (Suc (length ks)) None"
    "am_keys m = ks" "am_vals m = vs" "am_valid m = replicate (length ks) True"
    by (simp_all add: m km_view_def)
qed

text \<open>A node trained on a set of pairs stores these pairs.\<close>

lemma AidelModel_new_value:
  assumes tr: "lr_train_range (e_fp env) (lr_new w b) ks = Inr lr" and close: "predictions_close (e_fp env) lr ks"
    and ks: "ssorted ks" "ks \<noteq> []" "length ks < 2 ^ 31" "length vs = length ks"
    and e: "unat (lr_maxErr lr) \<le> e" "e < 2 ^ 63"
    and new: "AidelModel_new lr ks vs (length ks) e = Inr m"
  shows "am_value env m = map_of (zip ks vs)"
proof
  fix key
  have el: "e + length ks < 2 ^ 64" using ks(3) e(2) by simp
  note n = AidelModel_new_ok [OF ks(1,2,4) el new]
  define km where "km = KModel (lr_w0 lr) (lr_w1 lr) e ks vs (replicate (length ks + 1) None)"
  have km: "KanvaModel_new lr ks vs (length ks) e = Inr km" using ks(4) by (simp add: KanvaModel_new_def km_def)
  have view: "am_pos env m x = km_pos env km x" for x
    unfolding am_pos_view n(2) by (simp add: km_def km_pos_def locate_in_levelbin_def km_predict_def capacity_def cong: if_cong)
  show "am_value env m key = map_of (zip ks vs) key"
  proof (cases "key \<in> set ks")
    case True
    obtain r where r: "r < length ks" "am_pos env m key = Inr (r, key)" "ks ! r = key"
      using trained_pos [OF tr close strict_sorted_imp_sorted [OF ks(1)] ks(3,4) e km True] view by auto
    have "am_pos env m key = Inr (r, am_keys m ! r)" using r n(4) by simp
    from am_value_at [OF n(1) _ this] have "am_value env m key = Some (vs ! r)" using r n(4-6) by simp
    moreover have "map_of (zip ks vs) key = Some (vs ! r)"
    proof -
      have "(key, vs ! r) \<in> set (zip ks vs)" using r ks(4) by (auto simp: in_set_zip)
      moreover have "distinct (map fst (zip ks vs))" using ks(4) ssorted_distinct [OF ks(1)] by simp
      ultimately show ?thesis by simp
    qed
    ultimately show ?thesis by simp
  next
    case False
    then have none: "map_of (zip ks vs) key = None" by (auto simp: map_of_eq_None_iff dest: set_zip_leftD)
    obtain pos where pos: "pos < length (am_keys m)" "am_pos env m key = Inr (pos, am_keys m ! pos)" by (rule am_pos_total [OF n(1)])
    have "am_keys m ! pos \<noteq> key" using pos(1) False n(4) by auto
    moreover have "bin_pos key (pos, am_keys m ! pos) < Suc (length ks)" using bin_pos_less [OF pos(1)] n(4) by simp
    ultimately show ?thesis using am_value_at [OF n(1) pos] none n(3) by (simp del: replicate.simps)
  qed
qed

section \<open>Insertion\<close>

lemma ai_slot_depth:
  assumes "i < length (am_mobs m)" and "am_mobs m ! i = Some mob"
  shows "ai_depth mob < am_depth m"
proof -
  obtain w0 w1 e ks vs fs mobs where m: "m = AModel w0 w1 e ks vs fs mobs" by (cases m)
  have "Some mob \<in> set mobs" using assms m by (metis AidelModel.sel(7) nth_mem)
  then have "ai_depth mob \<in> set (map (\<lambda>s. case s of None \<Rightarrow> 0 | Some mob \<Rightarrow> ai_depth mob) mobs)" by force
  then show ?thesis unfolding m am_depth.simps using fold_max_le less_Suc_eq_le by blast
qed

lemma am_depth_pos: "0 < am_depth m"
  by (cases m) simp

lemma ai_depth_pos: "0 < ai_depth mob"
  by (cases mob) (simp_all add: am_depth_pos)

definition insert_ok :: "'d env \<Rightarrow> 'd AidelModel \<Rightarrow> key_t \<Rightarrow> val_t \<Rightarrow> (result_t \<times> 'd AidelModel) res \<Rightarrow> bool" where
  "insert_ok env m key val res \<longleftrightarrow> res = Inl AssertFail \<and> \<not> env_trains env
    \<or> am_post env m key (if am_value env m key = None then Res_ok else Res_failed)
        (Some (case am_value env m key of None \<Rightarrow> val | Some v \<Rightarrow> v)) res"

lemma new_bin_insert:
  obtains b' cs' where "con_insert_retrain key val LevelBin_new = Inr (Res_ok, b')" "lb_rep b' cs'" "\<not> lb_retraining b'"
    "map_of (lb_pairs cs') = [key \<mapsto> val]"
proof -
  have nr: "\<not> lb_retraining LevelBin_new" by (simp add: LevelBin_new_def allocate_childbin_def)
  obtain r b' where run: "con_insert_retrain key val LevelBin_new = Inr (r, b')"
    and out: "insert_outcome key val LevelBin_new [(1, [])] (r, b')"
    using con_insert_spec [OF LevelBin_new_rep nr, of key val] by (metis prod.exhaust)
  then have "r = Res_ok" by (cases r) (auto simp: insert_outcome_def rootslotmax_def)
  then obtain cs' where cs': "lb_rep b' cs'" "pairs_ins key val (lb_pairs [(1, [])]) (lb_pairs cs')" "\<not> lb_retraining b'"
    using out by auto
  have "map_of (lb_pairs cs') = [key \<mapsto> val]" using pairs_ins_map(2) [OF cs'(2)] by simp
  then show ?thesis using that run cs'(1,3) \<open>r = Res_ok\<close> by blast
qed

lemma am_insert_hit:
  assumes ok: "am_ok m" and pos: "pos < length (am_keys m)" "am_pos env m key = Inr (pos, key)" "am_keys m ! pos = key"
    "am_value env m key = (if am_valid m ! pos then Some (am_vals m ! pos) else None)"
  shows "insert_ok env m key val (am_insert (Suc n) env m key val)"
proof (cases "am_valid m ! pos")
  case True
  then show ?thesis using pos am_okD(4) [OF ok] am_post_same [OF ok] by (simp add: insert_ok_def)
next
  case False
  obtain m1 where m1: "am_set_valid pos True m = Inr m1" "am_ok m1" "am_keys m1 = am_keys m" "am_valid m1 = (am_valid m)[pos := True]"
    "\<And>x. am_pos env m1 x = am_pos env m x" "am_value env m1 = (am_value env m)(key := Some (am_vals m ! pos))"
    using am_set_valid_spec [OF ok pos(1-3), of True] by (metis (full_types))
  have p1: "pos < length (am_keys m1)" "am_pos env m1 key = Inr (pos, key)" "am_keys m1 ! pos = key" using pos m1(3,5) by simp_all
  have v1: "am_valid m1 ! pos" using m1(4) pos(1) am_okD(4) [OF ok] by simp
  obtain m2 where "am_set_val pos val m1 = Inr m2" "am_ok m2" "am_value env m2 = (am_value env m1)(key \<mapsto> val)"
    using am_set_val_spec [OF m1(2) p1, of val] v1 by metis
  then show ?thesis using False pos am_okD(4) [OF ok] m1(1,6) by (simp add: insert_ok_def am_post_def)
qed

lemma am_insert_slot:
  assumes "am_pos env m key = Inr (pos, am_keys m ! pos)" "am_keys m ! pos \<noteq> key"
  shows "am_insert (Suc n) env m key val = am_insert_mob n env m key val (bin_pos key (pos, am_keys m ! pos))"
  using assms by simp

text \<open>Retraining a full bin, which \<open>con_insert_retrain\<close> has marked.\<close>

lemma lb_lengths:
  assumes "lb_rep b cs"
  shows "length (lb_pairs cs) \<le> 16 * length cs"
proof -
  have "length kvs \<le> 16" if "(a, kvs) \<in> set cs" for a kvs
  proof -
    have "cchain (lb_heap b) 0 cs 0" using assms by (simp add: lb_rep_def chain_ok_def)
    then show ?thesis using cchain_mem [OF _ that] by (auto simp: cb_rep_def cb_arr_def childslotmax_def)
  qed
  then show ?thesis
  proof (induction cs)
    case (Cons c cs)
    obtain a kvs where c: "c = (a, kvs)" by (cases c)
    have "length kvs \<le> 16" using Cons.prems [of a kvs] c by simp
    moreover have "length (lb_pairs cs) \<le> 16 * length cs" by (rule Cons.IH) (rule Cons.prems, rule list.set_intros(2))
    ultimately show ?case by (simp add: c)
  qed simp
qed

lemma am_retrain_cases:
  assumes close: "env_close env" and rep: "lb_rep b cs" and len: "length cs = rootslotmax + 1"
  obtains (assert) "am_retrain env (b\<lparr>lb_retraining := True\<rparr>) = Inl AssertFail" "\<not> env_trains env"
  | (new) ai where "am_retrain env (b\<lparr>lb_retraining := True\<rparr>) = Inr ai" "am_ok ai" "am_value env ai = map_of (lb_pairs cs)"
      "\<forall>s \<in> set (am_mobs ai). s = None"
proof -
  let ?b = "b\<lparr>lb_retraining := True\<rparr>" and ?ks = "lb_keys cs" and ?vs = "map snd (lb_pairs cs)"
  have rep': "lb_rep ?b cs" using rep by (simp add: lb_rep_def chain_ok_def)
  have root: "lb_root ?b \<noteq> None" using rep' len by (auto simp: lb_rep_def rootslotmax_def split: option.splits)
  have sort: "lb_resort ?b = Inr (?ks, ?vs)" by (rule lb_resort_spec [OF rep' root])
  have srt: "ssorted ?ks" using rep by (simp add: lb_rep_def)
  have lk: "length ?ks \<le> 144" using lb_lengths [OF rep] len by (simp add: rootslotmax_def)
  obtain c cs' where c: "cs = c # cs'" using len by (cases cs) auto
  have "snd c \<noteq> []" by (rule root_children_nonempty [OF rep, of c]) (use c len in \<open>auto simp: rootslotmax_def\<close>)
  then have ne: "?ks \<noteq> []" using c by (cases c) simp
  show ?thesis
  proof (cases "lr_train_range (e_fp env) (lr_new (e_w env) (e_b env)) ?ks")
    case (Inl e)
    then have "e = AssertFail" using lr_train_range_cases [of "e_fp env" "lr_new (e_w env) (e_b env)" ?ks] by auto
    moreover have "\<not> env_trains env" using Inl srt ne lk unfolding env_trains_def by force
    ultimately show ?thesis using that(1) sort Inl by (simp add: am_retrain_def)
  next
    case (Inr lr)
    have cl: "predictions_close (e_fp env) lr ?ks" using close srt lk Inr unfolding env_close_def by blast
    have small: "unat (lr_maxErr lr) < 2 ^ 31" using trained_error_small [OF Inr cl] lk by simp
    obtain ai where ai: "AidelModel_new lr ?ks ?vs (length ?ks) (unat (lr_maxErr lr)) = Inr ai" by (simp add: AidelModel_new_def)
    have lens: "length ?vs = length ?ks" "length ?ks < 2 ^ 31" "unat (lr_maxErr lr) + length ?ks < 2 ^ 64" "unat (lr_maxErr lr) < 2 ^ 63"
      using lk small by auto
    note n = AidelModel_new_ok [OF srt ne lens(1,3) ai]
    have "am_value env ai = map_of (zip ?ks ?vs)" by (rule AidelModel_new_value [OF Inr cl srt ne lens(2,1) order_refl lens(4) ai])
    then have v: "am_value env ai = map_of (lb_pairs cs)" by (simp add: zip_map_fst_snd)
    have "\<forall>s \<in> set (am_mobs ai). s = None" unfolding n(3) by (simp only: set_replicate_conv_if) simp
    then show ?thesis using that(2) [OF _ n(1) v] sort Inr ai by (simp add: am_retrain_def)
  qed
qed

lemma insert_slot_ok:
  assumes "am_ok m" and "pos < length (am_keys m)" "am_pos env m key = Inr (pos, am_keys m ! pos)" "am_keys m ! pos \<noteq> key"
    and "ai_ok mob" and "mob_value env (Some mob) = (mob_value env s)(key := Some (case mob_value env s key of None \<Rightarrow> val | Some v \<Rightarrow> v))"
    and "s = am_mobs m ! bin_pos key (pos, am_keys m ! pos)"
  shows "insert_ok env m key val
    (Inr (if mob_value env s key = None then Res_ok else Res_failed, am_set_slot (bin_pos key (pos, am_keys m ! pos)) mob m))"
proof -
  have "am_value env m key = mob_value env s key" using am_value_at [OF assms(1-3)] assms(4,7) by simp
  then show ?thesis
    unfolding insert_ok_def using am_post_slot [OF assms(1,5,2,3,4) assms(6) [unfolded assms(7)]] assms(7) by simp
qed

lemma am_insert_ok:
  assumes close: "env_close env"
  shows "am_ok m \<Longrightarrow> am_depth m \<le> n \<Longrightarrow> insert_ok env m key val (am_insert n env m key val)"
proof (induction n arbitrary: m)
  case 0
  then show ?case using am_depth_pos [of m] by simp
next
  case (Suc n)
  note ok = am_okD [OF Suc.prems(1)]
  show ?case
  proof (cases rule: am_slot [OF Suc.prems(1), of env key])
    case (1 pos)
    then show ?thesis by (rule am_insert_hit [OF Suc.prems(1)])
  next
    case (2 pos)
    let ?i = "bin_pos key (pos, am_keys m ! pos)"
    let ?s = "am_mobs m ! ?i"
    have nth: "nth_res (am_mobs m) ?i = Inr ?s" using 2(4) by simp
    have run: "am_insert (Suc n) env m key val = am_insert_mob n env m key val ?i" by (rule am_insert_slot [OF 2(2,3)])
    note slot = insert_slot_ok [OF Suc.prems(1) 2(1-3) _ _ refl]
    show ?thesis
    proof (cases ?s)
      case None
      obtain b' cs' where b': "con_insert_retrain key val LevelBin_new = Inr (Res_ok, b')" "lb_rep b' cs'" "\<not> lb_retraining b'"
        "map_of (lb_pairs cs') = [key \<mapsto> val]" by (rule new_bin_insert)
      have "am_insert_mob n env m key val ?i = Inr (Res_ok, am_set_slot ?i (LBin False b') m)"
        using nth None b'(1) by (simp add: ai_lock_def ai_unlock_def)
      moreover have "insert_ok env m key val (Inr (if mob_value env ?s key = None then Res_ok else Res_failed, am_set_slot ?i (LBin False b') m))"
        by (rule slot) (use b'(2,3,4) None in \<open>auto simp: lb_value_rep [OF b'(2,3)] fun_eq_iff\<close>)
      ultimately show ?thesis using run None by simp
    next
      case (Some mob)
      have mob: "ai_ok mob" by (rule ok(7) [OF 2(4) Some])
      have depth: "ai_depth mob \<le> n" using ai_slot_depth [OF 2(4) Some] Suc.prems(2) by simp
      show ?thesis
      proof (cases mob)
        case (LModel lk ai)
        then have ai: "\<not> lk" "am_ok ai" using mob by auto
        have mrun: "am_insert_mob n env m key val ?i = bind_res (am_insert n env ai key val) (\<lambda>(r, ai'). Inr (r, am_set_slot ?i (LModel False ai') m))"
          using nth Some LModel ai(1) by (simp add: ai_lock_def ai_unlock_def)
        consider "am_insert n env ai key val = Inl AssertFail" "\<not> env_trains env"
          | ai' where "am_insert n env ai key val = Inr (if am_value env ai key = None then Res_ok else Res_failed, ai')" "am_ok ai'"
              "am_value env ai' = (am_value env ai)(key := Some (case am_value env ai key of None \<Rightarrow> val | Some v \<Rightarrow> v))"
          using Suc.IH [OF ai(2)] depth LModel by (auto simp: insert_ok_def am_post_def)
        then show ?thesis
        proof cases
          case 1
          then show ?thesis using run mrun by (simp add: insert_ok_def)
        next
          case (2 ai')
          have "insert_ok env m key val (Inr (if mob_value env ?s key = None then Res_ok else Res_failed, am_set_slot ?i (LModel False ai') m))"
            by (rule slot) (use 2(2,3) Some LModel in \<open>auto simp: fun_eq_iff\<close>)
          then show ?thesis using run mrun 2(1) Some LModel by simp
        qed
      next
        case (LBin lk b)
        then obtain cs where b: "\<not> lk" "\<not> lb_retraining b" "lb_rep b cs" using mob by auto
        have v: "mob_value env ?s = map_of (lb_pairs cs)" using Some LBin by (simp add: fun_eq_iff lb_value_rep [OF b(3,2)])
        obtain res b' where ins: "con_insert_retrain key val b = Inr (res, b')" and out: "insert_outcome key val b cs (res, b')"
          using con_insert_spec [OF b(3,2), of key val] by (metis prod.exhaust)
        have mrun: "am_insert_mob n env m key val ?i = (if res = Res_retrain then
               bind_res (am_retrain env b') (\<lambda>ai.
               bind_res (am_insert n env ai key val) (\<lambda>(r, ai'). Inr (r, am_set_slot ?i (LModel False ai') m)))
             else Inr (res, am_set_slot ?i (LBin False b') m))"
          using nth Some LBin b(1) ins by (simp add: ai_lock_def ai_unlock_def)
        show ?thesis
        proof (cases res)
          case Res_ok
          then obtain cs' where cs': "lb_rep b' cs'" "pairs_ins key val (lb_pairs cs) (lb_pairs cs')" "\<not> lb_retraining b'" using out by auto
          have srt: "ssorted (lb_keys cs)" using b(3) by (simp add: lb_rep_def)
          have m': "map_of (lb_pairs cs') = (map_of (lb_pairs cs))(key \<mapsto> val)" "map_of (lb_pairs cs) key = None"
            using pairs_ins_map(2,3) [OF cs'(2) srt] by (auto simp: lb_mem)
          have "insert_ok env m key val (Inr (if mob_value env ?s key = None then Res_ok else Res_failed, am_set_slot ?i (LBin False b') m))"
            by (rule slot) (use cs' m' in \<open>auto simp: v lb_value_rep [OF cs'(1,3)] fun_eq_iff\<close>)
          then show ?thesis using run mrun Res_ok v m'(2) by simp
        next
          case Res_failed
          then have f: "b' = b" "map_of (lb_pairs cs) key \<noteq> None" using out by (auto simp: lb_mem)
          have "insert_ok env m key val (Inr (if mob_value env ?s key = None then Res_ok else Res_failed, am_set_slot ?i (LBin False b) m))"
            by (rule slot) (use b f in \<open>auto simp: v lb_value_rep [OF b(3,2)] fun_eq_iff\<close>)
          then show ?thesis using run mrun Res_failed v f by simp
        next
          case Res_retry
          then show ?thesis using out by (simp add: insert_outcome_def)
        next
          case Res_retrain
          then have b': "b' = b\<lparr>lb_retraining := True\<rparr>" "length cs = rootslotmax + 1" using out by auto
          show ?thesis
          proof (cases rule: am_retrain_cases [OF close b(3) b'(2)])
            case 1
            then show ?thesis using run mrun Res_retrain b'(1) by (simp add: insert_ok_def)
          next
            case (2 ai)
            have n: "0 < n" using depth LBin by simp
            have "fold max (map (\<lambda>s. case s of None \<Rightarrow> 0 | Some mob \<Rightarrow> ai_depth mob) xs) a = a" if "\<forall>s \<in> set xs. s = None" for xs :: "'a ai_mob option list" and a :: nat
              using that by (induction xs arbitrary: a) auto
            then have "am_depth ai = 1" using 2(4) by (cases ai) simp
            then have "insert_ok env ai key val (am_insert n env ai key val)" using Suc.IH [OF 2(2)] n by simp
            then consider "am_insert n env ai key val = Inl AssertFail" "\<not> env_trains env"
              | ai' where "am_insert n env ai key val = Inr (if am_value env ai key = None then Res_ok else Res_failed, ai')" "am_ok ai'"
                  "am_value env ai' = (am_value env ai)(key := Some (case am_value env ai key of None \<Rightarrow> val | Some v \<Rightarrow> v))"
              by (auto simp: insert_ok_def am_post_def)
            then show ?thesis
            proof cases
              case 1
              then show ?thesis using run mrun Res_retrain b'(1) 2(1) by (simp add: insert_ok_def)
            next
              case ai': (2 ai')
              have "insert_ok env m key val (Inr (if mob_value env ?s key = None then Res_ok else Res_failed, am_set_slot ?i (LModel False ai') m))"
                by (rule slot) (use ai'(2,3) 2(3) in \<open>auto simp: v fun_eq_iff\<close>)
              then show ?thesis using run mrun Res_retrain b'(1) 2(1,3) ai'(1) v by simp
            qed
          qed
        qed
      qed
    qed
  qed
qed

end
