(* ===== verification/Aidel.thy ===== *)
theory Aidel
  imports Aidel_Model_Spec Kanva
begin

text \<open>
  The Finedex index: \<open>Finedex/aidel.h\<close> and \<open>Finedex/aidel_impl.h\<close>. Training is the text Kanva's training
  started from, with other nodes; \<open>aidel_train_sim\<close> shows that both cut the same keys into the same nodes,
  so that what is proved of Kanva's training holds of this one. The parts without nodes
  (\<open>train_iter\<close>, \<open>digits_step\<close>, \<open>backward_size\<close>) are shared. The segments of the optimal piecewise model
  (\<open>train_opt\<close>) are not part of the state here: no operation reads them.
\<close>

section \<open>State and training\<close>

record 'd AIDEL =
  ai_model_keys :: "key_t list"
  ai_aimodels :: "'d AidelModel list"
  ai_maxErr :: int
  ai_learning_step :: int
  ai_rate :: "int \<Rightarrow> int"

definition AIDEL_new :: "int \<Rightarrow> int \<Rightarrow> (int \<Rightarrow> int) \<Rightarrow> 'd AIDEL" where
  "AIDEL_new maxErr learning_step rate =
     \<lparr>ai_model_keys = [], ai_aimodels = [], ai_maxErr = maxErr, ai_learning_step = learning_step, ai_rate = rate\<rparr>"

definition AIDEL_default :: "(int \<Rightarrow> int) \<Rightarrow> 'd AIDEL" where
  "AIDEL_default rate = AIDEL_new 64 1000 rate"

definition aidel_append_model ::
    "'d AIDEL \<Rightarrow> 'd lr_model \<Rightarrow> key_t list \<Rightarrow> val_t list \<Rightarrow> nat \<Rightarrow> int \<Rightarrow> 'd AIDEL res" where
  "aidel_append_model a lr ks vs sz er =
     bind_res (nth_int ks (int sz - 1)) (\<lambda>key.
       let step = digits_step (to_i32 (int (sz div 10))) 1 in
       assert_res (er \<le> ai_maxErr a)
        (bind_res (AidelModel_new lr ks vs sz (sz_of_int (ai_maxErr a))) (\<lambda>aimodel.
           Inr (a\<lparr>ai_model_keys := ai_model_keys a @ [key], ai_aimodels := ai_aimodels a @ [aimodel],
                  ai_learning_step := if step = 1 then 10 else step\<rparr>))))"

function aidel_backward_loop ::
    "'d env \<Rightarrow> 'd AIDEL \<Rightarrow> key_t list \<Rightarrow> val_t list \<Rightarrow> int \<Rightarrow> int \<Rightarrow> (nat \<times> 'd AIDEL + int) res" where
  "aidel_backward_loop env a ks vs step fin =
     (if 0 < fin \<and> 0 < step then
        bind_res (train_iter env ks (nat fin)) (\<lambda>lr.
          if unat (lr_maxErr lr) \<le> sz_of_int (ai_maxErr a) then
            bind_res (aidel_append_model a lr ks vs (nat fin) (to_i32 (uint (lr_maxErr lr))))
              (\<lambda>a'. Inr (Inl (nat fin, a')))
          else aidel_backward_loop env a ks vs step (fin - step))
      else Inr (Inr fin))"
  by pat_completeness auto
termination by (relation "measure (\<lambda>(_, _, _, _, _, fin). nat fin)") auto

declare aidel_backward_loop.simps [simp del]

fun aidel_backward_train ::
    "nat \<Rightarrow> 'd env \<Rightarrow> 'd AIDEL \<Rightarrow> key_t list \<Rightarrow> val_t list \<Rightarrow> nat \<Rightarrow> int \<Rightarrow> (nat \<times> 'd AIDEL) res" where
  "aidel_backward_train 0 env a ks vs sz step = Inl OutOfFuel"
| "aidel_backward_train (Suc n) env a ks vs sz step =
     bind_res (backward_size (ai_rate a) sz step) (\<lambda>(sz, step).
     assert_res (0 < step)
      (bind_res (aidel_backward_loop env a ks vs step (to_i32 (int sz - step))) (\<lambda>r.
         case r of Inl res \<Rightarrow> Inr res
         | Inr fin \<Rightarrow>
             bind_res (aidel_backward_train n env a ks vs (to_u32 fin) (ai_rate a step)) (\<lambda>(r, a').
               Inr (sz_of_int (to_i32 (int r)), a')))))"

definition aidel_next_end :: "nat \<Rightarrow> 'd AIDEL \<Rightarrow> nat \<Rightarrow> nat" where
  "aidel_next_end len a fin =
     (let fin' = sz_of_int (int fin + ai_learning_step a) in if len \<le> fin' then len else fin')"

fun aidel_train_loop ::
    "nat \<Rightarrow> 'd env \<Rightarrow> 'd AIDEL \<Rightarrow> key_t list \<Rightarrow> val_t list \<Rightarrow> nat \<Rightarrow> nat \<Rightarrow> 'd AIDEL res" where
  "aidel_train_loop 0 env a keys vals start fin = Inl OutOfFuel"
| "aidel_train_loop (Suc n) env a keys vals start fin =
     (if start < fin then
        let ks = drop start keys; vs = drop start vals; len = length keys in
        bind_res (train_iter env ks (fin - start)) (\<lambda>lr.
        let er = unat (lr_maxErr lr); me = sz_of_int (ai_maxErr a) in
        if er = me then
          bind_res (aidel_append_model a lr ks vs (fin - start) (to_i32 (int er))) (\<lambda>a'.
            aidel_train_loop n env a' keys vals fin (aidel_next_end len a' fin))
        else if er < me then
          (if len \<le> fin then aidel_append_model a lr ks vs (fin - start) (to_i32 (int er))
           else aidel_train_loop n env a keys vals start (aidel_next_end len a fin))
        else
          bind_res (aidel_backward_train (backward_fuel (ai_rate a (ai_learning_step a))) env a ks vs
              (to_u32 (int (fin - start))) (ai_rate a (ai_learning_step a))) (\<lambda>(off, a').
            aidel_train_loop n env a' keys vals (start + off) (aidel_next_end len a' (start + off))))
      else Inr a)"

definition aidel_train :: "'d env \<Rightarrow> 'd AIDEL \<Rightarrow> key_t list \<Rightarrow> val_t list \<Rightarrow> nat \<Rightarrow> 'd AIDEL res" where
  "aidel_train env a keys vals maxErr =
     assert_res (length keys = length vals)
      (let a1 = a\<lparr>ai_maxErr := to_i32 (int maxErr)\<rparr>; step = sz_of_int (ai_learning_step a1);
           fin = (if step < length keys then step else length keys) in
       bind_res (aidel_train_loop (train_fuel (length keys)) env a1 keys vals 0 fin) (\<lambda>a2.
         assert_res (length (ai_model_keys a2) = length (ai_aimodels a2)) (Inr a2)))"

section \<open>Operations\<close>

definition aidel_find_model :: "'d AIDEL \<Rightarrow> key_t \<Rightarrow> nat res" where
  "aidel_find_model a key =
     bind_res (binary_search_branchless (ai_model_keys a) (length (ai_model_keys a)) key) (\<lambda>p.
       Inr (if length (ai_aimodels a) \<le> p then sz_sub (length (ai_aimodels a)) 1 else p))"

definition aidel_find :: "'d env \<Rightarrow> 'd AIDEL \<Rightarrow> key_t \<Rightarrow> val_t \<Rightarrow> (result_t \<times> val_t) res" where
  "aidel_find env a key val =
     bind_res (aidel_find_model a key) (\<lambda>i.
     bind_res (nth_res (ai_aimodels a) i) (\<lambda>m. am_find env m key val))"

definition aidel_insert :: "'d env \<Rightarrow> 'd AIDEL \<Rightarrow> key_t \<Rightarrow> val_t \<Rightarrow> (result_t \<times> 'd AIDEL) res" where
  "aidel_insert env a key val =
     bind_res (aidel_find_model a key) (\<lambda>i.
     bind_res (nth_res (ai_aimodels a) i) (\<lambda>m.
     bind_res (am_con_insert env m key val) (\<lambda>(r, m').
       Inr (r, a\<lparr>ai_aimodels := (ai_aimodels a)[i := m']\<rparr>))))"

definition aidel_update :: "'d env \<Rightarrow> 'd AIDEL \<Rightarrow> key_t \<Rightarrow> val_t \<Rightarrow> (result_t \<times> 'd AIDEL) res" where
  "aidel_update env a key val =
     bind_res (aidel_find_model a key) (\<lambda>i.
     bind_res (nth_res (ai_aimodels a) i) (\<lambda>m.
     bind_res (am_update env m key val) (\<lambda>(r, m').
       Inr (r, a\<lparr>ai_aimodels := (ai_aimodels a)[i := m']\<rparr>))))"

definition aidel_remove :: "'d env \<Rightarrow> 'd AIDEL \<Rightarrow> key_t \<Rightarrow> (result_t \<times> 'd AIDEL) res" where
  "aidel_remove env a key =
     bind_res (aidel_find_model a key) (\<lambda>i.
     bind_res (nth_res (ai_aimodels a) i) (\<lambda>m.
     bind_res (am_remove env m key) (\<lambda>(r, m').
       Inr (r, a\<lparr>ai_aimodels := (ai_aimodels a)[i := m']\<rparr>))))"

text \<open>The loop of \<open>scan\<close>: it scans the same node again and again until nothing is missing.\<close>

fun aidel_scan_loop :: "nat \<Rightarrow> 'd env \<Rightarrow> 'd AIDEL \<Rightarrow> key_t \<Rightarrow> nat \<Rightarrow> nat \<Rightarrow> (nat \<times> (key_t \<times> val_t) list) res" where
  "aidel_scan_loop 0 env a key model_pos remaining = Inl OutOfFuel"
| "aidel_scan_loop (Suc fuel) env a key model_pos remaining =
     (if 0 < remaining \<and> model_pos < length (ai_aimodels a) then
        bind_res (nth_res (ai_aimodels a) model_pos) (\<lambda>m.
        bind_res (am_scan env m key remaining) (\<lambda>(r, kvs).
        bind_res (aidel_scan_loop fuel env a key model_pos (sz_of_int r)) (\<lambda>(r', kvs'). Inr (r', kvs @ kvs'))))
      else Inr (remaining, []))"

definition aidel_scan :: "nat \<Rightarrow> 'd env \<Rightarrow> 'd AIDEL \<Rightarrow> key_t \<Rightarrow> nat \<Rightarrow> (int \<times> (key_t \<times> val_t) list) res" where
  "aidel_scan fuel env a key n =
     bind_res (aidel_find_model a key) (\<lambda>model_pos.
     bind_res (aidel_scan_loop fuel env a key model_pos n) (\<lambda>(r, kvs). Inr (to_i32 (int r), kvs)))"

definition aidel_self_check :: "'d AIDEL \<Rightarrow> bool" where
  "aidel_self_check a \<longleftrightarrow> (\<forall>i \<in> {0..<length (ai_model_keys a)}. am_self_check (ai_aimodels a ! i))"

section \<open>The same training as Kanva's\<close>

definition map_res :: "('a \<Rightarrow> 'b) \<Rightarrow> 'a res \<Rightarrow> 'b res" where
  "map_res f r = bind_res r (\<lambda>x. Inr (f x))"

lemma map_res_simps [simp]: "map_res f (Inl e) = Inl e" "map_res f (Inr x) = Inr (f x)"
  by (simp_all add: map_res_def)

lemma map_res_bind [simp]: "map_res f (bind_res r g) = bind_res r (\<lambda>x. map_res f (g x))"
  by (cases r) simp_all

lemma map_res_assert [simp]: "map_res f (assert_res b r) = assert_res b (map_res f r)"
  by (simp add: assert_res_def)

lemma bind_map_res [simp]: "bind_res (map_res f r) g = bind_res r (\<lambda>x. g (f x))"
  by (cases r) simp_all

lemma map_res_if: "map_res f (if b then r else s) = (if b then map_res f r else map_res f s)"
  by simp

text \<open>The node and the index with Finedex's nodes in place of Kanva's.\<close>

definition ai_node :: "'d KanvaModel \<Rightarrow> 'd AidelModel" where
  "ai_node m = AModel (km_w0 m) (km_w1 m) (km_maxErr m) (km_keys m) (km_vals m) (replicate (length (km_keys m)) True)
     (replicate (Suc (length (km_keys m))) None)"

definition ai_of :: "'d Kanva \<Rightarrow> 'd AIDEL" where
  "ai_of k = \<lparr>ai_model_keys = k_model_keys k, ai_aimodels = map ai_node (k_aimodels k), ai_maxErr = k_maxErr k,
     ai_learning_step = k_learning_step k, ai_rate = k_rate k\<rparr>"

lemma ai_of_sel [simp]:
  "ai_model_keys (ai_of k) = k_model_keys k" "ai_aimodels (ai_of k) = map ai_node (k_aimodels k)" "ai_maxErr (ai_of k) = k_maxErr k"
  "ai_learning_step (ai_of k) = k_learning_step k" "ai_rate (ai_of k) = k_rate k"
  by (simp_all add: ai_of_def)

lemma AidelModel_new_sim: "AidelModel_new lr ks vs sz e = map_res ai_node (KanvaModel_new lr ks vs sz e)"
  by (simp add: AidelModel_new_def KanvaModel_new_def ai_node_def min_def)

lemma append_model_sim: "aidel_append_model (ai_of k) lr ks vs sz er = map_res ai_of (append_model k lr ks vs sz er)"
  by (simp add: aidel_append_model_def append_model_def Let_def AidelModel_new_sim) (simp add: ai_of_def)

lemma backward_loop_sim:
  "aidel_backward_loop env (ai_of k) ks vs step fin = map_res (map_sum (map_prod (\<lambda>x. x) ai_of) (\<lambda>x. x)) (backward_loop env k ks vs step fin)"
proof (induction env k ks vs step fin rule: backward_loop.induct)
  case (1 env k ks vs step fin)
  show ?case
    by (subst aidel_backward_loop.simps, subst backward_loop.simps) (use 1 in \<open>auto simp: append_model_sim intro!: bind_res_cong\<close>)
qed

lemma backward_train_sim:
  "aidel_backward_train n env (ai_of k) ks vs sz step = map_res (map_prod (\<lambda>x. x) ai_of) (backward_train n env k ks vs sz step)"
proof (induction n arbitrary: sz step)
  case (Suc n)
  then show ?case
    by (auto simp: backward_loop_sim intro!: bind_res_cong assert_res_cong split: sum.split prod.split)
qed simp

lemma next_end_sim: "aidel_next_end len (ai_of k) fin = next_end len k fin"
  by (simp add: aidel_next_end_def next_end_def Let_def)

lemma train_loop_sim:
  "aidel_train_loop n env (ai_of k) keys vals start fin = map_res ai_of (train_loop n env k keys vals start fin)"
proof (induction n arbitrary: k start fin)
  case (Suc n)
  then show ?case
    by (auto simp: Let_def append_model_sim backward_train_sim next_end_sim split_beta intro!: bind_res_cong)
qed simp

lemma train_sim: "aidel_train env (ai_of k) keys vals maxErr = map_res ai_of (Kanva_train env k keys vals maxErr)"
proof -
  have eq: "(ai_of k)\<lparr>ai_maxErr := to_i32 (int maxErr)\<rparr> = ai_of (k\<lparr>k_maxErr := to_i32 (int maxErr)\<rparr>)" by (simp add: ai_of_def)
  show ?thesis unfolding aidel_train_def Kanva_train_def Let_def eq train_loop_sim by simp
qed

end
