(* ===== verification/Aidel_Correct.thy ===== *)
theory Aidel_Correct
  imports Aidel
begin

text \<open>
  The Finedex index as a map: after training it holds the training pairs, and every sequence of searches,
  insertions, updates and removals answers as a map does. Scans are the exception; what they do wrong is
  stated as properties.
\<close>

section \<open>Routing\<close>

definition aidel_ok :: "'d AIDEL \<Rightarrow> bool" where
  "aidel_ok a \<longleftrightarrow> sorted (ai_model_keys a) \<and> length (ai_model_keys a) = length (ai_aimodels a)
     \<and> ai_aimodels a \<noteq> [] \<and> length (ai_aimodels a) < 2 ^ 64 \<and> (\<forall>m \<in> set (ai_aimodels a). am_ok m)"

definition aidel_value :: "'d env \<Rightarrow> 'd AIDEL \<Rightarrow> key_t \<Rightarrow> val_t option" where
  "aidel_value env a key =
     (case aidel_find_model a key of Inl _ \<Rightarrow> None | Inr i \<Rightarrow> am_value env (ai_aimodels a ! i) key)"

lemma aidel_find_model_lb:
  assumes "sorted (ai_model_keys a)" and "length (ai_model_keys a) = length (ai_aimodels a)"
    and "ai_aimodels a \<noteq> []" and "length (ai_aimodels a) < 2 ^ 64"
  shows "aidel_find_model a key = Inr (min (lb (ai_model_keys a) key) (length (ai_aimodels a) - 1))"
proof -
  have "1 \<le> length (ai_aimodels a)" using assms(3) by (cases "ai_aimodels a") auto
  then have "sz_sub (length (ai_aimodels a)) 1 = length (ai_aimodels a) - 1"
    using assms(4) by (intro sz_sub_small) auto
  then show ?thesis
    unfolding aidel_find_model_def binary_search_branchless_lb [OF assms(1)]
    using lb_le [of "ai_model_keys a" key] assms(2) \<open>1 \<le> length (ai_aimodels a)\<close> by auto
qed

lemma aidel_route:
  assumes "aidel_ok a"
  obtains i where "aidel_find_model a key = Inr i" "i < length (ai_aimodels a)" "am_ok (ai_aimodels a ! i)"
    "nth_res (ai_aimodels a) i = Inr (ai_aimodels a ! i)" "aidel_value env a key = am_value env (ai_aimodels a ! i) key"
proof -
  let ?i = "min (lb (ai_model_keys a) key) (length (ai_aimodels a) - 1)"
  have r: "aidel_find_model a key = Inr ?i" using assms by (intro aidel_find_model_lb) (auto simp: aidel_ok_def)
  have "0 < length (ai_aimodels a)" using assms by (simp add: aidel_ok_def)
  then have i: "?i < length (ai_aimodels a)" by linarith
  then have "am_ok (ai_aimodels a ! ?i)" using assms by (simp add: aidel_ok_def)
  then show ?thesis using that [OF r i] i r by (simp add: aidel_value_def)
qed

lemma aidel_find_model_upd [simp]:
  "aidel_find_model (a\<lparr>ai_aimodels := (ai_aimodels a)[i := m]\<rparr>) key = aidel_find_model a key"
  by (simp add: aidel_find_model_def cong: if_cong)

lemma aidel_change:
  assumes ok: "aidel_ok a" and i: "aidel_find_model a key = Inr i" "i < length (ai_aimodels a)"
    and m: "am_ok m'" "am_value env m' = (am_value env (ai_aimodels a ! i))(key := v)"
  shows "aidel_ok (a\<lparr>ai_aimodels := (ai_aimodels a)[i := m']\<rparr>)"
    and "aidel_value env (a\<lparr>ai_aimodels := (ai_aimodels a)[i := m']\<rparr>) = (aidel_value env a)(key := v)"
proof -
  show "aidel_ok (a\<lparr>ai_aimodels := (ai_aimodels a)[i := m']\<rparr>)"
    using ok m(1) by (auto simp: aidel_ok_def dest!: set_update_subset_insert [THEN subsetD])
  show "aidel_value env (a\<lparr>ai_aimodels := (ai_aimodels a)[i := m']\<rparr>) = (aidel_value env a)(key := v)"
  proof
    fix x
    obtain j where j: "aidel_find_model a x = Inr j" "j < length (ai_aimodels a)" by (rule aidel_route [OF ok])
    then show "aidel_value env (a\<lparr>ai_aimodels := (ai_aimodels a)[i := m']\<rparr>) x = ((aidel_value env a)(key := v)) x"
      using i m(2) by (cases "j = i"; cases "x = key") (auto simp: aidel_value_def)
  qed
qed

section \<open>After training\<close>

lemma node_trained_aidel:
  assumes "node_trained env me m" and "ssorted (km_keys m)" and "length (km_keys m) < 2 ^ 31" and "me < 2 ^ 31"
  shows "am_ok (ai_node m)"
    and "predictions_close (e_fp env) (lr_new (km_w0 m) (km_w1 m)) (km_keys m) \<Longrightarrow>
      am_value env (ai_node m) = map_of (zip (km_keys m) (km_vals m))"
proof -
  obtain lr where lr: "lr_train_range (e_fp env) (lr_new (e_w env) (e_b env)) (km_keys m) = Inr lr"
      "unat (lr_maxErr lr) \<le> me" "km_keys m \<noteq> []" "length (km_vals m) = length (km_keys m)"
      "KanvaModel_new lr (km_keys m) (km_vals m) (length (km_keys m)) me = Inr m"
    using assms(1) by (auto simp: node_trained_def)
  have new: "AidelModel_new lr (km_keys m) (km_vals m) (length (km_keys m)) me = Inr (ai_node m)"
    unfolding AidelModel_new_sim lr(5) by simp
  have small: "me + length (km_keys m) < 2 ^ 64" "me < 2 ^ 63" using assms(3,4) by auto
  show "am_ok (ai_node m)" by (rule AidelModel_new_ok(1) [OF assms(2) lr(3,4) small(1) new])
  assume close: "predictions_close (e_fp env) (lr_new (km_w0 m) (km_w1 m)) (km_keys m)"
  have "km_w0 m = lr_w0 lr" "km_w1 m = lr_w1 lr" using lr(4,5) by (cases m; auto simp: KanvaModel_new_def)+
  then have "predictions_close (e_fp env) lr (km_keys m)" using close by (simp add: predictions_close_def lr_predict_weights)
  then show "am_value env (ai_node m) = map_of (zip (km_keys m) (km_vals m))"
    by (rule AidelModel_new_value [OF lr(1) _ assms(2) lr(3) assms(3) lr(4,2) small(2) new])
qed

lemma aidel_trained:
  assumes tr: "trained_upto env k keys vals (length keys)" and keys: "ssorted keys" "keys \<noteq> []" "length keys < 2 ^ 31"
    and vals: "length vals = length keys" and me: "0 \<le> k_maxErr k" "k_maxErr k < 2 ^ 31"
  shows "aidel_ok (ai_of k)"
    and "\<forall>m \<in> set (k_aimodels k). predictions_close (e_fp env) (lr_new (km_w0 m) (km_w1 m)) (km_keys m) \<Longrightarrow>
      aidel_value env (ai_of k) = map_of (zip keys vals)"
proof -
  let ?kss = "map km_keys (k_aimodels k)" and ?vss = "map km_vals (k_aimodels k)"
  note p = trained_parts [OF tr keys(1)]
  have cat: "concat ?kss = keys" "concat ?vss = vals" using tr vals by (simp_all add: trained_upto_def)
  have kok: "kanva_ok k" by (rule trained_kanva_ok [OF tr keys])
  have node: "node_trained env (nat (k_maxErr k)) m" "ssorted (km_keys m)" "length (km_keys m) < 2 ^ 31" "nat (k_maxErr k) < 2 ^ 31"
    if m: "m \<in> set (k_aimodels k)" for m
  proof -
    show "node_trained env (nat (k_maxErr k)) m" using tr m by (simp add: trained_upto_def)
    show "ssorted (km_keys m)" using ssorted_concat_parts [OF p(1)] m by simp
    have "length (km_keys m) \<le> length keys" unfolding cat(1) [symmetric] using m by (simp add: length_concat member_le_sum_list)
    then show "length (km_keys m) < 2 ^ 31" using keys(3) by simp
    show "nat (k_maxErr k) < 2 ^ 31" using me by (simp add: nat_less_iff)
  qed
  show ok: "aidel_ok (ai_of k)"
    using kok node_trained_aidel(1) [OF node] by (auto simp: aidel_ok_def kanva_ok_def)
  assume close: "\<forall>m \<in> set (k_aimodels k). predictions_close (e_fp env) (lr_new (km_w0 m) (km_w1 m)) (km_keys m)"
  show "aidel_value env (ai_of k) = map_of (zip keys vals)"
  proof
    fix key
    obtain i where i: "aidel_find_model (ai_of k) key = Inr i" "i < length (k_aimodels k)"
      "aidel_value env (ai_of k) key = am_value env (ai_node (k_aimodels k ! i)) key"
      by (rule aidel_route [OF ok, of key env]) auto
    let ?m = "k_aimodels k ! i"
    have m: "?m \<in> set (k_aimodels k)" using i(2) by simp
    have v: "aidel_value env (ai_of k) key = map_of (zip (km_keys ?m) (km_vals ?m)) key"
      unfolding i(3) using node_trained_aidel(2) [OF node [OF m]] close m by simp
    show "aidel_value env (ai_of k) key = map_of (zip keys vals) key"
    proof (cases "key \<in> set keys")
      case False
      moreover have "set (km_keys ?m) \<subseteq> set keys" unfolding cat(1) [symmetric] using m by auto
      ultimately have "map_of (zip (km_keys ?m) (km_vals ?m)) key = None" "map_of (zip keys vals) key = None"
        by (auto simp: map_of_eq_None_iff dest: set_zip_leftD)
      then show ?thesis using v by simp
    next
      case True
      then obtain j where j: "j < length keys" "keys ! j = key" by (auto simp: in_set_conv_nth)
      have "map length ?kss = map length ?vss" using node(1) by (auto simp: node_trained_def)
      then obtain i' r where ir: "i' < length (k_aimodels k)" "r < length (km_keys (k_aimodels k ! i'))"
          "keys ! j = km_keys (k_aimodels k ! i') ! r" "vals ! j = km_vals (k_aimodels k ! i') ! r"
        using nth_concat_parts [of ?kss ?vss j] cat j by auto
      have "lb (k_model_keys k) key = i'" unfolding p(3)
        using lb_last_parts [OF p(1,2), of i' key] ir j(2) by simp
      moreover have "aidel_find_model (ai_of k) key = Inr (min (lb (k_model_keys k) key) (length (k_aimodels k) - 1))"
        using aidel_find_model_lb [of "ai_of k" key] kok by (simp add: kanva_ok_def)
      ultimately have "i = i'" using i(1) ir(1) by simp
      then have m': "r < length (km_keys ?m)" "km_keys ?m ! r = key" "km_vals ?m ! r = vals ! j" using ir j(2) by simp_all
      have lens: "length (km_keys ?m) = length (km_vals ?m)" using node(1) [OF m] by (simp add: node_trained_def)
      have "map_of (zip (km_keys ?m) (km_vals ?m)) (km_keys ?m ! r) = Some (km_vals ?m ! r)"
        using map_of_zip_nth [OF lens ssorted_distinct [OF node(2) [OF m]]] m'(1) lens by simp
      moreover have "map_of (zip keys vals) (keys ! j) = Some (vals ! j)"
        using map_of_zip_nth [OF vals [symmetric] ssorted_distinct [OF keys(1)]] j(1) vals by simp
      ultimately show ?thesis using v m'(2,3) j(2) by simp
    qed
  qed
qed

lemma AIDEL_new_sim: "AIDEL_new e step rate = ai_of (Kanva_new e step rate)"
  by (simp add: AIDEL_new_def ai_of_def Kanva_new_def)

lemma aidel_train_cases:
  assumes "length vals = length keys" and "length keys < 2 ^ 31" and "maxErr < 2 ^ 31"
    and "0 < step" "step < 2 ^ 31" and "rate_ok rate" and "ssorted keys" and "keys \<noteq> []"
  obtains (fail) "aidel_train env (AIDEL_new e step rate) keys vals maxErr \<in> {Inl AssertFail, Inl OutOfRange}"
  | (index) a where "aidel_train env (AIDEL_new e step rate) keys vals maxErr = Inr a" "aidel_ok a"
      "\<forall>m \<in> set (ai_aimodels a). predictions_close (e_fp env) (lr_new (am_w0 m) (am_w1 m)) (am_keys m) \<Longrightarrow>
        aidel_value env a = map_of (zip keys vals)"
proof -
  note new = AIDEL_new_sim [of e step rate]
  show ?thesis
  proof (cases rule: Kanva_train_loop [OF assms(1-6), of env e])
    case 1
    then show ?thesis using that(1) unfolding new train_sim by auto
  next
    case (2 k)
    have me: "0 \<le> k_maxErr k" "k_maxErr k < 2 ^ 31" using 2(3) assms(3) by simp_all
    note t = aidel_trained [OF 2(2) assms(7,8,2,1) me]
    have "aidel_train env (AIDEL_new e step rate) keys vals maxErr = Inr (ai_of k)" unfolding new train_sim 2(1) by simp
    then show ?thesis by (rule that(2) [OF _ t(1)]) (rule t(2), simp add: ai_node_def)
  qed
qed

section \<open>Operations of the index\<close>

definition aidel_post :: "'d env \<Rightarrow> 'd AIDEL \<Rightarrow> key_t \<Rightarrow> result_t \<Rightarrow> val_t option \<Rightarrow> (result_t \<times> 'd AIDEL) res \<Rightarrow> bool" where
  "aidel_post env a key r v res \<longleftrightarrow>
     (\<exists>a'. res = Inr (r, a') \<and> aidel_ok a' \<and> aidel_value env a' = (aidel_value env a)(key := v)
        \<and> ai_model_keys a' = ai_model_keys a)"

lemma aidel_post_route:
  assumes ok: "aidel_ok a" and i: "aidel_find_model a key = Inr i" "i < length (ai_aimodels a)"
    and post: "am_post env (ai_aimodels a ! i) key r v res"
  shows "aidel_post env a key r v (bind_res res (\<lambda>(r, m'). Inr (r, a\<lparr>ai_aimodels := (ai_aimodels a)[i := m']\<rparr>)))"
proof -
  obtain m' where m': "res = Inr (r, m')" "am_ok m'" "am_value env m' = (am_value env (ai_aimodels a ! i))(key := v)"
    using post by (auto simp: am_post_def)
  show ?thesis using aidel_change [OF ok i m'(2,3)] m'(1) by (simp add: aidel_post_def)
qed

lemma aidel_find_value:
  assumes "aidel_ok a"
  shows "aidel_find env a key val = Inr (case aidel_value env a key of None \<Rightarrow> (Res_failed, val) | Some v \<Rightarrow> (Res_ok, v))"
  by (rule aidel_route [OF assms, of key env]) (simp add: aidel_find_def am_find_value)

lemma aidel_update_post:
  assumes "aidel_ok a"
  shows "aidel_post env a key (if aidel_value env a key = None then Res_failed else Res_ok)
    (if aidel_value env a key = None then None else Some val) (aidel_update env a key val)"
proof (rule aidel_route [OF assms, of key env])
  fix i assume i: "aidel_find_model a key = Inr i" "i < length (ai_aimodels a)" "am_ok (ai_aimodels a ! i)"
    "nth_res (ai_aimodels a) i = Inr (ai_aimodels a ! i)" "aidel_value env a key = am_value env (ai_aimodels a ! i) key"
  show ?thesis using aidel_post_route [OF assms i(1,2) am_update_post [OF i(3), of env key val]] i(1,4,5)
    by (simp add: aidel_update_def)
qed

definition aidel_strands :: "'d env \<Rightarrow> 'd AIDEL \<Rightarrow> key_t \<Rightarrow> bool" where
  "aidel_strands env a key =
     (case aidel_find_model a key of Inl _ \<Rightarrow> False | Inr i \<Rightarrow> am_strands env (ai_aimodels a ! i) key)"

lemma aidel_remove_post:
  assumes "aidel_ok a" and "\<not> aidel_strands env a key"
  shows "aidel_post env a key (if aidel_value env a key = None then Res_failed else Res_ok) None (aidel_remove env a key)"
proof (rule aidel_route [OF assms(1), of key env])
  fix i assume i: "aidel_find_model a key = Inr i" "i < length (ai_aimodels a)" "am_ok (ai_aimodels a ! i)"
    "nth_res (ai_aimodels a) i = Inr (ai_aimodels a ! i)" "aidel_value env a key = am_value env (ai_aimodels a ! i) key"
  have "\<not> am_strands env (ai_aimodels a ! i) key" using assms(2) i(1) by (simp add: aidel_strands_def)
  then show ?thesis using aidel_post_route [OF assms(1) i(1,2) am_remove_post [OF i(3)]] i(1,4,5)
    by (simp add: aidel_remove_def)
qed

lemma aidel_insert_post:
  assumes "aidel_ok a" and "env_close env"
  shows "aidel_insert env a key val = Inl AssertFail \<and> \<not> env_trains env
    \<or> aidel_post env a key (if aidel_value env a key = None then Res_ok else Res_failed)
        (Some (case aidel_value env a key of None \<Rightarrow> val | Some v \<Rightarrow> v)) (aidel_insert env a key val)"
proof (rule aidel_route [OF assms(1), of key env])
  fix i assume i: "aidel_find_model a key = Inr i" "i < length (ai_aimodels a)" "am_ok (ai_aimodels a ! i)"
    "nth_res (ai_aimodels a) i = Inr (ai_aimodels a ! i)" "aidel_value env a key = am_value env (ai_aimodels a ! i) key"
  have run: "aidel_insert env a key val = bind_res (am_con_insert env (ai_aimodels a ! i) key val)
      (\<lambda>(r, m'). Inr (r, a\<lparr>ai_aimodels := (ai_aimodels a)[i := m']\<rparr>))"
    using i(1,4) by (simp add: aidel_insert_def)
  have "insert_ok env (ai_aimodels a ! i) key val (am_con_insert env (ai_aimodels a ! i) key val)"
    unfolding am_con_insert_def by (rule am_insert_ok [OF assms(2) i(3) order_refl])
  then show ?thesis unfolding insert_ok_def
    using aidel_post_route [OF assms(1) i(1,2)] run i(5) by auto
qed

section \<open>Runs against a map\<close>

definition aidel_step :: "'d env \<Rightarrow> lb_op \<Rightarrow> 'd AIDEL \<Rightarrow> (lb_ans \<times> 'd AIDEL) res" where
  "aidel_step env x a = (case x of
     lb_op.LFind k \<Rightarrow> bind_res (aidel_find env a k 0) (\<lambda>(r, v). Inr (LVal r v, a))
   | lb_op.LInsert k v \<Rightarrow> bind_res (aidel_insert env a k v) (\<lambda>(r, a'). Inr (LRes r, a'))
   | LUpdate k v \<Rightarrow> bind_res (aidel_update env a k v) (\<lambda>(r, a'). Inr (LRes r, a'))
   | lb_op.LRemove k \<Rightarrow> bind_res (aidel_remove env a k) (\<lambda>(r, a'). Inr (LRes r, a')))"

text \<open>A step beside the map: an answer a map would not give is the error \<open>OutOfRange\<close>. The removal that
  damages a level bin is left out, as in \<open>lb_track\<close>.\<close>

fun aidel_track :: "'d env \<Rightarrow> lb_op \<Rightarrow> 'd AIDEL \<times> (key_t \<rightharpoonup> val_t) \<Rightarrow> (lb_ans \<times> 'd AIDEL \<times> (key_t \<rightharpoonup> val_t)) res" where
  "aidel_track env x (a, m) =
     (if (case x of lb_op.LRemove k \<Rightarrow> aidel_strands env a k | _ \<Rightarrow> False) then Inr (LRes Res_retry, a, m)
      else bind_res (aidel_step env x a) (\<lambda>(r, a').
        case lb_answer False m x r of Some (False, m') \<Rightarrow> Inr (r, a', m') | _ \<Rightarrow> Inl OutOfRange))"

definition aidel_tracked :: "'d env \<Rightarrow> 'd AIDEL \<times> (key_t \<rightharpoonup> val_t) \<Rightarrow> bool" where
  "aidel_tracked env = (\<lambda>(a, m). env_close env \<and> aidel_ok a \<and> m = aidel_value env a)"

lemma aidel_track_safe:
  assumes "aidel_tracked env s"
  shows "aidel_track env x s = Inl AssertFail \<and> \<not> env_trains env \<or> (\<exists>r s'. aidel_track env x s = Inr (r, s') \<and> aidel_tracked env s')"
proof -
  obtain a where s: "s = (a, aidel_value env a)" and close: "env_close env" and ok: "aidel_ok a"
    using assms by (cases s) (auto simp: aidel_tracked_def)
  show ?thesis
  proof (cases x)
    case (LFind k)
    then show ?thesis using aidel_find_value [OF ok, of env k 0] assms s
      by (auto simp: aidel_step_def lb_answer_def split: option.splits)
  next
    case (LInsert k v)
    then show ?thesis using aidel_insert_post [OF ok close, of k v] close
      by (auto simp: s aidel_post_def aidel_step_def lb_answer_def aidel_tracked_def fun_upd_idem split: if_splits)
  next
    case (LUpdate k v)
    then show ?thesis using aidel_update_post [OF ok, of env k v] close
      by (auto simp: s aidel_post_def aidel_step_def lb_answer_def aidel_tracked_def fun_upd_idem split: if_splits)
  next
    case (LRemove k)
    show ?thesis
    proof (cases "aidel_strands env a k")
      case True
      then show ?thesis using assms s LRemove by auto
    next
      case False
      then show ?thesis using aidel_remove_post [OF ok False] close LRemove
        by (auto simp: s aidel_post_def aidel_step_def lb_answer_def aidel_tracked_def split: if_splits)
    qed
  qed
qed

interpretation aidel_ops: op_safety "aidel_tracked env" "aidel_track env" "\<lambda>_. True" "\<lambda>e. e = AssertFail \<and> \<not> env_trains env" for env
  by unfold_locales (use aidel_track_safe in blast)

section \<open>Scans\<close>

text \<open>The scan of a node whose slots are all empty.\<close>

lemma am_scan_loop_fresh:
  assumes "length (am_vals m) = length (am_keys m)" and "length slots = Suc (length (am_keys m))"
    and "\<And>i r. i < length slots \<Longrightarrow> (slots ! i) r = Inr (int r, [])"
  shows "n < 2 ^ 64 \<Longrightarrow> am_scan_loop slots m key pos n =
    (let kvs = filter (\<lambda>kv. key \<le> fst kv) (zip (drop pos (am_keys m)) (drop pos (am_vals m)))
     in Inr (n - length kvs, take n kvs))"
proof (induction "am_capacity m + 1 - pos" arbitrary: pos n rule: less_induct)
  case less
  show ?case
  proof (cases "pos < length (am_keys m) \<and> 0 < n")
    case True
    then have pos: "pos < length (am_keys m)" and n: "0 < n" by simp_all
    have d: "zip (drop pos (am_keys m)) (drop pos (am_vals m))
        = (am_keys m ! pos, am_vals m ! pos) # zip (drop (Suc pos) (am_keys m)) (drop (Suc pos) (am_vals m))"
      using pos assms(1) by (simp add: Cons_nth_drop_Suc [symmetric])
    have slot: "nth_res slots pos = Inr (slots ! pos)" "(slots ! pos) r = Inr (int r, [])" for r
      using pos assms(2,3) by simp_all
    have IH: "r < 2 ^ 64 \<Longrightarrow> am_scan_loop slots m key (pos + 1) r =
        (let kvs = filter (\<lambda>kv. key \<le> fst kv) (zip (drop (pos + 1) (am_keys m)) (drop (pos + 1) (am_vals m)))
         in Inr (r - length kvs, take r kvs))" for r
      using pos by (intro less.hyps) (simp_all add: am_capacity_def)
    obtain n' where n': "n = Suc n'" using n by (cases n) auto
    show ?thesis
    proof (cases "key \<le> am_keys m ! pos")
      case True
      then show ?thesis
        using pos n' slot IH [of n'] less.prems assms(1) unfolding d
        by (subst am_scan_loop.simps) (simp add: am_capacity_def Let_def sz_of_int_small)
    next
      case False
      then show ?thesis
        using pos n slot IH [of n] less.prems assms(1) unfolding d
        by (subst am_scan_loop.simps) (simp add: am_capacity_def Let_def sz_of_int_small)
    qed
  next
    case False
    show ?thesis
    proof (cases "n = 0 \<or> length (am_keys m) < pos")
      case True
      then show ?thesis using assms(1) by (subst am_scan_loop.simps) (auto simp: am_capacity_def Let_def)
    next
      case nz: False
      then have pos: "pos = length (am_keys m)" and n: "0 < n" using False by auto
      have slot: "nth_res slots pos = Inr (slots ! pos)" "(slots ! pos) n = Inr (int n, [])"
        using pos assms(2,3) by simp_all
      have "am_scan_loop slots m key (pos + 1) n = Inr (n, [])"
        using pos by (subst am_scan_loop.simps) (simp add: am_capacity_def)
      then show ?thesis using pos n slot less.prems assms(1)
        by (subst am_scan_loop.simps) (simp add: am_capacity_def Let_def sz_of_int_small)
    qed
  qed
qed

text \<open>The pairs a scan of such a node reports.\<close>

definition fresh_pairs :: "'d AidelModel \<Rightarrow> key_t \<Rightarrow> nat \<Rightarrow> (key_t \<times> val_t) list" where
  "fresh_pairs m key pos = filter (\<lambda>kv. key \<le> fst kv) (zip (drop pos (am_keys m)) (drop pos (am_vals m)))"

lemma am_scan_fresh:
  assumes ok: "am_ok m" and empty: "\<forall>s \<in> set (am_mobs m). s = None"
    and pos: "am_locate m key (am_predict env m key) = Inr pos" and n: "n < 2 ^ 64"
  shows "am_scan env m key n = Inr (to_i32 (int (n - length (fresh_pairs m key pos))), take n (fresh_pairs m key pos))"
proof -
  note len = am_okD(3,5) [OF ok]
  let ?slots = "map (\<lambda>slot r. case slot of None \<Rightarrow> Inr (int r, [])
         | Some (LBin _ b) \<Rightarrow> lb_scan key r b | Some (LModel _ ai) \<Rightarrow> am_scan env ai key r) (am_mobs m)"
  have slots: "(?slots ! i) r = Inr (int r, [])" if "i < length ?slots" for i r
  proof -
    have "am_mobs m ! i \<in> set (am_mobs m)" using that by simp
    then have "am_mobs m ! i = None" using empty by blast
    then show ?thesis using that by simp
  qed
  have "am_scan_loop ?slots m key pos n = Inr (n - length (fresh_pairs m key pos), take n (fresh_pairs m key pos))"
    using am_scan_loop_fresh [of m ?slots, OF len(1) _ slots n] len(2) by (simp add: fresh_pairs_def Let_def)
  then show ?thesis by (subst am_scan.simps) (simp add: pos)
qed

lemma aidel_scan_loop_fresh:
  assumes m: "i < length (ai_aimodels a)" "ai_aimodels a ! i = m" and ok: "am_ok m" and empty: "\<forall>s \<in> set (am_mobs m). s = None"
    and pos: "am_locate m key (am_predict env m key) = Inr pos"
  shows "n < 2 ^ 31 \<Longrightarrow> n \<le> fuel * length (fresh_pairs m key pos) \<Longrightarrow>
    aidel_scan_loop (Suc fuel) env a key i n = Inr (0, take n (concat (replicate fuel (fresh_pairs m key pos))))"
proof (induction fuel arbitrary: n)
  case 0
  then show ?case by simp
next
  case (Suc fuel)
  let ?F = "fresh_pairs m key pos"
  show ?case
  proof (cases "0 < n")
    case True
    have scan: "am_scan env m key n = Inr (int (n - length ?F), take n ?F)"
      using am_scan_fresh [OF ok empty pos, of n] Suc.prems(1) by simp
    have sz: "sz_of_int (int (n - length ?F)) = n - length ?F" using Suc.prems(1) by simp
    have "aidel_scan_loop (Suc fuel) env a key i (n - length ?F) = Inr (0, take (n - length ?F) (concat (replicate fuel ?F)))"
      using Suc.prems by (intro Suc.IH) auto
    then show ?thesis unfolding aidel_scan_loop.simps(2) [of "Suc fuel"]
      using True m scan sz by (simp del: aidel_scan_loop.simps)
  qed simp
qed

lemma aidel_scan_loop_stuck:
  assumes m: "i < length (ai_aimodels a)" "ai_aimodels a ! i = m" and scan: "am_scan env m key n = Inr (int n, [])"
    and n: "0 < n" "n < 2 ^ 64"
  shows "aidel_scan_loop fuel env a key i n = Inl OutOfFuel"
  using m scan n by (induction fuel) (simp_all add: sz_of_int_small)

lemma am_scan_loop_flags:
  assumes "am_keys m' = am_keys m" and "am_vals m' = am_vals m"
  shows "am_scan_loop slots m' key pos n = am_scan_loop slots m key pos n"
proof (induction "am_capacity m + 1 - pos" arbitrary: pos n rule: less_induct)
  case less
  have cap: "am_capacity m' = am_capacity m" using assms by (simp add: am_capacity_def)
  show ?case
  proof (cases "pos \<le> am_capacity m")
    case True
    then have "am_scan_loop slots m' key (pos + 1) r = am_scan_loop slots m key (pos + 1) r" for r
      by (intro less.hyps) simp
    then show ?thesis by (subst (1 2) am_scan_loop.simps) (simp add: assms cap cong: if_cong)
  next
    case False
    then show ?thesis by (subst (1 2) am_scan_loop.simps) (simp add: cap)
  qed
qed

section \<open>Self checks\<close>

lemma ssorted_pairs: "ssorted ks \<Longrightarrow> \<forall>i \<in> {1..<length ks}. ks ! (i - 1) < ks ! i"
  by (auto intro: sorted_wrt_nth_less)

lemma am_ok_self_check:
  fixes m :: "'d AidelModel" and mob :: "'d ai_mob"
  shows "am_ok m \<Longrightarrow> am_self_check_retrain m" and "ai_ok mob \<Longrightarrow> ai_self_check mob"
proof (induction m and mob rule: am_ok_ai_ok.induct)
  case (1 w0 w1 e ks vs fs mobs)
  have "case s of None \<Rightarrow> True | Some mob \<Rightarrow> ai_self_check mob" if s: "s \<in> set mobs" for s
    using "1.IH" [OF s] "1.prems" s by (auto split: option.splits)
  then show ?case using 1 ssorted_pairs [of ks] by (simp add: list_all_iff)
qed (auto simp: lb_self_check_rep)

section \<open>Examples to evaluate on\<close>

text \<open>An arithmetic whose predictions are always 0, and the index trained with it on three keys.\<close>

definition env_zero :: "int env" where
  "env_zero = env_int\<lparr>e_fp := fp_int\<lparr>fp_pos := (\<lambda>_. True), fp_to_size := (\<lambda>_. 0)\<rparr>\<rparr>"

lemma env_zero_predict: "lr_predict (e_fp env_zero) lr key = 0"
  by (simp add: env_zero_def lr_predict_def Let_def)

lemma env_zero_predictions: "length ks < 2 ^ 31 \<Longrightarrow> predictions_close (e_fp env_zero) lr ks"
  by (auto simp: predictions_close_def env_zero_predict)

lemma env_zero_close: "env_close env_zero"
  by (auto simp: env_close_def intro!: env_zero_predictions)

lemma env_zero_trains: "env_trains env_zero"
  unfolding env_trains_def lr_train_range_def lr_train_def positions_upto_def
  by (auto simp: assert_res_def Let_def env_zero_def fp_int_def split: prod.split)

definition aidel_ex :: "int AIDEL" where
  "aidel_ex = ai_of kanva_ex"

lemma aidel_ex_train:
  "aidel_train env_zero (AIDEL_new 64 1000 (\<lambda>s. s div 10)) [10, 20, 30] [1, 2, 3] 2 = Inr aidel_ex"
proof -
  let ?k = "\<lparr>k_model_keys = [], k_aimodels = [], k_maxErr = 2, k_learning_step = 1000,
     k_rate = (\<lambda>s. s div 10)\<rparr> :: int Kanva"
  have lr: "lr_train_range (fp_int\<lparr>fp_pos := (\<lambda>_. True), fp_to_size := (\<lambda>_. 0)\<rparr>) (lr_new 0 0) [10, 20, 30]
      = Inr \<lparr>lr_maxErr = 2, lr_w0 = 0, lr_w1 = - 1\<rparr>" by code_simp
  have tr: "train_iter env_zero [10, 20, 30] (Suc (Suc (Suc 0))) = Inr \<lparr>lr_maxErr = 2, lr_w0 = 0, lr_w1 = - 1\<rparr>"
    using lr by (simp add: train_iter_def env_zero_def env_int_def)
  have ap: "append_model ?k \<lparr>lr_maxErr = 2, lr_w0 = 0, lr_w1 = - 1\<rparr> [10, 20, 30] [1, 2, 3] (Suc (Suc (Suc 0))) 2
      = Inr kanva_ex"
    by (simp add: append_model_def nth_int_def nth_res_def digits_step.simps KanvaModel_new_def
        kanva_ex_def node_ex_def Let_def)
  have fuel: "train_fuel (length ([10, 20, 30] :: key_t list)) = Suc (Suc 15)" by (simp add: train_fuel_def)
  have "train_loop (Suc (Suc n)) env_zero ?k [10, 20, 30] [1, 2, 3] 0 (Suc (Suc (Suc 0))) = Inr kanva_ex" for n
    using tr ap by (simp add: Let_def kanva_ex_def next_end_def)
  from this [of 15] have "Kanva_train env_zero (Kanva_new 64 1000 (\<lambda>s. s div 10)) [10, 20, 30] [1, 2, 3] 2 = Inr kanva_ex"
    unfolding Kanva_train_def fuel by (simp add: Kanva_new_def Let_def kanva_ex_def)
  then have "aidel_train env_zero (ai_of (Kanva_new 64 1000 (\<lambda>s. s div 10))) [10, 20, 30] [1, 2, 3] 2 = Inr aidel_ex"
    by (simp add: train_sim aidel_ex_def)
  then show ?thesis by (simp only: AIDEL_new_sim)
qed

definition am_ex :: "int AidelModel" where
  "am_ex = AModel 0 (- 1) 2 [10, 20, 30] [1, 2, 3] [True, True, True] [None, None, None, None]"

definition lb_ex1 :: LevelBin where
  "lb_ex1 = LevelBin_new\<lparr>lb_heap := [1 \<mapsto> bin_of [(15, 7)] 0 0]\<rparr>"

lemma lb_ex1_rep: "lb_rep lb_ex1 [(1, [(15, 7)])]"
  by (simp add: lb_ex1_def lb_rep_def chain_ok_def LevelBin_new_def allocate_childbin_def bin_of_rep childslotmax_def)

lemma aidel_ex_eq: "aidel_ex = \<lparr>ai_model_keys = [30], ai_aimodels = [am_ex], ai_maxErr = 2, ai_learning_step = 10,
    ai_rate = (\<lambda>s. s div 10)\<rparr>"
  by (simp add: aidel_ex_def ai_of_def kanva_ex_def ai_node_def node_ex_def am_ex_def)

lemma am_ex_ok: "am_ok am_ex"
  by (simp add: am_ex_def)

lemma aidel_ex_ok: "aidel_ok aidel_ex"
  by (simp add: aidel_ok_def aidel_ex_eq am_ex_ok)

lemma am_ex_locate: "am_locate am_ex 10 (am_predict env_zero am_ex 10) = Inr 0" "am_locate am_ex 40 (am_predict env_zero am_ex 40) = Inr 2"
  "am_locate am_ex 20 (am_predict env_zero am_ex 20) = Inr 1"
  by (simp_all add: am_locate_def am_predict_def env_zero_predict am_ex_def am_capacity_def locate_window_def cap_minus1_def sz_add_def
      locate_loop.simps)

lemma aidel_ex_route: "aidel_find_model aidel_ex key = Inr 0"
  using aidel_find_model_lb [of aidel_ex key] by (simp add: aidel_ex_eq)

section \<open>Properties\<close>

text \<open>C9. An index trained on strictly increasing keys answers every sequence of searches, insertions, updates and
  removals as the map of the training pairs does, retrainings included, and afterwards a search for any key
  returns the map's value; the run can stop only at a failed assertion in a retraining. (Predictions are less
  than 2 to the 31 off, and the removals that damage a level bin are left out.)\<close>

theorem aidel_run_as_map:
  assumes "length vals = length keys" and "length keys < 2 ^ 31" and "maxErr < 2 ^ 31"
    and "0 < step" "step < 2 ^ 31" and "rate_ok rate" and "ssorted keys" and "keys \<noteq> []"
    and "aidel_train env (AIDEL_new e step rate) keys vals maxErr = Inr a" and "env_close env"
    and "\<forall>m \<in> set (ai_aimodels a). predictions_close (e_fp env) (lr_new (am_w0 m) (am_w1 m)) (am_keys m)"
  shows "run_ops (aidel_track env) xs (a, map_of (zip keys vals)) = Inl AssertFail \<and> \<not> env_trains env
    \<or> (\<exists>as a' m. run_ops (aidel_track env) xs (a, map_of (zip keys vals)) = Inr (as, a', m) \<and> length as = length xs
        \<and> (\<forall>key. aidel_find env a' key 0 = Inr (case m key of None \<Rightarrow> (Res_failed, 0) | Some v \<Rightarrow> (Res_ok, v))))"
proof -
  have start: "aidel_tracked env (a, map_of (zip keys vals))"
    by (rule aidel_train_cases [OF assms(1-8), of env e]) (use assms(9-11) in \<open>auto simp: aidel_tracked_def\<close>)
  have "list_all (\<lambda>_. True) xs" by (simp add: list_all_iff)
  from aidel_ops.run_safe [OF start this] show ?thesis
    by (auto simp: aidel_tracked_def aidel_find_value)
qed

theorem aidel_run_as_map_witness:
  "\<exists>as a' m. run_ops (aidel_track env_zero) [lb_op.LInsert 25 7, lb_op.LRemove 20] (aidel_ex, map_of (zip [10, 20, 30] [1, 2, 3])) = Inr (as, a', m)
    \<and> length as = 2"
proof -
  have "\<forall>m \<in> set (ai_aimodels aidel_ex). predictions_close (e_fp env_zero) (lr_new (am_w0 m) (am_w1 m)) (am_keys m)"
    by (simp add: aidel_ex_eq am_ex_def env_zero_predictions)
  from aidel_run_as_map [OF _ _ _ _ _ rate_ok_tenth _ _ aidel_ex_train env_zero_close this, of "[lb_op.LInsert 25 7, lb_op.LRemove 20]"]
  show ?thesis using env_zero_trains by auto
qed

text \<open>Finedex's training is Kanva's: on every input both fail alike or cut the keys into the same nodes with
  the same models.\<close>

theorem aidel_train_as_kanva:
  "aidel_train env (AIDEL_new e step rate) keys vals maxErr
   = map_res ai_of (Kanva_train env (Kanva_new e step rate) keys vals maxErr)"
  by (simp only: AIDEL_new_sim train_sim)

text \<open>Insertion into a well-formed node of Finedex, whatever it does to bins and new nodes below: it answers
  \<open>ok\<close> for an absent key and \<open>failed\<close> for a present one, keeps the node well formed, and changes the value
  of this key only; it can stop only at a failed assertion in a retraining.\<close>

theorem am_con_insert_correct:
  assumes "am_ok m" and "env_close env"
  shows "am_con_insert env m key val = Inl AssertFail \<and> \<not> env_trains env
    \<or> (\<exists>m'. am_con_insert env m key val = Inr (if am_value env m key = None then Res_ok else Res_failed, m') \<and> am_ok m'
        \<and> am_value env m' = (am_value env m)(key := Some (case am_value env m key of None \<Rightarrow> val | Some v \<Rightarrow> v)))"
  using am_insert_ok [OF assms(2,1) order_refl, of key val] by (auto simp: am_con_insert_def insert_ok_def am_post_def)

theorem am_con_insert_correct_witness:
  "\<exists>r m'. am_con_insert env_zero am_ex 25 7 = Inr (r, m') \<and> am_ok m' \<and> am_value env_zero m' 25 \<noteq> None"
  using am_con_insert_correct [OF am_ex_ok env_zero_close, of 25 7] env_zero_trains by auto

text \<open>A scan never leaves the node it starts in: from a key above all pairs of that node, with nothing in its
  slots, it does not return, whatever other nodes hold.\<close>

theorem aidel_scan_never_returns:
  assumes "aidel_find_model a key = Inr i" and "i < length (ai_aimodels a)" and "ai_aimodels a ! i = m" and "am_ok m"
    and "\<forall>s \<in> set (am_mobs m). s = None" and "\<forall>k \<in> set (am_keys m). k < key" and "0 < n" and "n < 2 ^ 31"
  shows "aidel_scan fuel env a key n = Inl OutOfFuel"
proof -
  obtain pos where pos: "am_locate m key (am_predict env m key) = Inr pos" by (rule am_pos_total [OF assms(4)])
  have "fresh_pairs m key pos = []"
    using assms(6) by (auto simp: fresh_pairs_def filter_empty_conv not_le dest!: set_zip_leftD in_set_dropD)
  then have "am_scan env m key n = Inr (int n, [])" using am_scan_fresh [OF assms(4,5) pos, of n] assms(8) by simp
  then have "aidel_scan_loop fuel env a key i n = Inl OutOfFuel" using assms by (intro aidel_scan_loop_stuck) auto
  then show ?thesis using assms(1) by (simp add: aidel_scan_def)
qed

theorem aidel_scan_never_returns_witness: "aidel_scan 1000 env_zero aidel_ex 40 1 = Inl OutOfFuel"
  using aidel_scan_never_returns [OF aidel_ex_route, of am_ex 40 1 1000 env_zero] am_ex_ok
  by (simp add: aidel_ex_eq) (simp add: am_ex_def)

text \<open>A scan that starts in a node with nothing in its slots and asks for more pairs than the node has left
  reports those pairs again and again, and claims that nothing is missing.\<close>

theorem aidel_scan_repeats:
  assumes "aidel_find_model a key = Inr i" and "i < length (ai_aimodels a)" and "ai_aimodels a ! i = m" and "am_ok m"
    and "\<forall>s \<in> set (am_mobs m). s = None" and "am_locate m key (am_predict env m key) = Inr pos"
    and "n < 2 ^ 31" and "n \<le> fuel * length (fresh_pairs m key pos)"
  shows "aidel_scan (Suc fuel) env a key n = Inr (0, take n (concat (replicate fuel (fresh_pairs m key pos))))"
  using aidel_scan_loop_fresh [OF assms(2-6)] assms(1,7,8) by (simp add: aidel_scan_def del: aidel_scan_loop.simps)

theorem aidel_scan_repeats_witness:
  "aidel_scan (Suc 2) env_zero aidel_ex 20 4 = Inr (0, [(20, 2), (30, 3), (20, 2), (30, 3)])"
proof -
  have "fresh_pairs am_ex 20 1 = [(20, 2), (30, 3)]" by (simp add: fresh_pairs_def am_ex_def)
  moreover have "0 < length (ai_aimodels aidel_ex)" "ai_aimodels aidel_ex ! 0 = am_ex" "\<forall>s \<in> set (am_mobs am_ex). s = None"
    by (simp_all add: aidel_ex_eq) (simp add: am_ex_def)
  ultimately show ?thesis
    using aidel_scan_repeats [OF aidel_ex_route, of am_ex 20 env_zero 1 4 2] am_ex_ok am_ex_locate(3)
    by (simp add: replicate_Suc [of 1, simplified Suc_1])
qed

text \<open>A scan reports removed training keys: after the removal of a training key, which answers \<open>ok\<close>, every
  scan of the node returns what it returned before.\<close>

theorem am_scan_reports_removed:
  assumes "am_ok m" and "am_pos env m key = Inr (pos, key)" and "am_remove env m key = Inr (Res_ok, m')"
  shows "am_scan env m' from n = am_scan env m from n"
proof -
  have "am_set_valid pos False m = Inr m'"
    using assms(2,3) by (auto simp: am_remove.simps [of env m] bind_res_Inr_iff split: if_splits)
  then have "am_keys m' = am_keys m" "am_vals m' = am_vals m" "am_mobs m' = am_mobs m" "am_maxErr m' = am_maxErr m"
    "am_w0 m' = am_w0 m" "am_w1 m' = am_w1 m"
    by (auto simp: am_set_valid_def bind_res_Inr_iff)
  then show ?thesis
    by (subst (1 2) am_scan.simps) (simp add: am_locate_def am_predict_def am_capacity_def am_scan_loop_flags [of m' m] cong: if_cong)
qed

theorem am_scan_reports_removed_witness:
  "\<exists>m'. am_remove env_zero am_ex 20 = Inr (Res_ok, m') \<and> am_scan env_zero m' 20 2 = Inr (0, [(20, 2), (30, 3)])"
proof -
  have pos: "am_pos env_zero am_ex 20 = Inr (1, 20)" by (simp add: am_pos_def am_ex_locate) (simp add: am_ex_def)
  moreover have "am_set_valid 1 False am_ex = Inr (AModel 0 (- 1) 2 [10, 20, 30] [1, 2, 3] [True, False, True] [None, None, None, None])"
    by (simp add: am_set_valid_def am_ex_def)
  moreover have "nth_res (am_valid am_ex) 1 = Inr True" by (simp add: am_ex_def)
  ultimately obtain m' where m': "am_remove env_zero am_ex 20 = Inr (Res_ok, m')"
    by (simp add: am_remove.simps [of env_zero am_ex])
  have "fresh_pairs am_ex 20 1 = [(20, 2), (30, 3)]" by (simp add: fresh_pairs_def am_ex_def)
  moreover have "\<forall>s \<in> set (am_mobs am_ex). s = None" by (simp add: am_ex_def)
  ultimately have "am_scan env_zero am_ex 20 2 = Inr (0, [(20, 2), (30, 3)])"
    using am_scan_fresh [OF am_ex_ok _ am_ex_locate(3), of 2] by simp
  then show ?thesis using am_scan_reports_removed [OF am_ex_ok pos m', of 20 2] m' by simp
qed

text \<open>A scan reports a training key before the smaller keys of the slot below it: with 15 inserted
  between 10 and 20 it returns 10, 20, 15, 30.\<close>

theorem am_scan_out_of_order:
  "am_scan env_zero (am_set_slot 1 (LBin False lb_ex1) am_ex) 10 4 = Inr (0, [(10, 1), (20, 2), (15, 7), (30, 3)])"
proof -
  let ?m = "am_set_slot 1 (LBin False lb_ex1) am_ex"
  have scan: "lb_scan 10 2 lb_ex1 = Inr (1, [(15, 7)])" using lb_scan_spec [OF lb_ex1_rep, of 15 10 2] by simp
  have loc: "am_locate ?m 10 (am_predict env_zero ?m 10) = Inr 0"
    using am_ex_locate(1) by (simp add: am_locate_def am_predict_def env_zero_predict am_capacity_def cong: if_cong)
  have m: "am_keys am_ex = [10, 20, 30]" "am_vals am_ex = [1, 2, 3]" "am_mobs am_ex = [None, None, None, None]" by (simp_all add: am_ex_def)
  have "am_scan_loop slots ?m 10 0 4 = Inr (0, [(10, 1), (20, 2), (15, 7), (30, 3)])"
    if "length slots = 4" "(slots ! 0) 3 = Inr (3, [])" "(slots ! 1) 2 = Inr (1, [(15, 7)])" for slots
  proof -
    have three: "am_scan_loop slots ?m 10 2 1 = Inr (0, [(30, 3)])"
      by (subst am_scan_loop.simps) (simp add: m am_capacity_def)
    have two: "am_scan_loop slots ?m 10 1 3 = Inr (0, [(20, 2), (15, 7), (30, 3)])"
      by (subst am_scan_loop.simps) (use three that in \<open>simp add: m am_capacity_def numeral_2_eq_2 [symmetric]\<close>)
    show ?thesis by (subst am_scan_loop.simps) (use two that in \<open>simp add: m am_capacity_def\<close>)
  qed
  then show ?thesis by (subst am_scan.simps) (simp add: loc [unfolded One_nat_def] scan m)
qed

text \<open>In a well-formed node both self checks hold, of all nodes and bins below it too.\<close>

theorem am_self_checks:
  assumes "am_ok m"
  shows "am_self_check m \<and> am_self_check_retrain m"
proof -
  have "am_self_check m" using ssorted_pairs [OF am_okD(2) [OF assms]] by (simp add: am_self_check_def am_capacity_def)
  then show ?thesis using am_ok_self_check(1) [OF assms] by blast
qed

theorem am_self_checks_witness: "am_self_check am_ex \<and> am_self_check_retrain am_ex"
  by (rule am_self_checks [OF am_ex_ok])

end
