(* ===== verification/LF_LL_Conc_Inv.thy ===== *)
theory LF_LL_Conc_Inv
  imports LF_LL_Conc
begin

text \<open>
  The invariant of the list under interleaving, and what the writes of the program do to it: a write that
  keeps the address of a word (marking, freezing), unlinking, linking, allocation.
\<close>

section \<open>Words and paths\<close>

definition hword :: "Linked_List \<Rightarrow> addr \<Rightarrow> tptr" where "hword l a = ll_next (the (ll_heap l a))"

lemma hword_parts: "hnext l a = tp_addr (hword l a)" "hmark l a = tp_mark (hword l a)" "hfrozen l a = tp_freeze (hword l a)"
  by (simp_all add: hsel_defs hword_def)

abbreviation hdom :: "Linked_List \<Rightarrow> addr set" where "hdom l \<equiv> dom (ll_heap l)"

definition set_next :: "addr \<Rightarrow> tptr \<Rightarrow> Linked_List \<Rightarrow> Linked_List" where
  "set_next c p l = l\<lparr>ll_heap := (ll_heap l)(c \<mapsto> (the (ll_heap l c))\<lparr>ll_next := p\<rparr>)\<rparr>"

lemma set_next_sel [simp]:
  "ll_head (set_next c p l) = ll_head l" "ll_brk (set_next c p l) = ll_brk l" "ll_count (set_next c p l) = ll_count l"
  "hkey (set_next c p l) a = hkey l a" "hval (set_next c p l) a = hval l a"
  "hword (set_next c p l) a = (if a = c then p else hword l a)"
  by (simp_all add: set_next_def hkey_def hval_def hword_def)

lemma set_next_dom: "c \<in> hdom l \<Longrightarrow> hdom (set_next c p l) = hdom l"
  by (auto simp: set_next_def)

lemma load_dom: "a \<in> hdom l \<Longrightarrow> ll_load l a = Inr (the (ll_heap l a))"
  by (auto simp: ll_load_def)

lemma cas_dom: "a \<in> hdom l \<Longrightarrow> ll_cas_next l a e d = Inr (if hword l a = e then (True, set_next a d l) else (False, l))"
  by (auto simp: ll_cas_next_def ll_store_next_def load_dom hword_def set_next_def)

lemma the_sel: "ll_key (the (ll_heap l a)) = hkey l a" "ll_value (the (ll_heap l a)) = hval l a" "ll_next (the (ll_heap l a)) = hword l a"
  by (simp_all add: hkey_def hval_def hword_def)

fun lpath :: "Linked_List \<Rightarrow> addr \<Rightarrow> addr list \<Rightarrow> addr \<Rightarrow> bool" where
  "lpath l a [] t \<longleftrightarrow> a = t"
| "lpath l a (b # bs) t \<longleftrightarrow> a = b \<and> a \<in> hdom l \<and> lpath l (hnext l a) bs t"

lemma lpath_append: "lpath l a (xs @ ys) t \<longleftrightarrow> (\<exists>b. lpath l a xs b \<and> lpath l b ys t)"
  by (induction l a xs t rule: lpath.induct) auto

lemma lpath_cong:
  assumes "\<And>a. a \<in> set xs \<Longrightarrow> a \<in> hdom l' \<longleftrightarrow> a \<in> hdom l" and "\<And>a. a \<in> set xs \<Longrightarrow> hnext l' a = hnext l a"
  shows "lpath l' a xs t = lpath l a xs t"
  using assms by (induction l a xs t rule: lpath.induct) auto

lemma lpath_dom: "lpath l a xs t \<Longrightarrow> set xs \<subseteq> hdom l"
  by (induction l a xs t rule: lpath.induct) auto

text \<open>Keys increase along every pointer but the head's, and pointers lead to linked nodes.\<close>

definition lorder :: "Linked_List \<Rightarrow> addr \<Rightarrow> addr set \<Rightarrow> bool" where
  "lorder l t P \<longleftrightarrow> (\<forall>a \<in> hdom l. a \<noteq> t \<longrightarrow> hnext l a \<in> P \<and> hnext l a \<noteq> ll_head l
     \<and> (a \<noteq> ll_head l \<longrightarrow> hkey l a < hkey l (hnext l a)))"

definition lbase :: "Linked_List \<Rightarrow> addr \<Rightarrow> addr set \<Rightarrow> bool" where
  "lbase l t P \<longleftrightarrow> hdom l \<subseteq> {1..<ll_brk l} \<and> P \<subseteq> hdom l \<and> ll_head l \<in> P \<and> t \<in> P \<and> ll_head l \<noteq> t
     \<and> hkey l t = key_max \<and> hword l t = null_ptr \<and> hkey l (ll_head l) = 0 \<and> \<not> hmark l (ll_head l)"

definition linv :: "Linked_List \<Rightarrow> addr \<Rightarrow> addr set \<Rightarrow> bool" where
  "linv l t P \<longleftrightarrow> lbase l t P \<and> lorder l t P \<and> lpath l (ll_head l) (ll_head l # ll_chain l) t
     \<and> (\<forall>a \<in> P. \<not> hmark l a \<longrightarrow> a \<in> set (ll_head l # ll_chain l @ [t]))"

lemma lpath_sorted:
  assumes "lorder l t P"
  shows "lpath l a xs t \<Longrightarrow> a \<noteq> ll_head l \<Longrightarrow> t \<notin> set xs \<Longrightarrow> sorted_wrt (<) (map (hkey l) (xs @ [t])) \<and> (xs \<noteq> [] \<longrightarrow> hd xs = a)"
proof (induction xs arbitrary: a)
  case (Cons b bs)
  then have b: "a = b" "a \<in> hdom l" "lpath l (hnext l a) bs t" "a \<noteq> t" by auto
  then have n: "hnext l a \<noteq> ll_head l" "hkey l a < hkey l (hnext l a)" using assms Cons.prems(2) by (auto simp: lorder_def)
  have IH: "sorted_wrt (<) (map (hkey l) (bs @ [t]))" "bs \<noteq> [] \<longrightarrow> hd bs = hnext l a"
    using Cons.IH [OF b(3) n(1)] Cons.prems(3) by auto
  have "hkey l a < k" if "k \<in> set (map (hkey l) (bs @ [t]))" for k
  proof (cases bs)
    case Nil
    then show ?thesis using that n(2) b(3) by simp
  next
    case (Cons c cs)
    then have "hkey l (hnext l a) \<le> k" using that IH by auto
    then show ?thesis using n(2) by simp
  qed
  then show ?case using IH(1) b(1) by simp
qed simp

lemma walk_path:
  assumes "hword l t = null_ptr" and "t \<in> hdom l" and "0 \<notin> hdom l"
  shows "lpath l a xs t \<Longrightarrow> length xs < n \<Longrightarrow> ll_walk n (ll_heap l) a = xs"
proof (induction xs arbitrary: a n)
  case Nil
  then obtain n' where "n = Suc n'" by (cases n) auto
  then show ?case using assms Nil by (auto simp: hword_def)
next
  case (Cons b bs)
  then obtain n' where n: "n = Suc n'" "length bs < n'" by (cases n) auto
  have b: "a = b" "a \<in> hdom l" "lpath l (hnext l a) bs t" using Cons.prems by auto
  have "hnext l a \<noteq> 0"
  proof
    assume z: "hnext l a = 0"
    then have "bs = [] \<Longrightarrow> t = 0" "bs \<noteq> [] \<Longrightarrow> 0 \<in> hdom l" using b(3) by (cases bs; auto)+
    then show False using assms(2,3) by (cases bs) auto
  qed
  then show ?case using b n Cons.IH [OF b(3) n(2)] by (auto simp: hnext_def)
qed

lemma path_no_tail:
  assumes "hword l t = null_ptr" and "t \<in> hdom l" and "0 \<notin> hdom l"
  shows "lpath l a xs t \<Longrightarrow> t \<notin> set xs"
proof (induction xs arbitrary: a)
  case (Cons b bs)
  have "a \<noteq> t"
  proof
    assume "a = t"
    then have "lpath l 0 bs t" using Cons.prems assms(1) by (auto simp: hword_parts)
    then show False using assms(2,3) by (cases bs) auto
  qed
  then show ?case using Cons by auto
qed simp

text \<open>The chain is the path between the sentinels.\<close>

lemma chain_eqI:
  assumes base: "lbase l t P" and ord: "lorder l t P" and path: "lpath l (ll_head l) (ll_head l # xs) t"
  shows "ll_chain l = xs" and "sorted_wrt (<) (map (hkey l) (xs @ [t]))" and "ll_head l \<notin> set xs" and "t \<notin> set xs" and "set xs \<subseteq> P"
proof -
  have z: "hword l t = null_ptr" "t \<in> hdom l" "0 \<notin> hdom l" using base by (auto simp: lbase_def)
  have p: "lpath l (hnext l (ll_head l)) xs t" using path by simp
  have hd: "hnext l (ll_head l) \<noteq> ll_head l" "hnext l (ll_head l) \<in> P" using base ord by (auto simp: lbase_def lorder_def)
  show t: "t \<notin> set xs" by (rule path_no_tail [OF z p])
  show srt: "sorted_wrt (<) (map (hkey l) (xs @ [t]))" using lpath_sorted [OF ord p hd(1) t] by blast
  have P: "set ys \<subseteq> P \<and> ll_head l \<notin> set ys" if "lpath l a ys t" "a \<in> P" "a \<noteq> ll_head l" "t \<notin> set ys" for a ys
    using that
  proof (induction ys arbitrary: a)
    case (Cons b bs)
    then have "b \<in> hdom l" "b \<noteq> t" "a = b" "lpath l (hnext l b) bs t" by auto
    moreover then have "hnext l b \<in> P" "hnext l b \<noteq> ll_head l" using ord by (auto simp: lorder_def)
    ultimately show ?case using Cons by auto
  qed simp
  show "set xs \<subseteq> P" "ll_head l \<notin> set xs" using P [OF p hd(2,1) t] by auto
  have "distinct (map (hkey l) (xs @ [t]))" using srt strict_sorted_iff by blast
  then have d: "distinct (xs @ [t])" using t by (simp add: distinct_map)
  have "set (xs @ [t]) \<subseteq> hdom l" using lpath_dom [OF p] z(2) by auto
  then have "set (xs @ [t]) \<subseteq> {1..<ll_brk l}" using base by (auto simp: lbase_def)
  then have "card (set (xs @ [t])) \<le> card {1..<ll_brk l}" by (intro card_mono) auto
  then have "length xs < ll_brk l" using distinct_card [OF d] by simp
  then show "ll_chain l = xs" unfolding ll_chain_def by (rule walk_path [OF z p])
qed

lemma linvI:
  assumes "lbase l t P" and "lorder l t P" and "lpath l (ll_head l) (ll_head l # xs) t"
    and "\<And>a. a \<in> P \<Longrightarrow> \<not> hmark l a \<Longrightarrow> a \<in> set (ll_head l # xs @ [t])"
  shows "linv l t P \<and> ll_chain l = xs"
  using assms chain_eqI(1) [OF assms(1-3)] by (simp add: linv_def)

lemma linvD:
  assumes "linv l t P"
  shows "lbase l t P" "lorder l t P" "lpath l (ll_head l) (ll_head l # ll_chain l) t"
    "\<And>a. a \<in> P \<Longrightarrow> \<not> hmark l a \<Longrightarrow> a \<in> set (ll_head l # ll_chain l @ [t])"
    "sorted_wrt (<) (map (hkey l) (ll_chain l @ [t]))" "ll_head l \<notin> set (ll_chain l)" "t \<notin> set (ll_chain l)" "set (ll_chain l) \<subseteq> P"
  using assms chain_eqI [of l t P "ll_chain l"] by (auto simp: linv_def)

lemma P_dom: "linv l t P \<Longrightarrow> c \<in> P \<Longrightarrow> c \<in> hdom l"
  by (auto simp: linv_def lbase_def)

text \<open>The neighbours on the chain.\<close>

lemma lpath_split:
  assumes "lpath l a (xs @ c # ys) t"
  shows "c \<in> hdom l" "lpath l (hnext l c) ys t" "lpath l a xs c"
  using assms by (auto simp: lpath_append)

lemma chain_next:
  assumes inv: "linv l t P" and split: "ll_head l # ll_chain l = A @ c # B"
  shows "hnext l c = (case B of [] \<Rightarrow> t | b # _ \<Rightarrow> b)"
proof -
  have "lpath l (hnext l c) B t" using lpath_split(2) linvD(3) [OF inv] split by metis
  then show ?thesis by (cases B) auto
qed

section \<open>Content\<close>

lemma content_iff:
  assumes "linv l t P"
  shows "ll_content l k = Some v \<longleftrightarrow> (\<exists>a \<in> set (ll_chain l). \<not> hmark l a \<and> hkey l a = k \<and> hval l a = v)"
proof -
  have "distinct (map (hkey l) (ll_chain l @ [t]))" using linvD(5) [OF assms] strict_sorted_iff by blast
  then have "distinct (map (hkey l) (filter (\<lambda>a. \<not> hmark l a) (ll_chain l)))" by (simp add: distinct_map_filter)
  then have d: "distinct (map fst (map (\<lambda>a. (hkey l a, hval l a)) (filter (\<lambda>a. \<not> hmark l a) (ll_chain l))))"
    by (simp add: comp_def)
  show ?thesis unfolding ll_content_def map_of_eq_Some_iff [OF d] by auto
qed

lemma content_none:
  assumes "linv l t P"
  shows "ll_content l k = None \<longleftrightarrow> (\<forall>a \<in> set (ll_chain l). hkey l a = k \<longrightarrow> hmark l a)"
  using content_iff [OF assms, of k] by (metis not_None_eq)

text \<open>Keys on the chain are different, and none lies between neighbours.\<close>

lemma chain_inj:
  assumes "linv l t P" and "a \<in> set (ll_chain l)" "b \<in> set (ll_chain l)" "hkey l a = hkey l b"
  shows "a = b"
proof -
  have "distinct (map (hkey l) (ll_chain l @ [t]))" using linvD(5) [OF assms(1)] strict_sorted_iff by blast
  then show ?thesis using assms(2-4) by (auto simp: distinct_map inj_on_def)
qed

lemma chain_gap:
  assumes inv: "linv l t P" and c: "c \<in> set (ll_head l # ll_chain l)" and k: "c = ll_head l \<or> hkey l c < k" "k < hkey l (hnext l c)"
  shows "ll_content l k = None"
proof -
  obtain A B where s: "ll_head l # ll_chain l = A @ c # B" using split_list [OF c] by blast
  note n = chain_next [OF inv s]
  have srt: "sorted_wrt (<) (map (hkey l) (ll_chain l @ [t]))" by (rule linvD(5) [OF inv])
  have "hkey l a \<noteq> k" if a: "a \<in> set (ll_chain l)" for a
  proof (cases "A = []")
    case True
    then have B: "ll_chain l = B" using s by simp
    have "hkey l (hnext l c) \<le> hkey l a" using a srt n unfolding B by (cases B) auto
    then show ?thesis using k(2) by auto
  next
    case False
    then obtain A' where A: "A = ll_head l # A'" and ch: "ll_chain l = A' @ c # B" using s by (cases A) auto
    have "c \<noteq> ll_head l" using linvD(6) [OF inv] ch by auto
    then have kc: "hkey l c < k" using k(1) by blast
    from a ch consider "a \<in> set A'" | "a = c" | "a \<in> set B" by auto
    then show ?thesis
    proof cases
      case 1
      then have "hkey l a < hkey l c" using srt ch by (auto simp: sorted_wrt_append)
      then show ?thesis using kc by simp
    next
      case 2
      then show ?thesis using kc by simp
    next
      case 3
      then have "hkey l (hnext l c) \<le> hkey l a" using srt n ch by (cases B) (auto simp: sorted_wrt_append)
      then show ?thesis using k(2) by auto
    qed
  qed
  then show ?thesis by (simp add: content_none [OF inv])
qed

text \<open>The content is that of the live nodes.\<close>

definition live :: "Linked_List \<Rightarrow> addr set" where
  "live l = {a \<in> set (ll_chain l). \<not> hmark l a}"

lemma content_live_iff:
  assumes "linv l t P"
  shows "ll_content l k = Some v \<longleftrightarrow> (\<exists>a \<in> live l. hkey l a = k \<and> hval l a = v)"
  unfolding content_iff [OF assms] live_def by auto

lemma content_live:
  assumes "linv l t P" and "linv l' t P'" and "live l' = live l" and "\<forall>a \<in> live l. hkey l' a = hkey l a \<and> hval l' a = hval l a"
  shows "ll_content l' = ll_content l"
proof
  fix k
  have "ll_content l' k = Some v \<longleftrightarrow> ll_content l k = Some v" for v
    unfolding content_live_iff [OF assms(1)] content_live_iff [OF assms(2)] using assms(3,4) by auto
  then show "ll_content l' k = ll_content l k" by (metis option.exhaust)
qed

lemma content_insert:
  assumes "linv l t P" and "linv l' t P'" and "live l' = insert n (live l)" and "\<forall>a \<in> live l. hkey l' a = hkey l a \<and> hval l' a = hval l a"
    and "n \<notin> live l"
  shows "ll_content l' = (ll_content l)(hkey l' n \<mapsto> hval l' n)" and "ll_content l (hkey l' n) = None"
proof -
  have inj: "a = n" if "a \<in> live l'" "hkey l' a = hkey l' n" for a
    using chain_inj [OF assms(2), of a n] that assms(3) by (auto simp: live_def)
  show "ll_content l' = (ll_content l)(hkey l' n \<mapsto> hval l' n)"
  proof
    fix k
    have "ll_content l' k = Some v \<longleftrightarrow> ((ll_content l)(hkey l' n \<mapsto> hval l' n)) k = Some v" for v
    proof (cases "k = hkey l' n")
      case True
      then show ?thesis unfolding content_live_iff [OF assms(2)] using assms(3) inj by auto
    next
      case False
      have "(\<exists>a \<in> live l'. hkey l' a = k \<and> hval l' a = v) \<longleftrightarrow> (\<exists>a \<in> live l. hkey l a = k \<and> hval l a = v)"
        using assms(3,4) False by auto
      then show ?thesis unfolding fun_upd_other [OF False] content_live_iff [OF assms(1)] content_live_iff [OF assms(2)] .
    qed
    then show "ll_content l' k = ((ll_content l)(hkey l' n \<mapsto> hval l' n)) k" by (metis option.exhaust)
  qed
  show "ll_content l (hkey l' n) = None"
  proof (rule ccontr)
    assume "ll_content l (hkey l' n) \<noteq> None"
    then obtain a where "a \<in> live l" "hkey l a = hkey l' n" by (auto simp: content_live_iff [OF assms(1)])
    then have "a = n" using inj [of a] assms(3,4) by auto
    then show False using \<open>a \<in> live l\<close> assms(5) by simp
  qed
qed

lemma content_delete:
  assumes "linv l t P" and "linv l' t P'" and "live l' = live l - {n}" and "\<forall>a \<in> live l. hkey l' a = hkey l a \<and> hval l' a = hval l a"
    and "n \<in> live l"
  shows "ll_content l' = (ll_content l)(hkey l n := None)" and "ll_content l (hkey l n) = Some (hval l n)"
proof -
  have inj: "a = n" if "a \<in> live l" "hkey l a = hkey l n" for a
    using chain_inj [OF assms(1), of a n] that assms(5) by (auto simp: live_def)
  show "ll_content l' = (ll_content l)(hkey l n := None)"
  proof
    fix k
    have "ll_content l' k = Some v \<longleftrightarrow> ((ll_content l)(hkey l n := None)) k = Some v" for v
    proof -
      have "(\<exists>a \<in> live l'. hkey l' a = k \<and> hval l' a = v) \<longleftrightarrow> k \<noteq> hkey l n \<and> (\<exists>a \<in> live l. hkey l a = k \<and> hval l a = v)"
        using assms(3,4) inj by auto
      then show ?thesis using content_live_iff [OF assms(1)] content_live_iff [OF assms(2)] by auto
    qed
    then show "ll_content l' k = ((ll_content l)(hkey l n := None)) k" by (metis option.exhaust)
  qed
  show "ll_content l (hkey l n) = Some (hval l n)" using assms(5) by (auto simp: content_live_iff [OF assms(1)])
qed

section \<open>Writes\<close>

text \<open>What every write keeps: keys, values, the next node of a marked and of a frozen node, nodes that are not
  linked yet; a node leaves the chain with its mark and its next node; a mark ends a key; the frozen start
  of the chain stays.\<close>

definition lgood :: "addr \<Rightarrow> Linked_List \<Rightarrow> addr set \<Rightarrow> Linked_List \<Rightarrow> addr set \<Rightarrow> bool" where
  "lgood t l P l' P' \<longleftrightarrow> linv l' t P' \<and> ll_head l' = ll_head l \<and> hdom l \<subseteq> hdom l' \<and> P \<subseteq> P'
     \<and> (\<forall>a \<in> hdom l. hkey l' a = hkey l a \<and> hval l' a = hval l a
          \<and> (hmark l a \<or> hfrozen l a \<longrightarrow> hnext l' a = hnext l a) \<and> (hmark l a \<longrightarrow> hmark l' a) \<and> (hfrozen l a \<longrightarrow> hfrozen l' a)
          \<and> (a \<notin> P \<longrightarrow> hword l' a = hword l a))
     \<and> (\<forall>a \<in> set (ll_chain l). a \<in> set (ll_chain l') \<or> hmark l' a \<and> hnext l' a = hnext l a)
     \<and> (\<forall>a \<in> set (ll_chain l). \<not> hmark l a \<and> hmark l' a \<longrightarrow> ll_content l' (hkey l a) = None)
     \<and> (\<forall>A x B. ll_head l # ll_chain l = A @ x # B \<and> (\<forall>a \<in> set A. hfrozen l a) \<longrightarrow> (\<exists>B'. ll_head l # ll_chain l' = A @ x # B'))"

lemma prefix_keep:
  assumes "A0 @ c # R = A @ x # B" and "c \<notin> set A"
  shows "\<exists>B'. A0 @ c # R' = A @ x # B'"
proof -
  from assms(1) consider us where "A0 = A @ us" "us @ c # R = x # B" | us where "A0 @ us = A" "c # R = us @ x # B"
    by (auto simp: append_eq_append_conv2)
  then show ?thesis
  proof cases
    case (1 us)
    then show ?thesis by (cases us) auto
  next
    case (2 us)
    then show ?thesis using assms(2) by (cases us) auto
  qed
qed

lemma lgood_refl: "linv l t P \<Longrightarrow> lgood t l P l P"
  by (auto simp: lgood_def)

lemma lbase_set_next:
  assumes "lbase l t P" and "c \<in> P" "c \<noteq> t" "c = ll_head l \<Longrightarrow> \<not> tp_mark p" and "P \<subseteq> P'" "P' \<subseteq> hdom l"
  shows "lbase (set_next c p l) t P'"
proof -
  have "c \<in> hdom l" using assms(1,2) by (auto simp: lbase_def)
  from set_next_dom [OF this] show ?thesis using assms by (auto simp: lbase_def hword_parts)
qed

lemma lorder_set_next:
  assumes "lorder l t P" and "c \<in> hdom l" and "P \<subseteq> P'"
    and "tp_addr p \<in> P'" "tp_addr p \<noteq> ll_head l" "c \<noteq> ll_head l \<Longrightarrow> hkey l c < hkey l (tp_addr p)"
  shows "lorder (set_next c p l) t P'"
  using assms unfolding lorder_def set_next_dom [OF assms(2)] by (auto simp: hword_parts)

text \<open>Marking and freezing.\<close>

lemma same_addr:
  assumes inv: "linv l t P" and c: "c \<in> P" "c \<noteq> t" and p: "tp_addr p = hnext l c" "c = ll_head l \<Longrightarrow> \<not> tp_mark p" "hmark l c \<Longrightarrow> tp_mark p"
  shows "linv (set_next c p l) t P" and "ll_chain (set_next c p l) = ll_chain l"
proof -
  note d = linvD [OF inv]
  have cd: "c \<in> hdom l" using d(1) c by (auto simp: lbase_def)
  have "hnext l c \<in> P" "hnext l c \<noteq> ll_head l" "c \<noteq> ll_head l \<Longrightarrow> hkey l c < hkey l (hnext l c)"
    using d(2) cd c(2) by (auto simp: lorder_def)
  then have o: "lorder (set_next c p l) t P" using p(1) by (intro lorder_set_next [OF d(2) cd order_refl]) auto
  have b: "lbase (set_next c p l) t P"
    by (rule lbase_set_next [OF d(1) c p(2) order_refl]) (use d(1) in \<open>auto simp: lbase_def\<close>)
  have "lpath (set_next c p l) (ll_head l) (ll_head l # ll_chain l) t = lpath l (ll_head l) (ll_head l # ll_chain l) t"
    by (rule lpath_cong) (use set_next_dom [OF cd] p(1) in \<open>auto simp: hword_parts\<close>)
  then have path: "lpath (set_next c p l) (ll_head (set_next c p l)) (ll_head (set_next c p l) # ll_chain l) t" using d(3) by simp
  have "linv (set_next c p l) t P \<and> ll_chain (set_next c p l) = ll_chain l"
    by (rule linvI [OF b o path]) (use d(4) p(3) in \<open>auto simp: hword_parts split: if_splits\<close>)
  then show "linv (set_next c p l) t P" "ll_chain (set_next c p l) = ll_chain l" by blast+
qed

lemma freeze_good:
  assumes inv: "linv l t P" and c: "c \<in> P" "c \<noteq> t"
  defines "l' \<equiv> set_next c (tp_set_freeze (hword l c)) l"
  shows "lgood t l P l' P" and "ll_content l' = ll_content l"
proof -
  have mk: "hmark l (ll_head l) \<Longrightarrow> False" using linvD(1) [OF inv] by (simp add: lbase_def)
  have s: "linv l' t P" "ll_chain l' = ll_chain l"
    unfolding l'_def using same_addr [OF inv c, of "tp_set_freeze (hword l c)"] mk by (auto simp: tp_defs hword_parts)
  have dom: "hdom l' = hdom l" unfolding l'_def by (rule set_next_dom [OF P_dom [OF inv c(1)]])
  show "lgood t l P l' P" using s dom c by (auto simp: lgood_def l'_def hword_parts tp_defs)
  have "live l' = live l" using s(2) by (auto simp: live_def l'_def hword_parts tp_defs)
  then show "ll_content l' = ll_content l" by (intro content_live [OF inv s(1)]) (auto simp: l'_def)
qed

lemma mark_good:
  assumes inv: "linv l t P" and c: "c \<in> P" "c \<noteq> t" "c \<noteq> ll_head l" "\<not> hmark l c"
  defines "l' \<equiv> set_next c (tp_set_mark (hword l c)) l"
  shows "lgood t l P l' P" and "ll_content l' = (ll_content l)(hkey l c := None)" and "ll_content l (hkey l c) = Some (hval l c)"
proof -
  have s: "linv l' t P" "ll_chain l' = ll_chain l"
    unfolding l'_def using same_addr [OF inv c(1,2), of "tp_set_mark (hword l c)"] c(3) by (auto simp: tp_defs hword_parts)
  have dom: "hdom l' = hdom l" unfolding l'_def by (rule set_next_dom [OF P_dom [OF inv c(1)]])
  have ch: "c \<in> set (ll_chain l)" using linvD(4) [OF inv c(1,4)] c by auto
  have "live l' = live l - {c}" using s(2) by (auto simp: live_def l'_def hword_parts tp_defs)
  moreover have "c \<in> live l" using ch c(4) by (simp add: live_def)
  ultimately show eff: "ll_content l' = (ll_content l)(hkey l c := None)" "ll_content l (hkey l c) = Some (hval l c)"
    by (intro content_delete [OF inv s(1)]; auto simp: l'_def)+
  have "ll_content l' (hkey l a) = None" if "\<not> hmark l a" "hmark l' a" for a
  proof -
    have "a = c" using that by (auto simp: l'_def hword_parts split: if_splits)
    then show ?thesis using eff(1) by simp
  qed
  then show "lgood t l P l' P" using s dom c by (auto simp: lgood_def l'_def hword_parts tp_defs)
qed

text \<open>A linked node that is not marked is on the chain.\<close>

lemma chain_split:
  assumes inv: "linv l t P" and c: "c \<in> P" "c \<noteq> t" "\<not> hmark l c"
  obtains A B where "ll_head l # ll_chain l = A @ c # B" "lpath l (hnext l c) B t" "lpath l (ll_head l) A c" "c \<notin> set A" "c \<notin> set B"
proof -
  have "c \<in> set (ll_head l # ll_chain l)" using linvD(4) [OF inv c(1,3)] c(2) by auto
  then obtain A B where s: "ll_head l # ll_chain l = A @ c # B" using split_list by metis
  have "lpath l (ll_head l) (A @ c # B) t" using linvD(3) [OF inv] s by metis
  note sp = lpath_split [OF this]
  have "distinct (map (hkey l) (ll_chain l @ [t]))" using linvD(5) [OF inv] strict_sorted_iff by blast
  then have "distinct (ll_head l # ll_chain l)" using linvD(6) [OF inv] by (auto simp: distinct_map)
  then have "c \<notin> set A" "c \<notin> set B" unfolding s by auto
  then show ?thesis using that [OF s sp(2,3)] by blast
qed

lemma frozen_prefix:
  assumes "ll_head l # ll_chain l = A0 @ c # R" and "\<not> hfrozen l c" and "ll_head l # ll_chain l' = A0 @ c # R'"
  shows "\<forall>A x B. ll_head l # ll_chain l = A @ x # B \<and> (\<forall>a \<in> set A. hfrozen l a) \<longrightarrow> (\<exists>B'. ll_head l # ll_chain l' = A @ x # B')"
proof (intro allI impI)
  fix A x B assume a: "ll_head l # ll_chain l = A @ x # B \<and> (\<forall>a \<in> set A. hfrozen l a)"
  then have "A0 @ c # R = A @ x # B" "c \<notin> set A" using assms(1,2) by auto
  from prefix_keep [OF this] show "\<exists>B'. ll_head l # ll_chain l' = A @ x # B'" using assms(3) by simp
qed

lemma insert_strip: "insert h X = insert n (insert h Y) \<Longrightarrow> h \<notin> X \<Longrightarrow> h \<notin> Y \<Longrightarrow> n \<noteq> h \<Longrightarrow> X = insert n Y"
  using insert_ident [of h X "insert n Y"] by (simp add: insert_commute)

text \<open>Paths around a changed word.\<close>

lemma lpath_set_next:
  assumes "c \<in> hdom l" "c \<notin> set xs"
  shows "lpath (set_next c p l) a xs b = lpath l a xs b"
  by (rule lpath_cong) (use assms set_next_dom [OF assms(1), of p] in \<open>auto simp: hword_parts\<close>)

lemma lpath_join:
  assumes "c \<in> hdom l" "c \<notin> set A" "c \<notin> set B" and "lpath l a A c" "lpath l (tp_addr p) B t"
  shows "lpath (set_next c p l) a (A @ c # B) t"
  using assms by (auto simp: lpath_append lpath_set_next set_next_dom hword_parts)

lemma unlink_good:
  assumes inv: "linv l t P" and c: "c \<in> P" "c \<noteq> t" "hword l c = clean r" and r: "r \<noteq> t" "hmark l r"
    and p: "tp_addr p = hnext l r" "\<not> tp_mark p"
  defines "l' \<equiv> set_next c p l"
  shows "lgood t l P l' P" and "ll_content l' = ll_content l" and "c \<in> set (ll_head l' # ll_chain l')"
proof -
  note d = linvD [OF inv]
  have cd: "c \<in> hdom l" by (rule P_dom [OF inv c(1)])
  have cw: "\<not> hmark l c" "\<not> hfrozen l c" "hnext l c = r" using c(3) by (simp_all add: hword_parts)
  have rP: "r \<in> P" "r \<noteq> ll_head l" "c \<noteq> ll_head l \<Longrightarrow> hkey l c < hkey l r" using d(2) cd c(2) cw(3) by (auto simp: lorder_def)
  then have rd: "r \<in> hdom l" using P_dom [OF inv] by blast
  have rn: "hnext l r \<in> P" "hnext l r \<noteq> ll_head l" "hkey l r < hkey l (hnext l r)" using d(2) rd r(1) rP(2) by (auto simp: lorder_def)
  obtain A B where s: "ll_head l # ll_chain l = A @ c # B" "lpath l (hnext l c) B t" "lpath l (ll_head l) A c" "c \<notin> set A" "c \<notin> set B"
    by (rule chain_split [OF inv c(1,2) cw(1)])
  obtain B0 where B: "B = r # B0" "lpath l (hnext l r) B0 t" using s(2) cw(3) r(1) by (cases B) auto
  have dom: "hdom l' = hdom l" unfolding l'_def by (rule set_next_dom [OF cd])
  have b': "lbase l' t P" unfolding l'_def by (rule lbase_set_next [OF d(1) c(1,2) _ order_refl]) (use p(2) d(1) in \<open>auto simp: lbase_def\<close>)
  have o': "lorder l' t P" unfolding l'_def
    by (rule lorder_set_next [OF d(2) cd order_refl]) (use p rn rP(3) in auto)
  have path: "lpath l' (ll_head l') (A @ c # B0) t" unfolding l'_def
    using lpath_join [OF cd s(4) _ s(3), of B0 p] s(5) B p(1) by simp
  obtain xs where xs: "A @ c # B0 = ll_head l # xs" using s(1) by (cases A) auto
  have l'h: "ll_head l' = ll_head l" by (simp add: l'_def)
  have on: "a \<in> set (ll_head l' # xs @ [t])" if "a \<in> P" "\<not> hmark l' a" for a
  proof (cases "a = c")
    case True
    then have "a \<in> set (ll_head l # xs)" unfolding xs [symmetric] by simp
    then show ?thesis using l'h by auto
  next
    case False
    then have "\<not> hmark l a" using that(2) by (simp add: l'_def hword_parts)
    then have "a \<in> set (ll_head l # ll_chain l) \<or> a = t" "a \<noteq> r" using d(4) [OF that(1)] r(2) by auto
    then have "a \<in> set (A @ c # B0) \<or> a = t" unfolding s(1) B(1) by auto
    then show ?thesis using xs l'h by auto
  qed
  have inv': "linv l' t P" "ll_chain l' = xs"
    using linvI [OF b' o' _ on] path xs l'h by auto
  have chain': "ll_head l' # ll_chain l' = A @ c # B0" using inv'(2) xs l'h by simp
  have eq: "set (ll_chain l) = insert r (set (ll_chain l'))"
  proof -
    have "set (ll_head l # ll_chain l) = insert r (set (ll_head l' # ll_chain l'))" unfolding s(1) chain' B(1) by auto
    then have "insert (ll_head l) (set (ll_chain l)) = insert r (insert (ll_head l) (set (ll_chain l')))" using l'h by simp
    from insert_strip [OF this d(6) _ rP(2)] show ?thesis using linvD(6) [OF inv'(1)] l'h by simp
  qed
  have mk: "hmark l' a = hmark l a" for a using p(2) cw(1) by (simp add: l'_def hword_parts)
  have fz: "hfrozen l' a" if "hfrozen l a" for a using that cw(2) by (auto simp: l'_def hword_parts)
  have nx: "hnext l' a = hnext l a" if "a \<noteq> c" for a using that by (simp add: l'_def hword_parts)
  have rc: "r \<noteq> c" using r(2) cw(1) by blast
  have pre: "\<forall>A x B. ll_head l # ll_chain l = A @ x # B \<and> (\<forall>a \<in> set A. hfrozen l a) \<longrightarrow> (\<exists>B'. ll_head l # ll_chain l' = A @ x # B')"
    by (rule frozen_prefix [OF s(1) cw(2)]) (use chain' l'h in simp)
  have "live l' = live l" using eq mk r(2) by (auto simp: live_def)
  then show "ll_content l' = ll_content l" by (intro content_live [OF inv inv'(1)]) (auto simp: l'_def)
  have out: "a \<in> set (ll_chain l') \<or> hmark l' a \<and> hnext l' a = hnext l a" if "a \<in> set (ll_chain l)" for a
    using that eq mk r(2) nx rc by auto
  show "lgood t l P l' P"
    unfolding lgood_def using inv'(1) dom mk fz nx cw pre out l'h c(1) by (auto simp: l'_def)
  show "c \<in> set (ll_head l' # ll_chain l')" unfolding chain' by simp
qed

lemma link_good:
  assumes inv: "linv l t P" and c: "c \<in> P" "c \<noteq> t" "hword l c = clean r" and n: "n \<in> hdom l" "n \<notin> P" "hword l n = clean r"
    and key: "c \<noteq> ll_head l \<Longrightarrow> hkey l c < hkey l n"
  defines "l' \<equiv> set_next c (clean n) l"
  shows "lgood t l P l' (insert n P)" and "ll_content l' = (ll_content l)(hkey l n \<mapsto> hval l n)" and "ll_content l (hkey l n) = None"
proof -
  note d = linvD [OF inv]
  have cd: "c \<in> hdom l" by (rule P_dom [OF inv c(1)])
  have cw: "\<not> hmark l c" "\<not> hfrozen l c" "hnext l c = r" and nw: "\<not> hmark l n" "hnext l n = r"
    using c(3) n(3) by (simp_all add: hword_parts)
  have nt: "n \<noteq> t" "n \<noteq> ll_head l" "n \<noteq> c" using n(2) c(1) d(1) by (auto simp: lbase_def)
  obtain A B where s: "ll_head l # ll_chain l = A @ c # B" "lpath l (hnext l c) B t" "lpath l (ll_head l) A c" "c \<notin> set A" "c \<notin> set B"
    by (rule chain_split [OF inv c(1,2) cw(1)])
  have nch: "n \<notin> set (ll_chain l)" using n(2) d(8) by blast
  have dom: "hdom l' = hdom l" unfolding l'_def by (rule set_next_dom [OF cd])
  have b': "lbase l' t (insert n P)" unfolding l'_def
    by (rule lbase_set_next [OF d(1) c(1,2)]) (use n(1) d(1) in \<open>auto simp: lbase_def\<close>)
  have o': "lorder l' t (insert n P)" unfolding l'_def
    by (rule lorder_set_next [OF d(2) cd]) (use nt key in auto)
  have "lpath l (tp_addr (clean n)) (n # B) t" using n(1) nw(2) s(2) cw(3) by simp
  then have path: "lpath l' (ll_head l') (A @ c # n # B) t" unfolding l'_def
    using lpath_join [OF cd s(4) _ s(3), of "n # B" "clean n"] s(5) nt by simp
  obtain xs where xs: "A @ c # n # B = ll_head l # xs" using s(1) by (cases A) auto
  have l'h: "ll_head l' = ll_head l" by (simp add: l'_def)
  have on: "a \<in> set (ll_head l' # xs @ [t])" if "a \<in> insert n P" "\<not> hmark l' a" for a
  proof (cases "a = c \<or> a = n")
    case True
    then have "a \<in> set (ll_head l # xs)" unfolding xs [symmetric] by auto
    then show ?thesis using l'h by auto
  next
    case False
    then have "\<not> hmark l a" "a \<in> P" using that by (simp_all add: l'_def hword_parts)
    then have "a \<in> set (ll_head l # ll_chain l) \<or> a = t" using d(4) by auto
    then have "a \<in> set (A @ c # n # B) \<or> a = t" unfolding s(1) by auto
    then show ?thesis using xs l'h by auto
  qed
  have inv': "linv l' t (insert n P)" "ll_chain l' = xs"
    using linvI [OF b' o' _ on] path xs l'h by auto
  have chain': "ll_head l' # ll_chain l' = A @ c # n # B" using inv'(2) xs l'h by simp
  have eq: "set (ll_chain l') = insert n (set (ll_chain l))"
  proof -
    have "set (ll_head l' # ll_chain l') = insert n (set (ll_head l # ll_chain l))" unfolding s(1) chain' by auto
    then have "insert (ll_head l) (set (ll_chain l')) = insert n (insert (ll_head l) (set (ll_chain l)))" using l'h by simp
    from insert_strip [OF this _ d(6) nt(2)] show ?thesis using linvD(6) [OF inv'(1)] l'h by simp
  qed
  have mk: "hmark l' a = hmark l a" for a using cw(1) by (simp add: l'_def hword_parts)
  have fz: "hfrozen l' a" if "hfrozen l a" for a using that cw(2) by (auto simp: l'_def hword_parts)
  have nx: "hnext l' a = hnext l a" if "a \<noteq> c" for a using that by (simp add: l'_def hword_parts)
  have pre: "\<forall>A x B. ll_head l # ll_chain l = A @ x # B \<and> (\<forall>a \<in> set A. hfrozen l a) \<longrightarrow> (\<exists>B'. ll_head l # ll_chain l' = A @ x # B')"
    by (rule frozen_prefix [OF s(1) cw(2)]) (use chain' l'h in simp)
  have "live l' = insert n (live l)" using eq mk nw(1) by (auto simp: live_def)
  moreover have "n \<notin> live l" using nch by (simp add: live_def)
  ultimately have "ll_content l' = (ll_content l)(hkey l' n \<mapsto> hval l' n)" "ll_content l (hkey l' n) = None"
    by (intro content_insert [OF inv inv'(1)]; auto simp: l'_def)+
  then show "ll_content l' = (ll_content l)(hkey l n \<mapsto> hval l n)" "ll_content l (hkey l n) = None" by (simp_all add: l'_def)
  show "lgood t l P l' (insert n P)"
    unfolding lgood_def using inv'(1) dom mk fz nx cw pre eq l'h c(1) by (auto simp: l'_def)
qed

text \<open>A new node, and the counter.\<close>

lemma alloc_sel:
  assumes "linv l t P" and "l' = snd (ll_alloc nd l)"
  shows "hkey l' a = (if a = ll_brk l then ll_key nd else hkey l a)" "hval l' a = (if a = ll_brk l then ll_value nd else hval l a)"
    "hword l' a = (if a = ll_brk l then ll_next nd else hword l a)"
    "ll_head l' = ll_head l" "ll_brk l' = Suc (ll_brk l)" "hdom l' = insert (ll_brk l) (hdom l)" "ll_brk l \<notin> hdom l"
  using linvD(1) [OF assms(1)] by (auto simp: assms(2) ll_alloc_def hkey_def hval_def hword_def lbase_def)

lemma alloc_good:
  assumes inv: "linv l t P" and nd: "ll_next nd = clean r" "r \<in> P" "r \<noteq> ll_head l" "ll_key nd < hkey l r"
  defines "l' \<equiv> snd (ll_alloc nd l)"
  shows "lgood t l P l' P" and "ll_content l' = ll_content l"
proof -
  note d = linvD [OF inv] and al = alloc_sel [OF inv l'_def [THEN meta_eq_to_obj_eq]]
  have nP: "ll_brk l \<notin> P" using al(7) d(1) by (auto simp: lbase_def)
  have new: "a \<in> P \<Longrightarrow> a \<noteq> ll_brk l" for a using nP by blast
  have hd: "ll_head l \<noteq> ll_brk l" "t \<noteq> ll_brk l" using d(1) by (auto simp: lbase_def intro!: new)
  have sub: "set (ll_head l # ll_chain l) \<subseteq> hdom l" using lpath_dom [OF d(3)] .
  have "ll_head l \<in> {1..<ll_brk l}" using d(1) unfolding lbase_def by blast
  then have "1 \<le> ll_brk l" by simp
  then have b': "lbase l' t P" using d(1) hd unfolding lbase_def by (auto simp: al hword_parts)
  have o': "lorder l' t P" unfolding lorder_def
  proof (intro ballI impI)
    fix a assume a: "a \<in> hdom l'" "a \<noteq> t"
    show "hnext l' a \<in> P \<and> hnext l' a \<noteq> ll_head l' \<and> (a \<noteq> ll_head l' \<longrightarrow> hkey l' a < hkey l' (hnext l' a))"
    proof (cases "a = ll_brk l")
      case True
      then show ?thesis using nd new [OF nd(2)] by (simp add: hword_parts al)
    next
      case False
      then have "a \<in> hdom l" using a(1) al(6) by auto
      then have "hnext l a \<in> P \<and> hnext l a \<noteq> ll_head l \<and> (a \<noteq> ll_head l \<longrightarrow> hkey l a < hkey l (hnext l a))"
        using d(2) a(2) by (auto simp: lorder_def)
      then show ?thesis using False new by (auto simp: hword_parts al)
    qed
  qed
  have "lpath l' (ll_head l) (ll_head l # ll_chain l) t = lpath l (ll_head l) (ll_head l # ll_chain l) t"
    by (rule lpath_cong) (use sub al(6,7) in \<open>auto simp: hword_parts al(3)\<close>)
  then have path: "lpath l' (ll_head l') (ll_head l' # ll_chain l) t" using d(3) al(4) by simp
  have on: "a \<in> set (ll_head l' # ll_chain l @ [t])" if "a \<in> P" "\<not> hmark l' a" for a
    using d(4) [OF that(1)] that(2) new [OF that(1)] by (auto simp: hword_parts al)
  have s: "linv l' t P" "ll_chain l' = ll_chain l" using linvI [OF b' o' path on] by blast+
  have old: "hkey l' a = hkey l a" "hval l' a = hval l a" "hword l' a = hword l a" if "a \<in> hdom l" for a
  proof -
    have "a \<noteq> ll_brk l" using that al(7) by blast
    then show "hkey l' a = hkey l a" "hval l' a = hval l a" "hword l' a = hword l a" by (simp_all add: al(1-3))
  qed
  then have parts: "hnext l' a = hnext l a" "hmark l' a = hmark l a" "hfrozen l' a = hfrozen l a" if "a \<in> hdom l" for a
    using that by (simp_all add: hword_parts)
  have "live l' = live l" using s(2) sub parts(2) by (auto simp: live_def)
  moreover have "a \<in> hdom l" if "a \<in> live l" for a by (rule subsetD [OF sub]) (use that in \<open>simp add: live_def\<close>)
  ultimately show "ll_content l' = ll_content l" by (intro content_live [OF inv s(1)] ballI conjI old)
  have ch: "hmark l' a = hmark l a" if "a \<in> set (ll_chain l)" for a
    by (rule parts(2), rule subsetD [OF sub]) (use that in simp)
  show "lgood t l P l' P" unfolding lgood_def s(2) al(4) using s(1) al(6) old parts ch by auto
qed

lemma count_good:
  assumes inv: "linv l t P"
  shows "lgood t l P (l\<lparr>ll_count := c\<rparr>) P" and "ll_content (l\<lparr>ll_count := c\<rparr>) = ll_content l"
proof -
  let ?l = "l\<lparr>ll_count := c\<rparr>"
  have sel: "hkey ?l = hkey l" "hval ?l = hval l" "hnext ?l = hnext l" "hmark ?l = hmark l" "hfrozen ?l = hfrozen l" "hword ?l = hword l"
    by (simp_all add: fun_eq_iff hsel_defs hword_def)
  have ch: "ll_chain ?l = ll_chain l" by (simp add: ll_chain_def sel)
  show ct: "ll_content ?l = ll_content l" by (simp add: ll_content_def sel ch)
  have path: "lpath ?l a xs t = lpath l a xs t" for a xs by (rule lpath_cong) (simp_all add: sel)
  have "linv ?l t P" using inv by (simp add: linv_def lbase_def lorder_def sel ch path)
  then show "lgood t l P ?l P" by (auto simp: lgood_def sel ch ct)
qed

end
