(* ===== verification/LF_LL_Conc_Step.thy ===== *)
theory LF_LL_Conc_Step
  imports LF_LL_Conc_Inv "HOL-Library.Sublist"
begin

text \<open>
  What a thread knows at every point of an operation (\<open>pc_ok\<close>), that the steps of other threads keep it, and
  that its own steps establish it at the next point.
\<close>

section \<open>What an operation has seen\<close>

text \<open>A node that was on the chain in a state the operation has seen still is, or left the chain marked and
  with the next node it has now; and a node that has been marked since was absent at some moment.\<close>

definition hist_ok :: "addr \<Rightarrow> Linked_List \<Rightarrow> addr set \<Rightarrow> Linked_List set \<Rightarrow> bool" where
  "hist_ok t l P seen \<longleftrightarrow> (\<forall>s \<in> seen. ll_head s = ll_head l \<and> (\<exists>Q \<subseteq> P. linv s t Q)
     \<and> (\<forall>a \<in> hdom s. a \<in> hdom l \<and> hkey l a = hkey s a \<and> hval l a = hval s a)
     \<and> (\<forall>b \<in> set (ll_chain s). b \<in> set (ll_chain l) \<or> hmark l b \<and> (\<exists>r \<in> seen. b \<in> set (ll_chain r) \<and> hnext r b = hnext l b))
     \<and> (\<forall>b \<in> set (ll_chain s). \<not> hmark s b \<and> hmark l b \<longrightarrow> (\<exists>r \<in> seen. ll_content r (hkey l b) = None)))"

lemma lgoodD:
  assumes "lgood t l P l' P'"
  shows "linv l' t P'" "ll_head l' = ll_head l" "hdom l \<subseteq> hdom l'" "P \<subseteq> P'"
    "\<And>a. a \<in> hdom l \<Longrightarrow> hkey l' a = hkey l a" "\<And>a. a \<in> hdom l \<Longrightarrow> hval l' a = hval l a"
    "\<And>a. a \<in> hdom l \<Longrightarrow> hmark l a \<Longrightarrow> hmark l' a \<and> hnext l' a = hnext l a"
    "\<And>a. a \<in> hdom l \<Longrightarrow> hfrozen l a \<Longrightarrow> hfrozen l' a \<and> hnext l' a = hnext l a"
    "\<And>a. a \<in> hdom l \<Longrightarrow> a \<notin> P \<Longrightarrow> hword l' a = hword l a"
    "\<And>a. a \<in> set (ll_chain l) \<Longrightarrow> a \<in> set (ll_chain l') \<or> hmark l' a \<and> hnext l' a = hnext l a"
    "\<And>a. a \<in> set (ll_chain l) \<Longrightarrow> \<not> hmark l a \<Longrightarrow> hmark l' a \<Longrightarrow> ll_content l' (hkey l a) = None"
    "\<And>A x B. ll_head l # ll_chain l = A @ x # B \<Longrightarrow> \<forall>a \<in> set A. hfrozen l a \<Longrightarrow> \<exists>B'. ll_head l # ll_chain l' = A @ x # B'"
  using assms by (auto simp: lgood_def)

lemma chain_dom: "linv l t P \<Longrightarrow> a \<in> set (ll_chain l) \<Longrightarrow> a \<in> hdom l"
  using P_dom linvD(8) by blast

lemma head_facts:
  assumes "linv l t P"
  shows "ll_head l \<in> P" "ll_head l \<in> hdom l" "ll_head l \<noteq> t" "\<not> hmark l (ll_head l)" "hkey l (ll_head l) = 0"
    "t \<in> P" "t \<in> hdom l" "hkey l t = key_max" "\<not> hmark l t" "hword l t = null_ptr" "0 \<notin> hdom l"
  using linvD(1) [OF assms] P_dom [OF assms] by (auto simp: lbase_def hword_parts)

lemma hist_init: "linv l t P \<Longrightarrow> hist_ok t l P {l}"
  by (auto simp: hist_ok_def)

lemma hist_step:
  assumes inv: "linv l t P" and h: "hist_ok t l P seen" and l: "l \<in> seen" and g: "lgood t l P l' P'"
  shows "hist_ok t l' P' (insert l' seen)"
proof -
  note g' = lgoodD [OF g]
  have new: "ll_head l' = ll_head l' \<and> (\<exists>Q \<subseteq> P'. linv l' t Q)" using g'(1) by blast
  have old: "ll_head s = ll_head l' \<and> (\<exists>Q \<subseteq> P'. linv s t Q) \<and> (\<forall>a \<in> hdom s. a \<in> hdom l' \<and> hkey l' a = hkey s a \<and> hval l' a = hval s a)
     \<and> (\<forall>b \<in> set (ll_chain s). b \<in> set (ll_chain l') \<or> hmark l' b \<and> (\<exists>r \<in> insert l' seen. b \<in> set (ll_chain r) \<and> hnext r b = hnext l' b))
     \<and> (\<forall>b \<in> set (ll_chain s). \<not> hmark s b \<and> hmark l' b \<longrightarrow> (\<exists>r \<in> insert l' seen. ll_content r (hkey l' b) = None))"
    if s: "s \<in> seen" for s
  proof -
    have hs: "ll_head s = ll_head l" "\<exists>Q \<subseteq> P. linv s t Q" "\<And>a. a \<in> hdom s \<Longrightarrow> a \<in> hdom l \<and> hkey l a = hkey s a \<and> hval l a = hval s a"
      "\<And>b. b \<in> set (ll_chain s) \<Longrightarrow> b \<in> set (ll_chain l) \<or> hmark l b \<and> (\<exists>r \<in> seen. b \<in> set (ll_chain r) \<and> hnext r b = hnext l b)"
      "\<And>b. b \<in> set (ll_chain s) \<Longrightarrow> \<not> hmark s b \<Longrightarrow> hmark l b \<Longrightarrow> \<exists>r \<in> seen. ll_content r (hkey l b) = None"
      using h s unfolding hist_ok_def by blast+
    then obtain Q where Q: "Q \<subseteq> P" "linv s t Q" by blast
    have bd: "b \<in> hdom l" if "b \<in> set (ll_chain s)" for b using chain_dom [OF Q(2) that] hs(3) by blast
    have p1: "b \<in> set (ll_chain l') \<or> hmark l' b \<and> (\<exists>r \<in> insert l' seen. b \<in> set (ll_chain r) \<and> hnext r b = hnext l' b)"
      if b: "b \<in> set (ll_chain s)" for b
    proof (cases "b \<in> set (ll_chain l)")
      case True
      then show ?thesis using g'(10) [OF True] l by auto
    next
      case False
      then show ?thesis using hs(4) [OF b] g'(7) [OF bd [OF b]] by auto
    qed
    have p2: "\<exists>r \<in> insert l' seen. ll_content r (hkey l' b) = None" if b: "b \<in> set (ll_chain s)" "\<not> hmark s b" "hmark l' b" for b
    proof (cases "hmark l b")
      case True
      then show ?thesis using hs(5) [OF b(1,2)] g'(5) [OF bd [OF b(1)]] by auto
    next
      case False
      then have "b \<in> set (ll_chain l)" using hs(4) [OF b(1)] by blast
      then show ?thesis using g'(11) [OF _ False b(3)] g'(5) [OF bd [OF b(1)]] by auto
    qed
    have p3: "a \<in> hdom l' \<and> hkey l' a = hkey s a \<and> hval l' a = hval s a" if "a \<in> hdom s" for a
      using hs(3) [OF that] g'(3,5,6) by (metis subsetD)
    have "ll_head s = ll_head l'" "\<exists>Q \<subseteq> P'. linv s t Q" using hs(1) g'(2,4) Q by auto
    then show ?thesis using p1 p2 p3 by blast
  qed
  show ?thesis unfolding hist_ok_def using old new by blast
qed

text \<open>A closed list keeps its nodes; the frozen start of the chain stays.\<close>

lemma closed_step:
  assumes inv: "linv l t P" and g: "lgood t l P l' P'" and c: "ll_closed l"
  shows "ll_head l # ll_chain l' = ll_head l # ll_chain l" and "ll_closed l'"
proof -
  note g' = lgoodD [OF g] and d = linvD [OF inv]
  obtain A x where s: "ll_head l # ll_chain l = A @ [x]" by (metis append_butlast_last_id list.distinct(1))
  have fz: "hfrozen l a" if "a \<in> set (A @ [x])" for a using c that unfolding ll_closed_def s [symmetric] by (auto simp: list_all_iff)
  then obtain B' where B': "ll_head l # ll_chain l' = A @ x # B'" using g'(12) [of A x "[]"] s by auto
  have "set (ll_head l # ll_chain l) \<subseteq> hdom l" using lpath_dom [OF d(3)] .
  then have dom: "a \<in> hdom l" if "a \<in> set (A @ [x])" for a using that unfolding s by blast
  have "hnext l x = t" using chain_next [OF inv, of A x "[]"] s by simp
  then have "hnext l' x = t" using g'(8) [OF dom fz] by simp
  moreover have "hnext l' x = (case B' of [] \<Rightarrow> t | b # _ \<Rightarrow> b)" using chain_next [OF g'(1), of A x B'] B' g'(2) by simp
  moreover have "t \<notin> set (A @ x # B')" unfolding B' [symmetric] using linvD(1,7) [OF g'(1)] g'(2) by (auto simp: lbase_def)
  ultimately have "B' = []" by (cases B') auto
  then show eq: "ll_head l # ll_chain l' = ll_head l # ll_chain l" using B' s by simp
  show "ll_closed l'" unfolding ll_closed_def g'(2) eq using g'(8) [OF dom] fz s by (auto simp: list_all_iff)
qed

section \<open>What a thread knows\<close>

definition absent :: "Linked_List set \<Rightarrow> key_t \<Rightarrow> bool" where
  "absent seen k \<longleftrightarrow> (\<exists>s \<in> seen. ll_content s k = None)"

definition present :: "Linked_List set \<Rightarrow> key_t \<Rightarrow> bool" where
  "present seen k \<longleftrightarrow> (\<exists>s \<in> seen. ll_content s k \<noteq> None)"

definition saw_value :: "Linked_List set \<Rightarrow> key_t \<Rightarrow> val_t \<Rightarrow> bool" where
  "saw_value seen k v \<longleftrightarrow> (\<exists>s \<in> seen. ll_content s k = Some v)"

definition saw_frozen :: "Linked_List set \<Rightarrow> bool" where
  "saw_frozen seen \<longleftrightarrow> (\<exists>s \<in> seen. \<exists>a \<in> hdom s. hfrozen s a)"

text \<open>The number a removal returns is the value its key had, or, when its last compare-exchange has failed, the value of the
  node that a node before the key pointed to at that moment.\<close>

definition misread :: "Linked_List set \<Rightarrow> key_t \<Rightarrow> int \<Rightarrow> bool" where
  "misread seen k i \<longleftrightarrow> (\<exists>s \<in> seen. \<exists>a \<in> hdom s. (a = ll_head s \<or> hkey s a < k) \<and> \<not> hmark s a \<and> \<not> hfrozen s a
     \<and> hnext s a \<in> hdom s \<and> i = to_int32 (hval s (hnext s a)))"

definition took :: "Linked_List set \<Rightarrow> key_t \<Rightarrow> int \<Rightarrow> bool" where
  "took seen k i \<longleftrightarrow> (\<exists>v. saw_value seen k v \<and> i = to_int32 v)"

text \<open>A collection saw the list closed, took its pairs from the nodes on the chain, and has all of the content if no node on
  the chain is marked.\<close>

definition collected :: "Linked_List set \<Rightarrow> kvs \<Rightarrow> bool" where
  "collected seen kvs \<longleftrightarrow> (\<exists>s \<in> seen. ll_closed s \<and> set kvs \<subseteq> (\<lambda>a. (hkey s a, hval s a)) ` set (ll_chain s)
     \<and> (list_all (\<lambda>a. \<not> hmark s a) (ll_chain s) \<longrightarrow> map_of kvs = ll_content s \<and> sorted_wrt (<) (map fst kvs)))"

text \<open>The answers that were true at some moment of the operation.\<close>

fun ans_ok :: "Linked_List set \<Rightarrow> lop \<Rightarrow> lret \<Rightarrow> bool" where
  "ans_ok seen (LInsert k v) (RInt i) \<longleftrightarrow> i = 1 \<and> absent seen k \<and> saw_value seen k v
     \<or> i = 0 \<and> (v = tombstone \<or> present seen k) \<or> i = - 1 \<and> saw_frozen seen"
| "ans_ok seen (LRemove k) (RInt i) \<longleftrightarrow> i = - 1 \<and> saw_frozen seen \<or> i = - 2 \<and> absent seen k
     \<or> present seen k \<and> absent seen k \<and> (took seen k i \<or> misread seen k i)"
| "ans_ok seen (LSearch k) (RBool b) \<longleftrightarrow> (if b then present seen k else absent seen k)"
| "ans_ok seen LCollect (RList kvs) \<longleftrightarrow> collected seen kvs"
| "ans_ok seen _ _ \<longleftrightarrow> False"

fun is_upd :: "lop \<Rightarrow> bool" where
  "is_upd (LInsert k v) \<longleftrightarrow> k < key_max"
| "is_upd (LRemove k) \<longleftrightarrow> k < key_max"
| "is_upd _ \<longleftrightarrow> False"

definition left_ok :: "Linked_List \<Rightarrow> addr \<Rightarrow> addr set \<Rightarrow> key_t \<Rightarrow> addr \<Rightarrow> bool" where
  "left_ok l t P k left \<longleftrightarrow> left \<in> P \<and> left \<noteq> t \<and> (left = ll_head l \<or> hkey l left < k)"

definition find_ok :: "Linked_List \<Rightarrow> addr \<Rightarrow> addr set \<Rightarrow> Linked_List set \<Rightarrow> key_t \<Rightarrow> addr \<Rightarrow> addr \<Rightarrow> bool" where
  "find_ok l t P seen k left right \<longleftrightarrow> left_ok l t P k left \<and> right \<in> P \<and> right \<noteq> ll_head l
     \<and> (k < hkey l right \<longrightarrow> absent seen k)"

definition was_live :: "Linked_List set \<Rightarrow> addr \<Rightarrow> bool" where
  "was_live seen a \<longleftrightarrow> (\<exists>s \<in> seen. a \<in> set (ll_chain s) \<and> \<not> hmark s a)"

definition rem_ok :: "Linked_List \<Rightarrow> addr \<Rightarrow> addr set \<Rightarrow> Linked_List set \<Rightarrow> key_t \<Rightarrow> addr \<Rightarrow> addr \<Rightarrow> bool" where
  "rem_ok l t P seen k left right \<longleftrightarrow> k < key_max \<and> find_ok l t P seen k left right \<and> hkey l right = k \<and> was_live seen right"

text \<open>The nodes before \<open>left\<close> are frozen, and the pairs gathered are those behind some of them, at least behind
  those that are not marked yet.\<close>

definition next_pair :: "Linked_List \<Rightarrow> addr \<Rightarrow> key_t \<times> val_t" where
  "next_pair l a = (hkey l (hnext l a), hval l (hnext l a))"

definition pairs_ok :: "Linked_List \<Rightarrow> addr list \<Rightarrow> kvs \<Rightarrow> bool" where
  "pairs_ok l A acc \<longleftrightarrow> (\<exists>C. subseq C A \<and> (\<forall>a \<in> set A. \<not> hmark l a \<longrightarrow> a \<in> set C) \<and> acc = map (next_pair l) C)"

definition col_ok :: "Linked_List \<Rightarrow> addr \<Rightarrow> addr \<Rightarrow> kvs \<Rightarrow> bool" where
  "col_ok l t left acc \<longleftrightarrow> (\<exists>A B. ll_head l # ll_chain l = A @ B \<and> (\<forall>a \<in> set A. hfrozen l a) \<and> pairs_ok l A acc
     \<and> left = (case B of [] \<Rightarrow> t | b # _ \<Rightarrow> b))"

fun pc_ok :: "Linked_List \<Rightarrow> addr \<Rightarrow> addr set \<Rightarrow> Linked_List set \<Rightarrow> lpc \<Rightarrow> bool" where
  "pc_ok l t P seen LIdle \<longleftrightarrow> True"
| "pc_ok l t P seen (LFind0 op) \<longleftrightarrow> is_upd op"
| "pc_ok l t P seen (LFind1 op) \<longleftrightarrow> is_upd op"
| "pc_ok l t P seen (LFind2 op left right) \<longleftrightarrow> is_upd op \<and> find_ok l t P seen (lop_key op) left right"
| "pc_ok l t P seen (LFind3 op left right rn) \<longleftrightarrow> is_upd op \<and> find_ok l t P seen (lop_key op) left right
     \<and> right \<noteq> t \<and> hmark l right \<and> hnext l right = tp_addr rn \<and> \<not> tp_freeze rn"
| "pc_ok l t P seen (LIns k v left right new) \<longleftrightarrow> k < key_max \<and> find_ok l t P seen k left right \<and> new \<in> hdom l \<and> new \<notin> P
     \<and> hword l new = clean right \<and> hkey l new = k \<and> hval l new = v \<and> k < hkey l right"
| "pc_ok l t P seen (LCount k v) \<longleftrightarrow> absent seen k \<and> saw_value seen k v"
| "pc_ok l t P seen (LRem1 k left right) \<longleftrightarrow> rem_ok l t P seen k left right"
| "pc_ok l t P seen (LRem2 k left right rn) \<longleftrightarrow> rem_ok l t P seen k left right \<and> \<not> tp_mark rn"
| "pc_ok l t P seen (LRem3 k left right rn) \<longleftrightarrow> rem_ok l t P seen k left right \<and> hmark l right
     \<and> hnext l right = tp_addr rn \<and> absent seen k"
| "pc_ok l t P seen (LSrch k cur) \<longleftrightarrow> 0 < k \<and> k < key_max \<and> (k < hkey l cur \<longrightarrow> absent seen k)
     \<and> (cur = t \<or> cur = ll_head l \<or> (\<exists>s \<in> seen. cur \<in> set (ll_chain s)))"
| "pc_ok l t P seen (LCol1 left acc) \<longleftrightarrow> col_ok l t left acc \<and> (left = ll_head l \<or> acc \<noteq> [])"
| "pc_ok l t P seen (LCol2 left acc) \<longleftrightarrow> col_ok l t left acc \<and> left \<noteq> t \<and> (left = ll_head l \<or> acc \<noteq> [])"
| "pc_ok l t P seen (LCol3 left acc) \<longleftrightarrow> col_ok l t left acc \<and> left \<noteq> t \<and> (left = ll_head l \<or> acc \<noteq> [])"
| "pc_ok l t P seen (LCol4 left cn acc) \<longleftrightarrow> col_ok l t left acc \<and> left \<noteq> t \<and> (left = ll_head l \<or> acc \<noteq> [])"
| "pc_ok l t P seen (LCol5 left acc) \<longleftrightarrow> col_ok l t left acc \<and> left \<noteq> t \<and> (left = ll_head l \<or> acc \<noteq> []) \<and> hfrozen l left"
| "pc_ok l t P seen (LDone op r) \<longleftrightarrow> ans_ok seen op r \<and> (op = LCollect \<longrightarrow> (\<exists>acc. r = RList (butlast acc) \<and> col_ok l t t acc))"

text \<open>The node a thread has built and not linked yet.\<close>

fun own_node :: "lpc \<Rightarrow> addr set" where
  "own_node (LIns k v left right new) = {new}"
| "own_node _ = {}"

section \<open>The steps of other threads\<close>

lemma seen_mono:
  assumes "seen \<subseteq> seen'"
  shows "absent seen k \<Longrightarrow> absent seen' k" "present seen k \<Longrightarrow> present seen' k" "was_live seen a \<Longrightarrow> was_live seen' a"
    "saw_value seen k v \<Longrightarrow> saw_value seen' k v" "saw_frozen seen \<Longrightarrow> saw_frozen seen'" "misread seen k i \<Longrightarrow> misread seen' k i"
    "took seen k i \<Longrightarrow> took seen' k i" "collected seen kvs \<Longrightarrow> collected seen' kvs"
  using assms unfolding absent_def present_def was_live_def saw_value_def saw_frozen_def misread_def took_def collected_def by blast+

lemma ans_mono:
  assumes "ans_ok seen op r" and "seen \<subseteq> seen'"
  shows "ans_ok seen' op r"
proof -
  note m = seen_mono [OF assms(2)]
  show ?thesis
  proof (cases op)
    case (LInsert k v)
    then obtain i where "r = RInt i" using assms(1) by (cases r) auto
    then show ?thesis using assms(1) m unfolding LInsert by (simp only: ans_ok.simps) blast
  next
    case (LRemove k)
    then obtain i where "r = RInt i" using assms(1) by (cases r) auto
    then show ?thesis using assms(1) m unfolding LRemove by (simp only: ans_ok.simps) blast
  next
    case (LSearch k)
    then obtain b where "r = RBool b" using assms(1) by (cases r) auto
    then show ?thesis using assms(1) m unfolding LSearch by (cases b) simp_all
  next
    case LCollect
    then obtain kvs where "r = RList kvs" using assms(1) by (cases r) auto
    then show ?thesis using assms(1) m unfolding LCollect by simp
  qed
qed

lemma find_mono:
  assumes inv: "linv l t P" and g: "lgood t l P l' P'" and sub: "seen \<subseteq> seen'" and f: "find_ok l t P seen k left right"
  shows "find_ok l' t P' seen' k left right"
proof -
  note g' = lgoodD [OF g]
  have "left \<in> hdom l" "right \<in> hdom l" using f P_dom [OF inv] by (auto simp: find_ok_def left_ok_def)
  then show ?thesis using f g'(2,4,5) seen_mono [OF sub] by (auto simp: find_ok_def left_ok_def)
qed

lemma pairs_mono:
  assumes inv: "linv l t P" and g: "lgood t l P l' P'" and A: "set A \<subseteq> set (ll_head l # ll_chain l)" "\<forall>a \<in> set A. hfrozen l a"
    and p: "pairs_ok l A acc"
  shows "pairs_ok l' A acc"
proof -
  note g' = lgoodD [OF g] and hd = head_facts [OF inv] and d = linvD [OF inv]
  obtain C where C: "subseq C A" "\<forall>a \<in> set A. \<not> hmark l a \<longrightarrow> a \<in> set C" "acc = map (next_pair l) C"
    using p by (auto simp: pairs_ok_def)
  have dom: "a \<in> hdom l" "a \<noteq> t" if "a \<in> set A" for a
  proof -
    have "a = ll_head l \<or> a \<in> set (ll_chain l)" using that A(1) by auto
    then show "a \<in> hdom l" "a \<noteq> t" using hd(2,3) chain_dom [OF inv] d(7) by blast+
  qed
  have "next_pair l' a = next_pair l a" if a: "a \<in> set A" for a
  proof -
    have n: "hnext l' a = hnext l a" using g'(8) [OF dom(1) [OF a]] A(2) a by blast
    have "hnext l a \<in> hdom l" using P_dom [OF inv] d(2) dom [OF a] by (simp add: lorder_def)
    then show ?thesis using g'(5,6) n by (simp add: next_pair_def)
  qed
  moreover have "set C \<subseteq> set A" using C(1) list_emb_set [OF C(1)] by blast
  ultimately have "acc = map (next_pair l') C" unfolding C(3) by (intro map_cong) auto
  moreover have "\<not> hmark l a" if "a \<in> set A" "\<not> hmark l' a" for a using g'(7) [OF dom(1) [OF that(1)]] that(2) by blast
  ultimately show ?thesis unfolding pairs_ok_def using C(1,2) by blast
qed

lemma col_mono:
  assumes inv: "linv l t P" and g: "lgood t l P l' P'" and c: "col_ok l t left acc"
  shows "col_ok l' t left acc"
proof -
  note g' = lgoodD [OF g] and d = linvD [OF inv]
  obtain A B where s: "ll_head l # ll_chain l = A @ B" "\<forall>a \<in> set A. hfrozen l a" "left = (case B of [] \<Rightarrow> t | b # _ \<Rightarrow> b)" "pairs_ok l A acc"
    using c by (auto simp: col_ok_def)
  have "set (ll_head l # ll_chain l) \<subseteq> hdom l" using lpath_dom [OF d(3)] .
  then have "set A \<subseteq> hdom l" unfolding s(1) by simp
  then have fz: "\<forall>a \<in> set A. hfrozen l' a" using g'(8) s(2) by blast
  have pr: "pairs_ok l' A acc" by (rule pairs_mono [OF inv g _ s(2,4)]) (simp add: s(1))
  show ?thesis
  proof (cases B)
    case Nil
    then have "ll_closed l" using s by (simp add: ll_closed_def list_all_iff)
    then have "ll_head l' # ll_chain l' = A @ []" using closed_step(1) [OF inv g] s(1) Nil g'(2) by simp
    then show ?thesis unfolding col_ok_def using fz s(3) pr Nil by (intro exI [of _ A] exI [of _ "[]"]) simp
  next
    case (Cons b B0)
    then obtain B' where "ll_head l' # ll_chain l' = A @ b # B'" using g'(12) [of A b B0] s(1,2) g'(2) by auto
    then show ?thesis unfolding col_ok_def using fz s(3) pr Cons by (intro exI [of _ A] exI [of _ "b # B'"]) simp
  qed
qed

lemma col_P:
  assumes "linv l t P" and "col_ok l t left acc"
  shows "left \<in> P"
proof -
  obtain A B where s: "ll_head l # ll_chain l = A @ B" "left = (case B of [] \<Rightarrow> t | b # _ \<Rightarrow> b)" using assms(2) by (auto simp: col_ok_def)
  have "set (ll_head l # ll_chain l) \<subseteq> P" "t \<in> P" using linvD(1,8) [OF assms(1)] by (auto simp: lbase_def)
  then show ?thesis using s(2) unfolding s(1) by (cases B) auto
qed

lemma pc_mono:
  assumes inv: "linv l t P" and g: "lgood t l P l' P'" and sub: "seen \<subseteq> seen'" and h: "hist_ok t l P seen"
    and pc: "pc_ok l t P seen pc" and own: "own_node pc \<inter> P' = {}"
  shows "pc_ok l' t P' seen' pc"
proof -
  note g' = lgoodD [OF g] and f = find_mono [OF inv g sub] and s = seen_mono [OF sub] and c = col_mono [OF inv g]
  have dom: "a \<in> P \<Longrightarrow> a \<in> hdom l" for a using P_dom [OF inv] .
  have cl: "ll_closed l \<Longrightarrow> ll_closed l'" by (rule closed_step(2) [OF inv g])
  have rem: "rem_ok l' t P' seen' k left right" if "rem_ok l t P seen k left right" for k left right
    using that f s(3) g'(5) dom by (auto simp: rem_ok_def find_ok_def)
  have right: "right \<in> hdom l" if "find_ok l t P seen k left right" for k left right using that dom by (simp add: find_ok_def)
  show ?thesis
  proof (cases pc)
    case (LFind3 op left right rn)
    then have p: "find_ok l t P seen (lop_key op) left right" "hmark l right" "is_upd op" "right \<noteq> t" "hnext l right = tp_addr rn" "\<not> tp_freeze rn"
      using pc by auto
    then show ?thesis using f [OF p(1)] g'(7) [OF right [OF p(1)] p(2)] LFind3 by simp
  next
    case (LIns k v left right new)
    then have p: "find_ok l t P seen k left right" "new \<in> hdom l" "new \<notin> P" "hword l new = clean right" "hkey l new = k" "hval l new = v"
      "k < hkey l right" "k < key_max" using pc by auto
    show ?thesis using f [OF p(1)] p g'(3,5,6) g'(9) [OF p(2,3)] right [OF p(1)] own LIns by auto
  next
    case (LRem3 k left right rn)
    then have p: "rem_ok l t P seen k left right" "hmark l right" "hnext l right = tp_addr rn" "absent seen k" using pc by auto
    then have "right \<in> hdom l" unfolding rem_ok_def using right by blast
    then show ?thesis using rem [OF p(1)] g'(7) p s(1) LRem3 by simp
  next
    case (LSrch k cur)
    have "cur \<in> hdom l"
    proof -
      consider "cur = t" | "cur = ll_head l" | s where "s \<in> seen" "cur \<in> set (ll_chain s)" using pc LSrch by auto
      then show ?thesis
      proof cases
        case (3 s)
        then obtain Q where Q: "linv s t Q" "\<And>a. a \<in> hdom s \<Longrightarrow> a \<in> hdom l" using h unfolding hist_ok_def by blast
        show ?thesis by (rule Q(2)) (rule chain_dom [OF Q(1) 3(2)])
      qed (use dom linvD(1) [OF inv] in \<open>auto simp: lbase_def\<close>)
    qed
    then show ?thesis using pc LSrch g'(2,5) s(1) sub by (simp add: subset_iff) blast
  next
    case (LCol5 left acc)
    then have p: "col_ok l t left acc" "left \<noteq> t" "left = ll_head l \<or> acc \<noteq> []" "hfrozen l left" using pc by auto
    have "hfrozen l' left" using g'(8) [OF dom [OF col_P [OF inv p(1)]] p(4)] by blast
    then show ?thesis using c [OF p(1)] p g'(2) LCol5 by simp
  qed (use pc f s c cl rem g'(2) ans_mono [OF _ sub] in auto)
qed

section \<open>The steps of a thread\<close>

text \<open>What a step does to the content: only the compare-exchange of an insertion that succeeds adds its key, and
  only the one that marks removes its key.\<close>

fun effect :: "lpc \<Rightarrow> lpc \<Rightarrow> Linked_List \<Rightarrow> Linked_List \<Rightarrow> bool" where
  "effect (LIns k v left right new) (LCount k' v') l l' \<longleftrightarrow>
     ll_content l k = None \<and> ll_content l' = (ll_content l)(k \<mapsto> v)"
| "effect (LRem2 k left right rn) (LRem3 k' left' right' rn') l l' \<longleftrightarrow>
     ll_content l k \<noteq> None \<and> ll_content l' = (ll_content l)(k := None)"
| "effect _ _ l l' \<longleftrightarrow> ll_content l' = ll_content l"

text \<open>The operation a point belongs to.\<close>

fun pc_op :: "lpc \<Rightarrow> lop option" where
  "pc_op LIdle = None"
| "pc_op (LFind0 op) = Some op"
| "pc_op (LFind1 op) = Some op"
| "pc_op (LFind2 op left right) = Some op"
| "pc_op (LFind3 op left right rn) = Some op"
| "pc_op (LIns k v left right new) = Some (LInsert k v)"
| "pc_op (LCount k v) = Some (LInsert k v)"
| "pc_op (LRem1 k left right) = Some (LRemove k)"
| "pc_op (LRem2 k left right rn) = Some (LRemove k)"
| "pc_op (LRem3 k left right rn) = Some (LRemove k)"
| "pc_op (LSrch k cur) = Some (LSearch k)"
| "pc_op (LCol1 left acc) = Some LCollect"
| "pc_op (LCol2 left acc) = Some LCollect"
| "pc_op (LCol3 left acc) = Some LCollect"
| "pc_op (LCol4 left cn acc) = Some LCollect"
| "pc_op (LCol5 left acc) = Some LCollect"
| "pc_op (LDone op r) = Some op"

text \<open>A removal that cannot unlink its node reads a value through the word it has found instead; with a tag
  in that word this is no node.\<close>

fun unlink_lost :: "Linked_List \<Rightarrow> lpc \<Rightarrow> bool" where
  "unlink_lost l (LRem3 k left right rn) \<longleftrightarrow> hmark l left \<or> hfrozen l left"
| "unlink_lost l _ \<longleftrightarrow> False"

definition moves :: "Linked_List \<Rightarrow> addr \<Rightarrow> addr set \<Rightarrow> Linked_List set \<Rightarrow> lpc \<Rightarrow> lpc \<Rightarrow> Linked_List \<Rightarrow> addr set \<Rightarrow> bool" where
  "moves l t P seen pc pc' l' P' \<longleftrightarrow> lgood t l P l' P' \<and> pc_ok l' t P' (insert l' seen) pc' \<and> P' \<subseteq> P \<union> own_node pc
     \<and> own_node pc' \<inter> P' = {} \<and> own_node pc' \<subseteq> hdom l' \<and> own_node pc' \<subseteq> own_node pc \<union> (hdom l' - hdom l)
     \<and> effect pc pc' l l' \<and> pc_op pc' = pc_op pc"

definition step_ok :: "Linked_List \<Rightarrow> addr \<Rightarrow> addr set \<Rightarrow> Linked_List set \<Rightarrow> lpc \<Rightarrow> (lpc \<times> Linked_List) res \<Rightarrow> bool" where
  "step_ok l t P seen pc r \<longleftrightarrow> (\<exists>pc' l' P'. r = Inr (pc', l') \<and> moves l t P seen pc pc' l' P') \<or> r = Inl NullDeref \<and> unlink_lost l pc"

lemma step_okI: "moves l t P seen pc pc' l' P' \<Longrightarrow> step_ok l t P seen pc (Inr (pc', l'))"
  by (auto simp: step_ok_def)

lemma stay:
  assumes "linv l t P" and "l \<in> seen" and "pc_ok l t P seen pc'" and "own_node pc' = {}" and "effect pc pc' l l" and "pc_op pc' = pc_op pc"
  shows "step_ok l t P seen pc (Inr (pc', l))"
  using assms lgood_refl [OF assms(1)] by (intro step_okI [where P' = P]) (auto simp: moves_def insert_absorb)

text \<open>A step that writes, without a node to link.\<close>

lemma stay_write:
  assumes "lgood t l P l' P" and "pc_ok l' t P (insert l' seen) pc'" and "own_node pc' = {}" and "effect pc pc' l l'" and "pc_op pc' = pc_op pc"
  shows "step_ok l t P seen pc (Inr (pc', l'))"
  using assms by (intro step_okI [where P' = P]) (auto simp: moves_def)

text \<open>Facts on the list that the steps share.\<close>

lemma next_facts:
  assumes "linv l t P" and "a \<in> hdom l" "a \<noteq> t"
  shows "hnext l a \<in> P" "hnext l a \<noteq> ll_head l" "a \<noteq> ll_head l \<Longrightarrow> hkey l a < hkey l (hnext l a)"
  using linvD(2) [OF assms(1)] assms(2,3) by (auto simp: lorder_def)

lemma on_chain:
  assumes "linv l t P" and "a \<in> P" "\<not> hmark l a" "a \<noteq> ll_head l" "a \<noteq> t"
  shows "a \<in> set (ll_chain l)"
  using linvD(4) [OF assms(1,2,3)] assms(4,5) by auto

lemma gap_absent:
  assumes "linv l t P" and "l \<in> seen" and "c \<in> set (ll_head l # ll_chain l)" and "c = ll_head l \<or> hkey l c < k" and "k < hkey l (hnext l c)"
  shows "absent seen k"
  using chain_gap [OF assms(1,3-5)] assms(2) by (auto simp: absent_def)

lemma chain_succ:
  assumes inv: "linv l t P" and c: "c \<in> set (ll_head l # ll_chain l)"
  shows "hnext l c = t \<or> hnext l c \<in> set (ll_chain l)"
proof -
  obtain A B where s: "ll_head l # ll_chain l = A @ c # B" using split_list [OF c] by blast
  have "set B \<subseteq> set (ll_chain l)" using s by (cases A) auto
  then show ?thesis using chain_next [OF inv s] by (cases B) auto
qed

lemma histD:
  assumes "hist_ok t l P seen" and "s \<in> seen"
  shows "ll_head s = ll_head l" "\<exists>Q \<subseteq> P. linv s t Q" "\<And>a. a \<in> hdom s \<Longrightarrow> a \<in> hdom l" "\<And>a. a \<in> hdom s \<Longrightarrow> hkey l a = hkey s a"
    "\<And>b. b \<in> set (ll_chain s) \<Longrightarrow> b \<in> set (ll_chain l) \<or> hmark l b \<and> (\<exists>r \<in> seen. b \<in> set (ll_chain r) \<and> hnext r b = hnext l b)"
    "\<And>b. b \<in> set (ll_chain s) \<Longrightarrow> \<not> hmark s b \<Longrightarrow> hmark l b \<Longrightarrow> \<exists>r \<in> seen. ll_content r (hkey l b) = None"
    "\<And>a. a \<in> hdom s \<Longrightarrow> hval l a = hval s a"
  using assms unfolding hist_ok_def by blast+

lemma was_live_facts:
  assumes h: "hist_ok t l P seen" and w: "was_live seen a"
  shows "present seen (hkey l a)" and "hmark l a \<Longrightarrow> absent seen (hkey l a)"
proof -
  obtain s where s: "s \<in> seen" "a \<in> set (ll_chain s)" "\<not> hmark s a" using w by (auto simp: was_live_def)
  note hs = histD [OF h s(1)]
  obtain Q where Q: "linv s t Q" using hs(2) by blast
  have "hkey l a = hkey s a" by (rule hs(4)) (rule chain_dom [OF Q s(2)])
  moreover have "ll_content s (hkey s a) = Some (hval s a)" using content_iff [OF Q] s by blast
  ultimately show "present seen (hkey l a)" using s(1) by (auto simp: present_def)
  show "hmark l a \<Longrightarrow> absent seen (hkey l a)" using hs(6) [OF s(2,3)] by (auto simp: absent_def)
qed

lemma was_live_value:
  assumes h: "hist_ok t l P seen" and w: "was_live seen a"
  shows "saw_value seen (hkey l a) (hval l a)"
proof -
  obtain s where s: "s \<in> seen" "a \<in> set (ll_chain s)" "\<not> hmark s a" using w by (auto simp: was_live_def)
  note hs = histD [OF h s(1)]
  obtain Q where Q: "linv s t Q" using hs(2) by blast
  have "hkey l a = hkey s a" "hval l a = hval s a" using hs(4,7) chain_dom [OF Q s(2)] by blast+
  moreover have "ll_content s (hkey s a) = Some (hval s a)" using content_iff [OF Q] s by blast
  ultimately show ?thesis using s(1) by (auto simp: saw_value_def)
qed

lemma live_present:
  assumes "linv l t P" and "l \<in> seen" and "a \<in> set (ll_chain l)" "\<not> hmark l a"
  shows "was_live seen a" and "present seen (hkey l a)"
proof -
  show "was_live seen a" using assms(2-4) by (auto simp: was_live_def)
  have "ll_content l (hkey l a) = Some (hval l a)" using content_iff [OF assms(1)] assms(3,4) by blast
  then show "present seen (hkey l a)" using assms(2) by (auto simp: present_def)
qed

lemma frozen_answer:
  assumes "is_upd op" and "l \<in> seen" and "a \<in> hdom l" and "hfrozen l a"
  shows "ans_ok seen op (RInt (- 1)) \<and> op \<noteq> LCollect"
proof -
  have "saw_frozen seen" unfolding saw_frozen_def using assms(2-4) by blast
  then show ?thesis using assms(1) by (cases op) simp_all
qed

section \<open>find\<close>

lemma step_find0:
  assumes inv: "linv l t P" and l: "l \<in> seen" and pc: "pc_ok l t P seen (LFind0 op)"
  shows "step_ok l t P seen (LFind0 op) (l_step (LFind0 op) l)"
proof -
  have up: "is_upd op" using pc by simp
  let ?pc' = "if hfrozen l (ll_head l) then LDone op (RInt (- 1)) else LFind1 op"
  have "l_step (LFind0 op) l = Inr (?pc', l)"
    using head_facts(2) [OF inv] by (simp add: load_dom the_sel hword_parts)
  moreover have "step_ok l t P seen (LFind0 op) (Inr (?pc', l))"
    by (rule stay [OF inv l]) (use up frozen_answer [OF up l head_facts(2) [OF inv]] in auto)
  ultimately show ?thesis by (simp only:)
qed

lemma step_find1:
  assumes inv: "linv l t P" and l: "l \<in> seen" and pc: "pc_ok l t P seen (LFind1 op)"
  shows "step_ok l t P seen (LFind1 op) (l_step (LFind1 op) l)"
proof -
  note hd = head_facts [OF inv]
  note n = next_facts [OF inv hd(2,3)]
  have "l_step (LFind1 op) l = Inr (LFind2 op (ll_head l) (hnext l (ll_head l)), l)"
    using hd(2) by (simp add: load_dom the_sel hword_parts tp_defs)
  moreover have "find_ok l t P seen (lop_key op) (ll_head l) (hnext l (ll_head l))"
    unfolding find_ok_def left_ok_def using hd n gap_absent [OF inv l, of "ll_head l" "lop_key op"] by auto
  ultimately show ?thesis using pc by (simp only:) (intro stay [OF inv l]; simp)
qed

lemma step_found:
  assumes inv: "linv l t P" and l: "l \<in> seen" and up: "is_upd op" and f: "find_ok l t P seen (lop_key op) left right"
    and um: "\<not> hmark l right" and key: "lop_key op \<le> hkey l right"
  shows "step_ok l t P seen (LFind2 op left right) (Inr (l_found op left right (hkey l right) l))"
proof -
  have rP: "right \<in> P" "right \<noteq> ll_head l" using f by (simp_all add: find_ok_def)
  have k: "lop_key op < key_max" using up by (cases op) auto
  have eq: "was_live seen right" "present seen (lop_key op)" if "hkey l right = lop_key op"
  proof -
    have "right \<noteq> t" using that k head_facts(8) [OF inv] by auto
    note ch = on_chain [OF inv rP(1) um rP(2) this]
    show "was_live seen right" "present seen (lop_key op)" using live_present [OF inv l ch um] that by simp_all
  qed
  have ne: "absent seen (lop_key op)" if "hkey l right \<noteq> lop_key op"
    using f that key by (auto simp: find_ok_def)
  show ?thesis
  proof (cases op)
    case (LInsert k v)
    show ?thesis
    proof (cases "hkey l right = k \<or> v = tombstone")
      case True
      then have "l_found op left right (hkey l right) l = (LDone op (RInt 0), l)" using LInsert by simp
      moreover have "ans_ok seen op (RInt 0)" using True eq(2) LInsert by auto
      ultimately show ?thesis using LInsert by (simp only:) (intro stay [OF inv l]; simp)
    next
      case False
      let ?nd = "ll_Node_new k v (clean right)"
      define l' where "l' = snd (ll_alloc ?nd l)"
      have kr: "k < hkey l right" using key False LInsert by auto
      have g: "lgood t l P l' P" and ct: "ll_content l' = ll_content l"
        unfolding l'_def using alloc_good [OF inv, of ?nd right] rP kr by (simp_all add: ll_Node_new_def)
      note al = alloc_sel [OF inv l'_def]
      have run: "l_found op left right (hkey l right) l = (LIns k v left right (ll_brk l), l')"
        using False LInsert by (simp add: l'_def ll_alloc_def)
      have nP: "ll_brk l \<notin> P" using al(7) P_dom [OF inv] by blast
      then have "right \<noteq> ll_brk l" using rP(1) by blast
      then have "pc_ok l' t P (insert l' seen) (LIns k v left right (ll_brk l))"
        using find_mono [OF inv g subset_insertI f] k kr nP LInsert by (simp add: al ll_Node_new_def)
      then have "moves l t P seen (LFind2 op left right) (LIns k v left right (ll_brk l)) l' P"
        using g nP al(6,7) ct LInsert by (simp add: moves_def)
      from step_okI [OF this] show ?thesis by (simp only: run)
    qed
  next
    case (LRemove k)
    show ?thesis
    proof (cases "hkey l right = k")
      case True
      then have "l_found op left right (hkey l right) l = (LRem1 k left right, l)" using LRemove by simp
      moreover have "rem_ok l t P seen k left right" using f True eq(1) k LRemove by (simp add: rem_ok_def)
      ultimately show ?thesis using LRemove by (simp only:) (intro stay [OF inv l]; simp)
    next
      case False
      then have "l_found op left right (hkey l right) l = (LDone op (RInt (- 2)), l)" using LRemove by simp
      moreover have "ans_ok seen op (RInt (- 2))" using False ne LRemove by simp
      ultimately show ?thesis using LRemove by (simp only:) (intro stay [OF inv l]; simp)
    qed
  qed (use up in auto)
qed

lemma step_find2:
  assumes inv: "linv l t P" and l: "l \<in> seen" and pc: "pc_ok l t P seen (LFind2 op left right)"
  shows "step_ok l t P seen (LFind2 op left right) (l_step (LFind2 op left right) l)"
proof -
  have up: "is_upd op" and f: "find_ok l t P seen (lop_key op) left right" using pc by auto
  have rP: "right \<in> P" "right \<noteq> ll_head l" using f by (simp_all add: find_ok_def)
  have rd: "right \<in> hdom l" by (rule P_dom [OF inv rP(1)])
  note run = l_step.simps(4) [of op left right l, unfolded load_dom [OF rd]]
  consider "hfrozen l right" | "\<not> hfrozen l right" "hmark l right" | "\<not> hfrozen l right" "\<not> hmark l right" "lop_key op \<le> hkey l right"
    | "\<not> hfrozen l right" "\<not> hmark l right" "hkey l right < lop_key op" by force
  then show ?thesis
  proof cases
    case 1
    then have "l_step (LFind2 op left right) l = Inr (LDone op (RInt (- 1)), l)" unfolding run by (simp add: hword_parts the_sel Let_def)
    then show ?thesis using frozen_answer [OF up l rd 1] by (simp only:) (intro stay [OF inv l]; simp)
  next
    case 2
    then have "l_step (LFind2 op left right) l = Inr (LFind3 op left right (hword l right), l)" unfolding run by (simp add: hword_parts the_sel Let_def)
    moreover have "right \<noteq> t" using 2 head_facts(9) [OF inv] by blast
    ultimately show ?thesis using up f 2 by (simp only:) (intro stay [OF inv l]; simp add: hword_parts)
  next
    case 3
    then have "l_step (LFind2 op left right) l = Inr (l_found op left right (hkey l right) l)" unfolding run by (simp add: hword_parts the_sel Let_def)
    then show ?thesis using step_found [OF inv l up f 3(2,3)] by (simp only:)
  next
    case 4
    have rt: "right \<noteq> t"
    proof
      assume "right = t"
      then show False using 4(3) head_facts(8) [OF inv] le_key_max [of "lop_key op"] by (simp add: not_le)
    qed
    note n = next_facts [OF inv rd rt]
    have ch: "right \<in> set (ll_head l # ll_chain l)" using on_chain [OF inv rP(1) 4(2) rP(2) rt] by simp
    have "\<not> lop_key op \<le> hkey l right" using 4(3) by simp
    then have run': "l_step (LFind2 op left right) l = Inr (LFind2 op right (hnext l right), l)"
      unfolding run using 4(1,2) by (simp add: hword_parts the_sel Let_def tp_defs)
    have "find_ok l t P seen (lop_key op) right (hnext l right)"
      unfolding find_ok_def left_ok_def using rP rt n(1,2) 4(3) gap_absent [OF inv l ch] by auto
    then show ?thesis using up unfolding run' by (intro stay [OF inv l]) simp_all
  qed
qed

lemma step_find3:
  assumes inv: "linv l t P" and l: "l \<in> seen" and pc: "pc_ok l t P seen (LFind3 op left right rn)"
  shows "step_ok l t P seen (LFind3 op left right rn) (l_step (LFind3 op left right rn) l)"
proof -
  have up: "is_upd op" and f: "find_ok l t P seen (lop_key op) left right" and r: "right \<noteq> t" "hmark l right" "hnext l right = tp_addr rn"
    using pc by auto
  have left: "left \<in> P" "left \<noteq> t" "left = ll_head l \<or> hkey l left < lop_key op" and rP: "right \<in> P" "right \<noteq> ll_head l"
    using f by (simp_all add: find_ok_def left_ok_def)
  have d: "left \<in> hdom l" "right \<in> hdom l" using P_dom [OF inv] left rP by blast+
  show ?thesis
  proof (cases "hword l left = clean right")
    case False
    then have "l_step (LFind3 op left right rn) l = Inr (LFind0 op, l)" using d by (simp add: cas_dom)
    then show ?thesis using up by (simp only:) (intro stay [OF inv l]; simp)
  next
    case True
    define l' where "l' = set_next left (tp_unset_mark rn) l"
    have p: "tp_addr (tp_unset_mark rn) = hnext l right" "\<not> tp_mark (tp_unset_mark rn)" using r(3) by (simp_all add: tp_defs)
    note u = unlink_good [OF inv left(1,2) True r(1,2) p, folded l'_def]
    have run: "l_step (LFind3 op left right rn) l = Inr (LFind2 op left (hnext l right), l')"
      using True d r(3) by (simp add: cas_dom l'_def tp_defs)
    note g' = lgoodD [OF u(1)]
    note n = next_facts [OF inv d(2) r(1)]
    have nl: "hnext l' left = hnext l right" using p(1) by (simp add: l'_def hword_parts)
    have "absent (insert l' seen) (lop_key op)" if "lop_key op < hkey l' (hnext l right)"
      by (rule gap_absent [OF g'(1) insertI1 u(3)]) (use left(3) that nl g'(2,5) d in auto)
    then have "find_ok l' t P (insert l' seen) (lop_key op) left (hnext l right)"
      unfolding find_ok_def left_ok_def using left n(1,2) g'(2,5) d by auto
    then show ?thesis unfolding run using up u(1,2) by (intro stay_write) simp_all
  qed
qed

section \<open>Insertion and removal\<close>

lemma step_ins:
  assumes inv: "linv l t P" and l: "l \<in> seen" and pc: "pc_ok l t P seen (LIns k v left right new)"
  shows "step_ok l t P seen (LIns k v left right new) (l_step (LIns k v left right new) l)"
proof -
  have p: "k < key_max" "find_ok l t P seen k left right" "new \<in> hdom l" "new \<notin> P" "hword l new = clean right" "hkey l new = k" "hval l new = v"
    using pc by auto
  have left: "left \<in> P" "left \<noteq> t" "left = ll_head l \<or> hkey l left < k" using p(2) by (simp_all add: find_ok_def left_ok_def)
  have ld: "left \<in> hdom l" by (rule P_dom [OF inv left(1)])
  show ?thesis
  proof (cases "hword l left = clean right")
    case False
    then have "l_step (LIns k v left right new) l = Inr (LFind0 (LInsert k v), l)" using ld by (simp add: cas_dom)
    then show ?thesis using p(1) by (simp only:) (intro stay [OF inv l]; simp)
  next
    case True
    define l' where "l' = set_next left (clean new) l"
    have "left \<noteq> ll_head l \<Longrightarrow> hkey l left < hkey l new" using left(3) p(6) by auto
    note g = link_good [OF inv left(1,2) True p(3-5) this, folded l'_def, unfolded p(6,7)]
    have run: "l_step (LIns k v left right new) l = Inr (LCount k v, l')" using True ld by (simp add: cas_dom l'_def)
    have "absent (insert l' seen) k" "saw_value (insert l' seen) k v" using g(2,3) l by (auto simp: absent_def saw_value_def)
    then have "moves l t P seen (LIns k v left right new) (LCount k v) l' (insert new P)" using g by (auto simp: moves_def)
    from step_okI [OF this] show ?thesis unfolding run .
  qed
qed

lemma step_count:
  assumes inv: "linv l t P" and l: "l \<in> seen" and pc: "pc_ok l t P seen (LCount k v)"
  shows "step_ok l t P seen (LCount k v) (l_step (LCount k v) l)"
  using count_good [OF inv, of "ll_count l + 1"] pc seen_mono [OF subset_insertI [of seen]]
  by (simp only: l_step.simps) (intro stay_write; simp)

lemma rem_facts:
  assumes inv: "linv l t P" and h: "hist_ok t l P seen" and r: "rem_ok l t P seen k left right"
  shows "k < key_max" "left \<in> P" "left \<noteq> t" "left \<in> hdom l" "right \<in> P" "right \<in> hdom l" "right \<noteq> ll_head l" "right \<noteq> t" "hkey l right = k"
    "present seen k" "hmark l right \<Longrightarrow> absent seen k"
proof -
  show a: "k < key_max" "left \<in> P" "left \<noteq> t" "right \<in> P" "right \<noteq> ll_head l" "hkey l right = k"
    using r by (auto simp: rem_ok_def find_ok_def left_ok_def)
  show "left \<in> hdom l" "right \<in> hdom l" using P_dom [OF inv] a by blast+
  show "right \<noteq> t" using a(1,6) head_facts(8) [OF inv] by auto
  have "was_live seen right" using r by (simp add: rem_ok_def)
  from was_live_facts [OF h this] show "present seen k" "hmark l right \<Longrightarrow> absent seen k" unfolding a(6) by blast+
qed

lemma step_rem1:
  assumes inv: "linv l t P" and h: "hist_ok t l P seen" and l: "l \<in> seen" and pc: "pc_ok l t P seen (LRem1 k left right)"
  shows "step_ok l t P seen (LRem1 k left right) (l_step (LRem1 k left right) l)"
proof -
  have r: "rem_ok l t P seen k left right" using pc by simp
  note f = rem_facts [OF inv h r]
  let ?pc' = "if hmark l right then LRem3 k left right (hword l right) else LRem2 k left right (hword l right)"
  have "l_step (LRem1 k left right) l = Inr (?pc', l)" using f(6) by (simp add: load_dom the_sel hword_parts)
  moreover have "step_ok l t P seen (LRem1 k left right) (Inr (?pc', l))"
    by (rule stay [OF inv l]) (use r f(11) in \<open>auto simp: hword_parts\<close>)
  ultimately show ?thesis by (simp only:)
qed

lemma rem_mono:
  assumes inv: "linv l t P" and g: "lgood t l P l' P'" and r: "rem_ok l t P seen k left right"
  shows "rem_ok l' t P' (insert l' seen) k left right"
proof -
  have f: "find_ok l t P seen k left right" "right \<in> P" using r by (simp_all add: rem_ok_def find_ok_def)
  have "hkey l' right = hkey l right" by (rule lgoodD(5) [OF g P_dom [OF inv f(2)]])
  then show ?thesis using r find_mono [OF inv g subset_insertI f(1)] seen_mono(3) [OF subset_insertI] by (simp add: rem_ok_def)
qed

lemma step_rem2:
  assumes inv: "linv l t P" and h: "hist_ok t l P seen" and l: "l \<in> seen" and pc: "pc_ok l t P seen (LRem2 k left right rn)"
  shows "step_ok l t P seen (LRem2 k left right rn) (l_step (LRem2 k left right rn) l)"
proof -
  have r: "rem_ok l t P seen k left right" "\<not> tp_mark rn" using pc by simp_all
  note f = rem_facts [OF inv h r(1)]
  show ?thesis
  proof (cases "hword l right = rn")
    case False
    then have "l_step (LRem2 k left right rn) l = Inr (LFind0 (LRemove k), l)" using f(6) by (simp add: cas_dom)
    then show ?thesis using f(1) by (simp only:) (intro stay [OF inv l]; simp)
  next
    case True
    define l' where "l' = set_next right (tp_set_mark rn) l"
    have "\<not> hmark l right" using True r(2) by (simp add: hword_parts)
    note g = mark_good [OF inv f(5,8,7) this, unfolded True, folded l'_def, unfolded f(9)]
    have run: "l_step (LRem2 k left right rn) l = Inr (LRem3 k left right rn, l')" using True f(6) by (simp add: cas_dom l'_def)
    have "hmark l' right" "hnext l' right = tp_addr rn" by (simp_all add: l'_def hword_parts tp_defs)
    moreover have "absent (insert l' seen) k" using g(2) by (simp add: absent_def)
    ultimately show ?thesis unfolding run using g rem_mono [OF inv g(1) r(1)] by (intro stay_write) simp_all
  qed
qed

lemma step_rem3:
  assumes inv: "linv l t P" and h: "hist_ok t l P seen" and l: "l \<in> seen" and pc: "pc_ok l t P seen (LRem3 k left right rn)"
  shows "step_ok l t P seen (LRem3 k left right rn) (l_step (LRem3 k left right rn) l)"
proof -
  have r: "rem_ok l t P seen k left right" "hmark l right" "hnext l right = tp_addr rn" "absent seen k" using pc by simp_all
  note f = rem_facts [OF inv h r(1)]
  have "was_live seen right" using r(1) by (simp add: rem_ok_def)
  then have tk: "took seen k (to_int32 (hval l right))" using was_live_value [OF h] f(9) by (auto simp: took_def)
  note run = l_step.simps(10) [of k left right rn l]
  show ?thesis
  proof (cases "hword l left = clean right")
    case True
    define l' where "l' = set_next left (tp_unset_mark rn) l"
    have p: "tp_addr (tp_unset_mark rn) = hnext l right" "\<not> tp_mark (tp_unset_mark rn)" using r(3) by (simp_all add: tp_defs)
    note u = unlink_good [OF inv f(2,3) True f(8) r(2) p, folded l'_def]
    have "l_step (LRem3 k left right rn) l = Inr (LDone (LRemove k) (RInt (to_int32 (hval l right))), l')"
      unfolding run using True f(4,6) by (simp add: load_dom the_sel cas_dom l'_def)
    moreover have "ans_ok (insert l' seen) (LRemove k) (RInt (to_int32 (hval l right)))"
      by (rule ans_mono [OF _ subset_insertI]) (use f(10) r(4) tk in simp)
    ultimately show ?thesis using u(1,2) by (simp only:) (intro stay_write; simp)
  next
    case False
    have lf: "left = ll_head l \<or> hkey l left < k" using r(1) by (simp add: rem_ok_def find_ok_def left_ok_def)
    note n = next_facts [OF inv f(4,3)]
    have nd: "tp_addr (hword l left) \<in> hdom l" using P_dom [OF inv n(1)] by (simp add: hword_parts)
    show ?thesis
    proof (cases "tp_mark (hword l left) \<or> tp_freeze (hword l left)")
      case True
      then have "l_step (LRem3 k left right rn) l = Inl NullDeref"
        unfolding run using False f(4,6) by (simp add: load_dom the_sel cas_dom ll_load_expected_def Let_def)
      then show ?thesis using True by (auto simp: step_ok_def hword_parts)
    next
      case False': False
      then have "l_step (LRem3 k left right rn) l = Inr (LDone (LRemove k) (RInt (to_int32 (hval l (tp_addr (hword l left))))), l)"
        unfolding run using False f(4,6) nd by (simp add: load_dom the_sel cas_dom ll_load_expected_def Let_def)
      moreover have "misread seen k (to_int32 (hval l (tp_addr (hword l left))))"
        unfolding misread_def using l f(4) lf False' nd by (intro bexI [of _ l] bexI [of _ left]) (simp_all add: hword_parts)
      ultimately show ?thesis using f(10) r(4) by (simp only:) (intro stay [OF inv l]; simp)
    qed
  qed
qed

section \<open>Search\<close>

lemma srch_dom:
  assumes inv: "linv l t P" and h: "hist_ok t l P seen" and pc: "pc_ok l t P seen (LSrch k cur)"
  shows "cur \<in> hdom l"
proof -
  consider "cur = t" | "cur = ll_head l" | s where "s \<in> seen" "cur \<in> set (ll_chain s)" using pc by auto
  then show ?thesis
  proof cases
    case (3 s)
    note hs = histD [OF h 3(1)]
    obtain Q where "linv s t Q" using hs(2) by blast
    then show ?thesis using hs(3) chain_dom 3(2) by blast
  qed (simp_all add: head_facts [OF inv])
qed

text \<open>The next node of one that was on the chain at some moment of the operation was on it too, and no key
  between them was.\<close>

lemma srch_next:
  assumes inv: "linv l t P" and h: "hist_ok t l P seen" and l: "l \<in> seen"
    and cur: "cur = ll_head l \<or> (\<exists>s \<in> seen. cur \<in> set (ll_chain s))" and key: "cur = ll_head l \<or> hkey l cur < k"
  shows "hnext l cur = t \<or> (\<exists>s \<in> seen. hnext l cur \<in> set (ll_chain s))" and "k < hkey l (hnext l cur) \<Longrightarrow> absent seen k"
proof -
  have "\<exists>s \<in> seen. \<exists>Q. linv s t Q \<and> cur \<in> set (ll_head s # ll_chain s) \<and> hnext s cur = hnext l cur"
  proof (cases "cur = ll_head l \<or> cur \<in> set (ll_chain l)")
    case True
    then show ?thesis using l inv by auto
  next
    case False
    then obtain s where s: "s \<in> seen" "cur \<in> set (ll_chain s)" using cur by blast
    then obtain r where r: "r \<in> seen" "cur \<in> set (ll_chain r)" "hnext r cur = hnext l cur" using histD(5) [OF h s] False by blast
    then show ?thesis using histD(2) [OF h r(1)] by auto
  qed
  then obtain s Q where s: "s \<in> seen" "linv s t Q" "cur \<in> set (ll_head s # ll_chain s)" "hnext s cur = hnext l cur" by blast
  note hs = histD [OF h s(1)]
  have succ: "hnext l cur = t \<or> hnext l cur \<in> set (ll_chain s)" using chain_succ [OF s(2,3)] s(4) by simp
  then show "hnext l cur = t \<or> (\<exists>s \<in> seen. hnext l cur \<in> set (ll_chain s))" using s(1) by blast
  have cd: "cur \<in> hdom s" using s(3) chain_dom [OF s(2)] head_facts(2) [OF s(2)] by auto
  have nd: "hnext l cur \<in> hdom s" using succ chain_dom [OF s(2)] head_facts(7) [OF s(2)] by auto
  have eq: "hkey s cur = hkey l cur" "hkey s (hnext l cur) = hkey l (hnext l cur)" using hs(4) [OF cd] hs(4) [OF nd] by simp_all
  show "absent seen k" if "k < hkey l (hnext l cur)"
    by (rule gap_absent [OF s(2,1,3)]) (use key that eq s(4) hs(1) in auto)
qed

lemma srch_mark:
  assumes inv: "linv l t P" and h: "hist_ok t l P seen" and l: "l \<in> seen" and s: "s \<in> seen" "cur \<in> set (ll_chain s)" and key: "hkey l cur = k"
  shows "if hmark l cur then absent seen k else present seen k"
proof -
  note hs = histD [OF h s(1)]
  obtain Q where Q: "linv s t Q" using hs(2) by blast
  have k: "hkey s cur = k" using hs(4) [OF chain_dom [OF Q s(2)]] key by simp
  show ?thesis
  proof (cases "hmark l cur")
    case False
    then have "cur \<in> set (ll_chain l)" using hs(5) [OF s(2)] by blast
    from live_present(2) [OF inv l this False] show ?thesis using False key by simp
  next
    case True
    have "absent seen k"
    proof (cases "hmark s cur")
      case True
      have "hmark s a" if a: "a \<in> set (ll_chain s)" "hkey s a = k" for a
      proof -
        have "a = cur" by (rule chain_inj [OF Q a(1) s(2)]) (simp add: a(2) k)
        then show ?thesis using True by simp
      qed
      then have "ll_content s k = None" using content_none [OF Q] by blast
      then show ?thesis using s(1) by (auto simp: absent_def)
    next
      case False
      then show ?thesis using hs(6) [OF s(2) False True] key by (auto simp: absent_def)
    qed
    then show ?thesis using True by simp
  qed
qed

lemma step_srch:
  assumes inv: "linv l t P" and h: "hist_ok t l P seen" and l: "l \<in> seen" and pc: "pc_ok l t P seen (LSrch k cur)"
  shows "step_ok l t P seen (LSrch k cur) (l_step (LSrch k cur) l)"
proof -
  have p: "0 < k" "k < key_max" "k < hkey l cur \<Longrightarrow> absent seen k" "cur = t \<or> cur = ll_head l \<or> (\<exists>s \<in> seen. cur \<in> set (ll_chain s))"
    using pc by auto
  note hd = head_facts [OF inv]
  have d: "cur \<in> hdom l" by (rule srch_dom [OF inv h pc])
  show ?thesis
  proof (cases "hkey l cur < k")
    case True
    have "cur \<noteq> t" using True hd(8) le_key_max [of k] by (auto simp: not_le [symmetric])
    then have "cur = ll_head l \<or> (\<exists>s \<in> seen. cur \<in> set (ll_chain s))" using p(4) by blast
    note n = srch_next [OF inv h l this disjI2 [OF True]]
    have "l_step (LSrch k cur) l = Inr (LSrch k (hnext l cur), l)" using True d by (simp add: load_dom the_sel hword_parts tp_defs)
    then show ?thesis using p(1,2) n by (simp only:) (intro stay [OF inv l]; auto)
  next
    case False
    let ?b = "hkey l cur = k \<and> \<not> hmark l cur"
    have run: "l_step (LSrch k cur) l = Inr (LDone (LSearch k) (RBool ?b), l)" using False d by (simp add: load_dom the_sel hword_parts)
    have "ans_ok seen (LSearch k) (RBool ?b)"
    proof (cases "hkey l cur = k")
      case True
      then have "cur \<noteq> t" "cur \<noteq> ll_head l" using p(1,2) hd(5,8) by auto
      then obtain s where "s \<in> seen" "cur \<in> set (ll_chain s)" using p(4) by blast
      from srch_mark [OF inv h l this True] show ?thesis using True by auto
    next
      case False': False
      then have "k < hkey l cur" using False by auto
      then show ?thesis using p(3) False' by simp
    qed
    then show ?thesis unfolding run by (intro stay [OF inv l]) simp_all
  qed
qed

section \<open>collect\<close>

text \<open>A finished collection.\<close>

lemma butlast_pairs:
  assumes inv: "linv l t P"
  shows "map (next_pair l) (ll_head l # ll_chain l) = map (\<lambda>a. (hkey l a, hval l a)) (ll_chain l @ [t])"
proof -
  have "map (hnext l) xs = ys @ [t]" if "lpath l a xs t" "xs = a # ys" for a xs ys
    using that
  proof (induction xs arbitrary: a ys)
    case (Cons b bs)
    then have b: "lpath l (hnext l b) bs t" "ys = bs" by auto
    note IH = Cons.IH [OF b(1)]
    show ?case
    proof (cases bs)
      case Nil
      then show ?thesis using b by simp
    next
      case (Cons c cs)
      then have c: "bs = hnext l b # cs" "hnext l b = c" using b(1) by simp_all
      from IH [OF c(1)] show ?thesis using b(2) Cons c(2) by simp
    qed
  qed simp
  from this [OF linvD(3) [OF inv] refl] show ?thesis
    by (metis (no_types, lifting) comp_def list.map_comp map_eq_conv next_pair_def)
qed

lemma closed_col:
  assumes inv: "linv l t P" and c: "col_ok l t t acc"
  shows "ll_closed l" and "pairs_ok l (ll_head l # ll_chain l) acc"
proof -
  obtain A B where s: "ll_head l # ll_chain l = A @ B" "\<forall>a \<in> set A. hfrozen l a" "pairs_ok l A acc" "t = (case B of [] \<Rightarrow> t | b # _ \<Rightarrow> b)"
    using c by (auto simp: col_ok_def)
  have "t \<notin> set (ll_head l # ll_chain l)" using head_facts(3) [OF inv] linvD(7) [OF inv] by auto
  then have "B = []" using s(4) unfolding s(1) by (cases B) auto
  then show "ll_closed l" "pairs_ok l (ll_head l # ll_chain l) acc" using s by (simp_all add: ll_closed_def list_all_iff)
qed

lemma no_marks_pairs:
  assumes inv: "linv l t P" and c: "col_ok l t t acc" and um: "\<forall>a \<in> set (ll_chain l). \<not> hmark l a"
  shows "butlast acc = map (\<lambda>a. (hkey l a, hval l a)) (ll_chain l)"
proof -
  obtain C where C: "subseq C (ll_head l # ll_chain l)" "\<forall>a \<in> set (ll_head l # ll_chain l). \<not> hmark l a \<longrightarrow> a \<in> set C" "acc = map (next_pair l) C"
    using closed_col(2) [OF inv c] by (auto simp: pairs_ok_def)
  have "distinct (map (hkey l) (ll_chain l @ [t]))" using linvD(5) [OF inv] strict_sorted_iff by blast
  then have d: "distinct (ll_head l # ll_chain l)" using linvD(6) [OF inv] by (auto simp: distinct_map)
  have "set (ll_head l # ll_chain l) \<subseteq> set C" using C(2) um head_facts(4) [OF inv] by auto
  then have "card (set (ll_head l # ll_chain l)) \<le> card (set C)" by (intro card_mono) auto
  then have "length (ll_head l # ll_chain l) \<le> length C" using distinct_card [OF d] card_length [of C] by simp
  then have "C = ll_head l # ll_chain l" using subseq_same_length [OF C(1)] list_emb_length [OF C(1)] by simp
  then show ?thesis using C(3) butlast_pairs [OF inv] by simp
qed

lemma collected_on_chain:
  assumes inv: "linv l t P" and c: "col_ok l t t acc"
  shows "set (butlast acc) \<subseteq> (\<lambda>a. (hkey l a, hval l a)) ` set (ll_chain l)"
proof -
  obtain C where C: "subseq C (ll_head l # ll_chain l)" "acc = map (next_pair l) C"
    using closed_col(2) [OF inv c] by (auto simp: pairs_ok_def)
  have "subseq acc (map (\<lambda>a. (hkey l a, hval l a)) (ll_chain l @ [t]))"
    using subseq_map [OF C(1), of "next_pair l"] unfolding C(2) butlast_pairs [OF inv] .
  then have "subseq acc (map (\<lambda>a. (hkey l a, hval l a)) (ll_chain l) @ [(hkey l t, hval l t)])" by simp
  then obtain xs ys where xy: "acc = xs @ ys" "subseq xs (map (\<lambda>a. (hkey l a, hval l a)) (ll_chain l))" "subseq ys [(hkey l t, hval l t)]"
    by (rule subseq_appendE)
  have "length ys \<le> 1" using list_emb_length [OF xy(3)] by simp
  then have "set (butlast acc) \<subseteq> set xs" using xy(1) by (cases ys) (auto simp: butlast_append dest: in_set_butlastD)
  moreover have "set xs \<subseteq> set (map (\<lambda>a. (hkey l a, hval l a)) (ll_chain l))" using list_emb_set [OF xy(2)] by blast
  ultimately show ?thesis unfolding set_map by blast
qed

lemma collected_done:
  assumes inv: "linv l t P" and l: "l \<in> seen" and c: "col_ok l t t acc"
  shows "collected seen (butlast acc)"
proof -
  have "map_of (butlast acc) = ll_content l \<and> sorted_wrt (<) (map fst (butlast acc))" if "list_all (\<lambda>a. \<not> hmark l a) (ll_chain l)"
  proof -
    have um: "\<forall>a \<in> set (ll_chain l). \<not> hmark l a" using that by (simp add: list_all_iff)
    then have "filter (\<lambda>a. \<not> hmark l a) (ll_chain l) = ll_chain l" by simp
    then show ?thesis using linvD(5) [OF inv] unfolding no_marks_pairs [OF inv c um] ll_content_def by (simp add: comp_def sorted_wrt_append)
  qed
  then show ?thesis unfolding collected_def using l closed_col(1) [OF inv c] collected_on_chain [OF inv c] by blast
qed

lemma step_col1:
  assumes inv: "linv l t P" and l: "l \<in> seen" and pc: "pc_ok l t P seen (LCol1 left acc)"
  shows "step_ok l t P seen (LCol1 left acc) (l_step (LCol1 left acc) l)"
proof -
  have c: "col_ok l t left acc" "left = ll_head l \<or> acc \<noteq> []" using pc by simp_all
  have d: "left \<in> hdom l" by (rule P_dom [OF inv col_P [OF inv c(1)]])
  note hd = head_facts [OF inv]
  show ?thesis
  proof (cases "left = t")
    case True
    then have "acc \<noteq> []" using c(2) hd(3) by auto
    then have run: "l_step (LCol1 left acc) l = Inr (LDone LCollect (RList (butlast acc)), l)"
      using True d hd(10) by (simp add: load_dom the_sel tp_defs)
    moreover have cd: "col_ok l t t acc" using c(1) True by simp
    ultimately show ?thesis unfolding run using collected_done [OF inv l cd] by (intro stay [OF inv l]) auto
  next
    case False
    have "hnext l left \<noteq> 0" using P_dom [OF inv next_facts(1) [OF inv d False]] hd(11) by metis
    then have "l_step (LCol1 left acc) l = Inr (LCol2 left acc, l)" using d by (simp add: load_dom the_sel tp_true_def hword_parts)
    then show ?thesis using c False by (simp only:) (intro stay [OF inv l]; simp)
  qed
qed

lemma step_col23:
  assumes inv: "linv l t P" and l: "l \<in> seen" and c: "col_ok l t left acc" "left \<noteq> t" "left = ll_head l \<or> acc \<noteq> []"
  shows "step_ok l t P seen (LCol2 left acc) (l_step (LCol2 left acc) l)" and "step_ok l t P seen (LCol3 left acc) (l_step (LCol3 left acc) l)"
proof -
  have d: "left \<in> hdom l" by (rule P_dom [OF inv col_P [OF inv c(1)]])
  let ?pc' = "if hfrozen l left then LCol5 left acc else LCol3 left acc"
  have "l_step (LCol2 left acc) l = Inr (?pc', l)" using d by (simp add: load_dom the_sel hword_parts)
  moreover have "step_ok l t P seen (LCol2 left acc) (Inr (?pc', l))" by (rule stay [OF inv l]) (use c in auto)
  ultimately show "step_ok l t P seen (LCol2 left acc) (l_step (LCol2 left acc) l)" by (simp only:)
  have "l_step (LCol3 left acc) l = Inr (LCol4 left (hword l left) acc, l)" using d by (simp add: load_dom the_sel)
  then show "step_ok l t P seen (LCol3 left acc) (l_step (LCol3 left acc) l)" using c by (simp only:) (intro stay [OF inv l]; simp)
qed

lemma step_col4:
  assumes inv: "linv l t P" and l: "l \<in> seen" and pc: "pc_ok l t P seen (LCol4 left cn acc)"
  shows "step_ok l t P seen (LCol4 left cn acc) (l_step (LCol4 left cn acc) l)"
proof -
  have c: "col_ok l t left acc" "left \<noteq> t" "left = ll_head l \<or> acc \<noteq> []" using pc by simp_all
  have P: "left \<in> P" by (rule col_P [OF inv c(1)])
  then have d: "left \<in> hdom l" by (rule P_dom [OF inv])
  show ?thesis
  proof (cases "hword l left = cn")
    case True
    define l' where "l' = set_next left (tp_set_freeze cn) l"
    note g = freeze_good [OF inv P c(2), unfolded True, folded l'_def]
    have run: "l_step (LCol4 left cn acc) l = Inr (LCol5 left acc, l')" using True d by (simp add: cas_dom l'_def)
    have "hfrozen l' left" by (simp add: l'_def hword_parts tp_defs)
    then show ?thesis unfolding run using g c col_mono [OF inv g(1) c(1)] lgoodD(2) [OF g(1)] by (intro stay_write) simp_all
  next
    case False
    then have "l_step (LCol4 left cn acc) l = Inr (LCol3 left acc, l)" using d by (simp add: cas_dom)
    then show ?thesis using c by (simp only:) (intro stay [OF inv l]; simp)
  qed
qed

lemma pairs_snoc:
  assumes "pairs_ok l A acc"
  shows "pairs_ok l (A @ [a]) (if hmark l a then acc else acc @ [next_pair l a])"
proof -
  obtain C where C: "subseq C A" "\<forall>a \<in> set A. \<not> hmark l a \<longrightarrow> a \<in> set C" "acc = map (next_pair l) C"
    using assms by (auto simp: pairs_ok_def)
  show ?thesis
  proof (cases "hmark l a")
    case True
    then show ?thesis unfolding pairs_ok_def using C by (intro exI [of _ C]) auto
  next
    case False
    then show ?thesis unfolding pairs_ok_def using C by (intro exI [of _ "C @ [a]"]) (auto intro: list_emb_append_mono)
  qed
qed

lemma step_col5:
  assumes inv: "linv l t P" and l: "l \<in> seen" and pc: "pc_ok l t P seen (LCol5 left acc)"
  shows "step_ok l t P seen (LCol5 left acc) (l_step (LCol5 left acc) l)"
proof -
  have c: "col_ok l t left acc" "left \<noteq> t" "left = ll_head l \<or> acc \<noteq> []" "hfrozen l left" using pc by simp_all
  have d: "left \<in> hdom l" by (rule P_dom [OF inv col_P [OF inv c(1)]])
  note hd = head_facts [OF inv]
  have nd: "hnext l left \<in> hdom l" by (rule P_dom [OF inv next_facts(1) [OF inv d c(2)]])
  let ?acc = "if hmark l left then acc else acc @ [next_pair l left]"
  have run: "l_step (LCol5 left acc) l = Inr (LCol1 (hnext l left) ?acc, l)"
    using d nd by (simp add: load_dom the_sel hword_parts tp_defs Let_def next_pair_def)
  obtain A B where s: "ll_head l # ll_chain l = A @ B" "\<forall>a \<in> set A. hfrozen l a" "left = (case B of [] \<Rightarrow> t | b # _ \<Rightarrow> b)" "pairs_ok l A acc"
    using c(1) by (auto simp: col_ok_def)
  then obtain B0 where B: "B = left # B0" using c(2) by (cases B) auto
  have "hnext l left = (case B0 of [] \<Rightarrow> t | b # _ \<Rightarrow> b)" using chain_next [OF inv, of A left B0] s(1) B by simp
  moreover have "pairs_ok l (A @ [left]) ?acc" by (rule pairs_snoc [OF s(4)])
  ultimately have "col_ok l t (hnext l left) ?acc"
    unfolding col_ok_def using s(1,2) B c(4) by (intro exI [of _ "A @ [left]"] exI [of _ B0]) auto
  moreover have "?acc \<noteq> []" using c(3) hd(4) by auto
  ultimately show ?thesis unfolding run by (intro stay [OF inv l]) simp_all
qed

text \<open>One step of a thread from a point where it knows what it should.\<close>

lemma step_thread:
  assumes inv: "linv l t P" and h: "hist_ok t l P seen" and l: "l \<in> seen" and pc: "pc_ok l t P seen pc" and busy: "pc \<noteq> LIdle"
  shows "step_ok l t P seen pc (l_step pc l)"
proof (cases pc)
  case LIdle
  then show ?thesis using busy by blast
next
  case (LDone op r)
  then show ?thesis using pc by (simp only: l_step.simps) (intro stay [OF inv l]; simp)
next
  case (LCol2 left acc)
  then show ?thesis using pc step_col23(1) [OF inv l] by simp
next
  case (LCol3 left acc)
  then show ?thesis using pc step_col23(2) [OF inv l] by simp
next
  case (LFind0 op)
  show ?thesis unfolding LFind0 by (rule step_find0 [OF inv l]) (rule pc [unfolded LFind0])
next
  case (LFind1 op)
  show ?thesis unfolding LFind1 by (rule step_find1 [OF inv l]) (rule pc [unfolded LFind1])
next
  case (LFind2 op left right)
  show ?thesis unfolding LFind2 by (rule step_find2 [OF inv l]) (rule pc [unfolded LFind2])
next
  case (LFind3 op left right rn)
  show ?thesis unfolding LFind3 by (rule step_find3 [OF inv l]) (rule pc [unfolded LFind3])
next
  case (LIns k v left right new)
  show ?thesis unfolding LIns by (rule step_ins [OF inv l]) (rule pc [unfolded LIns])
next
  case (LCount k v)
  show ?thesis unfolding LCount by (rule step_count [OF inv l]) (rule pc [unfolded LCount])
next
  case (LRem1 k left right)
  show ?thesis unfolding LRem1 by (rule step_rem1 [OF inv h l]) (rule pc [unfolded LRem1])
next
  case (LRem2 k left right rn)
  show ?thesis unfolding LRem2 by (rule step_rem2 [OF inv h l]) (rule pc [unfolded LRem2])
next
  case (LRem3 k left right rn)
  show ?thesis unfolding LRem3 by (rule step_rem3 [OF inv h l]) (rule pc [unfolded LRem3])
next
  case (LSrch k cur)
  show ?thesis unfolding LSrch by (rule step_srch [OF inv h l]) (rule pc [unfolded LSrch])
next
  case (LCol1 left acc)
  show ?thesis unfolding LCol1 by (rule step_col1 [OF inv l]) (rule pc [unfolded LCol1])
next
  case (LCol4 left cn acc)
  show ?thesis unfolding LCol4 by (rule step_col4 [OF inv l]) (rule pc [unfolded LCol4])
next
  case (LCol5 left acc)
  show ?thesis unfolding LCol5 by (rule step_col5 [OF inv l]) (rule pc [unfolded LCol5])
qed

end
