(* ===== verification/LF_LL_Conc_Correct.thy ===== *)
theory LF_LL_Conc_Correct
  imports LF_LL_Conc_Step
begin

text \<open>
  The invariant of every reachable state of the list under interleaving, and the properties of the list:
  which steps change its content, that answers were true at some moment of the operation, what a collection
  gathers, that no thread reads outside the store but in one place, and from which states two
  removals take one key, or a removal takes a key out of a list that has been collected.
\<close>

section \<open>The invariant of reachable states\<close>

definition threads_ok :: "lsys \<Rightarrow> addr \<Rightarrow> addr set \<Rightarrow> bool" where
  "threads_ok s t P \<longleftrightarrow> (\<forall>i. sl_pc s i \<noteq> LIdle \<longrightarrow>
     sl_list s \<in> sl_seen s i \<and> hist_ok t (sl_list s) P (sl_seen s i) \<and> pc_ok (sl_list s) t P (sl_seen s i) (sl_pc s i))"

definition owns_ok :: "lsys \<Rightarrow> addr set \<Rightarrow> bool" where
  "owns_ok s P \<longleftrightarrow> (\<forall>i. own_node (sl_pc s i) \<subseteq> hdom (sl_list s) - P)
     \<and> (\<forall>i j. i \<noteq> j \<longrightarrow> own_node (sl_pc s i) \<inter> own_node (sl_pc s j) = {})"

definition sinv :: "lsys \<Rightarrow> addr \<Rightarrow> addr set \<Rightarrow> bool" where
  "sinv s t P \<longleftrightarrow> linv (sl_list s) t P \<and> threads_ok s t P \<and> owns_ok s P"

lemma init_list:
  "linv (Linked_List_new c0) 1 {1, 2}" "ll_chain (Linked_List_new c0) = []" "ll_head (Linked_List_new c0) = 2"
proof -
  let ?l = "Linked_List_new c0"
  have h: "ll_head ?l = 2" "ll_brk ?l = 3" "hdom ?l = {1, 2}" "hkey ?l 1 = key_max" "hkey ?l 2 = 0" "hword ?l 1 = null_ptr" "hword ?l 2 = clean 1"
    by (auto simp: Linked_List_new_def ll_alloc_def ll_Node_new_def hkey_def hword_def Let_def)
  have "lbase ?l 1 {1, 2}" using h by (auto simp: lbase_def hword_parts)
  moreover have "lorder ?l 1 {1, 2}" using h by (auto simp: lorder_def hword_parts)
  moreover have "lpath ?l (ll_head ?l) [ll_head ?l] 1" unfolding h(1) using h(3,7) by (simp add: hword_parts)
  ultimately have "linv ?l 1 {1, 2} \<and> ll_chain ?l = []" by (intro linvI) (use h(1) in auto)
  then show "linv ?l 1 {1, 2}" "ll_chain ?l = []" "ll_head ?l = 2" using h(1) by blast+
qed

lemma sinv_init: "sinv (lsys_init c0) 1 {1, 2}"
  by (simp add: sinv_def threads_ok_def owns_ok_def lsys_init_def init_list(1) [unfolded One_nat_def])

lemma start_ok:
  assumes inv: "linv l t P" and ok: "lop_ok op"
  shows "pc_ok l t P {l} (l_start op l)" and "own_node (l_start op l) = {}" and "pc_op (l_start op l) = Some op"
proof -
  have "col_ok l t (ll_head l) []"
    unfolding col_ok_def pairs_ok_def by (intro exI [of _ "[]"] exI [of _ "ll_head l # ll_chain l"]) auto
  then show "pc_ok l t P {l} (l_start op l)" using ok head_facts(5) [OF inv] by (cases op) auto
  show "own_node (l_start op l) = {}" "pc_op (l_start op l) = Some op" by (cases op; simp)+
qed

lemma sinv_call:
  assumes s: "sinv s t P" and op: "lop_ok op"
  shows "sinv (s\<lparr>sl_pc := (sl_pc s)(i := l_start op (sl_list s)), sl_seen := (sl_seen s)(i := {sl_list s})\<rparr>) t P"
proof -
  have inv: "linv (sl_list s) t P" and th: "threads_ok s t P" and ow: "owns_ok s P" using s by (simp_all add: sinv_def)
  note st = start_ok [OF inv op]
  show ?thesis unfolding sinv_def
  proof (intro conjI)
    show "threads_ok (s\<lparr>sl_pc := (sl_pc s)(i := l_start op (sl_list s)), sl_seen := (sl_seen s)(i := {sl_list s})\<rparr>) t P"
      using th st(1) hist_init [OF inv] by (simp add: threads_ok_def)
    show "owns_ok (s\<lparr>sl_pc := (sl_pc s)(i := l_start op (sl_list s)), sl_seen := (sl_seen s)(i := {sl_list s})\<rparr>) P"
      using ow st(2) by (simp add: owns_ok_def)
  qed (use inv in simp)
qed

lemma sinv_ret: "sinv s t P \<Longrightarrow> sinv (s\<lparr>sl_pc := (sl_pc s)(i := LIdle)\<rparr>) t P"
  by (simp add: sinv_def threads_ok_def owns_ok_def)

text \<open>A step of thread \<open>i\<close>.\<close>

definition thread_moves :: "lsys \<Rightarrow> addr \<Rightarrow> addr set \<Rightarrow> nat \<Rightarrow> lpc \<Rightarrow> Linked_List \<Rightarrow> addr set \<Rightarrow> bool" where
  "thread_moves s t P i pc' l' P' \<longleftrightarrow> moves (sl_list s) t P (sl_seen s i) (sl_pc s i) pc' l' P'"

lemma busy_moves:
  assumes s: "sinv s t P" and run: "l_step (sl_pc s i) (sl_list s) = Inr (pc', l')" and busy: "sl_pc s i \<noteq> LIdle"
  shows "\<exists>P'. thread_moves s t P i pc' l' P'"
proof -
  have "step_ok (sl_list s) t P (sl_seen s i) (sl_pc s i) (l_step (sl_pc s i) (sl_list s))"
    using s busy by (intro step_thread) (auto simp: sinv_def threads_ok_def)
  then show ?thesis unfolding run by (auto simp: step_ok_def thread_moves_def)
qed

lemma idle_step: "l_step (sl_pc s i) (sl_list s) = Inr (pc', l') \<Longrightarrow> sl_pc s i = LIdle \<Longrightarrow> pc' = LIdle \<and> l' = sl_list s"
  by simp

lemma sinv_moves:
  assumes s: "sinv s t P" and busy: "sl_pc s i \<noteq> LIdle" and mv: "thread_moves s t P i pc' l' P'"
  shows "sinv (s\<lparr>sl_list := l', sl_pc := (sl_pc s)(i := pc'), sl_seen := (\<lambda>j. insert l' (sl_seen s j))\<rparr>) t P'"
proof -
  have inv: "linv (sl_list s) t P" and th: "threads_ok s t P" and ow: "owns_ok s P" using s by (simp_all add: sinv_def)
  have m: "lgood t (sl_list s) P l' P'" "pc_ok l' t P' (insert l' (sl_seen s i)) pc'" "P' \<subseteq> P \<union> own_node (sl_pc s i)"
    "own_node pc' \<inter> P' = {}" "own_node pc' \<subseteq> hdom l'" "own_node pc' \<subseteq> own_node (sl_pc s i) \<union> (hdom l' - hdom (sl_list s))"
    using mv unfolding thread_moves_def moves_def by blast+
  have sub: "own_node (sl_pc s j) \<subseteq> hdom (sl_list s)" "own_node (sl_pc s j) \<inter> P = {}" for j using ow unfolding owns_ok_def by blast+
  have dj: "own_node (sl_pc s i) \<inter> own_node (sl_pc s j) = {}" if "j \<noteq> i" for j using ow that unfolding owns_ok_def by blast
  have own: "own_node (sl_pc s j) \<inter> P' = {}" "own_node (sl_pc s j) \<inter> own_node pc' = {}" if "j \<noteq> i" for j
    using m(3,6) sub [of j] dj [OF that] by blast+
  have hist: "hist_ok t l' P' (insert l' (sl_seen s j))" if "sl_pc s j \<noteq> LIdle" for j
    using th that hist_step [OF inv _ _ m(1)] by (simp add: threads_ok_def)
  have pcs: "pc_ok l' t P' (insert l' (sl_seen s j)) (sl_pc s j)" if "sl_pc s j \<noteq> LIdle" "j \<noteq> i" for j
    by (rule pc_mono [OF inv m(1) subset_insertI _ _ own(1) [OF that(2)]]) (use th that(1) in \<open>simp_all add: threads_ok_def\<close>)
  have "threads_ok (s\<lparr>sl_list := l', sl_pc := (sl_pc s)(i := pc'), sl_seen := (\<lambda>j. insert l' (sl_seen s j))\<rparr>) t P'"
    using hist pcs m(2) busy by (simp add: threads_ok_def)
  moreover have "own_node (((sl_pc s)(i := pc')) j) \<subseteq> hdom l' - P'" for j
  proof (cases "j = i")
    case True
    then show ?thesis using m(4,5) by auto
  next
    case False
    have "own_node (sl_pc s j) \<subseteq> hdom l'" using sub(1) [of j] lgoodD(3) [OF m(1)] by (rule subset_trans)
    then show ?thesis unfolding fun_upd_other [OF False] using own(1) [OF False] by blast
  qed
  moreover have "own_node (((sl_pc s)(i := pc')) j) \<inter> own_node (((sl_pc s)(i := pc')) j') = {}" if "j \<noteq> j'" for j j'
  proof (cases "j = i")
    case True
    then show ?thesis using own(2) [of j'] that by auto
  next
    case False
    then show ?thesis using own(2) [OF False] ow that by (cases "j' = i") (auto simp: owns_ok_def)
  qed
  ultimately show ?thesis using lgoodD(1) [OF m(1)] by (simp add: sinv_def owns_ok_def)
qed

lemma sinv_idle: "sinv s t P \<Longrightarrow> sl_pc s i = LIdle \<Longrightarrow>
    sinv (s\<lparr>sl_list := sl_list s, sl_pc := (sl_pc s)(i := LIdle), sl_seen := (\<lambda>j. insert (sl_list s) (sl_seen s j))\<rparr>) t P"
  by (auto simp: sinv_def threads_ok_def owns_ok_def insert_absorb)

lemma sinv_step: "lstep s s' \<Longrightarrow> sinv s t P \<Longrightarrow> \<exists>P'. sinv s' t P'"
proof (induction rule: lstep.induct)
  case (call s i op)
  then show ?case using sinv_call by blast
next
  case (atomic s i pc' l')
  show ?case
  proof (cases "sl_pc s i = LIdle")
    case True
    then show ?thesis using idle_step [OF atomic.hyps True] sinv_idle [OF atomic.prems True] by blast
  next
    case False
    then obtain P' where "thread_moves s t P i pc' l' P'" using busy_moves [OF atomic.prems atomic.hyps] by blast
    then show ?thesis using sinv_moves [OF atomic.prems False] by blast
  qed
next
  case (ret s i op r)
  then show ?case using sinv_ret by blast
qed

lemma reach_sinv: "lreach c0 s \<Longrightarrow> \<exists>P. sinv s 1 P"
  by (induction rule: lreach.induct) (use sinv_init sinv_step in blast)+

section \<open>Executions\<close>

text \<open>A schedule says which thread is called, makes its next access or returns; \<open>l_exec\<close> follows it.\<close>

datatype lact = ACall nat lop | AStep nat | ARet nat

fun l_act :: "lact \<Rightarrow> Linked_List \<times> (nat \<Rightarrow> lpc) \<Rightarrow> (Linked_List \<times> (nat \<Rightarrow> lpc)) option" where
  "l_act (ACall i op) (l, p) = (if p i = LIdle \<and> lop_ok op then Some (l, p(i := l_start op l)) else None)"
| "l_act (AStep i) (l, p) = (case l_step (p i) l of Inl e \<Rightarrow> None | Inr (pc', l') \<Rightarrow> Some (l', p(i := pc')))"
| "l_act (ARet i) (l, p) = (case p i of LDone op r \<Rightarrow> Some (l, p(i := LIdle)) | _ \<Rightarrow> None)"

fun l_exec :: "lact list \<Rightarrow> Linked_List \<times> (nat \<Rightarrow> lpc) \<Rightarrow> (Linked_List \<times> (nat \<Rightarrow> lpc)) option" where
  "l_exec [] c = Some c"
| "l_exec (a # as) c = (case l_act a c of None \<Rightarrow> None | Some c' \<Rightarrow> l_exec as c')"

lemma l_act_step:
  assumes "l_act a (sl_list s, sl_pc s) = Some (l', p')"
  shows "\<exists>s'. lstep s s' \<and> sl_list s' = l' \<and> sl_pc s' = p'"
proof (cases a)
  case (ACall i op)
  then show ?thesis using assms lstep.call [of s i op] by (intro exI [of _ "s\<lparr>sl_pc := (sl_pc s)(i := l_start op (sl_list s)), sl_seen := (sl_seen s)(i := {sl_list s})\<rparr>"])
      (auto split: if_splits)
next
  case (AStep i)
  then obtain pc' where r: "l_step (sl_pc s i) (sl_list s) = Inr (pc', l')" "p' = (sl_pc s)(i := pc')"
    using assms by (auto split: sum.splits)
  then show ?thesis using lstep.atomic [OF r(1)]
    by (intro exI [of _ "s\<lparr>sl_list := l', sl_pc := (sl_pc s)(i := pc'), sl_seen := (\<lambda>j. insert l' (sl_seen s j))\<rparr>"]) simp
next
  case (ARet i)
  then obtain op r where r: "sl_pc s i = LDone op r" "l' = sl_list s" "p' = (sl_pc s)(i := LIdle)"
    using assms by (auto split: lpc.splits)
  then show ?thesis using lstep.ret [OF r(1)] by (intro exI [of _ "s\<lparr>sl_pc := (sl_pc s)(i := LIdle)\<rparr>"]) simp
qed

lemma l_exec_reach: "l_exec as (sl_list s, sl_pc s) = Some (l', p') \<Longrightarrow> lreach c0 s \<Longrightarrow>
    \<exists>s'. lreach c0 s' \<and> sl_list s' = l' \<and> sl_pc s' = p'"
proof (induction as arbitrary: s)
  case Nil
  then show ?case by auto
next
  case (Cons a as)
  then obtain l1 p1 where c: "l_act a (sl_list s, sl_pc s) = Some (l1, p1)" "l_exec as (l1, p1) = Some (l', p')"
    by (auto split: option.splits)
  obtain s1 where s1: "lstep s s1" "sl_list s1 = l1" "sl_pc s1 = p1" using l_act_step [OF c(1)] by blast
  show ?case using Cons.IH [of s1] c(2) s1 lreach.step [OF Cons.prems(2) s1(1)] by simp
qed

definition l_idle :: "32 word \<Rightarrow> Linked_List \<times> (nat \<Rightarrow> lpc)" where
  "l_idle c0 = (Linked_List_new c0, \<lambda>_. LIdle)"

lemma exec_from_new:
  assumes "l_exec as (l_idle c0) = Some (l, p)"
  shows "\<exists>s. lreach c0 s \<and> sl_list s = l \<and> sl_pc s = p"
  by (rule l_exec_reach [of as "lsys_init c0"]) (use assms lreach.init in \<open>simp_all add: l_idle_def lsys_init_def\<close>)

text \<open>What holds at the end of a schedule holds in a reachable state.\<close>

definition exec_ends :: "lact list \<Rightarrow> (Linked_List \<Rightarrow> (nat \<Rightarrow> lpc) \<Rightarrow> bool) \<Rightarrow> bool" where
  "exec_ends as Q \<longleftrightarrow> (case l_exec as (l_idle 0) of None \<Rightarrow> False | Some (l, p) \<Rightarrow> Q l p)"

lemma exec_endsD:
  assumes "exec_ends as Q"
  obtains s where "lreach 0 s" "l_exec as (l_idle 0) = Some (sl_list s, sl_pc s)" "Q (sl_list s) (sl_pc s)"
proof -
  obtain l p where e: "l_exec as (l_idle 0) = Some (l, p)" "Q l p" using assms by (auto simp: exec_ends_def split: option.splits)
  show ?thesis using exec_from_new [OF e(1)] that e by blast
qed

text \<open>Thread 0 inserts (5, 7). Then threads 0 and 1 remove 5 and both find its node before it is marked; or
  thread 0 removes 5 and thread 1 collects the list once the node has been found.\<close>

abbreviation sched_put :: "lact list" where
  "sched_put \<equiv> ACall 0 (LInsert 5 7) # replicate 5 (AStep 0) @ [ARet 0]"


abbreviation sched_late :: "lact list" where
  "sched_late \<equiv> ACall 0 (LRemove 5) # ACall 1 LCollect # replicate 3 (AStep 0) @ replicate 11 (AStep 1)"

section \<open>Properties\<close>

lemma reach_thread:
  assumes "lreach c0 s" and "sl_pc s i \<noteq> LIdle"
  obtains P where "linv (sl_list s) 1 P" "sl_list s \<in> sl_seen s i" "hist_ok 1 (sl_list s) P (sl_seen s i)"
    "pc_ok (sl_list s) 1 P (sl_seen s i) (sl_pc s i)"
  using reach_sinv [OF assms(1)] assms(2) by (auto simp: sinv_def threads_ok_def)

lemma reach_inv:
  assumes "lreach c0 s"
  obtains P where "linv (sl_list s) 1 P" "sinv s 1 P"
  using reach_sinv [OF assms] by (auto simp: sinv_def)

text \<open>C2. Under every interleaving of any number of threads, the content of the list, the pairs of the nodes
  on the chain that are not marked, changes in two ways only, and in one step: the compare-exchange with which an
  insertion of an absent key links its node adds that pair and nothing else, and the compare-exchange with
  which a removal marks the node of a present key removes that key and nothing else. Every other step of every
  operation (unlinking, freezing, counting, a compare-exchange that fails, a call, a return) leaves the
  content as it is.\<close>

theorem ll_conc_effects:
  assumes "lreach c0 s" and "lstep s s'"
  shows "\<exists>i. (\<forall>j. j \<noteq> i \<longrightarrow> sl_pc s' j = sl_pc s j) \<and> effect (sl_pc s i) (sl_pc s' i) (sl_list s) (sl_list s')"
  using assms(2)
proof cases
  case (call i op)
  then show ?thesis by (intro exI [of _ i]) simp
next
  case (atomic i pc' l')
  obtain P where P: "sinv s 1 P" using reach_inv [OF assms(1)] by blast
  have "effect (sl_pc s i) pc' (sl_list s) l'"
  proof (cases "sl_pc s i = LIdle")
    case True
    then show ?thesis using idle_step [OF atomic(2)] by simp
  next
    case False
    then show ?thesis using busy_moves [OF P atomic(2)] by (auto simp: thread_moves_def moves_def)
  qed
  then show ?thesis using atomic(1) by (intro exI [of _ i]) simp
next
  case (ret i op r)
  then show ?thesis by (intro exI [of _ i]) simp
qed


text \<open>C13. Under every interleaving, no step of any operation reads or writes outside the allocated nodes or
  fails otherwise, with one exception: a removal whose unlinking compare-exchange finds a marked or frozen word
  in its predecessor reads the value through that tagged word.\<close>

theorem ll_conc_safe:
  assumes "lreach c0 s" and "l_step (sl_pc s i) (sl_list s) = Inl e"
  shows "e = NullDeref \<and> unlink_lost (sl_list s) (sl_pc s i)"
proof -
  have "sl_pc s i \<noteq> LIdle" using assms(2) by auto
  then obtain P where "linv (sl_list s) 1 P" "sl_list s \<in> sl_seen s i" "hist_ok 1 (sl_list s) P (sl_seen s i)"
    "pc_ok (sl_list s) 1 P (sl_seen s i) (sl_pc s i)" "sl_pc s i \<noteq> LIdle" using reach_thread [OF assms(1)] by metis
  from step_thread [OF this(1,3,2,4,5)] show ?thesis unfolding assms(2) by (simp add: step_ok_def)
qed

text \<open>C28. In every reachable state the chain of nodes from the lower sentinel ends at the upper one, its keys
  increase strictly below the greatest key, the lower sentinel is not marked, and a node that an insertion has
  built and not linked yet is not on the chain and belongs to one thread only.\<close>

theorem ll_conc_well_formed:
  assumes "lreach c0 s"
  shows "sorted_wrt (<) (map (hkey (sl_list s)) (ll_chain (sl_list s))) \<and> list_all (\<lambda>a. hkey (sl_list s) a < key_max) (ll_chain (sl_list s))
    \<and> hnext (sl_list s) (last (ll_head (sl_list s) # ll_chain (sl_list s))) = 1 \<and> \<not> hmark (sl_list s) (ll_head (sl_list s))
    \<and> (\<forall>i j. own_node (sl_pc s i) \<inter> set (ll_chain (sl_list s)) = {} \<and> (i = j \<or> own_node (sl_pc s i) \<inter> own_node (sl_pc s j) = {}))"
proof -
  let ?l = "sl_list s"
  obtain P where inv: "linv ?l 1 P" and s: "sinv s 1 P" using reach_inv [OF assms] by blast
  note d = linvD [OF inv] and hd = head_facts [OF inv]
  obtain A x where x: "ll_head ?l # ll_chain ?l = A @ [x]" by (metis append_butlast_last_id list.distinct(1))
  then have "hnext ?l (last (ll_head ?l # ll_chain ?l)) = 1" using chain_next [OF inv x] by simp
  moreover have "sorted_wrt (<) (map (hkey ?l) (ll_chain ?l))" "list_all (\<lambda>a. hkey ?l a < key_max) (ll_chain ?l)"
    using d(5) hd(8) by (auto simp: sorted_wrt_append list_all_iff)
  moreover have "own_node (sl_pc s i) \<inter> set (ll_chain ?l) = {}" for i
    using s d(8) unfolding sinv_def owns_ok_def by blast
  ultimately show ?thesis using hd(4) s unfolding sinv_def owns_ok_def by blast
qed

text \<open>A finished collection.\<close>

lemma closed_stays:
  assumes "lstep\<^sup>*\<^sup>* s s'" and "lreach c0 s" and "ll_closed (sl_list s)"
  shows "lreach c0 s' \<and> ll_closed (sl_list s') \<and> ll_content (sl_list s') \<subseteq>\<^sub>m ll_content (sl_list s)"
  using assms(1)
proof induction
  case base
  then show ?case using assms(2,3) by simp
next
  case (step s1 s2)
  let ?l = "sl_list s1" and ?l' = "sl_list s2"
  obtain P where P: "linv ?l 1 P" "sinv s1 1 P" using reach_inv step.IH by metis
  have "?l' = ?l \<or> (\<exists>P'. lgood 1 ?l P ?l' P')" using step.hyps(2)
  proof cases
    case (atomic i pc' l')
    then show ?thesis using busy_moves [OF P(2) atomic(2)] idle_step [OF atomic(2)]
      by (cases "sl_pc s1 i = LIdle") (auto simp: thread_moves_def moves_def)
  qed auto
  then have "ll_closed ?l' \<and> ll_content ?l' \<subseteq>\<^sub>m ll_content ?l"
  proof
    assume "\<exists>P'. lgood 1 ?l P ?l' P'"
    then obtain P' where g: "lgood 1 ?l P ?l' P'" by blast
    note g' = lgoodD [OF g] and cl = closed_step [OF P(1) g]
    have "ll_content ?l k = Some v" if "ll_content ?l' k = Some v" for k v
    proof -
      obtain a where a: "a \<in> set (ll_chain ?l')" "\<not> hmark ?l' a" "hkey ?l' a = k" "hval ?l' a = v"
        using content_iff [OF g'(1)] that \<open>ll_content ?l' k = Some v\<close> by blast
      have "a \<in> set (ll_chain ?l)" using a(1) cl(1) step.IH by simp
      moreover from this have "a \<in> hdom ?l" by (rule chain_dom [OF P(1)])
      ultimately show ?thesis using content_iff [OF P(1)] g'(5-7) a by metis
    qed
    then show ?thesis using cl(2) step.IH by (auto simp: map_le_def)
  qed (use step.IH in simp)
  then show ?case using step.IH step.hyps(2) lreach.step map_le_trans by blast
qed

text \<open>C12. Under every interleaving, when a collection has finished, the words of all nodes of the list are frozen;
  the pairs it returns are pairs of nodes on the chain; and if none of these nodes is marked, they are the
  content of the list in increasing order of keys. From then on, whatever the threads do, the list stays
  closed and its content only shrinks: no insertion that comes later, or was already under way, succeeds.\<close>

theorem ll_conc_collect:
  assumes "lreach c0 s" and "sl_pc s i = LDone LCollect r"
  shows "ll_closed (sl_list s) \<and> (\<exists>kvs. r = RList kvs
      \<and> set kvs \<subseteq> (\<lambda>a. (hkey (sl_list s) a, hval (sl_list s) a)) ` set (ll_chain (sl_list s))
      \<and> (list_all (\<lambda>a. \<not> hmark (sl_list s) a) (ll_chain (sl_list s)) \<longrightarrow> map_of kvs = ll_content (sl_list s) \<and> sorted_wrt (<) (map fst kvs)))
    \<and> (\<forall>s'. lstep\<^sup>*\<^sup>* s s' \<longrightarrow> ll_closed (sl_list s') \<and> ll_content (sl_list s') \<subseteq>\<^sub>m ll_content (sl_list s))"
proof -
  let ?l = "sl_list s"
  have "sl_pc s i \<noteq> LIdle" using assms(2) by simp
  from reach_thread [OF assms(1) this] obtain P where P: "linv ?l 1 P" "pc_ok ?l 1 P (sl_seen s i) (LDone LCollect r)"
    unfolding assms(2) by blast
  then obtain acc where acc: "r = RList (butlast acc)" "col_ok ?l 1 1 acc" by auto
  note cl = closed_col(1) [OF P(1) acc(2)]
  have "map_of (butlast acc) = ll_content ?l \<and> sorted_wrt (<) (map fst (butlast acc))" if "list_all (\<lambda>a. \<not> hmark ?l a) (ll_chain ?l)"
  proof -
    have um: "\<forall>a \<in> set (ll_chain ?l). \<not> hmark ?l a" using that by (simp add: list_all_iff)
    then have "filter (\<lambda>a. \<not> hmark ?l a) (ll_chain ?l) = ll_chain ?l" by simp
    then show ?thesis using linvD(5) [OF P(1)] unfolding no_marks_pairs [OF P(1) acc(2) um] ll_content_def
      by (simp add: comp_def sorted_wrt_append)
  qed
  then show ?thesis using cl closed_stays [OF _ assms(1) cl] collected_on_chain [OF P(1) acc(2)] unfolding acc(1) by blast
qed

text \<open>A removal that has found its node.\<close>

lemma rem1_facts:
  assumes "lreach c0 s" and "sl_pc s i = LRem1 k left right"
  obtains P where "linv (sl_list s) 1 P" "left \<in> P" "left \<noteq> 1" "left \<in> hdom (sl_list s)" "right \<in> P" "right \<in> hdom (sl_list s)"
    "right \<noteq> ll_head (sl_list s)" "right \<noteq> 1" "hkey (sl_list s) right = k"
proof -
  have "sl_pc s i \<noteq> LIdle" using assms(2) by simp
  from reach_thread [OF assms(1) this] obtain P where P: "linv (sl_list s) 1 P" "hist_ok 1 (sl_list s) P (sl_seen s i)"
    "pc_ok (sl_list s) 1 P (sl_seen s i) (LRem1 k left right)" unfolding assms(2) by blast
  have "rem_ok (sl_list s) 1 P (sl_seen s i) k left right" using P(3) by simp
  from rem_facts [OF P(1,2) this] show ?thesis using that P(1) by blast
qed


lemma reach_collected:
  assumes "lreach c0 s" and "sl_pc s j = LDone LCollect (RList kvs)"
  shows "ll_closed (sl_list s)" and "list_all (\<lambda>a. \<not> hmark (sl_list s) a) (ll_chain (sl_list s)) \<Longrightarrow> map_of kvs = ll_content (sl_list s)"
proof -
  let ?l = "sl_list s"
  have "sl_pc s j \<noteq> LIdle" using assms(2) by simp
  from reach_thread [OF assms(1) this] obtain Q where Q: "linv ?l 1 Q" "pc_ok ?l 1 Q (sl_seen s j) (LDone LCollect (RList kvs))"
    unfolding assms(2) by blast
  then obtain acc where acc: "kvs = butlast acc" "col_ok ?l 1 1 acc" by auto
  show "ll_closed ?l" by (rule closed_col(1) [OF Q(1) acc(2)])
  assume "list_all (\<lambda>a. \<not> hmark ?l a) (ll_chain ?l)"
  then have um: "\<forall>a \<in> set (ll_chain ?l). \<not> hmark ?l a" by (simp add: list_all_iff)
  then have "filter (\<lambda>a. \<not> hmark ?l a) (ll_chain ?l) = ll_chain ?l" by simp
  then show "map_of kvs = ll_content ?l" unfolding acc(1) no_marks_pairs [OF Q(1) acc(2) um] ll_content_def by simp
qed

text \<open>C30. A removal tests the mark bit of its node's word and not the freeze bit. Whenever a collection has gathered all of
  the content and a removal has found the node of a key, the removal can mark the node although the list is
  closed: the key is gone from the list but not from what has been collected, and the next step of the
  removal reads its value through a word with a tag, which is no node.\<close>

theorem ll_conc_remove_late:
  assumes "lreach c0 s" and "sl_pc s j = LDone LCollect (RList kvs)" and "list_all (\<lambda>a. \<not> hmark (sl_list s) a) (ll_chain (sl_list s))"
    and "sl_pc s i = LRem1 k left right" and "\<not> hmark (sl_list s) right"
  shows "\<exists>s'. lstep\<^sup>*\<^sup>* s s' \<and> map_of kvs k = Some (hval (sl_list s) right) \<and> ll_content (sl_list s') k = None
     \<and> ll_closed (sl_list s') \<and> sl_pc s' j = LDone LCollect (RList kvs) \<and> l_step (sl_pc s' i) (sl_list s') = Inl NullDeref"
proof -
  let ?l = "sl_list s"
  obtain P where inv: "linv ?l 1 P" and p: "left \<in> P" "left \<noteq> 1" "left \<in> hdom ?l" "right \<in> P" "right \<in> hdom ?l"
    "right \<noteq> ll_head ?l" "right \<noteq> 1" "hkey ?l right = k" by (rule rem1_facts [OF assms(1,4)])
  have ij: "i \<noteq> j" using assms(2,4) by auto
  note cl = reach_collected(1) [OF assms(1,2)] and kv = reach_collected(2) [OF assms(1-3)]
  let ?w = "hword ?l right"
  define l' where "l' = set_next right (tp_set_mark ?w) ?l"
  note g = mark_good [OF inv p(4,7,6) assms(5), folded l'_def, unfolded p(8)]
  have nm: "\<not> tp_mark ?w" using assms(5) by (simp add: hword_parts)
  have r1: "l_step (sl_pc s i) ?l = Inr (LRem2 k left right ?w, ?l)" using p(5) nm unfolding assms(4) by (simp add: load_dom the_sel)
  have r2: "l_step (LRem2 k left right ?w) ?l = Inr (LRem3 k left right ?w, l')" using p(5) by (simp add: cas_dom l'_def)
  have tag: "hmark ?l left \<or> hfrozen ?l left"
  proof (cases "hmark ?l left")
    case False
    have "left \<in> set (ll_head ?l # ll_chain ?l @ [1])" by (rule linvD(4) [OF inv p(1) False])
    then have "left \<in> set (ll_head ?l # ll_chain ?l)" using p(2) by auto
    then show ?thesis using cl by (auto simp: ll_closed_def list_all_iff)
  qed simp
  have tag': "hmark l' left \<or> hfrozen l' left" using tag by (auto simp: l'_def hword_parts tp_defs)
  have d': "left \<in> hdom l'" "right \<in> hdom l'" using lgoodD(3) [OF g(1)] p(3,5) by auto
  have r3: "l_step (LRem3 k left right ?w) l' = Inl NullDeref"
    using d' tag' by (auto simp: load_dom the_sel cas_dom ll_load_expected_def Let_def hword_parts)
  let ?s1 = "s\<lparr>sl_list := ?l, sl_pc := (sl_pc s)(i := LRem2 k left right ?w), sl_seen := (\<lambda>j. insert ?l (sl_seen s j))\<rparr>"
  have s1: "lstep s ?s1" by (rule lstep.atomic [OF r1])
  define s2 where "s2 = ?s1\<lparr>sl_list := l', sl_pc := (sl_pc ?s1)(i := LRem3 k left right ?w), sl_seen := (\<lambda>j. insert l' (sl_seen ?s1 j))\<rparr>"
  have s2: "lstep ?s1 s2" unfolding s2_def by (rule lstep.atomic) (use r2 in simp)
  have "lstep\<^sup>*\<^sup>* s s2" using s1 s2 by (meson rtranclp.rtrancl_into_rtrancl rtranclp.rtrancl_refl)
  moreover have "sl_pc s2 i = LRem3 k left right ?w" "sl_list s2 = l'" "sl_pc s2 j = LDone LCollect (RList kvs)"
    using ij assms(2) by (simp_all add: s2_def)
  moreover have "map_of kvs k = Some (hval ?l right)" unfolding kv by (rule g(3))
  moreover have "ll_closed l'" by (rule closed_step(2) [OF inv g(1) cl])
  moreover have "ll_content l' k = None" using g(2) by simp
  ultimately show ?thesis using r3 by (intro exI [of _ s2]) simp
qed

section \<open>Witnesses\<close>

text \<open>States in which the hypotheses hold: an insertion before and after its linking step, a finished insertion, a
  finished collection, a removal before its exceptional read.\<close>

lemma state_linking:
  obtains s where "lreach 0 s" "sl_pc s 0 = LIns 5 7 2 1 3" "sl_pc s 1 = LIdle" "ll_content (sl_list s) 5 = None"
    "l_step (sl_pc s 0) (sl_list s) = Inr (LCount 5 7, snd (projr (l_step (sl_pc s 0) (sl_list s))))"
proof -
  have "exec_ends (take 4 sched_put) (\<lambda>l p. p 0 = LIns 5 7 2 1 3 \<and> p 1 = LIdle \<and> ll_content l 5 = None
     \<and> (case l_step (p 0) l of Inl e \<Rightarrow> False | Inr x \<Rightarrow> fst x = LCount 5 7))"
    by code_simp
  then obtain s where s: "lreach 0 s" "sl_pc s 0 = LIns 5 7 2 1 3" "sl_pc s 1 = LIdle" "ll_content (sl_list s) 5 = None"
    "case l_step (sl_pc s 0) (sl_list s) of Inl e \<Rightarrow> False | Inr x \<Rightarrow> fst x = LCount 5 7" by (rule exec_endsD) blast
  obtain x where "l_step (sl_pc s 0) (sl_list s) = Inr x" "fst x = LCount 5 7" using s(5) by (auto split: sum.splits)
  then have "l_step (sl_pc s 0) (sl_list s) = Inr (LCount 5 7, snd (projr (l_step (sl_pc s 0) (sl_list s))))" by (cases x) simp
  then show ?thesis using that s by blast
qed

theorem ll_conc_effects_witness:
  "\<exists>s s'. lreach 0 s \<and> lstep s s' \<and> sl_pc s 0 = LIns 5 7 2 1 3 \<and> sl_pc s' 0 = LCount 5 7 \<and> ll_content (sl_list s') = (ll_content (sl_list s))(5 \<mapsto> 7)"
proof (rule state_linking)
  fix s
  assume s: "lreach 0 s" "sl_pc s 0 = LIns 5 7 2 1 3" "sl_pc s 1 = LIdle" "ll_content (sl_list s) 5 = None"
    "l_step (sl_pc s 0) (sl_list s) = Inr (LCount 5 7, snd (projr (l_step (sl_pc s 0) (sl_list s))))"
  let ?s = "s\<lparr>sl_list := snd (projr (l_step (sl_pc s 0) (sl_list s))), sl_pc := (sl_pc s)(0 := LCount 5 7),
    sl_seen := (\<lambda>j. insert (snd (projr (l_step (sl_pc s 0) (sl_list s)))) (sl_seen s j))\<rparr>"
  have st: "lstep s ?s" by (rule lstep.atomic [OF s(5)])
  obtain i where i: "\<forall>j. j \<noteq> i \<longrightarrow> sl_pc ?s j = sl_pc s j" "effect (sl_pc s i) (sl_pc ?s i) (sl_list s) (sl_list ?s)"
    using ll_conc_effects [OF s(1) st] by blast
  have "sl_pc ?s 0 \<noteq> sl_pc s 0" unfolding s(2) by simp
  then have "i = 0" using i(1) by (metis (no_types))
  then have "effect (LIns 5 7 2 1 3) (LCount 5 7) (sl_list s) (sl_list ?s)" using i(2) s(2) by simp
  then show ?thesis using s(1,2) st by (intro exI [of _ s] exI [of _ ?s]) simp
qed



theorem ll_conc_remove_late_witness:
  "\<exists>s s' kvs. lreach 0 s \<and> lstep\<^sup>*\<^sup>* s s' \<and> sl_pc s' 1 = LDone LCollect (RList kvs) \<and> map_of kvs 5 = Some 7 \<and> ll_content (sl_list s') 5 = None"
proof -
  have "exec_ends (sched_put @ sched_late) (\<lambda>l p. p 1 = LDone LCollect (RList [(5, 7)]) \<and> list_all (\<lambda>a. \<not> hmark l a) (ll_chain l)
     \<and> p 0 = LRem1 5 2 3 \<and> \<not> hmark l 3 \<and> hval l 3 = 7)" by code_simp
  then obtain s where s: "lreach 0 s" "sl_pc s 1 = LDone LCollect (RList [(5, 7)])" "list_all (\<lambda>a. \<not> hmark (sl_list s) a) (ll_chain (sl_list s))"
    "sl_pc s 0 = LRem1 5 2 3" "\<not> hmark (sl_list s) 3" and v: "hval (sl_list s) 3 = 7" by (rule exec_endsD) blast
  obtain s' where "lstep\<^sup>*\<^sup>* s s'" "map_of [(5 :: key_t, 7)] 5 = Some (7 :: val_t)" "ll_content (sl_list s') 5 = None" "sl_pc s' 1 = LDone LCollect (RList [(5, 7)])"
    using ll_conc_remove_late [OF s] unfolding v by (elim exE conjE)
  then show ?thesis using s(1) by (intro exI [of _ s] exI [of _ s'] exI [of _ "[(5, 7)]"] conjI)
qed

theorem ll_conc_safe_witness:
  "\<exists>s k left right rn. lreach 0 s \<and> sl_pc s 0 = LRem3 k left right rn \<and> (hmark (sl_list s) left \<or> hfrozen (sl_list s) left)"
proof -
  have "exec_ends (sched_put @ sched_late @ [AStep 0, AStep 0]) (\<lambda>l p. (case p 0 of LRem3 k left right rn \<Rightarrow> True | _ \<Rightarrow> False)
     \<and> (case l_step (p 0) l of Inl e \<Rightarrow> True | Inr x \<Rightarrow> False))" by code_simp
  then obtain s where s: "lreach 0 s" "case sl_pc s 0 of LRem3 k left right rn \<Rightarrow> True | _ \<Rightarrow> False"
    "case l_step (sl_pc s 0) (sl_list s) of Inl e \<Rightarrow> True | Inr x \<Rightarrow> False" by (rule exec_endsD) blast
  then obtain e where "l_step (sl_pc s 0) (sl_list s) = Inl e" by (auto split: sum.splits)
  from ll_conc_safe [OF s(1) this] show ?thesis using s(1,2) by (auto split: lpc.splits)
qed

theorem ll_conc_well_formed_witness:
  "\<exists>s. lreach 0 s \<and> sl_pc s 0 = LIns 5 7 2 1 3 \<and> 3 \<notin> set (ll_chain (sl_list s))"
proof (rule state_linking)
  fix s
  assume s: "lreach 0 s" "sl_pc s 0 = LIns 5 7 2 1 3"
  have "own_node (sl_pc s 0) \<inter> set (ll_chain (sl_list s)) = {}" using ll_conc_well_formed [OF s(1)] by blast
  then show ?thesis using s by (intro exI [of _ s]) simp
qed

theorem ll_conc_collect_witness:
  "\<exists>s kvs. lreach 0 s \<and> sl_pc s 1 = LDone LCollect (RList kvs) \<and> ll_closed (sl_list s) \<and> map_of kvs = ll_content (sl_list s) \<and> map_of kvs 5 = Some 7"
proof -
  have "exec_ends (sched_put @ ACall 1 LCollect # replicate 11 (AStep 1)) (\<lambda>l p. p 1 = LDone LCollect (RList [(5, 7)])
     \<and> list_all (\<lambda>a. \<not> hmark l a) (ll_chain l))" by code_simp
  then obtain s where s: "lreach 0 s" "sl_pc s 1 = LDone LCollect (RList [(5, 7)])" "list_all (\<lambda>a. \<not> hmark (sl_list s) a) (ll_chain (sl_list s))"
    by (rule exec_endsD) blast
  from ll_conc_collect [OF s(1,2)] s(3) have "ll_closed (sl_list s)" "ll_content (sl_list s) = map_of [(5, 7)]" by auto
  then show ?thesis using s(1,2) by (intro exI [of _ s] exI [of _ "[(5, 7)]"]) simp
qed

end
