(* ===== verification/LF_LL_Conc_Solo.thy ===== *)
theory LF_LL_Conc_Solo
  imports LF_LL_Conc_Correct
begin

text \<open>
  A thread that runs alone ends its operation, from whatever state the other threads have left the list in.
  The order that decreases: a compare-exchange can fail once, as the words read since are up to date; then the
  phase of the operation; then the key of the node it has come to.
\<close>

section \<open>What decreases\<close>

text \<open>The expected word of the next compare-exchange is out of date.\<close>

fun stale :: "Linked_List \<Rightarrow> lpc \<Rightarrow> bool" where
  "stale l (LFind1 op) \<longleftrightarrow> hfrozen l (ll_head l)"
| "stale l (LFind2 op left right) \<longleftrightarrow> hword l left \<noteq> clean right"
| "stale l (LFind3 op left right rn) \<longleftrightarrow> hword l left \<noteq> clean right"
| "stale l (LIns k v left right new) \<longleftrightarrow> hword l left \<noteq> clean right"
| "stale l (LRem2 k left right rn) \<longleftrightarrow> hword l right \<noteq> rn"
| "stale l (LCol4 left cn acc) \<longleftrightarrow> hword l left \<noteq> cn"
| "stale l _ \<longleftrightarrow> False"

fun phase :: "lpc \<Rightarrow> nat" where
  "phase (LFind0 op) = 8"
| "phase (LFind1 op) = 7"
| "phase (LFind2 op left right) = 6"
| "phase (LFind3 op left right rn) = 6"
| "phase (LIns k v left right new) = 5"
| "phase (LCount k v) = 4"
| "phase (LRem1 k left right) = 4"
| "phase (LRem2 k left right rn) = 3"
| "phase (LRem3 k left right rn) = 2"
| "phase (LDone op r) = 0"
| "phase _ = 1"

definition key_gap :: "Linked_List \<Rightarrow> addr \<Rightarrow> nat" where
  "key_gap l a = (if a = ll_head l then Suc (unat key_max) else unat key_max - unat (hkey l a))"

fun gap_of :: "Linked_List \<Rightarrow> lpc \<Rightarrow> nat" where
  "gap_of l (LFind2 op left right) = key_gap l right"
| "gap_of l (LFind3 op left right rn) = key_gap l right"
| "gap_of l (LSrch k cur) = key_gap l cur"
| "gap_of l (LCol1 left acc) = key_gap l left"
| "gap_of l (LCol2 left acc) = key_gap l left"
| "gap_of l (LCol3 left acc) = key_gap l left"
| "gap_of l (LCol4 left cn acc) = key_gap l left"
| "gap_of l (LCol5 left acc) = key_gap l left"
| "gap_of l _ = 0"

fun point :: "lpc \<Rightarrow> nat" where
  "point (LFind2 op left right) = 1"
| "point (LCol1 left acc) = 4"
| "point (LCol2 left acc) = 3"
| "point (LCol3 left acc) = 2"
| "point (LCol4 left cn acc) = 1"
| "point _ = 0"

definition solo_rank :: "lpc \<times> Linked_List \<Rightarrow> nat \<times> nat \<times> nat \<times> nat" where
  "solo_rank x = (of_bool (stale (snd x) (fst x)), phase (fst x), gap_of (snd x) (fst x), point (fst x))"

definition solo_less :: "((lpc \<times> Linked_List) \<times> (lpc \<times> Linked_List)) set" where
  "solo_less = inv_image (less_than <*lex*> less_than <*lex*> less_than <*lex*> less_than) solo_rank"

lemma wf_solo: "wf solo_less"
  unfolding solo_less_def by (intro wf_inv_image wf_lex_prod wf_less_than)

lemma solo_less_iff: "((pc', l'), (pc, l)) \<in> solo_less \<longleftrightarrow>
    (\<not> stale l' pc' \<and> stale l pc) \<or> (stale l' pc' = stale l pc \<and> (phase pc' < phase pc
      \<or> (phase pc' = phase pc \<and> (gap_of l' pc' < gap_of l pc \<or> (gap_of l' pc' = gap_of l pc \<and> point pc' < point pc)))))"
  by (auto simp: solo_less_def solo_rank_def)

lemma gap_next:
  assumes inv: "linv l t P" and a: "a \<in> hdom l" "a \<noteq> t"
  shows "key_gap l (hnext l a) < key_gap l a"
proof -
  note n = next_facts [OF inv a]
  show ?thesis
  proof (cases "a = ll_head l")
    case True
    then show ?thesis using n(2) by (simp add: key_gap_def)
  next
    case False
    have "unat (hkey l a) < unat (hkey l (hnext l a))" using n(3) [OF False] by (simp add: word_less_nat_alt)
    moreover have "unat (hkey l (hnext l a)) \<le> unat key_max" using le_key_max by (simp add: word_le_nat_alt [symmetric])
    ultimately show ?thesis using False n(2) by (simp add: key_gap_def)
  qed
qed

lemma word_clean: "\<not> hmark l a \<Longrightarrow> \<not> hfrozen l a \<Longrightarrow> hword l a = clean (hnext l a)"
  by (cases "hword l a") (simp add: hword_parts)

text \<open>What a thread knows when it is about to move, and that it knows it again afterwards.\<close>

definition thinv :: "Linked_List \<Rightarrow> addr \<Rightarrow> addr set \<Rightarrow> Linked_List set \<Rightarrow> lpc \<Rightarrow> bool" where
  "thinv l t P seen pc \<longleftrightarrow> linv l t P \<and> l \<in> seen \<and> hist_ok t l P seen \<and> pc_ok l t P seen pc \<and> pc \<noteq> LIdle"

lemma thinvD:
  assumes "thinv l t P seen pc"
  shows "linv l t P" "l \<in> seen" "hist_ok t l P seen" "pc_ok l t P seen pc" "pc \<noteq> LIdle"
  using assms by (simp_all add: thinv_def)

lemma thinv_step:
  assumes "thinv l t P seen pc"
  shows "(\<exists>pc' l' P'. l_step pc l = Inr (pc', l') \<and> thinv l' t P' (insert l' seen) pc' \<and> pc_op pc' = pc_op pc
      \<and> effect pc pc' l l' \<and> lgood t l P l' P') \<or> l_step pc l = Inl NullDeref \<and> unlink_lost l pc"
proof -
  note T = thinvD [OF assms]
  have "step_ok l t P seen pc (l_step pc l)" using step_thread [OF T(1,3,2,4,5)] .
  moreover have "thinv l' t P' (insert l' seen) pc'" if m: "moves l t P seen pc pc' l' P'" for pc' l' P'
  proof -
    have m: "lgood t l P l' P'" "pc_ok l' t P' (insert l' seen) pc'" "pc_op pc' = pc_op pc" using m by (simp_all add: moves_def)
    have "pc_op pc \<noteq> None" using T(5) by (cases pc) auto
    then have "pc' \<noteq> LIdle" using m(3) by auto
    then show ?thesis using lgoodD(1) [OF m(1)] hist_step [OF T(1,3,2) m(1)] m(2) by (simp add: thinv_def)
  qed
  ultimately show ?thesis unfolding step_ok_def moves_def by blast
qed

section \<open>Every step decreases the rank\<close>

lemma step_result: "r = Inr (x, y) \<Longrightarrow> r = Inr (x', y') \<Longrightarrow> x' = x" "r = Inr (x, y) \<Longrightarrow> r = Inr (x', y') \<Longrightarrow> y' = y"
  by simp_all

lemma dec_find0:
  assumes "thinv l t P seen (LFind0 op)" and "l_step (LFind0 op) l = Inr (pc', l')"
  shows "((pc', l'), (LFind0 op, l)) \<in> solo_less"
proof -
  note T = thinvD [OF assms(1)] and hd = head_facts [OF thinvD(1) [OF assms(1)]]
  have "l' = l" "pc' = (if hfrozen l (ll_head l) then LDone op (RInt (- 1)) else LFind1 op)"
    using assms(2) hd(2) by (auto simp: load_dom the_sel hword_parts)
  then show ?thesis by (simp add: solo_less_iff)
qed

lemma dec_find1:
  assumes "thinv l t P seen (LFind1 op)" and "l_step (LFind1 op) l = Inr (pc', l')"
  shows "((pc', l'), (LFind1 op, l)) \<in> solo_less"
proof -
  note hd = head_facts [OF thinvD(1) [OF assms(1)]]
  have e: "l' = l" "pc' = LFind2 op (ll_head l) (hnext l (ll_head l))"
    using assms(2) hd(2) by (auto simp: load_dom the_sel hword_parts tp_defs)
  have "hword l (ll_head l) = clean (hnext l (ll_head l)) \<longleftrightarrow> \<not> hfrozen l (ll_head l)"
    using hd(4) by (cases "hword l (ll_head l)") (simp add: hword_parts)
  then show ?thesis unfolding e by (simp add: solo_less_iff)
qed

text \<open>The node a search for a place stands on.\<close>

lemma find_facts:
  assumes inv: "linv l t P" and f: "find_ok l t P seen k left right"
  shows "left \<in> P" "left \<noteq> t" "left \<in> hdom l" "right \<in> P" "right \<noteq> ll_head l" "right \<in> hdom l"
    "hkey l right < k \<Longrightarrow> right \<noteq> t" "hmark l right \<Longrightarrow> right \<noteq> t"
proof -
  show a: "left \<in> P" "left \<noteq> t" "right \<in> P" "right \<noteq> ll_head l" using f by (auto simp: find_ok_def left_ok_def)
  show "left \<in> hdom l" "right \<in> hdom l" using P_dom [OF inv] a by blast+
  show "hmark l right \<Longrightarrow> right \<noteq> t" using head_facts(9) [OF inv] by blast
  show "hkey l right < k \<Longrightarrow> right \<noteq> t" using head_facts(8) [OF inv] le_key_max [of k] by (auto simp: not_le [symmetric])
qed

lemma find2_cases:
  assumes inv: "linv l t P" and f: "find_ok l t P seen (lop_key op) left right"
  obtains (frozen) "hfrozen l right" "l_step (LFind2 op left right) l = Inr (LDone op (RInt (- 1)), l)"
  | (marked) "\<not> hfrozen l right" "hmark l right" "l_step (LFind2 op left right) l = Inr (LFind3 op left right (hword l right), l)"
  | (here) "\<not> hfrozen l right" "\<not> hmark l right" "lop_key op \<le> hkey l right"
      "l_step (LFind2 op left right) l = Inr (l_found op left right (hkey l right) l)"
  | (beyond) "\<not> hfrozen l right" "\<not> hmark l right" "hkey l right < lop_key op" "right \<noteq> t"
      "l_step (LFind2 op left right) l = Inr (LFind2 op right (hnext l right), l)"
proof -
  note F = find_facts [OF inv f]
  note run = l_step.simps(4) [of op left right l, unfolded load_dom [OF F(6)]]
  consider "hfrozen l right" | "\<not> hfrozen l right" "hmark l right" | "\<not> hfrozen l right" "\<not> hmark l right" "lop_key op \<le> hkey l right"
    | "\<not> hfrozen l right" "\<not> hmark l right" "\<not> lop_key op \<le> hkey l right" by blast
  then show ?thesis
  proof cases
    case 1
    then show ?thesis by (intro frozen) (unfold run, simp_all add: hword_parts the_sel Let_def)
  next
    case 2
    then show ?thesis by (intro marked) (unfold run, simp_all add: hword_parts the_sel Let_def)
  next
    case 3
    then show ?thesis by (intro here) (unfold run, simp_all add: hword_parts the_sel Let_def)
  next
    case 4
    then have "hkey l right < lop_key op" by simp
    then show ?thesis using 4 F(7) by (intro beyond) (unfold run, simp_all add: hword_parts the_sel Let_def tp_defs)
  qed
qed

text \<open>What comes after \<open>find\<close>.\<close>

lemma found_cases:
  assumes inv: "linv l t P" and up: "is_upd op"
  obtains (ins_no) k v where "op = LInsert k v" "rk = k \<or> v = tombstone" "l_found op left right rk l = (LDone op (RInt 0), l)"
  | (ins) k v l' where "op = LInsert k v" "rk \<noteq> k" "v \<noteq> tombstone" "l' = snd (ll_alloc (ll_Node_new k v (clean right)) l)"
      "l_found op left right rk l = (LIns k v left right (ll_brk l), l')"
  | (rem_no) k where "op = LRemove k" "rk \<noteq> k" "l_found op left right rk l = (LDone op (RInt (- 2)), l)"
  | (rem) k where "op = LRemove k" "rk = k" "l_found op left right rk l = (LRem1 k left right, l)"
  using up by (cases op) (auto simp: ll_alloc_def split: if_splits)

lemma dec_find2:
  assumes T: "thinv l t P seen (LFind2 op left right)" and run: "l_step (LFind2 op left right) l = Inr (pc', l')"
  shows "((pc', l'), (LFind2 op left right, l)) \<in> solo_less"
proof -
  note inv = thinvD(1) [OF T]
  have up: "is_upd op" and f: "find_ok l t P seen (lop_key op) left right" using thinvD(4) [OF T] by simp_all
  note F = find_facts [OF inv f]
  show ?thesis
  proof (cases rule: find2_cases [OF inv f])
    case 1
    have e: "pc' = LDone op (RInt (- 1))" "l' = l" by (rule step_result [OF 1(2) run])+
    show ?thesis unfolding e by (simp add: solo_less_iff)
  next
    case 2
    have e: "pc' = LFind3 op left right (hword l right)" "l' = l" by (rule step_result [OF 2(3) run])+
    show ?thesis unfolding e by (simp add: solo_less_iff)
  next
    case 3
    have e: "l_found op left right (hkey l right) l = (pc', l')" using run [unfolded 3(4)] by simp
    show ?thesis
    proof (cases rule: found_cases [OF inv up, of "hkey l right" left right])
      case (2 k v l1)
      have "left \<noteq> ll_brk l" using F(3) alloc_sel(7) [OF inv refl] by blast
      then have "hword l1 left = hword l left" using alloc_sel(3) [OF inv 2(4)] by simp
      then show ?thesis using e [symmetric] unfolding 2(5) by (simp add: solo_less_iff)
    qed (use e in \<open>auto simp: solo_less_iff\<close>)
  next
    case 4
    have e: "pc' = LFind2 op right (hnext l right)" "l' = l" by (rule step_result [OF 4(5) run])+
    have "hword l right = clean (hnext l right)" by (rule word_clean [OF 4(2,1)])
    then show ?thesis unfolding e using gap_next [OF inv F(6) 4(4)] by (simp add: solo_less_iff)
  qed
qed

lemma key_gap_set_next [simp]: "key_gap (set_next c p l) a = key_gap l a"
  by (simp add: key_gap_def)

lemma dec_find3:
  assumes T: "thinv l t P seen (LFind3 op left right rn)" and run: "l_step (LFind3 op left right rn) l = Inr (pc', l')"
  shows "((pc', l'), (LFind3 op left right rn, l)) \<in> solo_less"
proof -
  note inv = thinvD(1) [OF T]
  have f: "find_ok l t P seen (lop_key op) left right" and r: "right \<noteq> t" "hnext l right = tp_addr rn" "\<not> tp_freeze rn"
    using thinvD(4) [OF T] by simp_all
  note F = find_facts [OF inv f]
  show ?thesis
  proof (cases "hword l left = clean right")
    case False
    then have e: "pc' = LFind0 op" "l' = l" using run F(3) by (simp_all add: cas_dom)
    show ?thesis unfolding e using False by (simp add: solo_less_iff)
  next
    case True
    then have e: "pc' = LFind2 op left (hnext l right)" "l' = set_next left (tp_unset_mark rn) l"
      using run F(3) r(2) by (auto simp: cas_dom tp_defs)
    have "tp_unset_mark rn = clean (hnext l right)" using r(2,3) by (cases rn) (simp add: tp_defs)
    then show ?thesis unfolding e using True gap_next [OF inv F(6) r(1)] by (simp add: solo_less_iff)
  qed
qed

lemma dec_ins:
  assumes T: "thinv l t P seen (LIns k v left right new)" and run: "l_step (LIns k v left right new) l = Inr (pc', l')"
  shows "((pc', l'), (LIns k v left right new, l)) \<in> solo_less"
proof -
  have f: "find_ok l t P seen k left right" using thinvD(4) [OF T] by simp
  note F = find_facts [OF thinvD(1) [OF T] f]
  have "pc' = (if hword l left = clean right then LCount k v else LFind0 (LInsert k v))" using run F(3) by (auto simp: cas_dom split: if_splits)
  then show ?thesis by (simp add: solo_less_iff)
qed

lemma dec_rem:
  assumes T: "thinv l t P seen pc" and pc: "pc = LRem1 k left right \<or> pc = LRem2 k left right rn \<or> pc = LRem3 k left right rn"
    and run: "l_step pc l = Inr (pc', l')"
  shows "((pc', l'), (pc, l)) \<in> solo_less"
proof -
  have r: "rem_ok l t P seen k left right" using thinvD(4) [OF T] pc by auto
  note F = rem_facts [OF thinvD(1,3) [OF T] r]
  from pc consider "pc = LRem1 k left right" | "pc = LRem2 k left right rn" | "pc = LRem3 k left right rn" by blast
  then show ?thesis
  proof cases
    case 1
    have "l_step (LRem1 k left right) l
        = Inr (if hmark l right then LRem3 k left right (hword l right) else LRem2 k left right (hword l right), l)"
      using F(6) by (simp add: load_dom the_sel hword_parts)
    note step_result [OF this run [unfolded 1]]
    then show ?thesis unfolding 1 by (simp add: solo_less_iff)
  next
    case 2
    then have "pc' = (if hword l right = rn then LRem3 k left right rn else LFind0 (LRemove k))"
      using run F(6) by (auto simp: cas_dom split: if_splits)
    then show ?thesis unfolding 2 by (simp add: solo_less_iff)
  next
    case 3
    have "\<exists>r. pc' = LDone (LRemove k) r"
      using run F(4,6) unfolding 3 by (auto simp: bind_res_Inr_iff split: if_splits prod.splits)
    then show ?thesis unfolding 3 by (auto simp: solo_less_iff)
  qed
qed

lemma dec_srch:
  assumes T: "thinv l t P seen (LSrch k cur)" and run: "l_step (LSrch k cur) l = Inr (pc', l')"
  shows "((pc', l'), (LSrch k cur, l)) \<in> solo_less"
proof -
  note inv = thinvD(1) [OF T]
  have d: "cur \<in> hdom l" by (rule srch_dom [OF inv thinvD(3,4) [OF T]])
  show ?thesis
  proof (cases "hkey l cur < k")
    case True
    have "l_step (LSrch k cur) l = Inr (LSrch k (hnext l cur), l)" using True d by (simp add: load_dom the_sel hword_parts tp_defs)
    note e = step_result [OF this run]
    have "cur \<noteq> t" using True head_facts(8) [OF inv] le_key_max [of k] by (auto simp: not_le [symmetric])
    then show ?thesis unfolding e using gap_next [OF inv d] by (simp add: solo_less_iff)
  next
    case False
    then have "l_step (LSrch k cur) l = Inr (LDone (LSearch k) (RBool (hkey l cur = k \<and> \<not> hmark l cur)), l)"
      using d by (simp add: load_dom the_sel hword_parts)
    note e = step_result [OF this run]
    show ?thesis unfolding e by (simp add: solo_less_iff)
  qed
qed

lemma dec_col14:
  assumes inv: "linv l t P" and c: "col_ok l t left acc"
  shows "l_step (LCol1 left acc) l = Inr (pc', l') \<Longrightarrow> ((pc', l'), (LCol1 left acc, l)) \<in> solo_less"
    "l_step (LCol2 left acc) l = Inr (pc', l') \<Longrightarrow> ((pc', l'), (LCol2 left acc, l)) \<in> solo_less"
    "l_step (LCol3 left acc) l = Inr (pc', l') \<Longrightarrow> ((pc', l'), (LCol3 left acc, l)) \<in> solo_less"
    "l_step (LCol4 left cn acc) l = Inr (pc', l') \<Longrightarrow> ((pc', l'), (LCol4 left cn acc, l)) \<in> solo_less"
proof -
  have d: "left \<in> hdom l" by (rule P_dom [OF inv col_P [OF inv c]])
  show "((pc', l'), (LCol1 left acc, l)) \<in> solo_less" if "l_step (LCol1 left acc) l = Inr (pc', l')"
  proof -
    have "pc' = LCol2 left acc \<and> l' = l \<or> (\<exists>r. pc' = LDone LCollect r)" using that by (auto simp: bind_res_Inr_iff split: if_splits)
    then show ?thesis by (auto simp: solo_less_iff)
  qed
  show "((pc', l'), (LCol2 left acc, l)) \<in> solo_less" if "l_step (LCol2 left acc) l = Inr (pc', l')"
  proof -
    have "(pc' = LCol5 left acc \<or> pc' = LCol3 left acc) \<and> l' = l" using that by (auto simp: bind_res_Inr_iff split: if_splits)
    then show ?thesis by (auto simp: solo_less_iff)
  qed
  show "((pc', l'), (LCol3 left acc, l)) \<in> solo_less" if "l_step (LCol3 left acc) l = Inr (pc', l')"
  proof -
    have "l_step (LCol3 left acc) l = Inr (LCol4 left (hword l left) acc, l)" using d by (simp add: load_dom the_sel)
    note e = step_result [OF this that]
    show ?thesis unfolding e by (simp add: solo_less_iff)
  qed
  show "((pc', l'), (LCol4 left cn acc, l)) \<in> solo_less" if "l_step (LCol4 left cn acc) l = Inr (pc', l')"
  proof (cases "hword l left = cn")
    case True
    then have "l_step (LCol4 left cn acc) l = Inr (LCol5 left acc, set_next left (tp_set_freeze cn) l)" using d by (simp add: cas_dom)
    note e = step_result [OF this that]
    show ?thesis unfolding e using True by (simp add: solo_less_iff)
  next
    case False
    then have "l_step (LCol4 left cn acc) l = Inr (LCol3 left acc, l)" using d by (simp add: cas_dom)
    note e = step_result [OF this that]
    show ?thesis unfolding e using False by (simp add: solo_less_iff)
  qed
qed

lemma dec_col5:
  assumes T: "thinv l t P seen (LCol5 left acc)" and run: "l_step (LCol5 left acc) l = Inr (pc', l')"
  shows "((pc', l'), (LCol5 left acc, l)) \<in> solo_less"
proof -
  note inv = thinvD(1) [OF T]
  have c: "col_ok l t left acc" "left \<noteq> t" using thinvD(4) [OF T] by simp_all
  have d: "left \<in> hdom l" by (rule P_dom [OF inv col_P [OF inv c(1)]])
  have nd: "hnext l left \<in> hdom l" by (rule P_dom [OF inv next_facts(1) [OF inv d c(2)]])
  have "l_step (LCol5 left acc) l = Inr (LCol1 (hnext l left) (if hmark l left then acc else acc @ [next_pair l left]), l)"
    using d nd by (simp add: load_dom the_sel hword_parts tp_defs Let_def next_pair_def)
  note e = step_result [OF this run]
  show ?thesis unfolding e using gap_next [OF inv d c(2)] by (simp add: solo_less_iff)
qed

lemma step_decreases:
  assumes T: "thinv l t P seen pc" and run: "l_step pc l = Inr (pc', l')" and busy: "\<And>op r. pc \<noteq> LDone op r"
  shows "((pc', l'), (pc, l)) \<in> solo_less"
proof (cases pc)
  case (LFind0 op)
  show ?thesis unfolding LFind0 by (rule dec_find0 [OF T [unfolded LFind0] run [unfolded LFind0]])
next
  case (LFind1 op)
  show ?thesis unfolding LFind1 by (rule dec_find1 [OF T [unfolded LFind1] run [unfolded LFind1]])
next
  case (LFind2 op left right)
  show ?thesis unfolding LFind2 by (rule dec_find2 [OF T [unfolded LFind2] run [unfolded LFind2]])
next
  case (LFind3 op left right rn)
  show ?thesis unfolding LFind3 by (rule dec_find3 [OF T [unfolded LFind3] run [unfolded LFind3]])
next
  case (LIns k v left right new)
  show ?thesis unfolding LIns by (rule dec_ins [OF T [unfolded LIns] run [unfolded LIns]])
next
  case (LCount k v)
  show ?thesis using run unfolding LCount by (auto simp: solo_less_iff)
next
  case (LRem1 k left right)
  show ?thesis by (rule dec_rem [OF T _ run]) (use LRem1 in blast)
next
  case (LRem2 k left right rn)
  show ?thesis by (rule dec_rem [OF T _ run]) (use LRem2 in blast)
next
  case (LRem3 k left right rn)
  show ?thesis by (rule dec_rem [OF T _ run]) (use LRem3 in blast)
next
  case (LSrch k cur)
  show ?thesis unfolding LSrch by (rule dec_srch [OF T [unfolded LSrch] run [unfolded LSrch]])
next
  case (LCol1 left acc)
  have "col_ok l t left acc" using thinvD(4) [OF T] LCol1 by simp
  from dec_col14(1) [OF thinvD(1) [OF T] this run [unfolded LCol1]] show ?thesis unfolding LCol1 .
next
  case (LCol2 left acc)
  have "col_ok l t left acc" using thinvD(4) [OF T] LCol2 by simp
  from dec_col14(2) [OF thinvD(1) [OF T] this run [unfolded LCol2]] show ?thesis unfolding LCol2 .
next
  case (LCol3 left acc)
  have "col_ok l t left acc" using thinvD(4) [OF T] LCol3 by simp
  from dec_col14(3) [OF thinvD(1) [OF T] this run [unfolded LCol3]] show ?thesis unfolding LCol3 .
next
  case (LCol4 left cn acc)
  have "col_ok l t left acc" using thinvD(4) [OF T] LCol4 by simp
  from dec_col14(4) [OF thinvD(1) [OF T] this run [unfolded LCol4]] show ?thesis unfolding LCol4 .
next
  case (LCol5 left acc)
  show ?thesis unfolding LCol5 by (rule dec_col5 [OF T [unfolded LCol5] run [unfolded LCol5]])
qed (use busy thinvD(5) [OF T] in blast)+

section \<open>A thread alone\<close>

fun l_alone :: "nat \<Rightarrow> lpc \<Rightarrow> Linked_List \<Rightarrow> (lpc \<times> Linked_List) res" where
  "l_alone 0 pc l = Inl OutOfFuel"
| "l_alone (Suc n) (LDone op r) l = Inr (LDone op r, l)"
| "l_alone (Suc n) pc l = bind_res (l_step pc l) (\<lambda>(pc', l'). l_alone n pc' l')"

lemma alone_step: "(\<And>op r. pc \<noteq> LDone op r) \<Longrightarrow> l_alone (Suc n) pc l = bind_res (l_step pc l) (\<lambda>(pc', l'). l_alone n pc' l')"
  by (cases pc) auto

lemma alone_ends:
  assumes "thinv l t P seen pc"
  shows "\<exists>n. (\<exists>op r l'. l_alone n pc l = Inr (LDone op r, l') \<and> pc_op pc = Some op)
    \<or> l_alone n pc l = Inl NullDeref \<and> (\<exists>k. pc_op pc = Some (LRemove k))"
  using assms
proof (induction "(pc, l)" arbitrary: pc l P seen rule: wf_induct_rule [OF wf_solo])
  case (1 pc l)
  show ?case
  proof (cases "\<exists>op r. pc = LDone op r")
    case True
    then obtain op r where "pc = LDone op r" by blast
    then show ?thesis by (intro exI [of _ "Suc 0"]) simp
  next
    case False
    then have nd: "pc \<noteq> LDone op r" for op r by blast
    from thinv_step [OF "1.prems"] show ?thesis
    proof
      assume "\<exists>pc' l' P'. l_step pc l = Inr (pc', l') \<and> thinv l' t P' (insert l' seen) pc' \<and> pc_op pc' = pc_op pc
        \<and> effect pc pc' l l' \<and> lgood t l P l' P'"
      then obtain pc' l' P' where s: "l_step pc l = Inr (pc', l')" "thinv l' t P' (insert l' seen) pc'" "pc_op pc' = pc_op pc" by blast
      obtain n where n: "(\<exists>op r l''. l_alone n pc' l' = Inr (LDone op r, l'') \<and> pc_op pc' = Some op)
          \<or> l_alone n pc' l' = Inl NullDeref \<and> (\<exists>k. pc_op pc' = Some (LRemove k))"
        using "1.hyps" [OF step_decreases [OF "1.prems" s(1) nd] s(2)] by blast
      have "l_alone (Suc n) pc l = l_alone n pc' l'" using alone_step [OF nd] s(1) by simp
      then show ?thesis using n s(3) by (intro exI [of _ "Suc n"]) simp
    next
      assume e: "l_step pc l = Inl NullDeref \<and> unlink_lost l pc"
      then have "\<exists>k. pc_op pc = Some (LRemove k)" by (cases pc) auto
      moreover have "l_alone (Suc 0) pc l = Inl NullDeref" using alone_step [OF nd] e by simp
      ultimately show ?thesis by blast
    qed
  qed
qed

section \<open>What an operation does when it runs alone\<close>

text \<open>Between two contents of the list; \<open>fz\<close> says that some word is frozen.\<close>

fun alone_spec :: "lop \<Rightarrow> lret \<Rightarrow> (key_t \<rightharpoonup> val_t) \<Rightarrow> (key_t \<rightharpoonup> val_t) \<Rightarrow> bool \<Rightarrow> bool" where
  "alone_spec (LInsert k v) (RInt i) c c' fz \<longleftrightarrow> i = 1 \<and> c k = None \<and> v \<noteq> tombstone \<and> c' = c(k \<mapsto> v)
     \<or> i = 0 \<and> (c k \<noteq> None \<or> v = tombstone) \<and> c' = c \<or> i = - 1 \<and> fz \<and> c' = c"
| "alone_spec (LRemove k) (RInt i) c c' fz \<longleftrightarrow> (case c k of None \<Rightarrow> i = - 2 \<and> c' = c | Some v \<Rightarrow> i = to_int32 v \<and> c' = c(k := None))
     \<or> i = - 1 \<and> fz \<and> c' = c"
| "alone_spec (LSearch k) (RBool b) c c' fz \<longleftrightarrow> b = (c k \<noteq> None) \<and> c' = c"
| "alone_spec LCollect (RList kvs) c c' fz \<longleftrightarrow> c' = c"
| "alone_spec _ _ c c' fz \<longleftrightarrow> False"

definition some_frozen :: "Linked_List \<Rightarrow> bool" where
  "some_frozen l \<longleftrightarrow> (\<exists>a \<in> hdom l. hfrozen l a)"

definition same_content :: "(key_t \<rightharpoonup> val_t) \<Rightarrow> Linked_List set \<Rightarrow> bool" where
  "same_content c seen \<longleftrightarrow> (\<forall>s \<in> seen. ll_content s = c)"

text \<open>What holds at each point when no other thread has moved since the call: the words read are up to date, and the
  content has changed by the effect of the operation only.\<close>

fun alone_at :: "(key_t \<rightharpoonup> val_t) \<Rightarrow> Linked_List set \<Rightarrow> Linked_List \<Rightarrow> lpc \<Rightarrow> bool" where
  "alone_at c seen l (LFind1 op) \<longleftrightarrow> same_content c seen \<and> \<not> hfrozen l (ll_head l)"
| "alone_at c seen l (LFind2 op left right) \<longleftrightarrow> same_content c seen \<and> hword l left = clean right"
| "alone_at c seen l (LFind3 op left right rn) \<longleftrightarrow> same_content c seen \<and> hword l left = clean right"
| "alone_at c seen l (LIns k v left right new) \<longleftrightarrow> same_content c seen \<and> hword l left = clean right \<and> v \<noteq> tombstone"
| "alone_at c seen l (LCount k v) \<longleftrightarrow> c k = None \<and> v \<noteq> tombstone \<and> ll_content l = c(k \<mapsto> v)"
| "alone_at c seen l (LRem1 k left right) \<longleftrightarrow> same_content c seen \<and> hword l left = clean right \<and> \<not> hmark l right"
| "alone_at c seen l (LRem2 k left right rn) \<longleftrightarrow> same_content c seen \<and> hword l left = clean right \<and> hword l right = rn"
| "alone_at c seen l (LRem3 k left right rn) \<longleftrightarrow> hword l left = clean right \<and> c k = Some (hval l right) \<and> ll_content l = c(k := None)"
| "alone_at c seen l (LDone op r) \<longleftrightarrow> alone_spec op r c (ll_content l) (some_frozen l)"
| "alone_at c seen l _ \<longleftrightarrow> same_content c seen"

lemma same_contentD:
  assumes "same_content c seen"
  shows "absent seen k \<Longrightarrow> c k = None" "present seen k \<Longrightarrow> c k \<noteq> None" "s \<in> seen \<Longrightarrow> ll_content s = c"
  using assms by (auto simp: same_content_def absent_def present_def)

lemma same_content_insert: "same_content c seen \<Longrightarrow> ll_content l = c \<Longrightarrow> same_content c (insert l seen)"
  by (simp add: same_content_def)

lemma frozen_alone: "a \<in> hdom l \<Longrightarrow> hfrozen l a \<Longrightarrow> is_upd op \<Longrightarrow> ll_content l = c \<Longrightarrow> alone_at c seen l (LDone op (RInt (- 1)))"
  by (cases op) (auto simp: some_frozen_def)

lemma alone_find01:
  assumes T: "thinv l t P seen pc" and a: "alone_at c seen l pc" and pc: "pc = LFind0 op \<or> pc = LFind1 op"
    and run: "l_step pc l = Inr (pc', l')"
  shows "alone_at c (insert l' seen) l' pc'"
proof -
  note inv = thinvD(1) [OF T] and l = thinvD(2) [OF T] and hd = head_facts [OF thinvD(1) [OF T]]
  have up: "is_upd op" using thinvD(4) [OF T] pc by auto
  have c: "same_content c seen" using a pc by auto
  note ct = same_contentD(3) [OF c l]
  have ins: "insert l seen = seen" using l by blast
  from pc show ?thesis
  proof
    assume pc: "pc = LFind0 op"
    have "l_step pc l = Inr (if hfrozen l (ll_head l) then LDone op (RInt (- 1)) else LFind1 op, l)"
      unfolding pc using hd(2) by (simp add: load_dom the_sel hword_parts)
    note e = step_result [OF this run]
    show ?thesis unfolding e using frozen_alone [OF hd(2) _ up ct] c ins by simp
  next
    assume pc: "pc = LFind1 op"
    have "l_step pc l = Inr (LFind2 op (ll_head l) (hnext l (ll_head l)), l)"
      unfolding pc using hd(2) by (simp add: load_dom the_sel hword_parts tp_defs)
    note e = step_result [OF this run]
    have "\<not> hfrozen l (ll_head l)" using a pc by simp
    then show ?thesis unfolding e using word_clean [OF hd(4)] c ins by simp
  qed
qed

lemma alone_find2:
  assumes T: "thinv l t P seen (LFind2 op left right)" and a: "alone_at c seen l (LFind2 op left right)"
    and run: "l_step (LFind2 op left right) l = Inr (pc', l')"
    and T': "thinv l' t P' (insert l' seen) pc'" and eff: "effect (LFind2 op left right) pc' l l'"
  shows "alone_at c (insert l' seen) l' pc'"
proof -
  note inv = thinvD(1) [OF T] and l = thinvD(2) [OF T]
  have up: "is_upd op" and f: "find_ok l t P seen (lop_key op) left right" using thinvD(4) [OF T] by simp_all
  have c: "same_content c seen" "hword l left = clean right" using a by simp_all
  note F = find_facts [OF inv f] and ct = same_contentD(3) [OF c(1) l]
  have ct': "ll_content l' = c" using eff ct by simp
  note c' = same_content_insert [OF c(1) ct']
  show ?thesis
  proof (cases rule: find2_cases [OF inv f])
    case 1
    note e = step_result [OF 1(2) run]
    show ?thesis unfolding e using frozen_alone [OF F(6) 1(1) up ct] by simp
  next
    case 2
    note e = step_result [OF 2(3) run]
    show ?thesis using c c' unfolding e by simp
  next
    case 3
    have fd: "l_found op left right (hkey l right) l = (pc', l')" using run [unfolded 3(4)] by simp
    show ?thesis
    proof (cases rule: found_cases [OF inv up, of "hkey l right" left right])
      case (1 k v)
      then have e: "pc' = LDone op (RInt 0)" "l' = l" using fd by simp_all
      have "v = tombstone \<or> present (insert l' seen) k" using thinvD(4) [OF T'] unfolding e(1) 1(1) by simp
      then show ?thesis using same_contentD(2) [OF c'] ct' unfolding e(1) 1(1) by auto
    next
      case (2 k v l1)
      then have e: "pc' = LIns k v left right (ll_brk l)" "l' = l1" using fd by simp_all
      have "left \<noteq> ll_brk l" using F(3) alloc_sel(7) [OF inv refl] by blast
      then have "hword l1 left = hword l left" using alloc_sel(3) [OF inv 2(4)] by simp
      then show ?thesis using c c' 2(3) unfolding e by simp
    next
      case (3 k)
      then have e: "pc' = LDone op (RInt (- 2))" "l' = l" using fd by simp_all
      have "absent (insert l' seen) k" using thinvD(4) [OF T'] unfolding e(1) 3(1) by auto
      then show ?thesis using same_contentD(1) [OF c'] ct' unfolding e(1) 3(1) by simp
    next
      case (4 k)
      then have e: "pc' = LRem1 k left right" "l' = l" using fd by simp_all
      show ?thesis using c c' 3(2) unfolding e by simp
    qed
  next
    case 4
    note e = step_result [OF 4(5) run]
    show ?thesis using c' word_clean [OF 4(2,1)] unfolding e by simp
  qed
qed

lemma alone_write:
  assumes T: "thinv l t P seen pc" and a: "alone_at c seen l pc" and run: "l_step pc l = Inr (pc', l')" and eff: "effect pc pc' l l'"
  shows "pc = LFind3 op left right rn \<Longrightarrow> alone_at c (insert l' seen) l' pc'"
    and "pc = LIns k v left right new \<Longrightarrow> alone_at c (insert l' seen) l' pc'"
    and "pc = LCount k v \<Longrightarrow> alone_at c (insert l' seen) l' pc'"
proof -
  note inv = thinvD(1) [OF T] and l = thinvD(2) [OF T]
  show "alone_at c (insert l' seen) l' pc'" if pc: "pc = LFind3 op left right rn"
  proof -
    have f: "find_ok l t P seen (lop_key op) left right" and r: "hnext l right = tp_addr rn" "\<not> tp_freeze rn" using thinvD(4) [OF T] pc by simp_all
    note F = find_facts [OF inv f]
    have c: "same_content c seen" "hword l left = clean right" using a pc by simp_all
    have "l_step pc l = Inr (LFind2 op left (hnext l right), set_next left (tp_unset_mark rn) l)"
      unfolding pc using F(3) r(1) c(2) by (simp add: cas_dom tp_defs)
    note e = step_result [OF this run]
    have "ll_content l' = c" using eff same_contentD(3) [OF c(1) l] pc by simp
    moreover have "tp_unset_mark rn = clean (hnext l right)" using r by (cases rn) (simp add: tp_defs)
    ultimately show ?thesis using same_content_insert [OF c(1)] unfolding e by simp
  qed
  show "alone_at c (insert l' seen) l' pc'" if pc: "pc = LIns k v left right new"
  proof -
    have f: "find_ok l t P seen k left right" using thinvD(4) [OF T] pc by simp
    have c: "same_content c seen" "hword l left = clean right" "v \<noteq> tombstone" using a pc by simp_all
    have "l_step pc l = Inr (LCount k v, set_next left (clean new) l)"
      unfolding pc using find_facts(3) [OF inv f] c(2) by (simp add: cas_dom)
    note e = step_result [OF this run]
    show ?thesis using eff same_contentD(3) [OF c(1) l] c(3) unfolding pc e(1) by simp
  qed
  show "alone_at c (insert l' seen) l' pc'" if pc: "pc = LCount k v"
  proof -
    have "l_step pc l = Inr (LDone (LInsert k v) (RInt 1), l\<lparr>ll_count := ll_count l + 1\<rparr>)" unfolding pc by simp
    note e = step_result [OF this run]
    show ?thesis using eff a unfolding pc e(1) by simp
  qed
qed

lemma alone_rem12:
  assumes T: "thinv l t P seen pc" and a: "alone_at c seen l pc" and run: "l_step pc l = Inr (pc', l')"
  shows "pc = LRem1 k left right \<Longrightarrow> alone_at c (insert l' seen) l' pc'"
    and "pc = LRem2 k left right rn \<Longrightarrow> alone_at c (insert l' seen) l' pc'"
proof -
  note inv = thinvD(1) [OF T] and l = thinvD(2) [OF T]
  show "alone_at c (insert l' seen) l' pc'" if pc: "pc = LRem1 k left right"
  proof -
    have r: "rem_ok l t P seen k left right" using thinvD(4) [OF T] pc by simp
    note F = rem_facts [OF inv thinvD(3) [OF T] r]
    have c: "same_content c seen" "hword l left = clean right" "\<not> hmark l right" using a pc by simp_all
    have "l_step pc l = Inr (LRem2 k left right (hword l right), l)" unfolding pc using F(6) c(3) by (simp add: load_dom the_sel hword_parts)
    note e = step_result [OF this run]
    have "insert l seen = seen" using l by blast
    then show ?thesis using c unfolding e by simp
  qed
  show "alone_at c (insert l' seen) l' pc'" if pc: "pc = LRem2 k left right rn"
  proof -
    have r: "rem_ok l t P seen k left right" "\<not> tp_mark rn" using thinvD(4) [OF T] pc by simp_all
    note F = rem_facts [OF inv thinvD(3) [OF T] r(1)]
    have c: "same_content c seen" "hword l left = clean right" "hword l right = rn" using a pc by simp_all
    have um: "\<not> hmark l right" using c(3) r(2) by (simp add: hword_parts)
    have ne: "left \<noteq> right" using r(1) F(7,9) by (auto simp: rem_ok_def find_ok_def left_ok_def)
    have "l_step pc l = Inr (LRem3 k left right rn, set_next right (tp_set_mark rn) l)" unfolding pc using F(6) c(3) by (simp add: cas_dom)
    note e = step_result [OF this run]
    note g = mark_good(2,3) [OF inv F(5,8,7) um, unfolded c(3) F(9) same_contentD(3) [OF c(1) l]]
    show ?thesis using g c(2) ne unfolding e by simp
  qed
qed

lemma alone_rem3:
  assumes T: "thinv l t P seen pc" and a: "alone_at c seen l pc" and pc: "pc = LRem3 k left right rn"
    and run: "l_step pc l = Inr (pc', l')" and eff: "effect pc pc' l l'"
  shows "alone_at c (insert l' seen) l' pc'"
proof -
  have r: "rem_ok l t P seen k left right" using thinvD(4) [OF T] pc by simp
  note F = rem_facts [OF thinvD(1,3) [OF T] r]
  have c: "hword l left = clean right" "c k = Some (hval l right)" "ll_content l = c(k := None)" using a pc by simp_all
  have "l_step pc l = Inr (LDone (LRemove k) (RInt (to_int32 (hval l right))), set_next left (tp_unset_mark rn) l)"
    unfolding pc using F(4,6) c(1) by (simp add: load_dom the_sel cas_dom)
  note e = step_result [OF this run]
  have "ll_content l' = c(k := None)" using eff c(3) unfolding pc e(1) by simp
  then show ?thesis using c(2) unfolding e(1) by simp
qed

lemma alone_srch:
  assumes T: "thinv l t P seen (LSrch k cur)" and a: "alone_at c seen l (LSrch k cur)" and run: "l_step (LSrch k cur) l = Inr (pc', l')"
    and T': "thinv l' t P' (insert l' seen) pc'"
  shows "alone_at c (insert l' seen) l' pc'"
proof -
  note l = thinvD(2) [OF T]
  have d: "cur \<in> hdom l" by (rule srch_dom [OF thinvD(1,3,4) [OF T]])
  have c: "same_content c seen" using a by simp
  note ct = same_contentD(3) [OF c l]
  show ?thesis
  proof (cases "hkey l cur < k")
    case True
    have "l_step (LSrch k cur) l = Inr (LSrch k (hnext l cur), l)" using True d by (simp add: load_dom the_sel hword_parts tp_defs)
    note e = step_result [OF this run]
    show ?thesis using same_content_insert [OF c ct] unfolding e by simp
  next
    case False
    define b where "b = (hkey l cur = k \<and> \<not> hmark l cur)"
    have "l_step (LSrch k cur) l = Inr (LDone (LSearch k) (RBool b), l)"
      using False d by (simp add: load_dom the_sel hword_parts b_def)
    note e = step_result [OF this run]
    have "if b then present (insert l seen) k else absent (insert l seen) k" using thinvD(4) [OF T'] unfolding e by simp
    then have "b = (c k \<noteq> None)" using same_contentD(1,2) [OF same_content_insert [OF c ct]] by (auto split: if_splits)
    then show ?thesis using ct unfolding e by simp
  qed
qed

lemma alone_col:
  assumes T: "thinv l t P seen pc" and a: "alone_at c seen l pc" and pc: "pc_op pc = Some LCollect" "\<And>op r. pc \<noteq> LDone op r"
    and T': "thinv l' t P' (insert l' seen) pc'" and eff: "effect pc pc' l l'" and op: "pc_op pc' = pc_op pc"
  shows "alone_at c (insert l' seen) l' pc'"
proof -
  have c: "same_content c seen \<and> (\<forall>pc'. effect pc pc' l l' \<longrightarrow> ll_content l' = ll_content l)"
    using a pc thinvD(4) [OF T] by (cases pc) auto
  have ct: "ll_content l' = c" using c eff same_contentD(3) [of c seen l] thinvD(2) [OF T] by auto
  note c' = same_content_insert [OF conjunct1 [OF c] ct]
  have p: "pc_ok l' t P' (insert l' seen) pc'" "pc_op pc' = Some LCollect" using thinvD(4) [OF T'] op pc(1) by simp_all
  show ?thesis
  proof (cases pc')
    case (LDone op r)
    then show ?thesis using p ct by (cases r) auto
  qed (use p c' in auto)
qed

lemma alone_step_at:
  assumes T: "thinv l t P seen pc" and a: "alone_at c seen l pc" and nd: "\<And>op r. pc \<noteq> LDone op r"
  obtains pc' l' P' where "l_step pc l = Inr (pc', l')" "thinv l' t P' (insert l' seen) pc'" "pc_op pc' = pc_op pc"
    "alone_at c (insert l' seen) l' pc'"
proof -
  have no: "\<not> unlink_lost l pc" using a by (cases pc) (auto simp: hword_parts)
  then obtain pc' l' P' where s: "l_step pc l = Inr (pc', l')" "thinv l' t P' (insert l' seen) pc'" "pc_op pc' = pc_op pc" "effect pc pc' l l'"
    using thinv_step [OF T] by blast
  have "alone_at c (insert l' seen) l' pc'"
  proof (cases "pc_op pc = Some LCollect")
    case True
    then show ?thesis using alone_col [OF T a True nd s(2,4,3)] by blast
  next
    case False
    note w = alone_write [OF T a s(1,4)] and r = alone_rem12 [OF T a s(1)]
    show ?thesis
    proof (cases pc)
      case (LFind0 op)
      then show ?thesis using alone_find01 [OF T a _ s(1)] by blast
    next
      case (LFind1 op)
      then show ?thesis using alone_find01 [OF T a _ s(1)] by blast
    next
      case (LFind2 op left right)
      show ?thesis by (rule alone_find2 [OF T [unfolded LFind2] a [unfolded LFind2] s(1) [unfolded LFind2] s(2) s(4) [unfolded LFind2]])
    next
      case (LRem3 k left right rn)
      show ?thesis by (rule alone_rem3 [OF T a LRem3 s(1,4)])
    next
      case (LSrch k cur)
      show ?thesis by (rule alone_srch [OF T [unfolded LSrch] a [unfolded LSrch] s(1) [unfolded LSrch] s(2)])
    next
      case (LFind3 op left right rn)
      show ?thesis by (rule w(1) [OF LFind3])
    next
      case (LIns k v left right new)
      show ?thesis by (rule w(2) [OF LIns])
    next
      case (LCount k v)
      show ?thesis by (rule w(3) [OF LCount])
    next
      case (LRem1 k left right)
      show ?thesis by (rule r(1) [OF LRem1])
    next
      case (LRem2 k left right rn)
      show ?thesis by (rule r(2) [OF LRem2])
    qed (use nd False thinvD(5) [OF T] in simp_all)
  qed
  then show ?thesis using that s by blast
qed

lemma alone_correct:
  assumes "thinv l t P seen pc" and "alone_at c seen l pc" and "pc_op pc = Some op"
  shows "\<exists>n r l'. l_alone n pc l = Inr (LDone op r, l') \<and> alone_spec op r c (ll_content l') (some_frozen l')"
  using assms
proof (induction "(pc, l)" arbitrary: pc l P seen rule: wf_induct_rule [OF wf_solo])
  case (1 pc l)
  show ?case
  proof (cases "\<exists>op r. pc = LDone op r")
    case True
    then obtain r where "pc = LDone op r" using "1.prems"(3) by auto
    then show ?thesis using "1.prems"(2) by (intro exI [of _ "Suc 0"] exI [of _ r] exI [of _ l]) simp
  next
    case False
    then have nd: "pc \<noteq> LDone op r" for op r by blast
    obtain pc' l' P' where s: "l_step pc l = Inr (pc', l')" "thinv l' t P' (insert l' seen) pc'" "pc_op pc' = pc_op pc"
      "alone_at c (insert l' seen) l' pc'" by (rule alone_step_at [OF "1.prems"(1,2) nd])
    obtain n r l2 where n: "l_alone n pc' l' = Inr (LDone op r, l2)" "alone_spec op r c (ll_content l2) (some_frozen l2)"
      using "1.hyps" [OF step_decreases [OF "1.prems"(1) s(1) nd] s(2,4)] s(3) "1.prems"(3) by auto
    have "l_alone (Suc n) pc l = l_alone n pc' l'" using alone_step [OF nd] s(1) by simp
    then show ?thesis using n by metis
  qed
qed

section \<open>Properties\<close>

text \<open>C15. Whatever the other threads have done and wherever they stand, a thread that runs alone from the middle
  of an operation ends it after finitely many steps; only a removal can fail on the way, at its read through a
  tagged word.\<close>

theorem ll_conc_ends_alone:
  assumes "lreach c0 s" and "sl_pc s i \<noteq> LIdle"
  shows "\<exists>n. (\<exists>op r l'. l_alone n (sl_pc s i) (sl_list s) = Inr (LDone op r, l') \<and> pc_op (sl_pc s i) = Some op)
    \<or> l_alone n (sl_pc s i) (sl_list s) = Inl NullDeref \<and> (\<exists>k. pc_op (sl_pc s i) = Some (LRemove k))"
proof -
  obtain P where "linv (sl_list s) 1 P" "sl_list s \<in> sl_seen s i" "hist_ok 1 (sl_list s) P (sl_seen s i)"
    "pc_ok (sl_list s) 1 P (sl_seen s i) (sl_pc s i)" using reach_thread [OF assms] by blast
  then show ?thesis using assms(2) by (intro alone_ends) (auto simp: thinv_def)
qed

text \<open>C14. An operation that is called in any reachable state, with other threads stopped in the middle of theirs, marked
  nodes still linked and words frozen, and that then runs alone, returns without a failure and does to the content what
  its specification says: an insertion adds its pair exactly when the key is absent and the value is not the
  tombstone, a removal of a present key returns its value and takes it out, a search answers whether the key is
  present, and the answer -1, after which nothing has changed, is given only when some word is frozen.\<close>

theorem ll_conc_correct_alone:
  assumes "lreach c0 s" and "lop_ok op"
  shows "\<exists>n r l'. l_alone n (l_start op (sl_list s)) (sl_list s) = Inr (LDone op r, l')
    \<and> alone_spec op r (ll_content (sl_list s)) (ll_content l') (some_frozen l')"
proof -
  let ?l = "sl_list s"
  obtain P where inv: "linv ?l 1 P" using reach_inv [OF assms(1)] by blast
  note st = start_ok [OF inv assms(2)]
  have "l_start op ?l \<noteq> LIdle" by (cases op) auto
  then have "thinv ?l 1 P {?l} (l_start op ?l)" using inv st(1) hist_init [OF inv] by (simp add: thinv_def)
  moreover have "alone_at (ll_content ?l) {?l} ?l (l_start op ?l)" by (cases op) (auto simp: same_content_def)
  ultimately show ?thesis using alone_correct st(3) by blast
qed

theorem ll_conc_ends_alone_witness:
  "\<exists>s n op r l'. lreach 0 s \<and> sl_pc s 0 = LIns 5 7 2 1 3 \<and> l_alone n (LIns 5 7 2 1 3) (sl_list s) = Inr (LDone op r, l')"
proof (rule state_linking)
  fix s
  assume s: "lreach 0 s" "sl_pc s 0 = LIns 5 7 2 1 3"
  have "sl_pc s 0 \<noteq> LIdle" using s(2) by simp
  from ll_conc_ends_alone [OF s(1) this] obtain n op r l' where "l_alone n (LIns 5 7 2 1 3) (sl_list s) = Inr (LDone op r, l')"
    unfolding s(2) by auto
  then show ?thesis using s by (intro exI [of _ s] exI [of _ n] exI [of _ op] exI [of _ r] exI [of _ l']) simp
qed

theorem ll_conc_correct_alone_witness:
  "\<exists>s n l'. lreach 0 s \<and> sl_pc s 0 = LIns 5 7 2 1 3
     \<and> l_alone n (LSrch 5 (ll_head (sl_list s))) (sl_list s) = Inr (LDone (LSearch 5) (RBool False), l')"
proof (rule state_linking)
  fix s
  assume s: "lreach 0 s" "sl_pc s 0 = LIns 5 7 2 1 3" "ll_content (sl_list s) 5 = None"
  have "lop_ok (LSearch 5)" by simp
  from ll_conc_correct_alone [OF s(1) this] obtain n r l' where
    "l_alone n (LSrch 5 (ll_head (sl_list s))) (sl_list s) = Inr (LDone (LSearch 5) r, l')"
    "alone_spec (LSearch 5) r (ll_content (sl_list s)) (ll_content l') (some_frozen l')" by auto
  moreover from this(2) have "r = RBool False" using s(3) by (cases r) auto
  ultimately show ?thesis using s by blast
qed

end
