(* ===== verification/Versions_Conc.thy ===== *)
theory Versions_Conc
  imports Kanva_RS_Model
begin

text \<open>
  The versioned cells of a node (\<open>VersionedArray\<close> of \<open>Kanva_RS/util.h\<close>) and the tracker of timestamps
  together, under every interleaving of threads that read, insert and run range queries.

  \<open>vpc\<close> lists the points of the methods between two accesses to shared words: the head of a cell, the
  timestamp of a version, the tail of the tracker. Values and successors of versions never change, so they
  are read together with the access before, and a new version is built together with the access before its
  publication. The steps of the tracker are those of \<open>Version_Tracker\<close>. The log of answered queries,
  \<open>cy_ans\<close>, is an auxiliary variable that no step reads.
\<close>

section \<open>The operations, one shared access at a time\<close>

text \<open>\<open>VGet\<close> is \<open>getValue\<close>, which searches use, \<open>VInsert\<close> is \<open>insert\<close>, \<open>VQuery\<close> is \<open>getVersionedValue\<close> with the
  timestamp of a range query.\<close>

datatype vop = VGet nat | VInsert nat val_t | VQuery nat int

fun v_cell :: "vop \<Rightarrow> nat" where
  "v_cell (VGet c) = c"
| "v_cell (VInsert c v) = c"
| "v_cell (VQuery c T) = c"

text \<open>What follows \<open>init_ts\<close>.\<close>

datatype vnext =
    NRead nat val_t             \<comment> \<open>the value of \<open>read\<close>\<close>
  | NCas nat val_t val_t        \<comment> \<open>\<open>vCAS\<close> with its old value\<close>
  | NNew nat val_t              \<comment> \<open>the end of a successful \<open>vCAS\<close>\<close>
  | NQuery nat int              \<comment> \<open>the walk of \<open>getVersionedValue\<close>\<close>

datatype vpc =
    VIdle
  | VGet0 nat                        \<comment> \<open>before the load of \<open>vhead\<close>\<close>
  | VIns0 nat val_t                  \<comment> \<open>\<open>read\<close>: before its first load of \<open>vhead\<close>\<close>
  | VIns1 nat val_t                  \<comment> \<open>before its second load of \<open>vhead\<close>\<close>
  | VCas0 nat val_t val_t            \<comment> \<open>\<open>vCAS\<close>, the old value: before the load of \<open>vhead\<close>\<close>
  | VCas1 nat val_t tptr tptr        \<comment> \<open>\<open>head\<close>, \<open>new_node\<close>: before the compare-exchange of \<open>vhead\<close>\<close>
  | VQuery0 nat int                  \<comment> \<open>before the load of \<open>vhead\<close>\<close>
  | VInit vnext tptr                 \<comment> \<open>\<open>init_ts\<close>: before the test of \<open>ts\<close>\<close>
  | VClock vnext tptr                \<comment> \<open>before \<open>get_latest_timestamp\<close>\<close>
  | VStamp vnext tptr int            \<comment> \<open>\<open>global_ts\<close>: before the compare-exchange of \<open>ts\<close>\<close>
  | VWalk nat int tptr               \<comment> \<open>\<open>curr_vhead\<close>: before the load of its \<open>ts\<close>\<close>
  | VDone vop "val_t option"

fun v_start :: "vop \<Rightarrow> vpc" where
  "v_start (VGet c) = VGet0 c"
| "v_start (VInsert c v) = VIns0 c v"
| "v_start (VQuery c T) = VQuery0 c T"

text \<open>After \<open>init_ts(p)\<close>.\<close>

fun v_after :: "vnext \<Rightarrow> tptr \<Rightarrow> vmem \<Rightarrow> (vpc \<times> vmem) res" where
  "v_after (NRead c v) p m = Inr (VIns1 c v, m)"
| "v_after (NCas c v old) p m =
     bind_res (vn_load m p) (\<lambda>nd.
       if vn_value nd \<noteq> old then Inr (VIns0 c v, m)
       else if vn_value nd = v then Inr (VDone (VInsert c v) None, m)
       else let (new_node, m') = Vnode_new v p m in Inr (VCas1 c v p new_node, m'))"
| "v_after (NNew c v) p m = Inr (VDone (VInsert c v) None, m)"
| "v_after (NQuery c T) p m = Inr (VWalk c T p, m)"

type_synonym vcells = "VersionedArray list"

definition set_head :: "nat \<Rightarrow> tptr \<Rightarrow> vcells \<Rightarrow> vcells" where
  "set_head c p cs = cs[c := (cs ! c)\<lparr>va_vhead := p\<rparr>]"

definition set_ts :: "tptr \<Rightarrow> int \<Rightarrow> vmem \<Rightarrow> vmem res" where
  "set_ts p g m =
     bind_res (vn_load m p) (\<lambda>nd.
       Inr (if vn_ts nd = - 1 then m\<lparr>vm_heap := (vm_heap m)(tp_addr p \<mapsto> nd\<lparr>vn_ts := g\<rparr>)\<rparr> else m))"

fun cell_step :: "vpc \<Rightarrow> vcells \<Rightarrow> vmem \<Rightarrow> (vpc \<times> vcells \<times> vmem) res" where
  "cell_step VIdle cs m = Inr (VIdle, cs, m)"
| "cell_step (VGet0 c) cs m = bind_res (getValue (cs ! c) m) (\<lambda>v. Inr (VDone (VGet c) (Some v), cs, m))"
| "cell_step (VIns0 c v) cs m = Inr (VInit (NRead c v) (va_vhead (cs ! c)), cs, m)"
| "cell_step (VIns1 c v) cs m =
     bind_res (getValue (cs ! c) m) (\<lambda>curr_value.
       Inr (if curr_value = v then VDone (VInsert c v) None else VCas0 c v curr_value, cs, m))"
| "cell_step (VCas0 c v old) cs m = Inr (VInit (NCas c v old) (tp_unset_mark (va_vhead (cs ! c))), cs, m)"
| "cell_step (VCas1 c v head new_node) cs m =
     Inr (if va_vhead (cs ! c) = head then (VInit (NNew c v) new_node, set_head c new_node cs, m) else (VIns0 c v, cs, m))"
| "cell_step (VQuery0 c T) cs m = Inr (VInit (NQuery c T) (tp_unset_mark (va_vhead (cs ! c))), cs, m)"
| "cell_step (VInit k p) cs m =
     bind_res (vn_load m p) (\<lambda>nd.
       if vn_ts nd = - 1 then Inr (VClock k p, cs, m)
       else bind_res (v_after k p m) (\<lambda>(pc, m'). Inr (pc, cs, m')))"
| "cell_step (VClock k p) cs m =
     bind_res (get_latest_timestamp (vm_tracker m)) (\<lambda>global_ts. Inr (VStamp k p global_ts, cs, m))"
| "cell_step (VStamp k p global_ts) cs m =
     bind_res (set_ts p global_ts m) (\<lambda>m1. bind_res (v_after k p m1) (\<lambda>(pc, m'). Inr (pc, cs, m')))"
| "cell_step (VWalk c T p) cs m =
     (if \<not> tp_true p then Inr (VDone (VQuery c T) (Some (- 1)), cs, m)
      else bind_res (vn_load m p) (\<lambda>nd.
        Inr (if vn_ts nd \<ge> T then VWalk c T (vn_nextv nd)
             else VDone (VQuery c T) (Some (if vn_value nd \<noteq> tombstone then vn_value nd else - 1)), cs, m)))"
| "cell_step (VDone op r) cs m = Inr (VDone op r, cs, m)"

section \<open>Interleavings\<close>

record vsys =
  cy_cells :: vcells
  cy_mem :: vmem
  cy_tpc :: "nat \<Rightarrow> tpc"
  cy_log :: "addr list"
  cy_pc :: "nat \<Rightarrow> vpc"
  cy_ans :: "(nat \<times> int \<times> val_t) list"

definition tsys_of :: "vsys \<Rightarrow> tsys" where
  "tsys_of s = \<lparr>sy_list = vm_tracker (cy_mem s), sy_pc = cy_tpc s, sy_log = cy_log s\<rparr>"

text \<open>The array of a node, built from training pairs; nothing has a timestamp yet.\<close>

definition vsys_init :: "(key_t \<times> val_t) list \<Rightarrow> vsys" where
  "vsys_init kvs = (let (cs, m) = new_cells kvs vmem_new in
     \<lparr>cy_cells = cs, cy_mem = m, cy_tpc = (\<lambda>_. TIdle), cy_log = [], cy_pc = (\<lambda>_. VIdle), cy_ans = []\<rparr>)"

text \<open>The timestamps handed out.\<close>

definition issued :: "TrackerList \<Rightarrow> addr list \<Rightarrow> int list" where
  "issued l as = map (\<lambda>a. case tl_heap l a of None \<Rightarrow> 0 | Some nd \<Rightarrow> tn_ts nd) as"

fun vop_ok :: "vsys \<Rightarrow> vop \<Rightarrow> bool" where
  "vop_ok s (VQuery c T) \<longleftrightarrow> c < length (cy_cells s) \<and> T \<in> set (issued (vm_tracker (cy_mem s)) (cy_log s))"
| "vop_ok s op \<longleftrightarrow> v_cell op < length (cy_cells s)"

fun v_answer :: "vop \<Rightarrow> val_t option \<Rightarrow> (nat \<times> int \<times> val_t) list" where
  "v_answer (VQuery c T) (Some v) = [(c, T, v)]"
| "v_answer _ _ = []"

inductive cstep :: "vsys \<Rightarrow> vsys \<Rightarrow> bool" where
  tracker: "tstep (tsys_of s) t \<Longrightarrow>
    cstep s (s\<lparr>cy_mem := (cy_mem s)\<lparr>vm_tracker := sy_list t\<rparr>, cy_tpc := sy_pc t, cy_log := sy_log t\<rparr>)"
| call: "cy_pc s i = VIdle \<Longrightarrow> vop_ok s op \<Longrightarrow> cstep s (s\<lparr>cy_pc := (cy_pc s)(i := v_start op)\<rparr>)"
| atomic: "cell_step (cy_pc s i) (cy_cells s) (cy_mem s) = Inr (pc', cs', m') \<Longrightarrow>
    cstep s (s\<lparr>cy_cells := cs', cy_mem := m', cy_pc := (cy_pc s)(i := pc')\<rparr>)"
| ret: "cy_pc s i = VDone op r \<Longrightarrow>
    cstep s (s\<lparr>cy_pc := (cy_pc s)(i := VIdle), cy_ans := v_answer op r @ cy_ans s\<rparr>)"

inductive creach :: "(key_t \<times> val_t) list \<Rightarrow> vsys \<Rightarrow> bool" for kvs where
  init: "creach kvs (vsys_init kvs)"
| step: "creach kvs s \<Longrightarrow> cstep s s' \<Longrightarrow> creach kvs s'"

text \<open>The versions of a cell, newest first, and what a query with timestamp \<open>T\<close> is to see of them: the newest one that
  was stamped before \<open>T\<close>.\<close>

fun v_chain :: "nat \<Rightarrow> (addr \<rightharpoonup> Vnode) \<Rightarrow> tptr \<Rightarrow> version list" where
  "v_chain 0 h p = []"
| "v_chain (Suc n) h p = (if \<not> tp_true p then []
     else case h (tp_addr p) of None \<Rightarrow> []
       | Some nd \<Rightarrow> (tp_addr p, vn_value nd, vn_ts nd) # v_chain n h (vn_nextv nd))"

definition cell_chain :: "vsys \<Rightarrow> nat \<Rightarrow> version list" where
  "cell_chain s c = v_chain (vm_brk (cy_mem s)) (vm_heap (cy_mem s)) (va_vhead (cy_cells s ! c))"

definition snapshot :: "int \<Rightarrow> version list \<Rightarrow> val_t" where
  "snapshot T vs = (case filter (\<lambda>v. ver_ts v \<noteq> - 1 \<and> ver_ts v < T) vs of [] \<Rightarrow> - 1 | v # _ \<Rightarrow> ver_value v)"

end
