(* ===== verification/Versions_Conc_Inv.thy ===== *)
theory Versions_Conc_Inv
  imports Versions_Conc
begin

text \<open>
  The invariant of cells and tracker under interleaving. A version is published with its predecessors
  stamped; its own timestamp is read from the tracker after that, so it is at least the latest timestamp
  at its publication (\<open>b\<close>, a ghost of the proofs). A query stamps the version it starts from; whatever
  is published later is therefore not before the timestamp of the query.
\<close>

section \<open>Timestamps handed out are not above the latest\<close>

definition tlate :: "tsys \<Rightarrow> addr list \<Rightarrow> bool" where
  "tlate s ch \<longleftrightarrow>
     (\<forall>a. a \<in> set (sy_log s) \<or> (\<exists>i. sy_pc s i = TAdded a) \<longrightarrow> (\<exists>k \<le> tail_index (sy_list s) ch. a = ch ! k))
     \<and> (\<forall>i c n. sy_pc s i = TAdd2 c n \<longrightarrow> (\<exists>k \<le> tail_index (sy_list s) ch. c = ch ! k))"

lemma t_step_result:
  shows "t_step pc l = Inr (TAdd2 c n, l') \<Longrightarrow> pc = TAdd1 c n \<or> pc = TAdd2 c n"
    and "t_step pc l = Inr (TAdded a, l') \<Longrightarrow> pc = TAdded a \<or> (\<exists>c. pc = TAdd2 c a \<and> l' = (if tl_tail l = c then l\<lparr>tl_tail := a\<rparr> else l))"
  by (cases pc; auto simp: Let_def bind_res_Inr_iff split: if_splits)+

lemma tail_mono:
  assumes "tinv s ch" and "tstep s s'"
  shows "tail_index (sy_list s) ch \<le> tail_index (sy_list s') (ch @ xs)"
proof -
  have ch: "tchain (sy_list s) ch" and pc: "\<And>i. pc_ok (sy_list s) ch (sy_pc s i)" using assms(1) by (auto simp: tinv_def)
  show ?thesis using assms(2)
  proof (cases rule: tstep.cases)
    case (atomic i pc' l')
    then show ?thesis using t_step_tail [OF ch pc [of i]] by simp
  next
    case (query_done a l')
    then show ?thesis using tail_index_append [OF ch] by (auto simp: set_finish_def tl_load_def split: option.splits)
  qed (use tail_index_append [OF ch] in auto)
qed

lemma tlate_step:
  assumes inv: "tinv s ch" and late: "tlate s ch" and st: "tstep s s'"
  shows "tlate s' (ch @ xs)"
proof -
  let ?l = "sy_list s" and ?l' = "sy_list s'"
  have ch: "tchain ?l ch" and pc: "\<And>i. pc_ok ?l ch (sy_pc s i)" using inv by (auto simp: tinv_def)
  note tl = tchain_tail [OF ch]
  have lift: "\<exists>k \<le> tail_index ?l' (ch @ xs). a = (ch @ xs) ! k" if "\<exists>k \<le> tail_index ?l ch. a = ch ! k" for a
    using that tail_mono [OF inv st, of xs] tl(1) by (metis le_trans le_less_trans nth_append)
  have old: "\<exists>k \<le> tail_index ?l ch. a = ch ! k" if "a \<in> set (sy_log s) \<or> (\<exists>i. sy_pc s i = TAdded a)" for a
    using late that unfolding tlate_def by blast
  have old2: "\<exists>k \<le> tail_index ?l ch. c = ch ! k" if "sy_pc s i = TAdd2 c n" for i c n
    using late that unfolding tlate_def by blast
  have n1: "\<exists>k \<le> tail_index ?l' (ch @ xs). a = (ch @ xs) ! k" if "a \<in> set (sy_log s)" for a by (rule lift [OF old]) (use that in blast)
  have n2: "\<exists>k \<le> tail_index ?l' (ch @ xs). a = (ch @ xs) ! k" if "sy_pc s i = TAdded a" for i a by (rule lift [OF old]) (use that in blast)
  have n3: "\<exists>k \<le> tail_index ?l' (ch @ xs). c = (ch @ xs) ! k" if "sy_pc s i = TAdd2 c n" for i c n by (rule lift [OF old2 [OF that]])
  show ?thesis using st
  proof (cases rule: tstep.cases)
    case (atomic i pc' l')
    have l': "?l' = l'" using atomic(1) by simp
    have a2: "\<exists>k \<le> tail_index l' (ch @ xs). c = (ch @ xs) ! k" if p: "pc' = TAdd2 c n" for c n
    proof -
      have "\<exists>k \<le> tail_index ?l ch. c = ch ! k" using t_step_result(1) [OF atomic(2) [unfolded p]] pc [of i] old2 by auto
      then show ?thesis using lift l' by blast
    qed
    have ad: "\<exists>k \<le> tail_index l' (ch @ xs). a = (ch @ xs) ! k" if p: "pc' = TAdded a" for a
    proof -
      from t_step_result(2) [OF atomic(2) [unfolded p]] show ?thesis
      proof
        assume "sy_pc s i = TAdded a"
        then show ?thesis using old lift l' by blast
      next
        assume "\<exists>c. sy_pc s i = TAdd2 c a \<and> l' = (if tl_tail ?l = c then ?l\<lparr>tl_tail := a\<rparr> else ?l)"
        then obtain c where c: "sy_pc s i = TAdd2 c a" "l' = (if tl_tail ?l = c then ?l\<lparr>tl_tail := a\<rparr> else ?l)" by blast
        have "tsucc ch c a" using pc [of i] c(1) by simp
        then obtain k where k: "Suc k < length ch" "c = ch ! k" "a = ch ! Suc k" by (auto simp: tsucc_def)
        have d: "distinct ch" using ch by (simp add: tchain_def)
        obtain j where j: "j \<le> tail_index ?l ch" "c = ch ! j" using old2 [OF c(1)] by blast
        then have "j = k" using k(1,2) tl(1) d nth_eq_iff_index_eq by (metis Suc_lessD le_less_trans)
        then have kt: "k \<le> tail_index ?l ch" using j by simp
        have "Suc k \<le> tail_index l' ch"
        proof (cases "tl_tail ?l = c")
          case True
          then show ?thesis using tail_index_eq [OF d k(1), of l'] c(2) k(3) by simp
        next
          case False
          then have "k \<noteq> tail_index ?l ch" using tl(2) k(2) by auto
          then show ?thesis using kt c(2) False by simp
        qed
        moreover have "tail_index l' ch \<le> tail_index l' (ch @ xs)" by (simp add: tail_index_def takeWhile_append length_takeWhile_le trans_le_add1)
        ultimately show ?thesis using k(1,3) by (intro exI [of _ "Suc k"]) (simp add: nth_append)
      qed
    qed
    show ?thesis unfolding tlate_def using atomic(1) a2 ad n1 n2 n3 by (auto split: if_splits)
  next
    case (call_add i)
    then show ?thesis unfolding tlate_def using n1 n2 n3 by (auto split: if_splits)
  next
    case (call_remove i)
    then show ?thesis unfolding tlate_def using n1 n2 n3 by (auto split: if_splits)
  next
    case (ret_add i a)
    then show ?thesis unfolding tlate_def using n1 n2 n3 by (auto split: if_splits)
  next
    case (ret_remove i a)
    then show ?thesis unfolding tlate_def using n1 n2 n3 by (auto split: if_splits)
  next
    case (query_done a l')
    then show ?thesis unfolding tlate_def using n1 n2 n3 by auto
  qed
qed

lemma treach_late: "treach s \<Longrightarrow> \<exists>ch. tinv s ch \<and> tlate s ch"
proof (induction rule: treach.induct)
  case init
  have "tlate tsys_init [2]" by (simp add: tlate_def tsys_init_def)
  then show ?case using tinv_init by blast
next
  case (step s s')
  then obtain ch where ch: "tinv s ch" "tlate s ch" by blast
  obtain xs where "tinv s' (ch @ xs)" using tinv_tstep [OF step(2) ch(1)] by blast
  then show ?case using tlate_step [OF ch step(2)] by blast
qed

lemma issued_le:
  assumes "treach s"
  shows "\<exists>g. get_latest_timestamp (sy_list s) = Inr g \<and> 0 \<le> g \<and> (\<forall>T \<in> set (issued (sy_list s) (sy_log s)). T \<le> g)"
proof -
  obtain ch where ch: "tinv s ch" "tlate s ch" using treach_late [OF assms] by blast
  have c: "tchain (sy_list s) ch" using ch(1) by (simp add: tinv_def)
  have "(case tl_heap (sy_list s) a of None \<Rightarrow> 0 | Some nd \<Rightarrow> tn_ts nd) \<le> int (tail_index (sy_list s) ch)" if "a \<in> set (sy_log s)" for a
  proof -
    obtain k where k: "k \<le> tail_index (sy_list s) ch" "a = ch ! k" using ch(2) \<open>a \<in> set (sy_log s)\<close> unfolding tlate_def by blast
    then have "k < length ch" using tchain_tail(1) [OF c] by simp
    then show ?thesis using tchain_ts [OF c, of k] k by auto
  qed
  then show ?thesis using tinv_latest [OF ch(1)] by (auto simp: issued_def)
qed

text \<open>A step of the tracker does not change the timestamps that were handed out, and does not lower the latest.\<close>

lemma tracker_step:
  assumes "treach s" and "tstep s s'"
  shows "\<exists>g g'. get_latest_timestamp (sy_list s) = Inr g \<and> get_latest_timestamp (sy_list s') = Inr g' \<and> g \<le> g'"
proof -
  obtain ch where ch: "tinv s ch" using treach_inv [OF assms(1)] by blast
  obtain xs where "tinv s' (ch @ xs)" using tinv_tstep [OF assms(2) ch] by blast
  then show ?thesis using tinv_latest ch tail_mono [OF ch assms(2)] by fastforce
qed

section \<open>Chains of versions\<close>

abbreviation stamped :: "version \<Rightarrow> bool" where "stamped v \<equiv> ver_ts v \<noteq> - 1"

abbreviation addrs :: "version list \<Rightarrow> addr set" where "addrs vs \<equiv> ver_addr ` set vs"

text \<open>Timestamps fall along a chain, only the head may lack one, and that of a version is at least the latest
  timestamp \<open>b\<close> when it was published.\<close>

fun vgood :: "int \<Rightarrow> (addr \<Rightarrow> int) \<Rightarrow> version list \<Rightarrow> bool" where
  "vgood G b [] \<longleftrightarrow> True"
| "vgood G b (v # vs) \<longleftrightarrow> 0 \<le> b (ver_addr v) \<and> b (ver_addr v) \<le> G \<and> (stamped v \<longrightarrow> b (ver_addr v) \<le> ver_ts v \<and> ver_ts v \<le> G)
     \<and> (\<forall>w \<in> set vs. stamped w \<and> ver_ts w \<le> b (ver_addr v)) \<and> vgood G b vs"

lemma vgood_mono: "vgood G b vs \<Longrightarrow> G \<le> G' \<Longrightarrow> (\<And>v. v \<in> set vs \<Longrightarrow> b' (ver_addr v) = b (ver_addr v)) \<Longrightarrow> vgood G' b' vs"
  by (induction vs) auto

lemma vgood_append: "vgood G b (xs @ ys) \<Longrightarrow> vgood G b ys \<and> (xs \<noteq> [] \<longrightarrow> list_all stamped ys)"
  by (induction xs) (auto simp: list_all_iff)

lemma vgood_tl: "vgood G b vs \<Longrightarrow> v \<in> set (tl vs) \<Longrightarrow> stamped v"
  by (cases vs) auto

lemma vgood_le: "vgood G b vs \<Longrightarrow> v \<in> set vs \<Longrightarrow> ver_ts v \<le> G"
proof (induction vs)
  case (Cons w ws)
  have w: "ver_ts w \<le> G"
  proof (cases "ver_ts w = - 1")
    case True
    have "0 \<le> G" using Cons.prems(1) by simp
    then show ?thesis using True by simp
  next
    case False
    then show ?thesis using Cons.prems(1) by simp
  qed
  show ?case using w Cons by (cases "v = w") simp_all
qed simp

definition chain_rep :: "(addr \<rightharpoonup> Vnode) \<Rightarrow> tptr \<Rightarrow> version list \<Rightarrow> bool" where
  "chain_rep h p vs \<longleftrightarrow> vseg h p vs \<and> vs \<noteq> [] \<and> distinct (map ver_addr vs)"

fun ptr_of :: "version list \<Rightarrow> tptr" where
  "ptr_of [] = null_ptr"
| "ptr_of (v # vs) = clean (ver_addr v)"

lemma vseg_ptr: "vseg h p vs \<Longrightarrow> p = ptr_of vs"
  by (cases vs) auto

lemma vseg_suffix: "vseg h p (xs @ ys) \<Longrightarrow> vseg h (ptr_of ys) ys"
proof (induction xs arbitrary: p)
  case Nil
  then show ?case using vseg_ptr by fastforce
qed auto

lemma vseg_at:
  assumes "vseg h p vs" and "e \<in> set vs"
  shows "\<exists>nd. h (ver_addr e) = Some nd \<and> vn_value nd = ver_value e \<and> vn_ts nd = ver_ts e \<and> 0 < ver_addr e"
  using vseg_mem [OF assms(1), of "ver_addr e" "ver_value e" "ver_ts e"] assms(2) by auto

text \<open>How the steps of other threads change a chain: new versions in front, timestamps for versions without.\<close>

definition same_ver :: "version \<Rightarrow> version \<Rightarrow> bool" where
  "same_ver e e' \<longleftrightarrow> ver_addr e' = ver_addr e \<and> ver_value e' = ver_value e \<and> (stamped e \<longrightarrow> ver_ts e' = ver_ts e)"

definition grows :: "int \<Rightarrow> (addr \<Rightarrow> int) \<Rightarrow> version list \<Rightarrow> (addr \<Rightarrow> int) \<Rightarrow> version list \<Rightarrow> bool" where
  "grows G b vs b' vs' \<longleftrightarrow> (\<exists>pre mid. vs' = pre @ mid \<and> list_all2 same_ver vs mid \<and> (\<forall>v \<in> set pre. G \<le> b' (ver_addr v)))
     \<and> (\<forall>v \<in> set vs. b' (ver_addr v) = b (ver_addr v))"

lemma same_ver_refl [simp]: "same_ver e e"
  by (simp add: same_ver_def)

lemma grows_refl: "grows G b vs b vs"
  unfolding grows_def by (intro conjI exI [of _ "[]"] exI [of _ vs]) (auto simp: list_all2_same)

lemma same_stamped: "list_all2 same_ver vs vs' \<Longrightarrow> list_all stamped vs \<Longrightarrow> vs' = vs"
proof (induction rule: list_all2_induct)
  case (Cons x xs y ys)
  then show ?case by (cases x; cases y) (auto simp: same_ver_def)
qed simp

definition on_chain :: "version list \<Rightarrow> tptr \<Rightarrow> bool" where
  "on_chain vs p \<longleftrightarrow> (\<exists>e \<in> set vs. p = clean (ver_addr e))"

definition stamped_at :: "version list \<Rightarrow> tptr \<Rightarrow> bool" where
  "stamped_at vs p \<longleftrightarrow> (\<exists>e \<in> set vs. p = clean (ver_addr e) \<and> stamped e)"

text \<open>Versions a query with timestamp \<open>T\<close> will never see.\<close>

definition hidden :: "int \<Rightarrow> (addr \<Rightarrow> int) \<Rightarrow> version \<Rightarrow> bool" where
  "hidden T b v \<longleftrightarrow> T \<le> b (ver_addr v) \<or> stamped v \<and> T \<le> ver_ts v"

definition q_from :: "int \<Rightarrow> (addr \<Rightarrow> int) \<Rightarrow> version list \<Rightarrow> tptr \<Rightarrow> bool" where
  "q_from T b vs p \<longleftrightarrow> (\<exists>new e rest. vs = new @ e # rest \<and> p = clean (ver_addr e) \<and> list_all (\<lambda>v. T \<le> b (ver_addr v)) new)"

definition q_walk :: "int \<Rightarrow> (addr \<Rightarrow> int) \<Rightarrow> version list \<Rightarrow> tptr \<Rightarrow> bool" where
  "q_walk T b vs p \<longleftrightarrow> (\<exists>new old. vs = new @ old \<and> list_all (hidden T b) new \<and> list_all stamped old \<and> p = ptr_of old)"

definition q_done :: "int \<Rightarrow> (addr \<Rightarrow> int) \<Rightarrow> version list \<Rightarrow> val_t \<Rightarrow> bool" where
  "q_done T b vs x \<longleftrightarrow> (\<exists>new old. vs = new @ old \<and> list_all (hidden T b) new \<and> list_all stamped old \<and> x = snapshot T old)"

lemma grows_member:
  assumes "grows G b vs b' vs'" and "e \<in> set vs"
  shows "\<exists>e' \<in> set vs'. same_ver e e'"
proof -
  obtain pre mid where m: "vs' = pre @ mid" "list_all2 same_ver vs mid" using assms(1) by (auto simp: grows_def)
  obtain i where i: "i < length vs" "e = vs ! i" using assms(2) by (auto simp: in_set_conv_nth)
  have "mid ! i \<in> set vs'" using m(1) i(1) list_all2_lengthD [OF m(2)] by simp
  then show ?thesis using list_all2_nthD [OF m(2) i(1)] i(2) by blast
qed

lemma on_chain_grows: "grows G b vs b' vs' \<Longrightarrow> on_chain vs p \<Longrightarrow> on_chain vs' p"
  unfolding on_chain_def using grows_member by (fastforce simp: same_ver_def)

lemma stamped_at_grows: "grows G b vs b' vs' \<Longrightarrow> stamped_at vs p \<Longrightarrow> stamped_at vs' p"
  unfolding stamped_at_def using grows_member by (fastforce simp: same_ver_def)

lemma grows_split:
  assumes "grows G b (xs @ ys) b' vs'" and "T \<le> G"
  obtains pre xs' ys' where "vs' = pre @ xs' @ ys'" "list_all2 same_ver xs xs'" "list_all2 same_ver ys ys'"
    "list_all (\<lambda>v. T \<le> b' (ver_addr v)) pre" "\<And>v. v \<in> set (xs @ ys) \<Longrightarrow> b' (ver_addr v) = b (ver_addr v)"
proof -
  obtain pre mid where m: "vs' = pre @ mid" "list_all2 same_ver (xs @ ys) mid" "\<forall>v \<in> set pre. G \<le> b' (ver_addr v)"
    "\<forall>v \<in> set (xs @ ys). b' (ver_addr v) = b (ver_addr v)" using assms(1) by (auto simp: grows_def)
  obtain xs' ys' where s: "mid = xs' @ ys'" "list_all2 same_ver xs xs'" "list_all2 same_ver ys ys'"
    using m(2) by (auto simp: list_all2_append1)
  have "list_all (\<lambda>v. T \<le> b' (ver_addr v)) pre" using m(3) assms(2) by (fastforce simp: list_all_iff)
  then show ?thesis using that [of pre xs' ys'] m s by blast
qed

lemma all2_member: "list_all2 R xs xs' \<Longrightarrow> e' \<in> set xs' \<Longrightarrow> \<exists>e \<in> set xs. R e e'"
  by (induction rule: list_all2_induct) auto

lemma late_grows:
  assumes "list_all2 same_ver xs xs'" and "list_all (\<lambda>v. T \<le> b (ver_addr v)) xs" and "\<And>v. v \<in> set xs \<Longrightarrow> b' (ver_addr v) = b (ver_addr v)"
  shows "list_all (\<lambda>v. T \<le> b' (ver_addr v)) xs'"
  unfolding list_all_iff
proof
  fix e' assume "e' \<in> set xs'"
  then obtain e where "e \<in> set xs" "same_ver e e'" using all2_member [OF assms(1)] by blast
  then show "T \<le> b' (ver_addr e')" using assms(2,3) by (auto simp: list_all_iff same_ver_def)
qed

lemma hidden_grows:
  assumes "list_all2 same_ver xs xs'" and "list_all (hidden T b) xs" and "\<And>v. v \<in> set xs \<Longrightarrow> b' (ver_addr v) = b (ver_addr v)"
  shows "list_all (hidden T b') xs'"
  unfolding list_all_iff
proof
  fix e' assume "e' \<in> set xs'"
  then obtain e where "e \<in> set xs" "same_ver e e'" using all2_member [OF assms(1)] by blast
  then show "hidden T b' e'" using assms(2,3) by (auto simp: list_all_iff same_ver_def hidden_def)
qed

lemma late_hidden: "list_all (\<lambda>v. T \<le> b (ver_addr v)) xs \<Longrightarrow> list_all (hidden T b) xs"
  by (auto simp: list_all_iff hidden_def)

lemma q_from_grows:
  assumes g: "grows G b vs b' vs'" and T: "T \<le> G" and q: "q_from T b vs p"
  shows "q_from T b' vs' p"
proof -
  obtain new e rest where s: "vs = new @ e # rest" "p = clean (ver_addr e)" "list_all (\<lambda>v. T \<le> b (ver_addr v)) new"
    using q by (auto simp: q_from_def)
  obtain pre new' ys' where m: "vs' = pre @ new' @ ys'" "list_all2 same_ver new new'" "list_all2 same_ver (e # rest) ys'"
    "list_all (\<lambda>v. T \<le> b' (ver_addr v)) pre" "\<And>v. v \<in> set (new @ e # rest) \<Longrightarrow> b' (ver_addr v) = b (ver_addr v)"
    by (rule grows_split [OF g [unfolded s(1)] T]) blast
  obtain e' rest' where y: "ys' = e' # rest'" "same_ver e e'" using m(3) by (auto simp: list_all2_Cons1)
  have "list_all (\<lambda>v. T \<le> b' (ver_addr v)) (pre @ new')" using late_grows [OF m(2) s(3)] m(4,5) by simp
  then show ?thesis unfolding q_from_def using m(1) y s(2)
    by (intro exI [of _ "pre @ new'"] exI [of _ e'] exI [of _ rest']) (simp add: same_ver_def)
qed

lemma old_grows:
  assumes g: "grows G b (new @ old) b' vs'" and T: "T \<le> G" and h: "list_all (hidden T b) new" and o: "list_all stamped old"
  obtains new' where "vs' = new' @ old" "list_all (hidden T b') new'"
proof -
  obtain pre new' ys' where m: "vs' = pre @ new' @ ys'" "list_all2 same_ver new new'" "list_all2 same_ver old ys'"
    "list_all (\<lambda>v. T \<le> b' (ver_addr v)) pre" "\<And>v. v \<in> set (new @ old) \<Longrightarrow> b' (ver_addr v) = b (ver_addr v)"
    by (rule grows_split [OF g T]) blast
  have "list_all (hidden T b') (pre @ new')" using hidden_grows [OF m(2) h] m(5) late_hidden [OF m(4)] by simp
  then show ?thesis using that [of "pre @ new'"] m(1) same_stamped [OF m(3) o] by simp
qed

lemma q_walk_grows: "grows G b vs b' vs' \<Longrightarrow> T \<le> G \<Longrightarrow> q_walk T b vs p \<Longrightarrow> q_walk T b' vs' p"
  unfolding q_walk_def by (elim exE conjE, hypsubst, erule old_grows) (assumption+, blast)

lemma q_done_grows: "grows G b vs b' vs' \<Longrightarrow> T \<le> G \<Longrightarrow> q_done T b vs x \<Longrightarrow> q_done T b' vs' x"
  unfolding q_done_def by (elim exE conjE, hypsubst, erule old_grows) (assumption+, blast)

text \<open>An answered query has answered the snapshot.\<close>

lemma q_done_snapshot:
  assumes "vgood G b vs" and "q_done T b vs x"
  shows "x = snapshot T vs"
proof -
  obtain new old where s: "vs = new @ old" "list_all (hidden T b) new" "x = snapshot T old" using assms(2) by (auto simp: q_done_def)
  have up: "b (ver_addr v) \<le> ver_ts v" if "v \<in> set vs" "stamped v" for v using assms(1) that by (induction vs) auto
  have "filter (\<lambda>v. stamped v \<and> ver_ts v < T) new = []"
    using s(1,2) up by (fastforce simp: filter_empty_conv list_all_iff hidden_def)
  then show ?thesis using s(1,3) by (simp add: snapshot_def)
qed

end
