(* ===== verification/Versions_Conc_Step.thy ===== *)
theory Versions_Conc_Step
  imports Versions_Conc_Inv
begin

text \<open>
  What a thread knows at every point of an operation on a versioned cell, and what its steps do to the chains.
\<close>

section \<open>What a thread knows\<close>

fun n_cell :: "vnext \<Rightarrow> nat" where
  "n_cell (NRead c v) = c"
| "n_cell (NCas c v old) = c"
| "n_cell (NNew c v) = c"
| "n_cell (NQuery c T) = c"

fun know :: "int \<Rightarrow> (addr \<Rightarrow> int) \<Rightarrow> (nat \<Rightarrow> version list) \<Rightarrow> vnext \<Rightarrow> tptr \<Rightarrow> bool" where
  "know G b vs (NQuery c T) p \<longleftrightarrow> T \<le> G \<and> q_from T b (vs c) p"
| "know G b vs k p \<longleftrightarrow> on_chain (vs (n_cell k)) p"

fun vpc_ok :: "nat \<Rightarrow> int \<Rightarrow> (addr \<Rightarrow> int) \<Rightarrow> (nat \<Rightarrow> version list) \<Rightarrow> (addr \<rightharpoonup> Vnode) \<Rightarrow> vpc \<Rightarrow> bool" where
  "vpc_ok N G b vs h VIdle \<longleftrightarrow> True"
| "vpc_ok N G b vs h (VGet0 c) \<longleftrightarrow> c < N"
| "vpc_ok N G b vs h (VIns0 c v) \<longleftrightarrow> c < N"
| "vpc_ok N G b vs h (VIns1 c v) \<longleftrightarrow> c < N"
| "vpc_ok N G b vs h (VCas0 c v old) \<longleftrightarrow> c < N"
| "vpc_ok N G b vs h (VCas1 c v head n) \<longleftrightarrow> c < N \<and> stamped_at (vs c) head \<and> n = clean (tp_addr n) \<and> 0 < tp_addr n
     \<and> h (tp_addr n) = Some \<lparr>vn_value = v, vn_ts = - 1, vn_nextv = head\<rparr>"
| "vpc_ok N G b vs h (VQuery0 c T) \<longleftrightarrow> c < N \<and> T \<le> G"
| "vpc_ok N G b vs h (VInit k p) \<longleftrightarrow> n_cell k < N \<and> know G b vs k p"
| "vpc_ok N G b vs h (VClock k p) \<longleftrightarrow> n_cell k < N \<and> know G b vs k p"
| "vpc_ok N G b vs h (VStamp k p g) \<longleftrightarrow> n_cell k < N \<and> know G b vs k p \<and> b (tp_addr p) \<le> g \<and> g \<le> G"
| "vpc_ok N G b vs h (VWalk c T p) \<longleftrightarrow> c < N \<and> T \<le> G \<and> q_walk T b (vs c) p"
| "vpc_ok N G b vs h (VDone op r) \<longleftrightarrow> (\<forall>c T. op = VQuery c T \<longrightarrow> c < N \<and> T \<le> G \<and> (\<exists>x. r = Some x \<and> q_done T b (vs c) x))"

fun v_own :: "vpc \<Rightarrow> addr set" where
  "v_own (VCas1 c v head n) = {tp_addr n}"
| "v_own _ = {}"

abbreviation chained :: "nat \<Rightarrow> (nat \<Rightarrow> version list) \<Rightarrow> addr set" where
  "chained N vs \<equiv> (\<Union>c < N. addrs (vs c))"

definition cells_ok :: "vcells \<Rightarrow> vmem \<Rightarrow> int \<Rightarrow> (addr \<Rightarrow> int) \<Rightarrow> (nat \<Rightarrow> version list) \<Rightarrow> bool" where
  "cells_ok cs m G b vs \<longleftrightarrow> vmem_ok m G
     \<and> (\<forall>c < length cs. chain_rep (vm_heap m) (va_vhead (cs ! c)) (vs c) \<and> vgood G b (vs c))
     \<and> (\<forall>c d. c < length cs \<and> d < length cs \<and> c \<noteq> d \<longrightarrow> addrs (vs c) \<inter> addrs (vs d) = {})"

lemma cells_okD:
  assumes "cells_ok cs m G b vs"
  shows "vmem_ok m G" "\<And>c. c < length cs \<Longrightarrow> vseg (vm_heap m) (va_vhead (cs ! c)) (vs c)"
    "\<And>c. c < length cs \<Longrightarrow> vs c \<noteq> []" "\<And>c. c < length cs \<Longrightarrow> distinct (map ver_addr (vs c))"
    "\<And>c. c < length cs \<Longrightarrow> vgood G b (vs c)"
    "\<And>c d. c < length cs \<Longrightarrow> d < length cs \<Longrightarrow> c \<noteq> d \<Longrightarrow> addrs (vs c) \<inter> addrs (vs d) = {}"
  using assms by (auto simp: cells_ok_def chain_rep_def)

text \<open>The steps of other threads, seen from a thread: chains grow, the clock does not fall, its own node stays.\<close>

lemma know_grows:
  assumes "\<forall>c < N. grows G b (vs c) b' (vs' c)" and "G \<le> G'" and "n_cell k < N" and "know G b vs k p"
  shows "know G' b' vs' k p"
  using assms on_chain_grows q_from_grows by (cases k) fastforce+

lemma on_chain_b:
  assumes "grows G b vs b' vs'" and "on_chain vs p"
  shows "b' (tp_addr p) = b (tp_addr p)"
  using assms by (auto simp: grows_def on_chain_def)

lemma know_on_chain: "know G b vs k p \<Longrightarrow> on_chain (vs (n_cell k)) p"
  by (cases k) (auto simp: q_from_def on_chain_def)

lemma vpc_mono:
  assumes gr: "\<forall>c < N. grows G b (vs c) b' (vs' c)" and G: "G \<le> G'" and h: "\<And>a. a \<in> v_own pc \<Longrightarrow> h' a = h a"
    and pc: "vpc_ok N G b vs h pc"
  shows "vpc_ok N G' b' vs' h' pc"
proof -
  have g: "grows G b (vs c) b' (vs' c)" if "c < N" for c using gr that by blast
  show ?thesis
  proof (cases pc)
    case (VCas1 c v head n)
    then show ?thesis using pc h stamped_at_grows [OF g] by simp
  next
    case (VInit k p)
    then show ?thesis using pc know_grows [OF gr G] by simp
  next
    case (VClock k p)
    then show ?thesis using pc know_grows [OF gr G] by simp
  next
    case (VStamp k p t)
    then have p: "n_cell k < N" "know G b vs k p" "b (tp_addr p) \<le> t" "t \<le> G" using pc by auto
    then show ?thesis using know_grows [OF gr G p(1,2)] on_chain_b [OF g [OF p(1)] know_on_chain [OF p(2)]] G VStamp by simp
  next
    case (VWalk c T p)
    then show ?thesis using pc q_walk_grows [OF g] G by auto
  next
    case (VDone op r)
    have "c < N \<and> T \<le> G' \<and> (\<exists>x. r = Some x \<and> q_done T b' (vs' c) x)" if "op = VQuery c T" for c T
    proof -
      have "c < N \<and> T \<le> G \<and> (\<exists>x. r = Some x \<and> q_done T b (vs c) x)" using pc that unfolding VDone vpc_ok.simps by blast
      then obtain x where x: "c < N" "T \<le> G" "r = Some x" "q_done T b (vs c) x" by blast
      then show ?thesis using q_done_grows [OF g [OF x(1)] x(2,4)] G by auto
    qed
    then show ?thesis using VDone by simp
  qed (use pc G in auto)
qed

section \<open>The steps of a thread\<close>

definition vmoves :: "vcells \<Rightarrow> vmem \<Rightarrow> int \<Rightarrow> (addr \<Rightarrow> int) \<Rightarrow> (nat \<Rightarrow> version list) \<Rightarrow> vpc
    \<Rightarrow> vpc \<Rightarrow> vcells \<Rightarrow> vmem \<Rightarrow> (addr \<Rightarrow> int) \<Rightarrow> (nat \<Rightarrow> version list) \<Rightarrow> bool" where
  "vmoves cs m G b vs pc pc' cs' m' b' vs' \<longleftrightarrow> length cs' = length cs \<and> vm_tracker m' = vm_tracker m
     \<and> cells_ok cs' m' G b' vs' \<and> (\<forall>c < length cs. grows G b (vs c) b' (vs' c))
     \<and> dom (vm_heap m) \<subseteq> dom (vm_heap m') \<and> (\<forall>a \<in> dom (vm_heap m) - chained (length cs) vs. vm_heap m' a = vm_heap m a)
     \<and> vpc_ok (length cs) G b' vs' (vm_heap m') pc'
     \<and> v_own pc' \<subseteq> dom (vm_heap m') \<and> v_own pc' \<inter> chained (length cs) vs' = {}
     \<and> v_own pc' \<subseteq> v_own pc \<union> (dom (vm_heap m') - dom (vm_heap m))
     \<and> chained (length cs) vs' \<subseteq> chained (length cs) vs \<union> v_own pc"

lemma vmovesD:
  assumes "vmoves cs m G b vs pc pc' cs' m' b' vs'"
  shows "length cs' = length cs" "vm_tracker m' = vm_tracker m" "cells_ok cs' m' G b' vs'"
    "\<And>c. c < length cs \<Longrightarrow> grows G b (vs c) b' (vs' c)" "dom (vm_heap m) \<subseteq> dom (vm_heap m')"
    "\<forall>a \<in> dom (vm_heap m) - chained (length cs) vs. vm_heap m' a = vm_heap m a"
    "vpc_ok (length cs) G b' vs' (vm_heap m') pc'" "v_own pc' \<subseteq> dom (vm_heap m')" "v_own pc' \<inter> chained (length cs) vs' = {}"
    "v_own pc' \<subseteq> v_own pc \<union> (dom (vm_heap m') - dom (vm_heap m))" "chained (length cs) vs' \<subseteq> chained (length cs) vs \<union> v_own pc"
proof -
  note m = assms [unfolded vmoves_def]
  show "\<And>c. c < length cs \<Longrightarrow> grows G b (vs c) b' (vs' c)" using m [THEN conjunct2, THEN conjunct2, THEN conjunct2, THEN conjunct1] by blast
qed (insert assms [unfolded vmoves_def], (elim conjE, assumption)+)

definition vstep_ok :: "vcells \<Rightarrow> vmem \<Rightarrow> int \<Rightarrow> (addr \<Rightarrow> int) \<Rightarrow> (nat \<Rightarrow> version list) \<Rightarrow> vpc \<Rightarrow> (vpc \<times> vcells \<times> vmem) res \<Rightarrow> bool" where
  "vstep_ok cs m G b vs pc r \<longleftrightarrow> (\<exists>pc' cs' m' b' vs'. r = Inr (pc', cs', m') \<and> vmoves cs m G b vs pc pc' cs' m' b' vs')"

lemma stay_put:
  assumes "cells_ok cs m G b vs" and "vpc_ok (length cs) G b vs (vm_heap m) pc'" and "v_own pc' = {}"
  shows "vstep_ok cs m G b vs pc (Inr (pc', cs, m))"
proof -
  have "vmoves cs m G b vs pc pc' cs m b vs"
    unfolding vmoves_def using assms grows_refl by auto
  then show ?thesis unfolding vstep_ok_def by blast
qed

lemma load_at:
  assumes "cells_ok cs m G b vs" and "c < length cs" and "e \<in> set (vs c)"
  shows "\<exists>nd. vn_load m (clean (ver_addr e)) = Inr nd \<and> vm_heap m (ver_addr e) = Some nd \<and> vn_value nd = ver_value e \<and> vn_ts nd = ver_ts e"
  using vseg_at [OF cells_okD(2) [OF assms(1,2)] assms(3)] by (auto simp: vn_load_def)

lemma head_at:
  assumes "cells_ok cs m G b vs" and "c < length cs"
  shows "va_vhead (cs ! c) = clean (ver_addr (hd (vs c)))" "hd (vs c) \<in> set (vs c)"
  using vseg_ptr [OF cells_okD(2) [OF assms]] cells_okD(3) [OF assms] by (cases "vs c"; simp)+

lemma head_value:
  assumes "cells_ok cs m G b vs" and "c < length cs"
  shows "getValue (cs ! c) m = Inr (ver_value (hd (vs c)))"
  using load_at [OF assms head_at(2) [OF assms]] head_at(1) [OF assms] by (auto simp: getValue_def)

text \<open>A version on a chain, and those behind it.\<close>

lemma ver_at:
  assumes ok: "cells_ok cs m G b vs" and c: "c < length cs" and p: "on_chain (vs c) p"
  obtains new e rest where "vs c = new @ e # rest" "p = clean (ver_addr e)" "list_all stamped rest" "new \<noteq> [] \<longrightarrow> stamped e"
proof -
  obtain e where e: "e \<in> set (vs c)" "p = clean (ver_addr e)" using p by (auto simp: on_chain_def)
  obtain new rest where s: "vs c = new @ e # rest" using split_list [OF e(1)] by blast
  have g: "vgood G b (new @ e # rest)" using cells_okD(5) [OF ok c] s by simp
  have "vgood G b (e # rest)" "new \<noteq> [] \<longrightarrow> list_all stamped (e # rest)" using vgood_append [OF g] by blast+
  then have "list_all stamped rest" "new \<noteq> [] \<longrightarrow> stamped e" by (auto simp: list_all_iff)
  then show ?thesis using that s e(2) by blast
qed

lemma vgood_b: "vgood G b ws \<Longrightarrow> v \<in> set ws \<Longrightarrow> b (ver_addr v) \<le> G"
  by (induction ws) auto

lemma addr_inj:
  assumes "distinct (map ver_addr vs)" and "e \<in> set vs" "e' \<in> set vs" and "ver_addr e = ver_addr e'"
  shows "e = e'"
  using assms by (auto simp: distinct_map inj_on_def)

text \<open>The compare-exchange of a timestamp: only the head can lack one.\<close>

definition stamps :: "vcells \<Rightarrow> vmem \<Rightarrow> int \<Rightarrow> (addr \<Rightarrow> int) \<Rightarrow> (nat \<Rightarrow> version list) \<Rightarrow> vmem \<Rightarrow> (nat \<Rightarrow> version list) \<Rightarrow> bool" where
  "stamps cs m G b vs m1 vs1 \<longleftrightarrow> vm_tracker m1 = vm_tracker m \<and> cells_ok cs m1 G b vs1 \<and> (\<forall>c < length cs. grows G b (vs c) b (vs1 c))
     \<and> dom (vm_heap m1) = dom (vm_heap m) \<and> chained (length cs) vs1 = chained (length cs) vs
     \<and> (\<forall>a. a \<notin> chained (length cs) vs \<longrightarrow> vm_heap m1 a = vm_heap m a)"

lemma stamps_refl: "cells_ok cs m G b vs \<Longrightarrow> stamps cs m G b vs m vs"
  by (simp add: stamps_def grows_refl)

lemma set_ts_ok:
  assumes ok: "cells_ok cs m G b vs" and c: "c < length cs" and p: "on_chain (vs c) p" and g: "b (tp_addr p) \<le> g" "g \<le> G"
  obtains m1 vs1 where "set_ts p g m = Inr m1" "stamps cs m G b vs m1 vs1" "stamped_at (vs1 c) p"
proof -
  obtain new e rest where s: "vs c = new @ e # rest" "p = clean (ver_addr e)" "list_all stamped rest" "new \<noteq> [] \<longrightarrow> stamped e"
    by (rule ver_at [OF ok c p])
  have em: "e \<in> set (vs c)" using s(1) by simp
  obtain nd where nd: "vn_load m p = Inr nd" "vm_heap m (ver_addr e) = Some nd" "vn_value nd = ver_value e" "vn_ts nd = ver_ts e"
    using load_at [OF ok c em] s(2) by auto
  show ?thesis
  proof (cases "stamped e")
    case True
    then have "set_ts p g m = Inr m" using nd by (simp add: set_ts_def)
    moreover have "stamped_at (vs c) p" unfolding stamped_at_def using em s(2) True by blast
    ultimately show ?thesis using that stamps_refl [OF ok] by blast
  next
    case False
    then have new: "new = []" using s(4) by blast
    obtain a x where e: "e = (a, x, - 1)" using False by (cases e) auto
    let ?m = "m\<lparr>vm_heap := (vm_heap m)(a \<mapsto> nd\<lparr>vn_ts := g\<rparr>)\<rparr>" and ?vs = "vs(c := (a, x, g) # rest)"
    have vc: "vs c = (a, x, - 1) # rest" using s(1) new e by simp
    have b: "0 \<le> b a" "b a \<le> G" "\<forall>w \<in> set rest. stamped w \<and> ver_ts w \<le> b a" "vgood G b rest"
      using cells_okD(5) [OF ok c] vc by auto
    have ga: "b a \<le> g" "g \<noteq> - 1" using g(1) b(1) s(2) e by auto
    have run: "set_ts p g m = Inr ?m" using nd False s(2) e by (simp add: set_ts_def)
    have dom: "dom (vm_heap ?m) = dom (vm_heap m)" using nd(2) e by auto
    have seg: "vseg (vm_heap m) (va_vhead (cs ! c)) ((a, x, - 1) # rest)" using cells_okD(2) [OF ok c] vc by simp
    have d: "a \<notin> addrs rest" "distinct (map ver_addr rest)" using cells_okD(4) [OF ok c] vc by auto
    have seg': "vseg (vm_heap ?m) (va_vhead (cs ! c)) ((a, x, g) # rest)" using seg d(1) nd(2) e by auto
    have other: "a \<notin> addrs (vs d)" if "d < length cs" "d \<noteq> c" for d
      using cells_okD(6) [OF ok c that(1)] that(2) vc by auto
    have adr: "addrs (?vs d) = addrs (vs d)" for d using vc by simp
    have "cells_ok cs ?m G b ?vs" unfolding cells_ok_def chain_rep_def
    proof (intro conjI allI impI)
      show "vmem_ok ?m G" using cells_okD(1) [OF ok] dom by (simp add: vmem_ok_def)
      fix d assume dl: "d < length cs"
      show "vseg (vm_heap ?m) (va_vhead (cs ! d)) (?vs d)" using seg' other [OF dl] cells_okD(2) [OF ok dl] by simp
      show "?vs d \<noteq> []" using cells_okD(3) [OF ok dl] by simp
      show "distinct (map ver_addr (?vs d))" using cells_okD(4) [OF ok dl] d by simp
      show "vgood G b (?vs d)" using cells_okD(5) [OF ok dl] b ga g(2) by simp
    next
      fix d d' assume "d < length cs \<and> d' < length cs \<and> d \<noteq> d'"
      then show "addrs (?vs d) \<inter> addrs (?vs d') = {}" unfolding adr using cells_okD(6) [OF ok] by blast
    qed
    moreover have "grows G b (vs d) b (?vs d)" for d
    proof (cases "d = c")
      case True
      have "list_all2 same_ver (vs c) (?vs c)" unfolding vc by (simp add: list_all2_same) (simp add: same_ver_def)
      then show ?thesis unfolding grows_def True by (intro conjI exI [of _ "[]"] exI [of _ "?vs c"]) auto
    next
      case False
      then show ?thesis using grows_refl by simp
    qed
    moreover have "vm_heap ?m a' = vm_heap m a'" if "a' \<notin> chained (length cs) vs" for a'
    proof -
      have "a' \<noteq> a" using that c vc by force
      then show ?thesis by simp
    qed
    ultimately have "stamps cs m G b vs ?m ?vs" unfolding stamps_def adr using dom by simp
    moreover have "stamped_at (?vs c) p" unfolding stamped_at_def using ga(2) s(2) e by simp
    ultimately show ?thesis using that run by blast
  qed
qed

lemma grows_trans:
  assumes "grows G b vs b1 vs1" and "grows G b1 vs1 b2 vs2"
  shows "grows G b vs b2 vs2"
proof -
  obtain pre mid where m: "vs1 = pre @ mid" "list_all2 same_ver vs mid" "\<forall>v \<in> set pre. G \<le> b1 (ver_addr v)" "\<forall>v \<in> set vs. b1 (ver_addr v) = b (ver_addr v)"
    using assms(1) by (auto simp: grows_def)
  have "list_all (\<lambda>v. G \<le> b1 (ver_addr v)) pre" using m(3) by (simp add: list_all_iff)
  obtain pre2 pre' mid' where n: "vs2 = pre2 @ pre' @ mid'" "list_all2 same_ver pre pre'" "list_all2 same_ver mid mid'"
    "list_all (\<lambda>v. G \<le> b2 (ver_addr v)) pre2" "\<And>v. v \<in> set (pre @ mid) \<Longrightarrow> b2 (ver_addr v) = b1 (ver_addr v)"
    by (rule grows_split [OF assms(2) [unfolded m(1)] order_refl]) blast
  have "list_all2 same_ver vs mid'"
    by (rule list_all2_trans [OF _ m(2) n(3)]) (auto simp: same_ver_def)
  moreover have "list_all (\<lambda>v. G \<le> b2 (ver_addr v)) pre'" by (rule late_grows [OF n(2)]) (use m(3) n(5) in \<open>auto simp: list_all_iff\<close>)
  moreover have "b2 (ver_addr v) = b (ver_addr v)" if v: "v \<in> set vs" for v
  proof -
    obtain e' where e: "e' \<in> set vs1" "same_ver v e'" using grows_member [OF assms(1) v] by blast
    have "b2 (ver_addr e') = b1 (ver_addr e')" by (rule n(5)) (use e(1) m(1) in simp)
    then show ?thesis using m(4) v e(2) by (simp add: same_ver_def)
  qed
  ultimately show ?thesis unfolding grows_def using n(1,4)
    by (intro conjI exI [of _ "pre2 @ pre'"] exI [of _ mid']) (auto simp: list_all_iff)
qed

lemma stamps_moves:
  assumes st: "stamps cs m G b vs m1 vs1" and mv: "vmoves cs m1 G b vs1 pc pc' cs' m' b' vs'"
  shows "vmoves cs m G b vs pc pc' cs' m' b' vs'"
proof -
  have s: "vm_tracker m1 = vm_tracker m" "\<forall>c < length cs. grows G b (vs c) b (vs1 c)" "dom (vm_heap m1) = dom (vm_heap m)"
    "chained (length cs) vs1 = chained (length cs) vs" "\<forall>a. a \<notin> chained (length cs) vs \<longrightarrow> vm_heap m1 a = vm_heap m a"
    by (insert st [unfolded stamps_def], (elim conjE, assumption)+)
  have g: "\<forall>c < length cs. grows G b (vs c) b' (vs' c)"
  proof (intro allI impI)
    fix c assume c: "c < length cs"
    have "grows G b (vs1 c) b' (vs' c)" by (rule vmovesD(4) [OF mv c])
    then show "grows G b (vs c) b' (vs' c)" using s(2) c grows_trans by blast
  qed
  have h: "\<forall>a \<in> dom (vm_heap m) - chained (length cs) vs. vm_heap m' a = vm_heap m a"
    using vmovesD(6) [OF mv] s(5) unfolding s(3,4) by simp
  note mv' = mv [unfolded vmoves_def s(1,3,4)]
  show ?thesis unfolding vmoves_def by (intro conjI g h) (insert mv', (elim conjE, assumption)+)
qed

text \<open>What follows \<open>init_ts\<close>, once the version has its timestamp.\<close>

lemma after_ok:
  assumes ok: "cells_ok cs m G b vs" and k: "n_cell k < length cs" "know G b vs k p" and st: "stamped_at (vs (n_cell k)) p"
  obtains pc' m' where "v_after k p m = Inr (pc', m')" "vmoves cs m G b vs pc pc' cs m' b vs"
proof -
  have put: "vmoves cs m G b vs pc pc' cs m b vs" if "vpc_ok (length cs) G b vs (vm_heap m) pc'" "v_own pc' = {}" for pc'
    unfolding vmoves_def using ok that grows_refl by auto
  show ?thesis
  proof (cases k)
    case (NRead c v)
    show ?thesis by (rule that [of "VIns1 c v" m]) (use NRead k put [of "VIns1 c v"] in auto)
  next
    case (NNew c v)
    show ?thesis by (rule that [of "VDone (VInsert c v) None" m]) (use NNew put [of "VDone (VInsert c v) None"] in auto)
  next
    case (NQuery c T)
    have c: "c < length cs" using k(1) NQuery by simp
    obtain new e rest where q: "vs c = new @ e # rest" "p = clean (ver_addr e)" "list_all (\<lambda>v. T \<le> b (ver_addr v)) new" "T \<le> G"
      using k NQuery by (auto simp: q_from_def)
    obtain e' where e': "e' \<in> set (vs c)" "p = clean (ver_addr e')" "stamped e'" using st NQuery by (auto simp: stamped_at_def)
    have "e' = e" by (rule addr_inj [OF cells_okD(4) [OF ok c] e'(1)]) (use q(1,2) e'(2) in auto)
    moreover have "list_all stamped rest"
    proof -
      have "vgood G b (new @ e # rest)" using cells_okD(5) [OF ok c] q(1) by simp
      then have "vgood G b (e # rest)" using vgood_append by blast
      then show ?thesis by (auto simp: list_all_iff)
    qed
    ultimately have "q_walk T b (vs c) p" unfolding q_walk_def using q(1,2) e'(3) late_hidden [OF q(3)]
      by (intro exI [of _ new] exI [of _ "e # rest"]) simp
    then show ?thesis by (intro that [of "VWalk c T p" m]) (use NQuery c q(4) put [of "VWalk c T p"] in auto)
  next
    case (NCas c v old)
    have c: "c < length cs" using k(1) NCas by simp
    obtain e where e: "e \<in> set (vs c)" "p = clean (ver_addr e)" "stamped e" using st NCas by (auto simp: stamped_at_def)
    obtain nd where nd: "vn_load m p = Inr nd" "vn_value nd = ver_value e" using load_at [OF ok c e(1)] e(2) by auto
    show ?thesis
    proof (cases "ver_value e \<noteq> old \<or> ver_value e = v")
      case True
      let ?pc = "if ver_value e \<noteq> old then VIns0 c v else VDone (VInsert c v) None"
      have "v_after k p m = Inr (?pc, m)" using NCas nd True by auto
      then show ?thesis by (rule that) (rule put; use c in simp)
    next
      case False
      let ?a = "vm_brk m"
      obtain n m' where n: "Vnode_new v p m = (n, m')" by (cases "Vnode_new v p m")
      have n': "n = clean ?a" "m' = m\<lparr>vm_heap := (vm_heap m)(?a \<mapsto> \<lparr>vn_value = v, vn_ts = - 1, vn_nextv = p\<rparr>), vm_brk := Suc ?a\<rparr>"
        using n by (auto simp: Vnode_new_def)
      have vm: "vmem_ok m G" by (rule cells_okD(1) [OF ok])
      then have fresh: "?a \<notin> dom (vm_heap m)" "0 < ?a" by (force simp: vmem_ok_def)+
      have al: "a \<in> dom (vm_heap m)" if "d < length cs" "a \<in> addrs (vs d)" for a d
        using vseg_alloc [OF cells_okD(2) [OF ok that(1)] that(2)] .
      have nin: "?a \<notin> addrs (vs d)" if "d < length cs" for d using al [OF that] fresh(1) by blast
      have "vmem_ok m' G"
      proof -
        have "dom (vm_heap m') = insert ?a (dom (vm_heap m))" using n' by auto
        then show ?thesis using vm n'(2) by (auto simp: vmem_ok_def subset_iff less_Suc_eq)
      qed
      then have ok': "cells_ok cs m' G b vs"
        using ok nin unfolding cells_ok_def chain_rep_def n'(2) by simp
      have run: "v_after k p m = Inr (VCas1 c v p n, m')" using NCas nd False n by simp
      have dom: "dom (vm_heap m') = insert ?a (dom (vm_heap m))" using n'(2) by auto
      have "stamped_at (vs c) p" using st NCas by simp
      then have pc: "vpc_ok (length cs) G b vs (vm_heap m') (VCas1 c v p n)" using c n' fresh(2) by simp
      have "vmoves cs m G b vs pc (VCas1 c v p n) cs m' b vs" unfolding vmoves_def
      proof (intro conjI)
        show "\<forall>a \<in> dom (vm_heap m) - chained (length cs) vs. vm_heap m' a = vm_heap m a" using fresh(1) n'(2) by auto
        show "v_own (VCas1 c v p n) \<inter> chained (length cs) vs = {}" using nin n'(1) by auto
        show "v_own (VCas1 c v p n) \<subseteq> v_own pc \<union> (dom (vm_heap m') - dom (vm_heap m))" using n'(1) dom fresh(1) by auto
      qed (use ok' pc dom n' grows_refl in auto)
      then show ?thesis using that run by blast
    qed
  qed
qed

lemma vstep_okI: "vmoves cs m G b vs pc pc' cs' m' b' vs' \<Longrightarrow> vstep_ok cs m G b vs pc (Inr (pc', cs', m'))"
  unfolding vstep_ok_def by blast

lemma head_on_chain:
  assumes "cells_ok cs m G b vs" and "c < length cs"
  shows "on_chain (vs c) (va_vhead (cs ! c))" "tp_unset_mark (va_vhead (cs ! c)) = va_vhead (cs ! c)"
    "q_from T b (vs c) (va_vhead (cs ! c))"
proof -
  note h = head_at [OF assms]
  show "on_chain (vs c) (va_vhead (cs ! c))" unfolding on_chain_def using h by blast
  show "tp_unset_mark (va_vhead (cs ! c)) = va_vhead (cs ! c)" unfolding h(1) by (simp add: tp_defs)
  have "vs c = [] @ hd (vs c) # tl (vs c)" using h(2) by (cases "vs c") auto
  then show "q_from T b (vs c) (va_vhead (cs ! c))" unfolding q_from_def using h(1)
    by (intro exI [of _ "[]"] exI [of _ "hd (vs c)"] exI [of _ "tl (vs c)"]) simp
qed

lemma vstep_init:
  assumes ok: "cells_ok cs m G b vs" and pc: "vpc_ok (length cs) G b vs (vm_heap m) (VInit k p)"
  shows "vstep_ok cs m G b vs (VInit k p) (cell_step (VInit k p) cs m)"
proof -
  have k: "n_cell k < length cs" "know G b vs k p" using pc by simp_all
  obtain e where e: "e \<in> set (vs (n_cell k))" "p = clean (ver_addr e)" using know_on_chain [OF k(2)] by (auto simp: on_chain_def)
  obtain nd where nd: "vn_load m p = Inr nd" "vn_ts nd = ver_ts e" using load_at [OF ok k(1) e(1)] e(2) by auto
  show ?thesis
  proof (cases "stamped e")
    case True
    then have "stamped_at (vs (n_cell k)) p" using e by (auto simp: stamped_at_def)
    from after_ok [OF ok k this] obtain pc' m' where a: "v_after k p m = Inr (pc', m')" "vmoves cs m G b vs (VInit k p) pc' cs m' b vs" by blast
    have "cell_step (VInit k p) cs m = Inr (pc', cs, m')" using nd True a(1) by simp
    then show ?thesis using vstep_okI [OF a(2)] by (simp only:)
  next
    case False
    then have "cell_step (VInit k p) cs m = Inr (VClock k p, cs, m)" using nd by simp
    then show ?thesis using k by (simp only:) (intro stay_put [OF ok]; simp)
  qed
qed

lemma vstep_stamp:
  assumes ok: "cells_ok cs m G b vs" and pc: "vpc_ok (length cs) G b vs (vm_heap m) (VStamp k p g)"
  shows "vstep_ok cs m G b vs (VStamp k p g) (cell_step (VStamp k p g) cs m)"
proof -
  have k: "n_cell k < length cs" "know G b vs k p" "b (tp_addr p) \<le> g" "g \<le> G" using pc by simp_all
  obtain m1 vs1 where s: "set_ts p g m = Inr m1" "stamps cs m G b vs m1 vs1" "stamped_at (vs1 (n_cell k)) p"
    by (rule set_ts_ok [OF ok k(1) know_on_chain [OF k(2)] k(3,4)])
  have s': "cells_ok cs m1 G b vs1" "\<forall>c < length cs. grows G b (vs c) b (vs1 c)" using s(2) by (simp_all add: stamps_def)
  have "know G b vs1 k p" by (rule know_grows [OF s'(2) order_refl k(1,2)])
  from after_ok [OF s'(1) k(1) this s(3)] obtain pc' m' where
    a: "v_after k p m1 = Inr (pc', m')" "vmoves cs m1 G b vs1 (VStamp k p g) pc' cs m' b vs1" by blast
  have "cell_step (VStamp k p g) cs m = Inr (pc', cs, m')" using s(1) a(1) by simp
  then show ?thesis using vstep_okI [OF stamps_moves [OF s(2) a(2)]] by (simp only:)
qed

lemma vstep_walk:
  assumes ok: "cells_ok cs m G b vs" and pc: "vpc_ok (length cs) G b vs (vm_heap m) (VWalk c T p)"
  shows "vstep_ok cs m G b vs (VWalk c T p) (cell_step (VWalk c T p) cs m)"
proof -
  have c: "c < length cs" "T \<le> G" using pc by simp_all
  obtain new old where q: "vs c = new @ old" "list_all (hidden T b) new" "list_all stamped old" "p = ptr_of old"
    using pc by (auto simp: q_walk_def)
  show ?thesis
  proof (cases old)
    case Nil
    then have "cell_step (VWalk c T p) cs m = Inr (VDone (VQuery c T) (Some (- 1)), cs, m)" using q(4) by (simp add: tp_true_def)
    moreover have "q_done T b (vs c) (- 1)" unfolding q_done_def using q Nil by (intro exI [of _ new] exI [of _ "[]"]) (simp add: snapshot_def)
    ultimately show ?thesis using c by (simp only:) (intro stay_put [OF ok]; simp)
  next
    case (Cons e rest)
    have seg: "vseg (vm_heap m) (ptr_of old) old" using vseg_suffix cells_okD(2) [OF ok c(1)] q(1) by metis
    obtain a x t where e: "e = (a, x, t)" by (cases e)
    obtain r where nd: "0 < a" "vm_heap m a = Some \<lparr>vn_value = x, vn_ts = t, vn_nextv = r\<rparr>" "vseg (vm_heap m) r rest"
      using seg Cons e by auto
    have r: "r = ptr_of rest" by (rule vseg_ptr [OF nd(3)])
    have st: "t \<noteq> - 1" "list_all stamped rest" using q(3) Cons e by auto
    show ?thesis
    proof (cases "t \<ge> T")
      case True
      then have run: "cell_step (VWalk c T p) cs m = Inr (VWalk c T r, cs, m)" using q(4) Cons e nd by (simp add: tp_true_def)
      have "q_walk T b (vs c) r" unfolding q_walk_def using q(1,2) Cons e True st r
        by (intro exI [of _ "new @ [e]"] exI [of _ rest]) (simp add: hidden_def)
      then show ?thesis using run c by (simp only:) (intro stay_put [OF ok]; simp)
    next
      case False
      then have run: "cell_step (VWalk c T p) cs m = Inr (VDone (VQuery c T) (Some x), cs, m)" using q(4) Cons e nd by (simp add: tp_true_def)
      have "q_done T b (vs c) x" unfolding q_done_def using q(1-3) Cons e False st
        by (intro exI [of _ new] exI [of _ old]) (simp add: snapshot_def)
      then show ?thesis using run c by (simp only:) (intro stay_put [OF ok]; simp)
    qed
  qed
qed

text \<open>Publication of a version.\<close>

lemma vstep_cas:
  assumes ok: "cells_ok cs m G b vs" and pc: "vpc_ok (length cs) G b vs (vm_heap m) (VCas1 c v head n)"
    and own: "v_own (VCas1 c v head n) \<inter> chained (length cs) vs = {}"
  shows "vstep_ok cs m G b vs (VCas1 c v head n) (cell_step (VCas1 c v head n) cs m)"
proof -
  define a where "a = tp_addr n"
  have c: "c < length cs" "stamped_at (vs c) head" "n = clean a" "0 < a" "vm_heap m a = Some \<lparr>vn_value = v, vn_ts = - 1, vn_nextv = head\<rparr>"
    using pc by (simp_all add: a_def)
  have nin: "a \<notin> addrs (vs d)" if "d < length cs" for d using own that c(3) by auto
  show ?thesis
  proof (cases "va_vhead (cs ! c) = head")
    case False
    then have "cell_step (VCas1 c v head n) cs m = Inr (VIns0 c v, cs, m)" by simp
    then show ?thesis using c(1) by (simp only:) (intro stay_put [OF ok]; simp)
  next
    case True
    let ?cs = "set_head c n cs" and ?vs = "vs(c := (a, v, - 1) # vs c)" and ?b = "b(a := G)"
    have run: "cell_step (VCas1 c v head n) cs m = Inr (VInit (NNew c v) n, ?cs, m)" using True by simp
    obtain e where e: "e \<in> set (vs c)" "head = clean (ver_addr e)" "stamped e" using c(2) by (auto simp: stamped_at_def)
    have "e = hd (vs c)" by (rule addr_inj [OF cells_okD(4) [OF ok c(1)] e(1)]) (use head_at [OF ok c(1)] True e(2) in auto)
    then have "stamped w" if "w \<in> set (vs c)" for w
    proof -
      have "w = hd (vs c) \<or> w \<in> set (tl (vs c))" using that by (cases "vs c") auto
      then show ?thesis using e(3) \<open>e = hd (vs c)\<close> vgood_tl [OF cells_okD(5) [OF ok c(1)]] by blast
    qed
    then have st: "\<forall>w \<in> set (vs c). stamped w \<and> ver_ts w \<le> G" using vgood_le [OF cells_okD(5) [OF ok c(1)]] by blast
    have G: "0 \<le> G" using cells_okD(1) [OF ok] by (simp add: vmem_ok_def)
    have same: "?b (ver_addr w) = b (ver_addr w)" if "d < length cs" "w \<in> set (vs d)" for d w
    proof -
      have "ver_addr w \<noteq> a" using nin [OF that(1)] that(2) by blast
      then show ?thesis by simp
    qed
    have good: "vgood G ?b (vs d)" if "d < length cs" for d
      by (rule vgood_mono [OF cells_okD(5) [OF ok that] order_refl same [OF that]])
    have "cells_ok ?cs m G ?b ?vs" unfolding cells_ok_def chain_rep_def
    proof (intro conjI allI impI)
      show "vmem_ok m G" by (rule cells_okD(1) [OF ok])
      fix d assume "d < length ?cs"
      then have dl: "d < length cs" by (simp add: set_head_def)
      show "vseg (vm_heap m) (va_vhead (?cs ! d)) (?vs d)"
        using cells_okD(2) [OF ok dl] cells_okD(2) [OF ok c(1)] c True dl by (simp add: set_head_def nth_list_update)
      show "?vs d \<noteq> []" using cells_okD(3) [OF ok dl] by simp
      show "distinct (map ver_addr (?vs d))" using cells_okD(4) [OF ok dl] nin [OF dl] cells_okD(4) [OF ok c(1)] nin [OF c(1)] by simp
      show "vgood G ?b (?vs d)" using good [OF dl] good [OF c(1)] st G by simp
    next
      fix d d' assume "d < length ?cs \<and> d' < length ?cs \<and> d \<noteq> d'"
      then have "d < length cs" "d' < length cs" "d \<noteq> d'" by (simp_all add: set_head_def)
      then show "addrs (?vs d) \<inter> addrs (?vs d') = {}" using cells_okD(6) [OF ok] nin by auto
    qed
    moreover have "grows G b (vs d) ?b (?vs d)" if d: "d < length cs" for d
    proof (cases "d = c")
      case True
      have "list_all2 same_ver (vs c) (vs c)" by (simp add: list_all2_same)
      then show ?thesis unfolding grows_def True using same [OF c(1)] by (intro conjI exI [of _ "[(a, v, - 1)]"] exI [of _ "vs c"]) auto
    next
      case False
      have "list_all2 same_ver (vs d) (vs d)" by (simp add: list_all2_same)
      then show ?thesis unfolding grows_def using same [OF d] False by (intro conjI exI [of _ "[]"] exI [of _ "vs d"]) auto
    qed
    moreover have "on_chain (?vs c) n" using c(3) by (simp add: on_chain_def)
    moreover have "chained (length cs) ?vs \<subseteq> chained (length cs) vs \<union> {a}"
    proof (rule UN_least)
      fix d assume "d \<in> {..<length cs}"
      then have "addrs (vs d) \<subseteq> chained (length cs) vs" by (intro UN_upper)
      moreover have "addrs (?vs d) \<subseteq> addrs (vs d) \<union> {a}" by (cases "d = c") (simp_all add: subset_insertI)
      ultimately show "addrs (?vs d) \<subseteq> chained (length cs) vs \<union> {a}" by (rule_tac subset_trans) (assumption, rule Un_mono, simp_all)
    qed
    ultimately have "vmoves cs m G b vs (VCas1 c v head n) (VInit (NNew c v) n) ?cs m ?b ?vs"
      unfolding vmoves_def using c(1) a_def by (simp add: set_head_def)
    from vstep_okI [OF this] show ?thesis by (simp only: run)
  qed
qed

lemma vstep_thread:
  assumes ok: "cells_ok cs m G b vs" and pc: "vpc_ok (length cs) G b vs (vm_heap m) pc" and own: "v_own pc \<inter> chained (length cs) vs = {}"
  shows "vstep_ok cs m G b vs pc (cell_step pc cs m)"
proof (cases pc)
  case VIdle
  then show ?thesis by (simp only: cell_step.simps) (intro stay_put [OF ok]; simp)
next
  case (VGet0 c)
  then have "c < length cs" using pc by simp
  then show ?thesis unfolding VGet0 cell_step.simps using head_value [OF ok] by simp (intro stay_put [OF ok]; simp)
next
  case (VIns0 c v)
  then have "c < length cs" using pc by simp
  then show ?thesis unfolding VIns0 cell_step.simps using head_on_chain(1) [OF ok] by (intro stay_put [OF ok]) simp_all
next
  case (VIns1 c v)
  then have c: "c < length cs" using pc by simp
  show ?thesis unfolding VIns1 cell_step.simps using head_value [OF ok c] c by simp (intro conjI impI stay_put [OF ok]; simp)
next
  case (VCas0 c v old)
  then have c: "c < length cs" using pc by simp
  show ?thesis unfolding VCas0 cell_step.simps using head_on_chain(1,2) [OF ok c] c by (intro stay_put [OF ok]) simp_all
next
  case (VCas1 c v head n)
  show ?thesis unfolding VCas1 by (rule vstep_cas [OF ok pc [unfolded VCas1] own [unfolded VCas1]])
next
  case (VQuery0 c T)
  then have c: "c < length cs" "T \<le> G" using pc by simp_all
  show ?thesis unfolding VQuery0 cell_step.simps using head_on_chain(2,3) [OF ok c(1)] c by (intro stay_put [OF ok]) simp_all
next
  case (VInit k p)
  show ?thesis unfolding VInit by (rule vstep_init [OF ok pc [unfolded VInit]])
next
  case (VClock k p)
  then have k: "n_cell k < length cs" "know G b vs k p" using pc by simp_all
  have "get_latest_timestamp (vm_tracker m) = Inr G" using cells_okD(1) [OF ok] by (simp add: vmem_ok_def)
  then have run: "cell_step (VClock k p) cs m = Inr (VStamp k p G, cs, m)" by simp
  obtain e where e: "e \<in> set (vs (n_cell k))" "p = clean (ver_addr e)" using know_on_chain [OF k(2)] by (auto simp: on_chain_def)
  have "b (ver_addr e) \<le> G" by (rule vgood_b [OF cells_okD(5) [OF ok k(1)] e(1)])
  then show ?thesis unfolding VClock run using k e(2) by (intro stay_put [OF ok]) simp_all
next
  case (VStamp k p g)
  show ?thesis unfolding VStamp by (rule vstep_stamp [OF ok pc [unfolded VStamp]])
next
  case (VWalk c T p)
  show ?thesis unfolding VWalk by (rule vstep_walk [OF ok pc [unfolded VWalk]])
next
  case (VDone op r)
  then show ?thesis using pc by (simp only: cell_step.simps) (intro stay_put [OF ok]; simp)
qed

end
