(* ===== verification/Versions_Conc_Correct.thy ===== *)
theory Versions_Conc_Correct
  imports Versions_Conc_Step
begin

text \<open>
  The invariant of every reachable state of cells and tracker, and the properties: all queries with one
  timestamp see one snapshot, timestamps fall along a chain, no access fails; and from which states a
  query does not see a value that was read before its timestamp existed.
\<close>

section \<open>The invariant of reachable states\<close>

definition vowns_ok :: "vsys \<Rightarrow> (nat \<Rightarrow> version list) \<Rightarrow> bool" where
  "vowns_ok s vs \<longleftrightarrow> (\<forall>i. v_own (cy_pc s i) \<subseteq> dom (vm_heap (cy_mem s)) \<and> v_own (cy_pc s i) \<inter> chained (length (cy_cells s)) vs = {})
     \<and> (\<forall>i j. i \<noteq> j \<longrightarrow> v_own (cy_pc s i) \<inter> v_own (cy_pc s j) = {})"

definition answers_ok :: "vsys \<Rightarrow> int \<Rightarrow> (addr \<Rightarrow> int) \<Rightarrow> (nat \<Rightarrow> version list) \<Rightarrow> bool" where
  "answers_ok s G b vs \<longleftrightarrow> (\<forall>(c, T, x) \<in> set (cy_ans s). c < length (cy_cells s) \<and> T \<le> G \<and> q_done T b (vs c) x)"

definition cinv :: "vsys \<Rightarrow> int \<Rightarrow> (addr \<Rightarrow> int) \<Rightarrow> (nat \<Rightarrow> version list) \<Rightarrow> bool" where
  "cinv s G b vs \<longleftrightarrow> treach (tsys_of s) \<and> cells_ok (cy_cells s) (cy_mem s) G b vs
     \<and> (\<forall>i. vpc_ok (length (cy_cells s)) G b vs (vm_heap (cy_mem s)) (cy_pc s i)) \<and> vowns_ok s vs \<and> answers_ok s G b vs"

lemma cinvD:
  assumes "cinv s G b vs"
  shows "treach (tsys_of s)" "cells_ok (cy_cells s) (cy_mem s) G b vs"
    "\<And>i. vpc_ok (length (cy_cells s)) G b vs (vm_heap (cy_mem s)) (cy_pc s i)" "vowns_ok s vs" "answers_ok s G b vs"
  using assms by (simp_all add: cinv_def)

text \<open>The new array.\<close>

lemma new_cells_layout:
  assumes "new_cells kvs m = (cs, m')"
  shows "length cs = length kvs \<and> vm_tracker m' = vm_tracker m \<and> vm_brk m' = vm_brk m + length kvs
    \<and> dom (vm_heap m') = dom (vm_heap m) \<union> {vm_brk m..<vm_brk m + length kvs}
    \<and> (\<forall>a < vm_brk m. vm_heap m' a = vm_heap m a)
    \<and> (\<forall>i < length kvs. va_vhead (cs ! i) = clean (vm_brk m + i)
        \<and> vm_heap m' (vm_brk m + i) = Some \<lparr>vn_value = snd (kvs ! i), vn_ts = - 1, vn_nextv = null_ptr\<rparr>)"
  using assms
proof (induction kvs arbitrary: m cs m')
  case (Cons kv kvs)
  obtain k v where kv: "kv = (k, v)" by (cases kv)
  obtain c m1 where c: "VersionedArray_new k v m = (c, m1)" by (cases "VersionedArray_new k v m")
  obtain cs' m2 where r: "new_cells kvs m1 = (cs', m2)" by (cases "new_cells kvs m1")
  have e: "cs = c # cs'" "m' = m2" using Cons.prems kv c r by simp_all
  have c': "va_vhead c = clean (vm_brk m)" "vm_brk m1 = Suc (vm_brk m)" "vm_tracker m1 = vm_tracker m"
    "vm_heap m1 = (vm_heap m)(vm_brk m \<mapsto> \<lparr>vn_value = v, vn_ts = - 1, vn_nextv = null_ptr\<rparr>)"
    using c by (auto simp: VersionedArray_new_def Vnode_new_def)
  note IH = Cons.IH [OF r]
  have "vm_heap m2 (vm_brk m) = Some \<lparr>vn_value = v, vn_ts = - 1, vn_nextv = null_ptr\<rparr>" using IH c'(2,4) by simp
  then have "va_vhead (cs ! i) = clean (vm_brk m + i)
      \<and> vm_heap m2 (vm_brk m + i) = Some \<lparr>vn_value = snd ((kv # kvs) ! i), vn_ts = - 1, vn_nextv = null_ptr\<rparr>" if "i < length (kv # kvs)" for i
    using that IH c'(1,2) e(1) kv by (cases i) auto
  moreover have "dom (vm_heap m2) = dom (vm_heap m) \<union> {vm_brk m..<vm_brk m + length (kv # kvs)}" using IH c'(2,4) by auto
  ultimately show ?case using IH c' e by simp
qed simp

lemma cinv_init: "\<exists>vs. cinv (vsys_init kvs) 0 (\<lambda>_. 0) vs"
proof -
  obtain cs m where n: "new_cells kvs vmem_new = (cs, m)" by (cases "new_cells kvs vmem_new")
  note L = new_cells_layout [OF n]
  have b: "vm_brk vmem_new = 1" "vm_heap vmem_new = Map.empty" "vm_tracker vmem_new = TrackerList_new" by (simp_all add: vmem_new_def)
  define vs :: "nat \<Rightarrow> version list" where "vs c = [(1 + c, snd (kvs ! c), - 1)]" for c
  have s: "vsys_init kvs = \<lparr>cy_cells = cs, cy_mem = m, cy_tpc = (\<lambda>_. TIdle), cy_log = [], cy_pc = (\<lambda>_. VIdle), cy_ans = []\<rparr>"
    by (simp add: vsys_init_def n)
  have "tsys_of (vsys_init kvs) = tsys_init" using L b(3) by (simp add: s tsys_of_def tsys_init_def)
  then have "treach (tsys_of (vsys_init kvs))" using treach.init by simp
  moreover have "vmem_ok m 0" using L vmem_ok_new by (auto simp: vmem_ok_def b)
  then have "cells_ok cs m 0 (\<lambda>_. 0) vs" using L by (auto simp: cells_ok_def chain_rep_def vs_def b)
  ultimately have "cinv (vsys_init kvs) 0 (\<lambda>_. 0) vs" by (simp add: cinv_def s vowns_ok_def answers_ok_def)
  then show ?thesis by blast
qed

text \<open>A step of a thread.\<close>

lemma answers_grow:
  assumes "answers_ok s G b vs" and "\<forall>c < length (cy_cells s). grows G b (vs c) b' (vs' c)" and "G \<le> G'"
    and "length (cy_cells s') = length (cy_cells s)" and "cy_ans s' = cy_ans s"
  shows "answers_ok s' G' b' vs'"
proof -
  have H: "c < length (cy_cells s') \<and> T \<le> G' \<and> q_done T b' (vs' c) x" if m: "(c, T, x) \<in> set (cy_ans s')" for c T x
  proof -
    have a: "c < length (cy_cells s)" "T \<le> G" "q_done T b (vs c) x" using assms(1) m unfolding answers_ok_def assms(5) by auto
    have "grows G b (vs c) b' (vs' c)" using assms(2) a(1) by blast
    from q_done_grows [OF this a(2,3)] show ?thesis using a(1,2) assms(3,4) by simp
  qed
  show ?thesis unfolding answers_ok_def
  proof
    fix e assume e: "e \<in> set (cy_ans s')"
    obtain c T x where "e = (c, T, x)" by (cases e)
    then show "case e of (c, T, x) \<Rightarrow> c < length (cy_cells s') \<and> T \<le> G' \<and> q_done T b' (vs' c) x" using H e by simp
  qed
qed

lemma disj_sub: "A \<inter> B = {} \<Longrightarrow> A \<inter> C = {} \<Longrightarrow> D \<subseteq> B \<union> C \<Longrightarrow> A \<inter> D = {}"
  by blast

lemma disj_new: "A \<subseteq> B \<union> (D' - D) \<Longrightarrow> C \<subseteq> D \<Longrightarrow> B \<inter> C = {} \<Longrightarrow> A \<inter> C = {}"
  by blast

lemma cinv_moves:
  assumes inv: "cinv s G b vs" and mv: "vmoves (cy_cells s) (cy_mem s) G b vs (cy_pc s i) pc' cs' m' b' vs'"
  shows "cinv (s\<lparr>cy_cells := cs', cy_mem := m', cy_pc := (cy_pc s)(i := pc')\<rparr>) G b' vs'"
proof -
  let ?N = "length (cy_cells s)" and ?s = "s\<lparr>cy_cells := cs', cy_mem := m', cy_pc := (cy_pc s)(i := pc')\<rparr>"
  note I = cinvD [OF inv] and M = vmovesD [OF mv]
  have gr: "\<forall>c < ?N. grows G b (vs c) b' (vs' c)" using M(4) by blast
  have own: "v_own (cy_pc s j) \<subseteq> dom (vm_heap (cy_mem s))" "v_own (cy_pc s j) \<inter> chained ?N vs = {}" for j
    using I(4) unfolding vowns_ok_def by blast+
  have dj: "v_own (cy_pc s j) \<inter> v_own (cy_pc s k) = {}" if "j \<noteq> k" for j k using I(4) that unfolding vowns_ok_def by blast
  have keep: "vm_heap m' a = vm_heap (cy_mem s) a" if "a \<in> v_own (cy_pc s j)" for a j
  proof (rule bspec [OF M(6)])
    have "a \<in> dom (vm_heap (cy_mem s))" by (rule subsetD [OF own(1) that])
    moreover have "a \<notin> chained ?N vs"
    proof
      assume "a \<in> chained ?N vs"
      with that have "a \<in> v_own (cy_pc s j) \<inter> chained ?N vs" by (rule IntI)
      then show False unfolding own(2) by (rule emptyE)
    qed
    ultimately show "a \<in> dom (vm_heap (cy_mem s)) - chained ?N vs" by (rule DiffI)
  qed
  have pcs: "vpc_ok ?N G b' vs' (vm_heap m') (cy_pc s j)" for j by (rule vpc_mono [OF gr order_refl keep I(3)])
  have "tsys_of ?s = tsys_of s" using M(2) by (simp add: tsys_of_def)
  then have tr: "treach (tsys_of ?s)" using I(1) by simp
  have o1: "v_own (((cy_pc s)(i := pc')) j) \<subseteq> dom (vm_heap m')" "v_own (((cy_pc s)(i := pc')) j) \<inter> chained ?N vs' = {}" for j
  proof -
    have "v_own (cy_pc s j) \<subseteq> dom (vm_heap m')" using own(1) M(5) by (rule subset_trans)
    then show "v_own (((cy_pc s)(i := pc')) j) \<subseteq> dom (vm_heap m')" using M(8) by simp
    have "v_own (cy_pc s j) \<inter> chained ?N vs' = {}" if "j \<noteq> i" by (rule disj_sub [OF own(2) dj [OF that] M(11)])
    then show "v_own (((cy_pc s)(i := pc')) j) \<inter> chained ?N vs' = {}" using M(9) by simp
  qed
  have n: "v_own pc' \<inter> v_own (cy_pc s j) = {}" if "j \<noteq> i" for j by (rule disj_new [OF M(10) own(1) dj]) (use that in simp)
  have o2: "v_own (((cy_pc s)(i := pc')) j) \<inter> v_own (((cy_pc s)(i := pc')) k) = {}" if "j \<noteq> k" for j k
    using n [of j] n [of k] dj [OF that] that by (auto split: if_splits)
  have "vowns_ok ?s vs'" unfolding vowns_ok_def using o1 o2 M(1) by simp
  moreover have "answers_ok ?s G b' vs'" by (rule answers_grow [OF I(5) gr]) (simp_all add: M(1))
  ultimately show ?thesis unfolding cinv_def using tr M(1,3,7) pcs by simp
qed

lemma step_moves:
  assumes "cinv s G b vs"
  obtains pc' cs' m' b' vs' where "cell_step (cy_pc s i) (cy_cells s) (cy_mem s) = Inr (pc', cs', m')"
    "vmoves (cy_cells s) (cy_mem s) G b vs (cy_pc s i) pc' cs' m' b' vs'"
proof -
  note I = cinvD [OF assms]
  have "v_own (cy_pc s i) \<inter> chained (length (cy_cells s)) vs = {}" using I(4) unfolding vowns_ok_def by blast
  from vstep_thread [OF I(2,3) this] show ?thesis using that unfolding vstep_ok_def by blast
qed

lemma cinv_tracker:
  assumes inv: "cinv s G b vs" and st: "tstep (tsys_of s) t"
  shows "\<exists>G'. G \<le> G' \<and> cinv (s\<lparr>cy_mem := (cy_mem s)\<lparr>vm_tracker := sy_list t\<rparr>, cy_tpc := sy_pc t, cy_log := sy_log t\<rparr>) G' b vs"
proof -
  let ?s = "s\<lparr>cy_mem := (cy_mem s)\<lparr>vm_tracker := sy_list t\<rparr>, cy_tpc := sy_pc t, cy_log := sy_log t\<rparr>"
  note I = cinvD [OF inv]
  obtain g g' where g: "get_latest_timestamp (sy_list (tsys_of s)) = Inr g" "get_latest_timestamp (sy_list t) = Inr g'" "g \<le> g'"
    using tracker_step [OF I(1) st] by blast
  have vm: "vmem_ok (cy_mem s) G" by (rule cells_okD(1) [OF I(2)])
  then have G: "g = G" "0 \<le> G" using g(1) by (simp_all add: vmem_ok_def tsys_of_def)
  have "tsys_of ?s = t" by (simp add: tsys_of_def)
  then have tr: "treach (tsys_of ?s)" using treach.step [OF I(1) st] by simp
  have ok: "cells_ok (cy_cells ?s) (cy_mem ?s) g' b vs"
    using I(2) vm g G vgood_mono [of G b _ g' b] by (simp add: cells_ok_def vmem_ok_def)
  have gr: "\<forall>c < length (cy_cells s). grows G b (vs c) b (vs c)" using grows_refl by blast
  have pcs: "vpc_ok (length (cy_cells s)) g' b vs (vm_heap (cy_mem s)) (cy_pc s i)" for i
    by (rule vpc_mono [OF gr _ refl I(3)]) (use g(3) G in simp)
  have an: "answers_ok ?s g' b vs" by (rule answers_grow [OF I(5) gr]) (use g(3) G in simp_all)
  have "vowns_ok ?s vs" using I(4) by (simp add: vowns_ok_def)
  then show ?thesis using tr ok pcs an g(3) G by (intro exI [of _ g']) (simp add: cinv_def)
qed

lemma cinv_call:
  assumes inv: "cinv s G b vs" and op: "vop_ok s op"
  shows "cinv (s\<lparr>cy_pc := (cy_pc s)(i := v_start op)\<rparr>) G b vs"
proof -
  note I = cinvD [OF inv]
  have iss: "T \<le> G" if "T \<in> set (issued (vm_tracker (cy_mem s)) (cy_log s))" for T
    using issued_le [OF I(1)] cells_okD(1) [OF I(2)] that by (auto simp: tsys_of_def vmem_ok_def)
  have "vpc_ok (length (cy_cells s)) G b vs (vm_heap (cy_mem s)) (v_start op)" "v_own (v_start op) = {}"
    using op iss by (cases op; simp)+
  moreover have "tsys_of (s\<lparr>cy_pc := (cy_pc s)(i := v_start op)\<rparr>) = tsys_of s" by (simp add: tsys_of_def)
  ultimately show ?thesis using I(1,2,3,4,5) by (simp add: cinv_def vowns_ok_def answers_ok_def)
qed

lemma cinv_ret:
  assumes inv: "cinv s G b vs" and pc: "cy_pc s i = VDone op r"
  shows "cinv (s\<lparr>cy_pc := (cy_pc s)(i := VIdle), cy_ans := v_answer op r @ cy_ans s\<rparr>) G b vs"
proof -
  let ?s = "s\<lparr>cy_pc := (cy_pc s)(i := VIdle), cy_ans := v_answer op r @ cy_ans s\<rparr>"
  note I = cinvD [OF inv]
  have "c < length (cy_cells s) \<and> T \<le> G \<and> q_done T b (vs c) x" if "(c, T, x) \<in> set (v_answer op r)" for c T x
  proof -
    have op: "op = VQuery c T" "r = Some x" using that by (cases op; cases r; simp)+
    then show ?thesis using I(3) [of i] pc by simp
  qed
  then have "answers_ok ?s G b vs" using I(5) unfolding answers_ok_def by auto
  moreover have "tsys_of ?s = tsys_of s" by (simp add: tsys_of_def)
  ultimately show ?thesis using I(1,2,3,4) by (simp add: cinv_def vowns_ok_def)
qed

lemma cstep_grows:
  assumes inv: "cinv s G b vs" and st: "cstep s s'"
  shows "\<exists>G' b' vs'. cinv s' G' b' vs' \<and> G \<le> G' \<and> length (cy_cells s') = length (cy_cells s)
    \<and> (\<forall>c < length (cy_cells s). grows G b (vs c) b' (vs' c))"
  using st
proof cases
  case (tracker t)
  obtain G' where "G \<le> G'" "cinv s' G' b vs" using cinv_tracker [OF inv tracker(2)] tracker(1) by blast
  then show ?thesis using grows_refl tracker(1) by (intro exI [of _ G'] exI [of _ b] exI [of _ vs]) simp
next
  case (call i op)
  have "cinv s' G b vs" using cinv_call [OF inv call(3)] call(1) by simp
  then show ?thesis using grows_refl call(1) by (intro exI [of _ G] exI [of _ b] exI [of _ vs]) simp
next
  case (atomic i pc' cs' m')
  obtain pc1 cs1 m1 b' vs' where m: "cell_step (cy_pc s i) (cy_cells s) (cy_mem s) = Inr (pc1, cs1, m1)"
    "vmoves (cy_cells s) (cy_mem s) G b vs (cy_pc s i) pc1 cs1 m1 b' vs'" by (rule step_moves [OF inv])
  then have e: "pc1 = pc'" "cs1 = cs'" "m1 = m'" using atomic(2) by simp_all
  have "cinv s' G b' vs'" using cinv_moves [OF inv m(2)] atomic(1) e by simp
  then show ?thesis using vmovesD(1,4) [OF m(2)] e atomic(1) by (intro exI [of _ G] exI [of _ b'] exI [of _ vs']) simp
next
  case (ret i op r)
  have "cinv s' G b vs" using cinv_ret [OF inv ret(2)] ret(1) by simp
  then show ?thesis using grows_refl ret(1) by (intro exI [of _ G] exI [of _ b] exI [of _ vs]) simp
qed

lemma cinv_step: "cstep s s' \<Longrightarrow> cinv s G b vs \<Longrightarrow> \<exists>G' b' vs'. cinv s' G' b' vs'"
  using cstep_grows by blast

lemma creach_inv: "creach kvs s \<Longrightarrow> \<exists>G b vs. cinv s G b vs"
proof (induction rule: creach.induct)
  case init
  then show ?case using cinv_init by blast
next
  case (step s s')
  then show ?case using cinv_step by blast
qed

text \<open>The chain of a cell.\<close>

lemma v_chain_eq: "vseg h p vs \<Longrightarrow> length vs < n \<Longrightarrow> v_chain n h p = vs"
proof (induction vs arbitrary: n p)
  case Nil
  then show ?case by (cases n) (simp_all add: tp_true_def)
next
  case (Cons e vs)
  obtain a v t where e: "e = (a, v, t)" by (cases e)
  obtain n' where n: "n = Suc n'" "length vs < n'" using Cons.prems(2) by (cases n) auto
  obtain q where q: "p = clean a" "0 < a" "h a = Some \<lparr>vn_value = v, vn_ts = t, vn_nextv = q\<rparr>" "vseg h q vs" using Cons.prems(1) e by auto
  then show ?case using Cons.IH [OF q(4) n(2)] e n(1) by (simp add: tp_true_def)
qed

lemma cell_chain_eq:
  assumes "cinv s G b vs" and "c < length (cy_cells s)"
  shows "cell_chain s c = vs c"
proof -
  note I = cinvD [OF assms(1)]
  have seg: "vseg (vm_heap (cy_mem s)) (va_vhead (cy_cells s ! c)) (vs c)" by (rule cells_okD(2) [OF I(2) assms(2)])
  have "length (vs c) < vm_brk (cy_mem s)"
    by (rule vseg_length [OF seg cells_okD(1) [OF I(2)] cells_okD(4) [OF I(2) assms(2)]])
  then show ?thesis unfolding cell_chain_def by (rule v_chain_eq [OF seg])
qed

section \<open>Executions\<close>

datatype vact = VCall nat vop | VStep nat | VRet nat | TCall nat | TStep nat | TRet nat

fun v_act :: "vact \<Rightarrow> vsys \<Rightarrow> vsys option" where
  "v_act (VCall i op) s = (if cy_pc s i = VIdle \<and> vop_ok s op then Some (s\<lparr>cy_pc := (cy_pc s)(i := v_start op)\<rparr>) else None)"
| "v_act (VStep i) s = (case cell_step (cy_pc s i) (cy_cells s) (cy_mem s) of Inl e \<Rightarrow> None
     | Inr (pc', cs', m') \<Rightarrow> Some (s\<lparr>cy_cells := cs', cy_mem := m', cy_pc := (cy_pc s)(i := pc')\<rparr>))"
| "v_act (VRet i) s = (case cy_pc s i of VDone op r \<Rightarrow> Some (s\<lparr>cy_pc := (cy_pc s)(i := VIdle), cy_ans := v_answer op r @ cy_ans s\<rparr>) | _ \<Rightarrow> None)"
| "v_act (TCall i) s = (if cy_tpc s i = TIdle then Some (s\<lparr>cy_tpc := (cy_tpc s)(i := TAdd0)\<rparr>) else None)"
| "v_act (TStep i) s = (case t_step (cy_tpc s i) (vm_tracker (cy_mem s)) of Inl e \<Rightarrow> None
     | Inr (pc', l') \<Rightarrow> Some (s\<lparr>cy_mem := (cy_mem s)\<lparr>vm_tracker := l'\<rparr>, cy_tpc := (cy_tpc s)(i := pc')\<rparr>))"
| "v_act (TRet i) s = (case cy_tpc s i of TAdded a \<Rightarrow> Some (s\<lparr>cy_tpc := (cy_tpc s)(i := TIdle), cy_log := a # cy_log s\<rparr>) | _ \<Rightarrow> None)"

fun v_exec :: "vact list \<Rightarrow> vsys \<Rightarrow> vsys option" where
  "v_exec [] s = Some s"
| "v_exec (a # as) s = (case v_act a s of None \<Rightarrow> None | Some s' \<Rightarrow> v_exec as s')"

lemma v_act_step: "v_act a s = Some s' \<Longrightarrow> cstep s s'"
proof (cases a)
  case (VCall i op)
  then show "v_act a s = Some s' \<Longrightarrow> cstep s s'" using cstep.call by (auto split: if_splits)
next
  case (VStep i)
  then show "v_act a s = Some s' \<Longrightarrow> cstep s s'" using cstep.atomic by (auto split: sum.splits prod.splits)
next
  case (VRet i)
  then show "v_act a s = Some s' \<Longrightarrow> cstep s s'" using cstep.ret by (auto split: vpc.splits)
next
  case (TCall i)
  assume r: "v_act a s = Some s'"
  then have t: "cy_tpc s i = TIdle" "s' = s\<lparr>cy_tpc := (cy_tpc s)(i := TAdd0)\<rparr>" using TCall by (auto split: if_splits)
  show "cstep s s'" using cstep.tracker [OF tstep.call_add [of "tsys_of s" i]] t by (simp add: tsys_of_def)
next
  case (TStep i)
  assume r: "v_act a s = Some s'"
  then obtain pc' l' where t: "t_step (cy_tpc s i) (vm_tracker (cy_mem s)) = Inr (pc', l')"
    "s' = s\<lparr>cy_mem := (cy_mem s)\<lparr>vm_tracker := l'\<rparr>, cy_tpc := (cy_tpc s)(i := pc')\<rparr>" using TStep by (auto split: sum.splits prod.splits)
  show "cstep s s'" using cstep.tracker [OF tstep.atomic [of "tsys_of s" i pc' l']] t by (simp add: tsys_of_def)
next
  case (TRet i)
  assume r: "v_act a s = Some s'"
  then obtain n where t: "cy_tpc s i = TAdded n" "s' = s\<lparr>cy_tpc := (cy_tpc s)(i := TIdle), cy_log := n # cy_log s\<rparr>"
    using TRet by (auto split: tpc.splits)
  show "cstep s s'" using cstep.tracker [OF tstep.ret_add [of "tsys_of s" i n]] t by (simp add: tsys_of_def)
qed

lemma v_exec_reach: "v_exec as s = Some s' \<Longrightarrow> creach kvs s \<Longrightarrow> creach kvs s'"
proof (induction as arbitrary: s)
  case (Cons a as)
  then show ?case using creach.step v_act_step by (auto split: option.splits)
qed simp

lemma v_exec_steps: "v_exec as s = Some s' \<Longrightarrow> cstep\<^sup>*\<^sup>* s s'"
proof (induction as arbitrary: s)
  case (Cons a as)
  then obtain s1 where s1: "v_act a s = Some s1" "v_exec as s1 = Some s'" by (auto split: option.splits)
  from v_act_step [OF s1(1)] Cons.IH [OF s1(2)] show ?case by (rule converse_rtranclp_into_rtranclp)
qed simp

lemma v_exec_append: "v_exec (as @ bs) s = (case v_exec as s of None \<Rightarrow> None | Some s' \<Rightarrow> v_exec bs s')"
  by (induction as arbitrary: s) (auto split: option.splits)

text \<open>One cell with the value 1. Thread 0 inserts 2 and stops before it gives its version a timestamp; thread 1 reads
  the cell; then a timestamp is handed out, and thread 2 runs a query with it.\<close>

abbreviation one_cell :: "(key_t \<times> val_t) list" where "one_cell \<equiv> [(10, 1)]"

abbreviation sched_read :: "vact list" where
  "sched_read \<equiv> VCall 0 (VInsert 0 2) # replicate 8 (VStep 0) @ [VCall 1 (VGet 0), VStep 1]"

abbreviation sched_query :: "vact list" where
  "sched_query \<equiv> VRet 1 # TCall 0 # replicate 3 (TStep 0) @ [TRet 0, VCall 2 (VQuery 0 1)] @ replicate 6 (VStep 2) @ [VRet 2]"

abbreviation sched_ask :: "vact list" where
  "sched_ask \<equiv> VRet 1 # TCall 0 # replicate 3 (TStep 0) @ [TRet 0, VCall 2 (VQuery 0 1)] @ replicate 2 (VStep 2)"

definition ends_with :: "vact list \<Rightarrow> (vsys \<Rightarrow> bool) \<Rightarrow> bool" where
  "ends_with as Q \<longleftrightarrow> (case v_exec as (vsys_init one_cell) of None \<Rightarrow> False | Some s \<Rightarrow> Q s)"

lemma ends_withD:
  assumes "ends_with as Q"
  obtains s where "v_exec as (vsys_init one_cell) = Some s" "creach one_cell s" "Q s"
  using assms v_exec_reach [OF _ creach.init] by (auto simp: ends_with_def split: option.splits)

section \<open>Properties\<close>

text \<open>C4. Under every interleaving of insertions, searches and range queries, the answer a query with timestamp \<open>T\<close> has
  ever given for a cell is, in every later state, the newest of the cell's versions that was stamped before
  \<open>T\<close>, or -1 if there is none. So two queries with one timestamp always agree, and the answers for all cells
  form one snapshot.\<close>

theorem queries_see_snapshot:
  assumes "creach kvs s" and "(c, T, x) \<in> set (cy_ans s)"
  shows "c < length (cy_cells s) \<and> x = snapshot T (cell_chain s c)"
proof -
  obtain G b vs where inv: "cinv s G b vs" using creach_inv [OF assms(1)] by blast
  note I = cinvD [OF inv]
  have a: "c < length (cy_cells s)" "q_done T b (vs c) x" using I(5) assms(2) unfolding answers_ok_def by auto
  then show ?thesis using q_done_snapshot [OF cells_okD(5) [OF I(2) a(1)] a(2)] cell_chain_eq [OF inv a(1)] by simp
qed

text \<open>C24. In every reachable state every cell has a version; all versions but the newest have a timestamp; timestamps do
  not increase from a version to the one it replaced and none is above the latest timestamp of the tracker; and
  no step of any thread fails, on the cells or on the tracker.\<close>

theorem versions_ordered:
  assumes "creach kvs s"
  shows "(\<exists>G. get_latest_timestamp (vm_tracker (cy_mem s)) = Inr G \<and> (\<forall>c < length (cy_cells s). cell_chain s c \<noteq> []
        \<and> list_all (\<lambda>v. ver_ts v \<le> G) (cell_chain s c) \<and> list_all stamped (tl (cell_chain s c))
        \<and> sorted_wrt (\<lambda>v w. stamped v \<longrightarrow> ver_ts w \<le> ver_ts v) (cell_chain s c)))
    \<and> (\<forall>i. \<exists>r. cell_step (cy_pc s i) (cy_cells s) (cy_mem s) = Inr r)
    \<and> (\<forall>i. \<exists>r. t_step (cy_tpc s i) (vm_tracker (cy_mem s)) = Inr r)"
proof -
  obtain G b vs where inv: "cinv s G b vs" using creach_inv [OF assms] by blast
  note I = cinvD [OF inv]
  have srt: "sorted_wrt (\<lambda>v w. stamped v \<longrightarrow> ver_ts w \<le> ver_ts v) us" if "vgood G b us" for us
    using that
  proof (induction us)
    case (Cons v us)
    have "stamped v \<longrightarrow> ver_ts w \<le> ver_ts v" if w: "w \<in> set us" for w
    proof
      assume "stamped v"
      then have "b (ver_addr v) \<le> ver_ts v" using Cons.prems by simp
      moreover have "\<forall>w \<in> set us. stamped w \<and> ver_ts w \<le> b (ver_addr v)" using Cons.prems by simp
      ultimately show "ver_ts w \<le> ver_ts v" using w by (meson order_trans)
    qed
    then show ?case using Cons by simp
  qed simp
  have "get_latest_timestamp (vm_tracker (cy_mem s)) = Inr G" using cells_okD(1) [OF I(2)] by (simp add: vmem_ok_def)
  moreover have "cell_chain s c \<noteq> [] \<and> list_all (\<lambda>v. ver_ts v \<le> G) (cell_chain s c) \<and> list_all stamped (tl (cell_chain s c))
      \<and> sorted_wrt (\<lambda>v w. stamped v \<longrightarrow> ver_ts w \<le> ver_ts v) (cell_chain s c)" if c: "c < length (cy_cells s)" for c
    unfolding cell_chain_eq [OF inv c] list_all_iff
    using cells_okD(3,5) [OF I(2) c] vgood_le vgood_tl srt by blast
  moreover have "\<exists>r. cell_step (cy_pc s i) (cy_cells s) (cy_mem s) = Inr r" for i using step_moves [OF inv, of i] by metis
  moreover have "\<exists>r. t_step (cy_tpc s i) (vm_tracker (cy_mem s)) = Inr r" for i
  proof -
    obtain ch where "tinv (tsys_of s) ch" using treach_inv [OF I(1)] by blast
    from tinv_safe [OF this, of i] show ?thesis unfolding tsys_of_def by auto
  qed
  ultimately show ?thesis by blast
qed

text \<open>C26. Every step of any thread keeps the history of every cell: the versions stay, with their values and the
  timestamps they have, in their order; a version without a timestamp may get one, and new versions come in front.\<close>

theorem versions_kept:
  assumes "creach kvs s" and "cstep s s'" and "c < length (cy_cells s)"
  shows "c < length (cy_cells s') \<and> (\<exists>pre mid. cell_chain s' c = pre @ mid \<and> list_all2 same_ver (cell_chain s c) mid)"
proof -
  obtain G b vs where inv: "cinv s G b vs" using creach_inv [OF assms(1)] by blast
  obtain G' b' vs' where k: "cinv s' G' b' vs'" "length (cy_cells s') = length (cy_cells s)" "grows G b (vs c) b' (vs' c)"
    using cstep_grows [OF inv assms(2)] assms(3) by blast
  then show ?thesis using assms(3) cell_chain_eq [OF inv assms(3)] cell_chain_eq [OF k(1), of c] by (auto simp: grows_def)
qed

lemma csteps_inv: "cstep\<^sup>*\<^sup>* s s' \<Longrightarrow> cinv s G b vs \<Longrightarrow> \<exists>G' b' vs'. cinv s' G' b' vs'"
  by (induction rule: rtranclp_induct) (blast, use cinv_step in blast)

text \<open>What a query has answered for a cell, every query with its timestamp will answer for it.\<close>

lemma answer_stays:
  assumes "cstep\<^sup>*\<^sup>* s s'" and "cinv s G b vs" and "c < length (cy_cells s)" "T \<le> G" "q_done T b (vs c) x"
  shows "\<exists>G' b' vs'. cinv s' G' b' vs' \<and> c < length (cy_cells s') \<and> T \<le> G' \<and> q_done T b' (vs' c) x"
  using assms(1)
proof induction
  case base
  then show ?case using assms(2-5) by blast
next
  case (step s1 s2)
  then obtain G1 b1 vs1 where i: "cinv s1 G1 b1 vs1" "c < length (cy_cells s1)" "T \<le> G1" "q_done T b1 (vs1 c) x" by blast
  obtain G2 b2 vs2 where k: "cinv s2 G2 b2 vs2" "G1 \<le> G2" "length (cy_cells s2) = length (cy_cells s1)" "grows G1 b1 (vs1 c) b2 (vs2 c)"
    using cstep_grows [OF i(1) step.hyps(2)] i(2) by blast
  have "q_done T b2 (vs2 c) x" by (rule q_done_grows [OF k(4) i(3,4)])
  then show ?case using k(1-3) i(2,3) by (intro exI [of _ G2] exI [of _ b2] exI [of _ vs2]) simp
qed

lemma answers_agree:
  assumes inv: "cinv s G b vs" and pc: "cy_pc s i = VDone (VQuery c T) (Some x)" and st: "cstep\<^sup>*\<^sup>* s s'" and y: "(c, T, y) \<in> set (cy_ans s')"
  shows "y = x"
proof -
  have q: "c < length (cy_cells s)" "T \<le> G" "q_done T b (vs c) x" using cinvD(3) [OF inv, of i] unfolding pc by simp_all
  obtain G' b' vs' where k: "cinv s' G' b' vs'" "c < length (cy_cells s')" "q_done T b' (vs' c) x" using answer_stays [OF st inv q] by blast
  have "q_done T b' (vs' c) y" using cinvD(5) [OF k(1)] y unfolding answers_ok_def by auto
  then show ?thesis using q_done_snapshot [OF cells_okD(5) [OF cinvD(2) [OF k(1)] k(2)]] k(3) by metis
qed

text \<open>A query goes on alone along the stamped versions.\<close>

lemma walk_ends:
  assumes "vseg (vm_heap (cy_mem s)) p old" and "list_all stamped old" and "cy_pc s i = VWalk c T p"
  shows "\<exists>s'. cstep\<^sup>*\<^sup>* s s' \<and> cy_pc s' i = VDone (VQuery c T) (Some (snapshot T old)) \<and> cy_cells s' = cy_cells s \<and> cy_mem s' = cy_mem s"
  using assms
proof (induction old arbitrary: s p)
  case Nil
  let ?s = "s\<lparr>cy_cells := cy_cells s, cy_mem := cy_mem s, cy_pc := (cy_pc s)(i := VDone (VQuery c T) (Some (- 1)))\<rparr>"
  have "cell_step (cy_pc s i) (cy_cells s) (cy_mem s) = Inr (VDone (VQuery c T) (Some (- 1)), cy_cells s, cy_mem s)"
    using Nil by (simp add: tp_true_def)
  from cstep.atomic [OF this] have "cstep s ?s" .
  then show ?case by (intro exI [of _ ?s]) (simp add: snapshot_def r_into_rtranclp)
next
  case (Cons e rest)
  obtain a x t where e: "e = (a, x, t)" by (cases e)
  obtain r where nd: "p = clean a" "0 < a" "vm_heap (cy_mem s) a = Some \<lparr>vn_value = x, vn_ts = t, vn_nextv = r\<rparr>" "vseg (vm_heap (cy_mem s)) r rest"
    using Cons.prems(1) e by auto
  have t: "t \<noteq> - 1" "list_all stamped rest" using Cons.prems(2) e by auto
  show ?case
  proof (cases "t \<ge> T")
    case True
    let ?s = "s\<lparr>cy_cells := cy_cells s, cy_mem := cy_mem s, cy_pc := (cy_pc s)(i := VWalk c T r)\<rparr>"
    have "cell_step (cy_pc s i) (cy_cells s) (cy_mem s) = Inr (VWalk c T r, cy_cells s, cy_mem s)"
      unfolding Cons.prems(3) using nd True by (simp add: tp_true_def vn_load_def)
    from cstep.atomic [OF this] have st: "cstep s ?s" .
    obtain s' where s': "cstep\<^sup>*\<^sup>* ?s s'" "cy_pc s' i = VDone (VQuery c T) (Some (snapshot T rest))" "cy_cells s' = cy_cells s" "cy_mem s' = cy_mem s"
      using Cons.IH [of ?s r] nd(4) t(2) by auto
    have "snapshot T (e # rest) = snapshot T rest" using e True by (simp add: snapshot_def)
    then show ?thesis using s'(2-4) converse_rtranclp_into_rtranclp [of cstep, OF st s'(1)] by (intro exI [of _ s']) simp
  next
    case False
    let ?s = "s\<lparr>cy_cells := cy_cells s, cy_mem := cy_mem s, cy_pc := (cy_pc s)(i := VDone (VQuery c T) (Some x))\<rparr>"
    have "cell_step (cy_pc s i) (cy_cells s) (cy_mem s) = Inr (VDone (VQuery c T) (Some x), cy_cells s, cy_mem s)"
      unfolding Cons.prems(3) using nd False by (simp add: tp_true_def vn_load_def)
    from cstep.atomic [OF this] have "cstep s ?s" .
    moreover have "snapshot T (e # rest) = x" using e False t(1) by (simp add: snapshot_def)
    ultimately show ?thesis by (intro exI [of _ ?s]) (simp add: r_into_rtranclp)
  qed
qed

text \<open>C27. A query can miss a value that every search reads. Whenever a range query has found that the newest version of a
  cell has no timestamp, and is about to ask for the latest one, it can go on, without a step of another thread: it
  gives that version the latest timestamp itself, which is not before its own, and answers with the versions behind
  it; all queries with its timestamp answer the same for ever. Searches read the value of the newest version all the
  time, and may have done so before the timestamp of the query was handed out.\<close>

theorem query_misses_value_read:
  assumes "creach kvs s" and "c < length (cy_cells s)" and "cell_chain s c = w # ws" and "\<not> stamped w"
    and "cy_pc s i = VClock (NQuery c T) (clean (ver_addr w))"
  shows "getValue (cy_cells s ! c) (cy_mem s) = Inr (ver_value w)
    \<and> (\<exists>s'. cstep\<^sup>*\<^sup>* s s' \<and> cy_pc s' i = VDone (VQuery c T) (Some (snapshot T ws)) \<and> getValue (cy_cells s' ! c) (cy_mem s') = Inr (ver_value w)
      \<and> (\<forall>s'' x. cstep\<^sup>*\<^sup>* s' s'' \<longrightarrow> (c, T, x) \<in> set (cy_ans s'') \<longrightarrow> x = snapshot T ws))"
proof -
  obtain G b vs where inv: "cinv s G b vs" using creach_inv [OF assms(1)] by blast
  note I = cinvD [OF inv]
  have vc: "vs c = w # ws" using cell_chain_eq [OF inv assms(2)] assms(3) by simp
  obtain a v where w: "w = (a, v, - 1)" using assms(4) by (cases w) auto
  have T: "T \<le> G" using I(3) [of i] unfolding assms(5) by simp
  have G: "get_latest_timestamp (vm_tracker (cy_mem s)) = Inr G" "0 \<le> G" using cells_okD(1) [OF I(2)] by (simp_all add: vmem_ok_def)
  have seg: "vseg (vm_heap (cy_mem s)) (va_vhead (cy_cells s ! c)) ((a, v, - 1) # ws)" using cells_okD(2) [OF I(2) assms(2)] vc w by simp
  then obtain q where q: "va_vhead (cy_cells s ! c) = clean a" "0 < a"
    "vm_heap (cy_mem s) a = Some \<lparr>vn_value = v, vn_ts = - 1, vn_nextv = q\<rparr>" "vseg (vm_heap (cy_mem s)) q ws" by auto
  have da: "a \<notin> addrs ws" using cells_okD(4) [OF I(2) assms(2)] vc w by simp
  have old: "list_all stamped ws" using cells_okD(5) [OF I(2) assms(2)] vc unfolding list_all_iff by simp
  have rd: "getValue (cy_cells s ! c) (cy_mem s) = Inr (ver_value w)" using q w by (simp add: getValue_def vn_load_def)
  let ?p = "clean a" and ?m = "(cy_mem s)\<lparr>vm_heap := (vm_heap (cy_mem s))(a \<mapsto> \<lparr>vn_value = v, vn_ts = G, vn_nextv = q\<rparr>)\<rparr>"
  have "cell_step (cy_pc s i) (cy_cells s) (cy_mem s) = Inr (VStamp (NQuery c T) ?p G, cy_cells s, cy_mem s)"
    unfolding assms(5) w using G(1) by simp
  note s1 = cstep.atomic [OF this]
  define s1' where "s1' = s\<lparr>cy_cells := cy_cells s, cy_mem := cy_mem s, cy_pc := (cy_pc s)(i := VStamp (NQuery c T) ?p G)\<rparr>"
  have "cell_step (cy_pc s1' i) (cy_cells s1') (cy_mem s1') = Inr (VWalk c T ?p, cy_cells s1', ?m)"
    unfolding s1'_def using q by (simp add: set_ts_def vn_load_def)
  note s2 = cstep.atomic [OF this]
  define s2' where "s2' = s1'\<lparr>cy_cells := cy_cells s1', cy_mem := ?m, cy_pc := (cy_pc s1')(i := VWalk c T ?p)\<rparr>"
  have "vseg (vm_heap (cy_mem s2')) ?p ((a, v, G) # ws)" unfolding s2'_def using q da by simp
  moreover have "list_all stamped ((a, v, G) # ws)" "cy_pc s2' i = VWalk c T ?p" using old G(2) by (simp_all add: s2'_def)
  ultimately obtain s3 where s3: "cstep\<^sup>*\<^sup>* s2' s3" "cy_pc s3 i = VDone (VQuery c T) (Some (snapshot T ((a, v, G) # ws)))"
    "cy_cells s3 = cy_cells s2'" "cy_mem s3 = cy_mem s2'" using walk_ends by blast
  have sn: "snapshot T ((a, v, G) # ws) = snapshot T ws" using T by (simp add: snapshot_def)
  have st: "cstep\<^sup>*\<^sup>* s s3" using s1 [folded s1'_def] s2 [folded s2'_def] s3(1) by (meson converse_rtranclp_into_rtranclp)
  have rd3: "getValue (cy_cells s3 ! c) (cy_mem s3) = Inr (ver_value w)"
    unfolding s3(3,4) s2'_def s1'_def using q w by (simp add: getValue_def vn_load_def)
  obtain G3 b3 vs3 where i3: "cinv s3 G3 b3 vs3" using csteps_inv [OF st inv] by blast
  from rd st s3(2) rd3 answers_agree [OF i3 s3(2)] show ?thesis unfolding sn by blast
qed

section \<open>Witnesses\<close>

lemma state_queried:
  obtains s where "creach one_cell s" "cy_ans s = [(0, 1, 1)]" "length (cy_cells s) = 1" "cy_pc s 1 = VIdle"
    "map (\<lambda>v. (ver_value v, ver_ts v)) (cell_chain s 0) = [(2, 1), (1, 0)]"
proof -
  have "ends_with (sched_read @ sched_query) (\<lambda>s. cy_ans s = [(0, 1, 1)] \<and> length (cy_cells s) = 1 \<and> cy_pc s 1 = VIdle
    \<and> map (\<lambda>v. (ver_value v, ver_ts v)) (cell_chain s 0) = [(2, 1), (1, 0)])" by code_simp
  then show ?thesis
  proof (rule ends_withD)
    fix s
    assume a: "creach one_cell s" "cy_ans s = [(0, 1, 1)] \<and> length (cy_cells s) = 1 \<and> cy_pc s 1 = VIdle
      \<and> map (\<lambda>v. (ver_value v, ver_ts v)) (cell_chain s 0) = [(2, 1), (1, 0)]"
    show ?thesis by (rule that [OF a(1)]) (insert a(2), (elim conjE, assumption)+)
  qed
qed

theorem queries_see_snapshot_witness:
  "\<exists>s. creach one_cell s \<and> (0, 1, 1) \<in> set (cy_ans s) \<and> snapshot 1 (cell_chain s 0) = 1"
proof (rule state_queried)
  fix s assume s: "creach one_cell s" "cy_ans s = [(0, 1, 1)]"
  then have "(0, 1, 1) \<in> set (cy_ans s)" by simp
  from queries_see_snapshot [OF s(1) this] show ?thesis using s by (intro exI [of _ s]) simp
qed

theorem versions_ordered_witness:
  "\<exists>s. creach one_cell s \<and> length (cy_cells s) = 1 \<and> sorted_wrt (\<lambda>v w. stamped v \<longrightarrow> ver_ts w \<le> ver_ts v) (cell_chain s 0)
     \<and> map (\<lambda>v. (ver_value v, ver_ts v)) (cell_chain s 0) = [(2, 1), (1, 0)]"
proof (rule state_queried)
  fix s assume s: "creach one_cell s" "length (cy_cells s) = 1"
    and m: "map (\<lambda>v. (ver_value v, ver_ts v)) (cell_chain s 0) = [(2, 1), (1, 0)]"
  have "0 < length (cy_cells s)" using s(2) by simp
  then have "sorted_wrt (\<lambda>v w. stamped v \<longrightarrow> ver_ts w \<le> ver_ts v) (cell_chain s 0)" using versions_ordered [OF s(1)] by (elim conjE exE) simp
  then show ?thesis using s m by (intro exI [of _ s] conjI)
qed

theorem query_misses_value_read_witness:
  "\<exists>s0 s'. creach one_cell s0 \<and> cy_pc s0 1 = VDone (VGet 0) (Some 2) \<and> cy_log s0 = [] \<and> cstep\<^sup>*\<^sup>* s0 s'
     \<and> cy_pc s' 2 = VDone (VQuery 0 1) (Some 1) \<and> getValue (cy_cells s' ! 0) (cy_mem s') = Inr 2"
proof -
  have "ends_with sched_read (\<lambda>s. cy_pc s 1 = VDone (VGet 0) (Some 2) \<and> cy_log s = []
     \<and> (case v_exec sched_ask s of None \<Rightarrow> False | Some s' \<Rightarrow> length (cy_cells s') = 1 \<and> cell_chain s' 0 = [(2, 2, - 1), (1, 1, 0)]
       \<and> cy_pc s' 2 = VClock (NQuery 0 1) (clean 2)))" by code_simp
  then obtain s0 where s0: "creach one_cell s0" "cy_pc s0 1 = VDone (VGet 0) (Some 2)" "cy_log s0 = []"
    "case v_exec sched_ask s0 of None \<Rightarrow> False | Some s' \<Rightarrow> length (cy_cells s') = 1 \<and> cell_chain s' 0 = [(2, 2, - 1), (1, 1, 0)]
       \<and> cy_pc s' 2 = VClock (NQuery 0 1) (clean 2)" by (rule ends_withD) blast
  from s0(4) obtain s where s: "v_exec sched_ask s0 = Some s" "length (cy_cells s) = 1" "cell_chain s 0 = [(2, 2, - 1), (1, 1, 0)]"
    "cy_pc s 2 = VClock (NQuery 0 1) (clean 2)" by (auto split: option.splits)
  have r: "creach one_cell s" by (rule v_exec_reach [OF s(1) s0(1)])
  have c: "0 < length (cy_cells s)" using s(2) by simp
  have u: "\<not> stamped (2, 2, - 1)" "cy_pc s 2 = VClock (NQuery 0 1) (clean (ver_addr (2, 2, - 1)))" using s(4) by simp_all
  obtain s' where s': "cstep\<^sup>*\<^sup>* s s'" "cy_pc s' 2 = VDone (VQuery 0 1) (Some (snapshot 1 [(1, 1, 0)]))"
    "getValue (cy_cells s' ! 0) (cy_mem s') = Inr (ver_value (2, 2, - 1))"
    using conjunct2 [OF query_misses_value_read [OF r c s(3) u]] by (elim exE conjE)
  have "cstep\<^sup>*\<^sup>* s0 s'" using v_exec_steps [OF s(1)] s'(1) by (rule rtranclp_trans)
  moreover have "snapshot 1 [(1, 1, 0)] = 1" by (simp add: snapshot_def)
  ultimately show ?thesis using s0(1-3) s'(2,3) by (intro exI [of _ s0] exI [of _ s']) simp
qed

theorem versions_kept_witness:
  "\<exists>s s' pre mid. creach one_cell s \<and> cstep s s' \<and> cell_chain s' 0 = pre @ mid \<and> list_all2 same_ver (cell_chain s 0) mid
     \<and> map ver_value (cell_chain s 0) = [2, 1]"
proof (rule state_queried)
  fix s assume s: "creach one_cell s" "length (cy_cells s) = 1" "cy_pc s 1 = VIdle"
    and m: "map (\<lambda>v. (ver_value v, ver_ts v)) (cell_chain s 0) = [(2, 1), (1, 0)]"
  let ?s = "s\<lparr>cy_pc := (cy_pc s)(1 := v_start (VGet 0))\<rparr>"
  have st: "cstep s ?s" by (rule cstep.call) (use s in simp_all)
  have "map ver_value (cell_chain s 0) = map fst (map (\<lambda>v. (ver_value v, ver_ts v)) (cell_chain s 0))" by simp
  then have "map ver_value (cell_chain s 0) = [2, 1]" unfolding m by simp
  moreover have c: "0 < length (cy_cells s)" using s(2) by simp
  obtain pre mid where "cell_chain ?s 0 = pre @ mid" "list_all2 same_ver (cell_chain s 0) mid"
    using conjunct2 [OF versions_kept [OF s(1) st c]] by (elim exE conjE)
  ultimately show ?thesis using s(1) st by (intro exI [of _ s] exI [of _ ?s] exI [of _ pre] exI [of _ mid] conjI)
qed

end
