(* ===== verification/Uruv_Conc.thy ===== *)
theory Uruv_Conc
  imports Versions_Conc
begin

text \<open>
  The versioned list of \<open>Kanva_RS/Uruv/LF_LL.h\<close> under every interleaving of threads that insert, search and
  collect, with the tracker of timestamps moving at the same time.

  \<open>upc\<close> lists the points of the operations between two accesses to shared words. Keys of nodes and values of
  versions never change, so they are read together with the access before, and new nodes and versions are built
  together with the access before their publication. A removal is the insertion of the tombstone. A thread whose
  collection has succeeded may set \<open>isReclaimed\<close>, as the index does after it has replaced the list
  (\<open>kanva_RS_model_impl.h\<close>), while other threads are still in the list. What a thread's operation has seen of
  the list since its call, \<open>us_seen\<close>, is an auxiliary variable that no step reads. Range queries of the list
  are not part of this model, nor is the release of its nodes, which readers that have started postpone.
\<close>

section \<open>The operations, one shared access at a time\<close>

datatype uop = UInsert key_t val_t | USearch key_t val_t | UCollect

type_synonym kheads = "(key_t \<times> tptr) list"

datatype uret = UInt int | UBool bool | UList kheads

text \<open>What follows \<open>init_ts\<close>: the value of \<open>read\<close>, the comparison in \<open>vCAS\<close> with the old value, the end of a successful
  \<open>vCAS\<close>, the counting after a new node has been linked.\<close>

datatype unext = NRd key_t val_t addr | NCs key_t val_t addr val_t | NUpd key_t val_t | NLnk key_t val_t

datatype upc =
    UIdle
  | UIns0 key_t val_t                     \<comment> \<open>before the test of \<open>size\<close>\<close>
  | UFind0 key_t val_t                    \<comment> \<open>\<open>find\<close>: before the test of the head's word\<close>
  | UFind1 key_t val_t                    \<comment> \<open>before its second load\<close>
  | UFind2 key_t val_t addr addr          \<comment> \<open>\<open>left_node\<close>, \<open>right_node\<close>: before the load of \<open>right_node->next\<close>\<close>
  | ULink key_t val_t addr addr addr      \<comment> \<open>\<open>prev_node\<close>, \<open>right_node\<close>, \<open>new_node\<close>: before the compare-exchange\<close>
  | ULinked key_t val_t addr              \<comment> \<open>before the load of \<open>new_node->vhead\<close>\<close>
  | USize key_t val_t                     \<comment> \<open>before \<open>size += 1\<close>\<close>
  | URead0 key_t val_t addr               \<comment> \<open>\<open>read\<close>: before its first load of \<open>vhead\<close>\<close>
  | URead1 key_t val_t addr               \<comment> \<open>before its second load of \<open>vhead\<close>\<close>
  | UCas0 key_t val_t addr val_t          \<comment> \<open>\<open>vCAS\<close>, the old value: before the load of \<open>vhead\<close>\<close>
  | UCas1 key_t val_t addr tptr tptr      \<comment> \<open>\<open>head\<close>, \<open>new_node\<close>: before the compare-exchange of \<open>vhead\<close>\<close>
  | UCheck key_t val_t addr               \<comment> \<open>after a failed \<open>vCAS\<close>: before the load of \<open>vhead\<close>\<close>
  | UInit unext tptr                      \<comment> \<open>\<open>init_ts\<close>: before the test of \<open>ts\<close>\<close>
  | UClock unext tptr                     \<comment> \<open>before \<open>get_latest_timestamp\<close>\<close>
  | UStamp unext tptr int                 \<comment> \<open>before the compare-exchange of \<open>ts\<close>\<close>
  | USrch0 key_t val_t addr               \<comment> \<open>\<open>search\<close>: before the load of \<open>curr->next\<close>\<close>
  | USrch1 key_t val_t addr               \<comment> \<open>before the load of \<open>curr->vhead\<close>\<close>
  | USrch2 key_t val_t addr               \<comment> \<open>before the last load of \<open>curr->next\<close>\<close>
  | UCol0                                 \<comment> \<open>\<open>collect\<close>: before the test of \<open>isReclaimed\<close>\<close>
  | UColH addr kheads                     \<comment> \<open>\<open>left_node\<close>: before the test of the loop\<close>
  | UColT addr kheads                     \<comment> \<open>before the first test of the freeze bit\<close>
  | UColL addr kheads                     \<comment> \<open>before the load of \<open>curr_next\<close>\<close>
  | UColX addr tptr kheads                \<comment> \<open>before the compare-exchange of \<open>next\<close>\<close>
  | UColV addr kheads                     \<comment> \<open>before the second test, on \<open>next\<close> again\<close>
  | UColW addr kheads                     \<comment> \<open>before the load of \<open>curr_vhead\<close>\<close>
  | UColY addr tptr kheads                \<comment> \<open>before the compare-exchange of \<open>vhead\<close>\<close>
  | UColG addr kheads                     \<comment> \<open>before the load of \<open>vhead\<close> that is gathered\<close>
  | UColN addr kheads                     \<comment> \<open>before the load of the frozen word\<close>
  | UDone uop uret

fun u_start :: "uop \<Rightarrow> RList \<Rightarrow> upc" where
  "u_start (UInsert k v) l = UIns0 k v"
| "u_start (USearch k v) l = USrch0 k v (rl_head l)"
| "u_start UCollect l = UCol0"

text \<open>After \<open>find\<close> has stopped at \<open>right\<close>, and after \<open>init_ts(p)\<close>.\<close>

definition u_found :: "key_t \<Rightarrow> val_t \<Rightarrow> addr \<Rightarrow> addr \<Rightarrow> key_t \<Rightarrow> RList \<times> vmem \<Rightarrow> (upc \<times> RList \<times> vmem) res" where
  "u_found k v left right rk lm =
     (if rk = k then Inr (URead0 k v right, lm)
      else if v = tombstone then Inr (UDone (UInsert k v) (UInt 0), lm)
      else let (new_node, l1, m1) = rl_Node_init k v lm in
        bind_res (rl_load l1 new_node) (\<lambda>nn.
          Inr (ULink k v left right new_node, rl_set l1 new_node (nn\<lparr>rn_next := clean right\<rparr>), m1)))"

fun u_after :: "unext \<Rightarrow> tptr \<Rightarrow> vmem \<Rightarrow> (upc \<times> vmem) res" where
  "u_after (NRd k v a) p m = Inr (URead1 k v a, m)"
| "u_after (NCs k v a old) p m =
     bind_res (vn_load m p) (\<lambda>nd.
       if vn_value nd \<noteq> old then Inr (UCheck k v a, m)
       else if vn_value nd = v then Inr (UDone (UInsert k v) (UInt 0), m)
       else let (new_node, m') = Vnode_new v p m in Inr (UCas1 k v a p new_node, m'))"
| "u_after (NUpd k v) p m = Inr (UDone (UInsert k v) (UInt 0), m)"
| "u_after (NLnk k v) p m = Inr (USize k v, m)"

definition u_frozen :: "addr \<Rightarrow> kheads \<Rightarrow> RList \<Rightarrow> upc" where
  "u_frozen left acc l = (if left = rl_head l then UColN left acc else UColG left acc)"

fun u_step :: "upc \<Rightarrow> RList \<times> vmem \<Rightarrow> (upc \<times> RList \<times> vmem) res" where
  "u_step UIdle lm = Inr (UIdle, lm)"
| "u_step (UIns0 k v) lm =
     Inr (if threshhold \<le> rl_size (fst lm) then UDone (UInsert k v) (UInt (- 2)) else UFind0 k v, lm)"
| "u_step (UFind0 k v) lm =
     bind_res (rl_load (fst lm) (rl_head (fst lm))) (\<lambda>hd.
       Inr (if tp_freeze (rn_next hd) then UDone (UInsert k v) (UInt (- 1)) else UFind1 k v, lm))"
| "u_step (UFind1 k v) lm =
     bind_res (rl_load (fst lm) (rl_head (fst lm))) (\<lambda>hd.
       Inr (UFind2 k v (rl_head (fst lm)) (tp_addr (tp_unset_freeze_mark (rn_next hd))), lm))"
| "u_step (UFind2 k v left right) lm =
     bind_res (rl_load (fst lm) right) (\<lambda>rn.
       if tp_freeze (rn_next rn) then Inr (UDone (UInsert k v) (UInt (- 1)), lm)
       else if rn_key rn \<ge> k then u_found k v left right (rn_key rn) lm
       else Inr (UFind2 k v right (tp_addr (tp_unset_mark (rn_next rn))), lm))"
| "u_step (ULink k v prev right new_node) lm =
     bind_res (rl_cas_next (fst lm) prev (clean right) (clean new_node)) (\<lambda>(ok, l').
       Inr (if ok then ULinked k v new_node else UFind0 k v, l', snd lm))"
| "u_step (ULinked k v new_node) lm =
     bind_res (rl_load (fst lm) new_node) (\<lambda>nd. Inr (UInit (NLnk k v) (rn_vhead nd), lm))"
| "u_step (USize k v) lm =
     Inr (UDone (UInsert k v) (UInt 1), (fst lm)\<lparr>rl_size := rl_size (fst lm) + 1\<rparr>, snd lm)"
| "u_step (URead0 k v a) lm =
     bind_res (rl_load (fst lm) a) (\<lambda>nd. Inr (UInit (NRd k v a) (rn_vhead nd), lm))"
| "u_step (URead1 k v a) lm =
     bind_res (rl_load (fst lm) a) (\<lambda>nd. bind_res (vn_load (snd lm) (rn_vhead nd)) (\<lambda>vn.
       Inr (if vn_value vn = v then UDone (UInsert k v) (UInt 0) else UCas0 k v a (vn_value vn), lm)))"
| "u_step (UCas0 k v a old) lm =
     bind_res (rl_load (fst lm) a) (\<lambda>nd. Inr (UInit (NCs k v a old) (tp_unset_mark (rn_vhead nd)), lm))"
| "u_step (UCas1 k v a head new_node) lm =
     bind_res (rl_load (fst lm) a) (\<lambda>nd.
       Inr (if rn_vhead nd = head
            then (UInit (NUpd k v) new_node, rl_set (fst lm) a (nd\<lparr>rn_vhead := new_node\<rparr>), snd lm)
            else (UCheck k v a, lm)))"
| "u_step (UCheck k v a) lm =
     bind_res (rl_load (fst lm) a) (\<lambda>nd.
       Inr (if tp_mark (rn_vhead nd) then UDone (UInsert k v) (UInt (- 1)) else URead0 k v a, lm))"
| "u_step (UInit nx p) lm =
     bind_res (vn_load (snd lm) p) (\<lambda>nd.
       if vn_ts nd = - 1 then Inr (UClock nx p, lm)
       else bind_res (u_after nx p (snd lm)) (\<lambda>(pc, m'). Inr (pc, fst lm, m')))"
| "u_step (UClock nx p) lm =
     bind_res (get_latest_timestamp (vm_tracker (snd lm))) (\<lambda>global_ts. Inr (UStamp nx p global_ts, lm))"
| "u_step (UStamp nx p global_ts) lm =
     bind_res (set_ts p global_ts (snd lm)) (\<lambda>m1.
     bind_res (u_after nx p m1) (\<lambda>(pc, m'). Inr (pc, fst lm, m')))"
| "u_step (USrch0 k v cur) lm =
     bind_res (rl_load (fst lm) cur) (\<lambda>nd.
       Inr (if rn_key nd < k then USrch0 k v (tp_addr (tp_unset_freeze_mark (rn_next nd)))
            else if rn_key nd = k then USrch1 k v cur else UDone (USearch k v) (UBool False), lm))"
| "u_step (USrch1 k v cur) lm =
     bind_res (rl_load (fst lm) cur) (\<lambda>nd. bind_res (vn_load (snd lm) (rn_vhead nd)) (\<lambda>vn.
       Inr (if vn_value vn = v then USrch2 k v cur else UDone (USearch k v) (UBool False), lm)))"
| "u_step (USrch2 k v cur) lm =
     bind_res (rl_load (fst lm) cur) (\<lambda>nd. Inr (UDone (USearch k v) (UBool (\<not> tp_mark (rn_next nd))), lm))"
| "u_step UCol0 lm =
     Inr (if rl_isReclaimed (fst lm) then UDone UCollect (UBool False) else UColT (rl_head (fst lm)) [], lm)"
| "u_step (UColH left acc) lm =
     bind_res (rl_load (fst lm) left) (\<lambda>nd.
       Inr (if tp_true (tp_unset_mark (rn_next nd)) then UColT left acc else UDone UCollect (UList acc), lm))"
| "u_step (UColT left acc) lm =
     bind_res (rl_load (fst lm) left) (\<lambda>nd. Inr (if tp_freeze (rn_next nd) then UColV left acc else UColL left acc, lm))"
| "u_step (UColL left acc) lm =
     bind_res (rl_load (fst lm) left) (\<lambda>nd. Inr (UColX left (rn_next nd) acc, lm))"
| "u_step (UColX left curr_next acc) lm =
     bind_res (rl_cas_next (fst lm) left curr_next (tp_set_freeze curr_next)) (\<lambda>(ok, l').
       Inr (if ok then UColV left acc else UColL left acc, l', snd lm))"
| "u_step (UColV left acc) lm =
     bind_res (rl_load (fst lm) left) (\<lambda>nd.
       Inr (if tp_freeze (rn_next nd) then u_frozen left acc (fst lm) else UColW left acc, lm))"
| "u_step (UColW left acc) lm =
     bind_res (rl_load (fst lm) left) (\<lambda>nd. Inr (UColY left (rn_vhead nd) acc, lm))"
| "u_step (UColY left curr_vhead acc) lm =
     bind_res (rl_load (fst lm) left) (\<lambda>nd.
       Inr (if rn_vhead nd = curr_vhead
            then (u_frozen left acc (fst lm), rl_set (fst lm) left (nd\<lparr>rn_vhead := tp_set_freeze curr_vhead\<rparr>), snd lm)
            else (UColW left acc, lm)))"
| "u_step (UColG left acc) lm =
     bind_res (rl_load (fst lm) left) (\<lambda>nd.
       Inr (if rl_isReclaimed (fst lm) then UDone UCollect (UBool False)
            else UColN left (acc @ [(rn_key nd, tp_unset_mark (rn_vhead nd))]), lm))"
| "u_step (UColN left acc) lm =
     bind_res (rl_load (fst lm) left) (\<lambda>nd.
       if tp_mark (rn_next nd) then Inl NullDeref
       else Inr (UColH (tp_addr (tp_unset_freeze (rn_next nd))) acc, lm))"
| "u_step (UDone op r) lm = Inr (UDone op r, lm)"

section \<open>The content of a list\<close>

fun u_walk :: "nat \<Rightarrow> (addr \<rightharpoonup> rl_Node) \<Rightarrow> addr \<Rightarrow> addr list" where
  "u_walk 0 h a = []"
| "u_walk (Suc n) h a = (case h a of None \<Rightarrow> []
     | Some nd \<Rightarrow> if tp_addr (rn_next nd) = 0 then [] else a # u_walk n h (tp_addr (rn_next nd)))"

definition ukey :: "RList \<Rightarrow> addr \<Rightarrow> key_t" where "ukey l a = rn_key (the (rl_heap l a))"
definition uword :: "RList \<Rightarrow> addr \<Rightarrow> tptr" where "uword l a = rn_next (the (rl_heap l a))"
definition uhead :: "RList \<Rightarrow> addr \<Rightarrow> tptr" where "uhead l a = rn_vhead (the (rl_heap l a))"
definition uval :: "RList \<times> vmem \<Rightarrow> addr \<Rightarrow> val_t" where
  "uval lm a = vn_value (the (vm_heap (snd lm) (tp_addr (uhead (fst lm) a))))"

text \<open>The nodes between the sentinels, and the newest value of every key; a removed key has the tombstone.\<close>

definition u_chain :: "RList \<Rightarrow> addr list" where
  "u_chain l = u_walk (rl_brk l) (rl_heap l) (tp_addr (uword l (rl_head l)))"

definition u_content :: "RList \<times> vmem \<Rightarrow> key_t \<rightharpoonup> val_t" where
  "u_content lm = map_of (map (\<lambda>a. (ukey (fst lm) a, uval lm a)) (u_chain (fst lm)))"

text \<open>The newest version of every key, and what an operation can have seen of the list at a moment.\<close>

definition u_heads :: "RList \<Rightarrow> key_t \<rightharpoonup> tptr" where
  "u_heads l = map_of (map (\<lambda>a. (ukey l a, uhead l a)) (u_chain l))"

type_synonym kobs = "(key_t \<rightharpoonup> val_t) \<times> (key_t \<rightharpoonup> tptr)"

definition u_obs :: "RList \<times> vmem \<Rightarrow> kobs" where "u_obs lm = (u_content lm, u_heads (fst lm))"

definition u_closed :: "RList \<Rightarrow> bool" where
  "u_closed l \<longleftrightarrow> list_all (\<lambda>a. tp_freeze (uword l a)) (rl_head l # u_chain l)"

section \<open>Interleavings\<close>

record usys =
  us_lm :: "RList \<times> vmem"
  us_tpc :: "nat \<Rightarrow> tpc"
  us_log :: "addr list"
  us_pc :: "nat \<Rightarrow> upc"
  us_seen :: "nat \<Rightarrow> kobs set"

definition ustsys :: "usys \<Rightarrow> tsys" where
  "ustsys s = \<lparr>sy_list = vm_tracker (snd (us_lm s)), sy_pc = us_tpc s, sy_log = us_log s\<rparr>"

definition usys_init :: usys where
  "usys_init = \<lparr>us_lm = RList_new vmem_new, us_tpc = (\<lambda>_. TIdle), us_log = [], us_pc = (\<lambda>_. UIdle), us_seen = (\<lambda>_. {})\<rparr>"

fun uop_ok :: "uop \<Rightarrow> bool" where
  "uop_ok (UInsert k v) \<longleftrightarrow> k < key_max"
| "uop_ok (USearch k v) \<longleftrightarrow> 0 < k \<and> k < key_max"
| "uop_ok UCollect \<longleftrightarrow> True"

inductive ustep :: "usys \<Rightarrow> usys \<Rightarrow> bool" where
  tracker: "tstep (ustsys s) t \<Longrightarrow>
    ustep s (s\<lparr>us_lm := (fst (us_lm s), (snd (us_lm s))\<lparr>vm_tracker := sy_list t\<rparr>), us_tpc := sy_pc t, us_log := sy_log t\<rparr>)"
| call: "us_pc s i = UIdle \<Longrightarrow> uop_ok op \<Longrightarrow>
    ustep s (s\<lparr>us_pc := (us_pc s)(i := u_start op (fst (us_lm s))), us_seen := (us_seen s)(i := {u_obs (us_lm s)})\<rparr>)"
| atomic: "u_step (us_pc s i) (us_lm s) = Inr (pc', lm') \<Longrightarrow>
    ustep s (s\<lparr>us_lm := lm', us_pc := (us_pc s)(i := pc'), us_seen := (\<lambda>j. insert (u_obs lm') (us_seen s j))\<rparr>)"
| reclaim: "us_pc s i = UDone UCollect (UList kvs) \<Longrightarrow>
    ustep s (s\<lparr>us_lm := ((fst (us_lm s))\<lparr>rl_isReclaimed := True\<rparr>, snd (us_lm s))\<rparr>)"
| ret: "us_pc s i = UDone op r \<Longrightarrow> ustep s (s\<lparr>us_pc := (us_pc s)(i := UIdle)\<rparr>)"

inductive ureach :: "usys \<Rightarrow> bool" where
  init: "ureach usys_init"
| step: "ureach s \<Longrightarrow> ustep s s' \<Longrightarrow> ureach s'"

end
