(* ===== verification/Uruv_Conc_Inv.thy ===== *)
theory Uruv_Conc_Inv
  imports Uruv_Conc
begin

text \<open>
  The invariant of the versioned list under interleaving: the nodes from the lower sentinel on are a list \<open>fl\<close>
  that only grows, by one node behind an open word. What the writes of the program do to it: freezing a word,
  linking a node, exchanging the head of a chain of versions, allocating, stamping, counting.
\<close>

section \<open>Lists of successors\<close>

lemma succ_split:
  "map f (A @ p # B) = tl (A @ p # B) @ [t] \<longleftrightarrow> f p = hd (B @ [t]) \<and> map f A = tl (A @ [p]) \<and> map f B = tl (B @ [t])"
proof (induction A)
  case Nil
  show ?case by (cases B) auto
next
  case (Cons a A)
  have A: "map f (a # A) = tl ((a # A) @ [p]) \<longleftrightarrow> f a = hd (A @ [p]) \<and> map f A = tl (A @ [p])" by (cases A) auto
  have "map f ((a # A) @ p # B) = tl ((a # A) @ p # B) @ [t] \<longleftrightarrow> f a = hd (A @ [p]) \<and> map f (A @ p # B) = tl (A @ p # B) @ [t]"
    by (cases A) auto
  then show ?case unfolding Cons.IH A by blast
qed

lemma succ_insert:
  assumes "map f (A @ p # B) = tl (A @ p # B) @ [t]" and "\<forall>a \<in> set A \<union> set B. f' a = f a" and "f' p = n" and "f' n = f p"
  shows "map f' (A @ p # n # B) = tl (A @ p # n # B) @ [t]"
proof -
  have s: "f p = hd (B @ [t])" "map f A = tl (A @ [p])" "map f B = tl (B @ [t])" using assms(1) unfolding succ_split by blast+
  have "map f' A = map f A" "map f' B = map f B" using assms(2) by auto
  then have "map f' A = tl (A @ [p])" using s(2) by simp
  moreover have "map f' (n # B) = tl ((n # B) @ [t])" using s(1,3) \<open>map f' B = map f B\<close> assms(4) by (cases B) simp_all
  ultimately show ?thesis using assms(3) unfolding succ_split [of f' A p "n # B" t] by simp
qed

section \<open>The invariant\<close>

definition unext :: "RList \<Rightarrow> addr \<Rightarrow> addr" where "unext l a = tp_addr (uword l a)"

abbreviation udom :: "RList \<Rightarrow> addr set" where "udom l \<equiv> dom (rl_heap l)"
abbreviation vdom :: "vmem \<Rightarrow> addr set" where "vdom m \<equiv> dom (vm_heap m)"

definition vval :: "vmem \<Rightarrow> tptr \<Rightarrow> val_t" where "vval m p = vn_value (the (vm_heap m (tp_addr p)))"
definition vprev :: "vmem \<Rightarrow> tptr \<Rightarrow> tptr" where "vprev m p = vn_nextv (the (vm_heap m (tp_addr p)))"
definition is_ver :: "vmem \<Rightarrow> tptr \<Rightarrow> bool" where "is_ver m p \<longleftrightarrow> p = clean (tp_addr p) \<and> tp_addr p \<in> vdom m"

lemma uval_eq: "uval (l, m) a = vval m (uhead l a)"
  by (simp add: uval_def vval_def)

definition ufrozen :: "RList \<Rightarrow> addr list \<Rightarrow> bool" where
  "ufrozen l A \<longleftrightarrow> (\<forall>a \<in> set A. tp_freeze (uword l a))"

definition ubase :: "addr \<Rightarrow> addr list \<Rightarrow> RList \<Rightarrow> vmem \<Rightarrow> bool" where
  "ubase t fl l m \<longleftrightarrow> rl_head l \<in> set fl \<and> t \<notin> set fl \<and> set fl \<subseteq> udom l \<and> t \<in> udom l
     \<and> udom l \<subseteq> {1..<rl_brk l} \<and> vdom m \<subseteq> {1..<vm_brk m} \<and> (rl_isReclaimed l \<longrightarrow> ufrozen l fl)"

definition uorder :: "addr \<Rightarrow> addr list \<Rightarrow> RList \<Rightarrow> bool" where
  "uorder t fl l \<longleftrightarrow> fl \<noteq> [] \<and> hd fl = rl_head l \<and> rl_head l \<notin> set (tl fl) \<and> map (unext l) fl = tl fl @ [t]
     \<and> sorted_wrt (<) (map (ukey l) (tl fl @ [t])) \<and> ukey l t = key_max \<and> ukey l (rl_head l) = 0"

definition uwords :: "addr \<Rightarrow> addr list \<Rightarrow> RList \<Rightarrow> vmem \<Rightarrow> bool" where
  "uwords t fl l m \<longleftrightarrow> uword l t = null_ptr \<and> (\<forall>a \<in> udom l. is_ver m (uhead l a))
     \<and> (\<forall>a \<in> set fl. \<not> tp_mark (uword l a) \<and> (tp_freeze (uword l a) \<longrightarrow> tp_freeze (uword l (rl_head l))))"

definition uinv :: "addr \<Rightarrow> addr list \<Rightarrow> RList \<Rightarrow> vmem \<Rightarrow> bool" where
  "uinv t fl l m \<longleftrightarrow> ubase t fl l m \<and> uorder t fl l \<and> uwords t fl l m"

lemma ubaseD:
  assumes "ubase t fl l m"
  shows "rl_head l \<in> set fl" "t \<notin> set fl" "set fl \<subseteq> udom l" "t \<in> udom l" "udom l \<subseteq> {1..<rl_brk l}" "vdom m \<subseteq> {1..<vm_brk m}"
    "rl_isReclaimed l \<Longrightarrow> ufrozen l fl"
  using assms unfolding ubase_def by blast+

lemma uorderD:
  assumes "uorder t fl l"
  shows "fl \<noteq> []" "hd fl = rl_head l" "rl_head l \<notin> set (tl fl)" "map (unext l) fl = tl fl @ [t]"
    "sorted_wrt (<) (map (ukey l) (tl fl @ [t]))" "ukey l t = key_max" "ukey l (rl_head l) = 0"
  by (insert assms [unfolded uorder_def], (elim conjE, assumption)+)

lemma uwordsD:
  assumes "uwords t fl l m"
  shows "uword l t = null_ptr" "\<And>a. a \<in> udom l \<Longrightarrow> is_ver m (uhead l a)" "\<And>a. a \<in> set fl \<Longrightarrow> \<not> tp_mark (uword l a)"
    "\<And>a. a \<in> set fl \<Longrightarrow> tp_freeze (uword l a) \<Longrightarrow> tp_freeze (uword l (rl_head l))"
  using assms unfolding uwords_def by blast+

lemma uinvD: "uinv t fl l m \<Longrightarrow> ubase t fl l m" "uinv t fl l m \<Longrightarrow> uorder t fl l" "uinv t fl l m \<Longrightarrow> uwords t fl l m"
  by (simp_all add: uinv_def)

text \<open>The nodes of the keys, and the facts that are used most.\<close>

definition unodes :: "addr list \<Rightarrow> RList \<Rightarrow> addr set" where "unodes fl l = set fl - {rl_head l}"

lemma unodes_tl:
  assumes "uorder t fl l"
  shows "unodes fl l = set (tl fl)" "set fl = insert (rl_head l) (set (tl fl))"
proof -
  note o = uorderD [OF assms]
  have "fl = rl_head l # tl fl" using o(1,2) by (metis list.collapse)
  then have "set fl = insert (rl_head l) (set (tl fl))" by (metis list.simps(15))
  then show "unodes fl l = set (tl fl)" "set fl = insert (rl_head l) (set (tl fl))" using o(3) by (auto simp: unodes_def)
qed

lemma unodes_dom: "ubase t fl l m \<Longrightarrow> a \<in> insert t (set fl) \<Longrightarrow> a \<in> udom l"
  using ubaseD(3,4) by blast

lemma udom_pos: "ubase t fl l m \<Longrightarrow> a \<in> udom l \<Longrightarrow> 0 < a"
  using ubaseD(5) by fastforce

lemma ukeys_distinct: "uorder t fl l \<Longrightarrow> distinct (map (ukey l) (tl fl @ [t]))"
  using uorderD(5) strict_sorted_iff by blast

lemma ukey_less: "uorder t fl l \<Longrightarrow> a \<in> unodes fl l \<Longrightarrow> ukey l a < key_max"
  using uorderD(5,6) unodes_tl(1) by (fastforce simp: sorted_wrt_append)

lemma unodes_inj: "uorder t fl l \<Longrightarrow> a \<in> unodes fl l \<Longrightarrow> b \<in> unodes fl l \<Longrightarrow> ukey l a = ukey l b \<Longrightarrow> a = b"
  using ukeys_distinct unodes_tl(1) by (fastforce simp: distinct_map inj_on_def)

lemma unext_split:
  assumes "uorder t fl l" and "fl = A @ a # B"
  shows "unext l a = hd (B @ [t])"
proof -
  have "map (unext l) (A @ a # B) = tl (A @ a # B) @ [t]" using uorderD(4) [OF assms(1)] unfolding assms(2) .
  then show ?thesis unfolding succ_split by blast
qed

lemma unext_in:
  assumes "uorder t fl l" and "a \<in> set fl"
  shows "unext l a \<in> insert t (unodes fl l)"
proof -
  have "unext l a \<in> set (map (unext l) fl)" using assms(2) by simp
  then show ?thesis unfolding uorderD(4) [OF assms(1)] unodes_tl(1) [OF assms(1)] by auto
qed

section \<open>The chain and the content\<close>

lemma u_walk_eq:
  assumes "uword l t = null_ptr" and "t \<in> udom l" and "0 \<notin> udom l"
  shows "map (unext l) xs = tl (xs @ [t]) \<Longrightarrow> set xs \<subseteq> udom l \<Longrightarrow> length xs < n \<Longrightarrow> u_walk n (rl_heap l) (hd (xs @ [t])) = xs"
proof (induction xs arbitrary: n)
  case Nil
  then obtain n' where "n = Suc n'" by (cases n) auto
  then show ?case using assms by (auto simp: uword_def)
next
  case (Cons a as)
  then obtain n' where n: "n = Suc n'" "length as < n'" by (cases n) auto
  have s: "unext l a = hd (as @ [t])" "map (unext l) as = tl (as @ [t])" using Cons.prems(1) by (cases as; simp)+
  have "hd (as @ [t]) \<in> udom l" using Cons.prems(2) assms(2) by (cases as) auto
  then have "unext l a \<noteq> 0" using s(1) assms(3) by metis
  then show ?case using Cons.IH [OF s(2) _ n(2)] Cons.prems(2) n(1) s(1) by (auto simp: unext_def uword_def)
qed

lemma u_chain_eq:
  assumes "uinv t fl l m"
  shows "u_chain l = tl fl"
proof -
  note b = ubaseD [OF uinvD(1) [OF assms]] and o = uorderD [OF uinvD(2) [OF assms]]
  have f: "fl = [] @ rl_head l # tl fl" using o(1,2) by (cases fl) auto
  have s: "map (unext l) (tl fl) = tl (tl fl @ [t])"
    using o(4) succ_split [of "unext l" "[]" "rl_head l" "tl fl" t] f by (metis append_Nil list.sel(3))
  have hd: "tp_addr (uword l (rl_head l)) = hd (tl fl @ [t])" using unext_split [OF uinvD(2) [OF assms] f] by (simp add: unext_def)
  have d: "distinct (tl fl @ [t])" using ukeys_distinct [OF uinvD(2) [OF assms]] distinct_map by blast
  have sub: "set (tl fl) \<subseteq> udom l" using b(3) by (cases fl) auto
  then have "set (tl fl @ [t]) \<subseteq> {1..<rl_brk l}" using b(4,5) by auto
  then have "card (set (tl fl @ [t])) \<le> card {1..<rl_brk l}" by (intro card_mono) auto
  then have "length (tl fl) < rl_brk l" using distinct_card [OF d] by simp
  moreover have "0 \<notin> udom l" using b(5) by fastforce
  ultimately show ?thesis unfolding u_chain_def hd
    using u_walk_eq [OF uwordsD(1) [OF uinvD(3) [OF assms]] b(4) _ s sub] by blast
qed

lemma u_content_iff:
  assumes "uinv t fl l m"
  shows "u_content (l, m) k = Some v \<longleftrightarrow> (\<exists>a \<in> unodes fl l. ukey l a = k \<and> uval (l, m) a = v)"
proof -
  have "distinct (map (ukey l) (tl fl))" using ukeys_distinct [OF uinvD(2) [OF assms]] by simp
  then have d: "distinct (map fst (map (\<lambda>a. (ukey l a, uval (l, m) a)) (tl fl)))" by (simp add: comp_def)
  show ?thesis unfolding u_content_def fst_conv u_chain_eq [OF assms] map_of_eq_Some_iff [OF d] unodes_tl(1) [OF uinvD(2) [OF assms]]
    by auto
qed

lemma u_content_none:
  assumes "uinv t fl l m"
  shows "u_content (l, m) k = None \<longleftrightarrow> (\<forall>a \<in> unodes fl l. ukey l a \<noteq> k)"
  using u_content_iff [OF assms, of k] by (metis not_None_eq)

lemma u_content_at: "uinv t fl l m \<Longrightarrow> a \<in> unodes fl l \<Longrightarrow> u_content (l, m) (ukey l a) = Some (uval (l, m) a)"
  using u_content_iff by blast

lemma u_content_same:
  assumes "uinv t fl l m" and "uinv t fl l' m'" and "rl_head l' = rl_head l"
    and "\<And>a. a \<in> unodes fl l \<Longrightarrow> ukey l' a = ukey l a \<and> uval (l', m') a = uval (l, m) a"
  shows "u_content (l', m') = u_content (l, m)"
proof
  fix k
  have n: "unodes fl l' = unodes fl l" by (simp add: unodes_def assms(3))
  have "u_content (l', m') k = Some v \<longleftrightarrow> u_content (l, m) k = Some v" for v
    unfolding u_content_iff [OF assms(1)] u_content_iff [OF assms(2)] n using assms(4) by metis
  then show "u_content (l', m') k = u_content (l, m) k" by (metis option.exhaust)
qed

lemma u_heads_iff:
  assumes "uinv t fl l m"
  shows "u_heads l k = Some p \<longleftrightarrow> (\<exists>a \<in> unodes fl l. ukey l a = k \<and> uhead l a = p)"
proof -
  have "distinct (map (ukey l) (tl fl))" using ukeys_distinct [OF uinvD(2) [OF assms]] by simp
  then have d: "distinct (map fst (map (\<lambda>a. (ukey l a, uhead l a)) (tl fl)))" by (simp add: comp_def)
  show ?thesis unfolding u_heads_def u_chain_eq [OF assms] map_of_eq_Some_iff [OF d] unodes_tl(1) [OF uinvD(2) [OF assms]]
    by auto
qed

lemma u_heads_at: "uinv t fl l m \<Longrightarrow> a \<in> unodes fl l \<Longrightarrow> u_heads l (ukey l a) = Some (uhead l a)"
  using u_heads_iff by blast

lemma u_obs_same:
  assumes "uinv t fl l m" and "uinv t fl l' m'" and "rl_head l' = rl_head l"
    and "\<And>a. a \<in> unodes fl l \<Longrightarrow> ukey l' a = ukey l a \<and> uval (l', m') a = uval (l, m) a"
    and "\<And>a. a \<in> unodes fl l \<Longrightarrow> uhead l' a = uhead l a"
  shows "u_obs (l', m') = u_obs (l, m)"
proof -
  have n: "unodes fl l' = unodes fl l" by (simp add: unodes_def assms(3))
  have "u_heads l' k = u_heads l k" for k
  proof -
    have "u_heads l' k = Some p \<longleftrightarrow> u_heads l k = Some p" for p
      unfolding u_heads_iff [OF assms(1)] u_heads_iff [OF assms(2)] n using assms(4,5) by metis
    then show ?thesis by (metis option.exhaust)
  qed
  then show ?thesis using u_content_same [OF assms(1-4)] by (simp add: u_obs_def fun_eq_iff)
qed

text \<open>The content has as many keys as the list has nodes.\<close>

lemma u_content_card:
  assumes "uinv t fl l m"
  shows "card (dom (u_content (l, m))) = length (tl fl)"
proof -
  have d: "distinct (map (ukey l) (tl fl))" using ukeys_distinct [OF uinvD(2) [OF assms]] by simp
  have "dom (u_content (l, m)) = set (map (ukey l) (tl fl))"
    unfolding u_content_def fst_conv u_chain_eq [OF assms] dom_map_of_conv_image_fst by (simp add: image_image)
  then show ?thesis using distinct_card [OF d] by simp
qed

lemma u_content_gets:
  assumes "uinv t fl l m" and "uinv t fl' l' m'" and n: "unodes fl' l' = insert n (unodes fl l)"
    and "\<And>a. a \<in> unodes fl l \<Longrightarrow> a \<noteq> n \<Longrightarrow> ukey l' a = ukey l a \<and> uval (l', m') a = uval (l, m) a"
    and "n \<in> unodes fl l \<Longrightarrow> ukey l' n = ukey l n"
  shows "u_content (l', m') = (u_content (l, m))(ukey l' n \<mapsto> uval (l', m') n)"
proof
  fix k
  have nn: "n \<in> unodes fl' l'" using n by simp
  show "u_content (l', m') k = ((u_content (l, m))(ukey l' n \<mapsto> uval (l', m') n)) k"
  proof (cases "k = ukey l' n")
    case True
    then show ?thesis using u_content_at [OF assms(2) nn] by simp
  next
    case False
    have "(\<exists>a \<in> unodes fl' l'. ukey l' a = k \<and> uval (l', m') a = v) \<longleftrightarrow> (\<exists>a \<in> unodes fl l. ukey l a = k \<and> uval (l, m) a = v)" for v
      unfolding n using assms(4,5) False by (metis insert_iff)
    then have "u_content (l', m') k = Some v \<longleftrightarrow> u_content (l, m) k = Some v" for v
      unfolding u_content_iff [OF assms(1)] u_content_iff [OF assms(2)] .
    then show ?thesis using False by (metis fun_upd_other option.exhaust)
  qed
qed

text \<open>No key lies between neighbours.\<close>

lemma u_gap:
  assumes inv: "uinv t fl l m" and a: "a \<in> set fl" and k: "a = rl_head l \<or> ukey l a < k" "k < ukey l (unext l a)"
  shows "u_content (l, m) k = None"
proof -
  note ord = uinvD(2) [OF inv]
  obtain A B where s: "fl = A @ a # B" using split_list [OF a] by blast
  note nx = unext_split [OF ord s]
  have srt: "sorted_wrt (<) (map (ukey l) (tl fl @ [t]))" by (rule uorderD(5) [OF ord])
  have hB: "\<forall>b \<in> set B. ukey l (hd (B @ [t])) \<le> ukey l b"
  proof -
    have "sorted_wrt (<) (map (ukey l) (B @ [t]))" using srt s by (cases A) (auto simp: sorted_wrt_append)
    then show ?thesis by (cases B) auto
  qed
  have "ukey l b \<noteq> k" if b: "b \<in> unodes fl l" for b
  proof (cases "A = []")
    case True
    then have "b \<in> set B" using b unodes_tl(1) [OF ord] s by simp
    then show ?thesis using hB k(2) nx by fastforce
  next
    case False
    then obtain x A' where A: "A = x # A'" by (cases A) auto
    then have ch: "tl fl = A' @ a # B" using s by simp
    then have "a \<noteq> rl_head l" using uorderD(3) [OF ord] by auto
    then have ka: "ukey l a < k" using k(1) by blast
    have "b \<in> set A' \<or> b = a \<or> b \<in> set B" using b unodes_tl(1) [OF ord] ch by auto
    then show ?thesis
    proof (elim disjE)
      assume "b \<in> set A'"
      then have "ukey l b < ukey l a" using srt ch by (auto simp: sorted_wrt_append)
      then show ?thesis using ka by simp
    next
      assume "b \<in> set B"
      then show ?thesis using hB k(2) nx by fastforce
    qed (use ka in simp)
  qed
  then show ?thesis by (simp add: u_content_none [OF inv])
qed

section \<open>What every step keeps\<close>

text \<open>Keys, values and predecessors never change; nodes stay; a frozen word stays, and so does a beginning of the
  list whose words are all frozen; a node that is not linked and belongs to another thread is not touched.\<close>

definition ukeeps :: "RList \<Rightarrow> vmem \<Rightarrow> RList \<Rightarrow> vmem \<Rightarrow> bool" where
  "ukeeps l m l' m' \<longleftrightarrow> rl_head l' = rl_head l \<and> udom l \<subseteq> udom l' \<and> (\<forall>a \<in> udom l. ukey l' a = ukey l a)
     \<and> (\<forall>p. is_ver m p \<longrightarrow> is_ver m' p \<and> vval m' p = vval m p \<and> vprev m' p = vprev m p)
     \<and> rl_size l \<le> rl_size l' \<and> vm_tracker m' = vm_tracker m \<and> (rl_isReclaimed l \<longrightarrow> rl_isReclaimed l')"

definition ugood :: "addr \<Rightarrow> addr set \<Rightarrow> addr list \<Rightarrow> RList \<Rightarrow> vmem \<Rightarrow> addr list \<Rightarrow> RList \<Rightarrow> vmem \<Rightarrow> bool" where
  "ugood t mine fl l m fl' l' m' \<longleftrightarrow> uinv t fl' l' m' \<and> ukeeps l m l' m' \<and> set fl \<subseteq> set fl'
     \<and> (\<forall>a \<in> set fl. tp_freeze (uword l a) \<longrightarrow> uword l' a = uword l a)
     \<and> (\<forall>A B. fl = A @ B \<longrightarrow> ufrozen l A \<longrightarrow> (\<exists>B'. fl' = A @ B' \<and> hd (B' @ [t]) = hd (B @ [t])))
     \<and> (\<forall>a \<in> udom l - set fl - {t} - mine. a \<notin> set fl' \<and> uword l' a = uword l a \<and> uhead l' a = uhead l a)"

lemma ukeepsD:
  assumes "ukeeps l m l' m'"
  shows "rl_head l' = rl_head l" "udom l \<subseteq> udom l'" "\<And>a. a \<in> udom l \<Longrightarrow> ukey l' a = ukey l a"
    "\<And>p. is_ver m p \<Longrightarrow> is_ver m' p" "\<And>p. is_ver m p \<Longrightarrow> vval m' p = vval m p" "\<And>p. is_ver m p \<Longrightarrow> vprev m' p = vprev m p"
    "rl_size l \<le> rl_size l'" "vm_tracker m' = vm_tracker m" "rl_isReclaimed l \<Longrightarrow> rl_isReclaimed l'"
  using assms unfolding ukeeps_def by blast+

lemma ugoodD:
  assumes "ugood t mine fl l m fl' l' m'"
  shows "uinv t fl' l' m'" "ukeeps l m l' m'" "set fl \<subseteq> set fl'"
    "\<And>a. a \<in> set fl \<Longrightarrow> tp_freeze (uword l a) \<Longrightarrow> uword l' a = uword l a"
    "\<And>A B. fl = A @ B \<Longrightarrow> ufrozen l A \<Longrightarrow> \<exists>B'. fl' = A @ B' \<and> hd (B' @ [t]) = hd (B @ [t])"
    "\<And>a. a \<in> udom l \<Longrightarrow> a \<notin> insert t (set fl) \<Longrightarrow> a \<notin> mine \<Longrightarrow> a \<notin> set fl' \<and> uword l' a = uword l a \<and> uhead l' a = uhead l a"
  using assms unfolding ugood_def by blast+

lemma ukeeps_refl [simp]: "ukeeps l m l m"
  by (simp add: ukeeps_def)

lemma ugood_refl: "uinv t fl l m \<Longrightarrow> ugood t mine fl l m fl l m"
  by (auto simp: ugood_def)

text \<open>A step that links nothing.\<close>

lemma ugood_sameI:
  assumes inv: "uinv t fl l m" and k: "ukeeps l m l' m'"
    and b: "udom l' \<subseteq> {1..<rl_brk l'}" "vdom m' \<subseteq> {1..<vm_brk m'}" "rl_isReclaimed l' \<Longrightarrow> rl_isReclaimed l \<or> ufrozen l fl"
    and w: "uword l' t = uword l t"
      "\<And>a. a \<in> set fl \<Longrightarrow> uword l' a = uword l a \<or> uword l' a = tp_set_freeze (uword l a)"
      "\<And>a. a \<in> set fl \<Longrightarrow> tp_freeze (uword l' a) \<Longrightarrow> tp_freeze (uword l' (rl_head l'))"
    and h: "\<And>a. a \<in> udom l' \<Longrightarrow> is_ver m' (uhead l' a)"
    and o: "\<And>a. a \<in> udom l \<Longrightarrow> a \<notin> insert t (set fl) \<Longrightarrow> a \<notin> mine \<Longrightarrow> uword l' a = uword l a \<and> uhead l' a = uhead l a"
  shows "ugood t mine fl l m fl l' m'"
proof -
  note B = ubaseD [OF uinvD(1) [OF inv]] and O = uorderD [OF uinvD(2) [OF inv]] and W = uwordsD [OF uinvD(3) [OF inv]]
  note K = ukeepsD [OF k]
  have n: "unext l' a = unext l a" if "a \<in> set fl" for a using w(2) [OF that] by (auto simp: unext_def tp_defs)
  have ky: "ukey l' a = ukey l a" if "a \<in> insert t (set fl)" for a using K(3) unodes_dom [OF uinvD(1) [OF inv] that] by blast
  have kt: "map (ukey l') (tl fl @ [t]) = map (ukey l) (tl fl @ [t])" using ky unodes_tl(2) [OF uinvD(2) [OF inv]] by auto
  have "ufrozen l' fl" if "rl_isReclaimed l'"
  proof -
    have "ufrozen l fl" using b(3) [OF that] B(7) by blast
    then show ?thesis using w(2) by (fastforce simp: ufrozen_def tp_defs)
  qed
  then have "ubase t fl l' m'" unfolding ubase_def K(1)
    using B(1,2) b(1,2) subset_trans [OF B(3) K(2)] subsetD [OF K(2) B(4)] by blast
  moreover have "uorder t fl l'" unfolding uorder_def kt using O K(1) n ky B(1) by (simp add: map_idI cong: map_cong)
  moreover have "uwords t fl l' m'"
    unfolding uwords_def using w h W(1) W(3) by (auto simp: tp_defs) (metis tp_set_freeze_def tptr.sel(2))
  ultimately have "uinv t fl l' m'" by (simp add: uinv_def)
  moreover have "uword l' a = uword l a" if "a \<in> set fl" "tp_freeze (uword l a)" for a
    using w(2) [OF that(1)] that(2) by (cases "uword l a") (auto simp: tp_defs)
  ultimately show ?thesis unfolding ugood_def using k o by auto
qed

section \<open>The writes\<close>

definition set_word :: "addr \<Rightarrow> tptr \<Rightarrow> RList \<Rightarrow> RList" where
  "set_word c p l = rl_set l c ((the (rl_heap l c))\<lparr>rn_next := p\<rparr>)"

definition set_vhead :: "addr \<Rightarrow> tptr \<Rightarrow> RList \<Rightarrow> RList" where
  "set_vhead c p l = rl_set l c ((the (rl_heap l c))\<lparr>rn_vhead := p\<rparr>)"

lemma set_word_sel [simp]:
  "rl_head (set_word c p l) = rl_head l" "rl_brk (set_word c p l) = rl_brk l" "rl_size (set_word c p l) = rl_size l"
  "rl_isReclaimed (set_word c p l) = rl_isReclaimed l"
  "ukey (set_word c p l) a = ukey l a" "uhead (set_word c p l) a = uhead l a"
  "uword (set_word c p l) a = (if a = c then p else uword l a)"
  by (simp_all add: set_word_def rl_set_def ukey_def uhead_def uword_def)

lemma set_vhead_sel [simp]:
  "rl_head (set_vhead c p l) = rl_head l" "rl_brk (set_vhead c p l) = rl_brk l" "rl_size (set_vhead c p l) = rl_size l"
  "rl_isReclaimed (set_vhead c p l) = rl_isReclaimed l"
  "ukey (set_vhead c p l) a = ukey l a" "uword (set_vhead c p l) a = uword l a"
  "uhead (set_vhead c p l) a = (if a = c then p else uhead l a)"
  by (simp_all add: set_vhead_def rl_set_def ukey_def uhead_def uword_def)

lemma set_dom: "c \<in> udom l \<Longrightarrow> udom (set_word c p l) = udom l" "c \<in> udom l \<Longrightarrow> udom (set_vhead c p l) = udom l"
  by (auto simp: set_word_def set_vhead_def rl_set_def)

lemma u_load: "a \<in> udom l \<Longrightarrow> rl_load l a = Inr (the (rl_heap l a))"
  by (auto simp: rl_load_def)

lemma u_cas: "a \<in> udom l \<Longrightarrow> rl_cas_next l a e d = Inr (if uword l a = e then (True, set_word a d l) else (False, l))"
  by (auto simp: rl_cas_next_def u_load uword_def set_word_def)

lemma u_sel: "rn_key (the (rl_heap l a)) = ukey l a" "rn_vhead (the (rl_heap l a)) = uhead l a" "rn_next (the (rl_heap l a)) = uword l a"
  by (simp_all add: ukey_def uhead_def uword_def)

lemma v_load: "is_ver m p \<Longrightarrow> vn_load m p = Inr (the (vm_heap m (tp_addr p)))"
  by (cases p) (auto simp: vn_load_def is_ver_def)

lemma v_sel: "vn_value (the (vm_heap m (tp_addr p))) = vval m p"
  by (simp add: vval_def)

text \<open>Freezing.\<close>

lemma freeze_ok:
  assumes inv: "uinv t fl l m" and c: "c \<in> set fl" and hd: "c = rl_head l \<or> tp_freeze (uword l (rl_head l))"
  shows "ugood t mine fl l m fl (set_word c (tp_set_freeze (uword l c)) l) m"
    and "u_obs (set_word c (tp_set_freeze (uword l c)) l, m) = u_obs (l, m)"
proof -
  note B = ubaseD [OF uinvD(1) [OF inv]] and W = uwordsD [OF uinvD(3) [OF inv]]
  let ?l = "set_word c (tp_set_freeze (uword l c)) l"
  have d: "c \<in> udom l" using B(3) c by blast
  have k: "ukeeps l m ?l m" by (simp add: ukeeps_def set_dom(1) [OF d])
  show g: "ugood t mine fl l m fl ?l m"
    by (rule ugood_sameI [OF inv k]) (use B(2,5,6) W(2,4) c hd in \<open>auto simp: set_dom(1) [OF d] tp_defs\<close>)
  show "u_obs (?l, m) = u_obs (l, m)" by (rule u_obs_same [OF inv ugoodD(1) [OF g]]) (simp_all add: uval_eq)
qed

text \<open>Exchanging the head of the versions of a node.\<close>

lemma vhead_ok:
  assumes inv: "uinv t fl l m" and c: "c \<in> unodes fl l" and p: "is_ver m p"
  shows "ugood t mine fl l m fl (set_vhead c p l) m"
    and "u_content (set_vhead c p l, m) = (u_content (l, m))(ukey l c \<mapsto> vval m p)"
proof -
  note B = ubaseD [OF uinvD(1) [OF inv]] and W = uwordsD [OF uinvD(3) [OF inv]]
  let ?l = "set_vhead c p l"
  have cf: "c \<in> set fl" using c by (simp add: unodes_def)
  have d: "c \<in> udom l" using B(3) cf by blast
  have k: "ukeeps l m ?l m" by (simp add: ukeeps_def set_dom(2) [OF d])
  show g: "ugood t mine fl l m fl ?l m"
    by (rule ugood_sameI [OF inv k]) (use B(5,6) W(2,4) cf p in \<open>auto simp: set_dom(2) [OF d]\<close>)
  have n: "unodes fl ?l = insert c (unodes fl l)" using c by (auto simp: unodes_def)
  from u_content_gets [OF inv ugoodD(1) [OF g] n]
  show "u_content (?l, m) = (u_content (l, m))(ukey l c \<mapsto> vval m p)" by (simp add: uval_eq)
qed

text \<open>Writes to versions and counters that no key, value or pointer depends on.\<close>

lemma quiet_ok:
  assumes inv: "uinv t fl l m" and k: "ukeeps l m l' m'" and h: "rl_heap l' = rl_heap l" "rl_brk l' = rl_brk l"
    "rl_isReclaimed l' \<Longrightarrow> rl_isReclaimed l \<or> ufrozen l fl" and v: "vdom m' \<subseteq> {1..<vm_brk m'}"
  shows "ugood t mine fl l m fl l' m'" and "u_obs (l', m') = u_obs (l, m)"
proof -
  note B = ubaseD [OF uinvD(1) [OF inv]] and W = uwordsD [OF uinvD(3) [OF inv]] and K = ukeepsD [OF k]
  have s: "uword l' = uword l" "uhead l' = uhead l" "ukey l' = ukey l" using h(1) by (auto simp: uword_def uhead_def ukey_def)
  show g: "ugood t mine fl l m fl l' m'"
    by (rule ugood_sameI [OF inv k]) (use B(5) v h W(2,4) K(1,4) in \<open>auto simp: s\<close>)
  have "uval (l', m') a = uval (l, m) a" if "a \<in> unodes fl l" for a
  proof -
    have "a \<in> udom l" using that B(3) by (auto simp: unodes_def)
    then show ?thesis unfolding uval_eq s using K(5) W(2) by blast
  qed
  then show "u_obs (l', m') = u_obs (l, m)" by (intro u_obs_same [OF inv ugoodD(1) [OF g] K(1)]) (simp_all add: s)
qed

text \<open>Building a node that is not linked.\<close>

lemma build_ok:
  assumes inv: "uinv t fl l m" and k: "ukeeps l m l' m'" and n: "n \<notin> udom l" "udom l' = insert n (udom l)" "is_ver m' (uhead l' n)"
    and s: "\<And>a. a \<in> udom l \<Longrightarrow> uword l' a = uword l a \<and> uhead l' a = uhead l a"
    and b: "udom l' \<subseteq> {1..<rl_brk l'}" "vdom m' \<subseteq> {1..<vm_brk m'}" "rl_isReclaimed l' = rl_isReclaimed l"
  shows "ugood t mine fl l m fl l' m'" and "u_obs (l', m') = u_obs (l, m)" and "n \<notin> insert t (set fl)"
proof -
  note B = ubaseD [OF uinvD(1) [OF inv]] and W = uwordsD [OF uinvD(3) [OF inv]] and K = ukeepsD [OF k]
  have sf: "uword l' a = uword l a" "uhead l' a = uhead l a" if "a \<in> insert t (set fl)" for a
    using s [OF unodes_dom [OF uinvD(1) [OF inv] that]] by simp_all
  have v: "is_ver m' (uhead l' a)" if "a \<in> udom l'" for a
  proof (cases "a = n")
    case False
    then have "a \<in> udom l" using that n(2) by simp
    then show ?thesis using s W(2) K(4) by metis
  qed (use n(3) in simp)
  show g: "ugood t mine fl l m fl l' m'"
  proof (rule ugood_sameI [OF inv k b(1,2) _ _ _ _ v])
    show "rl_isReclaimed l' \<Longrightarrow> rl_isReclaimed l \<or> ufrozen l fl" using b(3) by blast
    show "tp_freeze (uword l' (rl_head l'))" if "a \<in> set fl" "tp_freeze (uword l' a)" for a
      using W(4) that sf B(1) unfolding K(1) by (metis insertI2)
  qed (use sf s in auto)
  have "uval (l', m') a = uval (l, m) a" if "a \<in> unodes fl l" for a
  proof -
    have a: "a \<in> set fl" using that by (simp add: unodes_def)
    then have "is_ver m (uhead l a)" using W(2) B(3) by blast
    then show ?thesis unfolding uval_eq using sf(2) a K(5) by simp
  qed
  then show "u_obs (l', m') = u_obs (l, m)"
    using K(3) subsetD [OF B(3)] sf(2) by (intro u_obs_same [OF inv ugoodD(1) [OF g] K(1)]) (simp_all add: unodes_def)
  show "n \<notin> insert t (set fl)" using n(1) B(3,4) by auto
qed

end
