(* ===== verification/Uruv_Conc_Step.thy ===== *)
theory Uruv_Conc_Step
  imports Uruv_Conc_Inv
begin

text \<open>
  What a thread knows at every point of its operation (\<open>upc_ok\<close>), that the steps of other threads keep it,
  and that every step of the operation goes from knowing to knowing without failing.
\<close>

section \<open>What a thread knows\<close>

type_synonym kcontent = "key_t \<rightharpoonup> val_t"

definition saw :: "kobs set \<Rightarrow> key_t \<Rightarrow> val_t \<Rightarrow> bool" where "saw seen k v \<longleftrightarrow> (\<exists>c \<in> seen. fst c k = Some v)"
definition saw_none :: "kobs set \<Rightarrow> key_t \<Rightarrow> bool" where "saw_none seen k \<longleftrightarrow> (\<exists>c \<in> seen. fst c k = None)"
definition saw_other :: "kobs set \<Rightarrow> key_t \<Rightarrow> val_t \<Rightarrow> bool" where "saw_other seen k v \<longleftrightarrow> (\<exists>c \<in> seen. fst c k \<noteq> Some v)"

text \<open>A version was the newest one of its key, and its value the key's value; the list had at least ten keys; it had
  exactly the keys of a set.\<close>

definition saw_version :: "kobs set \<Rightarrow> vmem \<Rightarrow> key_t \<Rightarrow> tptr \<Rightarrow> bool" where
  "saw_version seen m k p \<longleftrightarrow> (\<exists>c \<in> seen. snd c k = Some p \<and> fst c k = Some (vval m p))"
definition saw_full :: "kobs set \<Rightarrow> bool" where "saw_full seen \<longleftrightarrow> (\<exists>c \<in> seen. threshhold \<le> card (dom (fst c)))"
definition saw_keys :: "kobs set \<Rightarrow> key_t set \<Rightarrow> bool" where "saw_keys seen K \<longleftrightarrow> (\<exists>c \<in> seen. dom (fst c) = K)"

lemma saw_insert: "saw seen k v \<Longrightarrow> saw (insert c seen) k v" "saw_none seen k \<Longrightarrow> saw_none (insert c seen) k"
    "saw_other seen k v \<Longrightarrow> saw_other (insert c seen) k v" "saw_full seen \<Longrightarrow> saw_full (insert c seen)"
    "saw_version seen m k p \<Longrightarrow> saw_version (insert c seen) m k p"
  by (auto simp: saw_def saw_none_def saw_other_def saw_full_def saw_version_def)

lemma saw_now:
  assumes "u_obs (l, m) \<in> seen"
  shows "u_content (l, m) k = Some v \<Longrightarrow> saw seen k v" "u_content (l, m) k = None \<Longrightarrow> saw_none seen k"
    "u_content (l, m) k \<noteq> Some v \<Longrightarrow> saw_other seen k v"
  using assms unfolding saw_def saw_none_def saw_other_def u_obs_def by (metis fst_conv)+

text \<open>Answers: an insertion that answers 1 saw its key absent and then with its value; one that answers 0 saw it with its
  value, or was a removal and saw it absent; one that answers -2 saw at least ten keys; one that answers -1 makes no claim
  on the content: the first word is frozen, a collection has begun. A collection that answers false has found the list
  reclaimed; one that succeeds has, in increasing order, exactly the keys of the list at some moment, each with a
  version that was its newest at some moment.\<close>

fun uans_ok :: "kobs set \<Rightarrow> RList \<times> vmem \<Rightarrow> uop \<Rightarrow> uret \<Rightarrow> bool" where
  "uans_ok seen lm (UInsert k v) (UInt i) \<longleftrightarrow>
     i = 1 \<and> saw_none seen k \<and> saw seen k v \<or> i = 0 \<and> (saw seen k v \<or> v = tombstone \<and> saw_none seen k)
     \<or> i = - 1 \<and> tp_freeze (uword (fst lm) (rl_head (fst lm))) \<or> i = - 2 \<and> saw_full seen"
| "uans_ok seen lm (USearch k v) (UBool b) \<longleftrightarrow> (if b then saw seen k v else saw_other seen k v)"
| "uans_ok seen lm UCollect (UBool b) \<longleftrightarrow> \<not> b \<and> rl_isReclaimed (fst lm)"
| "uans_ok seen lm UCollect (UList kvs) \<longleftrightarrow> sorted_wrt (<) (map fst kvs) \<and> saw_keys seen (set (map fst kvs))
     \<and> (\<forall>(k, p) \<in> set kvs. saw_version seen (snd lm) k p)"
| "uans_ok seen lm _ _ \<longleftrightarrow> False"

definition at_key :: "addr list \<Rightarrow> RList \<Rightarrow> key_t \<Rightarrow> addr \<Rightarrow> bool" where
  "at_key fl l k a \<longleftrightarrow> a \<in> unodes fl l \<and> ukey l a = k"

definition left_of :: "addr list \<Rightarrow> RList \<Rightarrow> key_t \<Rightarrow> addr \<Rightarrow> bool" where
  "left_of fl l k a \<longleftrightarrow> a \<in> set fl \<and> (a = rl_head l \<or> ukey l a < k)"

fun unx_ok :: "addr list \<Rightarrow> RList \<Rightarrow> kobs set \<Rightarrow> unext \<Rightarrow> bool" where
  "unx_ok fl l seen (NRd k v a) \<longleftrightarrow> at_key fl l k a"
| "unx_ok fl l seen (NCs k v a old) \<longleftrightarrow> at_key fl l k a \<and> old \<noteq> v"
| "unx_ok fl l seen (NUpd k v) \<longleftrightarrow> saw seen k v"
| "unx_ok fl l seen (NLnk k v) \<longleftrightarrow> saw_none seen k \<and> saw seen k v"

text \<open>The nodes of \<open>A\<close> have been gathered: their keys, each with a version that was its newest at some moment.\<close>

definition gathered :: "RList \<Rightarrow> vmem \<Rightarrow> kobs set \<Rightarrow> addr list \<Rightarrow> kheads \<Rightarrow> bool" where
  "gathered l m seen A acc \<longleftrightarrow> map fst acc = map (ukey l) (tl A)
     \<and> (\<forall>(k, p) \<in> set acc. is_ver m p \<and> saw_version seen m k p)"

definition ucol :: "addr \<Rightarrow> addr list \<Rightarrow> RList \<Rightarrow> vmem \<Rightarrow> kobs set \<Rightarrow> addr \<Rightarrow> kheads \<Rightarrow> bool" where
  "ucol t fl l m seen left acc \<longleftrightarrow> (\<exists>A B. fl = A @ B \<and> ufrozen l A \<and> left = hd (B @ [t]) \<and> gathered l m seen A acc)"

fun upc_ok :: "addr \<Rightarrow> addr list \<Rightarrow> RList \<Rightarrow> vmem \<Rightarrow> kobs set \<Rightarrow> upc \<Rightarrow> bool" where
  "upc_ok t fl l m seen UIdle \<longleftrightarrow> True"
| "upc_ok t fl l m seen (UIns0 k v) \<longleftrightarrow> k < key_max"
| "upc_ok t fl l m seen (UFind0 k v) \<longleftrightarrow> k < key_max"
| "upc_ok t fl l m seen (UFind1 k v) \<longleftrightarrow> k < key_max"
| "upc_ok t fl l m seen (UFind2 k v left right) \<longleftrightarrow> k < key_max \<and> left_of fl l k left \<and> right \<in> insert t (unodes fl l)
     \<and> (k < ukey l right \<longrightarrow> saw_none seen k)"
| "upc_ok t fl l m seen (ULink k v prev right n) \<longleftrightarrow> k < key_max \<and> left_of fl l k prev \<and> right \<in> insert t (unodes fl l) \<and> k < ukey l right
     \<and> n \<in> udom l \<and> n \<notin> insert t (set fl) \<and> uword l n = clean right \<and> ukey l n = k \<and> uval (l, m) n = v"
| "upc_ok t fl l m seen (ULinked k v n) \<longleftrightarrow> n \<in> udom l \<and> saw_none seen k \<and> saw seen k v"
| "upc_ok t fl l m seen (USize k v) \<longleftrightarrow> saw_none seen k \<and> saw seen k v"
| "upc_ok t fl l m seen (URead0 k v a) \<longleftrightarrow> at_key fl l k a"
| "upc_ok t fl l m seen (URead1 k v a) \<longleftrightarrow> at_key fl l k a"
| "upc_ok t fl l m seen (UCas0 k v a old) \<longleftrightarrow> at_key fl l k a \<and> old \<noteq> v"
| "upc_ok t fl l m seen (UCas1 k v a h n) \<longleftrightarrow> at_key fl l k a \<and> is_ver m h \<and> is_ver m n \<and> vval m n = v \<and> vprev m n = h \<and> vval m h \<noteq> v"
| "upc_ok t fl l m seen (UCheck k v a) \<longleftrightarrow> at_key fl l k a"
| "upc_ok t fl l m seen (UInit nx p) \<longleftrightarrow> is_ver m p \<and> unx_ok fl l seen nx"
| "upc_ok t fl l m seen (UClock nx p) \<longleftrightarrow> is_ver m p \<and> unx_ok fl l seen nx"
| "upc_ok t fl l m seen (UStamp nx p g) \<longleftrightarrow> is_ver m p \<and> unx_ok fl l seen nx"
| "upc_ok t fl l m seen (USrch0 k v cur) \<longleftrightarrow> 0 < k \<and> k < key_max \<and> cur \<in> insert t (set fl) \<and> (k < ukey l cur \<longrightarrow> saw_none seen k)"
| "upc_ok t fl l m seen (USrch1 k v cur) \<longleftrightarrow> at_key fl l k cur"
| "upc_ok t fl l m seen (USrch2 k v cur) \<longleftrightarrow> at_key fl l k cur \<and> saw seen k v"
| "upc_ok t fl l m seen UCol0 \<longleftrightarrow> True"
| "upc_ok t fl l m seen (UColH left acc) \<longleftrightarrow> ucol t fl l m seen left acc \<and> left \<noteq> rl_head l"
| "upc_ok t fl l m seen (UColT left acc) \<longleftrightarrow> ucol t fl l m seen left acc \<and> left \<noteq> t"
| "upc_ok t fl l m seen (UColL left acc) \<longleftrightarrow> ucol t fl l m seen left acc \<and> left \<noteq> t"
| "upc_ok t fl l m seen (UColX left cn acc) \<longleftrightarrow> ucol t fl l m seen left acc \<and> left \<noteq> t"
| "upc_ok t fl l m seen (UColV left acc) \<longleftrightarrow> ucol t fl l m seen left acc \<and> left \<noteq> t \<and> tp_freeze (uword l left)"
| "upc_ok t fl l m seen (UColW left acc) \<longleftrightarrow> False"
| "upc_ok t fl l m seen (UColY left p acc) \<longleftrightarrow> False"
| "upc_ok t fl l m seen (UColG left acc) \<longleftrightarrow> ucol t fl l m seen left acc \<and> left \<noteq> t \<and> tp_freeze (uword l left) \<and> left \<noteq> rl_head l"
| "upc_ok t fl l m seen (UColN left acc) \<longleftrightarrow> (\<exists>A B. fl = A @ left # B \<and> ufrozen l (A @ [left]) \<and> gathered l m seen (A @ [left]) acc)"
| "upc_ok t fl l m seen (UDone op r) \<longleftrightarrow>
     (if op = UCollect then r = UBool False \<and> rl_isReclaimed l \<or> (\<exists>acc. r = UList acc \<and> ucol t fl l m seen t acc)
      else uans_ok seen (l, m) op r)"

text \<open>The node of an insertion that is not linked yet, and the node it has linked and not counted.\<close>

fun uown :: "upc \<Rightarrow> addr set" where
  "uown (ULink k v prev right n) = {n}"
| "uown _ = {}"

fun nx_pend :: "unext \<Rightarrow> bool" where
  "nx_pend (NLnk k v) = True"
| "nx_pend _ = False"

fun upend :: "upc \<Rightarrow> bool" where
  "upend (ULinked k v n) = True"
| "upend (USize k v) = True"
| "upend (UInit nx p) = nx_pend nx"
| "upend (UClock nx p) = nx_pend nx"
| "upend (UStamp nx p g) = nx_pend nx"
| "upend _ = False"

section \<open>The steps of other threads keep it\<close>

lemma unodes_mono: "ugood t mine fl l m fl' l' m' \<Longrightarrow> a \<in> unodes fl l \<Longrightarrow> a \<in> unodes fl' l'"
  using ugoodD(3) ukeepsD(1) [OF ugoodD(2)] by (fastforce simp: unodes_def)

lemma ukey_mono: "uinv t fl l m \<Longrightarrow> ugood t mine fl l m fl' l' m' \<Longrightarrow> a \<in> insert t (set fl) \<Longrightarrow> ukey l' a = ukey l a"
  by (rule ukeepsD(3) [OF ugoodD(2)], assumption, rule unodes_dom [OF uinvD(1)])

lemma at_key_mono:
  assumes "uinv t fl l m" and "ugood t mine fl l m fl' l' m'" and h: "at_key fl l k a"
  shows "at_key fl' l' k a"
proof -
  have a: "a \<in> unodes fl l" "ukey l a = k" using h by (simp_all add: at_key_def)
  then have "a \<in> insert t (set fl)" by (simp add: unodes_def)
  from ukey_mono [OF assms(1,2) this] show ?thesis using unodes_mono [OF assms(2) a(1)] a(2) by (simp add: at_key_def)
qed

lemma left_mono:
  assumes "uinv t fl l m" and "ugood t mine fl l m fl' l' m'" and h: "left_of fl l k a"
  shows "left_of fl' l' k a"
proof -
  have a: "a \<in> set fl" "a = rl_head l \<or> ukey l a < k" using h by (simp_all add: left_of_def)
  then have "ukey l' a = ukey l a" using ukey_mono [OF assms(1,2)] by simp
  then show ?thesis using a ugoodD(3) [OF assms(2)] ukeepsD(1) [OF ugoodD(2) [OF assms(2)]] by (auto simp: left_of_def)
qed

lemma right_mono:
  assumes "uinv t fl l m" and "ugood t mine fl l m fl' l' m'" and "a \<in> insert t (unodes fl l)"
  shows "a \<in> insert t (unodes fl' l')" and "ukey l' a = ukey l a"
proof -
  show "a \<in> insert t (unodes fl' l')" using unodes_mono [OF assms(2)] assms(3) by blast
  show "ukey l' a = ukey l a" by (rule ukey_mono [OF assms(1,2)]) (use assms(3) in \<open>auto simp: unodes_def\<close>)
qed

lemma unx_mono: "uinv t fl l m \<Longrightarrow> ugood t mine fl l m fl' l' m' \<Longrightarrow> unx_ok fl l seen nx \<Longrightarrow> unx_ok fl' l' (insert c seen) nx"
  using at_key_mono saw_insert by (cases nx) auto

lemma ufrozen_mono: "ugood t mine fl l m fl' l' m' \<Longrightarrow> set A \<subseteq> set fl \<Longrightarrow> ufrozen l A \<Longrightarrow> ufrozen l' A"
  using ugoodD(4) by (fastforce simp: ufrozen_def)

lemma gathered_mono:
  assumes inv: "uinv t fl l m" and g: "ugood t mine fl l m fl' l' m'" and A: "set A \<subseteq> set fl" and h: "gathered l m seen A acc"
  shows "gathered l' m' (insert c seen) A acc"
proof -
  have "set (tl A) \<subseteq> set fl" using A by (cases A) auto
  then have "ukey l' a = ukey l a" if "a \<in> set (tl A)" for a using ukey_mono [OF inv g] that by blast
  then have "map (ukey l') (tl A) = map (ukey l) (tl A)" by simp
  moreover have "is_ver m' p \<and> saw_version (insert c seen) m' k p" if "(k, p) \<in> set acc" for k p
  proof -
    have p: "is_ver m p" "saw_version seen m k p" using h that by (auto simp: gathered_def)
    then have "saw_version seen m' k p" using ukeepsD(5) [OF ugoodD(2) [OF g] p(1)] by (simp add: saw_version_def)
    then show ?thesis using ukeepsD(4) [OF ugoodD(2) [OF g] p(1)] saw_insert(5) by blast
  qed
  ultimately show ?thesis using h by (auto simp: gathered_def)
qed

lemma ucol_mono:
  assumes inv: "uinv t fl l m" and g: "ugood t mine fl l m fl' l' m'" and h: "ucol t fl l m seen left acc"
  shows "ucol t fl' l' m' (insert c seen) left acc"
proof -
  obtain A B where s: "fl = A @ B" "ufrozen l A" "left = hd (B @ [t])" "gathered l m seen A acc" using h by (auto simp: ucol_def)
  have A: "set A \<subseteq> set fl" using s(1) by simp
  obtain B' where "fl' = A @ B'" "hd (B' @ [t]) = hd (B @ [t])" using ugoodD(5) [OF g s(1,2)] by blast
  then show ?thesis unfolding ucol_def using s(3) ufrozen_mono [OF g A s(2)] gathered_mono [OF inv g A s(4)] by metis
qed

lemma ucol_next_mono:
  assumes inv: "uinv t fl l m" and g: "ugood t mine fl l m fl' l' m'" and s: "fl = A @ left # B" "ufrozen l (A @ [left])" "gathered l m seen (A @ [left]) acc"
  shows "\<exists>A B. fl' = A @ left # B \<and> ufrozen l' (A @ [left]) \<and> gathered l' m' (insert c seen) (A @ [left]) acc"
proof -
  have A: "set (A @ [left]) \<subseteq> set fl" and f: "fl = (A @ [left]) @ B" using s(1) by auto
  obtain B' where "fl' = (A @ [left]) @ B'" using ugoodD(5) [OF g f s(2)] by blast
  then show ?thesis using ufrozen_mono [OF g A s(2)] gathered_mono [OF inv g A s(3)] by (intro exI [of _ A] exI [of _ B']) simp
qed

lemma ucol_in:
  assumes "uinv t fl l m" and "ucol t fl l m seen left acc"
  shows "left \<in> insert t (set fl)"
proof -
  obtain A B where "fl = A @ B" "left = hd (B @ [t])" using assms(2) by (auto simp: ucol_def)
  then show ?thesis by (cases B) auto
qed

lemma frozen_mono: "ugood t mine fl l m fl' l' m' \<Longrightarrow> a \<in> set fl \<Longrightarrow> tp_freeze (uword l a) \<Longrightarrow> tp_freeze (uword l' a)"
  using ugoodD(4) by fastforce

lemma uans_mono:
  assumes inv: "uinv t fl l m" and g: "ugood t mine fl l m fl' l' m'" and h: "uans_ok seen (l, m) op r" and op: "op \<noteq> UCollect"
  shows "uans_ok (insert c seen) (l', m') op r"
proof -
  have fr: "tp_freeze (uword l (rl_head l)) \<Longrightarrow> tp_freeze (uword l' (rl_head l'))"
    using frozen_mono [OF g ubaseD(1) [OF uinvD(1) [OF inv]]] ukeepsD(1) [OF ugoodD(2) [OF g]] by simp
  show ?thesis
  proof (cases op)
    case (UInsert k v)
    then obtain i where r: "r = UInt i" using h by (cases r) auto
    show ?thesis using h fr saw_insert unfolding UInsert r uans_ok.simps fst_conv by blast
  next
    case (USearch k v)
    then obtain b where r: "r = UBool b" using h by (cases r) auto
    show ?thesis using h saw_insert unfolding USearch r by (cases b) auto
  next
    case UCollect
    then show ?thesis using op by simp
  qed
qed

lemma ulink_mono:
  assumes inv: "uinv t fl l m" and g: "ugood t mine fl l m fl' l' m'" and n: "n \<notin> mine" and h: "upc_ok t fl l m seen (ULink k v prev right n)"
  shows "upc_ok t fl' l' m' (insert c seen) (ULink k v prev right n)"
proof -
  have p: "k < key_max" "left_of fl l k prev" "right \<in> insert t (unodes fl l)" "k < ukey l right" "n \<in> udom l" "n \<notin> insert t (set fl)"
    "uword l n = clean right" "ukey l n = k" "uval (l, m) n = v" using h by simp_all
  note K = ukeepsD [OF ugoodD(2) [OF g]] and o = ugoodD(6) [OF g p(5,6) n]
  have "is_ver m (uhead l n)" using uwordsD(2) [OF uinvD(3) [OF inv]] p(5) by blast
  then have "uval (l', m') n = v" using K(5) o p(9) by (simp add: uval_eq)
  moreover have "n \<noteq> t" "n \<in> udom l'" using p(5,6) K(2) by auto
  ultimately show ?thesis using p(1,4,7,8) left_mono [OF inv g p(2)] right_mono [OF inv g p(3)] o K(3) [OF p(5)] by simp
qed

lemma upc_mono:
  assumes inv: "uinv t fl l m" and g: "ugood t mine fl l m fl' l' m'" and n: "uown pc \<inter> mine = {}" and h: "upc_ok t fl l m seen pc"
  shows "upc_ok t fl' l' m' (insert c seen) pc"
proof -
  note K = ukeepsD [OF ugoodD(2) [OF g]]
  note M = at_key_mono [OF inv g] left_mono [OF inv g] unx_mono [OF inv g] ucol_mono [OF inv g] saw_insert
  show ?thesis
  proof (cases pc)
    case (UFind2 k v left right)
    then show ?thesis using h M(2,6) right_mono [OF inv g, of right] by simp
  next
    case (ULink k v prev right new)
    then have "new \<notin> mine" using n by simp
    then show ?thesis using ulink_mono [OF inv g] h ULink by blast
  next
    case (ULinked k v new)
    then show ?thesis using h M(5,6) K(2) by auto
  next
    case (UCas1 k v a p q)
    then show ?thesis using h M(1) K(4-6) by simp
  next
    case (USrch0 k v cur)
    then have p: "0 < k" "k < key_max" "cur \<in> insert t (set fl)" "k < ukey l cur \<longrightarrow> saw_none seen k" using h by simp_all
    then have "cur \<in> insert t (set fl')" using ugoodD(3) [OF g] by blast
    then show ?thesis using USrch0 p M(6) ukey_mono [OF inv g p(3)] by simp
  next
    case (UColV left acc)
    then have p: "ucol t fl l m seen left acc" "left \<noteq> t" "tp_freeze (uword l left)" using h by simp_all
    then have "left \<in> set fl" using ucol_in [OF inv p(1)] by simp
    from frozen_mono [OF g this p(3)] show ?thesis using UColV p M(4) by simp
  next
    case (UColG left acc)
    then have p: "ucol t fl l m seen left acc" "left \<noteq> t" "tp_freeze (uword l left)" "left \<noteq> rl_head l" using h by simp_all
    then have "left \<in> set fl" using ucol_in [OF inv p(1)] by simp
    from frozen_mono [OF g this p(3)] show ?thesis using UColG p M(4) K(1) by simp
  next
    case (UColN left acc)
    then obtain A B where sp: "fl = A @ left # B" "ufrozen l (A @ [left])" "gathered l m seen (A @ [left]) acc" using h by auto
    show ?thesis unfolding UColN upc_ok.simps by (rule ucol_next_mono [OF inv g sp])
  next
    case (UDone op r)
    show ?thesis
    proof (cases "op = UCollect")
      case True
      show ?thesis using h K(9) M(4) unfolding UDone True upc_ok.simps if_P [OF refl] by blast
    next
      case False
      then show ?thesis using h UDone uans_mono [OF inv g] by simp
    qed
  qed (use h M K(1,4) in auto)
qed

section \<open>Steps\<close>

text \<open>The effect of a step on the content: linking adds an absent key, the compare-exchange of \<open>vhead\<close> replaces the
  value of a present one, nothing else has an effect.\<close>

definition ueffect :: "upc \<Rightarrow> upc \<Rightarrow> kcontent \<Rightarrow> kcontent \<Rightarrow> bool" where
  "ueffect pc pc' c c' \<longleftrightarrow> (case pc of
       ULink k v prev right n \<Rightarrow> (case pc' of ULinked k' v' n' \<Rightarrow> c k = None \<and> c' = c(k \<mapsto> v) | _ \<Rightarrow> c' = c)
     | UCas1 k v a h n \<Rightarrow> (case pc' of UInit nx p \<Rightarrow> (\<exists>old. c k = Some old \<and> old \<noteq> v) \<and> c' = c(k \<mapsto> v) | _ \<Rightarrow> c' = c)
     | _ \<Rightarrow> c' = c)"

definition umoves :: "addr \<Rightarrow> addr list \<Rightarrow> RList \<Rightarrow> vmem \<Rightarrow> kobs set \<Rightarrow> upc \<Rightarrow> upc \<Rightarrow> RList \<Rightarrow> vmem \<Rightarrow> addr list \<Rightarrow> bool" where
  "umoves t fl l m seen pc pc' l' m' fl' \<longleftrightarrow> ugood t (uown pc) fl l m fl' l' m'
     \<and> upc_ok t fl' l' m' (insert (u_obs (l', m')) seen) pc'
     \<and> uown pc' \<subseteq> uown pc \<union> (udom l' - udom l) \<and> ueffect pc pc' (u_content (l, m)) (u_content (l', m'))
     \<and> length fl + rl_size l' + of_bool (upend pc') = length fl' + rl_size l + of_bool (upend pc)
     \<and> (\<forall>a \<in> set fl. uhead l' a = uhead l a \<or> vprev m' (uhead l' a) = uhead l a)"

definition ustep_ok :: "addr \<Rightarrow> addr list \<Rightarrow> RList \<Rightarrow> vmem \<Rightarrow> kobs set \<Rightarrow> upc \<Rightarrow> (upc \<times> RList \<times> vmem) res \<Rightarrow> bool" where
  "ustep_ok t fl l m seen pc r \<longleftrightarrow> (\<exists>pc' l' m' fl'. r = Inr (pc', l', m') \<and> umoves t fl l m seen pc pc' l' m' fl')"

lemma ustep_okI: "umoves t fl l m seen pc pc' l' m' fl' \<Longrightarrow> ustep_ok t fl l m seen pc (Inr (pc', l', m'))"
  unfolding ustep_ok_def by blast

lemma ustay:
  assumes "uinv t fl l m" and "u_obs (l, m) \<in> seen" and "upc_ok t fl l m seen pc'" and "uown pc' \<subseteq> uown pc"
    and "ueffect pc pc' (u_content (l, m)) (u_content (l, m))" and "upend pc' = upend pc"
  shows "ustep_ok t fl l m seen pc (Inr (pc', l, m))"
  by (rule ustep_okI [where fl' = fl]) (use assms ugood_refl [OF assms(1)] in \<open>simp add: umoves_def insert_absorb le_supI1\<close>)

lemma uquiet:
  assumes inv: "uinv t fl l m" and k: "ukeeps l m l' m'" and h: "rl_heap l' = rl_heap l" "rl_brk l' = rl_brk l"
    "rl_isReclaimed l' = rl_isReclaimed l" and v: "vdom m' \<subseteq> {1..<vm_brk m'}"
    and s: "u_obs (l, m) \<in> seen" and pc: "upc_ok t fl l' m' seen pc'" "uown pc' \<subseteq> uown pc" and e: "\<And>c. ueffect pc pc' c c"
    and z: "rl_size l' + of_bool (upend pc') = rl_size l + of_bool (upend pc)"
  shows "ustep_ok t fl l m seen pc (Inr (pc', l', m'))"
proof -
  have r: "rl_isReclaimed l' \<Longrightarrow> rl_isReclaimed l \<or> ufrozen l fl" using h(3) by simp
  note q = quiet_ok [OF inv k h(1,2) r v]
  have c: "u_content (l', m') = u_content (l, m)" using q(2) by (simp add: u_obs_def)
  have hd: "uhead l' = uhead l" using h(1) by (auto simp: uhead_def)
  show ?thesis by (rule ustep_okI [where fl' = fl]) (use q(1) e pc s z in \<open>simp add: umoves_def q(2) c insert_absorb hd le_supI1\<close>)
qed

end
