(* ===== verification/Uruv_Conc_Thread.thy ===== *)
theory Uruv_Conc_Thread
  imports Uruv_Conc_Step
begin

text \<open>
  One step of a thread that knows what it should at its point: it does not fail, and the thread knows what it
  should afterwards. First the linking of a node, then the points of the operations in their order.
\<close>

section \<open>Linking a node\<close>

lemma sorted_wrt_into:
  assumes "sorted_wrt (<) (xs @ ys)" and "xs \<noteq> [] \<Longrightarrow> last xs < k" and "ys \<noteq> [] \<Longrightarrow> k < hd ys"
  shows "sorted_wrt (<) (xs @ (k :: 'a :: linorder) # ys)"
proof -
  have s: "sorted_wrt (<) xs" "sorted_wrt (<) ys" "\<forall>x \<in> set xs. \<forall>y \<in> set ys. x < y" using assms(1) by (auto simp: sorted_wrt_append)
  have "x < k" if x: "x \<in> set xs" for x
  proof -
    have n: "xs \<noteq> []" using x by auto
    obtain i where i: "i < length xs" "x = xs ! i" using x by (auto simp: in_set_conv_nth)
    have "xs ! i \<le> last xs"
    proof (cases "i = length xs - 1")
      case False
      then have "xs ! i < xs ! (length xs - 1)" using i by (intro sorted_wrt_nth_less [OF s(1)]) auto
      then show ?thesis using last_conv_nth [OF n] by simp
    qed (use last_conv_nth [OF n] in simp)
    then show ?thesis using assms(2) [OF n] i(2) by simp
  qed
  moreover have "k < y" if "y \<in> set ys" for y
  proof -
    have "hd ys \<le> y" using s(2) that by (cases ys) auto
    moreover have "k < hd ys" using assms(3) that by (cases ys) auto
    ultimately show ?thesis by simp
  qed
  ultimately show ?thesis using s by (auto simp: sorted_wrt_append)
qed

lemma fl_distinct: "uorder t fl l \<Longrightarrow> distinct fl"
proof -
  assume o: "uorder t fl l"
  have "distinct (tl fl)" using ukeys_distinct [OF o] by (simp add: distinct_map)
  then show ?thesis using uorderD(1,2,3) [OF o] by (metis distinct.simps(2) list.collapse)
qed

lemma link_order:
  assumes ord: "uorder t (X @ p # Y) l" and d: "p \<noteq> t" "n \<notin> insert t (set (X @ p # Y))" and p: "p = rl_head l \<or> ukey l p < ukey l n"
    and nx: "unext l n = unext l p" "ukey l n < ukey l (unext l p)"
  shows "uorder t (X @ p # n # Y) (set_word p (clean n) l)"
proof -
  note o = uorderD [OF ord]
  have dist: "distinct (X @ p # Y)" by (rule fl_distinct [OF ord])
  let ?l = "set_word p (clean n) l"
  have nw: "unext ?l a = unext l a" if "a \<noteq> p" for a using that by (simp add: unext_def)
  have np: "unext ?l p = n" by (simp add: unext_def)
  have pn: "n \<noteq> p" using d(2) by auto
  have av: "a \<noteq> p" if "a \<in> set X \<union> set Y" for a using dist that by auto
  have "map (unext ?l) (X @ p # n # Y) = tl (X @ p # n # Y) @ [t]"
    proof (rule succ_insert [OF o(4)])
    show "\<forall>a \<in> set X \<union> set Y. unext ?l a = unext l a" using av nw by blast
  qed (use np nx(1) nw [OF pn] in simp_all)
  moreover have "sorted_wrt (<) (map (ukey ?l) (tl (X @ p # n # Y) @ [t]))"
  proof -
    let ?xs = "map (ukey l) (tl (X @ [p]))" and ?ys = "map (ukey l) (Y @ [t])"
    have e: "tl (X @ p # Y) = tl (X @ [p]) @ Y" "tl (X @ p # n # Y) = tl (X @ [p]) @ n # Y" by (cases X; simp)+
    have s: "sorted_wrt (<) (?xs @ ?ys)" using o(5) unfolding e by simp
    have l: "last ?xs < ukey l n" if "?xs \<noteq> []"
    proof -
      have "X \<noteq> []" using that by auto
      then obtain x X' where X: "X = x # X'" by (cases X) auto
      then have "p \<noteq> rl_head l" using o(3) by auto
      then show ?thesis using p X by simp
    qed
    have h: "ukey l n < hd ?ys" using nx(2) unext_split [OF ord refl] by (cases Y) auto
    have "sorted_wrt (<) (?xs @ ukey l n # ?ys)" by (rule sorted_wrt_into [OF s]) (use l h in auto)
    moreover have "ukey ?l = ukey l" by (rule ext) simp
    ultimately show ?thesis unfolding e(2) by simp
  qed
  moreover have "hd (X @ p # n # Y) = rl_head ?l" using o(2) by (cases X) auto
  moreover have "rl_head ?l \<notin> set (tl (X @ p # n # Y))"
  proof -
    have "rl_head l \<noteq> n" using o(2) d(2) by (cases X) auto
    then show ?thesis using o(3) by (cases X) auto
  qed
  ultimately show ?thesis unfolding uorder_def using o(6,7) by simp
qed

lemma link_ok:
  assumes inv: "uinv t fl l m" and p: "left_of fl l k p" "uword l p = clean r" and r: "k < ukey l r"
    and n: "n \<in> udom l" "n \<notin> insert t (set fl)" "uword l n = clean r" "ukey l n = k"
  shows "\<exists>fl'. ugood t {n} fl l m fl' (set_word p (clean n) l) m \<and> length fl' = Suc (length fl)"
    and "u_content (l, m) k = None" and "u_content (set_word p (clean n) l, m) = (u_content (l, m))(k \<mapsto> uval (l, m) n)"
proof -
  note B = ubaseD [OF uinvD(1) [OF inv]] and W = uwordsD [OF uinvD(3) [OF inv]] and ord = uinvD(2) [OF inv]
  let ?l = "set_word p (clean n) l"
  have pf: "p \<in> set fl" "p = rl_head l \<or> ukey l p < k" using p(1) by (simp_all add: left_of_def)
  then obtain X Y where s: "fl = X @ p # Y" using split_list by metis
  let ?fl = "X @ p # n # Y"
  have pt: "p \<noteq> t" and pd: "p \<in> udom l" using pf(1) B(2,3) by auto
  have nx: "unext l n = unext l p" "unext l p = r" using p(2) n(3) by (simp_all add: unext_def)
  have "uorder t ?fl ?l" by (rule link_order) (use ord s pt n(2,4) pf(2) nx r in \<open>simp_all\<close>)
  moreover have dm: "udom ?l = udom l" by (rule set_dom(1) [OF pd])
  have fl': "set ?fl = insert n (set fl)" using s by auto
  have "\<not> ufrozen l fl" using pf(1) p(2) unfolding ufrozen_def by (metis tptr.sel(3))
  then have "\<not> rl_isReclaimed l" using B(7) by blast
  then have "ubase t ?fl ?l m" unfolding ubase_def fl' dm using B(1-6) n(1,2) by simp
  moreover have "uwords t ?fl ?l m" unfolding uwords_def fl' dm using W(1-3) p(2) n(3) pt W(4) pf(1) by auto
  ultimately have i': "uinv t ?fl ?l m" by (simp add: uinv_def)
  have k: "ukeeps l m ?l m" by (simp add: ukeeps_def dm)
  have pre: "\<exists>B'. ?fl = A @ B' \<and> hd (B' @ [t]) = hd (B @ [t])" if AB: "fl = A @ B" "ufrozen l A" for A B
  proof -
    have "p \<notin> set A" using AB(2) p(2) by (auto simp: ufrozen_def)
    then have "p \<in> set B" using pf(1) AB(1) by auto
    then obtain B1 B2 where b: "B = B1 @ p # B2" using split_list by metis
    have e: "X @ p # Y = (A @ B1) @ p # B2" using AB(1) s b by simp
    have "p \<notin> set X" "p \<notin> set Y" using fl_distinct [OF ord] s by simp_all
    then have "X = A @ B1" "Y = B2" using append_Cons_eq_iff [of p X Y "A @ B1" B2] e by auto
    then show ?thesis using b by (intro exI [of _ "B1 @ p # n # B2"]) (cases B1; simp)
  qed
  have fr: "uword ?l a = uword l a" if "tp_freeze (uword l a)" for a using that p(2) by auto
  have "ugood t {n} fl l m ?fl ?l m"
    unfolding ugood_def fl' using i' k pre fr pf(1) by auto
  then show "\<exists>fl'. ugood t {n} fl l m fl' ?l m \<and> length fl' = Suc (length fl)" using s by (intro exI [of _ ?fl]) simp
  show none: "u_content (l, m) k = None" by (rule u_gap [OF inv pf(1,2)]) (use nx(2) r in simp)
  have hn: "n \<noteq> rl_head l" using B(1) n(2) by auto
  have "unodes ?fl ?l = insert n (unodes fl l)" unfolding unodes_def fl' using hn by auto
  from u_content_gets [OF inv i' this] show "u_content (?l, m) = (u_content (l, m))(k \<mapsto> uval (l, m) n)"
    using n(4) by (simp add: uval_eq)
qed

section \<open>Timestamps\<close>

lemma ukeeps_trans: "ukeeps l m l1 m1 \<Longrightarrow> ukeeps l1 m1 l2 m2 \<Longrightarrow> ukeeps l m l2 m2"
  unfolding ukeeps_def by (metis (no_types, lifting) order_trans subsetD)

lemma stamp_ok:
  assumes "is_ver m p"
  shows "\<exists>m'. set_ts p g m = Inr m' \<and> ukeeps l m l m' \<and> vdom m' = vdom m \<and> vm_brk m' = vm_brk m"
proof -
  have d: "tp_addr p \<in> vdom m" using assms by (simp add: is_ver_def)
  obtain nd where nd: "vm_heap m (tp_addr p) = Some nd" using d by auto
  let ?m = "m\<lparr>vm_heap := (vm_heap m)(tp_addr p \<mapsto> nd\<lparr>vn_ts := g\<rparr>)\<rparr>"
  have "ukeeps l m l ?m" using nd by (auto simp: ukeeps_def is_ver_def vval_def vprev_def)
  moreover have "vdom ?m = vdom m" using nd by auto
  moreover have "set_ts p g m = Inr (if vn_ts nd = - 1 then ?m else m)" by (simp add: set_ts_def v_load [OF assms] nd)
  ultimately show ?thesis by (cases "vn_ts nd = - 1") auto
qed

lemma newver_ok:
  assumes b: "vdom m \<subseteq> {1..<vm_brk m}" and z: "0 < vm_brk m"
  shows "ukeeps l m l (snd (Vnode_new v q m))" "is_ver (snd (Vnode_new v q m)) (fst (Vnode_new v q m))"
    "vval (snd (Vnode_new v q m)) (fst (Vnode_new v q m)) = v" "vprev (snd (Vnode_new v q m)) (fst (Vnode_new v q m)) = q"
    "vdom (snd (Vnode_new v q m)) \<subseteq> {1..<vm_brk (snd (Vnode_new v q m))}"
proof -
  have f: "p \<noteq> vm_brk m" if "p \<in> vdom m" for p using that b by auto
  then show "ukeeps l m l (snd (Vnode_new v q m))"
    by (auto simp: ukeeps_def Vnode_new_def is_ver_def vval_def vprev_def)
  show "is_ver (snd (Vnode_new v q m)) (fst (Vnode_new v q m))" "vval (snd (Vnode_new v q m)) (fst (Vnode_new v q m)) = v"
    "vprev (snd (Vnode_new v q m)) (fst (Vnode_new v q m)) = q"
    by (simp_all add: Vnode_new_def is_ver_def vval_def vprev_def)
  show "vdom (snd (Vnode_new v q m)) \<subseteq> {1..<vm_brk (snd (Vnode_new v q m))}"
    using b z by (auto simp: Vnode_new_def)
qed

lemma uinv_brk: "uinv t fl l m \<Longrightarrow> 0 < vm_brk m" "uinv t fl l m \<Longrightarrow> 0 < rl_brk l"
proof -
  assume inv: "uinv t fl l m"
  note B = ubaseD [OF uinvD(1) [OF inv]]
  have "is_ver m (uhead l t)" using uwordsD(2) [OF uinvD(3) [OF inv]] B(4) by blast
  then have "tp_addr (uhead l t) \<in> {1..<vm_brk m}" using B(6) by (auto simp: is_ver_def)
  then show "0 < vm_brk m" by simp
  show "0 < rl_brk l" using B(4,5) by fastforce
qed

text \<open>What follows \<open>init_ts\<close>.\<close>

lemma u_after_ok:
  assumes inv: "uinv t fl l m" and v: "is_ver m p" and nx: "unx_ok fl l seen nx"
  shows "\<exists>pc' m'. u_after nx p m = Inr (pc', m') \<and> ukeeps l m l m' \<and> vdom m' \<subseteq> {1..<vm_brk m'}
    \<and> upc_ok t fl l m' seen pc' \<and> uown pc' = {} \<and> upend pc' = nx_pend nx"
proof -
  note B = ubaseD [OF uinvD(1) [OF inv]]
  show ?thesis
  proof (cases nx)
    case (NCs k w a old)
    have a: "at_key fl l k a" "old \<noteq> w" using nx NCs by simp_all
    note N = newver_ok [OF B(6) uinv_brk(1) [OF inv]]
    consider "vval m p \<noteq> old" | "vval m p = old" by blast
    then show ?thesis
    proof cases
      case 1
      then show ?thesis using NCs a B(6) by (simp add: v_load [OF v] v_sel)
    next
      case 2
      then have "u_after nx p m = Inr (UCas1 k w a p (fst (Vnode_new w p m)), snd (Vnode_new w p m))"
        using NCs a(2) by (simp add: v_load [OF v] v_sel case_prod_unfold Let_def)
      moreover have "upc_ok t fl l (snd (Vnode_new w p m)) seen (UCas1 k w a p (fst (Vnode_new w p m)))"
        using a N(2-4) 2 ukeepsD(4,5) [OF N(1)] v by simp
      ultimately show ?thesis using N(1,5) NCs by simp
    qed
  qed (use nx B(6) in simp_all)
qed

lemma ueffect_plain [simp]: "ueffect (UInit nx p) pc' c c' \<longleftrightarrow> c' = c" "ueffect (UStamp nx p g) pc' c c' \<longleftrightarrow> c' = c"
    "ueffect (UClock nx p) pc' c c' \<longleftrightarrow> c' = c"
  by (simp_all add: ueffect_def)

lemma step_init:
  assumes inv: "uinv t fl l m" and s: "u_obs (l, m) \<in> seen" and pc: "upc_ok t fl l m seen (UInit nx p)"
  shows "ustep_ok t fl l m seen (UInit nx p) (u_step (UInit nx p) (l, m))"
proof -
  have v: "is_ver m p" and nx: "unx_ok fl l seen nx" using pc by simp_all
  obtain nd where nd: "vn_load m p = Inr nd" using v_load [OF v] by blast
  show ?thesis
  proof (cases "vn_ts nd = - 1")
    case True
    then have run: "u_step (UInit nx p) (l, m) = Inr (UClock nx p, l, m)" using nd by simp
    show ?thesis unfolding run by (rule ustay [OF inv s]) (use v nx in simp_all)
  next
    case False
    obtain pc' m' where a: "u_after nx p m = Inr (pc', m')" "ukeeps l m l m'" "vdom m' \<subseteq> {1..<vm_brk m'}"
      "upc_ok t fl l m' seen pc'" "uown pc' = {}" "upend pc' = nx_pend nx" using u_after_ok [OF inv v nx] by blast
    have run: "u_step (UInit nx p) (l, m) = Inr (pc', l, m')" using nd False a(1) by simp
    show ?thesis unfolding run by (rule uquiet [OF inv a(2) _ _ _ a(3) s a(4)]) (use a in simp_all)
  qed
qed

lemma step_clock:
  assumes inv: "uinv t fl l m" and s: "u_obs (l, m) \<in> seen" and pc: "upc_ok t fl l m seen (UClock nx p)"
    and g: "\<exists>g. get_latest_timestamp (vm_tracker m) = Inr g"
  shows "ustep_ok t fl l m seen (UClock nx p) (u_step (UClock nx p) (l, m))"
proof -
  obtain ts where ts: "get_latest_timestamp (vm_tracker m) = Inr ts" using g by blast
  have run: "u_step (UClock nx p) (l, m) = Inr (UStamp nx p ts, l, m)" using ts by simp
  show ?thesis unfolding run by (rule ustay [OF inv s]) (use pc in simp_all)
qed

lemma step_stamp:
  assumes inv: "uinv t fl l m" and s: "u_obs (l, m) \<in> seen" and pc: "upc_ok t fl l m seen (UStamp nx p g)"
  shows "ustep_ok t fl l m seen (UStamp nx p g) (u_step (UStamp nx p g) (l, m))"
proof -
  have v: "is_ver m p" and nx: "unx_ok fl l seen nx" using pc by simp_all
  obtain m1 where m1: "set_ts p g m = Inr m1" "ukeeps l m l m1" "vdom m1 = vdom m" "vm_brk m1 = vm_brk m" using stamp_ok [OF v] by blast
  have b: "vdom m1 \<subseteq> {1..<vm_brk m1}" using ubaseD(6) [OF uinvD(1) [OF inv]] m1(3,4) by simp
  have inv1: "uinv t fl l m1" by (rule ugoodD(1) [OF quiet_ok(1) [OF inv m1(2) refl refl disjI1 b]])
  obtain pc' m' where a: "u_after nx p m1 = Inr (pc', m')" "ukeeps l m1 l m'" "vdom m' \<subseteq> {1..<vm_brk m'}"
    "upc_ok t fl l m' seen pc'" "uown pc' = {}" "upend pc' = nx_pend nx" using u_after_ok [OF inv1 ukeepsD(4) [OF m1(2) v] nx] by blast
  have run: "u_step (UStamp nx p g) (l, m) = Inr (pc', l, m')" using m1(1) a(1) by simp
  show ?thesis unfolding run by (rule uquiet [OF inv ukeeps_trans [OF m1(2) a(2)] _ _ _ a(3) s a(4)]) (use a in simp_all)
qed

section \<open>insert\<close>

lemma uval_seen: "uinv t fl l m \<Longrightarrow> u_obs (l, m) \<in> seen \<Longrightarrow> at_key fl l k a \<Longrightarrow> saw seen k (uval (l, m) a)"
  unfolding at_key_def using u_content_at saw_now(1) by metis

lemma at_key_dom: "uinv t fl l m \<Longrightarrow> at_key fl l k a \<Longrightarrow> a \<in> udom l"
  using unodes_dom [OF uinvD(1)] by (fastforce simp: at_key_def unodes_def)

lemma uhead_ver: "uinv t fl l m \<Longrightarrow> a \<in> udom l \<Longrightarrow> is_ver m (uhead l a)"
  using uwordsD(2) [OF uinvD(3)] by blast

lemma unx_mem: "uinv t fl l m \<Longrightarrow> left_of fl l k a \<Longrightarrow> unext l a \<in> insert t (unodes fl l) \<and> (k < ukey l (unext l a) \<longrightarrow> u_content (l, m) k = None)"
  unfolding left_of_def using unext_in [OF uinvD(2)] u_gap by blast

lemma step_ins0:
  assumes inv: "uinv t fl l m" and s: "u_obs (l, m) \<in> seen" and pc: "upc_ok t fl l m seen (UIns0 k v)"
    and z: "rl_size l < length fl"
  shows "ustep_ok t fl l m seen (UIns0 k v) (u_step (UIns0 k v) (l, m))"
proof -
  have "saw_full seen" if "threshhold \<le> rl_size l"
  proof -
    have "rl_size l \<le> card (dom (u_content (l, m)))" unfolding u_content_card [OF inv] using z by simp
    then have "threshhold \<le> card (dom (u_content (l, m)))" using that by linarith
    then show ?thesis using s unfolding saw_full_def u_obs_def by (metis fst_conv)
  qed
  then show ?thesis unfolding u_step.simps by (intro ustay [OF inv s]) (use pc in \<open>simp_all add: ueffect_def\<close>)
qed

lemma step_find01:
  assumes inv: "uinv t fl l m" and s: "u_obs (l, m) \<in> seen" and k: "k < key_max"
  shows "ustep_ok t fl l m seen (UFind0 k v) (u_step (UFind0 k v) (l, m))"
    and "ustep_ok t fl l m seen (UFind1 k v) (u_step (UFind1 k v) (l, m))"
proof -
  note B = ubaseD [OF uinvD(1) [OF inv]]
  have d: "rl_head l \<in> udom l" using B(1,3) by blast
  let ?pc = "if tp_freeze (uword l (rl_head l)) then UDone (UInsert k v) (UInt (- 1)) else UFind1 k v"
  have run: "u_step (UFind0 k v) (l, m) = Inr (?pc, l, m)" using d by (simp add: u_load u_sel)
  show "ustep_ok t fl l m seen (UFind0 k v) (u_step (UFind0 k v) (l, m))"
    unfolding run by (rule ustay [OF inv s]) (use k in \<open>simp_all add: ueffect_def\<close>)
  have lf: "left_of fl l k (rl_head l)" using B(1) by (simp add: left_of_def)
  note n = unx_mem [OF inv lf]
  have run: "u_step (UFind1 k v) (l, m) = Inr (UFind2 k v (rl_head l) (unext l (rl_head l)), l, m)"
    using d by (simp add: u_load u_sel unext_def tp_defs)
  show "ustep_ok t fl l m seen (UFind1 k v) (u_step (UFind1 k v) (l, m))"
    unfolding run by (rule ustay [OF inv s]) (use k lf n s in \<open>auto simp: ueffect_def saw_now(2)\<close>)
qed

lemma found_ok:
  assumes inv: "uinv t fl l m" and s: "u_obs (l, m) \<in> seen" and p: "k < key_max" "left_of fl l k left"
    "right \<in> insert t (unodes fl l)" "k < ukey l right" "v \<noteq> tombstone"
  shows "\<exists>l' m'. u_found k v left right (ukey l right) (l, m) = Inr (ULink k v left right (rl_brk l), l', m')
    \<and> ugood t {} fl l m fl l' m' \<and> u_obs (l', m') = u_obs (l, m) \<and> upc_ok t fl l' m' seen (ULink k v left right (rl_brk l))
    \<and> rl_brk l \<in> udom l' - udom l \<and> rl_size l' = rl_size l \<and> (\<forall>a \<in> set fl. uhead l' a = uhead l a)"
proof -
  note B = ubaseD [OF uinvD(1) [OF inv]] and z = uinv_brk [OF inv]
  note N = newver_ok [OF B(6) z(1)]
  let ?n = "rl_brk l" and ?q = "fst (Vnode_new v null_ptr m)"
  define l' where "l' = l\<lparr>rl_heap := (rl_heap l)(?n \<mapsto> \<lparr>rn_key = k, rn_vhead = ?q, rn_next = clean right, rn_del = 0\<rparr>), rl_brk := Suc ?n\<rparr>"
  define m' where "m' = snd (Vnode_new v null_ptr m)"
  have fresh: "?n \<notin> udom l" using B(5) by auto
  then have ne: "a \<noteq> ?n" if "a \<in> udom l" for a using that by blast
  have run: "u_found k v left right (ukey l right) (l, m) = Inr (ULink k v left right ?n, l', m')"
    using p(4,5) by (simp add: u_found_def rl_Node_init_def rl_load_def rl_set_def Let_def case_prod_unfold l'_def m'_def)
  have old: "uword l' a = uword l a" "ukey l' a = ukey l a" "uhead l' a = uhead l a" if "a \<in> udom l" for a
    using ne [OF that] by (auto simp: l'_def uword_def ukey_def uhead_def)
  have sel: "udom l' = insert ?n (udom l)" "uword l' ?n = clean right" "ukey l' ?n = k" "uhead l' ?n = ?q"
    by (auto simp: l'_def uword_def ukey_def uhead_def)
  have k: "ukeeps l m l' m'" using N(1) [of l] old by (auto simp: ukeeps_def m'_def l'_def)
  have b: "udom l' \<subseteq> {1..<rl_brk l'}" "rl_isReclaimed l' = rl_isReclaimed l" "rl_size l' = rl_size l"
    unfolding sel(1) using B(5) z(2) by (auto simp: l'_def)
  have v: "is_ver m' (uhead l' ?n)" "vdom m' \<subseteq> {1..<vm_brk m'}" "uval (l', m') ?n = v" unfolding sel(4) uval_eq m'_def using N(2,3,5) by simp_all
  have q: "ugood t mine fl l m fl l' m'" "u_obs (l', m') = u_obs (l, m)" "?n \<notin> insert t (set fl)" for mine
    using build_ok [OF inv k fresh sel(1) v(1) _ b(1) v(2) b(2)] old(1,3) by blast+
  have "left_of fl l' k left" by (rule left_mono [OF inv q(1) p(2)])
  then have "upc_ok t fl l' m' seen (ULink k v left right ?n)" using p(1,4) right_mono [OF inv q(1) p(3)] q(3) sel v(3) by simp
  moreover have "\<forall>a \<in> set fl. uhead l' a = uhead l a" using old(3) subsetD [OF B(3)] by blast
  moreover have "?n \<in> udom l' - udom l" using fresh sel(1) by blast
  ultimately show ?thesis using run q(1,2) b(3) by (intro exI [of _ l'] exI [of _ m'] conjI)
qed

lemma u_step_find2:
  assumes inv: "uinv t fl l m" and s: "u_obs (l, m) \<in> seen" and pc: "upc_ok t fl l m seen (UFind2 k v left right)"
  shows "ustep_ok t fl l m seen (UFind2 k v left right) (u_step (UFind2 k v left right) (l, m))"
proof -
  have p: "k < key_max" "left_of fl l k left" "right \<in> insert t (unodes fl l)" "k < ukey l right \<Longrightarrow> saw_none seen k" using pc by simp_all
  note W = uwordsD [OF uinvD(3) [OF inv]] and O = uorderD [OF uinvD(2) [OF inv]]
  have rf: "right \<in> insert t (set fl)" using p(3) by (auto simp: unodes_def)
  then have d: "right \<in> udom l" by (rule unodes_dom [OF uinvD(1) [OF inv]])
  note run = u_step.simps(5) [of k v left right "(l, m)", unfolded fst_conv u_load [OF d] bind_res_simps u_sel]
  show ?thesis
  proof (cases "tp_freeze (uword l right)")
    case True
    then have "right \<noteq> t" using W(1) by auto
    then have "tp_freeze (uword l (rl_head l))" using W(4) rf True by blast
    then show ?thesis unfolding run if_P [OF True] by (intro ustay [OF inv s]) (simp_all add: ueffect_def)
  next
    case nf: False
    show ?thesis
    proof (cases "k \<le> ukey l right")
      case True
      then consider "ukey l right = k" | "k < ukey l right" "v = tombstone" | "k < ukey l right" "v \<noteq> tombstone" by fastforce
      then show ?thesis
      proof cases
        case 1
        then have "right \<noteq> t" using O(6) p(1) by auto
        then have a: "at_key fl l k right" using p(3) 1 by (simp add: at_key_def)
        have "u_step (UFind2 k v left right) (l, m) = Inr (URead0 k v right, l, m)" unfolding run using nf True 1 by (simp add: u_found_def)
        then show ?thesis using a by (simp only:) (intro ustay [OF inv s]; simp add: ueffect_def)
      next
        case 2
        then have "u_step (UFind2 k v left right) (l, m) = Inr (UDone (UInsert k v) (UInt 0), l, m)"
          unfolding run using nf True by (simp add: u_found_def)
        then show ?thesis using p(4) [OF 2(1)] 2(2) by (simp only:) (intro ustay [OF inv s]; simp add: ueffect_def)
      next
        case 3
        obtain l' m' where f: "u_found k v left right (ukey l right) (l, m) = Inr (ULink k v left right (rl_brk l), l', m')"
          "ugood t {} fl l m fl l' m'" "u_obs (l', m') = u_obs (l, m)" "upc_ok t fl l' m' seen (ULink k v left right (rl_brk l))"
          "rl_brk l \<in> udom l' - udom l" "rl_size l' = rl_size l" "\<forall>a \<in> set fl. uhead l' a = uhead l a"
          using found_ok [OF inv s p(1-3) 3] by blast
        have r: "u_step (UFind2 k v left right) (l, m) = Inr (ULink k v left right (rl_brk l), l', m')" unfolding run using nf True f(1) by simp
        have c: "u_content (l', m') = u_content (l, m)" using f(3) by (simp add: u_obs_def)
        show ?thesis unfolding r
          by (rule ustep_okI [where fl' = fl]) (use f(2-7) c s in \<open>simp add: umoves_def insert_absorb ueffect_def del: upc_ok.simps\<close>)
      qed
    next
      case False
      then have "right \<noteq> t" using O(6) p(1) by auto
      have lf: "left_of fl l k right" using rf not_le [THEN iffD1, OF False] \<open>right \<noteq> t\<close> by (simp add: left_of_def)
      note n = unx_mem [OF inv lf]
      have "u_step (UFind2 k v left right) (l, m) = Inr (UFind2 k v right (unext l right), l, m)"
        unfolding run using nf False by (simp add: unext_def tp_defs)
      then show ?thesis using p(1) lf n s by (simp only:) (intro ustay [OF inv s]; auto simp: ueffect_def saw_now(2))
    qed
  qed
qed

lemma step_link:
  assumes inv: "uinv t fl l m" and s: "u_obs (l, m) \<in> seen" and pc: "upc_ok t fl l m seen (ULink k v prev right n)"
  shows "ustep_ok t fl l m seen (ULink k v prev right n) (u_step (ULink k v prev right n) (l, m))"
proof -
  have p: "k < key_max" "left_of fl l k prev" "right \<in> insert t (unodes fl l)" "k < ukey l right" "n \<in> udom l" "n \<notin> insert t (set fl)"
    "uword l n = clean right" "ukey l n = k" "uval (l, m) n = v" using pc by simp_all
  have d: "prev \<in> udom l" using p(2) unodes_dom [OF uinvD(1) [OF inv], of prev] by (simp add: left_of_def)
  show ?thesis
  proof (cases "uword l prev = clean right")
    case True
    let ?l = "set_word prev (clean n) l"
    note L = link_ok [OF inv p(2) True p(4-8)]
    obtain fl' where g: "ugood t {n} fl l m fl' ?l m" "length fl' = Suc (length fl)" using L(1) by blast
    have r: "u_step (ULink k v prev right n) (l, m) = Inr (ULinked k v n, ?l, m)" using True by (simp add: u_cas [OF d])
    have "saw (insert (u_obs (?l, m)) seen) k v" by (rule saw_now(1) [OF insertI1]) (simp add: L(3) p(9))
    moreover have "saw_none (insert (u_obs (?l, m)) seen) k" by (rule saw_insert(2) [OF saw_now(2) [OF s L(2)]])
    ultimately show ?thesis unfolding r
      by (intro ustep_okI [where fl' = fl']) (use g L(2,3) p(5,9) set_dom(1) [OF d] in \<open>simp add: umoves_def ueffect_def\<close>)
  next
    case False
    then have r: "u_step (ULink k v prev right n) (l, m) = Inr (UFind0 k v, l, m)" by (simp add: u_cas [OF d])
    show ?thesis unfolding r by (rule ustay [OF inv s]) (use p(1) in \<open>simp_all add: ueffect_def\<close>)
  qed
qed

lemma step_linked:
  assumes inv: "uinv t fl l m" and s: "u_obs (l, m) \<in> seen" and pc: "upc_ok t fl l m seen (ULinked k v n)"
  shows "ustep_ok t fl l m seen (ULinked k v n) (u_step (ULinked k v n) (l, m))"
proof -
  have p: "n \<in> udom l" "saw_none seen k" "saw seen k v" using pc by simp_all
  have r: "u_step (ULinked k v n) (l, m) = Inr (UInit (NLnk k v) (uhead l n), l, m)" using p(1) by (simp add: u_load u_sel)
  show ?thesis unfolding r by (rule ustay [OF inv s]) (use p uhead_ver [OF inv p(1)] in \<open>simp_all add: ueffect_def\<close>)
qed

lemma step_size:
  assumes inv: "uinv t fl l m" and s: "u_obs (l, m) \<in> seen" and pc: "upc_ok t fl l m seen (USize k v)"
  shows "ustep_ok t fl l m seen (USize k v) (u_step (USize k v) (l, m))"
proof -
  let ?l = "l\<lparr>rl_size := rl_size l + 1\<rparr>"
  have k: "ukeeps l m ?l m" by (simp add: ukeeps_def ukey_def)
  show ?thesis unfolding u_step.simps fst_conv snd_conv
    by (rule uquiet [OF inv k _ _ _ ubaseD(6) [OF uinvD(1) [OF inv]] s]) (use pc in \<open>simp_all add: ueffect_def\<close>)
qed

lemma step_read:
  assumes inv: "uinv t fl l m" and s: "u_obs (l, m) \<in> seen" and a: "at_key fl l k a"
  shows "ustep_ok t fl l m seen (URead0 k v a) (u_step (URead0 k v a) (l, m))"
    and "ustep_ok t fl l m seen (URead1 k v a) (u_step (URead1 k v a) (l, m))"
    and "old \<noteq> v \<Longrightarrow> ustep_ok t fl l m seen (UCas0 k v a old) (u_step (UCas0 k v a old) (l, m))"
    and "ustep_ok t fl l m seen (UCheck k v a) (u_step (UCheck k v a) (l, m))"
proof -
  have d: "a \<in> udom l" by (rule at_key_dom [OF inv a])
  have h: "is_ver m (uhead l a)" by (rule uhead_ver [OF inv d])
  then have c: "tp_unset_mark (uhead l a) = uhead l a" "\<not> tp_mark (uhead l a)" by (cases "uhead l a"; simp add: is_ver_def tp_defs)+
  have r: "u_step (URead0 k v a) (l, m) = Inr (UInit (NRd k v a) (uhead l a), l, m)" using d by (simp add: u_load u_sel)
  show "ustep_ok t fl l m seen (URead0 k v a) (u_step (URead0 k v a) (l, m))"
    unfolding r by (rule ustay [OF inv s]) (use a h in \<open>simp_all add: ueffect_def\<close>)
  have r: "u_step (URead1 k v a) (l, m)
      = Inr (if uval (l, m) a = v then UDone (UInsert k v) (UInt 0) else UCas0 k v a (uval (l, m) a), l, m)"
    using d h by (simp add: u_load u_sel v_load v_sel uval_eq)
  show "ustep_ok t fl l m seen (URead1 k v a) (u_step (URead1 k v a) (l, m))"
    unfolding r by (rule ustay [OF inv s]) (use a uval_seen [OF inv s a] in \<open>auto simp: ueffect_def\<close>)
  have r: "u_step (UCas0 k v a old) (l, m) = Inr (UInit (NCs k v a old) (uhead l a), l, m)" using d c by (simp add: u_load u_sel)
  show "old \<noteq> v \<Longrightarrow> ustep_ok t fl l m seen (UCas0 k v a old) (u_step (UCas0 k v a old) (l, m))"
    unfolding r by (rule ustay [OF inv s]) (use a h in \<open>simp_all add: ueffect_def\<close>)
  have r: "u_step (UCheck k v a) (l, m) = Inr (URead0 k v a, l, m)" using d c by (simp add: u_load u_sel)
  show "ustep_ok t fl l m seen (UCheck k v a) (u_step (UCheck k v a) (l, m))"
    unfolding r by (rule ustay [OF inv s]) (use a in \<open>simp_all add: ueffect_def\<close>)
qed

lemma step_cas1:
  assumes inv: "uinv t fl l m" and s: "u_obs (l, m) \<in> seen" and pc: "upc_ok t fl l m seen (UCas1 k v a h n)"
  shows "ustep_ok t fl l m seen (UCas1 k v a h n) (u_step (UCas1 k v a h n) (l, m))"
proof -
  have p: "at_key fl l k a" "is_ver m h" "is_ver m n" "vval m n = v" "vprev m n = h" "vval m h \<noteq> v" using pc by simp_all
  have d: "a \<in> udom l" by (rule at_key_dom [OF inv p(1)])
  have a: "a \<in> unodes fl l" "ukey l a = k" using p(1) by (simp_all add: at_key_def)
  show ?thesis
  proof (cases "uhead l a = h")
    case True
    let ?l = "set_vhead a n l"
    note V = vhead_ok [OF inv a(1) p(3)]
    have r: "u_step (UCas1 k v a h n) (l, m) = Inr (UInit (NUpd k v) n, ?l, m)"
      using d True by (simp add: u_load u_sel set_vhead_def)
    have c: "u_content (l, m) k = Some (vval m h)" using u_content_at [OF inv a(1)] a(2) True by (simp add: uval_eq)
    have "saw (insert (u_obs (?l, m)) seen) k v" by (rule saw_now(1) [OF insertI1]) (simp add: V(2) p(4) a(2))
    then show ?thesis unfolding r
      by (intro ustep_okI [where fl' = fl]) (use V p a(2) True c in \<open>auto simp: umoves_def ueffect_def\<close>)
  next
    case False
    then have r: "u_step (UCas1 k v a h n) (l, m) = Inr (UCheck k v a, l, m)" using d by (simp add: u_load u_sel)
    show ?thesis unfolding r by (rule ustay [OF inv s]) (use p(1) in \<open>simp_all add: ueffect_def\<close>)
  qed
qed

section \<open>search\<close>

lemma saw_none_other: "saw_none seen k \<Longrightarrow> saw_other seen k v"
  unfolding saw_none_def saw_other_def by (metis option.distinct(1))

lemma step_srch0:
  assumes inv: "uinv t fl l m" and s: "u_obs (l, m) \<in> seen" and pc: "upc_ok t fl l m seen (USrch0 k v cur)"
  shows "ustep_ok t fl l m seen (USrch0 k v cur) (u_step (USrch0 k v cur) (l, m))"
proof -
  have p: "0 < k" "k < key_max" "cur \<in> insert t (set fl)" "k < ukey l cur \<Longrightarrow> saw_none seen k" using pc by simp_all
  note O = uorderD [OF uinvD(2) [OF inv]]
  have d: "cur \<in> udom l" by (rule unodes_dom [OF uinvD(1) [OF inv] p(3)])
  note run = u_step.simps(17) [of k v cur "(l, m)", unfolded fst_conv u_load [OF d] bind_res_simps u_sel]
  consider "ukey l cur < k" | "ukey l cur = k" | "k < ukey l cur" by fastforce
  then show ?thesis
  proof cases
    case 1
    have "cur \<noteq> t" using 1 O(6) p(2) by auto
    then have lf: "left_of fl l k cur" using p(3) 1 by (simp add: left_of_def)
    note n = unx_mem [OF inv lf]
    have "u_step (USrch0 k v cur) (l, m) = Inr (USrch0 k v (unext l cur), l, m)" unfolding run using 1 by (simp add: unext_def tp_defs)
    moreover have "unext l cur \<in> insert t (set fl)" using n by (auto simp: unodes_def)
    ultimately show ?thesis using p(1,2) n s by (simp only:) (intro ustay [OF inv s]; auto simp: ueffect_def saw_now(2))
  next
    case 2
    have "cur \<noteq> t" "cur \<noteq> rl_head l" using 2 O(6,7) p(1,2) by auto
    then have a: "at_key fl l k cur" using p(3) 2 by (simp add: at_key_def unodes_def)
    have "u_step (USrch0 k v cur) (l, m) = Inr (USrch1 k v cur, l, m)" unfolding run using 2 by simp
    then show ?thesis using a by (simp only:) (intro ustay [OF inv s]; simp add: ueffect_def)
  next
    case 3
    then have r: "u_step (USrch0 k v cur) (l, m) = Inr (UDone (USearch k v) (UBool False), l, m)" unfolding run by auto
    have "saw_other seen k v" using p(4) [OF 3] by (rule saw_none_other)
    then show ?thesis unfolding r by (intro ustay [OF inv s]) (simp_all add: ueffect_def)
  qed
qed

lemma step_srch12:
  assumes inv: "uinv t fl l m" and s: "u_obs (l, m) \<in> seen" and a: "at_key fl l k cur"
  shows "ustep_ok t fl l m seen (USrch1 k v cur) (u_step (USrch1 k v cur) (l, m))"
    and "saw seen k v \<Longrightarrow> ustep_ok t fl l m seen (USrch2 k v cur) (u_step (USrch2 k v cur) (l, m))"
proof -
  have d: "cur \<in> udom l" by (rule at_key_dom [OF inv a])
  have h: "is_ver m (uhead l cur)" by (rule uhead_ver [OF inv d])
  have cur: "cur \<in> unodes fl l" "ukey l cur = k" "cur \<in> set fl" using a by (simp_all add: at_key_def unodes_def)
  have r: "u_step (USrch1 k v cur) (l, m)
      = Inr (if uval (l, m) cur = v then USrch2 k v cur else UDone (USearch k v) (UBool False), l, m)"
    using d h by (simp add: u_load u_sel v_load v_sel uval_eq)
  have "u_content (l, m) k = Some (uval (l, m) cur)" using u_content_at [OF inv cur(1)] cur(2) by simp
  then have "saw seen k (uval (l, m) cur)" "uval (l, m) cur \<noteq> v \<Longrightarrow> saw_other seen k v"
    using saw_now(1,3) [OF s] by auto
  then show "ustep_ok t fl l m seen (USrch1 k v cur) (u_step (USrch1 k v cur) (l, m))"
    unfolding r using a by (intro ustay [OF inv s]) (auto simp: ueffect_def)
  have "\<not> tp_mark (uword l cur)" using uwordsD(3) [OF uinvD(3) [OF inv]] cur(3) by blast
  then have r: "u_step (USrch2 k v cur) (l, m) = Inr (UDone (USearch k v) (UBool True), l, m)" using d by (simp add: u_load u_sel)
  show "saw seen k v \<Longrightarrow> ustep_ok t fl l m seen (USrch2 k v cur) (u_step (USrch2 k v cur) (l, m))"
    unfolding r by (rule ustay [OF inv s]) (simp_all add: ueffect_def)
qed

section \<open>collect\<close>

lemma ucol_dom: "uinv t fl l m \<Longrightarrow> ucol t fl l m seen left acc \<Longrightarrow> left \<in> udom l"
  using ucol_in unodes_dom [OF uinvD(1)] by blast

lemma ucol_split:
  assumes inv: "uinv t fl l m" and c: "ucol t fl l m seen left acc" and n: "left \<noteq> t"
  obtains A B where "fl = A @ left # B" "ufrozen l A" "gathered l m seen A acc" "A = [] \<longleftrightarrow> left = rl_head l"
    "left = rl_head l \<or> tp_freeze (uword l (rl_head l))"
proof -
  obtain A B where s: "fl = A @ B" "ufrozen l A" "left = hd (B @ [t])" "gathered l m seen A acc" using c by (auto simp: ucol_def)
  obtain B' where B: "B = left # B'" using s(3) n by (cases B) auto
  note O = uorderD [OF uinvD(2) [OF inv]]
  have e: "A = [] \<longleftrightarrow> left = rl_head l" using s(1) B O(2,3) by (cases A) auto
  have "left = rl_head l \<or> tp_freeze (uword l (rl_head l))"
  proof (cases A)
    case (Cons x X)
    then have "rl_head l \<in> set A" using s(1) O(2) by simp
    then show ?thesis using s(2) by (simp add: ufrozen_def)
  qed (use e in simp)
  then show ?thesis using that s B e by blast
qed

lemma step_col0:
  assumes inv: "uinv t fl l m" and s: "u_obs (l, m) \<in> seen"
  shows "ustep_ok t fl l m seen UCol0 (u_step UCol0 (l, m))"
proof -
  note B = ubaseD [OF uinvD(1) [OF inv]] and O = uorderD [OF uinvD(2) [OF inv]]
  have c: "ucol t fl l m seen (rl_head l) []" unfolding ucol_def
    using O(1,2) by (intro exI [of _ "[]"] exI [of _ fl]) (simp add: ufrozen_def gathered_def)
  have n: "rl_head l \<noteq> t" using B(1,2) by blast
  show ?thesis unfolding u_step.simps fst_conv
    by (rule ustay [OF inv s]) (use c n in \<open>simp_all add: ueffect_def\<close>)
qed

lemma step_colH:
  assumes inv: "uinv t fl l m" and s: "u_obs (l, m) \<in> seen" and c: "ucol t fl l m seen left acc" and n: "left \<noteq> rl_head l"
  shows "ustep_ok t fl l m seen (UColH left acc) (u_step (UColH left acc) (l, m))"
proof -
  have d: "left \<in> udom l" by (rule ucol_dom [OF inv c])
  note run = u_step.simps(21) [of left acc "(l, m)", unfolded fst_conv u_load [OF d] bind_res_simps u_sel]
  show ?thesis
  proof (cases "left = t")
    case True
    then have "u_step (UColH left acc) (l, m) = Inr (UDone UCollect (UList acc), l, m)"
      unfolding run using uwordsD(1) [OF uinvD(3) [OF inv]] by (simp add: tp_defs)
    then show ?thesis using c True by (simp only:) (intro ustay [OF inv s]; simp add: ueffect_def)
  next
    case False
    then have "left \<in> set fl" using ucol_in [OF inv c] by simp
    then have "unext l left \<in> udom l" using unext_in [OF uinvD(2) [OF inv]] unodes_dom [OF uinvD(1) [OF inv]] by (fastforce simp: unodes_def)
    then have "0 < tp_addr (uword l left)" using udom_pos [OF uinvD(1) [OF inv]] by (simp add: unext_def)
    then have "u_step (UColH left acc) (l, m) = Inr (UColT left acc, l, m)" unfolding run by (simp add: tp_defs)
    then show ?thesis using c False by (simp only:) (intro ustay [OF inv s]; simp add: ueffect_def)
  qed
qed

lemma step_colTL:
  assumes inv: "uinv t fl l m" and s: "u_obs (l, m) \<in> seen" and c: "ucol t fl l m seen left acc" and n: "left \<noteq> t"
  shows "ustep_ok t fl l m seen (UColT left acc) (u_step (UColT left acc) (l, m))"
    and "ustep_ok t fl l m seen (UColL left acc) (u_step (UColL left acc) (l, m))"
    and "ustep_ok t fl l m seen (UColX left cn acc) (u_step (UColX left cn acc) (l, m))"
proof -
  have d: "left \<in> udom l" by (rule ucol_dom [OF inv c])
  have r: "u_step (UColT left acc) (l, m) = Inr (if tp_freeze (uword l left) then UColV left acc else UColL left acc, l, m)"
    using d by (simp add: u_load u_sel)
  show "ustep_ok t fl l m seen (UColT left acc) (u_step (UColT left acc) (l, m))"
    unfolding r by (rule ustay [OF inv s]) (use c n in \<open>auto simp: ueffect_def\<close>)
  have r: "u_step (UColL left acc) (l, m) = Inr (UColX left (uword l left) acc, l, m)" using d by (simp add: u_load u_sel)
  show "ustep_ok t fl l m seen (UColL left acc) (u_step (UColL left acc) (l, m))"
    unfolding r by (rule ustay [OF inv s]) (use c n in \<open>auto simp: ueffect_def\<close>)
  show "ustep_ok t fl l m seen (UColX left cn acc) (u_step (UColX left cn acc) (l, m))"
  proof (cases "uword l left = cn")
    case True
    let ?l = "set_word left (tp_set_freeze (uword l left)) l"
    have lf: "left \<in> set fl" using ucol_in [OF inv c] n by simp
    have h: "left = rl_head l \<or> tp_freeze (uword l (rl_head l))" by (rule ucol_split [OF inv c n]) blast
    note F = freeze_ok [OF inv lf h]
    have r: "u_step (UColX left cn acc) (l, m) = Inr (UColV left acc, ?l, m)" using True by (simp add: u_cas [OF d])
    have e: "u_content (?l, m) = u_content (l, m)" using F(2) by (simp add: u_obs_def)
    show ?thesis unfolding r
      by (rule ustep_okI [where fl' = fl])
        (use F e ucol_mono [OF inv F(1) c, of "u_obs (l, m)"] n s in \<open>simp add: umoves_def ueffect_def insert_absorb tp_defs\<close>)
  next
    case False
    then have r: "u_step (UColX left cn acc) (l, m) = Inr (UColL left acc, l, m)" by (simp add: u_cas [OF d])
    show ?thesis unfolding r by (rule ustay [OF inv s]) (use c n in \<open>auto simp: ueffect_def\<close>)
  qed
qed

lemma gathered_snoc:
  assumes "gathered l m seen A acc" and "A \<noteq> []" and "is_ver m p" and "saw_version seen m (ukey l a) p"
  shows "gathered l m seen (A @ [a]) (acc @ [(ukey l a, p)])"
  using assms by (auto simp: gathered_def)

lemma step_colVG:
  assumes inv: "uinv t fl l m" and s: "u_obs (l, m) \<in> seen" and c: "ucol t fl l m seen left acc" and n: "left \<noteq> t" "tp_freeze (uword l left)"
  shows "ustep_ok t fl l m seen (UColV left acc) (u_step (UColV left acc) (l, m))"
    and "left \<noteq> rl_head l \<Longrightarrow> ustep_ok t fl l m seen (UColG left acc) (u_step (UColG left acc) (l, m))"
proof -
  have d: "left \<in> udom l" by (rule ucol_dom [OF inv c])
  obtain A B where sp: "fl = A @ left # B" "ufrozen l A" "gathered l m seen A acc" "A = [] \<longleftrightarrow> left = rl_head l"
    using ucol_split [OF inv c n(1)] by metis
  have fz: "ufrozen l (A @ [left])" using sp(2) n(2) by (simp add: ufrozen_def)
  have r: "u_step (UColV left acc) (l, m) = Inr (if left = rl_head l then UColN left acc else UColG left acc, l, m)"
    using d n(2) by (simp add: u_load u_sel u_frozen_def)
  have "upc_ok t fl l m seen (if left = rl_head l then UColN left acc else UColG left acc)"
  proof (cases "left = rl_head l")
    case True
    then have "gathered l m seen (A @ [left]) acc" using sp(3,4) by (simp add: gathered_def)
    then show ?thesis using True sp(1) fz by auto
  qed (use c n in simp)
  then show "ustep_ok t fl l m seen (UColV left acc) (u_step (UColV left acc) (l, m))"
    unfolding r by (intro ustay [OF inv s]) (auto simp: ueffect_def)
  assume nh: "left \<noteq> rl_head l"
  have h: "is_ver m (uhead l left)" by (rule uhead_ver [OF inv d])
  then have um: "tp_unset_mark (uhead l left) = uhead l left" by (cases "uhead l left") (simp add: is_ver_def tp_defs)
  have a: "at_key fl l (ukey l left) left" using sp(1) nh by (simp add: at_key_def unodes_def)
  have "saw_version seen m (ukey l left) (uhead l left)"
    using u_heads_at [OF inv, of left] u_content_at [OF inv, of left] a s unfolding saw_version_def u_obs_def at_key_def uval_eq
    by (intro bexI [of _ "(u_content (l, m), u_heads l)"]) simp_all
  then have "gathered l m seen (A @ [left]) (acc @ [(ukey l left, uhead l left)])"
    using gathered_snoc [OF sp(3) _ h] sp(4) nh by blast
  then have "upc_ok t fl l m seen (UColN left (acc @ [(ukey l left, uhead l left)]))" using sp(1) fz by auto
  moreover have r: "u_step (UColG left acc) (l, m)
      = Inr (if rl_isReclaimed l then UDone UCollect (UBool False) else UColN left (acc @ [(ukey l left, uhead l left)]), l, m)"
    using d by (simp add: u_load u_sel um)
  ultimately show "ustep_ok t fl l m seen (UColG left acc) (u_step (UColG left acc) (l, m))"
    unfolding r by (intro ustay [OF inv s]) (simp_all add: ueffect_def del: upc_ok.simps(29))
qed

lemma step_colN:
  assumes inv: "uinv t fl l m" and s: "u_obs (l, m) \<in> seen" and pc: "upc_ok t fl l m seen (UColN left acc)"
  shows "ustep_ok t fl l m seen (UColN left acc) (u_step (UColN left acc) (l, m))"
proof -
  obtain A B where sp: "fl = A @ left # B" "ufrozen l (A @ [left])" "gathered l m seen (A @ [left]) acc" using pc by auto
  have lf: "left \<in> set fl" using sp(1) by simp
  note B = ubaseD [OF uinvD(1) [OF inv]]
  have d: "left \<in> udom l" using lf B(3) by blast
  have nm: "\<not> tp_mark (uword l left)" using uwordsD(3) [OF uinvD(3) [OF inv] lf] .
  have nx: "unext l left = hd (B @ [t])" by (rule unext_split [OF uinvD(2) [OF inv] sp(1)])
  have "ucol t fl l m seen (unext l left) acc" unfolding ucol_def nx
    by (intro exI [of _ "A @ [left]"] exI [of _ B]) (use sp in simp)
  moreover have "unext l left \<noteq> rl_head l" using unext_in [OF uinvD(2) [OF inv] lf] B(1,2) by (auto simp: unodes_def)
  moreover have "u_step (UColN left acc) (l, m) = Inr (UColH (unext l left) acc, l, m)" using d nm by (simp add: u_load u_sel unext_def tp_defs)
  ultimately show ?thesis by (simp only:) (intro ustay [OF inv s]; simp add: ueffect_def)
qed

section \<open>Any step\<close>

lemma uthread_step:
  assumes inv: "uinv t fl l m" and s: "u_obs (l, m) \<in> seen" and pc: "upc_ok t fl l m seen pc" and busy: "pc \<noteq> UIdle"
    and g: "\<exists>g. get_latest_timestamp (vm_tracker m) = Inr g" and z: "rl_size l < length fl"
  shows "ustep_ok t fl l m seen pc (u_step pc (l, m))"
proof (cases pc)
  case UIdle
  then show ?thesis using busy by blast
next
  case (UIns0 k v)
  show ?thesis unfolding UIns0 by (rule step_ins0 [OF inv s _ z]) (rule pc [unfolded UIns0])
next
  case (UFind0 k v)
  then show ?thesis using pc step_find01(1) [OF inv s] by simp
next
  case (UFind1 k v)
  then show ?thesis using pc step_find01(2) [OF inv s] by simp
next
  case (UFind2 k v left right)
  show ?thesis unfolding UFind2 by (rule u_step_find2 [OF inv s]) (rule pc [unfolded UFind2])
next
  case (ULink k v prev right n)
  show ?thesis unfolding ULink by (rule step_link [OF inv s]) (rule pc [unfolded ULink])
next
  case (ULinked k v n)
  show ?thesis unfolding ULinked by (rule step_linked [OF inv s]) (rule pc [unfolded ULinked])
next
  case (USize k v)
  show ?thesis unfolding USize by (rule step_size [OF inv s]) (rule pc [unfolded USize])
next
  case (URead0 k v a)
  show ?thesis unfolding URead0 by (rule step_read(1) [OF inv s]) (use pc URead0 in simp)
next
  case (URead1 k v a)
  show ?thesis unfolding URead1 by (rule step_read(2) [OF inv s]) (use pc URead1 in simp)
next
  case (UCas0 k v a old)
  show ?thesis unfolding UCas0 by (rule step_read(3) [OF inv s]) (use pc UCas0 in simp_all)
next
  case (UCas1 k v a h n)
  show ?thesis unfolding UCas1 by (rule step_cas1 [OF inv s]) (rule pc [unfolded UCas1])
next
  case (UCheck k v a)
  show ?thesis unfolding UCheck by (rule step_read(4) [OF inv s]) (use pc UCheck in simp)
next
  case (UInit nx p)
  show ?thesis unfolding UInit by (rule step_init [OF inv s]) (rule pc [unfolded UInit])
next
  case (UClock nx p)
  show ?thesis unfolding UClock by (rule step_clock [OF inv s _ g]) (rule pc [unfolded UClock])
next
  case (UStamp nx p ts)
  show ?thesis unfolding UStamp by (rule step_stamp [OF inv s]) (rule pc [unfolded UStamp])
next
  case (USrch0 k v cur)
  show ?thesis unfolding USrch0 by (rule step_srch0 [OF inv s]) (rule pc [unfolded USrch0])
next
  case (USrch1 k v cur)
  show ?thesis unfolding USrch1 by (rule step_srch12(1) [OF inv s]) (use pc USrch1 in simp)
next
  case (USrch2 k v cur)
  show ?thesis unfolding USrch2 by (rule step_srch12(2) [OF inv s]) (use pc USrch2 in simp_all)
next
  case UCol0
  show ?thesis unfolding UCol0 by (rule step_col0 [OF inv s])
next
  case (UColH left acc)
  show ?thesis unfolding UColH by (rule step_colH [OF inv s]) (use pc UColH in simp_all)
next
  case (UColT left acc)
  show ?thesis unfolding UColT by (rule step_colTL(1) [OF inv s]) (use pc UColT in simp_all)
next
  case (UColL left acc)
  show ?thesis unfolding UColL by (rule step_colTL(2) [OF inv s]) (use pc UColL in simp_all)
next
  case (UColX left cn acc)
  show ?thesis unfolding UColX by (rule step_colTL(3) [OF inv s]) (use pc UColX in simp_all)
next
  case (UColV left acc)
  show ?thesis unfolding UColV by (rule step_colVG(1) [OF inv s]) (use pc UColV in simp_all)
next
  case (UColG left acc)
  show ?thesis unfolding UColG by (rule step_colVG(2) [OF inv s]) (use pc UColG in simp_all)
next
  case (UColN left acc)
  show ?thesis unfolding UColN by (rule step_colN [OF inv s]) (rule pc [unfolded UColN])
next
  case (UDone op r)
  show ?thesis unfolding UDone u_step.simps by (rule ustay [OF inv s]) (use pc UDone in \<open>simp_all add: ueffect_def\<close>)
qed (use pc in simp_all)

end
