(* ===== verification/Uruv_Conc_Correct.thy ===== *)
theory Uruv_Conc_Correct
  imports Uruv_Conc_Thread
begin

text \<open>
  The invariant of every reachable state of the versioned list under interleaving, and its properties: which
  steps change the content, that answers were true at some moment of the operation, what a collection
  gathers, that no version is lost, that the counter lags behind the nodes by the insertions that have not
  counted yet, and the update that a collection loses.
\<close>

section \<open>The invariant of reachable states\<close>

definition uthreads_ok :: "usys \<Rightarrow> addr \<Rightarrow> addr list \<Rightarrow> bool" where
  "uthreads_ok s t fl \<longleftrightarrow> (\<forall>i. us_pc s i \<noteq> UIdle \<longrightarrow>
     u_obs (us_lm s) \<in> us_seen s i \<and> upc_ok t fl (fst (us_lm s)) (snd (us_lm s)) (us_seen s i) (us_pc s i))"

definition uowns_ok :: "usys \<Rightarrow> bool" where
  "uowns_ok s \<longleftrightarrow> (\<forall>i j. i \<noteq> j \<longrightarrow> uown (us_pc s i) \<inter> uown (us_pc s j) = {})"

definition pending :: "usys \<Rightarrow> nat set" where
  "pending s = {i. upend (us_pc s i)}"

definition ucount_ok :: "usys \<Rightarrow> addr list \<Rightarrow> bool" where
  "ucount_ok s fl \<longleftrightarrow> finite (pending s) \<and> length fl = Suc (rl_size (fst (us_lm s)) + card (pending s))"

definition usinv :: "usys \<Rightarrow> addr \<Rightarrow> addr list \<Rightarrow> bool" where
  "usinv s t fl \<longleftrightarrow> uinv t fl (fst (us_lm s)) (snd (us_lm s)) \<and> uthreads_ok s t fl \<and> uowns_ok s \<and> ucount_ok s fl \<and> treach (ustsys s)"

lemma usinvD:
  assumes "usinv s t fl"
  shows "uinv t fl (fst (us_lm s)) (snd (us_lm s))" "uthreads_ok s t fl" "uowns_ok s" "ucount_ok s fl" "treach (ustsys s)"
  by (insert assms [unfolded usinv_def], (elim conjE, assumption)+)

lemma usinvI:
  assumes "uinv t fl (fst (us_lm s)) (snd (us_lm s))" "uthreads_ok s t fl" "uowns_ok s" "ucount_ok s fl" "treach (ustsys s)"
  shows "usinv s t fl"
  unfolding usinv_def by (intro conjI assms)

lemma uinit_list: "uinv 1 [2] (fst (RList_new vmem_new)) (snd (RList_new vmem_new))"
proof -
  let ?l = "fst (RList_new vmem_new)" and ?m = "snd (RList_new vmem_new)"
  note defs = RList_new_def rl_Node_init_def Vnode_new_def vmem_new_def rl_set_def Let_def
  have l: "rl_head ?l = 2" "rl_brk ?l = 3" "rl_isReclaimed ?l = False" "udom ?l = {1, 2}" "vdom ?m = {1, 2}" "vm_brk ?m = 3"
    by (auto simp: defs)
  have s: "ukey ?l 1 = key_max" "ukey ?l 2 = 0" "uword ?l 1 = null_ptr" "uword ?l 2 = clean 1" "uhead ?l 1 = clean 1" "uhead ?l 2 = clean 2"
    by (simp_all add: defs ukey_def uword_def uhead_def)
  have "ubase 1 [2] ?l ?m" using l by (auto simp: ubase_def)
  moreover have "uorder 1 [2] ?l" using l s by (simp add: uorder_def unext_def)
  moreover have "uwords 1 [2] ?l ?m" using l s by (auto simp: uwords_def is_ver_def)
  ultimately show ?thesis by (simp add: uinv_def)
qed

lemma usinv_init: "usinv usys_init 1 [2]"
proof (rule usinvI)
  show "uinv 1 [2] (fst (us_lm usys_init)) (snd (us_lm usys_init))" using uinit_list by (simp add: usys_init_def)
  have t: "vm_tracker (snd (RList_new vmem_new)) = TrackerList_new"
    by (simp add: RList_new_def rl_Node_init_def Vnode_new_def vmem_new_def rl_set_def Let_def)
  show "treach (ustsys usys_init)" using treach.init by (simp add: ustsys_def usys_init_def tsys_init_def t)
  show "ucount_ok usys_init [2]"
    by (simp add: ucount_ok_def pending_def usys_init_def RList_new_def rl_Node_init_def Vnode_new_def vmem_new_def rl_set_def Let_def)
qed (simp_all add: uthreads_ok_def uowns_ok_def usys_init_def)

lemma treach_latest:
  assumes "treach (ustsys s)"
  shows "\<exists>g. get_latest_timestamp (vm_tracker (snd (us_lm s))) = Inr g"
  using treach_inv [OF assms] tinv_latest by (fastforce simp: ustsys_def)

text \<open>Threads other than the one that moves.\<close>

lemma card_upd:
  assumes "finite {j. P (p j)}"
  shows "finite {j. P ((p(i := x)) j)}" and "card {j. P ((p(i := x)) j)} + of_bool (P (p i)) = card {j. P (p j)} + (of_bool (P x) :: nat)"
proof -
  have e: "{j. P ((p(i := x)) j)} = (if P x then insert i {j. P (p j)} else {j. P (p j)} - {i})" by auto
  show "finite {j. P ((p(i := x)) j)}" unfolding e using assms by simp
  show "card {j. P ((p(i := x)) j)} + of_bool (P (p i)) = card {j. P (p j)} + (of_bool (P x) :: nat)"
  proof (cases "P (p i)")
    case True
    then have i: "i \<in> {j. P (p j)}" by simp
    then have "card ({j. P (p j)} - {i}) + 1 = card {j. P (p j)}" using card_Suc_Diff1 [OF assms i] by simp
    then show ?thesis unfolding e using True i by (simp add: insert_absorb)
  next
    case False
    then have i: "i \<notin> {j. P (p j)}" by simp
    then show ?thesis unfolding e using False assms by simp
  qed
qed

lemma uown_dom: "upc_ok t fl l m seen pc \<Longrightarrow> uown pc \<subseteq> udom l"
  by (cases pc) auto

text \<open>A step of the tracker.\<close>

lemma tracker_sel [simp]: "is_ver (m\<lparr>vm_tracker := x\<rparr>) = is_ver m" "vval (m\<lparr>vm_tracker := x\<rparr>) = vval m" "vprev (m\<lparr>vm_tracker := x\<rparr>) = vprev m"
    "uval (l, m\<lparr>vm_tracker := x\<rparr>) = uval (l, m)" "u_content (l, m\<lparr>vm_tracker := x\<rparr>) = u_content (l, m)" "u_obs (l, m\<lparr>vm_tracker := x\<rparr>) = u_obs (l, m)"
    "saw_version seen (m\<lparr>vm_tracker := x\<rparr>) = saw_version seen m"
proof -
  show "is_ver (m\<lparr>vm_tracker := x\<rparr>) = is_ver m" "vval (m\<lparr>vm_tracker := x\<rparr>) = vval m" "vprev (m\<lparr>vm_tracker := x\<rparr>) = vprev m"
    and v: "uval (l, m\<lparr>vm_tracker := x\<rparr>) = uval (l, m)"
    by (rule ext, simp add: is_ver_def vval_def vprev_def uval_def)+
  show c: "u_content (l, m\<lparr>vm_tracker := x\<rparr>) = u_content (l, m)" by (simp add: u_content_def v)
  then show "u_obs (l, m\<lparr>vm_tracker := x\<rparr>) = u_obs (l, m)" by (simp add: u_obs_def)
  show "saw_version seen (m\<lparr>vm_tracker := x\<rparr>) = saw_version seen m" by (intro ext) (simp add: saw_version_def vval_def)
qed

lemma tracker_uans: "op \<noteq> UCollect \<Longrightarrow> uans_ok seen (l, m') op r = uans_ok seen (l, m) op r"
  by (cases op; cases r) simp_all

lemma tracker_upc: "upc_ok t fl l (m\<lparr>vm_tracker := x\<rparr>) seen pc = upc_ok t fl l m seen pc"
proof (cases pc)
  case (UDone op r)
  show ?thesis
  proof (cases "op = UCollect")
    case True
    then show ?thesis unfolding UDone by (simp add: ucol_def gathered_def)
  next
    case False
    then show ?thesis unfolding UDone by (simp add: tracker_uans [OF False])
  qed
qed (simp_all add: ucol_def gathered_def)

lemma tracker_uinv: "uinv t fl l (m\<lparr>vm_tracker := x\<rparr>) = uinv t fl l m"
  by (simp add: uinv_def ubase_def uwords_def)

lemma usinv_tracker:
  assumes s: "usinv s t fl" and st: "tstep (ustsys s) ts"
  shows "usinv (s\<lparr>us_lm := (fst (us_lm s), (snd (us_lm s))\<lparr>vm_tracker := sy_list ts\<rparr>), us_tpc := sy_pc ts, us_log := sy_log ts\<rparr>) t fl"
proof (rule usinvI)
  note I = usinvD [OF s]
  have l: "u_obs (fst (us_lm s), snd (us_lm s)) = u_obs (us_lm s)" by simp
  let ?s = "s\<lparr>us_lm := (fst (us_lm s), (snd (us_lm s))\<lparr>vm_tracker := sy_list ts\<rparr>), us_tpc := sy_pc ts, us_log := sy_log ts\<rparr>"
  show "uinv t fl (fst (us_lm ?s)) (snd (us_lm ?s))" using I(1) by (simp add: tracker_uinv)
  show "uthreads_ok ?s t fl" using I(2) by (simp add: uthreads_ok_def tracker_upc l)
  show "uowns_ok ?s" using I(3) by (simp add: uowns_ok_def)
  show "ucount_ok ?s fl" using I(4) by (simp add: ucount_ok_def pending_def)
  have "ustsys ?s = ts" by (simp add: ustsys_def)
  then show "treach (ustsys ?s)" using treach.step [OF I(5) st] by simp
qed

text \<open>A call and a return.\<close>

lemma ustart_ok:
  assumes inv: "uinv t fl l m" and ok: "uop_ok op"
  shows "upc_ok t fl l m seen (u_start op l)" and "uown (u_start op l) = {}" and "\<not> upend (u_start op l)"
proof -
  show "upc_ok t fl l m seen (u_start op l)"
    using ok ubaseD(1) [OF uinvD(1) [OF inv]] uorderD(7) [OF uinvD(2) [OF inv]] by (cases op) auto
  show "uown (u_start op l) = {}" "\<not> upend (u_start op l)" by (cases op; simp)+
qed

lemma usinv_call:
  assumes s: "usinv s t fl" and idle: "us_pc s i = UIdle" and op: "uop_ok op"
  shows "usinv (s\<lparr>us_pc := (us_pc s)(i := u_start op (fst (us_lm s))), us_seen := (us_seen s)(i := {u_obs (us_lm s)})\<rparr>) t fl"
proof (rule usinvI)
  note I = usinvD [OF s] and st = ustart_ok [OF usinvD(1) [OF s] op]
  let ?s = "s\<lparr>us_pc := (us_pc s)(i := u_start op (fst (us_lm s))), us_seen := (us_seen s)(i := {u_obs (us_lm s)})\<rparr>"
  show "uinv t fl (fst (us_lm ?s)) (snd (us_lm ?s))" "treach (ustsys ?s)" using I(1,5) by (simp_all add: ustsys_def)
  show "uthreads_ok ?s t fl" using I(2) st(1) by (simp add: uthreads_ok_def)
  show "uowns_ok ?s" using I(3) st(2) by (simp add: uowns_ok_def)
  have "pending ?s = pending s" using st(3) idle by (auto simp: pending_def)
  then show "ucount_ok ?s fl" using I(4) by (simp add: ucount_ok_def)
qed

lemma usinv_ret:
  assumes s: "usinv s t fl" and d: "us_pc s i = UDone op r"
  shows "usinv (s\<lparr>us_pc := (us_pc s)(i := UIdle)\<rparr>) t fl"
proof (rule usinvI)
  note I = usinvD [OF s]
  let ?s = "s\<lparr>us_pc := (us_pc s)(i := UIdle)\<rparr>"
  show "uinv t fl (fst (us_lm ?s)) (snd (us_lm ?s))" "treach (ustsys ?s)" using I(1,5) by (simp_all add: ustsys_def)
  show "uthreads_ok ?s t fl" using I(2) by (simp add: uthreads_ok_def)
  show "uowns_ok ?s" using I(3) by (simp add: uowns_ok_def)
  have "pending ?s = pending s" using d by (auto simp: pending_def)
  then show "ucount_ok ?s fl" using I(4) by (simp add: ucount_ok_def)
qed

text \<open>The flag \<open>isReclaimed\<close> is set.\<close>

lemma ucol_done:
  assumes inv: "uinv t fl l m" and c: "ucol t fl l m seen t kvs"
  shows "ufrozen l fl" and "gathered l m seen fl kvs"
proof -
  obtain A B where s: "fl = A @ B" "ufrozen l A" "t = hd (B @ [t])" "gathered l m seen A kvs" using c unfolding ucol_def by blast
  have "t \<notin> set fl" using ubaseD(2) [OF uinvD(1) [OF inv]] .
  then have "B = []" using s(1,3) by (cases B) auto
  then show "ufrozen l fl" "gathered l m seen fl kvs" using s by simp_all
qed

lemma ubusy_ok:
  assumes "usinv s t fl" and "us_pc s i \<noteq> UIdle"
  shows "u_obs (us_lm s) \<in> us_seen s i" "upc_ok t fl (fst (us_lm s)) (snd (us_lm s)) (us_seen s i) (us_pc s i)"
  using usinvD(2) [OF assms(1)] assms(2) by (simp_all add: uthreads_ok_def)

lemma usinv_reclaim:
  assumes s: "usinv s t fl" and d: "us_pc s i = UDone UCollect (UList kvs)"
  shows "usinv (s\<lparr>us_lm := ((fst (us_lm s))\<lparr>rl_isReclaimed := True\<rparr>, snd (us_lm s))\<rparr>) t fl"
    and "u_obs ((fst (us_lm s))\<lparr>rl_isReclaimed := True\<rparr>, snd (us_lm s)) = u_obs (us_lm s)"
proof -
  note I = usinvD [OF s]
  let ?l = "(fst (us_lm s))\<lparr>rl_isReclaimed := True\<rparr>" and ?m = "snd (us_lm s)"
  let ?s = "s\<lparr>us_lm := (?l, ?m)\<rparr>"
  have "us_pc s i \<noteq> UIdle" using d by simp
  note b = ubusy_ok(2) [OF s this]
  have "ucol t fl (fst (us_lm s)) ?m (us_seen s i) t kvs" using b unfolding d by simp
  then have z: "ufrozen (fst (us_lm s)) fl" by (rule ucol_done(1) [OF I(1)])
  have k: "ukeeps (fst (us_lm s)) ?m ?l ?m" by (simp add: ukeeps_def ukey_def)
  have f: "rl_isReclaimed ?l \<Longrightarrow> rl_isReclaimed (fst (us_lm s)) \<or> ufrozen (fst (us_lm s)) fl" using z by blast
  have q: "ugood t {} fl (fst (us_lm s)) ?m fl ?l ?m" "u_obs (?l, ?m) = u_obs (us_lm s)"
    using quiet_ok [OF I(1) k _ _ f ubaseD(6) [OF uinvD(1) [OF I(1)]]] by simp_all
  then show "u_obs (?l, ?m) = u_obs (us_lm s)" by blast
  have th: "u_obs (us_lm ?s) \<in> us_seen ?s j \<and> upc_ok t fl (fst (us_lm ?s)) (snd (us_lm ?s)) (us_seen ?s j) (us_pc ?s j)"
    if "us_pc ?s j \<noteq> UIdle" for j
  proof -
    have "us_pc s j \<noteq> UIdle" using that by simp
    note j = ubusy_ok [OF s this]
    have "uown (us_pc s j) \<inter> {} = {}" by simp
    from upc_mono [OF I(1) q(1) this j(2), of "u_obs (us_lm s)"] show ?thesis using j(1) q(2) by (simp add: insert_absorb)
  qed
  show "usinv ?s t fl"
  proof (rule usinvI)
    show "uinv t fl (fst (us_lm ?s)) (snd (us_lm ?s))" using ugoodD(1) [OF q(1)] by simp
    show "uthreads_ok ?s t fl" unfolding uthreads_ok_def using th by blast
    show "uowns_ok ?s" "ucount_ok ?s fl" "treach (ustsys ?s)" using I(3-5) by (simp_all add: uowns_ok_def ucount_ok_def pending_def ustsys_def)
  qed
qed

text \<open>A step of thread \<open>i\<close>.\<close>

definition uthread_moves :: "usys \<Rightarrow> addr \<Rightarrow> addr list \<Rightarrow> nat \<Rightarrow> upc \<Rightarrow> RList \<times> vmem \<Rightarrow> addr list \<Rightarrow> bool" where
  "uthread_moves s t fl i pc' lm' fl' \<longleftrightarrow>
     umoves t fl (fst (us_lm s)) (snd (us_lm s)) (us_seen s i) (us_pc s i) pc' (fst lm') (snd lm') fl'"

lemma ubusy_step:
  assumes s: "usinv s t fl" and busy: "us_pc s i \<noteq> UIdle"
  shows "ustep_ok t fl (fst (us_lm s)) (snd (us_lm s)) (us_seen s i) (us_pc s i) (u_step (us_pc s i) (us_lm s))"
proof -
  note I = usinvD [OF s]
  have l: "(fst (us_lm s), snd (us_lm s)) = us_lm s" by simp
  note th = ubusy_ok [OF s busy]
  have z: "rl_size (fst (us_lm s)) < length fl" using I(4) by (simp add: ucount_ok_def)
  from uthread_step [OF I(1) _ th(2) busy treach_latest [OF I(5)] z, unfolded l, OF th(1)] show ?thesis .
qed

lemma ubusy_moves:
  assumes s: "usinv s t fl" and run: "u_step (us_pc s i) (us_lm s) = Inr (pc', lm')" and busy: "us_pc s i \<noteq> UIdle"
  shows "\<exists>fl'. uthread_moves s t fl i pc' lm' fl'"
  using ubusy_step [OF s busy] unfolding run ustep_ok_def uthread_moves_def by auto

lemma umovesD:
  assumes "umoves t fl l m seen pc pc' l' m' fl'"
  shows "ugood t (uown pc) fl l m fl' l' m'" "upc_ok t fl' l' m' (insert (u_obs (l', m')) seen) pc'"
    "uown pc' \<subseteq> uown pc \<union> (udom l' - udom l)" "ueffect pc pc' (u_content (l, m)) (u_content (l', m'))"
    "length fl + rl_size l' + of_bool (upend pc') = length fl' + rl_size l + of_bool (upend pc)"
    "\<And>a. a \<in> set fl \<Longrightarrow> uhead l' a = uhead l a \<or> vprev m' (uhead l' a) = uhead l a"
  using assms unfolding umoves_def by blast+

lemma usinv_moves:
  assumes s: "usinv s t fl" and busy: "us_pc s i \<noteq> UIdle" and mv: "uthread_moves s t fl i pc' lm' fl'"
  shows "usinv (s\<lparr>us_lm := lm', us_pc := (us_pc s)(i := pc'), us_seen := (\<lambda>j. insert (u_obs lm') (us_seen s j))\<rparr>) t fl'"
proof (rule usinvI)
  let ?s = "s\<lparr>us_lm := lm', us_pc := (us_pc s)(i := pc'), us_seen := (\<lambda>j. insert (u_obs lm') (us_seen s j))\<rparr>"
  note I = usinvD [OF s] and M = umovesD [OF mv [unfolded uthread_moves_def], unfolded prod.collapse]
  note K = ukeepsD [OF ugoodD(2) [OF M(1)]]
  show "uinv t fl' (fst (us_lm ?s)) (snd (us_lm ?s))" using ugoodD(1) [OF M(1)] by simp
  have th: "upc_ok t fl (fst (us_lm s)) (snd (us_lm s)) (us_seen s j) (us_pc s j)" if "us_pc s j \<noteq> UIdle" for j
    using I(2) that by (simp add: uthreads_ok_def)
  have ow: "uown (us_pc s j) \<inter> uown (us_pc s i) = {}" if "j \<noteq> i" for j using I(3) that by (simp add: uowns_ok_def)
  have "upc_ok t fl' (fst lm') (snd lm') (insert (u_obs lm') (us_seen s j)) (us_pc s j)" if "j \<noteq> i" "us_pc s j \<noteq> UIdle" for j
    by (rule upc_mono [OF I(1) M(1) ow [OF that(1)] th [OF that(2)]])
  then show "uthreads_ok ?s t fl'" using M(2) by (auto simp: uthreads_ok_def)
  have dm: "uown (us_pc s j) \<subseteq> udom (fst (us_lm s))" for j
    using uown_dom [OF th [of j]] by (cases "us_pc s j = UIdle") auto
  have new: "uown pc' \<inter> uown (us_pc s j) = {}" if "j \<noteq> i" for j using M(3) ow [OF that] dm [of j] by blast
  show "uowns_ok ?s" unfolding uowns_ok_def
  proof (intro allI impI)
    fix j k :: nat assume "j \<noteq> k"
    then show "uown (us_pc ?s j) \<inter> uown (us_pc ?s k) = {}"
      using new [of j] new [of k] I(3) by (cases "j = i"; cases "k = i") (auto simp: uowns_ok_def)
  qed
  have fin: "finite {j. upend (us_pc s j)}" "length fl = Suc (rl_size (fst (us_lm s)) + card {j. upend (us_pc s j)})"
    using I(4) by (simp_all add: ucount_ok_def pending_def)
  note C = card_upd [of upend "us_pc s" i pc', OF fin(1)]
  have "length fl' = Suc (rl_size (fst lm') + card {j. upend (((us_pc s)(i := pc')) j)})" using C(2) fin(2) M(5) by linarith
  then show "ucount_ok ?s fl'" using C(1) by (simp add: ucount_ok_def pending_def)
  show "treach (ustsys ?s)" using I(5) K(8) by (simp add: ustsys_def)
qed

lemma uidle_step: "u_step pc lm = Inr (pc', lm') \<Longrightarrow> pc = UIdle \<Longrightarrow> pc' = UIdle \<and> lm' = lm"
  by simp

lemma usinv_idle:
  assumes s: "usinv s t fl" and i: "us_pc s i = UIdle"
  shows "usinv (s\<lparr>us_lm := us_lm s, us_pc := (us_pc s)(i := UIdle), us_seen := (\<lambda>j. insert (u_obs (us_lm s)) (us_seen s j))\<rparr>) t fl"
proof (rule usinvI)
  note I = usinvD [OF s]
  let ?s = "s\<lparr>us_lm := us_lm s, us_pc := (us_pc s)(i := UIdle), us_seen := (\<lambda>j. insert (u_obs (us_lm s)) (us_seen s j))\<rparr>"
  have p: "(us_pc s)(i := UIdle) = us_pc s" using i by (simp add: fun_upd_idem)
  show "uinv t fl (fst (us_lm ?s)) (snd (us_lm ?s))" "treach (ustsys ?s)" using I(1,5) by (simp_all add: ustsys_def)
  show "uowns_ok ?s" "ucount_ok ?s fl" using I(3,4) by (simp_all add: p uowns_ok_def ucount_ok_def pending_def)
  show "uthreads_ok ?s t fl" using I(2) by (simp add: p uthreads_ok_def insert_absorb)
qed

lemma usinv_step: "ustep s s' \<Longrightarrow> usinv s t fl \<Longrightarrow> \<exists>fl'. usinv s' t fl'"
proof (induction rule: ustep.induct)
  case (tracker s ts)
  then show ?case using usinv_tracker by blast
next
  case (call s i op)
  then show ?case using usinv_call by blast
next
  case (atomic s i pc' lm')
  show ?case
  proof (cases "us_pc s i = UIdle")
    case True
    then show ?thesis using uidle_step [OF atomic.hyps True] usinv_idle [OF atomic.prems True] by blast
  next
    case False
    then obtain fl' where "uthread_moves s t fl i pc' lm' fl'" using ubusy_moves [OF atomic.prems atomic.hyps] by blast
    then show ?thesis using usinv_moves [OF atomic.prems False] by blast
  qed
next
  case (reclaim s i kvs)
  then show ?case using usinv_reclaim(1) by blast
next
  case (ret s i op r)
  then show ?case using usinv_ret by blast
qed

lemma ureach_usinv: "ureach s \<Longrightarrow> \<exists>fl. usinv s 1 fl"
  by (induction rule: ureach.induct) (use usinv_init usinv_step in blast)+

lemma ureach_inv:
  assumes "ureach s"
  obtains fl where "usinv s 1 fl" "uinv 1 fl (fst (us_lm s)) (snd (us_lm s))" "fl = rl_head (fst (us_lm s)) # u_chain (fst (us_lm s))"
proof -
  obtain fl where fl: "usinv s 1 fl" using ureach_usinv [OF assms] by blast
  note inv = usinvD(1) [OF fl]
  have "fl = rl_head (fst (us_lm s)) # u_chain (fst (us_lm s))"
    using u_chain_eq [OF inv] uorderD(1,2) [OF uinvD(2) [OF inv]] by (cases fl) auto
  then show ?thesis using that fl inv by blast
qed

text \<open>What any step of the program keeps.\<close>

definition ukept :: "addr list \<Rightarrow> usys \<Rightarrow> addr list \<Rightarrow> usys \<Rightarrow> bool" where
  "ukept fl s fl' s' \<longleftrightarrow> (\<forall>p. is_ver (snd (us_lm s)) p \<longrightarrow> is_ver (snd (us_lm s')) p
      \<and> vval (snd (us_lm s')) p = vval (snd (us_lm s)) p \<and> vprev (snd (us_lm s')) p = vprev (snd (us_lm s)) p)
    \<and> (\<forall>a \<in> set fl. a \<in> set fl' \<and> ukey (fst (us_lm s')) a = ukey (fst (us_lm s)) a
      \<and> (uhead (fst (us_lm s')) a = uhead (fst (us_lm s)) a \<or> vprev (snd (us_lm s')) (uhead (fst (us_lm s')) a) = uhead (fst (us_lm s)) a))
    \<and> rl_head (fst (us_lm s')) = rl_head (fst (us_lm s))
    \<and> (\<forall>A B. fl = A @ B \<longrightarrow> ufrozen (fst (us_lm s)) A \<longrightarrow> ufrozen (fst (us_lm s')) A \<and> (\<exists>B'. fl' = A @ B' \<and> hd (B' @ [1]) = hd (B @ [1])))"

lemma ukept_same:
  assumes "rl_heap (fst (us_lm s')) = rl_heap (fst (us_lm s))" and "rl_head (fst (us_lm s')) = rl_head (fst (us_lm s))"
    and "vm_heap (snd (us_lm s')) = vm_heap (snd (us_lm s))"
  shows "ukept fl s fl s'"
proof -
  have e: "ukey (fst (us_lm s')) = ukey (fst (us_lm s))" "uhead (fst (us_lm s')) = uhead (fst (us_lm s))"
    "uword (fst (us_lm s')) = uword (fst (us_lm s))" "is_ver (snd (us_lm s')) = is_ver (snd (us_lm s))"
    "vval (snd (us_lm s')) = vval (snd (us_lm s))" "vprev (snd (us_lm s')) = vprev (snd (us_lm s))"
    by (rule ext, simp add: ukey_def uhead_def uword_def is_ver_def vval_def vprev_def assms)+
  show ?thesis unfolding ukept_def ufrozen_def e assms(2) by blast
qed

lemma ustep_keeps:
  assumes s: "usinv s 1 fl" and st: "ustep s s'"
  shows "\<exists>fl'. usinv s' 1 fl' \<and> ukept fl s fl' s'"
  using st
proof cases
  case (tracker ts)
  show ?thesis using usinv_tracker [OF s tracker(2)] unfolding tracker(1) [symmetric]
    by (intro exI [of _ fl] conjI ukept_same) (simp_all add: tracker(1))
next
  case (call i op)
  show ?thesis using usinv_call [OF s call(2,3)] unfolding call(1) [symmetric]
    by (intro exI [of _ fl] conjI ukept_same) (simp_all add: call(1))
next
  case (reclaim i kvs)
  show ?thesis using usinv_reclaim(1) [OF s reclaim(2)] unfolding reclaim(1) [symmetric]
    by (intro exI [of _ fl] conjI ukept_same) (simp_all add: reclaim(1))
next
  case (ret i op r)
  show ?thesis using usinv_ret [OF s ret(2)] unfolding ret(1) [symmetric]
    by (intro exI [of _ fl] conjI ukept_same) (simp_all add: ret(1))
next
  case (atomic i pc' lm')
  show ?thesis
  proof (cases "us_pc s i = UIdle")
    case True
    have e: "us_lm s' = us_lm s" using uidle_step [OF atomic(2) True] atomic(1) by simp
    have "usinv s' 1 fl" using uidle_step [OF atomic(2) True] usinv_idle [OF s True] atomic(1) by simp
    then show ?thesis by (intro exI [of _ fl] conjI ukept_same) (simp_all add: e)
  next
    case False
    obtain fl' where m: "uthread_moves s 1 fl i pc' lm' fl'" using ubusy_moves [OF s atomic(2) False] by blast
    note S = usinv_moves [OF s False m] and M = umovesD [OF m [unfolded uthread_moves_def], unfolded prod.collapse]
    note G = ugoodD [OF M(1)] note K = ukeepsD [OF G(2)]
    have e: "us_lm s' = lm'" using atomic(1) by simp
    have ky: "ukey (fst lm') a = ukey (fst (us_lm s)) a" if "a \<in> set fl" for a
      by (rule ukey_mono [OF usinvD(1) [OF s] M(1)]) (use that in simp)
    have fz: "ufrozen (fst lm') A" if "fl = A @ B" "ufrozen (fst (us_lm s)) A" for A B
      by (rule ufrozen_mono [OF M(1) _ that(2)]) (use that(1) in simp)
    have c1: "usinv s' 1 fl'" using S atomic(1) by simp
    have c2: "\<forall>p. is_ver (snd (us_lm s)) p \<longrightarrow> is_ver (snd lm') p \<and> vval (snd lm') p = vval (snd (us_lm s)) p \<and> vprev (snd lm') p = vprev (snd (us_lm s)) p"
      using K(4-6) by blast
    have c3: "\<forall>a \<in> set fl. a \<in> set fl' \<and> ukey (fst lm') a = ukey (fst (us_lm s)) a
      \<and> (uhead (fst lm') a = uhead (fst (us_lm s)) a \<or> vprev (snd lm') (uhead (fst lm') a) = uhead (fst (us_lm s)) a)"
      using ky G(3) M(6) by blast
    have c4: "\<forall>A B. fl = A @ B \<longrightarrow> ufrozen (fst (us_lm s)) A \<longrightarrow> ufrozen (fst lm') A \<and> (\<exists>B'. fl' = A @ B' \<and> hd (B' @ [1]) = hd (B @ [1]))"
      using fz G(5) by blast
    show ?thesis unfolding ukept_def e by (intro exI [of _ fl'] conjI c1 c2 c3 c4 K(1))
  qed
qed

section \<open>Executions\<close>

datatype uact = UCall nat uop | UStep nat | UReclaim nat | URet nat

type_synonym ucfg = "(RList \<times> vmem) \<times> (nat \<Rightarrow> upc)"

fun u_act :: "uact \<Rightarrow> ucfg \<Rightarrow> ucfg option" where
  "u_act (UCall i op) (lm, p) = (if p i = UIdle \<and> uop_ok op then Some (lm, p(i := u_start op (fst lm))) else None)"
| "u_act (UStep i) (lm, p) = (case u_step (p i) lm of Inl e \<Rightarrow> None | Inr (pc', lm') \<Rightarrow> Some (lm', p(i := pc')))"
| "u_act (UReclaim i) (lm, p) = (case p i of UDone UCollect (UList kvs) \<Rightarrow> Some (((fst lm)\<lparr>rl_isReclaimed := True\<rparr>, snd lm), p) | _ \<Rightarrow> None)"
| "u_act (URet i) (lm, p) = (case p i of UDone op r \<Rightarrow> Some (lm, p(i := UIdle)) | _ \<Rightarrow> None)"

fun u_exec :: "uact list \<Rightarrow> ucfg \<Rightarrow> ucfg option" where
  "u_exec [] c = Some c"
| "u_exec (a # as) c = (case u_act a c of None \<Rightarrow> None | Some c' \<Rightarrow> u_exec as c')"

lemma u_act_step:
  assumes "u_act a (us_lm s, us_pc s) = Some c"
  shows "\<exists>s'. ustep s s' \<and> (us_lm s', us_pc s') = c"
proof (cases a)
  case (UCall i op)
  then have r: "us_pc s i = UIdle" "uop_ok op" "c = (us_lm s, (us_pc s)(i := u_start op (fst (us_lm s))))"
    using assms by (auto split: if_splits)
  then show ?thesis using ustep.call [OF r(1,2)] by (intro exI conjI) (assumption, simp)
next
  case (UStep i)
  then obtain pc' lm' where r: "u_step (us_pc s i) (us_lm s) = Inr (pc', lm')" "c = (lm', (us_pc s)(i := pc'))"
    using assms by (auto split: sum.splits)
  then show ?thesis using ustep.atomic [OF r(1)] by (intro exI conjI) (assumption, simp)
next
  case (UReclaim i)
  then obtain kvs where r: "us_pc s i = UDone UCollect (UList kvs)" "c = (((fst (us_lm s))\<lparr>rl_isReclaimed := True\<rparr>, snd (us_lm s)), us_pc s)"
    using assms by (auto split: upc.splits uop.splits uret.splits)
  then show ?thesis using ustep.reclaim [OF r(1)] by (intro exI conjI) (assumption, simp)
next
  case (URet i)
  then obtain op r where r: "us_pc s i = UDone op r" "c = (us_lm s, (us_pc s)(i := UIdle))"
    using assms by (auto split: upc.splits)
  then show ?thesis using ustep.ret [OF r(1)] by (intro exI conjI) (assumption, simp)
qed

lemma u_exec_reach: "u_exec as (us_lm s, us_pc s) = Some c \<Longrightarrow> ustep\<^sup>*\<^sup>* s0 s \<Longrightarrow> \<exists>s'. ustep\<^sup>*\<^sup>* s0 s' \<and> (us_lm s', us_pc s') = c"
proof (induction as arbitrary: s)
  case Nil
  then show ?case by auto
next
  case (Cons a as)
  then obtain c1 where c: "u_act a (us_lm s, us_pc s) = Some c1" "u_exec as c1 = Some c" by (auto split: option.splits)
  obtain s1 where s1: "ustep s s1" "(us_lm s1, us_pc s1) = c1" using u_act_step [OF c(1)] by blast
  show ?case using Cons.IH [of s1] c(2) s1 rtranclp.rtrancl_into_rtrancl [OF Cons.prems(2) s1(1)] by simp
qed

lemma ureach_steps: "ustep\<^sup>*\<^sup>* s s' \<Longrightarrow> ureach s \<Longrightarrow> ureach s'"
  by (induction rule: rtranclp_induct) (auto intro: ureach.step)

definition u_new :: ucfg where
  "u_new = (RList_new vmem_new, \<lambda>_. UIdle)"

definition u_ends :: "uact list \<Rightarrow> (RList \<times> vmem \<Rightarrow> (nat \<Rightarrow> upc) \<Rightarrow> bool) \<Rightarrow> bool" where
  "u_ends as Q \<longleftrightarrow> (case u_exec as u_new of None \<Rightarrow> False | Some (lm, p) \<Rightarrow> Q lm p)"

lemma u_endsD:
  assumes "u_ends as Q"
  obtains s where "ureach s" "u_exec as u_new = Some (us_lm s, us_pc s)" "Q (us_lm s) (us_pc s)"
proof -
  obtain lm p where e: "u_exec as u_new = Some (lm, p)" "Q lm p" using assms by (auto simp: u_ends_def split: option.splits)
  have "u_new = (us_lm usys_init, us_pc usys_init)" by (simp add: u_new_def usys_init_def)
  then obtain s where "ustep\<^sup>*\<^sup>* usys_init s" "(us_lm s, us_pc s) = (lm, p)" using u_exec_reach [of as usys_init "(lm, p)"] e(1) by auto
  then show ?thesis using that e ureach_steps [OF _ ureach.init] by auto
qed

text \<open>Thread 0 inserts (5, 7). Then it inserts (5, 8) and stops before the compare-exchange of \<open>vhead\<close>, and thread 1
  collects the list.\<close>

abbreviation usched_put :: "uact list" where
  "usched_put \<equiv> UCall 0 (UInsert 5 7) # replicate 10 (UStep 0) @ [URet 0]"

abbreviation usched_late :: "uact list" where
  "usched_late \<equiv> UCall 0 (UInsert 5 8) # replicate 9 (UStep 0) @ UCall 1 UCollect # replicate 14 (UStep 1)"

text \<open>Thread 2 begins a collection, thread 1 collects and marks the list as reclaimed, thread 2 goes on.\<close>

abbreviation usched_two :: "uact list" where
  "usched_two \<equiv> UCall 2 UCollect # UStep 2 # UCall 1 UCollect # replicate 14 (UStep 1) @ UReclaim 1 # replicate 7 (UStep 2)"

section \<open>Properties\<close>

text \<open>C5. Under every interleaving of insertions, removals, searches and collections, the content of the versioned list, the
  newest value of every key, changes in two ways only, and in one step: the compare-exchange that links the node
  of an insertion adds a key that was absent, and the compare-exchange of \<open>vhead\<close> replaces the value of a
  present key by a different one. Every other step, those of a collection included, leaves the content as it is.\<close>

theorem uruv_conc_effects:
  assumes "ureach s" and "ustep s s'"
  shows "\<exists>i. (\<forall>j. j \<noteq> i \<longrightarrow> us_pc s' j = us_pc s j) \<and> ueffect (us_pc s i) (us_pc s' i) (u_content (us_lm s)) (u_content (us_lm s'))"
  using assms(2)
proof cases
  case (tracker ts)
  have "ueffect pc pc c c" if "pc = us_pc s 0" for pc c by (cases pc) (simp_all add: ueffect_def)
  moreover have "u_content (us_lm s') = u_content (us_lm s)" using tracker_sel(5) [where l = "fst (us_lm s)" and m = "snd (us_lm s)"] tracker(1) by simp
  ultimately show ?thesis using tracker(1) by (intro exI [of _ 0]) simp
next
  case (call i op)
  then show ?thesis by (intro exI [of _ i]) (simp add: ueffect_def)
next
  case (atomic i pc' lm')
  obtain fl where fl: "usinv s 1 fl" using ureach_usinv [OF assms(1)] by blast
  have "ueffect (us_pc s i) pc' (u_content (us_lm s)) (u_content lm')"
  proof (cases "us_pc s i = UIdle")
    case True
    then show ?thesis using uidle_step [OF atomic(2) True] by (simp add: ueffect_def)
  next
    case False
    then obtain fl' where "uthread_moves s 1 fl i pc' lm' fl'" using ubusy_moves [OF fl atomic(2)] by blast
    from umovesD(4) [OF this [unfolded uthread_moves_def], unfolded prod.collapse] show ?thesis .
  qed
  then show ?thesis using atomic(1) by (intro exI [of _ i]) simp
next
  case (reclaim i kvs)
  obtain fl where fl: "usinv s 1 fl" using ureach_usinv [OF assms(1)] by blast
  have "u_content (us_lm s') = u_content (us_lm s)" using usinv_reclaim(2) [OF fl reclaim(2)] reclaim(1) by (simp add: u_obs_def)
  then show ?thesis using reclaim by (intro exI [of _ i]) (simp add: ueffect_def)
next
  case (ret i op r)
  then show ?thesis by (intro exI [of _ i]) (simp add: ueffect_def)
qed

lemma ureach_thread:
  assumes "ureach s" and "us_pc s i \<noteq> UIdle"
  obtains fl where "usinv s 1 fl" "upc_ok 1 fl (fst (us_lm s)) (snd (us_lm s)) (us_seen s i) (us_pc s i)"
  using ureach_usinv [OF assms(1)] assms(2) by (auto simp: usinv_def uthreads_ok_def)

lemma ucol_facts:
  assumes s: "usinv s 1 fl" and c: "ucol 1 fl (fst (us_lm s)) (snd (us_lm s)) seen 1 kvs"
  shows "map fst kvs = map (ukey (fst (us_lm s))) (u_chain (fst (us_lm s)))" "sorted_wrt (<) (map fst kvs)"
    "\<forall>(k, p) \<in> set kvs. is_ver (snd (us_lm s)) p \<and> saw_version seen (snd (us_lm s)) k p" "dom (u_content (us_lm s)) = set (map fst kvs)"
proof -
  note inv = usinvD(1) [OF s]
  note g = ucol_done(2) [OF inv c] and ch = u_chain_eq [OF inv]
  show k: "map fst kvs = map (ukey (fst (us_lm s))) (u_chain (fst (us_lm s)))" using g unfolding gathered_def ch by blast
  show "sorted_wrt (<) (map fst kvs)" unfolding k ch using uorderD(5) [OF uinvD(2) [OF inv]] by (simp add: sorted_wrt_append)
  show "\<forall>(k, p) \<in> set kvs. is_ver (snd (us_lm s)) p \<and> saw_version seen (snd (us_lm s)) k p" using g unfolding gathered_def by blast
  show "dom (u_content (us_lm s)) = set (map fst kvs)" unfolding k u_content_def dom_map_of_conv_image_fst by (simp add: image_image)
qed

text \<open>C6. Under every interleaving, what an operation on the versioned list answers was true at some moment between its call
  and its answer: an insertion that answers 1 saw its key absent and then with its value; one that answers 0 saw
  its key with its value, or was a removal and saw it absent; one that answers -2 saw at least ten keys in the list; a
  search that answers true saw the key with the value, one that answers false saw a state without that pair; a
  collection that succeeds returns, in increasing order, all the keys that the list had at some moment, each with a
  version that was its newest at some moment. The two other answers are refusals, which say nothing of the content: an
  insertion answers -1 only when the list's first word is frozen, so that a collection has begun, and a
  collection answers false only when the list is marked as reclaimed.\<close>

theorem uruv_conc_answers:
  assumes "ureach s" and "us_pc s i = UDone op r"
  shows "uans_ok (us_seen s i) (us_lm s) op r"
proof -
  have "us_pc s i \<noteq> UIdle" using assms(2) by simp
  moreover obtain fl where fl: "usinv s 1 fl" using ureach_usinv [OF assms(1)] by blast
  ultimately have b: "u_obs (us_lm s) \<in> us_seen s i" "upc_ok 1 fl (fst (us_lm s)) (snd (us_lm s)) (us_seen s i) (UDone op r)"
    using ubusy_ok [OF fl, of i] assms(2) by simp_all
  show ?thesis
  proof (cases "op = UCollect")
    case True
    then consider "r = UBool False" "rl_isReclaimed (fst (us_lm s))"
      | kvs where "r = UList kvs" "ucol 1 fl (fst (us_lm s)) (snd (us_lm s)) (us_seen s i) 1 kvs" using b(2) by auto
    then show ?thesis
    proof cases
      case (2 kvs)
      note c = ucol_facts [OF fl 2(2)]
      have "dom (fst (u_obs (us_lm s))) = set (map fst kvs)" using c(4) by (simp add: u_obs_def)
      then have "saw_keys (us_seen s i) (set (map fst kvs))" unfolding saw_keys_def using b(1) by blast
      then show ?thesis unfolding True 2(1) uans_ok.simps using c(2,3) by blast
    qed (use True in simp)
  qed (use b(2) in simp)
qed

lemma fl_chain: "usinv s t fl \<Longrightarrow> fl = rl_head (fst (us_lm s)) # u_chain (fst (us_lm s))"
  using u_chain_eq [OF usinvD(1)] uorderD(1,2) [OF uinvD(2) [OF usinvD(1)]] by (metis list.collapse)

lemma uclosed_fl: "usinv s t fl \<Longrightarrow> u_closed (fst (us_lm s)) \<longleftrightarrow> ufrozen (fst (us_lm s)) fl"
  using fl_chain [of s t fl] by (simp add: u_closed_def ufrozen_def list_all_iff)

lemma uclosed_step:
  assumes fl: "usinv s 1 fl" and c: "u_closed (fst (us_lm s))" and st: "ustep s s'"
  shows "usinv s' 1 fl \<and> u_closed (fst (us_lm s'))"
proof -
  obtain fl' where k: "usinv s' 1 fl'" "ukept fl s fl' s'" using ustep_keeps [OF fl st] by blast
  have z: "ufrozen (fst (us_lm s)) fl" using c uclosed_fl [OF fl] by blast
  have "fl = fl @ []" by simp
  then obtain B' where B: "ufrozen (fst (us_lm s')) fl" "fl' = fl @ B'" "hd (B' @ [1]) = hd ([] @ [1])"
    using k(2) z unfolding ukept_def by blast
  have "1 \<notin> set fl'" using ubaseD(2) [OF uinvD(1) [OF usinvD(1) [OF k(1)]]] by blast
  then have "B' = []" using B(2,3) by (cases B') auto
  then show ?thesis using k(1) B(1,2) uclosed_fl [OF k(1)] by simp
qed

lemma uclosed_stays:
  assumes "ustep\<^sup>*\<^sup>* s s'" and "usinv s 1 fl" and "u_closed (fst (us_lm s))"
  shows "usinv s' 1 fl \<and> u_closed (fst (us_lm s'))"
  using assms(1) by induction (use assms(2,3) uclosed_step in blast)+

text \<open>C16. Under every interleaving, when a collection of the versioned list has finished, all its words are frozen, and
  whatever the threads do later, no key is ever added. It has answered false, and then the list is marked as
  reclaimed, or it returns exactly the keys of the list, in increasing order, each with a version that was the newest of
  its key, and carried its value, at some moment of the collection.\<close>

theorem uruv_conc_collect:
  assumes "ureach s" and "us_pc s i = UDone UCollect r"
  shows "u_closed (fst (us_lm s)) \<and> (r = UBool False \<and> rl_isReclaimed (fst (us_lm s))
      \<or> (\<exists>kvs. r = UList kvs \<and> map fst kvs = map (ukey (fst (us_lm s))) (u_chain (fst (us_lm s)))
        \<and> sorted_wrt (<) (map fst kvs) \<and> (\<forall>(k, p) \<in> set kvs. is_ver (snd (us_lm s)) p \<and> saw_version (us_seen s i) (snd (us_lm s)) k p)))
    \<and> (\<forall>s'. ustep\<^sup>*\<^sup>* s s' \<longrightarrow> u_closed (fst (us_lm s')) \<and> u_chain (fst (us_lm s')) = u_chain (fst (us_lm s)))"
proof -
  have "us_pc s i \<noteq> UIdle" using assms(2) by simp
  from ureach_thread [OF assms(1) this] obtain fl where fl: "usinv s 1 fl" "upc_ok 1 fl (fst (us_lm s)) (snd (us_lm s)) (us_seen s i) (us_pc s i)"
    by blast
  note inv = usinvD(1) [OF fl(1)]
  consider "r = UBool False" "rl_isReclaimed (fst (us_lm s))"
    | kvs where "r = UList kvs" "ucol 1 fl (fst (us_lm s)) (snd (us_lm s)) (us_seen s i) 1 kvs" using fl(2) unfolding assms(2) by auto
  then have a: "ufrozen (fst (us_lm s)) fl \<and> (r = UBool False \<and> rl_isReclaimed (fst (us_lm s))
      \<or> (\<exists>kvs. r = UList kvs \<and> ucol 1 fl (fst (us_lm s)) (snd (us_lm s)) (us_seen s i) 1 kvs))"
    by cases (use ubaseD(7) [OF uinvD(1) [OF inv]] ucol_done(1) [OF inv] in blast)+
  then have cl: "u_closed (fst (us_lm s))" using uclosed_fl [OF fl(1)] by simp
  have "u_closed (fst (us_lm s')) \<and> u_chain (fst (us_lm s')) = u_chain (fst (us_lm s))" if "ustep\<^sup>*\<^sup>* s s'" for s'
    using uclosed_stays [OF that fl(1) cl] u_chain_eq [OF usinvD(1)] u_chain_eq [OF inv] by metis
  moreover have "r = UBool False \<and> rl_isReclaimed (fst (us_lm s))
      \<or> (\<exists>kvs. r = UList kvs \<and> map fst kvs = map (ukey (fst (us_lm s))) (u_chain (fst (us_lm s)))
        \<and> sorted_wrt (<) (map fst kvs) \<and> (\<forall>(k, p) \<in> set kvs. is_ver (snd (us_lm s)) p \<and> saw_version (us_seen s i) (snd (us_lm s)) k p))"
    using conjunct2 [OF a]
  proof
    assume "\<exists>kvs. r = UList kvs \<and> ucol 1 fl (fst (us_lm s)) (snd (us_lm s)) (us_seen s i) 1 kvs"
    then obtain kvs where k: "r = UList kvs" "ucol 1 fl (fst (us_lm s)) (snd (us_lm s)) (us_seen s i) 1 kvs" by blast
    note c = ucol_facts(1-3) [OF fl(1) k(2)]
    show ?thesis by (intro disjI2 exI [of _ kvs] conjI k(1) c)
  qed (rule disjI1)
  ultimately show ?thesis using cl by blast
qed

text \<open>One step of a thread that has begun.\<close>

definition ufired :: "usys \<Rightarrow> nat \<Rightarrow> upc \<Rightarrow> usys \<Rightarrow> bool" where
  "ufired s i pc' s' \<longleftrightarrow> u_step (us_pc s i) (us_lm s) = Inr (pc', us_lm s') \<and> ustep s s' \<and> us_pc s' = (us_pc s)(i := pc')
     \<and> (\<exists>fl'. usinv s' 1 fl') \<and> ueffect (us_pc s i) pc' (u_content (us_lm s)) (u_content (us_lm s'))
     \<and> (\<forall>p. is_ver (snd (us_lm s)) p \<longrightarrow> is_ver (snd (us_lm s')) p \<and> vval (snd (us_lm s')) p = vval (snd (us_lm s)) p)"

lemma ufiredD:
  assumes "ufired s i pc' s'"
  shows "u_step (us_pc s i) (us_lm s) = Inr (pc', us_lm s')" "ustep s s'" "us_pc s' = (us_pc s)(i := pc')" "\<exists>fl'. usinv s' 1 fl'"
    "ueffect (us_pc s i) pc' (u_content (us_lm s)) (u_content (us_lm s'))" "\<And>p. is_ver (snd (us_lm s)) p \<Longrightarrow> is_ver (snd (us_lm s')) p"
    "\<And>p. is_ver (snd (us_lm s)) p \<Longrightarrow> vval (snd (us_lm s')) p = vval (snd (us_lm s)) p"
  using assms unfolding ufired_def by blast+

lemma u_fires:
  assumes fl: "\<exists>fl. usinv s 1 fl" and pc: "us_pc s i = pc" and busy: "pc \<noteq> UIdle"
  shows "\<exists>pc' s'. ufired s i pc' s'"
proof -
  obtain fl where fl: "usinv s 1 fl" using fl by blast
  have bz: "us_pc s i \<noteq> UIdle" using pc busy by simp
  obtain pc' lm' where run: "u_step (us_pc s i) (us_lm s) = Inr (pc', lm')"
    using ubusy_step [OF fl bz] unfolding ustep_ok_def by blast
  obtain fl' where m: "uthread_moves s 1 fl i pc' lm' fl'" using ubusy_moves [OF fl run bz] by blast
  note M = umovesD [OF m [unfolded uthread_moves_def], unfolded prod.collapse]
  note K = ukeepsD(4,5) [OF ugoodD(2) [OF M(1)]]
  let ?s = "s\<lparr>us_lm := lm', us_pc := (us_pc s)(i := pc'), us_seen := (\<lambda>j. insert (u_obs lm') (us_seen s j))\<rparr>"
  have "ustep s ?s" by (rule ustep.atomic [OF run])
  moreover have "\<exists>fl'. usinv ?s 1 fl'" using usinv_moves [OF fl bz m] by blast
  ultimately show ?thesis unfolding ufired_def by (intro exI [of _ pc'] exI [of _ ?s]) (simp add: run M(4) K)
qed

text \<open>An update that has exchanged \<open>vhead\<close> ends with 0, alone.\<close>

lemma u_updated:
  assumes fl: "\<exists>fl. usinv s 1 fl" and pc: "us_pc s i = UInit (NUpd k v) n"
  shows "\<exists>s'. ustep\<^sup>*\<^sup>* s s' \<and> us_pc s' = (us_pc s)(i := UDone (UInsert k v) (UInt 0)) \<and> u_content (us_lm s') = u_content (us_lm s)
    \<and> (\<forall>p. is_ver (snd (us_lm s)) p \<longrightarrow> vval (snd (us_lm s')) p = vval (snd (us_lm s)) p)"
proof -
  obtain pc1 s1 where f1: "ufired s i pc1 s1" using u_fires [OF fl pc] by blast
  note s1 = ufiredD [OF f1]
  have c1: "u_content (us_lm s1) = u_content (us_lm s)" using s1(5) unfolding pc by simp
  have "pc1 = UClock (NUpd k v) n \<or> pc1 = UDone (UInsert k v) (UInt 0)"
    using s1(1) unfolding pc by (auto elim!: bind_res_InrE split: if_splits)
  then show ?thesis
  proof
    assume e: "pc1 = UDone (UInsert k v) (UInt 0)"
    have "ustep\<^sup>*\<^sup>* s s1" using s1(2) by blast
    then show ?thesis using c1 s1(3,7) e by (intro exI [of _ s1]) simp
  next
    assume e: "pc1 = UClock (NUpd k v) n"
    have p1: "us_pc s1 i = UClock (NUpd k v) n" using s1(3) e by simp
    obtain pc2 s2 where f2: "ufired s1 i pc2 s2" using u_fires [OF s1(4) p1] by blast
    note s2 = ufiredD [OF f2]
    obtain g where g: "pc2 = UStamp (NUpd k v) n g" using s2(1) unfolding p1 by (auto elim!: bind_res_InrE)
    have p2: "us_pc s2 i = UStamp (NUpd k v) n g" using s2(3) g by simp
    obtain pc3 s3 where f3: "ufired s2 i pc3 s3" using u_fires [OF s2(4) p2] by blast
    note s3 = ufiredD [OF f3]
    have d: "pc3 = UDone (UInsert k v) (UInt 0)" using s3(1) unfolding p2 by (auto elim!: bind_res_InrE)
    have "ustep\<^sup>*\<^sup>* s s3" using s1(2) s2(2) s3(2) by (meson rtranclp.rtrancl_into_rtrancl rtranclp.rtrancl_refl)
    moreover have "us_pc s3 = (us_pc s)(i := UDone (UInsert k v) (UInt 0))" using s1(3) s2(3) s3(3) d by simp
    moreover have "u_content (us_lm s3) = u_content (us_lm s)" using c1 s2(5) s3(5) unfolding p1 p2 by simp
    moreover have "vval (snd (us_lm s3)) p = vval (snd (us_lm s)) p" if p: "is_ver (snd (us_lm s)) p" for p
      using s1(7) [OF p] s2(7) [OF s1(6) [OF p]] s3(7) [OF s2(6) [OF s1(6) [OF p]]] by simp
    ultimately show ?thesis by (intro exI [of _ s3]) blast
  qed
qed

text \<open>C18. A collection of the versioned list does not stop updates of the keys it gathers: its second test is on \<open>next\<close> again, so
  \<open>vhead\<close> is never frozen. Whenever a collection has finished with the newest version of a key, and an insertion of
  another value for that key is before its compare-exchange of \<open>vhead\<close>, the insertion can go on to the end: it
  exchanges \<open>vhead\<close> on the closed list and answers 0, as an insertion that has taken effect, and the list holds
  the new value; but the version that the collection still has to return for the key has another value. The node that is
  trained from what was collected does not hold the value: the update is lost.\<close>

theorem uruv_conc_lost_update:
  assumes "ureach s" and "us_pc s j = UDone UCollect (UList kvs)" and "us_pc s i = UCas1 k v a h n"
    and "uhead (fst (us_lm s)) a = h" and "(k, h) \<in> set kvs"
  shows "\<exists>s'. ustep\<^sup>*\<^sup>* s s' \<and> us_pc s' i = UDone (UInsert k v) (UInt 0) \<and> u_content (us_lm s') k = Some v
     \<and> us_pc s' j = UDone UCollect (UList kvs) \<and> (\<forall>p. (k, p) \<in> set kvs \<longrightarrow> vval (snd (us_lm s')) p \<noteq> v)"
proof -
  obtain fl where fl: "usinv s 1 fl" using ureach_usinv [OF assms(1)] by blast
  have ij: "i \<noteq> j" using assms(2,3) by auto
  have bj: "us_pc s j \<noteq> UIdle" and bi: "us_pc s i \<noteq> UIdle" using assms(2,3) by simp_all
  have "ucol 1 fl (fst (us_lm s)) (snd (us_lm s)) (us_seen s j) 1 kvs" using ubusy_ok(2) [OF fl bj] unfolding assms(2) by simp
  note c = ucol_facts [OF fl this]
  have "distinct (map fst kvs)" using c(2) strict_sorted_iff by blast
  then have only: "p = h" if "(k, p) \<in> set kvs" for p using that assms(5) by (meson eq_key_imp_eq_value)
  have h: "at_key fl (fst (us_lm s)) k a" "is_ver (snd (us_lm s)) h" "vval (snd (us_lm s)) h \<noteq> v" using ubusy_ok(2) [OF fl bi] unfolding assms(3) by simp_all
  have d: "a \<in> udom (fst (us_lm s))" by (rule at_key_dom [OF usinvD(1) [OF fl] h(1)])
  obtain pc1 s1 where f1: "ufired s i pc1 s1" using u_fires [OF exI [of _ fl] assms(3)] fl by blast
  note s1 = ufiredD [OF f1]
  have pc1: "pc1 = UInit (NUpd k v) n" using s1(1) assms(4) unfolding assms(3) by (simp add: u_step.simps(11) u_load [OF d] u_sel split: prod.splits)
  have c1: "u_content (us_lm s1) k = Some v" using s1(5) unfolding assms(3) pc1 by (simp add: ueffect_def)
  have p1: "us_pc s1 i = UInit (NUpd k v) n" using s1(3) pc1 by simp
  obtain s2 where s2: "ustep\<^sup>*\<^sup>* s1 s2" "us_pc s2 = (us_pc s1)(i := UDone (UInsert k v) (UInt 0))" "u_content (us_lm s2) = u_content (us_lm s1)"
    "\<forall>p. is_ver (snd (us_lm s1)) p \<longrightarrow> vval (snd (us_lm s2)) p = vval (snd (us_lm s1)) p" using u_updated [OF s1(4) p1] by (elim exE conjE)
  have "vval (snd (us_lm s2)) h = vval (snd (us_lm s)) h" using s1(7) [OF h(2)] s2(4) s1(6) [OF h(2)] by simp
  then have ne: "vval (snd (us_lm s2)) p \<noteq> v" if "(k, p) \<in> set kvs" for p using only [OF that] h(3) by simp
  have st: "ustep\<^sup>*\<^sup>* s s2" using s1(2) s2(1) by (rule converse_rtranclp_into_rtranclp)
  have "us_pc s2 i = UDone (UInsert k v) (UInt 0)" "us_pc s2 j = UDone UCollect (UList kvs)" "u_content (us_lm s2) k = Some v"
    using s2(2,3) c1 s1(3) ij assms(2) by simp_all
  then show ?thesis using st ne by blast
qed

text \<open>C25. Under every interleaving no version of a value is lost from the list: every step keeps every node on the list with its
  key; the head of its versions stays, or is replaced by one whose predecessor it is; and the values and
  predecessors of the versions never change.\<close>

theorem uruv_conc_history:
  assumes "ureach s" and "ustep s s'"
  shows "(\<forall>a \<in> set (u_chain (fst (us_lm s))). a \<in> set (u_chain (fst (us_lm s'))) \<and> ukey (fst (us_lm s')) a = ukey (fst (us_lm s)) a
      \<and> (uhead (fst (us_lm s')) a = uhead (fst (us_lm s)) a \<or> vprev (snd (us_lm s')) (uhead (fst (us_lm s')) a) = uhead (fst (us_lm s)) a))
    \<and> (\<forall>p. is_ver (snd (us_lm s)) p \<longrightarrow> is_ver (snd (us_lm s')) p \<and> vval (snd (us_lm s')) p = vval (snd (us_lm s)) p
      \<and> vprev (snd (us_lm s')) p = vprev (snd (us_lm s)) p)"
proof -
  obtain fl where fl: "usinv s 1 fl" using ureach_usinv [OF assms(1)] by blast
  obtain fl' where k: "usinv s' 1 fl'" "ukept fl s fl' s'" using ustep_keeps [OF fl assms(2)] by blast
  have h: "rl_head (fst (us_lm s')) = rl_head (fst (us_lm s))" using k(2) by (simp add: ukept_def)
  have n: "set (u_chain (fst (us_lm s))) = unodes fl (fst (us_lm s))" "set (u_chain (fst (us_lm s'))) = unodes fl' (fst (us_lm s'))"
    using u_chain_eq [OF usinvD(1) [OF fl]] unodes_tl(1) [OF uinvD(2) [OF usinvD(1) [OF fl]]]
      u_chain_eq [OF usinvD(1) [OF k(1)]] unodes_tl(1) [OF uinvD(2) [OF usinvD(1) [OF k(1)]]] by simp_all
  have "\<forall>a \<in> set (u_chain (fst (us_lm s))). a \<in> set (u_chain (fst (us_lm s'))) \<and> ukey (fst (us_lm s')) a = ukey (fst (us_lm s)) a
      \<and> (uhead (fst (us_lm s')) a = uhead (fst (us_lm s)) a \<or> vprev (snd (us_lm s')) (uhead (fst (us_lm s')) a) = uhead (fst (us_lm s)) a)"
    using k(2) h unfolding n unodes_def ukept_def by simp
  moreover have "\<forall>p. is_ver (snd (us_lm s)) p \<longrightarrow> is_ver (snd (us_lm s')) p \<and> vval (snd (us_lm s')) p = vval (snd (us_lm s)) p
      \<and> vprev (snd (us_lm s')) p = vprev (snd (us_lm s)) p" using k(2) unfolding ukept_def by blast
  ultimately show ?thesis by (rule conjI)
qed

text \<open>C31. Under every interleaving, the list has as many keys as its counter says and, besides, one for every insertion that
  has linked its node and not counted it yet: so the counter never exceeds the number of keys, and an insertion that is
  refused with -2 is refused by a list of at least ten keys.\<close>

theorem uruv_conc_counts:
  assumes "ureach s"
  shows "finite {i. upend (us_pc s i)} \<and> length (u_chain (fst (us_lm s))) = rl_size (fst (us_lm s)) + card {i. upend (us_pc s i)}"
proof -
  obtain fl where fl: "usinv s 1 fl" using ureach_usinv [OF assms] by blast
  have "length fl = Suc (length (u_chain (fst (us_lm s))))" using fl_chain [OF fl] by simp
  then show ?thesis using usinvD(4) [OF fl] by (simp add: ucount_ok_def pending_def)
qed

text \<open>C32. In every state that the threads of the versioned list can reach, the keys of the list increase strictly below the
  greatest key, no word is marked, every node's versions are there, and no step of any operation fails.\<close>

theorem uruv_conc_safe:
  assumes "ureach s"
  shows "sorted_wrt (<) (map (ukey (fst (us_lm s))) (u_chain (fst (us_lm s))))
    \<and> list_all (\<lambda>a. ukey (fst (us_lm s)) a < key_max \<and> \<not> tp_mark (uword (fst (us_lm s)) a) \<and> is_ver (snd (us_lm s)) (uhead (fst (us_lm s)) a))
        (u_chain (fst (us_lm s)))
    \<and> (\<forall>i. \<exists>r. u_step (us_pc s i) (us_lm s) = Inr r)"
proof -
  obtain fl where fl: "usinv s 1 fl" using ureach_usinv [OF assms] by blast
  note inv = usinvD(1) [OF fl]
  have ch: "u_chain (fst (us_lm s)) = tl fl" by (rule u_chain_eq [OF inv])
  note n = unodes_tl(1) [OF uinvD(2) [OF inv]]
  have "sorted_wrt (<) (map (ukey (fst (us_lm s))) (tl fl))" using uorderD(5) [OF uinvD(2) [OF inv]] by (simp add: sorted_wrt_append)
  moreover have "ukey (fst (us_lm s)) a < key_max \<and> \<not> tp_mark (uword (fst (us_lm s)) a) \<and> is_ver (snd (us_lm s)) (uhead (fst (us_lm s)) a)"
    if "a \<in> set (tl fl)" for a
  proof -
    have a: "a \<in> unodes fl (fst (us_lm s))" "a \<in> set fl" using that n by (auto simp: unodes_def)
    have "a \<in> udom (fst (us_lm s))" using ubaseD(3) [OF uinvD(1) [OF inv]] a(2) by blast
    then show ?thesis using ukey_less [OF uinvD(2) [OF inv] a(1)] uwordsD(2,3) [OF uinvD(3) [OF inv]] a(2) by blast
  qed
  moreover have "\<exists>r. u_step (us_pc s i) (us_lm s) = Inr r" for i
    using ubusy_step [OF fl, of i] by (cases "us_pc s i = UIdle") (auto simp: ustep_ok_def)
  ultimately show ?thesis unfolding ch list_all_iff by blast
qed

section \<open>Witnesses\<close>

text \<open>States in which the hypotheses hold: an insertion before it links its node, before it has counted it, finished;
  an update before it exchanges the head of the versions; a finished collection.\<close>

lemma u_run:
  assumes "u_ends as (\<lambda>lm p. Q lm p \<and> (case u_step (p 0) lm of Inl e \<Rightarrow> False | Inr x \<Rightarrow> R (fst x) (snd x)))"
  obtains s s' where "ureach s" "Q (us_lm s) (us_pc s)" "ustep s s'" "R (us_pc s' 0) (us_lm s')" "\<And>j. j \<noteq> 0 \<Longrightarrow> us_pc s' j = us_pc s j"
proof -
  obtain s where s: "ureach s" "Q (us_lm s) (us_pc s)" "case u_step (us_pc s 0) (us_lm s) of Inl e \<Rightarrow> False | Inr x \<Rightarrow> R (fst x) (snd x)"
    using u_endsD [OF assms] by metis
  obtain x where x: "u_step (us_pc s 0) (us_lm s) = Inr x" "R (fst x) (snd x)" using s(3) by (auto split: sum.splits)
  then have "u_step (us_pc s 0) (us_lm s) = Inr (fst x, snd x)" by simp
  from that [OF s(1,2) ustep.atomic [OF this]] x(2) show ?thesis by simp
qed

theorem uruv_conc_effects_witness:
  "\<exists>s s'. ureach s \<and> ustep s s' \<and> us_pc s 0 = ULink 5 7 2 1 3 \<and> us_pc s' 0 = ULinked 5 7 3
     \<and> u_content (us_lm s') = (u_content (us_lm s))(5 \<mapsto> 7)"
proof -
  have "u_ends (take 5 usched_put) (\<lambda>lm p. p 0 = ULink 5 7 2 1 3 \<and> (case u_step (p 0) lm of Inl e \<Rightarrow> False | Inr x \<Rightarrow> fst x = ULinked 5 7 3))"
    by code_simp
  then show ?thesis
  proof (rule u_run)
    fix s s' assume s: "ureach s" "us_pc s 0 = ULink 5 7 2 1 3" "ustep s s'" "us_pc s' 0 = ULinked 5 7 3"
    obtain i where i: "\<forall>j. j \<noteq> i \<longrightarrow> us_pc s' j = us_pc s j" "ueffect (us_pc s i) (us_pc s' i) (u_content (us_lm s)) (u_content (us_lm s'))"
      using uruv_conc_effects [OF s(1,3)] by blast
    have "i = 0"
    proof (rule ccontr)
      assume "i \<noteq> 0"
      then have "us_pc s' 0 = us_pc s 0" using i(1) [rule_format, of 0] by simp
      then show False using s(2,4) by simp
    qed
    then show ?thesis using i(2) s by (intro exI [of _ s] exI [of _ s']) (simp add: ueffect_def)
  qed
qed

theorem uruv_conc_answers_witness:
  "\<exists>s. ureach s \<and> us_pc s 0 = UDone (UInsert 5 7) (UInt 1) \<and> saw_none (us_seen s 0) 5 \<and> saw (us_seen s 0) 5 7"
proof -
  have "u_ends (take 11 usched_put) (\<lambda>lm p. p 0 = UDone (UInsert 5 7) (UInt 1))" by code_simp
  then obtain s where s: "ureach s" "us_pc s 0 = UDone (UInsert 5 7) (UInt 1)" by (rule u_endsD) blast
  from uruv_conc_answers [OF this] show ?thesis using s by (intro exI [of _ s]) simp
qed

theorem uruv_conc_collect_witness:
  "\<exists>s p. ureach s \<and> us_pc s 1 = UDone UCollect (UList [(5, p)]) \<and> u_closed (fst (us_lm s)) \<and> saw_version (us_seen s 1) (snd (us_lm s)) 5 p
     \<and> us_pc s 2 = UDone UCollect (UBool False) \<and> rl_isReclaimed (fst (us_lm s))"
proof -
  have "u_ends (usched_put @ usched_two) (\<lambda>lm p. p 1 = UDone UCollect (UList [(5, clean 3)]) \<and> p 2 = UDone UCollect (UBool False))"
    by code_simp
  then show ?thesis
  proof (rule u_endsD)
    fix s assume s: "ureach s" "us_pc s 1 = UDone UCollect (UList [(5, clean 3)]) \<and> us_pc s 2 = UDone UCollect (UBool False)"
    note c1 = uruv_conc_collect [OF s(1) conjunct1 [OF s(2)]] and c2 = uruv_conc_collect [OF s(1) conjunct2 [OF s(2)]]
    have "saw_version (us_seen s 1) (snd (us_lm s)) 5 (clean 3)" using conjunct1 [OF conjunct2 [OF c1]] by auto
    moreover have "rl_isReclaimed (fst (us_lm s))" using conjunct1 [OF conjunct2 [OF c2]] by auto
    ultimately show ?thesis using s conjunct1 [OF c1] by (intro exI [of _ s] exI [of _ "clean 3"]) simp
  qed
qed

theorem uruv_conc_lost_update_witness:
  "\<exists>s s' p. ureach s \<and> ustep\<^sup>*\<^sup>* s s' \<and> us_pc s' 0 = UDone (UInsert 5 8) (UInt 0) \<and> u_content (us_lm s') 5 = Some 8
     \<and> us_pc s' 1 = UDone UCollect (UList [(5, p)]) \<and> vval (snd (us_lm s')) p \<noteq> 8"
proof -
  have "u_ends (usched_put @ usched_late) (\<lambda>lm p. p 1 = UDone UCollect (UList [(5, clean 3)]) \<and> p 0 = UCas1 5 8 3 (clean 3) (clean 4)
     \<and> uhead (fst lm) 3 = clean 3)" by code_simp
  then show ?thesis
  proof (rule u_endsD)
    fix s assume s: "ureach s" "us_pc s 1 = UDone UCollect (UList [(5, clean 3)]) \<and> us_pc s 0 = UCas1 5 8 3 (clean 3) (clean 4)
     \<and> uhead (fst (us_lm s)) 3 = clean 3"
    have m: "(5, clean 3) \<in> set [(5 :: key_t, clean 3)]" by simp
    from uruv_conc_lost_update [OF s(1) conjunct1 [OF s(2)] conjunct1 [OF conjunct2 [OF s(2)]] conjunct2 [OF conjunct2 [OF s(2)]] m]
    show ?thesis using s(1) m by (elim exE conjE) (intro exI conjI, assumption+, blast)
  qed
qed

theorem uruv_conc_history_witness:
  "\<exists>s s'. ureach s \<and> ustep s s' \<and> u_chain (fst (us_lm s)) = [3] \<and> uhead (fst (us_lm s)) 3 = clean 3
     \<and> uhead (fst (us_lm s')) 3 = clean 4 \<and> vprev (snd (us_lm s')) (clean 4) = clean 3"
proof -
  have "u_ends (usched_put @ usched_late) (\<lambda>lm p. (u_chain (fst lm) = [3] \<and> uhead (fst lm) 3 = clean 3)
     \<and> (case u_step (p 0) lm of Inl e \<Rightarrow> False | Inr x \<Rightarrow> uhead (fst (snd x)) 3 = clean 4))" by code_simp
  then show ?thesis
  proof (rule u_run)
    fix s s' assume s: "ureach s" "u_chain (fst (us_lm s)) = [3] \<and> uhead (fst (us_lm s)) 3 = clean 3" "ustep s s'" "uhead (fst (us_lm s')) 3 = clean 4"
    have "3 \<in> set (u_chain (fst (us_lm s)))" using s(2) by simp
    with uruv_conc_history [OF s(1,3)] have "uhead (fst (us_lm s')) 3 = uhead (fst (us_lm s)) 3
        \<or> vprev (snd (us_lm s')) (uhead (fst (us_lm s')) 3) = uhead (fst (us_lm s)) 3" by blast
    then show ?thesis using s by (intro exI [of _ s] exI [of _ s']) simp
  qed
qed

theorem uruv_conc_counts_witness:
  "\<exists>s. ureach s \<and> u_chain (fst (us_lm s)) = [3] \<and> rl_size (fst (us_lm s)) = 0 \<and> card {i. upend (us_pc s i)} = 1"
proof -
  have "u_ends (take 6 usched_put) (\<lambda>lm p. u_chain (fst lm) = [3] \<and> rl_size (fst lm) = 0)" by code_simp
  then obtain s where s: "ureach s" "u_chain (fst (us_lm s)) = [3]" "rl_size (fst (us_lm s)) = 0" by (rule u_endsD) blast
  from uruv_conc_counts [OF s(1)] show ?thesis using s by (intro exI [of _ s]) simp
qed

theorem uruv_conc_safe_witness:
  "\<exists>s. ureach s \<and> map (ukey (fst (us_lm s))) (u_chain (fst (us_lm s))) = [5] \<and> (\<exists>pc x p. us_pc s 0 = UCas1 5 8 3 p x
     \<and> u_step (us_pc s 0) (us_lm s) = Inr pc)"
proof -
  have "u_ends (usched_put @ usched_late) (\<lambda>lm p. map (ukey (fst lm)) (u_chain (fst lm)) = [5] \<and> p 0 = UCas1 5 8 3 (clean 3) (clean 4))"
    by code_simp
  then show ?thesis
  proof (rule u_endsD)
    fix s assume s: "ureach s" "map (ukey (fst (us_lm s))) (u_chain (fst (us_lm s))) = [5] \<and> us_pc s 0 = UCas1 5 8 3 (clean 3) (clean 4)"
    from conjunct2 [OF conjunct2 [OF uruv_conc_safe [OF s(1)]], rule_format, of 0]
    obtain r where r: "u_step (us_pc s 0) (us_lm s) = Inr r" ..
    show ?thesis
      by (intro exI [of _ s] conjI exI [of _ r] exI [of _ "clean 4"] exI [of _ "clean 3"] s(1) r conjunct1 [OF s(2)] conjunct2 [OF s(2)])
  qed
qed

end
