(* ===== verification/Spec2Isabelle.thy ===== *)
theory Spec2Isabelle
  imports Kanva Kanva_RS_Correct Level_Bin_Correct Aidel_Correct LF_LL_Conc_Solo Versions_Conc_Correct Uruv_Conc_Correct
begin

text \<open>
  Verification of Kanva, a learned index for concurrent workloads, of its variant with range queries and of
  the Finedex index it is compared with.

  \<^bold>\<open>The program.\<close> A Kanva index (\<open>src/Kanva_impl/kanva.h\<close>, \<open>kanva_impl.h\<close>) is trained on sorted keys: it cuts
  them into nodes (\<open>kanva_model.h\<close>, \<open>kanva_model_impl.h\<close>), each with a linear regression model
  (\<open>src/common/lr_model.h\<close>, \<open>lr_model_impl.h\<close>) that predicts a key's position, and keeps the last key of each
  node for routing by \<open>binary_search_branchless\<close> (\<open>src/common/util.h\<close>). Keys that come later go into slots
  between the trained keys: a slot is empty, a bin (\<open>Bin_LL/Bin.h\<close> with \<open>Node.h\<close>, \<open>Leaf_Node.h\<close>,
  \<open>Root_Node.h\<close>), or a new node made of a bin that became full. The leaves of a bin are lock-free linked lists
  (\<open>Bin_LL/LF_LL.h\<close>, \<open>util1.h\<close>), deleted from by a mark bit and closed by a freeze bit in the next pointers.
  The variant \<open>src/Kanva_RS\<close> has the same shape with versioned cells (\<open>util.h\<close>) and versioned lists
  (\<open>Uruv/LF_LL.h\<close>, \<open>Uruv/util.h\<close>) and a list of timestamps (\<open>Uruv/VersionTracker\<close>) for range queries. Finedex
  (\<open>src/Finedex\<close>) has level bins with locks (\<open>level_bin_con.h\<close>) in the slots of its nodes
  (\<open>aidel_model.h\<close>, \<open>aidel_model_impl.h\<close>) below its index (\<open>aidel.h\<close>, \<open>aidel_impl.h\<close>).

  \<^bold>\<open>Theories and what their lemmas show.\<close>
  \<^item> \<open>Prelude\<close>: the scalar types, results (\<open>err + 'a\<close>), checked accesses, and the locales for interfaces: sorted
    searches, and \<open>op_safety\<close>, runs of operations that keep an invariant.
  \<^item> \<open>Tagged_Ptr\<close>: the mark and freeze bits on 64-bit words and their decoded form; the encoding is faithful.
  \<^item> \<open>LF_LL\<close>: the lock-free list over a store of nodes; every run refines a sorted list with a frozen flag.
  \<^item> \<open>LF_LL_Conc\<close>, \<open>LF_LL_Conc_Inv\<close>, \<open>LF_LL_Conc_Step\<close>, \<open>LF_LL_Conc_Correct\<close>, \<open>LF_LL_Conc_Solo\<close>: the
    same list, one shared access at a time, under every interleaving: the invariant of the chain, what a thread
    knows at each point, which steps change the content, that answers were true at some moment, that a
    collection closes the list, that a thread alone ends and does what its specification says, and from which
    states two removals take one key and a removal takes a key out of a list that has been collected.
  \<^item> \<open>Search\<close>: the branchless search equals the number of smaller keys (\<open>lb\<close>).
  \<^item> \<open>Bin\<close>, \<open>Bin_Spec\<close>: the two-level bin, its invariant and view; every operation on every branch, splits and the
    closing of a full root included; runs refine the view.
  \<^item> \<open>LR_Model\<close>: training and prediction over an arbitrary floating-point arithmetic; the recorded maximal error
    bounds the distance between predicted and real position.
  \<^item> \<open>Kanva_Model\<close>, \<open>Kanva_Model_Spec\<close>: the learned node; trained keys are found, insertion is safe and changes one
    key only, retraining keeps the pairs.
  \<^item> \<open>Kanva\<close>: the index; training ends and cuts the keys without loss, trained keys are found, runs are safe.
  \<^item> \<open>Version_Tracker\<close>: timestamps under every interleaving of threads: unique and monotone.
  \<^item> \<open>Versions\<close>, \<open>Uruv_LL\<close>, \<open>Uruv_Spec\<close>, \<open>Uruv_Refine\<close>: versioned cells and lists; runs refine sorted lists of keys
    with version histories.
  \<^item> \<open>Versions_Conc\<close>, \<open>Versions_Conc_Inv\<close>, \<open>Versions_Conc_Step\<close>, \<open>Versions_Conc_Correct\<close>: the versioned cells and the tracker
    together under every interleaving: queries with one timestamp see one snapshot, which can lack a value that
    searches read.
  \<^item> \<open>Uruv_Conc\<close>, \<open>Uruv_Conc_Inv\<close>, \<open>Uruv_Conc_Step\<close>, \<open>Uruv_Conc_Thread\<close>, \<open>Uruv_Conc_Correct\<close>: insertions, removals,
    searches and collections of the versioned list (\<open>Kanva_RS/Uruv/LF_LL.h\<close>) under every interleaving, with
    \<open>isReclaimed\<close> set by threads that have collected it (\<open>kanva_RS_model_impl.h\<close>): which steps change the content,
    that answers were true at some moment, that no version is lost, that a collection closes the list to new keys, and
    from which states it loses an update of a present key.
  \<^item> \<open>Kanva_RS_Model\<close>, \<open>Kanva_RS_Model_Spec\<close>, \<open>Kanva_RS\<close>, \<open>Kanva_RS_Ops\<close>, \<open>Kanva_RS_Spec\<close>, \<open>Kanva_RS_Correct\<close>: node and
    index with range queries: exact location, training, insertion, removal, search, range queries, runs.
  \<^item> \<open>Level_Bin\<close>, \<open>Level_Bin_Spec\<close>, \<open>Level_Bin_Ops\<close>, \<open>Level_Bin_Remove\<close>, \<open>Level_Bin_Correct\<close>: the level bin as a map, with
    the removal that damages its root.
  \<^item> \<open>Aidel_Model\<close>, \<open>Aidel_Model_Spec\<close>, \<open>Aidel\<close>, \<open>Aidel_Correct\<close>: node and index of Finedex; its training is Kanva's,
    runs answer as a map does, scans do not.

  \<^bold>\<open>How state and operations correspond to the code.\<close> Classes are records, or datatypes where they contain
  themselves; member functions take the object and return it. Linked structures live in explicit stores from
  addresses to nodes, so that two pointers to one node see each other's writes; the trees of learned nodes,
  where every slot owns what it points to, are values. A failed \<open>assert\<close>, a null or freed pointer, an access
  out of range and a loop that runs out of fuel are different values of \<open>err\<close>. Sizes are \<open>nat\<close> below 2 to the
  64 with the wrap-around written out where it can occur, keys and values are 64-bit words. The \<open>double\<close>
  arithmetic and the bytes of uninitialised memory are arguments; the float learning rate occurs as the
  function \<open>int(step*learning_rate)\<close> and is assumed to halve at least (\<open>rate_ok\<close>).

  \<^bold>\<open>Fuel.\<close> Walks over a list get the number of addresses allocated so far, since they pass a node at most once
  (\<open>ll_brk\<close>, \<open>lb_brk\<close>, \<open>rl_brk\<close>); the operations on trees of nodes get the depth of the tree, one more where a
  full bin can become a node (\<open>km_depth\<close>, \<open>rs_depth\<close>, \<open>am_depth\<close>); \<open>rs_scan\<close> gets \<open>rs_scan_fuel\<close>, the length of the
  longest path of steps; training gets \<open>train_fuel\<close>, quadratic in the number of keys, as between two cuts the
  end moves forward; \<open>backward_train\<close> gets the step plus three (\<open>backward_fuel\<close>), as the step at least halves;
  one thread alone in the tracker needs at most six steps for a node. That these bounds are enough is part of
  the theorems: their results are never \<open>OutOfFuel\<close>, but for the scan of Finedex, which is proved not to return
  with any fuel.

  \<^bold>\<open>Not modelled.\<close> Interleavings are modelled for the tracker, for the lock-free list of a bin, for the versioned
  cells and for the versioned list but its range queries and reclamation, with sequentially consistent memory; the other operations run one thread at a time, with every lock, compare-exchange and retry
  written out. That the loops of the list end under a fair scheduler is not shown. Memory
  fences and reclamation by the record managers (third-party code) have no effect here. Left out are functions
  without a caller (\<open>train_opt\<close> with the piecewise linear models, the operations of Finedex on \<open>levelbins\<close>,
  the try-lock copy of the level bin's insertion), members that are declared but not defined, printing, the
  benchmark programs, and the vendored baselines (AB-tree, C-IST, Elim-AB-tree and the setbench library).
\<close>

end
